(* ===== verification/Prelude.thy ===== *)
theory Prelude
  imports Main "HOL-Library.Char_ord" "HOL-Library.List_Lexorder" "HOL-Library.Monad_Syntax"
    "HOL-Library.Word" "HOL-Library.Multiset"
begin

text \<open>
  The shared vocabulary of the development: the process environment the slapd sources read
  (run-time mode flags, the clock, the server ID), the abort monad that carries failed assertions,
  C strings and their library functions, and the generic list lemmas the components use.

  Conventions.
  \<^item> A C function that may stop the process (\<^verbatim>\<open>LDAP_ENSURE\<close>, \<^verbatim>\<open>LDAP_BUG\<close>, an active
    \<^verbatim>\<open>assert\<close>) or read outside its buffer returns \<open>'a option\<close>: \<open>None\<close> is exactly that outcome.
    A lemma whose conclusion is \<open>\<dots> = Some r\<close> therefore also says that no assertion fails.
  \<^item> A NUL-terminated string is its list of bytes without the NUL. A \<^verbatim>\<open>struct berval\<close> is a
    length and the bytes from \<^verbatim>\<open>bv_val\<close> up to the next NUL, because a berval may point into the
    middle of a longer string.
  \<^item> A \<^verbatim>\<open>BerVarray\<close> is the list of its elements before the empty terminator; a NULL array is
    the empty list.
\<close>

text \<open>Result codes of \<^verbatim>\<open>ldap.h\<close> that several components return.\<close>

definition LDAP_SUCCESS :: int where "LDAP_SUCCESS = 0"
definition LDAP_PROTOCOL_ERROR :: int where "LDAP_PROTOCOL_ERROR = 2"
definition LDAP_INVALID_SYNTAX :: int where "LDAP_INVALID_SYNTAX = 0x15"

section \<open>Environment and aborts\<close>

record env =
  env_assert :: bool   \<comment> \<open>\<^verbatim>\<open>assert\<close> is compiled in and active\<close>
  env_check :: bool    \<comment> \<open>\<^verbatim>\<open>reopenldap_mode_check()\<close>, the idkfa flag\<close>
  env_strict :: bool   \<comment> \<open>\<^verbatim>\<open>reopenldap_mode_strict()\<close>, the idclip flag\<close>
  env_now :: string    \<comment> \<open>what \<^verbatim>\<open>ldap_pvt_csnstr(.., 0, 0)\<close> prints at this moment\<close>
  env_stamp :: string  \<comment> \<open>the clock as \<^verbatim>\<open>%4d%02d%02d%02d%02d%02d.%06dZ\<close>\<close>
  slap_serverID :: int

definition ensure :: "bool \<Rightarrow> unit option" where
  "ensure b = (if b then Some () else None)"

definition assert_that :: "env \<Rightarrow> bool \<Rightarrow> unit option" where
  "assert_that e b = (if env_assert e \<and> \<not> b then None else Some ())"

definition when_check :: "env \<Rightarrow> unit option \<Rightarrow> unit option" where
  "when_check e m = (if env_check e then m else Some ())"

named_theorems abort_simps \<open>evaluation of the abort monad\<close>

lemma ensure_True [abort_simps]: "ensure True = Some ()"
  by (simp add: ensure_def)

lemma ensure_iff [abort_simps]: "ensure b = Some u \<longleftrightarrow> b"
  by (simp add: ensure_def)

lemma assert_that_True [abort_simps]: "assert_that e True = Some ()"
  by (simp add: assert_that_def)

lemma assert_that_iff [abort_simps]: "assert_that e b = Some u \<longleftrightarrow> (env_assert e \<longrightarrow> b)"
  by (simp add: assert_that_def)

lemma when_check_Some [abort_simps]: "when_check e (Some ()) = Some ()"
  by (simp add: when_check_def)

lemma when_check_iff [abort_simps]: "when_check e m = Some u \<longleftrightarrow> (env_check e \<longrightarrow> m = Some ())"
  by (simp add: when_check_def)

lemmas bind_Some_iff [abort_simps] = bind_eq_Some_conv

text \<open>Total correctness: the computation does not abort and its result satisfies \<open>Q\<close>. The
  rules compute the weakest precondition of a whole function body.\<close>

definition runs :: "'a option \<Rightarrow> ('a \<Rightarrow> bool) \<Rightarrow> bool" where
  "runs m Q \<longleftrightarrow> (\<exists>x. m = Some x \<and> Q x)"

named_theorems wp \<open>weakest preconditions of the abort monad\<close>

lemma runs_Some [wp]: "runs (Some x) Q \<longleftrightarrow> Q x"
  by (simp add: runs_def)

lemma runs_None [wp]: "\<not> runs None Q"
  by (simp add: runs_def)

lemma runs_bind [wp]: "runs (Option.bind m f) Q \<longleftrightarrow> runs m (\<lambda>x. runs (f x) Q)"
  by (cases m) (simp_all add: runs_def)

lemma runs_map_option [wp]: "runs (map_option f m) Q \<longleftrightarrow> runs m (\<lambda>x. Q (f x))"
  by (cases m) (simp_all add: runs_def)

lemma runs_ensure [wp]: "runs (ensure b) Q \<longleftrightarrow> b \<and> Q ()"
  by (simp add: runs_def ensure_def)

lemma runs_assert_that [wp]: "runs (assert_that e b) Q \<longleftrightarrow> (env_assert e \<longrightarrow> b) \<and> Q ()"
  by (auto simp: runs_def assert_that_def)

lemma runs_when_check [wp]:
  "runs (when_check e m) Q \<longleftrightarrow> (if env_check e then runs m Q else Q ())"
  by (simp add: runs_def when_check_def)

lemma runs_if [wp]: "runs (if b then m else n) Q \<longleftrightarrow> (if b then runs m Q else runs n Q)"
  by simp

lemma runs_Let [wp]: "runs (Let x f) Q \<longleftrightarrow> runs (f x) Q"
  by (simp add: Let_def)

lemma runs_mono: "runs m P \<Longrightarrow> (\<And>x. P x \<Longrightarrow> Q x) \<Longrightarrow> runs m Q"
  by (auto simp: runs_def)

lemma runsD: "runs m P \<Longrightarrow> m = Some x \<Longrightarrow> P x"
  by (simp add: runs_def)

lemma runs_conj: "runs m P \<Longrightarrow> runs m Q \<Longrightarrow> runs m (\<lambda>x. P x \<and> Q x)"
  by (auto simp: runs_def)

section \<open>Bytes and strings\<close>

text \<open>Characters compare by their codes; on \<open>int\<close> the comparison of two literals evaluates in
  binary.\<close>

lemma less_eq_char_code [code]: "(c :: char) \<le> d \<longleftrightarrow> (of_char c :: int) \<le> of_char d"
proof -
  have "(of_char c :: int) = int (of_char c)" "(of_char d :: int) = int (of_char d)"
    by (simp_all add: of_nat_of_char)
  then show ?thesis by (simp add: less_eq_char_def)
qed

lemma less_char_code [code]: "(c :: char) < d \<longleftrightarrow> (of_char c :: int) < of_char d"
  by (simp add: less_le less_eq_char_code)

abbreviation NUL :: char where
  "NUL \<equiv> CHR 0x00"

record berval =
  bv_len :: nat
  bv_val :: string

text \<open>The berval of a NUL-terminated string.\<close>

definition bv :: "string \<Rightarrow> berval" where
  "bv s = \<lparr>bv_len = length s, bv_val = s\<rparr>"

lemma bv_sel [simp]: "bv_len (bv s) = length s" "bv_val (bv s) = s"
  by (simp_all add: bv_def)

text \<open>The byte at \<^verbatim>\<open>s[i]\<close>, its terminator included.\<close>

definition byte :: "string \<Rightarrow> nat \<Rightarrow> char" where
  "byte s i = (if i < length s then s ! i else NUL)"

text \<open>The sign of a comparison; C fixes no more than the sign of \<^verbatim>\<open>memcmp\<close>.\<close>

definition cmp :: "'a::linorder \<Rightarrow> 'a \<Rightarrow> int" where
  "cmp x y = (if x < y then - 1 else if y < x then 1 else 0)"

lemma cmp_simps [simp]:
  "cmp x y < 0 \<longleftrightarrow> x < y" "0 < cmp x y \<longleftrightarrow> y < x" "cmp x y = 0 \<longleftrightarrow> x = y"
  "cmp x y \<le> 0 \<longleftrightarrow> x \<le> y" "0 \<le> cmp x y \<longleftrightarrow> y \<le> x" "cmp x x = 0"
  by (auto simp: cmp_def)

lemma cmp_swap: "cmp y x = - cmp x y"
  by (auto simp: cmp_def)

fun memcmp :: "string \<Rightarrow> string \<Rightarrow> int" where
  "memcmp (x # xs) (y # ys) = (if x < y then - 1 else if y < x then 1 else memcmp xs ys)"
| "memcmp _ _ = 0"

text \<open>\<^verbatim>\<open>memcmp(a, b, n)\<close> over two NUL-terminated buffers; reading past a terminator is outside
  the buffer.\<close>

definition memcmp_n :: "string \<Rightarrow> string \<Rightarrow> nat \<Rightarrow> int option" where
  "memcmp_n a b n =
     (if n \<le> Suc (length a) \<and> n \<le> Suc (length b)
      then Some (memcmp (take n (a @ [NUL])) (take n (b @ [NUL]))) else None)"

lemma memcmp_cmp: "length xs = length ys \<Longrightarrow> memcmp xs ys = cmp xs ys"
  by (induction xs ys rule: list_induct2) (auto simp: cmp_def)

lemma memcmp_n_cmp:
  "n \<le> length a \<Longrightarrow> n \<le> length b \<Longrightarrow> memcmp_n a b n = Some (cmp (take n a) (take n b))"
  by (simp add: memcmp_n_def memcmp_cmp)

lemma cmp_Cons: "cmp (x # xs) (y # ys) = (if x = y then cmp xs ys else cmp x y)"
  by (auto simp: cmp_def)

lemma cmp_append:
  fixes a a' b b' :: "'a::linorder list"
  assumes "length a = length a'"
  shows "cmp (a @ b) (a' @ b') = (if a = a' then cmp b b' else cmp a a')"
  using assms by (induction a a' rule: list_induct2) (auto simp: cmp_Cons)

definition isdigit :: "char \<Rightarrow> bool" where
  "isdigit c \<longleftrightarrow> CHR ''0'' \<le> c \<and> c \<le> CHR ''9''"

definition is_lower_hex :: "char \<Rightarrow> bool" where
  "is_lower_hex c \<longleftrightarrow> CHR ''a'' \<le> c \<and> c \<le> CHR ''f''"

definition is_upper_hex :: "char \<Rightarrow> bool" where
  "is_upper_hex c \<longleftrightarrow> CHR ''A'' \<le> c \<and> c \<le> CHR ''F''"

definition isspace :: "char \<Rightarrow> bool" where
  "isspace c \<longleftrightarrow> c \<in> {CHR '' '', CHR 0x09, CHR 0x0A, CHR 0x0B, CHR 0x0C, CHR 0x0D}"

definition code :: "char \<Rightarrow> int" where
  "code c = of_char c"

definition xdigit :: "char \<Rightarrow> int option" where
  "xdigit c =
     (if isdigit c then Some (code c - 48)
      else if is_upper_hex c then Some (code c - 55)
      else if is_lower_hex c then Some (code c - 87) else None)"

definition xvalue :: "int \<Rightarrow> string \<Rightarrow> int" where
  "xvalue b s = foldl (\<lambda>r c. r * b + the (xdigit c)) 0 s"

text \<open>
  \<^verbatim>\<open>strtol(s, &end, b)\<close> for base 10 and 16: the value and the number of bytes consumed, 0
  when there is no conversion. Its clamping to the range of long is left out: the callers modelled
  here refuse every value outside the range of int, the clamped ones too.
\<close>

definition digit_below :: "int \<Rightarrow> char \<Rightarrow> bool" where
  "digit_below b c = (case xdigit c of None \<Rightarrow> False | Some d \<Rightarrow> d < b)"

definition strtol :: "int \<Rightarrow> string \<Rightarrow> int \<times> nat" where
  "strtol b s =
     (let ws = length (takeWhile isspace s);
          s1 = drop ws s;
          sg = (if s1 \<noteq> [] \<and> hd s1 \<in> {CHR ''-'', CHR ''+''} then 1 else 0);
          s2 = drop sg s1;
          px = (if b = 16 \<and> length s2 > 2 \<and> s2 ! 0 = CHR ''0'' \<and> s2 ! 1 \<in> {CHR ''x'', CHR ''X''}
                   \<and> digit_below b (s2 ! 2) then 2 else 0);
          ds = takeWhile (digit_below b) (drop px s2)
      in if ds = [] then (0, 0)
         else ((if sg = 1 \<and> hd s1 = CHR ''-'' then - xvalue b ds else xvalue b ds),
               ws + sg + px + length ds))"

definition tolower :: "char \<Rightarrow> char" where
  "tolower c = (if CHR ''A'' \<le> c \<and> c \<le> CHR ''Z'' then char_of (code c + 32) else c)"

text \<open>\<^verbatim>\<open>strcasecmp(s, t) == 0\<close>.\<close>

definition strcaseeq :: "string \<Rightarrow> string \<Rightarrow> bool" where
  "strcaseeq s t \<longleftrightarrow> map tolower s = map tolower t"

text \<open>Two's complement wrap-around of a C \<^verbatim>\<open>int\<close>.\<close>

definition int32 :: "int \<Rightarrow> int" where
  "int32 x = (x + 2 ^ 31) mod 2 ^ 32 - 2 ^ 31"

lemma int32_id [simp]: "- (2 ^ 31) \<le> x \<Longrightarrow> x < 2 ^ 31 \<Longrightarrow> int32 x = x"
  by (simp add: int32_def)

section \<open>Printing numbers\<close>

definition xchar :: "int \<Rightarrow> char" where
  "xchar d = (if d < 10 then char_of (48 + d) else char_of (87 + d))"

function digits_of :: "int \<Rightarrow> int \<Rightarrow> string" where
  "digits_of b n =
     (if b \<le> 1 \<or> n < b then [xchar n] else digits_of b (n div b) @ [xchar (n mod b)])"
  by pat_completeness auto
termination
  by (relation "measure (\<lambda>(b, n). nat n)") (auto intro: int_div_less_self)

declare digits_of.simps [simp del]

text \<open>\<^verbatim>\<open>%0<w>d\<close> (base 10) and \<^verbatim>\<open>%0<w>x\<close> (base 16) of a non-negative number.\<close>

definition padded :: "int \<Rightarrow> nat \<Rightarrow> int \<Rightarrow> string" where
  "padded b w n = (let ds = digits_of b n in replicate (w - length ds) (CHR ''0'') @ ds)"

text \<open>\<^verbatim>\<open>%d\<close> and \<^verbatim>\<open>%ld\<close>.\<close>

definition print_int :: "int \<Rightarrow> string" where
  "print_int x = (if x < 0 then CHR ''-'' # digits_of 10 (- x) else digits_of 10 x)"

section \<open>Reading printed numbers back\<close>

lemma digit_range: "0 \<le> d \<Longrightarrow> d < 16 \<Longrightarrow> d \<in> {0,1,2,3,4,5,6,7,8,9,10,11,12,13,14,15 :: int}"
  by simp presburger

lemma xdigit_xchar: "0 \<le> d \<Longrightarrow> d < 16 \<Longrightarrow> xdigit (xchar d) = Some d"
proof -
  have "\<forall>d\<in>{0,1,2,3,4,5,6,7,8,9,10,11,12,13,14,15}. xdigit (xchar d) = Some d"
    by code_simp
  then show "0 \<le> d \<Longrightarrow> d < 16 \<Longrightarrow> ?thesis" using digit_range by blast
qed

text \<open>A digit is none of the characters \<^verbatim>\<open>strtol\<close> treats specially.\<close>

lemma digit_below_plain:
  "digit_below b c \<Longrightarrow> \<not> isspace c \<and> c \<noteq> CHR ''-'' \<and> c \<noteq> CHR ''+'' \<and> c \<noteq> CHR ''x'' \<and> c \<noteq> CHR ''X''"
proof -
  have "list_all (\<lambda>c. xdigit c = None) [CHR '' '', CHR 0x09, CHR 0x0A, CHR 0x0B, CHR 0x0C, CHR 0x0D,
      CHR ''-'', CHR ''+'', CHR ''x'', CHR ''X'']"
    by code_simp
  then show "digit_below b c \<Longrightarrow> ?thesis"
    by (auto simp: digit_below_def isspace_def)
qed

lemma xvalue_snoc: "xvalue b (s @ [c]) = xvalue b s * b + the (xdigit c)"
  by (simp add: xvalue_def)

lemma digits_of_spec:
  assumes "0 \<le> n" "2 \<le> b" "b \<le> 16"
  shows "xvalue b (digits_of b n) = n \<and> list_all (digit_below b) (digits_of b n) \<and> digits_of b n \<noteq> []"
  using assms
proof (induction b n rule: digits_of.induct)
  case (1 b n)
  have small: "xdigit (xchar d) = Some d" if "0 \<le> d" "d < b" for d
    using xdigit_xchar that "1.prems" by simp
  show ?case
  proof (cases "n < b")
    case True
    then show ?thesis
      using 1 small by (subst (1 2 3) digits_of.simps) (simp add: digit_below_def xvalue_def)
  next
    case False
    then have "0 \<le> n div b" "0 \<le> n mod b" "n mod b < b"
      using "1.prems" by (simp_all add: pos_imp_zdiv_nonneg_iff)
    then show ?thesis
      using 1 False small by (subst (1 2 3) digits_of.simps) (simp add: xvalue_snoc digit_below_def [of b "xchar _"])
  qed
qed

lemma takeWhile_list_all: "list_all P xs \<Longrightarrow> takeWhile P xs = xs"
  by (induction xs) simp_all

lemma takeWhile_stop: "list_all P xs \<Longrightarrow> ys = [] \<or> \<not> P (hd ys) \<Longrightarrow> takeWhile P (xs @ ys) = xs"
  by (induction xs) (auto simp: takeWhile_eq_Nil_iff)

text \<open>\<^verbatim>\<open>strtol\<close> on a run of digits that ends at a non-digit.\<close>

lemma strtol_digits:
  assumes ds: "list_all (digit_below b) ds" "ds \<noteq> []" and r: "r = [] \<or> \<not> digit_below b (hd r)"
    and x: "r = [] \<or> hd r \<notin> {CHR ''x'', CHR ''X''}"
  shows "strtol b (ds @ r) = (xvalue b ds, length ds)"
proof -
  obtain c cs where c: "ds = c # cs" using ds(2) by (cases ds) auto
  have p: "\<not> isspace c" "c \<noteq> CHR ''-''" "c \<noteq> CHR ''+''"
    using ds c digit_below_plain [of b c] by auto
  have np: "\<not> (length (ds @ r) > 2 \<and> (ds @ r) ! 1 \<in> {CHR ''x'', CHR ''X''})"
  proof (cases cs)
    case Nil
    with c x show ?thesis by (cases r) auto
  next
    case (Cons d ds')
    with c ds digit_below_plain [of b d] show ?thesis by auto
  qed
  have "takeWhile (digit_below b) (ds @ r) = ds"
    using ds r by (rule_tac takeWhile_stop)
  moreover have "takeWhile isspace (ds @ r) = []" using c p by simp
  moreover have "hd (ds @ r) \<notin> {CHR ''-'', CHR ''+''}" using c p by simp
  ultimately show ?thesis
    unfolding strtol_def Let_def using np ds by auto
qed

lemma strtol_digits_of:
  "0 \<le> n \<Longrightarrow> 2 \<le> b \<Longrightarrow> b \<le> 16 \<Longrightarrow> strtol b (digits_of b n) = (n, length (digits_of b n))"
  using strtol_digits [of b "digits_of b n" "[]"] digits_of_spec [of n b] by simp

lemma xvalue_zeros: "xvalue b (replicate k (CHR ''0'') @ s) = xvalue b s"
proof -
  have "xdigit (CHR ''0'') = Some 0" by code_simp
  then show ?thesis by (induction k) (simp_all add: xvalue_def)
qed

lemma padded_spec:
  assumes "0 \<le> n" "2 \<le> b" "b \<le> 16"
  shows "xvalue b (padded b w n) = n \<and> list_all (digit_below b) (padded b w n) \<and> padded b w n \<noteq> []"
proof -
  have "xdigit (CHR ''0'') = Some 0" by code_simp
  then have "digit_below b (CHR ''0'')" using assms by (simp add: digit_below_def)
  with digits_of_spec [OF assms] show ?thesis
    by (auto simp: padded_def Let_def xvalue_zeros list_all_iff)
qed

lemma length_digits_of:
  assumes "2 \<le> b" "0 \<le> n" "n < b ^ w" "0 < w"
  shows "length (digits_of b n) \<le> w"
  using assms
proof (induction w arbitrary: n)
  case (Suc w)
  show ?case
  proof (cases "n < b")
    case False
    with Suc.prems have "w \<noteq> 0" by (intro notI) simp
    moreover have "n div b * b \<le> n"
      using Suc.prems div_mult_mod_eq [of n b] pos_mod_sign [of b n] by linarith
    then have "n div b * b < b ^ w * b"
      using Suc.prems(3) unfolding power_Suc2 by (rule le_less_trans)
    then have "n div b < b ^ w"
      using Suc.prems(1) by (auto intro: mult_right_less_imp_less)
    ultimately have "length (digits_of b (n div b)) \<le> w"
      using Suc by (simp add: pos_imp_zdiv_nonneg_iff)
    with False Suc.prems show ?thesis by (subst digits_of.simps) simp
  qed (simp add: digits_of.simps)
qed simp

lemma length_padded: "2 \<le> b \<Longrightarrow> 0 \<le> n \<Longrightarrow> n < b ^ w \<Longrightarrow> 0 < w \<Longrightarrow> length (padded b w n) = w"
  using length_digits_of [of b n w] by (simp add: padded_def Let_def)
section \<open>Sorting and ordered lists\<close>

text \<open>\<^verbatim>\<open>qsort\<close> of the C library. C leaves the order of elements that compare equal open; it is
  used here with comparisons that are zero on equal values only, so every implementation gives the
  same array.\<close>

fun qs_insert :: "('a \<Rightarrow> 'a \<Rightarrow> int) \<Rightarrow> 'a \<Rightarrow> 'a list \<Rightarrow> 'a list" where
  "qs_insert f x [] = [x]"
| "qs_insert f x (y # ys) = (if f x y \<le> 0 then x # y # ys else y # qs_insert f x ys)"

definition qsort :: "('a \<Rightarrow> 'a \<Rightarrow> int) \<Rightarrow> 'a list \<Rightarrow> 'a list" where
  "qsort f xs = foldr (qs_insert f) xs []"

lemma mset_qs_insert [simp]: "mset (qs_insert f x xs) = add_mset x (mset xs)"
  by (induction xs) auto

lemma mset_qsort [simp]: "mset (qsort f xs) = mset xs"
  by (induction xs) (simp_all add: qsort_def)

lemma set_qs_insert [simp]: "set (qs_insert f x xs) = insert x (set xs)"
  by (induction xs) auto

lemma set_qsort [simp]: "set (qsort f xs) = set xs"
  using mset_eq_setD [OF mset_qsort] .

lemma qsort_sorted:
  assumes total: "\<And>x y. x \<in> set xs \<Longrightarrow> y \<in> set xs \<Longrightarrow> f x y \<le> 0 \<or> f y x \<le> 0"
    and trans: "\<And>x y z. x \<in> set xs \<Longrightarrow> y \<in> set xs \<Longrightarrow> z \<in> set xs \<Longrightarrow>
      f x y \<le> 0 \<Longrightarrow> f y z \<le> 0 \<Longrightarrow> f x z \<le> 0"
  shows "sorted_wrt (\<lambda>x y. f x y \<le> 0) (qsort f xs)"
proof -
  have ins: "sorted_wrt (\<lambda>x y. f x y \<le> 0) (qs_insert f x ys)"
    if "sorted_wrt (\<lambda>x y. f x y \<le> 0) ys" "insert x (set ys) \<subseteq> set xs" for x ys
    using that
  proof (induction ys)
    case (Cons y ys)
    have "f x z \<le> 0" if "f x y \<le> 0" "z \<in> set ys" for z
      by (rule trans [of x y z]) (use that Cons.prems in auto)
    moreover have "f y x \<le> 0" if "\<not> f x y \<le> 0"
      using total [of x y] that Cons.prems by simp
    ultimately show ?case using Cons by (simp add: ball_Un)
  qed simp
  have "set ys \<subseteq> set xs \<Longrightarrow> sorted_wrt (\<lambda>x y. f x y \<le> 0) (qsort f ys)" for ys
  proof (induction ys)
    case Nil
    then show ?case by (simp add: qsort_def)
  next
    case (Cons y ys)
    then show ?case
      using ins [of "qsort f ys" y]
      by (simp add: qsort_def [of f "y # ys"] qsort_def [of f ys, symmetric])
  qed
  then show ?thesis by simp
qed

text \<open>\<^verbatim>\<open>qsort\<close> with a comparison that may abort.\<close>

fun qs_insertM :: "('a \<Rightarrow> 'a \<Rightarrow> int option) \<Rightarrow> 'a \<Rightarrow> 'a list \<Rightarrow> 'a list option" where
  "qs_insertM f x [] = Some [x]"
| "qs_insertM f x (y # ys) = do {
     c \<leftarrow> f x y;
     if c \<le> 0 then Some (x # y # ys)
     else do { zs \<leftarrow> qs_insertM f x ys; Some (y # zs) } }"

fun qsortM :: "('a \<Rightarrow> 'a \<Rightarrow> int option) \<Rightarrow> 'a list \<Rightarrow> 'a list option" where
  "qsortM f [] = Some []"
| "qsortM f (x # xs) = do { ys \<leftarrow> qsortM f xs; qs_insertM f x ys }"

lemma qsortM_qsort:
  assumes "\<And>x y. x \<in> set xs \<Longrightarrow> y \<in> set xs \<Longrightarrow> f x y = Some (g x y)"
  shows "qsortM f xs = Some (qsort g xs)"
proof -
  have ins: "qs_insertM f x ys = Some (qs_insert g x ys)" if "insert x (set ys) \<subseteq> set xs" for x ys
    using that by (induction ys) (simp_all add: assms)
  have "set ys \<subseteq> set xs \<Longrightarrow> qsortM f ys = Some (qsort g ys)" for ys
  proof (induction ys)
    case Nil
    then show ?case by (simp add: qsort_def)
  next
    case (Cons y ys)
    then show ?case
      using ins [of y "qsort g ys"]
      by (simp add: qsort_def [of g "y # ys"] qsort_def [of g ys, symmetric])
  qed
  then show ?thesis by simp
qed

end
