(* ===== verification/Csn.thy ===== *)
theory Csn
  imports Prelude
begin

text \<open>
  Change sequence numbers, the second half of \<^verbatim>\<open>servers/slapd/ldapsync.c\<close>. A CSN is the
  40-byte string \<^verbatim>\<open>YYYYmmddHHMMSS.uuuuuuZ#cccccc#sss#mmmmmm\<close>: bytes 0--28 and 34--39 are its
  timestamp, bytes 30--32 the hexadecimal server ID. The theory models the verification, the two
  comparisons, the server ID extraction and the arithmetic shift of one CSN.
\<close>

section \<open>Definitions\<close>

subsection \<open>Numbers inside a CSN\<close>

definition alnum_digit :: "char \<Rightarrow> int option" where
  "alnum_digit c =
     (if CHR ''0'' \<le> c \<and> c \<le> CHR ''9'' then Some (code c - 48)
      else if CHR ''A'' \<le> c \<and> c \<le> CHR ''Z'' then Some (code c - 55)
      else if CHR ''a'' \<le> c \<and> c \<le> CHR ''z'' then Some (code c - 87)
      else None)"

text \<open>\<^verbatim>\<open>strntoi\<close>: the value and the number of bytes consumed (\<^verbatim>\<open>*end - str\<close>). The
  multiplication is done in \<^verbatim>\<open>int\<close>; the test \<^verbatim>\<open>d < r\<close> is the source's overflow check.\<close>

fun strntoi_loop :: "int \<Rightarrow> string \<Rightarrow> nat \<Rightarrow> int \<Rightarrow> nat \<Rightarrow> int \<times> nat" where
  "strntoi_loop base str 0 r k = (r, k)"
| "strntoi_loop base [] (Suc n) r k = (r, k)"
| "strntoi_loop base (c # str) (Suc n) r k =
     (case alnum_digit c of
        None \<Rightarrow> (r, k)
      | Some d \<Rightarrow>
          if base \<le> d then (r, k)
          else let d' = int32 (d + r * base) in
               if d' < r then (r, k) else strntoi_loop base str n d' (Suc k))"

definition strntoi :: "string \<Rightarrow> nat \<Rightarrow> int \<Rightarrow> int \<times> nat" where
  "strntoi str n base = strntoi_loop base str n 0 0"

subsection \<open>Verification and comparison\<close>

text \<open>The test \<^verbatim>\<open>bv_val[0] < '0'\<close> is on \<^verbatim>\<open>char\<close>, which is signed.\<close>

definition schar :: "char \<Rightarrow> int" where
  "schar c = (if code c < 128 then code c else code c - 256)"

definition slap_csn_verify_lite :: "berval \<Rightarrow> bool" where
  "slap_csn_verify_lite csn \<longleftrightarrow>
     \<not> (bv_len csn \<noteq> 40 \<or> schar (byte (bv_val csn) 0) < 48 \<or> byte (bv_val csn) 14 \<noteq> CHR ''.''
        \<or> byte (bv_val csn) 21 \<noteq> CHR ''Z'' \<or> byte (bv_val csn) 22 \<noteq> CHR ''#''
        \<or> byte (bv_val csn) 29 \<noteq> CHR ''#'' \<or> byte (bv_val csn) 33 \<noteq> CHR ''#''
        \<or> byte (bv_val csn) 40 \<noteq> NUL)"

definition slap_csn_match :: "env \<Rightarrow> berval \<Rightarrow> berval \<Rightarrow> bool option" where
  "slap_csn_match e a b = do {
     assert_that e (slap_csn_verify_lite a \<and> slap_csn_verify_lite b);
     c \<leftarrow> memcmp_n (bv_val a) (bv_val b) 40;
     Some (c = 0) }"

definition slap_csn_compare_sr :: "env \<Rightarrow> berval \<Rightarrow> berval \<Rightarrow> int option" where
  "slap_csn_compare_sr e a b = do {
     assert_that e (slap_csn_verify_lite a \<and> slap_csn_verify_lite b);
     memcmp_n (drop 30 (bv_val a)) (drop 30 (bv_val b)) 4 }"

definition slap_csn_compare_ts :: "env \<Rightarrow> berval \<Rightarrow> berval \<Rightarrow> int option" where
  "slap_csn_compare_ts e a b = do {
     assert_that e (slap_csn_verify_lite a \<and> slap_csn_verify_lite b);
     c \<leftarrow> memcmp_n (bv_val a) (bv_val b) 29;
     if c = 0 then memcmp_n (drop 34 (bv_val a)) (drop 34 (bv_val b)) 6 else Some c }"

definition csn_pattern :: string where
  "csn_pattern = ''99999999999999.999999Z#FFFFFF#FFF#FFFFFF''"

definition csn_char_ok :: "char \<Rightarrow> char \<Rightarrow> bool" where
  "csn_char_ok x c \<longleftrightarrow>
     (if x = CHR ''F'' then is_lower_hex c \<or> is_upper_hex c \<or> isdigit c \<or> c = x
      else if x = CHR ''9'' then isdigit c \<or> c = x
      else c = x)"

definition slap_csn_verify_full :: "env \<Rightarrow> berval \<Rightarrow> bool option" where
  "slap_csn_verify_full e csn =
     (if bv_len csn \<noteq> 40 then Some False
      else if \<not> list_all2 csn_char_ok csn_pattern (map (byte (bv_val csn)) [0..<40]) then Some False
      else if env_strict e then do {
        c \<leftarrow> memcmp_n (bv_val csn) ''19000101000000.000000'' 21;
        if c < 0 then Some False
        else do {
          c' \<leftarrow> slap_csn_compare_ts e (bv (env_now e)) csn;
          Some (\<not> c' < 0) } }
      else Some True)"

definition SLAP_SYNC_RID_MAX :: int where
  "SLAP_SYNC_RID_MAX = 999"

definition SLAP_SYNC_SID_MAX :: int where
  "SLAP_SYNC_SID_MAX = 4095"

definition slap_csn_get_sid :: "berval \<Rightarrow> int" where
  "slap_csn_get_sid csn =
     (if \<not> slap_csn_verify_lite csn then - 1
      else let (sid, n) = strtol 16 (drop 30 (bv_val csn)) in
           if 30 + n \<noteq> 33 \<or> sid < 0 \<or> SLAP_SYNC_SID_MAX < sid then - 1 else sid)"

subsection \<open>Shifting a CSN\<close>

text \<open>The two normalisation loops of \<^verbatim>\<open>slap_csn_shift\<close>: \<open>c\<close> is what a borrow adds to the
  carry, which the source gives as \<open>-1\<close> for the counter and as \<open>1\<close> for the microseconds.\<close>

function borrow :: "int \<Rightarrow> int \<Rightarrow> int \<Rightarrow> int \<Rightarrow> int \<times> int" where
  "borrow m c v carry = (if v < 0 \<and> 0 < m then borrow m c (v + m) (carry + c) else (v, carry))"
  by pat_completeness auto
termination
  by (relation "measure (\<lambda>(m, c, v, carry). nat (- v))") auto

function overflow :: "int \<Rightarrow> int \<Rightarrow> int \<Rightarrow> int \<times> int" where
  "overflow m v carry = (if m \<le> v \<and> 0 < m then overflow m (v - m) (carry + 1) else (v, carry))"
  by pat_completeness auto
termination
  by (relation "measure (\<lambda>(m, v, carry). nat v)") auto

declare borrow.simps [simp del] overflow.simps [simp del]

text \<open>The digit loop, over the digits from the last one backwards.\<close>

fun carry_digits :: "string \<Rightarrow> int \<Rightarrow> string" where
  "carry_digits [] carry = []"
| "carry_digits (d # ds) carry =
     (if carry = 0 then d # ds
      else let v = code d + carry in
           if v < 48 then CHR ''9'' # carry_digits ds (- 1)
           else if 57 < v then CHR ''0'' # carry_digits ds 1
           else char_of v # ds)"

definition csn_set :: "string \<Rightarrow> nat \<Rightarrow> string \<Rightarrow> string" where
  "csn_set s i x = take i s @ x @ drop (i + length x) s"

definition slap_csn_shift :: "env \<Rightarrow> string \<Rightarrow> int \<Rightarrow> string option" where
  "slap_csn_shift e csn delta = do {
     ok \<leftarrow> slap_csn_verify_full e (bv csn);
     assert_that e ok;
     if delta = 0 then Some csn
     else do {
       let (v, n) = strntoi (drop 23 csn) (length csn - 23) 16;
       ensure (n = 6 \<and> byte csn 29 = CHR ''#'');
       let (v, carry) = borrow 0x1000000 (- 1) (v + delta) 0;
       let (v, carry) = overflow 0x1000000 v carry;
       let hex = padded 16 6 v;
       ensure (length hex = 6);
       let csn = csn_set csn 23 hex;
       csn \<leftarrow>
         (if carry = 0 then Some csn
          else do {
            let (v, n) = strntoi (drop 15 csn) (length csn - 15) 10;
            ensure (n = 6 \<and> byte csn 21 = CHR ''Z'');
            let (v, carry) = borrow 1000000 1 (v + carry) 0;
            let (v, carry) = overflow 1000000 v carry;
            let dec = padded 10 6 v;
            ensure (length dec = 6);
            let csn = csn_set csn 15 dec;
            if carry = 0 then Some csn
            else do {
              assert_that e (\<bar>carry\<bar> = 1);
              Some (rev (carry_digits (rev (take 14 csn)) carry) @ drop 14 csn) } });
       ok \<leftarrow> slap_csn_verify_full e (bv csn);
       assert_that e ok;
       Some csn } }"

section \<open>The fields of a well-formed CSN\<close>

definition csn_ok :: "string \<Rightarrow> bool" where
  "csn_ok s \<longleftrightarrow> list_all2 csn_char_ok csn_pattern s"

definition csn_ts :: "string \<Rightarrow> string" where
  "csn_ts s = take 29 s @ drop 34 s"

definition csn_sr :: "string \<Rightarrow> string" where
  "csn_sr s = take 4 (drop 30 s)"

definition csn_sid :: "string \<Rightarrow> int" where
  "csn_sid s = xvalue 16 (take 3 (drop 30 s))"

text \<open>What full verification accepts at the moment \<^verbatim>\<open>env_now\<close>.\<close>

definition csn_valid :: "env \<Rightarrow> string \<Rightarrow> bool" where
  "csn_valid e s \<longleftrightarrow> csn_ok s \<and>
     (env_strict e \<longrightarrow> ''19000101000000.000000'' \<le> take 21 s \<and> csn_ts s \<le> csn_ts (env_now e))"

text \<open>The clock prints CSNs: the assumption every operation below makes of \<^verbatim>\<open>env\<close>.\<close>

definition env_ok :: "env \<Rightarrow> bool" where
  "env_ok e \<longleftrightarrow> csn_ok (env_now e)"

lemma length_csn_pattern: "length csn_pattern = 40"
  by (simp add: csn_pattern_def)

lemma csn_ok_length: "csn_ok s \<Longrightarrow> length s = 40"
  unfolding csn_ok_def by (drule list_all2_lengthD) (simp add: length_csn_pattern)

lemma csn_ok_nth: "csn_ok s \<Longrightarrow> i < 40 \<Longrightarrow> csn_char_ok (csn_pattern ! i) (s ! i)"
  by (simp add: csn_ok_def list_all2_conv_all_nth length_csn_pattern)

lemma map_byte_all: "length s = n \<Longrightarrow> map (byte s) [0..<n] = s"
  by (rule nth_equalityI) (simp_all add: byte_def)

lemma csn_ok_hash:
  assumes "csn_ok s"
  shows "s ! 14 = CHR ''.''" "s ! 21 = CHR ''Z''" "s ! 22 = CHR ''#''" "s ! 29 = CHR ''#''"
    "s ! 33 = CHR ''#''"
  using csn_ok_nth [OF assms, of 14] csn_ok_nth [OF assms, of 21] csn_ok_nth [OF assms, of 22]
    csn_ok_nth [OF assms, of 29] csn_ok_nth [OF assms, of 33]
  by (simp_all add: csn_pattern_def csn_char_ok_def)

definition hexchar :: "char \<Rightarrow> bool" where
  "hexchar c \<longleftrightarrow> is_lower_hex c \<or> is_upper_hex c \<or> isdigit c"

lemma csn_ok_hex:
  assumes "csn_ok s"
  shows "hexchar (s ! 30)" "hexchar (s ! 31)" "hexchar (s ! 32)"
  using csn_ok_nth [OF assms, of 30] csn_ok_nth [OF assms, of 31] csn_ok_nth [OF assms, of 32]
  by (auto simp: csn_pattern_def csn_char_ok_def hexchar_def is_upper_hex_def)

lemma csn_ok_digit0: "csn_ok s \<Longrightarrow> isdigit (s ! 0)"
  using csn_ok_nth [of s 0] by (auto simp: csn_pattern_def csn_char_ok_def isdigit_def)

lemma schar_digit: "isdigit c \<Longrightarrow> 48 \<le> schar c"
  by (simp add: isdigit_def schar_def code_def less_eq_char_code)

lemma drop_30: "length s = 40 \<Longrightarrow> drop 30 s = s ! 30 # s ! 31 # s ! 32 # s ! 33 # drop 34 s"
  by (simp add: Cons_nth_drop_Suc [symmetric] numeral_eq_Suc)

lemma csn_ok_lite [simp]: "csn_ok s \<Longrightarrow> slap_csn_verify_lite (bv s)"
  using csn_ok_hash [of s] schar_digit [OF csn_ok_digit0, of s]
  by (auto simp: slap_csn_verify_lite_def byte_def csn_ok_length)

lemma csn_ok_sr: "csn_ok s \<Longrightarrow> csn_sr s = [s ! 30, s ! 31, s ! 32, CHR ''#'']"
  by (simp add: csn_sr_def drop_30 csn_ok_length csn_ok_hash)

lemma csn_sid_eq: "csn_ok s \<Longrightarrow> csn_sid s = xvalue 16 [s ! 30, s ! 31, s ! 32]"
  by (simp add: csn_sid_def drop_30 csn_ok_length)

lemma compare_sr_cmp:
  "csn_ok a \<Longrightarrow> csn_ok b \<Longrightarrow> slap_csn_compare_sr e (bv a) (bv b) = Some (cmp (csn_sr a) (csn_sr b))"
  by (simp add: slap_csn_compare_sr_def abort_simps memcmp_n_cmp csn_ok_length csn_sr_def)

lemma compare_ts_cmp:
  assumes "csn_ok a" "csn_ok b"
  shows "slap_csn_compare_ts e (bv a) (bv b) = Some (cmp (csn_ts a) (csn_ts b))"
  using assms
  by (simp add: slap_csn_compare_ts_def abort_simps memcmp_n_cmp csn_ok_length csn_ts_def cmp_append)

lemma verify_full_bv:
  assumes "env_ok e"
  shows "slap_csn_verify_full e (bv s) = Some (csn_valid e s)"
proof (cases "csn_ok s")
  case True
  then show ?thesis
    using assms
    by (simp add: slap_csn_verify_full_def csn_valid_def compare_ts_cmp env_ok_def map_byte_all
        csn_ok_length memcmp_n_cmp not_less) (auto simp: csn_ok_def)
next
  case False
  then show ?thesis
    by (auto simp: slap_csn_verify_full_def csn_valid_def csn_ok_def map_byte_all)
qed

lemma csn_valid_ok: "csn_valid e s \<Longrightarrow> csn_ok s"
  by (simp add: csn_valid_def)

lemma hexchar_code:
  assumes "hexchar c"
  shows "\<not> isspace c" "c \<noteq> CHR ''-''" "c \<noteq> CHR ''+''" "c \<noteq> CHR ''x''" "c \<noteq> CHR ''X''"
  using assms
  by (auto simp: hexchar_def isspace_def is_lower_hex_def is_upper_hex_def isdigit_def less_eq_char_code)

lemma xdigit_hexchar: "hexchar c \<Longrightarrow> \<exists>d. xdigit c = Some d \<and> 0 \<le> d \<and> d \<le> 15"
  by (auto simp: hexchar_def xdigit_def is_lower_hex_def is_upper_hex_def isdigit_def
      less_eq_char_code code_def)

lemma get_sid_ok:
  assumes "csn_ok s"
  shows "slap_csn_get_sid (bv s) = csn_sid s" "0 \<le> csn_sid s" "csn_sid s \<le> SLAP_SYNC_SID_MAX"
proof -
  note hx = csn_ok_hex [OF assms]
  obtain d1 d2 d3 where d: "xdigit (s ! 30) = Some d1" "xdigit (s ! 31) = Some d2"
      "xdigit (s ! 32) = Some d3" "0 \<le> d1" "d1 \<le> 15" "0 \<le> d2" "d2 \<le> 15" "0 \<le> d3" "d3 \<le> 15"
    using hx [THEN xdigit_hexchar] by blast
  have hash: "\<not> digit_below 16 CHR ''#''"
    by code_simp
  have "strtol 16 (drop 30 s) = (xvalue 16 [s ! 30, s ! 31, s ! 32], 3)"
    using d hash
    by (simp add: strtol_def drop_30 csn_ok_length assms csn_ok_hash hexchar_code hx digit_below_def)
  moreover have "csn_sid s = (d1 * 16 + d2) * 16 + d3"
    by (simp add: csn_sid_eq assms xvalue_def d)
  ultimately show "slap_csn_get_sid (bv s) = csn_sid s" "0 \<le> csn_sid s"
    "csn_sid s \<le> SLAP_SYNC_SID_MAX"
    using d assms by (simp_all add: slap_csn_get_sid_def csn_sid_eq SLAP_SYNC_SID_MAX_def)
qed


section \<open>Properties\<close>

text \<open>On well-formed CSNs the two comparisons are total and never abort: the server part orders by
  the three hexadecimal digits of the server ID, the time part by everything else.\<close>

lemma csn_compare_total:
  assumes "csn_ok a" "csn_ok b"
  shows "slap_csn_compare_sr e (bv a) (bv b) = Some (cmp (csn_sr a) (csn_sr b)) \<and>
    slap_csn_compare_ts e (bv a) (bv b) = Some (cmp (csn_ts a) (csn_ts b))"
  using assms by (simp add: compare_sr_cmp compare_ts_cmp)

lemma csn_compare_total_witness:
  "\<forall>e. slap_csn_compare_ts e (bv ''20170101000000.000000Z#000000#001#000000'')
       (bv ''20160101000000.000000Z#000000#002#000000'') = Some 1"
proof -
  have "csn_ok ''20170101000000.000000Z#000000#001#000000'' \<and> csn_ok ''20160101000000.000000Z#000000#002#000000'' \<and>
      cmp (csn_ts ''20170101000000.000000Z#000000#001#000000'') (csn_ts ''20160101000000.000000Z#000000#002#000000'') = 1"
    by code_simp
  then show ?thesis
    using csn_compare_total by metis
qed

text \<open>Shifting a CSN back across a microsecond boundary moves its seconds forward: the borrow of the
  microsecond field adds one to the seconds where it should take one away.\<close>

lemma csn_shift_back_moves_forward:
  "\<exists>e. slap_csn_shift e ''20170101000000.000000Z#000000#000#000000'' (- 1)
     = Some ''20170101000001.999999Z#ffffff#000#000000''"
proof -
  have "slap_csn_shift \<lparr>env_assert = True, env_check = True, env_strict = False, env_now = [], env_stamp = [],
      slap_serverID = 0\<rparr> ''20170101000000.000000Z#000000#000#000000'' (- 1)
     = Some ''20170101000001.999999Z#ffffff#000#000000''"
    by code_simp
  then show ?thesis by blast
qed

end
