(* ===== verification/Quorum.thy ===== *)
theory Quorum
  imports Csn
begin

unbundle bit_operations_syntax

text \<open>
  The replication quorum, \<^verbatim>\<open>servers/slapd/quorum.c\<close>. Each database keeps the list of its
  syncrepl links with their readiness, the list of requirements configured or derived, per-status
  counters, and a cached verdict. When the verdict is "lack", the frontend refuses local writes.

  A NULL array of links or requirements is the empty list: the source frees an array as soon as it
  holds nothing but its terminator. The mutex is not modelled: every function below is one
  critical section. \<^verbatim>\<open>quorum_list\<close> is the flag \<open>bd_listed\<close> of each database. The status
  of an array's terminator is never written by the source; where the code reads it, it is the
  argument \<open>junk\<close>.
\<close>

section \<open>Definitions\<close>

subsection \<open>Data\<close>

record present =
  pr_key :: nat      \<comment> \<open>a pointer, 0 is NULL\<close>
  pr_rid :: int
  pr_sid :: int
  pr_status :: nat

record requirment =
  rq_type :: int
  rq_id :: int

definition QR_FLAG_DEMAND :: int where "QR_FLAG_DEMAND = 1"
definition QR_FLAG_RID :: int where "QR_FLAG_RID = 2"
definition QR_FLAG_AUTO :: int where "QR_FLAG_AUTO = 4"
definition QR_VOTED_SID :: int where "QR_VOTED_SID = 0"
definition QR_VOTED_RID :: int where "QR_VOTED_RID = QR_FLAG_RID"
definition QR_DEMAND_RID :: int where "QR_DEMAND_RID = (QR_VOTED_RID OR QR_FLAG_AUTO)"
definition QR_DEMAND_SID :: int where "QR_DEMAND_SID = (QR_VOTED_SID OR QR_FLAG_DEMAND)"

definition QR_IS_RID :: "int \<Rightarrow> bool" where
  "QR_IS_RID type \<longleftrightarrow> type AND QR_FLAG_RID \<noteq> 0"

definition QR_IS_SID :: "int \<Rightarrow> bool" where
  "QR_IS_SID type \<longleftrightarrow> \<not> QR_IS_RID type"

definition QR_IS_DEMAND :: "int \<Rightarrow> bool" where
  "QR_IS_DEMAND type \<longleftrightarrow> type AND QR_FLAG_DEMAND \<noteq> 0"

definition QR_IS_AUTO :: "int \<Rightarrow> bool" where
  "QR_IS_AUTO type \<longleftrightarrow> type AND QR_FLAG_AUTO \<noteq> 0"

lemmas qr_defs = QR_FLAG_DEMAND_def QR_FLAG_RID_def QR_FLAG_AUTO_def QR_VOTED_SID_def
  QR_VOTED_RID_def QR_DEMAND_RID_def QR_DEMAND_SID_def QR_IS_RID_def QR_IS_SID_def
  QR_IS_DEMAND_def QR_IS_AUTO_def

definition QR_AUTO_RIDS :: int where "QR_AUTO_RIDS = 1"
definition QR_AUTO_SIDS :: int where "QR_AUTO_SIDS = 2"
definition QR_ALL_LINKS :: int where "QR_ALL_LINKS = 4"
definition QR_SYNCREPL_MAX :: int where "QR_SYNCREPL_MAX = 15"

definition QS_DIRTY :: nat where "QS_DIRTY = 0"
definition QS_DEAD :: nat where "QS_DEAD = 1"
definition QS_REFRESH :: nat where "QS_REFRESH = 2"
definition QS_READY :: nat where "QS_READY = 3"
definition QS_PROCESS :: nat where "QS_PROCESS = 4"
definition QS_MAX :: nat where "QS_MAX = 5"

lemmas qs_defs = QS_DIRTY_def QS_DEAD_def QS_REFRESH_def QS_READY_def QS_PROCESS_def QS_MAX_def

record slap_quorum =
  qr_present :: "present list"
  qr_requirements :: "requirment list"
  qr_flags :: int
  qr_syncrepl_limit :: int
  qt_running :: int
  qt_status :: "int list"
  qt_left :: int
  qr_salt :: "32 word"
  cns_status_buf :: string

record backend =
  bd_quorum :: "slap_quorum option"
  bd_quorum_cache :: int
  bd_listed :: bool

definition flag_set :: "int \<Rightarrow> int \<Rightarrow> bool" where
  "flag_set fl m \<longleftrightarrow> fl AND m \<noteq> 0"

definition set_cache :: "backend \<Rightarrow> int \<Rightarrow> backend" where
  "set_cache bd value = bd\<lparr>bd_quorum_cache := value\<rparr>"

definition get_cache :: "backend \<Rightarrow> int" where
  "get_cache bd = bd_quorum_cache bd"

definition quorum_invalidate :: "backend \<Rightarrow> backend" where
  "quorum_invalidate bd = set_cache bd 0"

definition quorum_new :: slap_quorum where
  "quorum_new = \<lparr>qr_present = [], qr_requirements = [], qr_flags = 0, qr_syncrepl_limit = 0,
     qt_running = 0, qt_status = replicate QS_MAX 0, qt_left = - 1, qr_salt = 0,
     cns_status_buf = []\<rparr>"

definition quorum_be_init :: "backend \<Rightarrow> backend" where
  "quorum_be_init bd = (set_cache bd 1)\<lparr>bd_quorum := Some quorum_new, bd_listed := True\<rparr>"

definition quorum_be_destroy :: "backend \<Rightarrow> backend" where
  "quorum_be_destroy bd =
     (if bd_quorum bd = None then bd
      else (set_cache bd 1)\<lparr>bd_quorum := None, bd_listed := False\<rparr>)"

subsection \<open>The verdict\<close>

text \<open>Strict majority of what is wanted, limited by the number of links.\<close>

definition quorum :: "nat \<Rightarrow> nat \<Rightarrow> nat \<Rightarrow> bool" where
  "quorum tot wanna ready =
     (let wanna = (if tot < wanna then tot else wanna)
      in \<not> (wanna = 0 \<or> ready < (wanna + 2 - wanna mod 2) div 2))"

definition link_ready :: "present \<Rightarrow> bool" where
  "link_ready p \<longleftrightarrow> QS_READY \<le> pr_status p"

text \<open>\<^verbatim>\<open>!p || p->status < QS_READY\<close> after the search loop: \<open>p\<close> is NULL when there are no
  links at all, and points at the terminator when no link matched.\<close>

definition lacks :: "int \<Rightarrow> present list \<Rightarrow> present option \<Rightarrow> bool" where
  "lacks junk ps p =
     (case p of Some p \<Rightarrow> \<not> link_ready p | None \<Rightarrow> ps = [] \<or> junk < int QS_READY)"

fun lazy_reqs :: "env \<Rightarrow> int \<Rightarrow> present list \<Rightarrow> requirment list \<Rightarrow>
    nat \<times> nat \<times> nat \<times> nat \<times> int \<Rightarrow> nat \<times> nat \<times> nat \<times> nat \<times> int" where
  "lazy_reqs e junk ps [] acc = acc"
| "lazy_reqs e junk ps (r # rs) (wanna_sids, ready_sids, wanna_rids, ready_rids, state) =
     (if QR_IS_SID (rq_type r) \<and> rq_id r = slap_serverID e
      then lazy_reqs e junk ps rs (wanna_sids, ready_sids, wanna_rids, ready_rids, state)
      else
        let p = (if QR_IS_SID (rq_type r) then find (\<lambda>p. pr_sid p = rq_id r) ps
                 else find (\<lambda>p. pr_rid p = rq_id r) ps);
            hit = (case p of Some p \<Rightarrow> if link_ready p then 1 else 0 | None \<Rightarrow> 0);
            state' = (if QR_IS_DEMAND (rq_type r) \<and> lacks junk ps p then - 1 else state)
        in if QR_IS_SID (rq_type r)
           then lazy_reqs e junk ps rs
                  (wanna_sids + 1, ready_sids + hit, wanna_rids, ready_rids, state')
           else lazy_reqs e junk ps rs
                  (wanna_sids, ready_sids, wanna_rids + 1, ready_rids + hit, state'))"

definition lazy_update :: "env \<Rightarrow> int \<Rightarrow> slap_quorum \<Rightarrow> int" where
  "lazy_update e junk q =
     (let total_links = length (qr_present q);
          ready_links = length (filter link_ready (qr_present q));
          state = (if flag_set (qr_flags q) QR_ALL_LINKS \<and> ready_links < total_links then - 1 else 1);
          (wanna_sids, ready_sids, wanna_rids, ready_rids, state) =
            lazy_reqs e junk (qr_present q) (qr_requirements q) (0, 0, 0, 0, state);
          state = (if qr_requirements q \<noteq> [] \<and> 0 < state \<and> (wanna_sids \<noteq> 0 \<or> wanna_rids \<noteq> 0)
                   then if quorum total_links wanna_sids ready_sids \<or>
                           quorum total_links wanna_rids ready_rids then 1 else - 1
                   else state)
      in if flag_set (qr_flags q) QR_AUTO_SIDS \<and> 0 < state \<and> total_links \<noteq> 0 \<and>
            \<not> quorum total_links total_links wanna_sids then - 1 else state)"

definition quorum_query :: "env \<Rightarrow> int \<Rightarrow> backend \<Rightarrow> (backend \<times> bool) option" where
  "quorum_query e junk bd =
     (let snap = get_cache bd
      in if snap = 0 then do {
           let snap = (case bd_quorum bd of Some q \<Rightarrow> lazy_update e junk q | None \<Rightarrow> 1);
           assert_that e (snap \<noteq> 0);
           Some (set_cache bd snap, 0 < snap) }
         else Some (bd, 0 < snap))"

definition quorum_notify_self_sid :: "backend list \<Rightarrow> backend list" where
  "quorum_notify_self_sid dbs = map (\<lambda>bd. if bd_listed bd then quorum_invalidate bd else bd) dbs"

subsection \<open>The status line\<close>

definition lpq :: "slap_quorum \<Rightarrow> nat \<Rightarrow> int" where
  "lpq q status = (let r = qt_status q ! status in if 15 < r then 15 else r)"

definition kick :: "env \<Rightarrow> slap_quorum \<Rightarrow> slap_quorum" where
  "kick e q =
     (let now = qt_status q ! QS_DEAD + qt_status q ! QS_DIRTY + qt_status q ! QS_REFRESH
                + qt_status q ! QS_PROCESS
      in q\<lparr>cns_status_buf :=
             env_stamp e @ ''#'' @ padded 16 6 (uint (qr_salt q AND 0xFFFFFF)) @ ''#''
             @ padded 16 3 (slap_serverID e) @ ''#'' @ digits_of 16 (lpq q QS_DEAD)
             @ digits_of 16 (lpq q QS_DIRTY) @ digits_of 16 (lpq q QS_REFRESH) @ ''.''
             @ digits_of 16 (lpq q QS_PROCESS) @ digits_of 16 (lpq q QS_READY),
           qt_left := now\<rparr>)"

text \<open>The result is the status line and the number of links left; \<open>running_only\<close> leaves dead
  links out.\<close>

definition quorum_query_status :: "env \<Rightarrow> bool \<Rightarrow> backend \<Rightarrow> backend \<times> string \<times> int" where
  "quorum_query_status e running_only bd =
     (let bd = (if bd_quorum bd = None then quorum_be_init bd else bd);
          q = the (bd_quorum bd);
          q = (if cns_status_buf q = [] then kick e q else q);
          left = (if running_only then qt_left q - qt_status q ! QS_DEAD else qt_left q)
      in (bd\<lparr>bd_quorum := Some q\<rparr>, cns_status_buf q, left))"

subsection \<open>Requirements\<close>

definition id_limit :: "int \<Rightarrow> int" where
  "id_limit type = (if QR_IS_SID type then SLAP_SYNC_SID_MAX else SLAP_SYNC_RID_MAX)"

text \<open>\<open>None\<close>: no entry matched and the loop ran to the terminator.\<close>

fun require_scan :: "int \<Rightarrow> int \<Rightarrow> requirment list \<Rightarrow> (requirment list \<times> bool) option" where
  "require_scan type i [] = None"
| "require_scan type i (r # rs) =
     (if rq_id r = i \<and> QR_IS_SID (rq_type r) = QR_IS_SID type
      then if QR_IS_AUTO (rq_type r) \<and> \<not> QR_IS_AUTO type
           then Some (r\<lparr>rq_type := type\<rparr> # rs, True)
           else Some (r # rs, False)
      else map_option (\<lambda>(rs', c). (r # rs', c)) (require_scan type i rs))"

definition require_append :: "env \<Rightarrow> slap_quorum \<Rightarrow> int \<Rightarrow> int \<Rightarrow> (slap_quorum \<times> bool) option" where
  "require_append e q type i = do {
     assert_that e (- 1 < i);
     assert_that e (i \<le> id_limit type);
     (case require_scan type i (qr_requirements q) of
        Some (rs, changed) \<Rightarrow> Some (q\<lparr>qr_requirements := rs\<rparr>, changed)
      | None \<Rightarrow>
          Some (q\<lparr>qr_requirements := qr_requirements q @ [\<lparr>rq_type = type, rq_id = i\<rparr>]\<rparr>, True)) }"

fun require_drop :: "int \<Rightarrow> int \<Rightarrow> int \<Rightarrow> requirment list \<Rightarrow> requirment list \<times> bool" where
  "require_drop type type_mask i [] = ([], False)"
| "require_drop type type_mask i (r # rs) =
     (if rq_id r = i \<and> rq_type r AND type_mask = type then (rs, True)
      else let (rs', c) = require_drop type type_mask i rs in (r # rs', c))"

definition require_remove :: "env \<Rightarrow> slap_quorum \<Rightarrow> int \<Rightarrow> int \<Rightarrow> int \<Rightarrow> (slap_quorum \<times> bool) option" where
  "require_remove e q type type_mask i = do {
     assert_that e (- 1 < i);
     assert_that e (i \<le> id_limit type);
     let (rs, c) = require_drop type type_mask i (qr_requirements q);
     Some (q\<lparr>qr_requirements := rs\<rparr>, c) }"

fun append_rids :: "env \<Rightarrow> slap_quorum \<Rightarrow> bool \<Rightarrow> present list \<Rightarrow> (slap_quorum \<times> bool) option" where
  "append_rids e q changed [] = Some (q, changed)"
| "append_rids e q changed (p # ps) = do {
     (q, c) \<leftarrow> require_append e q (QR_VOTED_RID OR QR_FLAG_AUTO) (pr_rid p);
     append_rids e q (changed \<or> c) ps }"

definition require_auto_rids :: "env \<Rightarrow> slap_quorum \<Rightarrow> (slap_quorum \<times> bool) option" where
  "require_auto_rids e q =
     (if flag_set (qr_flags q) QR_AUTO_RIDS then Some (q, False)
      else append_rids e (q\<lparr>qr_flags := qr_flags q OR QR_AUTO_RIDS\<rparr>) False (qr_present q))"

fun append_sids :: "env \<Rightarrow> slap_quorum \<Rightarrow> bool \<Rightarrow> present list \<Rightarrow> (slap_quorum \<times> bool) option" where
  "append_sids e q changed [] = Some (q, changed)"
| "append_sids e q changed (p # ps) =
     (if - 1 < pr_sid p then do {
        (q, c) \<leftarrow> require_append e q (QR_VOTED_SID OR QR_FLAG_AUTO) (pr_sid p);
        append_sids e q (changed \<or> c) ps }
      else append_sids e q changed ps)"

definition require_auto_sids :: "env \<Rightarrow> slap_quorum \<Rightarrow> (slap_quorum \<times> bool) option" where
  "require_auto_sids e q =
     (if flag_set (qr_flags q) QR_AUTO_SIDS then Some (q, False)
      else append_sids e (q\<lparr>qr_flags := qr_flags q OR QR_AUTO_SIDS\<rparr>) False (qr_present q))"

subsection \<open>Links\<close>

text \<open>\<^verbatim>\<open>p->sid = sid\<close> and \<^verbatim>\<open>p->status = status\<close> on the first link with the key.\<close>

fun link_set :: "nat \<Rightarrow> (present \<Rightarrow> present) \<Rightarrow> present list \<Rightarrow> present list" where
  "link_set key f [] = []"
| "link_set key f (p # ps) = (if pr_key p = key then f p # ps else p # link_set key f ps)"

definition notify_sid :: "env \<Rightarrow> slap_quorum \<Rightarrow> nat \<Rightarrow> int \<Rightarrow> (slap_quorum \<times> bool) option" where
  "notify_sid e q key sid =
     (case find (\<lambda>p. pr_key p = key) (qr_present q) of
        None \<Rightarrow> Some (q, False)
      | Some p \<Rightarrow>
          if pr_sid p = sid then Some (q, False)
          else do {
            q \<leftarrow> (if flag_set (qr_flags q) QR_AUTO_SIDS then do {
                    q \<leftarrow> (if - 1 < pr_sid p
                         then map_option fst (require_remove e q (QR_VOTED_SID OR QR_FLAG_AUTO)
                                (NOT QR_FLAG_DEMAND) (pr_sid p))
                         else Some q);
                    if - 1 < sid
                    then map_option fst (require_append e q (QR_VOTED_SID OR QR_FLAG_AUTO) sid)
                    else Some q }
                  else Some q);
            Some (q\<lparr>qr_present := link_set key (\<lambda>p. p\<lparr>pr_sid := sid\<rparr>) (qr_present q)\<rparr>, True) })"

definition notify_status :: "env \<Rightarrow> slap_quorum \<Rightarrow> nat \<Rightarrow> nat \<Rightarrow> (slap_quorum \<times> bool) option" where
  "notify_status e q key status =
     (case find (\<lambda>p. pr_key p = key) (qr_present q) of
        None \<Rightarrow> Some (q, False)
      | Some p \<Rightarrow>
          if pr_status p = status then Some (q, False)
          else do {
            assert_that e (0 < qt_status q ! pr_status p);
            let st = (qt_status q)[pr_status p := qt_status q ! pr_status p - 1];
            let st = st[status := st ! status + 1];
            Some (kick e (q\<lparr>qt_status := st,
                    qr_present := link_set key (\<lambda>p. p\<lparr>pr_status := status\<rparr>) (qr_present q)\<rparr>),
                  (pr_status p < QS_READY) \<noteq> (status < QS_READY)) })"

definition mesh :: "32 word \<Rightarrow> 32 word" where
  "mesh x =
     (let x = x XOR push_bit 13 x;
          x = x * 3931654393;
          x = x XOR drop_bit 13 x;
          x = x * 3058479007
      in x XOR drop_bit 16 x)"

definition quorum_add_rid :: "env \<Rightarrow> backend \<Rightarrow> nat \<Rightarrow> int \<Rightarrow> backend option" where
  "quorum_add_rid e bd key rid = do {
     assert_that e (- 1 < rid \<or> rid \<le> SLAP_SYNC_RID_MAX);
     assert_that e (key \<noteq> 0);
     let bd = (if bd_quorum bd = None then quorum_be_init bd else bd);
     let q = the (bd_quorum bd);
     if (\<exists>p\<in>set (qr_present q). pr_key p = key) then Some bd
     else do {
       let q = q\<lparr>qr_present := qr_present q @
                   [\<lparr>pr_key = key, pr_rid = rid, pr_sid = - 1, pr_status = QS_DIRTY\<rparr>],
                 qt_status := (qt_status q)[QS_DIRTY := qt_status q ! QS_DIRTY + 1],
                 qr_salt := qr_salt q + mesh (word_of_int rid)\<rparr>;
       let q = kick e q;
       (q, c) \<leftarrow> (if flag_set (qr_flags q) QR_AUTO_RIDS
                  then require_append e q (QR_VOTED_RID OR QR_FLAG_AUTO) rid
                  else Some (q, False));
       let bd = bd\<lparr>bd_quorum := Some q\<rparr>;
       Some (if c then quorum_invalidate bd else bd) } }"

fun link_remove :: "nat \<Rightarrow> present list \<Rightarrow> present list" where
  "link_remove key [] = []"
| "link_remove key (p # ps) = (if pr_key p = key then ps else p # link_remove key ps)"

definition quorum_remove_rid :: "env \<Rightarrow> backend \<Rightarrow> nat \<Rightarrow> backend option" where
  "quorum_remove_rid e bd key = do {
     assert_that e (key \<noteq> 0);
     (case bd_quorum bd of
        None \<Rightarrow> Some bd
      | Some q \<Rightarrow>
          (case find (\<lambda>p. pr_key p = key) (qr_present q) of
             None \<Rightarrow> Some bd
           | Some p \<Rightarrow> do {
               q \<leftarrow> (if - 1 < pr_sid p \<and> flag_set (qr_flags q) QR_AUTO_SIDS
                    then map_option fst (require_remove e q (QR_VOTED_SID OR QR_FLAG_AUTO)
                           (NOT QR_FLAG_DEMAND) (pr_sid p))
                    else Some q);
               q \<leftarrow> (if flag_set (qr_flags q) QR_AUTO_RIDS
                    then map_option fst (require_remove e q (QR_VOTED_RID OR QR_FLAG_AUTO)
                           (NOT QR_FLAG_DEMAND) (pr_rid p))
                    else Some q);
               assert_that e (0 < qt_status q ! pr_status p);
               let q = kick e (q\<lparr>qt_status :=
                             (qt_status q)[pr_status p := qt_status q ! pr_status p - 1],
                           qr_salt := qr_salt q - mesh (word_of_int (pr_rid p))\<rparr>);
               Some (quorum_invalidate
                 (bd\<lparr>bd_quorum := Some (q\<lparr>qr_present := link_remove key (qr_present q)\<rparr>)\<rparr>)) })) }"

text \<open>\<^verbatim>\<open>if (bd->bd_quorum && f(..)) quorum_invalidate(bd)\<close>.\<close>

definition with_quorum ::
  "backend \<Rightarrow> (slap_quorum \<Rightarrow> (slap_quorum \<times> bool) option) \<Rightarrow> backend option" where
  "with_quorum bd f =
     (case bd_quorum bd of
        None \<Rightarrow> Some bd
      | Some q \<Rightarrow> do {
          (q, c) \<leftarrow> f q;
          let bd = bd\<lparr>bd_quorum := Some q\<rparr>;
          Some (if c then quorum_invalidate bd else bd) })"

definition quorum_notify_sid :: "env \<Rightarrow> backend \<Rightarrow> nat \<Rightarrow> int \<Rightarrow> backend option" where
  "quorum_notify_sid e bd key sid = do {
     assert_that e (key \<noteq> 0);
     assert_that e (sid < 0 \<or> sid \<le> SLAP_SYNC_SID_MAX);
     with_quorum bd (\<lambda>q. notify_sid e q key sid) }"

definition quorum_notify_status :: "env \<Rightarrow> backend \<Rightarrow> nat \<Rightarrow> nat \<Rightarrow> backend option" where
  "quorum_notify_status e bd key status = do {
     assert_that e (key \<noteq> 0);
     assert_that e (QS_DIRTY \<le> status \<and> status \<le> QS_PROCESS);
     with_quorum bd (\<lambda>q. notify_status e q key status) }"

definition quorum_notify_csn :: "env \<Rightarrow> backend \<Rightarrow> int \<Rightarrow> backend option" where
  "quorum_notify_csn e bd csnsid = do {
     assert_that e (- 1 < csnsid \<and> csnsid \<le> SLAP_SYNC_SID_MAX);
     with_quorum bd (\<lambda>q.
       if flag_set (qr_flags q) QR_AUTO_SIDS
       then require_append e q (QR_VOTED_SID OR QR_FLAG_AUTO) csnsid
       else Some (q, False)) }"

subsection \<open>The refresh gate\<close>

definition LDAP_BUSY :: int where "LDAP_BUSY = 0x33"
definition LDAP_ASSERTION_FAILED :: int where "LDAP_ASSERTION_FAILED = 0x7A"

lemmas ldap_codes = LDAP_SUCCESS_def LDAP_PROTOCOL_ERROR_def LDAP_BUSY_def LDAP_ASSERTION_FAILED_def

definition quorum_syncrepl_maxrefresh :: "backend \<Rightarrow> int" where
  "quorum_syncrepl_maxrefresh bd =
     (case bd_quorum bd of
        None \<Rightarrow> 2147483647
      | Some q \<Rightarrow> if qr_syncrepl_limit q = 0 then 2147483647 else qr_syncrepl_limit q)"

definition quorum_syncrepl_gate :: "env \<Rightarrow> backend \<Rightarrow> nat \<Rightarrow> bool \<Rightarrow> (backend \<times> int) option" where
  "quorum_syncrepl_gate e bd instance_key inn = do {
     assert_that e (instance_key \<noteq> 0);
     if instance_key = 0 then Some (bd, LDAP_ASSERTION_FAILED)
     else do {
       let bd = (if bd_quorum bd = None then quorum_be_init bd else bd);
       let q = the (bd_quorum bd);
       (q, rc) \<leftarrow>
         (if inn
          then if qr_syncrepl_limit q \<noteq> 0 \<and> qr_syncrepl_limit q \<le> qt_running q
               then Some (q, LDAP_BUSY)
               else Some (q\<lparr>qt_running := qt_running q + 1\<rparr>, LDAP_SUCCESS)
          else do {
            assert_that e (0 < qt_running q);
            Some (q\<lparr>qt_running := qt_running q - 1\<rparr>, LDAP_SUCCESS) });
       let q = (if rc = LDAP_SUCCESS then kick e q else q);
       assert_that e (0 \<le> qt_running q \<and> qt_running q \<le> QR_SYNCREPL_MAX);
       Some (bd\<lparr>bd_quorum := Some q\<rparr>, rc) } }"

section \<open>The invariant of a quorum record\<close>

definition count_status :: "present list \<Rightarrow> nat \<Rightarrow> int" where
  "count_status ps s = int (length (filter (\<lambda>p. pr_status p = s) ps))"

definition link_ok :: "present \<Rightarrow> bool" where
  "link_ok p \<longleftrightarrow> pr_key p \<noteq> 0 \<and> pr_status p < QS_MAX \<and> pr_sid p \<le> SLAP_SYNC_SID_MAX
     \<and> 0 \<le> pr_rid p \<and> pr_rid p \<le> SLAP_SYNC_RID_MAX"

definition req_key :: "requirment \<Rightarrow> bool \<times> int" where
  "req_key r = (QR_IS_SID (rq_type r), rq_id r)"

definition reqs_ok :: "requirment list \<Rightarrow> bool" where
  "reqs_ok rs \<longleftrightarrow> distinct (map req_key rs) \<and>
     list_all (\<lambda>r. 0 \<le> rq_id r \<and> rq_id r \<le> id_limit (rq_type r)) rs"

definition links_salt :: "present list \<Rightarrow> 32 word" where
  "links_salt ps = sum_list (map (\<lambda>p. mesh (word_of_int (pr_rid p))) ps)"

definition quorum_inv :: "slap_quorum \<Rightarrow> bool" where
  "quorum_inv q \<longleftrightarrow> distinct (map pr_key (qr_present q)) \<and> list_all link_ok (qr_present q) \<and>
     qt_status q = map (count_status (qr_present q)) [0..<QS_MAX] \<and>
     qr_salt q = links_salt (qr_present q) \<and> reqs_ok (qr_requirements q)"

lemma kick_simps [simp]:
  "qr_present (kick e q) = qr_present q" "qr_requirements (kick e q) = qr_requirements q"
  "qr_flags (kick e q) = qr_flags q" "qr_syncrepl_limit (kick e q) = qr_syncrepl_limit q"
  "qt_running (kick e q) = qt_running q" "qt_status (kick e q) = qt_status q"
  "qr_salt (kick e q) = qr_salt q"
  by (simp_all add: kick_def Let_def)

lemma quorum_inv_kick [simp]: "quorum_inv (kick e q) = quorum_inv q"
  by (simp add: quorum_inv_def)

lemma quorum_inv_new [simp]: "quorum_inv quorum_new"
  by (simp add: quorum_inv_def quorum_new_def reqs_ok_def links_salt_def count_status_def qs_defs
      upt_rec numeral_eq_Suc)

text \<open>Reads and writes of the link array.\<close>

lemma find_key_split:
  assumes "find (\<lambda>p. pr_key p = key) ps = Some p"
  shows "\<exists>us vs. ps = us @ p # vs \<and> pr_key p = key \<and> (\<forall>u\<in>set us. pr_key u \<noteq> key)"
  using assms
proof (induction ps)
  case (Cons x xs)
  show ?case
  proof (cases "pr_key x = key")
    case True
    with Cons.prems show ?thesis by (intro exI [of _ "[]"] exI [of _ xs]) auto
  next
    case False
    with Cons obtain us vs where "xs = us @ p # vs" "pr_key p = key" "\<forall>u\<in>set us. pr_key u \<noteq> key"
      by auto
    with False show ?thesis by (intro exI [of _ "x # us"] exI [of _ vs]) simp
  qed
qed simp

lemma link_set_split:
  "\<forall>u\<in>set us. pr_key u \<noteq> key \<Longrightarrow> pr_key p = key \<Longrightarrow> link_set key f (us @ p # vs) = us @ f p # vs"
  by (induction us) auto

lemma link_remove_split:
  "\<forall>u\<in>set us. pr_key u \<noteq> key \<Longrightarrow> pr_key p = key \<Longrightarrow> link_remove key (us @ p # vs) = us @ vs"
  by (induction us) auto

lemma count_status_simps [simp]:
  "count_status [] s = 0"
  "count_status (p # ps) s = count_status ps s + (if pr_status p = s then 1 else 0)"
  "count_status (ps @ qs) s = count_status ps s + count_status qs s"
  by (simp_all add: count_status_def)

lemma count_status_nonneg [simp]: "0 \<le> count_status ps s"
  by (simp add: count_status_def)

lemma links_salt_simps [simp]:
  "links_salt [] = 0" "links_salt (p # ps) = mesh (word_of_int (pr_rid p)) + links_salt ps"
  "links_salt (ps @ qs) = links_salt ps + links_salt qs"
  by (simp_all add: links_salt_def)

text \<open>Requirements.\<close>

lemma require_scan_None: "require_scan type i rs = None \<longleftrightarrow> (QR_IS_SID type, i) \<notin> req_key ` set rs"
  by (induction rs) (auto simp: req_key_def split: if_splits)

lemma require_scan_keys:
  "require_scan type i rs = Some (rs', c) \<Longrightarrow> map req_key rs' = map req_key rs"
  by (induction rs arbitrary: rs') (auto simp: req_key_def split: if_splits)

lemma reqs_ok_keys:
  "reqs_ok rs \<longleftrightarrow> distinct (map req_key rs) \<and>
     list_all (\<lambda>(s, i). 0 \<le> i \<and> i \<le> (if s then SLAP_SYNC_SID_MAX else SLAP_SYNC_RID_MAX)) (map req_key rs)"
  by (simp add: reqs_ok_def req_key_def list_all_iff id_limit_def)

text \<open>A requirement update leaves the rest of the record as it is.\<close>

definition req_upd :: "slap_quorum \<Rightarrow> slap_quorum \<Rightarrow> bool" where
  "req_upd q r \<longleftrightarrow> quorum_inv r \<and> (\<exists>rs. r = q\<lparr>qr_requirements := rs\<rparr>)"

lemma req_updD:
  assumes "req_upd q r"
  shows "quorum_inv r" "qr_present r = qr_present q" "qt_status r = qt_status q"
    "qr_salt r = qr_salt q" "qr_flags r = qr_flags q"
  using assms by (auto simp: req_upd_def)

lemma req_updI: "quorum_inv q \<Longrightarrow> reqs_ok rs \<Longrightarrow> req_upd q (q\<lparr>qr_requirements := rs\<rparr>)"
  by (auto simp: req_upd_def quorum_inv_def)

lemma req_upd_refl: "quorum_inv q \<Longrightarrow> req_upd q q"
  using req_updI [of q "qr_requirements q"] by (simp add: quorum_inv_def)

lemma req_upd_trans: "req_upd q r \<Longrightarrow> req_upd r s \<Longrightarrow> req_upd q s"
  by (auto simp: req_upd_def)

lemma require_append_inv:
  assumes "quorum_inv q" "0 \<le> i" "i \<le> id_limit type"
  shows "runs (require_append e q type i)
    (\<lambda>x. req_upd q (fst x))"
proof (cases "require_scan type i (qr_requirements q)")
  case None
  have "reqs_ok (qr_requirements q @ [\<lparr>rq_type = type, rq_id = i\<rparr>])"
    using assms None [unfolded require_scan_None]
    by (auto simp: reqs_ok_def quorum_inv_def req_key_def)
  with None assms show ?thesis
    by (simp add: require_append_def wp req_updI)
next
  case (Some x)
  obtain rs c where x: "x = (rs, c)" by fastforce
  then have "reqs_ok rs"
    using assms require_scan_keys [of type i "qr_requirements q" rs c] Some
    by (simp add: quorum_inv_def reqs_ok_keys)
  with Some x assms show ?thesis
    by (simp add: require_append_def wp req_updI)
qed

lemma require_drop_sub:
  "require_drop type m i rs = (rs', c) \<Longrightarrow> reqs_ok rs \<Longrightarrow> reqs_ok rs' \<and> set rs' \<subseteq> set rs"
proof (induction rs arbitrary: rs')
  case (Cons r rs)
  then show ?case
    by (fastforce simp: reqs_ok_def split: if_splits prod.splits)
qed (simp add: reqs_ok_def)

lemma require_remove_inv:
  assumes "quorum_inv q" "0 \<le> i" "i \<le> id_limit type"
  shows "runs (require_remove e q type m i)
    (\<lambda>x. req_upd q (fst x))"
proof -
  obtain rs c where rs: "require_drop type m i (qr_requirements q) = (rs, c)"
    by fastforce
  then have "reqs_ok rs"
    using assms(1) require_drop_sub by (auto simp: quorum_inv_def)
  with rs assms show ?thesis
    by (simp add: require_remove_def wp req_updI)
qed

lemma id_limit_simps [simp]:
  "id_limit (QR_VOTED_SID OR QR_FLAG_AUTO) = SLAP_SYNC_SID_MAX"
  "id_limit (QR_VOTED_RID OR QR_FLAG_AUTO) = SLAP_SYNC_RID_MAX"
  by (simp_all add: id_limit_def qr_defs)

lemma quorum_inv_fields [simp]:
  "quorum_inv (q\<lparr>qr_flags := x\<rparr>) = quorum_inv q"
  "quorum_inv (q\<lparr>qt_running := y\<rparr>) = quorum_inv q"
  "quorum_inv (q\<lparr>qr_syncrepl_limit := y\<rparr>) = quorum_inv q"
  by (simp_all add: quorum_inv_def)

lemma quorum_inv_set:
  assumes q: "quorum_inv q" and f: "find (\<lambda>p. pr_key p = key) (qr_present q) = Some p"
    and g: "pr_key (g p) = key" "pr_status (g p) = pr_status p" "pr_rid (g p) = pr_rid p"
      "pr_sid (g p) \<le> SLAP_SYNC_SID_MAX"
  shows "quorum_inv (q\<lparr>qr_present := link_set key g (qr_present q)\<rparr>)"
proof -
  obtain us vs where "qr_present q = us @ p # vs" "pr_key p = key" "\<forall>u\<in>set us. pr_key u \<noteq> key"
    using find_key_split [OF f] by blast
  with q g show ?thesis
    by (auto simp: quorum_inv_def link_set_split link_ok_def)
qed

lemma quorum_inv_find:
  "quorum_inv q \<Longrightarrow> find (\<lambda>p. pr_key p = key) (qr_present q) = Some p \<Longrightarrow> link_ok p \<and> pr_key p = key"
  using find_key_split by (fastforce simp: quorum_inv_def)

lemma opt_remove:
  assumes "quorum_inv q" "b \<Longrightarrow> 0 \<le> i \<and> i \<le> id_limit type"
  shows "runs (if b then map_option fst (require_remove e q type m i) else Some q) (req_upd q)"
  using assms require_remove_inv [of q i type e m]
  by (simp add: wp req_upd_refl)

lemma opt_append:
  assumes "quorum_inv q" "b \<Longrightarrow> 0 \<le> i \<and> i \<le> id_limit type"
  shows "runs (if b then map_option fst (require_append e q type i) else Some q) (req_upd q)"
  using assms require_append_inv [of q i type e]
  by (simp add: wp req_upd_refl)

lemma notify_sid_inv:
  assumes q: "quorum_inv q" and sid: "sid \<le> SLAP_SYNC_SID_MAX"
  shows "runs (notify_sid e q key sid) (\<lambda>x. quorum_inv (fst x))"
proof (cases "find (\<lambda>p. pr_key p = key) (qr_present q)")
  case None
  with q show ?thesis by (simp add: notify_sid_def wp)
next
  case (Some p)
  then have p: "link_ok p" "pr_key p = key"
    using quorum_inv_find [OF q Some] by simp_all
  have set: "quorum_inv (r\<lparr>qr_present := link_set key (pr_sid_update (\<lambda>_. sid)) (qr_present r)\<rparr>)"
    if "req_upd q r" for r
    using quorum_inv_set [OF req_updD(1) [OF that], of key p "pr_sid_update (\<lambda>_. sid)"] Some p sid
    by (simp add: req_updD(2) [OF that])
  have swap: "runs (do { r \<leftarrow> (if - 1 < pr_sid p then map_option fst (require_remove e q
          (QR_VOTED_SID OR QR_FLAG_AUTO) (NOT QR_FLAG_DEMAND) (pr_sid p)) else Some q);
        if - 1 < sid then map_option fst (require_append e r (QR_VOTED_SID OR QR_FLAG_AUTO) sid)
        else Some r }) (req_upd q)"
    unfolding runs_bind
  proof (rule runs_mono)
    show "runs (if - 1 < pr_sid p then map_option fst (require_remove e q
          (QR_VOTED_SID OR QR_FLAG_AUTO) (NOT QR_FLAG_DEMAND) (pr_sid p)) else Some q) (req_upd q)"
      by (rule opt_remove [OF q]) (use p in \<open>simp add: link_ok_def\<close>)
  next
    fix r assume r: "req_upd q r"
    show "runs (if - 1 < sid then map_option fst
        (require_append e r (QR_VOTED_SID OR QR_FLAG_AUTO) sid) else Some r) (req_upd q)"
      by (rule runs_mono [OF opt_append [OF req_updD(1) [OF r]]])
        (use sid r in \<open>auto intro: req_upd_trans\<close>)
  qed
  show ?thesis
    using q set [OF req_upd_refl [OF q]] runs_mono [OF swap, of
        "\<lambda>r. quorum_inv (r\<lparr>qr_present := link_set key (pr_sid_update (\<lambda>_. sid)) (qr_present r)\<rparr>)", OF set]
    by (cases "- 1 < sid"; cases "- 1 < pr_sid p") (simp_all add: notify_sid_def Some wp)
qed

lemma quorum_inv_count:
  assumes "quorum_inv q" "s < QS_MAX"
  shows "qt_status q ! s = count_status (qr_present q) s"
  using assms by (simp add: quorum_inv_def)

lemma count_status_upd:
  "pr_status p < QS_MAX \<Longrightarrow>
   (map (count_status (us @ p # vs)) [0..<QS_MAX])[pr_status p := count_status (us @ p # vs) (pr_status p) - 1]
   = map (count_status (us @ vs)) [0..<QS_MAX]"
  by (rule nth_equalityI) (auto simp: nth_list_update)

lemma count_status_inc:
  "s < QS_MAX \<Longrightarrow> (map (count_status ps) [0..<QS_MAX])[s := count_status ps s + 1]
   = map (\<lambda>t. count_status ps t + (if s = t then 1 else 0)) [0..<QS_MAX]"
  by (rule nth_equalityI) (auto simp: nth_list_update)

lemma notify_status_inv:
  assumes q: "quorum_inv q" and st: "status < QS_MAX"
  shows "runs (notify_status e q key status) (\<lambda>x. quorum_inv (fst x))"
proof (cases "find (\<lambda>p. pr_key p = key) (qr_present q)")
  case None
  with q show ?thesis by (simp add: notify_status_def wp)
next
  case (Some p)
  then obtain us vs where ps: "qr_present q = us @ p # vs" "pr_key p = key" "\<forall>u\<in>set us. pr_key u \<noteq> key"
    using find_key_split by blast
  have p: "pr_status p < QS_MAX" "qt_status q = map (count_status (us @ p # vs)) [0..<QS_MAX]"
    using q ps by (auto simp: quorum_inv_def link_ok_def)
  define st1 where "st1 = (qt_status q)[pr_status p := qt_status q ! pr_status p - 1]"
  have st1: "st1 = map (count_status (us @ vs)) [0..<QS_MAX]"
    using p count_status_upd [of p us vs] by (simp add: st1_def)
  have st2: "st1[status := st1 ! status + 1] =
      map (count_status (us @ p\<lparr>pr_status := status\<rparr> # vs)) [0..<QS_MAX]"
    by (rule nth_equalityI) (use st in \<open>auto simp: st1 nth_list_update\<close>)
  have "quorum_inv (q\<lparr>qt_status := st1[status := st1 ! status + 1],
      qr_present := us @ p\<lparr>pr_status := status\<rparr> # vs\<rparr>)"
    using q st ps by (auto simp: quorum_inv_def st2 link_ok_def)
  moreover have "0 < qt_status q ! pr_status p"
    using p by (simp add: add_nonneg_pos)
  ultimately show ?thesis
    using Some ps q by (simp add: notify_status_def wp Let_def link_set_split flip: st1_def)
qed

lemma append_rids_inv:
  assumes "quorum_inv q" "list_all link_ok ps"
  shows "runs (append_rids e q c ps) (\<lambda>x. req_upd q (fst x))"
  using assms
proof (induction ps arbitrary: q c)
  case (Cons p ps)
  have "runs (require_append e q (QR_VOTED_RID OR QR_FLAG_AUTO) (pr_rid p)) (\<lambda>x. req_upd q (fst x))"
    using Cons.prems by (intro require_append_inv) (simp_all add: link_ok_def)
  then show ?case
    using Cons.prems
    by (auto simp: wp case_prod_beta elim!: runs_mono intro: runs_mono [OF Cons.IH] req_upd_trans
        dest: req_updD(1))
qed (simp add: wp req_upd_refl)

lemma append_sids_inv:
  assumes "quorum_inv q" "list_all link_ok ps"
  shows "runs (append_sids e q c ps) (\<lambda>x. req_upd q (fst x))"
  using assms
proof (induction ps arbitrary: q c)
  case (Cons p ps)
  show ?case
  proof (cases "- 1 < pr_sid p")
    case True
    then have "runs (require_append e q (QR_VOTED_SID OR QR_FLAG_AUTO) (pr_sid p)) (\<lambda>x. req_upd q (fst x))"
      using Cons.prems by (intro require_append_inv) (simp_all add: link_ok_def)
    with True show ?thesis
      using Cons.prems
      by (auto simp: wp case_prod_beta elim!: runs_mono intro: runs_mono [OF Cons.IH] req_upd_trans
          dest: req_updD(1))
  qed (use Cons in simp)
qed (simp add: wp req_upd_refl)

lemma require_auto_rids_inv:
  "quorum_inv q \<Longrightarrow> runs (require_auto_rids e q) (\<lambda>x. quorum_inv (fst x))"
  by (auto simp: require_auto_rids_def wp quorum_inv_def [of q] dest: req_updD(1)
      intro!: runs_mono [OF append_rids_inv])

lemma require_auto_sids_inv:
  "quorum_inv q \<Longrightarrow> runs (require_auto_sids e q) (\<lambda>x. quorum_inv (fst x))"
  by (auto simp: require_auto_sids_def wp quorum_inv_def [of q] dest: req_updD(1)
      intro!: runs_mono [OF append_sids_inv])



text \<open>The databases.\<close>

definition gate_inv :: "slap_quorum \<Rightarrow> bool" where
  "gate_inv q \<longleftrightarrow> 0 \<le> qr_syncrepl_limit q \<and> qr_syncrepl_limit q \<le> QR_SYNCREPL_MAX \<and> 0 \<le> qt_running q"

definition backend_inv :: "backend \<Rightarrow> bool" where
  "backend_inv bd \<longleftrightarrow> pred_option quorum_inv (bd_quorum bd)"

lemma backend_inv_simps [simp]:
  "backend_inv (set_cache bd v) = backend_inv bd"
  "backend_inv (quorum_invalidate bd) = backend_inv bd"
  "backend_inv (bd\<lparr>bd_quorum := Some q\<rparr>) = quorum_inv q"
  "backend_inv (quorum_be_init bd)"
  "backend_inv (quorum_be_destroy bd) = (bd_quorum bd = None \<or> True)"
  by (simp_all add: backend_inv_def set_cache_def quorum_invalidate_def quorum_be_init_def
      quorum_be_destroy_def)

lemma bd_quorum_simps [simp]:
  "bd_quorum (set_cache bd v) = bd_quorum bd"
  "bd_quorum (quorum_invalidate bd) = bd_quorum bd"
  "bd_quorum (quorum_be_init bd) = Some quorum_new"
  by (simp_all add: set_cache_def quorum_invalidate_def quorum_be_init_def)

lemma with_quorum_inv:
  assumes "backend_inv bd" "\<And>q. quorum_inv q \<Longrightarrow> runs (f q) (\<lambda>x. quorum_inv (fst x))"
  shows "runs (with_quorum bd f) backend_inv"
proof (cases "bd_quorum bd")
  case (Some q)
  with assms have "runs (f q) (\<lambda>x. quorum_inv (fst x))"
    by (simp add: backend_inv_def)
  with Some show ?thesis
    by (auto simp: with_quorum_def wp case_prod_beta elim!: runs_mono)
qed (use assms(1) in \<open>simp add: with_quorum_def wp\<close>)

lemma quorum_notify_sid_inv:
  "backend_inv bd \<Longrightarrow> key \<noteq> 0 \<Longrightarrow> sid \<le> SLAP_SYNC_SID_MAX \<Longrightarrow>
   runs (quorum_notify_sid e bd key sid) backend_inv"
  by (simp add: quorum_notify_sid_def wp with_quorum_inv notify_sid_inv)

lemma quorum_notify_status_inv:
  "backend_inv bd \<Longrightarrow> key \<noteq> 0 \<Longrightarrow> status < QS_MAX \<Longrightarrow>
   runs (quorum_notify_status e bd key status) backend_inv"
  by (simp add: quorum_notify_status_def wp with_quorum_inv notify_status_inv qs_defs)

lemma quorum_notify_csn_inv:
  "backend_inv bd \<Longrightarrow> 0 \<le> sid \<Longrightarrow> sid \<le> SLAP_SYNC_SID_MAX \<Longrightarrow>
   runs (quorum_notify_csn e bd sid) backend_inv"
  by (auto simp: quorum_notify_csn_def wp req_upd_def intro!: with_quorum_inv
      runs_mono [OF require_append_inv])

lemma links_fresh:
  assumes "quorum_inv q" "\<not> (\<exists>p\<in>set (qr_present q). pr_key p = key)" "key \<noteq> 0" "0 \<le> rid" "rid \<le> SLAP_SYNC_RID_MAX"
  shows "quorum_inv (q\<lparr>qr_present := qr_present q @ [\<lparr>pr_key = key, pr_rid = rid, pr_sid = - 1, pr_status = QS_DIRTY\<rparr>],
     qt_status := (qt_status q)[QS_DIRTY := qt_status q ! QS_DIRTY + 1],
     qr_salt := qr_salt q + mesh (word_of_int rid)\<rparr>)"
proof -
  have d: "QS_DIRTY < QS_MAX" by (simp add: qs_defs)
  then have "qt_status q ! QS_DIRTY = count_status (qr_present q) QS_DIRTY"
    using assms(1) quorum_inv_count by blast
  with assms d show ?thesis
    by (auto simp: quorum_inv_def count_status_inc link_ok_def SLAP_SYNC_SID_MAX_def)
qed

lemma quorum_add_rid_inv:
  assumes "backend_inv bd" "key \<noteq> 0" "0 \<le> rid" "rid \<le> SLAP_SYNC_RID_MAX"
  shows "runs (quorum_add_rid e bd key rid) backend_inv"
proof -
  define bd' where "bd' = (if bd_quorum bd = None then quorum_be_init bd else bd)"
  define q where "q = the (bd_quorum bd')"
  have q: "quorum_inv q" "bd_quorum bd' = Some q"
    using assms(1) by (auto simp: q_def bd'_def backend_inv_def)
  define q' where "q' = kick e (q\<lparr>qr_present := qr_present q @
     [\<lparr>pr_key = key, pr_rid = rid, pr_sid = - 1, pr_status = QS_DIRTY\<rparr>],
     qt_status := (qt_status q)[QS_DIRTY := qt_status q ! QS_DIRTY + 1],
     qr_salt := qr_salt q + mesh (word_of_int rid)\<rparr>)"
  have "quorum_inv q'" if "\<not> (\<exists>p\<in>set (qr_present q). pr_key p = key)"
    using links_fresh [OF q(1) that assms(2-4)] by (simp add: q'_def)
  moreover have "backend_inv bd'"
    using q by (simp add: backend_inv_def)
  ultimately show ?thesis
    using assms unfolding quorum_add_rid_def
    by (simp add: wp Let_def case_prod_beta flip: bd'_def q_def q'_def)
      (auto dest!: req_updD(1) intro!: runs_mono [OF require_append_inv])
qed

lemma quorum_inv_remove:
  assumes q: "quorum_inv q" and f: "find (\<lambda>p. pr_key p = key) (qr_present q) = Some p"
  shows "0 < qt_status q ! pr_status p"
    "quorum_inv (q\<lparr>qt_status := (qt_status q)[pr_status p := qt_status q ! pr_status p - 1],
       qr_salt := qr_salt q - mesh (word_of_int (pr_rid p)),
       qr_present := link_remove key (qr_present q)\<rparr>)"
proof -
  obtain us vs where ps: "qr_present q = us @ p # vs" "pr_key p = key" "\<forall>u\<in>set us. pr_key u \<noteq> key"
    using find_key_split [OF f] by blast
  have p: "pr_status p < QS_MAX" "qt_status q = map (count_status (us @ p # vs)) [0..<QS_MAX]"
    using q ps by (auto simp: quorum_inv_def link_ok_def)
  show "0 < qt_status q ! pr_status p"
    using p by (simp add: add_nonneg_pos)
  show "quorum_inv (q\<lparr>qt_status := (qt_status q)[pr_status p := qt_status q ! pr_status p - 1],
       qr_salt := qr_salt q - mesh (word_of_int (pr_rid p)),
       qr_present := link_remove key (qr_present q)\<rparr>)"
    using q ps p count_status_upd [of p us vs]
    by (simp add: quorum_inv_def link_remove_split)
qed

lemma kick_present [simp]: "(kick e q)\<lparr>qr_present := ps\<rparr> = kick e (q\<lparr>qr_present := ps\<rparr>)"
  by (simp add: kick_def Let_def lpq_def)

lemma quorum_remove_rid_inv:
  assumes "backend_inv bd" "key \<noteq> 0"
  shows "runs (quorum_remove_rid e bd key) backend_inv"
proof (cases "\<exists>q p. bd_quorum bd = Some q \<and> find (\<lambda>p. pr_key p = key) (qr_present q) = Some p")
  case True
  then obtain q p where q: "bd_quorum bd = Some q" and p: "find (\<lambda>p. pr_key p = key) (qr_present q) = Some p"
    by blast
  have inv: "quorum_inv q" and ok: "link_ok p"
    using assms q quorum_inv_find [OF _ p] by (auto simp: backend_inv_def)
  have last: "0 < qt_status r ! pr_status p" "quorum_inv
     (r\<lparr>qt_status := (qt_status r)[pr_status p := qt_status r ! pr_status p - 1],
        qr_salt := qr_salt r - mesh (word_of_int (pr_rid p)),
        qr_present := link_remove key (qr_present r)\<rparr>)" if "req_upd q r" for r
    using quorum_inv_remove [of r key p] p req_updD [OF that] by simp_all
  have one: "runs (if - 1 < pr_sid p \<and> flag_set (qr_flags q) QR_AUTO_SIDS
      then map_option fst (require_remove e q (QR_VOTED_SID OR QR_FLAG_AUTO) (NOT QR_FLAG_DEMAND) (pr_sid p))
      else Some q) (req_upd q)"
    by (rule opt_remove [OF inv]) (use ok in \<open>simp add: link_ok_def\<close>)
  have two: "runs (if flag_set (qr_flags r) QR_AUTO_RIDS
      then map_option fst (require_remove e r (QR_VOTED_RID OR QR_FLAG_AUTO) (NOT QR_FLAG_DEMAND) (pr_rid p))
      else Some r) (req_upd q)" if "req_upd q r" for r
    by (rule runs_mono [OF opt_remove [OF req_updD(1) [OF that]]])
      (use ok that in \<open>auto simp: link_ok_def intro: req_upd_trans\<close>)
  show ?thesis
    unfolding quorum_remove_rid_def q p option.case runs_bind Let_def runs_assert_that runs_Some
    by (intro conjI impI assms runs_mono [OF one] runs_mono [OF two] last(1)) (simp_all add: last)
qed (use assms in \<open>auto simp: quorum_remove_rid_def wp split: option.splits\<close>)

section \<open>What the verdict means\<close>

lemma quorum_majority: "quorum tot wanna ready \<longleftrightarrow> 0 < min tot wanna \<and> min tot wanna < 2 * ready"
  unfolding quorum_def Let_def min_def by (auto split: if_splits) presburger+

text \<open>The requirements the verdict counts: an entry for the server itself is skipped.\<close>

definition counted :: "env \<Rightarrow> requirment \<Rightarrow> bool" where
  "counted e r \<longleftrightarrow> \<not> (QR_IS_SID (rq_type r) \<and> rq_id r = slap_serverID e)"

definition req_link :: "present list \<Rightarrow> requirment \<Rightarrow> present option" where
  "req_link ps r =
     (if QR_IS_SID (rq_type r) then find (\<lambda>p. pr_sid p = rq_id r) ps
      else find (\<lambda>p. pr_rid p = rq_id r) ps)"

definition satisfied :: "present list \<Rightarrow> requirment \<Rightarrow> bool" where
  "satisfied ps r \<longleftrightarrow> pred_option link_ready (req_link ps r) \<and> req_link ps r \<noteq> None"

definition wanted :: "env \<Rightarrow> slap_quorum \<Rightarrow> bool \<Rightarrow> requirment list" where
  "wanted e q sid = filter (\<lambda>r. counted e r \<and> QR_IS_SID (rq_type r) = sid) (qr_requirements q)"

definition ready_count :: "env \<Rightarrow> slap_quorum \<Rightarrow> bool \<Rightarrow> nat" where
  "ready_count e q sid = length (filter (satisfied (qr_present q)) (wanted e q sid))"

definition demand_lack :: "env \<Rightarrow> int \<Rightarrow> slap_quorum \<Rightarrow> bool" where
  "demand_lack e junk q \<longleftrightarrow> (\<exists>r\<in>set (qr_requirements q). counted e r \<and> QR_IS_DEMAND (rq_type r) \<and>
     lacks junk (qr_present q) (req_link (qr_present q) r))"

text \<open>The verdict by cases. It is the one of the code, with its limits: the majority is one of the wanted peers counted up to the number of
  links, a demanded link that is absent is judged by the entry behind the last link, and a required replica ID is a
  demand only if its type says so.\<close>

definition has_quorum :: "env \<Rightarrow> int \<Rightarrow> slap_quorum \<Rightarrow> bool" where
  "has_quorum e junk q \<longleftrightarrow>
     (let total = length (qr_present q); sids = length (wanted e q True); rids = length (wanted e q False)
      in (flag_set (qr_flags q) QR_ALL_LINKS \<longrightarrow> list_all link_ready (qr_present q)) \<and>
         \<not> demand_lack e junk q \<and>
         (sids + rids = 0 \<or> quorum total sids (ready_count e q True) \<or>
            quorum total rids (ready_count e q False)) \<and>
         (flag_set (qr_flags q) QR_AUTO_SIDS \<longrightarrow> total = 0 \<or> total < 2 * sids))"

lemma lazy_reqs_spec:
  "lazy_reqs e junk ps rs (a, b, c, d, st) =
     (let f = (\<lambda>sid. filter (\<lambda>r. counted e r \<and> QR_IS_SID (rq_type r) = sid) rs) in
      (a + length (f True), b + length (filter (satisfied ps) (f True)),
       c + length (f False), d + length (filter (satisfied ps) (f False)),
       if \<exists>r\<in>set rs. counted e r \<and> QR_IS_DEMAND (rq_type r) \<and> lacks junk ps (req_link ps r)
       then - 1 else st))"
proof (induction rs arbitrary: a b c d st)
  case (Cons r rs)
  show ?case
  proof (cases "counted e r")
    case True
    then show ?thesis
      by (cases "QR_IS_SID (rq_type r)"; cases "req_link ps r")
        (auto simp: Cons Let_def counted_def satisfied_def req_link_def)
  next
    case False
    then show ?thesis by (auto simp: Cons counted_def Let_def)
  qed
qed simp

lemma list_all_length: "length (filter P xs) < length xs \<longleftrightarrow> \<not> list_all P xs"
  by (metis length_filter_less length_filter_le list_all_iff filter_True le_neq_implies_less less_irrefl)

lemma lazy_update_spec: "lazy_update e junk q = (if has_quorum e junk q then 1 else - 1)"
proof -
  have [simp]: "wanted e q s = []" if "qr_requirements q = []" for s
    using that by (simp add: wanted_def)
  show ?thesis
    unfolding lazy_update_def has_quorum_def lazy_reqs_spec demand_lack_def [symmetric]
      wanted_def [symmetric] ready_count_def [symmetric] Let_def prod.case
    by (auto simp: list_all_length quorum_majority)
qed

text \<open>The verdict only reads the IDs and the readiness of the links.\<close>

definition link_view :: "present list \<Rightarrow> (int \<times> int \<times> bool) list" where
  "link_view ps = map (\<lambda>p. (pr_rid p, pr_sid p, link_ready p)) ps"

lemma find_view:
  "link_view ps = link_view ps' \<Longrightarrow> f = (\<lambda>p. g (pr_rid p, pr_sid p, link_ready p)) \<Longrightarrow>
   map_option link_ready (find f ps) = map_option link_ready (find f ps')"
  unfolding link_view_def
  by (induction ps ps' rule: list_induct2') auto

lemma req_link_view:
  assumes "link_view ps = link_view ps'"
  shows "map_option link_ready (req_link ps r) = map_option link_ready (req_link ps' r)"
  using find_view [OF assms, of _ "\<lambda>(r', s, _). s = rq_id r"] find_view [OF assms, of _ "\<lambda>(r', s, _). r' = rq_id r"]
  by (simp add: req_link_def)

lemma view_cong:
  assumes v: "link_view ps = link_view ps'"
  shows "satisfied ps r = satisfied ps' r" "lacks junk ps (req_link ps r) = lacks junk ps' (req_link ps' r)"
    "length ps = length ps'" "list_all link_ready ps = list_all link_ready ps'"
proof -
  show len: "length ps = length ps'"
    using arg_cong [OF v, of length] by (simp add: link_view_def)
  show "satisfied ps r = satisfied ps' r" "lacks junk ps (req_link ps r) = lacks junk ps' (req_link ps' r)"
    using req_link_view [OF v, of r] len
    by (cases "req_link ps r"; cases "req_link ps' r"; auto simp: satisfied_def lacks_def)+
  have "list_all link_ready xs = list_all (\<lambda>(_, _, b). b) (link_view xs)" for xs
    by (simp add: link_view_def list_all_iff)
  with v show "list_all link_ready ps = list_all link_ready ps'" by simp
qed

lemma lazy_update_view:
  assumes "link_view (qr_present q) = link_view (qr_present q')" "qr_flags q = qr_flags q'"
    "qr_requirements q = qr_requirements q'"
  shows "lazy_update e junk q = lazy_update e junk q'"
  using assms view_cong [OF assms(1)]
  by (simp add: lazy_update_spec has_quorum_def demand_lack_def ready_count_def wanted_def)

text \<open>The cached verdict agrees with the links and requirements.\<close>

definition coherent :: "env \<Rightarrow> int \<Rightarrow> backend \<Rightarrow> bool" where
  "coherent e junk bd \<longleftrightarrow> get_cache bd = 0 \<or> bd_quorum bd = None \<or>
     get_cache bd = lazy_update e junk (the (bd_quorum bd))"

lemma get_cache_simps [simp]:
  "get_cache (set_cache bd v) = v" "get_cache (quorum_invalidate bd) = 0"
  "get_cache (bd\<lparr>bd_quorum := x\<rparr>) = get_cache bd"
  by (simp_all add: get_cache_def set_cache_def quorum_invalidate_def)

lemma with_quorum_coherent:
  assumes c: "coherent e junk bd"
    and f: "\<And>q q'. f q = Some (q', False) \<Longrightarrow> lazy_update e junk q' = lazy_update e junk q"
    and w: "with_quorum bd f = Some bd'"
  shows "coherent e junk bd'"
proof (cases "bd_quorum bd")
  case (Some q)
  with w obtain q' d where q': "f q = Some (q', d)"
      "bd' = (if d then quorum_invalidate (bd\<lparr>bd_quorum := Some q'\<rparr>) else bd\<lparr>bd_quorum := Some q'\<rparr>)"
    by (auto simp: with_quorum_def abort_simps Let_def)
  with c f Some show ?thesis by (cases d) (auto simp: coherent_def)
qed (use c w in \<open>simp add: with_quorum_def\<close>)

lemma link_view_status:
  assumes "find (\<lambda>p. pr_key p = key) ps = Some p" "link_ready p = (QS_READY \<le> s)"
  shows "link_view (link_set key (\<lambda>p. p\<lparr>pr_status := s\<rparr>) ps) = link_view ps"
  using assms by (induction ps) (auto simp: link_view_def link_ready_def split: if_splits)

lemma notify_status_same_verdict:
  "notify_status e' q key s = Some (q', False) \<Longrightarrow> lazy_update e junk q' = lazy_update e junk q"
  by (auto simp: notify_status_def abort_simps link_ready_def not_le [symmetric] split: option.splits if_splits
      intro!: lazy_update_view link_view_status)

lemma notify_sid_same_verdict:
  "notify_sid e' q key s = Some (q', False) \<Longrightarrow> lazy_update e junk q' = lazy_update e junk q"
  by (auto simp: notify_sid_def abort_simps split: option.splits if_splits)

lemma require_scan_False: "require_scan type i rs = Some (rs', False) \<Longrightarrow> rs' = rs"
  by (induction rs arbitrary: rs') (auto split: if_splits)

lemma require_append_False: "require_append e q type i = Some (q', False) \<Longrightarrow> q' = q"
  by (auto simp: require_append_def abort_simps split: option.splits dest: require_scan_False)

end
