(* ===== verification/Quorum_Config.thy ===== *)
theory Quorum_Config
  imports Quorum
begin

text \<open>
  The configuration of the quorum, \<^verbatim>\<open>config_quorum\<close> of \<^verbatim>\<open>servers/slapd/quorum.c\<close> with the
  helpers it calls from \<^verbatim>\<open>value.c\<close> and \<^verbatim>\<open>liblutil/utils.c\<close>, and the quorum of one database
  as a transition system whose steps are the public operations.
  The error texts in \<^verbatim>\<open>c->cr_msg\<close> and out-of-memory returns are not modelled.
\<close>

section \<open>Definitions\<close>

text \<open>The return code, and the value stored through \<^verbatim>\<open>v\<close> when it is 0.\<close>

definition lutil_atoix :: "string \<Rightarrow> int \<Rightarrow> int \<times> int option" where
  "lutil_atoix s x =
     (let (i, n) = strtol x s
      in if n = 0 \<or> n \<noteq> length s then (- 1, None)
         else if int32 i \<noteq> i then (1, None)
         else (0, Some i))"

text \<open>\<^verbatim>\<open>(lutil_atoi(&id, s) && lutil_atoix(&id, s, 16))\<close>: \<open>None\<close> when both fail.\<close>

definition parse_id :: "string \<Rightarrow> int option" where
  "parse_id s = (case lutil_atoix s 10 of
     (_, Some i) \<Rightarrow> Some i
   | (_, None) \<Rightarrow> snd (lutil_atoix s 16))"

text \<open>The copy loop: the separator goes before every element but the first.\<close>

fun join_copy :: "string \<Rightarrow> bool \<Rightarrow> string list \<Rightarrow> string" where
  "join_copy comma first [] = []"
| "join_copy comma first (v # vs) = (if first then [] else comma) @ v @ join_copy comma False vs"

definition value_join_str :: "string list \<Rightarrow> string \<Rightarrow> berval option" where
  "value_join_str vals comma =
     (let len = sum_list (map (\<lambda>v. length v + length comma) vals)
      in if len = 0 then None
         else Some \<lparr>bv_len = len, bv_val = join_copy comma True vals\<rparr>)"

definition unparse :: "slap_quorum \<Rightarrow> int \<Rightarrow> string \<Rightarrow> string list" where
  "unparse q type verb =
     (let ids = map rq_id (filter (\<lambda>r. rq_type r = type) (qr_requirements q))
      in if ids = [] then [] else verb # map print_int ids)"

definition emit_vals :: "slap_quorum \<Rightarrow> string list" where
  "emit_vals q =
     (if flag_set (qr_flags q) QR_ALL_LINKS then [''all-links''] else [])
     @ (if flag_set (qr_flags q) QR_AUTO_SIDS then [''auto-sids''] else [])
     @ (if flag_set (qr_flags q) QR_AUTO_RIDS then [''auto-rids''] else [])
     @ unparse q QR_DEMAND_RID ''require-rids'' @ unparse q QR_DEMAND_SID ''require-sids''
     @ unparse q QR_VOTED_RID ''vote-rids'' @ unparse q QR_VOTED_SID ''vote-sids''
     @ (if 0 < qr_syncrepl_limit q
        then [''limit-concurrent-refresh'', print_int (qr_syncrepl_limit q)] else [])"

definition QR_FAKETYPE_max_concurrent_refresh :: int where
  "QR_FAKETYPE_max_concurrent_refresh = - 2"

definition set_quorum :: "backend \<Rightarrow> slap_quorum \<Rightarrow> backend" where
  "set_quorum bd q = bd\<lparr>bd_quorum := Some q\<rparr>"

text \<open>The loop over \<^verbatim>\<open>argv[1..argc-1]\<close>; the result is the database and the return code. An error
  returns at once: what the arguments before it did stays done.\<close>

fun config_args :: "env \<Rightarrow> backend \<Rightarrow> int \<Rightarrow> string list \<Rightarrow> (backend \<times> int) option" where
  "config_args e bd type [] = Some (bd, 0)"
| "config_args e bd type (a # argv) =
     (let q = the (bd_quorum bd)
      in if strcaseeq a ''all-links''
         then config_args e
                (if flag_set (qr_flags q) QR_ALL_LINKS then bd
                 else quorum_invalidate
                        (set_quorum bd (q\<lparr>qr_flags := qr_flags q OR QR_ALL_LINKS\<rparr>)))
                (- 1) argv
         else if strcaseeq a ''auto-sids'' then do {
                bd \<leftarrow> with_quorum bd (require_auto_sids e);
                config_args e bd (- 1) argv }
         else if strcaseeq a ''auto-rids'' then do {
                bd \<leftarrow> with_quorum bd (require_auto_rids e);
                config_args e bd (- 1) argv }
         else if strcaseeq a ''vote-sids'' then config_args e bd QR_VOTED_SID argv
         else if strcaseeq a ''vote-rids'' then config_args e bd QR_VOTED_RID argv
         else if strcaseeq a ''require-sids'' then config_args e bd QR_DEMAND_SID argv
         else if strcaseeq a ''require-rids'' then config_args e bd QR_DEMAND_RID argv
         else if strcaseeq a ''limit-concurrent-refresh''
         then if qr_syncrepl_limit q \<noteq> 0 then Some (bd, 1)
              else config_args e (set_quorum bd (q\<lparr>qr_syncrepl_limit := 1\<rparr>))
                     QR_FAKETYPE_max_concurrent_refresh argv
         else if type = QR_FAKETYPE_max_concurrent_refresh
         then (case lutil_atoix a 10 of
                 (_, Some n) \<Rightarrow>
                   if n < 1 \<or> QR_SYNCREPL_MAX < n then Some (bd, 1)
                   else config_args e (set_quorum bd (q\<lparr>qr_syncrepl_limit := n\<rparr>)) (- 1) argv
               | (_, None) \<Rightarrow> Some (bd, 1))
         else if type < 0 then Some (bd, 1)
         else (case parse_id a of
                 None \<Rightarrow> Some (bd, 1)
               | Some i \<Rightarrow>
                   if i < 0 \<or> id_limit type < i then Some (bd, 1)
                   else do {
                     (q, c) \<leftarrow> require_append e q type i;
                     if \<not> c then Some (set_quorum bd q, 1)
                     else config_args e (quorum_invalidate (set_quorum bd q)) type argv }))"

definition config_emit :: "backend \<Rightarrow> int \<times> berval option" where
  "config_emit bd =
     (case bd_quorum bd of
        None \<Rightarrow> (1, None)
      | Some q \<Rightarrow> if emit_vals q = [] then (1, None) else (0, value_join_str (emit_vals q) '' ''))"

definition config_delete :: "backend \<Rightarrow> backend" where
  "config_delete bd =
     (case bd_quorum bd of
        None \<Rightarrow> bd
      | Some q \<Rightarrow>
          (let bd = (if qr_requirements q = [] then bd else set_cache bd 1)
           in set_quorum bd (q\<lparr>qr_flags := 0, qr_requirements := [], qr_syncrepl_limit := 0\<rparr>)))"

definition config_add :: "env \<Rightarrow> backend \<Rightarrow> string list \<Rightarrow> (backend \<times> int) option" where
  "config_add e bd argv =
     config_args e (if bd_quorum bd = None then quorum_be_init bd else bd) (- 1) argv"

datatype config_op = SLAP_CONFIG_EMIT | LDAP_MOD_DELETE | SLAP_CONFIG_ADD

text \<open>The database, the return code, and \<^verbatim>\<open>c->value_bv\<close> of an emit.\<close>

definition config_quorum ::
  "env \<Rightarrow> config_op \<Rightarrow> backend \<Rightarrow> string list \<Rightarrow> (backend \<times> int \<times> berval option) option" where
  "config_quorum e op bd argv =
     (case op of
        SLAP_CONFIG_EMIT \<Rightarrow> (let (rc, v) = config_emit bd in Some (bd, rc, v))
      | LDAP_MOD_DELETE \<Rightarrow> Some (config_delete bd, 0, None)
      | SLAP_CONFIG_ADD \<Rightarrow> map_option (\<lambda>(bd, rc). (bd, rc, None)) (config_add e bd argv))"

section \<open>The configuration keeps the invariant\<close>

lemma set_quorum_simps [simp]:
  "bd_quorum (set_quorum bd q) = Some q" "backend_inv (set_quorum bd q) = quorum_inv q"
  by (simp_all add: set_quorum_def)

definition config_ok :: "backend \<Rightarrow> bool" where
  "config_ok bd \<longleftrightarrow> backend_inv bd \<and> bd_quorum bd \<noteq> None"

lemma config_okE:
  assumes "config_ok bd"
  obtains q where "bd_quorum bd = Some q" "quorum_inv q"
  using assms by (auto simp: config_ok_def backend_inv_def)

lemma config_ok_set [simp]:
  "config_ok (set_quorum bd q) = quorum_inv q" "config_ok (quorum_invalidate bd) = config_ok bd"
  by (simp_all add: config_ok_def)

lemma with_quorum_config_ok:
  assumes "config_ok bd" "\<And>q. quorum_inv q \<Longrightarrow> runs (f q) (\<lambda>x. quorum_inv (fst x))"
  shows "runs (with_quorum bd f) config_ok"
proof -
  obtain q where "bd_quorum bd = Some q" "quorum_inv q"
    using assms(1) by (rule config_okE)
  then show ?thesis
    using assms(2) [of q]
    by (auto simp: with_quorum_def wp case_prod_beta set_quorum_def [symmetric] elim!: runs_mono)
qed

lemma config_args_inv:
  "config_ok bd \<Longrightarrow> runs (config_args e bd type argv) (\<lambda>x. config_ok (fst x))"
proof (induction argv arbitrary: bd type)
  case (Cons a argv)
  obtain q where q: "bd_quorum bd = Some q" "quorum_inv q"
    using Cons.prems by (rule config_okE)
  have sids: "runs (with_quorum bd (require_auto_sids e)) (\<lambda>b. runs (config_args e b (- 1) argv) (\<lambda>x. config_ok (fst x)))"
    and rids: "runs (with_quorum bd (require_auto_rids e)) (\<lambda>b. runs (config_args e b (- 1) argv) (\<lambda>x. config_ok (fst x)))"
    using Cons by (auto intro!: runs_mono [OF with_quorum_config_ok] require_auto_sids_inv require_auto_rids_inv)
  have app: "runs (require_append e q type i) (\<lambda>x. (\<not> snd x \<longrightarrow> quorum_inv (fst x)) \<and> (snd x \<longrightarrow>
      runs (config_args e (quorum_invalidate (set_quorum bd (fst x))) type argv) (\<lambda>x. config_ok (fst x))))"
    if "\<not> (i < 0 \<or> id_limit type < i)" for i
    using that q Cons.IH by (auto intro!: runs_mono [OF require_append_inv] dest: req_updD(1))
  show ?case
    using Cons sids rids q app
    by (simp add: wp Let_def case_prod_beta split: option.splits)
qed (simp add: wp)

section \<open>The quorum of a database as a transition system\<close>

text \<open>One step is one public operation with the arguments its callers may pass; the environment
  (clock, server ID, mode flags) may differ from step to step.\<close>

inductive quorum_step :: "backend \<Rightarrow> backend \<Rightarrow> bool" where
  add_rid: "key \<noteq> 0 \<Longrightarrow> 0 \<le> rid \<Longrightarrow> rid \<le> SLAP_SYNC_RID_MAX \<Longrightarrow>
     quorum_add_rid e bd key rid = Some bd' \<Longrightarrow> quorum_step bd bd'"
| remove_rid: "key \<noteq> 0 \<Longrightarrow> quorum_remove_rid e bd key = Some bd' \<Longrightarrow> quorum_step bd bd'"
| notify_sid: "key \<noteq> 0 \<Longrightarrow> sid \<le> SLAP_SYNC_SID_MAX \<Longrightarrow>
     quorum_notify_sid e bd key sid = Some bd' \<Longrightarrow> quorum_step bd bd'"
| notify_status: "key \<noteq> 0 \<Longrightarrow> status < QS_MAX \<Longrightarrow>
     quorum_notify_status e bd key status = Some bd' \<Longrightarrow> quorum_step bd bd'"
| notify_csn: "0 \<le> sid \<Longrightarrow> sid \<le> SLAP_SYNC_SID_MAX \<Longrightarrow>
     quorum_notify_csn e bd sid = Some bd' \<Longrightarrow> quorum_step bd bd'"
| query: "quorum_query e junk bd = Some (bd', b) \<Longrightarrow> quorum_step bd bd'"
| query_status: "quorum_query_status e ro bd = (bd', buf, left) \<Longrightarrow> quorum_step bd bd'"
| gate: "key \<noteq> 0 \<Longrightarrow> quorum_syncrepl_gate e bd key inn = Some (bd', rc) \<Longrightarrow> quorum_step bd bd'"
| self_sid: "[bd'] = quorum_notify_self_sid [bd] \<Longrightarrow> quorum_step bd bd'"
| config: "config_quorum e op bd argv = Some (bd', rc, v) \<Longrightarrow> quorum_step bd bd'"
| destroy: "bd' = quorum_be_destroy bd \<Longrightarrow> quorum_step bd bd'"

lemma quorum_query_inv: "backend_inv bd \<Longrightarrow> runs (quorum_query e junk bd) (\<lambda>x. backend_inv (fst x))"
  by (simp add: quorum_query_def wp Let_def lazy_update_spec split: option.splits)

lemma backend_init_inv:
  "backend_inv bd \<Longrightarrow> quorum_inv (the (bd_quorum (if bd_quorum bd = None then quorum_be_init bd else bd)))"
  by (auto simp: backend_inv_def)

lemma quorum_query_status_inv: "backend_inv bd \<Longrightarrow> backend_inv (fst (quorum_query_status e ro bd))"
  using backend_init_inv by (simp add: quorum_query_status_def Let_def)

lemma config_delete_inv: "backend_inv bd \<Longrightarrow> backend_inv (config_delete bd)"
  by (auto simp: config_delete_def Let_def backend_inv_def quorum_inv_def reqs_ok_def split: option.splits)

lemma config_quorum_inv:
  assumes "backend_inv bd"
  shows "runs (config_quorum e op bd argv) (\<lambda>x. backend_inv (fst x))"
proof (cases op)
  case SLAP_CONFIG_ADD
  have "config_ok (if bd_quorum bd = None then quorum_be_init bd else bd)"
    using assms by (simp add: config_ok_def)
  then show ?thesis
    using SLAP_CONFIG_ADD
    by (simp only: config_quorum_def config_add_def config_op.case runs_map_option case_prod_beta fst_conv)
      (rule runs_mono [OF config_args_inv], auto simp: config_ok_def)
qed (use assms in \<open>simp_all add: config_quorum_def wp case_prod_beta config_delete_inv\<close>)

lemma gate_inv:
  "backend_inv bd \<Longrightarrow> quorum_syncrepl_gate e bd key inn = Some (bd', rc) \<Longrightarrow> backend_inv bd'"
  using backend_init_inv [of bd]
  by (auto simp: quorum_syncrepl_gate_def abort_simps Let_def ldap_codes split: if_splits)

lemma quorum_step_inv: "quorum_step bd bd' \<Longrightarrow> backend_inv bd \<Longrightarrow> backend_inv bd'"
proof (induction rule: quorum_step.induct)
  case (query_status e ro bd bd' buf left)
  then show ?case using quorum_query_status_inv [of bd e ro] by simp
next
  case (config e op bd argv bd' rc v)
  then show ?case using config_quorum_inv runsD by fastforce
next
  case (query e junk bd bd' b)
  then show ?case using quorum_query_inv runsD by fastforce
next
  case (self_sid bd' bd)
  then show ?case by (auto simp: quorum_notify_self_sid_def split: if_splits)
qed (auto intro: gate_inv dest: quorum_add_rid_inv [THEN runsD] quorum_remove_rid_inv [THEN runsD]
    quorum_notify_sid_inv [THEN runsD] quorum_notify_status_inv [THEN runsD] quorum_notify_csn_inv [THEN runsD])

lemma quorum_reach_inv: "quorum_step\<^sup>*\<^sup>* (quorum_be_init bd) bd' \<Longrightarrow> backend_inv bd'"
  by (induction rule: rtranclp_induct) (auto intro: quorum_step_inv)

section \<open>Configuration round trip\<close>

lemma lutil_atoix_digits:
  "0 \<le> n \<Longrightarrow> n < 2 ^ 31 \<Longrightarrow> lutil_atoix (print_int n) 10 = (0, Some n)"
  using digits_of_spec [of n 10]
  by (simp add: lutil_atoix_def print_int_def strtol_digits_of)

lemma parse_id_digits: "0 \<le> n \<Longrightarrow> n < 2 ^ 31 \<Longrightarrow> parse_id (print_int n) = Some n"
  by (simp add: parse_id_def lutil_atoix_digits)

lemma tolower_digit: "digit_below 10 c \<Longrightarrow> tolower c \<notin> {CHR ''a'', CHR ''v'', CHR ''r'', CHR ''l''}"
proof -
  assume "digit_below 10 c"
  then have "isdigit c"
    by (auto simp: digit_below_def xdigit_def is_upper_hex_def is_lower_hex_def code_def less_eq_char_code
        split: if_splits)
  then have "tolower c = c \<and> c \<le> CHR ''9''"
    by (auto simp: tolower_def isdigit_def less_eq_char_code)
  then show ?thesis by (auto simp: less_eq_char_code)
qed

lemma id_not_keyword:
  "0 \<le> n \<Longrightarrow> hd k \<in> {CHR ''a'', CHR ''v'', CHR ''r'', CHR ''l''} \<Longrightarrow> tolower (hd k) = hd k \<Longrightarrow> k \<noteq> [] \<Longrightarrow>
   \<not> strcaseeq (print_int n) k"
  using digits_of_spec [of n 10] tolower_digit [of "hd (print_int n)"]
  by (cases "print_int n"; cases k) (auto simp: strcaseeq_def print_int_def)


lemma strcaseeq_lower: "map tolower a = a \<Longrightarrow> map tolower b = b \<Longrightarrow> strcaseeq a b \<longleftrightarrow> a = b"
  by (simp add: strcaseeq_def)

lemma keywords_lower:
  "map tolower ''all-links'' = ''all-links''" "map tolower ''auto-sids'' = ''auto-sids''"
  "map tolower ''auto-rids'' = ''auto-rids''" "map tolower ''vote-sids'' = ''vote-sids''"
  "map tolower ''vote-rids'' = ''vote-rids''" "map tolower ''require-sids'' = ''require-sids''"
  "map tolower ''require-rids'' = ''require-rids''"
  "map tolower ''limit-concurrent-refresh'' = ''limit-concurrent-refresh''"
  by code_simp+

lemmas keyword_simps = strcaseeq_lower [OF keywords_lower(1)] strcaseeq_lower [OF keywords_lower(2)]
  strcaseeq_lower [OF keywords_lower(3)] strcaseeq_lower [OF keywords_lower(4)]
  strcaseeq_lower [OF keywords_lower(5)] strcaseeq_lower [OF keywords_lower(6)]
  strcaseeq_lower [OF keywords_lower(7)] strcaseeq_lower [OF keywords_lower(8)] keywords_lower

lemma config_keyword:
  "config_args e bd ty (''vote-sids'' # as) = config_args e bd QR_VOTED_SID as"
  "config_args e bd ty (''vote-rids'' # as) = config_args e bd QR_VOTED_RID as"
  "config_args e bd ty (''require-sids'' # as) = config_args e bd QR_DEMAND_SID as"
  "config_args e bd ty (''require-rids'' # as) = config_args e bd QR_DEMAND_RID as"
  by (simp_all add: keyword_simps Let_def del: list.map)

lemma config_id:
  assumes "bd_quorum bd = Some q" "0 \<le> ty" "0 \<le> i" "i \<le> id_limit ty"
    "(QR_IS_SID ty, i) \<notin> req_key ` set (qr_requirements q)"
  shows "config_args e bd ty (print_int i # as) =
     config_args e (quorum_invalidate (set_quorum bd
       (q\<lparr>qr_requirements := qr_requirements q @ [\<lparr>rq_type = ty, rq_id = i\<rparr>]\<rparr>))) ty as"
proof -
  have "parse_id (print_int i) = Some i"
    using assms(3,4) by (intro parse_id_digits) (auto simp: id_limit_def SLAP_SYNC_SID_MAX_def SLAP_SYNC_RID_MAX_def split: if_splits)
  moreover have "require_append e q ty i =
      Some (q\<lparr>qr_requirements := qr_requirements q @ [\<lparr>rq_type = ty, rq_id = i\<rparr>]\<rparr>, True)"
    using assms(3-5) by (simp add: require_append_def require_scan_None [THEN iffD2] assert_that_def)
  ultimately show ?thesis
    using assms(1-4) by (simp add: id_not_keyword keywords_lower [simplified] Let_def QR_FAKETYPE_max_concurrent_refresh_def)
qed


lemma config_ids:
  assumes "bd_quorum bd = Some q" "0 \<le> ty" "\<forall>i\<in>set ids. 0 \<le> i \<and> i \<le> id_limit ty" "distinct ids"
    "\<forall>i\<in>set ids. (QR_IS_SID ty, i) \<notin> req_key ` set (qr_requirements q)"
  shows "\<exists>bd'. config_args e bd ty (map print_int ids @ as) = config_args e bd' ty as \<and>
    bd_quorum bd' = Some (q\<lparr>qr_requirements := qr_requirements q @ map (\<lambda>i. \<lparr>rq_type = ty, rq_id = i\<rparr>) ids\<rparr>)"
  using assms
proof (induction ids arbitrary: bd q)
  case (Cons i ids)
  define q' where "q' = q\<lparr>qr_requirements := qr_requirements q @ [\<lparr>rq_type = ty, rq_id = i\<rparr>]\<rparr>"
  have fresh: "\<forall>j\<in>set ids. (QR_IS_SID ty, j) \<notin> req_key ` set (qr_requirements q')"
    using Cons.prems by (auto simp: q'_def req_key_def)
  obtain bd' where "config_args e (quorum_invalidate (set_quorum bd q')) ty (map print_int ids @ as)
      = config_args e bd' ty as"
    "bd_quorum bd' = Some (q'\<lparr>qr_requirements := qr_requirements q' @ map (\<lambda>i. \<lparr>rq_type = ty, rq_id = i\<rparr>) ids\<rparr>)"
    using Cons.IH [of "quorum_invalidate (set_quorum bd q')" q', OF _ _ _ _ fresh] Cons.prems
    by (auto simp del: config_args.simps)
  moreover have "config_args e bd ty (print_int i # map print_int ids @ as) =
      config_args e (quorum_invalidate (set_quorum bd q')) ty (map print_int ids @ as)"
    unfolding q'_def by (rule config_id) (use Cons.prems in auto)
  ultimately show ?case
    by (intro exI [of _ bd']) (simp add: q'_def del: config_args.simps)
qed (auto simp del: config_args.simps)

text \<open>What \<open>unparse\<close> printed for one type is read back; \<open>done\<close> are the entries read before.\<close>

lemma config_unparse:
  assumes bd: "bd_quorum bd = Some q" and ok: "reqs_ok (qr_requirements q0)" and t: "0 \<le> t"
    and kw: "\<And>bd ty as. config_args e bd ty (v # as) = config_args e bd t as"
    and sub: "set (qr_requirements q) \<subseteq> set (qr_requirements q0)" "\<forall>r\<in>set (qr_requirements q). rq_type r \<noteq> t"
  shows "\<exists>bd' ty'. config_args e bd ty (unparse q0 t v @ as) = config_args e bd' ty' as \<and>
    bd_quorum bd' = Some (q\<lparr>qr_requirements := qr_requirements q @ filter (\<lambda>r. rq_type r = t) (qr_requirements q0)\<rparr>)"
proof (cases "filter (\<lambda>r. rq_type r = t) (qr_requirements q0) = []")
  case True
  with bd show ?thesis by (auto simp: unparse_def simp del: config_args.simps)
next
  case False
  define rs where "rs = filter (\<lambda>r. rq_type r = t) (qr_requirements q0)"
  have d: "distinct (map req_key (qr_requirements q0))" using ok by (simp add: reqs_ok_def)
  then have "distinct (map req_key rs)" by (simp add: rs_def distinct_map_filter)
  moreover have "map req_key rs = map (Pair (QR_IS_SID t)) (map rq_id rs)"
    by (simp add: rs_def req_key_def)
  ultimately have "distinct (map (Pair (QR_IS_SID t)) (map rq_id rs))"
    by (simp only:)
  then have "distinct (map rq_id rs)"
    unfolding distinct_map [of _ "map rq_id rs"] by (rule conjunct1)
  moreover have "\<forall>i\<in>set (map rq_id rs). 0 \<le> i \<and> i \<le> id_limit t"
    using ok by (auto simp: rs_def reqs_ok_def list_all_iff)
  moreover have "(QR_IS_SID t, i) \<notin> req_key ` set (qr_requirements q)" if i: "i \<in> set (map rq_id rs)" for i
  proof
    assume "(QR_IS_SID t, i) \<in> req_key ` set (qr_requirements q)"
    then obtain r where r: "r \<in> set (qr_requirements q)" "req_key r = (QR_IS_SID t, i)" by force
    from i obtain r' where r': "r' \<in> set (qr_requirements q0)" "rq_type r' = t" "rq_id r' = i"
      by (auto simp: rs_def)
    then have "req_key r' = req_key r" using r by (simp add: req_key_def)
    with d r(1) r'(1) sub(1) have "r' = r" by (metis distinct_map inj_onD subsetD)
    with r r' sub show False by auto
  qed
  ultimately obtain bd' where b: "config_args e bd t (map print_int (map rq_id rs) @ as) = config_args e bd' t as"
    "bd_quorum bd' = Some (q\<lparr>qr_requirements := qr_requirements q @ map (\<lambda>i. \<lparr>rq_type = t, rq_id = i\<rparr>) (map rq_id rs)\<rparr>)"
    using config_ids [OF bd t, of "map rq_id rs" e as] by blast
  have "map (\<lambda>i. \<lparr>rq_type = t, rq_id = i\<rparr>) (map rq_id rs) = rs"
    by (auto simp: rs_def intro!: map_idI)
  with b kw False show ?thesis
    by (auto simp: unparse_def Let_def rs_def simp del: config_args.simps)
qed

lemma config_flag:
  assumes "bd_quorum bd = Some q" "qr_present q = []" "\<not> flag_set (qr_flags q) f"
    "(v, f) \<in> {(''all-links'', QR_ALL_LINKS), (''auto-sids'', QR_AUTO_SIDS), (''auto-rids'', QR_AUTO_RIDS)}"
  shows "\<exists>bd' ty'. config_args e bd ty ((if b then [v] else []) @ as) = config_args e bd' ty' as \<and>
    bd_quorum bd' = Some (q\<lparr>qr_flags := if b then qr_flags q OR f else qr_flags q\<rparr>)"
proof (cases b)
  case True
  have "\<exists>bd'. config_args e bd ty (v # as) = config_args e bd' (- 1) as \<and>
      bd_quorum bd' = Some (q\<lparr>qr_flags := qr_flags q OR f\<rparr>)"
    using assms(4)
  proof (elim insertE emptyE)
    assume v: "(v, f) = (''all-links'', QR_ALL_LINKS)"
    with assms show ?thesis
      by (intro exI [of _ "quorum_invalidate (set_quorum bd (q\<lparr>qr_flags := qr_flags q OR f\<rparr>))"])
        (simp add: keyword_simps Let_def del: list.map)
  next
    assume v: "(v, f) = (''auto-sids'', QR_AUTO_SIDS)"
    with assms show ?thesis
      by (intro exI [of _ "bd\<lparr>bd_quorum := Some (q\<lparr>qr_flags := qr_flags q OR f\<rparr>)\<rparr>"])
        (simp add: keyword_simps Let_def with_quorum_def require_auto_sids_def del: list.map)
  next
    assume v: "(v, f) = (''auto-rids'', QR_AUTO_RIDS)"
    with assms show ?thesis
      by (intro exI [of _ "bd\<lparr>bd_quorum := Some (q\<lparr>qr_flags := qr_flags q OR f\<rparr>)\<rparr>"])
        (simp add: keyword_simps Let_def with_quorum_def require_auto_rids_def del: list.map)
  qed
  with True show ?thesis by (auto simp del: config_args.simps)
qed (use assms in \<open>auto simp del: config_args.simps\<close>)


lemma config_limit:
  assumes "bd_quorum bd = Some q" "qr_syncrepl_limit q = 0" "0 \<le> n" "n \<le> QR_SYNCREPL_MAX"
  shows "\<exists>bd'. config_args e bd ty (if 0 < n then [''limit-concurrent-refresh'', print_int n] else []) = Some (bd', 0) \<and>
    bd_quorum bd' = Some (q\<lparr>qr_syncrepl_limit := n\<rparr>)"
proof (cases "0 < n")
  case True
  have "lutil_atoix (print_int n) 10 = (0, Some n)"
    using assms by (intro lutil_atoix_digits) (simp_all add: QR_SYNCREPL_MAX_def)
  with True assms show ?thesis
    by (simp add: keyword_simps Let_def id_not_keyword keywords_lower [simplified] del: list.map)
qed (use assms in auto)

definition emitted :: "slap_quorum \<Rightarrow> requirment list" where
  "emitted q = filter (\<lambda>r. rq_type r = QR_DEMAND_RID) (qr_requirements q)
     @ filter (\<lambda>r. rq_type r = QR_DEMAND_SID) (qr_requirements q)
     @ filter (\<lambda>r. rq_type r = QR_VOTED_RID) (qr_requirements q)
     @ filter (\<lambda>r. rq_type r = QR_VOTED_SID) (qr_requirements q)"

lemma config_flags:
  assumes "bd_quorum bd = Some q" "qr_present q = []" "qr_flags q = 0" "0 \<le> fl" "fl < 8"
  shows "\<exists>bd' ty'. config_args e bd ty
      ((if flag_set fl QR_ALL_LINKS then [''all-links''] else [])
       @ (if flag_set fl QR_AUTO_SIDS then [''auto-sids''] else [])
       @ (if flag_set fl QR_AUTO_RIDS then [''auto-rids''] else []) @ as) = config_args e bd' ty' as \<and>
    bd_quorum bd' = Some (q\<lparr>qr_flags := fl\<rparr>)"
proof -
  define x where "x = (if flag_set fl QR_ALL_LINKS then 0 OR QR_ALL_LINKS else 0)"
  define y where "y = (if flag_set fl QR_AUTO_SIDS then x OR QR_AUTO_SIDS else x)"
  define z where "z = (if flag_set fl QR_AUTO_RIDS then y OR QR_AUTO_RIDS else y)"
  have fl: "fl \<in> {0, 1, 2, 3, 4, 5, 6, 7}" using assms(4,5) by simp presburger
  have off: "\<not> flag_set x QR_AUTO_SIDS" "\<not> flag_set y QR_AUTO_RIDS" "\<not> flag_set 0 QR_ALL_LINKS"
    by (simp_all add: x_def y_def flag_set_def QR_ALL_LINKS_def QR_AUTO_SIDS_def QR_AUTO_RIDS_def)
  have z: "z = fl"
    using fl by (elim insertE emptyE)
      (simp_all add: z_def y_def x_def flag_set_def QR_ALL_LINKS_def QR_AUTO_SIDS_def QR_AUTO_RIDS_def)
  let ?rids = "(if flag_set fl QR_AUTO_RIDS then [''auto-rids''] else []) @ as"
  let ?sids = "(if flag_set fl QR_AUTO_SIDS then [''auto-sids''] else []) @ ?rids"
  obtain bd1 t1 where 1: "config_args e bd ty ((if flag_set fl QR_ALL_LINKS then [''all-links''] else []) @ ?sids)
      = config_args e bd1 t1 ?sids" "bd_quorum bd1 = Some (q\<lparr>qr_flags := x\<rparr>)"
    using config_flag [OF assms(1,2), of QR_ALL_LINKS "''all-links''" e ty "flag_set fl QR_ALL_LINKS" ?sids]
      off(3) assms(3) unfolding x_def by auto
  obtain bd2 t2 where 2: "config_args e bd1 t1 ?sids = config_args e bd2 t2 ?rids"
      "bd_quorum bd2 = Some (q\<lparr>qr_flags := y\<rparr>)"
    using config_flag [OF 1(2), of QR_AUTO_SIDS "''auto-sids''" e t1 "flag_set fl QR_AUTO_SIDS" ?rids]
      off(1) assms(2) unfolding y_def by auto
  obtain bd3 t3 where 3: "config_args e bd2 t2 ?rids = config_args e bd3 t3 as"
      "bd_quorum bd3 = Some (q\<lparr>qr_flags := z\<rparr>)"
    using config_flag [OF 2(2), of QR_AUTO_RIDS "''auto-rids''" e t2 "flag_set fl QR_AUTO_RIDS" as]
      off(2) assms(2) unfolding z_def by auto
  show ?thesis using 1 2 3 z by metis
qed

lemma config_reqs:
  assumes bd: "bd_quorum bd = Some q" and ok: "reqs_ok (qr_requirements q0)" and e: "qr_requirements q = []"
  shows "\<exists>bd' ty'. config_args e bd ty (unparse q0 QR_DEMAND_RID ''require-rids'' @ unparse q0 QR_DEMAND_SID ''require-sids''
     @ unparse q0 QR_VOTED_RID ''vote-rids'' @ unparse q0 QR_VOTED_SID ''vote-sids'' @ as) = config_args e bd' ty' as \<and>
    bd_quorum bd' = Some (q\<lparr>qr_requirements := emitted q0\<rparr>)"
proof -
  let ?f = "\<lambda>t. filter (\<lambda>r. rq_type r = t) (qr_requirements q0)"
  have t: "0 \<le> QR_DEMAND_RID" "0 \<le> QR_DEMAND_SID" "0 \<le> QR_VOTED_RID" "0 \<le> QR_VOTED_SID"
    "distinct [QR_DEMAND_RID, QR_DEMAND_SID, QR_VOTED_RID, QR_VOTED_SID]"
    by (simp_all add: qr_defs)
  let ?c = "unparse q0 QR_VOTED_SID ''vote-sids'' @ as"
  let ?b = "unparse q0 QR_VOTED_RID ''vote-rids'' @ ?c"
  let ?a = "unparse q0 QR_DEMAND_SID ''require-sids'' @ ?b"
  obtain bd1 t1 where 1: "config_args e bd ty (unparse q0 QR_DEMAND_RID ''require-rids'' @ ?a) = config_args e bd1 t1 ?a"
      "bd_quorum bd1 = Some (q\<lparr>qr_requirements := ?f QR_DEMAND_RID\<rparr>)"
    using config_unparse [OF bd ok t(1) config_keyword(4), of e ty ?a] e by auto
  obtain bd2 t2 where 2: "config_args e bd1 t1 ?a = config_args e bd2 t2 ?b"
      "bd_quorum bd2 = Some (q\<lparr>qr_requirements := ?f QR_DEMAND_RID @ ?f QR_DEMAND_SID\<rparr>)"
    using config_unparse [OF 1(2) ok t(2) config_keyword(3), of e t1 ?b] t(5) by fastforce
  obtain bd3 t3 where 3: "config_args e bd2 t2 ?b = config_args e bd3 t3 ?c"
      "bd_quorum bd3 = Some (q\<lparr>qr_requirements := (?f QR_DEMAND_RID @ ?f QR_DEMAND_SID) @ ?f QR_VOTED_RID\<rparr>)"
    using config_unparse [OF 2(2) ok t(3) config_keyword(2), of e t2 ?c] t(5) by fastforce
  obtain bd4 t4 where 4: "config_args e bd3 t3 ?c = config_args e bd4 t4 as"
      "bd_quorum bd4 = Some (q\<lparr>qr_requirements := ((?f QR_DEMAND_RID @ ?f QR_DEMAND_SID) @ ?f QR_VOTED_RID) @ ?f QR_VOTED_SID\<rparr>)"
    using config_unparse [OF 3(2) ok t(4) config_keyword(1), of e t3 as] t(5) by fastforce
  show ?thesis
    unfolding emitted_def using 1(1) 2(1) 3(1) 4 by (metis append.assoc)
qed

lemma config_emit_reads_back:
  assumes "bd_quorum bd = None" "reqs_ok (qr_requirements q)" "0 \<le> qr_flags q" "qr_flags q < 8"
    "0 \<le> qr_syncrepl_limit q" "qr_syncrepl_limit q \<le> QR_SYNCREPL_MAX"
  shows "\<exists>bd'. config_add e bd (emit_vals q) = Some (bd', 0) \<and>
    bd_quorum bd' = Some (quorum_new\<lparr>qr_flags := qr_flags q, qr_requirements := emitted q,
      qr_syncrepl_limit := qr_syncrepl_limit q\<rparr>)"
proof -
  let ?lim = "if 0 < qr_syncrepl_limit q then [''limit-concurrent-refresh'', print_int (qr_syncrepl_limit q)] else []"
  have new: "bd_quorum (quorum_be_init bd) = Some quorum_new" "qr_present quorum_new = []" "qr_flags quorum_new = 0"
    by (simp_all add: quorum_new_def)
  obtain bd1 t1 where 1: "config_args e (quorum_be_init bd) (- 1) (emit_vals q) = config_args e bd1 t1
      (unparse q QR_DEMAND_RID ''require-rids'' @ unparse q QR_DEMAND_SID ''require-sids''
       @ unparse q QR_VOTED_RID ''vote-rids'' @ unparse q QR_VOTED_SID ''vote-sids'' @ ?lim)"
      "bd_quorum bd1 = Some (quorum_new\<lparr>qr_flags := qr_flags q\<rparr>)"
    using config_flags [OF new assms(3,4), of e "- 1"] unfolding emit_vals_def by metis
  obtain bd2 t2 where 2: "config_args e (quorum_be_init bd) (- 1) (emit_vals q) = config_args e bd2 t2 ?lim"
      "bd_quorum bd2 = Some (quorum_new\<lparr>qr_flags := qr_flags q, qr_requirements := emitted q\<rparr>)"
    using config_reqs [OF 1(2) assms(2), of e t1 ?lim] 1(1) by (auto simp: quorum_new_def simp del: config_args.simps)
  show ?thesis
    using config_limit [OF 2(2) _ assms(5,6), of e t2] 2(1) assms(1)
    by (simp add: config_add_def quorum_new_def del: config_args.simps)
qed

section \<open>Sample values for the witnesses\<close>

definition sample_env :: env where
  "sample_env = \<lparr>env_assert = True, env_check = False, env_strict = False, env_now = [],
     env_stamp = ''20240101000000.000000Z'', slap_serverID = 1\<rparr>"

definition sample_bd :: backend where
  "sample_bd = \<lparr>bd_quorum = None, bd_quorum_cache = 0, bd_listed = False\<rparr>"

definition run_sample :: "backend option" where
  "run_sample = do {
     bd \<leftarrow> quorum_add_rid sample_env (quorum_be_init sample_bd) 10 1;
     bd \<leftarrow> quorum_add_rid sample_env bd 20 2;
     quorum_notify_status sample_env bd 10 QS_READY }"

definition sample_quorum :: slap_quorum where
  "sample_quorum = quorum_new\<lparr>
     qr_present := [\<lparr>pr_key = 1, pr_rid = 1, pr_sid = 7, pr_status = QS_READY\<rparr>,
       \<lparr>pr_key = 2, pr_rid = 2, pr_sid = 8, pr_status = QS_READY\<rparr>,
       \<lparr>pr_key = 3, pr_rid = 3, pr_sid = 9, pr_status = QS_DEAD\<rparr>],
     qr_requirements := map (\<lambda>i. \<lparr>rq_type = QR_VOTED_SID, rq_id = i\<rparr>) [7, 8, 9]\<rparr>"

section \<open>Properties\<close>

text \<open>C4. In every state the public operations can reach from a fresh database, the links have
  distinct keys and admissible IDs, the per-status counters are the numbers of links in each
  status, the salt is the sum of the hashed replica IDs, and the requirements are pairwise
  different and in range.\<close>

theorem quorum_reachable_invariant:
  "quorum_step\<^sup>*\<^sup>* (quorum_be_init bd) bd' \<Longrightarrow> backend_inv bd'"
  by (rule quorum_reach_inv)

lemma run_sample_links:
  "map_option (\<lambda>bd. map (\<lambda>p. (pr_key p, pr_rid p, pr_status p)) (qr_present (the (bd_quorum bd)))) run_sample =
   Some [(10, 1, 3), (20, 2, 0)]"
  by code_simp

lemma quorum_reachable_invariant_witness: "backend_inv (the run_sample)"
proof -
  obtain a b c where r: "quorum_add_rid sample_env (quorum_be_init sample_bd) 10 1 = Some a"
    "quorum_add_rid sample_env a 20 2 = Some b"
    "quorum_notify_status sample_env b 10 QS_READY = Some c" and c: "run_sample = Some c"
    using run_sample_links by (auto simp: run_sample_def abort_simps)
  from r have "quorum_step (quorum_be_init sample_bd) a" "quorum_step a b" "quorum_step b c"
    using add_rid [of 10 1 sample_env "quorum_be_init sample_bd" a] add_rid [of 20 2 sample_env a b]
      notify_status [of 10 QS_READY sample_env b c]
    by (simp_all add: SLAP_SYNC_RID_MAX_def qs_defs)
  then have "quorum_step\<^sup>*\<^sup>* (quorum_be_init sample_bd) (the run_sample)"
    by (simp add: c converse_rtranclp_into_rtranclp [of quorum_step])
  then show ?thesis by (rule quorum_reachable_invariant)
qed

text \<open>The refreshes that have been admitted and not ended.\<close>

definition running :: "backend \<Rightarrow> int" where
  "running bd = (case bd_quorum bd of None \<Rightarrow> 0 | Some q \<Rightarrow> qt_running q)"

lemma gate_returns:
  assumes "key \<noteq> 0" "if inn then 0 \<le> running bd \<and> running bd < QR_SYNCREPL_MAX else 0 < running bd \<and> running bd \<le> QR_SYNCREPL_MAX"
  shows "quorum_syncrepl_gate e bd key inn \<noteq> None"
  using assms
  by (cases "bd_quorum bd")
    (auto simp: quorum_syncrepl_gate_def running_def quorum_be_init_def quorum_new_def Let_def assert_that_def ldap_codes split: if_splits)

text \<open>C25. On a database that satisfies the invariant no operation of the quorum module fails an assertion: adding
  and removing links, the three notifications, the two queries and every configuration command return, and
  so does the refresh gate, if fewer refreshes than its counter allows are running on an admission and at least one on a
  release. The code itself does not enforce this condition when no limit is configured.\<close>

theorem quorum_operations_return:
  assumes "backend_inv bd" "key \<noteq> 0" "0 \<le> rid" "rid \<le> SLAP_SYNC_RID_MAX" "0 \<le> sid" "sid \<le> SLAP_SYNC_SID_MAX"
    "status < QS_MAX"
    "if inn then 0 \<le> running bd \<and> running bd < QR_SYNCREPL_MAX else 0 < running bd \<and> running bd \<le> QR_SYNCREPL_MAX"
  shows "quorum_add_rid e bd key rid \<noteq> None \<and> quorum_remove_rid e bd key \<noteq> None \<and>
    quorum_notify_sid e bd key sid \<noteq> None \<and> quorum_notify_status e bd key status \<noteq> None \<and>
    quorum_notify_csn e bd sid \<noteq> None \<and> quorum_query e junk bd \<noteq> None \<and>
    backend_inv (fst (quorum_query_status e only bd)) \<and>
    config_quorum e op bd argv \<noteq> None \<and> quorum_syncrepl_gate e bd key inn \<noteq> None"
  using quorum_add_rid_inv [OF assms(1-4), of e] quorum_remove_rid_inv [OF assms(1,2), of e]
    quorum_notify_sid_inv [OF assms(1,2,6), of e] quorum_notify_status_inv [OF assms(1,2,7), of e]
    quorum_notify_csn_inv [OF assms(1,5,6), of e] quorum_query_inv [OF assms(1), of e junk]
    config_quorum_inv [OF assms(1), of e op argv] quorum_query_status_inv [OF assms(1), of e only] gate_returns [OF assms(2,8)]
  by (auto simp: runs_def)

lemma quorum_operations_return_witness:
  "config_quorum sample_env SLAP_CONFIG_ADD (quorum_be_init sample_bd) [''vote-sids'', ''17''] \<noteq> None \<and>
   quorum_syncrepl_gate sample_env (quorum_be_init sample_bd) 10 True \<noteq> None"
proof -
  have "running (quorum_be_init sample_bd) = 0" by code_simp
  then show ?thesis
    using quorum_operations_return [of "quorum_be_init sample_bd" 10 1 2 QS_READY True sample_env 0 False SLAP_CONFIG_ADD
      "[''vote-sids'', ''17'']"]
    by (simp add: SLAP_SYNC_RID_MAX_def SLAP_SYNC_SID_MAX_def qs_defs QR_SYNCREPL_MAX_def)
qed

text \<open>Beyond the condition the assertion fails: with no limit configured, the sixteenth refresh is admitted and then refused by the
  assertion on the counter.\<close>

lemma gate_counter_breaks:
  assumes "bd_quorum bd = Some q" "qr_syncrepl_limit q = 0" "qt_running q = QR_SYNCREPL_MAX" "key \<noteq> 0" "env_assert e"
  shows "quorum_syncrepl_gate e bd key True = None"
  using assms by (simp add: quorum_syncrepl_gate_def assert_that_def Let_def ldap_codes QR_SYNCREPL_MAX_def)

text \<open>The verdict of \<^verbatim>\<open>lazy_update\<close> by cases, see \<open>has_quorum\<close>; it implies a majority only among as many of the wanted peers as there
  are links.\<close>

lemma majority_up_to_links:
  assumes "lazy_update e junk q = 1" "wanted e q True \<noteq> [] \<or> wanted e q False \<noteq> []"
  shows "\<exists>s. 0 < length (wanted e q s) \<and>
    min (length (qr_present q)) (length (wanted e q s)) < 2 * ready_count e q s"
  using assms by (auto simp: lazy_update_spec has_quorum_def quorum_majority Let_def split: if_splits)

lemma sample_quorum_verdict: "lazy_update sample_env 0 sample_quorum = 1 \<and> length (wanted sample_env sample_quorum True) = 3"
  by code_simp

text \<open>Voted replica IDs that belong to no link are counted as wanted: here the only voted link that is configured is ready, and
  still there is no quorum.\<close>

lemma vote_rids_misses:
  "lazy_update sample_env 0 (quorum_new\<lparr>
     qr_present := [\<lparr>pr_key = 1, pr_rid = 1, pr_sid = 7, pr_status = QS_READY\<rparr>, \<lparr>pr_key = 2, pr_rid = 2, pr_sid = 8, pr_status = QS_DEAD\<rparr>],
     qr_requirements := map (\<lambda>i. \<lparr>rq_type = QR_VOTED_RID, rq_id = i\<rparr>) [1, 5, 6]\<rparr>) = - 1"
  by code_simp

text \<open>C26. The refresh gate: an admission under a configured limit leaves no more refreshes running
  than the limit, and counts one more; a refusal changes nothing.\<close>

theorem gate_respects_limit:
  assumes "bd_quorum bd = Some q" "quorum_syncrepl_gate e bd key True = Some (bd', rc)" "key \<noteq> 0"
  shows "(rc = LDAP_SUCCESS \<and> (\<exists>q'. bd_quorum bd' = Some q' \<and> qt_running q' = qt_running q + 1 \<and>
       qr_syncrepl_limit q' = qr_syncrepl_limit q \<and> (qr_syncrepl_limit q \<noteq> 0 \<longrightarrow> qt_running q' \<le> qr_syncrepl_limit q))) \<or>
    (rc = LDAP_BUSY \<and> bd' = bd \<and> qr_syncrepl_limit q \<le> qt_running q)"
  using assms by (auto simp: quorum_syncrepl_gate_def abort_simps Let_def ldap_codes split: if_splits)

lemma gate_respects_limit_witness:
  "\<exists>bd'. quorum_syncrepl_gate sample_env (sample_bd\<lparr>bd_quorum := Some (quorum_new\<lparr>qr_syncrepl_limit := 1, qt_running := 1\<rparr>)\<rparr>) 5 True
     = Some (bd', LDAP_BUSY)"
  using gate_respects_limit [of "sample_bd\<lparr>bd_quorum := Some (quorum_new\<lparr>qr_syncrepl_limit := 1, qt_running := 1\<rparr>)\<rparr>"
      "quorum_new\<lparr>qr_syncrepl_limit := 1, qt_running := 1\<rparr>" sample_env 5]
  by (auto simp: quorum_syncrepl_gate_def abort_simps Let_def ldap_codes QR_SYNCREPL_MAX_def sample_bd_def assert_that_def)

text \<open>C27. Configuration round trip: feeding the words an emit prints back to a fresh database
  succeeds and restores the flags, the refresh limit and every requirement that has a keyword,
  grouped by type.\<close>

theorem config_roundtrip:
  assumes "bd_quorum bd = None" "reqs_ok (qr_requirements q)" "0 \<le> qr_flags q" "qr_flags q < 8"
    "0 \<le> qr_syncrepl_limit q" "qr_syncrepl_limit q \<le> QR_SYNCREPL_MAX"
  shows "\<exists>bd'. config_add e bd (emit_vals q) = Some (bd', 0) \<and>
    bd_quorum bd' = Some (quorum_new\<lparr>qr_flags := qr_flags q, qr_requirements := emitted q,
      qr_syncrepl_limit := qr_syncrepl_limit q\<rparr>)"
  using assms by (rule config_emit_reads_back)

lemma config_roundtrip_witness:
  "\<exists>bd'. config_add sample_env sample_bd (emit_vals sample_quorum) = Some (bd', 0)"
proof -
  have "reqs_ok (qr_requirements sample_quorum)" "qr_flags sample_quorum = 0" "qr_syncrepl_limit sample_quorum = 0"
    by code_simp+
  then show ?thesis
    using config_roundtrip [of sample_bd sample_quorum sample_env] by (auto simp: sample_bd_def QR_SYNCREPL_MAX_def)
qed

text \<open>The cached verdict stays right across a status notification: it is dropped exactly when a
  link crosses the readiness threshold, and any other change of status leaves the verdict as it
  was.\<close>

lemma notify_status_keeps_cache:
  assumes "coherent e junk bd" "quorum_notify_status e' bd key status = Some bd'"
  shows "coherent e junk bd'"
proof -
  have w: "with_quorum bd (\<lambda>q. notify_status e' q key status) = Some bd'"
    using assms(2) by (auto simp: quorum_notify_status_def abort_simps)
  show ?thesis
    by (rule with_quorum_coherent [OF assms(1) _ w]) (rule notify_status_same_verdict)
qed

lemma notify_status_keeps_cache_witness:
  "coherent sample_env 0 (the (quorum_notify_status sample_env
     (sample_bd\<lparr>bd_quorum := Some (sample_quorum\<lparr>qt_status := [0, 1, 0, 2, 0]\<rparr>), bd_quorum_cache := 1\<rparr>) 1 QS_DEAD))"
  (is "coherent _ _ (the ?r)")
proof -
  have "?r \<noteq> None \<and> coherent sample_env 0
      (sample_bd\<lparr>bd_quorum := Some (sample_quorum\<lparr>qt_status := [0, 1, 0, 2, 0]\<rparr>), bd_quorum_cache := 1\<rparr>)"
    by code_simp
  then show ?thesis
    using notify_status_keeps_cache by fastforce
qed

text \<open>A query answers from the verdict of the current links whenever the cache is coherent, and
  leaves a coherent, filled cache behind.\<close>

lemma quorum_query_correct:
  assumes "coherent e junk bd" "bd_quorum bd = Some q"
  shows "\<exists>bd'. quorum_query e junk bd = Some (bd', has_quorum e junk q) \<and> coherent e junk bd' \<and> get_cache bd' \<noteq> 0"
  using assms by (auto simp: quorum_query_def coherent_def Let_def lazy_update_spec assert_that_def)

lemma quorum_query_correct_witness:
  "\<exists>bd'. quorum_query sample_env 0 (sample_bd\<lparr>bd_quorum := Some sample_quorum\<rparr>) = Some (bd', True)"
proof -
  have "has_quorum sample_env 0 sample_quorum"
    using sample_quorum_verdict by (simp add: lazy_update_spec split: if_splits)
  moreover have "coherent sample_env 0 (sample_bd\<lparr>bd_quorum := Some sample_quorum\<rparr>)"
    by (simp add: coherent_def get_cache_def sample_bd_def)
  ultimately show ?thesis
    using quorum_query_correct [of sample_env 0 "sample_bd\<lparr>bd_quorum := Some sample_quorum\<rparr>" sample_quorum] by auto
qed

text \<open>Links named by the \<^verbatim>\<open>require-rids\<close> keyword are votes, not demands: a requirement of that type
  can never make the verdict lack on its own, because its type lacks the demand flag.\<close>

lemma require_rids_never_demands:
  assumes "\<forall>r\<in>set (qr_requirements q). rq_type r = QR_DEMAND_RID"
  shows "\<not> demand_lack e junk q"
  using assms by (auto simp: demand_lack_def qr_defs)

lemma require_rids_never_demands_witness:
  "\<not> demand_lack sample_env 0 (quorum_new\<lparr>qr_requirements := [\<lparr>rq_type = QR_DEMAND_RID, rq_id = 5\<rparr>]\<rparr>)"
  by (rule require_rids_never_demands) simp

text \<open>A new link is not ready, yet adding one under \<^verbatim>\<open>all-links\<close> keeps a cached positive verdict: the
  cache no longer agrees with the links.\<close>

lemma add_rid_stale_cache:
  "\<exists>bd bd'. coherent sample_env 0 bd \<and> backend_inv bd \<and>
     quorum_add_rid sample_env bd 10 1 = Some bd' \<and> \<not> coherent sample_env 0 bd'"
proof -
  define bd where "bd = (set_cache (quorum_be_init sample_bd) 1)\<lparr>bd_quorum := Some (quorum_new\<lparr>qr_flags := QR_ALL_LINKS\<rparr>)\<rparr>"
  have "coherent sample_env 0 bd \<and> quorum_add_rid sample_env bd 10 1 \<noteq> None \<and>
      \<not> coherent sample_env 0 (the (quorum_add_rid sample_env bd 10 1))"
    unfolding bd_def by code_simp
  moreover have "backend_inv bd"
    by (simp add: bd_def)
  ultimately show ?thesis by fastforce
qed

end
