(* ===== verification/Version_Vector.thy ===== *)
theory Version_Vector
  imports Prelude
begin

text \<open>
  The abstract side of replication state: a version vector maps a server ID to the newest
  timestamp seen from that server. Vectors are ordered pointwise and joined pointwise by \<open>max\<close>.
  The locale \<open>replica_vector\<close> is the contract of a component that stores such a vector: an
  operation that never aborts on well-formed states and implements the join. What a chain of
  replication messages does to a server's state follows from the contract alone.
\<close>

type_synonym ('k, 't) vv = "'k \<Rightarrow> 't option"

definition vec_le :: "('k, 't::linorder) vv \<Rightarrow> ('k, 't) vv \<Rightarrow> bool" where
  "vec_le a b \<longleftrightarrow> (\<forall>k t. a k = Some t \<longrightarrow> (\<exists>t'. b k = Some t' \<and> t \<le> t'))"

definition vec_join :: "('k, 't::linorder) vv \<Rightarrow> ('k, 't) vv \<Rightarrow> ('k, 't) vv" where
  "vec_join a b = (\<lambda>k. case a k of None \<Rightarrow> b k
                         | Some x \<Rightarrow> (case b k of None \<Rightarrow> Some x | Some y \<Rightarrow> Some (max x y)))"

lemma vec_le_refl [simp]: "vec_le a a"
  by (auto simp: vec_le_def)

lemma vec_le_trans: "vec_le a b \<Longrightarrow> vec_le b c \<Longrightarrow> vec_le a c"
  unfolding vec_le_def by (meson order_trans)

lemma vec_le_antisym: "vec_le a b \<Longrightarrow> vec_le b a \<Longrightarrow> a = b"
proof
  fix k
  assume "vec_le a b" "vec_le b a"
  then show "a k = b k"
    by (cases "a k"; cases "b k") (force simp: vec_le_def)+
qed

lemma vec_le_upd_right: "a k = None \<Longrightarrow> vec_le a (b(k \<mapsto> t)) \<longleftrightarrow> vec_le a b"
  by (auto simp: vec_le_def) (metis option.distinct(1))

lemma vec_le_upd_both:
  "a k = None \<Longrightarrow> vec_le (a(k \<mapsto> s)) (b(k \<mapsto> t)) \<longleftrightarrow> s \<le> t \<and> vec_le a b"
  unfolding vec_le_def by (auto split: if_splits)

lemma vec_upd_eq:
  assumes "a k = None" "b k = None"
  shows "a(k \<mapsto> s) = b(k \<mapsto> t) \<longleftrightarrow> s = t \<and> a = b"
proof
  assume eq: "a(k \<mapsto> s) = b(k \<mapsto> t)"
  have "a j = b j" for j
    using fun_cong [OF eq, of j] assms by (cases "j = k") auto
  then show "s = t \<and> a = b"
    using fun_cong [OF eq, of k] by auto
qed simp

lemma vec_le_empty [simp]: "vec_le (\<lambda>_. None) b"
  by (simp add: vec_le_def)

lemma vec_le_missing: "vec_le a b \<Longrightarrow> a k = Some t \<Longrightarrow> b k \<noteq> None"
  by (auto simp: vec_le_def)

lemma vec_join_comm: "vec_join a b = vec_join b a"
  by (auto simp: vec_join_def fun_eq_iff max.commute split: option.split)

lemma vec_join_assoc: "vec_join (vec_join a b) c = vec_join a (vec_join b c)"
  by (auto simp: vec_join_def fun_eq_iff max.assoc split: option.split)

lemma vec_join_idem [simp]: "vec_join a a = a"
  by (auto simp: vec_join_def fun_eq_iff split: option.split)

lemma vec_join_left_comm: "vec_join a (vec_join b c) = vec_join b (vec_join a c)"
  by (metis vec_join_assoc vec_join_comm)

lemma vec_join_left_idem: "vec_join a (vec_join a b) = vec_join a b"
  by (metis vec_join_assoc vec_join_idem)

lemmas vec_join_ac = vec_join_assoc vec_join_comm vec_join_left_comm vec_join_left_idem

lemma vec_join_upper: "vec_le a (vec_join a b)" "vec_le b (vec_join a b)"
  by (auto simp: vec_join_def vec_le_def max_def split: option.splits)

lemma vec_join_least:
  assumes "vec_le a c" "vec_le b c"
  shows "vec_le (vec_join a b) c"
  unfolding vec_le_def
proof (intro allI impI)
  fix k t
  assume "vec_join a b k = Some t"
  then have "a k = Some t \<or> b k = Some t"
    by (auto simp: vec_join_def max_def split: option.splits if_splits)
  then show "\<exists>t'. c k = Some t' \<and> t \<le> t'"
    using assms by (auto simp: vec_le_def)
qed

lemma vec_le_iff_join: "vec_le a b \<longleftrightarrow> vec_join a b = b"
  by (metis vec_join_least vec_join_upper vec_le_antisym vec_le_refl)

interpretation vecs: comp_fun_idem "vec_join :: ('k, 't::linorder) vv \<Rightarrow> _"
  by unfold_locales (simp_all add: fun_eq_iff vec_join_left_comm vec_join_left_idem comp_def)

text \<open>A component holding a vector, and its merge operation.\<close>

locale replica_vector =
  fixes inv :: "'c \<Rightarrow> bool"
    and vec :: "'c \<Rightarrow> ('k, 't::linorder) vv"
    and merge :: "'c \<Rightarrow> 'c \<Rightarrow> 'c option"
  assumes merge_join:
    "inv a \<Longrightarrow> inv b \<Longrightarrow> \<exists>c. merge a b = Some c \<and> inv c \<and> vec c = vec_join (vec a) (vec b)"
begin

fun merge_all :: "'c \<Rightarrow> 'c list \<Rightarrow> 'c option" where
  "merge_all a [] = Some a"
| "merge_all a (b # bs) = Option.bind (merge a b) (\<lambda>c. merge_all c bs)"

lemma merge_all_fold:
  assumes "inv a" "\<forall>b\<in>set bs. inv b"
  shows "\<exists>c. merge_all a bs = Some c \<and> inv c \<and> vec c = fold vec_join (map vec bs) (vec a)"
  using assms
proof (induction bs arbitrary: a)
  case Nil
  then show ?case by simp
next
  case (Cons b bs)
  then obtain c where c: "merge a b = Some c" "inv c" "vec c = vec_join (vec a) (vec b)"
    using merge_join by (meson list.set_intros(1))
  then show ?case
    using Cons.IH [of c] Cons.prems by (simp add: vec_join_comm)
qed

lemma merge_all_upper:
  assumes "inv a" "\<forall>b\<in>set bs. inv b" "merge_all a bs = Some c"
  shows "vec_le (vec a) (vec c)"
proof -
  have "vec_le v (fold vec_join ws v)" for v and ws :: "('k, 't) vv list"
  proof (induction ws arbitrary: v)
    case (Cons w ws)
    then show ?case
      by (metis fold_simps(2) vec_join_upper(2) vec_le_trans)
  qed simp
  then show ?thesis
    using merge_all_fold [OF assms(1,2)] assms(3) by auto
qed

text \<open>Order and repetition of the merged states do not matter.\<close>

lemma merge_all_order:
  assumes "inv a" "\<forall>b\<in>set bs. inv b" "set bs = set cs"
    "merge_all a bs = Some x" "merge_all a cs = Some y"
  shows "vec x = vec y"
proof -
  have "fold vec_join (map vec bs) (vec a) = Finite_Set.fold vec_join (vec a) (set (map vec bs))"
    for bs by (rule vecs.fold_set_fold [symmetric])
  then have "fold vec_join (map vec bs) (vec a) = fold vec_join (map vec cs) (vec a)"
    using assms(3) by simp
  then show ?thesis
    using merge_all_fold [of a bs] merge_all_fold [of a cs] assms by auto
qed

end

end
