(* ===== verification/Csn_Set.thy ===== *)
theory Csn_Set
  imports Csn Version_Vector
begin

text \<open>
  Arrays of CSNs, the last part of \<^verbatim>\<open>servers/slapd/ldapsync.c\<close>: validation and sorting,
  equality, and the comparison of two sorted arrays. An array that passed
  \<^verbatim>\<open>slap_csns_validate_and_sort\<close> represents a version vector, and the comparison of two arrays
  is the comparison of their vectors.
\<close>

section \<open>Definitions\<close>

definition INT_MAX :: int where
  "INT_MAX = 2147483647"

definition INT_MIN :: int where
  "INT_MIN = - 2147483648"

text \<open>The assertion \<^verbatim>\<open>strlen(r->bv_val) == r->bv_len\<close>.\<close>

definition strlen_ok :: "string \<Rightarrow> bool" where
  "strlen_ok s \<longleftrightarrow> NUL \<notin> set s"

definition csn_qsort_cmp :: "env \<Rightarrow> string \<Rightarrow> string \<Rightarrow> int option" where
  "csn_qsort_cmp e a b = do {
     c \<leftarrow> slap_csn_compare_sr e (bv a) (bv b);
     if c = 0 then slap_csn_compare_ts e (bv b) (bv a) else Some c }"

text \<open>First pass of \<^verbatim>\<open>slap_csns_validate_and_sort\<close>: invalid values are dropped.\<close>

fun csns_filter :: "env \<Rightarrow> string list \<Rightarrow> string list option" where
  "csns_filter e [] = Some []"
| "csns_filter e (r # rs) = do {
     assert_that e (strlen_ok r);
     ok \<leftarrow> slap_csn_verify_full e (bv r);
     ws \<leftarrow> csns_filter e rs;
     Some (if ok then r # ws else ws) }"

text \<open>Last pass: \<open>w\<close> is the last value kept.\<close>

fun csns_dedup :: "env \<Rightarrow> string \<Rightarrow> string list \<Rightarrow> string list option" where
  "csns_dedup e w [] = Some []"
| "csns_dedup e w (r # rs) = do {
     c \<leftarrow> slap_csn_compare_sr e (bv w) (bv r);
     if c = 0 then csns_dedup e w rs
     else do { ws \<leftarrow> csns_dedup e r rs; Some (r # ws) } }"

definition slap_csns_validate_and_sort :: "env \<Rightarrow> string list \<Rightarrow> string list option" where
  "slap_csns_validate_and_sort e vals = do {
     vs \<leftarrow> csns_filter e vals;
     ss \<leftarrow> qsortM (csn_qsort_cmp e) vs;
     (case ss of [] \<Rightarrow> Some []
      | w # rs \<Rightarrow> do { ws \<leftarrow> csns_dedup e w rs; Some (w # ws) }) }"

fun slap_csns_match :: "env \<Rightarrow> string list \<Rightarrow> string list \<Rightarrow> bool option" where
  "slap_csns_match e (a # as) (b # bs) = do {
     assert_that e (strlen_ok a);
     assert_that e (strlen_ok b);
     m \<leftarrow> slap_csn_match e (bv a) (bv b);
     if m then slap_csns_match e as bs else Some False }"
| "slap_csns_match e as bs = Some (as = [] \<and> bs = [])"

fun slap_csns_length :: "string list \<Rightarrow> nat" where
  "slap_csns_length [] = 0"
| "slap_csns_length (v # vs) = Suc (slap_csns_length vs)"

fun csns_compare_loop :: "env \<Rightarrow> int \<Rightarrow> int \<Rightarrow> string list \<Rightarrow> string list \<Rightarrow> int option" where
  "csns_compare_loop e n res [] base = Some (if base = [] then res else INT_MIN)"
| "csns_compare_loop e n res (x # next) base = do {
     assert_that e (strlen_ok x);
     (case base of
        [] \<Rightarrow> Some INT_MAX
      | b # base' \<Rightarrow> do {
          assert_that e (strlen_ok b);
          c \<leftarrow> slap_csn_compare_sr e (bv x) (bv b);
          if 0 < c then Some INT_MIN
          else if c < 0 then csns_compare_loop e (n + 1) INT_MAX next base
          else do {
            c \<leftarrow> slap_csn_compare_ts e (bv x) (bv b);
            if c < 0 then Some (- n)
            else csns_compare_loop e (n + 1) (if c \<noteq> 0 \<and> res = 0 then n else res) next base' } }) }"

definition slap_csns_compare :: "env \<Rightarrow> string list \<Rightarrow> string list \<Rightarrow> int option" where
  "slap_csns_compare e next base = csns_compare_loop e 1 0 next base"

fun slap_csns_parse_sids :: "string list \<Rightarrow> int list" where
  "slap_csns_parse_sids [] = []"
| "slap_csns_parse_sids (c # cs) = slap_csn_get_sid (bv c) # slap_csns_parse_sids cs"

section \<open>Sorted arrays and their vectors\<close>

definition csns_wf :: "string list \<Rightarrow> bool" where
  "csns_wf cs \<longleftrightarrow> list_all csn_ok cs \<and> sorted_wrt (\<lambda>a b. csn_sr a < csn_sr b) cs"

definition csns_vec :: "string list \<Rightarrow> (string, string) vv" where
  "csns_vec cs = map_of (map (\<lambda>c. (csn_sr c, csn_ts c)) cs)"

lemma csns_wf_simps [simp]:
  "csns_wf []"
  "csns_wf (c # cs) \<longleftrightarrow> csn_ok c \<and> (\<forall>d\<in>set cs. csn_sr c < csn_sr d) \<and> csns_wf cs"
  by (auto simp: csns_wf_def)

lemma csns_vec_simps [simp]:
  "csns_vec [] = (\<lambda>_. None)"
  "csns_vec (c # cs) = (csns_vec cs)(csn_sr c \<mapsto> csn_ts c)"
  by (simp_all add: csns_vec_def)

lemma csns_vec_None: "csns_vec cs k = None \<longleftrightarrow> (\<forall>c\<in>set cs. csn_sr c \<noteq> k)"
  by (induction cs) auto

lemma csns_vec_Some: "csns_vec cs k = Some t \<Longrightarrow> \<exists>c\<in>set cs. csn_sr c = k \<and> csn_ts c = t"
  by (induction cs) (auto split: if_splits)

lemma csns_wf_vec: "csns_wf cs \<Longrightarrow> c \<in> set cs \<Longrightarrow> csns_vec cs (csn_sr c) = Some (csn_ts c)"
  by (induction cs) auto

lemma strlen_ok_csn: "csn_ok c \<Longrightarrow> strlen_ok c"
proof -
  assume ok: "csn_ok c"
  have pat: "\<forall>x\<in>set csn_pattern. \<not> csn_char_ok x NUL"
    by (simp add: csn_pattern_def) code_simp
  show ?thesis
    unfolding strlen_ok_def
  proof
    assume "NUL \<in> set c"
    then obtain i where "i < length c" "c ! i = NUL"
      by (metis in_set_conv_nth)
    moreover from this have "csn_pattern ! i \<in> set csn_pattern"
      using csn_ok_length [OF ok] by (simp add: length_csn_pattern)
    ultimately show False
      using csn_ok_nth [OF ok, of i] pat csn_ok_length [OF ok] by auto
  qed
qed

lemma csn_split: "csn_ok c \<Longrightarrow> c = take 29 (csn_ts c) @ CHR ''#'' # csn_sr c @ drop 29 (csn_ts c)"
  using drop_30 [of c] Cons_nth_drop_Suc [of 29 c, symmetric] append_take_drop_id [of 29 c]
  by (simp add: csn_ts_def csn_ok_length csn_ok_sr csn_ok_hash)

lemma csn_eqI: "csn_ok a \<Longrightarrow> csn_ok b \<Longrightarrow> csn_sr a = csn_sr b \<Longrightarrow> csn_ts a = csn_ts b \<Longrightarrow> a = b"
  using csn_split [of a] csn_split [of b] by simp

text \<open>A run-time environment for the witnesses.\<close>

definition sample_mode :: env where
  "sample_mode = \<lparr>env_assert = True, env_check = True, env_strict = True,
     env_now = ''20240101000000.000000Z#000000#001#000000'', env_stamp = ''20240101000000.000000Z'',
     slap_serverID = 1\<rparr>"

section \<open>Validation and sorting\<close>

lemma csns_filter_ok:
  assumes "env_ok e" "list_all strlen_ok vals"
  shows "csns_filter e vals = Some (filter (csn_valid e) vals)"
  using assms(2) by (induction vals) (simp_all add: abort_simps verify_full_bv assms(1))

definition csn_order :: "string \<Rightarrow> string \<Rightarrow> int" where
  "csn_order a b = (if csn_sr a = csn_sr b then cmp (csn_ts b) (csn_ts a) else cmp (csn_sr a) (csn_sr b))"

lemma csn_qsort_cmp_order:
  "csn_ok a \<Longrightarrow> csn_ok b \<Longrightarrow> csn_qsort_cmp e a b = Some (csn_order a b)"
  by (auto simp: csn_qsort_cmp_def compare_sr_cmp compare_ts_cmp csn_order_def)

lemma csn_order_le:
  "csn_order a b \<le> 0 \<longleftrightarrow> csn_sr a < csn_sr b \<or> csn_sr a = csn_sr b \<and> csn_ts b \<le> csn_ts a"
  by (auto simp: csn_order_def)

lemma csns_dedup_spec:
  assumes "list_all csn_ok (w # rs)" "sorted_wrt (\<lambda>a b. csn_order a b \<le> 0) (w # rs)"
  shows "\<exists>ws. csns_dedup e w rs = Some ws \<and> csns_wf (w # ws) \<and> set ws \<subseteq> set rs \<and>
    (\<forall>v\<in>set rs. \<exists>u\<in>set (w # ws). csn_sr u = csn_sr v \<and> csn_ts v \<le> csn_ts u)"
  using assms
proof (induction rs arbitrary: w)
  case Nil
  then show ?case by simp
next
  case (Cons r rs)
  show ?case
  proof (cases "csn_sr w = csn_sr r")
    case True
    from Cons.prems have "list_all csn_ok (w # rs)" "sorted_wrt (\<lambda>a b. csn_order a b \<le> 0) (w # rs)"
      by auto
    with Cons.IH obtain ws where ws: "csns_dedup e w rs = Some ws" "csns_wf (w # ws)"
        "set ws \<subseteq> set rs"
        "\<forall>v\<in>set rs. \<exists>u\<in>set (w # ws). csn_sr u = csn_sr v \<and> csn_ts v \<le> csn_ts u"
      by blast
    have "csn_ts r \<le> csn_ts w"
      using Cons.prems(2) True by (simp add: csn_order_le)
    with ws True Cons.prems(1) show ?thesis
      by (auto simp: compare_sr_cmp)
  next
    case False
    from Cons.prems have r: "list_all csn_ok (r # rs)" "sorted_wrt (\<lambda>a b. csn_order a b \<le> 0) (r # rs)"
      and wr: "csn_sr w < csn_sr r" using False by (auto simp: csn_order_le)
    with Cons.IH obtain ws where ws: "csns_dedup e r rs = Some ws" "csns_wf (r # ws)"
        "set ws \<subseteq> set rs"
        "\<forall>v\<in>set rs. \<exists>u\<in>set (r # ws). csn_sr u = csn_sr v \<and> csn_ts v \<le> csn_ts u"
      by blast
    moreover have "\<forall>d\<in>set ws. csn_sr w < csn_sr d"
      using ws(2) wr by (auto intro: less_trans)
    moreover have "csn_ok w" "csn_ok r" using Cons.prems(1) by simp_all
    ultimately show ?thesis
      using False wr by (force simp: compare_sr_cmp)
  qed
qed

lemma validate_and_sort_spec:
  assumes "env_ok e" "list_all strlen_ok vals"
  shows "\<exists>ws. slap_csns_validate_and_sort e vals = Some ws \<and> csns_wf ws \<and>
    set ws \<subseteq> set vals \<inter> Collect (csn_valid e) \<and>
    (\<forall>v\<in>set vals. csn_valid e v \<longrightarrow> (\<exists>u\<in>set ws. csn_sr u = csn_sr v \<and> csn_ts v \<le> csn_ts u))"
proof -
  let ?vs = "filter (csn_valid e) vals"
  let ?ss = "qsort csn_order ?vs"
  have ok: "csn_ok v" if "v \<in> set ?vs" for v
    using that by (auto dest: csn_valid_ok)
  have q: "qsortM (csn_qsort_cmp e) ?vs = Some ?ss"
    by (rule qsortM_qsort) (simp add: csn_qsort_cmp_order ok del: set_filter)
  have sorted: "sorted_wrt (\<lambda>a b. csn_order a b \<le> 0) ?ss"
    by (rule qsort_sorted) (auto simp: csn_order_le)
  show ?thesis
  proof (cases ?ss)
    case Nil
    then have "?vs = []" by (metis mset_qsort mset_zero_iff)
    with Nil show ?thesis
      using q by (auto simp: slap_csns_validate_and_sort_def csns_filter_ok assms filter_empty_conv)
  next
    case (Cons w rs)
    have set: "set (w # rs) = set ?vs"
      by (metis Cons set_qsort)
    have "list_all csn_ok (w # rs)"
      unfolding list_all_iff set by (blast intro: ok)
    moreover have "sorted_wrt (\<lambda>a b. csn_order a b \<le> 0) (w # rs)"
      using sorted Cons by metis
    ultimately obtain ws where ws: "csns_dedup e w rs = Some ws" "csns_wf (w # ws)" "set ws \<subseteq> set rs"
        "\<forall>v\<in>set rs. \<exists>u\<in>set (w # ws). csn_sr u = csn_sr v \<and> csn_ts v \<le> csn_ts u"
      using csns_dedup_spec [of w rs e] by blast
    have "slap_csns_validate_and_sort e vals = Some (w # ws)"
      using q Cons ws(1) by (simp add: slap_csns_validate_and_sort_def csns_filter_ok assms)
    moreover have "set (w # ws) \<subseteq> set ?vs"
      using ws(3) set by auto
    moreover have "\<exists>u\<in>set (w # ws). csn_sr u = csn_sr v \<and> csn_ts v \<le> csn_ts u"
      if "v \<in> set vals" "csn_valid e v" for v
    proof -
      have "v \<in> set (w # rs)" using that set by auto
      then show ?thesis using ws(4) by auto
    qed
    ultimately show ?thesis using ws(2) by auto
  qed
qed

lemma csns_match_iff:
  assumes "list_all csn_ok as" "list_all csn_ok bs"
  shows "slap_csns_match e as bs = Some (as = bs)"
  using assms
proof (induction e as bs rule: slap_csns_match.induct)
  case (1 e a as b bs)
  then have "slap_csn_match e (bv a) (bv b) = Some (a = b)"
    by (simp add: slap_csn_match_def abort_simps memcmp_n_cmp csn_ok_length)
  with 1 show ?case
    by (auto simp: abort_simps strlen_ok_csn)
qed auto

lemma parse_sids_map: "list_all csn_ok cs \<Longrightarrow> slap_csns_parse_sids cs = map csn_sid cs"
  by (induction cs) (simp_all add: get_sid_ok)

lemma csns_length: "slap_csns_length cs = length cs"
  by (induction cs) simp_all

section \<open>Comparison\<close>

lemma csns_vec_below: "\<forall>c\<in>set cs. k < csn_sr c \<Longrightarrow> csns_vec cs k = None"
  by (auto simp: csns_vec_None)

lemma csns_compare_loop_sign:
  assumes "csns_wf next" "csns_wf base" "0 < n" "0 \<le> res"
  shows "\<exists>r. csns_compare_loop e n res next base = Some r \<and>
    (if csns_vec next = csns_vec base then r = res
     else if vec_le (csns_vec base) (csns_vec next) then 0 < r else r < 0)"
  using assms
proof (induction "next" arbitrary: n res base)
  case Nil
  then show ?case
    by (cases base) (auto simp: INT_MIN_def vec_le_def fun_eq_iff)
next
  case (Cons x xs)
  then have ok: "csn_ok x" "strlen_ok x" by (simp_all add: strlen_ok_csn)
  show ?case
  proof (cases base)
    case Nil
    then show ?thesis
      using ok by (auto simp: abort_simps INT_MAX_def fun_eq_iff)
  next
    case base: (Cons b base')
    then have okb: "csn_ok b" "strlen_ok b" using Cons.prems by (simp_all add: strlen_ok_csn)
    note eval = ok okb base abort_simps compare_sr_cmp compare_ts_cmp
    have xn: "csns_vec xs (csn_sr x) = None" and bn: "csns_vec base' (csn_sr b) = None"
      using Cons.prems base by (auto intro: csns_vec_below)
    show ?thesis
    proof (cases "csn_sr x" "csn_sr b" rule: linorder_cases)
      case greater
      then have "csns_vec (x # xs) (csn_sr b) = None"
        using Cons.prems by (auto intro!: csns_vec_below)
      then have "\<not> vec_le (csns_vec base) (csns_vec (x # xs))" "csns_vec (x # xs) \<noteq> csns_vec base"
        using vec_le_missing [of "csns_vec base" "csns_vec (x # xs)" "csn_sr b"] base by auto
      with greater show ?thesis
        by (simp add: eval INT_MIN_def del: csns_vec_simps)
    next
      case less
      then have bx: "csns_vec base (csn_sr x) = None"
        using Cons.prems base by (auto intro!: csns_vec_below intro: less_trans)
      then have ne: "csns_vec (x # xs) \<noteq> csns_vec base"
        and le: "vec_le (csns_vec base) (csns_vec (x # xs)) \<longleftrightarrow> vec_le (csns_vec base) (csns_vec xs)"
        by (auto simp: fun_eq_iff vec_le_upd_right)
      obtain r where "csns_compare_loop e (n + 1) INT_MAX xs base = Some r"
        "if csns_vec xs = csns_vec base then r = INT_MAX
         else if vec_le (csns_vec base) (csns_vec xs) then 0 < r else r < 0"
        using Cons.IH [of base "n + 1" INT_MAX] Cons.prems by (auto simp: INT_MAX_def)
      then show ?thesis
        using less ne le
        by (auto simp: eval INT_MAX_def simp del: csns_vec_simps split: if_splits)
    next
      case equal
      have le: "vec_le (csns_vec base) (csns_vec (x # xs)) \<longleftrightarrow>
          csn_ts b \<le> csn_ts x \<and> vec_le (csns_vec base') (csns_vec xs)"
        and eq: "csns_vec (x # xs) = csns_vec base \<longleftrightarrow>
          csn_ts x = csn_ts b \<and> csns_vec xs = csns_vec base'"
        using xn bn equal by (simp_all add: base vec_le_upd_both vec_upd_eq)
      let ?res = "if csn_ts x \<noteq> csn_ts b \<and> res = 0 then n else res"
      have pos: "0 \<le> ?res" using Cons.prems by simp
      obtain r where "csns_compare_loop e (n + 1) ?res xs base' = Some r"
        "if csns_vec xs = csns_vec base' then r = ?res
         else if vec_le (csns_vec base') (csns_vec xs) then 0 < r else r < 0"
        using Cons.IH [of base' "n + 1" ?res, OF _ _ _ pos] Cons.prems base by auto
      then show ?thesis
        using equal Cons.prems le eq
        by (auto simp: eval simp del: csns_vec_simps split: if_splits)
    qed
  qed
qed

lemma csns_compare_sign:
  assumes "csns_wf next" "csns_wf base"
  shows "\<exists>r. slap_csns_compare e next base = Some r \<and>
    (r = 0 \<longleftrightarrow> csns_vec next = csns_vec base) \<and>
    (0 < r \<longleftrightarrow> csns_vec next \<noteq> csns_vec base \<and> vec_le (csns_vec base) (csns_vec next))"
  using csns_compare_loop_sign [OF assms, of 1 0 e]
  by (auto simp: slap_csns_compare_def split: if_splits)

lemma csns_vec_mem:
  assumes "csns_wf a" "csns_wf b" "csns_vec a = csns_vec b" "c \<in> set a"
  shows "c \<in> set b"
proof -
  have "csns_vec b (csn_sr c) = Some (csn_ts c)"
    using csns_wf_vec [OF assms(1,4)] assms(3) by simp
  then obtain d where "d \<in> set b" "csn_sr d = csn_sr c" "csn_ts d = csn_ts c"
    using csns_vec_Some by blast
  moreover from this have "csn_ok d" "csn_ok c"
    using assms by (auto simp: csns_wf_def list_all_iff)
  ultimately show ?thesis using csn_eqI by blast
qed

lemma csns_vec_inject:
  assumes "csns_wf a" "csns_wf b"
  shows "csns_vec a = csns_vec b \<longleftrightarrow> a = b"
proof
  assume eq: "csns_vec a = csns_vec b"
  have set: "set a = set b"
    using csns_vec_mem [OF assms eq] csns_vec_mem [OF assms(2,1) eq [symmetric]] by blast
  have ok: "csn_ok c" if "c \<in> set b" for c
    using assms that by (auto simp: csns_wf_def list_all_iff)
  have "sorted_wrt (<) (map csn_sr a)" "sorted_wrt (<) (map csn_sr b)"
    using assms by (simp_all add: csns_wf_def sorted_wrt_map)
  then have "map csn_sr a = map csn_sr b"
    by (metis list.set_map set strict_sorted_equal)
  moreover have "inj_on csn_sr (set b)"
    by (rule inj_onI) (metis assms(2) csn_eqI csns_wf_vec ok option.inject)
  ultimately show "a = b"
    by (metis Un_absorb map_inj_on set)
qed simp

section \<open>Properties\<close>

text \<open>Validation and sorting never abort and yield a well-formed array: well-formed CSNs in strictly
  increasing order of server ID, all of them taken from the valid values of the input, and for each
  valid input value the array holds one of the same server that is at least as new.\<close>

lemma validate_and_sort_correct:
  assumes "env_ok e" "list_all strlen_ok vals"
  shows "\<exists>ws. slap_csns_validate_and_sort e vals = Some ws \<and> csns_wf ws \<and>
    set ws \<subseteq> set vals \<inter> Collect (csn_valid e) \<and>
    (\<forall>v\<in>set vals. csn_valid e v \<longrightarrow> (\<exists>u\<in>set ws. csn_sr u = csn_sr v \<and> csn_ts v \<le> csn_ts u))"
  using assms by (rule validate_and_sort_spec)

lemma validate_and_sort_correct_witness:
  "\<exists>ws. slap_csns_validate_and_sort sample_mode
     [''20170101000000.000000Z#000000#002#000000'', ''junk'',
      ''20170101000000.000000Z#000000#001#000000'', ''20180101000000.000000Z#000000#002#000000''] = Some ws \<and>
     csns_wf ws"
proof -
  have "env_ok sample_mode \<and> list_all strlen_ok
     [''20170101000000.000000Z#000000#002#000000'', ''junk'',
      ''20170101000000.000000Z#000000#001#000000'', ''20180101000000.000000Z#000000#002#000000'']"
    by code_simp
  then show ?thesis using validate_and_sort_correct by blast
qed

text \<open>The single merge pass of \<^verbatim>\<open>slap_csns_compare\<close> over two sorted arrays decides the order of their
  version vectors: zero exactly on equal arrays, positive exactly when the second array's vector is
  below the first one and they differ; otherwise negative.\<close>

lemma csns_compare_correct:
  assumes "csns_wf next" "csns_wf base"
  shows "\<exists>r. slap_csns_compare e next base = Some r \<and> (r = 0 \<longleftrightarrow> next = base) \<and>
    (0 < r \<longleftrightarrow> next \<noteq> base \<and> vec_le (csns_vec base) (csns_vec next))"
  using csns_compare_sign [OF assms, of e] by (simp add: csns_vec_inject [OF assms])

lemma csns_compare_correct_witness:
  "\<exists>r. slap_csns_compare sample_mode
     [''20170101000000.000000Z#000000#001#000000'', ''20180101000000.000000Z#000000#002#000000'']
     [''20160101000000.000000Z#000000#001#000000''] = Some r"
proof -
  have "csns_wf [''20170101000000.000000Z#000000#001#000000'', ''20180101000000.000000Z#000000#002#000000''] \<and>
     csns_wf [''20160101000000.000000Z#000000#001#000000'']"
    by code_simp
  then show ?thesis using csns_compare_correct by blast
qed

end
