(* ===== verification/Csn_Schema.thy ===== *)
theory Csn_Schema
  imports Csn
begin

text \<open>
  The CSN syntax and matching rule of the schema, \<^verbatim>\<open>servers/slapd/schema_init.c\<close>: server IDs,
  the validator and the normaliser with the two older formats of OpenLDAP 2.1 and 2.3. A result is
  \<open>Inl\<close> an LDAP error code or \<open>Inr\<close> the normalised value. \<^verbatim>\<open>ber_bvchr\<close> searches the
  \<^verbatim>\<open>bv_len\<close> bytes of its argument; a value shorter than its \<^verbatim>\<open>bv_len\<close> is the outcome
  \<open>None\<close>.
\<close>

section \<open>Definitions\<close>



text \<open>The bytes of a berval.\<close>

definition bv_bytes :: "berval \<Rightarrow> string option" where
  "bv_bytes v = (if bv_len v \<le> length (bv_val v) then Some (take (bv_len v) (bv_val v)) else None)"

definition ASCII_HEX :: "char \<Rightarrow> bool" where
  "ASCII_HEX c \<longleftrightarrow> isdigit c \<or> is_lower_hex c \<or> is_upper_hex c"

fun hexValidate :: "string \<Rightarrow> bool" where
  "hexValidate [] = True"
| "hexValidate (c # s) = (if \<not> ASCII_HEX c then False else hexValidate s)"

fun hexNormalize :: "string \<Rightarrow> int + string" where
  "hexNormalize [] = Inr []"
| "hexNormalize (c # s) =
     (if \<not> ASCII_HEX c then Inl LDAP_INVALID_SYNTAX
      else case hexNormalize s of Inl e \<Rightarrow> Inl e | Inr r \<Rightarrow> Inr (tolower c # r))"

definition sidValidate :: "string \<Rightarrow> bool" where
  "sidValidate s = (if length s \<noteq> 3 then False else hexValidate s)"

definition sidNormalize :: "string \<Rightarrow> int + string" where
  "sidNormalize s = (if length s \<noteq> 3 then Inl LDAP_INVALID_SYNTAX else hexNormalize s)"

text \<open>\<^verbatim>\<open>ptr = ber_bvchr(&x, '#')\<close>: what is before and after the first hash.\<close>

definition cut_hash :: "string \<Rightarrow> (string \<times> string) option" where
  "cut_hash s =
     (if CHR ''#'' \<in> set s
      then Some (takeWhile (\<lambda>c. c \<noteq> CHR ''#'') s, tl (dropWhile (\<lambda>c. c \<noteq> CHR ''#'') s)) else None)"

definition csnSidNormalize :: "bool \<Rightarrow> string \<Rightarrow> int + string" where
  "csnSidNormalize assertion s =
     (if s = [] then Inl LDAP_INVALID_SYNTAX
      else if assertion then sidNormalize s
      else case cut_hash s of
        None \<Rightarrow> Inl LDAP_INVALID_SYNTAX
      | Some (_, s) \<Rightarrow> (case cut_hash s of
          None \<Rightarrow> Inl LDAP_INVALID_SYNTAX
        | Some (_, s) \<Rightarrow> (case cut_hash s of
            None \<Rightarrow> Inl LDAP_INVALID_SYNTAX
          | Some (sid, _) \<Rightarrow>
              sidNormalize (if length sid = 2 then CHR ''0'' # sid else sid))))"

definition csnValidate :: "env \<Rightarrow> berval \<Rightarrow> bool option" where
  "csnValidate e v = slap_csn_verify_full e v"

text \<open>\<^verbatim>\<open>YYYYmmddHH:MM:SSZ#0xSSSS#I#ssss\<close>.\<close>

definition csnNormalize21 :: "env \<Rightarrow> string \<Rightarrow> (int + string) option" where
  "csnNormalize21 e s = do {
     assert_that e (s \<noteq> []);
     case cut_hash s of
       None \<Rightarrow> Some (Inl LDAP_INVALID_SYNTAX)
     | Some (gt, s) \<Rightarrow>
         if length gt \<noteq> 17 then Some (Inl LDAP_INVALID_SYNTAX)
         else if gt ! 10 \<noteq> CHR '':'' \<or> gt ! 13 \<noteq> CHR '':'' then Some (Inl LDAP_INVALID_SYNTAX)
         else (case cut_hash s of
           None \<Rightarrow> Some (Inl LDAP_INVALID_SYNTAX)
         | Some (cnt, s) \<Rightarrow>
             if length cnt \<noteq> 6 then Some (Inl LDAP_INVALID_SYNTAX)
             else if take 2 cnt \<noteq> ''0x'' then Some (Inl LDAP_INVALID_SYNTAX)
             else (case cut_hash s of
               None \<Rightarrow> Some (Inl LDAP_INVALID_SYNTAX)
             | Some (sid, md) \<Rightarrow>
                 if length sid \<noteq> 1 then Some (Inl LDAP_INVALID_SYNTAX)
                 else if length md \<noteq> 4 then Some (Inl LDAP_INVALID_SYNTAX)
                 else do {
                   let buf = take 10 gt @ take 2 (drop 11 gt) @ take 2 (drop 14 gt)
                             @ ''.000000Z#00'' @ drop 2 cnt @ ''#00'' @ sid @ ''#00'' @ map tolower md;
                   assert_that e (length buf = 40);
                   ok \<leftarrow> csnValidate e (bv buf);
                   Some (if ok then Inr buf else Inl LDAP_INVALID_SYNTAX) })) }"

text \<open>\<^verbatim>\<open>YYYYmmddHHMMSSZ#SSSSSS#ID#ssssss\<close>.\<close>

definition csnNormalize23 :: "env \<Rightarrow> string \<Rightarrow> (int + string) option" where
  "csnNormalize23 e s = do {
     assert_that e (s \<noteq> []);
     case cut_hash s of
       None \<Rightarrow> Some (Inl LDAP_INVALID_SYNTAX)
     | Some (gt, s) \<Rightarrow>
         if length gt \<noteq> 15 then Some (Inl LDAP_INVALID_SYNTAX)
         else (case cut_hash s of
           None \<Rightarrow> Some (Inl LDAP_INVALID_SYNTAX)
         | Some (cnt, s) \<Rightarrow>
             if length cnt \<noteq> 6 then Some (Inl LDAP_INVALID_SYNTAX)
             else (case cut_hash s of
               None \<Rightarrow> Some (Inl LDAP_INVALID_SYNTAX)
             | Some (sid, md) \<Rightarrow>
                 if length sid \<noteq> 2 then Some (Inl LDAP_INVALID_SYNTAX)
                 else if length md \<noteq> 6 then Some (Inl LDAP_INVALID_SYNTAX)
                 else do {
                   let buf = take 14 gt @ ''.000000Z#'' @ cnt @ ''#0'' @ map tolower sid @ ''#''
                             @ map tolower md;
                   assert_that e (length buf = 40);
                   ok \<leftarrow> csnValidate e (bv buf);
                   Some (if ok then Inr buf else Inl LDAP_INVALID_SYNTAX) })) }"

definition csnNormalize :: "env \<Rightarrow> string \<Rightarrow> (int + string) option" where
  "csnNormalize e s =
     (if s = [] then Some (Inl LDAP_INVALID_SYNTAX)
      else if length s = 32 then csnNormalize23 e s
      else if length s = 31 then csnNormalize21 e s
      else if length s \<noteq> 40 then Some (Inl LDAP_INVALID_SYNTAX)
      else Some (case cut_hash s of
        None \<Rightarrow> Inl LDAP_INVALID_SYNTAX
      | Some (gt, r) \<Rightarrow>
          if length gt \<noteq> 22 then Inl LDAP_INVALID_SYNTAX
          else (case cut_hash r of
            None \<Rightarrow> Inl LDAP_INVALID_SYNTAX
          | Some (cnt, r) \<Rightarrow>
              if length cnt \<noteq> 6 then Inl LDAP_INVALID_SYNTAX
              else (case cut_hash r of
                None \<Rightarrow> Inl LDAP_INVALID_SYNTAX
              | Some (sid, md) \<Rightarrow>
                  if length sid \<noteq> 3 then Inl LDAP_INVALID_SYNTAX
                  else if length md \<noteq> 6 then Inl LDAP_INVALID_SYNTAX
                  else Inr (take 30 s @ map tolower (drop 30 s))))))"

definition csnPretty :: "env \<Rightarrow> string \<Rightarrow> (int + string) option" where
  "csnPretty e s = csnNormalize e s"

section \<open>Normal forms\<close>

lemma hexNormalize_spec: "hexNormalize s = (if hexValidate s then Inr (map tolower s) else Inl LDAP_INVALID_SYNTAX)"
  by (induction s) auto

lemma cut_hash_append: "CHR ''#'' \<notin> set a \<Longrightarrow> cut_hash (a @ CHR ''#'' # b) = Some (a, b)"
  by (induction a) (auto simp: cut_hash_def)

lemma tolower_idem [simp]: "tolower (tolower c) = tolower c"
proof (cases "CHR ''A'' \<le> c \<and> c \<le> CHR ''Z''")
  case True
  then have "65 \<le> code c" "code c \<le> 90" by (auto simp: code_def less_eq_char_code)
  then have "code (char_of (code c + 32)) = code c + 32"
    by (simp add: code_def)
  with True \<open>65 \<le> code c\<close> show ?thesis
    by (simp add: tolower_def less_eq_char_code flip: code_def) (simp add: code_def)
qed (auto simp: tolower_def)

lemma hexchar_tolower: "hexchar c \<Longrightarrow> hexchar (tolower c)"
proof (cases "CHR ''A'' \<le> c \<and> c \<le> CHR ''Z''")
  case True
  assume "hexchar c"
  with True have b: "65 \<le> code c" "code c \<le> 70"
    by (auto simp: hexchar_def is_lower_hex_def is_upper_hex_def isdigit_def code_def less_eq_char_code)
  then have "code (char_of (code c + 32)) = code c + 32"
    by (simp add: code_def)
  with True b show ?thesis
    by (simp add: tolower_def hexchar_def is_lower_hex_def less_eq_char_code flip: code_def) (simp add: code_def)
qed (auto simp: tolower_def)

lemma csn_no_hash: "list_all2 csn_char_ok p a \<Longrightarrow> CHR ''#'' \<notin> set p \<Longrightarrow> CHR ''#'' \<notin> set a"
  by (induction rule: list_all2_induct) (auto simp: csn_char_ok_def is_lower_hex_def is_upper_hex_def isdigit_def
      less_eq_char_code split: if_splits)

lemma csn_char_hash [simp]: "csn_char_ok (CHR ''#'') c \<longleftrightarrow> c = CHR ''#''"
  by (simp add: csn_char_ok_def)

lemma csn_field_split:
  assumes "list_all2 csn_char_ok (p @ CHR ''#'' # q) s" "CHR ''#'' \<notin> set p"
  shows "\<exists>a r. s = a @ CHR ''#'' # r \<and> length a = length p \<and> CHR ''#'' \<notin> set a \<and>
    list_all2 csn_char_ok p a \<and> list_all2 csn_char_ok q r"
proof -
  from assms(1) obtain a r where a: "s = a @ r" "list_all2 csn_char_ok p a" "list_all2 csn_char_ok (CHR ''#'' # q) r"
    by (auto simp: list_all2_append1)
  then obtain r' where "r = CHR ''#'' # r'" "list_all2 csn_char_ok q r'"
    by (auto simp: list_all2_Cons1)
  with a csn_no_hash [OF a(2) assms(2)] list_all2_lengthD [OF a(2)] show ?thesis by auto
qed

lemma csn_fields:
  assumes "csn_ok s"
  shows "\<exists>gt cnt sid md. s = gt @ CHR ''#'' # cnt @ CHR ''#'' # sid @ CHR ''#'' # md \<and>
    length gt = 22 \<and> length cnt = 6 \<and> length sid = 3 \<and> length md = 6 \<and>
    CHR ''#'' \<notin> set gt \<and> CHR ''#'' \<notin> set cnt \<and> CHR ''#'' \<notin> set sid"
proof -
  have pat: "csn_pattern = ''99999999999999.999999Z'' @ CHR ''#'' # ''FFFFFF'' @ CHR ''#'' # ''FFF'' @ CHR ''#'' # ''FFFFFF''"
    by (simp add: csn_pattern_def)
  obtain gt r1 where 1: "s = gt @ CHR ''#'' # r1" "length gt = 22" "CHR ''#'' \<notin> set gt"
      "list_all2 csn_char_ok (''FFFFFF'' @ CHR ''#'' # ''FFF'' @ CHR ''#'' # ''FFFFFF'') r1"
    using csn_field_split [of "''99999999999999.999999Z''" _ s] assms [unfolded csn_ok_def pat] by force
  obtain cnt r2 where 2: "r1 = cnt @ CHR ''#'' # r2" "length cnt = 6" "CHR ''#'' \<notin> set cnt"
      "list_all2 csn_char_ok (''FFF'' @ CHR ''#'' # ''FFFFFF'') r2"
    using csn_field_split [OF 1(4)] by force
  obtain sid md where 3: "r2 = sid @ CHR ''#'' # md" "length sid = 3" "CHR ''#'' \<notin> set sid"
      "list_all2 csn_char_ok ''FFFFFF'' md"
    using csn_field_split [OF 2(4)] by force
  have "length md = 6" using list_all2_lengthD [OF 3(4)] by simp
  with 1 2 3 show ?thesis by blast
qed

lemma csnNormalize_csn:
  assumes "csn_ok s"
  shows "csnNormalize e s = Some (Inr (take 30 s @ map tolower (drop 30 s)))"
proof -
  obtain gt cnt sid md where f: "s = gt @ CHR ''#'' # cnt @ CHR ''#'' # sid @ CHR ''#'' # md"
    "length gt = 22" "length cnt = 6" "length sid = 3" "length md = 6"
    "CHR ''#'' \<notin> set gt" "CHR ''#'' \<notin> set cnt" "CHR ''#'' \<notin> set sid"
    using csn_fields [OF assms] by blast
  have "length s = 40" "s \<noteq> []" using f by auto
  then show ?thesis
    using f by (simp add: csnNormalize_def cut_hash_append)
qed

definition csn_lower :: "string \<Rightarrow> string" where
  "csn_lower s = take 30 s @ map tolower (drop 30 s)"

lemma tolower_hash [simp]: "tolower (CHR ''#'') = CHR ''#''"
  by code_simp

lemma csn_char_lower: "csn_char_ok x c \<Longrightarrow> x = CHR ''F'' \<or> x = CHR ''#'' \<Longrightarrow> csn_char_ok x (tolower c)"
proof (elim disjE)
  assume "csn_char_ok x c" "x = CHR ''F''"
  then have "hexchar c"
    by (auto simp: csn_char_ok_def hexchar_def is_upper_hex_def less_eq_char_code)
  then show ?thesis
    using hexchar_tolower [of c] \<open>x = CHR ''F''\<close> by (auto simp: csn_char_ok_def hexchar_def)
next
  assume "csn_char_ok x c" "x = CHR ''#''"
  then show ?thesis by simp
qed

lemma csn_ok_lower:
  assumes "csn_ok s"
  shows "csn_ok (csn_lower s)"
proof -
  have d: "drop 30 csn_pattern = ''FFF#FFFFFF''" by (simp add: csn_pattern_def)
  have "list_all2 csn_char_ok (drop 30 csn_pattern) (drop 30 s)"
    using assms by (simp add: csn_ok_def list_all2_dropI)
  then have "list_all2 csn_char_ok (drop 30 csn_pattern) (map tolower (drop 30 s))"
    unfolding list.rel_map by (rule list.rel_mono_strong) (auto simp: d csn_char_lower)
  moreover have "list_all2 csn_char_ok (take 30 csn_pattern) (take 30 s)"
    using assms by (simp add: csn_ok_def list_all2_takeI)
  ultimately have "list_all2 csn_char_ok (take 30 csn_pattern @ drop 30 csn_pattern) (csn_lower s)"
    unfolding csn_lower_def by (rule list_all2_appendI [rotated])
  then show ?thesis by (simp add: csn_ok_def)
qed

lemma csn_lower_idem [simp]: "csn_ok s \<Longrightarrow> csn_lower (csn_lower s) = csn_lower s"
  by (simp add: csn_lower_def csn_ok_length)

text \<open>A CSN in normal form has no upper-case digit in its server ID and its modification number;
  then the byte order of the server part is the order of the server IDs.\<close>

definition csn_normal :: "string \<Rightarrow> bool" where
  "csn_normal s \<longleftrightarrow> csn_ok s \<and> csn_lower s = s"

lemma csn_normal_ok: "csn_normal s \<Longrightarrow> csn_ok s"
  by (simp add: csn_normal_def)

lemma csn_normal_lower: "csn_ok s \<Longrightarrow> csn_normal (csn_lower s)"
  by (simp add: csn_normal_def csn_ok_lower)

lemma lower_hexchar: "hexchar c \<Longrightarrow> tolower c = c \<Longrightarrow> isdigit c \<or> is_lower_hex c"
proof (rule ccontr)
  assume "hexchar c" "tolower c = c" "\<not> (isdigit c \<or> is_lower_hex c)"
  then have u: "is_upper_hex c" by (simp add: hexchar_def)
  then have "65 \<le> code c" "code c \<le> 70" by (auto simp: is_upper_hex_def code_def less_eq_char_code)
  then have "code (tolower c) = code c + 32"
    by (simp add: tolower_def less_eq_char_code flip: code_def) (simp add: code_def)
  with \<open>tolower c = c\<close> show False by simp
qed

lemma xdigit_mono:
  assumes "isdigit c \<or> is_lower_hex c" "isdigit d \<or> is_lower_hex d"
  shows "c < d \<longleftrightarrow> the (xdigit c) < the (xdigit d)" "c = d \<longleftrightarrow> the (xdigit c) = the (xdigit d)"
proof -
  have x: "the (xdigit c) = (if isdigit c then code c - 48 else code c - 87)"
    if "isdigit c \<or> is_lower_hex c" for c
    using that by (auto simp: xdigit_def is_upper_hex_def is_lower_hex_def less_eq_char_code)
  have b: "isdigit c \<longleftrightarrow> 48 \<le> code c \<and> code c \<le> 57" "is_lower_hex c \<longleftrightarrow> 97 \<le> code c \<and> code c \<le> 102" for c
    by (simp_all add: isdigit_def is_lower_hex_def code_def less_eq_char_code)
  have l: "c < d \<longleftrightarrow> code c < code d" by (simp add: code_def less_char_code)
  have e: "c = d \<longleftrightarrow> code c = code d" by (simp add: code_def)
  show "c < d \<longleftrightarrow> the (xdigit c) < the (xdigit d)" "c = d \<longleftrightarrow> the (xdigit c) = the (xdigit d)"
    using assms unfolding x [OF assms(1)] x [OF assms(2)] b l e by auto
qed

lemma csn_normal_sid:
  assumes "csn_normal a"
  shows "\<exists>x y z. csn_sr a = [x, y, z, CHR ''#''] \<and> csn_sid a = (the (xdigit x) * 16 + the (xdigit y)) * 16 + the (xdigit z) \<and>
    (\<forall>c\<in>{x, y, z}. (isdigit c \<or> is_lower_hex c) \<and> 0 \<le> the (xdigit c) \<and> the (xdigit c) \<le> 15)"
proof -
  have ok: "csn_ok a" and "csn_lower a = a"
    using assms by (simp_all add: csn_normal_def)
  moreover have "drop 30 (csn_lower a) = map tolower (drop 30 a)"
    by (simp add: csn_lower_def csn_ok_length ok)
  ultimately have low: "map tolower (drop 30 a) = drop 30 a" by simp
  have eq: "drop 30 a = a ! 30 # a ! 31 # a ! 32 # a ! 33 # drop 34 a"
    using drop_30 [OF csn_ok_length [OF ok]] .
  have "tolower (a ! 30) = a ! 30" "tolower (a ! 31) = a ! 31" "tolower (a ! 32) = a ! 32"
    using low unfolding eq by simp_all
  moreover have h: "hexchar (a ! 30)" "hexchar (a ! 31)" "hexchar (a ! 32)"
    using csn_ok_hex [OF ok] by simp_all
  ultimately have "\<forall>c\<in>{a ! 30, a ! 31, a ! 32}. isdigit c \<or> is_lower_hex c"
    using lower_hexchar by auto
  moreover have "\<forall>c\<in>{a ! 30, a ! 31, a ! 32}. 0 \<le> the (xdigit c) \<and> the (xdigit c) \<le> 15"
    using h xdigit_hexchar by fastforce
  ultimately show ?thesis
    using csn_ok_sr [OF ok] csn_sid_eq [OF ok] by (auto simp: xvalue_def)
qed

lemma lex3_less:
  assumes "0 \<le> a \<and> a \<le> 15" "0 \<le> b \<and> b \<le> 15" "0 \<le> c \<and> c \<le> 15" "0 \<le> x \<and> x \<le> 15" "0 \<le> y \<and> y \<le> 15"
    "0 \<le> z \<and> z \<le> (15 :: int)"
  shows "(a * 16 + b) * 16 + c < (x * 16 + y) * 16 + z \<longleftrightarrow> a < x \<or> a = x \<and> (b < y \<or> b = y \<and> c < z)"
  using assms by (cases a x rule: linorder_cases; cases b y rule: linorder_cases) auto

lemma lex3_eq:
  assumes "0 \<le> a \<and> a \<le> 15" "0 \<le> b \<and> b \<le> 15" "0 \<le> c \<and> c \<le> 15" "0 \<le> x \<and> x \<le> 15" "0 \<le> y \<and> y \<le> 15"
    "0 \<le> z \<and> z \<le> (15 :: int)"
  shows "(a * 16 + b) * 16 + c = (x * 16 + y) * 16 + z \<longleftrightarrow> a = x \<and> b = y \<and> c = z"
  using assms by (cases a x rule: linorder_cases; cases b y rule: linorder_cases) auto

lemma csn_normal_order:
  assumes "csn_normal a" "csn_normal b"
  shows "csn_sr a < csn_sr b \<longleftrightarrow> csn_sid a < csn_sid b" "csn_sr a = csn_sr b \<longleftrightarrow> csn_sid a = csn_sid b"
proof -
  obtain x y z where a: "csn_sr a = [x, y, z, CHR ''#'']" "csn_sid a = (the (xdigit x) * 16 + the (xdigit y)) * 16 + the (xdigit z)"
    "\<forall>c\<in>{x, y, z}. (isdigit c \<or> is_lower_hex c) \<and> 0 \<le> the (xdigit c) \<and> the (xdigit c) \<le> 15"
    using csn_normal_sid [OF assms(1)] by blast
  obtain u v w where b: "csn_sr b = [u, v, w, CHR ''#'']" "csn_sid b = (the (xdigit u) * 16 + the (xdigit v)) * 16 + the (xdigit w)"
    "\<forall>c\<in>{u, v, w}. (isdigit c \<or> is_lower_hex c) \<and> 0 \<le> the (xdigit c) \<and> the (xdigit c) \<le> 15"
    using csn_normal_sid [OF assms(2)] by blast
  have "isdigit x \<or> is_lower_hex x" "isdigit y \<or> is_lower_hex y" "isdigit z \<or> is_lower_hex z"
    "isdigit u \<or> is_lower_hex u" "isdigit v \<or> is_lower_hex v" "isdigit w \<or> is_lower_hex w"
    using a(3) b(3) by auto
  note m = xdigit_mono [OF this(1,4)] xdigit_mono [OF this(2,5)] xdigit_mono [OF this(3,6)]
  have d: "0 \<le> the (xdigit c) \<and> the (xdigit c) \<le> 15" if "c \<in> {x, y, z, u, v, w}" for c
    using that a(3) b(3) by auto
  show "csn_sr a < csn_sr b \<longleftrightarrow> csn_sid a < csn_sid b" "csn_sr a = csn_sr b \<longleftrightarrow> csn_sid a = csn_sid b"
    unfolding a(1,2) b(1,2)
    using lex3_less [of "the (xdigit x)" "the (xdigit y)" "the (xdigit z)" "the (xdigit u)" "the (xdigit v)" "the (xdigit w)"]
      lex3_eq [of "the (xdigit x)" "the (xdigit y)" "the (xdigit z)" "the (xdigit u)" "the (xdigit v)" "the (xdigit w)"]
      d [of x] d [of y] d [of z] d [of u] d [of v] d [of w]
    by (simp_all add: m)
qed


lemma xdigit_tolower:
  assumes "hexchar c"
  shows "xdigit (tolower c) = xdigit c"
proof (cases "is_upper_hex c")
  case True
  then have b: "65 \<le> code c" "code c \<le> 70" by (auto simp: is_upper_hex_def code_def less_eq_char_code)
  then have t: "code (tolower c) = code c + 32"
    by (simp add: tolower_def less_eq_char_code flip: code_def) (simp add: code_def)
  have d: "isdigit x \<longleftrightarrow> 48 \<le> code x \<and> code x \<le> 57" "is_lower_hex x \<longleftrightarrow> 97 \<le> code x \<and> code x \<le> 102"
    "is_upper_hex x \<longleftrightarrow> 65 \<le> code x \<and> code x \<le> 70" for x
    by (simp_all add: isdigit_def is_lower_hex_def is_upper_hex_def code_def less_eq_char_code)
  show ?thesis using b by (simp add: xdigit_def d t)
next
  case False
  with assms have "tolower c = c"
    by (auto simp: hexchar_def tolower_def is_lower_hex_def isdigit_def less_eq_char_code)
  then show ?thesis by simp
qed

lemma csn_lower_fields:
  assumes "csn_ok s"
  shows "csn_sid (csn_lower s) = csn_sid s" "take 30 (csn_lower s) = take 30 s"
proof -
  have "take 3 (drop 30 s) = [s ! 30, s ! 31, s ! 32]"
    using drop_30 [OF csn_ok_length [OF assms]] by simp
  then show "csn_sid (csn_lower s) = csn_sid s"
    using csn_ok_hex [OF assms]
    by (simp add: csn_sid_def csn_lower_def csn_ok_length assms take_map xvalue_def xdigit_tolower)
  show "take 30 (csn_lower s) = take 30 s"
    by (simp add: csn_lower_def csn_ok_length assms)
qed

lemma csnNormalize_old:
  assumes "env_ok e" "length s \<noteq> 40" "csnNormalize e s = Some (Inr r)"
  shows "csn_valid e r"
proof -
  have "csnNormalize23 e s = Some (Inr r) \<or> csnNormalize21 e s = Some (Inr r)"
    using assms by (auto simp: csnNormalize_def split: if_splits)
  then have "slap_csn_verify_full e (bv r) = Some True"
    by (auto simp: csnNormalize23_def csnNormalize21_def csnValidate_def abort_simps Let_def
        split: option.splits if_splits)
  then show ?thesis
    using assms(1) by (simp add: verify_full_bv)
qed

section \<open>Properties\<close>

text \<open>Normalising a well-formed CSN succeeds, keeps its timestamp and its server ID, yields
  lower-case digits after the counter, and is idempotent.\<close>

lemma csn_normalize_idempotent:
  assumes "csn_ok s"
  shows "\<exists>r. csnNormalize e s = Some (Inr r) \<and> csn_normal r \<and> csn_sid r = csn_sid s \<and>
    take 30 r = take 30 s \<and> csnNormalize e r = Some (Inr r)"
proof -
  have "csnNormalize e s = Some (Inr (csn_lower s))"
    using csnNormalize_csn [OF assms] by (simp add: csn_lower_def)
  moreover have "csnNormalize e (csn_lower s) = Some (Inr (csn_lower s))"
    using csnNormalize_csn [OF csn_ok_lower [OF assms]] csn_lower_idem [OF assms]
    by (simp add: csn_lower_def)
  ultimately show ?thesis
    using csn_normal_lower [OF assms] csn_lower_fields [OF assms] by blast
qed

lemma csn_normalize_idempotent_witness:
  "\<exists>r. csnNormalize \<lparr>env_assert = True, env_check = True, env_strict = False, env_now = [], env_stamp = [],
      slap_serverID = 0\<rparr> ''20170101000000.000000Z#00000A#0AB#00000C'' = Some (Inr r) \<and> csn_normal r"
proof -
  have "csn_ok ''20170101000000.000000Z#00000A#0AB#00000C''" by code_simp
  then show ?thesis using csn_normalize_idempotent by blast
qed

text \<open>A CSN of the old formats of OpenLDAP 2.1 and 2.3 that the normaliser accepts becomes a CSN that
  full verification accepts.\<close>

lemma csn_normalize_old_formats:
  assumes "env_ok e" "length s \<noteq> 40" "csnNormalize e s = Some (Inr r)"
  shows "slap_csn_verify_full e (bv r) = Some True"
  using csnNormalize_old [OF assms] assms(1) by (simp add: verify_full_bv)

lemma csn_normalize_old_formats_witness:
  "slap_csn_verify_full \<lparr>env_assert = True, env_check = True, env_strict = True,
      env_now = ''20240101000000.000000Z#000000#001#000000'', env_stamp = [], slap_serverID = 0\<rparr>
     (bv ''20051231235959.000000Z#00abcd#001#00ffee'') = Some True"
  (is "slap_csn_verify_full ?e _ = _")
proof (rule csn_normalize_old_formats)
  show "env_ok ?e" by code_simp
  show "length ''2005123123:59:59Z#0xabcd#1#FFEE'' \<noteq> 40" by simp
  show "csnNormalize ?e ''2005123123:59:59Z#0xabcd#1#FFEE'' = Some (Inr ''20051231235959.000000Z#00abcd#001#00ffee'')"
    by code_simp
qed

end
