(* ===== verification/Sync_Cookie.thy ===== *)
theory Sync_Cookie
  imports Csn_Set Csn_Schema Quorum
begin

text \<open>
  Synchronisation cookies, the first half of \<^verbatim>\<open>servers/slapd/ldapsync.c\<close>. A cookie carries a
  replica ID, a server ID and one CSN per server, kept in two parallel arrays sorted by server ID.
  It is the version vector of a replica; merging joins two of them. A new server ID is reported to
  the quorum of the database, which the operations thread as an optional \<^typ>\<open>backend\<close>.

  \<^verbatim>\<open>ctxcsn\<close> is the array without its terminator, \<^verbatim>\<open>sids\<close> may be longer than
  \<^verbatim>\<open>numcsns\<close>: \<^verbatim>\<open>slap_cookie_clean_csns\<close> leaves the old allocation behind when no memory
  context is given. An index past the end of an array is the result \<open>None\<close>.
\<close>

section \<open>Definitions\<close>

record sync_cookie =
  ctxcsn :: "string list"
  sids :: "int list"
  numcsns :: nat
  ck_rid :: int
  ck_sid :: int

text \<open>\<open>multimaster\<close> is \<^verbatim>\<open>SLAP_MULTIMASTER(bd)\<close>.\<close>

definition slap_check_same_server :: "env \<Rightarrow> bool \<Rightarrow> int \<Rightarrow> int" where
  "slap_check_same_server e multimaster sid =
     (if sid = slap_serverID e \<and> env_strict e \<and> multimaster then - 1 else 0)"

fun cookie_verify_loop :: "env \<Rightarrow> int option \<Rightarrow> string list \<Rightarrow> int list \<Rightarrow> unit option" where
  "cookie_verify_loop e prev [] ss = Some ()"
| "cookie_verify_loop e prev (c # cs) [] = None"
| "cookie_verify_loop e prev (c # cs) (s # ss) = do {
     ok \<leftarrow> slap_csn_verify_full e (bv c);
     ensure ok;
     ensure (s = slap_csn_get_sid (bv c));
     ensure (0 \<le> s \<and> s \<le> SLAP_SYNC_SID_MAX);
     ensure (case prev of None \<Rightarrow> True | Some p \<Rightarrow> p < s);
     cookie_verify_loop e (Some s) cs ss }"

definition slap_cookie_verify :: "env \<Rightarrow> sync_cookie \<Rightarrow> unit option" where
  "slap_cookie_verify e ck = do {
     ensure (numcsns ck \<noteq> 0 \<longrightarrow> ctxcsn ck \<noteq> [] \<and> sids ck \<noteq> []);
     ensure (ctxcsn ck \<noteq> [] \<longrightarrow> length (ctxcsn ck) = numcsns ck);
     cookie_verify_loop e None (ctxcsn ck) (sids ck) }"

definition insert_at :: "nat \<Rightarrow> 'a \<Rightarrow> 'a list \<Rightarrow> 'a list" where
  "insert_at pos x xs = take pos xs @ x # drop pos xs"

definition slap_insert_csn_sids ::
  "env \<Rightarrow> sync_cookie \<Rightarrow> nat \<Rightarrow> int \<Rightarrow> string \<Rightarrow> sync_cookie option" where
  "slap_insert_csn_sids e ck pos sid csn = do {
     let ck = ck\<lparr>numcsns := numcsns ck + 1,
                 ctxcsn := insert_at pos csn (ctxcsn ck),
                 sids := insert_at pos sid (take (numcsns ck) (sids ck))\<rparr>;
     when_check e (slap_cookie_verify e ck);
     Some ck }"

text \<open>The common search loop: break before the first larger server ID, stop at an equal one. The
  result is the index and whether it was a hit.\<close>

fun sid_scan :: "int \<Rightarrow> int list \<Rightarrow> nat \<Rightarrow> nat \<times> bool" where
  "sid_scan s [] j = (j, False)"
| "sid_scan s (x # xs) j =
     (if s < x then (j, False) else if s = x then (j, True) else sid_scan s xs (Suc j))"

definition cookie_scan :: "sync_cookie \<Rightarrow> int \<Rightarrow> nat \<times> bool" where
  "cookie_scan ck s = sid_scan s (take (numcsns ck) (sids ck)) 0"

definition slap_cookie_is_sid_here :: "sync_cookie \<Rightarrow> int \<Rightarrow> bool" where
  "slap_cookie_is_sid_here ck sid = snd (cookie_scan ck sid)"

definition slap_cookie_init :: sync_cookie where
  "slap_cookie_init = \<lparr>ctxcsn = [], sids = [], numcsns = 0, ck_rid = - 1, ck_sid = - 1\<rparr>"

definition slap_cookie_clean_csns :: "bool \<Rightarrow> sync_cookie \<Rightarrow> sync_cookie" where
  "slap_cookie_clean_csns memctx ck =
     (let ck' = ck\<lparr>numcsns := 0\<rparr>
      in if ctxcsn ck = [] then ck'
         else ck'\<lparr>ctxcsn := [], sids := if memctx then [] else sids ck\<rparr>)"

definition slap_cookie_clean_all :: "sync_cookie \<Rightarrow> sync_cookie" where
  "slap_cookie_clean_all ck = slap_cookie_clean_csns False (ck\<lparr>ck_rid := - 1, ck_sid := - 1\<rparr>)"

definition slap_cookie_copy :: "env \<Rightarrow> sync_cookie \<Rightarrow> sync_cookie option" where
  "slap_cookie_copy e src = do {
     when_check e (slap_cookie_verify e src);
     Some \<lparr>ctxcsn = if 0 < numcsns src then ctxcsn src else [],
           sids = if 0 < numcsns src then take (numcsns src) (sids src) else [],
           numcsns = numcsns src, ck_rid = ck_rid src, ck_sid = ck_sid src\<rparr> }"

text \<open>The new destination and the source.\<close>

definition slap_cookie_move :: "env \<Rightarrow> sync_cookie \<Rightarrow> (sync_cookie \<times> sync_cookie) option" where
  "slap_cookie_move e src = do {
     when_check e (slap_cookie_verify e src);
     Some (src, slap_cookie_init) }"

definition slap_cookie_free_x :: "sync_cookie \<Rightarrow> sync_cookie" where
  "slap_cookie_free_x ck = \<lparr>ctxcsn = [], sids = [], numcsns = 0, ck_rid = - 1, ck_sid = - 1\<rparr>"

definition nth_csn :: "sync_cookie \<Rightarrow> nat \<Rightarrow> string option" where
  "nth_csn ck j = (if j < length (ctxcsn ck) then Some (ctxcsn ck ! j) else None)"

definition notify_bd :: "env \<Rightarrow> backend option \<Rightarrow> int \<Rightarrow> backend option option" where
  "notify_bd e bd s =
     (case bd of None \<Rightarrow> Some None | Some b \<Rightarrow> map_option Some (quorum_notify_csn e b s))"

text \<open>\<^verbatim>\<open>if (lead < 0 || compare_ts(dst[j], dst[lead]) > 0) lead = j\<close>.\<close>

definition lead_upd :: "env \<Rightarrow> sync_cookie \<Rightarrow> nat \<Rightarrow> nat option \<Rightarrow> nat option option" where
  "lead_upd e dst j lead =
     (case lead of
        None \<Rightarrow> Some (Some j)
      | Some l \<Rightarrow> do {
          a \<leftarrow> nth_csn dst j;
          b \<leftarrow> nth_csn dst l;
          v \<leftarrow> slap_csn_compare_ts e (bv a) (bv b);
          Some (if 0 < v then Some j else lead) })"

fun cookie_merge_loop ::
  "env \<Rightarrow> backend option \<Rightarrow> sync_cookie \<Rightarrow> nat option \<Rightarrow> int list \<Rightarrow> string list \<Rightarrow>
   (sync_cookie \<times> backend option \<times> nat option) option" where
  "cookie_merge_loop e bd dst lead (s # ss) (c # cs) = do {
     let (j, hit) = cookie_scan dst s;
     if hit then do {
       d \<leftarrow> nth_csn dst j;
       v \<leftarrow> slap_csn_compare_ts e (bv c) (bv d);
       if 0 < v then do {
         let dst = dst\<lparr>ctxcsn := (ctxcsn dst)[j := c]\<rparr>;
         lead \<leftarrow> lead_upd e dst j lead;
         cookie_merge_loop e bd dst lead ss cs }
       else cookie_merge_loop e bd dst lead ss cs }
     else do {
       dst \<leftarrow> slap_insert_csn_sids e dst j s c;
       bd \<leftarrow> notify_bd e bd s;
       lead \<leftarrow> lead_upd e dst j lead;
       cookie_merge_loop e bd dst lead ss cs } }"
| "cookie_merge_loop e bd dst lead ss cs = Some (dst, bd, lead)"

text \<open>\<^verbatim>\<open>lead\<close> is the returned index, \<open>None\<close> for -1.\<close>

definition slap_cookie_merge ::
  "env \<Rightarrow> backend option \<Rightarrow> sync_cookie \<Rightarrow> sync_cookie \<Rightarrow>
   (sync_cookie \<times> backend option \<times> nat option) option" where
  "slap_cookie_merge e bd dst src = do {
     when_check e (slap_cookie_verify e dst);
     when_check e (slap_cookie_verify e src);
     ensure (numcsns src \<le> length (ctxcsn src) \<and> numcsns src \<le> length (sids src));
     (dst, bd, lead) \<leftarrow> cookie_merge_loop e bd dst None (take (numcsns src) (sids src))
                         (take (numcsns src) (ctxcsn src));
     when_check e (if lead = None then Some () else slap_cookie_verify e dst);
     Some (dst, bd, lead) }"

definition slap_cookie_fetch :: "env \<Rightarrow> sync_cookie \<Rightarrow> string list \<Rightarrow> sync_cookie option" where
  "slap_cookie_fetch e dst src = do {
     let dst = dst\<lparr>ctxcsn := src, numcsns := slap_csns_length src,
                   sids := slap_csns_parse_sids src\<rparr>;
     when_check e (slap_cookie_verify e dst);
     Some dst }"

definition slap_cookie_pull ::
  "env \<Rightarrow> sync_cookie \<Rightarrow> string list \<Rightarrow> (sync_cookie \<times> int) option" where
  "slap_cookie_pull e dst src = do {
     src \<leftarrow> slap_csns_validate_and_sort e src;
     vector \<leftarrow> slap_csns_compare e src (ctxcsn dst);
     dst \<leftarrow> (if 0 < vector then slap_cookie_fetch e dst src else Some dst);
     when_check e (slap_cookie_verify e dst);
     Some (dst, vector) }"

definition slap_cookie_merge_csn ::
  "env \<Rightarrow> backend option \<Rightarrow> sync_cookie \<Rightarrow> int \<Rightarrow> string \<Rightarrow>
   (sync_cookie \<times> backend option \<times> int) option" where
  "slap_cookie_merge_csn e bd dst sid src = do {
     ok \<leftarrow> slap_csn_verify_full e (bv src);
     if \<not> ok then Some (dst, bd, - 1)
     else do {
       when_check e (slap_cookie_verify e dst);
       let sid = (if sid < 0 then slap_csn_get_sid (bv src) else sid);
       if sid < 0 then Some (dst, bd, - 1)
       else do {
         let (j, hit) = cookie_scan dst sid;
         if hit then do {
           d \<leftarrow> nth_csn dst j;
           vector \<leftarrow> slap_csn_compare_ts e (bv src) (bv d);
           Some (if 0 < vector then dst\<lparr>ctxcsn := (ctxcsn dst)[j := src]\<rparr> else dst, bd, vector) }
         else do {
           dst \<leftarrow> slap_insert_csn_sids e dst j sid src;
           bd \<leftarrow> notify_bd e bd sid;
           Some (dst, bd, 1) } } } }"

definition slap_cookie_compare_csn :: "env \<Rightarrow> sync_cookie \<Rightarrow> string \<Rightarrow> int option" where
  "slap_cookie_compare_csn e ck csn = do {
     ok \<leftarrow> slap_csn_verify_full e (bv csn);
     if \<not> ok then Some (- 1)
     else do {
       let sid = slap_csn_get_sid (bv csn);
       if sid < 0 then Some (- 1)
       else do {
         let (j, hit) = cookie_scan ck sid;
         if hit then do {
           d \<leftarrow> nth_csn ck j;
           slap_csn_compare_ts e (bv csn) (bv d) }
         else Some 1 } } }"

text \<open>Printed by \<^verbatim>\<open>%4d%02d%02d%02d%02d%02d.%06dZ#%06x#%03x#%06x\<close> with zero counters.\<close>

definition stub_csn :: "int \<Rightarrow> string" where
  "stub_csn sid = ''19000101000000.000000Z#000000#'' @ padded 16 3 sid @ ''#000000''"

definition slap_cookie_stubself :: "env \<Rightarrow> sync_cookie \<Rightarrow> (sync_cookie \<times> int) option" where
  "slap_cookie_stubself e dst =
     (if slap_serverID e \<in> set (take (numcsns dst) (sids dst)) then Some (dst, 0)
      else map_option (\<lambda>(ck, _, v). (ck, v))
             (slap_cookie_merge_csn e None dst (slap_serverID e) (stub_csn (slap_serverID e))))"

fun cookie_merge_csns ::
  "env \<Rightarrow> backend option \<Rightarrow> sync_cookie \<Rightarrow> int \<Rightarrow> string list \<Rightarrow>
   (sync_cookie \<times> backend option \<times> int) option" where
  "cookie_merge_csns e bd dst rc [] = Some (dst, bd, rc)"
| "cookie_merge_csns e bd dst rc (c # cs) = do {
     assert_that e (strlen_ok c);
     (dst, bd, vector) \<leftarrow> slap_cookie_merge_csn e bd dst (- 1) c;
     cookie_merge_csns e bd dst (if 0 < vector then vector else if rc = 0 then vector else rc) cs }"

definition slap_cookie_merge_csnset ::
  "env \<Rightarrow> backend option \<Rightarrow> sync_cookie \<Rightarrow> string list \<Rightarrow>
   (sync_cookie \<times> backend option \<times> int) option" where
  "slap_cookie_merge_csnset e bd dst src = do {
     when_check e (slap_cookie_verify e dst);
     cookie_merge_csns e bd dst 0 src }"

text \<open>The search loop here returns 1 at a larger server ID and falls through at the end.\<close>

fun cookie_compare_csns :: "env \<Rightarrow> sync_cookie \<Rightarrow> int \<Rightarrow> string list \<Rightarrow> int option" where
  "cookie_compare_csns e base vector [] = Some vector"
| "cookie_compare_csns e base vector (c # cs) = do {
     assert_that e (strlen_ok c);
     let sid = slap_csn_get_sid (bv c);
     if sid < 0 then cookie_compare_csns e base (- 1) cs
     else do {
       let (j, hit) = cookie_scan base sid;
       if hit then do {
         d \<leftarrow> nth_csn base j;
         v \<leftarrow> slap_csn_compare_ts e (bv c) (bv d);
         if 0 < v then Some v else cookie_compare_csns e base v cs }
       else if j < numcsns base then Some 1
       else cookie_compare_csns e base vector cs } }"

definition slap_cookie_compare_csnset :: "env \<Rightarrow> sync_cookie \<Rightarrow> string list \<Rightarrow> int option" where
  "slap_cookie_compare_csnset e base next = do {
     when_check e (slap_cookie_verify e base);
     cookie_compare_csns e base 0 next }"

section \<open>The invariant of a cookie and its version vector\<close>

definition csns_ok :: "env \<Rightarrow> string list \<Rightarrow> bool" where
  "csns_ok e cs \<longleftrightarrow> list_all (csn_valid e) cs \<and> sorted_wrt (\<lambda>a b. csn_sid a < csn_sid b) cs"

definition cookie_inv :: "env \<Rightarrow> sync_cookie \<Rightarrow> bool" where
  "cookie_inv e ck \<longleftrightarrow> env_ok e \<and> numcsns ck = length (ctxcsn ck) \<and>
     take (length (ctxcsn ck)) (sids ck) = map csn_sid (ctxcsn ck) \<and> csns_ok e (ctxcsn ck)"

definition sid_vec :: "string list \<Rightarrow> (int, string) vv" where
  "sid_vec cs = map_of (map (\<lambda>c. (csn_sid c, csn_ts c)) cs)"

definition cookie_vec :: "sync_cookie \<Rightarrow> (int, string) vv" where
  "cookie_vec ck = sid_vec (ctxcsn ck)"

lemma csns_ok_simps [simp]:
  "csns_ok e []"
  "csns_ok e (c # cs) \<longleftrightarrow> csn_valid e c \<and> (\<forall>d\<in>set cs. csn_sid c < csn_sid d) \<and> csns_ok e cs"
  by (auto simp: csns_ok_def)

lemma csns_ok_append:
  "csns_ok e (xs @ ys) \<longleftrightarrow> csns_ok e xs \<and> csns_ok e ys \<and> (\<forall>x\<in>set xs. \<forall>y\<in>set ys. csn_sid x < csn_sid y)"
  by (auto simp: csns_ok_def sorted_wrt_append)

lemma csns_ok_mem: "csns_ok e cs \<Longrightarrow> c \<in> set cs \<Longrightarrow> csn_valid e c"
  by (auto simp: csns_ok_def list_all_iff)

lemma sid_vec_simps [simp]:
  "sid_vec [] = (\<lambda>_. None)" "sid_vec (c # cs) = (sid_vec cs)(csn_sid c \<mapsto> csn_ts c)"
  by (simp_all add: sid_vec_def)

lemma sid_vec_None: "sid_vec cs s = None \<longleftrightarrow> (\<forall>c\<in>set cs. csn_sid c \<noteq> s)"
  by (induction cs) auto

lemma sid_vec_append: "sid_vec (xs @ ys) = sid_vec ys ++ sid_vec xs"
  by (simp add: sid_vec_def)

lemma verify_loop_ok:
  assumes "env_ok e"
  shows "csns_ok e cs \<Longrightarrow> take (length cs) ss = map csn_sid cs \<Longrightarrow>
    (case prev of None \<Rightarrow> True | Some p \<Rightarrow> \<forall>c\<in>set cs. p < csn_sid c) \<Longrightarrow>
    cookie_verify_loop e prev cs ss = Some ()"
proof (induction cs arbitrary: prev ss)
  case (Cons c cs)
  then obtain ss' where ss: "ss = csn_sid c # ss'" "take (length cs) ss' = map csn_sid cs"
    by (cases ss) auto
  have "csn_ok c" using Cons.prems csn_valid_ok by auto
  then have "slap_csn_verify_full e (bv c) = Some True" "slap_csn_get_sid (bv c) = csn_sid c"
    "0 \<le> csn_sid c" "csn_sid c \<le> SLAP_SYNC_SID_MAX"
    using Cons.prems assms by (simp_all add: verify_full_bv get_sid_ok)
  with Cons ss show ?case
    by (simp add: ensure_def split: option.splits)
qed simp

lemma cookie_verify_ok: "cookie_inv e ck \<Longrightarrow> slap_cookie_verify e ck = Some ()"
  using verify_loop_ok [of e "ctxcsn ck" "sids ck" None]
  by (auto simp: cookie_inv_def slap_cookie_verify_def ensure_def)

lemma when_verify [simp]: "cookie_inv e ck \<Longrightarrow> when_check e (slap_cookie_verify e ck) = Some ()"
  by (simp add: cookie_verify_ok when_check_def)

text \<open>What the search finds: the entries before the index have smaller IDs, those from it on
  larger ones, or the hit itself.\<close>

lemma sid_scan_shift: "sid_scan s xs (Suc j) = (Suc (fst (sid_scan s xs j)), snd (sid_scan s xs j))"
  by (induction xs arbitrary: j) auto

lemma scan_split:
  assumes "csns_ok e cs" "sid_scan s (map csn_sid cs) 0 = (j, hit)"
  shows "\<exists>us vs. cs = us @ vs \<and> j = length us \<and> (\<forall>u\<in>set us. csn_sid u < s) \<and>
    (if hit then \<exists>d ws. vs = d # ws \<and> csn_sid d = s else \<forall>v\<in>set vs. s < csn_sid v)"
  using assms
proof (induction cs arbitrary: j)
  case (Cons c cs)
  show ?case
  proof (cases "csn_sid c < s")
    case True
    with Cons.prems obtain i where i: "sid_scan s (map csn_sid cs) 0 = (i, hit)" "j = Suc i"
      by (cases "sid_scan s (map csn_sid cs) 0") (auto simp: sid_scan_shift)
    then obtain us vs where "cs = us @ vs" "i = length us" "\<forall>u\<in>set us. csn_sid u < s"
      "if hit then \<exists>d ws. vs = d # ws \<and> csn_sid d = s else \<forall>v\<in>set vs. s < csn_sid v"
      using Cons by auto
    with True i show ?thesis by (intro exI [of _ "c # us"] exI [of _ vs]) auto
  next
    case False
    with Cons.prems show ?thesis
      by (intro exI [of _ "[]"] exI [of _ "c # cs"]) (auto split: if_splits)
  qed
qed auto


text \<open>The vector after one entry was replaced or inserted.\<close>

definition one :: "string \<Rightarrow> (int, string) vv" where
  "one c = [csn_sid c \<mapsto> csn_ts c]"

lemma sid_vec_Cons: "\<forall>d\<in>set cs. csn_sid c < csn_sid d \<Longrightarrow> sid_vec (c # cs) = vec_join (one c) (sid_vec cs)"
  by (auto simp: one_def vec_join_def fun_eq_iff sid_vec_None [THEN iffD2] split: option.splits)
    (metis less_irrefl option.distinct(1) sid_vec_None)

lemma put_forward:
  assumes "csns_ok e (us @ d # ws)" "csn_valid e c" "csn_sid c = csn_sid d"
  shows "csns_ok e (us @ c # ws)"
    "csn_ts d \<le> csn_ts c \<Longrightarrow> sid_vec (us @ c # ws) = vec_join (sid_vec (us @ d # ws)) (one c)"
    "csn_ts c \<le> csn_ts d \<Longrightarrow> sid_vec (us @ d # ws) = vec_join (sid_vec (us @ d # ws)) (one c)"
proof -
  show "csns_ok e (us @ c # ws)"
    using assms by (auto simp: csns_ok_append)
  have "sid_vec us (csn_sid d) = None"
    using assms by (auto simp: sid_vec_None csns_ok_append)
  then show "csn_ts d \<le> csn_ts c \<Longrightarrow> sid_vec (us @ c # ws) = vec_join (sid_vec (us @ d # ws)) (one c)"
    "csn_ts c \<le> csn_ts d \<Longrightarrow> sid_vec (us @ d # ws) = vec_join (sid_vec (us @ d # ws)) (one c)"
    using assms(3)
    by (auto simp: sid_vec_append one_def vec_join_def fun_eq_iff map_add_def max_def split: option.splits)
qed

lemma put_insert:
  assumes "csns_ok e (us @ vs)" "csn_valid e c" "\<forall>u\<in>set us. csn_sid u < csn_sid c" "\<forall>v\<in>set vs. csn_sid c < csn_sid v"
  shows "csns_ok e (us @ c # vs)" "sid_vec (us @ c # vs) = vec_join (sid_vec (us @ vs)) (one c)"
proof -
  show "csns_ok e (us @ c # vs)"
    using assms by (auto simp: csns_ok_append)
  have "sid_vec us (csn_sid c) = None" "sid_vec vs (csn_sid c) = None"
    using assms by (auto simp: sid_vec_None)
  then show "sid_vec (us @ c # vs) = vec_join (sid_vec (us @ vs)) (one c)"
    by (auto simp: sid_vec_append one_def vec_join_def fun_eq_iff map_add_def split: option.splits)
qed

text \<open>Updates of a cookie that keep its replica and server IDs.\<close>

definition cookie_upd :: "env \<Rightarrow> sync_cookie \<Rightarrow> (int, string) vv \<Rightarrow> sync_cookie \<Rightarrow> bool" where
  "cookie_upd e ck v ck' \<longleftrightarrow> cookie_inv e ck' \<and> cookie_vec ck' = vec_join (cookie_vec ck) v \<and>
     length (ctxcsn ck) \<le> length (ctxcsn ck') \<and> ck_rid ck' = ck_rid ck \<and> ck_sid ck' = ck_sid ck"

lemma cookie_upd_inv: "cookie_upd e ck v ck' \<Longrightarrow> cookie_inv e ck'"
  by (simp add: cookie_upd_def)

lemma cookie_upd_trans: "cookie_upd e a v b \<Longrightarrow> cookie_upd e b w c \<Longrightarrow> cookie_upd e a (vec_join v w) c"
  by (auto simp: cookie_upd_def vec_join_assoc)

lemma cookie_upd_refl: "cookie_inv e a \<Longrightarrow> cookie_upd e a (\<lambda>_. None) a"
  by (auto simp: cookie_upd_def vec_join_def fun_eq_iff split: option.splits)

lemma cookie_scan_eq: "cookie_inv e ck \<Longrightarrow> cookie_scan ck s = sid_scan s (map csn_sid (ctxcsn ck)) 0"
  by (simp add: cookie_scan_def cookie_inv_def)

lemma insert_ok:
  assumes inv: "cookie_inv e ck" and c: "csn_valid e c" and scan: "cookie_scan ck (csn_sid c) = (j, False)"
  shows "runs (slap_insert_csn_sids e ck j (csn_sid c) c)
    (\<lambda>ck'. cookie_upd e ck (one c) ck' \<and> j < length (ctxcsn ck'))"
proof -
  obtain us vs where cs: "ctxcsn ck = us @ vs" "j = length us" "\<forall>u\<in>set us. csn_sid u < csn_sid c"
      "\<forall>v\<in>set vs. csn_sid c < csn_sid v"
    using scan_split [of e "ctxcsn ck" "csn_sid c" j False] inv scan
    by (auto simp: cookie_scan_eq cookie_inv_def)
  define ck' where "ck' = ck\<lparr>numcsns := numcsns ck + 1, ctxcsn := insert_at j c (ctxcsn ck),
     sids := insert_at j (csn_sid c) (take (numcsns ck) (sids ck))\<rparr>"
  have "csns_ok e (us @ vs)" using inv cs by (simp add: cookie_inv_def)
  note p = put_insert [OF this c cs(3,4)]
  have "cookie_inv e ck'"
    using inv cs p(1) by (simp add: ck'_def cookie_inv_def insert_at_def)
  moreover have "cookie_vec ck' = vec_join (cookie_vec ck) (one c)"
    using cs p(2) by (simp add: cookie_vec_def ck'_def insert_at_def)
  ultimately have "cookie_upd e ck (one c) ck'" "j < length (ctxcsn ck')"
    using cs by (simp_all add: cookie_upd_def ck'_def insert_at_def)
  then show ?thesis
    unfolding slap_insert_csn_sids_def Let_def ck'_def [symmetric]
    by (simp add: wp cookie_verify_ok cookie_upd_inv)
qed

lemma forward_ok:
  assumes inv: "cookie_inv e ck" and c: "csn_valid e c" and scan: "cookie_scan ck (csn_sid c) = (j, True)"
  shows "\<exists>d. nth_csn ck j = Some d \<and> j < length (ctxcsn ck) \<and> csn_sid d = csn_sid c \<and> csn_valid e d \<and>
    (csn_ts d < csn_ts c \<longrightarrow> cookie_upd e ck (one c) (ck\<lparr>ctxcsn := (ctxcsn ck)[j := c]\<rparr>)) \<and>
    (csn_ts c \<le> csn_ts d \<longrightarrow> cookie_upd e ck (one c) ck)"
proof -
  obtain us d ws where cs: "ctxcsn ck = us @ d # ws" "j = length us" "csn_sid d = csn_sid c"
    using scan_split [of e "ctxcsn ck" "csn_sid c" j True] inv scan
    by (auto simp: cookie_scan_eq cookie_inv_def)
  have ok: "csns_ok e (us @ d # ws)" using inv cs by (simp add: cookie_inv_def)
  note p = put_forward [OF ok c cs(3) [symmetric]]
  have "csn_valid e d" using csns_ok_mem [OF ok] by simp
  moreover have "cookie_upd e ck (one c) (ck\<lparr>ctxcsn := (ctxcsn ck)[j := c]\<rparr>)" if "csn_ts d < csn_ts c"
    using inv cs p(1,2) that by (simp add: cookie_upd_def cookie_inv_def cookie_vec_def)
  moreover have "cookie_upd e ck (one c) ck" if "csn_ts c \<le> csn_ts d"
    using inv cs p(3) that by (simp add: cookie_upd_def cookie_vec_def)
  ultimately show ?thesis
    using cs by (auto simp: nth_csn_def)
qed

lemma lead_upd_ok:
  assumes "cookie_inv e ck" "j < length (ctxcsn ck)" "pred_option (\<lambda>l. l < length (ctxcsn ck)) lead"
  shows "runs (lead_upd e ck j lead) (\<lambda>l. pred_option (\<lambda>l. l < length (ctxcsn ck)) l \<and> l \<noteq> None)"
proof -
  have ok: "csn_ok (ctxcsn ck ! i)" if "i < length (ctxcsn ck)" for i
    using assms(1) csn_valid_ok [OF csns_ok_mem [OF _ nth_mem [OF that]]] by (auto simp: cookie_inv_def)
  show ?thesis
    using assms ok by (cases lead) (simp_all add: lead_upd_def wp nth_csn_def compare_ts_cmp)
qed

lemma notify_bd_ok:
  assumes "pred_option backend_inv bd" "csn_ok c"
  shows "runs (notify_bd e bd (csn_sid c)) (\<lambda>bd'. pred_option backend_inv bd' \<and> (bd' = None \<longleftrightarrow> bd = None))"
  using assms quorum_notify_csn_inv [of "the bd" "csn_sid c" e] get_sid_ok [of c]
  by (cases bd) (auto simp: notify_bd_def wp elim: runs_mono)


text \<open>Merging.\<close>

definition merged :: "env \<Rightarrow> sync_cookie \<Rightarrow> (int, string) vv \<Rightarrow> backend option \<Rightarrow>
    sync_cookie \<times> backend option \<times> 'a \<Rightarrow> bool" where
  "merged e ck v bd r \<longleftrightarrow> cookie_upd e ck v (fst r) \<and> pred_option backend_inv (fst (snd r)) \<and>
     (fst (snd r) = None \<longleftrightarrow> bd = None)"

lemma merge_loop_ok:
  assumes "cookie_inv e dst" "csns_ok e cs" "pred_option backend_inv bd"
    "pred_option (\<lambda>l. l < length (ctxcsn dst)) lead"
  shows "runs (cookie_merge_loop e bd dst lead (map csn_sid cs) cs) (merged e dst (sid_vec cs) bd)"
  using assms
proof (induction cs arbitrary: dst bd lead)
  case Nil
  then show ?case by (simp add: wp merged_def cookie_upd_refl)
next
  case (Cons c cs)
  have c: "csn_valid e c" "csn_ok c" and cs: "csns_ok e cs" "\<forall>d\<in>set cs. csn_sid c < csn_sid d"
    using Cons.prems(2) csn_valid_ok by auto
  have rest: "runs (cookie_merge_loop e bd' dst' lead' (map csn_sid cs) cs) (merged e dst (sid_vec (c # cs)) bd)"
    if "cookie_upd e dst (one c) dst'" "pred_option backend_inv bd'" "bd' = None \<longleftrightarrow> bd = None"
      "pred_option (\<lambda>l. l < length (ctxcsn dst')) lead'" for dst' bd' lead'
    using Cons.IH [OF cookie_upd_inv [OF that(1)] cs(1) that(2,4)] that(1,3) sid_vec_Cons [OF cs(2)]
    by (auto simp: merged_def elim!: runs_mono intro: cookie_upd_trans simp del: sid_vec_simps)
  obtain j hit where scan: "cookie_scan dst (csn_sid c) = (j, hit)" by fastforce
  show ?case
  proof (cases hit)
    case True
    with scan have "cookie_scan dst (csn_sid c) = (j, True)" by simp
    from forward_ok [OF Cons.prems(1) c(1) this]
    obtain d where d: "nth_csn dst j = Some d" "j < length (ctxcsn dst)" "csn_sid d = csn_sid c" "csn_valid e d"
        "csn_ts d < csn_ts c \<longrightarrow> cookie_upd e dst (one c) (dst\<lparr>ctxcsn := (ctxcsn dst)[j := c]\<rparr>)"
        "csn_ts c \<le> csn_ts d \<longrightarrow> cookie_upd e dst (one c) dst"
      by blast
    have lead: "runs (lead_upd e (dst\<lparr>ctxcsn := (ctxcsn dst)[j := c]\<rparr>) j lead)
        (\<lambda>l. pred_option (\<lambda>l. l < length (ctxcsn dst)) l \<and> l \<noteq> None)" if "csn_ts d < csn_ts c"
      using lead_upd_ok [OF cookie_upd_inv, of e dst "one c" "dst\<lparr>ctxcsn := (ctxcsn dst)[j := c]\<rparr>" j lead]
        d Cons.prems(4) that by simp
    show ?thesis
      using d c csn_valid_ok [OF d(4)] Cons.prems rest
      by (auto simp: scan True wp Let_def compare_ts_cmp not_less simp del: sid_vec_simps
          intro!: runs_mono [OF lead] rest)
  next
    case False
    show ?thesis
      unfolding list.map cookie_merge_loop.simps scan Let_def prod.case runs_bind if_not_P [OF False]
    proof (rule runs_mono [OF insert_ok [OF Cons.prems(1) c(1)]])
      show "cookie_scan dst (csn_sid c) = (j, False)" using scan False by simp
    next
      fix dst' assume dst': "cookie_upd e dst (one c) dst' \<and> j < length (ctxcsn dst')"
      then have lead: "pred_option (\<lambda>l. l < length (ctxcsn dst')) lead"
        using Cons.prems(4) by (cases lead) (auto simp: cookie_upd_def)
      show "runs (notify_bd e bd (csn_sid c)) (\<lambda>bd'. runs (lead_upd e dst' j lead)
          (\<lambda>lead'. runs (cookie_merge_loop e bd' dst' lead' (map csn_sid cs) cs) (merged e dst (sid_vec (c # cs)) bd)))"
        using dst' by (intro runs_mono [OF notify_bd_ok [OF Cons.prems(3) c(2)]]
            runs_mono [OF lead_upd_ok [OF cookie_upd_inv _ lead]] rest) auto
    qed
  qed
qed


lemma cookie_merge_ok:
  assumes "cookie_inv e dst" "cookie_inv e src" "pred_option backend_inv bd"
  shows "runs (slap_cookie_merge e bd dst src) (merged e dst (cookie_vec src) bd)"
proof -
  have len: "length (ctxcsn src) \<le> length (sids src)"
  proof -
    have "length (take (length (ctxcsn src)) (sids src)) = length (ctxcsn src)"
      using assms(2) by (simp add: cookie_inv_def del: length_take)
    then show ?thesis by simp
  qed
  have "runs (cookie_merge_loop e bd dst None (map csn_sid (ctxcsn src)) (ctxcsn src))
      (merged e dst (cookie_vec src) bd)"
    using merge_loop_ok [OF assms(1) _ assms(3), of "ctxcsn src" None] assms(2)
    by (simp add: cookie_inv_def cookie_vec_def)
  moreover have "runs (when_check e (if lead = None then Some () else slap_cookie_verify e ck)) (\<lambda>_. True)"
    if "cookie_inv e ck" for ck and lead :: "nat option"
    using that by (simp add: wp cookie_verify_ok)
  ultimately show ?thesis
    using assms(1,2) len
    by (auto simp: slap_cookie_merge_def wp cookie_verify_ok case_prod_beta cookie_inv_def [of e src] merged_def
        cookie_upd_inv elim!: runs_mono)
qed

definition cookie_merge :: "env \<Rightarrow> sync_cookie \<Rightarrow> sync_cookie \<Rightarrow> sync_cookie option" where
  "cookie_merge e dst src = map_option fst (slap_cookie_merge e None dst src)"

interpretation cookies: replica_vector "cookie_inv e" cookie_vec "cookie_merge e" for e
proof
  fix a b
  assume "cookie_inv e a" "cookie_inv e b"
  then have "runs (slap_cookie_merge e None a b) (merged e a (cookie_vec b) None)"
    by (intro cookie_merge_ok) simp_all
  then show "\<exists>c. cookie_merge e a b = Some c \<and> cookie_inv e c \<and> cookie_vec c = vec_join (cookie_vec a) (cookie_vec b)"
    by (auto simp: runs_def cookie_merge_def merged_def cookie_upd_def)
qed

text \<open>Single CSNs and sets of them.\<close>

lemma scan_vec:
  assumes inv: "cookie_inv e ck" and scan: "cookie_scan ck s = (j, hit)"
  shows "cookie_vec ck s = (if hit then map_option csn_ts (nth_csn ck j) else None)"
proof -
  obtain us vs where cs: "ctxcsn ck = us @ vs" "j = length us" "\<forall>u\<in>set us. csn_sid u < s"
      "if hit then \<exists>d ws. vs = d # ws \<and> csn_sid d = s else \<forall>v\<in>set vs. s < csn_sid v"
    using scan_split [of e "ctxcsn ck" s j hit] inv scan
    by (auto simp: cookie_scan_eq cookie_inv_def)
  then have u: "sid_vec us s = None" by (auto simp: sid_vec_None)
  show ?thesis
  proof (cases hit)
    case True
    then obtain d ws where "vs = d # ws" "csn_sid d = s" using cs by auto
    with u cs True show ?thesis
      by (auto simp: cookie_vec_def sid_vec_append map_add_def nth_csn_def)
  next
    case False
    then have "sid_vec vs s = None" using cs by (auto simp: sid_vec_None)
    with u cs False show ?thesis
      by (simp add: cookie_vec_def sid_vec_append map_add_def)
  qed
qed

lemma join_one:
  "v = vec_join v (one c) \<longleftrightarrow> (\<exists>t. v (csn_sid c) = Some t \<and> csn_ts c \<le> t)"
  by (auto simp: one_def vec_join_def fun_eq_iff max_def split: option.splits if_splits)

lemma merge_csn_ok:
  assumes inv: "cookie_inv e dst" and c: "csn_valid e c" and bd: "pred_option backend_inv bd"
    and sid: "sid < 0 \<or> sid = csn_sid c"
  shows "runs (slap_cookie_merge_csn e bd dst sid c)
    (\<lambda>r. merged e dst (one c) bd r \<and> (0 < snd (snd r) \<longleftrightarrow> cookie_vec dst \<noteq> vec_join (cookie_vec dst) (one c)))"
proof -
  have e: "env_ok e" and ok: "csn_ok c" using inv c csn_valid_ok by (auto simp: cookie_inv_def)
  have s: "(if sid < 0 then slap_csn_get_sid (bv c) else sid) = csn_sid c" "0 \<le> csn_sid c"
    using sid get_sid_ok [OF ok] by auto
  obtain j hit where scan: "cookie_scan dst (csn_sid c) = (j, hit)" by fastforce
  note vec = scan_vec [OF inv scan]
  have body: "slap_cookie_merge_csn e bd dst sid c =
     (if hit then do {
           d \<leftarrow> nth_csn dst j;
           vector \<leftarrow> slap_csn_compare_ts e (bv c) (bv d);
           Some (if 0 < vector then dst\<lparr>ctxcsn := (ctxcsn dst)[j := c]\<rparr> else dst, bd, vector) }
         else do {
           dst \<leftarrow> slap_insert_csn_sids e dst j (csn_sid c) c;
           bd \<leftarrow> notify_bd e bd (csn_sid c);
           Some (dst, bd, 1) })"
    using s(2) c e inv by (simp add: slap_cookie_merge_csn_def s(1) scan verify_full_bv Let_def)
  show ?thesis
  proof (cases hit)
    case True
    with scan have "cookie_scan dst (csn_sid c) = (j, True)" by simp
    from forward_ok [OF inv c this]
    obtain d where d: "nth_csn dst j = Some d" "csn_valid e d"
        "csn_ts d < csn_ts c \<longrightarrow> cookie_upd e dst (one c) (dst\<lparr>ctxcsn := (ctxcsn dst)[j := c]\<rparr>)"
        "csn_ts c \<le> csn_ts d \<longrightarrow> cookie_upd e dst (one c) dst"
      by blast
    then show ?thesis
      using True bd vec ok csn_valid_ok [OF d(2)]
      by (auto simp: body wp compare_ts_cmp merged_def join_one)
  next
    case False
    have v: "cookie_vec dst \<noteq> vec_join (cookie_vec dst) (one c)"
      using vec False by (simp add: join_one)
    show ?thesis
      unfolding body if_not_P [OF False] runs_bind
      by (rule runs_mono [OF insert_ok [OF inv c]], use scan False in simp,
          rule runs_mono [OF notify_bd_ok [OF bd ok]], use v in \<open>simp add: wp merged_def\<close>)
  qed
qed

lemma merge_csn_invalid:
  "env_ok e \<Longrightarrow> \<not> csn_valid e c \<Longrightarrow> slap_cookie_merge_csn e bd dst sid c = Some (dst, bd, - 1)"
  by (simp add: slap_cookie_merge_csn_def verify_full_bv)

text \<open>The vector of a set of CSNs, invalid ones left out.\<close>

fun csnset_vec :: "env \<Rightarrow> string list \<Rightarrow> (int, string) vv" where
  "csnset_vec e [] = (\<lambda>_. None)"
| "csnset_vec e (c # cs) = (if csn_valid e c then vec_join (one c) (csnset_vec e cs) else csnset_vec e cs)"

lemma join_none [simp]: "vec_join v (\<lambda>_. None) = v" "vec_join (\<lambda>_. None) v = v"
  by (auto simp: vec_join_def fun_eq_iff split: option.splits)

lemma join_grows: "v = vec_join v (vec_join a b) \<longleftrightarrow> v = vec_join v a \<and> vec_join v a = vec_join (vec_join v a) b"
  by (metis vec_join_assoc vec_join_comm vec_join_left_idem)

lemma merge_csns_ok:
  assumes "cookie_inv e dst" "list_all strlen_ok cs" "pred_option backend_inv bd"
  shows "runs (cookie_merge_csns e bd dst rc cs) (\<lambda>r. merged e dst (csnset_vec e cs) bd r \<and>
    (0 < snd (snd r) \<longleftrightarrow> 0 < rc \<or> cookie_vec dst \<noteq> vec_join (cookie_vec dst) (csnset_vec e cs)))"
  using assms
proof (induction cs arbitrary: dst bd rc)
  case Nil
  then show ?case by (simp add: wp merged_def cookie_upd_refl)
next
  case (Cons c cs)
  show ?case
  proof (cases "csn_valid e c")
    case False
    have "runs (cookie_merge_csns e bd dst (if rc = 0 then - 1 else rc) cs) (\<lambda>r. merged e dst (csnset_vec e cs) bd r \<and>
      (0 < snd (snd r) \<longleftrightarrow> 0 < (if rc = 0 then - 1 else rc) \<or> cookie_vec dst \<noteq> vec_join (cookie_vec dst) (csnset_vec e cs)))"
      by (rule Cons.IH) (use Cons.prems in auto)
    then show ?thesis
      using False Cons.prems by (auto simp: wp merge_csn_invalid cookie_inv_def elim!: runs_mono)
  next
    case True
    show ?thesis
      unfolding cookie_merge_csns.simps runs_bind runs_assert_that
    proof (intro conjI impI, use Cons.prems in simp, rule runs_mono [OF merge_csn_ok [OF Cons.prems(1) True Cons.prems(3)]], simp)
      fix r :: "sync_cookie \<times> backend option \<times> int"
      obtain d b v where r: "r = (d, b, v)" by (cases r)
      assume m: "merged e dst (one c) bd r \<and> (0 < snd (snd r) \<longleftrightarrow> cookie_vec dst \<noteq> vec_join (cookie_vec dst) (one c))"
      define rc' where "rc' = (if 0 < v then v else if rc = 0 then v else rc)"
      have up: "cookie_upd e dst (one c) d" and b: "pred_option backend_inv b" "b = None \<longleftrightarrow> bd = None"
        and v: "0 < v \<longleftrightarrow> cookie_vec dst \<noteq> vec_join (cookie_vec dst) (one c)"
        using m r by (auto simp: merged_def)
      have vec: "cookie_vec d = vec_join (cookie_vec dst) (one c)" using up by (simp add: cookie_upd_def)
      have "runs (cookie_merge_csns e b d rc' cs) (\<lambda>r. merged e d (csnset_vec e cs) b r \<and>
          (0 < snd (snd r) \<longleftrightarrow> 0 < rc' \<or> cookie_vec d \<noteq> vec_join (cookie_vec d) (csnset_vec e cs)))"
        by (rule Cons.IH) (use up b Cons.prems in \<open>auto dest: cookie_upd_inv\<close>)
      moreover have "0 < rc' \<longleftrightarrow> 0 < rc \<or> 0 < v" by (auto simp: rc'_def)
      ultimately show "runs (case r of (dst, bd, vector) \<Rightarrow>
            cookie_merge_csns e bd dst (if 0 < vector then vector else if rc = 0 then vector else rc) cs)
          (\<lambda>r. merged e dst (csnset_vec e (c # cs)) bd r \<and>
            (0 < snd (snd r) \<longleftrightarrow> 0 < rc \<or> cookie_vec dst \<noteq> vec_join (cookie_vec dst) (csnset_vec e (c # cs))))"
        using True up b v unfolding r prod.case rc'_def [symmetric]
        by (auto simp: merged_def join_grows vec elim!: runs_mono intro: cookie_upd_trans)
    qed
  qed
qed

lemma compare_csn_ok:
  assumes inv: "cookie_inv e ck" and c: "csn_valid e c"
  shows "\<exists>r. slap_cookie_compare_csn e ck c = Some r \<and>
    (0 < r \<longleftrightarrow> cookie_vec ck \<noteq> vec_join (cookie_vec ck) (one c)) \<and> (r = 0 \<longleftrightarrow> cookie_vec ck (csn_sid c) = Some (csn_ts c))"
proof -
  have e: "env_ok e" and ok: "csn_ok c" using inv c csn_valid_ok by (auto simp: cookie_inv_def)
  obtain j hit where scan: "cookie_scan ck (csn_sid c) = (j, hit)" by fastforce
  note vec = scan_vec [OF inv scan]
  show ?thesis
  proof (cases hit)
    case True
    with scan have "cookie_scan ck (csn_sid c) = (j, True)" by simp
    from forward_ok [OF inv c this] obtain d where "nth_csn ck j = Some d" "csn_valid e d" by blast
    with True vec scan show ?thesis
      using c e ok csn_valid_ok [of e d] get_sid_ok [OF ok]
      by (auto simp: slap_cookie_compare_csn_def verify_full_bv compare_ts_cmp join_one)
  next
    case False
    with vec scan c e get_sid_ok [OF ok] show ?thesis
      by (simp add: slap_cookie_compare_csn_def verify_full_bv join_one)
  qed
qed

end
