(* ===== verification/Cookie_Text.thy ===== *)
theory Cookie_Text
  imports Sync_Cookie
begin

text \<open>
  The text form of a cookie, \<^verbatim>\<open>slap_cookie_compose\<close> and \<^verbatim>\<open>slap_cookie_parse\<close> of
  \<^verbatim>\<open>servers/slapd/ldapsync.c\<close>: \<^verbatim>\<open>rid=001,sid=00a,csn=...;...\<close>. The parser works on a
  berval whose bytes may go on past its length; a CSN token is a berval into the middle of the
  cookie, so what follows its 40 bytes is visible to the CSN checks. The schema's entryCSN
  attribute brings the validator and the normaliser of \<open>Csn_Schema\<close>; \<open>ad\<close> says whether the schema
  is loaded. The result of a sub-parser is \<open>None\<close> for an abort, \<open>Some None\<close> for
  \<^verbatim>\<open>goto bailout\<close>.
\<close>

section \<open>Definitions\<close>

text \<open>The text before the CSNs is printed into \<^verbatim>\<open>char buf[32]\<close>; a longer one is cut, and the final
  length assertion fails.\<close>

definition compose_head :: "int \<Rightarrow> int \<Rightarrow> bool \<Rightarrow> string" where
  "compose_head rid sid csns =
     (let h = (if 0 \<le> rid then ''rid='' @ padded 10 3 rid else []);
          h = (if 0 \<le> sid then h @ (if h = [] then [] else '','') @ ''sid='' @ padded 16 3 sid else h)
      in if csns then h @ (if h = [] then [] else '','') @ ''csn='' else h)"

fun compose_csns :: "string list \<Rightarrow> string" where
  "compose_csns [] = []"
| "compose_csns [c] = c"
| "compose_csns (c # cs) = c @ '';'' @ compose_csns cs"

definition slap_cookie_compose :: "env \<Rightarrow> string list \<Rightarrow> int \<Rightarrow> int \<Rightarrow> string option" where
  "slap_cookie_compose e csns rid sid = do {
     let head = compose_head rid sid (csns \<noteq> []);
     assert_that e (list_all strlen_ok csns);
     ensure (length head < 32);
     Some (head @ compose_csns csns) }"

definition old_csn :: string where
  "old_csn = ''19000101000000.000000Z#000000#000#000000''"

text \<open>One CSN token: validation and normalisation by the schema, then verification; outside strict
  mode a bad one is replaced.\<close>

definition parse_csn :: "env \<Rightarrow> bool \<Rightarrow> berval \<Rightarrow> string option option" where
  "parse_csn e ad csn = do {
     csn \<leftarrow> (if ad then do {
               ok \<leftarrow> csnValidate e csn;
               if ok then do {
                 s \<leftarrow> bv_bytes csn;
                 n \<leftarrow> csnNormalize e s;
                 Some (case n of Inl _ \<Rightarrow> csn | Inr r \<Rightarrow> bv r) }
               else Some csn }
             else Some csn);
     ok \<leftarrow> slap_csn_verify_full e csn;
     if \<not> ok then Some (if env_strict e then None else Some old_csn)
     else do { s \<leftarrow> bv_bytes csn; Some (Some s) } }"

definition is_sep :: "char \<Rightarrow> bool" where
  "is_sep c \<longleftrightarrow> c = CHR '';'' \<or> c = CHR '',''"

text \<open>The \<^verbatim>\<open>do ... while (next < end)\<close> loop: \<open>r\<close> is the text from \<^verbatim>\<open>next\<close> on and \<open>k\<close> is
  \<^verbatim>\<open>end - next\<close>.\<close>

function parse_csns :: "env \<Rightarrow> bool \<Rightarrow> string \<Rightarrow> nat \<Rightarrow> string list option option" where
  "parse_csns e ad r k = (
     let tok = takeWhile (\<lambda>c. \<not> is_sep c) r;
         found = length tok < length r;
         len = (if found then length tok else k)
     in do {
       c \<leftarrow> parse_csn e ad \<lparr>bv_len = len, bv_val = r\<rparr>;
       (case c of
          None \<Rightarrow> Some None
        | Some c \<Rightarrow>
            if found \<and> length tok + 1 < k then do {
              cs \<leftarrow> parse_csns e ad (drop (length tok + 1) r) (k - (length tok + 1));
              Some (map_option (Cons c) cs) }
            else Some (Some [c])) })"
  by pat_completeness auto
termination
  by (relation "measure (\<lambda>(e, ad, r, k). k)") auto

text \<open>\<^verbatim>\<open>strntoi\<close> after a three-letter key: the number and how far \<^verbatim>\<open>next\<close> moved, or a bailout.\<close>

definition parse_number :: "int \<Rightarrow> int \<Rightarrow> string \<Rightarrow> nat \<Rightarrow> (int \<times> nat) option" where
  "parse_number base limit r k =
     (let a = drop 4 r; (v, m) = strntoi a (k - 4) base; c = byte a m
      in if m = 0 \<or> (c \<noteq> NUL \<and> c \<noteq> CHR '','') \<or> v < 0 \<or> limit < v then None
         else Some (v, 4 + m + (if c = CHR '','' then 1 else 0)))"

function cookie_parse_loop ::
  "env \<Rightarrow> bool \<Rightarrow> sync_cookie \<Rightarrow> string \<Rightarrow> nat \<Rightarrow> sync_cookie option option" where
  "cookie_parse_loop e ad dst r k = (
     if k = 0 then Some (Some dst)
     else if take 4 r = ''rid='' then
       (case parse_number 10 SLAP_SYNC_RID_MAX r k of
          None \<Rightarrow> Some None
        | Some (v, n) \<Rightarrow> cookie_parse_loop e ad (dst\<lparr>ck_rid := v\<rparr>) (drop n r) (k - n))
     else if take 4 r = ''sid='' then
       (case parse_number 16 SLAP_SYNC_SID_MAX r k of
          None \<Rightarrow> Some None
        | Some (v, n) \<Rightarrow> cookie_parse_loop e ad (dst\<lparr>ck_sid := v\<rparr>) (drop n r) (k - n))
     else if take 4 r = ''csn='' then do {
       ensure (4 \<le> k);
       cs \<leftarrow> parse_csns e ad (drop 4 r) (k - 4);
       Some (map_option (\<lambda>cs. dst\<lparr>ctxcsn := ctxcsn dst @ cs, numcsns := numcsns dst + length cs\<rparr>) cs) }
     else if take 1 r = '' '' then cookie_parse_loop e ad dst (drop 1 r) (k - 1)
     else Some None)"
  by pat_completeness auto
termination
  by (relation "measure (\<lambda>(e, ad, dst, r, k). k)")
    (auto simp: parse_number_def Let_def case_prod_beta split: if_splits)

declare parse_csns.simps [simp del] cookie_parse_loop.simps [simp del]

definition cookie_bailout :: "sync_cookie \<Rightarrow> (sync_cookie \<times> int) option" where
  "cookie_bailout dst = Some (slap_cookie_free_x dst, LDAP_PROTOCOL_ERROR)"

definition slap_cookie_parse ::
  "env \<Rightarrow> bool \<Rightarrow> sync_cookie \<Rightarrow> berval option \<Rightarrow> (sync_cookie \<times> int) option" where
  "slap_cookie_parse e ad dst src = (
     let dst = slap_cookie_clean_all dst
     in case src of
       None \<Rightarrow> Some (dst, LDAP_SUCCESS)
     | Some src \<Rightarrow>
         if bv_len src = 0 then Some (dst, LDAP_SUCCESS)
         else if bv_len src \<le> 4 then cookie_bailout dst
         else if length (bv_val src) < bv_len src then cookie_bailout dst
         else do {
           r \<leftarrow> cookie_parse_loop e ad dst (bv_val src) (bv_len src);
           (case r of
              None \<Rightarrow> cookie_bailout dst
            | Some dst \<Rightarrow>
                if ck_rid dst < 0 then cookie_bailout dst
                else if numcsns dst = 0 then Some (dst, LDAP_SUCCESS)
                else do {
                  vs \<leftarrow> slap_csns_validate_and_sort e (ctxcsn dst);
                  if numcsns dst = length vs then do {
                    let dst = dst\<lparr>ctxcsn := vs, sids := slap_csns_parse_sids vs\<rparr>;
                    when_check e (slap_cookie_verify e dst);
                    Some (dst, LDAP_SUCCESS) }
                  else cookie_bailout dst }) })"

section \<open>Reading a composed cookie back\<close>

lemma alnum_xdigit: "digit_below b c \<Longrightarrow> alnum_digit c = xdigit c \<and> 0 \<le> the (xdigit c) \<and> the (xdigit c) < b"
  by (auto simp: digit_below_def alnum_digit_def xdigit_def isdigit_def is_upper_hex_def is_lower_hex_def
      less_eq_char_code code_def split: if_splits)

lemma foldl_digits_mono:
  fixes b acc :: int
  assumes "list_all (digit_below b) ds" "1 \<le> b" "0 \<le> acc"
  shows "acc \<le> foldl (\<lambda>r c. r * b + the (xdigit c)) acc ds"
  using assms
proof (induction ds arbitrary: acc)
  case (Cons c ds)
  have d: "0 \<le> the (xdigit c)" using Cons.prems(1) alnum_xdigit by auto
  have "acc * 1 \<le> acc * b" using Cons.prems by (intro mult_left_mono) auto
  then have "acc \<le> acc * b + the (xdigit c)" using d by simp
  also have "\<dots> \<le> foldl (\<lambda>r c. r * b + the (xdigit c)) (acc * b + the (xdigit c)) ds"
    using Cons d \<open>acc \<le> acc * b + the (xdigit c)\<close> by auto
  finally show ?case by simp
qed simp

lemma strntoi_loop_digits:
  fixes b acc :: int
  assumes "list_all (digit_below b) ds" "1 \<le> b" "0 \<le> acc" "length ds \<le> n"
    "foldl (\<lambda>r c. r * b + the (xdigit c)) acc ds < 2 ^ 31"
    "r = [] \<or> alnum_digit (hd r) = None"
  shows "strntoi_loop b (ds @ r) n acc k = (foldl (\<lambda>r c. r * b + the (xdigit c)) acc ds, k + length ds)"
  using assms
proof (induction ds arbitrary: acc n k)
  case Nil
  then show ?case by (cases r; cases n) auto
next
  case (Cons c ds)
  then obtain m where n: "n = Suc m" "length ds \<le> m" by (cases n) auto
  let ?acc = "acc * b + the (xdigit c)"
  have d: "alnum_digit c = Some (the (xdigit c))" "0 \<le> the (xdigit c)" "the (xdigit c) < b"
    using Cons.prems(1) alnum_xdigit [of b c] by (auto simp: digit_below_def split: option.splits)
  have "acc * 1 \<le> acc * b" using Cons.prems by (intro mult_left_mono) auto
  then have acc: "acc \<le> ?acc" using d by simp
  moreover have "?acc < 2 ^ 31"
    using foldl_digits_mono [of b ds ?acc] Cons.prems acc by simp
  ultimately have "int32 (the (xdigit c) + acc * b) = ?acc"
    using Cons.prems by (simp add: add.commute)
  with d acc Cons n show ?case by (simp add: Let_def)
qed

lemma strntoi_digits:
  assumes "list_all (digit_below b) ds" "1 \<le> b" "length ds \<le> n" "xvalue b ds < 2 ^ 31"
    "r = [] \<or> alnum_digit (hd r) = None"
  shows "strntoi (ds @ r) n b = (xvalue b ds, length ds)"
  using strntoi_loop_digits [of b ds 0 n r 0] assms by (simp add: strntoi_def xvalue_def)

lemma alnum_comma: "alnum_digit (CHR '','') = None"
  by code_simp

lemma parse_number_padded:
  assumes v: "0 \<le> v" "v \<le> limit" "limit < 2 ^ 31" and b: "2 \<le> b" "b \<le> 16" and w: "v < b ^ 3"
    and r: "r = [] \<or> hd r = CHR '',''" and k: "k = 4 + 3 + length r" and key: "length key = 4"
  shows "parse_number b limit (key @ padded b 3 v @ r) k = Some (v, 7 + (if r = [] then 0 else 1))"
proof -
  have p: "xvalue b (padded b 3 v) = v" "list_all (digit_below b) (padded b 3 v)" "length (padded b 3 v) = 3"
    using padded_spec [OF v(1) b, of 3] length_padded [of b v 3] v b w by simp_all
  have "strntoi (padded b 3 v @ r) (k - 4) b = (v, 3)"
    using strntoi_digits [OF p(2), of "k - 4" r] p b v k r alnum_comma by (cases r) auto
  moreover have "byte (padded b 3 v @ r) 3 = (if r = [] then NUL else CHR '','')"
    using p(3) r by (cases r) (auto simp: byte_def nth_append)
  ultimately show ?thesis
    using v key by (simp add: parse_number_def)
qed


text \<open>A CSN inside a cookie is followed by the rest of the cookie. The time comparison of strict mode
  asserts that byte 40 is the terminator, so there it must be the last one.\<close>

definition last_or_lax :: "env \<Rightarrow> string \<Rightarrow> bool" where
  "last_or_lax e r \<longleftrightarrow> r = [] \<or> \<not> (env_strict e \<and> env_assert e)"

lemma verify_full_prefix:
  assumes "env_ok e" "csn_valid e c" "last_or_lax e r"
  shows "slap_csn_verify_full e \<lparr>bv_len = 40, bv_val = c @ r\<rparr> = Some True"
proof (cases "r = []")
  case True
  then show ?thesis
    using verify_full_bv [OF assms(1), of c] assms(2) csn_ok_length [OF csn_valid_ok [OF assms(2)]]
    by (simp add: bv_def)
next
  case False
  have ok: "csn_ok c" and now: "csn_ok (env_now e)" using assms csn_valid_ok by (auto simp: env_ok_def)
  have "map (byte (c @ r)) [0..<40] = c"
    by (rule nth_equalityI) (use csn_ok_length [OF ok] in \<open>auto simp: byte_def nth_append\<close>)
  moreover have "slap_csn_compare_ts e (bv (env_now e)) \<lparr>bv_len = 40, bv_val = c @ r\<rparr> = Some (cmp (csn_ts (env_now e)) (csn_ts c))"
    if "env_strict e"
    using assms(3) False that ok now
    by (simp add: last_or_lax_def slap_csn_compare_ts_def assert_that_def memcmp_n_cmp csn_ok_length csn_ts_def cmp_append)
  ultimately show ?thesis
    using ok assms(2) by (simp add: slap_csn_verify_full_def csn_ok_def [symmetric] memcmp_n_cmp csn_ok_length
        csn_valid_def not_less) (auto simp: csn_ok_def not_less)
qed

lemma parse_csn_ok:
  assumes "env_ok e" "csn_valid e c" "csn_normal c" "last_or_lax e r"
  shows "parse_csn e ad \<lparr>bv_len = 40, bv_val = c @ r\<rparr> = Some (Some c)"
proof -
  have ok: "csn_ok c" using assms csn_normal_ok by blast
  have b: "bv_bytes \<lparr>bv_len = 40, bv_val = c @ r\<rparr> = Some c" "bv_bytes (bv c) = Some c"
    using csn_ok_length [OF ok] by (simp_all add: bv_bytes_def)
  have n: "csnNormalize e c = Some (Inr c)"
    using csnNormalize_csn [OF ok, of e] assms(3) by (simp add: csn_normal_def csn_lower_def)
  show ?thesis
    using verify_full_prefix [OF assms(1,2,4)] verify_full_bv [OF assms(1), of c] assms(2)
    by (cases ad) (simp_all add: parse_csn_def csnValidate_def b n)
qed

lemma csn_no_sep: "csn_ok c \<Longrightarrow> \<forall>x\<in>set c. \<not> is_sep x"
proof
  fix x assume ok: "csn_ok c" and "x \<in> set c"
  then obtain i where i: "i < 40" "x = c ! i" using csn_ok_length [OF ok] by (auto simp: in_set_conv_nth)
  have "csn_pattern ! i \<in> set csn_pattern" using i by (simp add: length_csn_pattern)
  moreover have "\<forall>p\<in>set csn_pattern. \<not> csn_char_ok p (CHR '';'') \<and> \<not> csn_char_ok p (CHR '','')"
    by (simp add: csn_pattern_def) code_simp
  ultimately show "\<not> is_sep x"
    using csn_ok_nth [OF ok i(1)] i(2) by (auto simp: is_sep_def)
qed

lemma takeWhile_csn: "csn_ok c \<Longrightarrow> r = [] \<or> is_sep (hd r) \<Longrightarrow> takeWhile (\<lambda>x. \<not> is_sep x) (c @ r) = c"
  using takeWhile_stop [of "\<lambda>x. \<not> is_sep x" c r] csn_no_sep by (simp add: list_all_iff)

lemma parse_csns_compose:
  assumes "env_ok e" "cs \<noteq> []" "\<forall>c\<in>set cs. csn_valid e c \<and> csn_normal c"
    "length cs \<le> 1 \<or> \<not> (env_strict e \<and> env_assert e)"
  shows "parse_csns e ad (compose_csns cs) (length (compose_csns cs)) = Some (Some cs)"
  using assms
proof (induction cs rule: compose_csns.induct)
  case (2 c)
  then have ok: "csn_ok c" using csn_normal_ok by simp
  have "parse_csn e ad \<lparr>bv_len = 40, bv_val = c @ []\<rparr> = Some (Some c)"
    by (rule parse_csn_ok) (use 2 in \<open>simp_all add: last_or_lax_def\<close>)
  moreover have tw: "takeWhile (\<lambda>x. \<not> is_sep x) c = c"
    using takeWhile_csn [OF ok, of "[]"] by simp
  ultimately show ?case
    using csn_ok_length [OF ok] by (subst parse_csns.simps) (simp add: Let_def tw)
next
  case (3 c d cs)
  then have ok: "csn_ok c" using csn_normal_ok by simp
  let ?r = "CHR '';'' # compose_csns (d # cs)"
  have "compose_csns (d # cs) \<noteq> []"
    using 3 csn_ok_length [of d] csn_normal_ok [of d] by (cases cs) auto
  moreover have "parse_csn e ad \<lparr>bv_len = 40, bv_val = c @ ?r\<rparr> = Some (Some c)"
    by (rule parse_csn_ok) (use 3 in \<open>simp_all add: last_or_lax_def\<close>)
  moreover have "parse_csns e ad (compose_csns (d # cs)) (length (compose_csns (d # cs))) = Some (Some (d # cs))"
    by (rule 3) (use 3 in auto)
  ultimately show ?case
    using takeWhile_csn [OF ok, of ?r] csn_ok_length [OF ok]
    by (subst parse_csns.simps) (simp add: Let_def is_sep_def)
qed simp

lemma sorted_wf:
  assumes "\<forall>c\<in>set cs. csn_normal c" "sorted_wrt (\<lambda>a b. csn_sid a < csn_sid b) cs"
  shows "csns_wf cs"
  using assms by (induction cs) (auto simp: csn_normal_ok csn_normal_order)

lemma validate_sorted:
  assumes "env_ok e" "\<forall>c\<in>set cs. csn_valid e c" "csns_wf cs"
  shows "slap_csns_validate_and_sort e cs = Some cs"
proof -
  have "list_all strlen_ok cs"
    using assms(3) strlen_ok_csn by (auto simp: csns_wf_def list_all_iff)
  from validate_and_sort_spec [OF assms(1) this]
  obtain ws where ws: "slap_csns_validate_and_sort e cs = Some ws" "csns_wf ws" "set ws \<subseteq> set cs"
      "\<forall>v\<in>set cs. csn_valid e v \<longrightarrow> (\<exists>u\<in>set ws. csn_sr u = csn_sr v \<and> csn_ts v \<le> csn_ts u)"
    by auto
  have "csns_vec ws k = csns_vec cs k" for k
  proof (cases "csns_vec ws k")
    case None
    then have "\<forall>c\<in>set cs. csn_sr c \<noteq> k" using ws(4) assms(2) by (auto simp: csns_vec_None)
    with None show ?thesis by (simp add: csns_vec_None [THEN iffD2])
  next
    case (Some t)
    then obtain c where "c \<in> set ws" "csn_sr c = k" "csn_ts c = t" using csns_vec_Some by blast
    with Some ws(3) csns_wf_vec [OF assms(3), of c] show ?thesis by auto
  qed
  then have "csns_vec ws = csns_vec cs" by blast
  then show ?thesis
    using ws(1,2) csns_vec_inject [OF ws(2) assms(3)] by simp
qed


lemma parse_loop_csns:
  assumes "env_ok e" "\<forall>c\<in>set cs. csn_valid e c \<and> csn_normal c" "length cs \<le> 1 \<or> \<not> (env_strict e \<and> env_assert e)"
  shows "cookie_parse_loop e ad dst (if cs = [] then [] else ''csn='' @ compose_csns cs)
      (length (if cs = [] then [] else ''csn='' @ compose_csns cs)) =
    Some (Some (dst\<lparr>ctxcsn := ctxcsn dst @ cs, numcsns := numcsns dst + length cs\<rparr>))"
proof (cases "cs = []")
  case False
  then show ?thesis
    using parse_csns_compose [OF assms(1) False assms(2,3), of ad]
    by (subst cookie_parse_loop.simps) (simp add: ensure_def)
qed (simp add: cookie_parse_loop.simps)

lemma parse_loop_number:
  assumes key: "(key, b, limit) \<in> {(''rid='', 10, SLAP_SYNC_RID_MAX), (''sid='', 16, SLAP_SYNC_SID_MAX)}"
    and v: "0 \<le> v" "v \<le> limit"
  shows "cookie_parse_loop e ad dst (key @ padded b 3 v @ (if r = [] then [] else CHR '','' # r))
      (7 + (if r = [] then 0 else 1 + length r)) =
    cookie_parse_loop e ad (if key = ''rid='' then dst\<lparr>ck_rid := v\<rparr> else dst\<lparr>ck_sid := v\<rparr>) r (length r)"
proof -
  let ?r = "if r = [] then [] else CHR '','' # r"
  have p: "parse_number b limit (key @ padded b 3 v @ ?r) (4 + 3 + length ?r) = Some (v, 7 + (if ?r = [] then 0 else 1))"
    by (rule parse_number_padded) (use key v in \<open>auto simp: SLAP_SYNC_RID_MAX_def SLAP_SYNC_SID_MAX_def\<close>)
  have l: "length (padded b 3 v) = 3"
    by (rule length_padded) (use key v in \<open>auto simp: SLAP_SYNC_RID_MAX_def SLAP_SYNC_SID_MAX_def\<close>)
  show ?thesis
    using key p l by (subst cookie_parse_loop.simps) (auto split: if_splits)
qed

lemma compose_length:
  assumes "0 \<le> rid" "rid \<le> SLAP_SYNC_RID_MAX" "sid \<le> SLAP_SYNC_SID_MAX"
  shows "length (compose_head rid sid b) < 32"
proof -
  have "length (padded 10 3 rid) = 3" "0 \<le> sid \<Longrightarrow> length (padded 16 3 sid) = 3"
    using assms by (simp_all add: length_padded SLAP_SYNC_RID_MAX_def SLAP_SYNC_SID_MAX_def)
  then show ?thesis using assms by (simp add: compose_head_def Let_def)
qed

lemma parse_loop_compose:
  assumes "env_ok e" "\<forall>c\<in>set cs. csn_valid e c \<and> csn_normal c" "length cs \<le> 1 \<or> \<not> (env_strict e \<and> env_assert e)"
    and rid: "0 \<le> rid" "rid \<le> SLAP_SYNC_RID_MAX" and sid: "sid \<le> SLAP_SYNC_SID_MAX"
  shows "cookie_parse_loop e ad dst (compose_head rid sid (cs \<noteq> []) @ compose_csns cs)
      (length (compose_head rid sid (cs \<noteq> []) @ compose_csns cs)) =
    Some (Some (dst\<lparr>ctxcsn := ctxcsn dst @ cs, numcsns := numcsns dst + length cs, ck_rid := rid,
      ck_sid := if 0 \<le> sid then sid else ck_sid dst\<rparr>))"
proof -
  define c where "c = (if cs = [] then [] else ''csn='' @ compose_csns cs)"
  define t where "t = (if 0 \<le> sid then ''sid='' @ padded 16 3 sid @ (if c = [] then [] else CHR '','' # c) else c)"
  have len: "length (padded 10 3 rid) = 3" "0 \<le> sid \<Longrightarrow> length (padded 16 3 sid) = 3"
    using rid sid by (simp_all add: length_padded SLAP_SYNC_RID_MAX_def SLAP_SYNC_SID_MAX_def)
  have a: "compose_head rid sid (cs \<noteq> []) @ compose_csns cs
      = ''rid='' @ padded 10 3 rid @ (if t = [] then [] else CHR '','' # t)"
    using rid by (simp add: compose_head_def Let_def t_def c_def)
  have l: "length (''rid='' @ padded 10 3 rid @ (if t = [] then [] else CHR '','' # t))
      = 7 + (if t = [] then 0 else 1 + length t)"
    using len by simp
  have p: "cookie_parse_loop e ad dst (''rid='' @ padded 10 3 rid @ (if t = [] then [] else CHR '','' # t))
      (7 + (if t = [] then 0 else 1 + length t)) = cookie_parse_loop e ad (dst\<lparr>ck_rid := rid\<rparr>) t (length t)"
    using parse_loop_number [of "''rid=''" 10 SLAP_SYNC_RID_MAX rid e ad dst t] rid
    by (simp only: insert_iff simp_thms if_True)
  have 1: "cookie_parse_loop e ad dst (compose_head rid sid (cs \<noteq> []) @ compose_csns cs)
      (length (compose_head rid sid (cs \<noteq> []) @ compose_csns cs))
      = cookie_parse_loop e ad (dst\<lparr>ck_rid := rid\<rparr>) t (length t)"
    by (simp only: a l p)
  have "length (''sid='' @ padded 16 3 sid @ (if c = [] then [] else CHR '','' # c))
      = 7 + (if c = [] then 0 else 1 + length c)" if "0 \<le> sid"
    using len that by simp
  then have 2: "cookie_parse_loop e ad (dst\<lparr>ck_rid := rid\<rparr>) t (length t) =
      cookie_parse_loop e ad (dst\<lparr>ck_rid := rid, ck_sid := if 0 \<le> sid then sid else ck_sid dst\<rparr>) c (length c)"
    using parse_loop_number [of "''sid=''" 16 SLAP_SYNC_SID_MAX sid e ad "dst\<lparr>ck_rid := rid\<rparr>" c] sid
    by (cases "0 \<le> sid") (simp_all add: t_def)
  show ?thesis
    unfolding 1 2 c_def
    using parse_loop_csns [OF assms(1-3), of ad "dst\<lparr>ck_rid := rid, ck_sid := if 0 \<le> sid then sid else ck_sid dst\<rparr>"]
    by simp
qed

section \<open>Pulling a newer state\<close>

definition cookie_normal :: "sync_cookie \<Rightarrow> bool" where
  "cookie_normal ck \<longleftrightarrow> list_all csn_normal (ctxcsn ck)"

lemma wf_sorted:
  "list_all csn_normal cs \<Longrightarrow> csns_wf cs \<Longrightarrow> sorted_wrt (\<lambda>a b. csn_sid a < csn_sid b) cs"
  by (induction cs) (auto simp: list_all_iff csn_normal_order)

lemma sid_vec_mem:
  "sorted_wrt (\<lambda>a b. csn_sid a < csn_sid b) cs \<Longrightarrow> c \<in> set cs \<Longrightarrow> sid_vec cs (csn_sid c) = Some (csn_ts c)"
  by (induction cs) auto

lemma sid_vec_Some: "sid_vec cs s = Some t \<Longrightarrow> \<exists>c\<in>set cs. csn_sid c = s \<and> csn_ts c = t"
  by (induction cs) (auto split: if_splits)

lemma csns_vec_le_sid:
  assumes "list_all csn_normal a" "list_all csn_normal b" "csns_wf a" "csns_wf b" "vec_le (csns_vec a) (csns_vec b)"
  shows "vec_le (sid_vec a) (sid_vec b)"
  unfolding vec_le_def
proof (intro allI impI)
  fix s t
  assume "sid_vec a s = Some t"
  then obtain c where c: "c \<in> set a" "csn_sid c = s" "csn_ts c = t" using sid_vec_Some by blast
  then obtain t' where "csns_vec b (csn_sr c) = Some t'" "t \<le> t'"
    using csns_wf_vec [OF assms(3) c(1)] assms(5) by (auto simp: vec_le_def)
  then obtain d where d: "d \<in> set b" "csn_sr d = csn_sr c" "csn_ts d = t'" using csns_vec_Some by blast
  moreover have "csn_sid d = csn_sid c"
    using csn_normal_order(2) [of d c] c d assms by (auto simp: list_all_iff)
  ultimately show "\<exists>t'. sid_vec b s = Some t' \<and> t \<le> t'"
    using sid_vec_mem [OF wf_sorted [OF assms(2,4)] d(1)] c \<open>t \<le> t'\<close> by auto
qed

lemma fetch_ok:
  assumes "env_ok e" "\<forall>c\<in>set cs. csn_valid e c" "list_all csn_normal cs" "csns_wf cs"
  shows "\<exists>ck'. slap_cookie_fetch e ck cs = Some ck' \<and> cookie_inv e ck' \<and> ctxcsn ck' = cs"
proof -
  define ck' where "ck' = ck\<lparr>ctxcsn := cs, numcsns := slap_csns_length cs, sids := slap_csns_parse_sids cs\<rparr>"
  have "list_all csn_ok cs" using assms(4) by (simp add: csns_wf_def)
  then have "cookie_inv e ck'"
    using assms wf_sorted [OF assms(3,4)]
    by (simp add: cookie_inv_def ck'_def csns_length parse_sids_map csns_ok_def list_all_iff)
  then show ?thesis
    unfolding slap_cookie_fetch_def Let_def ck'_def [symmetric]
    by (simp add: ck'_def)
qed

lemma pull_ok:
  assumes inv: "cookie_inv e ck" "cookie_normal ck"
    and src: "list_all strlen_ok src" "\<forall>c\<in>set src. csn_valid e c \<longrightarrow> csn_normal c"
  shows "\<exists>ck' v. slap_cookie_pull e ck src = Some (ck', v) \<and> cookie_inv e ck' \<and>
    vec_le (cookie_vec ck) (cookie_vec ck') \<and> (v \<le> 0 \<longrightarrow> ck' = ck) \<and> (v = 0 \<longrightarrow> slap_csns_validate_and_sort e src = Some (ctxcsn ck))"
proof -
  have e: "env_ok e" using inv by (simp add: cookie_inv_def)
  obtain ws where ws: "slap_csns_validate_and_sort e src = Some ws" "csns_wf ws" "set ws \<subseteq> set src \<inter> Collect (csn_valid e)"
    using validate_and_sort_spec [OF e src(1)] by blast
  have n: "list_all csn_normal ws" "\<forall>c\<in>set ws. csn_valid e c" using ws(3) src(2) by (auto simp: list_all_iff)
  have old: "list_all csn_normal (ctxcsn ck)" "csns_wf (ctxcsn ck)"
    using inv sorted_wf [of "ctxcsn ck"] by (auto simp: cookie_normal_def cookie_inv_def csns_ok_def list_all_iff)
  obtain v where v: "slap_csns_compare e ws (ctxcsn ck) = Some v" "v = 0 \<longleftrightarrow> csns_vec ws = csns_vec (ctxcsn ck)"
      "0 < v \<longleftrightarrow> csns_vec ws \<noteq> csns_vec (ctxcsn ck) \<and> vec_le (csns_vec (ctxcsn ck)) (csns_vec ws)"
    using csns_compare_sign [OF ws(2) old(2), of e] by blast
  show ?thesis
  proof (cases "0 < v")
    case True
    obtain ck' where "slap_cookie_fetch e ck ws = Some ck'" "cookie_inv e ck'" "ctxcsn ck' = ws"
      using fetch_ok [OF e n(2,1) ws(2)] by blast
    moreover have "vec_le (sid_vec (ctxcsn ck)) (sid_vec ws)"
      using csns_vec_le_sid [OF old(1) n(1) old(2) ws(2)] v True by blast
    ultimately show ?thesis
      using True ws(1) v(1) by (simp add: slap_cookie_pull_def cookie_vec_def)
  next
    case False
    then show ?thesis
      using ws v(1,2) inv csns_vec_inject [OF ws(2) old(2)] by (simp add: slap_cookie_pull_def not_less)
  qed
qed


section \<open>Sample values for the witnesses\<close>

definition csn_a :: string where "csn_a = ''20170101000000.000000Z#000000#001#000000''"
definition csn_b :: string where "csn_b = ''20180101000000.000000Z#000000#002#000000''"
definition csn_c :: string where "csn_c = ''20190101000000.000000Z#000000#001#000000''"

definition lax_mode :: env where
  "lax_mode = sample_mode\<lparr>env_strict := False\<rparr>"

definition cookie_of :: "string list \<Rightarrow> sync_cookie" where
  "cookie_of cs = \<lparr>ctxcsn = cs, sids = map csn_sid cs, numcsns = length cs, ck_rid = 1, ck_sid = 2\<rparr>"

lemma sample_cookies:
  "cookie_inv sample_mode (cookie_of [csn_a])" "cookie_inv sample_mode (cookie_of [csn_b])"
  "cookie_inv sample_mode (cookie_of [csn_c])" "cookie_inv sample_mode (cookie_of [csn_a, csn_b])"
  "cookie_normal (cookie_of [csn_a, csn_b])" "csn_valid sample_mode csn_c" "csn_normal csn_c"
  by code_simp+

section \<open>Properties\<close>

text \<open>C1. Merging a cookie into another one never aborts, keeps both arrays sorted, parallel and valid, and
  computes the join of the two version vectors: every server's newest CSN. The replica and server IDs stay,
  and the quorum record of the database, which is told about new servers, keeps its invariant.\<close>

theorem cookie_merge_joins:
  assumes "cookie_inv e dst" "cookie_inv e src" "pred_option backend_inv bd"
  shows "\<exists>dst' bd' lead. slap_cookie_merge e bd dst src = Some (dst', bd', lead) \<and> cookie_inv e dst' \<and>
    cookie_vec dst' = vec_join (cookie_vec dst) (cookie_vec src) \<and> ck_rid dst' = ck_rid dst \<and>
    ck_sid dst' = ck_sid dst \<and> pred_option backend_inv bd'"
  using cookie_merge_ok [OF assms] by (auto simp: runs_def merged_def cookie_upd_def)

lemma cookie_merge_joins_witness:
  "\<exists>dst' bd' lead. slap_cookie_merge sample_mode None (cookie_of [csn_a]) (cookie_of [csn_b]) = Some (dst', bd', lead) \<and>
     cookie_inv sample_mode dst'"
  using cookie_merge_joins [OF sample_cookies(1,2), of None] by auto

text \<open>C2. Replicas converge: merging the same set of cookies in any order and any number of times gives the
  same version vector.\<close>

theorem cookie_merge_converges:
  assumes "cookie_inv e a" "\<forall>b\<in>set bs. cookie_inv e b" "set bs = set cs"
    "cookies.merge_all e a bs = Some x" "cookies.merge_all e a cs = Some y"
  shows "cookie_vec x = cookie_vec y"
  using assms by (rule cookies.merge_all_order)

lemma cookie_merge_converges_witness:
  "\<exists>x y. cookies.merge_all sample_mode (cookie_of [csn_a]) [cookie_of [csn_b], cookie_of [csn_c]] = Some x \<and>
     cookies.merge_all sample_mode (cookie_of [csn_a]) [cookie_of [csn_c], cookie_of [csn_b], cookie_of [csn_c]] = Some y \<and>
     cookie_vec x = cookie_vec y"
proof -
  obtain x y where xy: "cookies.merge_all sample_mode (cookie_of [csn_a]) [cookie_of [csn_b], cookie_of [csn_c]] = Some x"
    "cookies.merge_all sample_mode (cookie_of [csn_a]) [cookie_of [csn_c], cookie_of [csn_b], cookie_of [csn_c]] = Some y"
    using cookies.merge_all_fold [OF sample_cookies(1), of "[cookie_of [csn_b], cookie_of [csn_c]]"]
      cookies.merge_all_fold [OF sample_cookies(1), of "[cookie_of [csn_c], cookie_of [csn_b], cookie_of [csn_c]]"]
      sample_cookies by auto
  moreover have "cookie_vec x = cookie_vec y"
    by (rule cookie_merge_converges [OF sample_cookies(1) _ _ xy]) (use sample_cookies in auto)
  ultimately show ?thesis by blast
qed

text \<open>Merging an array of CSNs joins the valid ones, ignores the others, and returns a positive number
  exactly when the cookie's vector grew.\<close>

lemma merge_csnset_joins:
  assumes "cookie_inv e dst" "list_all strlen_ok cs" "pred_option backend_inv bd"
  shows "\<exists>dst' bd' rc. slap_cookie_merge_csnset e bd dst cs = Some (dst', bd', rc) \<and> cookie_inv e dst' \<and>
    cookie_vec dst' = vec_join (cookie_vec dst) (csnset_vec e cs) \<and>
    (0 < rc \<longleftrightarrow> cookie_vec dst' \<noteq> cookie_vec dst) \<and> pred_option backend_inv bd'"
  using merge_csns_ok [OF assms, of 0] assms(1)
  by (auto simp: runs_def merged_def cookie_upd_def slap_cookie_merge_csnset_def)

lemma merge_csnset_joins_witness:
  "\<exists>dst' bd' rc. slap_cookie_merge_csnset sample_mode None (cookie_of [csn_a, csn_b]) [csn_c, ''junk''] = Some (dst', bd', rc)"
proof -
  have "list_all strlen_ok [csn_c, ''junk'']" by code_simp
  then show ?thesis using merge_csnset_joins [OF sample_cookies(4), of "[csn_c, ''junk'']" None] by auto
qed

text \<open>Comparing a CSN with a cookie predicts the merge: positive exactly when merging the CSN would
  change the cookie's vector, zero exactly when the cookie holds its timestamp.\<close>

lemma compare_csn_predicts_merge:
  assumes "cookie_inv e ck" "csn_valid e c"
  shows "\<exists>r. slap_cookie_compare_csn e ck c = Some r \<and>
    (0 < r \<longleftrightarrow> cookie_vec ck \<noteq> vec_join (cookie_vec ck) [csn_sid c \<mapsto> csn_ts c]) \<and>
    (r = 0 \<longleftrightarrow> cookie_vec ck (csn_sid c) = Some (csn_ts c))"
  using compare_csn_ok [OF assms] by (simp add: one_def)

lemma compare_csn_predicts_merge_witness:
  "\<exists>r. slap_cookie_compare_csn sample_mode (cookie_of [csn_a, csn_b]) csn_c = Some r"
  using compare_csn_predicts_merge [OF sample_cookies(4,6)] by auto

text \<open>C28. Pulling a CSN array into a cookie never moves any server backwards, and changes the cookie only
  when the array is strictly newer.\<close>

theorem cookie_pull_never_backward:
  assumes "cookie_inv e ck" "cookie_normal ck" "list_all strlen_ok src" "\<forall>c\<in>set src. csn_valid e c \<longrightarrow> csn_normal c"
  shows "\<exists>ck' v. slap_cookie_pull e ck src = Some (ck', v) \<and> cookie_inv e ck' \<and>
    vec_le (cookie_vec ck) (cookie_vec ck') \<and> (v \<le> 0 \<longrightarrow> ck' = ck)"
  using pull_ok [OF assms] by blast

lemma cookie_pull_never_backward_witness:
  "\<exists>ck' v. slap_cookie_pull sample_mode (cookie_of [csn_a, csn_b]) [csn_c] = Some (ck', v)"
proof -
  have "list_all strlen_ok [csn_c]" by code_simp
  then show ?thesis using cookie_pull_never_backward [OF sample_cookies(4,5), of "[csn_c]"] sample_cookies(7) by auto
qed

text \<open>C3. Text round trip: parsing the text composed from a sorted array of valid CSNs in normal form gives
  back the array with its server IDs, the replica ID and the server ID. In strict mode with
  assertions this is for at most one CSN.\<close>

theorem cookie_text_roundtrip:
  assumes "env_ok e" "\<forall>c\<in>set cs. csn_valid e c \<and> csn_normal c" "sorted_wrt (\<lambda>a b. csn_sid a < csn_sid b) cs"
    "length cs \<le> 1 \<or> \<not> (env_strict e \<and> env_assert e)"
    "0 \<le> rid" "rid \<le> SLAP_SYNC_RID_MAX" "sid \<le> SLAP_SYNC_SID_MAX"
  shows "\<exists>t ck. slap_cookie_compose e cs rid sid = Some t \<and> slap_cookie_parse e ad dst (Some (bv t)) = Some (ck, LDAP_SUCCESS) \<and>
    cookie_inv e ck \<and> ctxcsn ck = cs \<and> ck_rid ck = rid \<and> ck_sid ck = (if 0 \<le> sid then sid else - 1)"
proof -
  define t where "t = compose_head rid sid (cs \<noteq> []) @ compose_csns cs"
  have ok: "list_all csn_ok cs" "list_all strlen_ok cs" "csns_wf cs"
    using assms(2) sorted_wf [OF _ assms(3)] strlen_ok_csn csn_normal_ok by (auto simp: list_all_iff)
  have t: "slap_cookie_compose e cs rid sid = Some t"
    using ok(2) compose_length [OF assms(5-7)]
    by (simp add: slap_cookie_compose_def Let_def assert_that_def ensure_def t_def)
  have len: "4 < length t"
    using assms(5,6) by (simp add: t_def compose_head_def Let_def length_padded SLAP_SYNC_RID_MAX_def)
  have clean: "ctxcsn (slap_cookie_clean_all dst) = []" "numcsns (slap_cookie_clean_all dst) = 0"
    "ck_sid (slap_cookie_clean_all dst) = - 1"
    by (simp_all add: slap_cookie_clean_all_def slap_cookie_clean_csns_def Let_def)
  define ck where "ck = (slap_cookie_clean_all dst)\<lparr>ctxcsn := cs, numcsns := length cs, ck_rid := rid,
      ck_sid := if 0 \<le> sid then sid else - 1\<rparr>"
  have ck: "ctxcsn ck = cs" "numcsns ck = length cs" "ck_rid ck = rid" "ck_sid ck = (if 0 \<le> sid then sid else - 1)"
    "ck\<lparr>ctxcsn := cs, sids := x\<rparr> = ck\<lparr>sids := x\<rparr>" for x
    by (simp_all add: ck_def)
  have loop: "cookie_parse_loop e ad (slap_cookie_clean_all dst) t (length t) = Some (Some ck)"
    using parse_loop_compose [OF assms(1,2,4-7), of ad "slap_cookie_clean_all dst"]
    by (simp add: clean ck_def t_def)
  have inv: "cookie_inv e (ck\<lparr>sids := slap_csns_parse_sids cs\<rparr>)"
    using assms ok by (simp add: cookie_inv_def ck parse_sids_map csns_ok_def list_all_iff)
  have "slap_cookie_parse e ad dst (Some (bv t)) =
      Some (if cs = [] then ck else ck\<lparr>sids := slap_csns_parse_sids cs\<rparr>, LDAP_SUCCESS)"
    using len loop validate_sorted [OF assms(1) _ ok(3)] assms(2,5) inv
    by (auto simp: slap_cookie_parse_def Let_def ck)
  moreover have "cookie_inv e ck" if "cs = []"
    using that assms(1) by (simp add: cookie_inv_def ck)
  ultimately show ?thesis
    using t inv ck by auto
qed

lemma cookie_text_roundtrip_witness:
  "\<exists>t ck. slap_cookie_compose lax_mode [csn_a, csn_b] 1 10 = Some t \<and>
     slap_cookie_parse lax_mode True slap_cookie_init (Some (bv t)) = Some (ck, LDAP_SUCCESS) \<and> ctxcsn ck = [csn_a, csn_b]"
proof -
  have "env_ok lax_mode \<and> (csn_valid lax_mode csn_a \<and> csn_normal csn_a) \<and> (csn_valid lax_mode csn_b \<and> csn_normal csn_b) \<and>
    csn_sid csn_a < csn_sid csn_b \<and> \<not> env_strict lax_mode"
    by code_simp
  then show ?thesis
    using cookie_text_roundtrip [of lax_mode "[csn_a, csn_b]" 1 10 True slap_cookie_init]
    by (auto simp: SLAP_SYNC_RID_MAX_def SLAP_SYNC_SID_MAX_def)
qed

text \<open>In strict mode with assertions enabled, parsing the composed text of a valid cookie with two CSNs
  stops the process: the time comparison asserts that the byte after the first CSN is the terminator, and it is a
  semicolon.\<close>

lemma strict_parse_asserts:
  "\<exists>t. slap_cookie_compose sample_mode [csn_a, csn_b] 1 10 = Some t \<and>
     slap_cookie_parse sample_mode True slap_cookie_init (Some (bv t)) = None"
proof -
  have "slap_cookie_compose sample_mode [csn_a, csn_b] 1 10 = Some
      ''rid=001,sid=00a,csn=20170101000000.000000Z#000000#001#000000;20180101000000.000000Z#000000#002#000000''"
    by code_simp
  moreover have "slap_cookie_parse sample_mode True slap_cookie_init (Some (bv
      ''rid=001,sid=00a,csn=20170101000000.000000Z#000000#001#000000;20180101000000.000000Z#000000#002#000000'')) = None"
    by code_simp
  ultimately show ?thesis by blast
qed

text \<open>Comparing a CSN array with a cookie misses a new server whose ID is larger than all known ones: the
  result says "no change", while merging the same array changes the cookie.\<close>

lemma compare_csnset_misses_new_sid:
  "slap_cookie_compare_csnset sample_mode (cookie_of [csn_a]) [csn_b] = Some 0 \<and>
   map_option (\<lambda>(ck, _, rc). (ctxcsn ck, rc)) (slap_cookie_merge_csnset sample_mode None (cookie_of [csn_a]) [csn_b])
     = Some ([csn_a, csn_b], 1)"
  by code_simp

end
