(* ===== verification/Idl.thy ===== *)
theory Idl
  imports Prelude
begin

text \<open>
  ID lists of the mdb backend, \<^verbatim>\<open>servers/slapd/back-mdb/idl.c\<close> and \<^verbatim>\<open>idl.h\<close>. The C array has
  two forms: \<^verbatim>\<open>ids[0]\<close> a count followed by that many IDs, or \<^verbatim>\<open>ids[0] == NOID\<close> followed by the
  first and the last ID of a range. They are the two constructors below. An ID is a 64-bit
  unsigned integer, kept as an \<open>int\<close> with the wrap-around of a cursor written out. A list index
  is 1-based in the source: \<^verbatim>\<open>ids[i]\<close> is \<open>xs ! (i - 1)\<close>.
\<close>

section \<open>Definitions\<close>

definition NOID :: int where "NOID = 18446744073709551615"
definition MDB_IDL_DB_MAX :: nat where "MDB_IDL_DB_MAX = 65535"
definition MDB_IDL_UM_MAX :: nat where "MDB_IDL_UM_MAX = 131071"

datatype idl = Range int int | Ids "int list"

text \<open>\<^verbatim>\<open>MDB_IDL_IS_ZERO\<close>, \<^verbatim>\<open>MDB_IDL_IS_RANGE\<close>, \<^verbatim>\<open>MDB_IDL_FIRST\<close>, \<^verbatim>\<open>MDB_IDL_LAST\<close>; the last two are
  read from non-empty lists only.\<close>

fun MDB_IDL_IS_ZERO :: "idl \<Rightarrow> bool" where
  "MDB_IDL_IS_ZERO (Range f l) = False"
| "MDB_IDL_IS_ZERO (Ids xs) = (xs = [])"

fun MDB_IDL_FIRST :: "idl \<Rightarrow> int" where
  "MDB_IDL_FIRST (Range f l) = f"
| "MDB_IDL_FIRST (Ids xs) = hd xs"

fun MDB_IDL_LAST :: "idl \<Rightarrow> int" where
  "MDB_IDL_LAST (Range f l) = l"
| "MDB_IDL_LAST (Ids xs) = last xs"

fun ids_increase :: "int list \<Rightarrow> bool" where
  "ids_increase (x # y # xs) = (x < y \<and> ids_increase (y # xs))"
| "ids_increase _ = True"

definition idl_check :: "env \<Rightarrow> idl \<Rightarrow> unit option" where
  "idl_check e ids =
     (case ids of Range f l \<Rightarrow> assert_that e (f \<le> l) | Ids xs \<Rightarrow> assert_that e (ids_increase xs))"

text \<open>The binary search: \<open>n\<close> entries after \<open>base\<close> are left; \<open>val\<close> is the last comparison.\<close>

function search_loop :: "int list \<Rightarrow> int \<Rightarrow> nat \<Rightarrow> nat \<Rightarrow> int \<Rightarrow> nat \<Rightarrow> nat" where
  "search_loop xs i base cursor val n =
     (if 0 < n
      then let pivot = n div 2; cursor = base + pivot + 1; val = cmp i (xs ! (cursor - 1))
           in if val < 0 then search_loop xs i base cursor val pivot
              else if 0 < val then search_loop xs i cursor cursor val (n - (pivot + 1))
              else cursor
      else if 0 < val then cursor + 1 else cursor)"
  by pat_completeness auto
termination
  by (relation "measure (\<lambda>(xs, i, base, cursor, val, n). n)") auto

declare search_loop.simps [simp del]

definition mdb_idl_search :: "env \<Rightarrow> int list \<Rightarrow> int \<Rightarrow> nat option" where
  "mdb_idl_search e xs i = do {
     when_check e (idl_check e (Ids xs));
     Some (search_loop xs i 0 1 0 (length xs)) }"

definition list_insert :: "nat \<Rightarrow> 'a \<Rightarrow> 'a list \<Rightarrow> 'a list" where
  "list_insert x i xs = take (x - 1) xs @ i # drop (x - 1) xs"

definition mdb_idl_insert :: "env \<Rightarrow> idl \<Rightarrow> int \<Rightarrow> (idl \<times> int) option" where
  "mdb_idl_insert e ids i = do {
     when_check e (idl_check e ids);
     (case ids of
        Range f l \<Rightarrow>
          Some (if f \<le> i \<and> i \<le> l then (ids, - 1)
                else if i < f then (Range i l, 0)
                else if l < i then (Range f i, 0) else (ids, 0))
      | Ids xs \<Rightarrow> do {
          x \<leftarrow> mdb_idl_search e xs i;
          assert_that e (0 < x);
          if x < 1 then Some (ids, - 2)
          else if x \<le> length xs \<and> xs ! (x - 1) = i then Some (ids, - 1)
          else do {
            let ids = (if MDB_IDL_DB_MAX \<le> length xs + 1
                       then if i < xs ! 0 then Range i (last xs)
                            else if last xs < i then Range (xs ! 0) i
                            else Range (xs ! 0) (last xs)
                       else Ids (list_insert x i xs));
            when_check e (idl_check e ids);
            Some (ids, 0) } }) }"

text \<open>The result and the cursor. A cursor is an ID for a range and a position for a list.\<close>

definition mdb_idl_first :: "env \<Rightarrow> idl \<Rightarrow> int \<Rightarrow> (int \<times> int) option" where
  "mdb_idl_first e ids cursor =
     (case ids of
        Range f l \<Rightarrow> (let c = (if cursor < f then f else cursor) in Some (c, c))
      | Ids xs \<Rightarrow>
          if xs = [] then Some (NOID, NOID)
          else do {
            pos \<leftarrow> (if cursor = 0 then Some 1 else mdb_idl_search e xs cursor);
            Some (if length xs < pos then (NOID, cursor) else (xs ! (pos - 1), int pos)) })"

definition mdb_idl_next :: "idl \<Rightarrow> int \<Rightarrow> int \<times> int" where
  "mdb_idl_next ids cursor =
     (let c = (cursor + 1) mod 2 ^ 64
      in case ids of
           Range f l \<Rightarrow> if l < c then (NOID, c) else (c, c)
         | Ids xs \<Rightarrow> if c \<le> int (length xs) then (xs ! (nat c - 1), c) else (NOID, c))"

text \<open>The element-wise loop of the intersection, on the array of \<open>a\<close> in place: \<open>k\<close> is
  \<^verbatim>\<open>cursorc\<close>. \<open>None\<close> is a loop that does not end.\<close>

partial_function (option) intersect_loop ::
  "int list \<Rightarrow> idl \<Rightarrow> int \<Rightarrow> int \<Rightarrow> int \<Rightarrow> int \<Rightarrow> int \<Rightarrow> nat \<Rightarrow> (int list \<times> nat) option" where
  "intersect_loop xs b idmax ida cursora idb cursorb k =
     (if ida \<le> idmax \<or> idb \<le> idmax
      then if ida = idb
           then let xs' = xs[k := ida];
                    (ida', cursora') = mdb_idl_next (Ids xs') cursora;
                    (idb', cursorb') = mdb_idl_next b cursorb
                in intersect_loop xs' b idmax ida' cursora' idb' cursorb' (Suc k)
           else if ida < idb
           then let (ida', cursora') = mdb_idl_next (Ids xs) cursora
                in intersect_loop xs b idmax ida' cursora' idb cursorb k
           else let (idb', cursorb') = mdb_idl_next b cursorb
                in intersect_loop xs b idmax ida cursora idb' cursorb' k
      else Some (xs, k))"

declare intersect_loop.simps [code]

definition range_covers :: "idl \<Rightarrow> int list \<Rightarrow> bool" where
  "range_covers b xs = (case b of Range f l \<Rightarrow> f \<le> hd xs \<and> last xs \<le> l | Ids _ \<Rightarrow> False)"

text \<open>The list against the other operand: the new list.\<close>

definition intersect_list :: "env \<Rightarrow> int list \<Rightarrow> idl \<Rightarrow> int \<Rightarrow> int \<Rightarrow> int list option" where
  "intersect_list e xs b idmin idmax =
     (if range_covers b xs then Some xs
      else do {
        (ida, cursora) \<leftarrow> mdb_idl_first e (Ids xs) idmin;
        (idb, cursorb) \<leftarrow> mdb_idl_first e b idmin;
        (xs', k) \<leftarrow> intersect_loop xs b idmax ida cursora idb cursorb 0;
        Some (take k xs') })"

text \<open>The new \<open>a\<close> and the new \<open>b\<close>: when \<open>a\<close> is the range, the work is done in \<open>b\<close> and copied.\<close>

definition mdb_idl_intersection :: "env \<Rightarrow> idl \<Rightarrow> idl \<Rightarrow> (idl \<times> idl) option" where
  "mdb_idl_intersection e a b =
     (if MDB_IDL_IS_ZERO a \<or> MDB_IDL_IS_ZERO b then Some (Ids [], b)
      else
        let idmin = max (MDB_IDL_FIRST a) (MDB_IDL_FIRST b);
            idmax = min (MDB_IDL_LAST a) (MDB_IDL_LAST b)
        in if idmax < idmin then Some (Ids [], b)
           else if idmin = idmax then Some (Ids [idmin], b)
           else (case (a, b) of
                   (Range _ _, Range _ _) \<Rightarrow> Some (Range idmin idmax, b)
                 | (Range _ _, Ids ys) \<Rightarrow> do {
                     zs \<leftarrow> intersect_list e ys a idmin idmax;
                     Some (Ids zs, Ids zs) }
                 | (Ids xs, _) \<Rightarrow> do {
                     zs \<leftarrow> intersect_list e xs b idmin idmax;
                     Some (Ids zs, b) }))"

definition id_or_end :: "int list \<Rightarrow> int" where
  "id_or_end xs = (case xs of [] \<Rightarrow> NOID | x # _ \<Rightarrow> x)"

text \<open>First loop of the union: the elements of \<open>a\<close> that \<open>b\<close> lacks are appended after the \<open>n\<close>
  entries in the array of \<open>b\<close>. \<open>None\<close> is \<^verbatim>\<open>goto over\<close>. NOID is the largest 64-bit value, so
  \<^verbatim>\<open>ida != NOID\<close> is written as an inequality.\<close>

function union_cat :: "int list \<Rightarrow> int list \<Rightarrow> nat \<Rightarrow> int list option" where
  "union_cat xs ys n =
     (let ida = id_or_end xs; idb = id_or_end ys
      in if NOID \<le> ida \<and> NOID \<le> idb then Some []
         else if ida < idb
         then if MDB_IDL_UM_MAX < n + 1 then None
              else map_option (Cons ida) (union_cat (tl xs) ys (n + 1))
         else union_cat (if ida = idb then tl xs else xs) (tl ys) n)"
  by pat_completeness auto
termination
  by (relation "measure (\<lambda>(xs, ys, n). length xs + length ys)")
    (auto simp: id_or_end_def split: list.splits if_splits)

text \<open>Second loop: merge the two runs. \<open>None\<close> is a loop that does not end.\<close>

function union_merge :: "int list \<Rightarrow> int list \<Rightarrow> int list option" where
  "union_merge ys cs =
     (if ys = [] \<and> cs = [] then Some []
      else let idb = id_or_end cs
           in if ys \<noteq> [] \<and> hd ys < idb then map_option (Cons (hd ys)) (union_merge (tl ys) cs)
              else if cs = [] then None
              else map_option (Cons idb) (union_merge ys (tl cs)))"
  by pat_completeness auto
termination
  by (relation "measure (\<lambda>(ys, cs). length ys + length cs)") (auto simp: neq_Nil_conv)

declare union_cat.simps [simp del] union_merge.simps [simp del]

definition idl_span :: "idl \<Rightarrow> idl \<Rightarrow> idl" where
  "idl_span a b = Range (min (MDB_IDL_FIRST a) (MDB_IDL_FIRST b)) (max (MDB_IDL_LAST a) (MDB_IDL_LAST b))"

definition mdb_idl_union :: "idl \<Rightarrow> idl \<Rightarrow> idl option" where
  "mdb_idl_union a b =
     (if MDB_IDL_IS_ZERO b then Some a
      else if MDB_IDL_IS_ZERO a then Some b
      else case (a, b) of
        (Ids xs, Ids ys) \<Rightarrow>
          (case union_cat xs ys (length ys) of
             None \<Rightarrow> Some (idl_span a b)
           | Some cs \<Rightarrow> map_option Ids (union_merge ys cs))
      | _ \<Rightarrow> Some (idl_span a b))"

definition mdb_idl_append_one :: "idl \<Rightarrow> int \<Rightarrow> idl \<times> int" where
  "mdb_idl_append_one ids i =
     (case ids of
        Range f l \<Rightarrow>
          if f \<le> i \<and> i \<le> l then (ids, - 1)
          else if i < f then (Range i l, 0)
          else if l < i then (Range f i, 0) else (ids, 0)
      | Ids xs \<Rightarrow>
          (let (xs, i) = (if xs \<noteq> [] \<and> i < xs ! 0 then (xs[0 := i], xs ! 0) else (xs, i));
               n = length xs;
               (xs, i) = (if 1 < n \<and> i < xs ! (n - 1) then (xs[n - 1 := i], xs ! (n - 1)) else (xs, i))
           in if MDB_IDL_UM_MAX \<le> n + 1 then (Range (xs ! 0) i, 0) else (Ids (xs @ [i]), 0)))"

definition mdb_idl_append :: "idl \<Rightarrow> idl \<Rightarrow> idl" where
  "mdb_idl_append a b =
     (if MDB_IDL_IS_ZERO b then a
      else if MDB_IDL_IS_ZERO a then b
      else case (a, b) of
        (Ids xs, Ids ys) \<Rightarrow>
          if MDB_IDL_UM_MAX \<le> length xs + length ys then idl_span a b
          else
            let m = length xs; n = length ys; ida = last xs; idb = last ys;
                (xs, ys) = (if 1 < n \<and> idb < ida then (xs[m - 1 := idb], ys[n - 1 := ida]) else (xs, ys));
                (xs, tmp) = (if ys ! 0 < xs ! 0 then (xs[0 := ys ! 0], xs ! 0) else (xs, ys ! 0))
            in Ids (xs @ tmp # (if 1 < n then drop 1 ys else []))
      | _ \<Rightarrow> idl_span a b)"

text \<open>Lists of IDs with values: the same search on the first components.\<close>

definition mdb_id2l_search :: "(int \<times> 'v) list \<Rightarrow> int \<Rightarrow> nat" where
  "mdb_id2l_search ids i = search_loop (map fst ids) i 0 1 0 (length ids)"

definition mdb_id2l_insert :: "env \<Rightarrow> (int \<times> 'v) list \<Rightarrow> int \<times> 'v \<Rightarrow> ((int \<times> 'v) list \<times> int) option" where
  "mdb_id2l_insert e ids i = do {
     let x = mdb_id2l_search ids (fst i);
     assert_that e (0 < x);
     Some (if x < 1 then (ids, - 2)
           else if x \<le> length ids \<and> fst (ids ! (x - 1)) = fst i then (ids, - 1)
           else if MDB_IDL_UM_MAX \<le> length ids then (ids, - 2)
           else (list_insert x i ids, 0)) }"

section \<open>Well-formed lists and their sets\<close>

definition id_ok :: "int \<Rightarrow> bool" where
  "id_ok i \<longleftrightarrow> 0 < i \<and> i < NOID"

fun idl_set :: "idl \<Rightarrow> int set" where
  "idl_set (Range f l) = {f..l}"
| "idl_set (Ids xs) = set xs"

fun idl_inv :: "idl \<Rightarrow> bool" where
  "idl_inv (Range f l) \<longleftrightarrow> 0 < f \<and> f < NOID \<and> f \<le> l \<and> l \<le> NOID"
| "idl_inv (Ids xs) \<longleftrightarrow> sorted_wrt (<) xs \<and> (\<forall>x\<in>set xs. id_ok x) \<and> length xs \<le> MDB_IDL_UM_MAX"

lemma ids_increase_sorted: "ids_increase xs \<longleftrightarrow> sorted_wrt (<) xs"
  by (induction xs rule: ids_increase.induct) (auto intro: order.strict_trans)

lemma idl_check_ok [simp]: "idl_inv ids \<Longrightarrow> idl_check e ids = Some ()"
  by (cases ids) (auto simp: idl_check_def assert_that_def ids_increase_sorted)

text \<open>The position the binary search must find: the first entry that is not below the ID.\<close>

definition lower_bound :: "int list \<Rightarrow> int \<Rightarrow> nat" where
  "lower_bound xs i = length (takeWhile (\<lambda>x. x < i) xs)"

lemma lower_bound_le: "lower_bound xs i \<le> length xs"
  by (simp add: lower_bound_def length_takeWhile_le)

lemma lower_bound_below: "k < lower_bound xs i \<Longrightarrow> xs ! k < i"
  unfolding lower_bound_def using nth_mem [of k "takeWhile (\<lambda>x. x < i) xs"] takeWhile_nth [of k "\<lambda>x. x < i" xs]
  by (metis set_takeWhileD)

lemma lower_bound_above:
  assumes "sorted_wrt (<) xs" "lower_bound xs i \<le> k" "k < length xs"
  shows "i \<le> xs ! k"
proof -
  have "lower_bound xs i < length xs" using assms by simp
  then have "\<not> xs ! lower_bound xs i < i"
    unfolding lower_bound_def by (rule nth_length_takeWhile)
  moreover have "xs ! lower_bound xs i \<le> xs ! k"
    using assms sorted_wrt_nth_less [OF assms(1), of "lower_bound xs i" k] by (cases "lower_bound xs i = k") auto
  ultimately show ?thesis by simp
qed

lemma lower_bound_eqI:
  assumes "sorted_wrt (<) xs" "k \<le> length xs" "k < length xs \<Longrightarrow> i \<le> xs ! k" "0 < k \<Longrightarrow> xs ! (k - 1) < i"
  shows "lower_bound xs i = k"
proof (rule ccontr)
  assume ne: "lower_bound xs i \<noteq> k"
  then consider "lower_bound xs i < k" | "k < lower_bound xs i" by linarith
  then show False
  proof cases
    case 1
    then have "i \<le> xs ! (k - 1)" using lower_bound_above [OF assms(1), of i "k - 1"] assms(2) by simp
    with 1 assms(4) show False by simp
  next
    case 2
    then have "xs ! k < i" "k < length xs"
      using lower_bound_below [OF 2] lower_bound_le [of xs i] by simp_all
    with assms(3) show False by simp
  qed
qed

lemma search_loop_ok:
  assumes "sorted_wrt (<) xs" "base + n \<le> length xs" "base \<le> lower_bound xs i" "lower_bound xs i \<le> base + n"
    "n = 0 \<Longrightarrow> (if 0 < val then cursor + 1 else cursor) = Suc base"
  shows "search_loop xs i base cursor val n = Suc (lower_bound xs i)"
  using assms
proof (induction n arbitrary: base cursor val rule: less_induct)
  case (less n)
  show ?case
  proof (cases "0 < n")
    case False
    with less.prems show ?thesis by (subst search_loop.simps) (auto split: if_splits)
  next
    case True
    define p where "p = n div 2"
    have p: "p < n" "base + p < length xs" using True less.prems by (auto simp: p_def)
    note unfold = search_loop.simps [of xs i base cursor val n] p_def [symmetric] True Let_def
    show ?thesis
    proof (cases i "xs ! (base + p)" rule: linorder_cases)
      case lt: less
      then have "lower_bound xs i \<le> base + p"
        using lower_bound_below [of "base + p" xs i] by (metis leI less_asym)
      then have "search_loop xs i base (base + p + 1) (- 1) p = Suc (lower_bound xs i)"
        using less.prems p by (intro less.IH) auto
      then show ?thesis using lt by (simp add: unfold cmp_def)
    next
      case greater
      then have "base + p + 1 \<le> lower_bound xs i"
        using lower_bound_above [OF less.prems(1), of i "base + p"] p by (metis Suc_eq_plus1 leI not_le not_less_eq_eq)
      then have "search_loop xs i (base + p + 1) (base + p + 1) 1 (n - (p + 1)) = Suc (lower_bound xs i)"
        using less.prems p by (intro less.IH) auto
      then show ?thesis using greater by (simp add: unfold cmp_def)
    next
      case equal
      have "lower_bound xs i = base + p"
        by (rule lower_bound_eqI [OF less.prems(1)])
          (use p equal sorted_wrt_nth_less [OF less.prems(1), of "base + p - 1" "base + p"] in auto)
      then show ?thesis
        unfolding search_loop.simps [of xs i base cursor val n] p_def [symmetric] Let_def
        using equal True by simp
    qed
  qed
qed

lemma search_ok:
  "sorted_wrt (<) xs \<Longrightarrow> mdb_idl_search e xs i = Some (Suc (lower_bound xs i))"
  using search_loop_ok [of xs 0 "length xs" i 0 1] lower_bound_le [of xs i]
  by (simp add: mdb_idl_search_def idl_check_def assert_that_def ids_increase_sorted when_check_def)

text \<open>The search splits the list; a hit is the first entry of the second part.\<close>

lemma lower_bound_split:
  assumes "sorted_wrt (<) xs"
  shows "\<exists>us vs. xs = us @ vs \<and> length us = lower_bound xs i \<and> (\<forall>u\<in>set us. u < i) \<and> (\<forall>v\<in>set vs. i \<le> v)"
proof (intro exI conjI)
  show "xs = takeWhile (\<lambda>x. x < i) xs @ dropWhile (\<lambda>x. x < i) xs" by simp
  show "length (takeWhile (\<lambda>x. x < i) xs) = lower_bound xs i" by (simp add: lower_bound_def)
  show "\<forall>u\<in>set (takeWhile (\<lambda>x. x < i) xs). u < i" by (auto dest: set_takeWhileD)
  show "\<forall>v\<in>set (dropWhile (\<lambda>x. x < i) xs). i \<le> v"
    using assms by (induction xs) auto
qed

lemma sorted_hd_last:
  assumes "sorted_wrt (<) (xs :: int list)" "x \<in> set xs"
  shows "hd xs \<le> x" "x \<le> last xs"
proof -
  show "hd xs \<le> x" using assms by (cases xs) auto
  show "x \<le> last xs"
    using assms by (cases xs rule: rev_cases) (auto simp: sorted_wrt_append)
qed

lemma list_ends:
  assumes "idl_inv (Ids xs)" "xs \<noteq> []"
  shows "id_ok (hd xs)" "id_ok (last xs)" "hd xs \<le> last xs" "set xs \<subseteq> {hd xs..last xs}"
  using assms sorted_hd_last [of xs] by (auto simp: Ball_def)

lemma idl_insert_ok:
  assumes inv: "idl_inv ids" and i: "id_ok i"
  shows "runs (mdb_idl_insert e ids i) (\<lambda>(ids', rc). idl_inv ids' \<and> insert i (idl_set ids) \<subseteq> idl_set ids' \<and>
    rc = (if i \<in> idl_set ids then - 1 else 0) \<and> (i \<in> idl_set ids \<longrightarrow> ids' = ids) \<and>
    (case ids of Ids xs \<Rightarrow> length xs + 1 < MDB_IDL_DB_MAX \<longrightarrow> idl_set ids' = insert i (idl_set ids) \<and> (\<exists>ys. ids' = Ids ys) | _ \<Rightarrow> True))"
proof (cases ids)
  case (Range f l)
  with inv i show ?thesis
    by (auto simp: mdb_idl_insert_def wp id_ok_def)
next
  case (Ids xs)
  have sorted: "sorted_wrt (<) xs" using inv Ids by simp
  obtain us vs where s: "xs = us @ vs" "length us = lower_bound xs i" "\<forall>u\<in>set us. u < i" "\<forall>v\<in>set vs. i \<le> v"
    using lower_bound_split [OF sorted] by metis
  have hit: "(lower_bound xs i < length xs \<and> xs ! lower_bound xs i = i) \<longleftrightarrow> i \<in> set xs"
    using s sorted by (cases vs) (auto simp: nth_append sorted_wrt_append)
  have ins: "list_insert (Suc (lower_bound xs i)) i xs = us @ i # vs"
    using s by (simp add: list_insert_def)
  show ?thesis
  proof (cases "i \<in> set xs")
    case True
    with hit inv Ids show ?thesis
      by (auto simp: mdb_idl_insert_def wp search_ok [OF sorted])
  next
    case False
    have new: "idl_inv (Ids (us @ i # vs))" if "length xs + 1 < MDB_IDL_DB_MAX"
      using inv i s False that unfolding Ids
      by (auto simp: sorted_wrt_append MDB_IDL_DB_MAX_def MDB_IDL_UM_MAX_def) (metis order.order_iff_strict)
    show ?thesis
    proof (cases "length xs + 1 < MDB_IDL_DB_MAX")
      case True
      have "mdb_idl_insert e ids i = Some (Ids (us @ i # vs), 0)"
        using False hit True new inv Ids
        by (simp add: mdb_idl_insert_def search_ok [OF sorted] ins) (auto simp: assert_that_def when_check_def)
      moreover have "set (us @ i # vs) = insert i (set xs)" using s(1) by auto
      ultimately show ?thesis
        using False True Ids new by (auto simp: wp)
    next
      case big: False
      then have ne: "xs \<noteq> []" by (auto simp: MDB_IDL_DB_MAX_def)
      then have hd: "xs ! 0 = hd xs" by (simp add: hd_conv_nth)
      note ends = list_ends [OF inv [unfolded Ids] ne]
      define r where "r = (if i < hd xs then Range i (last xs) else if last xs < i then Range (hd xs) i
          else Range (hd xs) (last xs))"
      have "idl_inv r" "insert i (set xs) \<subseteq> idl_set r"
        using ends i by (auto simp: r_def id_ok_def)
      moreover have "mdb_idl_insert e ids i = Some (r, 0)"
        using False hit big idl_check_ok [OF \<open>idl_inv r\<close>, of e] inv Ids
        by (cases "i < hd xs"; cases "last xs < i")
          (simp_all add: mdb_idl_insert_def search_ok [OF sorted] hd r_def Let_def assert_that_def when_check_def)
      ultimately show ?thesis
        using False big Ids by (simp add: wp)
    qed
  qed
qed


section \<open>Intersection\<close>

text \<open>The IDs an iterator has still to deliver, the current one included.\<close>

fun pending :: "idl \<Rightarrow> int \<Rightarrow> int \<Rightarrow> int set" where
  "pending (Range f l) i c = {i..l}"
| "pending (Ids ys) i c = set (drop (nat c - 1) ys)"

text \<open>An iterator in step with its list: the current ID is the first one pending, or NOID. Only the
  part of the array that is still to be read matters: the intersection overwrites the rest.\<close>

fun in_step :: "idl \<Rightarrow> int \<Rightarrow> int \<Rightarrow> bool" where
  "in_step (Range f l) i c \<longleftrightarrow> 0 < i \<and> (i = c \<and> i \<le> l \<and> i \<le> NOID \<or> i = NOID \<and> l < NOID)"
| "in_step (Ids ys) i c \<longleftrightarrow> sorted_wrt (<) (drop (nat c - 1) ys) \<and> (\<forall>y\<in>set (drop (nat c - 1) ys). id_ok y) \<and>
     length ys \<le> MDB_IDL_UM_MAX \<and> 0 < c \<and> i = id_or_end (drop (nat c - 1) ys)"

lemma next_list:
  assumes "in_step (Ids ys) i c" "i < NOID"
  shows "mdb_idl_next (Ids ys) c = (id_or_end (drop (nat c) ys), c + 1)"
    "c \<le> int (length ys)" "drop (nat c - 1) ys = i # drop (nat c) ys"
    "in_step (Ids ys) (id_or_end (drop (nat c) ys)) (c + 1)"
proof -
  have c: "nat c - 1 < length ys"
  proof (rule ccontr)
    assume "\<not> ?thesis"
    then have "drop (nat c - 1) ys = []" by simp
    with assms show False by (simp add: id_or_end_def)
  qed
  with assms show cl: "c \<le> int (length ys)" by simp
  have p: "Suc (nat c - 1) = nat c" using assms by simp
  show d: "drop (nat c - 1) ys = i # drop (nat c) ys"
    using c assms Cons_nth_drop_Suc [OF c] p by (auto simp: id_or_end_def split: list.splits)
  have m: "(c + 1) mod 2 ^ 64 = c + 1"
    using assms cl by (simp add: MDB_IDL_UM_MAX_def)
  have nc: "nat (c + 1) - 1 = nat c" using assms by (simp add: nat_add_distrib)
  show "mdb_idl_next (Ids ys) c = (id_or_end (drop (nat c) ys), c + 1)"
  proof (cases "nat c < length ys")
    case True
    then have "drop (nat c) ys = ys ! nat c # drop (Suc (nat c)) ys" by (rule Cons_nth_drop_Suc [symmetric])
    moreover have "c + 1 \<le> int (length ys)" using True by linarith
    ultimately show ?thesis
      unfolding mdb_idl_next_def Let_def m idl.case nc by (simp add: id_or_end_def)
  next
    case False
    then have "\<not> c + 1 \<le> int (length ys)" using assms by auto
    with False show ?thesis
      unfolding mdb_idl_next_def Let_def m idl.case nc by (simp add: id_or_end_def)
  qed
  show "in_step (Ids ys) (id_or_end (drop (nat c) ys)) (c + 1)"
  proof -
    have "sorted_wrt (<) (i # drop (nat c) ys)" "\<forall>y\<in>set (i # drop (nat c) ys). id_ok y"
      using assms(1) unfolding d [symmetric] by simp_all
    then show ?thesis
      using assms(1) by (simp only: in_step.simps nc) simp
  qed
qed

lemma step_pending:
  assumes "in_step b i c"
  shows "finite (pending b i c)" "\<forall>x\<in>pending b i c. i \<le> x"
proof -
  show "finite (pending b i c)" by (cases b) auto
  show "\<forall>x\<in>pending b i c. i \<le> x"
  proof (cases b)
    case (Ids ys)
    then show ?thesis using assms by (cases "drop (nat c - 1) ys") (auto simp: id_or_end_def)
  qed auto
qed

lemma next_ok:
  assumes st: "in_step b i c" and i: "i < NOID"
  shows "\<exists>i' c'. mdb_idl_next b c = (i', c') \<and> in_step b i' c' \<and> pending b i c = insert i (pending b i' c') \<and>
    i \<notin> pending b i' c'"
proof (cases b)
  case (Ids ys)
  note n = next_list [OF st [unfolded Ids] i]
  have c: "nat (c + 1) - 1 = nat c" using st Ids by (simp add: nat_add_distrib)
  have "sorted_wrt (<) (i # drop (nat c) ys)"
    using st Ids n(3) by (metis in_step.simps(2))
  then have "i \<notin> set (drop (nat c) ys)" by auto
  moreover have "pending b i c = insert i (set (drop (nat c) ys))"
    unfolding Ids pending.simps n(3) by simp
  moreover have "pending b (id_or_end (drop (nat c) ys)) (c + 1) = set (drop (nat c) ys)"
    unfolding Ids pending.simps c ..
  ultimately show ?thesis
    using n(1,4) Ids by (intro exI [of _ "id_or_end (drop (nat c) ys)"] exI [of _ "c + 1"]) simp
next
  case (Range f l)
  then have c: "i = c" "i \<le> l" "0 < i" using st i by auto
  have m: "(c + 1) mod 2 ^ 64 = c + 1" using c i by (simp add: NOID_def)
  show ?thesis
  proof (cases "l < c + 1")
    case True
    with c i have "l = i" by simp
    with Range True c i show ?thesis
      unfolding mdb_idl_next_def Let_def m by (auto simp: NOID_def)
  next
    case False
    with Range c i show ?thesis
      unfolding mdb_idl_next_def Let_def m by auto
  qed
qed

lemma intersect_loop_ok:
  assumes "in_step (Ids xs) ida ca" "in_step b idb cb" "idmax < NOID" "k < nat ca"
    "\<forall>x\<in>set (drop (nat ca - 1) xs) \<inter> pending b idb cb. x \<le> idmax"
  shows "\<exists>xs' k'. intersect_loop xs b idmax ida ca idb cb k = Some (xs', k') \<and>
    take k' xs' = take k xs @ filter (\<lambda>x. x \<in> pending b idb cb) (drop (nat ca - 1) xs)"
  using assms
proof (induction "length (drop (nat ca - 1) xs) + card (pending b idb cb)" arbitrary: xs ida ca idb cb k
    rule: less_induct)
  case less
  note pa = step_pending [OF less.prems(1)] and pb = step_pending [OF less.prems(2)]
  show ?case
  proof (cases "ida \<le> idmax \<or> idb \<le> idmax")
    case False
    have "x \<notin> pending b idb cb" if "x \<in> set (drop (nat ca - 1) xs)" for x
    proof
      assume "x \<in> pending b idb cb"
      then have "x \<le> idmax" "ida \<le> x" using less.prems(5) pa(2) that by auto
      with False show False by simp
    qed
    then have "filter (\<lambda>x. x \<in> pending b idb cb) (drop (nat ca - 1) xs) = []"
      by (simp add: filter_empty_conv)
    with False show ?thesis by (subst intersect_loop.simps) simp
  next
    case True
    show ?thesis
    proof (cases ida idb rule: linorder_cases)
      case lt: less
      then have i: "ida < NOID" using True less.prems(3) by linarith
      note n = next_list [OF less.prems(1) i]
      have c: "nat (ca + 1) - 1 = nat ca" using less.prems(1) by (simp add: nat_add_distrib)
      have out: "ida \<notin> pending b idb cb" using pb lt by auto
      have hyp: "\<exists>xs' k'. intersect_loop xs b idmax (id_or_end (drop (nat ca) xs)) (ca + 1) idb cb k = Some (xs', k') \<and>
          take k' xs' = take k xs @ filter (\<lambda>x. x \<in> pending b idb cb) (drop (nat (ca + 1) - 1) xs)"
      proof (rule less.hyps [OF _ n(4) less.prems(2,3)])
        show "length (drop (nat (ca + 1) - 1) xs) + card (pending b idb cb)
            < length (drop (nat ca - 1) xs) + card (pending b idb cb)"
          unfolding c n(3) by simp
        show "k < nat (ca + 1)" using less.prems(4) by linarith
        show "\<forall>x\<in>set (drop (nat (ca + 1) - 1) xs) \<inter> pending b idb cb. x \<le> idmax"
          using less.prems(5) unfolding c n(3) by simp
      qed
      show ?thesis
        using True lt n(1,3) out hyp [unfolded c] by (subst intersect_loop.simps) simp
    next
      case greater
      then have i: "idb < NOID" using True less.prems(3) by linarith
      obtain i' c' where n: "mdb_idl_next b cb = (i', c')" "in_step b i' c'"
          "pending b idb cb = insert idb (pending b i' c')" "idb \<notin> pending b i' c'"
        using next_ok [OF less.prems(2) i] by blast
      have f: "filter (\<lambda>x. x \<in> pending b idb cb) (drop (nat ca - 1) xs) = filter (\<lambda>x. x \<in> pending b i' c') (drop (nat ca - 1) xs)"
        using pa(2) greater n(3) by (intro filter_cong) auto
      have "card (pending b i' c') < card (pending b idb cb)"
        using pb(1) n(3,4) by simp
      then obtain xs' k' where "intersect_loop xs b idmax ida ca i' c' k = Some (xs', k')"
          "take k' xs' = take k xs @ filter (\<lambda>x. x \<in> pending b i' c') (drop (nat ca - 1) xs)"
        using less.hyps [of ca xs i' c' ida k] less.prems n by auto
      then show ?thesis
        using True greater n f by (subst intersect_loop.simps) auto
    next
      case equal
      then have i: "ida < NOID" "idb < NOID" using True less.prems(3) by linarith+
      define ys where "ys = xs[k := ida]"
      have kl: "k < length xs" using next_list(2) [OF less.prems(1) i(1)] less.prems(4) by linarith
      have d: "drop (nat ca - 1) xs = ida # drop (nat ca) xs"
        using next_list(3) [OF less.prems(1) i(1)] .
      have dy: "drop (nat ca) ys = drop (nat ca) xs" using less.prems(4) by (simp add: ys_def)
      have c: "nat (ca + 1) - 1 = nat ca" using less.prems(1) by (simp add: nat_add_distrib)
      have ty: "take (Suc k) ys = take k xs @ [ida]" using kl by (simp add: ys_def take_Suc_conv_app_nth)
      have sy: "in_step (Ids ys) (id_or_end (drop (nat ca) ys)) (ca + 1)"
        using next_list(4) [OF less.prems(1) i(1)] less.prems(1) c dy by (simp add: ys_def)
      have ny: "mdb_idl_next (Ids ys) ca = (id_or_end (drop (nat ca) ys), ca + 1)"
      proof -
        have "mdb_idl_next (Ids ys) ca = mdb_idl_next (Ids xs) ca"
          using less.prems(4) next_list(2) [OF less.prems(1) i(1)] less.prems(1)
          by (auto simp: mdb_idl_next_def ys_def Let_def nth_list_update MDB_IDL_UM_MAX_def)
        then show ?thesis using next_list(1) [OF less.prems(1) i(1)] dy by simp
      qed
      obtain i' c' where n: "mdb_idl_next b cb = (i', c')" "in_step b i' c'"
          "pending b idb cb = insert idb (pending b i' c')" "idb \<notin> pending b i' c'"
        using next_ok [OF less.prems(2) i(2)] by blast
      have "sorted_wrt (<) (ida # drop (nat ca) xs)" using less.prems(1) unfolding d [symmetric] by simp
      then have up: "\<forall>x\<in>set (drop (nat ca) xs). ida < x" by simp
      have f: "filter (\<lambda>x. x \<in> pending b idb cb) (drop (nat ca - 1) xs)
          = ida # filter (\<lambda>x. x \<in> pending b i' c') (drop (nat ca) xs)"
        unfolding d using up equal n(3) by (auto intro!: filter_cong)
      have "card (pending b i' c') < card (pending b idb cb)"
        using pb(1) n(3,4) by simp
      then have hyp: "\<exists>xs' k'. intersect_loop ys b idmax (id_or_end (drop (nat ca) ys)) (ca + 1) i' c' (Suc k) = Some (xs', k') \<and>
          take k' xs' = take (Suc k) ys @ filter (\<lambda>x. x \<in> pending b i' c') (drop (nat (ca + 1) - 1) ys)"
      proof (intro less.hyps [OF _ sy n(2) less.prems(3)])
        assume "card (pending b i' c') < card (pending b idb cb)"
        then show "length (drop (nat (ca + 1) - 1) ys) + card (pending b i' c')
            < length (drop (nat ca - 1) xs) + card (pending b idb cb)"
          unfolding c d dy by simp
        show "Suc k < nat (ca + 1)" using less.prems(4) by linarith
        show "\<forall>x\<in>set (drop (nat (ca + 1) - 1) ys) \<inter> pending b i' c'. x \<le> idmax"
          using less.prems(5) unfolding c d dy n(3) by simp
      qed
      show ?thesis
        using True equal n(1) ny f ty hyp [unfolded c dy]
        by (subst intersect_loop.simps) (simp add: Let_def dy ys_def [symmetric, unfolded equal])
    qed
  qed
qed


lemma first_list:
  assumes "sorted_wrt (<) xs" "\<forall>x\<in>set xs. id_ok x" "length xs \<le> MDB_IDL_UM_MAX" "0 < m" "xs \<noteq> []" "m \<le> last xs"
  shows "\<exists>i c. mdb_idl_first e (Ids xs) m = Some (i, c) \<and> in_step (Ids xs) i c \<and>
    set (drop (nat c - 1) xs) = {x \<in> set xs. m \<le> x} \<and> drop (nat c - 1) xs = filter (\<lambda>x. m \<le> x) xs"
proof -
  obtain us vs where s: "xs = us @ vs" "length us = lower_bound xs m" "\<forall>u\<in>set us. u < m" "\<forall>v\<in>set vs. m \<le> v"
    using lower_bound_split [OF assms(1)] by metis
  have "vs \<noteq> []"
  proof
    assume "vs = []"
    then have "last xs \<in> set us" using s(1) assms(5) by simp
    with s(3) assms(6) show False by auto
  qed
  then obtain v ws where vs: "vs = v # ws" by (cases vs) auto
  define c where "c = int (Suc (lower_bound xs m))"
  have c: "nat c - 1 = length us" "0 < c" using s by (simp_all add: c_def)
  have d: "drop (nat c - 1) xs = vs" unfolding c(1) using s(1) by simp
  have "xs ! lower_bound xs m = v" "\<not> length xs < Suc (lower_bound xs m)"
    using s vs by (auto simp flip: s(2)) (metis nth_append_length)
  then have "mdb_idl_first e (Ids xs) m = Some (v, c)"
    using assms(1,4,5) by (simp add: mdb_idl_first_def search_ok c_def)
  moreover have "in_step (Ids xs) v c"
    using assms(1-3) c d vs by (simp add: id_or_end_def s(1) sorted_wrt_append)
  moreover have "vs = filter (\<lambda>x. m \<le> x) xs" "set vs = {x \<in> set xs. m \<le> x}"
    using s(3,4) unfolding s(1) by (auto simp: filter_empty_conv not_le)
  ultimately show ?thesis using d by auto
qed


lemma first_ok:
  assumes inv: "idl_inv b" and z: "\<not> MDB_IDL_IS_ZERO b" and m: "MDB_IDL_FIRST b \<le> m" "m \<le> MDB_IDL_LAST b" "0 < m" "m < NOID"
  shows "\<exists>i c. mdb_idl_first e b m = Some (i, c) \<and> in_step b i c \<and> pending b i c = {x \<in> idl_set b. m \<le> x}"
proof (cases b)
  case (Ids ys)
  with assms show ?thesis using first_list [of ys m e] by auto
next
  case (Range f l)
  with assms show ?thesis by (auto simp: mdb_idl_first_def)
qed

lemma first_last:
  assumes "idl_inv a" "\<not> MDB_IDL_IS_ZERO a"
  shows "MDB_IDL_FIRST a \<in> idl_set a" "MDB_IDL_LAST a \<in> idl_set a" "\<forall>x\<in>idl_set a. MDB_IDL_FIRST a \<le> x \<and> x \<le> MDB_IDL_LAST a"
    "0 < MDB_IDL_FIRST a" "MDB_IDL_LAST a \<le> NOID" "MDB_IDL_FIRST a < NOID"
proof -
  have "MDB_IDL_FIRST a \<in> idl_set a \<and> MDB_IDL_LAST a \<in> idl_set a \<and>
      0 < MDB_IDL_FIRST a \<and> MDB_IDL_LAST a \<le> NOID \<and> MDB_IDL_FIRST a < NOID"
  proof (cases a)
    case (Ids xs)
    with assms have "id_ok (hd xs)" "id_ok (last xs)" "xs \<noteq> []" using list_ends [of xs] by auto
    then show ?thesis by (simp add: id_ok_def Ids)
  qed (use assms in auto)
  then show "MDB_IDL_FIRST a \<in> idl_set a" "MDB_IDL_LAST a \<in> idl_set a" "0 < MDB_IDL_FIRST a" "MDB_IDL_LAST a \<le> NOID"
    "MDB_IDL_FIRST a < NOID"
    by simp_all
  show "\<forall>x\<in>idl_set a. MDB_IDL_FIRST a \<le> x \<and> x \<le> MDB_IDL_LAST a"
    using assms sorted_hd_last by (cases a) auto
qed

lemma intersect_list_ok:
  assumes a: "idl_inv (Ids xs)" "xs \<noteq> []" and b: "idl_inv b" "\<not> MDB_IDL_IS_ZERO b"
    and m: "idmin = max (hd xs) (MDB_IDL_FIRST b)" "idmax = min (last xs) (MDB_IDL_LAST b)" "idmin < idmax"
  shows "\<exists>zs. intersect_list e xs b idmin idmax = Some zs \<and> zs = filter (\<lambda>x. x \<in> idl_set b) xs"
proof (cases "range_covers b xs")
  case True
  then obtain f l where r: "b = Range f l" "f \<le> hd xs" "last xs \<le> l" by (auto simp: range_covers_def split: idl.splits)
  have "set xs \<subseteq> {f..l}" using list_ends(4) [OF a] r by force
  with True r show ?thesis by (auto simp: intersect_list_def filter_id_conv intro!: filter_True [symmetric])
next
  case False
  note fb = first_last [OF b]
  have ends: "id_ok (hd xs)" "id_ok (last xs)" "set xs \<subseteq> {hd xs..last xs}" using list_ends [OF a] by simp_all
  have lim: "0 < idmin" "idmin < NOID" "idmax < NOID" "idmin \<le> last xs" "MDB_IDL_FIRST b \<le> idmin" "idmin \<le> MDB_IDL_LAST b"
    using m ends by (auto simp: id_ok_def)
  obtain ida ca where A: "mdb_idl_first e (Ids xs) idmin = Some (ida, ca)" "in_step (Ids xs) ida ca"
      "drop (nat ca - 1) xs = filter (\<lambda>x. idmin \<le> x) xs"
  proof -
    have "\<exists>i c. mdb_idl_first e (Ids xs) idmin = Some (i, c) \<and> in_step (Ids xs) i c \<and>
        set (drop (nat c - 1) xs) = {x \<in> set xs. idmin \<le> x} \<and> drop (nat c - 1) xs = filter (\<lambda>x. idmin \<le> x) xs"
      by (rule first_list) (use a lim in auto)
    then show thesis using that by blast
  qed
  obtain idb cb where B: "mdb_idl_first e b idmin = Some (idb, cb)" "in_step b idb cb"
      "pending b idb cb = {x \<in> idl_set b. idmin \<le> x}"
    using first_ok [OF b lim(5,6,1,2), of e] by blast
  have mx: "\<forall>x\<in>set (drop (nat ca - 1) xs) \<inter> pending b idb cb. x \<le> idmax"
    unfolding A(3) B(3) using ends(3) fb(3) m(2) by auto
  have k: "0 < nat ca" using A(2) by simp
  from intersect_loop_ok [OF A(2) B(2) lim(3) k mx]
  obtain xs' k' where L: "intersect_loop xs b idmax ida ca idb cb 0 = Some (xs', k')"
      "take k' xs' = filter (\<lambda>x. x \<in> pending b idb cb) (drop (nat ca - 1) xs)"
    by auto
  have "filter (\<lambda>x. x \<in> pending b idb cb) (drop (nat ca - 1) xs) = filter (\<lambda>x. x \<in> idl_set b) xs"
    unfolding A(3) B(3) filter_filter using m(1) ends(3) fb(3) by (intro filter_cong) force+
  with False A(1) B(1) L show ?thesis by (simp add: intersect_list_def)
qed

lemma filter_inv:
  assumes "idl_inv (Ids xs)"
  shows "idl_inv (Ids (filter P xs))"
  using assms order_trans [OF length_filter_le] by (auto simp: sorted_wrt_filter)

text \<open>The bounds meet in a single ID that one of the two lacks.\<close>

definition phantom :: "idl \<Rightarrow> idl \<Rightarrow> bool" where
  "phantom a b \<longleftrightarrow> \<not> MDB_IDL_IS_ZERO a \<and> \<not> MDB_IDL_IS_ZERO b \<and>
     (let m = max (MDB_IDL_FIRST a) (MDB_IDL_FIRST b)
      in m = min (MDB_IDL_LAST a) (MDB_IDL_LAST b) \<and> m \<notin> idl_set a \<inter> idl_set b)"

lemma intersection_ok:
  assumes a: "idl_inv a" and b: "idl_inv b"
  shows "\<exists>a' b'. mdb_idl_intersection e a b = Some (a', b') \<and> idl_inv a' \<and>
    idl_set a' = (if phantom a b then {max (MDB_IDL_FIRST a) (MDB_IDL_FIRST b)} else idl_set a \<inter> idl_set b)"
proof (cases "MDB_IDL_IS_ZERO a \<or> MDB_IDL_IS_ZERO b")
  case True
  then have "idl_set a \<inter> idl_set b = {}" by (cases a; cases b) auto
  with True show ?thesis by (auto simp: mdb_idl_intersection_def phantom_def MDB_IDL_UM_MAX_def)
next
  case False
  then have z: "\<not> MDB_IDL_IS_ZERO a" "\<not> MDB_IDL_IS_ZERO b" by auto
  note fa = first_last [OF a z(1)] and fb = first_last [OF b z(2)]
  define m where "m = max (MDB_IDL_FIRST a) (MDB_IDL_FIRST b)"
  define n where "n = min (MDB_IDL_LAST a) (MDB_IDL_LAST b)"
  have mn: "\<forall>x\<in>idl_set a \<inter> idl_set b. m \<le> x \<and> x \<le> n" using fa(3) fb(3) by (auto simp: m_def n_def)
  have ok: "id_ok m" using fa fb by (auto simp: m_def id_ok_def)
  note unf = mdb_idl_intersection_def Let_def m_def [symmetric] n_def [symmetric] False
  consider "n < m" | "m = n" | "m < n" by linarith
  then show ?thesis
  proof cases
    case 1
    then have "idl_set a \<inter> idl_set b = {}" using mn by force
    with 1 show ?thesis by (simp add: unf phantom_def MDB_IDL_UM_MAX_def)
  next
    case 2
    then have "idl_set a \<inter> idl_set b \<subseteq> {m}" using mn by force
    with 2 ok z show ?thesis by (auto simp: unf phantom_def MDB_IDL_UM_MAX_def)
  next
    case 3
    then have np: "\<not> phantom a b" using False by (simp add: phantom_def Let_def flip: m_def n_def)
    show ?thesis
    proof (cases a)
      case (Ids xs)
      then have ne: "xs \<noteq> []" using z by simp
      have "\<exists>zs. intersect_list e xs b m n = Some zs \<and> zs = filter (\<lambda>x. x \<in> idl_set b) xs"
        by (rule intersect_list_ok) (use a b z Ids ne 3 in \<open>auto simp: m_def n_def\<close>)
      moreover have "mdb_idl_intersection e a b = Option.bind (intersect_list e xs b m n) (\<lambda>zs. Some (Ids zs, b))"
        unfolding mdb_idl_intersection_def Let_def m_def [symmetric] n_def [symmetric]
        using 3 z by (simp add: Ids)
      ultimately show ?thesis
        using np Ids filter_inv [of xs "\<lambda>x. x \<in> idl_set b"] a by (auto simp del: idl_inv.simps)
    next
      case (Range f l)
      show ?thesis
      proof (cases b)
        case (Ids ys)
        then have ne: "ys \<noteq> []" using z by simp
        have "\<exists>zs. intersect_list e ys a m n = Some zs \<and> zs = filter (\<lambda>x. x \<in> idl_set a) ys"
          by (rule intersect_list_ok) (use a b z Range Ids ne 3 in \<open>auto simp: m_def n_def\<close>)
        moreover have "mdb_idl_intersection e a b = Option.bind (intersect_list e ys a m n) (\<lambda>zs. Some (Ids zs, Ids zs))"
          unfolding mdb_idl_intersection_def Let_def m_def [symmetric] n_def [symmetric]
          using 3 z by (simp add: Ids Range)
        ultimately show ?thesis
          using np Ids Range filter_inv [of ys "\<lambda>x. x \<in> idl_set a"] b by (auto simp del: idl_inv.simps)
      next
        case R: (Range f' l')
        have "mdb_idl_intersection e a b = Some (Range m n, b)"
          unfolding mdb_idl_intersection_def Let_def m_def [symmetric] n_def [symmetric]
          using 3 z by (simp add: R Range)
        moreover have "n \<le> NOID" using fa(5) by (simp add: n_def)
        moreover have "idl_set a \<inter> idl_set b = {m..n}" by (auto simp: m_def n_def R Range)
        ultimately show ?thesis using np ok 3 by (simp add: id_ok_def)
      qed
    qed
  qed
qed

section \<open>Union\<close>

lemma union_cat_ok:
  assumes "sorted_wrt (<) xs" "sorted_wrt (<) ys" "\<forall>x\<in>set xs \<union> set ys. id_ok x" "n \<le> MDB_IDL_UM_MAX"
  shows "union_cat xs ys n = (let cs = filter (\<lambda>x. x \<notin> set ys) xs in if n + length cs \<le> MDB_IDL_UM_MAX then Some cs else None)"
  using assms
proof (induction xs ys n rule: union_cat.induct)
  case (1 xs ys n)
  show ?case
  proof (cases xs)
    case Nil
    show ?thesis
    proof (cases ys)
      case Nil
      with \<open>xs = []\<close> 1 show ?thesis by (subst union_cat.simps) (simp add: id_or_end_def)
    next
      case (Cons y zs)
      then have y: "y < NOID" using 1 by (simp add: id_ok_def)
      have "union_cat [] zs n = Some []"
        using 1(2) [OF refl refl] 1 Nil Cons y by (simp add: id_or_end_def)
      with Nil Cons y 1 show ?thesis by (subst union_cat.simps) (simp add: id_or_end_def)
    qed
  next
    case x: (Cons x us)
    then have xn: "x < NOID" using 1 by (simp add: id_ok_def)
    show ?thesis
    proof (cases "x < id_or_end ys")
      case True
      then have out: "x \<notin> set ys" using 1 by (cases ys) (auto simp: id_or_end_def)
      show ?thesis
      proof (cases "MDB_IDL_UM_MAX < n + 1")
        case big: True
        with True x xn out show ?thesis by (subst union_cat.simps) (auto simp: id_or_end_def Let_def)
      next
        case False
        have "union_cat us ys (n + 1) = (let cs = filter (\<lambda>x. x \<notin> set ys) us in if n + 1 + length cs \<le> MDB_IDL_UM_MAX then Some cs else None)"
          using 1(1) [OF refl refl] 1 x xn True False by (auto simp: id_or_end_def)
        with True False x xn out show ?thesis by (subst union_cat.simps) (auto simp: id_or_end_def Let_def)
      qed
    next
      case False
      then obtain y zs where y: "ys = y # zs" "y \<le> x" using xn by (cases ys) (auto simp: id_or_end_def)
      then have yn: "y < NOID" using xn by simp
      let ?us = "if x = y then us else xs"
      have A: "union_cat ?us zs n = (let cs = filter (\<lambda>x. x \<notin> set zs) ?us in if n + length cs \<le> MDB_IDL_UM_MAX then Some cs else None)"
        using 1(2) [OF refl refl] 1 x xn y yn False by (auto simp: id_or_end_def)
      have B: "filter (\<lambda>x. x \<notin> set ys) xs = filter (\<lambda>x. x \<notin> set zs) ?us"
        using 1 x y by (auto intro!: filter_cong)
      have "union_cat xs ys n = union_cat ?us zs n"
        using False x y xn yn by (subst union_cat.simps) (simp add: id_or_end_def)
      then show ?thesis by (simp only: A B)
    qed
  qed
qed

lemma union_merge_ok:
  assumes "sorted_wrt (<) ys" "sorted_wrt (<) cs" "set ys \<inter> set cs = {}" "\<forall>x\<in>set ys \<union> set cs. id_ok x"
  shows "\<exists>zs. union_merge ys cs = Some zs \<and> sorted_wrt (<) zs \<and> set zs = set ys \<union> set cs \<and> length zs = length ys + length cs"
  using assms
proof (induction ys cs rule: union_merge.induct)
  case (1 ys cs)
  show ?case
  proof (cases "ys = [] \<and> cs = []")
    case True
    then show ?thesis by (subst union_merge.simps) simp
  next
    case ne: False
    show ?thesis
    proof (cases "ys \<noteq> [] \<and> hd ys < id_or_end cs")
      case True
      then obtain y zs where y: "ys = y # zs" "y < id_or_end cs" by (cases ys) auto
      obtain r where "union_merge zs cs = Some r" "sorted_wrt (<) r" "set r = set zs \<union> set cs" "length r = length zs + length cs"
        using 1(1) [OF ne refl True] 1 y by auto
      moreover have "\<forall>c\<in>set cs. y < c"
        using 1 y(2) by (cases cs) (auto simp: id_or_end_def)
      ultimately show ?thesis
        using ne True y 1 by (subst union_merge.simps) auto
    next
      case False
      then obtain c ds where c: "cs = c # ds" using ne 1 by (cases cs) (auto simp: id_or_end_def id_ok_def neq_Nil_conv)
      obtain r where "union_merge ys ds = Some r" "sorted_wrt (<) r" "set r = set ys \<union> set ds" "length r = length ys + length ds"
        using 1(2) [OF ne refl False] 1 c by auto
      moreover have "\<forall>y\<in>set ys. c < y"
        using 1 False c by (cases ys) (auto simp: id_or_end_def)
      ultimately show ?thesis
        using ne False c 1 by (subst union_merge.simps) (auto simp: id_or_end_def)
    qed
  qed
qed


lemma span_ok:
  assumes "idl_inv a" "idl_inv b" "\<not> MDB_IDL_IS_ZERO a" "\<not> MDB_IDL_IS_ZERO b"
  shows "idl_inv (idl_span a b)" "idl_set a \<union> idl_set b \<subseteq> idl_set (idl_span a b)"
proof -
  note fa = first_last [OF assms(1,3)] and fb = first_last [OF assms(2,4)]
  show "idl_inv (idl_span a b)"
    using fa fb by (auto simp: idl_span_def min_def max_def)
  show "idl_set a \<union> idl_set b \<subseteq> idl_set (idl_span a b)"
    using fa(3) fb(3) by (auto simp: idl_span_def min_le_iff_disj le_max_iff_disj)
qed

lemma union_ok:
  assumes a: "idl_inv a" and b: "idl_inv b"
  shows "\<exists>c. mdb_idl_union a b = Some c \<and> idl_inv c \<and> idl_set a \<union> idl_set b \<subseteq> idl_set c \<and>
    (case (a, b) of (Ids xs, Ids ys) \<Rightarrow> card (set xs \<union> set ys) \<le> MDB_IDL_UM_MAX \<longrightarrow> idl_set c = idl_set a \<union> idl_set b | _ \<Rightarrow> True)"
proof (cases "MDB_IDL_IS_ZERO a \<or> MDB_IDL_IS_ZERO b")
  case True
  with assms show ?thesis by (cases a; cases b) (auto simp: mdb_idl_union_def)
next
  case False
  note span = span_ok [OF a b]
  show ?thesis
  proof (cases "\<exists>xs ys. a = Ids xs \<and> b = Ids ys")
    case R: False
    then have "mdb_idl_union a b = Some (idl_span a b)"
      using False by (cases a; cases b) (auto simp: mdb_idl_union_def)
    with span False R show ?thesis by (cases a; cases b) auto
  next
    case True
    then obtain xs ys where l: "a = Ids xs" "b = Ids ys" by blast
    define cs where "cs = filter (\<lambda>x. x \<notin> set ys) xs"
    have dis: "distinct xs" "distinct ys" using a b l by (auto simp: strict_sorted_iff)
    have "set xs \<union> set ys = set (ys @ cs)" "distinct (ys @ cs)"
      using dis by (auto simp: cs_def)
    then have card: "card (set xs \<union> set ys) = length ys + length cs"
      using distinct_card by fastforce
    have cat: "union_cat xs ys (length ys) = (if length ys + length cs \<le> MDB_IDL_UM_MAX then Some cs else None)"
      using union_cat_ok [of xs ys "length ys"] a b l by (simp add: cs_def Let_def ball_Un)
    have body: "mdb_idl_union a b = (if length ys + length cs \<le> MDB_IDL_UM_MAX then map_option Ids (union_merge ys cs) else Some (idl_span a b))"
      using False l cat by (simp add: mdb_idl_union_def)
    show ?thesis
    proof (cases "length ys + length cs \<le> MDB_IDL_UM_MAX")
      case True
      have "\<exists>zs. union_merge ys cs = Some zs \<and> sorted_wrt (<) zs \<and> set zs = set ys \<union> set cs \<and> length zs = length ys + length cs"
        by (rule union_merge_ok) (use a b l in \<open>auto simp: cs_def sorted_wrt_filter\<close>)
      then obtain zs where "union_merge ys cs = Some zs" "sorted_wrt (<) zs" "set zs = set ys \<union> set cs" "length zs = length ys + length cs"
        by blast
      moreover from this have "set zs = set xs \<union> set ys" "idl_inv (Ids zs)"
        using a b l True by (auto simp: cs_def)
      moreover have "mdb_idl_union a b = Some (Ids zs)"
        using calculation(1) True by (simp add: body)
      ultimately show ?thesis using l by auto
    next
      case over: False
      then have "mdb_idl_union a b = Some (idl_span a b)" by (simp add: body)
      with over span False l card show ?thesis by auto
    qed
  qed
qed

section \<open>Appending\<close>

text \<open>An unsorted list whose first entry is its minimum and whose last entry is its maximum.\<close>

definition ends_ok :: "int list \<Rightarrow> bool" where
  "ends_ok xs \<longleftrightarrow> (\<forall>x\<in>set xs. hd xs \<le> x \<and> x \<le> last xs)"

lemma append_one_list:
  assumes "ends_ok xs" "length xs + 1 < MDB_IDL_UM_MAX"
  shows "\<exists>ys. mdb_idl_append_one (Ids xs) i = (Ids ys, 0) \<and> ends_ok ys \<and> mset ys = add_mset i (mset xs)"
proof -
  consider "xs = []" | x where "xs = [x]" | x us y where "xs = x # us @ [y]"
    by (metis neq_Nil_conv rev_exhaust)
  then show ?thesis
  proof cases
    case 1
    with assms show ?thesis by (simp add: mdb_idl_append_one_def ends_ok_def)
  next
    case 2
    with assms show ?thesis by (auto simp: mdb_idl_append_one_def ends_ok_def)
  next
    case 3
    with assms show ?thesis
      by (auto simp: mdb_idl_append_one_def ends_ok_def Let_def nth_append)
  qed
qed


section \<open>Lists with values\<close>

lemma id2l_insert_ok:
  assumes "sorted_wrt (<) (map fst ids)" "length ids < MDB_IDL_UM_MAX"
  shows "\<exists>ids'. mdb_id2l_insert e ids (i, v) = Some (ids', if i \<in> fst ` set ids then - 1 else 0) \<and>
    sorted_wrt (<) (map fst ids') \<and> map_of ids' = (if i \<in> fst ` set ids then map_of ids else (map_of ids)(i \<mapsto> v))"
proof -
  define k where "k = lower_bound (map fst ids) i"
  have x: "mdb_id2l_search ids i = Suc k"
    using search_loop_ok [OF assms(1), of 0 "length ids" i 0 1] lower_bound_le [of "map fst ids" i]
    by (simp add: mdb_id2l_search_def k_def)
  obtain us vs where s: "map fst ids = us @ vs" "length us = k" "\<forall>u\<in>set us. u < i" "\<forall>w\<in>set vs. i \<le> w"
    using lower_bound_split [OF assms(1), of i] by (auto simp: k_def)
  define A where "A = take k ids"
  define B where "B = drop k ids"
  have ids: "ids = A @ B" by (simp add: A_def B_def)
  have m: "map fst A = us" "map fst B = vs"
    using s by (simp_all add: A_def B_def flip: take_map drop_map)
  have hit: "(Suc k \<le> length ids \<and> fst (ids ! k) = i) \<longleftrightarrow> i \<in> fst ` set ids"
  proof -
    have "i \<notin> fst ` set A" using s(3) m(1) by (metis image_set less_irrefl)
    moreover have "length A = k" using s(2) m(1) by (metis length_map)
    moreover have "sorted_wrt (<) (map fst B)" using assms(1) by (simp add: ids sorted_wrt_append)
    ultimately show ?thesis
      using s(4) m(2) by (cases B) (auto simp: ids nth_append)
  qed
  show ?thesis
  proof (cases "i \<in> fst ` set ids")
    case True
    with hit assms show ?thesis by (simp add: mdb_id2l_insert_def x assert_that_def)
  next
    case False
    have "list_insert (Suc k) (i, v) ids = A @ (i, v) # B" by (simp add: list_insert_def A_def B_def)
    moreover have "sorted_wrt (<) (map fst (A @ (i, v) # B))"
    proof -
      have "\<forall>w\<in>set vs. i < w" using s(4) False m(2) by (metis UnI2 ids image_set order_le_less set_append image_Un)
      then show ?thesis using assms(1) s by (auto simp: m sorted_wrt_append)
    qed
    moreover have "map_of (A @ (i, v) # B) = (map_of (A @ B))(i \<mapsto> v)"
    proof -
      have "map_of A i = None" using False by (auto simp: ids map_of_eq_None_iff)
      then show ?thesis by (auto simp: map_add_def fun_eq_iff split: option.splits)
    qed
    moreover have "mdb_id2l_insert e ids (i, v) = Some (list_insert (Suc k) (i, v) ids, 0)"
      using False hit assms(2) by (auto simp: mdb_id2l_insert_def x assert_that_def Let_def)
    ultimately show ?thesis using False by (simp add: ids)
  qed
qed

section \<open>Properties\<close>

definition plain_env :: env where
  "plain_env = \<lparr>env_assert = True, env_check = True, env_strict = True, env_now = [], env_stamp = [], slap_serverID = 1\<rparr>"

text \<open>The binary search over a strictly increasing list returns the 1-based position of the first ID
  that is not below the one searched.\<close>

lemma idl_search_correct:
  assumes "sorted_wrt (<) xs"
  shows "mdb_idl_search e xs i = Some (Suc (length (takeWhile (\<lambda>x. x < i) xs)))"
  using search_ok [OF assms] by (simp add: lower_bound_def)

lemma idl_search_correct_witness: "mdb_idl_search plain_env [2, 5, 9] 6 = Some 3"
  using idl_search_correct [of "[2, 5, 9]" plain_env 6] by simp

text \<open>C31. Inserting an ID keeps the list well-formed and never loses an ID: the result contains the old
  ones and the new one, and is exactly that as long as the list stays below its size limit; beyond it the list becomes a
  range that covers them. The return code tells duplicates.\<close>

theorem idl_insert_correct:
  assumes "idl_inv ids" "id_ok i"
  shows "\<exists>ids'. mdb_idl_insert e ids i = Some (ids', if i \<in> idl_set ids then - 1 else 0) \<and> idl_inv ids' \<and>
    insert i (idl_set ids) \<subseteq> idl_set ids' \<and> (i \<in> idl_set ids \<longrightarrow> ids' = ids) \<and>
    (\<forall>xs. ids = Ids xs \<longrightarrow> length xs + 1 < MDB_IDL_DB_MAX \<longrightarrow> idl_set ids' = insert i (idl_set ids))"
  using idl_insert_ok [OF assms, of e] by (cases ids) (auto simp: runs_def)

lemma idl_insert_correct_witness:
  "\<exists>ids'. mdb_idl_insert plain_env (Ids [2, 9]) 5 = Some (ids', 0) \<and> idl_set ids' = {2, 5, 9}"
  using idl_insert_correct [of "Ids [2, 9]" 5 plain_env]
  by (auto simp: id_ok_def NOID_def MDB_IDL_UM_MAX_def MDB_IDL_DB_MAX_def)

text \<open>C29. The intersection of two well-formed lists always ends, is well-formed, and holds exactly the
  common IDs, unless the bounds of the two meet in one single ID that one of them lacks: then the result is that ID.
  The common IDs are never lost.\<close>

theorem idl_intersection_correct:
  assumes "idl_inv a" "idl_inv b"
  shows "\<exists>a' b'. mdb_idl_intersection e a b = Some (a', b') \<and> idl_inv a' \<and> idl_set a \<inter> idl_set b \<subseteq> idl_set a' \<and>
    idl_set a' = (if phantom a b then {max (MDB_IDL_FIRST a) (MDB_IDL_FIRST b)} else idl_set a \<inter> idl_set b)"
proof -
  have "idl_set a \<inter> idl_set b \<subseteq> {max (MDB_IDL_FIRST a) (MDB_IDL_FIRST b)}" if "phantom a b"
  proof
    fix x assume x: "x \<in> idl_set a \<inter> idl_set b"
    then have "max (MDB_IDL_FIRST a) (MDB_IDL_FIRST b) \<le> x" "x \<le> min (MDB_IDL_LAST a) (MDB_IDL_LAST b)"
      using first_last(3) [OF assms(1)] first_last(3) [OF assms(2)] that by (auto simp: phantom_def)
    with that show "x \<in> {max (MDB_IDL_FIRST a) (MDB_IDL_FIRST b)}" by (auto simp: phantom_def Let_def)
  qed
  then show ?thesis using intersection_ok [OF assms, of e] by fastforce
qed

lemma idl_intersection_correct_witness:
  "\<exists>a' b'. mdb_idl_intersection plain_env (Ids [2, 5, 9]) (Range 3 NOID) = Some (a', b') \<and> idl_set a' = {5, 9}"
proof -
  have "\<not> phantom (Ids [2, 5, 9]) (Range 3 NOID)" by (simp add: phantom_def NOID_def Let_def)
  moreover have "{2, 5, 9} \<inter> {3..NOID} = {5, 9}" by (auto simp: NOID_def)
  ultimately show ?thesis
    using idl_intersection_correct [of "Ids [2, 5, 9]" "Range 3 NOID" plain_env]
    by (auto simp: id_ok_def NOID_def MDB_IDL_UM_MAX_def)
qed

text \<open>C30. The union of two well-formed lists is well-formed and contains both; it is exactly the union of
  two lists as long as that fits the array, and otherwise a range that covers both.\<close>

theorem idl_union_correct:
  assumes "idl_inv a" "idl_inv b"
  shows "\<exists>c. mdb_idl_union a b = Some c \<and> idl_inv c \<and> idl_set a \<union> idl_set b \<subseteq> idl_set c \<and>
    (\<forall>xs ys. a = Ids xs \<longrightarrow> b = Ids ys \<longrightarrow> card (set xs \<union> set ys) \<le> MDB_IDL_UM_MAX \<longrightarrow> idl_set c = idl_set a \<union> idl_set b)"
  using union_ok [OF assms] by (cases a; cases b) auto

lemma idl_union_correct_witness:
  "\<exists>c. mdb_idl_union (Ids [2, 9]) (Ids [5, 9]) = Some c \<and> idl_set c = {2, 9} \<union> {5, 9}"
proof -
  have "card (set [2, 9] \<union> set [5, 9 :: int]) \<le> MDB_IDL_UM_MAX"
    using card_length [of "[2, 9, 5, 9 :: int]"] by (simp add: MDB_IDL_UM_MAX_def insert_commute)
  then show ?thesis
    using idl_union_correct [of "Ids [2, 9]" "Ids [5, 9]"]
    by (fastforce simp: id_ok_def NOID_def MDB_IDL_UM_MAX_def)
qed

text \<open>The intersection of two disjoint lists need not be empty: when their bounds meet in one ID, that ID
  is returned although one of the lists lacks it.\<close>

lemma idl_intersection_phantom:
  "mdb_idl_intersection plain_env (Ids [1, 9]) (Ids [5]) = Some (Ids [5], Ids [5]) \<and>
   idl_set (Ids [1, 9]) \<inter> idl_set (Ids [5]) = {}"
  by (simp add: mdb_idl_intersection_def)

text \<open>Appending a one-element list does not keep the largest ID at the end, which the comment promises and
  range compaction relies on.\<close>

lemma idl_append_breaks_maximum:
  "ends_ok [5, 9] \<and> mdb_idl_append (Ids [5, 9]) (Ids [7]) = Ids [5, 9, 7] \<and> \<not> ends_ok [5, 9, 7]"
  by (simp add: mdb_idl_append_def ends_ok_def MDB_IDL_UM_MAX_def)

end
