(* ===== verification/Pending_Csn.thy ===== *)
theory Pending_Csn
  imports Csn
begin

text \<open>
  The queue of pending CSNs of a database, \<^verbatim>\<open>servers/slapd/ctxcsn.c\<close>. Every write operation takes
  a CSN from the clock and queues it; when it commits, its entry is marked and the newest CSN that
  may be announced as the context CSN is read from the queue; when it ends, its entry leaves.
  The tail queue is a list, an operation is named by a number, the database mutex makes each
  function one atomic step. Allocation is not modelled.
\<close>

section \<open>Definitions\<close>

definition SLAP_CSN_PENDING :: int where "SLAP_CSN_PENDING = 1"
definition SLAP_CSN_COMMIT :: int where "SLAP_CSN_COMMIT = 2"
definition LDAP_PVT_CSNSTR_BUFSIZE :: nat where "LDAP_PVT_CSNSTR_BUFSIZE = 64"

record slap_csn_entry =
  ce_op :: nat
  ce_csn :: string
  ce_sid :: int
  ce_state :: int

text \<open>The fields of an operation: \<open>o_csn = None\<close> is a null \<^verbatim>\<open>bv_val\<close>.\<close>

record operation =
  op_id :: nat
  o_csn :: "string option"
  o_csn_master :: "nat option"

text \<open>The fields of a database: the count exists only when \<^verbatim>\<open>OP_CSN_CHECK\<close> is compiled in.\<close>

record pcl =
  be_pending_csn_list :: "slap_csn_entry list option"
  be_pending_csn_count :: "int option"

text \<open>An assertion whose condition is itself a call: evaluated only when assertions are active.\<close>

definition assertM :: "env \<Rightarrow> bool option \<Rightarrow> unit option" where
  "assertM e m = (if env_assert e then do { b \<leftarrow> m; ensure b } else Some ())"

definition o_csn_bv :: "operation \<Rightarrow> string" where
  "o_csn_bv op = (case o_csn op of None \<Rightarrow> [] | Some s \<Rightarrow> s)"

definition slap_op_csn_free :: "env \<Rightarrow> operation \<Rightarrow> operation option" where
  "slap_op_csn_free e op =
     (if o_csn op \<noteq> None
      then do {
        assert_that e (o_csn_master op \<noteq> None);
        Some (op\<lparr>o_csn_master := None, o_csn := None\<rparr>) }
      else Some op)"

definition slap_op_csn_clean :: "env \<Rightarrow> operation \<Rightarrow> operation option" where
  "slap_op_csn_clean e op =
     (if o_csn op \<noteq> None
      then do {
        assert_that e (o_csn_master op \<noteq> None);
        Some (if o_csn_master op = Some (op_id op) then op\<lparr>o_csn := Some []\<rparr>
              else op\<lparr>o_csn := None, o_csn_master := None\<rparr>) }
      else Some op)"

definition slap_op_csn_assign :: "env \<Rightarrow> operation \<Rightarrow> string \<Rightarrow> operation option" where
  "slap_op_csn_assign e op csn = do {
     assertM e (slap_csn_verify_full e (bv csn));
     assert_that e (o_csn_master op = Some (op_id op) \<or> o_csn_master op = None);
     Some (op\<lparr>o_csn_master := Some (op_id op), o_csn := Some csn\<rparr>) }"

text \<open>The first loop of \<^verbatim>\<open>slap_get_commit_csn\<close>: the position of the operation's own entry, and the
  list with that entry marked.\<close>

fun mark_commit :: "env \<Rightarrow> nat \<Rightarrow> int \<Rightarrow> slap_csn_entry list \<Rightarrow> (nat option \<times> slap_csn_entry list) option" where
  "mark_commit e op sid [] = Some (None, [])"
| "mark_commit e op sid (c # cs) =
     (if ce_op c = op
      then do {
        assert_that e (sid < 0 \<or> sid = ce_sid c);
        Some (Some 0, c\<lparr>ce_state := SLAP_CSN_COMMIT\<rparr> # cs) }
      else do {
        (self, cs) \<leftarrow> mark_commit e op sid cs;
        Some (map_option Suc self, c # cs) })"

text \<open>The second loop; \<open>k\<close> is the position reached and \<open>com\<close> the last committed entry.\<close>

fun commit_scan ::
  "env \<Rightarrow> int \<Rightarrow> nat option \<Rightarrow> nat \<Rightarrow> slap_csn_entry option \<Rightarrow> slap_csn_entry list \<Rightarrow> slap_csn_entry option option" where
  "commit_scan e sid self k com [] = Some com"
| "commit_scan e sid self k com (c # cs) =
     (if sid = ce_sid c
      then do {
        (case com of
           None \<Rightarrow> Some ()
         | Some p \<Rightarrow> do {
             r \<leftarrow> slap_csn_compare_ts e (bv (ce_csn c)) (bv (ce_csn p));
             assert_that e (\<not> r < 0) });
        if ce_state c = SLAP_CSN_COMMIT
        then if self = Some k then Some (Some c) else commit_scan e sid self (Suc k) (Some c) cs
        else if ce_state c = SLAP_CSN_PENDING then Some com
        else None }
      else commit_scan e sid self (Suc k) com cs)"

text \<open>The database, the SID returned, and what is stored in \<open>maxcsn\<close>: \<open>maxlen\<close> is the size of
  the caller's buffer, \<open>None\<close> a null pointer.\<close>

definition slap_get_commit_csn :: "env \<Rightarrow> operation \<Rightarrow> nat option \<Rightarrow> pcl \<Rightarrow> (pcl \<times> int \<times> string option) option" where
  "slap_get_commit_csn e op maxlen be = do {
     let sid = (if o_csn_bv op \<noteq> [] then slap_csn_get_sid (bv (o_csn_bv op)) else - 1);
     assert_that e (o_csn_bv op \<noteq> [] \<longrightarrow> 0 \<le> sid);
     l \<leftarrow> be_pending_csn_list be;
     (self, l) \<leftarrow> mark_commit e (op_id op) sid l;
     maxcsn \<leftarrow>
       (case maxlen of
          None \<Rightarrow> Some None
        | Some n \<Rightarrow> do {
            assert_that e (LDAP_PVT_CSNSTR_BUFSIZE \<le> n);
            com \<leftarrow> (if 0 \<le> sid then commit_scan e sid self 0 None l else Some None);
            Some (Some (case com of Some c \<Rightarrow> ce_csn c | None \<Rightarrow> [])) });
     Some (be\<lparr>be_pending_csn_list := Some l\<rparr>, sid, maxcsn) }"

fun graduate_scan :: "nat \<Rightarrow> slap_csn_entry list \<Rightarrow> (slap_csn_entry \<times> slap_csn_entry list) option" where
  "graduate_scan op [] = None"
| "graduate_scan op (c # cs) =
     (if ce_op c = op then Some (c, cs) else map_option (apsnd (Cons c)) (graduate_scan op cs))"

text \<open>A null operation and an operation without a database are cases of the caller; a null list is
  \<open>None\<close>. The result is the database, the operation and the state of the entry removed, 0 if none.\<close>

definition slap_graduate_commit_csn :: "env \<Rightarrow> operation \<Rightarrow> pcl \<Rightarrow> (pcl \<times> operation \<times> int) option" where
  "slap_graduate_commit_csn e op be =
     (case be_pending_csn_list be of
        None \<Rightarrow> Some (be, op, 0)
      | Some l \<Rightarrow>
          (case graduate_scan (op_id op) l of
             None \<Rightarrow> Some (be, op, 0)
           | Some (c, l') \<Rightarrow> do {
               assert_that e (0 < ce_state c);
               assertM e (slap_csn_match e (bv (o_csn_bv op)) (bv (ce_csn c)));
               op \<leftarrow> slap_op_csn_clean e op;
               (case be_pending_csn_count be of
                  None \<Rightarrow> Some ()
                | Some n \<Rightarrow> assert_that e (0 < n));
               Some (be\<lparr>be_pending_csn_list := Some l',
                        be_pending_csn_count := map_option (\<lambda>n. n - 1) (be_pending_csn_count be)\<rparr>,
                     op, ce_state c) }))"

text \<open>The loop of \<^verbatim>\<open>slap_queue_csn\<close>: \<open>before\<close> is the position of the first entry of the same server
  with a later time, \<open>k\<close> the position reached; the result also tells whether the operation
  already has an entry.\<close>

fun queue_scan ::
  "env \<Rightarrow> nat \<Rightarrow> int \<Rightarrow> string \<Rightarrow> nat option \<Rightarrow> nat \<Rightarrow> slap_csn_entry list \<Rightarrow> (nat option \<times> bool) option" where
  "queue_scan e op sid csn before k [] = Some (before, False)"
| "queue_scan e op sid csn before k (c # cs) = do {
     before \<leftarrow>
       (if ce_sid c = sid \<and> before = None
        then do {
          r \<leftarrow> slap_csn_compare_ts e (bv csn) (bv (ce_csn c));
          Some (if r < 0 then Some k else None) }
        else Some before);
     if ce_op c = op
     then do {
       assert_that e (ce_sid c = sid);
       when_check e None;
       Some (before, True) }
     else queue_scan e op sid csn before (Suc k) cs }"

definition slap_queue_csn :: "env \<Rightarrow> operation \<Rightarrow> string \<Rightarrow> pcl \<Rightarrow> (pcl \<times> operation) option" where
  "slap_queue_csn e op csn be = do {
     assertM e (slap_csn_verify_full e (bv csn));
     let sid = slap_csn_get_sid (bv csn);
     assert_that e (- 1 < sid);
     l \<leftarrow> be_pending_csn_list be;
     (before, found) \<leftarrow> queue_scan e (op_id op) sid csn None 0 l;
     if found then Some (be, op)
     else do {
       assert_that e (o_csn_bv op = []);
       op \<leftarrow> slap_op_csn_assign e op csn;
       let pending = \<lparr>ce_op = op_id op, ce_csn = csn, ce_sid = sid, ce_state = SLAP_CSN_PENDING\<rparr>;
       let l = (case before of None \<Rightarrow> l @ [pending] | Some k \<Rightarrow> take k l @ pending # drop k l);
       (case be_pending_csn_count be of
          None \<Rightarrow> Some ()
        | Some n \<Rightarrow> assert_that e (n + 1 < 42));
       Some (be\<lparr>be_pending_csn_list := Some l,
                be_pending_csn_count := map_option (\<lambda>n. n + 1) (be_pending_csn_count be)\<rparr>, op) } }"

text \<open>\<^verbatim>\<open>ldap_pvt_csnstr\<close>: the clock reading is its argument. A text that does not fit the buffer has
  length 0.\<close>

record lutil_tm =
  tm_sec :: int
  tm_min :: int
  tm_hour :: int
  tm_mday :: int
  tm_mon :: int
  tm_year :: int
  tm_usec :: int
  tm_usub :: int

definition pad_space :: "nat \<Rightarrow> string \<Rightarrow> string" where
  "pad_space w s = replicate (w - length s) (CHR '' '') @ s"

definition ldap_pvt_csnstr :: "lutil_tm \<Rightarrow> nat \<Rightarrow> int \<Rightarrow> int \<Rightarrow> string" where
  "ldap_pvt_csnstr tm len replica m =
     (let s = pad_space 4 (digits_of 10 (tm_year tm + 1900)) @ padded 10 2 (tm_mon tm + 1)
          @ padded 10 2 (tm_mday tm) @ padded 10 2 (tm_hour tm) @ padded 10 2 (tm_min tm)
          @ padded 10 2 (tm_sec tm) @ ''.'' @ padded 10 6 (tm_usec tm) @ ''Z#'' @ padded 16 6 (tm_usub tm)
          @ ''#'' @ padded 16 3 replica @ ''#'' @ padded 16 6 m
      in if length s < len then s else [])"

text \<open>\<^verbatim>\<open>slap_get_csn\<close>, with a buffer of \<open>len\<close> bytes; without an operation the CSN is only printed.\<close>

definition slap_get_csn ::
  "env \<Rightarrow> lutil_tm \<Rightarrow> operation option \<Rightarrow> nat \<Rightarrow> pcl \<Rightarrow> (pcl \<times> operation option \<times> string) option" where
  "slap_get_csn e tm op len be =
     (let csn = ldap_pvt_csnstr tm len (slap_serverID e) 0
      in case op of
           None \<Rightarrow> Some (be, None, csn)
         | Some op \<Rightarrow> do {
             (be, op) \<leftarrow> slap_queue_csn e op csn be;
             Some (be, Some op, csn) })"

section \<open>The queue invariant\<close>

text \<open>Entries of one server stand in the order of their times.\<close>

definition in_order :: "slap_csn_entry \<Rightarrow> slap_csn_entry \<Rightarrow> bool" where
  "in_order c d \<longleftrightarrow> (ce_sid c = ce_sid d \<longrightarrow> csn_ts (ce_csn c) \<le> csn_ts (ce_csn d))"

definition entry_ok :: "slap_csn_entry \<Rightarrow> bool" where
  "entry_ok c \<longleftrightarrow> csn_ok (ce_csn c) \<and> ce_sid c = csn_sid (ce_csn c) \<and>
     (ce_state c = SLAP_CSN_PENDING \<or> ce_state c = SLAP_CSN_COMMIT)"

definition queue_ok :: "slap_csn_entry list \<Rightarrow> bool" where
  "queue_ok l \<longleftrightarrow> distinct (map ce_op l) \<and> (\<forall>c\<in>set l. entry_ok c) \<and> sorted_wrt in_order l"

text \<open>An operation owns its CSN, and has one exactly while it stands in the queue.\<close>

definition op_ok :: "slap_csn_entry list \<Rightarrow> nat \<Rightarrow> operation \<Rightarrow> bool" where
  "op_ok l i op \<longleftrightarrow> op_id op = i \<and>
     (o_csn op = None \<and> o_csn_master op = None \<or> o_csn op \<noteq> None \<and> o_csn_master op = Some i) \<and>
     (\<forall>c\<in>set l. ce_op c = i \<longrightarrow> o_csn op = Some (ce_csn c)) \<and>
     (i \<notin> ce_op ` set l \<longrightarrow> o_csn_bv op = [])"

definition pcl_inv :: "pcl \<Rightarrow> (nat \<Rightarrow> operation) \<Rightarrow> bool" where
  "pcl_inv be ops \<longleftrightarrow> (\<exists>l. be_pending_csn_list be = Some l \<and> queue_ok l \<and> (\<forall>i. op_ok l i (ops i)) \<and>
     (case be_pending_csn_count be of None \<Rightarrow> True | Some n \<Rightarrow> n = int (length l)))"

lemmas pcl_defs = pcl_inv_def queue_ok_def entry_ok_def op_ok_def in_order_def

lemma assertM_runs [wp]: "runs (assertM e m) Q \<longleftrightarrow> (if env_assert e then runs m (\<lambda>b. b \<and> Q ()) else Q ())"
  by (simp add: assertM_def wp)

section \<open>Queueing\<close>

lemma queue_scan_ok:
  assumes "csn_ok csn" "\<forall>c\<in>set l. entry_ok c" "op \<notin> ce_op ` set l"
  shows "queue_scan e op sid csn before k l =
    Some (case before of Some b \<Rightarrow> Some b
      | None \<Rightarrow> (let j = length (takeWhile (\<lambda>c. \<not> (ce_sid c = sid \<and> csn_ts csn < csn_ts (ce_csn c))) l)
                in if j < length l then Some (k + j) else None), False)"
  using assms(2,3)
proof (induction l arbitrary: before k)
  case Nil
  then show ?case by (simp split: option.split)
next
  case (Cons c l)
  have "csn_ok (ce_csn c)" using Cons.prems by (simp add: entry_ok_def)
  note cmp = compare_ts_cmp [OF assms(1) this, of e]
  have neg: "cmp (csn_ts csn) (csn_ts (ce_csn c)) < 0 \<longleftrightarrow> csn_ts csn < csn_ts (ce_csn c)"
    by (auto simp: cmp_def)
  show ?case
    using Cons by (auto simp: cmp neg Let_def split: option.splits)
qed

lemma insert_in_order:
  assumes "sorted_wrt in_order l" "ce_sid p = sid"
    and "j = length (takeWhile (\<lambda>c. \<not> (ce_sid c = sid \<and> csn_ts (ce_csn p) < csn_ts (ce_csn c))) l)"
  shows "sorted_wrt in_order (take j l @ p # drop j l)"
proof -
  define P where "P = (\<lambda>c :: slap_csn_entry. \<not> (ce_sid c = sid \<and> csn_ts (ce_csn p) < csn_ts (ce_csn c)))"
  have td: "take j l = takeWhile P l" "drop j l = dropWhile P l"
    by (simp_all add: assms(3) P_def takeWhile_eq_take [symmetric] dropWhile_eq_drop [symmetric])
  have s: "sorted_wrt in_order (takeWhile P l @ dropWhile P l)" using assms(1) by simp
  have "in_order c p" if "c \<in> set (takeWhile P l)" for c
    using set_takeWhileD [OF that] assms(2) by (auto simp: in_order_def P_def)
  moreover have "in_order p d" if d: "d \<in> set (dropWhile P l)" for d
  proof (cases "dropWhile P l")
    case Nil
    with d show ?thesis by simp
  next
    case (Cons c r)
    then have "\<not> P c" by (simp add: dropWhile_eq_Cons_conv)
    moreover have "d = c \<or> in_order c d" using s d Cons by (auto simp: sorted_wrt_append)
    ultimately show ?thesis
      unfolding in_order_def P_def using assms(2) by (metis less_imp_le order.trans)
  qed
  ultimately show ?thesis
    using s unfolding td sorted_wrt_append sorted_wrt.simps by simp
qed

lemma queue_csn_ok:
  assumes inv: "pcl_inv be ops" and e: "env_ok e" "csn_valid e csn"
    and free: "\<And>l. be_pending_csn_list be = Some l \<Longrightarrow> i \<notin> ce_op ` set l"
    and room: "\<And>n. env_assert e \<Longrightarrow> be_pending_csn_count be = Some n \<Longrightarrow> n < 41"
  shows "runs (slap_queue_csn e (ops i) csn be) (\<lambda>(be', op').
    pcl_inv be' (ops(i := op')) \<and>
    mset (the (be_pending_csn_list be')) = add_mset \<lparr>ce_op = i, ce_csn = csn, ce_sid = csn_sid csn,
      ce_state = SLAP_CSN_PENDING\<rparr> (mset (the (be_pending_csn_list be))))"
proof -
  obtain l where l: "be_pending_csn_list be = Some l" "queue_ok l" "\<forall>i. op_ok l i (ops i)"
    "case be_pending_csn_count be of None \<Rightarrow> True | Some n \<Rightarrow> n = int (length l)"
    using inv by (auto simp: pcl_inv_def)
  have csn: "csn_ok csn" by (rule csn_valid_ok [OF e(2)])
  define p where "p = \<lparr>ce_op = i, ce_csn = csn, ce_sid = csn_sid csn, ce_state = SLAP_CSN_PENDING\<rparr>"
  define j where "j = length (takeWhile (\<lambda>c. \<not> (ce_sid c = csn_sid csn \<and> csn_ts csn < csn_ts (ce_csn c))) l)"
  have opi: "op_id (ops i) = i" "o_csn_bv (ops i) = []" "o_csn_master (ops i) = Some i \<or> o_csn_master (ops i) = None"
    using l(3) free [OF l(1)] by (auto simp: op_ok_def)
  have jl: "j \<le> length l" by (simp add: j_def length_takeWhile_le)
  define l' where "l' = take j l @ p # drop j l"
  have l': "(case if j < length l then Some j else None of None \<Rightarrow> l @ [p] | Some k \<Rightarrow> take k l @ p # drop k l) = l'"
    using jl by (simp add: l'_def)
  have m: "mset l' = add_mset p (mset l)"
    unfolding l'_def by (metis append_take_drop_id mset_append mset.simps(2) union_mset_add_mset_right)
  then have st: "set l' = insert p (set l)"
    by (metis set_mset_add_mset_insert set_mset_mset)
  have "distinct (map ce_op (take j l) @ map ce_op (drop j l))"
    using l(2) by (simp add: queue_ok_def flip: map_append)
  then have d: "distinct (map ce_op l')"
    using free [OF l(1)] set_take_subset [of j l] set_drop_subset [of j l]
    by (auto simp: l'_def p_def)
  have q: "queue_ok l'"
    using d l(2) st csn insert_in_order [of l p "csn_sid csn" j]
    by (auto simp: queue_ok_def entry_ok_def p_def j_def l'_def)
  have ops: "op_ok l' k ((ops(i := (ops i)\<lparr>o_csn_master := Some i, o_csn := Some csn\<rparr>)) k)" for k
    using l(3) free [OF l(1)] opi(1) by (force simp: op_ok_def st p_def o_csn_bv_def)
  define op' where "op' = (ops i)\<lparr>o_csn_master := Some i, o_csn := Some csn\<rparr>"
  define be' where "be' = be\<lparr>be_pending_csn_list := Some l',
    be_pending_csn_count := map_option (\<lambda>n. n + 1) (be_pending_csn_count be)\<rparr>"
  have scan: "queue_scan e i (csn_sid csn) csn None 0 l = Some (if j < length l then Some j else None, False)"
    using queue_scan_ok [OF csn, of l i] l(2) free [OF l(1)] by (simp add: queue_ok_def j_def)
  have "(case be_pending_csn_count be of None \<Rightarrow> Some () | Some n \<Rightarrow> assert_that e (n + 1 < 42)) = Some ()"
    using room by (auto simp: assert_that_def split: option.split)
  moreover have "slap_op_csn_assign e (ops i) csn = Some op'"
    using opi e by (auto simp: slap_op_csn_assign_def op'_def assertM_def verify_full_bv abort_simps)
  ultimately have "slap_queue_csn e (ops i) csn be = Some (be', op')"
    using l(1) scan opi e get_sid_ok [OF csn]
    by (simp add: slap_queue_csn_def assertM_def verify_full_bv abort_simps be'_def l'_def p_def op'_def)
  moreover have "pcl_inv be' (ops(i := op'))"
    using q ops l(4) m by (auto simp: pcl_inv_def be'_def op'_def l'_def jl split: option.split)
  ultimately show ?thesis by (simp add: wp be'_def m l(1) p_def)
qed

section \<open>Committing\<close>

lemma mark_commit_ok:
  assumes "op \<notin> ce_op ` set xs" "ce_op c = op" "sid < 0 \<or> sid = ce_sid c"
  shows "mark_commit e op sid (xs @ c # ys) = Some (Some (length xs), xs @ c\<lparr>ce_state := SLAP_CSN_COMMIT\<rparr> # ys)"
  using assms by (induction xs) (auto simp: abort_simps)

lemma mark_commit_none: "op \<notin> ce_op ` set l \<Longrightarrow> mark_commit e op sid l = Some (None, l)"
  by (induction l) auto

lemma states_differ [simp]: "SLAP_CSN_PENDING \<noteq> SLAP_CSN_COMMIT" "SLAP_CSN_COMMIT \<noteq> SLAP_CSN_PENDING"
  by (simp_all add: SLAP_CSN_PENDING_def SLAP_CSN_COMMIT_def)

text \<open>What the scan carries along: a committed entry of the same server, not later than the entries
  to come.\<close>

definition scan_inv :: "int \<Rightarrow> slap_csn_entry option \<Rightarrow> slap_csn_entry list \<Rightarrow> bool" where
  "scan_inv sid com l \<longleftrightarrow> (\<forall>p. com = Some p \<longrightarrow> entry_ok p \<and> ce_sid p = sid \<and> ce_state p = SLAP_CSN_COMMIT \<and>
     (\<forall>c\<in>set l. in_order p c)) \<and> (\<forall>c\<in>set l. entry_ok c) \<and> sorted_wrt in_order l"

lemma scan_inv_step:
  assumes "scan_inv sid com (c # l)"
  shows "scan_inv sid com l" "ce_sid c = sid \<Longrightarrow> ce_state c = SLAP_CSN_COMMIT \<Longrightarrow> scan_inv sid (Some c) l"
  using assms by (auto simp: scan_inv_def)

lemma scan_check_ok:
  assumes "scan_inv sid com (c # l)" "ce_sid c = sid"
  shows "(case com of None \<Rightarrow> Some () | Some p \<Rightarrow> do {
     r \<leftarrow> slap_csn_compare_ts e (bv (ce_csn c)) (bv (ce_csn p)); assert_that e (\<not> r < 0) }) = Some ()"
proof (cases com)
  case (Some p)
  then have "csn_ok (ce_csn c)" "csn_ok (ce_csn p)" "csn_ts (ce_csn p) \<le> csn_ts (ce_csn c)"
    using assms by (auto simp: scan_inv_def entry_ok_def in_order_def)
  then have "slap_csn_compare_ts e (bv (ce_csn c)) (bv (ce_csn p)) = Some (cmp (csn_ts (ce_csn c)) (csn_ts (ce_csn p)))"
    "\<not> cmp (csn_ts (ce_csn c)) (csn_ts (ce_csn p)) < 0"
    by (auto simp: compare_ts_cmp cmp_def not_less)
  with Some show ?thesis by (simp add: assert_that_True)
qed simp

lemma commit_scan_ok:
  assumes "scan_inv sid com l"
  shows "runs (commit_scan e sid self k com l) (\<lambda>r.
    (r = com \<or> (\<exists>c\<in>set l. r = Some c \<and> ce_sid c = sid \<and> ce_state c = SLAP_CSN_COMMIT)) \<and>
    (\<forall>c. r = Some c \<longrightarrow> (\<forall>d\<in>set l. ce_sid d = sid \<longrightarrow> ce_state d = SLAP_CSN_PENDING \<longrightarrow> in_order c d)))"
  using assms
proof (induction l arbitrary: k com)
  case Nil
  then show ?case by (simp add: wp)
next
  case (Cons c l)
  note step = scan_inv_step [OF Cons.prems]
  have "entry_ok c" using Cons.prems by (simp add: scan_inv_def)
  then consider "ce_sid c \<noteq> sid" | "ce_sid c = sid" "ce_state c = SLAP_CSN_PENDING"
    | "ce_sid c = sid" "ce_state c = SLAP_CSN_COMMIT" by (auto simp: entry_ok_def)
  then show ?case
  proof cases
    case 1
    show ?thesis using 1 by (auto simp: wp intro!: runs_mono [OF Cons.IH [OF step(1)]])
  next
    case 2
    with scan_check_ok [OF Cons.prems] Cons.prems show ?thesis
      by (auto simp: wp scan_inv_def)
  next
    case 3
    have "runs (commit_scan e sid self (Suc k) (Some c) l) (\<lambda>r.
        (r = com \<or> (\<exists>d\<in>set (c # l). r = Some d \<and> ce_sid d = sid \<and> ce_state d = SLAP_CSN_COMMIT)) \<and>
        (\<forall>b. r = Some b \<longrightarrow> (\<forall>d\<in>set (c # l). ce_sid d = sid \<longrightarrow> ce_state d = SLAP_CSN_PENDING \<longrightarrow> in_order b d)))"
      by (rule runs_mono [OF Cons.IH [OF step(2) [OF 3]]]) (use 3 in auto)
    with 3 scan_check_ok [OF Cons.prems 3(1)] Cons.prems show ?thesis
      by (auto simp: wp scan_inv_def)
  qed
qed

lemma commit_scan_own:
  assumes "scan_inv sid com (xs @ c # ys)" "ce_sid c = sid" "ce_state c = SLAP_CSN_COMMIT"
    and "\<forall>d\<in>set xs. ce_sid d = sid \<longrightarrow> ce_state d = SLAP_CSN_COMMIT"
  shows "commit_scan e sid (Some (k + length xs)) k com (xs @ c # ys) = Some (Some c)"
  using assms
proof (induction xs arbitrary: k com)
  case Nil
  with scan_check_ok [of sid com c ys e] show ?case by simp
next
  case (Cons d xs)
  note step = scan_inv_step [OF Cons.prems(1) [simplified]]
  show ?case
    using scan_check_ok [of sid com d "xs @ c # ys" e] Cons.prems Cons.IH [of _ "Suc k"] step
    by (cases "ce_sid d = sid") auto
qed

lemma queue_ok_commit:
  assumes "queue_ok (xs @ c # ys)"
  shows "queue_ok (xs @ c\<lparr>ce_state := SLAP_CSN_COMMIT\<rparr> # ys)"
  using assms by (auto simp: queue_ok_def entry_ok_def in_order_def sorted_wrt_append)

lemma scan_inv_None: "queue_ok l \<Longrightarrow> scan_inv sid None l"
  by (simp add: scan_inv_def queue_ok_def)

definition commit_spec :: "slap_csn_entry list \<Rightarrow> slap_csn_entry \<Rightarrow> string \<Rightarrow> bool" where
  "commit_spec l c m \<longleftrightarrow>
     (m \<noteq> [] \<longrightarrow> (\<exists>d\<in>set l. ce_csn d = m \<and> ce_sid d = ce_sid c \<and> ce_state d = SLAP_CSN_COMMIT)) \<and>
     (m \<noteq> [] \<longrightarrow> (\<forall>d\<in>set l. ce_sid d = ce_sid c \<and> ce_state d = SLAP_CSN_PENDING \<longrightarrow> csn_ts m \<le> csn_ts (ce_csn d))) \<and>
     ((\<forall>d\<in>set l. ce_sid d = ce_sid c \<and> ce_state d = SLAP_CSN_PENDING \<longrightarrow> csn_ts (ce_csn c) < csn_ts (ce_csn d)) \<longrightarrow> m = ce_csn c)"

lemma commit_scan_spec:
  assumes q: "queue_ok (xs @ c # ys)" "ce_state c = SLAP_CSN_COMMIT"
  shows "runs (commit_scan e (ce_sid c) (Some (length xs)) 0 None (xs @ c # ys)) (\<lambda>r.
    commit_spec (xs @ c # ys) c (case r of Some d \<Rightarrow> ce_csn d | None \<Rightarrow> []))"
proof -
  let ?l = "xs @ c # ys"
  note si = scan_inv_None [OF q(1), of "ce_sid c"]
  have own: "commit_scan e (ce_sid c) (Some (length xs)) 0 None ?l = Some (Some c)"
    if late: "\<forall>d\<in>set ?l. ce_sid d = ce_sid c \<and> ce_state d = SLAP_CSN_PENDING \<longrightarrow> csn_ts (ce_csn c) < csn_ts (ce_csn d)"
  proof -
    have "ce_state d = SLAP_CSN_COMMIT" if d: "d \<in> set xs" "ce_sid d = ce_sid c" for d
    proof (rule ccontr)
      assume "ce_state d \<noteq> SLAP_CSN_COMMIT"
      then have "ce_state d = SLAP_CSN_PENDING" using q(1) d by (auto simp: queue_ok_def entry_ok_def)
      then have "csn_ts (ce_csn c) < csn_ts (ce_csn d)" using late d by auto
      moreover have "csn_ts (ce_csn d) \<le> csn_ts (ce_csn c)"
        using q(1) d by (auto simp: queue_ok_def sorted_wrt_append in_order_def)
      ultimately show False by (meson leD)
    qed
    then show ?thesis using commit_scan_own [OF si refl q(2), of e 0] by simp
  qed
  obtain r where r: "commit_scan e (ce_sid c) (Some (length xs)) 0 None ?l = Some r"
    "r = None \<or> (\<exists>d\<in>set ?l. r = Some d \<and> ce_sid d = ce_sid c \<and> ce_state d = SLAP_CSN_COMMIT)"
    "\<forall>b. r = Some b \<longrightarrow> (\<forall>d\<in>set ?l. ce_sid d = ce_sid c \<longrightarrow> ce_state d = SLAP_CSN_PENDING \<longrightarrow> in_order b d)"
    using commit_scan_ok [OF si, of e "Some (length xs)" 0] unfolding runs_def by blast
  show ?thesis
  proof (cases r)
    case None
    with r own show ?thesis by (auto simp: wp commit_spec_def)
  next
    case (Some b)
    then have b: "b \<in> set ?l" "ce_sid b = ce_sid c" "ce_state b = SLAP_CSN_COMMIT"
      "\<forall>d\<in>set ?l. ce_sid d = ce_sid c \<longrightarrow> ce_state d = SLAP_CSN_PENDING \<longrightarrow> csn_ts (ce_csn b) \<le> csn_ts (ce_csn d)"
      using r(2,3) by (auto simp: in_order_def)
    have "ce_csn b = ce_csn c" if "\<forall>d\<in>set ?l. ce_sid d = ce_sid c \<and> ce_state d = SLAP_CSN_PENDING \<longrightarrow> csn_ts (ce_csn c) < csn_ts (ce_csn d)"
      using own [OF that] r(1) Some by simp
    with b r(1) Some show ?thesis unfolding commit_spec_def by (auto simp: wp)
  qed
qed

lemma op_ok_commit:
  "op_ok (xs @ c\<lparr>ce_state := s\<rparr> # ys) i op \<longleftrightarrow> op_ok (xs @ c # ys) i op"
  by (simp add: op_ok_def)

lemma get_commit_ok:
  assumes inv: "pcl_inv be ops" and c: "be_pending_csn_list be = Some l" "c \<in> set l" "ce_op c = i"
    and n: "LDAP_PVT_CSNSTR_BUFSIZE \<le> n"
  shows "\<exists>l' m. slap_get_commit_csn e (ops i) (Some n) be = Some (be\<lparr>be_pending_csn_list := Some l'\<rparr>, ce_sid c, Some m) \<and>
    pcl_inv (be\<lparr>be_pending_csn_list := Some l'\<rparr>) ops \<and> c\<lparr>ce_state := SLAP_CSN_COMMIT\<rparr> \<in> set l' \<and> commit_spec l' c m"
proof -
  have l: "queue_ok l" "\<forall>i. op_ok l i (ops i)" "case be_pending_csn_count be of None \<Rightarrow> True | Some n \<Rightarrow> n = int (length l)"
    using inv c(1) by (auto simp: pcl_inv_def)
  obtain xs ys where xy: "l = xs @ c # ys" using c(2) by (meson split_list)
  have new: "i \<notin> ce_op ` set xs" using l(1) c(3) by (auto simp: queue_ok_def xy)
  have ok: "csn_ok (ce_csn c)" "ce_sid c = csn_sid (ce_csn c)" using l(1) c(2) by (auto simp: queue_ok_def entry_ok_def)
  have op: "op_id (ops i) = i" "o_csn_bv (ops i) = ce_csn c" using l(2) c(2,3) by (auto simp: op_ok_def o_csn_bv_def)
  have ne: "ce_csn c \<noteq> []" using csn_ok_length [OF ok(1)] by auto
  let ?c = "c\<lparr>ce_state := SLAP_CSN_COMMIT\<rparr>" and ?l = "xs @ c\<lparr>ce_state := SLAP_CSN_COMMIT\<rparr> # ys"
  have q: "queue_ok ?l" using queue_ok_commit l(1) by (simp add: xy)
  obtain r where r: "commit_scan e (ce_sid c) (Some (length xs)) 0 None ?l = Some r"
    "commit_spec ?l ?c (case r of Some d \<Rightarrow> ce_csn d | None \<Rightarrow> [])"
    using commit_scan_spec [OF q, of e] by (auto simp: runs_def)
  have "slap_get_commit_csn e (ops i) (Some n) be =
      Some (be\<lparr>be_pending_csn_list := Some ?l\<rparr>, ce_sid c, Some (case r of Some d \<Rightarrow> ce_csn d | None \<Rightarrow> []))"
    using r(1) mark_commit_ok [OF new c(3), of "ce_sid c" e ys] get_sid_ok [OF ok(1)] n ne
    by (simp add: slap_get_commit_csn_def op ok(2) c(1) xy assert_that_True)
  moreover have "commit_spec ?l c (case r of Some d \<Rightarrow> ce_csn d | None \<Rightarrow> [])"
    using r(2) by (simp add: commit_spec_def)
  moreover have "pcl_inv (be\<lparr>be_pending_csn_list := Some ?l\<rparr>) ops"
    using q l(2,3) by (auto simp: pcl_inv_def op_ok_commit xy split: option.splits)
  ultimately show ?thesis by (intro exI conjI) auto
qed

lemma get_commit_idle:
  assumes "pcl_inv be ops" "i \<notin> ce_op ` set (the (be_pending_csn_list be))" "\<And>k. n = Some k \<Longrightarrow> LDAP_PVT_CSNSTR_BUFSIZE \<le> k"
  shows "slap_get_commit_csn e (ops i) n be = Some (be, - 1, map_option (\<lambda>_. []) n)"
  using assms
  by (cases n) (auto simp: pcl_inv_def op_ok_def slap_get_commit_csn_def mark_commit_none assert_that_True)

section \<open>Leaving the queue\<close>

lemma graduate_scan_ok:
  "op \<notin> ce_op ` set xs \<Longrightarrow> ce_op c = op \<Longrightarrow> graduate_scan op (xs @ c # ys) = Some (c, xs @ ys)"
  by (induction xs) auto

lemma graduate_scan_none: "op \<notin> ce_op ` set l \<Longrightarrow> graduate_scan op l = None"
  by (induction l) auto

lemma graduate_ok:
  assumes inv: "pcl_inv be ops" and c: "be_pending_csn_list be = Some l" "c \<in> set l" "ce_op c = i"
  shows "\<exists>be' op'. slap_graduate_commit_csn e (ops i) be = Some (be', op', ce_state c) \<and>
    pcl_inv be' (ops(i := op')) \<and> be_pending_csn_list be' = Some (remove1 c l)"
proof -
  have l: "queue_ok l" "\<forall>i. op_ok l i (ops i)" "case be_pending_csn_count be of None \<Rightarrow> True | Some n \<Rightarrow> n = int (length l)"
    using inv c(1) by (auto simp: pcl_inv_def)
  obtain xs ys where xy: "l = xs @ c # ys" using c(2) by (meson split_list)
  have new: "i \<notin> ce_op ` set xs" "i \<notin> ce_op ` set ys" using l(1) c(3) by (auto simp: queue_ok_def xy)
  then have r1: "remove1 c l = xs @ ys" using c(3) by (auto simp: xy remove1_append)
  have ok: "csn_ok (ce_csn c)" "0 < ce_state c"
    using l(1) c(2) by (auto simp: queue_ok_def entry_ok_def SLAP_CSN_PENDING_def SLAP_CSN_COMMIT_def)
  have op: "op_id (ops i) = i" "o_csn (ops i) = Some (ce_csn c)" "o_csn_master (ops i) = Some i"
    using l(2) [rule_format, of i] c(2,3) by (auto simp: op_ok_def)
  define op' where "op' = (ops i)\<lparr>o_csn := Some []\<rparr>"
  define be' where "be' = be\<lparr>be_pending_csn_list := Some (xs @ ys),
    be_pending_csn_count := map_option (\<lambda>n. n - 1) (be_pending_csn_count be)\<rparr>"
  have match: "slap_csn_match e (bv (ce_csn c)) (bv (ce_csn c)) = Some True"
    using ok by (simp add: slap_csn_match_def assert_that_True memcmp_n_cmp csn_ok_length)
  have "(case be_pending_csn_count be of None \<Rightarrow> Some () | Some n \<Rightarrow> assert_that e (0 < n)) = Some ()"
    using l(3) by (auto simp: xy assert_that_def split: option.splits)
  then have "slap_graduate_commit_csn e (ops i) be = Some (be', op', ce_state c)"
    using graduate_scan_ok [OF new(1) c(3), of ys] ok
    by (simp add: slap_graduate_commit_csn_def c(1) op xy assertM_def o_csn_bv_def match abort_simps
        slap_op_csn_clean_def be'_def op'_def)
  moreover have "op_ok (xs @ ys) k ((ops(i := op')) k)" for k
    using l(2) new op by (force simp: op_ok_def op'_def o_csn_bv_def xy c(3))
  moreover have "queue_ok (xs @ ys)" using l(1) by (auto simp: queue_ok_def xy sorted_wrt_append)
  ultimately show ?thesis
    using l(3) r1 by (auto simp: pcl_inv_def be'_def xy split: option.split)
qed

lemma graduate_idle:
  assumes "pcl_inv be ops" "i \<notin> ce_op ` set (the (be_pending_csn_list be))"
  shows "slap_graduate_commit_csn e (ops i) be = Some (be, ops i, 0)"
  using assms by (auto simp: pcl_inv_def op_ok_def slap_graduate_commit_csn_def graduate_scan_none)

section \<open>Interleavings\<close>

text \<open>The operations of all threads, one atomic step each: queueing a valid CSN for an operation that has none, committing,
  leaving the queue, and the end of an operation that left it.\<close>

inductive pcl_step :: "pcl \<times> (nat \<Rightarrow> operation) \<Rightarrow> pcl \<times> (nat \<Rightarrow> operation) \<Rightarrow> bool" where
  queue: "\<lbrakk>env_ok e; csn_valid e csn; i \<notin> ce_op ` set (the (be_pending_csn_list be));
     slap_queue_csn e (ops i) csn be = Some (be', op')\<rbrakk> \<Longrightarrow> pcl_step (be, ops) (be', ops(i := op'))"
| commit: "slap_get_commit_csn e (ops i) n be = Some (be', sid, m) \<Longrightarrow> pcl_step (be, ops) (be', ops)"
| graduate: "slap_graduate_commit_csn e (ops i) be = Some (be', op', r) \<Longrightarrow> pcl_step (be, ops) (be', ops(i := op'))"
| finish: "\<lbrakk>i \<notin> ce_op ` set (the (be_pending_csn_list be)); slap_op_csn_free e (ops i) = Some op'\<rbrakk> \<Longrightarrow>
     pcl_step (be, ops) (be, ops(i := op'))"

definition pcl_start :: "pcl \<Rightarrow> (nat \<Rightarrow> operation) \<Rightarrow> bool" where
  "pcl_start be ops \<longleftrightarrow> be_pending_csn_list be = Some [] \<and> be_pending_csn_count be \<in> {None, Some 0} \<and>
     (\<forall>i. ops i = \<lparr>op_id = i, o_csn = None, o_csn_master = None\<rparr>)"


lemma get_commit_keeps:
  assumes inv: "pcl_inv be ops" and run: "slap_get_commit_csn e (ops i) n be = Some (be', sid, m)"
  shows "pcl_inv be' ops"
proof -
  obtain l where l: "be_pending_csn_list be = Some l" "queue_ok l" "\<forall>i. op_ok l i (ops i)"
      "case be_pending_csn_count be of None \<Rightarrow> True | Some n \<Rightarrow> n = int (length l)"
    using inv by (auto simp: pcl_inv_def)
  obtain self l' s where m: "mark_commit e i s l = Some (self, l')" "be' = be\<lparr>be_pending_csn_list := Some l'\<rparr>"
    using run l(1,3) by (auto simp: slap_get_commit_csn_def bind_eq_Some_conv op_ok_def Let_def)
  have "queue_ok l' \<and> length l' = length l \<and> (\<forall>k. op_ok l' k (ops k))"
  proof (cases "i \<in> ce_op ` set l")
    case False
    with l m mark_commit_none [OF False] show ?thesis by simp
  next
    case True
    then obtain xs c ys where xy: "l = xs @ c # ys" "ce_op c = i" by (auto dest: split_list)
    then have "i \<notin> ce_op ` set xs" using l(2) by (auto simp: queue_ok_def)
    then have "l' = xs @ c\<lparr>ce_state := SLAP_CSN_COMMIT\<rparr> # ys"
      using m(1) xy by (induction xs arbitrary: l l' self) (auto simp: bind_eq_Some_conv)
    with l xy show ?thesis by (auto simp: queue_ok_commit op_ok_commit)
  qed
  with l(4) m(2) show ?thesis by (auto simp: pcl_inv_def split: option.split)
qed

lemma count_grows:
  assumes "slap_queue_csn e (ops i) csn be = Some (be', op')" "pcl_inv be ops" "env_assert e" "be_pending_csn_count be = Some n"
    "i \<notin> ce_op ` set (the (be_pending_csn_list be))" "csn_ok csn"
  shows "n < 41"
proof -
  obtain l where l: "be_pending_csn_list be = Some l" "\<forall>c\<in>set l. entry_ok c" "op_id (ops i) = i"
    using assms(2) by (auto simp: pcl_inv_def queue_ok_def op_ok_def)
  with assms show ?thesis
    by (auto simp: slap_queue_csn_def bind_eq_Some_conv queue_scan_ok assert_that_def split: if_splits)
qed


lemma pcl_step_inv:
  assumes "pcl_step s t" "pcl_inv (fst s) (snd s)"
  shows "pcl_inv (fst t) (snd t)"
  using assms
proof cases
  case (queue e csn i be ops be' op')
  have "runs (slap_queue_csn e (ops i) csn be) (\<lambda>(be', op'). pcl_inv be' (ops(i := op')))"
    by (rule runs_mono [OF queue_csn_ok [of be ops e csn i]])
      (use count_grows [of e ops i csn be be' op'] queue assms(2) csn_valid_ok in auto)
  with queue show ?thesis by (auto dest: runsD)
next
  case (commit e ops i n be be' sid m)
  with assms(2) get_commit_keeps show ?thesis by fastforce
next
  case (graduate e ops i be be' op' r)
  show ?thesis
  proof (cases "i \<in> ce_op ` set (the (be_pending_csn_list be))")
    case True
    have inv: "pcl_inv be ops" using graduate assms(2) by simp
    then obtain l where l: "be_pending_csn_list be = Some l" by (auto simp: pcl_inv_def)
    with True obtain c where "c \<in> set l" "ce_op c = i" by auto
    from graduate_ok [OF inv l this, of e] graduate show ?thesis by auto
  next
    case False
    with graduate assms(2) graduate_idle [of be ops i e] show ?thesis by simp
  qed
next
  case (finish i be e ops op')
  then show ?thesis
    using assms(2)
    by (auto simp: pcl_inv_def slap_op_csn_free_def op_ok_def o_csn_bv_def bind_eq_Some_conv split: if_splits)
qed

section \<open>CSNs from the clock\<close>

lemma digit_matches:
  "digit_below 10 c \<Longrightarrow> csn_char_ok (CHR ''9'') c" "digit_below 16 c \<Longrightarrow> csn_char_ok (CHR ''F'') c"
  by (auto simp: digit_below_def csn_char_ok_def xdigit_def isdigit_def is_lower_hex_def is_upper_hex_def
      code_def less_eq_char_code split: if_splits)

lemma digits_match:
  assumes "list_all (digit_below b) s" "length s = w" "b = 10 \<and> x = CHR ''9'' \<or> b = 16 \<and> x = CHR ''F''"
  shows "list_all2 csn_char_ok (replicate w x) s"
  using assms digit_matches by (auto simp: list_all2_conv_all_nth list_all_length)

lemma padded_matches:
  assumes "0 \<le> n" "n < b ^ w" "0 < w" "b = 10 \<and> x = CHR ''9'' \<or> b = 16 \<and> x = CHR ''F''"
  shows "list_all2 csn_char_ok (replicate w x) (padded b w n)"
  using assms padded_spec [of n b w] length_padded [of b n w] by (intro digits_match) auto

text \<open>A clock reading in range, with a year of four digits.\<close>

definition tm_ok :: "lutil_tm \<Rightarrow> bool" where
  "tm_ok tm \<longleftrightarrow> 0 \<le> tm_sec tm \<and> tm_sec tm \<le> 60 \<and> 0 \<le> tm_min tm \<and> tm_min tm < 60 \<and> 0 \<le> tm_hour tm \<and> tm_hour tm < 24 \<and>
     1 \<le> tm_mday tm \<and> tm_mday tm \<le> 31 \<and> 0 \<le> tm_mon tm \<and> tm_mon tm < 12 \<and> 1000 \<le> tm_year tm + 1900 \<and> tm_year tm + 1900 < 10000 \<and>
     0 \<le> tm_usec tm \<and> tm_usec tm < 1000000 \<and> 0 \<le> tm_usub tm \<and> tm_usub tm < 0x1000000"

lemma year_digits: "1000 \<le> y \<Longrightarrow> y < 10000 \<Longrightarrow> length (digits_of 10 y) = 4"
proof -
  assume y: "1000 \<le> y" "y < 10000"
  then have "y div 10 div 10 div 10 < 10" "10 \<le> y div 10 div 10" "10 \<le> y div 10" by auto
  with y show ?thesis by (simp add: digits_of.simps [of 10 y] digits_of.simps [of 10 "y div 10"]
      digits_of.simps [of 10 "y div 10 div 10"] digits_of.simps [of 10 "y div 10 div 10 div 10"])
qed

lemma csnstr_ok:
  assumes "tm_ok tm" "0 \<le> sid" "sid \<le> SLAP_SYNC_SID_MAX"
  shows "csn_ok (ldap_pvt_csnstr tm LDAP_PVT_CSNSTR_BUFSIZE sid 0)"
    "csn_sid (ldap_pvt_csnstr tm LDAP_PVT_CSNSTR_BUFSIZE sid 0) = sid"
proof -
  note t = assms [unfolded tm_ok_def SLAP_SYNC_SID_MAX_def]
  define y where "y = digits_of 10 (tm_year tm + 1900)"
  have ly: "length y = 4" using year_digits t by (simp add: y_def)
  have py: "pad_space 4 y = y" by (simp add: pad_space_def ly)
  note p = padded_matches [of _ 10 _ "CHR ''9''"] padded_matches [of _ 16 _ "CHR ''F''"]
  define hd where "hd = y @ padded 10 2 (tm_mon tm + 1) @ padded 10 2 (tm_mday tm) @ padded 10 2 (tm_hour tm) @
    padded 10 2 (tm_min tm) @ padded 10 2 (tm_sec tm) @ ''.'' @ padded 10 6 (tm_usec tm) @ ''Z#'' @ padded 16 6 (tm_usub tm) @ ''#''"
  define s where "s = hd @ padded 16 3 sid @ ''#'' @ padded 16 6 0"
  have pat: "csn_pattern = replicate 4 (CHR ''9'') @ replicate 2 (CHR ''9'') @ replicate 2 (CHR ''9'') @ replicate 2 (CHR ''9'') @
     replicate 2 (CHR ''9'') @ replicate 2 (CHR ''9'') @ ''.'' @ replicate 6 (CHR ''9'') @ ''Z#'' @ replicate 6 (CHR ''F'') @ ''#'' @
     replicate 3 (CHR ''F'') @ ''#'' @ replicate 6 (CHR ''F'')"
    by (simp add: csn_pattern_def numeral_eq_Suc)
  have "list_all2 csn_char_ok (replicate 4 (CHR ''9'')) y"
    using digits_of_spec [of "tm_year tm + 1900" 10] t ly by (intro digits_match [of 10]) (simp_all add: y_def)
  then have ok: "csn_ok s"
    unfolding csn_ok_def pat s_def hd_def append_assoc
    using t by (intro list_all2_appendI p) (simp_all add: csn_char_ok_def)
  have "ldap_pvt_csnstr tm LDAP_PVT_CSNSTR_BUFSIZE sid 0 = s"
    using csn_ok_length [OF ok]
    by (simp add: ldap_pvt_csnstr_def Let_def LDAP_PVT_CSNSTR_BUFSIZE_def py s_def hd_def y_def [symmetric])
  moreover have "length hd = 30" "length (padded 16 3 sid) = 3" "xvalue 16 (padded 16 3 sid) = sid"
    using t ly padded_spec [of sid 16 3] by (simp_all add: hd_def length_padded)
  then have "csn_sid s = sid" by (simp add: csn_sid_def s_def)
  ultimately show "csn_ok (ldap_pvt_csnstr tm LDAP_PVT_CSNSTR_BUFSIZE sid 0)"
    "csn_sid (ldap_pvt_csnstr tm LDAP_PVT_CSNSTR_BUFSIZE sid 0) = sid"
    using ok by simp_all
qed

section \<open>Properties\<close>

text \<open>C6. Whatever the interleaving of operations, the queue of pending CSNs stays well-formed: each
  operation has at most one entry, which carries its own CSN, entries of one server stand in time order, and the debug count is
  the length.\<close>

theorem pending_reachable_invariant:
  assumes "pcl_step\<^sup>*\<^sup>* (be, ops) (be', ops')" "pcl_start be ops"
  shows "pcl_inv be' ops'"
proof -
  have "pcl_inv be ops"
    using assms(2) by (auto simp: pcl_start_def pcl_inv_def queue_ok_def op_ok_def o_csn_bv_def)
  with assms(1) show ?thesis
    by (induction rule: rtranclp_induct2) (use pcl_step_inv in force)+
qed

text \<open>C5. Committing never announces too much: the CSN that \<^verbatim>\<open>slap_get_commit_csn\<close> returns belongs to
  a committed entry of the same server, and no pending entry of that server is older. When every pending entry of the
  server is newer than the operation's own, it is the operation's own CSN. No assertion fails.\<close>

theorem commit_csn_correct:
  assumes "pcl_inv be ops" "be_pending_csn_list be = Some l" "c \<in> set l" "ce_op c = i" "LDAP_PVT_CSNSTR_BUFSIZE \<le> n"
  shows "\<exists>l' m. slap_get_commit_csn e (ops i) (Some n) be = Some (be\<lparr>be_pending_csn_list := Some l'\<rparr>, ce_sid c, Some m) \<and>
    pcl_inv (be\<lparr>be_pending_csn_list := Some l'\<rparr>) ops \<and> c\<lparr>ce_state := SLAP_CSN_COMMIT\<rparr> \<in> set l' \<and>
    (m \<noteq> [] \<longrightarrow> (\<exists>d\<in>set l'. ce_csn d = m \<and> ce_sid d = ce_sid c \<and> ce_state d = SLAP_CSN_COMMIT)) \<and>
    (m \<noteq> [] \<longrightarrow> (\<forall>d\<in>set l'. ce_sid d = ce_sid c \<and> ce_state d = SLAP_CSN_PENDING \<longrightarrow> csn_ts m \<le> csn_ts (ce_csn d))) \<and>
    ((\<forall>d\<in>set l'. ce_sid d = ce_sid c \<and> ce_state d = SLAP_CSN_PENDING \<longrightarrow> csn_ts (ce_csn c) < csn_ts (ce_csn d)) \<longrightarrow> m = ce_csn c)"
  using get_commit_ok [OF assms, of e] unfolding commit_spec_def .

text \<open>An operation that queues a valid CSN and later leaves the queue does so without a failed assertion:
  queueing adds exactly one pending entry, leaving removes exactly the operation's entry and reports its state.\<close>

lemma pending_queue_and_graduate:
  assumes "pcl_inv be ops" "env_ok e" "csn_valid e csn" "be_pending_csn_list be = Some l" "i \<notin> ce_op ` set l"
    "be_pending_csn_count be = None \<or> length l < 41"
  shows "\<exists>be' op' l'. slap_queue_csn e (ops i) csn be = Some (be', op') \<and> pcl_inv be' (ops(i := op')) \<and>
    be_pending_csn_list be' = Some l' \<and>
    mset l' = add_mset \<lparr>ce_op = i, ce_csn = csn, ce_sid = csn_sid csn, ce_state = SLAP_CSN_PENDING\<rparr> (mset l) \<and>
    (\<exists>be'' op''. slap_graduate_commit_csn e op' be' = Some (be'', op'', SLAP_CSN_PENDING) \<and>
      mset (the (be_pending_csn_list be'')) = mset l)"
proof -
  define p where "p = \<lparr>ce_op = i, ce_csn = csn, ce_sid = csn_sid csn, ce_state = SLAP_CSN_PENDING\<rparr>"
  have room: "n < 41" if "be_pending_csn_count be = Some n" for n
    using assms(1,4,6) that by (auto simp: pcl_inv_def)
  have "runs (slap_queue_csn e (ops i) csn be) (\<lambda>(be', op').
      pcl_inv be' (ops(i := op')) \<and> mset (the (be_pending_csn_list be')) = add_mset p (mset l))"
    by (rule runs_mono [OF queue_csn_ok [OF assms(1-3), of i]]) (use assms(4,5) room in \<open>auto simp: p_def\<close>)
  then obtain be' op' where q: "slap_queue_csn e (ops i) csn be = Some (be', op')" "pcl_inv be' (ops(i := op'))"
      "mset (the (be_pending_csn_list be')) = add_mset p (mset l)"
    by (auto simp: runs_def)
  then obtain l' where l': "be_pending_csn_list be' = Some l'" by (auto simp: pcl_inv_def)
  with q(3) have "p \<in> set l'" "ce_op p = i" by (auto simp: p_def dest: arg_cong [of _ _ set_mset])
  from graduate_ok [OF q(2) l' this, of e] q l' show ?thesis
    by (auto simp: p_def mset_remove1)
qed

text \<open>Two operations of server 1: the older one is still pending when the newer one commits.\<close>

definition queue_env :: env where
  "queue_env = \<lparr>env_assert = True, env_check = True, env_strict = True,
     env_now = ''20240101000000.000000Z#000000#001#000000'', env_stamp = ''20240101000000.000000Z'', slap_serverID = 1\<rparr>"

definition older :: slap_csn_entry where
  "older = \<lparr>ce_op = 0, ce_csn = ''20170101000000.000000Z#000000#001#000000'', ce_sid = 1, ce_state = SLAP_CSN_PENDING\<rparr>"

definition newer :: slap_csn_entry where
  "newer = \<lparr>ce_op = 1, ce_csn = ''20170101000001.000000Z#000000#001#000000'', ce_sid = 1, ce_state = SLAP_CSN_PENDING\<rparr>"

definition sample_pcl :: pcl where
  "sample_pcl = \<lparr>be_pending_csn_list = Some [older, newer], be_pending_csn_count = Some 2\<rparr>"

definition sample_ops :: "nat \<Rightarrow> operation" where
  "sample_ops i = (if i = 0 then \<lparr>op_id = 0, o_csn = Some (ce_csn older), o_csn_master = Some 0\<rparr>
     else if i = 1 then \<lparr>op_id = 1, o_csn = Some (ce_csn newer), o_csn_master = Some 1\<rparr>
     else \<lparr>op_id = i, o_csn = None, o_csn_master = None\<rparr>)"

lemma sample_inv: "pcl_inv sample_pcl sample_ops"
proof -
  have "entry_ok older \<and> entry_ok newer \<and> in_order older newer" by code_simp
  moreover have "ce_op older = 0 \<and> ce_op newer = 1" by (simp add: older_def newer_def)
  ultimately show ?thesis
    by (auto simp: pcl_inv_def sample_pcl_def sample_ops_def queue_ok_def op_ok_def o_csn_bv_def)
qed

lemma commit_csn_correct_witness:
  "\<exists>l' m. slap_get_commit_csn queue_env (sample_ops 0) (Some 64) sample_pcl =
     Some (sample_pcl\<lparr>be_pending_csn_list := Some l'\<rparr>, 1, Some m) \<and> older\<lparr>ce_state := SLAP_CSN_COMMIT\<rparr> \<in> set l'"
  using commit_csn_correct [OF sample_inv, of "[older, newer]" older 0 64 queue_env]
  by (auto simp: sample_pcl_def LDAP_PVT_CSNSTR_BUFSIZE_def older_def)

lemma pending_reachable_invariant_witness:
  "\<exists>be' op'. slap_queue_csn queue_env \<lparr>op_id = 0, o_csn = None, o_csn_master = None\<rparr> (ce_csn older)
     \<lparr>be_pending_csn_list = Some [], be_pending_csn_count = Some 0\<rparr> = Some (be', op') \<and>
     pcl_inv be' ((\<lambda>i. \<lparr>op_id = i, o_csn = None, o_csn_master = None\<rparr>)(0 := op'))"
proof -
  let ?be = "\<lparr>be_pending_csn_list = Some [], be_pending_csn_count = Some 0\<rparr>"
  let ?ops = "\<lambda>i. \<lparr>op_id = i, o_csn = None, o_csn_master = None\<rparr>"
  have start: "pcl_start ?be ?ops" by (simp add: pcl_start_def)
  have e: "env_ok queue_env \<and> csn_valid queue_env (ce_csn older)" by code_simp
  have "\<not> Option.is_none (slap_queue_csn queue_env (?ops 0) (ce_csn older) ?be)" by code_simp
  then obtain be' op' where q: "slap_queue_csn queue_env (?ops 0) (ce_csn older) ?be = Some (be', op')"
    by (auto simp: Option.is_none_def)
  then have "pcl_step\<^sup>*\<^sup>* (?be, ?ops) (be', ?ops(0 := op'))"
    using e by (intro r_into_rtranclp pcl_step.queue) auto
  from pending_reachable_invariant [OF this start] q show ?thesis by blast
qed

lemma pending_queue_and_graduate_witness:
  "\<exists>be' op'. slap_queue_csn queue_env (sample_ops 2) ''20170101000000.500000Z#000000#001#000000'' sample_pcl = Some (be', op') \<and>
     length (the (be_pending_csn_list be')) = 3"
proof -
  have "env_ok queue_env \<and> csn_valid queue_env ''20170101000000.500000Z#000000#001#000000''" by code_simp
  moreover have "2 \<notin> ce_op ` set [older, newer]" by (simp add: older_def newer_def)
  ultimately obtain be' op' l' where "slap_queue_csn queue_env (sample_ops 2) ''20170101000000.500000Z#000000#001#000000'' sample_pcl = Some (be', op')"
      "be_pending_csn_list be' = Some l'" "\<exists>p. mset l' = add_mset p (mset [older, newer])"
    using pending_queue_and_graduate [OF sample_inv, of queue_env "''20170101000000.500000Z#000000#001#000000''" "[older, newer]" 2]
    by (auto simp: sample_pcl_def)
  then show ?thesis by (metis length_Cons list.size(3) mset.simps(2) numeral_3_eq_3 option.sel size_mset)
qed

text \<open>C32. The CSN an operation takes from the clock is well-formed and carries the server's own ID, whatever the
  clock shows within its range.\<close>

theorem clock_csn_wellformed:
  assumes "tm_ok tm" "0 \<le> slap_serverID e" "slap_serverID e \<le> SLAP_SYNC_SID_MAX"
    and "slap_get_csn e tm op LDAP_PVT_CSNSTR_BUFSIZE be = Some (be', op', csn)"
  shows "csn_ok csn \<and> slap_csn_get_sid (bv csn) = slap_serverID e"
  using csnstr_ok [OF assms(1-3)] get_sid_ok(1) assms(4)
  by (auto simp: slap_get_csn_def Let_def bind_eq_Some_conv split: option.splits)

lemma clock_csn_wellformed_witness:
  "\<exists>be' op' csn. slap_get_csn queue_env \<lparr>tm_sec = 5, tm_min = 4, tm_hour = 3, tm_mday = 2, tm_mon = 0, tm_year = 117, tm_usec = 6, tm_usub = 7\<rparr>
     None 64 sample_pcl = Some (be', op', csn) \<and> csn_ok csn"
proof -
  let ?tm = "\<lparr>tm_sec = 5, tm_min = 4, tm_hour = 3, tm_mday = 2, tm_mon = 0, tm_year = 117, tm_usec = 6, tm_usub = 7\<rparr>"
  have "slap_get_csn queue_env ?tm None 64 sample_pcl = Some (sample_pcl, None, ldap_pvt_csnstr ?tm 64 1 0)"
    by (simp add: slap_get_csn_def queue_env_def)
  moreover from this have "csn_ok (ldap_pvt_csnstr ?tm 64 1 0)"
    using clock_csn_wellformed [of ?tm queue_env None sample_pcl]
    by (simp add: tm_ok_def queue_env_def SLAP_SYNC_SID_MAX_def LDAP_PVT_CSNSTR_BUFSIZE_def)
  ultimately show ?thesis by blast
qed

end
