(* ===== verification/Avl.thy ===== *)
theory Avl
  imports Prelude
begin

text \<open>
  AVL trees, \<^verbatim>\<open>libraries/liblutil/avl.c\<close>: the dictionaries behind the schema tables, the connection
  and entry caches and the overlays. A node is a constructor, a null pointer is \<open>Null\<close>. The C code
  walks down the tree, remembers where it was and repairs the balance factors on the way; the
  position is a list of frames, innermost first, and replacing the subtree there is \<open>plug\<close>.
  Allocation failure is not modelled. The locale \<open>keyed_cmp\<close> is the contract of the comparison
  function a client passes, interpreted for the attribute type table of \<^verbatim>\<open>at.c\<close>.
\<close>

section \<open>Definitions\<close>

definition LH :: int where "LH = - 1"
definition EH :: int where "EH = 0"
definition RH :: int where "RH = 1"
definition AVL_NOMORE :: int where "AVL_NOMORE = - 6"
definition MAX_TREE_DEPTH :: nat where "MAX_TREE_DEPTH = 64"

datatype 'a avlnode = Null | Node "'a avlnode" int 'a "'a avlnode"

text \<open>\<^verbatim>\<open>avl_link[dir]\<close>; a direction is a bool, \<open>True\<close> for \<^verbatim>\<open>avl_right\<close>. \<open>mk d bf x t u\<close> is the node with
  \<open>t\<close> in direction \<open>d\<close> and \<open>u\<close> in the other one.\<close>

fun avl_link :: "bool \<Rightarrow> 'a avlnode \<Rightarrow> 'a avlnode" where
  "avl_link d Null = Null"
| "avl_link d (Node l bf x r) = (if d then r else l)"

definition mk :: "bool \<Rightarrow> int \<Rightarrow> 'a \<Rightarrow> 'a avlnode \<Rightarrow> 'a avlnode \<Rightarrow> 'a avlnode" where
  "mk d bf x t u = (if d then Node u bf x t else Node t bf x u)"

definition avl_bfs :: "bool \<Rightarrow> int" where
  "avl_bfs d = (if d then RH else LH)"

text \<open>A frame: the direction taken, and the balance factor, the data and the other child of the node.\<close>

datatype 'a frame = Frame (f_dir: bool) (f_bf: int) (f_data: 'a) (f_other: "'a avlnode")

fun plug :: "'a frame list \<Rightarrow> 'a avlnode \<Rightarrow> 'a avlnode" where
  "plug [] t = t"
| "plug (Frame d bf x u # fs) t = plug fs (mk d bf x t u)"

text \<open>The search loop of insertion and deletion; \<open>c\<close> compares the data searched with a node's.\<close>

fun avl_path :: "('a \<Rightarrow> int) \<Rightarrow> 'a avlnode \<Rightarrow> 'a frame list \<Rightarrow> 'a frame list \<times> 'a avlnode" where
  "avl_path c Null fs = (fs, Null)"
| "avl_path c (Node l bf x r) fs =
     (let cmp = c x
      in if cmp = 0 then (fs, Node l bf x r)
         else if 0 < cmp then avl_path c r (Frame True bf x l # fs)
         else avl_path c l (Frame False bf x r # fs))"

subsection \<open>Insertion\<close>

text \<open>The node \<^verbatim>\<open>s\<close>: the deepest one on the path that is not balanced, otherwise the root. The result
  is the frames below it, its own frame and the frames above.\<close>

fun split_s :: "'a frame \<Rightarrow> 'a frame list \<Rightarrow> 'a frame list \<times> 'a frame \<times> 'a frame list" where
  "split_s f [] = ([], f, [])"
| "split_s f (g # fs) =
     (if f_bf f \<noteq> EH then ([], f, g # fs)
      else let (b, s, a) = split_s g fs in (f # b, s, a))"

text \<open>Adjusting the balance factors from \<^verbatim>\<open>s\<close> down to the new node.\<close>

fun plug_adjust :: "'a frame list \<Rightarrow> 'a avlnode \<Rightarrow> 'a avlnode" where
  "plug_adjust [] t = t"
| "plug_adjust (Frame d bf x u # fs) t = plug_adjust fs (mk d (avl_bfs d) x t u)"

text \<open>Checks and balances at \<^verbatim>\<open>s\<close>: \<open>r\<close> is the subtree with the new node \<open>q\<close>. \<open>None\<close> is the
  dereference of a null pointer.\<close>

fun avl_balance :: "'a frame \<Rightarrow> 'a avlnode \<Rightarrow> 'a avlnode \<Rightarrow> 'a avlnode option" where
  "avl_balance (Frame d sbf sx u) r q =
     (let a = avl_bfs d
      in if sbf = EH then Some (mk d a sx r u)
         else if sbf = - a then Some (mk d EH sx r u)
         else if sbf = a then
           (case r of
              Null \<Rightarrow> None
            | Node rl rbf rx rr \<Rightarrow>
                let rc = avl_link d r; p = avl_link (\<not> d) r
                in if rbf = a then Some (mk d EH rx rc (mk d EH sx p u))
                   else if rbf = - a then
                     (case p of
                        Null \<Rightarrow> None
                      | Node pl pbf px pr \<Rightarrow>
                          let (sbf', rbf') = (if pbf = a then (- a, EH)
                                              else if pbf = - a then (EH, a) else (EH, EH))
                          in Some (mk d EH px (mk d rbf' rx rc (avl_link d p))
                                     (mk d sbf' sx (avl_link (\<not> d) p) u)))
                   else Some q)
         else Some (mk d sbf sx r u))"

text \<open>The tree and the result. \<open>fdup\<close> returns its code and the data it leaves in the node.\<close>

definition avl_insert ::
  "'a avlnode \<Rightarrow> 'a \<Rightarrow> ('a \<Rightarrow> 'a \<Rightarrow> int) \<Rightarrow> ('a \<Rightarrow> 'a \<Rightarrow> int \<times> 'a) \<Rightarrow> ('a avlnode \<times> int) option" where
  "avl_insert root data fcmp fdup =
     (let q = Node Null EH data Null
      in case avl_path (fcmp data) root [] of
           ([], Null) \<Rightarrow> Some (q, 0)
         | (fs, Node l bf x r) \<Rightarrow> (let (rc, x') = fdup x data in Some (plug fs (Node l bf x' r), rc))
         | (f # fs, Null) \<Rightarrow>
             let (below, s, above) = split_s f fs
             in map_option (\<lambda>p. (plug above p, 0)) (avl_balance s (plug_adjust below q) q))"

definition avl_dup_error :: "'a \<Rightarrow> 'a \<Rightarrow> int \<times> 'a" where "avl_dup_error l r = (- 1, l)"
definition avl_dup_ok :: "'a \<Rightarrow> 'a \<Rightarrow> int \<times> 'a" where "avl_dup_ok l r = (0, l)"

subsection \<open>Deletion\<close>

text \<open>The immediate predecessor: down the right links.\<close>

fun avl_pred :: "'a avlnode \<Rightarrow> 'a frame list \<Rightarrow> 'a frame list \<times> 'a avlnode" where
  "avl_pred Null fs = (fs, Null)"
| "avl_pred (Node l bf x r) fs =
     (if r = Null then (fs, Node l bf x r) else avl_pred r (Frame True bf x l # fs))"

text \<open>The loop \<^verbatim>\<open>while (shorter)\<close>: the subtree in the innermost frame has become shorter.\<close>

fun avl_shrink :: "'a frame list \<Rightarrow> 'a avlnode \<Rightarrow> 'a avlnode option" where
  "avl_shrink [] t = Some t"
| "avl_shrink (Frame side pbf px u # fs) t =
     (let side_bf = avl_bfs side
      in if pbf = EH then Some (plug fs (mk side (avl_bfs (\<not> side)) px t u))
         else if pbf = side_bf then avl_shrink fs (mk side EH px t u)
         else case u of
           Null \<Rightarrow> None
         | Node ql qbf qx qr \<Rightarrow>
             let qs = avl_link side u; qn = avl_link (\<not> side) u
             in if qbf = EH
                then Some (plug fs (mk side side_bf qx (mk side (- side_bf) px t qs) qn))
                else if qbf = pbf
                then avl_shrink fs (mk side EH qx (mk side EH px t qs) qn)
                else case qs of
                  Null \<Rightarrow> None
                | Node rl rbf rx rr \<Rightarrow>
                    let (qbf', pbf') = (if rbf = side_bf then (- side_bf, EH)
                                        else if rbf = - side_bf then (EH, side_bf) else (EH, EH))
                    in avl_shrink fs
                         (mk side EH rx (mk side pbf' px t (avl_link side qs))
                            (mk side qbf' qx (avl_link (\<not> side) qs) qn)))"

text \<open>The tree and the data found. The parent stack holds \<^verbatim>\<open>MAX_TREE_DEPTH\<close> frames; \<open>None\<close> is an
  access beyond it.\<close>

definition avl_delete :: "'a avlnode \<Rightarrow> ('a \<Rightarrow> int) \<Rightarrow> ('a avlnode \<times> 'a option) option" where
  "avl_delete root c =
     (let (fs, p) = avl_path c root []
      in if MAX_TREE_DEPTH < length fs then None
         else case p of
           Null \<Rightarrow> Some (root, None)
         | Node l bf x r \<Rightarrow>
             (if l \<noteq> Null \<and> r \<noteq> Null
              then case avl_pred l [] of
                     (gs, Null) \<Rightarrow> None
                   | (gs, Node ql qbf qx qr) \<Rightarrow>
                       (let fs' = gs @ Frame False bf qx r # fs
                        in if MAX_TREE_DEPTH < length fs' then None
                           else map_option (\<lambda>t. (t, Some x)) (avl_shrink fs' ql))
              else map_option (\<lambda>t. (t, Some x)) (avl_shrink fs (if l \<noteq> Null then l else r))))"

subsection \<open>Searching and traversal\<close>

fun avl_find2 :: "'a avlnode \<Rightarrow> ('a \<Rightarrow> int) \<Rightarrow> 'a avlnode" where
  "avl_find2 Null c = Null"
| "avl_find2 (Node l bf x r) c =
     (if c x \<noteq> 0 then avl_find2 (avl_link (0 < c x) (Node l bf x r)) c else Node l bf x r)"

definition avl_find :: "'a avlnode \<Rightarrow> ('a \<Rightarrow> int) \<Rightarrow> 'a option" where
  "avl_find root c = (case avl_find2 root c of Null \<Rightarrow> None | Node l bf x r \<Rightarrow> Some x)"

fun avl_find_lin :: "'a avlnode \<Rightarrow> ('a \<Rightarrow> int) \<Rightarrow> 'a option" where
  "avl_find_lin Null c = None"
| "avl_find_lin (Node l bf x r) c =
     (if c x = 0 then Some x
      else case avl_find_lin l c of
        Some y \<Rightarrow> Some y
      | None \<Rightarrow> if r = Null then None else avl_find_lin r c)"

text \<open>The callback threads a state, the memory its argument points to.\<close>

fun avl_inapply :: "('a \<Rightarrow> 's \<Rightarrow> int \<times> 's) \<Rightarrow> int \<Rightarrow> 'a avlnode \<Rightarrow> 's \<Rightarrow> int \<times> 's" where
  "avl_inapply fn stopflag Null s = (AVL_NOMORE, s)"
| "avl_inapply fn stopflag (Node l bf x r) s =
     (let (rc, s) = (if l \<noteq> Null then avl_inapply fn stopflag l s else (stopflag + 1, s))
      in if rc = stopflag then (stopflag, s)
         else let (rc, s) = fn x s
              in if rc = stopflag then (stopflag, s)
                 else if r = Null then (AVL_NOMORE, s) else avl_inapply fn stopflag r s)"

fun avl_postapply :: "('a \<Rightarrow> 's \<Rightarrow> int \<times> 's) \<Rightarrow> int \<Rightarrow> 'a avlnode \<Rightarrow> 's \<Rightarrow> int \<times> 's" where
  "avl_postapply fn stopflag Null s = (AVL_NOMORE, s)"
| "avl_postapply fn stopflag (Node l bf x r) s =
     (let (rc, s) = (if l \<noteq> Null then avl_postapply fn stopflag l s else (stopflag + 1, s))
      in if rc = stopflag then (stopflag, s)
         else let (rc, s) = (if r \<noteq> Null then avl_postapply fn stopflag r s else (stopflag + 1, s))
              in if rc = stopflag then (stopflag, s) else fn x s)"

fun avl_preapply :: "('a \<Rightarrow> 's \<Rightarrow> int \<times> 's) \<Rightarrow> int \<Rightarrow> 'a avlnode \<Rightarrow> 's \<Rightarrow> int \<times> 's" where
  "avl_preapply fn stopflag Null s = (AVL_NOMORE, s)"
| "avl_preapply fn stopflag (Node l bf x r) s =
     (let (rc, s) = fn x s
      in if rc = stopflag then (stopflag, s)
         else let (rc, s) = (if l \<noteq> Null then avl_preapply fn stopflag l s else (stopflag + 1, s))
              in if rc = stopflag then (stopflag, s)
                 else if r = Null then (AVL_NOMORE, s) else avl_preapply fn stopflag r s)"

definition avl_apply :: "'a avlnode \<Rightarrow> ('a \<Rightarrow> 's \<Rightarrow> int \<times> 's) \<Rightarrow> 's \<Rightarrow> int \<Rightarrow> nat \<Rightarrow> int \<times> 's" where
  "avl_apply root fn arg stopflag type =
     (if type = 2 then avl_inapply fn stopflag root arg
      else if type = 1 then avl_preapply fn stopflag root arg
      else if type = 3 then avl_postapply fn stopflag root arg
      else (- 1, arg))"

fun avl_prefixapply ::
  "'a avlnode \<Rightarrow> ('a \<Rightarrow> 's \<Rightarrow> int \<times> 's) \<Rightarrow> ('a \<Rightarrow> int) \<Rightarrow> int \<Rightarrow> 's \<Rightarrow> int \<times> 's" where
  "avl_prefixapply Null fmatch c stopflag s = (AVL_NOMORE, s)"
| "avl_prefixapply (Node l bf x r) fmatch c stopflag s =
     (let cmp = c x
      in if cmp = 0
         then let (rc, s) = fmatch x s
              in if rc = stopflag then (stopflag, s)
                 else let (rc, s) = (if l \<noteq> Null then avl_prefixapply l fmatch c stopflag s else (stopflag + 1, s))
                      in if rc = stopflag then (stopflag, s)
                         else if r \<noteq> Null then avl_prefixapply r fmatch c stopflag s else (AVL_NOMORE, s)
         else if cmp < 0
         then if l \<noteq> Null then avl_prefixapply l fmatch c stopflag s else (AVL_NOMORE, s)
         else if r \<noteq> Null then avl_prefixapply r fmatch c stopflag s else (AVL_NOMORE, s))"

text \<open>The number of nodes freed, and the data passed to \<^verbatim>\<open>dfree\<close> in order.\<close>

fun avl_free :: "'a avlnode \<Rightarrow> int \<times> 'a list" where
  "avl_free Null = (0, [])"
| "avl_free (Node l bf x r) =
     (let (nleft, ls) = (if l \<noteq> Null then avl_free l else (0, []));
          (nright, rs) = (if r \<noteq> Null then avl_free r else (0, []))
      in (nleft + nright + 1, ls @ rs @ [x]))"

text \<open>The static list of the non-reentrant traversal and the position in it.\<close>

record 'a avl_static =
  avl_list :: "'a list option"
  avl_nextlist :: nat

definition avl_buildlist :: "'a \<Rightarrow> 'a list option \<Rightarrow> int \<times> 'a list option" where
  "avl_buildlist x l = (0, Some (case l of None \<Rightarrow> [x] | Some xs \<Rightarrow> xs @ [x]))"

definition avl_getfirst :: "'a avlnode \<Rightarrow> 'a avl_static \<times> 'a option" where
  "avl_getfirst root =
     (if root = Null then (\<lparr>avl_list = None, avl_nextlist = 0\<rparr>, None)
      else let (rc, l) = avl_apply root avl_buildlist None (- 1) 2
           in (\<lparr>avl_list = l, avl_nextlist = 1\<rparr>, Some (the l ! 0)))"

definition avl_getnext :: "'a avl_static \<Rightarrow> 'a avl_static \<times> 'a option" where
  "avl_getnext st =
     (case avl_list st of
        None \<Rightarrow> (st, None)
      | Some xs \<Rightarrow>
          if avl_nextlist st = length xs then (st\<lparr>avl_list := None\<rparr>, None)
          else (st\<lparr>avl_nextlist := Suc (avl_nextlist st)\<rparr>, Some (xs ! avl_nextlist st)))"

section \<open>Invariant and abstraction\<close>

fun inorder :: "'a avlnode \<Rightarrow> 'a list" where
  "inorder Null = []"
| "inorder (Node l bf x r) = inorder l @ x # inorder r"

fun height :: "'a avlnode \<Rightarrow> nat" where
  "height Null = 0"
| "height (Node l bf x r) = Suc (max (height l) (height r))"

text \<open>The balance factor of every node is the difference of the heights, at most one.\<close>

fun balanced :: "'a avlnode \<Rightarrow> bool" where
  "balanced Null = True"
| "balanced (Node l bf x r) \<longleftrightarrow> bf = int (height r) - int (height l) \<and> \<bar>bf\<bar> \<le> 1 \<and> balanced l \<and> balanced r"

lemmas bf_simps = LH_def EH_def RH_def avl_bfs_def mk_def

text \<open>What stands to the left and to the right of the subtree in a position.\<close>

fun lefts :: "'a frame list \<Rightarrow> 'a list" where
  "lefts [] = []"
| "lefts (Frame d bf x u # fs) = lefts fs @ (if d then inorder u @ [x] else [])"

fun rights :: "'a frame list \<Rightarrow> 'a list" where
  "rights [] = []"
| "rights (Frame d bf x u # fs) = (if d then [] else x # inorder u) @ rights fs"

lemma inorder_mk: "inorder (mk d bf x t u) = (if d then inorder u @ x # inorder t else inorder t @ x # inorder u)"
  by (simp add: mk_def)

lemma inorder_plug [simp]: "inorder (plug fs t) = lefts fs @ inorder t @ rights fs"
  by (induction fs t rule: plug.induct) (simp_all add: inorder_mk)

lemma plug_append [simp]: "plug (fs @ gs) t = plug gs (plug fs t)"
  by (induction fs t rule: plug.induct) simp_all

lemma lefts_append [simp]: "lefts (fs @ gs) = lefts gs @ lefts fs"
  by (induction fs rule: lefts.induct) simp_all

lemma rights_append [simp]: "rights (fs @ gs) = rights fs @ rights gs"
  by (induction fs rule: rights.induct) simp_all

section \<open>Balance\<close>

lemma height_mk [simp]: "height (mk d bf x t u) = Suc (max (height t) (height u))"
  by (simp add: mk_def max.commute)

lemma balanced_mk:
  "balanced (mk d bf x t u) \<longleftrightarrow> balanced t \<and> balanced u \<and>
     (bf = EH \<and> height t = height u \<or> bf = avl_bfs d \<and> height t = Suc (height u) \<or> bf = - avl_bfs d \<and> height u = Suc (height t))"
  by (auto simp: bf_simps)

lemma avl_bfs_neq [simp]: "avl_bfs d \<noteq> EH" "- avl_bfs d \<noteq> EH" "EH \<noteq> avl_bfs d" "EH \<noteq> - avl_bfs d"
    "avl_bfs d \<noteq> - avl_bfs d" "- avl_bfs d \<noteq> avl_bfs d" "avl_bfs (\<not> d) = - avl_bfs d" "avl_bfs d \<noteq> 0"
  by (simp_all add: bf_simps)

lemma link_mk [simp]: "avl_link d (mk d bf x t u) = t" "avl_link (\<not> d) (mk d bf x t u) = u"
  by (simp_all add: mk_def)

lemma case_mk [simp]: "(case mk d bf x t u of Null \<Rightarrow> a | Node l b y r \<Rightarrow> f b y) = f bf x"
  by (simp add: mk_def)

lemma mk_neq [simp]: "mk d bf x t u \<noteq> Null"
  by (simp add: mk_def)

lemma ex_mk: "0 < height t \<Longrightarrow> \<exists>bf x u v. t = mk d bf x u v"
  by (cases t; cases d) (auto simp: mk_def)

lemma balanced_plug: "balanced (plug fs t) \<Longrightarrow> balanced t"
  by (induction fs t rule: plug.induct) (auto simp: balanced_mk)

text \<open>A subtree of the same height fits into the same place.\<close>

lemma plug_same:
  "balanced (plug fs t) \<Longrightarrow> balanced t' \<Longrightarrow> height t' = height t \<Longrightarrow>
   balanced (plug fs t') \<and> height (plug fs t') = height (plug fs t)"
proof (induction fs t arbitrary: t' rule: plug.induct)
  case (2 d bf x u fs t)
  have "balanced (mk d bf x t u)" using 2 balanced_plug by simp
  then have "balanced (mk d bf x t' u)" using 2 by (simp add: balanced_mk)
  then show ?case using 2 by simp
qed simp

lemma plug_adjust_taller:
  "balanced (plug fs t) \<Longrightarrow> \<forall>f\<in>set fs. f_bf f = EH \<Longrightarrow> balanced t' \<Longrightarrow> height t' = Suc (height t) \<Longrightarrow>
   balanced (plug_adjust fs t') \<and> height (plug_adjust fs t') = Suc (height (plug fs t)) \<and>
   inorder (plug_adjust fs t') = lefts fs @ inorder t' @ rights fs \<and>
   (fs \<noteq> [] \<longrightarrow> (\<exists>d bf x u v. plug_adjust fs t' = mk d bf x u v \<and> bf \<noteq> EH))"
proof (induction fs t' arbitrary: t rule: plug_adjust.induct)
  case (2 d bf x u fs t')
  have "balanced (mk d bf x t u)" using 2(2) balanced_plug by simp
  then have eq: "height t = height u" using 2(3) by (auto simp: balanced_mk)
  then have m: "balanced (mk d (avl_bfs d) x t' u)" "height (mk d (avl_bfs d) x t' u) = Suc (height (mk d bf x t u))"
    using 2 \<open>balanced (mk d bf x t u)\<close> by (auto simp: balanced_mk)
  moreover have "\<exists>k b y v w. mk d (avl_bfs d) x t' u = mk k b y v w \<and> b \<noteq> EH" by (metis avl_bfs_neq(1))
  ultimately show ?case using 2(1) [of "mk d bf x t u"] 2(2,3)
    by (cases fs) (auto simp: inorder_mk)
qed simp

lemma split_s_spec:
  "split_s f fs = (b, s, a) \<Longrightarrow> f # fs = b @ s # a \<and> (\<forall>g\<in>set b. f_bf g = EH) \<and> (a \<noteq> [] \<longrightarrow> f_bf s \<noteq> EH)"
proof (induction f fs arbitrary: b s a rule: split_s.induct)
  case (2 f g fs)
  obtain b' s' a' where g: "split_s g fs = (b', s', a')" by (cases "split_s g fs") auto
  show ?case
  proof (cases "f_bf f = EH")
    case True
    from "2.IH" [OF _ g] True have "g # fs = b' @ s' # a'" "\<forall>h\<in>set b'. f_bf h = EH" "a' \<noteq> [] \<longrightarrow> f_bf s' \<noteq> EH"
      by simp_all
    moreover have "b = f # b'" "s = s'" "a = a'" using "2.prems" True g by simp_all
    ultimately show ?thesis using True by simp
  qed (use "2.prems" in auto)
qed auto

text \<open>Balancing at \<^verbatim>\<open>s\<close>: the subtree has grown by one; only a balanced \<^verbatim>\<open>s\<close> grows.\<close>

lemma avl_balance_ok:
  assumes s: "balanced (mk d sbf sx t u)" and r: "balanced r" "height r = Suc (height t)"
    and bf: "t \<noteq> Null \<Longrightarrow> \<exists>d bf x v w. r = mk d bf x v w \<and> bf \<noteq> EH"
  shows "\<exists>p. avl_balance (Frame d sbf sx u) r q = Some p \<and> balanced p \<and>
    inorder p = inorder (mk d sbf sx r u) \<and> (sbf \<noteq> EH \<longrightarrow> height p = height (mk d sbf sx t u))"
proof -
  consider "sbf = EH" "height t = height u" | "sbf = - avl_bfs d" "height u = Suc (height t)"
    | "sbf = avl_bfs d" "height t = Suc (height u)" "balanced u"
    using s by (auto simp: balanced_mk)
  then show ?thesis
  proof cases
    case 3
    obtain rbf rx rc ri where R: "r = mk d rbf rx rc ri" using ex_mk [of r d] r(2) by auto
    have "rbf \<noteq> EH" using bf 3 R by (cases t) (auto simp: mk_def split: if_splits)
    then consider "rbf = avl_bfs d" "height rc = Suc (height ri)" | "rbf = - avl_bfs d" "height ri = Suc (height rc)"
      using r(1) R by (auto simp: balanced_mk)
    then show ?thesis
    proof cases
      case 1
      with 3 r R show ?thesis by (auto simp: Let_def balanced_mk inorder_mk)
    next
      case 2
      then obtain pbf px pc pn where P: "ri = mk d pbf px pc pn" using ex_mk [of ri d] by auto
      consider "pbf = EH" | "pbf = avl_bfs d" | "pbf = - avl_bfs d"
        using P r R by (auto simp: balanced_mk)
      then show ?thesis
        by cases (use P 2 3 r R in \<open>simp_all add: Let_def balanced_mk inorder_mk\<close>)
    qed
  qed (use s r in \<open>auto simp: Let_def balanced_mk inorder_mk\<close>)
qed

section \<open>Keys\<close>

text \<open>The comparison with one searched key.\<close>

definition compares :: "('a \<Rightarrow> int) \<Rightarrow> ('a \<Rightarrow> 'k::linorder) \<Rightarrow> 'k \<Rightarrow> bool" where
  "compares c key k \<longleftrightarrow> (\<forall>x. (c x = 0 \<longleftrightarrow> key x = k) \<and> (0 < c x \<longleftrightarrow> key x < k))"

definition ordered :: "('a \<Rightarrow> 'k::linorder) \<Rightarrow> 'a avlnode \<Rightarrow> bool" where
  "ordered key t \<longleftrightarrow> sorted_wrt (<) (map key (inorder t))"

text \<open>The dictionary a tree stands for.\<close>

definition dict :: "('a \<Rightarrow> 'k::linorder) \<Rightarrow> 'a avlnode \<Rightarrow> 'k \<rightharpoonup> 'a" where
  "dict key t = map_of (map (\<lambda>x. (key x, x)) (inorder t))"

lemma comparesD:
  assumes "compares c key k"
  shows "c x = 0 \<longleftrightarrow> key x = k" "0 < c x \<longleftrightarrow> key x < k" "c x < 0 \<longleftrightarrow> k < key x"
proof -
  show 1: "c x = 0 \<longleftrightarrow> key x = k" "0 < c x \<longleftrightarrow> key x < k" using assms by (simp_all add: compares_def)
  show "c x < 0 \<longleftrightarrow> k < key x" using 1 by (metis linorder_neqE not_less_iff_gr_or_eq)
qed

lemma ordered_split:
  "sorted_wrt (<) (map key (xs @ x # ys)) \<longleftrightarrow>
   sorted_wrt (<) (map key (xs @ ys)) \<and> (\<forall>y\<in>set xs. key y < key x) \<and> (\<forall>y\<in>set ys. key x < key y)"
  by (auto simp: sorted_wrt_append)

lemma map_of_split:
  assumes "\<forall>y\<in>set xs. key y < (key x :: 'k::linorder)"
  shows "map_of (map (\<lambda>x. (key x, x)) (xs @ x # ys)) = (map_of (map (\<lambda>x. (key x, x)) (xs @ ys)))(key x \<mapsto> x)"
proof -
  have "map_of (map (\<lambda>x. (key x, x)) xs) (key x) = None"
    using assms by (auto simp: map_of_eq_None_iff)
  then show ?thesis by (auto simp: map_add_def fun_eq_iff split: option.splits)
qed

lemma map_of_absent:
  assumes "\<forall>y\<in>set xs. key y < (k :: 'k::linorder)" "\<forall>y\<in>set ys. k < key y"
  shows "map_of (map (\<lambda>x. (key x, x)) (xs @ ys)) k = None"
  using assms by (force simp: map_of_eq_None_iff)

text \<open>The search loop ends at the searched key, with smaller keys to the left and larger ones to the
  right.\<close>

lemma avl_path_plug: "avl_path c t fs = (gs, f) \<Longrightarrow> plug gs f = plug fs t"
  by (induction c t fs rule: avl_path.induct) (auto simp: Let_def mk_def split: if_splits)

lemma avl_path_depth: "avl_path c t fs = (gs, f) \<Longrightarrow> length gs + height f \<le> length fs + height t"
  by (induction c t fs rule: avl_path.induct) (auto simp: Let_def split: if_splits)

lemma avl_path_order:
  assumes "compares c key k" "avl_path c t fs = (gs, f)"
    and "sorted_wrt (<) (map key (lefts fs @ inorder t @ rights fs))"
    and "\<forall>x\<in>set (lefts fs). key x < k" "\<forall>x\<in>set (rights fs). k < key x"
  shows "(\<forall>x\<in>set (lefts gs). key x < k) \<and> (\<forall>x\<in>set (rights gs). k < key x) \<and>
    (\<forall>l bf x r. f = Node l bf x r \<longrightarrow> key x = k)"
  using assms(2-5)
proof (induction t arbitrary: fs)
  case (Node l bf x r)
  note c = comparesD [OF assms(1), of x]
  have lr: "\<forall>y\<in>set (inorder l). key y < key x" "\<forall>y\<in>set (inorder r). key x < key y"
    using Node.prems(2) by (simp_all add: sorted_wrt_append)
  consider "c x = 0" | "0 < c x" | "c x < 0" by linarith
  then show ?case
  proof cases
    case 1
    with Node.prems c show ?thesis by auto
  next
    case 2
    with c have "key x < k" by simp
    moreover from this have "\<forall>y\<in>set (inorder l). key y < k"
      using lr(1) by (meson less_trans)
    moreover have "avl_path c r (Frame True bf x l # fs) = (gs, f)" using Node.prems(1) 2 by simp
    moreover have "sorted_wrt (<) (map key (lefts (Frame True bf x l # fs) @ inorder r @ rights (Frame True bf x l # fs)))"
      using Node.prems(2) by simp
    ultimately show ?thesis
      using Node.prems(3,4) by (intro Node.IH(2) [of "Frame True bf x l # fs"]) (simp_all add: ball_Un)
  next
    case 3
    with c have "k < key x" by simp
    moreover from this have "\<forall>y\<in>set (inorder r). k < key y"
      using lr(2) by (meson less_trans)
    moreover have "avl_path c l (Frame False bf x r # fs) = (gs, f)" using Node.prems(1) 3 by simp
    moreover have "sorted_wrt (<) (map key (lefts (Frame False bf x r # fs) @ inorder l @ rights (Frame False bf x r # fs)))"
      using Node.prems(2) by simp
    ultimately show ?thesis
      using Node.prems(3,4) by (intro Node.IH(1) [of "Frame False bf x r # fs"]) (simp_all add: ball_Un)
  qed
qed auto

lemmas avl_path_root = avl_path_order [where fs = "[]", simplified]

section \<open>Insertion\<close>

lemma insert_new:
  assumes "avl_path (fcmp data) t [] = (fs, Null)" "balanced t"
  shows "\<exists>t'. avl_insert t data fcmp fdup = Some (t', 0) \<and> balanced t' \<and> inorder t' = lefts fs @ data # rights fs"
proof (cases fs)
  case Nil
  with assms show ?thesis by (simp add: avl_insert_def EH_def)
next
  case (Cons f gs)
  let ?q = "Node Null EH data Null"
  obtain below s above where sp: "split_s f gs = (below, s, above)" by (cases "split_s f gs") auto
  note spec = split_s_spec [OF sp]
  obtain d sbf sx u where s: "s = Frame d sbf sx u" by (cases s)
  have t: "t = plug above (mk d sbf sx (plug below Null) u)"
    using avl_path_plug [OF assms(1)] spec s Cons by simp
  then have bs: "balanced (mk d sbf sx (plug below Null) u)" using assms(2) balanced_plug by metis
  then have "balanced (plug below Null)" by (simp add: balanced_mk)
  note adj = plug_adjust_taller [OF this, of ?q]
  have q: "balanced ?q" "height ?q = Suc (height Null)" by (simp_all add: EH_def)
  have bf: "\<exists>d bf x v w. plug_adjust below ?q = mk d bf x v w \<and> bf \<noteq> EH" if "plug below Null \<noteq> Null"
    using that adj spec q by (cases below) auto
  obtain p where p: "avl_balance s (plug_adjust below ?q) ?q = Some p" "balanced p"
    "inorder p = inorder (mk d sbf sx (plug_adjust below ?q) u)"
    "sbf \<noteq> EH \<longrightarrow> height p = height (mk d sbf sx (plug below Null) u)"
    using avl_balance_ok [OF bs, of "plug_adjust below ?q" ?q] adj spec q bf s by auto
  have "balanced (plug above p)"
  proof (cases above)
    case Cons
    then have "height p = height (mk d sbf sx (plug below Null) u)" using p(4) spec s by simp
    with plug_same [of above "mk d sbf sx (plug below Null) u" p] assms(2) p(2) t show ?thesis by simp
  qed (use p in simp)
  moreover have "inorder (plug above p) = lefts fs @ data # rights fs"
    using adj spec q p(3) s Cons by (auto simp: inorder_mk)
  ultimately show ?thesis
    using assms(1) Cons sp p(1) by (simp add: avl_insert_def Let_def)
qed

lemma insert_dup:
  assumes "avl_path (fcmp data) t [] = (fs, Node l bf x r)" "balanced t"
  shows "\<exists>t'. avl_insert t data fcmp fdup = Some (t', fst (fdup x data)) \<and> balanced t' \<and>
    inorder t = (lefts fs @ inorder l) @ x # inorder r @ rights fs \<and>
    inorder t' = (lefts fs @ inorder l) @ snd (fdup x data) # inorder r @ rights fs"
proof -
  have t: "t = plug fs (Node l bf x r)" using avl_path_plug [OF assms(1)] by simp
  have "balanced (plug fs (Node l bf (snd (fdup x data)) r))"
    using plug_same [of fs "Node l bf x r" "Node l bf (snd (fdup x data)) r"] balanced_plug [of fs "Node l bf x r"] assms(2) t
    by simp
  then show ?thesis
    using assms(1) t by (cases fs) (auto simp: avl_insert_def Let_def split: prod.split)
qed

section \<open>Deletion\<close>

lemma avl_shrink_ok:
  "balanced (plug fs t) \<Longrightarrow> balanced t' \<Longrightarrow> height t = Suc (height t') \<Longrightarrow>
   \<exists>p. avl_shrink fs t' = Some p \<and> balanced p \<and> inorder p = lefts fs @ inorder t' @ rights fs"
proof (induction fs arbitrary: t t')
  case (Cons f fs)
  obtain side pbf px u where f: "f = Frame side pbf px u" by (cases f)
  note IH = Cons.IH [OF Cons.prems(1) [unfolded f plug.simps]]
  have P: "balanced (mk side pbf px t u)" using Cons.prems(1) balanced_plug by (simp add: f)
  consider "pbf = EH" "height t = height u" | "pbf = avl_bfs side" "height t = Suc (height u)"
    | "pbf = - avl_bfs side" "height u = Suc (height t)"
    using P by (auto simp: balanced_mk)
  then show ?case
  proof cases
    case 1
    then have "balanced (mk side (- avl_bfs side) px t' u)" "height (mk side (- avl_bfs side) px t' u) = height (mk side pbf px t u)"
      using P Cons.prems(2,3) by (simp_all add: balanced_mk)
    with plug_same [of fs "mk side pbf px t u"] Cons.prems(1) 1 show ?thesis
      by (simp add: f Let_def inorder_mk)
  next
    case 2
    then have "balanced (mk side EH px t' u)" "height (mk side pbf px t u) = Suc (height (mk side EH px t' u))"
      using P Cons.prems(2,3) by (simp_all add: balanced_mk)
    from IH [OF this] 2 show ?thesis by (auto simp: f Let_def inorder_mk)
  next
    case 3
    obtain qbf qx qs qn where U: "u = mk side qbf qx qs qn" using ex_mk [of u side] 3 by auto
    have bu: "balanced (mk side qbf qx qs qn)" using P U by (simp add: balanced_mk)
    then consider "qbf = EH" "height qs = height qn" | "qbf = - avl_bfs side" "height qn = Suc (height qs)"
      | "qbf = avl_bfs side" "height qs = Suc (height qn)"
      by (auto simp: balanced_mk)
    then show ?thesis
    proof cases
      case 1
      let ?new = "mk side (avl_bfs side) qx (mk side (- avl_bfs side) px t' qs) qn"
      have "balanced ?new" "height ?new = height (mk side pbf px t u)"
        using 1 3 U bu Cons.prems(2,3) by (simp_all add: balanced_mk)
      with plug_same [of fs "mk side pbf px t u" ?new] Cons.prems(1) 1 3 U show ?thesis
        by (simp add: f Let_def inorder_mk)
    next
      case 2
      let ?new = "mk side EH qx (mk side EH px t' qs) qn"
      have "balanced ?new" "height (mk side pbf px t u) = Suc (height ?new)"
        using 2 3 U bu Cons.prems(2,3) by (simp_all add: balanced_mk)
      from IH [OF this] 2 3 U show ?thesis by (auto simp: f Let_def inorder_mk)
    next
      case q: 3
      obtain rbf rx rs rn where R: "qs = mk side rbf rx rs rn" using ex_mk [of qs side] q by auto
      have br: "balanced (mk side rbf rx rs rn)" using bu R by (simp add: balanced_mk)
      define bfs where "bfs = (if rbf = avl_bfs side then (- avl_bfs side, EH)
        else if rbf = - avl_bfs side then (EH, avl_bfs side) else (EH, EH))"
      let ?new = "mk side EH rx (mk side (snd bfs) px t' rs) (mk side (fst bfs) qx rn qn)"
      have "rbf = EH \<or> rbf = avl_bfs side \<or> rbf = - avl_bfs side" using br by (auto simp: balanced_mk)
      then have "balanced ?new \<and> height (mk side pbf px t u) = Suc (height ?new)"
        by (elim disjE) (use q 3 U R bu Cons.prems(2,3) in \<open>simp_all add: balanced_mk bfs_def\<close>)
      then have "\<exists>p. avl_shrink fs ?new = Some p \<and> balanced p \<and> inorder p = lefts fs @ inorder ?new @ rights fs"
        using IH by blast
      moreover have "avl_shrink (f # fs) t' = avl_shrink fs ?new"
        using q 3 U R by (simp add: f Let_def bfs_def)
      ultimately show ?thesis by (auto simp: f U R inorder_mk)
    qed
  qed
qed simp

lemma avl_pred_spec:
  "t \<noteq> Null \<Longrightarrow> avl_pred t fs = (gs, q) \<Longrightarrow> plug gs q = plug fs t \<and> rights gs = rights fs \<and>
   length gs + height q \<le> length fs + height t \<and> (\<exists>ql qbf qx. q = Node ql qbf qx Null)"
proof (induction t fs rule: avl_pred.induct)
  case (2 l bf x r fs)
  then show ?case by (cases "r = Null") (auto simp: mk_def)
qed simp

lemma delete_found:
  assumes "avl_path c t [] = (fs, Node l bf x r)" "balanced t" "height t \<le> MAX_TREE_DEPTH"
  shows "\<exists>t'. avl_delete t c = Some (t', Some x) \<and> balanced t' \<and>
    inorder t = (lefts fs @ inorder l) @ x # inorder r @ rights fs \<and>
    inorder t' = (lefts fs @ inorder l) @ inorder r @ rights fs"
proof -
  have t: "t = plug fs (Node l bf x r)" using avl_path_plug [OF assms(1)] by simp
  then have b: "balanced (Node l bf x r)" using assms(2) balanced_plug by metis
  have d: "length fs + height (Node l bf x r) \<le> height t" using avl_path_depth [OF assms(1)] by simp
  show ?thesis
  proof (cases "l \<noteq> Null \<and> r \<noteq> Null")
    case True
    obtain gs q where p: "avl_pred l [] = (gs, q)" by (cases "avl_pred l []")
    then obtain ql qbf qx where q: "q = Node ql qbf qx Null" "plug gs q = l" "rights gs = []" "length gs + height q \<le> height l"
      using avl_pred_spec [of l "[]" gs q] True by auto
    let ?fs = "gs @ Frame False bf qx r # fs"
    have "balanced (Node l bf qx r)" using b by auto
    then have "balanced (plug ?fs q)"
      using plug_same [of fs "Node l bf x r" "Node l bf qx r"] assms(2) t q(2) by (simp add: mk_def del: balanced.simps)
    moreover from this have "balanced q" by (rule balanced_plug)
    then have "balanced ql" "height q = Suc (height ql)" using q(1) by simp_all
    ultimately obtain p where s: "avl_shrink ?fs ql = Some p" "balanced p" "inorder p = lefts ?fs @ inorder ql @ rights ?fs"
      using avl_shrink_ok by blast
    moreover have "inorder l = lefts gs @ inorder ql @ [qx]" using q(2) by (auto simp: q(1,3))
    moreover have "length ?fs \<le> MAX_TREE_DEPTH" using d q(4) assms(3) by simp
    ultimately show ?thesis
      using True assms(1) p q t by (simp add: avl_delete_def Let_def)
  next
    case False
    let ?u = "if l \<noteq> Null then l else r"
    have "balanced ?u" "height (Node l bf x r) = Suc (height ?u)" using b False by auto
    then obtain p where "avl_shrink fs ?u = Some p" "balanced p" "inorder p = lefts fs @ inorder ?u @ rights fs"
      using avl_shrink_ok [of fs "Node l bf x r" ?u] assms(2) t by blast
    moreover have "inorder ?u = inorder l @ inorder r" using False by auto
    ultimately show ?thesis
      using False assms(1,3) d t by (auto simp: avl_delete_def Let_def)
  qed
qed

lemma delete_absent:
  assumes "avl_path c t [] = (fs, Null)" "height t \<le> MAX_TREE_DEPTH"
  shows "avl_delete t c = Some (t, None)"
  using avl_path_depth [OF assms(1)] assms by (simp add: avl_delete_def)

text \<open>A tree of height \<open>h\<close> has at least so many nodes.\<close>

fun min_nodes :: "nat \<Rightarrow> nat \<times> nat" where
  "min_nodes 0 = (0, 1)"
| "min_nodes (Suc h) = (let (a, b) = min_nodes h in (b, a + b + 1))"

lemma min_nodes_shift: "snd (min_nodes h) = fst (min_nodes (Suc h))" "fst (min_nodes h) \<le> snd (min_nodes h)"
  by (induction h) (auto simp: Let_def split: prod.split)

lemma balanced_size:
  "balanced t \<Longrightarrow> fst (min_nodes (height t)) \<le> length (inorder t)"
proof (induction t)
  case (Node l bf x r)
  define m where "m = (\<lambda>h. fst (min_nodes h))"
  have step: "m (Suc (Suc h)) = m h + m (Suc h) + 1" for h by (simp add: m_def Let_def split: prod.split)
  have mono: "m h \<le> m (Suc h)" for h using min_nodes_shift [of h] by (simp add: m_def)
  have lr: "m (height l) \<le> length (inorder l)" "m (height r) \<le> length (inorder r)"
    using Node by (simp_all add: m_def)
  consider "height l = height r" | "height l = Suc (height r)" | "height r = Suc (height l)"
    using Node.prems by fastforce
  then have "m (Suc (max (height l) (height r))) \<le> Suc (length (inorder l) + length (inorder r))"
  proof cases
    case 1
    show ?thesis
    proof (cases "height r")
      case (Suc h)
      with 1 lr step [of h] mono [of h] show ?thesis by simp
    qed (use 1 in \<open>simp add: m_def\<close>)
  qed (use lr step in auto)
  then show ?case by (simp add: m_def)
qed simp

section \<open>Searching\<close>

lemma avl_find2_path: "avl_find2 t c = snd (avl_path c t fs)"
  by (induction t arbitrary: fs) (simp_all add: Let_def)

lemma path_dict:
  assumes "compares c key k" "ordered key t" "avl_path c t [] = (fs, f)"
  shows "dict key t k = (case f of Null \<Rightarrow> None | Node l bf x r \<Rightarrow> Some x)"
proof -
  note o = avl_path_root [OF assms(1,3) assms(2) [unfolded ordered_def]]
  have t: "inorder t = lefts fs @ inorder f @ rights fs" using avl_path_plug [OF assms(3)] by (metis inorder_plug plug.simps(1))
  show ?thesis
  proof (cases f)
    case Null
    then show ?thesis
      using map_of_absent [of "lefts fs" key k "rights fs"] o by (simp add: dict_def t)
  next
    case (Node l bf x r)
    then have x: "key x = k" using o by simp
    have "\<forall>y\<in>set (lefts fs @ inorder l). key y < key x"
      using assms(2) by (auto simp: ordered_def t Node sorted_wrt_append)
    from map_of_split [OF this, of "inorder r @ rights fs"] x show ?thesis by (simp add: dict_def t Node)
  qed
qed

lemma avl_find_dict:
  assumes "compares c key k" "ordered key t"
  shows "avl_find t c = dict key t k"
  using path_dict [OF assms, of "fst (avl_path c t [])" "snd (avl_path c t [])"]
  by (simp add: avl_find_def avl_find2_path [of t c "[]"])

fun preorder :: "'a avlnode \<Rightarrow> 'a list" where
  "preorder Null = []"
| "preorder (Node l bf x r) = x # preorder l @ preorder r"

fun postorder :: "'a avlnode \<Rightarrow> 'a list" where
  "postorder Null = []"
| "postorder (Node l bf x r) = postorder l @ postorder r @ [x]"

lemma mset_orders: "mset (preorder t) = mset (inorder t)" "mset (postorder t) = mset (inorder t)"
  by (induction t) simp_all

lemma find_append: "find P (xs @ ys) = (case find P xs of None \<Rightarrow> find P ys | Some x \<Rightarrow> Some x)"
  by (induction xs) simp_all

lemma avl_find_lin_ok: "avl_find_lin t c = find (\<lambda>x. c x = 0) (preorder t)"
  by (induction t) (auto simp: find_append split: option.split)

section \<open>Traversals\<close>

fun apply_list :: "('a \<Rightarrow> 's \<Rightarrow> int \<times> 's) \<Rightarrow> int \<Rightarrow> 'a list \<Rightarrow> 's \<Rightarrow> int \<times> 's" where
  "apply_list fn stop [] s = (AVL_NOMORE, s)"
| "apply_list fn stop (x # xs) s =
     (let (rc, s) = fn x s in if rc = stop then (stop, s) else apply_list fn stop xs s)"

lemma apply_list_append:
  "stop \<noteq> AVL_NOMORE \<Longrightarrow> apply_list fn stop (xs @ ys) s =
     (let (rc, s') = apply_list fn stop xs s in if rc = stop then (stop, s') else apply_list fn stop ys s')"
  by (induction xs arbitrary: s) (simp_all add: Let_def split: prod.split)

lemma inapply_ok: "stop \<noteq> AVL_NOMORE \<Longrightarrow> avl_inapply fn stop t s = apply_list fn stop (inorder t) s"
  by (induction t arbitrary: s) (auto simp: apply_list_append Let_def split: prod.split)

lemma preapply_ok: "stop \<noteq> AVL_NOMORE \<Longrightarrow> avl_preapply fn stop t s = apply_list fn stop (preorder t) s"
  by (induction t arbitrary: s) (auto simp: apply_list_append Let_def split: prod.split)

text \<open>The post-order traversal ends with the code of the last call instead of \<^verbatim>\<open>AVL_NOMORE\<close>.\<close>

lemma postapply_ok:
  "stop \<noteq> AVL_NOMORE \<Longrightarrow> snd (avl_postapply fn stop t s) = snd (apply_list fn stop (postorder t) s) \<and>
     (fst (avl_postapply fn stop t s) = stop \<longleftrightarrow> fst (apply_list fn stop (postorder t) s) = stop)"
proof (induction t arbitrary: s)
  case (Node l bf x r)
  have eq: "fst (apply_list fn stop xs s) = stop \<or> fst (apply_list fn stop xs s) = AVL_NOMORE" for xs s
    by (induction xs arbitrary: s) (simp_all add: Let_def split: prod.split)
  obtain rc s1 where l: "avl_postapply fn stop l s = (rc, s1)" by (cases "avl_postapply fn stop l s")
  obtain rc' s1' where l': "apply_list fn stop (postorder l) s = (rc', s1')" by (cases "apply_list fn stop (postorder l) s")
  have 1: "s1' = s1" "rc = stop \<longleftrightarrow> rc' = stop" using Node.IH(1) [OF Node.prems, of s] l l' by auto
  obtain rd s2 where r: "avl_postapply fn stop r s1 = (rd, s2)" by (cases "avl_postapply fn stop r s1")
  obtain rd' s2' where r': "apply_list fn stop (postorder r) s1 = (rd', s2')" by (cases "apply_list fn stop (postorder r) s1")
  have 2: "s2' = s2" "rd = stop \<longleftrightarrow> rd' = stop" using Node.IH(2) [OF Node.prems, of s1] r r' by auto
  have null: "l = Null \<Longrightarrow> rc \<noteq> stop \<and> s1 = s" "r = Null \<Longrightarrow> rd \<noteq> stop \<and> s2 = s1" using l r Node.prems by auto
  show ?case
    using Node.prems l r l' r' 1 2 null by (auto simp: apply_list_append Let_def split: prod.split)
qed simp

lemma prefixapply_ok:
  assumes "sorted_wrt (\<lambda>x y. sgn (c y) \<le> sgn (c x)) (inorder t)" "stop \<noteq> AVL_NOMORE"
  shows "avl_prefixapply t fmatch c stop s = apply_list fmatch stop (filter (\<lambda>x. c x = 0) (preorder t)) s"
  using assms(1)
proof (induction t arbitrary: s)
  case (Node l bf x r)
  have set_pre: "set (preorder u) = set (inorder u)" for u :: "'a avlnode" using mset_orders(1) by (metis set_mset_mset)
  have lr: "\<forall>y\<in>set (inorder l). sgn (c x) \<le> sgn (c y)" "\<forall>y\<in>set (inorder r). sgn (c y) \<le> sgn (c x)"
      "sorted_wrt (\<lambda>x y. sgn (c y) \<le> sgn (c x)) (inorder l)" "sorted_wrt (\<lambda>x y. sgn (c y) \<le> sgn (c x)) (inorder r)"
    using Node.prems by (auto simp: sorted_wrt_append)
  note IH = Node.IH(1) [OF lr(3)] Node.IH(2) [OF lr(4)]
  consider "c x = 0" | "c x < 0" | "0 < c x" by linarith
  then show ?case
  proof cases
    case 1
    then show ?thesis using assms(2) by (auto simp: apply_list_append Let_def IH split: prod.split)
  next
    case 2
    then have "filter (\<lambda>x. c x = 0) (preorder r) = []"
      using lr(2) by (auto simp: filter_empty_conv set_pre sgn_if split: if_splits)
    with 2 show ?thesis by (auto simp: IH)
  next
    case 3
    then have "filter (\<lambda>x. c x = 0) (preorder l) = []"
      using lr(1) by (fastforce simp: filter_empty_conv set_pre sgn_if split: if_splits)
    with 3 show ?thesis by (auto simp: IH)
  qed
qed simp

lemma avl_free_ok: "avl_free t = (int (length (inorder t)), postorder t)"
  by (induction t) (auto split: prod.split)

lemma buildlist_ok:
  "apply_list avl_buildlist (- 1) xs l =
     (AVL_NOMORE, if xs = [] then l else Some ((case l of None \<Rightarrow> [] | Some ys \<Rightarrow> ys) @ xs))"
  by (induction xs arbitrary: l) (auto simp: avl_buildlist_def split: option.splits)

lemma getfirst_ok:
  assumes "t \<noteq> Null"
  shows "avl_getfirst t = (\<lparr>avl_list = Some (inorder t), avl_nextlist = 1\<rparr>, Some (inorder t ! 0))"
  using assms by (cases t) (simp_all add: avl_getfirst_def avl_apply_def inapply_ok AVL_NOMORE_def buildlist_ok del: avl_inapply.simps)

fun getnexts :: "nat \<Rightarrow> 'a avl_static \<Rightarrow> 'a option list" where
  "getnexts 0 st = []"
| "getnexts (Suc n) st = (let (st', x) = avl_getnext st in x # getnexts n st')"

lemma getnexts_ok:
  "k \<le> length xs \<Longrightarrow> getnexts (Suc (length xs - k)) \<lparr>avl_list = Some xs, avl_nextlist = k\<rparr> = map Some (drop k xs) @ [None]"
proof (induction "length xs - k" arbitrary: k)
  case (Suc n)
  then have "k < length xs" by simp
  moreover from this have "length xs - k = Suc (length xs - Suc k)" by simp
  ultimately show ?case using Suc.hyps(1) [of "Suc k"] Suc.hyps(2) by (simp add: avl_getnext_def Cons_nth_drop_Suc [symmetric] flip: One_nat_def)
qed (simp add: avl_getnext_def)

section \<open>The contract of a comparison function\<close>

locale keyed_cmp =
  fixes fcmp :: "'a \<Rightarrow> 'a \<Rightarrow> int" and key :: "'a \<Rightarrow> 'k::linorder"
  assumes fcmp_key: "compares (fcmp x) key (key x)"
begin

lemma insert_absent:
  assumes "balanced t" "ordered key t" "dict key t (key x) = None"
  shows "\<exists>t'. avl_insert t x fcmp fdup = Some (t', 0) \<and> balanced t' \<and> ordered key t' \<and>
    dict key t' = (dict key t)(key x \<mapsto> x)"
proof -
  obtain fs f where p: "avl_path (fcmp x) t [] = (fs, f)" by (cases "avl_path (fcmp x) t []")
  then have f: "f = Null" using path_dict [OF fcmp_key assms(2) p] assms(3) by (cases f) auto
  note o = avl_path_root [OF fcmp_key p assms(2) [unfolded ordered_def]]
  have t: "inorder t = lefts fs @ rights fs" using avl_path_plug [OF p] f by (metis append_Nil inorder.simps(1) inorder_plug plug.simps(1))
  obtain t' where t': "avl_insert t x fcmp fdup = Some (t', 0)" "balanced t'" "inorder t' = lefts fs @ x # rights fs"
    using insert_new [of fcmp x t fs fdup] p f assms(1) by auto
  have "ordered key t'" using assms(2) o ordered_split [of key "lefts fs" x "rights fs"] by (simp add: ordered_def t t'(3))
  moreover have "dict key t' = (dict key t)(key x \<mapsto> x)"
    using map_of_split [of "lefts fs" key x "rights fs"] o by (simp add: dict_def t t'(3))
  ultimately show ?thesis using t' by blast
qed

lemma insert_present:
  assumes "balanced t" "ordered key t" "dict key t (key x) = Some y" "fdup y x = (rc, y')" "key y' = key y"
  shows "\<exists>t'. avl_insert t x fcmp fdup = Some (t', rc) \<and> balanced t' \<and> ordered key t' \<and>
    dict key t' = (dict key t)(key x \<mapsto> y')"
proof -
  obtain fs f where p: "avl_path (fcmp x) t [] = (fs, f)" by (cases "avl_path (fcmp x) t []")
  then obtain l bf r where f: "f = Node l bf y r" using path_dict [OF fcmp_key assms(2) p] assms(3) by (cases f) auto
  have ky: "key y = key x" using avl_path_root [OF fcmp_key p assms(2) [unfolded ordered_def]] f by simp
  let ?xs = "lefts fs @ inorder l" and ?ys = "inorder r @ rights fs"
  obtain t' where t': "avl_insert t x fcmp fdup = Some (t', rc)" "balanced t'" "inorder t = ?xs @ y # ?ys" "inorder t' = ?xs @ y' # ?ys"
    using insert_dup [of fcmp x t fs l bf y r fdup] p f assms(1,4) by auto
  have o: "\<forall>z\<in>set ?xs. key z < key y" "sorted_wrt (<) (map key (?xs @ y' # ?ys))"
    using assms(2) ordered_split [of key ?xs y ?ys] ordered_split [of key ?xs y' ?ys] assms(5)
    unfolding ordered_def t'(3) by simp_all
  then have "dict key t' = (dict key t)(key x \<mapsto> y')"
    unfolding dict_def t'(3,4) using map_of_split [of ?xs key y ?ys] map_of_split [of ?xs key y' ?ys] assms(5) ky by simp
  with t' o show ?thesis by (auto simp: ordered_def)
qed

lemma delete_dict:
  assumes "balanced t" "ordered key t" "height t \<le> MAX_TREE_DEPTH"
  shows "\<exists>t'. avl_delete t (fcmp x) = Some (t', dict key t (key x)) \<and> balanced t' \<and> ordered key t' \<and>
    dict key t' = (dict key t)(key x := None)"
proof -
  obtain fs f where p: "avl_path (fcmp x) t [] = (fs, f)" by (cases "avl_path (fcmp x) t []")
  note o = avl_path_root [OF fcmp_key p assms(2) [unfolded ordered_def]]
  show ?thesis
  proof (cases f)
    case Null
    then have "dict key t (key x) = None" using path_dict [OF fcmp_key assms(2) p] by simp
    moreover from this have "(dict key t)(key x := None) = dict key t" by (simp add: fun_upd_idem)
    ultimately show ?thesis using delete_absent [of "fcmp x" t fs] p Null assms by auto
  next
    case (Node l bf y r)
    let ?xs = "lefts fs @ inorder l" and ?ys = "inorder r @ rights fs"
    obtain t' where t': "avl_delete t (fcmp x) = Some (t', Some y)" "balanced t'" "inorder t = ?xs @ y # ?ys" "inorder t' = ?xs @ ?ys"
      using delete_found [of "fcmp x" t fs l bf y r] p Node assms by auto
    have ky: "key y = key x" using o Node by simp
    have s: "sorted_wrt (<) (map key (?xs @ ?ys))" "\<forall>z\<in>set ?xs. key z < key y" "\<forall>z\<in>set ?ys. key y < key z"
      using assms(2) ordered_split [of key ?xs y ?ys] unfolding ordered_def t'(3) by simp_all
    have "dict key t = (dict key t')(key x \<mapsto> y)"
      unfolding dict_def t'(3,4) using map_of_split [OF s(2), of ?ys] ky by simp
    moreover have "dict key t' (key x) = None"
      unfolding dict_def t'(4) using map_of_absent [OF s(2,3)] ky by simp
    ultimately have "dict key t' = (dict key t)(key x := None)" "dict key t (key x) = Some y"
      by (auto simp: fun_eq_iff)
    with t' s(1) show ?thesis by (auto simp: ordered_def)
  qed
qed

lemma find_dict: "ordered key t \<Longrightarrow> avl_find t (fcmp x) = dict key t (key x)"
  by (rule avl_find_dict [OF fcmp_key])

end

section \<open>Properties\<close>

text \<open>Trees of fewer than 44945570212852 nodes are not deeper than the parent stack.\<close>

lemma min_nodes_mono: "h \<le> k \<Longrightarrow> fst (min_nodes h) \<le> fst (min_nodes k)"
  by (rule lift_Suc_mono_le [of "\<lambda>h. fst (min_nodes h)"]) (use min_nodes_shift in \<open>metis\<close>)+

fun min_acc :: "nat \<Rightarrow> nat \<Rightarrow> nat \<Rightarrow> nat" where
  "min_acc a b 0 = a"
| "min_acc a b (Suc n) = min_acc b (a + b + 1) n"

lemma min_acc_ok: "min_acc (fst (min_nodes k)) (snd (min_nodes k)) n = fst (min_nodes (n + k))"
proof (induction n arbitrary: k)
  case (Suc n)
  have "snd (min_nodes (Suc k)) = fst (min_nodes k) + snd (min_nodes k) + 1" by (simp add: Let_def split: prod.split)
  then show ?case using Suc [of "Suc k"] min_nodes_shift(1) [of k] by simp
qed simp

lemma min_acc_numeral: "min_acc a b (numeral k) = min_acc b (a + b + 1) (pred_numeral k)" "min_acc a b 1 = b"
  by (simp_all add: numeral_eq_Suc)

lemma min_nodes_65: "fst (min_nodes 65) = 44945570212852"
  using min_acc_ok [of 0 65] by (simp add: min_acc_numeral del: One_nat_def)

lemma depth_bound:
  assumes "balanced t" "length (inorder t) < 44945570212852"
  shows "height t \<le> MAX_TREE_DEPTH"
proof (rule ccontr)
  assume "\<not> height t \<le> MAX_TREE_DEPTH"
  then have "fst (min_nodes 65) \<le> length (inorder t)"
    using min_nodes_mono [of 65 "height t"] balanced_size [OF assms(1)] by (simp add: MAX_TREE_DEPTH_def)
  with assms(2) show False by (simp add: min_nodes_65)
qed

text \<open>C36. Inserting into a balanced, ordered tree keeps it balanced and ordered and never dereferences a null
  pointer. A new key is added to the dictionary; for a key that exists the duplicate function decides
  the result and the data.\<close>

theorem avl_insert_correct:
  assumes "balanced t" "ordered key t" "\<And>x. compares (fcmp x) key (key x)" "\<And>y. key (snd (fdup y d)) = key y"
  shows "\<exists>t' rc. avl_insert t d fcmp fdup = Some (t', rc) \<and> balanced t' \<and> ordered key t' \<and>
    (case dict key t (key d) of
       None \<Rightarrow> rc = 0 \<and> dict key t' = (dict key t)(key d \<mapsto> d)
     | Some y \<Rightarrow> rc = fst (fdup y d) \<and> dict key t' = (dict key t)(key d \<mapsto> snd (fdup y d)))"
proof -
  have k: "keyed_cmp fcmp key" by (standard) (rule assms(3))
  show ?thesis
    using keyed_cmp.insert_absent [OF k assms(1,2), of d fdup] keyed_cmp.insert_present [OF k assms(1,2), of d _ fdup] assms(4)
    by (cases "dict key t (key d)") (auto simp: prod_eq_iff)
qed

text \<open>C37. Deleting from a balanced, ordered tree returns the data under the key, removes exactly that key and
  keeps the tree balanced and ordered. With fewer than 44945570212852 nodes the parent stack is large enough.\<close>

theorem avl_delete_correct:
  assumes "balanced t" "ordered key t" "\<And>x. compares (fcmp x) key (key x)" "length (inorder t) < 44945570212852"
  shows "\<exists>t'. avl_delete t (fcmp d) = Some (t', dict key t (key d)) \<and> balanced t' \<and> ordered key t' \<and>
    dict key t' = (dict key t)(key d := None)"
proof -
  have k: "keyed_cmp fcmp key" by (standard) (rule assms(3))
  show ?thesis by (rule keyed_cmp.delete_dict [OF k assms(1,2) depth_bound [OF assms(1,4)]])
qed

definition sample_tree :: "int avlnode" where
  "sample_tree = Node (Node Null 0 3 Null) 0 5 (Node Null 0 8 Null)"

lemma sample_tree_ok: "balanced sample_tree" "ordered id sample_tree" "compares (cmp x) id (id (x :: int))"
  by (auto simp: sample_tree_def ordered_def compares_def cmp_def)

lemma avl_insert_correct_witness:
  "\<exists>t'. avl_insert sample_tree 9 cmp avl_dup_error = Some (t', 0) \<and> balanced t' \<and> dict id t' 9 = Some 9"
proof -
  have "dict id sample_tree 9 = None" by (simp add: dict_def sample_tree_def)
  then show ?thesis
    using avl_insert_correct [OF sample_tree_ok, of avl_dup_error 9] by (auto simp: avl_dup_error_def)
qed

lemma avl_delete_correct_witness:
  "\<exists>t'. avl_delete sample_tree (cmp 5) = Some (t', Some 5) \<and> balanced t' \<and> dict id t' 5 = None"
proof -
  have "dict id sample_tree 5 = Some 5" "length (inorder sample_tree) < 44945570212852"
    by (simp_all add: dict_def sample_tree_def)
  then show ?thesis
    using avl_delete_correct [OF sample_tree_ok, of 5] by auto
qed

end
