(* ===== verification/Attr_Index.thy ===== *)
theory Attr_Index
  imports Avl
begin

text \<open>
  The table of attribute types, \<^verbatim>\<open>servers/slapd/at.c\<close>, a client of the AVL trees. An attribute type
  is named by a number, the pointer of the source; the store maps it to its fields. The index maps
  names and OIDs to types; the cache is a second tree, filled in tool mode only. Attribute
  descriptions, which the table also repairs, and the release of memory are not modelled.
\<close>

section \<open>Definitions\<close>

definition SLAP_SCHERR_ATTR_DUP :: int where "SLAP_SCHERR_ATTR_DUP = 12"
definition SLAP_SCHERR_ATTR_INCONSISTENT :: int where "SLAP_SCHERR_ATTR_INCONSISTENT = 13"

record attribute_type =
  sat_oid :: "string option"
  sat_names :: "string list option"
  sat_sup :: "nat option"
  sat_syntax_oid :: "string option"
  sat_deleted :: bool   \<comment> \<open>\<^verbatim>\<open>SLAP_AT_DELETED\<close> in \<^verbatim>\<open>sat_flags\<close>\<close>
  sat_hardcode :: bool  \<comment> \<open>\<^verbatim>\<open>SLAP_AT_HARDCODE\<close>\<close>

record aindexrec =
  air_name :: string
  air_at :: nat

record attr_tables =
  attr_index :: "aindexrec avlnode"
  attr_cache :: "aindexrec avlnode"
  attr_list :: "nat list"
  at_sys_tail :: "nat option"
  ats :: "nat \<Rightarrow> attribute_type"

text \<open>The chain of superior types; fuel bounds the walk by the number of types, \<open>None\<close> stands for
  a cyclic chain (no return) and, in \<^verbatim>\<open>at_syntax\<close>, for the abort at the end of the chain.\<close>

fun at_syntax :: "nat \<Rightarrow> (nat \<Rightarrow> 'a attribute_type_scheme) \<Rightarrow> nat option \<Rightarrow> string option" where
  "at_syntax fuel store None = None"
| "at_syntax 0 store (Some a) = None"
| "at_syntax (Suc fuel) store (Some a) =
     (case sat_syntax_oid (store a) of
        Some oid \<Rightarrow> Some oid
      | None \<Rightarrow> at_syntax fuel store (sat_sup (store a)))"

definition is_at_syntax :: "nat \<Rightarrow> (nat \<Rightarrow> 'a attribute_type_scheme) \<Rightarrow> nat \<Rightarrow> string \<Rightarrow> bool option" where
  "is_at_syntax fuel store a oid = map_option (\<lambda>syn_oid. syn_oid = oid) (at_syntax fuel store (Some a))"

fun is_at_subtype :: "nat \<Rightarrow> (nat \<Rightarrow> 'a attribute_type_scheme) \<Rightarrow> nat option \<Rightarrow> nat \<Rightarrow> bool option" where
  "is_at_subtype fuel store None super = Some False"
| "is_at_subtype 0 store (Some sub) super = None"
| "is_at_subtype (Suc fuel) store (Some sub) super =
     (if sub = super then Some True else is_at_subtype fuel store (sat_sup (store sub)) super)"

text \<open>\<^verbatim>\<open>strcasecmp\<close> of the C library.\<close>

definition strcasecmp :: "string \<Rightarrow> string \<Rightarrow> int" where
  "strcasecmp a b = cmp (map tolower a) (map tolower b)"

definition attr_index_cmp :: "aindexrec \<Rightarrow> aindexrec \<Rightarrow> int" where
  "attr_index_cmp air1 air2 =
     (let i = int (length (air_name air1)) - int (length (air_name air2))
      in if i \<noteq> 0 then i else strcasecmp (air_name air1) (air_name air2))"

definition attr_index_name_cmp :: "string \<Rightarrow> aindexrec \<Rightarrow> int" where
  "attr_index_name_cmp type air =
     (let i = int (length type) - int (length (air_name air))
      in if i \<noteq> 0 then i else strcasecmp type (air_name air))"

text \<open>\<open>tool\<close> is \<^verbatim>\<open>(slapMode & SLAP_TOOL_MODE) && at_oc_cache\<close>. \<open>None\<close> is a crash of the tree code.\<close>

definition at_bvfind :: "bool \<Rightarrow> attr_tables \<Rightarrow> string \<Rightarrow> (attr_tables \<times> nat option) option" where
  "at_bvfind tool st name =
     (case avl_find (attr_cache st) (attr_index_name_cmp name) of
        Some air \<Rightarrow> Some (st, Some (air_at air))
      | None \<Rightarrow>
          (case avl_find (attr_index st) (attr_index_name_cmp name) of
             None \<Rightarrow> Some (st, None)
           | Some air \<Rightarrow>
               if sat_deleted (ats st (air_at air)) then Some (st, None)
               else if tool then do {
                 (c, rc) \<leftarrow> avl_insert (attr_cache st) air attr_index_cmp avl_dup_error;
                 Some (st\<lparr>attr_cache := c\<rparr>, Some (air_at air)) }
               else Some (st, Some (air_at air))))"

definition at_find :: "bool \<Rightarrow> attr_tables \<Rightarrow> string \<Rightarrow> (attr_tables \<times> nat option) option" where
  "at_find tool st name = at_bvfind tool st name"

text \<open>Null-terminated lists of types; a null list is \<open>None\<close>. The second function moves the tail
  down by one.\<close>

definition at_append_to_list :: "nat \<Rightarrow> nat list option \<Rightarrow> nat list" where
  "at_append_to_list sat listp = (case listp of None \<Rightarrow> [sat] | Some l \<Rightarrow> l @ [sat])"

definition at_delete_from_list :: "int \<Rightarrow> nat list \<Rightarrow> nat list \<times> int" where
  "at_delete_from_list pos l =
     (if pos < 0 then (l, - 2)
      else if int (length l) \<le> pos then (l, - 2)
      else (take (nat pos) l @ drop (Suc (nat pos)) l, 0))"

fun find_pos :: "nat \<Rightarrow> nat list \<Rightarrow> int \<Rightarrow> int" where
  "find_pos sat [] i = - 1"
| "find_pos sat (x # l) i = (if sat = x then i else find_pos sat l (i + 1))"

definition at_find_in_list :: "nat \<Rightarrow> nat list option \<Rightarrow> int" where
  "at_find_in_list sat l = (case l of None \<Rightarrow> - 1 | Some l \<Rightarrow> find_pos sat l 0)"

fun delete_names :: "env \<Rightarrow> nat \<Rightarrow> string list \<Rightarrow> attr_tables \<Rightarrow> attr_tables option" where
  "delete_names e a [] st = Some st"
| "delete_names e a (n # ns) st = do {
     (t, air) \<leftarrow> avl_delete (attr_index st) (attr_index_cmp \<lparr>air_name = n, air_at = a\<rparr>);
     assert_that e (air \<noteq> None);
     delete_names e a ns (st\<lparr>attr_index := t\<rparr>) }"

definition at_delete_names :: "env \<Rightarrow> nat \<Rightarrow> attr_tables \<Rightarrow> attr_tables option" where
  "at_delete_names e a st =
     (case sat_names (ats st a) of None \<Rightarrow> Some st | Some names \<Rightarrow> delete_names e a names st)"

definition at_delete :: "env \<Rightarrow> nat \<Rightarrow> attr_tables \<Rightarrow> attr_tables option" where
  "at_delete e a st =
     at_delete_names e a (st\<lparr>ats := (ats st)(a := (ats st a)\<lparr>sat_deleted := True\<rparr>),
                             attr_list := remove1 a (attr_list st)\<rparr>)"

definition at_start :: "attr_tables \<Rightarrow> nat option" where
  "at_start st = (case attr_list st of [] \<Rightarrow> None | a # l \<Rightarrow> Some a)"

text \<open>The pointer moved and whether a type is left; \<^verbatim>\<open>LDAP_STAILQ_NEXT\<close> is the successor in the list.\<close>

definition at_next :: "attr_tables \<Rightarrow> nat option \<Rightarrow> nat option \<times> bool" where
  "at_next st a =
     (case a of
        None \<Rightarrow> (None, False)
      | Some a \<Rightarrow>
          (case drop 1 (dropWhile (\<lambda>x. x \<noteq> a) (attr_list st)) of
             [] \<Rightarrow> (None, False)
           | b # l \<Rightarrow> (Some b, True)))"

text \<open>The names of the old type are compared with those of the new one while the new one has names.\<close>

fun names_differ :: "string list \<Rightarrow> string list \<Rightarrow> bool" where
  "names_differ old [] = False"
| "names_differ [] (n # new) = True"
| "names_differ (m # old) (n # new) = (strcasecmp m n \<noteq> 0 \<or> names_differ old new)"

definition at_check_dup :: "attribute_type \<Rightarrow> attribute_type \<Rightarrow> int" where
  "at_check_dup sat new_sat =
     (if (case sat_oid new_sat of
            Some o1 \<Rightarrow> (case sat_oid sat of None \<Rightarrow> True | Some o2 \<Rightarrow> o2 \<noteq> o1)
          | None \<Rightarrow> sat_oid sat \<noteq> None)
      then SLAP_SCHERR_ATTR_INCONSISTENT
      else if (case sat_names new_sat of
                 Some ns \<Rightarrow> (case sat_names sat of None \<Rightarrow> True | Some ms \<Rightarrow> names_differ ms ns)
               | None \<Rightarrow> sat_names sat \<noteq> None)
      then SLAP_SCHERR_ATTR_INCONSISTENT
      else SLAP_SCHERR_ATTR_DUP)"

text \<open>The rollback: the names entered so far, last one first, then the OID.\<close>

definition at_rollback :: "env \<Rightarrow> nat \<Rightarrow> string list \<Rightarrow> attr_tables \<Rightarrow> attr_tables option" where
  "at_rollback e a entered st = do {
     st \<leftarrow> delete_names e a entered st;
     (case sat_oid (ats st a) of None \<Rightarrow> Some st | Some oid \<Rightarrow> delete_names e a [oid] st) }"

text \<open>The loop over the names. The result is the tables, the code and the text for the error message.\<close>

fun insert_names ::
  "env \<Rightarrow> bool \<Rightarrow> nat \<Rightarrow> string list \<Rightarrow> string list \<Rightarrow> attr_tables \<Rightarrow> (attr_tables \<times> int \<times> string) option" where
  "insert_names e tool a entered [] st = Some (st, 0, [])"
| "insert_names e tool a entered (n # ns) st = do {
     (t, dup) \<leftarrow> avl_insert (attr_index st) \<lparr>air_name = n, air_at = a\<rparr> attr_index_cmp avl_dup_error;
     if dup \<noteq> 0
     then do {
       (st, old) \<leftarrow> at_bvfind tool st n;
       old_sat \<leftarrow> old;
       let rc = at_check_dup (ats st old_sat) (ats st a);
       st \<leftarrow> at_rollback e a entered st;
       Some (st, rc, n) }
     else do {
       (st, _) \<leftarrow> at_bvfind tool (st\<lparr>attr_index := t\<rparr>) n;
       insert_names e tool a (n # entered) ns st } }"

text \<open>Entering the OID: the tables, the type that stands for the new one, and the code. A deleted
  definition with the same OID takes over the new contents and keeps its place.\<close>

definition insert_oid :: "bool \<Rightarrow> nat \<Rightarrow> attr_tables \<Rightarrow> (attr_tables \<times> nat \<times> int) option" where
  "insert_oid tool a st =
     (case sat_oid (ats st a) of
        None \<Rightarrow> Some (st, a, 0)
      | Some oid \<Rightarrow> do {
          (t, dup) \<leftarrow> avl_insert (attr_index st) \<lparr>air_name = oid, air_at = a\<rparr> attr_index_cmp avl_dup_error;
          if dup \<noteq> 0
          then do {
            air_old \<leftarrow> avl_find (attr_index st) (attr_index_cmp \<lparr>air_name = oid, air_at = a\<rparr>);
            let b = air_at air_old;
            if sat_deleted (ats st b)
            then do {
              let st = st\<lparr>ats := (ats st)(b := (ats st a)\<lparr>sat_oid := sat_oid (ats st b)\<rparr>,
                                           a := (ats st b)\<lparr>sat_oid := Some oid\<rparr>)\<rparr>;
              (st, _) \<leftarrow> at_bvfind tool st (air_name air_old);
              Some (st, b, 0) }
            else Some (st, a, at_check_dup (ats st b) (ats st a)) }
          else do {
            (st, _) \<leftarrow> at_bvfind tool (st\<lparr>attr_index := t\<rparr>) oid;
            Some (st, a, 0) } })"

text \<open>\<^verbatim>\<open>LDAP_STAILQ_INSERT_AFTER\<close>.\<close>

fun list_after :: "nat \<Rightarrow> nat \<Rightarrow> nat list \<Rightarrow> nat list" where
  "list_after p a [] = []"
| "list_after p a (x # l) = (if x = p then x # a # l else x # list_after p a l)"

text \<open>The tables, the type, the code and the text of an error. \<open>prev\<close> is the type to stand before
  the new one in the list.\<close>

definition at_insert :: "env \<Rightarrow> bool \<Rightarrow> nat \<Rightarrow> nat option \<Rightarrow> attr_tables \<Rightarrow> (attr_tables \<times> nat \<times> int \<times> string) option" where
  "at_insert e tool a prev st = do {
     (st', b, rc) \<leftarrow> insert_oid tool a st;
     if rc \<noteq> 0 then Some (st', b, rc, the (sat_oid (ats st a)))
     else do {
       (st', rc, txt) \<leftarrow>
         (case sat_names (ats st' b) of
            None \<Rightarrow> Some (st', 0, [])
          | Some names \<Rightarrow> insert_names e tool b [] names st');
       if rc \<noteq> 0 then Some (st', b, rc, txt)
       else do {
         let (st', prev) = (if sat_hardcode (ats st' b) then (st'\<lparr>at_sys_tail := Some b\<rparr>, at_sys_tail st')
                            else (st', prev));
         Some (st'\<lparr>attr_list := (case prev of Some p \<Rightarrow> list_after p b (attr_list st')
                                 | None \<Rightarrow> attr_list st' @ [b])\<rparr>, b, 0, []) } } }"

section \<open>The table as a dictionary\<close>

text \<open>Names are compared by length, then without regard to case.\<close>

definition attr_key :: "string \<Rightarrow> int list" where
  "attr_key n = int (length n) # map (\<lambda>c. code (tolower c)) n"

abbreviation air_key :: "aindexrec \<Rightarrow> int list" where
  "air_key air \<equiv> attr_key (air_name air)"

lemma code_order: "code c < code d \<longleftrightarrow> c < d" "code c = code d \<longleftrightarrow> c = d"
  by (simp_all add: code_def less_char_code)

lemma map_code_less: "map code xs < map code ys \<longleftrightarrow> xs < ys"
proof (induction xs arbitrary: ys)
  case Nil
  then show ?case by (cases ys) simp_all
next
  case (Cons x xs)
  then show ?case by (cases ys) (simp_all add: code_order)
qed

lemma map_code_eq: "map code xs = map code ys \<longleftrightarrow> xs = ys"
  by (simp add: inj_map_eq_map inj_def code_order)

lemma attr_key_order:
  "attr_key a = attr_key b \<longleftrightarrow> length a = length b \<and> map tolower a = map tolower b"
  "attr_key a < attr_key b \<longleftrightarrow> length a < length b \<or> length a = length b \<and> map tolower a < map tolower b"
  using map_code_eq [of "map tolower a" "map tolower b"] map_code_less [of "map tolower a" "map tolower b"]
  by (auto simp: attr_key_def comp_def)

lemma name_cmp_compares: "compares (attr_index_name_cmp n) air_key (attr_key n)"
  by (auto simp: compares_def attr_index_name_cmp_def Let_def strcasecmp_def attr_key_order cmp_def)

lemma index_cmp_name: "attr_index_cmp air = attr_index_name_cmp (air_name air)"
  by (simp add: fun_eq_iff attr_index_cmp_def attr_index_name_cmp_def)

interpretation attr_tab: keyed_cmp attr_index_cmp air_key
  by standard (simp add: index_cmp_name name_cmp_compares)

definition names_in :: "attr_tables \<Rightarrow> int list \<rightharpoonup> aindexrec" where
  "names_in st = dict air_key (attr_index st)"

text \<open>A table that can take \<open>n\<close> more names, outside tool mode, without deleted types.\<close>

definition table_ok :: "nat \<Rightarrow> attr_tables \<Rightarrow> bool" where
  "table_ok n st \<longleftrightarrow> balanced (attr_index st) \<and> ordered air_key (attr_index st) \<and> attr_cache st = Null \<and>
     length (inorder (attr_index st)) + n < 44945570212852 \<and>
     (\<forall>k air. names_in st k = Some air \<longrightarrow> \<not> sat_deleted (ats st (air_at air)))"

lemma bvfind_ok:
  assumes "table_ok n st"
  shows "at_bvfind False st name = Some (st, map_option air_at (names_in st (attr_key name)))"
proof -
  have "avl_find (attr_index st) (attr_index_name_cmp name) = names_in st (attr_key name)"
    using assms avl_find_dict [OF name_cmp_compares] by (simp add: table_ok_def names_in_def)
  with assms show ?thesis
    by (auto simp: at_bvfind_def table_ok_def avl_find_def split: option.split)
qed

lemma dict_card:
  assumes "ordered key t"
  shows "finite (dom (dict key t))" "card (dom (dict key t)) = length (inorder t)"
proof -
  have "dom (dict key t) = key ` set (inorder t)" by (force simp: dict_def dom_map_of_conv_image_fst)
  moreover have "distinct (map key (inorder t))" using assms by (simp add: ordered_def strict_sorted_iff)
  ultimately show "finite (dom (dict key t))" "card (dom (dict key t)) = length (inorder t)"
    by (simp_all add: distinct_map card_image distinct_card)
qed

lemma enter_new:
  assumes "table_ok (Suc n) st" "names_in st (attr_key x) = None" "\<not> sat_deleted (ats st a)"
  shows "\<exists>t. avl_insert (attr_index st) \<lparr>air_name = x, air_at = a\<rparr> attr_index_cmp avl_dup_error = Some (t, 0) \<and>
    table_ok n (st\<lparr>attr_index := t\<rparr>) \<and> names_in (st\<lparr>attr_index := t\<rparr>) = (names_in st)(attr_key x \<mapsto> \<lparr>air_name = x, air_at = a\<rparr>)"
proof -
  obtain t where t: "avl_insert (attr_index st) \<lparr>air_name = x, air_at = a\<rparr> attr_index_cmp avl_dup_error = Some (t, 0)"
      "balanced t" "ordered air_key t" "dict air_key t = (names_in st)(attr_key x \<mapsto> \<lparr>air_name = x, air_at = a\<rparr>)"
    using attr_tab.insert_absent [of "attr_index st" "\<lparr>air_name = x, air_at = a\<rparr>" avl_dup_error] assms(1,2)
    by (auto simp: table_ok_def names_in_def)
  have "length (inorder t) = Suc (length (inorder (attr_index st)))"
    using dict_card [OF t(3)] dict_card [of air_key "attr_index st"] assms(1,2) unfolding t(4)
    by (simp add: table_ok_def names_in_def card_insert_disjoint domIff)
  with t assms show ?thesis by (auto simp: table_ok_def names_in_def)
qed

lemma enter_dup:
  assumes "table_ok n st" "names_in st (attr_key x) = Some air"
  shows "\<exists>t. avl_insert (attr_index st) \<lparr>air_name = x, air_at = a\<rparr> attr_index_cmp avl_dup_error = Some (t, - 1)"
  using attr_tab.insert_present [of "attr_index st" "\<lparr>air_name = x, air_at = a\<rparr>" air avl_dup_error] assms
  by (auto simp: table_ok_def names_in_def avl_dup_error_def)

lemma remove_one:
  assumes "table_ok n st"
  shows "\<exists>t. avl_delete (attr_index st) (attr_index_cmp \<lparr>air_name = x, air_at = a\<rparr>) = Some (t, names_in st (attr_key x)) \<and>
    table_ok n (st\<lparr>attr_index := t\<rparr>) \<and> names_in (st\<lparr>attr_index := t\<rparr>) = (names_in st)(attr_key x := None)"
proof -
  obtain t where t: "avl_delete (attr_index st) (attr_index_cmp \<lparr>air_name = x, air_at = a\<rparr>) = Some (t, names_in st (attr_key x))"
      "balanced t" "ordered air_key t" "dict air_key t = (names_in st)(attr_key x := None)"
    using attr_tab.delete_dict [of "attr_index st" "\<lparr>air_name = x, air_at = a\<rparr>"] assms depth_bound [of "attr_index st"]
    by (auto simp: table_ok_def names_in_def)
  have "dom (dict air_key t) \<subseteq> dom (dict air_key (attr_index st))" by (auto simp: t(4) names_in_def split: if_splits)
  then have "length (inorder t) \<le> length (inorder (attr_index st))"
    using card_mono dict_card [OF t(3)] dict_card [of air_key "attr_index st"] assms by (metis table_ok_def)
  with t assms show ?thesis by (fastforce simp: table_ok_def names_in_def split: if_splits)
qed

lemma delete_names_ok:
  assumes "table_ok n st" "distinct (map attr_key ns)" "\<forall>x\<in>set ns. names_in st (attr_key x) \<noteq> None"
  shows "\<exists>t. delete_names e a ns st = Some (st\<lparr>attr_index := t\<rparr>) \<and> table_ok n (st\<lparr>attr_index := t\<rparr>) \<and>
    names_in (st\<lparr>attr_index := t\<rparr>) = (\<lambda>k. if k \<in> attr_key ` set ns then None else names_in st k)"
  using assms
proof (induction ns arbitrary: st)
  case Nil
  then show ?case by (intro exI [of _ "attr_index st"]) simp
next
  case (Cons x ns)
  obtain t where t: "avl_delete (attr_index st) (attr_index_cmp \<lparr>air_name = x, air_at = a\<rparr>) = Some (t, names_in st (attr_key x))"
    "table_ok n (st\<lparr>attr_index := t\<rparr>)" "names_in (st\<lparr>attr_index := t\<rparr>) = (names_in st)(attr_key x := None)"
    using remove_one [OF Cons.prems(1)] by blast
  have "\<forall>y\<in>set ns. attr_key y \<noteq> attr_key x" using Cons.prems(2) by (force simp: image_iff)
  then have "\<forall>y\<in>set ns. names_in (st\<lparr>attr_index := t\<rparr>) (attr_key y) \<noteq> None"
    using Cons.prems(3) by (simp add: t(3))
  from Cons.IH [OF t(2) _ this] Cons.prems obtain u where
    u: "delete_names e a ns (st\<lparr>attr_index := t\<rparr>) = Some (st\<lparr>attr_index := u\<rparr>)" "table_ok n (st\<lparr>attr_index := u\<rparr>)"
      "names_in (st\<lparr>attr_index := u\<rparr>) = (\<lambda>k. if k \<in> attr_key ` set ns then None else names_in (st\<lparr>attr_index := t\<rparr>) k)"
    by auto
  have "names_in st (attr_key x) \<noteq> None" using Cons.prems(3) by simp
  with t(1) u show ?case
    by (intro exI [of _ u]) (auto simp: t(3) assert_that_True fun_eq_iff)
qed


lemma delete_names_append:
  "delete_names e a (xs @ ys) st = Option.bind (delete_names e a xs st) (delete_names e a ys)"
proof (induction xs arbitrary: st)
  case (Cons x xs)
  then show ?case
    by (cases "avl_delete (attr_index st) (attr_index_cmp \<lparr>air_name = x, air_at = a\<rparr>)")
      (auto simp: Option.bind_assoc)
qed simp

definition oid_list :: "attribute_type \<Rightarrow> string list" where
  "oid_list sat = (case sat_oid sat of None \<Rightarrow> [] | Some oid \<Rightarrow> [oid])"

definition name_list :: "attribute_type \<Rightarrow> string list" where
  "name_list sat = (case sat_names sat of None \<Rightarrow> [] | Some names \<Rightarrow> names)"

text \<open>The names entered for a type.\<close>

definition entered_ok :: "nat \<Rightarrow> string list \<Rightarrow> attr_tables \<Rightarrow> bool" where
  "entered_ok a xs st \<longleftrightarrow> distinct (map attr_key xs) \<and> (\<forall>x\<in>set xs. names_in st (attr_key x) = Some \<lparr>air_name = x, air_at = a\<rparr>)"

definition without :: "string list \<Rightarrow> attr_tables \<Rightarrow> int list \<rightharpoonup> aindexrec" where
  "without xs st = (\<lambda>k. if k \<in> attr_key ` set xs then None else names_in st k)"

lemma rollback_ok:
  assumes "table_ok n st" "entered_ok a (xs @ oid_list (ats st a)) st"
  shows "\<exists>t. at_rollback e a xs st = Some (st\<lparr>attr_index := t\<rparr>) \<and> table_ok n (st\<lparr>attr_index := t\<rparr>) \<and>
    names_in (st\<lparr>attr_index := t\<rparr>) = without (xs @ oid_list (ats st a)) st"
proof -
  have "at_rollback e a xs st = delete_names e a (xs @ oid_list (ats st a)) st"
  proof -
    have "\<exists>t. delete_names e a xs st = Some (st\<lparr>attr_index := t\<rparr>)"
      using delete_names_ok [OF assms(1), of xs e a] assms(2) by (auto simp: entered_ok_def)
    then show ?thesis
      by (auto simp: at_rollback_def delete_names_append oid_list_def split: option.split)
  qed
  with delete_names_ok [OF assms(1), of "xs @ oid_list (ats st a)" e a] assms(2) show ?thesis
    by (auto simp: entered_ok_def without_def)
qed

lemma check_dup_code: "at_check_dup x y \<noteq> 0"
  by (simp add: at_check_dup_def SLAP_SCHERR_ATTR_DUP_def SLAP_SCHERR_ATTR_INCONSISTENT_def)

lemma index_upd:
  "ats (st\<lparr>attr_index := t\<rparr>) = ats st" "st\<lparr>attr_index := t, attr_index := u\<rparr> = st\<lparr>attr_index := u\<rparr>"
  by simp_all

lemma insert_names_ok:
  assumes "table_ok (length ns) st" "\<not> sat_deleted (ats st a)" "entered_ok a (xs @ oid_list (ats st a)) st"
  shows "\<exists>t rc txt. insert_names e False a xs ns st = Some (st\<lparr>attr_index := t\<rparr>, rc, txt) \<and> table_ok 0 (st\<lparr>attr_index := t\<rparr>) \<and>
    (if distinct (map attr_key ns) \<and> (\<forall>x\<in>set ns. names_in st (attr_key x) = None)
     then rc = 0 \<and> entered_ok a (rev ns @ xs @ oid_list (ats st a)) (st\<lparr>attr_index := t\<rparr>) \<and>
       without (rev ns @ xs @ oid_list (ats st a)) (st\<lparr>attr_index := t\<rparr>) = without (xs @ oid_list (ats st a)) st
     else rc \<noteq> 0 \<and> names_in (st\<lparr>attr_index := t\<rparr>) = without (xs @ oid_list (ats st a)) st)"
  using assms
proof (induction ns arbitrary: xs st)
  case Nil
  then show ?case by (intro exI [of _ "attr_index st"]) simp
next
  case (Cons x ns)
  let ?o = "oid_list (ats st a)"
  show ?case
  proof (cases "names_in st (attr_key x)")
    case None
    have ok: "table_ok (Suc (length ns)) st" using Cons.prems(1) by simp
    obtain t where t: "avl_insert (attr_index st) \<lparr>air_name = x, air_at = a\<rparr> attr_index_cmp avl_dup_error = Some (t, 0)"
        "table_ok (length ns) (st\<lparr>attr_index := t\<rparr>)"
        "names_in (st\<lparr>attr_index := t\<rparr>) = (names_in st)(attr_key x \<mapsto> \<lparr>air_name = x, air_at = a\<rparr>)"
      using enter_new [OF ok None Cons.prems(2)] by blast
    have fresh: "\<forall>y\<in>set (xs @ ?o). attr_key y \<noteq> attr_key x"
      using Cons.prems(3) None unfolding entered_ok_def by (metis option.distinct(1))
    then have e: "entered_ok a ((x # xs) @ ?o) (st\<lparr>attr_index := t\<rparr>)"
      using Cons.prems(3) by (force simp: entered_ok_def t(3))
    have w: "without ((x # xs) @ ?o) (st\<lparr>attr_index := t\<rparr>) = without (xs @ ?o) st"
      using None by (auto simp: without_def t(3) fun_eq_iff)
    have ih: "\<exists>u rc txt. insert_names e False a (x # xs) ns (st\<lparr>attr_index := t\<rparr>) = Some (st\<lparr>attr_index := u\<rparr>, rc, txt) \<and>
        table_ok 0 (st\<lparr>attr_index := u\<rparr>) \<and>
        (if distinct (map attr_key ns) \<and> (\<forall>y\<in>set ns. names_in (st\<lparr>attr_index := t\<rparr>) (attr_key y) = None)
         then rc = 0 \<and> entered_ok a (rev ns @ (x # xs) @ ?o) (st\<lparr>attr_index := u\<rparr>) \<and>
           without (rev ns @ (x # xs) @ ?o) (st\<lparr>attr_index := u\<rparr>) = without (xs @ ?o) st
         else rc \<noteq> 0 \<and> names_in (st\<lparr>attr_index := u\<rparr>) = without (xs @ ?o) st)"
      using Cons.IH [OF t(2), of "x # xs"] Cons.prems(2) e unfolding index_upd w by blast
    have cond: "(distinct (map attr_key ns) \<and> (\<forall>y\<in>set ns. names_in (st\<lparr>attr_index := t\<rparr>) (attr_key y) = None)) \<longleftrightarrow>
        (distinct (map attr_key (x # ns)) \<and> (\<forall>y\<in>set (x # ns). names_in st (attr_key y) = None))"
      using None by (auto simp: t(3) image_iff split: if_splits)
    have step: "insert_names e False a xs (x # ns) st = insert_names e False a (x # xs) ns (st\<lparr>attr_index := t\<rparr>)"
      "rev (x # ns) @ xs @ ?o = rev ns @ (x # xs) @ ?o"
      by (simp_all add: t(1) bvfind_ok [OF t(2)])
    show ?thesis unfolding step using ih unfolding cond .
  next
    case (Some air)
    obtain t where t: "avl_insert (attr_index st) \<lparr>air_name = x, air_at = a\<rparr> attr_index_cmp avl_dup_error = Some (t, - 1)"
      using enter_dup [OF Cons.prems(1) Some] by blast
    obtain u where u: "at_rollback e a xs st = Some (st\<lparr>attr_index := u\<rparr>)" "table_ok (length (x # ns)) (st\<lparr>attr_index := u\<rparr>)"
      "names_in (st\<lparr>attr_index := u\<rparr>) = without (xs @ ?o) st"
      using rollback_ok [OF Cons.prems(1,3)] by blast
    then have "table_ok 0 (st\<lparr>attr_index := u\<rparr>)" by (simp add: table_ok_def)
    with t u Some check_dup_code show ?thesis
      by (auto simp: bvfind_ok [OF Cons.prems(1)] Let_def)
  qed
qed

lemma insert_oid_ok:
  assumes ok: "table_ok (Suc n) st" "\<not> sat_deleted (ats st a)"
  shows "\<exists>t rc. insert_oid False a st = Some (st\<lparr>attr_index := t\<rparr>, a, rc) \<and>
    (if \<forall>x\<in>set (oid_list (ats st a)). names_in st (attr_key x) = None
     then rc = 0 \<and> table_ok n (st\<lparr>attr_index := t\<rparr>) \<and> entered_ok a (oid_list (ats st a)) (st\<lparr>attr_index := t\<rparr>) \<and>
       without (oid_list (ats st a)) (st\<lparr>attr_index := t\<rparr>) = names_in st
     else rc \<noteq> 0 \<and> t = attr_index st)"
proof (cases "sat_oid (ats st a)")
  case None
  have "table_ok n st" using ok(1) by (simp add: table_ok_def)
  with None show ?thesis
    by (intro exI [of _ "attr_index st"]) (auto simp: insert_oid_def oid_list_def entered_ok_def without_def)
next
  case (Some oid)
  show ?thesis
  proof (cases "names_in st (attr_key oid)")
    case None
    obtain t where t: "avl_insert (attr_index st) \<lparr>air_name = oid, air_at = a\<rparr> attr_index_cmp avl_dup_error = Some (t, 0)"
        "table_ok n (st\<lparr>attr_index := t\<rparr>)" "names_in (st\<lparr>attr_index := t\<rparr>) = (names_in st)(attr_key oid \<mapsto> \<lparr>air_name = oid, air_at = a\<rparr>)"
      using enter_new [OF ok(1) None ok(2)] by blast
    have "insert_oid False a st = Some (st\<lparr>attr_index := t\<rparr>, a, 0)"
      using t(1) Some by (simp add: insert_oid_def bvfind_ok [OF t(2)])
    moreover have "without [oid] (st\<lparr>attr_index := t\<rparr>) = names_in st"
      using None by (auto simp: without_def t(3) fun_eq_iff)
    ultimately show ?thesis
      using t Some None by (auto simp: oid_list_def entered_ok_def)
  next
    case dup: (Some air)
    obtain t where t: "avl_insert (attr_index st) \<lparr>air_name = oid, air_at = a\<rparr> attr_index_cmp avl_dup_error = Some (t, - 1)"
      using enter_dup [OF ok(1) dup] by blast
    have "avl_find (attr_index st) (attr_index_cmp \<lparr>air_name = oid, air_at = a\<rparr>) = Some air"
      using attr_tab.find_dict [of "attr_index st" "\<lparr>air_name = oid, air_at = a\<rparr>"] ok(1) dup by (simp add: table_ok_def names_in_def)
    moreover have "\<not> sat_deleted (ats st (air_at air))" using ok(1) dup by (auto simp: table_ok_def)
    ultimately have "insert_oid False a st = Some (st, a, at_check_dup (ats st (air_at air)) (ats st a))"
      using t Some by (simp add: insert_oid_def Let_def)
    then show ?thesis
      using Some dup check_dup_code by (intro exI [of _ "attr_index st"]) (auto simp: oid_list_def)
  qed
qed

lemma table_ok_fields [simp]:
  "table_ok n (st\<lparr>attr_list := l\<rparr>) = table_ok n st" "table_ok n (st\<lparr>at_sys_tail := s\<rparr>) = table_ok n st"
  "names_in (st\<lparr>attr_list := l\<rparr>) = names_in st" "names_in (st\<lparr>at_sys_tail := s\<rparr>) = names_in st"
  by (simp_all add: table_ok_def names_in_def)

lemma fresh_iff:
  assumes "entered_ok a (oid_list s) st'" "without (oid_list s) st' = names_in st"
  shows "distinct (map attr_key (oid_list s @ ns)) \<and> (\<forall>x\<in>set (oid_list s @ ns). names_in st (attr_key x) = None) \<longleftrightarrow>
    distinct (map attr_key ns) \<and> (\<forall>x\<in>set ns. names_in st' (attr_key x) = None)"
proof (cases "sat_oid s")
  case None
  then show ?thesis using assms by (simp add: oid_list_def without_def fun_eq_iff)
next
  case (Some oid)
  then have "names_in st' (attr_key oid) = Some \<lparr>air_name = oid, air_at = a\<rparr>"
    "names_in st = (\<lambda>k. if k = attr_key oid then None else names_in st' k)"
    using assms by (auto simp: oid_list_def entered_ok_def without_def fun_eq_iff)
  then show ?thesis using Some by (auto simp: oid_list_def image_iff)
qed

section \<open>Properties\<close>

text \<open>Entering an attribute type is atomic: if its OID and names are distinct and all new, each of them
  leads to the type afterwards and nothing else changes; otherwise a code is returned and the index is as
  before, the names entered on the way being taken out again. No assertion fails on the way.\<close>

lemma at_insert_atomic:
  assumes "table_ok (Suc (length (name_list (ats st a)))) st" "\<not> sat_deleted (ats st a)"
    and "all = oid_list (ats st a) @ name_list (ats st a)"
  shows "\<exists>st' rc msg. at_insert e False a prev st = Some (st', a, rc, msg) \<and> ats st' = ats st \<and>
    (if distinct (map attr_key all) \<and> (\<forall>x\<in>set all. names_in st (attr_key x) = None)
     then rc = 0 \<and> (\<forall>x\<in>set all. names_in st' (attr_key x) = Some \<lparr>air_name = x, air_at = a\<rparr>) \<and>
       (\<forall>k. k \<notin> attr_key ` set all \<longrightarrow> names_in st' k = names_in st k)
     else rc \<noteq> 0 \<and> names_in st' = names_in st \<and> attr_list st' = attr_list st)"
proof -
  let ?o = "oid_list (ats st a)" and ?n = "name_list (ats st a)"
  obtain t rc where o: "insert_oid False a st = Some (st\<lparr>attr_index := t\<rparr>, a, rc)"
    "if \<forall>x\<in>set ?o. names_in st (attr_key x) = None
     then rc = 0 \<and> table_ok (length ?n) (st\<lparr>attr_index := t\<rparr>) \<and> entered_ok a ?o (st\<lparr>attr_index := t\<rparr>) \<and> without ?o (st\<lparr>attr_index := t\<rparr>) = names_in st
     else rc \<noteq> 0 \<and> t = attr_index st"
    using insert_oid_ok [OF assms(1,2)] by blast
  show ?thesis
  proof (cases "\<forall>x\<in>set ?o. names_in st (attr_key x) = None")
    case False
    with o assms(3) show ?thesis
      by (intro exI [of _ st]) (auto simp: at_insert_def)
  next
    case True
    let ?st = "st\<lparr>attr_index := t\<rparr>"
    have o': "rc = 0" "table_ok (length ?n) ?st" "entered_ok a ?o ?st" "without ?o ?st = names_in st" using o(2) True by simp_all
    obtain u rc' msg where i: "insert_names e False a [] ?n ?st = Some (st\<lparr>attr_index := u\<rparr>, rc', msg)"
      "if distinct (map attr_key ?n) \<and> (\<forall>x\<in>set ?n. names_in ?st (attr_key x) = None)
       then rc' = 0 \<and> entered_ok a (rev ?n @ ?o) (st\<lparr>attr_index := u\<rparr>) \<and> without (rev ?n @ ?o) (st\<lparr>attr_index := u\<rparr>) = names_in st
       else rc' \<noteq> 0 \<and> names_in (st\<lparr>attr_index := u\<rparr>) = names_in st"
      using insert_names_ok [OF o'(2), of a "[]" e] assms(2) o'(3,4) unfolding index_upd append_Nil by auto
    have names: "(case sat_names (ats st a) of None \<Rightarrow> Some (?st, 0, []) | Some names \<Rightarrow> insert_names e False a [] names ?st) =
        Some (st\<lparr>attr_index := u\<rparr>, rc', msg)"
      using i(1) by (simp add: name_list_def split: option.splits)
    have cond: "distinct (map attr_key all) \<and> (\<forall>x\<in>set all. names_in st (attr_key x) = None) \<longleftrightarrow>
        distinct (map attr_key ?n) \<and> (\<forall>x\<in>set ?n. names_in ?st (attr_key x) = None)"
      unfolding assms(3) by (rule fresh_iff [OF o'(3,4)])
    show ?thesis
    proof (cases "rc' = 0")
      case False
      with i(2) cond have "names_in (st\<lparr>attr_index := u\<rparr>) = names_in st"
        "\<not> (distinct (map attr_key all) \<and> (\<forall>x\<in>set all. names_in st (attr_key x) = None))" by (auto split: if_splits)
      with False o(1) o'(1) names show ?thesis
        by (intro exI [of _ "st\<lparr>attr_index := u\<rparr>"] exI [of _ rc'] exI [of _ msg]) (auto simp: at_insert_def)
    next
      case rc: True
      with i(2) cond have e: "entered_ok a (rev ?n @ ?o) (st\<lparr>attr_index := u\<rparr>)" "without (rev ?n @ ?o) (st\<lparr>attr_index := u\<rparr>) = names_in st"
        "distinct (map attr_key all) \<and> (\<forall>x\<in>set all. names_in st (attr_key x) = None)" by (auto split: if_splits)
      obtain st' where st': "at_insert e False a prev st = Some (st', a, 0, [])" "ats st' = ats st" "names_in st' = names_in (st\<lparr>attr_index := u\<rparr>)"
        using o(1) o'(1) names rc by (cases "sat_hardcode (ats st a)") (auto simp: at_insert_def Let_def)
      have k: "attr_key ` set (rev ?n @ ?o) = attr_key ` set all" "set (rev ?n @ ?o) = set all" using assms(3) by auto
      have "\<forall>x\<in>set all. names_in st' (attr_key x) = Some \<lparr>air_name = x, air_at = a\<rparr>"
        using e(1) k(2) st'(3) by (simp add: entered_ok_def)
      moreover have "names_in st' k = names_in st k" if "k \<notin> attr_key ` set all" for k
        using fun_cong [OF e(2), of k] that unfolding without_def k st'(3) by simp
      ultimately show ?thesis using st'(1,2) e(3) by auto
    qed
  qed
qed

text \<open>A table with one type, and a second one that shares a name with it.\<close>

definition two_types :: "nat \<Rightarrow> attribute_type" where
  "two_types i = (if i = 0
     then \<lparr>sat_oid = Some ''2.5.4.3'', sat_names = Some [''cn''], sat_sup = None, sat_syntax_oid = None, sat_deleted = False, sat_hardcode = False\<rparr>
     else \<lparr>sat_oid = Some ''2.5.4.4'', sat_names = Some [''sn'', ''CN''], sat_sup = None, sat_syntax_oid = None, sat_deleted = False, sat_hardcode = False\<rparr>)"

definition one_entered :: attr_tables where
  "one_entered = \<lparr>attr_index = Node Null 1 \<lparr>air_name = ''cn'', air_at = 0\<rparr> (Node Null 0 \<lparr>air_name = ''2.5.4.3'', air_at = 0\<rparr> Null),
     attr_cache = Null, attr_list = [0], at_sys_tail = None, ats = two_types\<rparr>"

lemma at_insert_atomic_witness:
  "\<exists>st' rc msg. at_insert \<lparr>env_assert = True, env_check = True, env_strict = True, env_now = [], env_stamp = [], slap_serverID = 1\<rparr>
     False 1 None one_entered = Some (st', 1, rc, msg) \<and> rc \<noteq> 0 \<and> names_in st' = names_in one_entered"
proof -
  let ?e = "\<lparr>env_assert = True, env_check = True, env_strict = True, env_now = [], env_stamp = [], slap_serverID = 1\<rparr>"
  have key: "attr_key ''cn'' = [2, 99, 110]" "attr_key ''CN'' = [2, 99, 110]" "hd (attr_key ''2.5.4.3'') = 7"
    by code_simp+
  have ord: "attr_key ''cn'' < attr_key ''2.5.4.3''" by code_simp
  have "names_in one_entered (attr_key ''CN'') \<noteq> None"
    by (simp add: names_in_def dict_def one_entered_def key)
  moreover have "table_ok (Suc (length (name_list (ats one_entered 1)))) one_entered"
    using ord by (auto simp: table_ok_def one_entered_def ordered_def name_list_def two_types_def names_in_def dict_def split: if_splits)
  moreover have "\<not> sat_deleted (ats one_entered 1)" "''CN'' \<in> set (oid_list (ats one_entered 1) @ name_list (ats one_entered 1))"
    by (simp_all add: one_entered_def two_types_def oid_list_def name_list_def)
  ultimately show ?thesis
    using at_insert_atomic [of one_entered 1 "oid_list (ats one_entered 1) @ name_list (ats one_entered 1)" ?e None]
    by (auto split: if_splits)
qed

text \<open>C38. On an acyclic type hierarchy the walk to the superior types returns, with at most as many
  steps as the rank of the type, and decides the reflexive transitive closure of the superior relation.\<close>

theorem is_at_subtype_decides:
  assumes "\<And>x y. sat_sup (store x) = Some y \<Longrightarrow> rank y < rank x" "rank a < fuel"
  shows "is_at_subtype fuel store (Some a) b = Some ((\<lambda>x y. sat_sup (store x) = Some y)\<^sup>*\<^sup>* a b)"
  using assms(2)
proof (induction fuel arbitrary: a)
  case (Suc fuel)
  show ?case
  proof (cases "sat_sup (store a)")
    case None
    then have "(\<lambda>x y. sat_sup (store x) = Some y)\<^sup>*\<^sup>* a b \<longleftrightarrow> a = b"
      by (auto elim: converse_rtranclpE)
    with None show ?thesis by auto
  next
    case (Some c)
    then have "rank c < fuel" using assms(1) [OF Some] Suc.prems by simp
    note ih = Suc.IH [OF this]
    have "(\<lambda>x y. sat_sup (store x) = Some y)\<^sup>*\<^sup>* a b \<longleftrightarrow> a = b \<or> (\<lambda>x y. sat_sup (store x) = Some y)\<^sup>*\<^sup>* c b"
      using Some by (auto elim: converse_rtranclpE intro: converse_rtranclp_into_rtranclp)
    with Some ih show ?thesis by auto
  qed
qed simp

lemma is_at_subtype_decides_witness:
  "is_at_subtype 3 (\<lambda>i. \<lparr>sat_oid = None, sat_names = None, sat_sup = (if i = 0 then None else Some (i - 1)), sat_syntax_oid = None,
     sat_deleted = False, sat_hardcode = False\<rparr>) (Some 2) 0 \<noteq> None"
  by (subst is_at_subtype_decides [where rank = "\<lambda>i. i"]) (simp_all split: if_splits)

end
