(* ===== verification/Rurw_Lock.thy ===== *)
theory Rurw_Lock
  imports Prelude
begin

text \<open>
  The recursive upgradable read-write lock, \<^verbatim>\<open>servers/slapd/rurwl.c\<close>, which guards the dynamic
  configuration. A thread is a non-zero number; its index is what \<^verbatim>\<open>rurw_thread_index\<close> gives it. Each
  function is one step up to its return or to a condition wait; a wait is a value, and
  waking up is a step of its own that tests the loop condition again. The functions hold the mutex
  meanwhile, with one exception: a thread that upgrades its read lock, or asks for a first read lock while it
  writes, finds its slot without taking the mutex and waits without holding it (lines 122-130 and 158-170),
  which POSIX leaves undefined; the model takes this for an ordinary wait, which never ends. \<open>None\<close> is \<^verbatim>\<open>LDAP_BUG\<close>, a failed
  \<^verbatim>\<open>LDAP_ENSURE\<close> or a failed assertion; assertions are taken to be active.
\<close>

section \<open>Definitions\<close>

definition RURW_LOCK_MAXTHREADS :: nat where "RURW_LOCK_MAXTHREADS = 64"

record rurw_lock_deep =
  dr :: nat
  dw :: nat

record rurw_thr_state =
  thr :: nat
  state_r :: nat
  state_w :: nat

record rurw_lock =
  rurw_readers :: int
  rurw_writer :: bool
  rurw_readers_wait :: int
  rurw_writers_wait :: int
  rurw_upgrades_wait :: int
  rurw_fullscan_bitmask :: "64 word"
  slots :: "rurw_thr_state list"

definition rurw_lock_init :: rurw_lock where
  "rurw_lock_init = \<lparr>rurw_readers = 0, rurw_writer = False, rurw_readers_wait = 0, rurw_writers_wait = 0,
     rurw_upgrades_wait = 0, rurw_fullscan_bitmask = 0,
     slots = replicate RURW_LOCK_MAXTHREADS \<lparr>thr = 0, state_r = 0, state_w = 0\<rparr>\<rparr>"

text \<open>Threads get the numbers 0, 1, \<dots> in the order of their first call; the rest get one out of range.
  The result is the index and the new value of \<^verbatim>\<open>last\<close>.\<close>

definition rurw_thread_index :: "nat \<Rightarrow> nat \<times> nat" where
  "rurw_thread_index given =
     (if given < RURW_LOCK_MAXTHREADS then (given, Suc given) else (2147483646, given))"

definition slot_upd :: "nat \<Rightarrow> (rurw_thr_state \<Rightarrow> rurw_thr_state) \<Rightarrow> rurw_lock \<Rightarrow> rurw_lock" where
  "slot_upd j f p = p\<lparr>slots := (slots p)[j := f (slots p ! j)]\<rparr>"

fun slot_scan :: "nat \<Rightarrow> rurw_thr_state list \<Rightarrow> nat \<Rightarrow> nat option" where
  "slot_scan t [] j = None"
| "slot_scan t (s # ss) j = (if thr s = t then Some j else slot_scan t ss (Suc j))"

text \<open>The search for a free slot, at the label \<^verbatim>\<open>locked\<close>.\<close>

definition enter_locked :: "rurw_lock \<Rightarrow> nat \<Rightarrow> 64 word \<Rightarrow> (rurw_lock \<times> nat option \<times> bool) option" where
  "enter_locked p current m =
     (case slot_scan 0 (slots p) 0 of
        None \<Rightarrow> None
      | Some j \<Rightarrow> do {
          ensure (state_r (slots p ! j) = 0 \<and> state_w (slots p ! j) = 0);
          Some (slot_upd j (\<lambda>s. s\<lparr>thr := current\<rparr>) (p\<lparr>rurw_fullscan_bitmask := or (rurw_fullscan_bitmask p) m\<rparr>),
                Some j, True) })"

definition enter_fullscan :: "rurw_lock \<Rightarrow> nat \<Rightarrow> 64 word \<Rightarrow> bool \<Rightarrow> (rurw_lock \<times> nat option \<times> bool) option" where
  "enter_fullscan p current m acquire =
     (case slot_scan current (slots p) 0 of
        Some j \<Rightarrow> Some (p, Some j, False)
      | None \<Rightarrow> if \<not> acquire then Some (p, None, False) else enter_locked p current m)"

text \<open>The slot of the thread, and whether the mutex was taken on the way.\<close>

definition rurw_enter :: "rurw_lock \<Rightarrow> nat \<Rightarrow> nat \<Rightarrow> bool \<Rightarrow> (rurw_lock \<times> nat option \<times> bool) option" where
  "rurw_enter p current index acquire =
     (if index < RURW_LOCK_MAXTHREADS
      then if thr (slots p ! index) = current then Some (p, Some index, False)
           else let m = push_bit index 1
                in if thr (slots p ! index) = 0
                   then if \<not> acquire
                        then if and (rurw_fullscan_bitmask p) m \<noteq> 0
                             then enter_fullscan p current m acquire
                             else Some (p, None, False)
                        else do {
                          ensure (state_r (slots p ! index) = 0 \<and> state_w (slots p ! index) = 0);
                          Some (slot_upd index (\<lambda>s. s\<lparr>thr := current\<rparr>)
                                  (p\<lparr>rurw_fullscan_bitmask := and (rurw_fullscan_bitmask p) (not m)\<rparr>),
                                Some index, True) }
                   else enter_fullscan p current m acquire
      else enter_fullscan p current 0 acquire)"

text \<open>The condition a leaving thread signals.\<close>

datatype rurw_signal = Nobody | Wait4u | Wait4w | Wait4r

definition rurw_leave :: "rurw_lock \<Rightarrow> rurw_signal" where
  "rurw_leave p =
     (if rurw_writer p then Nobody
      else if rurw_readers p = 0 \<and> rurw_upgrades_wait p \<noteq> 0 then Wait4u
      else if rurw_readers p = 0 \<and> rurw_writers_wait p \<noteq> 0 then Wait4w
      else if rurw_readers_wait p \<noteq> 0 then Wait4r
      else Nobody)"

text \<open>What a call ends in: it returned, or it waits in one of the loops, with its slot.\<close>

datatype wait = WaitR nat | WaitUpgrade nat | WaitW nat | WaitObtainW nat | WaitObtainR nat

text \<open>The loop of \<^verbatim>\<open>rurw_r_lock\<close> and what follows it.\<close>

definition r_loop :: "nat \<Rightarrow> rurw_lock \<Rightarrow> rurw_lock \<times> wait option" where
  "r_loop j p =
     (if rurw_writer p then (p\<lparr>rurw_readers_wait := rurw_readers_wait p + 1\<rparr>, Some (WaitR j))
      else (slot_upd j (\<lambda>s. s\<lparr>state_r := 1\<rparr>) (p\<lparr>rurw_readers := rurw_readers p + 1\<rparr>), None))"

definition rurw_r_lock :: "rurw_lock \<Rightarrow> nat \<Rightarrow> nat \<Rightarrow> (rurw_lock \<times> wait option) option" where
  "rurw_r_lock p current index = do {
     (p, s, _) \<leftarrow> rurw_enter p current index True;
     j \<leftarrow> s;
     if 0 < state_r (slots p ! j)
     then do {
       ensure (state_r (slots p ! j) < 0xFFFF);
       Some (slot_upd j (\<lambda>s. s\<lparr>state_r := state_r s + 1\<rparr>) p, None) }
     else Some (r_loop j p) }"

definition rurw_r_unlock :: "rurw_lock \<Rightarrow> nat \<Rightarrow> nat \<Rightarrow> (rurw_lock \<times> rurw_signal) option" where
  "rurw_r_unlock p current index = do {
     (p, s, _) \<leftarrow> rurw_enter p current index False;
     j \<leftarrow> s;
     ensure (0 < state_r (slots p ! j) \<and> 0 < rurw_readers p);
     let p = slot_upd j (\<lambda>s. s\<lparr>state_r := state_r s - 1\<rparr>) p;
     let p = (if state_r (slots p ! j) = 0
              then (if state_w (slots p ! j) = 0 then slot_upd j (\<lambda>s. s\<lparr>thr := 0\<rparr>) p else p)
                     \<lparr>rurw_readers := rurw_readers p - 1\<rparr>
              else p);
     Some (p, rurw_leave p) }"

definition w_loop :: "nat \<Rightarrow> rurw_lock \<Rightarrow> rurw_lock \<times> wait option" where
  "w_loop j p =
     (if rurw_readers p \<noteq> 0 \<or> rurw_writer p
      then if 0 < state_r (slots p ! j)
           then (p\<lparr>rurw_upgrades_wait := rurw_upgrades_wait p + 1\<rparr>, Some (WaitUpgrade j))
           else (p\<lparr>rurw_writers_wait := rurw_writers_wait p + 1\<rparr>, Some (WaitW j))
      else (slot_upd j (\<lambda>s. s\<lparr>state_w := 1\<rparr>) (p\<lparr>rurw_writer := True\<rparr>), None))"

definition rurw_w_lock :: "rurw_lock \<Rightarrow> nat \<Rightarrow> nat \<Rightarrow> (rurw_lock \<times> wait option) option" where
  "rurw_w_lock p current index = do {
     (p, s, _) \<leftarrow> rurw_enter p current index True;
     j \<leftarrow> s;
     if 0 < state_w (slots p ! j)
     then do {
       ensure (state_w (slots p ! j) < 0xFFFF);
       Some (slot_upd j (\<lambda>s. s\<lparr>state_w := state_w s + 1\<rparr>) p, None) }
     else Some (w_loop j p) }"

definition rurw_w_unlock :: "rurw_lock \<Rightarrow> nat \<Rightarrow> nat \<Rightarrow> (rurw_lock \<times> rurw_signal) option" where
  "rurw_w_unlock p current index = do {
     (p, s, _) \<leftarrow> rurw_enter p current index False;
     j \<leftarrow> s;
     ensure (0 < state_w (slots p ! j) \<and> rurw_writer p);
     let p = slot_upd j (\<lambda>s. s\<lparr>state_w := state_w s - 1\<rparr>) p;
     let p = (if state_w (slots p ! j) = 0
              then (if state_r (slots p ! j) = 0 then slot_upd j (\<lambda>s. s\<lparr>thr := 0\<rparr>) p else p)
                     \<lparr>rurw_writer := False\<rparr>
              else p);
     Some (p, rurw_leave p) }"

text \<open>Giving up everything the thread holds; the result is what it held.\<close>

definition rurw_retreat :: "rurw_lock \<Rightarrow> nat \<Rightarrow> nat \<Rightarrow> (rurw_lock \<times> rurw_lock_deep \<times> rurw_signal) option" where
  "rurw_retreat p current index = do {
     (p, s, _) \<leftarrow> rurw_enter p current index False;
     (case s of
        None \<Rightarrow> Some (p, \<lparr>dr = 0, dw = 0\<rparr>, Nobody)
      | Some j \<Rightarrow> do {
          let d = \<lparr>dr = state_r (slots p ! j), dw = state_w (slots p ! j)\<rparr>;
          ensure (dr d \<noteq> 0 \<or> dw d \<noteq> 0);
          ensure (dr d \<noteq> 0 \<longrightarrow> 0 < rurw_readers p);
          let p = (if dr d \<noteq> 0
                   then slot_upd j (\<lambda>s. s\<lparr>state_r := 0\<rparr>) (p\<lparr>rurw_readers := rurw_readers p - 1\<rparr>) else p);
          ensure (dw d \<noteq> 0 \<longrightarrow> rurw_writer p);
          let p = (if dw d \<noteq> 0
                   then slot_upd j (\<lambda>s. s\<lparr>state_w := 0\<rparr>) (p\<lparr>rurw_writer := False\<rparr>) else p);
          let p = slot_upd j (\<lambda>s. s\<lparr>thr := 0\<rparr>) p;
          Some (p, d, rurw_leave p) }) }"

definition obtain_loop :: "nat \<Rightarrow> rurw_lock \<Rightarrow> rurw_lock \<times> wait option" where
  "obtain_loop j p =
     (if 0 < state_w (slots p ! j)
      then if rurw_readers p \<noteq> 0 \<or> rurw_writer p
           then (p\<lparr>rurw_writers_wait := rurw_writers_wait p + 1\<rparr>, Some (WaitObtainW j))
           else (p\<lparr>rurw_writer := True,
                   rurw_readers := rurw_readers p + (if 0 < state_r (slots p ! j) then 1 else 0)\<rparr>, None)
      else if rurw_writer p
           then (p\<lparr>rurw_readers_wait := rurw_readers_wait p + 1\<rparr>, Some (WaitObtainR j))
           else (p\<lparr>rurw_readers := rurw_readers p + 1\<rparr>, None))"

definition rurw_obtain :: "rurw_lock \<Rightarrow> nat \<Rightarrow> nat \<Rightarrow> rurw_lock_deep \<Rightarrow> (rurw_lock \<times> wait option) option" where
  "rurw_obtain p current index d =
     (if dr d = 0 \<and> dw d = 0 then Some (p, None)
      else do {
        (p, s, _) \<leftarrow> rurw_enter p current index True;
        j \<leftarrow> s;
        Some (obtain_loop j (slot_upd j (\<lambda>s. s\<lparr>state_r := dr d, state_w := dw d\<rparr>) p)) })"

text \<open>A waiting thread wakes up, leaves the count of waiters and tests the condition of its loop again.\<close>

definition wake :: "wait \<Rightarrow> rurw_lock \<Rightarrow> rurw_lock \<times> wait option" where
  "wake w p =
     (case w of
        WaitR j \<Rightarrow> r_loop j (p\<lparr>rurw_readers_wait := rurw_readers_wait p - 1\<rparr>)
      | WaitUpgrade j \<Rightarrow> w_loop j (p\<lparr>rurw_upgrades_wait := rurw_upgrades_wait p - 1\<rparr>)
      | WaitW j \<Rightarrow> w_loop j (p\<lparr>rurw_writers_wait := rurw_writers_wait p - 1\<rparr>)
      | WaitObtainW j \<Rightarrow> obtain_loop j (p\<lparr>rurw_writers_wait := rurw_writers_wait p - 1\<rparr>)
      | WaitObtainR j \<Rightarrow> obtain_loop j (p\<lparr>rurw_readers_wait := rurw_readers_wait p - 1\<rparr>))"

section \<open>Threads and what they hold\<close>

text \<open>The lock, the waits of the threads, and what each thread got from its last retreat.\<close>

record rurw_sys =
  lk :: rurw_lock
  waits :: "nat \<Rightarrow> wait option"
  saved :: "nat \<Rightarrow> rurw_lock_deep"

definition thread :: "(nat \<Rightarrow> nat) \<Rightarrow> nat \<Rightarrow> bool" where
  "thread idx t \<longleftrightarrow> t \<noteq> 0 \<and> idx t < RURW_LOCK_MAXTHREADS"

definition obtaining :: "wait option \<Rightarrow> bool" where
  "obtaining w \<longleftrightarrow> (case w of Some (WaitObtainW j) \<Rightarrow> True | Some (WaitObtainR j) \<Rightarrow> True | _ \<Rightarrow> False)"

abbreviation slot :: "(nat \<Rightarrow> nat) \<Rightarrow> rurw_sys \<Rightarrow> nat \<Rightarrow> rurw_thr_state" where
  "slot idx s t \<equiv> slots (lk s) ! idx t"

definition reads :: "(nat \<Rightarrow> nat) \<Rightarrow> rurw_sys \<Rightarrow> nat \<Rightarrow> bool" where
  "reads idx s t \<longleftrightarrow> thread idx t \<and> thr (slot idx s t) = t \<and> 0 < state_r (slot idx s t) \<and> \<not> obtaining (waits s t)"

definition writes :: "(nat \<Rightarrow> nat) \<Rightarrow> rurw_sys \<Rightarrow> nat \<Rightarrow> bool" where
  "writes idx s t \<longleftrightarrow> thread idx t \<and> thr (slot idx s t) = t \<and> 0 < state_w (slot idx s t) \<and> \<not> obtaining (waits s t)"

text \<open>A slot in use and the wait of its thread agree.\<close>

definition slot_ok :: "nat \<Rightarrow> rurw_thr_state \<Rightarrow> wait option \<Rightarrow> bool" where
  "slot_ok j x w \<longleftrightarrow>
     (case w of
        None \<Rightarrow> 0 < state_r x \<or> 0 < state_w x
      | Some (WaitR k) \<Rightarrow> k = j \<and> state_r x = 0
      | Some (WaitUpgrade k) \<Rightarrow> k = j \<and> 0 < state_r x \<and> state_w x = 0
      | Some (WaitW k) \<Rightarrow> k = j \<and> state_r x = 0 \<and> state_w x = 0
      | Some (WaitObtainW k) \<Rightarrow> k = j \<and> 0 < state_w x
      | Some (WaitObtainR k) \<Rightarrow> k = j \<and> 0 < state_r x \<and> state_w x = 0)"

definition own_ok :: "nat \<Rightarrow> nat \<Rightarrow> rurw_thr_state \<Rightarrow> wait option \<Rightarrow> bool" where
  "own_ok j t x w \<longleftrightarrow> (thr x = t \<and> slot_ok j x w \<or> thr x = 0 \<and> state_r x = 0 \<and> state_w x = 0 \<and> w = None)"

definition rurw_inv :: "(nat \<Rightarrow> nat) \<Rightarrow> rurw_sys \<Rightarrow> bool" where
  "rurw_inv idx s \<longleftrightarrow>
     length (slots (lk s)) = RURW_LOCK_MAXTHREADS \<and> rurw_fullscan_bitmask (lk s) = 0 \<and>
     (\<forall>t. thread idx t \<longrightarrow> own_ok (idx t) t (slot idx s t) (waits s t)) \<and>
     rurw_readers (lk s) = int (card {t. reads idx s t}) \<and>
     (rurw_writer (lk s) \<longleftrightarrow> (\<exists>t. writes idx s t)) \<and>
     (\<forall>t u. writes idx s t \<longrightarrow> reads idx s u \<or> writes idx s u \<longrightarrow> t = u)"

lemma finite_threads: "inj_on idx {t. thread idx t} \<Longrightarrow> finite {t. thread idx t}"
  by (rule inj_on_finite [of idx _ "{..<RURW_LOCK_MAXTHREADS}"]) (auto simp: thread_def)

lemma finite_reads: "inj_on idx {t. thread idx t} \<Longrightarrow> finite {t. reads idx s t}"
  by (rule finite_subset [OF _ finite_threads]) (auto simp: reads_def)

text \<open>A step of one thread changes its own slot and wait, and the counters by what it gains and loses.\<close>

lemma rurw_inv_change:
  assumes inj: "inj_on idx {t. thread idx t}" and inv: "rurw_inv idx s" and t: "thread idx t"
    and s': "slots (lk s') = (slots (lk s))[idx t := x]" "waits s' = (waits s)(t := w)" "rurw_fullscan_bitmask (lk s') = 0"
    and own: "own_ok (idx t) t x w"
    and rd: "r' \<longleftrightarrow> thr x = t \<and> 0 < state_r x \<and> \<not> obtaining w" "rurw_readers (lk s') = rurw_readers (lk s) + of_bool r' - of_bool (reads idx s t)"
    and wr: "w' \<longleftrightarrow> thr x = t \<and> 0 < state_w x \<and> \<not> obtaining w" "rurw_writer (lk s') \<longleftrightarrow> w' \<or> (\<exists>u. u \<noteq> t \<and> writes idx s u)"
    and excl: "\<And>u. w' \<Longrightarrow> u \<noteq> t \<Longrightarrow> \<not> reads idx s u \<and> \<not> writes idx s u" "\<And>u. r' \<Longrightarrow> u \<noteq> t \<Longrightarrow> \<not> writes idx s u"
  shows "rurw_inv idx s'"
proof -
  have len: "length (slots (lk s)) = RURW_LOCK_MAXTHREADS" using inv by (simp add: rurw_inv_def)
  have slot_t: "slot idx s' t = x" using t len by (simp add: s' thread_def)
  have slot_u: "slot idx s' u = slot idx s u" if "thread idx u" "u \<noteq> t" for u
  proof -
    have "idx t \<noteq> idx u" using inj_onD [OF inj, of u t] that t by auto
    then show ?thesis by (simp add: s')
  qed
  have r: "reads idx s' u \<longleftrightarrow> (if u = t then r' else reads idx s u)" for u
    using slot_t slot_u [of u] t rd(1) by (auto simp: reads_def s'(2))
  have wt: "writes idx s' u \<longleftrightarrow> (if u = t then w' else writes idx s u)" for u
    using slot_t slot_u [of u] t wr(1) by (auto simp: writes_def s'(2))
  have "{u. reads idx s' u} = (if r' then insert t {u. reads idx s u} else {u. reads idx s u} - {t})"
    by (auto simp: r)
  then have "int (card {u. reads idx s' u}) = int (card {u. reads idx s u}) + of_bool r' - of_bool (reads idx s t)"
    using finite_reads [OF inj, of s] card_Suc_Diff1 [of "{u. reads idx s u}" t]
    by (cases "reads idx s t"; cases r') (auto simp: insert_absorb)
  then have "rurw_readers (lk s') = int (card {u. reads idx s' u})" using inv rd(2) by (simp add: rurw_inv_def)
  moreover have "rurw_writer (lk s') \<longleftrightarrow> (\<exists>u. writes idx s' u)" using wr(2) by (auto simp: wt)
  moreover have "\<forall>u v. writes idx s' u \<longrightarrow> reads idx s' v \<or> writes idx s' v \<longrightarrow> u = v"
  proof (intro allI impI)
    fix u v assume a: "writes idx s' u" "reads idx s' v \<or> writes idx s' v"
    have old: "writes idx s u \<Longrightarrow> reads idx s v \<or> writes idx s v \<Longrightarrow> u = v" using inv unfolding rurw_inv_def by blast
    show "u = v"
    proof (cases "u = t"; cases "v = t")
      assume "u = t" "v \<noteq> t" then show ?thesis using a excl(1) [of v] by (simp add: wt r)
    next
      assume "u \<noteq> t" "v = t" then show ?thesis using a excl(1) [of u] excl(2) [of u] by (auto simp: wt r)
    qed (use a old in \<open>simp_all add: wt r\<close>)
  qed
  moreover have "\<forall>u. thread idx u \<longrightarrow> own_ok (idx u) u (slot idx s' u) (waits s' u)"
    using inv own slot_t slot_u by (auto simp: rurw_inv_def s'(2))
  ultimately show ?thesis using len s' by (simp add: rurw_inv_def)
qed

text \<open>With distinct indices in range the search for a slot never leaves the thread's own one.\<close>

lemma enter_own:
  assumes "rurw_inv idx s" "thread idx t"
  shows "rurw_enter (lk s) t (idx t) a =
    (if thr (slot idx s t) = t then Some (lk s, Some (idx t), False)
     else if a then Some (slot_upd (idx t) (\<lambda>x. x\<lparr>thr := t\<rparr>) (lk s), Some (idx t), True)
     else Some (lk s, None, False))"
proof -
  have "own_ok (idx t) t (slot idx s t) (waits s t)" "rurw_fullscan_bitmask (lk s) = 0"
    using assms by (simp_all add: rurw_inv_def)
  with assms(2) show ?thesis
    by (auto simp: rurw_enter_def thread_def own_ok_def Let_def ensure_True slot_upd_def)
qed


section \<open>Interleavings\<close>

text \<open>The calls of all threads and their waking up. A thread obtains again what it gave up only while it holds nothing.\<close>

inductive rurw_step :: "(nat \<Rightarrow> nat) \<Rightarrow> rurw_sys \<Rightarrow> rurw_sys \<Rightarrow> bool" for idx where
  r_lock: "\<lbrakk>thread idx t; waits s t = None; rurw_r_lock (lk s) t (idx t) = Some (p, w)\<rbrakk> \<Longrightarrow>
     rurw_step idx s (s\<lparr>lk := p, waits := (waits s)(t := w)\<rparr>)"
| r_unlock: "\<lbrakk>thread idx t; waits s t = None; rurw_r_unlock (lk s) t (idx t) = Some (p, sig)\<rbrakk> \<Longrightarrow>
     rurw_step idx s (s\<lparr>lk := p, waits := (waits s)(t := None)\<rparr>)"
| w_lock: "\<lbrakk>thread idx t; waits s t = None; rurw_w_lock (lk s) t (idx t) = Some (p, w)\<rbrakk> \<Longrightarrow>
     rurw_step idx s (s\<lparr>lk := p, waits := (waits s)(t := w)\<rparr>)"
| w_unlock: "\<lbrakk>thread idx t; waits s t = None; rurw_w_unlock (lk s) t (idx t) = Some (p, sig)\<rbrakk> \<Longrightarrow>
     rurw_step idx s (s\<lparr>lk := p, waits := (waits s)(t := None)\<rparr>)"
| retreat: "\<lbrakk>thread idx t; waits s t = None; rurw_retreat (lk s) t (idx t) = Some (p, d, sig)\<rbrakk> \<Longrightarrow>
     rurw_step idx s (s\<lparr>lk := p, waits := (waits s)(t := None), saved := (saved s)(t := d)\<rparr>)"
| obtain_again: "\<lbrakk>thread idx t; waits s t = None; thr (slot idx s t) \<noteq> t; rurw_obtain (lk s) t (idx t) (saved s t) = Some (p, w)\<rbrakk> \<Longrightarrow>
     rurw_step idx s (s\<lparr>lk := p, waits := (waits s)(t := w), saved := (saved s)(t := \<lparr>dr = 0, dw = 0\<rparr>)\<rparr>)"
| wake_up: "\<lbrakk>thread idx t; waits s t = Some v; wake v (lk s) = (p, w)\<rbrakk> \<Longrightarrow>
     rurw_step idx s (s\<lparr>lk := p, waits := (waits s)(t := w)\<rparr>)"

lemma rurw_counters:
  assumes "inj_on idx {t. thread idx t}" "rurw_inv idx s"
  shows "rurw_readers (lk s) = 0 \<longleftrightarrow> (\<forall>u. \<not> reads idx s u)" "0 \<le> rurw_readers (lk s)"
    "rurw_writer (lk s) \<longleftrightarrow> (\<exists>u. writes idx s u)"
proof -
  have rd: "rurw_readers (lk s) = int (card {t. reads idx s t})" using assms(2) unfolding rurw_inv_def by blast
  then show "0 \<le> rurw_readers (lk s)" by simp
  have "rurw_readers (lk s) = 0 \<longleftrightarrow> {t. reads idx s t} = {}"
    using rd card_0_eq [OF finite_reads [OF assms(1), of s]] by simp
  then show "rurw_readers (lk s) = 0 \<longleftrightarrow> (\<forall>u. \<not> reads idx s u)" by simp
  show "rurw_writer (lk s) \<longleftrightarrow> (\<exists>u. writes idx s u)" using assms(2) unfolding rurw_inv_def by blast
qed

lemma rurw_exclusive:
  "rurw_inv idx s \<Longrightarrow> writes idx s t \<Longrightarrow> reads idx s u \<or> writes idx s u \<Longrightarrow> t = u"
  unfolding rurw_inv_def by blast

lemma other_writers: "(\<exists>u. writes idx s u) \<longleftrightarrow> writes idx s t \<or> (\<exists>u. u \<noteq> t \<and> writes idx s u)"
  by metis

lemma rurw_own:
  assumes "rurw_inv idx s" "thread idx t"
  shows "own_ok (idx t) t (slot idx s t) (waits s t)" "rurw_fullscan_bitmask (lk s) = 0" "idx t < length (slots (lk s))"
  using assms by (simp_all add: rurw_inv_def thread_def)

text \<open>The loops, for a slot \<open>x\<close> the thread has in the array.\<close>

lemma r_loop_inv:
  assumes c: "inj_on idx {t. thread idx t}" "rurw_inv idx s" "thread idx t"
    and p: "slots p = (slots (lk s))[idx t := x]" "rurw_fullscan_bitmask p = 0" "rurw_readers p = rurw_readers (lk s)" "rurw_writer p = rurw_writer (lk s)"
    and x: "thr x = t" "state_r x = 0" "\<not> reads idx s t" "writes idx s t \<longleftrightarrow> 0 < state_w x"
    and run: "r_loop (idx t) p = (p', w)" and s': "lk s' = p'" "waits s' = (waits s)(t := w)"
  shows "rurw_inv idx s'"
proof (cases "rurw_writer p")
  case True
  then have "p' = p\<lparr>rurw_readers_wait := rurw_readers_wait p + 1\<rparr>" "w = Some (WaitR (idx t))"
    using run by (simp_all add: r_loop_def)
  moreover have "rurw_writer p \<longleftrightarrow> writes idx s t \<or> (\<exists>u. u \<noteq> t \<and> writes idx s u)"
    using p(4) rurw_counters(3) [OF c(1,2)] other_writers [of idx s t] by simp
  ultimately show ?thesis
    using p x s' rurw_exclusive [OF c(2), of t]
    by (intro rurw_inv_change [OF c, of s' x w False "writes idx s t"])
      (simp_all add: own_ok_def slot_ok_def obtaining_def, blast+)
next
  case False
  have "slots p' = (slots (lk s))[idx t := x\<lparr>state_r := 1\<rparr>]" "w = None" "rurw_readers p' = rurw_readers p + 1"
      "rurw_writer p' = rurw_writer p" "rurw_fullscan_bitmask p' = 0"
    using run False p rurw_own(3) [OF c(2,3)] by (auto simp: r_loop_def slot_upd_def)
  moreover have "\<And>u. \<not> writes idx s u" using rurw_counters(3) [OF c(1,2)] p(4) False by blast
  ultimately show ?thesis
    using p x s' False
    by (intro rurw_inv_change [OF c, of s' "x\<lparr>state_r := 1\<rparr>" w True False])
      (simp_all add: own_ok_def slot_ok_def obtaining_def)
qed


lemma w_loop_inv:
  assumes c: "inj_on idx {t. thread idx t}" "rurw_inv idx s" "thread idx t"
    and p: "slots p = (slots (lk s))[idx t := x]" "rurw_fullscan_bitmask p = 0" "rurw_readers p = rurw_readers (lk s)" "rurw_writer p = rurw_writer (lk s)"
    and x: "thr x = t" "state_w x = 0" "\<not> writes idx s t" "reads idx s t \<longleftrightarrow> 0 < state_r x"
    and run: "w_loop (idx t) p = (p', w)" and s': "lk s' = p'" "waits s' = (waits s)(t := w)"
  shows "rurw_inv idx s'"
proof -
  have sl: "slots p ! idx t = x" using p(1) rurw_own(3) [OF c(2,3)] by simp
  show ?thesis
  proof (cases "rurw_readers p \<noteq> 0 \<or> rurw_writer p")
    case True
    have "rurw_writer p \<longleftrightarrow> (\<exists>u. u \<noteq> t \<and> writes idx s u)"
      using p(4) rurw_counters(3) [OF c(1,2)] other_writers [of idx s t] x(3) by simp
    moreover have "slots p' = slots p" "rurw_readers p' = rurw_readers p" "rurw_writer p' = rurw_writer p"
        "rurw_fullscan_bitmask p' = 0" "w = Some (if 0 < state_r x then WaitUpgrade (idx t) else WaitW (idx t))"
      using run True sl p(2) by (auto simp: w_loop_def split: if_splits)
    moreover have "\<And>u. reads idx s t \<Longrightarrow> u \<noteq> t \<Longrightarrow> \<not> writes idx s u" using rurw_exclusive [OF c(2)] by blast
    ultimately show ?thesis
      using p x s'
      by (intro rurw_inv_change [OF c, of s' x w "reads idx s t" False]) (simp_all add: own_ok_def slot_ok_def obtaining_def)
  next
    case False
    then have none: "\<And>u. \<not> reads idx s u" "\<And>u. \<not> writes idx s u"
      using rurw_counters [OF c(1,2)] p(3,4) by simp_all
    have "slots p' = (slots (lk s))[idx t := x\<lparr>state_w := 1\<rparr>]" "w = None" "rurw_readers p' = rurw_readers p"
        "rurw_writer p'" "rurw_fullscan_bitmask p' = 0"
      using run False p rurw_own(3) [OF c(2,3)] by (auto simp: w_loop_def slot_upd_def)
    with none show ?thesis
      using p x s'
      by (intro rurw_inv_change [OF c, of s' "x\<lparr>state_w := 1\<rparr>" w "reads idx s t" True])
        (simp_all add: own_ok_def slot_ok_def obtaining_def)
  qed
qed

lemma obtain_loop_inv:
  assumes c: "inj_on idx {t. thread idx t}" "rurw_inv idx s" "thread idx t"
    and p: "slots p = (slots (lk s))[idx t := x]" "rurw_fullscan_bitmask p = 0" "rurw_readers p = rurw_readers (lk s)" "rurw_writer p = rurw_writer (lk s)"
    and x: "thr x = t" "0 < state_r x \<or> 0 < state_w x" "\<not> writes idx s t" "\<not> reads idx s t"
    and run: "obtain_loop (idx t) p = (p', w)" and s': "lk s' = p'" "waits s' = (waits s)(t := w)"
  shows "rurw_inv idx s'"
proof -
  have sl: "slots p ! idx t = x" using p(1) rurw_own(3) [OF c(2,3)] by simp
  have others: "rurw_writer p \<longleftrightarrow> (\<exists>u. u \<noteq> t \<and> writes idx s u)"
    using p(4) rurw_counters(3) [OF c(1,2)] other_writers [of idx s t] x(3) by simp
  consider "if 0 < state_w x then rurw_readers p \<noteq> 0 \<or> rurw_writer p else rurw_writer p"
    | "0 < state_w x" "rurw_readers p = 0" "\<not> rurw_writer p" | "state_w x = 0" "\<not> rurw_writer p"
    by (cases "0 < state_w x"; cases "rurw_writer p"; cases "rurw_readers p = 0") simp_all
  then show ?thesis
  proof cases
    case 1
    then have "slots p' = slots p" "rurw_readers p' = rurw_readers p" "rurw_writer p' = rurw_writer p"
        "rurw_fullscan_bitmask p' = 0" "w = Some (if 0 < state_w x then WaitObtainW (idx t) else WaitObtainR (idx t))"
      using run sl p(2) by (auto simp: obtain_loop_def split: if_splits)
    with others show ?thesis
      using p x s'
      by (intro rurw_inv_change [OF c, of s' x w False False]) (auto simp: own_ok_def slot_ok_def obtaining_def)
  next
    case wr: 2
    then have none: "\<And>u. \<not> reads idx s u" "\<And>u. \<not> writes idx s u"
      using rurw_counters [OF c(1,2)] p(3,4) by simp_all
    have "slots p' = slots p" "rurw_readers p' = of_bool (0 < state_r x)" "rurw_writer p'" "rurw_fullscan_bitmask p' = 0" "w = None"
      using run sl p(2) wr by (auto simp: obtain_loop_def split: if_splits)
    with none wr show ?thesis
      using p x s'
      by (intro rurw_inv_change [OF c, of s' x w "0 < state_r x" True]) (auto simp: own_ok_def slot_ok_def obtaining_def)
  next
    case rd: 3
    then have none: "\<And>u. \<not> writes idx s u" using rurw_counters(3) [OF c(1,2)] p(4) by simp
    have "slots p' = slots p" "rurw_readers p' = rurw_readers p + 1" "\<not> rurw_writer p'" "rurw_fullscan_bitmask p' = 0" "w = None"
      using run sl p(2) rd by (auto simp: obtain_loop_def split: if_splits)
    with none rd show ?thesis
      using p x s'
      by (intro rurw_inv_change [OF c, of s' x w True False]) (auto simp: own_ok_def slot_ok_def obtaining_def)
  qed
qed

lemma idle_holds:
  assumes "rurw_inv idx s" "thread idx t" "waits s t = None"
  shows "reads idx s t \<longleftrightarrow> thr (slot idx s t) = t \<and> 0 < state_r (slot idx s t)"
    "writes idx s t \<longleftrightarrow> thr (slot idx s t) = t \<and> 0 < state_w (slot idx s t)"
    "thr (slot idx s t) = t \<Longrightarrow> 0 < state_r (slot idx s t) \<or> 0 < state_w (slot idx s t)"
    "thr (slot idx s t) \<noteq> t \<Longrightarrow> thr (slot idx s t) = 0 \<and> state_r (slot idx s t) = 0 \<and> state_w (slot idx s t) = 0"
  using rurw_own(1) [OF assms(1,2)] assms
  by (auto simp: reads_def writes_def obtaining_def own_ok_def slot_ok_def thread_def)

text \<open>Changing the depth of a lock that stays held.\<close>

lemma depth_inv:
  assumes c: "inj_on idx {t. thread idx t}" "rurw_inv idx s" "thread idx t" and w: "waits s t = None"
    and x: "thr (slot idx s t) = t" "thr x = t" "0 < state_r x \<longleftrightarrow> 0 < state_r (slot idx s t)" "0 < state_w x \<longleftrightarrow> 0 < state_w (slot idx s t)"
    and s': "lk s' = (lk s)\<lparr>slots := (slots (lk s))[idx t := x]\<rparr>" "waits s' = (waits s)(t := None)"
  shows "rurw_inv idx s'"
proof -
  note i = idle_holds [OF c(2,3) w]
  have "rurw_writer (lk s) \<longleftrightarrow> writes idx s t \<or> (\<exists>u. u \<noteq> t \<and> writes idx s u)"
    using rurw_counters(3) [OF c(1,2)] other_writers [of idx s t] by simp
  moreover have "\<And>u. writes idx s t \<Longrightarrow> u \<noteq> t \<Longrightarrow> \<not> reads idx s u \<and> \<not> writes idx s u"
    "\<And>u. reads idx s t \<Longrightarrow> u \<noteq> t \<Longrightarrow> \<not> writes idx s u"
    using rurw_exclusive [OF c(2)] by blast+
  moreover have "own_ok (idx t) t x None" using i(3) [OF x(1)] x by (auto simp: own_ok_def slot_ok_def)
  ultimately show ?thesis
    using i x s' rurw_own(2) [OF c(2,3)]
    by (intro rurw_inv_change [OF c, of s' x None "reads idx s t" "writes idx s t"]) (simp_all add: obtaining_def)
qed

lemma r_lock_inv:
  assumes c: "inj_on idx {t. thread idx t}" "rurw_inv idx s" "thread idx t" and w: "waits s t = None"
    and run: "rurw_r_lock (lk s) t (idx t) = Some (p, v)" and s': "lk s' = p" "waits s' = (waits s)(t := v)"
  shows "rurw_inv idx s'"
proof -
  note i = idle_holds [OF c(2,3) w] and own = rurw_own [OF c(2,3)]
  have t0: "t \<noteq> 0" using c(3) by (simp add: thread_def)
  show ?thesis
  proof (cases "thr (slot idx s t) = t")
    case True
    note e = enter_own [OF c(2,3), of True]
    show ?thesis
    proof (cases "0 < state_r (slot idx s t)")
      case r: True
      then have "p = (lk s)\<lparr>slots := (slots (lk s))[idx t := (slot idx s t)\<lparr>state_r := state_r (slot idx s t) + 1\<rparr>]\<rparr>" "v = None"
        using run e True by (auto simp: rurw_r_lock_def slot_upd_def ensure_def bind_eq_Some_conv split: if_splits)
      then show ?thesis using depth_inv [OF c w True, of "(slot idx s t)\<lparr>state_r := state_r (slot idx s t) + 1\<rparr>" s'] True r s' by simp
    next
      case r: False
      then have "r_loop (idx t) (lk s) = (p, v)" using run e True by (simp add: rurw_r_lock_def)
      then show ?thesis
        using i own True r s' by (intro r_loop_inv [OF c, of "lk s" "slot idx s t"]) auto
    qed
  next
    case False
    let ?x = "(slot idx s t)\<lparr>thr := t\<rparr>" and ?p = "slot_upd (idx t) (\<lambda>x. x\<lparr>thr := t\<rparr>) (lk s)"
    have x: "slots ?p ! idx t = ?x" using own(3) by (simp add: slot_upd_def)
    then have "r_loop (idx t) ?p = (p, v)"
      using run False i(4) enter_own [OF c(2,3), of True] by (simp add: rurw_r_lock_def)
    then show ?thesis
      using i own False s' by (intro r_loop_inv [OF c, of ?p ?x]) (auto simp: slot_upd_def)
  qed
qed

lemma w_lock_inv:
  assumes c: "inj_on idx {t. thread idx t}" "rurw_inv idx s" "thread idx t" and w: "waits s t = None"
    and run: "rurw_w_lock (lk s) t (idx t) = Some (p, v)" and s': "lk s' = p" "waits s' = (waits s)(t := v)"
  shows "rurw_inv idx s'"
proof -
  note i = idle_holds [OF c(2,3) w] and own = rurw_own [OF c(2,3)]
  show ?thesis
  proof (cases "thr (slot idx s t) = t")
    case True
    note e = enter_own [OF c(2,3), of True]
    show ?thesis
    proof (cases "0 < state_w (slot idx s t)")
      case r: True
      then have "p = (lk s)\<lparr>slots := (slots (lk s))[idx t := (slot idx s t)\<lparr>state_w := state_w (slot idx s t) + 1\<rparr>]\<rparr>" "v = None"
        using run e True by (auto simp: rurw_w_lock_def slot_upd_def ensure_def bind_eq_Some_conv split: if_splits)
      then show ?thesis using depth_inv [OF c w True, of "(slot idx s t)\<lparr>state_w := state_w (slot idx s t) + 1\<rparr>" s'] True r s' by simp
    next
      case r: False
      then have "w_loop (idx t) (lk s) = (p, v)" using run e True by (simp add: rurw_w_lock_def)
      then show ?thesis
        using i own True r s' by (intro w_loop_inv [OF c, of "lk s" "slot idx s t"]) auto
    qed
  next
    case False
    let ?x = "(slot idx s t)\<lparr>thr := t\<rparr>" and ?p = "slot_upd (idx t) (\<lambda>x. x\<lparr>thr := t\<rparr>) (lk s)"
    have x: "slots ?p ! idx t = ?x" using own(3) by (simp add: slot_upd_def)
    then have "w_loop (idx t) ?p = (p, v)"
      using run False i(4) enter_own [OF c(2,3), of True] by (simp add: rurw_w_lock_def)
    then show ?thesis
      using i own False s' by (intro w_loop_inv [OF c, of ?p ?x]) (auto simp: slot_upd_def)
  qed
qed

lemma obtain_inv:
  assumes c: "inj_on idx {t. thread idx t}" "rurw_inv idx s" "thread idx t" and w: "waits s t = None" "thr (slot idx s t) \<noteq> t"
    and run: "rurw_obtain (lk s) t (idx t) d = Some (p, v)" and s': "lk s' = p" "waits s' = (waits s)(t := v)"
  shows "rurw_inv idx s'"
proof (cases "dr d = 0 \<and> dw d = 0")
  case True
  then have "lk s' = lk s" "waits s' = waits s" using run s' w(1) by (auto simp: rurw_obtain_def)
  then have "reads idx s' = reads idx s" "writes idx s' = writes idx s"
    by (simp_all add: reads_def writes_def fun_eq_iff)
  with \<open>lk s' = lk s\<close> \<open>waits s' = waits s\<close> c(2) show ?thesis unfolding rurw_inv_def by simp
next
  case False
  note i = idle_holds [OF c(2,3) w(1)] and own = rurw_own [OF c(2,3)]
  let ?x = "(slot idx s t)\<lparr>thr := t, state_r := dr d, state_w := dw d\<rparr>"
  let ?p = "slot_upd (idx t) (\<lambda>s. s\<lparr>state_r := dr d, state_w := dw d\<rparr>) (slot_upd (idx t) (\<lambda>x. x\<lparr>thr := t\<rparr>) (lk s))"
  have "obtain_loop (idx t) ?p = (p, v)"
    using run False w(2) enter_own [OF c(2,3), of True] by (simp add: rurw_obtain_def)
  then show ?thesis
    using i own False w(2) s' by (intro obtain_loop_inv [OF c, of ?p ?x]) (auto simp: slot_upd_def)
qed


text \<open>Giving up some of what the thread holds.\<close>

lemma release_inv:
  assumes c: "inj_on idx {t. thread idx t}" "rurw_inv idx s" "thread idx t" and w: "waits s t = None"
    and x: "thr (slot idx s t) = t" "own_ok (idx t) t x None"
      "0 < state_r x \<Longrightarrow> 0 < state_r (slot idx s t)" "0 < state_w x \<Longrightarrow> 0 < state_w (slot idx s t)"
    and p: "slots p = (slots (lk s))[idx t := x]" "rurw_fullscan_bitmask p = rurw_fullscan_bitmask (lk s)"
      "rurw_readers p = rurw_readers (lk s) - of_bool (0 < state_r (slot idx s t) \<and> state_r x = 0)"
      "rurw_writer p \<longleftrightarrow> rurw_writer (lk s) \<and> \<not> (0 < state_w (slot idx s t) \<and> state_w x = 0)"
    and s': "lk s' = p" "waits s' = (waits s)(t := None)"
  shows "rurw_inv idx s'"
proof -
  note i = idle_holds [OF c(2,3) w] and ex = rurw_exclusive [OF c(2)]
  have tx: "0 < state_r x \<Longrightarrow> thr x = t" "0 < state_w x \<Longrightarrow> thr x = t" using x(2) by (auto simp: own_ok_def)
  have "0 < state_w (slot idx s t) \<Longrightarrow> u \<noteq> t \<Longrightarrow> \<not> reads idx s u \<and> \<not> writes idx s u" for u
    using i(2) x(1) ex [of t u] by blast
  moreover have "0 < state_r (slot idx s t) \<Longrightarrow> u \<noteq> t \<Longrightarrow> \<not> writes idx s u" for u
    using i(1) x(1) ex [of u t] by blast
  moreover have "rurw_writer (lk s) \<longleftrightarrow> 0 < state_w (slot idx s t) \<or> (\<exists>u. u \<noteq> t \<and> writes idx s u)"
    using rurw_counters(3) [OF c(1,2)] other_writers [of idx s t] i(2) x(1) by simp
  ultimately show ?thesis
    using i x tx p s' rurw_own(2) [OF c(2,3)]
    by (intro rurw_inv_change [OF c, of s' x None "0 < state_r x" "0 < state_w x"])
      (simp_all add: obtaining_def, (metis gr0I)+)
qed


lemma r_unlock_inv:
  assumes c: "inj_on idx {t. thread idx t}" "rurw_inv idx s" "thread idx t" and w: "waits s t = None"
    and run: "rurw_r_unlock (lk s) t (idx t) = Some (p, sig)" and s': "lk s' = p" "waits s' = (waits s)(t := None)"
  shows "rurw_inv idx s'"
proof -
  note own = rurw_own [OF c(2,3)] and e = enter_own [OF c(2,3), of False]
  have t: "thr (slot idx s t) = t" "0 < state_r (slot idx s t)"
    using run e by (auto simp: rurw_r_unlock_def bind_eq_Some_conv ensure_def split: if_splits)
  let ?x = "(slot idx s t)\<lparr>state_r := state_r (slot idx s t) - 1\<rparr>"
  let ?y = "if state_r ?x = 0 \<and> state_w ?x = 0 then ?x\<lparr>thr := 0\<rparr> else ?x"
  have p: "slots p = (slots (lk s))[idx t := ?y]" "rurw_fullscan_bitmask p = rurw_fullscan_bitmask (lk s)"
    "rurw_readers p = rurw_readers (lk s) - of_bool (state_r ?x = 0)" "rurw_writer p = rurw_writer (lk s)"
    using run e t own(3) by (auto simp: rurw_r_unlock_def ensure_def Let_def slot_upd_def split: if_splits)
  show ?thesis
    using t p s' by (intro release_inv [OF c w, of ?y p]) (auto simp: own_ok_def slot_ok_def split: if_splits)
qed

lemma w_unlock_inv:
  assumes c: "inj_on idx {t. thread idx t}" "rurw_inv idx s" "thread idx t" and w: "waits s t = None"
    and run: "rurw_w_unlock (lk s) t (idx t) = Some (p, sig)" and s': "lk s' = p" "waits s' = (waits s)(t := None)"
  shows "rurw_inv idx s'"
proof -
  note own = rurw_own [OF c(2,3)] and e = enter_own [OF c(2,3), of False]
  have t: "thr (slot idx s t) = t" "0 < state_w (slot idx s t)" "rurw_writer (lk s)"
    using run e by (auto simp: rurw_w_unlock_def bind_eq_Some_conv ensure_def split: if_splits)
  let ?x = "(slot idx s t)\<lparr>state_w := state_w (slot idx s t) - 1\<rparr>"
  let ?y = "if state_r ?x = 0 \<and> state_w ?x = 0 then ?x\<lparr>thr := 0\<rparr> else ?x"
  have p: "slots p = (slots (lk s))[idx t := ?y]" "rurw_fullscan_bitmask p = rurw_fullscan_bitmask (lk s)"
    "rurw_readers p = rurw_readers (lk s)" "rurw_writer p = (state_w ?x \<noteq> 0)"
    using run e t own(3) by (auto simp: rurw_w_unlock_def ensure_def Let_def slot_upd_def split: if_splits)
  show ?thesis
    using t p s' by (intro release_inv [OF c w, of ?y p]) (auto simp: own_ok_def slot_ok_def split: if_splits)
qed

lemma empty_slot:
  "state_w x = 0 \<Longrightarrow> x\<lparr>state_r := 0, thr := 0\<rparr> = \<lparr>thr = 0, state_r = 0, state_w = 0\<rparr>"
  "state_r x = 0 \<Longrightarrow> x\<lparr>state_w := 0, thr := 0\<rparr> = \<lparr>thr = 0, state_r = 0, state_w = 0\<rparr>"
  "x\<lparr>state_r := 0, state_w := 0, thr := 0\<rparr> = \<lparr>thr = 0, state_r = 0, state_w = 0\<rparr>"
  by (cases x; simp)+

lemma retreat_inv:
  assumes c: "inj_on idx {t. thread idx t}" "rurw_inv idx s" "thread idx t" and w: "waits s t = None"
    and run: "rurw_retreat (lk s) t (idx t) = Some (p, d, sig)" and s': "lk s' = p" "waits s' = (waits s)(t := None)"
  shows "rurw_inv idx s'"
proof (cases "thr (slot idx s t) = t")
  case False
  then have "lk s' = lk s" "waits s' = waits s"
    using run s' w enter_own [OF c(2,3), of False] by (auto simp: rurw_retreat_def)
  then have "reads idx s' = reads idx s" "writes idx s' = writes idx s"
    by (simp_all add: reads_def writes_def fun_eq_iff)
  with \<open>lk s' = lk s\<close> \<open>waits s' = waits s\<close> c(2) show ?thesis unfolding rurw_inv_def by simp
next
  case True
  note own = rurw_own [OF c(2,3)] and e = enter_own [OF c(2,3), of False]
  let ?y = "\<lparr>thr = 0, state_r = 0, state_w = 0\<rparr>"
  have p: "slots p = (slots (lk s))[idx t := ?y]" "rurw_fullscan_bitmask p = rurw_fullscan_bitmask (lk s)"
    "rurw_readers p = rurw_readers (lk s) - of_bool (0 < state_r (slot idx s t))"
    "rurw_writer p = (rurw_writer (lk s) \<and> state_w (slot idx s t) = 0)"
    using run e True own(3) by (auto simp: rurw_retreat_def ensure_def Let_def slot_upd_def empty_slot split: if_splits)
  show ?thesis
    using True p s' by (intro release_inv [OF c w, of ?y p]) (auto simp: own_ok_def slot_ok_def split: if_splits)
qed


lemma wake_inv:
  assumes c: "inj_on idx {t. thread idx t}" "rurw_inv idx s" "thread idx t" and v: "waits s t = Some v"
    and run: "wake v (lk s) = (p, w)" and s': "lk s' = p" "waits s' = (waits s)(t := w)"
  shows "rurw_inv idx s'"
proof -
  note own = rurw_own [OF c(2,3)]
  have sl: "thr (slot idx s t) = t" "slot_ok (idx t) (slot idx s t) (Some v)"
    using own(1) v by (auto simp: own_ok_def)
  have h: "reads idx s t \<longleftrightarrow> 0 < state_r (slot idx s t) \<and> \<not> obtaining (Some v)"
    "writes idx s t \<longleftrightarrow> 0 < state_w (slot idx s t) \<and> \<not> obtaining (Some v)"
    using sl(1) c(3) v by (simp_all add: reads_def writes_def)
  show ?thesis
  proof (cases v)
    case (WaitR k)
    then show ?thesis using run sl h own s'
      by (intro r_loop_inv [OF c, of _ "slot idx s t"]) (auto simp: wake_def slot_ok_def obtaining_def)
  next
    case (WaitUpgrade k)
    then show ?thesis using run sl h own s'
      by (intro w_loop_inv [OF c, of _ "slot idx s t"]) (auto simp: wake_def slot_ok_def obtaining_def)
  next
    case (WaitW k)
    then show ?thesis using run sl h own s'
      by (intro w_loop_inv [OF c, of _ "slot idx s t"]) (auto simp: wake_def slot_ok_def obtaining_def)
  next
    case (WaitObtainW k)
    then show ?thesis using run sl h own s'
      by (intro obtain_loop_inv [OF c, of _ "slot idx s t"]) (auto simp: wake_def slot_ok_def obtaining_def)
  next
    case (WaitObtainR k)
    then show ?thesis using run sl h own s'
      by (intro obtain_loop_inv [OF c, of _ "slot idx s t"]) (auto simp: wake_def slot_ok_def obtaining_def)
  qed
qed


lemma rurw_step_inv:
  assumes "rurw_step idx s s'" "inj_on idx {t. thread idx t}" "rurw_inv idx s"
  shows "rurw_inv idx s'"
  using assms
proof (cases rule: rurw_step.cases)
  case (r_lock t p w) with assms(2,3) show ?thesis by (intro r_lock_inv [of idx s t p w s']) auto
next
  case (r_unlock t p sig) with assms(2,3) show ?thesis by (intro r_unlock_inv [of idx s t p sig s']) auto
next
  case (w_lock t p w) with assms(2,3) show ?thesis by (intro w_lock_inv [of idx s t p w s']) auto
next
  case (w_unlock t p sig) with assms(2,3) show ?thesis by (intro w_unlock_inv [of idx s t p sig s']) auto
next
  case (retreat t p d sig) with assms(2,3) show ?thesis by (intro retreat_inv [of idx s t p d sig s']) auto
next
  case (obtain_again t p w) with assms(2,3) show ?thesis by (intro obtain_inv [of idx s t "saved s t" p w s']) auto
next
  case (wake_up t v p w) with assms(2,3) show ?thesis by (intro wake_inv [of idx s t v p w s']) auto
qed

definition rurw_start :: rurw_sys where
  "rurw_start = \<lparr>lk = rurw_lock_init, waits = (\<lambda>t. None), saved = (\<lambda>t. \<lparr>dr = 0, dw = 0\<rparr>)\<rparr>"

lemma rurw_start_inv: "rurw_inv idx rurw_start"
proof -
  have "\<not> reads idx rurw_start t" "\<not> writes idx rurw_start t" for t
    by (auto simp: rurw_start_def rurw_lock_init_def reads_def writes_def thread_def)
  then show ?thesis by (auto simp: rurw_inv_def own_ok_def) (auto simp: rurw_start_def rurw_lock_init_def thread_def)
qed

lemma rurw_steps_inv:
  assumes "(rurw_step idx)\<^sup>*\<^sup>* s s'" "inj_on idx {t. thread idx t}" "rurw_inv idx s"
  shows "rurw_inv idx s'"
  using assms by (induction rule: rtranclp_induct) (auto intro: rurw_step_inv)

text \<open>A thread that waits for itself: a reader that asks to write, or a writer that asks to read.\<close>

definition waits_self :: "(nat \<Rightarrow> nat) \<Rightarrow> rurw_sys \<Rightarrow> nat \<Rightarrow> bool" where
  "waits_self idx s t \<longleftrightarrow>
     waits s t = Some (WaitUpgrade (idx t)) \<or> waits s t = Some (WaitR (idx t)) \<and> writes idx s t"

lemma waits_self_wake:
  assumes c: "inj_on idx {t. thread idx t}" "rurw_inv idx s" "thread idx t"
    and t: "waits_self idx s t" and run: "wake v (lk s) = (p, w)" "waits s t = Some v"
  shows "w = Some v" "slots p = slots (lk s)"
proof -
  note own = rurw_own [OF c(2,3)]
  have sl: "thr (slot idx s t) = t" "slot_ok (idx t) (slot idx s t) (Some v)"
    using own(1) run(2) by (auto simp: own_ok_def)
  have "w = Some v \<and> slots p = slots (lk s)"
  proof (cases "v = WaitUpgrade (idx t)")
    case True
    then have "reads idx s t" using sl c(3) run(2) by (simp add: reads_def slot_ok_def obtaining_def)
    then have "rurw_readers (lk s) \<noteq> 0" using rurw_counters(1) [OF c(1,2)] by blast
    then show ?thesis using True run sl by (auto simp: wake_def w_loop_def slot_ok_def)
  next
    case False
    then have "v = WaitR (idx t)" "writes idx s t" using t run(2) by (auto simp: waits_self_def)
    moreover have "rurw_writer (lk s)" using rurw_counters(3) [OF c(1,2)] calculation(2) by blast
    ultimately show ?thesis using run by (auto simp: wake_def r_loop_def)
  qed
  then show "w = Some v" "slots p = slots (lk s)" by simp_all
qed


text \<open>A step writes one slot and one wait, those of the thread that moves.\<close>

definition frame :: "nat \<Rightarrow> rurw_lock \<Rightarrow> rurw_lock \<Rightarrow> bool" where
  "frame j p p' \<longleftrightarrow> (\<forall>k. k \<noteq> j \<longrightarrow> slots p' ! k = slots p ! k)"

lemma frame_upd: "frame j p (slot_upd j f p') \<longleftrightarrow> frame j p p'"
  by (auto simp: frame_def slot_upd_def)

lemma frame_slots: "slots q = slots p' \<Longrightarrow> frame j p q \<longleftrightarrow> frame j p p'"
  by (simp add: frame_def)

lemma frame_refl: "frame j p p"
  by (simp add: frame_def)

lemma loop_frame:
  "r_loop j p' = (q, w) \<Longrightarrow> frame j p p' \<Longrightarrow> frame j p q"
  "w_loop j p' = (q, w) \<Longrightarrow> frame j p p' \<Longrightarrow> frame j p q"
  "obtain_loop j p' = (q, w) \<Longrightarrow> frame j p p' \<Longrightarrow> frame j p q"
  by (auto simp: r_loop_def w_loop_def obtain_loop_def slot_upd_def frame_def split: if_splits)

lemma wake_frame:
  assumes "own_ok j t (slots p ! j) (Some v)" "wake v p = (p', w)"
  shows "frame j p p'"
  using assms by (cases v) (auto simp: own_ok_def slot_ok_def wake_def frame_def r_loop_def w_loop_def obtain_loop_def slot_upd_def split: if_splits)

lemma enter_frame:
  assumes "rurw_inv idx s" "thread idx t" "rurw_enter (lk s) t (idx t) a = Some (p, j, b)"
  shows "frame (idx t) (lk s) p \<and> (\<forall>k. j = Some k \<longrightarrow> k = idx t)"
  using assms(3) unfolding enter_own [OF assms(1,2)]
  by (auto simp: frame_upd frame_refl split: if_splits)

lemma call_frame:
  assumes "rurw_inv idx s" "thread idx t"
  shows "rurw_r_lock (lk s) t (idx t) = Some (p, w) \<Longrightarrow> frame (idx t) (lk s) p"
    "rurw_w_lock (lk s) t (idx t) = Some (p, w) \<Longrightarrow> frame (idx t) (lk s) p"
    "rurw_obtain (lk s) t (idx t) d = Some (p, w) \<Longrightarrow> frame (idx t) (lk s) p"
  using enter_frame [OF assms]
  by (fastforce simp: rurw_r_lock_def rurw_w_lock_def rurw_obtain_def bind_eq_Some_conv frame_upd frame_refl
      split: if_splits dest: loop_frame)+

lemma release_frame:
  assumes "rurw_inv idx s" "thread idx t"
  shows "rurw_r_unlock (lk s) t (idx t) = Some (p, g) \<Longrightarrow> frame (idx t) (lk s) p"
    "rurw_w_unlock (lk s) t (idx t) = Some (p, g) \<Longrightarrow> frame (idx t) (lk s) p"
    "rurw_retreat (lk s) t (idx t) = Some (p, d, g) \<Longrightarrow> frame (idx t) (lk s) p"
  using enter_frame [OF assms, of False]
  by (auto simp: rurw_r_unlock_def rurw_w_unlock_def rurw_retreat_def bind_eq_Some_conv Let_def slot_upd_def frame_def
      split: option.splits if_splits)

lemma rurw_step_frame:
  assumes "rurw_step idx s s'" "rurw_inv idx s"
  obtains t where "thread idx t" "frame (idx t) (lk s) (lk s')" "\<And>u. u \<noteq> t \<Longrightarrow> waits s' u = waits s u"
    "\<And>v. waits s t = Some v \<Longrightarrow> wake v (lk s) = (lk s', waits s' t)"
  using assms
proof (cases rule: rurw_step.cases)
  case (r_lock t p w) with assms(2) show ?thesis by (intro that [of t]) (auto dest: call_frame)
next
  case (r_unlock t p sig) with assms(2) show ?thesis by (intro that [of t]) (auto dest: release_frame)
next
  case (w_lock t p w) with assms(2) show ?thesis by (intro that [of t]) (auto dest: call_frame)
next
  case (w_unlock t p sig) with assms(2) show ?thesis by (intro that [of t]) (auto dest: release_frame)
next
  case (retreat t p d sig) with assms(2) show ?thesis by (intro that [of t]) (auto dest: release_frame)
next
  case (obtain_again t p w) with assms(2) show ?thesis by (intro that [of t]) (auto dest: call_frame)
next
  case (wake_up t v p w)
  then have "own_ok (idx t) t (slot idx s t) (Some v)" using rurw_own(1) [OF assms(2), of t] by simp
  with wake_up show ?thesis by (intro that [of t]) (auto dest: wake_frame)
qed

lemma waits_self_step:
  assumes c: "inj_on idx {t. thread idx t}" "rurw_inv idx s" "thread idx t"
    and t: "waits_self idx s t" and st: "rurw_step idx s s'"
  shows "waits_self idx s' t" "waits s' t = waits s t"
proof -
  obtain u where u: "thread idx u" "frame (idx u) (lk s) (lk s')" "\<And>k. k \<noteq> u \<Longrightarrow> waits s' k = waits s k"
    "\<And>v. waits s u = Some v \<Longrightarrow> wake v (lk s) = (lk s', waits s' u)"
    using rurw_step_frame [OF st c(2)] by metis
  obtain v where v: "waits s t = Some v" using t by (auto simp: waits_self_def)
  have "waits s' t = Some v \<and> slot idx s' t = slot idx s t"
  proof (cases "u = t")
    case True
    then show ?thesis using waits_self_wake [OF c t _ v] u(4) v by simp
  next
    case False
    then have "idx t \<noteq> idx u" using inj_onD [OF c(1), of u t] u(1) c(3) by auto
    then show ?thesis using False u(2,3) v by (simp add: frame_def)
  qed
  then show "waits_self idx s' t" "waits s' t = waits s t" using t v by (auto simp: waits_self_def writes_def)
qed

lemma waits_self_steps:
  assumes "(rurw_step idx)\<^sup>*\<^sup>* s s'" "inj_on idx {t. thread idx t}" "rurw_inv idx s" "thread idx t" "waits_self idx s t"
  shows "waits_self idx s' t \<and> waits s' t = waits s t"
  using assms(1)
proof (induction rule: rtranclp_induct)
  case base then show ?case using assms(5) by simp
next
  case (step y z)
  then show ?case using waits_self_step [of idx y t z] rurw_steps_inv [of idx s y] assms by simp
qed


lemma unlock_returns:
  assumes c: "inj_on idx {t. thread idx t}" "rurw_inv idx s" "thread idx t" and w: "waits s t = None"
  shows "rurw_r_unlock (lk s) t (idx t) \<noteq> None \<longleftrightarrow> reads idx s t" "rurw_w_unlock (lk s) t (idx t) \<noteq> None \<longleftrightarrow> writes idx s t"
proof -
  note i = idle_holds [OF c(2,3) w]
  have rd: "0 < rurw_readers (lk s)" if "reads idx s t"
    using rurw_counters(1,2) [OF c(1,2)] that by (metis order_le_less)
  have wr: "rurw_writer (lk s)" if "writes idx s t" using rurw_counters(3) [OF c(1,2)] that by blast
  show "rurw_r_unlock (lk s) t (idx t) \<noteq> None \<longleftrightarrow> reads idx s t"
    using rd i(1) by (auto simp: rurw_r_unlock_def enter_own [OF c(2,3)] ensure_def Let_def)
  show "rurw_w_unlock (lk s) t (idx t) \<noteq> None \<longleftrightarrow> writes idx s t"
    using wr i(2) by (auto simp: rurw_w_unlock_def enter_own [OF c(2,3)] ensure_def Let_def)
qed

lemma lock_returns:
  assumes c: "inj_on idx {t. thread idx t}" "rurw_inv idx s" "thread idx t" and w: "waits s t = None"
  shows "(\<exists>p. rurw_r_lock (lk s) t (idx t) = Some (p, None)) \<longleftrightarrow>
      (if reads idx s t then state_r (slot idx s t) < 0xFFFF else \<forall>u. \<not> writes idx s u)"
    "(\<exists>p. rurw_w_lock (lk s) t (idx t) = Some (p, None)) \<longleftrightarrow>
      (if writes idx s t then state_w (slot idx s t) < 0xFFFF else \<forall>u. \<not> reads idx s u \<and> \<not> writes idx s u)"
proof -
  note i = idle_holds [OF c(2,3) w] and own = rurw_own [OF c(2,3)] and ct = rurw_counters [OF c(1,2)]
  have w: "rurw_writer (lk s) \<longleftrightarrow> \<not> (\<forall>u. \<not> writes idx s u)" using ct(3) by blast
  show "(\<exists>p. rurw_r_lock (lk s) t (idx t) = Some (p, None)) \<longleftrightarrow>
      (if reads idx s t then state_r (slot idx s t) < 0xFFFF else \<forall>u. \<not> writes idx s u)"
    using i own by (cases "thr (slot idx s t) = t"; cases "0 < state_r (slot idx s t)")
      (simp_all add: rurw_r_lock_def enter_own [OF c(2,3)] ensure_def r_loop_def slot_upd_def w)
  have x: "(\<forall>u. \<not> reads idx s u \<and> \<not> writes idx s u) \<longleftrightarrow> rurw_readers (lk s) = 0 \<and> \<not> rurw_writer (lk s)"
    using ct by blast
  show "(\<exists>p. rurw_w_lock (lk s) t (idx t) = Some (p, None)) \<longleftrightarrow>
      (if writes idx s t then state_w (slot idx s t) < 0xFFFF else \<forall>u. \<not> reads idx s u \<and> \<not> writes idx s u)"
    unfolding x using i own by (cases "thr (slot idx s t) = t"; cases "0 < state_w (slot idx s t)")
      (simp_all add: rurw_w_lock_def enter_own [OF c(2,3)] ensure_def w_loop_def slot_upd_def)
qed

lemma self_wait:
  assumes c: "inj_on idx {t. thread idx t}" "rurw_inv idx s" "thread idx t" and w: "waits s t = None"
  shows "reads idx s t \<Longrightarrow> \<not> writes idx s t \<Longrightarrow> \<exists>p. rurw_w_lock (lk s) t (idx t) = Some (p, Some (WaitUpgrade (idx t)))"
    "writes idx s t \<Longrightarrow> \<not> reads idx s t \<Longrightarrow> \<exists>p. rurw_r_lock (lk s) t (idx t) = Some (p, Some (WaitR (idx t))) \<and> slots p = slots (lk s)"
proof -
  note i = idle_holds [OF c(2,3) w] and ct = rurw_counters [OF c(1,2)]
  { assume "reads idx s t" "\<not> writes idx s t"
    moreover have "rurw_readers (lk s) \<noteq> 0" using ct(1) calculation(1) by blast
    ultimately show "\<exists>p. rurw_w_lock (lk s) t (idx t) = Some (p, Some (WaitUpgrade (idx t)))"
      using i by (simp add: rurw_w_lock_def enter_own [OF c(2,3)] w_loop_def) }
  { assume "writes idx s t" "\<not> reads idx s t"
    moreover have "rurw_writer (lk s)" using ct(3) calculation(1) by blast
    ultimately show "\<exists>p. rurw_r_lock (lk s) t (idx t) = Some (p, Some (WaitR (idx t))) \<and> slots p = slots (lk s)"
      using i by (simp add: rurw_r_lock_def enter_own [OF c(2,3)] r_loop_def) }
qed

section \<open>Properties\<close>

text \<open>For the examples: thread \<open>t\<close> has the index \<open>t - 1\<close>, and thread 1 has taken the write lock.\<close>

definition rurw_written :: rurw_sys where
  "rurw_written = \<lparr>lk = rurw_lock_init\<lparr>rurw_writer := True, slots := (slots rurw_lock_init)[0 := \<lparr>thr = 1, state_r = 0, state_w = 1\<rparr>]\<rparr>,
     waits = (\<lambda>t. None), saved = (\<lambda>t. \<lparr>dr = 0, dw = 0\<rparr>)\<rparr>"

lemma inj_pred: "inj_on (\<lambda>t. t - 1) {t. thread (\<lambda>t. t - 1) t}"
  by (auto simp: inj_on_def thread_def)

lemma rurw_written_reached: "(rurw_step (\<lambda>t. t - 1))\<^sup>*\<^sup>* rurw_start rurw_written"
proof -
  have "rurw_w_lock (lk rurw_start) 1 0 = Some (lk rurw_written, None)"
    by (simp add: rurw_start_def rurw_written_def rurw_lock_init_def rurw_w_lock_def rurw_enter_def RURW_LOCK_MAXTHREADS_def
        w_loop_def slot_upd_def ensure_def)
  then have "rurw_step (\<lambda>t. t - 1) rurw_start (rurw_start\<lparr>lk := lk rurw_written, waits := (waits rurw_start)(1 := None)\<rparr>)"
    by (intro rurw_step.w_lock) (auto simp: thread_def RURW_LOCK_MAXTHREADS_def rurw_start_def)
  then show ?thesis by (auto simp: rurw_start_def rurw_written_def fun_upd_idem)
qed

lemma writes_written: "writes (\<lambda>t. t - 1) rurw_written 1" "\<not> reads (\<lambda>t. t - 1) rurw_written t"
  by (auto simp: writes_def reads_def rurw_written_def rurw_lock_init_def thread_def RURW_LOCK_MAXTHREADS_def obtaining_def
      nth_list_update)

text \<open>C33. Whatever the order of the calls of threads with distinct indices in range, the counters say
  who holds the lock, and a thread that holds it for writing holds it alone.\<close>

theorem rurw_lock_exclusive:
  assumes "inj_on idx {t. thread idx t}" and "(rurw_step idx)\<^sup>*\<^sup>* rurw_start s"
  shows "rurw_readers (lk s) = int (card {t. reads idx s t}) \<and> (rurw_writer (lk s) \<longleftrightarrow> (\<exists>t. writes idx s t)) \<and>
    (\<forall>t u. writes idx s t \<and> (reads idx s u \<or> writes idx s u) \<longrightarrow> t = u)"
  using rurw_steps_inv [OF assms(2,1) rurw_start_inv] unfolding rurw_inv_def by blast

theorem rurw_lock_exclusive_witness:
  "rurw_readers (lk rurw_written) = int (card {t. reads (\<lambda>t. t - 1) rurw_written t}) \<and> writes (\<lambda>t. t - 1) rurw_written 1
    \<and> \<not> writes (\<lambda>t. t - 1) rurw_written 2"
  using rurw_lock_exclusive [OF inj_pred rurw_written_reached] writes_written by (metis numeral_eq_one_iff semiring_norm(85))

text \<open>A call returns exactly when it should: unlocking when the lock is held in that way, reading
  when no thread writes or the thread reads already, writing when nobody holds the lock or the
  thread writes already; a nested call up to the depth that fits the field.\<close>

lemma rurw_calls_return:
  assumes "inj_on idx {t. thread idx t}" and "(rurw_step idx)\<^sup>*\<^sup>* rurw_start s" and "thread idx t" and "waits s t = None"
  shows "(rurw_r_unlock (lk s) t (idx t) \<noteq> None \<longleftrightarrow> reads idx s t) \<and>
    (rurw_w_unlock (lk s) t (idx t) \<noteq> None \<longleftrightarrow> writes idx s t) \<and>
    ((\<exists>p. rurw_r_lock (lk s) t (idx t) = Some (p, None)) \<longleftrightarrow>
      (if reads idx s t then state_r (slot idx s t) < 0xFFFF else \<forall>u. \<not> writes idx s u)) \<and>
    ((\<exists>p. rurw_w_lock (lk s) t (idx t) = Some (p, None)) \<longleftrightarrow>
      (if writes idx s t then state_w (slot idx s t) < 0xFFFF else \<forall>u. \<not> reads idx s u \<and> \<not> writes idx s u))"
proof -
  note c = assms(1) rurw_steps_inv [OF assms(2,1) rurw_start_inv] assms(3,4)
  show ?thesis using unlock_returns [OF c] lock_returns [OF c] by simp
qed

theorem rurw_calls_return_witness:
  "rurw_w_unlock (lk rurw_written) 1 0 \<noteq> None \<and> rurw_r_unlock (lk rurw_written) 2 1 = None \<and>
   \<not> (\<exists>p. rurw_r_lock (lk rurw_written) 2 1 = Some (p, None))"
proof -
  note r = rurw_calls_return [OF inj_pred rurw_written_reached]
  have 1: "thread (\<lambda>t. t - 1) 1" "thread (\<lambda>t. t - 1) 2" "waits rurw_written 1 = None" "waits rurw_written 2 = None"
    by (simp_all add: thread_def RURW_LOCK_MAXTHREADS_def rurw_written_def)
  show ?thesis using r [OF 1(1,3)] r [OF 1(2,4)] writes_written by auto
qed

text \<open>C34. The lock is not upgradable: a reader that asks for the write lock waits for itself, and so does
  a writer that asks for the read lock it does not hold; no continuation of the run ends the wait.\<close>

theorem rurw_upgrade_never_returns:
  assumes "inj_on idx {t. thread idx t}" and "(rurw_step idx)\<^sup>*\<^sup>* rurw_start s" and "thread idx t" and "waits s t = None"
    and "reads idx s t \<noteq> writes idx s t"
  shows "\<exists>p w. (if reads idx s t then rurw_w_lock (lk s) t (idx t) else rurw_r_lock (lk s) t (idx t)) = Some (p, Some w)
    \<and> (\<forall>s'. (rurw_step idx)\<^sup>*\<^sup>* (s\<lparr>lk := p, waits := (waits s)(t := Some w)\<rparr>) s' \<longrightarrow> waits s' t = Some w)"
proof -
  have inv: "rurw_inv idx s" using rurw_steps_inv [OF assms(2,1) rurw_start_inv] .
  note c = assms(1) inv assms(3)
  show ?thesis
  proof (cases "reads idx s t")
    case True
    then obtain p where p: "rurw_w_lock (lk s) t (idx t) = Some (p, Some (WaitUpgrade (idx t)))"
      using self_wait(1) [OF c assms(4)] assms(5) by blast
    let ?s = "s\<lparr>lk := p, waits := (waits s)(t := Some (WaitUpgrade (idx t)))\<rparr>"
    have "rurw_inv idx ?s" using w_lock_inv [OF c assms(4) p, of ?s] by simp
    moreover have "waits_self idx ?s t" by (simp add: waits_self_def)
    ultimately show ?thesis using waits_self_steps [of idx ?s _ t] c True p by auto
  next
    case False
    then obtain p where p: "rurw_r_lock (lk s) t (idx t) = Some (p, Some (WaitR (idx t)))" "slots p = slots (lk s)"
      using self_wait(2) [OF c assms(4)] assms(5) by blast
    let ?s = "s\<lparr>lk := p, waits := (waits s)(t := Some (WaitR (idx t)))\<rparr>"
    have "rurw_inv idx ?s" using r_lock_inv [OF c assms(4) p(1), of ?s] by simp
    moreover have "waits_self idx ?s t" using False assms(5) p(2) by (simp add: waits_self_def writes_def obtaining_def)
    ultimately show ?thesis using waits_self_steps [of idx ?s _ t] c False p by auto
  qed
qed


theorem rurw_upgrade_never_returns_witness:
  "\<exists>p w. rurw_r_lock (lk rurw_written) 1 0 = Some (p, Some w) \<and>
    (\<forall>s'. (rurw_step (\<lambda>t. t - 1))\<^sup>*\<^sup>* (rurw_written\<lparr>lk := p, waits := (waits rurw_written)(1 := Some w)\<rparr>) s' \<longrightarrow> waits s' 1 = Some w)"
  using rurw_upgrade_never_returns [OF inj_pred rurw_written_reached, of 1] writes_written
  by (simp add: thread_def RURW_LOCK_MAXTHREADS_def rurw_written_def)

lemma slot_scan_replicate: "slot_scan t (replicate n x) j = (if n = 0 \<or> thr x \<noteq> t then None else Some j)"
  by (induction n arbitrary: j) auto

lemma slots_init:
  "rurw_lock_init = \<lparr>rurw_readers = 0, rurw_writer = False, rurw_readers_wait = 0, rurw_writers_wait = 0, rurw_upgrades_wait = 0,
     rurw_fullscan_bitmask = 0, slots = \<lparr>thr = 0, state_r = 0, state_w = 0\<rparr> # \<lparr>thr = 0, state_r = 0, state_w = 0\<rparr> #
       \<lparr>thr = 0, state_r = 0, state_w = 0\<rparr> # replicate 61 \<lparr>thr = 0, state_r = 0, state_w = 0\<rparr>\<rparr>"
  unfolding rurw_lock_init_def RURW_LOCK_MAXTHREADS_def by (simp add: numeral_eq_Suc)

text \<open>When more threads than slots exist, a thread can come to own two slots: thread 7 has no index and
  takes slot 0, thread 8 with index 0 takes slot 1, thread 7 leaves, and a nested call of thread 8
  takes slot 0 as well and clears its bit. Of its two calls of unlock the second finds no slot, and
  the lock stays counted as read.\<close>

lemma rurw_nested_lock_lost:
  "(let a = fst (the (rurw_r_lock rurw_lock_init 7 2147483646));
        b = fst (the (rurw_r_lock a 8 0));
        c = fst (the (rurw_r_unlock b 7 2147483646));
        d = fst (the (rurw_r_lock c 8 0));
        e = fst (the (rurw_r_unlock d 8 0))
    in (map thr (take 3 (slots b)), map thr (take 3 (slots d)), rurw_fullscan_bitmask b, rurw_fullscan_bitmask d,
        rurw_r_unlock e 8 0, rurw_readers e, map thr (take 3 (slots e))))
   = ([7, 8, 0], [8, 8, 0], 1, 0, None, 1, [0, 8, 0])"
  unfolding slots_init Let_def
  by (simp add: rurw_r_lock_def rurw_r_unlock_def rurw_enter_def enter_fullscan_def enter_locked_def slot_scan_replicate
      RURW_LOCK_MAXTHREADS_def ensure_def slot_upd_def r_loop_def Let_def)


end
