(* ===== verification/Ber_Encode.thy ===== *)
theory Ber_Encode
  imports Prelude
begin

text \<open>
  The BER writer of \<^verbatim>\<open>libraries/libreldap/encode.c\<close> and the buffer functions of \<^verbatim>\<open>io.c\<close> it rests on.
  Octets are 8-bit words; tags are numbers below \<open>2 ^ 64\<close>, \<^verbatim>\<open>LBER_DEFAULT\<close> being the largest one.
  A pointer into the buffer is its offset. The list \<open>ber_buf\<close> holds the octets written so far, the number
  \<open>ber_end\<close> is the size of the allocation. Whether the allocator has room for a block of a given size
  is the argument \<open>avail\<close>. A function returns its C result and the new element.
\<close>

unbundle bit_operations_syntax

section \<open>Definitions\<close>

type_synonym octet = "8 word"

text \<open>Tags.\<close>

definition LBER_DEFAULT :: nat where "LBER_DEFAULT = 2 ^ 64 - 1"
definition LBER_BOOLEAN :: nat where "LBER_BOOLEAN = 0x01"
definition LBER_INTEGER :: nat where "LBER_INTEGER = 0x02"
definition LBER_BITSTRING :: nat where "LBER_BITSTRING = 0x03"
definition LBER_OCTETSTRING :: nat where "LBER_OCTETSTRING = 0x04"
definition LBER_NULL :: nat where "LBER_NULL = 0x05"
definition LBER_ENUMERATED :: nat where "LBER_ENUMERATED = 0x0a"
definition LBER_SEQUENCE :: nat where "LBER_SEQUENCE = 0x30"
definition LBER_SET :: nat where "LBER_SET = 0x31"

text \<open>The sizes of a tag and of a length in octets, of the header of an element, and the largest length
  an \<^verbatim>\<open>int\<close> result allows.\<close>

definition TAGBUF_SIZE :: nat where "TAGBUF_SIZE = 8"
definition LENBUF_SIZE :: nat where "LENBUF_SIZE = 1 + 8"
definition HEADER_SIZE :: nat where "HEADER_SIZE = TAGBUF_SIZE + LENBUF_SIZE"
definition MAXINT_BERSIZE :: nat where "MAXINT_BERSIZE = 2 ^ 31 - 1 - HEADER_SIZE"
definition SOS_LENLEN :: nat where "SOS_LENLEN = 5"

record BerElement =
  ber_tag :: nat
  ber_usertag :: nat
  use_der :: bool
  ber_buf :: "octet list"
  ber_ptr :: nat
  ber_end :: nat
  ber_sos_ptr :: "nat option"
  ber_sos_inner :: nat

definition ber_alloc_t :: "bool \<Rightarrow> BerElement" where
  "ber_alloc_t der = \<lparr>ber_tag = LBER_DEFAULT, ber_usertag = 0, use_der = der, ber_buf = [], ber_ptr = 0, ber_end = 0,
     ber_sos_ptr = None, ber_sos_inner = 0\<rparr>"

text \<open>\<^verbatim>\<open>memcpy\<close> to an offset of the buffer.\<close>

definition poke :: "nat \<Rightarrow> octet list \<Rightarrow> octet list \<Rightarrow> octet list" where
  "poke p data buf = take p buf @ data @ drop (p + length data) buf"

definition ber_realloc :: "(nat \<Rightarrow> bool) \<Rightarrow> BerElement \<Rightarrow> nat \<Rightarrow> int \<times> BerElement" where
  "ber_realloc avail ber len =
     (let len = (len + 1) mod 2 ^ 64 in
      if len = 0 then (- 1, ber)
      else let total = (ber_end ber + (if len < 4060 then 4060 else len)) mod 2 ^ 64
           in if total < len \<or> total > (2 ^ 64 - 1) div 2 then (- 1, ber)
              else if avail total then (0, ber\<lparr>ber_end := total\<rparr>) else (- 1, ber))"

definition write_cursor :: "BerElement \<Rightarrow> nat" where
  "write_cursor ber = (case ber_sos_ptr ber of None \<Rightarrow> ber_ptr ber | Some p \<Rightarrow> p)"

text \<open>Room for \<open>len\<close> octets at \<open>p\<close>.\<close>

definition ber_room :: "(nat \<Rightarrow> bool) \<Rightarrow> BerElement \<Rightarrow> nat \<Rightarrow> nat \<Rightarrow> int \<times> BerElement" where
  "ber_room avail ber p len = (if len > ber_end ber - p then ber_realloc avail ber len else (0, ber))"

definition ber_write :: "(nat \<Rightarrow> bool) \<Rightarrow> BerElement \<Rightarrow> octet list \<Rightarrow> int \<times> BerElement" where
  "ber_write avail ber data =
     (let p = write_cursor ber; len = length data;
          (rc, ber) = ber_room avail ber p len
      in if rc \<noteq> 0 then (- 1, ber)
         else (int len,
               (if ber_sos_ptr ber = None then ber\<lparr>ber_ptr := p + len\<rparr> else ber\<lparr>ber_sos_ptr := Some (p + len)\<rparr>)
                 \<lparr>ber_buf := poke p data (ber_buf ber)\<rparr>))"

text \<open>Prepending a tag and a length to the octets that follow them.\<close>

fun ber_prepend_tag :: "octet list \<Rightarrow> nat \<Rightarrow> octet list" where
  "ber_prepend_tag ptr tag =
     (let ptr = of_nat tag # ptr in if tag div 256 \<noteq> 0 then ber_prepend_tag ptr (tag div 256) else ptr)"

fun prepend_len_octets :: "octet list \<Rightarrow> nat \<Rightarrow> octet list" where
  "prepend_len_octets ptr len = (if len = 0 then ptr else prepend_len_octets (of_nat len # ptr) (len div 256))"

definition ber_prepend_len :: "octet list \<Rightarrow> nat \<Rightarrow> octet list" where
  "ber_prepend_len ptr len =
     (if len \<ge> 0x80
      then let p = prepend_len_octets (of_nat len # ptr) (len div 256)
           in of_nat (length p - length ptr + 0x80) # p
      else of_nat len # ptr)"

text \<open>The octets of an integer, least significant first into what is already there.\<close>

fun int_octets :: "octet \<Rightarrow> nat \<Rightarrow> octet list \<Rightarrow> octet list" where
  "int_octets sign unum ptr =
     (let ptr = (sign XOR of_nat unum) # ptr in if unum < 0x80 then ptr else int_octets sign (unum div 256) ptr)"

definition ber_put_int_or_enum :: "(nat \<Rightarrow> bool) \<Rightarrow> BerElement \<Rightarrow> int \<Rightarrow> nat \<Rightarrow> int \<times> BerElement" where
  "ber_put_int_or_enum avail ber num tag =
     (let sign = (if num < 0 then 0xff else 0);
          unum = (if num < 0 then nat (- num - 1) else nat num);
          data = int_octets sign unum []
      in ber_write avail ber (ber_prepend_tag (of_nat (length data) # data) tag))"

definition default_tag :: "nat \<Rightarrow> nat \<Rightarrow> nat" where
  "default_tag tag d = (if tag = LBER_DEFAULT then d else tag)"

definition ber_put_enum :: "(nat \<Rightarrow> bool) \<Rightarrow> BerElement \<Rightarrow> int \<Rightarrow> nat \<Rightarrow> int \<times> BerElement" where
  "ber_put_enum avail ber num tag = ber_put_int_or_enum avail ber num (default_tag tag LBER_ENUMERATED)"

definition ber_put_int :: "(nat \<Rightarrow> bool) \<Rightarrow> BerElement \<Rightarrow> int \<Rightarrow> nat \<Rightarrow> int \<times> BerElement" where
  "ber_put_int avail ber num tag = ber_put_int_or_enum avail ber num (default_tag tag LBER_INTEGER)"

text \<open>A header, then the contents.\<close>

definition write_both :: "(nat \<Rightarrow> bool) \<Rightarrow> BerElement \<Rightarrow> octet list \<Rightarrow> octet list \<Rightarrow> int \<times> BerElement" where
  "write_both avail ber header str =
     (let (rc, ber) = ber_write avail ber header
      in if rc \<ge> 0
         then let (rc2, ber) = ber_write avail ber str in if rc2 \<ge> 0 then (rc + int (length str), ber) else (- 1, ber)
         else (- 1, ber))"

definition ber_put_ostring :: "(nat \<Rightarrow> bool) \<Rightarrow> BerElement \<Rightarrow> octet list \<Rightarrow> nat \<Rightarrow> int \<times> BerElement" where
  "ber_put_ostring avail ber str tag =
     (let tag = default_tag tag LBER_OCTETSTRING
      in if length str > MAXINT_BERSIZE then (- 1, ber)
         else write_both avail ber (ber_prepend_tag (ber_prepend_len [] (length str)) tag) str)"

definition ber_put_berval :: "(nat \<Rightarrow> bool) \<Rightarrow> BerElement \<Rightarrow> octet list option \<Rightarrow> nat \<Rightarrow> int \<times> BerElement" where
  "ber_put_berval avail ber b tag =
     (if b = None \<or> b = Some [] then ber_put_ostring avail ber [] tag
      else ber_put_ostring avail ber (the b) tag)"

definition ber_put_string :: "(nat \<Rightarrow> bool) \<Rightarrow> BerElement \<Rightarrow> octet list \<Rightarrow> nat \<Rightarrow> int \<times> BerElement" where
  "ber_put_string avail ber str tag = ber_put_ostring avail ber (takeWhile (\<lambda>c. c \<noteq> 0) str) tag"

text \<open>The bits are the first \<open>blen\<close> of \<open>str\<close>; \<open>None\<close> is reading past the end of \<open>str\<close>.\<close>

definition ber_put_bitstring :: "(nat \<Rightarrow> bool) \<Rightarrow> BerElement \<Rightarrow> octet list \<Rightarrow> nat \<Rightarrow> nat \<Rightarrow> (int \<times> BerElement) option" where
  "ber_put_bitstring avail ber str blen tag =
     (let tag = default_tag tag LBER_BITSTRING;
          unusedbits = (8 - blen mod 8) mod 8;
          len = blen div 8 + (if unusedbits \<noteq> 0 then 1 else 0)
      in if len \<ge> MAXINT_BERSIZE then Some (- 1, ber)
         else if length str < len then None
         else Some (write_both avail ber
                (ber_prepend_tag (ber_prepend_len [of_nat unusedbits] (len + 1)) tag) (take len str)))"

definition ber_put_null :: "(nat \<Rightarrow> bool) \<Rightarrow> BerElement \<Rightarrow> nat \<Rightarrow> int \<times> BerElement" where
  "ber_put_null avail ber tag = ber_write avail ber (ber_prepend_tag [0] (default_tag tag LBER_NULL))"

definition ber_put_boolean :: "(nat \<Rightarrow> bool) \<Rightarrow> BerElement \<Rightarrow> int \<Rightarrow> nat \<Rightarrow> int \<times> BerElement" where
  "ber_put_boolean avail ber boolval tag =
     ber_write avail ber (ber_prepend_tag [1, if boolval \<noteq> 0 then 0xff else 0] (default_tag tag LBER_BOOLEAN))"

text \<open>The header of an open sequence keeps, where its length will be, the length of its tag and the offset
  of the enclosing sequence, as the four octets of an integer in memory.\<close>

definition u32_octets :: "nat \<Rightarrow> octet list" where
  "u32_octets n = [of_nat n, of_nat (n div 256), of_nat (n div 256 ^ 2), of_nat (n div 256 ^ 3)]"

definition octets_u32 :: "octet list \<Rightarrow> nat" where
  "octets_u32 xs = unat (xs ! 0) + 256 * unat (xs ! 1) + 256 ^ 2 * unat (xs ! 2) + 256 ^ 3 * unat (xs ! 3)"

definition ber_start_seqorset :: "(nat \<Rightarrow> bool) \<Rightarrow> BerElement \<Rightarrow> nat \<Rightarrow> int \<times> BerElement" where
  "ber_start_seqorset avail ber tag =
     (if ber_sos_ptr ber \<noteq> None \<and> ber_sos_inner ber > 2 ^ 32 - 1 then (- 1, ber)
      else let offset = (if ber_sos_ptr ber = None then 0 else ber_sos_inner ber);
               p = write_cursor ber;
               tagbuf = ber_prepend_tag [] tag;
               taglen = length tagbuf;
               header = tagbuf @ of_nat taglen # u32_octets offset;
               headlen = taglen + SOS_LENLEN;
               (rc, ber) = ber_room avail ber p headlen
           in if rc \<noteq> 0 then (- 1, ber)
              else (0, ber\<lparr>ber_buf := poke p header (ber_buf ber), ber_sos_ptr := Some (p + headlen),
                           ber_sos_inner := p + taglen\<rparr>))"

definition ber_start_seq :: "(nat \<Rightarrow> bool) \<Rightarrow> BerElement \<Rightarrow> nat \<Rightarrow> int \<times> BerElement" where
  "ber_start_seq avail ber tag = ber_start_seqorset avail ber (default_tag tag LBER_SEQUENCE)"

definition ber_start_set :: "(nat \<Rightarrow> bool) \<Rightarrow> BerElement \<Rightarrow> nat \<Rightarrow> int \<times> BerElement" where
  "ber_start_set avail ber tag = ber_start_seqorset avail ber (default_tag tag LBER_SET)"

text \<open>The fixed form of the length, four octets, most significant first.\<close>

definition long_len :: "nat \<Rightarrow> octet list" where
  "long_len len = [of_nat (SOS_LENLEN - 1 + 0x80), of_nat (len div 256 ^ 3), of_nat (len div 256 ^ 2), of_nat (len div 256), of_nat len]"

text \<open>Closing a sequence. What is left in the buffer after the write cursor is never read and not kept track of.\<close>

definition ber_put_seqorset :: "BerElement \<Rightarrow> int \<times> BerElement" where
  "ber_put_seqorset ber =
     (case ber_sos_ptr ber of
        None \<Rightarrow> (- 1, ber)
      | Some sos \<Rightarrow>
          let lenptr = ber_sos_inner ber; xlen = sos - lenptr in
          if xlen > MAXINT_BERSIZE + SOS_LENLEN then (- 1, ber)
          else let taglen = unat (ber_buf ber ! lenptr);
                   offset = octets_u32 (drop (lenptr + 1) (ber_buf ber));
                   len = xlen - SOS_LENLEN;
                   contents = take len (drop (lenptr + SOS_LENLEN) (ber_buf ber));
                   lenbuf = (if use_der ber then ber_prepend_len [] len else long_len len);
                   xlen = length lenbuf + len;
                   ber = ber\<lparr>ber_buf := poke lenptr (lenbuf @ contents) (ber_buf ber), ber_sos_ptr := Some (lenptr + xlen),
                             ber_sos_inner := offset\<rparr>;
                   ber = (if offset = 0 then ber\<lparr>ber_ptr := the (ber_sos_ptr ber), ber_sos_ptr := None\<rparr> else ber)
               in (int (xlen + taglen), ber))"

definition ber_put_seq :: "BerElement \<Rightarrow> int \<times> BerElement" where
  "ber_put_seq ber = ber_put_seqorset ber"

definition ber_put_set :: "BerElement \<Rightarrow> int \<times> BerElement" where
  "ber_put_set ber = ber_put_seqorset ber"

text \<open>The finished buffer: \<open>None\<close> is the octet after the end of the allocation being written.\<close>

definition ber_flatten2 :: "(nat \<Rightarrow> bool) \<Rightarrow> BerElement option \<Rightarrow> bool \<Rightarrow> (int \<times> octet list option) option" where
  "ber_flatten2 avail ber alloc =
     (case ber of
        None \<Rightarrow> Some (0, None)
      | Some ber \<Rightarrow>
          if ber_sos_ptr ber \<noteq> None then Some (- 1, None)
          else let len = ber_ptr ber in
               if alloc then if avail (len + 1) then Some (0, Some (take len (ber_buf ber))) else Some (- 1, None)
               else if ber_end ber = 0 then Some (0, Some [])
               else do { ensure (len < ber_end ber); Some (0, Some (take len (ber_buf ber))) })"

definition ber_reset :: "BerElement \<Rightarrow> bool \<Rightarrow> BerElement" where
  "ber_reset ber was_writing =
     (if was_writing then ber\<lparr>ber_end := ber_ptr ber, ber_ptr := 0\<rparr> else ber\<lparr>ber_ptr := ber_end ber\<rparr>)"


text \<open>The arguments of \<^verbatim>\<open>ber_printf\<close>; a format that asks for an argument of another type is \<open>None\<close>.\<close>

datatype ber_arg =
    ArgHook "BerElement \<Rightarrow> int \<times> BerElement"
  | ArgInt int
  | ArgOctets "octet list"
  | ArgBerval "octet list option"
  | ArgBits "octet list" nat
  | ArgTag nat
  | ArgVector "octet list list option"

fun put_vector :: "(BerElement \<Rightarrow> octet list \<Rightarrow> int \<times> BerElement) \<Rightarrow> int \<Rightarrow> BerElement \<Rightarrow> octet list list \<Rightarrow> int \<times> BerElement" where
  "put_vector put rc ber [] = (rc, ber)"
| "put_vector put rc ber (s # ss) = (let (rc, ber) = put ber s in if rc = - 1 then (rc, ber) else put_vector put rc ber ss)"

text \<open>One letter of the format: the result, the element, whether the tag is reset, and the arguments left.\<close>

definition printf_item :: "(nat \<Rightarrow> bool) \<Rightarrow> int \<Rightarrow> BerElement \<Rightarrow> char \<Rightarrow> ber_arg list \<Rightarrow> ((int \<times> BerElement) \<times> bool \<times> ber_arg list) option" where
  "printf_item avail rc ber c args =
     (let tag = ber_tag ber in
      if c = CHR 0x21 then
        (case args of ArgHook f # as \<Rightarrow>
           let (rc, ber) = f (ber\<lparr>ber_usertag := 0\<rparr>) in Some ((rc, ber), ber_usertag ber = 0, as) | _ \<Rightarrow> None)
      else if c = CHR ''b'' then
        (case args of ArgInt i # as \<Rightarrow> Some (ber_put_boolean avail ber i tag, True, as) | _ \<Rightarrow> None)
      else if c = CHR ''i'' then
        (case args of ArgInt i # as \<Rightarrow> Some (ber_put_int avail ber i tag, True, as) | _ \<Rightarrow> None)
      else if c = CHR ''e'' then
        (case args of ArgInt i # as \<Rightarrow> Some (ber_put_enum avail ber i tag, True, as) | _ \<Rightarrow> None)
      else if c = CHR ''n'' then Some (ber_put_null avail ber tag, True, args)
      else if c = CHR ''N'' then Some ((0, ber), True, args)
      else if c = CHR ''o'' then
        (case args of ArgOctets s # as \<Rightarrow> Some (ber_put_ostring avail ber s tag, True, as) | _ \<Rightarrow> None)
      else if c = CHR ''O'' then
        (case args of ArgBerval b # as \<Rightarrow>
           Some (if b = None then (rc, ber) else ber_put_berval avail ber b tag, True, as) | _ \<Rightarrow> None)
      else if c = CHR ''s'' then
        (case args of ArgOctets s # as \<Rightarrow> Some (ber_put_string avail ber s tag, True, as) | _ \<Rightarrow> None)
      else if c = CHR ''B'' \<or> c = CHR ''X'' then
        (case args of ArgBits s n # as \<Rightarrow> map_option (\<lambda>r. (r, True, as)) (ber_put_bitstring avail ber s n tag) | _ \<Rightarrow> None)
      else if c = CHR ''t'' then
        (case args of ArgTag t # as \<Rightarrow> Some ((rc, ber\<lparr>ber_tag := t\<rparr>), False, as) | _ \<Rightarrow> None)
      else if c = CHR ''v'' then
        (case args of ArgVector v # as \<Rightarrow>
           Some (case v of None \<Rightarrow> (rc, ber)
                 | Some ss \<Rightarrow> put_vector (\<lambda>ber s. ber_put_string avail ber s tag) rc ber ss, True, as) | _ \<Rightarrow> None)
      else if c = CHR ''V'' \<or> c = CHR ''W'' then
        (case args of ArgVector v # as \<Rightarrow>
           Some (case v of None \<Rightarrow> (rc, ber)
                 | Some ss \<Rightarrow> put_vector (\<lambda>ber s. ber_put_berval avail ber (Some s) tag) rc ber ss, True, as) | _ \<Rightarrow> None)
      else if c = CHR 0x7B then Some (ber_start_seq avail ber tag, True, args)
      else if c = CHR 0x5B then Some (ber_start_set avail ber tag, True, args)
      else if c = CHR 0x7D \<or> c = CHR 0x5D then Some (ber_put_seqorset ber, True, args)
      else Some ((- 1, ber), True, args))"

fun ber_printf_loop :: "(nat \<Rightarrow> bool) \<Rightarrow> int \<Rightarrow> BerElement \<Rightarrow> string \<Rightarrow> ber_arg list \<Rightarrow> (int \<times> BerElement) option" where
  "ber_printf_loop avail rc ber [] args = Some (rc, ber)"
| "ber_printf_loop avail rc ber (c # fmt) args =
     (if rc = - 1 then Some (rc, ber)
      else do {
        ((rc, ber), reset, args) \<leftarrow> printf_item avail rc ber c args;
        ber_printf_loop avail rc (if reset then ber\<lparr>ber_tag := LBER_DEFAULT\<rparr> else ber) fmt args })"

definition ber_printf :: "(nat \<Rightarrow> bool) \<Rightarrow> BerElement \<Rightarrow> string \<Rightarrow> ber_arg list \<Rightarrow> (int \<times> BerElement) option" where
  "ber_printf avail ber fmt args = ber_printf_loop avail 0 ber fmt args"

section \<open>Octets and numbers\<close>

text \<open>The number a list of octets stands for, most significant first.\<close>

definition be :: "octet list \<Rightarrow> nat" where
  "be xs = foldl (\<lambda>n b. n * 256 + unat b) 0 xs"

lemma unat_octet [simp]: "unat (of_nat n :: octet) = n mod 256"
  by (simp add: unat_of_nat)

lemma unat_octet_less [simp]: "unat (b :: octet) < 256"
  using unsigned_less [of b, where ?'a = nat] by simp

lemma octet_unat [simp]: "(of_nat (unat b) :: octet) = b"
  by simp

lemma be_Nil [simp]: "be [] = 0"
  by (simp add: be_def)

lemma be_snoc [simp]: "be (xs @ [b]) = be xs * 256 + unat b"
  by (simp add: be_def)

lemma be_append: "be (xs @ ys) = be xs * 256 ^ length ys + be ys"
proof (induction ys rule: rev_induct)
  case (snoc y ys)
  have "be (xs @ ys @ [y]) = be (xs @ ys) * 256 + unat y" using be_snoc [of "xs @ ys"] by simp
  then show ?case by (simp add: snoc algebra_simps)
qed simp

lemma be_Cons: "be (b # xs) = unat b * 256 ^ length xs + be xs"
  using be_append [of "[b]" xs] be_snoc [of "[]" b] by simp

lemma be_bound: "be xs < 256 ^ length xs"
proof (induction xs rule: rev_induct)
  case (snoc x xs)
  have "be xs * 256 + unat x < (be xs + 1) * 256" using unat_octet_less [of x] by simp
  also have "\<dots> \<le> 256 ^ length xs * 256" using snoc by (intro mult_right_mono) auto
  finally show ?case by simp
qed simp

lemma of_nat_mod256: "(of_nat (n mod 256) :: octet) = of_nat n"
  by (simp add: word_eq_iff_unsigned [where ?'a = nat])

text \<open>Prepending a tag or a length prepends the octets of the number.\<close>

fun octets :: "nat \<Rightarrow> octet list" where
  "octets n = (if n = 0 then [] else octets (n div 256) @ [of_nat n])"

declare octets.simps [simp del] ber_prepend_tag.simps [simp del] prepend_len_octets.simps [simp del] int_octets.simps [simp del]

lemma octets_0 [simp]: "octets 0 = []"
  by (simp add: octets.simps)

lemma be_octets [simp]: "be (octets n) = n"
  by (induction n rule: octets.induct) (subst octets.simps, simp)

lemma length_octets: "n < 256 ^ k \<Longrightarrow> length (octets n) \<le> k"
proof (induction k arbitrary: n)
  case (Suc k)
  then have "n div 256 < 256 ^ k" by (simp add: less_mult_imp_div_less mult.commute)
  with Suc.IH [of "n div 256"] show ?case by (subst octets.simps) simp
qed simp

lemma hd_octets: "n \<noteq> 0 \<Longrightarrow> octets n \<noteq> [] \<and> hd (octets n) \<noteq> 0"
proof (induction n rule: octets.induct)
  case (1 n)
  show ?case
  proof (cases "n div 256 = 0")
    case True
    then have "n mod 256 = n" by simp
    then have "(of_nat n :: octet) \<noteq> 0" using 1(2) unat_octet [of n] by (metis unat_0)
    then show ?thesis using 1(2) True by (subst (1 2) octets.simps) simp
  next
    case False
    then show ?thesis using 1 by (subst (1 2) octets.simps) simp
  qed
qed

lemma prepend_len_octets: "prepend_len_octets ptr n = octets n @ ptr"
proof (induction ptr n rule: prepend_len_octets.induct)
  case (1 ptr n) then show ?case by (subst prepend_len_octets.simps, subst octets.simps) simp
qed

lemma prepend_tag: "ber_prepend_tag ptr tag = (if tag = 0 then [0] else octets tag) @ ptr"
proof (induction ptr tag rule: ber_prepend_tag.induct)
  case (1 ptr tag) then show ?case by (subst ber_prepend_tag.simps, subst octets.simps) (auto simp: Let_def)
qed

definition tag_octets :: "nat \<Rightarrow> octet list" where
  "tag_octets tag = ber_prepend_tag [] tag"

definition len_octets :: "nat \<Rightarrow> octet list" where
  "len_octets len = ber_prepend_len [] len"

lemma prepend_tag_append: "ber_prepend_tag ptr tag = tag_octets tag @ ptr"
  by (simp add: tag_octets_def prepend_tag)

lemma be_tag_octets: "be (tag_octets tag) = tag"
  using be_snoc [of "[]" 0] by (simp add: tag_octets_def prepend_tag)

lemma length_tag_octets: "tag < 2 ^ 64 \<Longrightarrow> length (tag_octets tag) \<le> TAGBUF_SIZE" "tag_octets tag \<noteq> []"
  using length_octets [of tag 8] hd_octets [of tag] by (auto simp: tag_octets_def prepend_tag TAGBUF_SIZE_def)

lemma prepend_len_append: "ber_prepend_len ptr len = len_octets len @ ptr"
  by (simp add: ber_prepend_len_def len_octets_def prepend_len_octets Let_def)

lemma len_octets_cases:
  "len_octets len = (if len < 0x80 then [of_nat len] else of_nat (0x80 + length (octets len)) # octets len)"
  using octets.simps [of len] by (simp add: len_octets_def ber_prepend_len_def prepend_len_octets Let_def add.commute)

lemma length_len_octets:
  assumes "len < 2 ^ 31" shows "length (len_octets len) \<le> SOS_LENLEN"
  using length_octets [of len 4] assms by (simp add: len_octets_cases SOS_LENLEN_def)


text \<open>Integers in two's complement, as \<^verbatim>\<open>ber_decode_int\<close> reads them.\<close>

definition twos :: "octet list \<Rightarrow> int" where
  "twos xs = foldl (\<lambda>n b. n * 256 + int (unat b)) (int (unat (hd xs)) - (if unat (hd xs) < 128 then 0 else 256)) (tl xs)"

lemma foldl_be: "foldl (\<lambda>n b. n * 256 + int (unat b)) a xs = a * 256 ^ length xs + int (be xs)"
  by (induction xs rule: rev_induct) (simp_all add: algebra_simps)

lemma twos_be: "xs \<noteq> [] \<Longrightarrow> twos xs = int (be xs) - (if unat (hd xs) < 128 then 0 else 256 ^ length xs)"
  unfolding twos_def foldl_be by (cases xs) (auto simp: be_Cons algebra_simps)

lemma complement_octet: "(a + b) mod 256 = (255 :: nat) \<Longrightarrow> a < 256 \<Longrightarrow> b < 256 \<Longrightarrow> a = 255 - b"
  by (cases "a + b < 256") (simp_all add: le_mod_geq)

lemma unat_not_octet: "unat (0xFF XOR b :: octet) = 255 - unat b"
proof -
  have "(0xFF :: octet) = - 1" by simp
  then have "0xFF XOR b = NOT b" by (simp only: bit.xor_one_left)
  moreover have "NOT b = - b - 1" by (simp add: not_eq_complement)
  ultimately have "(0xFF XOR b) + b = 0xFF" by simp
  then have "unat ((0xFF XOR b) + b) = unat (0xFF :: octet)" by (rule arg_cong)
  then have "unat ((0xFF XOR b) + b) = 255" by simp
  then have "(unat (0xFF XOR b) + unat b) mod 256 = 255" by (simp add: unat_word_ariths)
  then show ?thesis using complement_octet unat_octet_less by blast
qed


lemma int_octets_append: "int_octets sign n ptr = int_octets sign n [] @ ptr"
proof (induction n arbitrary: ptr rule: less_induct)
  case (less n)
  show ?case
  proof (cases "n < 128")
    case True then show ?thesis by (subst (1 2) int_octets.simps) simp
  next
    case False
    then have "n div 256 < n" by simp
    then show ?thesis
      using False less [of "n div 256" "(sign XOR of_nat n) # ptr"] less [of "n div 256" "[sign XOR of_nat n]"]
      by (subst (1 2) int_octets.simps) (simp add: Let_def)
  qed
qed

lemma int_octets_rec: "int_octets sign n [] = (if n < 128 then [] else int_octets sign (n div 256) []) @ [sign XOR of_nat n]"
  by (subst int_octets.simps) (simp add: Let_def int_octets_append [of _ _ "[_]"])

lemma int_octets_nonneg: "be (int_octets 0 n []) = n \<and> unat (hd (int_octets 0 n [])) < 128 \<and> int_octets 0 n [] \<noteq> []"
proof (induction n rule: less_induct)
  case (less n)
  show ?case
  proof (cases "n < 128")
    case True then show ?thesis using be_snoc [of "[]"] by (simp add: int_octets_rec)
  next
    case False
    then show ?thesis using less [of "n div 256"] by (subst (1 2 3) int_octets_rec) simp
  qed
qed

lemma int_octets_neg:
  "be (int_octets 0xFF n []) + n + 1 = 256 ^ length (int_octets 0xFF n []) \<and> 128 \<le> unat (hd (int_octets 0xFF n [])) \<and> int_octets 0xFF n [] \<noteq> []"
proof (induction n rule: less_induct)
  case (less n)
  show ?case
  proof (cases "n < 128")
    case True then show ?thesis using be_snoc [of "[]"] by (simp add: int_octets_rec unat_not_octet)
  next
    case False
    let ?xs = "int_octets 0xFF (n div 256) []"
    have ih: "be ?xs + n div 256 + 1 = 256 ^ length ?xs" "128 \<le> unat (hd ?xs)" "?xs \<noteq> []"
      using less [of "n div 256"] False by auto
    have "256 * be ?xs + 256 * (n div 256) + 256 = 256 * 256 ^ length ?xs" using ih(1) by (simp flip: ih(1))
    moreover have "n = 256 * (n div 256) + n mod 256" "n mod 256 < 256" by simp_all
    ultimately have "be ?xs * 256 + (255 - n mod 256) + n + 1 = 256 * 256 ^ length ?xs" by linarith
    moreover have "int_octets 0xFF n [] = ?xs @ [0xFF XOR of_nat n]" using False int_octets_rec [of "0xFF" n] by simp
    moreover have "n mod 256 < 256" by simp
    ultimately show ?thesis using ih by (simp add: unat_not_octet del: mod_less_divisor)
  qed
qed

lemma length_int_octets: "n < 128 * 256 ^ k \<Longrightarrow> length (int_octets sign n []) \<le> Suc k"
proof (induction k arbitrary: n)
  case 0 then show ?case by (simp add: int_octets_rec)
next
  case (Suc k)
  then have "n div 256 < 128 * 256 ^ k" by (simp add: less_mult_imp_div_less mult.commute)
  then show ?case using Suc.IH [of "n div 256"] by (subst int_octets_rec) simp
qed

text \<open>The contents of an integer element.\<close>

definition int_contents :: "int \<Rightarrow> octet list" where
  "int_contents num = (if num < 0 then int_octets 0xff (nat (- num - 1)) [] else int_octets 0 (nat num) [])"

lemma twos_int_contents: "twos (int_contents num) = num"
proof (cases "num < 0")
  case True
  let ?xs = "int_octets 0xFF (nat (- num - 1)) []"
  have "int (256 ^ length ?xs) = int (be ?xs + nat (- num - 1) + 1)" using int_octets_neg [of "nat (- num - 1)"] by simp
  then show ?thesis using True int_octets_neg [of "nat (- num - 1)"] by (simp add: int_contents_def twos_be)
next
  case False
  then show ?thesis using int_octets_nonneg [of "nat num"] by (simp add: int_contents_def twos_be)
qed

lemma length_int_contents:
  assumes "- (2 ^ 31) \<le> num" "num < 2 ^ 31"
  shows "length (int_contents num) \<le> 4" "int_contents num \<noteq> []"
  using length_int_octets [of "nat num" 3 0] length_int_octets [of "nat (- num - 1)" 3 "0xFF"] assms
    int_octets_nonneg [of "nat num"] int_octets_neg [of "nat (- num - 1)"]
  by (auto simp: int_contents_def)

lemma put_int_or_enum_write:
  "ber_put_int_or_enum avail ber num tag = ber_write avail ber (tag_octets tag @ of_nat (length (int_contents num)) # int_contents num)"
  by (simp add: ber_put_int_or_enum_def int_contents_def prepend_tag_append Let_def)


section \<open>The writer as a stack of open elements\<close>

text \<open>An abstract writer: the finished octets, and for each open sequence, innermost first, the octets of
  its tag and of its contents so far.\<close>

type_synonym open_elems = "(octet list \<times> octet list) list"

fun emit :: "octet list \<Rightarrow> octet list \<times> open_elems \<Rightarrow> octet list \<times> open_elems" where
  "emit x (d, []) = (d @ x, [])"
| "emit x (d, (t, c) # st) = (d, (t, c @ x) # st)"

text \<open>What the buffer holds for it: every open sequence has its tag, the reserved octets and its contents.\<close>

fun sos_octets :: "octet list \<Rightarrow> open_elems \<Rightarrow> octet list" and sos_offset :: "octet list \<Rightarrow> open_elems \<Rightarrow> nat" where
  "sos_octets d [] = d"
| "sos_octets d ((t, c) # st) = sos_octets d st @ t @ of_nat (length t) # u32_octets (sos_offset d st) @ c"
| "sos_offset d [] = 0"
| "sos_offset d ((t, c) # st) = length (sos_octets d st) + length t"

fun open_ok :: "octet list \<Rightarrow> open_elems \<Rightarrow> bool" where
  "open_ok d [] = True"
| "open_ok d ((t, c) # st) = (t \<noteq> [] \<and> length t \<le> TAGBUF_SIZE \<and> sos_offset d st < 2 ^ 32 \<and> open_ok d st)"

definition writer :: "BerElement \<Rightarrow> octet list \<times> open_elems \<Rightarrow> bool" where
  "writer ber a \<longleftrightarrow> (case a of (d, st) \<Rightarrow>
     ber_ptr ber = length d \<and> ber_sos_ptr ber = (if st = [] then None else Some (length (sos_octets d st))) \<and>
     take (length (sos_octets d st)) (ber_buf ber) = sos_octets d st \<and> ber_sos_inner ber = sos_offset d st \<and>
     length (sos_octets d st) \<le> ber_end ber \<and> ber_end ber < 2 ^ 63 \<and> open_ok d st)"

lemma sos_octets_emit: "emit x (d, st) = (d', st') \<Longrightarrow> sos_octets d' st' = sos_octets d st @ x"
  by (cases st) auto

lemma emit_ok:
  "emit x (d, st) = (d', st') \<Longrightarrow> open_ok d' st' = open_ok d st \<and> sos_offset d' st' = sos_offset d st
    \<and> (st' = [] \<longleftrightarrow> st = []) \<and> length d' = length d + (if st = [] then length x else 0)"
  by (cases st) auto

lemma emit_emit: "emit y (emit x a) = emit (x @ y) a"
  by (cases "(x, a)" rule: emit.cases) auto

lemma take_poke: "p \<le> length buf \<Longrightarrow> take (p + length x) (poke p x buf) = take p buf @ x"
  by (simp add: poke_def)

lemma write_cursor_writer: "writer ber (d, st) \<Longrightarrow> write_cursor ber = length (sos_octets d st)"
  by (cases st) (auto simp: writer_def write_cursor_def)

lemma writer_length: "writer ber (d, st) \<Longrightarrow> length (sos_octets d st) \<le> length (ber_buf ber)"
  by (simp add: writer_def) (metis length_take min.cobounded1)

lemma realloc_end:
  assumes "len < 2 ^ 64 - 1" "ber_end ber < 2 ^ 63"
  shows "ber_realloc avail ber len = (- 1, ber) \<or>
    (\<exists>total. ber_realloc avail ber len = (0, ber\<lparr>ber_end := total\<rparr>) \<and> ber_end ber + len < total \<and> total < 2 ^ 63 \<and> avail total)"
proof -
  let ?n = "ber_end ber + (if len + 1 < 4060 then 4060 else len + 1)"
  have "?n mod 2 ^ 64 = ?n \<or> ?n mod 2 ^ 64 < len + 1"
  proof (cases "?n < 2 ^ 64")
    case False
    then have "?n mod 2 ^ 64 = ?n - 2 ^ 64" using assms by (subst le_mod_geq) auto
    then show ?thesis using assms by (auto split: if_splits)
  qed simp
  moreover have "(len + 1) mod 2 ^ 64 = len + 1" using assms by simp
  ultimately show ?thesis
  proof (cases "?n mod 2 ^ 64 < len + 1 \<or> ?n mod 2 ^ 64 > (2 ^ 64 - 1) div 2 \<or> \<not> avail (?n mod 2 ^ 64)")
    case True
    then show ?thesis using \<open>(len + 1) mod 2 ^ 64 = len + 1\<close> by (auto simp: ber_realloc_def Let_def)
  next
    case False
    moreover from this have "?n mod 2 ^ 64 = ?n" using \<open>?n mod 2 ^ 64 = ?n \<or> _\<close> by blast
    ultimately have "ber_realloc avail ber len = (0, ber\<lparr>ber_end := ?n\<rparr>)" "ber_end ber + len < ?n" "?n < 2 ^ 63" "avail ?n"
      using \<open>(len + 1) mod 2 ^ 64 = len + 1\<close> by (auto simp: ber_realloc_def Let_def)
    then show ?thesis by blast
  qed
qed

text \<open>Making room for \<open>len\<close> octets.\<close>

lemma room:
  assumes "writer ber (d, st)" "len < 2 ^ 64 - 1"
    and "ber_room avail ber (length (sos_octets d st)) len = (rc, ber')"
  shows "rc = 0 \<and> (\<exists>e. ber' = ber\<lparr>ber_end := e\<rparr> \<and> length (sos_octets d st) + len \<le> e \<and> e < 2 ^ 63) \<or> rc = - 1 \<and> ber' = ber"
proof -
  have "length (sos_octets d st) \<le> ber_end ber" "ber_end ber < 2 ^ 63" using assms(1) by (auto simp: writer_def)
  moreover have "ber = ber\<lparr>ber_end := ber_end ber\<rparr>" by simp
  ultimately show ?thesis
  proof (cases "len > ber_end ber - length (sos_octets d st)")
    case True
    then show ?thesis
      using assms(2,3) realloc_end [of len ber avail] \<open>length _ \<le> _\<close> \<open>ber_end ber < _\<close> by (auto simp: ber_room_def)
  next
    case False
    then have "rc = 0" "ber' = ber\<lparr>ber_end := ber_end ber\<rparr>" "length (sos_octets d st) + len \<le> ber_end ber"
      using assms(3) \<open>length _ \<le> _\<close> by (auto simp: ber_room_def)
    then show ?thesis using \<open>ber_end ber < _\<close> by blast
  qed
qed

lemma ber_write_writer:
  assumes w: "writer ber a" and len: "length x < 2 ^ 64 - 1" and run: "ber_write avail ber x = (rc, ber')"
  shows "rc = int (length x) \<and> writer ber' (emit x a) \<and> use_der ber' = use_der ber \<and> ber_tag ber' = ber_tag ber
    \<or> rc = - 1 \<and> ber' = ber"
proof -
  obtain d st d' st' where a: "a = (d, st)" "emit x a = (d', st')" by (metis surj_pair)
  let ?p = "length (sos_octets d st)"
  obtain r b where rb: "ber_room avail ber ?p (length x) = (r, b)"
    by (metis surj_pair)
  have p: "write_cursor ber = ?p" "?p \<le> length (ber_buf ber)" using w write_cursor_writer writer_length by (auto simp: a)
  have e: "sos_octets d' st' = sos_octets d st @ x" using sos_octets_emit a by auto
  note ok = emit_ok [of x d st d' st']
  from room [OF w [unfolded a(1)] len rb] show ?thesis
  proof
    assume "r = - 1 \<and> b = ber" then show ?thesis using run rb p by (simp add: ber_write_def Let_def split: if_splits)
  next
    assume r: "r = 0 \<and> (\<exists>e. b = ber\<lparr>ber_end := e\<rparr> \<and> ?p + length x \<le> e \<and> e < 2 ^ 63)"
    then obtain m where m: "b = ber\<lparr>ber_end := m\<rparr>" "?p + length x \<le> m" "m < 2 ^ 63" by blast
    have run': "rc = int (length x)" "ber' = (if ber_sos_ptr b = None then b\<lparr>ber_ptr := ?p + length x\<rparr> else b\<lparr>ber_sos_ptr := Some (?p + length x)\<rparr>)
        \<lparr>ber_buf := poke ?p x (ber_buf b)\<rparr>"
      using run rb r p by (auto simp: ber_write_def Let_def split: if_splits prod.splits)
    have "take (?p + length x) (poke ?p x (ber_buf ber)) = sos_octets d st @ x"
      using take_poke [OF p(2)] w by (simp add: writer_def a)
    then have "writer ber' (d', st')"
      using w m e ok a run'(2) by (cases "st = []") (auto simp: writer_def)
    then show ?thesis using run' m a by simp
  qed
qed


text \<open>A writer that stays below \<open>M\<close> octets never lacks room when the allocator always delivers.\<close>

definition roomy :: "nat \<Rightarrow> (nat \<Rightarrow> bool) \<Rightarrow> BerElement \<Rightarrow> bool" where
  "roomy M avail ber \<longleftrightarrow> (\<forall>n. avail n) \<and> M \<le> MAXINT_BERSIZE \<and> ber_end ber \<le> 2 * M + 4061"

definition fits :: "nat \<Rightarrow> (nat \<Rightarrow> bool) \<Rightarrow> BerElement \<Rightarrow> octet list \<times> open_elems \<Rightarrow> nat \<Rightarrow> bool" where
  "fits M avail ber a n \<longleftrightarrow> roomy M avail ber \<and> length (sos_octets (fst a) (snd a)) + n \<le> M"

lemma MAXINT_less: "n \<le> MAXINT_BERSIZE \<Longrightarrow> n < 2 ^ 31"
  by (simp add: MAXINT_BERSIZE_def HEADER_SIZE_def TAGBUF_SIZE_def LENBUF_SIZE_def)

lemma room_fits:
  assumes "fits M avail ber (d, st) len" "ber_room avail ber (length (sos_octets d st)) len = (rc, ber')"
  shows "rc = 0" "roomy M avail ber'"
proof -
  have M: "M < 2 ^ 31" "length (sos_octets d st) + len \<le> M" "\<forall>n. avail n" "M \<le> MAXINT_BERSIZE" "ber_end ber \<le> 2 * M + 4061"
    using assms(1) MAXINT_less by (auto simp: fits_def roomy_def)
  have "rc = 0 \<and> roomy M avail ber'"
  proof (cases "len > ber_end ber - length (sos_octets d st)")
    case True
    let ?n = "ber_end ber + (if len + 1 < 4060 then 4060 else len + 1)"
    have n: "?n \<le> 2 * M + 4061" using True M by auto
    then have "?n mod 2 ^ 64 = ?n" "(len + 1) mod 2 ^ 64 = len + 1" "\<not> ?n > (2 ^ 64 - 1) div 2" "\<not> ?n < len + 1" using M by auto
    then have "ber_realloc avail ber len = (0, ber\<lparr>ber_end := ?n\<rparr>)"
      unfolding ber_realloc_def Let_def by (simp only: M if_True if_False) simp
    then show ?thesis using assms(2) True n M by (auto simp: ber_room_def roomy_def)
  next
    case False
    then show ?thesis using assms by (auto simp: ber_room_def fits_def)
  qed
  then show "rc = 0" "roomy M avail ber'" by simp_all
qed

text \<open>A call that reports success has written exactly the octets \<open>x\<close>; with room it succeeds.\<close>

definition wrote :: "nat \<Rightarrow> (nat \<Rightarrow> bool) \<Rightarrow> octet list \<times> open_elems \<Rightarrow> octet list \<Rightarrow> BerElement \<Rightarrow> int \<times> BerElement \<Rightarrow> bool" where
  "wrote M avail a x ber r \<longleftrightarrow> (case r of (rc, ber') \<Rightarrow> rc = - 1 \<and> \<not> fits M avail ber a (length x) \<or>
     rc = int (length x) \<and> writer ber' (emit x a) \<and> use_der ber' = use_der ber \<and> ber_tag ber' = ber_tag ber \<and>
     (fits M avail ber a (length x) \<longrightarrow> roomy M avail ber'))"

lemma fits_emit: "fits M avail ber a (length x + n) \<Longrightarrow> roomy M avail b \<Longrightarrow> fits M avail b (emit x a) n"
  using sos_octets_emit [of x "fst a" "snd a"] by (cases "emit x a") (auto simp: fits_def)

lemma fits_mono: "fits M avail ber a n \<Longrightarrow> m \<le> n \<Longrightarrow> fits M avail ber a m"
  by (simp add: fits_def)

lemma ber_write_fits:
  assumes "writer ber a" "fits M avail ber a (length x)" "ber_write avail ber x = (rc, ber')"
  shows "rc = int (length x)" "roomy M avail ber'"
proof -
  obtain d st where a: "a = (d, st)" by (metis surj_pair)
  obtain r b where rb: "ber_room avail ber (length (sos_octets d st)) (length x) = (r, b)" by (metis surj_pair)
  have "write_cursor ber = length (sos_octets d st)" using assms(1) write_cursor_writer a by simp
  with room_fits [OF assms(2) [unfolded a] rb] assms(3) rb
  show "rc = int (length x)" "roomy M avail ber'" by (auto simp: ber_write_def Let_def roomy_def split: if_splits)
qed

lemma ber_write_wrote: "writer ber a \<Longrightarrow> length x < 2 ^ 64 - 1 \<Longrightarrow> wrote M avail a x ber (ber_write avail ber x)"
  using ber_write_writer [of ber a x avail] ber_write_fits [of ber a M avail x]
  by (cases "ber_write avail ber x") (auto simp: wrote_def)

definition element :: "nat \<Rightarrow> octet list \<Rightarrow> octet list" where
  "element tag c = tag_octets tag @ len_octets (length c) @ c"

lemma short_element: "length c < 128 \<Longrightarrow> element tag c = tag_octets tag @ of_nat (length c) # c"
  by (simp add: element_def len_octets_cases)

lemma fits_element: "fits M avail ber a (length (element tag c)) \<Longrightarrow> length c < MAXINT_BERSIZE"
  using length_tag_octets(2) [of tag] by (cases "tag_octets tag") (auto simp: fits_def roomy_def element_def len_octets_cases)

lemma default_tag_less: "tag < 2 ^ 64 \<Longrightarrow> d < 2 ^ 64 \<Longrightarrow> default_tag tag d < 2 ^ 64"
  by (simp add: default_tag_def)

lemma put_int_wrote:
  assumes "writer ber a" "tag < 2 ^ 64" "- (2 ^ 31) \<le> num" "num < 2 ^ 31"
  shows "wrote M avail a (element tag (int_contents num)) ber (ber_put_int_or_enum avail ber num tag)"
  using assms length_int_contents [of num] length_tag_octets(1) [of tag]
  by (auto simp: put_int_or_enum_write short_element TAGBUF_SIZE_def intro!: ber_write_wrote)

lemma write_both_wrote:
  assumes "writer ber a" "length h < 2 ^ 64 - 1" "length s < 2 ^ 64 - 1"
  shows "wrote M avail a (h @ s) ber (write_both avail ber h s)"
proof -
  obtain rc b where r: "ber_write avail ber h = (rc, b)" by (metis surj_pair)
  obtain rc2 b2 where r2: "ber_write avail b s = (rc2, b2)" by (metis surj_pair)
  note w1 = ber_write_wrote [OF assms(1,2), of M avail, unfolded r]
  show ?thesis
  proof (cases "rc = - 1")
    case True
    then have "\<not> fits M avail ber a (length h)" using w1 by (simp add: wrote_def)
    then have "\<not> fits M avail ber a (length (h @ s))" using fits_mono [of M avail ber a "length (h @ s)" "length h"] by auto
    then show ?thesis using r True by (simp add: write_both_def wrote_def)
  next
    case False
    then have 2: "rc = int (length h)" "writer b (emit h a)" "use_der b = use_der ber" "ber_tag b = ber_tag ber"
      and f: "fits M avail ber a (length h) \<longrightarrow> roomy M avail b"
      using w1 by (auto simp: wrote_def)
    have "fits M avail b (emit h a) (length s)" if "fits M avail ber a (length (h @ s))"
      using fits_emit [of M avail ber a h "length s" b] that f fits_mono [of M avail ber a "length (h @ s)" "length h"] by simp
    with ber_write_wrote [OF 2(2) assms(3), of M avail] 2 r r2 show ?thesis
      by (auto simp: write_both_def wrote_def emit_emit)
  qed
qed

lemma header_short:
  assumes "len < 2 ^ 31" "tag < 2 ^ 64"
  shows "length (tag_octets tag @ len_octets len @ r) < 2 ^ 63 + length r"
  using length_len_octets [OF assms(1)] length_tag_octets(1) [OF assms(2)] by (simp add: TAGBUF_SIZE_def SOS_LENLEN_def)

lemma put_ostring_wrote:
  assumes "writer ber a" "tag < 2 ^ 64"
  shows "wrote M avail a (element (default_tag tag LBER_OCTETSTRING) s) ber (ber_put_ostring avail ber s tag)"
proof (cases "length s > MAXINT_BERSIZE")
  case True then show ?thesis using fits_element [of M avail ber a _ s] by (auto simp: ber_put_ostring_def wrote_def)
next
  case False
  have t: "default_tag tag LBER_OCTETSTRING < 2 ^ 64" using default_tag_less assms(2) by (simp add: LBER_OCTETSTRING_def)
  have s: "length s < 2 ^ 31" using False MAXINT_less by simp
  from write_both_wrote [OF assms(1), of "tag_octets (default_tag tag LBER_OCTETSTRING) @ len_octets (length s)" s M avail]
    header_short [OF s t, of "[]"] s False show ?thesis
    by (simp add: ber_put_ostring_def element_def prepend_tag_append flip: len_octets_def)
qed

lemma put_bitstring_wrote:
  assumes "writer ber a" "tag < 2 ^ 64" "ber_put_bitstring avail ber s blen tag = Some r" "(blen + 7) div 8 \<le> length s"
  shows "wrote M avail a (element (default_tag tag LBER_BITSTRING) (of_nat ((8 - blen mod 8) mod 8) # take ((blen + 7) div 8) s)) ber r"
proof -
  define u where "u = (8 - blen mod 8) mod 8"
  define len where "len = blen div 8 + (if u \<noteq> 0 then 1 else 0)"
  define t where "t = default_tag tag LBER_BITSTRING"
  have len': "len = (blen + 7) div 8" unfolding len_def u_def by presburger
  have t': "t < 2 ^ 64" using default_tag_less assms(2) by (simp add: LBER_BITSTRING_def t_def)
  have def': "ber_put_bitstring avail ber s blen tag =
     (if len \<ge> MAXINT_BERSIZE then Some (- 1, ber) else if length s < len then None
      else Some (write_both avail ber (tag_octets t @ len_octets (len + 1) @ [of_nat u]) (take len s)))"
    by (simp add: ber_put_bitstring_def Let_def u_def len_def t_def prepend_tag_append prepend_len_append)
  show ?thesis unfolding len' [symmetric] u_def [symmetric] t_def [symmetric]
  proof (cases "len \<ge> MAXINT_BERSIZE")
    case True then show "wrote M avail a (element t (of_nat u # take len s)) ber r"
      using assms(3,4) fits_element [of M avail ber a t "of_nat u # take len s"] by (auto simp: def' wrote_def len' [symmetric])
  next
    case False
    let ?h = "tag_octets t @ len_octets (len + 1) @ [of_nat u]"
    have n: "len + 1 < 2 ^ 31" using False MAXINT_less [of "len + 1"] by simp
    have l: "len \<le> length s" and r: "r = write_both avail ber ?h (take len s)"
      using assms(3) False by (auto simp: def' split: if_splits)
    have "length ?h < 2 ^ 64 - 1" using header_short [OF n t', of "[of_nat u]"] by simp
    moreover have "length (take len s) < 2 ^ 64 - 1" using n by simp
    ultimately have "wrote M avail a (?h @ take len s) ber r" unfolding r by (rule write_both_wrote [OF assms(1)])
    then show "wrote M avail a (element t (of_nat u # take len s)) ber r"
      using l by (simp add: element_def)
  qed
qed


lemma put_null_wrote:
  assumes "writer ber a" "tag < 2 ^ 64"
  shows "wrote M avail a (element (default_tag tag LBER_NULL) []) ber (ber_put_null avail ber tag)"
  using assms length_tag_octets(1) [of "default_tag tag LBER_NULL"] default_tag_less [of tag LBER_NULL]
  by (auto simp: ber_put_null_def prepend_tag_append short_element TAGBUF_SIZE_def LBER_NULL_def intro!: ber_write_wrote)

lemma put_boolean_wrote:
  assumes "writer ber a" "tag < 2 ^ 64"
  shows "wrote M avail a (element (default_tag tag LBER_BOOLEAN) [if i \<noteq> 0 then 0xff else 0]) ber (ber_put_boolean avail ber i tag)"
  using assms length_tag_octets(1) [of "default_tag tag LBER_BOOLEAN"] default_tag_less [of tag LBER_BOOLEAN]
  by (auto simp: ber_put_boolean_def prepend_tag_append short_element TAGBUF_SIZE_def LBER_BOOLEAN_def intro!: ber_write_wrote)

lemma octets_u32_octets: "n < 2 ^ 32 \<Longrightarrow> octets_u32 (u32_octets n @ r) = n"
proof -
  assume n: "n < 2 ^ 32"
  define a b c where "a = n div 256" and "b = a div 256" and "c = b div 256"
  have "n = 256 * a + n mod 256" "a = 256 * b + a mod 256" "b = 256 * c + b mod 256" by (simp_all add: a_def b_def c_def)
  moreover have "c < 256" using n by (simp add: a_def b_def c_def div_mult2_eq [symmetric] less_mult_imp_div_less)
  moreover have "n div 256 ^ 2 = b" "n div 256 ^ 3 = c" by (simp_all add: a_def b_def c_def div_mult2_eq [symmetric])
  ultimately show ?thesis by (simp add: octets_u32_def u32_octets_def a_def [symmetric])
qed

lemma length_u32 [simp]: "length (u32_octets n) = 4" "length (long_len n) = 5"
  by (simp_all add: u32_octets_def long_len_def)

text \<open>Opening an element pushes it.\<close>

lemma start_writer:
  assumes w: "writer ber (d, st)" and tag: "tag < 2 ^ 64" and run: "ber_start_seqorset avail ber tag = (rc, ber')"
  shows "rc = 0 \<and> writer ber' (d, (tag_octets tag, []) # st) \<and> use_der ber' = use_der ber \<and> ber_tag ber' = ber_tag ber
    \<or> rc = - 1 \<and> ber' = ber"
proof (cases "ber_sos_ptr ber \<noteq> None \<and> ber_sos_inner ber > 2 ^ 32 - 1")
  case True then show ?thesis using run by (simp add: ber_start_seqorset_def)
next
  case False
  let ?p = "length (sos_octets d st)" and ?t = "tag_octets tag"
  have off: "(if ber_sos_ptr ber = None then 0 else ber_sos_inner ber) = sos_offset d st" "sos_offset d st < 2 ^ 32"
    using w False by (cases st, auto simp: writer_def split: if_splits)+
  have t: "?t \<noteq> []" "length ?t \<le> TAGBUF_SIZE" using length_tag_octets [of tag] tag by auto
  have p: "write_cursor ber = ?p" "?p \<le> length (ber_buf ber)" using w write_cursor_writer writer_length by auto
  let ?h = "?t @ of_nat (length ?t) # u32_octets (sos_offset d st)" and ?n = "length ?t + SOS_LENLEN"
  have h: "length ?h = ?n" by (simp add: SOS_LENLEN_def)
  obtain r b where rb: "ber_room avail ber ?p ?n = (r, b)" by (metis surj_pair)
  have sd: "ber_start_seqorset avail ber tag = (case ber_room avail ber ?p ?n of (r, b) \<Rightarrow> if r \<noteq> 0 then (- 1, b)
      else (0, b\<lparr>ber_buf := poke ?p ?h (ber_buf b), ber_sos_ptr := Some (?p + ?n), ber_sos_inner := ?p + length ?t\<rparr>))"
    using False unfolding ber_start_seqorset_def Let_def off(1) p(1) tag_octets_def [symmetric] by (auto simp del: not_None_eq)
  have "?n < 2 ^ 64 - 1" using t by (simp add: TAGBUF_SIZE_def SOS_LENLEN_def)
  from room [OF w this rb] show ?thesis
  proof
    assume "r = - 1 \<and> b = ber" then show ?thesis
      using run rb unfolding sd by simp
  next
    assume r: "r = 0 \<and> (\<exists>e. b = ber\<lparr>ber_end := e\<rparr> \<and> ?p + ?n \<le> e \<and> e < 2 ^ 63)"
    then obtain m where m: "b = ber\<lparr>ber_end := m\<rparr>" "?p + ?n \<le> m" "m < 2 ^ 63" by blast
    have run': "rc = 0" "ber' = b\<lparr>ber_buf := poke ?p ?h (ber_buf b), ber_sos_ptr := Some (?p + ?n), ber_sos_inner := ?p + length ?t\<rparr>"
      using run rb r unfolding sd by auto
    have "take ?p (ber_buf ber) = sos_octets d st" using w by (simp add: writer_def)
    with take_poke [OF p(2), of ?h] have "take (?p + length ?h) (poke ?p ?h (ber_buf ber)) = sos_octets d st @ ?h" by (simp only:)
    then have "writer ber' (d, (?t, []) # st)" using w m off t run'(2) h by (simp add: writer_def SOS_LENLEN_def)
    then show ?thesis using run' m by simp
  qed
qed

text \<open>Closing it pops it and writes the whole element, its length in the form the options ask for.\<close>

definition constructed :: "bool \<Rightarrow> octet list \<Rightarrow> octet list \<Rightarrow> octet list" where
  "constructed der t c = t @ (if der then len_octets (length c) else long_len (length c)) @ c"

lemma put_seqorset_writer:
  assumes w: "writer ber (d, (t, c) # st)" and run: "ber_put_seqorset ber = (rc, ber')"
  shows "if length c \<le> MAXINT_BERSIZE
    then rc = int (length (constructed (use_der ber) t c)) \<and> writer ber' (emit (constructed (use_der ber) t c) (d, st))
      \<and> use_der ber' = use_der ber \<and> ber_tag ber' = ber_tag ber
    else rc = - 1 \<and> ber' = ber"
proof -
  let ?q = "length (sos_octets d st)" and ?buf = "ber_buf ber"
  let ?l = "?q + length t"
  define lb where "lb = (if use_der ber then len_octets (length c) else long_len (length c))"
  define R where "R = drop (length (sos_octets d ((t, c) # st))) ?buf"
  have buf: "?buf = sos_octets d st @ t @ of_nat (length t) # u32_octets (sos_offset d st) @ c @ R"
    using w append_take_drop_id [of "length (sos_octets d ((t, c) # st))" ?buf] by (simp add: writer_def R_def)
  have s: "ber_sos_ptr ber = Some (?l + SOS_LENLEN + length c)" "ber_sos_inner ber = ?l" "t \<noteq> []" "length t \<le> TAGBUF_SIZE"
      "sos_offset d st < 2 ^ 32" "open_ok d st" "ber_ptr ber = length d" "?l + SOS_LENLEN + length c \<le> ber_end ber" "ber_end ber < 2 ^ 63"
    using w by (auto simp: writer_def SOS_LENLEN_def)
  have x: "unat (?buf ! ?l) = length t" using s(4) by (simp add: buf nth_append TAGBUF_SIZE_def)
  have "drop (?l + 1) ?buf = u32_octets (sos_offset d st) @ c @ R" by (simp add: buf)
  then have o: "octets_u32 (drop (?l + 1) ?buf) = sos_offset d st" using octets_u32_octets [OF s(5)] by simp
  have ct: "take (length c) (drop (?l + SOS_LENLEN) ?buf) = c" by (simp add: buf SOS_LENLEN_def)
  show ?thesis
  proof (cases "length c \<le> MAXINT_BERSIZE")
    case False
    then show ?thesis using run s(1,2) by (auto simp: ber_put_seqorset_def)
  next
    case True
    obtain d' st' where e: "emit (t @ lb @ c) (d, st) = (d', st')" by (metis surj_pair)
    note ok = emit_ok [OF e] and so = sos_octets_emit [OF e]
    have lb: "length lb \<le> SOS_LENLEN"
      using length_len_octets [OF MAXINT_less [OF True]] by (simp add: lb_def SOS_LENLEN_def)
    let ?b = "ber\<lparr>ber_buf := poke ?l (lb @ c) ?buf, ber_sos_ptr := Some (?l + length lb + length c), ber_sos_inner := sos_offset d st\<rparr>"
    have z: "sos_offset d st = 0 \<longleftrightarrow> st = []" using s(6) by (cases st) auto
    have r: "rc = int (length (t @ lb @ c))"
      "ber' = (if sos_offset d st = 0 then ?b\<lparr>ber_ptr := ?l + length lb + length c, ber_sos_ptr := None\<rparr> else ?b)"
      using run True unfolding ber_put_seqorset_def Let_def s(1) s(2) by (auto simp: x o [simplified] ct ct [unfolded add.assoc] len_octets_def lb_def add.assoc)
    have "take ?l ?buf = sos_octets d st @ t" by (simp add: buf)
    moreover have "?l \<le> length ?buf" by (simp add: buf)
    ultimately have "take (?l + length (lb @ c)) (poke ?l (lb @ c) ?buf) = sos_octets d' st'"
      using take_poke [of ?l ?buf "lb @ c"] so by simp
    then have "writer ber' (d', st')"
      using r(2) z ok so s lb by (cases "st = []") (auto simp: writer_def SOS_LENLEN_def add.assoc)
    then show ?thesis using True r e by (auto simp: constructed_def lb_def)
  qed
qed



lemma start_fits:
  assumes "writer ber (d, st)" "fits M avail ber (d, st) (length (tag_octets tag) + SOS_LENLEN)" "ber_start_seqorset avail ber tag = (rc, ber')"
  shows "rc = 0" "roomy M avail ber'"
proof -
  let ?n = "length (tag_octets tag) + SOS_LENLEN"
  obtain r b where rb: "ber_room avail ber (length (sos_octets d st)) ?n = (r, b)" by (metis surj_pair)
  have p: "write_cursor ber = length (sos_octets d st)" using assms(1) write_cursor_writer by simp
  have "M < 2 ^ 31" "length (sos_octets d st) \<le> M" using assms(2) MAXINT_less by (auto simp: fits_def roomy_def)
  moreover have "ber_sos_inner ber \<le> length (sos_octets d st)" using assms(1) by (cases st) (auto simp: writer_def)
  ultimately have "\<not> (ber_sos_ptr ber \<noteq> None \<and> ber_sos_inner ber > 2 ^ 32 - 1)" by simp
  with room_fits [OF assms(2) rb] assms(3) rb show "rc = 0" "roomy M avail ber'"
    unfolding ber_start_seqorset_def Let_def p tag_octets_def [symmetric] by (auto simp: roomy_def simp del: not_None_eq)
qed

section \<open>Formats\<close>

text \<open>A value to write, each with its tag, \<^verbatim>\<open>LBER_DEFAULT\<close> standing for the usual one.\<close>

datatype asn =
    ABool nat int
  | AInt nat int
  | AEnum nat int
  | ANull nat
  | AOctets nat "octet list"
  | ABits nat "octet list" nat
  | ASeq nat "asn list"
  | ASet nat "asn list"

text \<open>The format and the arguments that write it.\<close>

fun asn_fmt :: "asn \<Rightarrow> string" where
  "asn_fmt (ABool tag i) = ''tb''"
| "asn_fmt (AInt tag i) = ''ti''"
| "asn_fmt (AEnum tag i) = ''te''"
| "asn_fmt (ANull tag) = ''tn''"
| "asn_fmt (AOctets tag s) = ''to''"
| "asn_fmt (ABits tag s n) = ''tB''"
| "asn_fmt (ASeq tag xs) = [CHR ''t'', CHR 0x7B] @ concat (map asn_fmt xs) @ [CHR 0x7D]"
| "asn_fmt (ASet tag xs) = [CHR ''t'', CHR 0x5B] @ concat (map asn_fmt xs) @ [CHR 0x5D]"

fun asn_args :: "asn \<Rightarrow> ber_arg list" where
  "asn_args (ABool tag i) = [ArgTag tag, ArgInt i]"
| "asn_args (AInt tag i) = [ArgTag tag, ArgInt i]"
| "asn_args (AEnum tag i) = [ArgTag tag, ArgInt i]"
| "asn_args (ANull tag) = [ArgTag tag]"
| "asn_args (AOctets tag s) = [ArgTag tag, ArgOctets s]"
| "asn_args (ABits tag s n) = [ArgTag tag, ArgBits s n]"
| "asn_args (ASeq tag xs) = ArgTag tag # concat (map asn_args xs)"
| "asn_args (ASet tag xs) = ArgTag tag # concat (map asn_args xs)"

text \<open>Its BER encoding; a sequence has its length in the short form or in five octets.\<close>

fun asn_octets :: "bool \<Rightarrow> asn \<Rightarrow> octet list" where
  "asn_octets der (ABool tag i) = element (default_tag tag LBER_BOOLEAN) [if i \<noteq> 0 then 0xff else 0]"
| "asn_octets der (AInt tag i) = element (default_tag tag LBER_INTEGER) (int_contents i)"
| "asn_octets der (AEnum tag i) = element (default_tag tag LBER_ENUMERATED) (int_contents i)"
| "asn_octets der (ANull tag) = element (default_tag tag LBER_NULL) []"
| "asn_octets der (AOctets tag s) = element (default_tag tag LBER_OCTETSTRING) s"
| "asn_octets der (ABits tag s n) =
     element (default_tag tag LBER_BITSTRING) (of_nat ((8 - n mod 8) mod 8) # take ((n + 7) div 8) s)"
| "asn_octets der (ASeq tag xs) = constructed der (tag_octets (default_tag tag LBER_SEQUENCE)) (concat (map (asn_octets der) xs))"
| "asn_octets der (ASet tag xs) = constructed der (tag_octets (default_tag tag LBER_SET)) (concat (map (asn_octets der) xs))"

fun asn_ok :: "asn \<Rightarrow> bool" where
  "asn_ok (ABool tag i) = (tag < 2 ^ 64)"
| "asn_ok (AInt tag i) = (tag < 2 ^ 64 \<and> - (2 ^ 31) \<le> i \<and> i < 2 ^ 31)"
| "asn_ok (AEnum tag i) = (tag < 2 ^ 64 \<and> - (2 ^ 31) \<le> i \<and> i < 2 ^ 31)"
| "asn_ok (ANull tag) = (tag < 2 ^ 64)"
| "asn_ok (AOctets tag s) = (tag < 2 ^ 64)"
| "asn_ok (ABits tag s n) = (tag < 2 ^ 64 \<and> (n + 7) div 8 \<le> length s)"
| "asn_ok (ASeq tag xs) = (tag < 2 ^ 64 \<and> list_all asn_ok xs)"
| "asn_ok (ASet tag xs) = (tag < 2 ^ 64 \<and> list_all asn_ok xs)"

text \<open>One step of the loop, for a format that begins with a tag.\<close>

definition ready :: "BerElement \<Rightarrow> octet list \<times> open_elems \<Rightarrow> bool" where
  "ready ber a \<longleftrightarrow> writer ber a \<and> ber_tag ber = LBER_DEFAULT"

lemma printf_tag:
  "rc \<noteq> - 1 \<Longrightarrow> ber_printf_loop avail rc ber (CHR ''t'' # fmt) (ArgTag tag # as) = ber_printf_loop avail rc (ber\<lparr>ber_tag := tag\<rparr>) fmt as"
  by (simp add: printf_item_def)

lemma writer_tag: "writer (ber\<lparr>ber_tag := t\<rparr>) a = writer ber a"
  by (simp add: writer_def)

text \<open>Having written \<open>x\<close>, the loop goes on with the rest of the format, or it has failed for lack of room.\<close>

definition goes_on where
  "goes_on M avail x n ber a fmt as L \<longleftrightarrow>
     (\<exists>b. L = Some (- 1, b) \<and> \<not> fits M avail ber a n) \<or>
     (\<exists>rc ber'. rc \<noteq> - 1 \<and> ready ber' (emit x a) \<and> use_der ber' = use_der ber \<and> L = ber_printf_loop avail rc ber' fmt as \<and>
        (fits M avail ber a n \<longrightarrow> roomy M avail ber'))"

lemma goes_on_fail: "\<not> fits M avail ber a n \<Longrightarrow> goes_on M avail x n ber a fmt as (Some (- 1, b))"
  by (simp add: goes_on_def)

lemma goes_onI:
  "rc \<noteq> - 1 \<Longrightarrow> ready ber' (emit x a) \<Longrightarrow> use_der ber' = use_der ber \<Longrightarrow> (fits M avail ber a n \<Longrightarrow> roomy M avail ber') \<Longrightarrow>
    goes_on M avail x n ber a fmt as (ber_printf_loop avail rc ber' fmt as)"
  by (auto simp: goes_on_def)

lemma goes_onE:
  assumes "goes_on M avail x n ber a fmt as L"
  obtains b where "L = Some (- 1, b)" "\<not> fits M avail ber a n"
  | rc ber' where "rc \<noteq> - 1" "ready ber' (emit x a)" "use_der ber' = use_der ber" "L = ber_printf_loop avail rc ber' fmt as"
    "fits M avail ber a n \<Longrightarrow> roomy M avail ber'"
  using assms unfolding goes_on_def by blast

lemma printf_stop: "ber_printf_loop avail (- 1) ber fmt as = Some (- 1, ber)"
  by (cases fmt) auto

lemma item_goes_on:
  assumes "ready ber a" "rc \<noteq> - 1"
    and "printf_item avail rc (ber\<lparr>ber_tag := tag\<rparr>) c args = Some (p, True, as)"
    and "wrote M avail a x (ber\<lparr>ber_tag := tag\<rparr>) p"
  shows "goes_on M avail x (length x) ber a fmt as (ber_printf_loop avail rc ber (CHR ''t'' # c # fmt) (ArgTag tag # args))"
proof -
  obtain rc' b where p: "p = (rc', b)" by (metis surj_pair)
  have L: "ber_printf_loop avail rc ber (CHR ''t'' # c # fmt) (ArgTag tag # args) = ber_printf_loop avail rc' (b\<lparr>ber_tag := LBER_DEFAULT\<rparr>) fmt as"
    unfolding printf_tag [OF assms(2)] using assms(2,3) p by simp
  have f: "fits M avail (ber\<lparr>ber_tag := tag\<rparr>) a (length x) = fits M avail ber a (length x)" by (simp add: fits_def roomy_def)
  show ?thesis
  proof (cases "rc' = - 1")
    case True then show ?thesis using assms(4) p f unfolding L by (simp add: printf_stop wrote_def goes_on_fail)
  next
    case False
    then show ?thesis using assms(4) p f unfolding L by (intro goes_onI) (auto simp: wrote_def ready_def writer_tag roomy_def)
  qed
qed

lemma list_goes_on:
  assumes ih: "\<And>t ber a rc fmt as. t \<in> set ts \<Longrightarrow> ready ber a \<Longrightarrow> rc \<noteq> - 1 \<Longrightarrow>
      goes_on M avail (asn_octets (use_der ber) t) (length (asn_octets False t)) ber a fmt as
        (ber_printf_loop avail rc ber (asn_fmt t @ fmt) (asn_args t @ as))"
    and len: "\<And>t der. t \<in> set ts \<Longrightarrow> length (asn_octets False t) < 2 ^ 31 \<Longrightarrow> length (asn_octets der t) \<le> length (asn_octets False t)"
    and "ready ber a" "rc \<noteq> - 1"
  shows "goes_on M avail (concat (map (asn_octets (use_der ber)) ts)) (length (concat (map (asn_octets False) ts))) ber a fmt as
    (ber_printf_loop avail rc ber (concat (map asn_fmt ts) @ fmt) (concat (map asn_args ts) @ as))"
  using assms
proof (induction ts arbitrary: ber a rc)
  case Nil
  moreover have "emit [] a = a" by (cases "([] :: octet list, a)" rule: emit.cases) auto
  ultimately show ?case by (auto simp: fits_def intro!: goes_onI)
next
  case (Cons t ts)
  let ?x = "asn_octets (use_der ber) t" and ?n = "length (asn_octets False t)" and ?m = "length (concat (map (asn_octets False) ts))"
  let ?f = "concat (map asn_fmt ts) @ fmt" and ?as = "concat (map asn_args ts) @ as"
  have L: "ber_printf_loop avail rc ber (concat (map asn_fmt (t # ts)) @ fmt) (concat (map asn_args (t # ts)) @ as)
      = ber_printf_loop avail rc ber (asn_fmt t @ ?f) (asn_args t @ ?as)" by simp
  have "goes_on M avail ?x ?n ber a ?f ?as (ber_printf_loop avail rc ber (asn_fmt t @ ?f) (asn_args t @ ?as))"
    using Cons.prems by simp
  then show ?case unfolding L
  proof (cases rule: goes_onE)
    case (1 b) then show "goes_on M avail (concat (map (asn_octets (use_der ber)) (t # ts))) (length (concat (map (asn_octets False) (t # ts)))) ber a fmt as
        (ber_printf_loop avail rc ber (asn_fmt t @ ?f) (asn_args t @ ?as))"
      using fits_mono [of M avail ber a "?n + ?m" ?n] by (auto intro!: goes_on_fail)
  next
    case (2 rc' b)
    have fb: "fits M avail b (emit ?x a) ?m" if "fits M avail ber a (?n + ?m)"
    proof -
      have "?n < 2 ^ 31" using that MAXINT_less [of M] by (simp add: fits_def roomy_def)
      then have "fits M avail ber a (length ?x + ?m)" using that Cons.prems(2) [of t "use_der ber"] by (auto elim!: fits_mono)
      then show ?thesis using fits_emit 2(5) fits_mono [OF that, of ?n] by simp
    qed
    have "goes_on M avail (concat (map (asn_octets (use_der b)) ts)) ?m b (emit ?x a) fmt as (ber_printf_loop avail rc' b ?f ?as)"
      using Cons.prems by (intro Cons.IH 2) auto
    then show "goes_on M avail (concat (map (asn_octets (use_der ber)) (t # ts))) (length (concat (map (asn_octets False) (t # ts)))) ber a fmt as
        (ber_printf_loop avail rc ber (asn_fmt t @ ?f) (asn_args t @ ?as))"
      unfolding 2(4) using fb by (auto simp: goes_on_def emit_emit 2(3))
  qed
qed


lemma constructed_shorter:
  assumes "length (constructed False t c) < 2 ^ 31" "length c' \<le> length c"
  shows "length (constructed der t c') \<le> length (constructed False t c)"
  using assms length_len_octets [of "length c'"] by (simp add: constructed_def SOS_LENLEN_def)

lemma concat_shorter:
  assumes "\<And>t. t \<in> set ts \<Longrightarrow> length (asn_octets False t) < 2 ^ 31 \<Longrightarrow> length (asn_octets der t) \<le> length (asn_octets False t)"
    and "length (concat (map (asn_octets False) ts)) < 2 ^ 31"
  shows "length (concat (map (asn_octets der) ts)) \<le> length (concat (map (asn_octets False) ts))"
  using assms by (induction ts) (auto intro!: add_mono)

lemma constructed_less: "length (constructed False t c) < n \<Longrightarrow> length c < n"
  by (simp add: constructed_def)

lemma asn_octets_shorter:
  "length (asn_octets False t) < 2 ^ 31 \<Longrightarrow> length (asn_octets der t) \<le> length (asn_octets False t)"
proof (induction t)
  case (ASeq tag ts)
  note p = ASeq.prems [unfolded asn_octets.simps]
  show ?case using constructed_shorter [OF p concat_shorter [OF ASeq.IH constructed_less [OF p]]] by simp
next
  case (ASet tag ts)
  note p = ASet.prems [unfolded asn_octets.simps]
  show ?case using constructed_shorter [OF p concat_shorter [OF ASet.IH constructed_less [OF p]]] by simp
qed auto

lemma seq_goes_on:
  assumes r: "ready ber a" "rc \<noteq> - 1" "default_tag tag d < 2 ^ 64"
    and o: "\<And>b. printf_item avail rc b oc (concat (map asn_args ts) @ as) = Some (ber_start_seqorset avail b (default_tag (ber_tag b) d), True, concat (map asn_args ts) @ as)"
    and cl: "cc = CHR 0x7D \<or> cc = CHR 0x5D"
    and ih: "\<And>t ber a rc fmt as. t \<in> set ts \<Longrightarrow> ready ber a \<Longrightarrow> rc \<noteq> - 1 \<Longrightarrow>
      goes_on M avail (asn_octets (use_der ber) t) (length (asn_octets False t)) ber a fmt as
        (ber_printf_loop avail rc ber (asn_fmt t @ fmt) (asn_args t @ as))"
  defines "t \<equiv> tag_octets (default_tag tag d)"
  shows "goes_on M avail (constructed (use_der ber) t (concat (map (asn_octets (use_der ber)) ts)))
      (length (constructed False t (concat (map (asn_octets False) ts)))) ber a fmt as
    (ber_printf_loop avail rc ber (CHR ''t'' # oc # concat (map asn_fmt ts) @ cc # fmt) (ArgTag tag # concat (map asn_args ts) @ as))"
    (is "goes_on M avail ?X ?N ber a fmt as ?L")
proof -
  obtain dd st where a: "a = (dd, st)" by (metis surj_pair)
  let ?b = "ber\<lparr>ber_tag := tag\<rparr>" and ?fmt = "concat (map asn_fmt ts) @ cc # fmt" and ?as = "concat (map asn_args ts) @ as"
  let ?m = "length (concat (map (asn_octets False) ts))"
  have N: "?N = length t + SOS_LENLEN + ?m" by (simp add: constructed_def SOS_LENLEN_def)
  obtain rc1 b1 where s: "ber_start_seqorset avail ?b (default_tag tag d) = (rc1, b1)" by (metis surj_pair)
  let ?b1 = "b1\<lparr>ber_tag := LBER_DEFAULT\<rparr>" and ?c = "concat (map (asn_octets (use_der ber)) ts)"
  have L: "?L = ber_printf_loop avail rc1 ?b1 ?fmt ?as" unfolding printf_tag [OF r(2)] using r(2) s by (simp add: o)
  have w: "writer ?b (dd, st)" using r(1) by (simp add: ready_def writer_tag a)
  have f0: "rc1 = 0" "fits M avail ?b1 (dd, (t, []) # st) ?m" if "fits M avail ber a ?N"
  proof -
    have "fits M avail ?b (dd, st) (length t + SOS_LENLEN)" using that by (simp add: fits_def roomy_def N a)
    from start_fits [OF w this [unfolded t_def] s] that show "rc1 = 0" "fits M avail ?b1 (dd, (t, []) # st) ?m"
      by (simp_all add: fits_def roomy_def N a SOS_LENLEN_def)
  qed
  show ?thesis
  proof (cases "rc1 = - 1")
    case True then show ?thesis using f0(1) unfolding L by (auto simp: printf_stop intro: goes_on_fail)
  next
    case False
    then have w1: "rc1 = 0" "writer b1 (dd, (t, []) # st)" "use_der b1 = use_der ber" using start_writer [OF w r(3) s] by (auto simp: t_def)
    have "goes_on M avail (concat (map (asn_octets (use_der ?b1)) ts)) ?m ?b1 (dd, (t, []) # st) (cc # fmt) as
        (ber_printf_loop avail rc1 ?b1 ?fmt ?as)"
      using w1 asn_octets_shorter by (intro list_goes_on ih) (auto simp: ready_def writer_tag)
    then show ?thesis unfolding L
    proof (cases rule: goes_onE)
      case (1 b) then show "goes_on M avail ?X ?N ber a fmt as (ber_printf_loop avail rc1 ?b1 ?fmt ?as)" using f0(2) by (auto intro: goes_on_fail)
    next
      case (2 rc2 b2)
      obtain rc3 b3 where s3: "ber_put_seqorset b2 = (rc3, b3)" by (metis surj_pair)
      have "printf_item avail rc2 b2 cc as = Some (ber_put_seqorset b2, True, as)" using cl by (auto simp: printf_item_def)
      then have L3: "ber_printf_loop avail rc2 b2 (cc # fmt) as = ber_printf_loop avail rc3 (b3\<lparr>ber_tag := LBER_DEFAULT\<rparr>) fmt as"
        using 2(1) s3 by simp
      have w2: "writer b2 (dd, (t, ?c) # st)" "use_der b2 = use_der ber" using 2(2,3) w1(3) by (auto simp: ready_def)
      note w3 = put_seqorset_writer [OF w2(1) s3, unfolded w2(2)]
      have f3: "length ?c \<le> MAXINT_BERSIZE" "roomy M avail b2" if "fits M avail ber a ?N"
      proof -
        have "?N < 2 ^ 31" "?N \<le> MAXINT_BERSIZE" using that MAXINT_less [of M] by (auto simp: fits_def roomy_def)
        moreover have "length ?c \<le> ?m"
          using concat_shorter [OF asn_octets_shorter] \<open>?N < 2 ^ 31\<close> N by simp
        ultimately show "length ?c \<le> MAXINT_BERSIZE" using N by simp
        show "roomy M avail b2" using 2(5) f0(2) [OF that] by simp
      qed
      show "goes_on M avail ?X ?N ber a fmt as (ber_printf_loop avail rc1 ?b1 ?fmt ?as)"
      proof (cases "rc3 = - 1")
        case True
        then have "\<not> fits M avail ber a ?N" using w3 f3(1) by auto
        then show ?thesis unfolding 2(4) L3 using True by (simp add: printf_stop goes_on_fail)
      next
        case False
        then have "writer b3 (emit ?X a)" "use_der b3 = use_der ber" using w3 a by (auto split: if_splits)
        moreover have "ber_end b3 = ber_end b2" using s3 by (auto simp: ber_put_seqorset_def Let_def split: option.splits if_splits)
        ultimately show ?thesis unfolding 2(4) L3 using False f3(2) by (intro goes_onI) (auto simp: ready_def writer_tag roomy_def)
      qed
    qed
  qed
qed


lemmas default_tags = LBER_BOOLEAN_def LBER_INTEGER_def LBER_ENUMERATED_def LBER_NULL_def LBER_OCTETSTRING_def LBER_BITSTRING_def
  LBER_SEQUENCE_def LBER_SET_def

lemma put_bitstring_returns: "(n + 7) div 8 \<le> length s \<Longrightarrow> \<exists>q. ber_put_bitstring avail b s n tag = Some q"
proof -
  assume l: "(n + 7) div 8 \<le> length s"
  define u where "u = (8 - n mod 8) mod 8"
  have "n div 8 + (if u \<noteq> 0 then 1 else 0) = (n + 7) div 8" unfolding u_def by presburger
  with l show ?thesis unfolding ber_put_bitstring_def Let_def u_def [symmetric] by simp
qed

lemma printf_asn:
  assumes "asn_ok t" "ready ber a" "rc \<noteq> - 1"
  shows "goes_on M avail (asn_octets (use_der ber) t) (length (asn_octets False t)) ber a fmt as
    (ber_printf_loop avail rc ber (asn_fmt t @ fmt) (asn_args t @ as))"
  using assms
proof (induction t arbitrary: ber a rc fmt as)
  case (ABool tag i)
  then show ?case
    using item_goes_on [of ber a rc avail tag "CHR ''b''" "ArgInt i # as" _ as] put_boolean_wrote [of "ber\<lparr>ber_tag := tag\<rparr>" a tag M avail i]
    by (simp add: printf_item_def ready_def writer_tag del: ber_printf_loop.simps)
next
  case (AInt tag i)
  then show ?case
    using item_goes_on [of ber a rc avail tag "CHR ''i''" "ArgInt i # as" _ as] default_tag_less [of tag LBER_INTEGER]
      put_int_wrote [of "ber\<lparr>ber_tag := tag\<rparr>" a "default_tag tag LBER_INTEGER" i M avail]
    by (simp add: printf_item_def ready_def writer_tag ber_put_int_def default_tags del: ber_printf_loop.simps)
next
  case (AEnum tag i)
  then show ?case
    using item_goes_on [of ber a rc avail tag "CHR ''e''" "ArgInt i # as" _ as] default_tag_less [of tag LBER_ENUMERATED]
      put_int_wrote [of "ber\<lparr>ber_tag := tag\<rparr>" a "default_tag tag LBER_ENUMERATED" i M avail]
    by (simp add: printf_item_def ready_def writer_tag ber_put_enum_def default_tags del: ber_printf_loop.simps)
next
  case (ANull tag)
  then show ?case
    using item_goes_on [of ber a rc avail tag "CHR ''n''" as _ as] put_null_wrote [of "ber\<lparr>ber_tag := tag\<rparr>" a tag M avail]
    by (simp add: printf_item_def ready_def writer_tag del: ber_printf_loop.simps)
next
  case (AOctets tag s)
  then show ?case
    using item_goes_on [of ber a rc avail tag "CHR ''o''" "ArgOctets s # as" _ as] put_ostring_wrote [of "ber\<lparr>ber_tag := tag\<rparr>" a tag M avail s]
    by (simp add: printf_item_def ready_def writer_tag del: ber_printf_loop.simps)
next
  case (ABits tag s n)
  let ?b = "ber\<lparr>ber_tag := tag\<rparr>"
  have l: "(n + 7) div 8 \<le> length s" "tag < 2 ^ 64" using ABits.prems(1) by auto
  obtain q where q: "ber_put_bitstring avail ?b s n tag = Some q" using put_bitstring_returns l by blast
  have "writer ?b a" using ABits.prems(2) by (simp add: ready_def writer_tag)
  note w = put_bitstring_wrote [OF this l(2) q l(1)]
  show ?case using item_goes_on [OF ABits.prems(2,3) _ w, of "CHR ''B''" "ArgBits s n # as"] q
    by (simp add: printf_item_def del: ber_printf_loop.simps)
next
  case (ASeq tag ts)
  have "tag < 2 ^ 64" "\<And>u. u \<in> set ts \<Longrightarrow> asn_ok u" using ASeq.prems(1) by (auto simp: list_all_iff)
  then show ?case using ASeq default_tag_less [of tag LBER_SEQUENCE]
      seq_goes_on [of ber a rc tag LBER_SEQUENCE avail "CHR 0x7B" ts as "CHR 0x7D" M]
    by (simp add: printf_item_def default_tags ber_start_seq_def del: ber_printf_loop.simps)
next
  case (ASet tag ts)
  have "tag < 2 ^ 64" "\<And>u. u \<in> set ts \<Longrightarrow> asn_ok u" using ASet.prems(1) by (auto simp: list_all_iff)
  then show ?case using ASet default_tag_less [of tag LBER_SET]
      seq_goes_on [of ber a rc tag LBER_SET avail "CHR 0x5B" ts as "CHR 0x5D" M]
    by (simp add: printf_item_def default_tags ber_start_set_def del: ber_printf_loop.simps)
qed

lemma ready_alloc: "ready (ber_alloc_t der) ([], [])" "use_der (ber_alloc_t der) = der"
  by (simp_all add: ready_def writer_def ber_alloc_t_def)


lemma printf_finished:
  assumes "asn_ok t"
  shows "\<exists>rc ber. ber_printf avail (ber_alloc_t der) (asn_fmt t) (asn_args t) = Some (rc, ber) \<and>
    (rc \<noteq> - 1 \<longrightarrow> ber_sos_ptr ber = None \<and> ber_ptr ber = length (asn_octets der t) \<and> take (ber_ptr ber) (ber_buf ber) = asn_octets der t) \<and>
    ((\<forall>n. avail n) \<and> length (asn_octets False t) \<le> MAXINT_BERSIZE \<longrightarrow> rc \<noteq> - 1)"
proof -
  let ?b = "ber_alloc_t der" and ?n = "length (asn_octets False t)"
  have f: "fits MAXINT_BERSIZE avail ?b ([], []) ?n" if "(\<forall>n. avail n) \<and> ?n \<le> MAXINT_BERSIZE"
    using that by (simp add: fits_def roomy_def ber_alloc_t_def)
  have g: "goes_on MAXINT_BERSIZE avail (asn_octets der t) ?n ?b ([], []) [] [] (ber_printf_loop avail 0 ?b (asn_fmt t) (asn_args t))"
    using printf_asn [OF assms ready_alloc(1), of 0 MAXINT_BERSIZE avail der "[]" "[]"] by (simp add: ready_alloc(2))
  then show ?thesis
  proof (cases rule: goes_onE)
    case (1 b) then show ?thesis using f by (auto simp: ber_printf_def)
  next
    case (2 rc ber) then show ?thesis by (auto simp: ber_printf_def ready_def writer_def)
  qed
qed

section \<open>Properties of the writer\<close>

text \<open>C35. \<^verbatim>\<open>ber_printf\<close>, given the format and the arguments of a value, returns; if it reports success then flattening
  gives exactly the BER encoding of the value, every sequence closed with its length; and it does
  succeed when memory is available and the encoding is not too long.\<close>

theorem ber_printf_encodes:
  assumes "asn_ok t"
  shows "\<exists>rc ber. ber_printf avail (ber_alloc_t der) (asn_fmt t) (asn_args t) = Some (rc, ber) \<and>
    (rc \<noteq> - 1 \<and> avail (length (asn_octets der t) + 1) \<longrightarrow> ber_flatten2 avail (Some ber) True = Some (0, Some (asn_octets der t))) \<and>
    ((\<forall>n. avail n) \<and> length (asn_octets False t) \<le> MAXINT_BERSIZE \<longrightarrow> rc \<noteq> - 1)"
  using printf_finished [OF assms, of avail der] by (fastforce simp: ber_flatten2_def)

lemma asn_example:
  "asn_octets True (ASeq LBER_DEFAULT [AInt LBER_DEFAULT 300, ABool LBER_DEFAULT 1, AOctets 0x80 [1, 2]])
    = [0x30, 0x0b, 0x02, 0x02, 0x01, 0x2c, 0x01, 0x01, 0xff, 0x80, 0x02, 0x01, 0x02]"
  "length (asn_octets False (ASeq LBER_DEFAULT [AInt LBER_DEFAULT 300, ABool LBER_DEFAULT 1, AOctets 0x80 [1, 2]])) = 17"
  by (simp_all add: default_tag_def LBER_DEFAULT_def default_tags constructed_def element_def tag_octets_def prepend_tag octets.simps
      len_octets_cases int_contents_def int_octets_rec)

lemma ber_printf_encodes_witness:
  "\<exists>rc ber. ber_printf (\<lambda>n. True) (ber_alloc_t True) [CHR ''t'', CHR 0x7B, CHR ''t'', CHR ''i'', CHR ''t'', CHR ''b'', CHR ''t'', CHR ''o'', CHR 0x7D]
      [ArgTag LBER_DEFAULT, ArgTag LBER_DEFAULT, ArgInt 300, ArgTag LBER_DEFAULT, ArgInt 1, ArgTag 0x80, ArgOctets [1, 2]] = Some (rc, ber) \<and>
    rc \<noteq> - 1 \<and> ber_flatten2 (\<lambda>n. True) (Some ber) True = Some (0, Some [0x30, 0x0b, 0x02, 0x02, 0x01, 0x2c, 0x01, 0x01, 0xff, 0x80, 0x02, 0x01, 0x02])"
proof -
  have "asn_ok (ASeq LBER_DEFAULT [AInt LBER_DEFAULT 300, ABool LBER_DEFAULT 1, AOctets 0x80 [1, 2]])" by (simp add: LBER_DEFAULT_def)
  from ber_printf_encodes [OF this, of "\<lambda>n. True" True] show ?thesis
    by (auto simp: asn_example MAXINT_BERSIZE_def HEADER_SIZE_def TAGBUF_SIZE_def LENBUF_SIZE_def simp del: asn_octets.simps)
qed

section \<open>Flattening without a copy\<close>

text \<open>Writes one after the other; \<open>None\<close> if one fails.\<close>

fun write_all :: "(nat \<Rightarrow> bool) \<Rightarrow> BerElement \<Rightarrow> octet list list \<Rightarrow> BerElement option" where
  "write_all avail ber [] = Some ber"
| "write_all avail ber (d # ds) = (let (rc, ber) = ber_write avail ber d in if rc = - 1 then None else write_all avail ber ds)"

text \<open>What has been written is in the buffer and fits into its allocation.\<close>

definition holds_text :: "BerElement \<Rightarrow> octet list \<Rightarrow> bool" where
  "holds_text ber t \<longleftrightarrow> ber_sos_ptr ber = None \<and> ber_buf ber = t \<and> ber_ptr ber = length t \<and> length t \<le> ber_end ber \<and> ber_end ber < 2 ^ 63 \<and>
     (ber_end ber = 0 \<longleftrightarrow> t = [])"

lemma realloc_fits:
  assumes "ber_realloc avail ber len = (0, ber')" "ber_end ber < 2 ^ 63" "len < 2 ^ 64"
  shows "\<exists>n. ber' = ber\<lparr>ber_end := n\<rparr> \<and> ber_end ber + len < n \<and> n < 2 ^ 63"
proof -
  let ?m = "if len + 1 < 4060 then 4060 else len + 1"
  have len: "(len + 1) mod 2 ^ 64 = len + 1" using assms(1,3) by (cases "len + 1 = 2 ^ 64") (auto simp: ber_realloc_def Let_def)
  let ?n = "(ber_end ber + ?m) mod 2 ^ 64"
  have r: "ber' = ber\<lparr>ber_end := ?n\<rparr>" "len + 1 \<le> ?n" "?n < 2 ^ 63"
    using assms(1) unfolding ber_realloc_def len Let_def by (auto split: if_splits)
  have "?n = ber_end ber + ?m"
  proof (rule ccontr)
    assume "?n \<noteq> ber_end ber + ?m"
    then have "2 ^ 64 \<le> ber_end ber + ?m" using mod_less by (metis linorder_not_less)
    moreover from this have "4060 \<le> len + 1" using assms(2) by (auto split: if_splits)
    ultimately have "2 ^ 64 \<le> ber_end ber + (len + 1)" "?n = (ber_end ber + (len + 1)) mod 2 ^ 64" by auto
    moreover from this have "?n = ber_end ber + (len + 1) - 2 ^ 64" using assms(2,3) by (simp add: le_mod_geq)
    ultimately have "len + 1 \<le> ber_end ber + (len + 1) - 2 ^ 64" "2 ^ 64 \<le> ber_end ber + (len + 1)" using r(2) by auto
    then have "2 ^ 64 \<le> ber_end ber" by linarith
    then show False using assms(2) by simp
  qed
  then show ?thesis using r by (intro exI [of _ ?n]) (auto split: if_splits)
qed

lemma write_holds:
  assumes "holds_text ber t" "ber_write avail ber d = (rc, ber')" "rc \<noteq> - 1" "length d < 2 ^ 64"
  shows "holds_text ber' (t @ d)"
proof -
  obtain r ber1 where room: "ber_room avail ber (length t) (length d) = (r, ber1)" by (cases "ber_room avail ber (length t) (length d)")
  have r: "r = 0" "ber' = ber1\<lparr>ber_ptr := length t + length d, ber_buf := poke (length t) d (ber_buf ber1)\<rparr>"
  proof -
    have "ber_sos_ptr ber1 = None" using room assms(1) by (auto simp: ber_room_def ber_realloc_def Let_def holds_text_def split: if_splits)
    then show "r = 0" "ber' = ber1\<lparr>ber_ptr := length t + length d, ber_buf := poke (length t) d (ber_buf ber1)\<rparr>"
      using assms room by (auto simp: ber_write_def write_cursor_def holds_text_def Let_def split: if_splits)
  qed
  show ?thesis
  proof (cases "length d > ber_end ber - length t")
    case True
    with room r(1) have "ber_realloc avail ber (length d) = (0, ber1)" by (simp add: ber_room_def)
    from realloc_fits [OF this _ assms(4)] assms(1) True show ?thesis by (auto simp: holds_text_def r(2) poke_def)
  next
    case False
    with room r(1) assms(1) show ?thesis by (auto simp: ber_room_def holds_text_def r(2) poke_def)
  qed
qed

lemma write_all_holds:
  "holds_text ber t \<Longrightarrow> write_all avail ber ds = Some ber' \<Longrightarrow> \<forall>d\<in>set ds. length d < 2 ^ 64 \<Longrightarrow> holds_text ber' (t @ concat ds)"
proof (induction ds arbitrary: ber t)
  case (Cons d ds)
  obtain rc ber1 where w: "ber_write avail ber d = (rc, ber1)" by (cases "ber_write avail ber d")
  with Cons write_holds [OF Cons.prems(1) w] show ?case by (fastforce split: if_splits)
qed simp

text \<open>C39. After any sequence of successful writes to a new element its octets fit into the allocation, and flattening it without a
  copy returns exactly what was written, unless the allocation is filled to the last octet: then the terminating octet is
  written behind its end, since nothing reserves a place for it (\<open>None\<close>).\<close>

theorem ber_flatten_in_place:
  assumes "write_all avail (ber_alloc_t der) ds = Some ber" "\<forall>d\<in>set ds. length d < 2 ^ 64"
  shows "length (concat ds) \<le> ber_end ber \<and>
    ber_flatten2 avail (Some ber) False =
      (if concat ds \<noteq> [] \<and> length (concat ds) = ber_end ber then None else Some (0, Some (concat ds)))"
proof -
  have "holds_text (ber_alloc_t der) []" by (simp add: holds_text_def ber_alloc_t_def)
  from write_all_holds [OF this assms] have "holds_text ber (concat ds)" by simp
  then show ?thesis by (auto simp: holds_text_def ber_flatten2_def ensure_def simp del: concat_eq_Nil_conv)
qed

lemma filled_element:
  "\<exists>ber. write_all (\<lambda>n. True) (ber_alloc_t False) [replicate 10 0, replicate 4050 0] = Some ber \<and> ber_end ber = 4060"
proof -
  have "ber_write (\<lambda>n. True) (ber_alloc_t False) (replicate 10 0) =
      (10, (ber_alloc_t False)\<lparr>ber_end := 4060, ber_ptr := 10, ber_buf := poke 0 (replicate 10 0) []\<rparr>)"
    by (simp add: ber_write_def ber_room_def ber_realloc_def write_cursor_def ber_alloc_t_def Let_def)
  then show ?thesis by (simp add: ber_write_def ber_room_def write_cursor_def ber_alloc_t_def Let_def)
qed

theorem ber_flatten_in_place_witness:
  "\<exists>ber. write_all (\<lambda>n. True) (ber_alloc_t False) [replicate 10 0, replicate 4050 0] = Some ber \<and> ber_flatten2 (\<lambda>n. True) (Some ber) False = None"
proof -
  obtain ber where b: "write_all (\<lambda>n. True) (ber_alloc_t False) [replicate 10 0, replicate 4050 0] = Some ber" "ber_end ber = 4060"
    using filled_element by blast
  from ber_flatten_in_place [OF b(1)] b show ?thesis by auto
qed

end
