(* ===== verification/Ber_Decode.thy ===== *)
theory Ber_Decode
  imports Ber_Encode
begin

text \<open>
  The BER reader, \<^verbatim>\<open>libraries/libreldap/decode.c\<close>. The buffer of an element being read is \<open>ber_buf\<close>, which has
  one octet more than \<open>ber_end\<close> for a terminating zero. Strings are parsed in place: the octet behind a string,
  which is the first one of the next tag, is overwritten by zero and lives on in \<^verbatim>\<open>ber_tag\<close>. \<open>None\<close> is an access
  outside the buffer.
\<close>

section \<open>Definitions\<close>

definition octet_at :: "BerElement \<Rightarrow> nat \<Rightarrow> octet option" where
  "octet_at ber i = (if i < length (ber_buf ber) then Some (ber_buf ber ! i) else None)"

definition ber_init2 :: "octet list \<Rightarrow> nat \<Rightarrow> BerElement" where
  "ber_init2 buf len = (ber_alloc_t False)\<lparr>ber_buf := buf, ber_end := len\<rparr>"

text \<open>The further octets of a tag: the tag, the octets left and the position behind it.\<close>

fun tag_loop :: "BerElement \<Rightarrow> nat \<Rightarrow> nat \<Rightarrow> nat \<Rightarrow> (nat \<times> nat \<times> nat) option" where
  "tag_loop ber tag rest ptr =
     (if rest = 0 then Some (LBER_DEFAULT, rest, ptr)
      else do {
        c \<leftarrow> octet_at ber ptr;
        let tag = (tag * 256) mod 2 ^ 64 + unat c;
        if even (tag div 0x80) then Some (tag, rest - 1, ptr + 1)
        else if tag \<le> (2 ^ 64 - 1) div 256 then tag_loop ber tag (rest - 1) (ptr + 1)
        else Some (LBER_DEFAULT, rest - 1, ptr + 1) })"

definition ber_tag_and_rest :: "BerElement \<Rightarrow> (nat \<times> nat \<times> nat) option" where
  "ber_tag_and_rest ber =
     (let ptr = ber_ptr ber; rest = ber_end ber - ptr in
      if rest = 0 then Some (LBER_DEFAULT, rest, ptr)
      else do {
        c \<leftarrow> octet_at ber ptr;
        let tag = (if ptr = 0 then unat c else ber_tag ber);
        if tag mod 0x20 \<noteq> 0x1f then Some (tag, rest - 1, ptr + 1)
        else tag_loop ber tag (rest - 1) (ptr + 1) })"

definition ber_get_tag :: "BerElement \<Rightarrow> (nat \<times> BerElement) option" where
  "ber_get_tag ber = do { (tag, _, ptr) \<leftarrow> ber_tag_and_rest ber; Some (tag, ber\<lparr>ber_ptr := ptr\<rparr>) }"

fun len_loop :: "BerElement \<Rightarrow> nat \<Rightarrow> nat \<Rightarrow> nat \<Rightarrow> (nat \<times> nat) option" where
  "len_loop ber 0 len ptr = Some (len, ptr)"
| "len_loop ber (Suc i) len ptr = do { c \<leftarrow> octet_at ber ptr; len_loop ber i (len * 256 + unat c) (ptr + 1) }"

text \<open>The tag of the next element, the length of its contents and where they begin.\<close>

definition ber_peek_element :: "BerElement \<Rightarrow> (nat \<times> nat \<times> nat) option" where
  "ber_peek_element ber = do {
     (tag, rest, ptr) \<leftarrow> ber_tag_and_rest ber;
     if tag = LBER_DEFAULT \<or> rest = 0 then Some (LBER_DEFAULT, 0, ptr)
     else do {
       c \<leftarrow> octet_at ber ptr;
       let len = unat c;
       let rest = rest - 1;
       let ptr = ptr + 1;
       if len \<ge> 0x80
       then let n = len - 0x80 in
            if \<not> (1 \<le> n \<and> n \<le> 8) \<or> rest < n then Some (LBER_DEFAULT, n, ptr)
            else do {
              (len, ptr) \<leftarrow> len_loop ber n 0 ptr;
              Some (if len > rest - n then LBER_DEFAULT else tag, len, ptr) }
       else Some (if len > rest then LBER_DEFAULT else tag, len, ptr) } }"

definition goto :: "BerElement \<Rightarrow> nat \<Rightarrow> BerElement option" where
  "goto ber p = do { c \<leftarrow> octet_at ber p; Some (ber\<lparr>ber_ptr := p, ber_tag := unat c\<rparr>) }"

definition ber_skip_element :: "BerElement \<Rightarrow> (nat \<times> nat \<times> nat \<times> BerElement) option" where
  "ber_skip_element ber = do {
     (tag, len, val) \<leftarrow> ber_peek_element ber;
     if tag \<noteq> LBER_DEFAULT then do { ber \<leftarrow> goto ber (val + len); Some (tag, len, val, ber) }
     else Some (tag, len, val, ber) }"

definition ber_skip_raw :: "BerElement \<Rightarrow> (nat \<times> nat \<times> nat \<times> BerElement) option" where
  "ber_skip_raw ber = do {
     let start = ber_ptr ber;
     (tag, len, val, ber) \<leftarrow> ber_skip_element ber;
     if tag \<noteq> LBER_DEFAULT then Some (tag, len + (val - start), start, ber) else Some (tag, len, val, ber) }"

definition ber_peek_tag :: "BerElement \<Rightarrow> (nat \<times> nat) option" where
  "ber_peek_tag ber = do { (tag, len, _) \<leftarrow> ber_peek_element ber; Some (tag, len) }"

definition ber_skip_tag :: "BerElement \<Rightarrow> (nat \<times> nat \<times> BerElement) option" where
  "ber_skip_tag ber = do { (tag, len, val) \<leftarrow> ber_peek_element ber; ber \<leftarrow> goto ber val; Some (tag, len, ber) }"

text \<open>Contents in the buffer.\<close>

definition contents :: "BerElement \<Rightarrow> nat \<Rightarrow> nat \<Rightarrow> octet list option" where
  "contents ber val len = (if val + len \<le> length (ber_buf ber) then Some (take len (drop val (ber_buf ber))) else None)"

fun int_loop :: "int \<Rightarrow> octet list \<Rightarrow> int" where
  "int_loop netnum [] = netnum"
| "int_loop netnum (b # bs) = int_loop (netnum * 256 + int (unat b)) bs"

text \<open>The integer, or the error of a too long one.\<close>

definition ber_decode_int :: "octet list \<Rightarrow> int option" where
  "ber_decode_int bs =
     (if length bs > 4 then None
      else case bs of [] \<Rightarrow> Some 0 | b # bs \<Rightarrow> Some (int_loop (int (unat (b XOR 0x80)) - 0x80) bs))"

text \<open>A result is the tag, the value if there is one, and the element.\<close>

definition ber_get_int :: "BerElement \<Rightarrow> (nat \<times> int option \<times> BerElement) option" where
  "ber_get_int ber = do {
     (tag, len, val, ber) \<leftarrow> ber_skip_element ber;
     if tag = LBER_DEFAULT then Some (tag, None, ber)
     else do {
       bs \<leftarrow> contents ber val len;
       Some (case ber_decode_int bs of None \<Rightarrow> (LBER_DEFAULT, None, ber) | Some n \<Rightarrow> (tag, Some n, ber)) } }"

definition ber_get_enum :: "BerElement \<Rightarrow> (nat \<times> int option \<times> BerElement) option" where
  "ber_get_enum ber = ber_get_int ber"

definition ber_get_boolean :: "BerElement \<Rightarrow> (nat \<times> int option \<times> BerElement) option" where
  "ber_get_boolean ber = ber_get_int ber"

text \<open>Into a buffer of the caller of \<open>n\<close> octets.\<close>

definition ber_get_stringb :: "BerElement \<Rightarrow> nat \<Rightarrow> (nat \<times> octet list option \<times> BerElement) option" where
  "ber_get_stringb ber n = do {
     (tag, len, val, ber) \<leftarrow> ber_skip_element ber;
     if tag = LBER_DEFAULT \<or> len \<ge> n then Some (LBER_DEFAULT, None, ber)
     else do { bs \<leftarrow> contents ber val len; Some (tag, Some bs, ber) } }"

text \<open>The options of the string functions, and a string: in place, by offset and length, or a copy.\<close>

record bv_option =
  BV_ALLOC :: bool
  BV_NOTERM :: bool
  BV_STRING :: bool

datatype bval = InPlace nat nat | Copied "octet list"

definition memalloc :: "(nat \<Rightarrow> bool) \<Rightarrow> nat \<Rightarrow> bool" where
  "memalloc avail n \<longleftrightarrow> n \<noteq> 0 \<and> avail n"

definition terminate_at :: "BerElement \<Rightarrow> nat \<Rightarrow> BerElement option" where
  "terminate_at ber i = do { _ \<leftarrow> octet_at ber i; Some (ber\<lparr>ber_buf := (ber_buf ber)[i := 0]\<rparr>) }"

text \<open>What \<^verbatim>\<open>ber_get_stringbv\<close> and its variant do once the element is skipped.\<close>

definition take_stringbv :: "(nat \<Rightarrow> bool) \<Rightarrow> bv_option \<Rightarrow> nat \<Rightarrow> nat \<Rightarrow> nat \<Rightarrow> BerElement \<Rightarrow> (nat \<times> bval option \<times> BerElement) option" where
  "take_stringbv avail opt tag len val ber = do {
     bs \<leftarrow> contents ber val len;
     if BV_ALLOC opt
     then Some (if memalloc avail (len + 1) then (tag, Some (Copied bs), ber) else (LBER_DEFAULT, None, ber))
     else if BV_NOTERM opt then Some (tag, Some (InPlace val len), ber)
     else do { ber \<leftarrow> terminate_at ber (val + len); Some (tag, Some (InPlace val len), ber) } }"

definition embedded_nul :: "octet list \<Rightarrow> bool" where
  "embedded_nul bs \<longleftrightarrow> 0 \<in> set (take (length bs - 1) bs)"

definition ber_get_stringbv :: "(nat \<Rightarrow> bool) \<Rightarrow> BerElement \<Rightarrow> bv_option \<Rightarrow> (nat \<times> bval option \<times> BerElement) option" where
  "ber_get_stringbv avail ber opt = do {
     (tag, len, val, ber) \<leftarrow> ber_skip_element ber;
     if tag = LBER_DEFAULT then Some (LBER_DEFAULT, None, ber)
     else do {
       bs \<leftarrow> contents ber val len;
       if BV_STRING opt \<and> len \<noteq> 0 \<and> embedded_nul bs then Some (LBER_DEFAULT, None, ber)
       else take_stringbv avail opt tag len val ber } }"

definition ber_get_stringbv_null :: "(nat \<Rightarrow> bool) \<Rightarrow> BerElement \<Rightarrow> bv_option \<Rightarrow> (nat \<times> bval option \<times> BerElement) option" where
  "ber_get_stringbv_null avail ber opt = do {
     (tag, len, val, ber) \<leftarrow> ber_skip_element ber;
     if tag = LBER_DEFAULT \<or> len = 0 then Some (tag, None, ber)
     else do {
       bs \<leftarrow> contents ber val len;
       if BV_STRING opt \<and> embedded_nul bs then Some (LBER_DEFAULT, None, ber)
       else take_stringbv avail opt tag len val ber } }"

definition ber_get_stringa :: "(nat \<Rightarrow> bool) \<Rightarrow> BerElement \<Rightarrow> (nat \<times> bval option \<times> BerElement) option" where
  "ber_get_stringa avail ber = ber_get_stringbv avail ber \<lparr>BV_ALLOC = True, BV_NOTERM = False, BV_STRING = True\<rparr>"

definition ber_get_stringa_null :: "(nat \<Rightarrow> bool) \<Rightarrow> BerElement \<Rightarrow> (nat \<times> bval option \<times> BerElement) option" where
  "ber_get_stringa_null avail ber = ber_get_stringbv_null avail ber \<lparr>BV_ALLOC = True, BV_NOTERM = False, BV_STRING = True\<rparr>"

definition ber_get_stringal :: "(nat \<Rightarrow> bool) \<Rightarrow> BerElement \<Rightarrow> (nat \<times> bval option \<times> BerElement) option" where
  "ber_get_stringal avail ber =
     (if \<not> memalloc avail 16 then Some (LBER_DEFAULT, None, ber)
      else ber_get_stringbv avail ber \<lparr>BV_ALLOC = True, BV_NOTERM = False, BV_STRING = False\<rparr>)"

text \<open>The octets and the number of bits.\<close>

definition ber_get_bitstringa :: "(nat \<Rightarrow> bool) \<Rightarrow> BerElement \<Rightarrow> (nat \<times> (octet list \<times> int) option \<times> BerElement) option" where
  "ber_get_bitstringa avail ber = do {
     (tag, len, val, ber) \<leftarrow> ber_skip_element ber;
     if tag = LBER_DEFAULT \<or> len = 0 \<or> len - 1 > (2 ^ 64 - 1) div 8 then Some (LBER_DEFAULT, None, ber)
     else do {
       bs \<leftarrow> contents ber val len;
       let unusedbits = unat (hd bs);
       Some (if unusedbits > 7 \<or> 0 \<in> set (tl bs) \<or> \<not> memalloc avail (len - 1) then (LBER_DEFAULT, None, ber)
             else (tag, Some (tl bs, int (len - 1) * 8 - int unusedbits), ber)) } }"

definition ber_get_null :: "BerElement \<Rightarrow> (nat \<times> BerElement) option" where
  "ber_get_null ber = do {
     (tag, len, ber) \<leftarrow> ber_skip_tag ber;
     Some (if len = 0 then tag else LBER_DEFAULT, ber) }"

text \<open>The tag, the length, the end of the sequence if it has a header, and the element.\<close>

definition ber_first_element :: "BerElement \<Rightarrow> (nat \<times> nat \<times> nat option \<times> BerElement) option" where
  "ber_first_element ber = do {
     (tag, len, ber) \<leftarrow> ber_skip_tag ber;
     if tag = LBER_DEFAULT then Some (LBER_DEFAULT, len, None, ber)
     else let lst = ber_ptr ber + len in
          if len = 0 then Some (LBER_DEFAULT, len, Some lst, ber)
          else do { (tag, len) \<leftarrow> ber_peek_tag ber; Some (tag, len, Some lst, ber) } }"

definition ber_next_element :: "BerElement \<Rightarrow> nat \<Rightarrow> (nat \<times> nat option) option" where
  "ber_next_element ber lst =
     (if ber_ptr ber \<ge> lst then Some (LBER_DEFAULT, None)
      else do { (tag, len) \<leftarrow> ber_peek_tag ber; Some (tag, Some len) })"

declare tag_loop.simps [simp del]

lemma tag_loop_advances: "tag_loop ber tag rest ptr = Some (t, r, p) \<Longrightarrow> ptr \<le> p"
proof (induction ber tag rest ptr arbitrary: t r p rule: tag_loop.induct)
  case (1 ber tag rest ptr)
  show ?case using 1(2) 1(1) by (subst (asm) tag_loop.simps) (fastforce simp: bind_eq_Some_conv Let_def split: if_splits)
qed

lemma tag_and_rest_advances: "ber_tag_and_rest ber = Some (t, r, p) \<Longrightarrow> ber_ptr ber \<le> p"
  by (auto simp: ber_tag_and_rest_def bind_eq_Some_conv Let_def split: if_splits dest!: tag_loop_advances)

lemma len_loop_advances: "len_loop ber i n ptr = Some (l, p) \<Longrightarrow> p = ptr + i"
  by (induction ber i n ptr rule: len_loop.induct) (auto simp: bind_eq_Some_conv)

lemma skip_advances:
  assumes "ber_skip_element ber = Some (tag, len, val, ber')" "tag \<noteq> LBER_DEFAULT"
  shows "ber_ptr ber < ber_ptr ber'"
  using assms
  by (auto simp: ber_skip_element_def ber_peek_element_def bind_eq_Some_conv Let_def goto_def split: if_splits
      dest!: tag_and_rest_advances len_loop_advances)

text \<open>The vectors of strings: the first pass counts the elements, the second one takes them.\<close>

datatype bgbvc = ChArray | BvArray | BvVec | BvOff

function count_loop :: "BerElement \<Rightarrow> nat \<Rightarrow> nat \<Rightarrow> (nat \<times> BerElement) option" where
  "count_loop ber lst i =
     (if ber_ptr ber < lst
      then case ber_skip_element ber of
             None \<Rightarrow> None
           | Some (tag, len, val, ber') \<Rightarrow> if tag = LBER_DEFAULT then Some (i, ber') else count_loop ber' lst (Suc i)
      else Some (i, ber))"
  by auto

termination
  by (relation "measure (\<lambda>(ber, lst, i). lst - ber_ptr ber)") (auto dest: skip_advances)

fun vector_loop :: "(nat \<Rightarrow> bool) \<Rightarrow> bgbvc \<Rightarrow> bv_option \<Rightarrow> BerElement \<Rightarrow> nat \<Rightarrow> (nat \<times> bval list option \<times> BerElement) option" where
  "vector_loop avail choice opt ber 0 = Some (0, Some [], ber)"
| "vector_loop avail choice opt ber (Suc n) = do {
     (tag, b, ber) \<leftarrow> ber_get_stringbv avail ber opt;
     if tag = LBER_DEFAULT \<or> choice = BvVec \<and> \<not> memalloc avail 16 then Some (LBER_DEFAULT, None, ber)
     else if n = 0 then Some (tag, map_option (\<lambda>b. [b]) b, ber)
     else do {
       (tag, bs, ber) \<leftarrow> vector_loop avail choice opt ber n;
       Some (tag, do { b \<leftarrow> b; bs \<leftarrow> bs; Some (b # bs) }, ber) } }"

text \<open>The tag, the vector if there is one, its length, and the element.\<close>

definition ber_get_stringbvl :: "(nat \<Rightarrow> bool) \<Rightarrow> BerElement \<Rightarrow> bgbvc \<Rightarrow> bv_option \<Rightarrow> nat \<Rightarrow>
    (nat \<times> bval list option \<times> nat \<times> BerElement) option" where
  "ber_get_stringbvl avail ber choice opt siz = do {
     (tag, len, ber) \<leftarrow> ber_skip_tag ber;
     (if tag = LBER_DEFAULT then Some (tag, None, 0, ber)
      else do {
        let orig = ber_ptr ber;
        let lst = orig + len;
        (i, ber) \<leftarrow> count_loop ber lst 0;
        let (tag, i) = (if ber_ptr ber \<noteq> lst then (LBER_DEFAULT, 0) else (0, i));
        ber \<leftarrow> goto ber orig;
        if i = 0 then Some (tag, None, 0, ber)
        else if \<not> memalloc avail (i * siz + siz) then Some (LBER_DEFAULT, None, i, ber)
        else do { (tag, bs, ber) \<leftarrow> vector_loop avail choice opt ber i; Some (tag, bs, i, ber) } }) }"

text \<open>The arguments of \<^verbatim>\<open>ber_scanf\<close> that matter to it, and what it stores: an integer that was not stored is \<open>None\<close>,
  a null pointer too.\<close>

datatype scan_arg =
    ScanHook "BerElement \<Rightarrow> nat \<Rightarrow> nat \<times> BerElement"
  | ScanBuf nat
  | ScanOff nat
  | ScanOut

datatype scan_out =
    OutHook "BerElement \<Rightarrow> nat \<Rightarrow> nat \<times> BerElement"
  | OutInt "int option"
  | OutStr "bval option"
  | OutBuf "octet list option"
  | OutBits "(octet list \<times> int) option"
  | OutLen nat
  | OutTag nat
  | OutVec "bval list option" nat

definition opts :: "bool \<Rightarrow> bool \<Rightarrow> bv_option" where
  "opts alloc str = \<lparr>BV_ALLOC = alloc, BV_NOTERM = False, BV_STRING = str\<rparr>"

type_synonym scan_result = "nat \<times> BerElement \<times> scan_out list"

definition with_out :: "('a \<Rightarrow> scan_out) \<Rightarrow> (nat \<times> 'a \<times> BerElement) option \<Rightarrow> scan_result option" where
  "with_out f m = do { (tag, x, ber) \<leftarrow> m; Some (tag, ber, [f x]) }"

definition vec_out :: "(nat \<times> bval list option \<times> nat \<times> BerElement) option \<Rightarrow> scan_result option" where
  "vec_out m = do { (tag, bs, n, ber) \<leftarrow> m; Some (tag, ber, [OutVec bs n]) }"

text \<open>A letter that takes no argument, then one that takes one.\<close>

definition scan_plain :: "nat \<Rightarrow> BerElement \<Rightarrow> char \<Rightarrow> char option \<Rightarrow> scan_result option option" where
  "scan_plain rc ber c nx =
     (if c = CHR ''n'' then Some (do { (tag, ber) \<leftarrow> ber_get_null ber; Some (tag, ber, []) })
      else if c = CHR ''x'' then Some (do { (tag, _, _, ber) \<leftarrow> ber_skip_element ber; Some (tag, ber, []) })
      else if c = CHR 0x7B \<or> c = CHR 0x5B
      then Some (if nx \<in> {Some (CHR ''v''), Some (CHR ''V''), Some (CHR ''W''), Some (CHR ''M'')} then Some (rc, ber, [])
                 else do { (tag, _, ber) \<leftarrow> ber_skip_tag ber; Some (tag, ber, []) })
      else if c = CHR 0x7D \<or> c = CHR 0x5D then Some (Some (rc, ber, []))
      else None)"

definition scan_into :: "(nat \<Rightarrow> bool) \<Rightarrow> BerElement \<Rightarrow> char \<Rightarrow> scan_arg \<Rightarrow> scan_result option" where
  "scan_into avail ber c arg =
     (if c = CHR 0x21 then
        (case arg of ScanHook f \<Rightarrow> let (rc, ber) = f ber 0 in Some (rc, ber, [OutHook f]) | _ \<Rightarrow> None)
      else if c = CHR ''a'' then with_out OutStr (ber_get_stringa avail ber)
      else if c = CHR ''A'' then with_out OutStr (ber_get_stringa_null avail ber)
      else if c = CHR ''b'' then with_out OutInt (ber_get_boolean ber)
      else if c = CHR ''B'' then with_out OutBits (ber_get_bitstringa avail ber)
      else if c = CHR ''e'' \<or> c = CHR ''i'' then with_out OutInt (ber_get_int ber)
      else if c = CHR ''l'' then do { (tag, len) \<leftarrow> ber_peek_tag ber; Some (tag, ber, [OutLen len]) }
      else if c = CHR ''m'' then with_out OutStr (ber_get_stringbv avail ber (opts False False))
      else if c = CHR ''M'' then
        (case arg of ScanOff siz \<Rightarrow> vec_out (ber_get_stringbvl avail ber BvOff (opts False False) siz) | _ \<Rightarrow> None)
      else if c = CHR ''o'' then with_out OutStr (ber_get_stringbv avail ber (opts True False))
      else if c = CHR ''O'' then with_out OutStr (ber_get_stringal avail ber)
      else if c = CHR ''s'' then
        (case arg of ScanBuf n \<Rightarrow> with_out OutBuf (ber_get_stringb ber n) | _ \<Rightarrow> None)
      else if c = CHR ''t'' then do { (tag, _) \<leftarrow> ber_peek_tag ber; Some (tag, ber, [OutTag tag]) }
      else if c = CHR ''T'' then do { (tag, _, ber) \<leftarrow> ber_skip_tag ber; Some (tag, ber, [OutTag tag]) }
      else if c = CHR ''v'' then vec_out (ber_get_stringbvl avail ber ChArray (opts True True) 8)
      else if c = CHR ''V'' then vec_out (ber_get_stringbvl avail ber BvVec (opts True False) 8)
      else if c = CHR ''W'' then vec_out (ber_get_stringbvl avail ber BvArray (opts True False) 16)
      else None)"

text \<open>The second pass after an error forgets what was stored; an unknown letter stops the program there.\<close>

fun reset_out :: "scan_out \<Rightarrow> BerElement \<Rightarrow> scan_out \<times> BerElement" where
  "reset_out (OutHook f) ber = (OutHook f, snd (f ber 1))"
| "reset_out (OutStr b) ber = (OutStr None, ber)"
| "reset_out (OutBuf b) ber = (OutBuf None, ber)"
| "reset_out (OutBits b) ber = (OutBits None, ber)"
| "reset_out (OutLen n) ber = (OutLen 0, ber)"
| "reset_out (OutVec v n) ber = (OutVec None 0, ber)"
| "reset_out (OutInt i) ber = (OutInt i, ber)"
| "reset_out (OutTag t) ber = (OutTag t, ber)"

fun reset_outs :: "scan_out list \<Rightarrow> BerElement \<Rightarrow> scan_out list \<times> BerElement" where
  "reset_outs [] ber = ([], ber)"
| "reset_outs (x # xs) ber = (let (x, ber) = reset_out x ber; (xs, ber) = reset_outs xs ber in (x # xs, ber))"

fun ber_scanf_loop :: "(nat \<Rightarrow> bool) \<Rightarrow> nat \<Rightarrow> BerElement \<Rightarrow> string \<Rightarrow> scan_arg list \<Rightarrow> scan_out list \<Rightarrow> (nat \<times> BerElement \<times> scan_out list) option" where
  "ber_scanf_loop avail rc ber [] args outs = Some (rc, ber, outs)"
| "ber_scanf_loop avail rc ber (c # fmt) args outs =
     (if rc = LBER_DEFAULT then Some (rc, ber, outs)
      else case scan_plain rc ber c (case fmt of [] \<Rightarrow> None | d # _ \<Rightarrow> Some d) of
             Some r \<Rightarrow> do { (rc, ber, o') \<leftarrow> r; ber_scanf_loop avail rc ber fmt args (outs @ o') }
           | None \<Rightarrow>
               (case args of
                  [] \<Rightarrow> None
                | arg # args \<Rightarrow> do { (rc, ber, o') \<leftarrow> scan_into avail ber c arg; ber_scanf_loop avail rc ber fmt args (outs @ o') }))"

definition ber_scanf :: "(nat \<Rightarrow> bool) \<Rightarrow> BerElement \<Rightarrow> string \<Rightarrow> scan_arg list \<Rightarrow> (nat \<times> BerElement \<times> scan_out list) option" where
  "ber_scanf avail ber fmt args = do {
     (rc, ber, outs) \<leftarrow> ber_scanf_loop avail 0 ber fmt args [];
     if rc = LBER_DEFAULT then let (outs, ber) = reset_outs outs ber in Some (rc, ber, outs)
     else Some (rc, ber, outs) }"

section \<open>Reading what is left\<close>

text \<open>The element stands before the octets \<open>xs\<close>, the first of which is in \<^verbatim>\<open>ber_tag\<close> unless the reading has not begun.\<close>

definition reader :: "BerElement \<Rightarrow> octet list \<Rightarrow> bool" where
  "reader ber xs \<longleftrightarrow> ber_end ber < length (ber_buf ber) \<and> ber_ptr ber + length xs = ber_end ber \<and>
     (xs \<noteq> [] \<longrightarrow> take (length xs - 1) (drop (ber_ptr ber + 1) (ber_buf ber)) = tl xs \<and>
        (if ber_ptr ber = 0 then ber_buf ber ! 0 = hd xs else ber_tag ber = unat (hd xs)))"

text \<open>A tag that can be read back: one octet, or a first octet that announces more and a last one that ends it.\<close>

definition tag_ok :: "nat \<Rightarrow> bool" where
  "tag_ok tag \<longleftrightarrow> tag < 2 ^ 64 \<and> tag \<noteq> LBER_DEFAULT \<and>
     (let xs = tag_octets tag in
      if length xs = 1 then unat (hd xs) mod 32 \<noteq> 31
      else unat (hd xs) mod 32 = 31 \<and> unat (List.last xs) < 128 \<and> (\<forall>b \<in> set (butlast (tl xs)). 128 \<le> unat b))"

lemma reader_at:
  assumes "reader ber xs" "0 < i" "i < length xs"
  shows "octet_at ber (ber_ptr ber + i) = Some (xs ! i)"
proof -
  have "xs \<noteq> []" using assms(3) by auto
  then have t: "take (length xs - 1) (drop (ber_ptr ber + 1) (ber_buf ber)) = tl xs" and l: "ber_end ber < length (ber_buf ber)" "ber_ptr ber + length xs = ber_end ber"
    using assms(1) by (auto simp: reader_def)
  have "tl xs ! (i - 1) = ber_buf ber ! (ber_ptr ber + 1 + (i - 1))" using assms l by (simp flip: t)
  moreover have "tl xs ! (i - 1) = xs ! i" using assms by (simp add: nth_tl)
  ultimately show ?thesis using assms l by (simp add: octet_at_def)
qed

lemma reader_first:
  assumes "reader ber xs" "xs \<noteq> []"
  shows "\<exists>c. octet_at ber (ber_ptr ber) = Some c \<and> (if ber_ptr ber = 0 then unat c else ber_tag ber) = unat (hd xs)"
  using assms by (auto simp: reader_def octet_at_def)

lemma reader_end: "reader ber xs \<Longrightarrow> \<exists>c. octet_at ber (ber_ptr ber + length xs) = Some c"
  by (simp add: reader_def octet_at_def)

lemma top_bit: "n < 256 \<Longrightarrow> n div 128 = (if n < 128 then 0 else 1 :: nat)"
  by (cases "n < 128") (auto intro: div_nat_eqI)

text \<open>Reading the octets \<open>ys\<close> of a tag after those that gave \<open>tag\<close>.\<close>

lemma tag_loop_reads:
  assumes "\<And>i. i < length ys \<Longrightarrow> octet_at ber (ptr + i) = Some (ys ! i)" "ys \<noteq> []"
    and "unat (last ys) < 128" "\<forall>b \<in> set (butlast ys). 128 \<le> unat b" "tag * 256 ^ length ys + be ys < 2 ^ 64" "0 < tag"
  shows "tag_loop ber tag (length ys + r) ptr = Some (tag * 256 ^ length ys + be ys, r, ptr + length ys)"
  using assms
proof (induction ys arbitrary: tag ptr)
  case (Cons y ys)
  have y: "octet_at ber ptr = Some y" using Cons.prems(1) [of 0] by simp
  have small: "tag * 256 < 2 ^ 64"
  proof -
    have "tag * 256 \<le> tag * 256 ^ length (y # ys)" by simp
    then show ?thesis using Cons.prems(5) by linarith
  qed
  let ?tag = "tag * 256 + unat y"
  have m: "(tag * 256) mod 2 ^ 64 + unat y = ?tag" using small by simp
  have ev: "even (?tag div 128) \<longleftrightarrow> unat y < 128"
  proof -
    have "?tag div 128 = tag * 2 + unat y div 128" by simp
    moreover have "unat y div 128 = (if unat y < 128 then 0 else 1)" using unat_octet_less [of y] by (rule top_bit)
    ultimately show ?thesis by simp
  qed
  show ?case
  proof (cases "ys = []")
    case True
    then show ?thesis using Cons.prems y m ev by (subst tag_loop.simps) (simp add: Let_def be_Cons)
  next
    case False
    then have "128 \<le> unat y" using Cons.prems(4) by auto
    moreover have "be (y # ys) + tag * 256 ^ length (y # ys) = ?tag * 256 ^ length ys + be ys" by (simp add: be_Cons algebra_simps)
    moreover have "?tag * 256 \<le> ?tag * 256 ^ length ys" using False by (intro mult_le_mono2) (cases ys, auto)
    ultimately have "?tag \<le> (2 ^ 64 - 1) div 256" using Cons.prems(5) by (simp add: less_eq_div_iff_mult_less_eq)
    moreover have "octet_at ber (ptr + 1 + i) = Some (ys ! i)" if "i < length ys" for i using Cons.prems(1) [of "Suc i"] that by simp
    ultimately show ?thesis
      using Cons.IH [of "ptr + 1" ?tag] Cons.prems False y m ev \<open>128 \<le> unat y\<close>
      by (subst tag_loop.simps) (simp add: Let_def be_Cons algebra_simps)
  qed
qed simp


lemma tag_and_rest_reads:
  assumes r: "reader ber (tag_octets tag @ xs)" and ok: "tag_ok tag"
  shows "ber_tag_and_rest ber = Some (tag, length xs, ber_ptr ber + length (tag_octets tag))"
proof -
  let ?t = "tag_octets tag" and ?p = "ber_ptr ber"
  have ne: "?t \<noteq> []" and v: "be ?t = tag" using length_tag_octets(2) be_tag_octets by auto
  obtain b ys where t: "?t = b # ys" using ne by (cases ?t) auto
  have rest: "ber_end ber - ?p = length ?t + length xs" using r unfolding reader_def by auto
  obtain c where c: "octet_at ber ?p = Some c" "(if ?p = 0 then unat c else ber_tag ber) = unat b"
    using reader_first [OF r] t by auto
  have lt: "tag < 2 ^ 64" using ok by (simp add: tag_ok_def)
  show ?thesis
  proof (cases "ys = []")
    case True
    then have "unat b mod 32 \<noteq> 31" "unat b = tag" using ok t v by (auto simp: tag_ok_def be_Cons)
    then show ?thesis using c rest t True by (simp add: ber_tag_and_rest_def Let_def)
  next
    case False
    then have b: "unat b mod 32 = 31" "unat (last ys) < 128" "\<forall>y \<in> set (butlast ys). 128 \<le> unat y" using ok t by (auto simp: tag_ok_def Let_def)
    have "octet_at ber (?p + 1 + i) = Some (ys ! i)" if "i < length ys" for i
      using reader_at [OF r, of "Suc i"] that t by (simp add: nth_append)
    moreover have "unat b * 256 ^ length ys + be ys = tag" using v t by (simp add: be_Cons)
    moreover have "0 < unat b" using b(1) by (cases "unat b") auto
    ultimately have "tag_loop ber (unat b) (length ys + length xs) (?p + 1) = Some (tag, length xs, ?p + 1 + length ys)"
      using tag_loop_reads [of ys ber "?p + 1" "unat b" "length xs"] False b lt by simp
    then show ?thesis using c rest t b(1) by (simp add: ber_tag_and_rest_def Let_def)
  qed
qed

lemma len_loop_reads:
  assumes "\<And>i. i < length ys \<Longrightarrow> octet_at ber (ptr + i) = Some (ys ! i)"
  shows "len_loop ber (length ys) n ptr = Some (n * 256 ^ length ys + be ys, ptr + length ys)"
  using assms
proof (induction ys arbitrary: n ptr)
  case (Cons y ys)
  have "octet_at ber (ptr + 1 + i) = Some (ys ! i)" if "i < length ys" for i using Cons.prems [of "Suc i"] that by simp
  then show ?case using Cons.IH [of "ptr + 1"] Cons.prems [of 0] by (simp add: be_Cons algebra_simps)
qed simp

text \<open>The two forms of a length.\<close>

definition len_form :: "octet list \<Rightarrow> nat \<Rightarrow> bool" where
  "len_form l n \<longleftrightarrow> n < 128 \<and> l = [of_nat n] \<or> (\<exists>ys. l = of_nat (128 + length ys) # ys \<and> 1 \<le> length ys \<and> length ys \<le> 8 \<and> be ys = n)"

lemma len_form_octets: "n < 2 ^ 64 \<Longrightarrow> len_form (len_octets n) n"
proof (cases "n < 128")
  case False
  assume "n < 2 ^ 64"
  then have "length (octets n) \<le> 8" "octets n \<noteq> []" using length_octets [of n 8] hd_octets [of n] False by auto
  then show ?thesis using False unfolding len_form_def len_octets_cases
    by (intro disjI2 exI [of _ "octets n"]) (auto simp: Suc_le_eq)
qed (simp add: len_form_def len_octets_cases)

lemma len_form_long: "n < 2 ^ 32 \<Longrightarrow> len_form (long_len n) n"
proof -
  assume n: "n < 2 ^ 32"
  have "octets_u32 (u32_octets n @ []) = n" using octets_u32_octets [OF n] .
  moreover have "long_len n = of_nat (128 + 4) # rev (u32_octets n)" by (simp add: long_len_def u32_octets_def SOS_LENLEN_def)
  moreover have "be (rev (u32_octets n)) = octets_u32 (u32_octets n)" by (simp add: u32_octets_def be_Cons octets_u32_def)
  ultimately show ?thesis unfolding len_form_def by (intro disjI2 exI [of _ "rev (u32_octets n)"]) simp
qed

lemma peek_reads:
  assumes r: "reader ber (tag_octets tag @ l @ c @ xs)" and ok: "tag_ok tag" and l: "len_form l (length c)"
  shows "ber_peek_element ber = Some (tag, length c, ber_ptr ber + length (tag_octets tag) + length l)"
proof -
  let ?t = "tag_octets tag" and ?q = "ber_ptr ber + length (tag_octets tag)"
  have tr: "ber_tag_and_rest ber = Some (tag, length (l @ c @ xs), ?q)" using tag_and_rest_reads [OF r ok] by simp
  have at: "octet_at ber (?q + i) = Some (l ! i)" if "i < length l" for i
    using reader_at [OF r, of "length ?t + i"] that length_tag_octets(2) [of tag] by (simp add: nth_append add.assoc)
  have d: "tag \<noteq> LBER_DEFAULT" using ok by (simp add: tag_ok_def)
  from l consider "length c < 128" "l = [of_nat (length c)]"
    | ys where "l = of_nat (128 + length ys) # ys" "1 \<le> length ys" "length ys \<le> 8" "be ys = length c"
    by (auto simp: len_form_def)
  then show ?thesis
  proof cases
    case 1
    then show ?thesis using at [of 0] tr d by (simp add: ber_peek_element_def Let_def)
  next
    case (2 ys)
    have h: "unat (of_nat (128 + length ys) :: octet) = 128 + length ys" using unat_octet [of "128 + length ys"] 2(3) by (simp del: of_nat_add)
    have "octet_at ber (?q + 1 + i) = Some (ys ! i)" if "i < length ys" for i using at [of "Suc i"] 2(1) that by simp
    then have ll: "len_loop ber (length ys) 0 (?q + 1) = Some (length c, ?q + 1 + length ys)"
      using len_loop_reads [of ys ber "?q + 1" 0] 2(4) by simp
    have "octet_at ber ?q = Some (of_nat (128 + length ys))" using at [of 0] 2(1) by simp
    then show ?thesis using tr d ll h 2 unfolding ber_peek_element_def by (simp add: Let_def)
  qed
qed


lemma goto_reads:
  assumes r: "reader ber (ys @ xs)" and ys: "ys \<noteq> []"
  obtains c where "goto ber (ber_ptr ber + length ys) = Some (ber\<lparr>ber_ptr := ber_ptr ber + length ys, ber_tag := c\<rparr>)"
    "reader (ber\<lparr>ber_ptr := ber_ptr ber + length ys, ber_tag := c\<rparr>) xs"
proof -
  let ?q = "ber_ptr ber + length ys"
  have l: "ber_end ber < length (ber_buf ber)" "?q + length xs = ber_end ber"
    and t: "take (length ys + length xs - 1) (drop (ber_ptr ber + 1) (ber_buf ber)) = tl ys @ xs"
    using r ys by (auto simp: reader_def)
  let ?b = "ber\<lparr>ber_ptr := ?q, ber_tag := unat (ber_buf ber ! ?q)\<rparr>"
  have g: "goto ber ?q = Some ?b" using l by (simp add: goto_def octet_at_def)
  have d: "drop (length ys - 1) (take (length ys + length xs - 1) (drop (ber_ptr ber + 1) (ber_buf ber))) = xs"
    using ys by (simp only: t) simp
  moreover have "drop (length ys - 1) (take (length ys + length xs - 1) (drop (ber_ptr ber + 1) (ber_buf ber))) = take (length xs) (drop ?q (ber_buf ber))"
    using ys by (cases ys) (auto simp: drop_take add.commute)
  ultimately have x: "take (length xs) (drop ?q (ber_buf ber)) = xs" by simp
  have "reader ?b xs"
  proof (cases xs)
    case (Cons y zs)
    then have "ber_buf ber ! ?q = y" "take (length zs) (drop (?q + 1) (ber_buf ber)) = zs"
      using x l by (auto simp: take_Suc_conv_app_nth Cons_nth_drop_Suc [symmetric, of ?q "ber_buf ber"] simp del: take_Suc_conv_app_nth)
    then show ?thesis using l Cons ys by (auto simp: reader_def)
  qed (use l in \<open>simp add: reader_def\<close>)
  with g show thesis by (rule that)
qed


text \<open>Skipping the element \<open>t l c\<close>, or only its header.\<close>

lemma skip_element_reads:
  assumes r: "reader ber (tag_octets tag @ l @ c @ xs)" and ok: "tag_ok tag" and l: "len_form l (length c)"
  obtains val ber' where "ber_skip_element ber = Some (tag, length c, val, ber')" "reader ber' xs" "contents ber' val (length c) = Some c"
    "ber_ptr ber' = val + length c" "0 < val" "ber_buf ber' = ber_buf ber" "val = ber_ptr ber + length (tag_octets tag) + length l"
proof -
  let ?ys = "tag_octets tag @ l @ c" and ?val = "ber_ptr ber + length (tag_octets tag) + length l"
  have p: "ber_peek_element ber = Some (tag, length c, ?val)" using peek_reads [OF r ok l] .
  have v: "?val + length c = ber_ptr ber + length ?ys" by simp
  have ne: "?ys \<noteq> []" "0 < ?val" using length_tag_octets(2) [of tag] by auto
  obtain k where g: "goto ber (ber_ptr ber + length ?ys) = Some (ber\<lparr>ber_ptr := ber_ptr ber + length ?ys, ber_tag := k\<rparr>)"
    "reader (ber\<lparr>ber_ptr := ber_ptr ber + length ?ys, ber_tag := k\<rparr>) xs"
    using goto_reads [of ber ?ys xs] r ne by auto
  have c: "contents ber ?val (length c) = Some c"
  proof -
    have at: "octet_at ber (?val + i) = Some (c ! i)" if "i < length c" for i
      using reader_at [OF r, of "length (tag_octets tag) + length l + i"] that length_tag_octets(2) [of tag] by (simp add: nth_append add.assoc)
    have le: "?val + length c \<le> length (ber_buf ber)" using r ne by (auto simp: reader_def)
    have "take (length c) (drop ?val (ber_buf ber)) = c"
      using le at by (intro nth_equalityI) (auto simp: octet_at_def split: if_splits)
    then show ?thesis using le by (simp add: contents_def)
  qed
  define b where "b = ber\<lparr>ber_ptr := ber_ptr ber + length ?ys, ber_tag := k\<rparr>"
  have "contents b ?val (length c) = Some c" "ber_ptr b = ?val + length c" "ber_buf b = ber_buf ber"
    using c by (simp_all add: b_def contents_def split: if_splits)
  moreover have "ber_skip_element ber = Some (tag, length c, ?val, b)"
    using p g(1) ok unfolding ber_skip_element_def tag_ok_def v [symmetric] b_def by simp
  ultimately show thesis using that g(2) ne(2) by (simp add: b_def)
qed

lemma skip_tag_reads:
  assumes r: "reader ber (tag_octets tag @ l @ c @ xs)" and ok: "tag_ok tag" and l: "len_form l (length c)"
  obtains ber' where "ber_skip_tag ber = Some (tag, length c, ber')" "reader ber' (c @ xs)" "0 < ber_ptr ber'" "ber_buf ber' = ber_buf ber"
proof -
  let ?ys = "tag_octets tag @ l" and ?val = "ber_ptr ber + length (tag_octets tag) + length l"
  have v: "?val = ber_ptr ber + length ?ys" by simp
  have ne: "?ys \<noteq> []" "0 < ?val" using length_tag_octets(2) [of tag] by auto
  have "reader ber (?ys @ c @ xs)" using r by simp
  from goto_reads [OF this ne(1)] obtain k where
    g: "goto ber (ber_ptr ber + length ?ys) = Some (ber\<lparr>ber_ptr := ber_ptr ber + length ?ys, ber_tag := k\<rparr>)"
    "reader (ber\<lparr>ber_ptr := ber_ptr ber + length ?ys, ber_tag := k\<rparr>) (c @ xs)" by blast
  show thesis
  proof (rule that)
    show "ber_skip_tag ber = Some (tag, length c, ber\<lparr>ber_ptr := ber_ptr ber + length ?ys, ber_tag := k\<rparr>)"
      using peek_reads [OF r ok l] g(1) unfolding ber_skip_tag_def v by simp
  qed (use g(2) ne in auto)
qed

text \<open>Writing the terminating zero over the first octet of what follows does not disturb the reading of it.\<close>

lemma terminate_reads:
  assumes "reader ber xs" "0 < ber_ptr ber"
  obtains ber' where "terminate_at ber (ber_ptr ber) = Some ber'" "reader ber' xs" "ber_ptr ber' = ber_ptr ber"
    "ber_buf ber' = (ber_buf ber)[ber_ptr ber := 0]"
proof -
  have "ber_ptr ber < length (ber_buf ber)" using assms(1) by (auto simp: reader_def)
  then have "terminate_at ber (ber_ptr ber) = Some (ber\<lparr>ber_buf := (ber_buf ber)[ber_ptr ber := 0]\<rparr>)"
    by (simp add: terminate_at_def octet_at_def)
  moreover have "reader (ber\<lparr>ber_buf := (ber_buf ber)[ber_ptr ber := 0]\<rparr>) xs" using assms by (auto simp: reader_def)
  ultimately show thesis by (rule that) auto
qed


lemma int_loop_foldl: "int_loop n bs = foldl (\<lambda>n b. n * 256 + int (unat b)) n bs"
  by (induction n bs rule: int_loop.induct) auto

lemma unat_xor_128: "int (unat (b XOR 0x80 :: octet)) - 0x80 = int (unat b) - (if unat b < 128 then 0 else 256)"
proof -
  have "\<forall>k < 256. int (unat ((of_nat k :: octet) XOR 0x80)) - 0x80 = int k - (if k < 128 then 0 else 256)" by code_simp
  then have "int (unat ((of_nat (unat b) :: octet) XOR 0x80)) - 0x80 = int (unat b) - (if unat b < 128 then 0 else 256)"
    using unat_octet_less by blast
  then show ?thesis by simp
qed

lemma decode_int_twos: "bs \<noteq> [] \<Longrightarrow> length bs \<le> 4 \<Longrightarrow> ber_decode_int bs = Some (twos bs)"
  by (cases bs) (simp_all add: ber_decode_int_def int_loop_foldl twos_def unat_xor_128 [simplified])

lemma decode_int_contents: "- (2 ^ 31) \<le> i \<Longrightarrow> i < 2 ^ 31 \<Longrightarrow> ber_decode_int (int_contents i) = Some i"
  using decode_int_twos [of "int_contents i"] length_int_contents [of i] twos_int_contents [of i] by simp

lemma element_skip:
  assumes "reader ber (element tag c @ xs)" "tag_ok tag" "length c < 2 ^ 64"
  obtains val ber' where "ber_skip_element ber = Some (tag, length c, val, ber')" "reader ber' xs" "contents ber' val (length c) = Some c"
    "ber_ptr ber' = val + length c" "0 < val" "ber_buf ber' = ber_buf ber" "ber_ptr ber < val"
proof -
  have "reader ber (tag_octets tag @ len_octets (length c) @ c @ xs)" using assms(1) by (simp add: element_def)
  from skip_element_reads [OF this assms(2) len_form_octets [OF assms(3)]] obtain val ber' where
    "ber_skip_element ber = Some (tag, length c, val, ber')" "reader ber' xs" "contents ber' val (length c) = Some c"
    "ber_ptr ber' = val + length c" "0 < val" "ber_buf ber' = ber_buf ber"
    "val = ber_ptr ber + length (tag_octets tag) + length (len_octets (length c))" by blast
  moreover have "0 < length (tag_octets tag)" using length_tag_octets(2) by simp
  ultimately show thesis using that by simp
qed

lemma get_int_reads:
  assumes "reader ber (element tag c @ xs)" "tag_ok tag" "ber_decode_int c = Some i"
  obtains ber' where "ber_get_int ber = Some (tag, Some i, ber')" "reader ber' xs"
proof -
  have "length c < 2 ^ 64" using assms(3) by (auto simp: ber_decode_int_def split: if_splits)
  from element_skip [OF assms(1,2) this] obtain val ber' where
    "ber_skip_element ber = Some (tag, length c, val, ber')" "reader ber' xs" "contents ber' val (length c) = Some c" by metis
  then show thesis using that assms(2,3) by (simp add: ber_get_int_def tag_ok_def)
qed

lemma get_copy_reads:
  assumes "reader ber (element tag c @ xs)" "tag_ok tag" "length c < 2 ^ 64 - 1" "\<forall>n. avail n"
  obtains ber' where "ber_get_stringbv avail ber (opts True False) = Some (tag, Some (Copied c), ber')" "reader ber' xs"
proof -
  have "length c < 2 ^ 64" using assms(3) by simp
  from element_skip [OF assms(1,2) this] obtain val ber' where
    "ber_skip_element ber = Some (tag, length c, val, ber')" "reader ber' xs" "contents ber' val (length c) = Some c" by metis
  then show thesis using that assms(2,4) by (simp add: ber_get_stringbv_def take_stringbv_def tag_ok_def opts_def memalloc_def)
qed

lemma get_null_reads:
  assumes "reader ber (element tag [] @ xs)" "tag_ok tag"
  obtains ber' where "ber_get_null ber = Some (tag, ber')" "reader ber' xs"
proof -
  have "reader ber (tag_octets tag @ len_octets 0 @ [] @ xs)" "len_form (len_octets 0) (length ([] :: octet list))"
    using assms(1) len_form_octets [of 0] by (simp_all add: element_def)
  from skip_tag_reads [OF this(1) assms(2) this(2)] obtain ber' where "ber_skip_tag ber = Some (tag, length ([] :: octet list), ber')" "reader ber' ([] @ xs)" by blast
  then show thesis using that by (simp add: ber_get_null_def)
qed

lemma get_bits_reads:
  assumes "reader ber (element tag (of_nat u # c) @ xs)" "tag_ok tag" "length c < 2 ^ 31" "\<forall>n. avail n" "u < 8" "c \<noteq> []" "0 \<notin> set c"
  obtains ber' where "ber_get_bitstringa avail ber = Some (tag, Some (c, int (length c) * 8 - int u), ber')" "reader ber' xs"
proof -
  have "length (of_nat u # c) < 2 ^ 64" using assms(3) by simp
  from element_skip [OF assms(1,2) this] obtain val ber' where
    "ber_skip_element ber = Some (tag, length (of_nat u # c), val, ber')" "reader ber' xs"
    "contents ber' val (length (of_nat u # c)) = Some (of_nat u # c)" by metis
  then show thesis using that assms by (simp add: ber_get_bitstringa_def tag_ok_def memalloc_def)
qed


section \<open>Reading a value back\<close>

text \<open>The format that reads a value, and what it stores.\<close>

fun asn_scan :: "asn \<Rightarrow> string" where
  "asn_scan (ABool tag i) = ''b''"
| "asn_scan (AInt tag i) = ''i''"
| "asn_scan (AEnum tag i) = ''e''"
| "asn_scan (ANull tag) = ''n''"
| "asn_scan (AOctets tag s) = ''o''"
| "asn_scan (ABits tag s n) = ''B''"
| "asn_scan (ASeq tag xs) = CHR 0x7B # concat (map asn_scan xs) @ [CHR 0x7D]"
| "asn_scan (ASet tag xs) = CHR 0x5B # concat (map asn_scan xs) @ [CHR 0x5D]"

fun asn_values :: "asn \<Rightarrow> scan_out list" where
  "asn_values (ABool tag i) = [OutInt (Some (if i \<noteq> 0 then - 1 else 0))]"
| "asn_values (AInt tag i) = [OutInt (Some i)]"
| "asn_values (AEnum tag i) = [OutInt (Some i)]"
| "asn_values (ANull tag) = []"
| "asn_values (AOctets tag s) = [OutStr (Some (Copied s))]"
| "asn_values (ABits tag s n) = [OutBits (Some (take ((n + 7) div 8) s, int n))]"
| "asn_values (ASeq tag xs) = concat (map asn_values xs)"
| "asn_values (ASet tag xs) = concat (map asn_values xs)"

text \<open>What can be read back: tags in the form of BER, integers of 32 bits, bit strings that are not empty and have
  no octet that is zero.\<close>

fun asn_readable :: "asn \<Rightarrow> bool" where
  "asn_readable (ABool tag i) = tag_ok (default_tag tag LBER_BOOLEAN)"
| "asn_readable (AInt tag i) = (tag_ok (default_tag tag LBER_INTEGER) \<and> - (2 ^ 31) \<le> i \<and> i < 2 ^ 31)"
| "asn_readable (AEnum tag i) = (tag_ok (default_tag tag LBER_ENUMERATED) \<and> - (2 ^ 31) \<le> i \<and> i < 2 ^ 31)"
| "asn_readable (ANull tag) = tag_ok (default_tag tag LBER_NULL)"
| "asn_readable (AOctets tag s) = tag_ok (default_tag tag LBER_OCTETSTRING)"
| "asn_readable (ABits tag s n) = (tag_ok (default_tag tag LBER_BITSTRING) \<and> 0 < n \<and> (n + 7) div 8 \<le> length s \<and> 0 \<notin> set (take ((n + 7) div 8) s))"
| "asn_readable (ASeq tag xs) = (tag_ok (default_tag tag LBER_SEQUENCE) \<and> list_all asn_readable xs)"
| "asn_readable (ASet tag xs) = (tag_ok (default_tag tag LBER_SET) \<and> list_all asn_readable xs)"

definition scans :: "(nat \<Rightarrow> bool) \<Rightarrow> nat \<Rightarrow> BerElement \<Rightarrow> string \<Rightarrow> nat \<Rightarrow> scan_out list \<Rightarrow> octet list \<Rightarrow> bool" where
  "scans avail rc ber fmt k vs xs \<longleftrightarrow> (\<forall>f as outs. \<exists>rc' ber'. rc' \<noteq> LBER_DEFAULT \<and> reader ber' xs \<and>
     ber_scanf_loop avail rc ber (fmt @ f) (replicate k ScanOut @ as) outs = ber_scanf_loop avail rc' ber' f as (outs @ vs))"

lemma scans_one:
  assumes "rc \<noteq> LBER_DEFAULT" "\<And>nx. scan_plain rc ber c nx = None" "scan_into avail ber c ScanOut = Some (rc', ber', vs)"
    "rc' \<noteq> LBER_DEFAULT" "reader ber' xs"
  shows "scans avail rc ber [c] 1 vs xs"
  unfolding scans_def using assms by (intro allI exI [of _ rc'] exI [of _ ber']) simp

lemma scans_plain:
  assumes "rc \<noteq> LBER_DEFAULT" "\<And>nx. scan_plain rc ber c nx = Some (Some (rc', ber', []))" "rc' \<noteq> LBER_DEFAULT" "reader ber' xs"
  shows "scans avail rc ber [c] 0 [] xs"
  unfolding scans_def using assms by (intro allI exI [of _ rc'] exI [of _ ber']) simp

lemma tag_ok_default: "tag_ok t \<Longrightarrow> t \<noteq> LBER_DEFAULT"
  by (simp add: tag_ok_def)

lemma boolean_contents: "ber_decode_int [if i \<noteq> 0 then 0xff else 0 :: octet] = Some (if (i :: int) \<noteq> 0 then - 1 else 0)"
  by (simp add: ber_decode_int_def)

lemma bits_count: "int ((n + 7) div 8) * 8 - int ((8 - n mod 8) mod 8) = int n"
proof -
  define q r where "q = n div 8" and "r = n mod 8"
  have n: "n = 8 * q + r" "r < 8" by (simp_all add: q_def r_def)
  have "r \<in> {0, 1, 2, 3, 4, 5, 6, 7}" using n(2) by auto
  then show ?thesis unfolding n(1) by (auto simp: div_mult_self4 algebra_simps)
qed

lemma scans_prim:
  assumes r: "reader ber (asn_octets der t @ xs)" and ok: "asn_readable t" "rc \<noteq> LBER_DEFAULT" "\<forall>n. avail n"
    and small: "length (asn_octets der t) < 2 ^ 31" and prim: "\<And>tag ts. t \<noteq> ASeq tag ts" "\<And>tag ts. t \<noteq> ASet tag ts"
  shows "scans avail rc ber (asn_scan t) (length (asn_values t)) (asn_values t) xs"
proof (cases t)
  case (ABool tag i)
  then obtain b where "ber_get_int ber = Some (default_tag tag LBER_BOOLEAN, Some (if i \<noteq> 0 then - 1 else 0), b)" "reader b xs"
    using get_int_reads [of ber "default_tag tag LBER_BOOLEAN" "[if i \<noteq> 0 then 0xff else 0]" xs] r ok boolean_contents [of i] by auto
  then show ?thesis using ABool ok(1,2) tag_ok_default scans_one [of rc ber "CHR ''b''" avail "default_tag tag LBER_BOOLEAN" b "asn_values t" xs]
    by (simp add: scan_plain_def scan_into_def with_out_def ber_get_boolean_def)
next
  case (AInt tag i)
  then obtain b where "ber_get_int ber = Some (default_tag tag LBER_INTEGER, Some i, b)" "reader b xs"
    using get_int_reads [of ber "default_tag tag LBER_INTEGER" "int_contents i" xs] r ok decode_int_contents [of i] by auto
  then show ?thesis using AInt ok(1,2) tag_ok_default scans_one [of rc ber "CHR ''i''" avail "default_tag tag LBER_INTEGER" b "asn_values t" xs]
    by (simp add: scan_plain_def scan_into_def with_out_def)
next
  case (AEnum tag i)
  then obtain b where "ber_get_int ber = Some (default_tag tag LBER_ENUMERATED, Some i, b)" "reader b xs"
    using get_int_reads [of ber "default_tag tag LBER_ENUMERATED" "int_contents i" xs] r ok decode_int_contents [of i] by auto
  then show ?thesis using AEnum ok(1,2) tag_ok_default scans_one [of rc ber "CHR ''e''" avail "default_tag tag LBER_ENUMERATED" b "asn_values t" xs]
    by (simp add: scan_plain_def scan_into_def with_out_def)
next
  case (ANull tag)
  then obtain b where "ber_get_null ber = Some (default_tag tag LBER_NULL, b)" "reader b xs"
    using get_null_reads [of ber "default_tag tag LBER_NULL" xs] r ok by auto
  then show ?thesis using ANull ok(1,2) tag_ok_default scans_plain [of rc ber "CHR ''n''" "default_tag tag LBER_NULL" b xs avail]
    by (simp add: scan_plain_def)
next
  case (AOctets tag s)
  have "length s < 2 ^ 64 - 1" using small AOctets by (simp add: element_def)
  then obtain b where "ber_get_stringbv avail ber (opts True False) = Some (default_tag tag LBER_OCTETSTRING, Some (Copied s), b)" "reader b xs"
    using get_copy_reads [of ber "default_tag tag LBER_OCTETSTRING" s xs avail] AOctets r ok by auto
  then show ?thesis using AOctets ok(1,2) tag_ok_default scans_one [of rc ber "CHR ''o''" avail "default_tag tag LBER_OCTETSTRING" b "asn_values t" xs]
    by (simp add: scan_plain_def scan_into_def with_out_def)
next
  case (ABits tag s n)
  define u where "u = (8 - n mod 8) mod 8"
  define c where "c = take ((n + 7) div 8) s"
  have l: "length c = (n + 7) div 8" "0 < n" "0 \<notin> set c" using ok(1) ABits by (auto simp: c_def)
  have "int (length c) * 8 - int u = int n" unfolding u_def l(1) by (rule bits_count)
  moreover have "c \<noteq> []" "u < 8" using l by (auto simp: u_def)
  moreover have "length c < 2 ^ 31" using small ABits by (simp add: element_def c_def)
  moreover have "reader ber (element (default_tag tag LBER_BITSTRING) (of_nat u # c) @ xs)" using r ABits by (simp add: u_def c_def)
  ultimately obtain b where "ber_get_bitstringa avail ber = Some (default_tag tag LBER_BITSTRING, Some (c, int n), b)" "reader b xs"
    using get_bits_reads [of ber "default_tag tag LBER_BITSTRING" u c xs avail] ok ABits l by auto
  then show ?thesis using ABits ok(1,2) tag_ok_default scans_one [of rc ber "CHR ''B''" avail "default_tag tag LBER_BITSTRING" b "asn_values t" xs]
    by (simp add: scan_plain_def scan_into_def with_out_def c_def)
qed (use prim in auto)


lemma scans_list:
  assumes "\<And>t rc ber xs. t \<in> set ts \<Longrightarrow> rc \<noteq> LBER_DEFAULT \<Longrightarrow> reader ber (asn_octets der t @ xs) \<Longrightarrow>
      scans avail rc ber (asn_scan t) (length (asn_values t)) (asn_values t) xs"
    and "rc \<noteq> LBER_DEFAULT" "reader ber (concat (map (asn_octets der) ts) @ xs)"
  shows "scans avail rc ber (concat (map asn_scan ts)) (length (concat (map asn_values ts))) (concat (map asn_values ts)) xs"
  using assms
proof (induction ts arbitrary: rc ber)
  case Nil then show ?case by (auto simp: scans_def)
next
  case (Cons t ts)
  let ?k = "length (asn_values t)" and ?m = "length (concat (map asn_values ts))"
  show ?case unfolding scans_def
  proof (intro allI)
    fix f as outs
    have "scans avail rc ber (asn_scan t) ?k (asn_values t) (concat (map (asn_octets der) ts) @ xs)"
      using Cons.prems by simp
    then obtain rc1 b1 where 1: "rc1 \<noteq> LBER_DEFAULT" "reader b1 (concat (map (asn_octets der) ts) @ xs)"
      "ber_scanf_loop avail rc ber (asn_scan t @ concat (map asn_scan ts) @ f) (replicate ?k ScanOut @ replicate ?m ScanOut @ as) outs
       = ber_scanf_loop avail rc1 b1 (concat (map asn_scan ts) @ f) (replicate ?m ScanOut @ as) (outs @ asn_values t)"
      unfolding scans_def by blast
    have "scans avail rc1 b1 (concat (map asn_scan ts)) ?m (concat (map asn_values ts)) xs"
      using Cons.IH [OF Cons.prems(1) 1(1,2)] by simp
    then obtain rc2 b2 where "rc2 \<noteq> LBER_DEFAULT" "reader b2 xs"
      "ber_scanf_loop avail rc1 b1 (concat (map asn_scan ts) @ f) (replicate ?m ScanOut @ as) (outs @ asn_values t)
       = ber_scanf_loop avail rc2 b2 f as ((outs @ asn_values t) @ concat (map asn_values ts))"
      unfolding scans_def by blast
    with 1(3) show "\<exists>rc' ber'. rc' \<noteq> LBER_DEFAULT \<and> reader ber' xs \<and>
        ber_scanf_loop avail rc ber (concat (map asn_scan (t # ts)) @ f)
          (replicate (length (concat (map asn_values (t # ts)))) ScanOut @ as) outs
        = ber_scanf_loop avail rc' ber' f as (outs @ concat (map asn_values (t # ts)))"
      by (auto simp: replicate_add)
  qed
qed

text \<open>The first letter of a value is never one that makes an opening bracket do nothing.\<close>

lemma asn_scan_hd: "asn_scan t \<noteq> [] \<and> hd (asn_scan t) \<notin> {CHR ''v'', CHR ''V'', CHR ''W'', CHR ''M''}"
  by (cases t) auto

lemma next_letter:
  "d = CHR 0x7D \<or> d = CHR 0x5D \<Longrightarrow> hd (concat (map asn_scan ts) @ d # f) \<notin> {CHR ''v'', CHR ''V'', CHR ''W'', CHR ''M''}"
  using asn_scan_hd [of "hd ts"] by (cases ts) (auto simp: hd_append)

lemma next_hd: "(case xs @ d # f of [] \<Rightarrow> None | e # _ \<Rightarrow> Some e) = Some (hd (xs @ d # f))"
  by (cases xs) auto

lemma scans_constructed:
  assumes r: "reader ber (constructed der (tag_octets tag) c @ xs)" and ok: "tag_ok tag" "length c < 2 ^ 31" "rc \<noteq> LBER_DEFAULT"
    and inner: "\<And>rc b. rc \<noteq> LBER_DEFAULT \<Longrightarrow> reader b (c @ xs) \<Longrightarrow> scans avail rc b (concat (map asn_scan ts)) k vs xs"
    and br: "(a, d) = (CHR 0x7B, CHR 0x7D) \<or> (a, d) = (CHR 0x5B, CHR 0x5D)"
  shows "scans avail rc ber (a # concat (map asn_scan ts) @ [d]) k vs xs"
  unfolding scans_def
proof (intro allI)
  fix f as outs
  let ?l = "if der then len_octets (length c) else long_len (length c)"
  have "len_form ?l (length c)" using len_form_octets [of "length c"] len_form_long [of "length c"] ok(2) by simp
  moreover have "reader ber (tag_octets tag @ ?l @ c @ xs)" using r by (simp add: constructed_def)
  ultimately obtain b1 where b1: "ber_skip_tag ber = Some (tag, length c, b1)" "reader b1 (c @ xs)"
    using skip_tag_reads [of ber tag ?l c xs] ok(1) by blast
  let ?rest = "concat (map asn_scan ts) @ d # f"
  have nx: "(case ?rest of [] \<Rightarrow> None | e # _ \<Rightarrow> Some e) = Some (hd ?rest)" by (rule next_hd)
  have sp: "scan_plain rc ber a (Some (hd ?rest)) = Some (Some (tag, b1, []))"
    using br b1(1) next_letter [of d ts f] by (auto simp: scan_plain_def)
  have s1: "ber_scanf_loop avail rc ber (a # ?rest) (replicate k ScanOut @ as) outs = ber_scanf_loop avail tag b1 ?rest (replicate k ScanOut @ as) outs"
    using ok(3) by (simp add: nx sp)
  obtain rc2 b2 where b2: "rc2 \<noteq> LBER_DEFAULT" "reader b2 xs"
    "ber_scanf_loop avail tag b1 ?rest (replicate k ScanOut @ as) outs = ber_scanf_loop avail rc2 b2 (d # f) as (outs @ vs)"
    using inner [OF tag_ok_default [OF ok(1)] b1(2)] unfolding scans_def by blast
  have "ber_scanf_loop avail rc2 b2 (d # f) as (outs @ vs) = ber_scanf_loop avail rc2 b2 f as (outs @ vs)"
    using br b2(1) by (auto simp: scan_plain_def)
  with s1 b2 show "\<exists>rc' ber'. rc' \<noteq> LBER_DEFAULT \<and> reader ber' xs \<and>
      ber_scanf_loop avail rc ber ((a # concat (map asn_scan ts) @ [d]) @ f) (replicate k ScanOut @ as) outs
      = ber_scanf_loop avail rc' ber' f as (outs @ vs)" by auto
qed

lemma concat_less: "length (concat (map f ts)) < n \<Longrightarrow> t \<in> set ts \<Longrightarrow> length (f t) < (n :: nat)"
  by (induction ts) auto

lemma constructed_less_der: "length (constructed der t c) < n \<Longrightarrow> length c < n"
  by (simp add: constructed_def)

lemma scans_asn:
  assumes "reader ber (asn_octets der t @ xs)" "asn_readable t" "rc \<noteq> LBER_DEFAULT" "\<forall>n. avail n" "length (asn_octets der t) < 2 ^ 31"
  shows "scans avail rc ber (asn_scan t) (length (asn_values t)) (asn_values t) xs"
  using assms
proof (induction t arbitrary: ber rc xs)
  case (ASeq tag ts)
  note l = constructed_less_der [OF ASeq.prems(5) [unfolded asn_octets.simps]]
  show ?case unfolding asn_scan.simps asn_values.simps
  proof (rule scans_constructed)
    fix rc b assume b: "rc \<noteq> LBER_DEFAULT" "reader b (concat (map (asn_octets der) ts) @ xs)"
    show "scans avail rc b (concat (map asn_scan ts)) (length (concat (map asn_values ts))) (concat (map asn_values ts)) xs"
      using ASeq.prems(2,4) concat_less [OF l] by (intro scans_list [OF _ b] ASeq.IH) (auto simp: list_all_iff)
  qed (use ASeq.prems l in auto)
next
  case (ASet tag ts)
  note l = constructed_less_der [OF ASet.prems(5) [unfolded asn_octets.simps]]
  show ?case unfolding asn_scan.simps asn_values.simps
  proof (rule scans_constructed)
    fix rc b assume b: "rc \<noteq> LBER_DEFAULT" "reader b (concat (map (asn_octets der) ts) @ xs)"
    show "scans avail rc b (concat (map asn_scan ts)) (length (concat (map asn_values ts))) (concat (map asn_values ts)) xs"
      using ASet.prems(2,4) concat_less [OF l] by (intro scans_list [OF _ b] ASet.IH) (auto simp: list_all_iff)
  qed (use ASet.prems l in auto)
qed (rule scans_prim; auto)+


section \<open>Arbitrary input\<close>

text \<open>The cursor is inside the buffer, which has its extra octet.\<close>

definition in_bounds :: "BerElement \<Rightarrow> bool" where
  "in_bounds ber \<longleftrightarrow> ber_ptr ber \<le> ber_end ber \<and> ber_end ber < length (ber_buf ber)"

lemma runs_prod: "runs m (\<lambda>x. case x of (a, b) \<Rightarrow> Q a b) \<longleftrightarrow> runs m (\<lambda>x. Q (fst x) (snd x))"
  by (simp add: runs_def split_beta)

lemma runs_octet_at: "i < length (ber_buf ber) \<Longrightarrow> runs (octet_at ber i) Q \<longleftrightarrow> Q (ber_buf ber ! i)"
  by (simp add: octet_at_def runs_Some)

lemma tag_loop_runs:
  "ptr + rest \<le> length (ber_buf ber) \<Longrightarrow> runs (tag_loop ber tag rest ptr) (\<lambda>(t, r, p). p + r = ptr + rest)"
proof (induction ber tag rest ptr rule: tag_loop.induct)
  case (1 ber tag rest ptr)
  show ?case
  proof (cases "rest = 0")
    case True then show ?thesis by (subst tag_loop.simps) (simp add: wp)
  next
    case False
    then have p: "ptr < length (ber_buf ber)" "ptr + 1 + (rest - 1) = ptr + rest" using 1(2) by auto
    let ?tag = "(tag * 256) mod 2 ^ 64 + unat (ber_buf ber ! ptr)"
    have "runs (tag_loop ber ?tag (rest - 1) (ptr + 1)) (\<lambda>(t, r, p). p + r = ptr + rest)"
      if "odd (?tag div 0x80)" "?tag \<le> (2 ^ 64 - 1) div 256"
      using 1(1) [OF False _ refl, of "ber_buf ber ! ptr"] that p 1(2) by (simp add: octet_at_def)
    then show ?thesis using False p
      by (subst tag_loop.simps) (auto simp: wp runs_octet_at Let_def)
  qed
qed

lemma len_loop_runs:
  "ptr + i \<le> length (ber_buf ber) \<Longrightarrow> runs (len_loop ber i n ptr) (\<lambda>(l, p). p = ptr + i)"
  by (induction ber i n ptr rule: len_loop.induct) (auto simp: wp octet_at_def)

lemma tag_and_rest_runs:
  assumes "in_bounds ber"
  shows "runs (ber_tag_and_rest ber) (\<lambda>(t, r, p). p + r = ber_end ber \<and> (t = LBER_DEFAULT \<or> ber_ptr ber < p))"
proof -
  have b: "ber_ptr ber \<le> ber_end ber" "ber_end ber < length (ber_buf ber)" using assms by (auto simp: in_bounds_def)
  show ?thesis
  proof (cases "ber_end ber - ber_ptr ber = 0")
    case True then show ?thesis using b by (simp add: ber_tag_and_rest_def wp)
  next
    case False
    let ?r = "ber_end ber - ber_ptr ber - 1"
    have le: "ber_ptr ber + 1 + ?r \<le> length (ber_buf ber)" and e: "ber_ptr ber + 1 + ?r = ber_end ber" using False b by auto
    have "runs (tag_loop ber tag ?r (ber_ptr ber + 1)) (\<lambda>(t, r, p). p + r = ber_end ber \<and> (t = LBER_DEFAULT \<or> ber_ptr ber < p))" for tag
      using tag_loop_runs [OF le, of tag] tag_loop_advances [of ber tag ?r "ber_ptr ber + 1"] unfolding e by (fastforce simp: runs_def)
    then show ?thesis using False b e by (auto simp: ber_tag_and_rest_def wp runs_octet_at Let_def)
  qed
qed

lemma peek_runs:
  assumes "in_bounds ber"
  shows "runs (ber_peek_element ber) (\<lambda>(t, l, v). v \<le> ber_end ber \<and> (t \<noteq> LBER_DEFAULT \<longrightarrow> ber_ptr ber < v \<and> v + l \<le> ber_end ber))"
proof -
  obtain t r p where tr: "ber_tag_and_rest ber = Some (t, r, p)" "p + r = ber_end ber" "t = LBER_DEFAULT \<or> ber_ptr ber < p"
    using tag_and_rest_runs [OF assms] by (auto simp: runs_def)
  have b: "ber_end ber < length (ber_buf ber)" using assms by (simp add: in_bounds_def)
  show ?thesis
  proof (cases "t = LBER_DEFAULT \<or> r = 0")
    case True then show ?thesis using tr by (auto simp: ber_peek_element_def wp)
  next
    case False
    then have p: "p < length (ber_buf ber)" "p + 1 + (r - 1) = ber_end ber" using tr b by auto
    define c where "c = unat (ber_buf ber ! p)"
    have at: "octet_at ber p = Some (ber_buf ber ! p)" using p by (simp add: octet_at_def)
    consider "c < 128" | "128 \<le> c" "\<not> (1 \<le> c - 128 \<and> c - 128 \<le> 8) \<or> r - 1 < c - 128"
      | "128 \<le> c" "1 \<le> c - 128" "c - 128 \<le> 8" "c - 128 \<le> r - 1" by linarith
    then show ?thesis
    proof cases
      case 3
      have "p + 1 + (c - 128) \<le> length (ber_buf ber)" using 3(4) p b by auto
      then obtain l where l: "len_loop ber (c - 128) 0 (p + 1) = Some (l, p + 1 + (c - 128))" using len_loop_runs [of "p + 1" "c - 128" ber 0] by (auto simp: runs_def)
      show ?thesis using 3 False tr p at l unfolding c_def by (simp add: ber_peek_element_def Let_def runs_Some) auto
    qed (use False tr p at in \<open>auto simp: ber_peek_element_def Let_def runs_Some c_def\<close>)
  qed
qed


lemma goto_runs: "in_bounds ber \<Longrightarrow> p \<le> ber_end ber \<Longrightarrow> \<exists>t. goto ber p = Some (ber\<lparr>ber_ptr := p, ber_tag := t\<rparr>)"
  by (auto simp: goto_def octet_at_def in_bounds_def)

text \<open>A successful skip leaves the contents before the cursor.\<close>

lemma skip_element_runs:
  assumes "in_bounds ber"
  obtains tag len val ber' where "ber_skip_element ber = Some (tag, len, val, ber')" "in_bounds ber'"
    "ber_end ber' = ber_end ber" "ber_buf ber' = ber_buf ber" "tag \<noteq> LBER_DEFAULT \<Longrightarrow> val + len = ber_ptr ber' \<and> ber_ptr ber < val"
    "tag = LBER_DEFAULT \<Longrightarrow> ber' = ber"
proof -
  obtain t l v where p: "ber_peek_element ber = Some (t, l, v)" "v \<le> ber_end ber" "t \<noteq> LBER_DEFAULT \<longrightarrow> ber_ptr ber < v \<and> v + l \<le> ber_end ber"
    using peek_runs [OF assms] by (auto simp: runs_def)
  show thesis
  proof (cases "t = LBER_DEFAULT")
    case True
    then have "ber_skip_element ber = Some (t, l, v, ber)" using p by (simp add: ber_skip_element_def)
    then show ?thesis using that assms True by blast
  next
    case False
    then obtain k where "goto ber (v + l) = Some (ber\<lparr>ber_ptr := v + l, ber_tag := k\<rparr>)" using goto_runs [OF assms] p by blast
    then have "ber_skip_element ber = Some (t, l, v, ber\<lparr>ber_ptr := v + l, ber_tag := k\<rparr>)" using p False by (simp add: ber_skip_element_def)
    then show ?thesis by (rule that) (use assms False p in \<open>auto simp: in_bounds_def\<close>)
  qed
qed

lemma skip_tag_runs:
  assumes "in_bounds ber"
  obtains tag len ber' where "ber_skip_tag ber = Some (tag, len, ber')" "in_bounds ber'" "ber_end ber' = ber_end ber" "ber_buf ber' = ber_buf ber"
    "tag \<noteq> LBER_DEFAULT \<Longrightarrow> ber_ptr ber' + len \<le> ber_end ber"
proof -
  obtain t l v where p: "ber_peek_element ber = Some (t, l, v)" "v \<le> ber_end ber" "t \<noteq> LBER_DEFAULT \<longrightarrow> ber_ptr ber < v \<and> v + l \<le> ber_end ber"
    using peek_runs [OF assms] by (auto simp: runs_def)
  obtain k where "goto ber v = Some (ber\<lparr>ber_ptr := v, ber_tag := k\<rparr>)" using goto_runs [OF assms p(2)] by blast
  then have "ber_skip_tag ber = Some (t, l, ber\<lparr>ber_ptr := v, ber_tag := k\<rparr>)" using p by (simp add: ber_skip_tag_def)
  then show thesis using that assms p by (auto simp: in_bounds_def)
qed

lemma contents_runs: "in_bounds ber \<Longrightarrow> v + l \<le> ber_end ber \<Longrightarrow> \<exists>bs. contents ber v l = Some bs"
  by (simp add: contents_def in_bounds_def)

lemma get_int_runs: "in_bounds ber \<Longrightarrow> runs (ber_get_int ber) (\<lambda>(_, _, b). in_bounds b)"
proof -
  assume "in_bounds ber"
  then obtain t l v b where s: "ber_skip_element ber = Some (t, l, v, b)" "in_bounds b" "t \<noteq> LBER_DEFAULT \<Longrightarrow> v + l = ber_ptr b"
    by (metis skip_element_runs)
  then have "t \<noteq> LBER_DEFAULT \<Longrightarrow> \<exists>bs. contents b v l = Some bs" by (intro contents_runs) (auto simp: in_bounds_def)
  with s show ?thesis by (auto simp: ber_get_int_def runs_Some split: option.splits)
qed

lemma get_stringb_runs: "in_bounds ber \<Longrightarrow> runs (ber_get_stringb ber n) (\<lambda>(_, _, b). in_bounds b)"
proof -
  assume "in_bounds ber"
  then obtain t l v b where s: "ber_skip_element ber = Some (t, l, v, b)" "in_bounds b" "t \<noteq> LBER_DEFAULT \<Longrightarrow> v + l = ber_ptr b"
    by (metis skip_element_runs)
  then have "t \<noteq> LBER_DEFAULT \<Longrightarrow> \<exists>bs. contents b v l = Some bs" by (intro contents_runs) (auto simp: in_bounds_def)
  with s show ?thesis by (auto simp: ber_get_stringb_def runs_Some)
qed

lemma get_bits_runs: "in_bounds ber \<Longrightarrow> runs (ber_get_bitstringa avail ber) (\<lambda>(_, _, b). in_bounds b)"
proof -
  assume "in_bounds ber"
  then obtain t l v b where s: "ber_skip_element ber = Some (t, l, v, b)" "in_bounds b" "t \<noteq> LBER_DEFAULT \<Longrightarrow> v + l = ber_ptr b"
    by (metis skip_element_runs)
  then have "t \<noteq> LBER_DEFAULT \<Longrightarrow> \<exists>bs. contents b v l = Some bs" by (intro contents_runs) (auto simp: in_bounds_def)
  with s show ?thesis by (auto simp: ber_get_bitstringa_def runs_Some Let_def)
qed

lemma get_null_runs: "in_bounds ber \<Longrightarrow> runs (ber_get_null ber) (\<lambda>(_, b). in_bounds b)"
  by (rule skip_tag_runs [of ber]) (simp_all add: ber_get_null_def runs_Some)

text \<open>In place or copied, taking a string touches nothing outside.\<close>

lemma take_stringbv_runs:
  assumes "in_bounds b" "v + l = ber_ptr b"
  shows "runs (take_stringbv avail opt t l v b) (\<lambda>(_, _, b'). in_bounds b' \<and> ber_end b' = ber_end b \<and> ber_ptr b' = ber_ptr b)"
proof -
  have "\<exists>bs. contents b v l = Some bs" using assms by (intro contents_runs) (auto simp: in_bounds_def)
  moreover have "terminate_at b (v + l) = Some (b\<lparr>ber_buf := (ber_buf b)[v + l := 0]\<rparr>)"
    using assms by (auto simp: terminate_at_def octet_at_def in_bounds_def)
  ultimately show ?thesis using assms by (auto simp: take_stringbv_def runs_Some in_bounds_def)
qed

lemma get_stringbv_runs:
  assumes "in_bounds ber"
  shows "runs (ber_get_stringbv avail ber opt) (\<lambda>(t, _, b). in_bounds b \<and> ber_end b = ber_end ber)"
    "runs (ber_get_stringbv_null avail ber opt) (\<lambda>(t, _, b). in_bounds b \<and> ber_end b = ber_end ber)"
proof -
  obtain t l v b where s: "ber_skip_element ber = Some (t, l, v, b)" "in_bounds b" "ber_end b = ber_end ber" "t \<noteq> LBER_DEFAULT \<Longrightarrow> v + l = ber_ptr b"
    by (metis skip_element_runs assms)
  then have c: "t \<noteq> LBER_DEFAULT \<Longrightarrow> \<exists>bs. contents b v l = Some bs" by (intro contents_runs) (auto simp: in_bounds_def)
  have k: "t \<noteq> LBER_DEFAULT \<Longrightarrow> runs (take_stringbv avail opt t l v b) (\<lambda>(t, _, b). in_bounds b \<and> ber_end b = ber_end ber)"
    using take_stringbv_runs [OF s(2), of v l avail opt t] s(3,4) by (auto simp: runs_def)
  show "runs (ber_get_stringbv avail ber opt) (\<lambda>(t, _, b). in_bounds b \<and> ber_end b = ber_end ber)"
    using s c k by (cases "t = LBER_DEFAULT") (auto simp: ber_get_stringbv_def runs_Some)
  show "runs (ber_get_stringbv_null avail ber opt) (\<lambda>(t, _, b). in_bounds b \<and> ber_end b = ber_end ber)"
    using s c k by (cases "t = LBER_DEFAULT") (auto simp: ber_get_stringbv_null_def runs_Some)
qed

declare count_loop.simps [simp del]

lemma count_loop_runs:
  assumes "in_bounds ber"
  shows "runs (count_loop ber lst i) (\<lambda>(k, b). in_bounds b \<and> ber_end b = ber_end ber \<and> ber_buf b = ber_buf ber)"
  using assms
proof (induction ber lst i rule: count_loop.induct)
  case (1 ber lst i)
  obtain t l v b where s: "ber_skip_element ber = Some (t, l, v, b)" "in_bounds b" "ber_end b = ber_end ber" "ber_buf b = ber_buf ber"
    by (metis skip_element_runs 1(2))
  show ?case
  proof (cases "ber_ptr ber < lst \<and> t \<noteq> LBER_DEFAULT")
    case True
    with 1(1) [of "(t, l, v, b)" t "(l, v, b)" l "(v, b)" v b] s have "runs (count_loop b lst (Suc i)) (\<lambda>(k, b). in_bounds b \<and> ber_end b = ber_end ber \<and> ber_buf b = ber_buf ber)"
      by simp
    then show ?thesis using True s by (subst count_loop.simps) simp
  next
    case False
    then show ?thesis using s 1(2) by (subst count_loop.simps) (auto simp: runs_Some)
  qed
qed

lemma vector_loop_runs:
  assumes "in_bounds ber"
  shows "runs (vector_loop avail choice opt ber n) (\<lambda>(_, _, b). in_bounds b)"
  using assms
proof (induction avail choice opt ber n rule: vector_loop.induct)
  case (2 avail choice opt ber n)
  obtain t x b where s: "ber_get_stringbv avail ber opt = Some (t, x, b)" "in_bounds b"
    using get_stringbv_runs(1) [OF 2(2), of avail opt] by (auto simp: runs_def)
  then have "\<not> (t = LBER_DEFAULT \<or> choice = BvVec \<and> \<not> memalloc avail 16) \<Longrightarrow> n \<noteq> 0 \<Longrightarrow> runs (vector_loop avail choice opt b n) (\<lambda>(_, _, b). in_bounds b)"
    using 2(1) [of "(t, x, b)"] by simp
  with s show ?case by (auto simp: runs_def)
qed (simp add: runs_Some)

lemma get_stringbvl_runs:
  assumes "in_bounds ber"
  shows "runs (ber_get_stringbvl avail ber choice opt siz) (\<lambda>(_, _, _, b). in_bounds b)"
proof -
  obtain t l b where s: "ber_skip_tag ber = Some (t, l, b)" "in_bounds b" by (metis skip_tag_runs assms)
  obtain k c where cl: "count_loop b (ber_ptr b + l) 0 = Some (k, c)" "in_bounds c" "ber_end c = ber_end b" "ber_buf c = ber_buf b"
    using count_loop_runs [OF s(2), of "ber_ptr b + l" 0] by (auto simp: runs_def)
  have "ber_ptr b \<le> ber_end c" using s(2) cl(3) by (simp add: in_bounds_def)
  then obtain u where g: "goto c (ber_ptr b) = Some (c\<lparr>ber_ptr := ber_ptr b, ber_tag := u\<rparr>)" using goto_runs [OF cl(2)] by blast
  have "in_bounds (c\<lparr>ber_ptr := ber_ptr b, ber_tag := u\<rparr>)" using cl s(2) by (simp add: in_bounds_def)
  then have v: "runs (vector_loop avail choice opt (c\<lparr>ber_ptr := ber_ptr b, ber_tag := u\<rparr>) n) (\<lambda>(_, _, b). in_bounds b)" for n
    by (rule vector_loop_runs)
  show ?thesis
  proof (cases "t = LBER_DEFAULT")
    case True then show ?thesis using s by (simp add: ber_get_stringbvl_def runs_Some)
  next
    case False
    then show ?thesis using s cl g v [of k] \<open>in_bounds (c\<lparr>ber_ptr := ber_ptr b, ber_tag := u\<rparr>)\<close>
      by (auto simp: ber_get_stringbvl_def Let_def runs_def)
  qed
qed


text \<open>The letters \<^verbatim>\<open>ber_scanf\<close> knows, with arguments of the right type; hooks are code of the caller.\<close>

definition scan_arg_ok :: "char \<Rightarrow> scan_arg \<Rightarrow> bool" where
  "scan_arg_ok c arg \<longleftrightarrow> c \<in> set ''aAbBeilmoOtTvVW'' \<or> c = CHR ''M'' \<and> (\<exists>n. arg = ScanOff n) \<or> c = CHR ''s'' \<and> (\<exists>n. arg = ScanBuf n)"

fun scan_ok :: "string \<Rightarrow> scan_arg list \<Rightarrow> bool" where
  "scan_ok [] args = True"
| "scan_ok (c # fmt) args =
     (if c \<in> set (''nx'' @ [CHR 0x7B, CHR 0x7D, CHR 0x5B, CHR 0x5D]) then scan_ok fmt args
      else case args of [] \<Rightarrow> False | arg # args \<Rightarrow> scan_arg_ok c arg \<and> scan_ok fmt args)"

fun no_hook :: "scan_out \<Rightarrow> bool" where
  "no_hook (OutHook f) = False"
| "no_hook _ = True"

lemma reset_outs_same: "list_all no_hook outs \<Longrightarrow> snd (reset_outs outs ber) = ber"
proof (induction outs)
  case (Cons x xs) then show ?case by (cases x) (auto simp: split_beta)
qed simp

lemma scan_plain_runs:
  assumes "in_bounds ber" "c \<in> set (''nx'' @ [CHR 0x7B, CHR 0x7D, CHR 0x5B, CHR 0x5D])"
  shows "\<exists>r. scan_plain rc ber c nx = Some r \<and> runs r (\<lambda>(_, b, o1). in_bounds b \<and> o1 = [])"
proof -
  obtain t l v b where s: "ber_skip_element ber = Some (t, l, v, b)" "in_bounds b" by (metis skip_element_runs assms(1))
  obtain t' l' b' where g: "ber_skip_tag ber = Some (t', l', b')" "in_bounds b'" by (metis skip_tag_runs assms(1))
  obtain t'' b'' where n: "ber_get_null ber = Some (t'', b'')" "in_bounds b''" using get_null_runs [OF assms(1)] by (auto simp: runs_def)
  show ?thesis using assms s g n by (auto simp: scan_plain_def runs_Some)
qed

lemma with_out_runs: "runs m (\<lambda>(_, _, b). in_bounds b) \<Longrightarrow> (\<And>x. no_hook (f x)) \<Longrightarrow> runs (with_out f m) (\<lambda>(_, b, o1). in_bounds b \<and> list_all no_hook o1)"
  by (auto simp: with_out_def runs_def)

lemma vec_out_runs: "runs m (\<lambda>(_, _, _, b). in_bounds b) \<Longrightarrow> runs (vec_out m) (\<lambda>(_, b, o1). in_bounds b \<and> list_all no_hook o1)"
  by (auto simp: vec_out_def runs_def)

lemma scan_into_runs:
  assumes "in_bounds ber" "scan_arg_ok c arg"
  shows "runs (scan_into avail ber c arg) (\<lambda>(_, b, o1). in_bounds b \<and> list_all no_hook o1)"
proof -
  have st: "runs (ber_get_stringbv avail ber opt) (\<lambda>(_, _, b). in_bounds b)" "runs (ber_get_stringbv_null avail ber opt) (\<lambda>(_, _, b). in_bounds b)" for opt
    using get_stringbv_runs [OF assms(1), of avail opt] by (auto simp: runs_def)
  then have al: "runs (ber_get_stringal avail ber) (\<lambda>(_, _, b). in_bounds b)" using assms(1) by (simp add: ber_get_stringal_def runs_Some)
  have pk: "runs (ber_peek_tag ber) (\<lambda>_. True)" using peek_runs [OF assms(1)] by (auto simp: ber_peek_tag_def runs_def)
  obtain t l b where g: "ber_skip_tag ber = Some (t, l, b)" "in_bounds b" by (metis skip_tag_runs assms(1))
  note r = get_int_runs [OF assms(1)] get_bits_runs [OF assms(1), of avail] get_stringb_runs [OF assms(1)] get_stringbvl_runs [OF assms(1), of avail] st al
  have pk2: "runs (do { (tag, len) \<leftarrow> ber_peek_tag ber; Some (tag, ber, [OutLen len]) }) (\<lambda>(_, b, o1). in_bounds b \<and> list_all no_hook o1)"
    "runs (do { (tag, uu) \<leftarrow> ber_peek_tag ber; Some (tag, ber, [OutTag tag]) }) (\<lambda>(_, b, o1). in_bounds b \<and> list_all no_hook o1)"
    using pk assms(1) by (auto simp: runs_def)
  have out: "runs (with_out OutStr (ber_get_stringa avail ber)) (\<lambda>(_, b, o1). in_bounds b \<and> list_all no_hook o1)"
    "runs (with_out OutStr (ber_get_stringa_null avail ber)) (\<lambda>(_, b, o1). in_bounds b \<and> list_all no_hook o1)"
    "runs (with_out OutInt (ber_get_boolean ber)) (\<lambda>(_, b, o1). in_bounds b \<and> list_all no_hook o1)"
    "runs (with_out OutInt (ber_get_int ber)) (\<lambda>(_, b, o1). in_bounds b \<and> list_all no_hook o1)"
    "runs (with_out OutBits (ber_get_bitstringa avail ber)) (\<lambda>(_, b, o1). in_bounds b \<and> list_all no_hook o1)"
    "\<And>opt. runs (with_out OutStr (ber_get_stringbv avail ber opt)) (\<lambda>(_, b, o1). in_bounds b \<and> list_all no_hook o1)"
    "runs (with_out OutStr (ber_get_stringal avail ber)) (\<lambda>(_, b, o1). in_bounds b \<and> list_all no_hook o1)"
    "\<And>n. runs (with_out OutBuf (ber_get_stringb ber n)) (\<lambda>(_, b, o1). in_bounds b \<and> list_all no_hook o1)"
    "\<And>ch opt n. runs (vec_out (ber_get_stringbvl avail ber ch opt n)) (\<lambda>(_, b, o1). in_bounds b \<and> list_all no_hook o1)"
    unfolding ber_get_stringa_def ber_get_stringa_null_def ber_get_boolean_def
    by (rule with_out_runs vec_out_runs, rule r, (simp; fail)?)+
  have "c = CHR ''M'' \<and> (\<exists>n. arg = ScanOff n) \<or> c = CHR ''s'' \<and> (\<exists>n. arg = ScanBuf n) \<or> c = CHR ''a'' \<or> c = CHR ''A'' \<or> c = CHR ''b'' \<or> c = CHR ''B''
    \<or> c = CHR ''e'' \<or> c = CHR ''i'' \<or> c = CHR ''l'' \<or> c = CHR ''m'' \<or> c = CHR ''o'' \<or> c = CHR ''O'' \<or> c = CHR ''t'' \<or> c = CHR ''T''
    \<or> c = CHR ''v'' \<or> c = CHR ''V'' \<or> c = CHR ''W''"
    using assms(2) by (auto simp: scan_arg_ok_def)
  then show ?thesis by (elim disjE) (auto simp: scan_into_def g runs_Some pk2 out)
qed

lemma scanf_loop_runs:
  assumes "in_bounds ber" "scan_ok fmt args" "list_all no_hook outs"
  shows "runs (ber_scanf_loop avail rc ber fmt args outs) (\<lambda>(_, b, o1). in_bounds b \<and> list_all no_hook o1)"
  using assms
proof (induction fmt arbitrary: rc ber args outs)
  case (Cons c fmt)
  let ?nx = "case fmt of [] \<Rightarrow> None | d # _ \<Rightarrow> Some d"
  show ?case
  proof (cases "rc = LBER_DEFAULT")
    case False
    show ?thesis
    proof (cases "c \<in> set (''nx'' @ [CHR 0x7B, CHR 0x7D, CHR 0x5B, CHR 0x5D])")
      case True
      then obtain r where "scan_plain rc ber c ?nx = Some r" "runs r (\<lambda>(_, b, o1). in_bounds b \<and> o1 = [])"
        using scan_plain_runs [OF Cons.prems(1)] by blast
      then show ?thesis using False True Cons.prems(2,3) Cons.IH by (fastforce simp: runs_def)
    next
      case other: False
      then obtain arg as where a: "args = arg # as" "scan_arg_ok c arg" "scan_ok fmt as" using Cons.prems(2) by (cases args) auto
      have "scan_plain rc ber c ?nx = None" using other by (auto simp: scan_plain_def)
      then show ?thesis using False a scan_into_runs [OF Cons.prems(1) a(2), of avail] Cons.prems(3) Cons.IH by (fastforce simp: runs_def)
    qed
  qed (use Cons.prems in \<open>simp add: runs_Some\<close>)
qed (simp add: runs_Some)


section \<open>Strings in place\<close>

lemma get_in_place_reads:
  assumes "reader ber (element tag c @ xs)" "tag_ok tag" "length c < 2 ^ 64"
  obtains v ber' where "ber_get_stringbv avail ber (opts False False) = Some (tag, Some (InPlace v (length c)), ber')" "reader ber' xs"
    "contents ber' v (length c) = Some c" "ber_ptr ber' = v + length c" "ber_ptr ber < v" "ber_buf ber' = (ber_buf ber)[v + length c := 0]"
    "v + length c < length (ber_buf ber)"
proof -
  obtain v b where s: "ber_skip_element ber = Some (tag, length c, v, b)" "reader b xs" "contents b v (length c) = Some c"
    "ber_ptr b = v + length c" "0 < v" "ber_buf b = ber_buf ber" "ber_ptr ber < v"
    using element_skip [OF assms] by metis
  obtain b' where t: "terminate_at b (ber_ptr b) = Some b'" "reader b' xs" "ber_ptr b' = ber_ptr b" "ber_buf b' = (ber_buf b)[ber_ptr b := 0]"
    using terminate_reads [OF s(2)] s(4,5) by auto
  have "ber_get_stringbv avail ber (opts False False) = Some (tag, Some (InPlace v (length c)), b')"
    using s t(1) assms(2) by (simp add: ber_get_stringbv_def take_stringbv_def opts_def tag_ok_def)
  moreover have "contents b' v (length c) = Some c" using s(3,4) t(4) by (auto simp: contents_def drop_update_swap split: if_splits)
  moreover have "v + length c < length (ber_buf ber)" using s(2,4,6) by (auto simp: reader_def)
  ultimately show thesis using that t s by auto
qed

text \<open>A string in place, with the zero behind it.\<close>

definition in_place :: "BerElement \<Rightarrow> bval \<Rightarrow> octet list \<Rightarrow> bool" where
  "in_place ber b c \<longleftrightarrow> (\<exists>v. b = InPlace v (length c) \<and> contents ber v (length c) = Some c \<and> octet_at ber (v + length c) = Some 0)"

lemma vector_loop_in_place:
  assumes "reader ber (concat (map (\<lambda>(tag, c). element tag c) ts) @ xs)" "ts \<noteq> []"
    and "\<forall>(tag, c) \<in> set ts. tag_ok tag \<and> length c < 2 ^ 64" and "choice \<noteq> BvVec"
  shows "\<exists>bs ber'. vector_loop avail choice (opts False False) ber (length ts) = Some (fst (last ts), Some bs, ber') \<and> reader ber' xs \<and>
    list_all2 (in_place ber') bs (map snd ts) \<and> length (ber_buf ber') = length (ber_buf ber) \<and>
    (\<forall>i. i \<le> ber_ptr ber \<longrightarrow> ber_buf ber' ! i = ber_buf ber ! i)"
  using assms
proof (induction ts arbitrary: ber)
  case (Cons t ts)
  obtain tag c where t: "t = (tag, c)" by (metis surj_pair)
  let ?rest = "concat (map (\<lambda>(tag, c). element tag c) ts) @ xs"
  have tok: "tag_ok tag" "length c < 2 ^ 64" using Cons.prems(3) t by auto
  have "reader ber (element tag c @ ?rest)" using Cons.prems(1) t by simp
  from get_in_place_reads [OF this tok, of avail] obtain v b where
    g: "ber_get_stringbv avail ber (opts False False) = Some (tag, Some (InPlace v (length c)), b)" "reader b ?rest"
      "contents b v (length c) = Some c" "ber_ptr b = v + length c" "ber_ptr ber < v" "ber_buf b = (ber_buf ber)[v + length c := 0]"
      "v + length c < length (ber_buf ber)" by blast
  have z: "octet_at b (v + length c) = Some 0" using g(6,7) by (simp add: octet_at_def)
  have d: "tag \<noteq> LBER_DEFAULT" using tok by (simp add: tag_ok_def)
  show ?case
  proof (cases "ts = []")
    case True
    have "in_place b (InPlace v (length c)) c" using g(3) z by (simp add: in_place_def)
    then show ?thesis using True t g d Cons.prems(4) by simp
  next
    case False
    obtain bs b' where r: "vector_loop avail choice (opts False False) b (length ts) = Some (fst (last ts), Some bs, b')" "reader b' xs"
      "list_all2 (in_place b') bs (map snd ts)" "length (ber_buf b') = length (ber_buf b)"
      "\<And>i. i \<le> ber_ptr b \<Longrightarrow> ber_buf b' ! i = ber_buf b ! i"
      using Cons.IH [OF g(2) False] Cons.prems(3,4) by auto
    have "take (v + length c) (ber_buf b') = take (v + length c) (ber_buf b)" using r(4,5) g(4) by (intro nth_equalityI) auto
    then have "take (length c) (drop v (ber_buf b')) = take (length c) (drop v (ber_buf b))" by (metis drop_take add_diff_cancel_left')
    then have "contents b' v (length c) = Some c" using g(3) r(4) by (simp add: contents_def split: if_splits)
    moreover have "octet_at b' (v + length c) = Some 0" using z r(4) r(5) [of "v + length c"] g(4) by (auto simp: octet_at_def split: if_splits)
    ultimately have ip: "in_place b' (InPlace v (length c)) c" by (simp add: in_place_def)
    have fr: "ber_buf b' ! i = ber_buf ber ! i" if "i \<le> ber_ptr ber" for i using r(5) [of i] that g(4-7) by simp
    have "vector_loop avail choice (opts False False) ber (length (t # ts)) = Some (fst (last ts), Some (InPlace v (length c) # bs), b')"
      using g(1) d r(1) False Cons.prems(4) by simp
    then show ?thesis using False t r(2-4) ip fr g(6) by auto
  qed
qed simp

lemma count_loop_reads:
  assumes "reader ber (concat (map (\<lambda>(tag, c). element tag c) ts) @ xs)" "\<forall>(tag, c) \<in> set ts. tag_ok tag \<and> length c < 2 ^ 64"
    and "lst = ber_ptr ber + length (concat (map (\<lambda>(tag, c). element tag c) ts))"
  shows "\<exists>t. count_loop ber lst i = Some (i + length ts, ber\<lparr>ber_ptr := lst, ber_tag := t\<rparr>)"
  using assms
proof (induction ts arbitrary: ber i)
  case Nil
  then have "count_loop ber lst i = Some (i, ber\<lparr>ber_ptr := lst, ber_tag := ber_tag ber\<rparr>)" by (subst count_loop.simps) simp
  then show ?case by (intro exI [of _ "ber_tag ber"]) simp
next
  case (Cons t ts)
  obtain tag c where t: "t = (tag, c)" by (metis surj_pair)
  let ?rest = "concat (map (\<lambda>(tag, c). element tag c) ts) @ xs"
  have tok: "tag_ok tag" "length c < 2 ^ 64" using Cons.prems(2) t by auto
  have "reader ber (tag_octets tag @ len_octets (length c) @ c @ ?rest)" using Cons.prems(1) t by (simp add: element_def)
  from peek_reads [OF this tok(1) len_form_octets [OF tok(2)]]
  have p: "ber_peek_element ber = Some (tag, length c, ber_ptr ber + length (tag_octets tag) + length (len_octets (length c)))" .
  let ?q = "ber_ptr ber + length (element tag c)"
  have ne: "element tag c \<noteq> []" using length_tag_octets(2) [of tag] by (simp add: element_def)
  obtain k where g: "goto ber ?q = Some (ber\<lparr>ber_ptr := ?q, ber_tag := k\<rparr>)" "reader (ber\<lparr>ber_ptr := ?q, ber_tag := k\<rparr>) ?rest"
    using goto_reads [OF _ ne, of ber ?rest] Cons.prems(1) t by auto
  have s: "ber_skip_element ber = Some (tag, length c, ber_ptr ber + length (tag_octets tag) + length (len_octets (length c)), ber\<lparr>ber_ptr := ?q, ber_tag := k\<rparr>)"
    using p g(1) tok(1) by (simp add: ber_skip_element_def tag_ok_def element_def add.assoc)
  have "\<exists>t. count_loop (ber\<lparr>ber_ptr := ?q, ber_tag := k\<rparr>) lst (Suc i) = Some (Suc i + length ts, (ber\<lparr>ber_ptr := ?q, ber_tag := k\<rparr>)\<lparr>ber_ptr := lst, ber_tag := t\<rparr>)"
    using Cons.prems(2,3) t by (intro Cons.IH [OF g(2)]) auto
  moreover have "ber_ptr ber < lst" using Cons.prems(3) t ne by simp
  ultimately show ?case using s tok(1) by (subst count_loop.simps) (auto simp: tag_ok_def)
qed


lemma goto_self: "ber_skip_tag ber = Some (tag, len, b) \<Longrightarrow> goto (b\<lparr>ber_ptr := p, ber_tag := t\<rparr>) (ber_ptr b) = Some b"
  by (auto simp: ber_skip_tag_def goto_def octet_at_def bind_eq_Some_conv split: if_splits)

lemma get_vector_reads:
  assumes r: "reader ber (element tag (concat (map (\<lambda>(tag, c). element tag c) ts)) @ xs)" and ok: "tag_ok tag"
    and ts: "ts \<noteq> []" "\<forall>(tag, c) \<in> set ts. tag_ok tag" "length (concat (map (\<lambda>(tag, c). element tag c) ts)) < 2 ^ 64"
    and av: "\<forall>n. avail n" "0 < siz"
  shows "\<exists>bs ber'. ber_get_stringbvl avail ber BvOff (opts False False) siz = Some (fst (last ts), Some bs, length ts, ber') \<and> reader ber' xs \<and>
    list_all2 (in_place ber') bs (map snd ts)"
proof -
  let ?c = "concat (map (\<lambda>(tag, c). element tag c) ts)"
  have small: "\<forall>(tag, c) \<in> set ts. tag_ok tag \<and> length c < 2 ^ 64"
  proof clarify
    fix u c assume u: "(u, c) \<in> set ts"
    have "length ((\<lambda>(tag, c). element tag c) (u, c)) < 2 ^ 64" using concat_less [OF ts(3) u] .
    then show "tag_ok u \<and> length c < 2 ^ 64" using ts(2) u by (auto simp: element_def)
  qed
  have "reader ber (tag_octets tag @ len_octets (length ?c) @ ?c @ xs)" using r by (simp add: element_def)
  from skip_tag_reads [OF this ok len_form_octets [OF ts(3)]] obtain b where
    b: "ber_skip_tag ber = Some (tag, length ?c, b)" "reader b (?c @ xs)" by metis
  obtain k where c: "count_loop b (ber_ptr b + length ?c) 0 = Some (length ts, b\<lparr>ber_ptr := ber_ptr b + length ?c, ber_tag := k\<rparr>)"
    using count_loop_reads [OF b(2) small refl, of 0] by auto
  obtain bs b' where v: "vector_loop avail BvOff (opts False False) b (length ts) = Some (fst (last ts), Some bs, b')" "reader b' xs" "list_all2 (in_place b') bs (map snd ts)"
    using vector_loop_in_place [OF b(2) ts(1) small, of BvOff avail] by auto
  have "ber_get_stringbvl avail ber BvOff (opts False False) siz = Some (fst (last ts), Some bs, length ts, b')"
    using b(1) c v(1) goto_self [OF b(1)] ok ts(1) av unfolding ber_get_stringbvl_def by (simp add: Let_def tag_ok_def memalloc_def)
  then show ?thesis using v by blast
qed

lemma readable_ok: "asn_readable t \<Longrightarrow> asn_ok t"
proof (induction t)
  case (ASeq tag ts) then show ?case by (auto simp: tag_ok_def default_tag_def LBER_DEFAULT_def list_all_iff split: if_splits)
next
  case (ASet tag ts) then show ?case by (auto simp: tag_ok_def default_tag_def LBER_DEFAULT_def list_all_iff split: if_splits)
qed (auto simp: tag_ok_def default_tag_def LBER_DEFAULT_def split: if_splits)

lemma reader_init: "reader (ber_init2 (xs @ [z]) (length xs)) xs"
  by (cases xs) (auto simp: reader_def ber_init2_def ber_alloc_t_def)


section \<open>Properties of the reader\<close>

text \<open>C7. Writing a value with \<^verbatim>\<open>ber_printf\<close> and reading the result with \<^verbatim>\<open>ber_scanf\<close> gives the value back, in BER and in
  DER, for every tree of integers, booleans, strings, nulls, sequences and sets that can be read at all.\<close>

theorem ber_roundtrip:
  assumes "asn_readable t" and "length (asn_octets False t) \<le> MAXINT_BERSIZE" and "\<forall>n. avail n"
  shows "\<exists>rc ber. ber_printf avail (ber_alloc_t der) (asn_fmt t) (asn_args t) = Some (rc, ber) \<and> rc \<noteq> - 1 \<and>
    (\<exists>rc' ber'. ber_scanf avail (ber_init2 (take (ber_ptr ber) (ber_buf ber) @ [z]) (ber_ptr ber)) (asn_scan t)
       (replicate (length (asn_values t)) ScanOut) = Some (rc', ber', asn_values t) \<and> rc' \<noteq> LBER_DEFAULT)"
proof -
  let ?x = "asn_octets der t"
  obtain rc ber where p: "ber_printf avail (ber_alloc_t der) (asn_fmt t) (asn_args t) = Some (rc, ber)" "rc \<noteq> - 1"
      "take (ber_ptr ber) (ber_buf ber) = ?x" "ber_ptr ber = length ?x"
    using printf_finished [OF readable_ok [OF assms(1)], of avail der] assms(2,3) by blast
  have "length (asn_octets False t) < 2 ^ 31" using MAXINT_less [OF assms(2)] .
  with asn_octets_shorter [of t der] have "length ?x < 2 ^ 31" by simp
  moreover have "reader (ber_init2 (?x @ [z]) (length ?x)) (?x @ [])" using reader_init by simp
  ultimately have "scans avail 0 (ber_init2 (?x @ [z]) (length ?x)) (asn_scan t) (length (asn_values t)) (asn_values t) []"
    using scans_asn [of _ der t "[]" 0 avail] assms(1,3) by (simp add: LBER_DEFAULT_def)
  then obtain rc' b where "rc' \<noteq> LBER_DEFAULT"
    "ber_scanf_loop avail 0 (ber_init2 (?x @ [z]) (length ?x)) (asn_scan t) (replicate (length (asn_values t)) ScanOut) [] = Some (rc', b, asn_values t)"
    unfolding scans_def by (metis append_Nil append_Nil2 ber_scanf_loop.simps(1))
  then show ?thesis using p by (auto simp: ber_scanf_def)
qed


lemma tag_ok_small: "tag < 256 \<Longrightarrow> tag mod 32 \<noteq> 31 \<Longrightarrow> tag_ok tag"
  by (simp add: tag_ok_def tag_octets_def prepend_tag octets.simps [of tag] LBER_DEFAULT_def Let_def)

lemma asn_example_readable:
  "asn_readable (ASeq LBER_DEFAULT [AInt LBER_DEFAULT 300, ABool LBER_DEFAULT 1, AOctets 0x80 [1, 2]])"
  by (simp add: default_tag_def default_tags LBER_DEFAULT_def tag_ok_small)

lemma ber_roundtrip_witness:
  "\<exists>rc ber. ber_printf (\<lambda>n. True) (ber_alloc_t True) [CHR ''t'', CHR 0x7B, CHR ''t'', CHR ''i'', CHR ''t'', CHR ''b'', CHR ''t'', CHR ''o'', CHR 0x7D]
      [ArgTag LBER_DEFAULT, ArgTag LBER_DEFAULT, ArgInt 300, ArgTag LBER_DEFAULT, ArgInt 1, ArgTag 0x80, ArgOctets [1, 2]] = Some (rc, ber) \<and>
    rc \<noteq> - 1 \<and> (\<exists>rc' ber'. ber_scanf (\<lambda>n. True) (ber_init2 (take (ber_ptr ber) (ber_buf ber) @ [0]) (ber_ptr ber)) [CHR 0x7B, CHR ''i'', CHR ''b'', CHR ''o'', CHR 0x7D]
      [ScanOut, ScanOut, ScanOut] = Some (rc', ber', [OutInt (Some 300), OutInt (Some (- 1)), OutStr (Some (Copied [1, 2]))]) \<and> rc' \<noteq> LBER_DEFAULT)"
  using ber_roundtrip [OF asn_example_readable, of "\<lambda>n. True" True 0]
  by (simp add: asn_example MAXINT_BERSIZE_def HEADER_SIZE_def TAGBUF_SIZE_def LENBUF_SIZE_def numeral_3_eq_3 del: asn_octets.simps)

text \<open>C8. Whatever octets arrive, a call of \<^verbatim>\<open>ber_scanf\<close> with a known format returns, and neither it nor the functions it is
  made of read or write outside the buffer.\<close>

theorem ber_scanf_in_bounds:
  assumes "in_bounds ber" and "scan_ok fmt args"
  shows "\<exists>rc ber' outs. ber_scanf avail ber fmt args = Some (rc, ber', outs) \<and> in_bounds ber'"
proof -
  obtain rc b outs where "ber_scanf_loop avail 0 ber fmt args [] = Some (rc, b, outs)" "in_bounds b" "list_all no_hook outs"
    using scanf_loop_runs [OF assms, of "[]" avail 0] by (auto simp: runs_def)
  then show ?thesis using reset_outs_same [of outs b] by (auto simp: ber_scanf_def Let_def split_beta)
qed

lemma ber_scanf_in_bounds_witness:
  "\<exists>rc ber' outs. ber_scanf (\<lambda>n. True) (ber_init2 [0x30, 0x84, 0xff, 0xff, 0xff, 0xff, 0x04, 0x7f, 0] 8) [CHR 0x7B, CHR ''m'', CHR 0x7D] [ScanOut]
     = Some (rc, ber', outs) \<and> in_bounds ber'"
  by (rule ber_scanf_in_bounds) (simp_all add: in_bounds_def ber_init2_def ber_alloc_t_def scan_arg_ok_def)

text \<open>A sequence of strings is parsed in place: every string of the vector is intact and followed by a zero, although
  each zero was written over the first octet of the next element before that was read.\<close>

lemma ber_vector_in_place:
  assumes "reader ber (element tag (concat (map (\<lambda>(tag, c). element tag c) ts)) @ xs)" and "tag_ok tag"
    and "ts \<noteq> []" and "\<forall>(tag, c) \<in> set ts. tag_ok tag" and "length (concat (map (\<lambda>(tag, c). element tag c) ts)) < 2 ^ 64"
    and "\<forall>n. avail n" and "0 < siz"
  shows "\<exists>bs ber'. ber_get_stringbvl avail ber BvOff (opts False False) siz = Some (fst (last ts), Some bs, length ts, ber') \<and> reader ber' xs \<and>
    list_all2 (\<lambda>b (tag, c). \<exists>v. b = InPlace v (length c) \<and> contents ber' v (length c) = Some c \<and> octet_at ber' (v + length c) = Some 0) bs ts"
proof -
  obtain bs b where "ber_get_stringbvl avail ber BvOff (opts False False) siz = Some (fst (last ts), Some bs, length ts, b)" "reader b xs"
    "list_all2 (in_place b) bs (map snd ts)" using get_vector_reads [OF assms] by blast
  moreover from this(3) have "list_all2 (\<lambda>x (tag, c). \<exists>v. x = InPlace v (length c) \<and> contents b v (length c) = Some c \<and> octet_at b (v + length c) = Some 0) bs ts"
    unfolding list_all2_map2 by (rule list_all2_mono) (auto simp: in_place_def)
  ultimately show ?thesis by blast
qed

lemma ber_vector_in_place_witness:
  "\<exists>bs ber'. ber_get_stringbvl (\<lambda>n. True) (ber_init2 [0x30, 0x07, 0x04, 0x02, 0x61, 0x62, 0x04, 0x01, 0x63, 0] 9) BvOff (opts False False) 16
     = Some (4, Some bs, 2, ber') \<and> reader ber' []"
proof -
  have e: "element 0x30 (element 4 [0x61, 0x62] @ element 4 [0x63]) = [0x30, 0x07, 0x04, 0x02, 0x61, 0x62, 0x04, 0x01, 0x63]"
    by (simp add: element_def tag_octets_def prepend_tag octets.simps len_octets_cases)
  have "reader (ber_init2 ([0x30, 0x07, 0x04, 0x02, 0x61, 0x62, 0x04, 0x01, 0x63] @ [0]) 9) [0x30, 0x07, 0x04, 0x02, 0x61, 0x62, 0x04, 0x01, 0x63]"
    using reader_init [of "[0x30, 0x07, 0x04, 0x02, 0x61, 0x62, 0x04, 0x01, 0x63]" 0] by (simp add: eval_nat_numeral)
  then show ?thesis
    using ber_vector_in_place [of "ber_init2 [0x30, 0x07, 0x04, 0x02, 0x61, 0x62, 0x04, 0x01, 0x63, 0] 9" "0x30" "[(4, [0x61, 0x62]), (4, [0x63])]" "[]" "\<lambda>n. True" 16]
    by (auto simp: e tag_ok_small) (auto simp: element_def tag_octets_def prepend_tag octets.simps len_octets_cases)
qed

text \<open>Not every bit string that can be written can be read: one with an octet that is zero, or an empty one, is refused.\<close>

lemma bitstring_refused:
  assumes "reader ber (element tag (of_nat u # c) @ xs)" and "tag_ok tag" and "length c < 2 ^ 31" and "0 \<in> set c \<or> c = []"
  shows "\<exists>ber'. ber_get_bitstringa avail ber = Some (LBER_DEFAULT, None, ber')"
proof -
  have "length (of_nat u # c) < 2 ^ 64" using assms(3) by simp
  from element_skip [OF assms(1,2) this] obtain val ber' where
    "ber_skip_element ber = Some (tag, length (of_nat u # c), val, ber')" "contents ber' val (length (of_nat u # c)) = Some (of_nat u # c)" by metis
  then show ?thesis using assms by (auto simp: ber_get_bitstringa_def tag_ok_def memalloc_def Let_def)
qed

lemma bitstring_refused_witness:
  "\<exists>ber ber'. ber_printf (\<lambda>n. True) (ber_alloc_t True) ''tB'' [ArgTag 3, ArgBits [0] 8] = Some (4, ber) \<and>
     ber_get_bitstringa (\<lambda>n. True) (ber_init2 (take (ber_ptr ber) (ber_buf ber) @ [0]) (ber_ptr ber)) = Some (LBER_DEFAULT, None, ber')"
proof -
  have p: "ber_printf (\<lambda>n. True) (ber_alloc_t True) ''tB'' [ArgTag 3, ArgBits [0] 8] =
      Some (4, (ber_alloc_t True)\<lparr>ber_buf := [3, 2, 0, 0], ber_ptr := 4, ber_end := 4060\<rparr>)"
    by (simp add: ber_printf_def printf_item_def ber_put_bitstring_def write_both_def ber_write_def ber_room_def ber_realloc_def write_cursor_def
        ber_alloc_t_def default_tag_def LBER_DEFAULT_def Let_def MAXINT_BERSIZE_def HEADER_SIZE_def TAGBUF_SIZE_def LENBUF_SIZE_def poke_def
        prepend_tag octets.simps [of 3] ber_prepend_len_def)
  have e: "element 3 (of_nat 0 # [0]) = [3, 2, 0, 0]" by (simp add: element_def tag_octets_def prepend_tag octets.simps len_octets_cases)
  have r: "reader (ber_init2 ([3, 2, 0, 0] @ [0]) 4) [3, 2, 0, 0]"
    using reader_init [of "[3, 2, 0, 0]" 0] by (simp add: eval_nat_numeral)
  have "\<exists>ber'. ber_get_bitstringa (\<lambda>n. True) (ber_init2 ([3, 2, 0, 0] @ [0]) 4) = Some (LBER_DEFAULT, None, ber')"
    using r by (intro bitstring_refused [of _ 3 0 "[0]" "[]"]) (simp_all add: e [simplified] tag_ok_small)
  with p show ?thesis by simp
qed


end
