(* ===== verification/Value_Match.thy ===== *)
theory Value_Match
  imports Attr_Index
begin

text \<open>
  Attribute descriptions, matching rules and the comparison of values: \<^verbatim>\<open>servers/slapd/ad.c\<close>
  (subtypes of descriptions), \<^verbatim>\<open>mr.c\<close> and \<^verbatim>\<open>syntax.c\<close> (which rule suits which type),
  \<^verbatim>\<open>value.c\<close> (matching, with and without the index of X-ORDERED values) and the octet string
  rules of \<^verbatim>\<open>schema_init.c\<close>, which also serve the normalised directory strings.

  Descriptions, types, rules and syntaxes are named by numbers, the pointers of the source, and
  found in the stores of \<open>schema\<close>; comparing pointers is comparing numbers. The functions of a
  rule or syntax are fields of its record, as in the source. A match function returns its result
  code and what it wrote through \<^verbatim>\<open>matchp\<close>, \<open>None\<close> when it wrote nothing. A value is the list of its
  octets. Outcomes \<open>None\<close> of the functions below are a dereferenced null pointer, a failed assertion,
  an octet read before the start of a buffer, or a walk over a cyclic hierarchy.
\<close>

unbundle bit_operations_syntax

section \<open>Result codes and masks\<close>

definition LDAP_COMPARE_FALSE :: int where "LDAP_COMPARE_FALSE = 5"
definition LDAP_COMPARE_TRUE :: int where "LDAP_COMPARE_TRUE = 6"
definition LDAP_NO_SUCH_ATTRIBUTE :: int where "LDAP_NO_SUCH_ATTRIBUTE = 0x10"
definition LDAP_INAPPROPRIATE_MATCHING :: int where "LDAP_INAPPROPRIATE_MATCHING = 0x12"
definition LDAP_TYPE_OR_VALUE_EXISTS :: int where "LDAP_TYPE_OR_VALUE_EXISTS = 0x14"
definition LDAP_INSUFFICIENT_ACCESS :: int where "LDAP_INSUFFICIENT_ACCESS = 0x32"
definition LDAP_OTHER :: int where "LDAP_OTHER = 0x50"
definition SLAPD_COMPARE_UNDEFINED :: int where "SLAPD_COMPARE_UNDEFINED = - 1"

lemmas result_codes = LDAP_SUCCESS_def LDAP_PROTOCOL_ERROR_def LDAP_INVALID_SYNTAX_def
  LDAP_COMPARE_FALSE_def LDAP_COMPARE_TRUE_def LDAP_NO_SUCH_ATTRIBUTE_def LDAP_INAPPROPRIATE_MATCHING_def
  LDAP_TYPE_OR_VALUE_EXISTS_def LDAP_INSUFFICIENT_ACCESS_def LDAP_OTHER_def SLAPD_COMPARE_UNDEFINED_def

type_synonym slap_mask = "32 word"

definition SLAP_MR_TYPE_MASK :: slap_mask where "SLAP_MR_TYPE_MASK = 0x0F00"
definition SLAP_MR_SUBTYPE_MASK :: slap_mask where "SLAP_MR_SUBTYPE_MASK = 0x00F0"
definition SLAP_MR_EQUALITY :: slap_mask where "SLAP_MR_EQUALITY = 0x0100"
definition SLAP_MR_ORDERING :: slap_mask where "SLAP_MR_ORDERING = 0x0200"
definition SLAP_MR_SUBSTR :: slap_mask where "SLAP_MR_SUBSTR = 0x0400"
definition SLAP_MR_EXT :: slap_mask where "SLAP_MR_EXT = 0x0800"
definition SLAP_MR_EQUALITY_APPROX :: slap_mask where "SLAP_MR_EQUALITY_APPROX = SLAP_MR_EQUALITY OR 0x0010"
definition SLAP_MR_VALUE_OF_ASSERTION_SYNTAX :: slap_mask where "SLAP_MR_VALUE_OF_ASSERTION_SYNTAX = 0x0001"
definition SLAP_MR_VALUE_OF_ATTRIBUTE_SYNTAX :: slap_mask where "SLAP_MR_VALUE_OF_ATTRIBUTE_SYNTAX = 0x0002"
definition SLAP_MR_VALUE_OF_SYNTAX :: slap_mask where
  "SLAP_MR_VALUE_OF_SYNTAX = SLAP_MR_VALUE_OF_ASSERTION_SYNTAX OR SLAP_MR_VALUE_OF_ATTRIBUTE_SYNTAX"
definition SLAP_MR_ASSERTED_VALUE_NORMALIZED_MATCH :: slap_mask where
  "SLAP_MR_ASSERTED_VALUE_NORMALIZED_MATCH = 0x0004"
definition SLAP_MR_ATTRIBUTE_VALUE_NORMALIZED_MATCH :: slap_mask where
  "SLAP_MR_ATTRIBUTE_VALUE_NORMALIZED_MATCH = 0x0008"
definition SLAP_AT_ORDERED :: slap_mask where "SLAP_AT_ORDERED = 0x0003"
definition SLAP_AT_SORTED_VAL :: slap_mask where "SLAP_AT_SORTED_VAL = 0x0010"
definition SLAP_DESC_TAG_RANGE :: slap_mask where "SLAP_DESC_TAG_RANGE = 0x80"

lemmas masks = SLAP_MR_TYPE_MASK_def SLAP_MR_SUBTYPE_MASK_def SLAP_MR_EQUALITY_def SLAP_MR_ORDERING_def
  SLAP_MR_SUBSTR_def SLAP_MR_EXT_def SLAP_MR_EQUALITY_APPROX_def SLAP_MR_VALUE_OF_ASSERTION_SYNTAX_def
  SLAP_MR_VALUE_OF_ATTRIBUTE_SYNTAX_def SLAP_MR_VALUE_OF_SYNTAX_def SLAP_MR_ASSERTED_VALUE_NORMALIZED_MATCH_def
  SLAP_MR_ATTRIBUTE_VALUE_NORMALIZED_MATCH_def SLAP_AT_ORDERED_def SLAP_AT_SORTED_VAL_def SLAP_DESC_TAG_RANGE_def

text \<open>\<^verbatim>\<open>flags & m\<close> as a condition.\<close>

abbreviation has :: "slap_mask \<Rightarrow> slap_mask \<Rightarrow> bool" where
  "has flags m \<equiv> flags AND m \<noteq> 0"

section \<open>The schema\<close>

record substrings_assertion =
  sa_desc :: nat
  sa_initial :: "string option"
  sa_any :: "string list option"
  sa_final :: "string option"

text \<open>What the \<^verbatim>\<open>void *\<close> of a match function points to.\<close>

datatype assertion = Value string | Substrings substrings_assertion

record slap_syntax =
  ssyn_flags :: slap_mask
  ssyn_sups :: "nat list option"
  ssyn_validate :: "(string \<Rightarrow> int) option"
  ssyn_pretty :: "(string \<Rightarrow> int \<times> string) option"

record matching_rule =
  smr_usage :: slap_mask
  smr_syntax :: nat
  smr_compat_syntaxes :: "nat list option"
  smr_normalize :: "(slap_mask \<Rightarrow> nat option \<Rightarrow> string \<Rightarrow> int \<times> string) option"
  smr_match :: "(slap_mask \<Rightarrow> nat \<Rightarrow> string \<Rightarrow> assertion \<Rightarrow> int \<times> int option) option"

record attr_type = attribute_type +
  sat_flags :: slap_mask   \<comment> \<open>the flags about values\<close>
  sat_equality :: "nat option"
  sat_approx :: "nat option"
  sat_ordering :: "nat option"
  sat_substr :: "nat option"
  sat_syntax :: nat
  sat_cname :: string
  sat_obsolete :: bool
  sat_single_value :: bool
  sat_collective :: bool
  sat_no_user_mod :: bool
  sat_usage :: nat         \<comment> \<open>not 0 for an operational attribute\<close>

record attr_desc =
  ad_type :: nat
  ad_tags :: string
  ad_flags :: slap_mask

record schema =
  at_store :: "nat \<Rightarrow> attr_type"
  at_count :: nat          \<comment> \<open>how many attribute types there are\<close>
  ad_store :: "nat \<Rightarrow> attr_desc"
  mr_store :: "nat \<Rightarrow> matching_rule"
  syn_store :: "nat \<Rightarrow> slap_syntax"
  syn_count :: nat
  si_ad_entryDN :: nat
  si_ad_hasSubordinates :: nat
  si_ad_subschemaSubentry :: nat
  si_ad_objectClass :: nat

definition type_of :: "schema \<Rightarrow> nat \<Rightarrow> attr_type" where
  "type_of sc ad = at_store sc (ad_type (ad_store sc ad))"

section \<open>Attribute descriptions\<close>

text \<open>The tag at the start of a list of tags, by its length, and the rest behind the separator.\<close>

definition strchrlen :: "string \<Rightarrow> char \<Rightarrow> nat \<times> string option" where
  "strchrlen beg ch =
     (let len = length (takeWhile (\<lambda>c. c \<noteq> NUL \<and> c \<noteq> ch) beg)
      in (len, if len < length beg \<and> beg ! len = ch then Some (drop len beg) else None))"

lemma strchrlen_rest: "(n, Some t) = strchrlen s ch \<Longrightarrow> length t - Suc 0 < length s"
  by (auto simp: strchrlen_def Let_def split: if_splits)

definition tag_matches :: "string \<Rightarrow> nat \<Rightarrow> string \<Rightarrow> nat \<Rightarrow> bool option" where
  "tag_matches supp suplen subp sublen =
     (if suplen > sublen
      then Some (suplen - 1 = sublen \<and> supp ! (suplen - 1) = CHR ''-'' \<and> take sublen supp = take sublen subp)
      else if suplen = sublen then Some (take suplen supp = take suplen subp)
      else if suplen = 0 then None
      else Some (supp ! (suplen - 1) = CHR ''-'' \<and> take suplen supp = take suplen subp))"

function subtag_loop :: "string \<Rightarrow> nat \<Rightarrow> string \<Rightarrow> bool option" where
  "subtag_loop supp suplen subp =
     (let (sublen, subdelimp) = strchrlen subp CHR '';'' in do {
        m \<leftarrow> tag_matches supp suplen subp sublen;
        if m then Some True
        else (case subdelimp of None \<Rightarrow> Some False | Some t \<Rightarrow> subtag_loop supp suplen (drop 1 t)) })"
  by auto
termination
  by (relation "measure (\<lambda>(supp, suplen, subp). length subp)") (auto dest: strchrlen_rest)

function is_ad_subtags :: "string \<Rightarrow> string \<Rightarrow> bool option" where
  "is_ad_subtags subtags supp =
     (let (suplen, supdelimp) = strchrlen supp CHR '';'' in do {
        m \<leftarrow> subtag_loop supp suplen subtags;
        if \<not> m then Some False
        else (case supdelimp of None \<Rightarrow> Some True | Some t \<Rightarrow> is_ad_subtags subtags (drop 1 t)) })"
  by auto
termination
  by (relation "measure (\<lambda>(subtags, supp). length supp)") (auto dest: strchrlen_rest)

declare subtag_loop.simps [simp del] is_ad_subtags.simps [simp del]

text \<open>The walk over the superior types is the loop of \<^verbatim>\<open>is_at_subtype\<close> once more.\<close>

definition is_ad_subtype :: "schema \<Rightarrow> nat \<Rightarrow> nat \<Rightarrow> bool option" where
  "is_ad_subtype sc sub super =
     (let sub = ad_store sc sub; super = ad_store sc super in do {
        found \<leftarrow> is_at_subtype (at_count sc) (at_store sc) (Some (ad_type sub)) (ad_type super);
        let lr = (if ad_tags sub \<noteq> [] then SLAP_DESC_TAG_RANGE else 0);
        if \<not> found then Some False
        else if ad_flags super AND (ad_flags sub OR lr) \<noteq> ad_flags super then Some False
        else if ad_tags super = [] then Some True
        else if ad_tags sub = [] then Some False
        else is_ad_subtags (ad_tags sub) (ad_tags super) })"


section \<open>Matching rules\<close>

text \<open>The fuel is the number of syntaxes, which bounds the depth of an acyclic hierarchy.\<close>

function syn_is_sup :: "nat \<Rightarrow> (nat \<Rightarrow> slap_syntax) \<Rightarrow> nat \<Rightarrow> nat \<Rightarrow> bool option"
  and sups_loop :: "nat \<Rightarrow> (nat \<Rightarrow> slap_syntax) \<Rightarrow> nat list \<Rightarrow> nat \<Rightarrow> bool option" where
  "syn_is_sup fuel store syn super =
     (if syn = super then Some True
      else (case ssyn_sups (store syn) of
              None \<Rightarrow> Some False
            | Some sups \<Rightarrow> (case fuel of 0 \<Rightarrow> None | Suc f \<Rightarrow> sups_loop f store sups super)))"
| "sups_loop fuel store [] super = Some False"
| "sups_loop fuel store (s # ss) super =
     (if s = super then Some True
      else do {
        m \<leftarrow> syn_is_sup fuel store s super;
        if m then Some True else sups_loop fuel store ss super })"
  by pat_completeness auto
termination
  by (relation "measures [\<lambda>x. (case x of Inl (fuel, _) \<Rightarrow> 2 * fuel | Inr (fuel, _) \<Rightarrow> 2 * fuel + 1),
                          \<lambda>x. (case x of Inl _ \<Rightarrow> 0 | Inr (_, _, ss, _) \<Rightarrow> length ss)]") auto

declare syn_is_sup.simps [simp del]

definition mr_usable_with_at :: "schema \<Rightarrow> nat \<Rightarrow> attr_type \<Rightarrow> bool option" where
  "mr_usable_with_at sc mr sat =
     (let rule = mr_store sc mr in do {
        direct \<leftarrow> (if has (smr_usage rule) SLAP_MR_EXT
                  then if smr_syntax rule = sat_syntax sat \<or> Some mr = sat_equality sat \<or> Some mr = sat_approx sat
                       then Some True
                       else syn_is_sup (syn_count sc) (syn_store sc) (sat_syntax sat) (smr_syntax rule)
                  else Some False);
        Some (direct \<or> (case smr_compat_syntaxes rule of
                          None \<Rightarrow> False | Some syns \<Rightarrow> sat_syntax sat \<in> set syns)) })"

text \<open>The octet string rules. An assertion of the other kind is not what the \<^verbatim>\<open>void *\<close> is cast to:
  nothing is written. \<^verbatim>\<open>ber_slen_t\<close> is wider than \<^verbatim>\<open>int\<close>, so lengths compare by sign.\<close>

definition octetStringMatch :: "slap_mask \<Rightarrow> nat \<Rightarrow> string \<Rightarrow> assertion \<Rightarrow> int \<times> int option" where
  "octetStringMatch flags syn v asserted =
     (case asserted of
        Value a \<Rightarrow>
          let d = int (length v) - int (length a)
          in (LDAP_SUCCESS, Some (if d \<noteq> 0 then if d < 0 then - 1 else 1 else memcmp v a))
      | Substrings sub \<Rightarrow> (LDAP_SUCCESS, None))"

definition octetStringOrderingMatch :: "slap_mask \<Rightarrow> nat \<Rightarrow> string \<Rightarrow> assertion \<Rightarrow> int \<times> int option" where
  "octetStringOrderingMatch flags syn v asserted =
     (case asserted of
        Value a \<Rightarrow>
          let n = min (length v) (length a);
              match = memcmp (take n v) (take n a);
              match = (if match = 0
                       then if length v < length a then - 1 else if length a < length v then 1 else 0
                       else match);
              match = (if has flags SLAP_MR_EXT then if 0 \<le> match then 1 else 0 else match)
          in (LDAP_SUCCESS, Some match)
      | Substrings sub \<Rightarrow> (LDAP_SUCCESS, None))"

definition memchr :: "string \<Rightarrow> char \<Rightarrow> nat option" where
  "memchr s c = (let n = length (takeWhile (\<lambda>x. x \<noteq> c) s) in if n < length s then Some n else None)"

lemma memchr_Some: "memchr s c = Some n \<Longrightarrow> n < length s"
  by (simp add: memchr_def Let_def split: if_splits)

function any_loop :: "string list \<Rightarrow> nat \<Rightarrow> string \<Rightarrow> int \<Rightarrow> int \<times> int option" where
  "any_loop [] inlen left match = (LDAP_SUCCESS, Some match)"
| "any_loop (a # as) inlen left match =
     (if inlen > length left then (LDAP_SUCCESS, Some 1)
      else if a = [] then any_loop as inlen left match
      else (case memchr left (hd a) of
              None \<Rightarrow> (LDAP_SUCCESS, Some 1)
            | Some idx \<Rightarrow>
                if length left \<le> idx then (LDAP_OTHER, None)
                else let left = drop idx left in
                  if length a > length left then (LDAP_SUCCESS, Some 1)
                  else let match = memcmp (take (length a) left) a in
                    if match \<noteq> 0 then any_loop (a # as) inlen (drop 1 left) match
                    else any_loop as (inlen - length a) (drop (length a) left) match))"
  by pat_completeness auto
termination
  by (relation "measure (\<lambda>(as, inlen, left, match). length as + length left)") auto

declare any_loop.simps(2) [simp del]

definition opt_len :: "string option \<Rightarrow> nat" where
  "opt_len s = (case s of None \<Rightarrow> 0 | Some s \<Rightarrow> length s)"

text \<open>The initial and the final part are compared and cut off; \<open>Inl\<close> is the match of a \<^verbatim>\<open>goto done\<close>.\<close>

definition cut_initial :: "string option \<Rightarrow> string \<Rightarrow> nat \<Rightarrow> int + string \<times> nat" where
  "cut_initial ini left inlen =
     (case ini of
        None \<Rightarrow> Inr (left, inlen)
      | Some ini \<Rightarrow>
          if inlen > length left then Inl 1
          else let match = memcmp ini (take (length ini) left)
            in if match \<noteq> 0 then Inl match else Inr (drop (length ini) left, inlen - length ini))"

definition cut_final :: "string option \<Rightarrow> string \<Rightarrow> nat \<Rightarrow> int + string \<times> nat" where
  "cut_final fin left inlen =
     (case fin of
        None \<Rightarrow> Inr (left, inlen)
      | Some fin \<Rightarrow>
          if inlen > length left then Inl 1
          else let at = length left - length fin; match = memcmp fin (drop at left)
            in if match \<noteq> 0 then Inl match else Inr (take at left, inlen - length fin))"

definition octetStringSubstringsMatch :: "slap_mask \<Rightarrow> nat \<Rightarrow> string \<Rightarrow> assertion \<Rightarrow> int \<times> int option" where
  "octetStringSubstringsMatch flags syn v asserted =
     (case asserted of
        Value a \<Rightarrow> (LDAP_SUCCESS, None)
      | Substrings sub \<Rightarrow>
          let anys = (case sa_any sub of None \<Rightarrow> [] | Some l \<Rightarrow> l);
              inlen = opt_len (sa_initial sub) + sum_list (map length anys) + opt_len (sa_final sub)
          in (case cut_initial (sa_initial sub) v inlen of
                Inl match \<Rightarrow> (LDAP_SUCCESS, Some match)
              | Inr (left, inlen) \<Rightarrow>
                  (case cut_final (sa_final sub) left inlen of
                     Inl match \<Rightarrow> (LDAP_SUCCESS, Some match)
                   | Inr (left, inlen) \<Rightarrow> any_loop anys inlen left 0)))"

section \<open>Matching values\<close>

definition numericStringValidate :: "string \<Rightarrow> int" where
  "numericStringValidate s =
     (if s = [] \<or> \<not> list_all (\<lambda>c. isdigit c \<or> c = CHR '' '') s then LDAP_INVALID_SYNTAX else LDAP_SUCCESS)"

definition value_match :: "schema \<Rightarrow> nat \<Rightarrow> nat option \<Rightarrow> slap_mask \<Rightarrow> string \<Rightarrow> assertion \<Rightarrow> (int \<times> int option) option" where
  "value_match sc ad mr flags v1 v2 =
     (case mr of
        None \<Rightarrow> None
      | Some mr \<Rightarrow>
          Some (case smr_match (mr_store sc mr) of
                  None \<Rightarrow> (LDAP_INAPPROPRIATE_MATCHING, None)
                | Some f \<Rightarrow> f flags (sat_syntax (type_of sc ad)) v1 v2))"

text \<open>The index \<^verbatim>\<open>{...}\<close> in front of a value, and the value with a numeric index removed.\<close>

definition skip_index :: "string \<Rightarrow> string option \<times> string" where
  "skip_index v =
     (if byte v 0 = CHR ''{''
      then (case memchr v CHR ''}'' of
              None \<Rightarrow> (None, v)
            | Some p \<Rightarrow>
                let ns = take (p - 1) (drop 1 v)
                in (Some ns, if numericStringValidate ns = LDAP_SUCCESS then drop (p + 1) v else v))
      else (None, v))"

definition ber_bvcmp :: "string \<Rightarrow> string \<Rightarrow> int" where
  "ber_bvcmp v1 v2 = (if length v1 < length v2 then - 1 else if length v2 < length v1 then 1 else memcmp v1 v2)"

text \<open>The comparison of the indexes writes \<^verbatim>\<open>*match\<close> before the values are compared.\<close>

definition ordered_value_match ::
    "schema \<Rightarrow> nat \<Rightarrow> nat option \<Rightarrow> slap_mask \<Rightarrow> string \<Rightarrow> string \<Rightarrow> (int \<times> int option) option" where
  "ordered_value_match sc ad mr flags v1 v2 =
     (let ordered = has (sat_flags (type_of sc ad)) SLAP_AT_ORDERED;
          (ns2, v2) = (if ordered then skip_index v2 else (None, v2));
          (ns1, v1) = (if ordered then skip_index v1 else (None, v1));
          index_match = (case (ns1, ns2) of
                           (Some n1, Some n2) \<Rightarrow>
                             if ordered \<and> has flags SLAP_MR_VALUE_OF_ASSERTION_SYNTAX
                             then snd (octetStringOrderingMatch 0 0 n1 (Value n2)) else None
                         | _ \<Rightarrow> None)
      in if (case index_match of None \<Rightarrow> False | Some m \<Rightarrow> m \<noteq> 0 \<or> v2 = [])
         then Some (LDAP_SUCCESS, index_match)
         else if (case mr of None \<Rightarrow> True | Some m \<Rightarrow> smr_match (mr_store sc m) = None)
         then Some (LDAP_SUCCESS, Some (ber_bvcmp v1 v2))
         else map_option (\<lambda>(rc, m). (rc, if m = None then index_match else m))
                (value_match sc ad mr flags v1 (Value v2)))"

definition asserted_value_validate_normalize ::
    "schema \<Rightarrow> nat option \<Rightarrow> nat option \<Rightarrow> slap_mask \<Rightarrow> string \<Rightarrow> (int \<times> string option) option" where
  "asserted_value_validate_normalize sc ad mr usage v = do {
     ensure (\<not> has usage SLAP_MR_VALUE_OF_ATTRIBUTE_SYNTAX);
     case mr of
       None \<Rightarrow> Some (LDAP_INAPPROPRIATE_MATCHING, None)
     | Some mr \<Rightarrow>
         let rule = mr_store sc mr; syn = syn_store sc (smr_syntax rule) in
         if smr_match rule = None then Some (LDAP_INAPPROPRIATE_MATCHING, None)
         else if ssyn_pretty syn = None \<and> ssyn_validate syn = None then Some (LDAP_INAPPROPRIATE_MATCHING, None)
         else
           let (rc, v) = (case ssyn_pretty syn of
                            Some pretty \<Rightarrow> pretty v
                          | None \<Rightarrow> ((case ssyn_validate syn of Some validate \<Rightarrow> validate v | None \<Rightarrow> LDAP_SUCCESS), v)) in
           if rc \<noteq> LDAP_SUCCESS then Some (LDAP_INVALID_SYNTAX, None)
           else (case smr_normalize rule of
                   Some nf \<Rightarrow>
                     let (rc, out) = nf (usage OR SLAP_MR_VALUE_OF_ASSERTION_SYNTAX)
                                       (map_option (\<lambda>ad. sat_syntax (type_of sc ad)) ad) v
                     in if rc \<noteq> LDAP_SUCCESS then Some (LDAP_INVALID_SYNTAX, None) else Some (LDAP_SUCCESS, Some out)
                 | None \<Rightarrow> Some (LDAP_SUCCESS, Some v)) }"

text \<open>The linear search of \<^verbatim>\<open>value_find_ex\<close>; an unwritten \<^verbatim>\<open>match\<close> would be read uninitialised.\<close>

fun find_loop :: "schema \<Rightarrow> nat \<Rightarrow> nat option \<Rightarrow> slap_mask \<Rightarrow> string \<Rightarrow> string list \<Rightarrow> int option" where
  "find_loop sc ad mr flags val [] = Some LDAP_NO_SUCH_ATTRIBUTE"
| "find_loop sc ad mr flags val (v # vs) = do {
     (rc, m) \<leftarrow> value_match sc ad mr flags v (Value val);
     if rc = LDAP_SUCCESS then do {
       m \<leftarrow> m;
       if m = 0 then Some rc else find_loop sc ad mr flags val vs }
     else find_loop sc ad mr flags val vs }"

definition usage_mask :: slap_mask where
  "usage_mask = SLAP_MR_TYPE_MASK OR SLAP_MR_SUBTYPE_MASK OR SLAP_MR_VALUE_OF_SYNTAX"

definition value_find_ex :: "schema \<Rightarrow> nat \<Rightarrow> slap_mask \<Rightarrow> string list \<Rightarrow> string \<Rightarrow> int option" where
  "value_find_ex sc ad flags vals val =
     (case sat_equality (type_of sc ad) of
        None \<Rightarrow> Some LDAP_INAPPROPRIATE_MATCHING
      | Some mr \<Rightarrow>
          if smr_match (mr_store sc mr) = None then Some LDAP_INAPPROPRIATE_MATCHING
          else do {
            ensure (has flags SLAP_MR_ATTRIBUTE_VALUE_NORMALIZED_MATCH);
            case smr_normalize (mr_store sc mr) of
              Some nf \<Rightarrow>
                if has flags SLAP_MR_ASSERTED_VALUE_NORMALIZED_MATCH
                then find_loop sc ad (Some mr) flags val vals
                else let (rc, nval) = nf (flags AND usage_mask) (Some (sat_syntax (type_of sc ad))) val
                  in if rc \<noteq> LDAP_SUCCESS then Some LDAP_INVALID_SYNTAX
                     else find_loop sc ad (Some mr) flags nval vals
            | None \<Rightarrow> find_loop sc ad (Some mr) flags val vals })"

section \<open>Substring matching\<close>

text \<open>The parts of a substrings assertion in the order of their occurrence, without overlap.\<close>

fun any_in :: "string list \<Rightarrow> string \<Rightarrow> bool" where
  "any_in [] s \<longleftrightarrow> True"
| "any_in (a # as) s \<longleftrightarrow> (\<exists>p t. s = p @ a @ t \<and> any_in as t)"

definition opt_str :: "string option \<Rightarrow> string" where
  "opt_str s = (case s of None \<Rightarrow> [] | Some s \<Rightarrow> s)"

definition parts_in :: "string option \<Rightarrow> string list \<Rightarrow> string option \<Rightarrow> string \<Rightarrow> bool" where
  "parts_in ini anys fin v \<longleftrightarrow>
     (\<exists>mid. v = opt_str ini @ mid @ opt_str fin \<and> any_in anys mid)"

lemma any_in_append: "any_in as s \<Longrightarrow> any_in as (p @ s)"
  by (cases as) (auto, metis append.assoc)

lemma any_in_length: "any_in as s \<Longrightarrow> sum_list (map length as) \<le> length s"
  by (induction as arbitrary: s) (fastforce)+

lemma any_in_Nil: "any_in ([] # as) s \<longleftrightarrow> any_in as s"
  by (auto intro: any_in_append)

text \<open>An occurrence at the front is the best choice: what is left behind it is the longest.\<close>

lemma any_in_here: "any_in (a # as) (a @ s) \<longleftrightarrow> any_in as s"
proof
  assume "any_in (a # as) (a @ s)"
  then obtain p t where eq: "a @ s = p @ a @ t" and t: "any_in as t" by auto
  from eq have "drop (length a) (a @ s) = drop (length a) ((p @ a) @ t)" by simp
  then have "s = drop (length a) (p @ a) @ t" by simp
  with t show "any_in as s" by (metis any_in_append)
qed (auto intro: exI [of _ "[]"])

lemma any_in_step:
  assumes "take (length a) s \<noteq> a" "s \<noteq> []"
  shows "any_in (a # as) s \<longleftrightarrow> any_in (a # as) (drop 1 s)"
proof
  assume "any_in (a # as) s"
  then obtain p t where "s = p @ a @ t" "any_in as t" by auto
  with assms(1) show "any_in (a # as) (drop 1 s)" by (cases p) auto
next
  assume "any_in (a # as) (drop 1 s)"
  moreover have "s = [hd s] @ drop 1 s" using assms(2) by (cases s) auto
  ultimately show "any_in (a # as) s" by (metis any_in_append)
qed

lemma any_in_skip:
  assumes "a \<noteq> []" "hd a \<notin> set p"
  shows "any_in (a # as) (p @ s) \<longleftrightarrow> any_in (a # as) s"
  using assms(2)
proof (induction p)
  case (Cons c p)
  have "take (length a) ((c # p) @ s) \<noteq> a" using assms(1) Cons.prems by (cases a) auto
  from any_in_step [OF this] have "any_in (a # as) ((c # p) @ s) \<longleftrightarrow> any_in (a # as) (p @ s)" by simp
  with Cons show ?case by simp
qed simp

lemma memchr_None: "memchr s c = None \<longleftrightarrow> c \<notin> set s"
proof -
  have "length (takeWhile (\<lambda>x. x \<noteq> c) s) < length s \<longleftrightarrow> c \<in> set s" by (induction s) auto
  then show ?thesis by (simp add: memchr_def Let_def)
qed

lemma memchr_before: "memchr s c = Some n \<Longrightarrow> c \<notin> set (take n s)"
  by (auto simp: memchr_def Let_def takeWhile_eq_take [symmetric] split: if_splits dest: set_takeWhileD)

lemma memcmp_eq_0: "length s = length t \<Longrightarrow> memcmp s t = 0 \<longleftrightarrow> s = t"
  by (simp add: memcmp_cmp)

text \<open>One round of the search: the first octet of the part is located and the part compared there.\<close>

lemma any_in_found:
  assumes "a \<noteq> []" "memchr s (hd a) = Some idx" "t = drop idx s"
  shows "any_in (a # as) s \<longleftrightarrow>
    length a \<le> length t \<and>
    (if memcmp (take (length a) t) a = 0 then any_in as (drop (length a) t) else any_in (a # as) (drop 1 t))"
proof -
  have eq: "any_in (a # as) s \<longleftrightarrow> any_in (a # as) t"
    using any_in_skip [OF assms(1) memchr_before [OF assms(2)], of as t] assms(3) by simp
  have long: "any_in (a # as) t \<Longrightarrow> length a \<le> length t"
    using any_in_length [of "a # as" t] by simp
  consider "length a > length t" | "length a \<le> length t" "take (length a) t = a"
    | "length a \<le> length t" "take (length a) t \<noteq> a" by linarith
  then show ?thesis
  proof cases
    case 1
    with eq long show ?thesis by auto
  next
    case 2
    then have "any_in (a # as) t \<longleftrightarrow> any_in as (drop (length a) t)"
      using any_in_here [of a as "drop (length a) t"] by (metis append_take_drop_id)
    with eq 2 show ?thesis by (simp add: memcmp_eq_0 del: any_in.simps)
  next
    case 3
    have "t \<noteq> []" using memchr_Some [OF assms(2)] assms(3) by simp
    from any_in_step [OF 3(2) this] eq 3 show ?thesis by (simp add: memcmp_eq_0 del: any_in.simps)
  qed
qed

lemma any_loop_correct:
  assumes "inlen = sum_list (map length as)" "as = [] \<or> hd as = [] \<longrightarrow> m = 0"
  shows "\<exists>m'. any_loop as inlen left m = (LDAP_SUCCESS, Some m') \<and> (m' = 0 \<longleftrightarrow> any_in as left)"
  using assms
proof (induction as inlen left m rule: any_loop.induct)
  case (2 a as inlen left m)
  consider "inlen > length left" | "inlen \<le> length left" "a = []"
    | "inlen \<le> length left" "a \<noteq> []" "memchr left (hd a) = None"
    | idx where "inlen \<le> length left" "a \<noteq> []" "memchr left (hd a) = Some idx"
    by (metis not_less option.exhaust)
  then show ?case
  proof cases
    case 1
    then have "\<not> any_in (a # as) left" using "2.prems"(1) any_in_length [of "a # as" left] by auto
    with 1 show ?thesis by (simp add: any_loop.simps del: any_in.simps)
  next
    case 2
    with "2.prems" "2.IH"(1) show ?thesis by (simp add: any_loop.simps any_in_Nil del: any_in.simps)
  next
    case 3
    then have "\<not> any_in (a # as) left" by (cases a) (auto simp: memchr_None)
    with 3 show ?thesis by (simp add: any_loop.simps del: any_in.simps)
  next
    case 4
    let ?t = "drop idx left" let ?m = "memcmp (take (length a) ?t) a"
    have loop: "any_loop (a # as) inlen left m =
        (if length a > length ?t then (LDAP_SUCCESS, Some 1)
         else if ?m \<noteq> 0 then any_loop (a # as) inlen (drop 1 ?t) ?m
         else any_loop as (inlen - length a) (drop (length a) ?t) ?m)"
      using 4 memchr_Some [OF 4(3)] by (subst any_loop.simps) (simp add: Let_def)
    note found = any_in_found [OF 4(2,3) refl, of as]
    consider "length a > length ?t" | "length a \<le> length ?t" "?m \<noteq> 0" | "length a \<le> length ?t" "?m = 0" by linarith
    then show ?thesis
    proof cases
      case 1
      then show ?thesis using loop found by (simp del: any_in.simps)
    next
      case 2
      then have "any_in (a # as) left \<longleftrightarrow> any_in (a # as) (drop 1 ?t)" using found by simp
      with loop 2 4 "2.IH"(2) [of idx ?t ?m] "2.prems" memchr_Some [OF 4(3)] show ?thesis
        by (simp del: any_in.simps)
    next
      case 3
      then have "any_in (a # as) left \<longleftrightarrow> any_in as (drop (length a) ?t)" using found by simp
      with loop 3 4 "2.IH"(3) [of idx ?t ?m] "2.prems" memchr_Some [OF 4(3)] show ?thesis
        by (simp del: any_in.simps)
    qed
  qed
qed simp

lemma cut_initial_correct:
  assumes "opt_len ini \<le> inlen"
  shows "case cut_initial ini v inlen of
           Inl m \<Rightarrow> m \<noteq> 0 \<and> (\<forall>t. v = opt_str ini @ t \<longrightarrow> length v < inlen)
         | Inr (t, n) \<Rightarrow> v = opt_str ini @ t \<and> n = inlen - opt_len ini"
proof (cases ini)
  case (Some a)
  have "memcmp a (take (length a) v) = 0 \<longleftrightarrow> a = take (length a) v" if "inlen \<le> length v"
    using that assms Some by (simp add: memcmp_eq_0 opt_len_def)
  with Some assms show ?thesis
    by (auto simp: cut_initial_def Let_def opt_str_def opt_len_def) (metis append_take_drop_id)
qed (simp add: cut_initial_def opt_str_def opt_len_def)

lemma cut_final_correct:
  assumes "opt_len fin \<le> inlen"
  shows "case cut_final fin v inlen of
           Inl m \<Rightarrow> m \<noteq> 0 \<and> (\<forall>t. v = t @ opt_str fin \<longrightarrow> length v < inlen)
         | Inr (t, n) \<Rightarrow> v = t @ opt_str fin \<and> n = inlen - opt_len fin"
proof (cases fin)
  case (Some a)
  have "memcmp a (drop (length v - length a) v) = 0 \<longleftrightarrow> a = drop (length v - length a) v" if "inlen \<le> length v"
    using that assms Some by (simp add: memcmp_eq_0 opt_len_def)
  with Some assms show ?thesis
    by (auto simp: cut_final_def Let_def opt_str_def opt_len_def) (metis append_take_drop_id)
qed (simp add: cut_final_def opt_str_def opt_len_def)

text \<open>C22. The octet string substring rule decides substring matching: it always succeeds, and reports
  a match exactly when the value is the initial part, a middle and the final part, and the other
  parts occur in the middle in their order without overlap.\<close>

theorem substrings_match_correct:
  "\<exists>m. octetStringSubstringsMatch flags syn v (Substrings sub) = (LDAP_SUCCESS, Some m) \<and>
       (m = 0 \<longleftrightarrow> parts_in (sa_initial sub) (case sa_any sub of None \<Rightarrow> [] | Some l \<Rightarrow> l) (sa_final sub) v)"
proof -
  define anys where "anys = (case sa_any sub of None \<Rightarrow> [] | Some l \<Rightarrow> l)"
  define inlen where "inlen = opt_len (sa_initial sub) + sum_list (map length anys) + opt_len (sa_final sub)"
  note defs = octetStringSubstringsMatch_def anys_def [symmetric] inlen_def [symmetric] Let_def
  have len: "length (opt_str s) = opt_len s" for s by (simp add: opt_str_def opt_len_def split: option.split)
  note ini = cut_initial_correct [of "sa_initial sub" inlen v]
  have parts: "parts_in (sa_initial sub) anys (sa_final sub) v \<Longrightarrow> inlen \<le> length v"
    using any_in_length [of anys] by (fastforce simp: parts_in_def inlen_def len)
  show ?thesis
  proof (cases "cut_initial (sa_initial sub) v inlen")
    case (Inl m)
    with ini have "m \<noteq> 0" "\<forall>t. v = opt_str (sa_initial sub) @ t \<longrightarrow> length v < inlen" by (simp_all add: inlen_def)
    moreover from this have "\<not> parts_in (sa_initial sub) anys (sa_final sub) v"
      using parts by (auto simp: parts_in_def)
    ultimately show ?thesis using Inl by (simp add: defs)
  next
    case (Inr r)
    then obtain t where r: "cut_initial (sa_initial sub) v inlen = Inr (t, inlen - opt_len (sa_initial sub))"
      and v: "v = opt_str (sa_initial sub) @ t" using ini by (cases r) (auto simp: inlen_def)
    note fin = cut_final_correct [of "sa_final sub" "inlen - opt_len (sa_initial sub)" t]
    show ?thesis
    proof (cases "cut_final (sa_final sub) t (inlen - opt_len (sa_initial sub))")
      case (Inl m)
      with fin have "m \<noteq> 0" "\<forall>t'. t = t' @ opt_str (sa_final sub) \<longrightarrow> length t < inlen - opt_len (sa_initial sub)"
        by (simp_all add: inlen_def)
      moreover from this have "\<not> parts_in (sa_initial sub) anys (sa_final sub) v"
        using parts v by (auto simp: parts_in_def len)
      ultimately show ?thesis using Inl r by (simp add: defs)
    next
      case (Inr r')
      with fin obtain mid where "cut_final (sa_final sub) t (inlen - opt_len (sa_initial sub)) = Inr (mid, sum_list (map length anys))"
        and t: "t = mid @ opt_str (sa_final sub)" by (cases r') (auto simp: inlen_def)
      moreover have "parts_in (sa_initial sub) anys (sa_final sub) v \<longleftrightarrow> any_in anys mid"
        by (simp add: parts_in_def v t)
      ultimately show ?thesis using r any_loop_correct [of _ anys 0 mid] by (simp add: defs)
    qed
  qed
qed
section \<open>Rules that order values\<close>

definition sorted_by :: "(string \<Rightarrow> string \<Rightarrow> int) \<Rightarrow> string list \<Rightarrow> bool" where
  "sorted_by mf vs \<longleftrightarrow> sorted_wrt (\<lambda>x y. mf x y < 0) vs"

text \<open>What a sorted list of values relies on: the comparison of the equality rule is a total order up
  to the values it takes for equal.\<close>

locale matching_order =
  fixes mf :: "string \<Rightarrow> string \<Rightarrow> int"
  assumes mf_refl: "mf x x = 0"
    and mf_swap: "mf x y < 0 \<longleftrightarrow> 0 < mf y x"
    and mf_trans: "mf x y \<le> 0 \<Longrightarrow> mf y z \<le> 0 \<Longrightarrow> mf x z \<le> 0"
begin

lemma mf_eq_swap: "mf x y = 0 \<longleftrightarrow> mf y x = 0"
  by (metis linorder_neqE_linordered_idom mf_swap order_less_irrefl)

lemma mf_less_le: "mf x y < 0 \<Longrightarrow> mf y z \<le> 0 \<Longrightarrow> mf x z < 0"
  by (metis linorder_not_less mf_swap mf_trans order_le_less)

lemma mf_le_less: "mf x y \<le> 0 \<Longrightarrow> mf y z < 0 \<Longrightarrow> mf x z < 0"
  by (metis linorder_not_less mf_swap mf_trans order_le_less)

lemma mf_pos: "0 \<le> mf x y \<longleftrightarrow> mf y x \<le> 0"
  by (metis linorder_not_less mf_swap)

lemma mf_eq_trans: "mf x z = 0 \<Longrightarrow> mf y z = 0 \<Longrightarrow> mf x y = 0"
  by (intro order_antisym) (use mf_trans [of x z y] mf_trans [of y z x] mf_eq_swap [of x z] mf_eq_swap [of y z] in
      \<open>simp_all add: mf_pos\<close>)

lemma sorted_by_nth:
  assumes "sorted_by mf vs" "i < j" "j < length vs"
  shows "mf (vs ! i) (vs ! j) < 0"
  using assms by (simp add: sorted_by_def sorted_wrt_iff_nth_less)

text \<open>An element splits an ordered list.\<close>

lemma sorted_by_below:
  assumes "sorted_by mf vs" "i < length vs" "mf (vs ! i) v \<le> 0" "j < i"
  shows "mf (vs ! j) v < 0"
  using sorted_by_nth [OF assms(1,4,2)] assms(3) by (rule mf_less_le)

lemma sorted_by_above:
  assumes "sorted_by mf vs" "i < j" "j < length vs" "0 \<le> mf (vs ! i) v"
  shows "0 < mf (vs ! j) v"
proof -
  have "mf v (vs ! i) \<le> 0" using assms(4) by (simp add: mf_pos)
  from mf_le_less [OF this sorted_by_nth [OF assms(1-3)]] show ?thesis by (simp add: mf_swap)
qed

lemma sorted_by_insert:
  assumes "sorted_by mf vs" "i \<le> length vs" "\<And>j. j < i \<Longrightarrow> mf (vs ! j) v < 0"
    "\<And>j. i \<le> j \<Longrightarrow> j < length vs \<Longrightarrow> 0 < mf (vs ! j) v"
  shows "sorted_by mf (take i vs @ v # drop i vs)"
proof -
  have "mf x v < 0" if "x \<in> set (take i vs)" for x
    using that assms(2,3) by (auto simp: in_set_conv_nth)
  moreover have "mf v x < 0" if "x \<in> set (drop i vs)" for x
    using that assms(2,4) by (auto simp: in_set_conv_nth mf_swap)
  moreover have "mf x y < 0" if "x \<in> set (take i vs)" "y \<in> set (drop i vs)" for x y
    using calculation that mf_less_le by (meson less_imp_le)
  ultimately show ?thesis
    using assms(1) by (auto simp: sorted_by_def sorted_wrt_append sorted_wrt_take sorted_wrt_drop)
qed

end

lemma ber_bvcmp_cmp:
  "ber_bvcmp v a = (if length v < length a then - 1 else if length a < length v then 1 else cmp v a)"
  by (simp add: ber_bvcmp_def memcmp_cmp)

lemma octetStringMatch_cmp: "octetStringMatch flags syn v (Value a) = (LDAP_SUCCESS, Some (ber_bvcmp v a))"
  by (simp add: octetStringMatch_def ber_bvcmp_def Let_def)

lemma octetStringOrderingMatch_cmp:
  "\<not> has flags SLAP_MR_EXT \<Longrightarrow> octetStringOrderingMatch flags syn v (Value a) = (LDAP_SUCCESS, Some (cmp v a))"
proof -
  have "(if memcmp (take n v) (take n a) = 0 then if length v < length a then - 1 else if length a < length v then 1 else 0
     else memcmp (take n v) (take n a)) = cmp v a" if "n = min (length v) (length a)" for n
    using that
  proof (induction v arbitrary: a n)
    case Nil
    then show ?case by (cases a) (auto simp: cmp_def)
  next
    case (Cons x xs)
    show ?case
    proof (cases a)
      case Nil
      with Cons.prems show ?thesis by (auto simp: cmp_def)
    next
      case (Cons y ys)
      with Cons.IH [OF refl, of ys] Cons.prems show ?thesis
        by (cases "x = y") (auto simp: cmp_Cons cmp_def [of x] min_def split: if_splits)
    qed
  qed
  then show "\<not> has flags SLAP_MR_EXT \<Longrightarrow> ?thesis" by (simp add: octetStringOrderingMatch_def Let_def)
qed

interpretation octet: matching_order ber_bvcmp
  by unfold_locales (auto simp: ber_bvcmp_cmp cmp_def split: if_splits)

interpretation octet_ordering: matching_order "cmp :: string \<Rightarrow> string \<Rightarrow> int"
  by unfold_locales auto

end
