(* ===== verification/Entry_Attr.thy ===== *)
theory Entry_Attr
  imports Value_Match
begin

text \<open>
  Entries and their attributes, \<^verbatim>\<open>servers/slapd/attr.c\<close>. The attributes of an entry form a list, as in
  the source. An attribute keeps the values as given and, when its equality rule normalises, the
  normalised ones in an array of its own; otherwise both pointers are the same array (\<open>Shared\<close>).
  Values of a sorted attribute are kept in the order of the equality rule and searched by bisection.
  The free list of attributes and failures to allocate memory are not modelled.
\<close>

section \<open>Attributes\<close>

datatype nvals = Shared | Own "string list"

record attribute =
  a_desc :: nat
  a_vals :: "string list option"   \<comment> \<open>\<open>None\<close> is the null pointer of a new attribute\<close>
  a_nvals :: nvals
  a_numvals :: nat
  a_flags :: slap_mask

record entry =
  e_name :: string
  e_nname :: string
  e_ocflags :: slap_mask
  e_attrs :: "attribute list"

definition SLAP_ATTR_SORTED_VALS :: slap_mask where "SLAP_ATTR_SORTED_VALS = 0x10"
definition SLAP_ATTR_PERSISTENT_FLAGS :: slap_mask where "SLAP_ATTR_PERSISTENT_FLAGS = SLAP_ATTR_SORTED_VALS OR 0x20"

text \<open>The arrays behind the two pointers.\<close>

definition vals_of :: "attribute \<Rightarrow> string list" where
  "vals_of a = (case a_vals a of None \<Rightarrow> [] | Some vs \<Rightarrow> vs)"

definition nvals_of :: "attribute \<Rightarrow> string list" where
  "nvals_of a = (case a_nvals a of Shared \<Rightarrow> vals_of a | Own nvs \<Rightarrow> nvs)"

definition attr_alloc :: "schema \<Rightarrow> nat \<Rightarrow> attribute" where
  "attr_alloc sc ad =
     \<lparr>a_desc = ad, a_vals = None, a_nvals = Shared, a_numvals = 0,
      a_flags = if has (sat_flags (type_of sc ad)) SLAP_AT_SORTED_VAL then SLAP_ATTR_SORTED_VALS else 0\<rparr>"

text \<open>Copies: \<^verbatim>\<open>attr_dup2\<close> fills the new attribute; the normalised values are copied to their
  terminator and must be as many as the values.\<close>

definition attr_dup2 :: "attribute \<Rightarrow> attribute \<Rightarrow> attribute option" where
  "attr_dup2 tmp a =
     (let tmp = tmp\<lparr>a_flags := a_flags a AND SLAP_ATTR_PERSISTENT_FLAGS\<rparr> in
      case a_vals a of
        None \<Rightarrow> Some tmp
      | Some vs \<Rightarrow>
          let tmp = tmp\<lparr>a_numvals := a_numvals a, a_vals := Some (take (a_numvals a) vs)\<rparr>;
              i = min (a_numvals a) (length vs) in
          (case a_nvals a of
             Shared \<Rightarrow> Some (tmp\<lparr>a_nvals := Shared\<rparr>)
           | Own nvs \<Rightarrow>
               if i = 0 then Some (tmp\<lparr>a_nvals := Own []\<rparr>)
               else do {
                 ensure (length nvs = i);
                 Some (tmp\<lparr>a_nvals := Own nvs\<rparr>) }))"

definition attr_dup :: "schema \<Rightarrow> attribute option \<Rightarrow> attribute option option" where
  "attr_dup sc a = (case a of None \<Rightarrow> Some None | Some a \<Rightarrow> map_option Some (attr_dup2 (attr_alloc sc (a_desc a)) a))"

text \<open>The attributes of \<^verbatim>\<open>attrs_alloc\<close> are cleared, their description is set before the copy.\<close>

fun attrs_dup :: "attribute list \<Rightarrow> attribute list option" where
  "attrs_dup [] = Some []"
| "attrs_dup (a # as) = do {
     b \<leftarrow> attr_dup2 \<lparr>a_desc = a_desc a, a_vals = None, a_nvals = Shared, a_numvals = 0, a_flags = 0\<rparr> a;
     bs \<leftarrow> attrs_dup as;
     Some (b # bs) }"

section \<open>Finding a value\<close>

text \<open>The loops of \<^verbatim>\<open>attr_valfind\<close> over a comparison \<open>vm\<close>. They return the last index, the last result code
  and \<^verbatim>\<open>match\<close>, which keeps its content when the comparison writes none.\<close>

definition keep_match :: "int \<Rightarrow> int option \<Rightarrow> int" where
  "keep_match match m = (case m of None \<Rightarrow> match | Some m \<Rightarrow> m)"

function bin_search ::
    "(string \<Rightarrow> (int \<times> int option) option) \<Rightarrow> string list \<Rightarrow> nat \<Rightarrow> nat \<Rightarrow> int \<Rightarrow> (nat \<times> int \<times> int) option" where
  "bin_search vm nvs base n match =
     (let pivot = n div 2; i = base + pivot in do {
        ensure (i < length nvs);
        (rc, m) \<leftarrow> vm (nvs ! i);
        let match = keep_match match m;
        if rc = LDAP_SUCCESS \<and> match = 0 then Some (i, rc, match)
        else if match < 0 then if n - (pivot + 1) = 0 then Some (i, rc, match)
                               else bin_search vm nvs (i + 1) (n - (pivot + 1)) match
        else if pivot = 0 then Some (i, rc, match) else bin_search vm nvs base pivot match })"
  by auto
termination
  by (relation "measure (\<lambda>(vm, nvs, base, n, match). n)") auto

declare bin_search.simps [simp del]

fun lin_search ::
    "(string \<Rightarrow> (int \<times> int option) option) \<Rightarrow> string list \<Rightarrow> nat \<Rightarrow> int \<Rightarrow> int \<Rightarrow> (nat \<times> int \<times> int) option" where
  "lin_search vm [] i rc match = Some (i, rc, match)"
| "lin_search vm (v # vs) i rc match = do {
     (rc, m) \<leftarrow> vm v;
     let match = keep_match match m;
     if rc = LDAP_SUCCESS \<and> match = 0 then Some (i, rc, match) else lin_search vm vs (i + 1) rc match }"

text \<open>The asserted value to search for, with the result code so far; \<open>Inl\<close> is an early return.\<close>

definition search_value :: "schema \<Rightarrow> attr_type \<Rightarrow> slap_mask \<Rightarrow> nat option \<Rightarrow> string \<Rightarrow> (int + int \<times> string) option" where
  "search_value sc sat flags mr val =
     (if has flags SLAP_MR_ASSERTED_VALUE_NORMALIZED_MATCH then Some (Inr (LDAP_OTHER, val))
      else (case mr of
              None \<Rightarrow> None
            | Some m \<Rightarrow>
                Some (case smr_normalize (mr_store sc m) of
                        None \<Rightarrow> Inr (LDAP_OTHER, val)
                      | Some nf \<Rightarrow>
                          let (rc, nval) = nf (flags AND usage_mask) (Some (sat_syntax sat)) val
                          in if rc \<noteq> LDAP_SUCCESS then Inl LDAP_INVALID_SYNTAX else Inr (rc, nval))))"

text \<open>The result code and the slot: where the value was found, or where it belongs; the slot is not
  written on an early return.\<close>

definition attr_valfind :: "schema \<Rightarrow> attribute \<Rightarrow> slap_mask \<Rightarrow> string \<Rightarrow> (int \<times> nat option) option" where
  "attr_valfind sc a flags val =
     (let sat = type_of sc (a_desc a);
          mr = (if has flags SLAP_MR_ORDERING then sat_ordering sat else sat_equality sat);
          n = a_numvals a in do {
        start \<leftarrow> search_value sc sat flags mr val;
        case start of
          Inl rc \<Rightarrow> Some (rc, None)
        | Inr (rc, cval) \<Rightarrow> do {
            (i, rc, match) \<leftarrow>
              (if has (a_flags a) SLAP_ATTR_SORTED_VALS \<and> n \<noteq> 0
               then map_option (\<lambda>(i, rc, match). (if match < 0 then i + 1 else i, rc, match))
                      (bin_search (\<lambda>v. value_match sc (a_desc a) mr flags v (Value cval)) (nvals_of a) 0 n (- 1))
               else lin_search (\<lambda>v. ordered_value_match sc (a_desc a) mr flags v cval) (take n (nvals_of a)) 0 rc (- 1));
            Some (if match \<noteq> 0 then LDAP_NO_SUCH_ATTRIBUTE else rc, Some i) } })"

section \<open>Adding values\<close>

definition valadd_flags :: slap_mask where
  "valadd_flags = SLAP_MR_EQUALITY OR SLAP_MR_VALUE_OF_ASSERTION_SYNTAX OR
     SLAP_MR_ASSERTED_VALUE_NORMALIZED_MATCH OR SLAP_MR_ATTRIBUTE_VALUE_NORMALIZED_MATCH"

definition insert_slot :: "nat \<Rightarrow> 'a \<Rightarrow> 'a list \<Rightarrow> 'a list" where
  "insert_slot i x xs = take i xs @ x # drop i xs"

text \<open>A new value comes with its normalised form, or with \<open>None\<close> when there is none to be kept. One
  insertion at the slot the search returned moves the rest of both arrays.\<close>

definition normal :: "string \<times> string option \<Rightarrow> string" where
  "normal p = (case snd p of None \<Rightarrow> fst p | Some nv \<Rightarrow> nv)"

definition insert_pair :: "nat \<Rightarrow> string \<times> string option \<Rightarrow> attribute \<Rightarrow> attribute" where
  "insert_pair i p a =
     a\<lparr>a_vals := map_option (insert_slot i (fst p)) (a_vals a),
       a_nvals := (case a_nvals a of
                     Shared \<Rightarrow> Shared
                   | Own nvs \<Rightarrow> Own (case snd p of None \<Rightarrow> nvs | Some nv \<Rightarrow> insert_slot i nv nvs)),
       a_numvals := a_numvals a + 1\<rparr>"

fun insert_vals :: "schema \<Rightarrow> (string \<times> string option) list \<Rightarrow> attribute \<Rightarrow> (int \<times> attribute) option" where
  "insert_vals sc [] a = Some (0, a)"
| "insert_vals sc (p # ps) a = do {
     (rc, slot) \<leftarrow> attr_valfind sc a valadd_flags (normal p);
     if rc \<noteq> LDAP_NO_SUCH_ATTRIBUTE
     then Some (if rc = LDAP_SUCCESS then LDAP_TYPE_OR_VALUE_EXISTS else rc, a)
     else do { i \<leftarrow> slot; insert_vals sc ps (insert_pair i p a) } }"

text \<open>\<open>nvals\<close> is \<open>None\<close> for a null pointer. With normalised values the second array is reallocated; when
  it was the array of the values, its memory is gone already. Without them both pointers become one.\<close>

definition attr_valadd :: "schema \<Rightarrow> attribute \<Rightarrow> string list \<Rightarrow> string list option \<Rightarrow> nat \<Rightarrow> (int \<times> attribute) option" where
  "attr_valadd sc a vals nvals nn = do {
     ensure (nvals = None \<or> a_vals a = None \<or> a_nvals a \<noteq> Shared);
     let vs = vals_of a;
     let a = a\<lparr>a_vals := Some vs, a_nvals := (case nvals of None \<Rightarrow> Shared | Some _ \<Rightarrow> Own (nvals_of a))\<rparr>;
     if has (a_flags a) SLAP_ATTR_SORTED_VALS \<and> a_numvals a \<noteq> 0
     then do {
       ensure (nn \<le> length vals \<and> (case nvals of None \<Rightarrow> True | Some nvs \<Rightarrow> nn \<le> length nvs));
       insert_vals sc (take nn (zip vals (case nvals of None \<Rightarrow> replicate (length vals) None | Some nvs \<Rightarrow> map Some nvs))) a }
     else
       let a = a\<lparr>a_vals := Some (take (a_numvals a) vs @ take nn vals)\<rparr> in
       Some (0, (case nvals of
                   None \<Rightarrow> a\<lparr>a_numvals := a_numvals a + min nn (length vals)\<rparr>
                 | Some nvs \<Rightarrow> a\<lparr>a_nvals := Own (take (a_numvals a) (nvals_of a) @ take nn nvs),
                                 a_numvals := a_numvals a + min nn (length nvs)\<rparr>)) }"

text \<open>The loop to the link of the attribute with a description, or to the end of the list, where a
  new attribute is hung in; \<open>old\<close> and \<open>new\<close> say what happens to the attribute there.\<close>

fun at_desc :: "nat \<Rightarrow> (attribute \<Rightarrow> (int \<times> attribute) option) \<Rightarrow> (int \<times> attribute) option \<Rightarrow> attribute list
    \<Rightarrow> (int \<times> attribute list) option" where
  "at_desc desc old new [] = map_option (\<lambda>(rc, a). (rc, [a])) new"
| "at_desc desc old new (a # as) =
     (if a_desc a = desc then map_option (\<lambda>(rc, a). (rc, a # as)) (old a)
      else map_option (\<lambda>(rc, as). (rc, a # as)) (at_desc desc old new as))"

definition set_attrs :: "entry \<Rightarrow> (int \<times> attribute list) option \<Rightarrow> (int \<times> entry) option" where
  "set_attrs e r = map_option (\<lambda>(rc, as). (rc, e\<lparr>e_attrs := as\<rparr>)) r"

text \<open>Merging into an attribute that exists: in righteous mode normalised values that equal the
  values are dropped when the attribute has none of its own, then the assertion.\<close>

definition merge_old :: "bool \<Rightarrow> schema \<Rightarrow> string list \<Rightarrow> string list option \<Rightarrow> attribute \<Rightarrow> (int \<times> attribute) option" where
  "merge_old righteous sc vals nvals a = do {
     nvals \<leftarrow> (case nvals of
                None \<Rightarrow> Some None
              | Some nvs \<Rightarrow>
                  if righteous \<and> a_vals a \<noteq> None \<and> a_nvals a = Shared
                  then do {
                    ensure (length vals \<le> length nvs);
                    Some (if vals = take (length vals) nvs then None else Some nvs) }
                  else Some (Some nvs));
     ensure (if nvals = None then a_nvals a = Shared
             else a_vals a = None \<and> a_nvals a = Shared \<or> a_nvals a \<noteq> Shared);
     attr_valadd sc a vals nvals (length vals) }"

definition attr_merge :: "bool \<Rightarrow> schema \<Rightarrow> entry \<Rightarrow> nat \<Rightarrow> string list \<Rightarrow> string list option \<Rightarrow> (int \<times> entry) option" where
  "attr_merge righteous sc e desc vals nvals =
     set_attrs e (at_desc desc (merge_old righteous sc vals nvals)
                    (attr_valadd sc (attr_alloc sc desc) vals nvals (length vals)) (e_attrs e))"

text \<open>Normalising: the result code and the normalised values, \<open>None\<close> when the equality rule has no
  normaliser or when it fails and the array is freed again.\<close>

fun normalize_vals :: "(string \<Rightarrow> int \<times> string) \<Rightarrow> string list \<Rightarrow> int \<times> string list" where
  "normalize_vals nf [] = (LDAP_SUCCESS, [])"
| "normalize_vals nf (v # vs) =
     (let (rc, nv) = nf v
      in if rc \<noteq> LDAP_SUCCESS then (rc, []) else let (rc, nvs) = normalize_vals nf vs in (rc, nv # nvs))"

definition normalizer :: "schema \<Rightarrow> nat \<Rightarrow> (string \<Rightarrow> int \<times> string) option" where
  "normalizer sc desc =
     (case sat_equality (type_of sc desc) of
        None \<Rightarrow> None
      | Some m \<Rightarrow> map_option (\<lambda>nf. nf SLAP_MR_VALUE_OF_ATTRIBUTE_SYNTAX (Some (sat_syntax (type_of sc desc))))
                    (smr_normalize (mr_store sc m)))"

definition attr_normalize :: "schema \<Rightarrow> nat \<Rightarrow> string list \<Rightarrow> int \<times> string list option" where
  "attr_normalize sc desc vals =
     (case normalizer sc desc of
        None \<Rightarrow> (LDAP_SUCCESS, None)
      | Some nf \<Rightarrow> let (rc, nvs) = normalize_vals nf vals in (rc, if rc \<noteq> LDAP_SUCCESS then None else Some nvs))"

definition attr_merge_normalize :: "bool \<Rightarrow> schema \<Rightarrow> entry \<Rightarrow> nat \<Rightarrow> string list \<Rightarrow> (int \<times> entry) option" where
  "attr_merge_normalize righteous sc e desc vals =
     (let (rc, nvals) = attr_normalize sc desc vals
      in if rc = LDAP_SUCCESS then attr_merge righteous sc e desc vals nvals else Some (rc, e))"

definition attr_merge_one :: "schema \<Rightarrow> entry \<Rightarrow> nat \<Rightarrow> string \<Rightarrow> string option \<Rightarrow> (int \<times> entry) option" where
  "attr_merge_one sc e desc val nval =
     (let nvals = map_option (\<lambda>nv. [nv]) nval
      in set_attrs e (at_desc desc (\<lambda>a. attr_valadd sc a [val] nvals 1)
                        (attr_valadd sc (attr_alloc sc desc) [val] nvals 1) (e_attrs e)))"

definition attr_normalize_one :: "schema \<Rightarrow> nat \<Rightarrow> string \<Rightarrow> int \<times> string option" where
  "attr_normalize_one sc desc val =
     (case normalizer sc desc of
        None \<Rightarrow> (LDAP_SUCCESS, None)
      | Some nf \<Rightarrow> let (rc, nv) = nf val in (rc, Some nv))"

definition attr_merge_normalize_one :: "schema \<Rightarrow> entry \<Rightarrow> nat \<Rightarrow> string \<Rightarrow> (int \<times> entry) option" where
  "attr_merge_normalize_one sc e desc val =
     (let (rc, nval) = attr_normalize_one sc desc val
      in attr_merge_one sc e desc val (if rc = LDAP_SUCCESS then nval else None))"

section \<open>Finding and deleting attributes\<close>

text \<open>A pointer into the list is the rest of the list from there.\<close>

fun attrs_find :: "schema \<Rightarrow> attribute list \<Rightarrow> nat \<Rightarrow> attribute list option" where
  "attrs_find sc [] desc = Some []"
| "attrs_find sc (a # as) desc = do {
     sub \<leftarrow> is_ad_subtype sc (a_desc a) desc;
     if sub then Some (a # as) else attrs_find sc as desc }"

fun attr_find :: "attribute list \<Rightarrow> nat \<Rightarrow> attribute option" where
  "attr_find [] desc = None"
| "attr_find (a # as) desc = (if a_desc a = desc then Some a else attr_find as desc)"

fun attr_delete :: "attribute list \<Rightarrow> nat \<Rightarrow> int \<times> attribute list" where
  "attr_delete [] desc = (LDAP_NO_SUCH_ATTRIBUTE, [])"
| "attr_delete (a # as) desc =
     (if a_desc a = desc then (LDAP_SUCCESS, as)
      else let (rc, as) = attr_delete as desc in (rc, a # as))"

section \<open>Correctness of the searches\<close>

context matching_order
begin

lemma bin_search_correct:
  assumes "\<And>v. vm v = Some (LDAP_SUCCESS, Some (mf v val))" "sorted_by mf nvs" "0 < n" "base + n \<le> length nvs"
    "\<And>j. j < base \<Longrightarrow> mf (nvs ! j) val < 0" "\<And>j. base + n \<le> j \<Longrightarrow> j < length nvs \<Longrightarrow> 0 < mf (nvs ! j) val"
  shows "\<exists>i. bin_search vm nvs base n match = Some (i, LDAP_SUCCESS, mf (nvs ! i) val) \<and> i < length nvs \<and>
    (\<forall>j<i. mf (nvs ! j) val < 0) \<and> (\<forall>j. i < j \<longrightarrow> j < length nvs \<longrightarrow> 0 < mf (nvs ! j) val)"
  using assms(3-)
proof (induction n arbitrary: base match rule: less_induct)
  case (less n)
  let ?i = "base + n div 2" let ?m = "mf (nvs ! ?i) val"
  have i: "?i < length nvs" using less.prems(1,2) by auto
  have loop: "bin_search vm nvs base n match =
     (if ?m = 0 then Some (?i, LDAP_SUCCESS, ?m)
      else if ?m < 0 then if n - (n div 2 + 1) = 0 then Some (?i, LDAP_SUCCESS, ?m)
                          else bin_search vm nvs (?i + 1) (n - (n div 2 + 1)) ?m
      else if n div 2 = 0 then Some (?i, LDAP_SUCCESS, ?m) else bin_search vm nvs base (n div 2) ?m)"
    using i by (subst bin_search.simps) (simp add: Let_def keep_match_def abort_simps assms(1))
  note below = sorted_by_below [OF assms(2) i] and above = sorted_by_above [OF assms(2), of ?i _ val]
  consider "?m = 0" | "?m < 0" | "0 < ?m" by linarith
  then show ?case
  proof cases
    case 1
    with loop i below above show ?thesis by auto
  next
    case 2
    have before: "mf (nvs ! j) val < 0" if "j < ?i + 1" for j
      using below 2 that by (cases "j = ?i") auto
    show ?thesis
    proof (cases "n - (n div 2 + 1) = 0")
      case True
      with less.prems(1) have "base + n = ?i + 1" by linarith
      with True 2 loop i before less.prems(4) show ?thesis by auto
    next
      case False
      with less.prems before loop 2 less.IH [of "n - (n div 2 + 1)" "?i + 1" ?m] show ?thesis by auto
    qed
  next
    case 3
    have behind: "0 < mf (nvs ! j) val" if "?i \<le> j" "j < length nvs" for j
      using above 3 that by (cases "j = ?i") auto
    show ?thesis
    proof (cases "n div 2 = 0")
      case True
      with 3 loop i behind less.prems(3) show ?thesis by auto
    next
      case False
      with less.prems behind loop 3 less.IH [of "n div 2" base ?m] show ?thesis by auto
    qed
  qed
qed

end

text \<open>The equality rule of a description compares with \<open>mf\<close>.\<close>

definition equality_by :: "schema \<Rightarrow> nat \<Rightarrow> (string \<Rightarrow> string \<Rightarrow> int) \<Rightarrow> bool" where
  "equality_by sc ad mf \<longleftrightarrow>
     (\<exists>m f. sat_equality (type_of sc ad) = Some m \<and> smr_match (mr_store sc m) = Some f \<and>
        (\<forall>flags syn v w. f flags syn v (Value w) = (LDAP_SUCCESS, Some (mf v w))))"

text \<open>An attribute whose parts fit together.\<close>

definition attr_ok :: "(string \<Rightarrow> string \<Rightarrow> int) \<Rightarrow> attribute \<Rightarrow> bool" where
  "attr_ok mf a \<longleftrightarrow>
     a_numvals a = length (vals_of a) \<and> length (nvals_of a) = length (vals_of a) \<and>
     (has (a_flags a) SLAP_ATTR_SORTED_VALS \<longrightarrow> sorted_by mf (nvals_of a))"

lemma value_match_by:
  assumes "equality_by sc ad mf"
  shows "value_match sc ad (sat_equality (type_of sc ad)) flags v (Value w) = Some (LDAP_SUCCESS, Some (mf v w))"
  using assms by (auto simp: equality_by_def value_match_def)

lemma ordered_value_match_by:
  assumes "equality_by sc ad mf" "\<not> has (sat_flags (type_of sc ad)) SLAP_AT_ORDERED"
  shows "ordered_value_match sc ad (sat_equality (type_of sc ad)) flags v w = Some (LDAP_SUCCESS, Some (mf v w))"
  using assms by (auto simp: ordered_value_match_def equality_by_def value_match_def)

text \<open>The asserted value is searched for as it is: it is normalised already, or the rule does not normalise.\<close>

definition searched_as_is :: "schema \<Rightarrow> nat \<Rightarrow> slap_mask \<Rightarrow> bool" where
  "searched_as_is sc ad flags \<longleftrightarrow> has flags SLAP_MR_ASSERTED_VALUE_NORMALIZED_MATCH \<or> normalizer sc ad = None"

lemma search_value_as_is:
  assumes "equality_by sc ad mf" "searched_as_is sc ad flags"
  shows "search_value sc (type_of sc ad) flags (sat_equality (type_of sc ad)) val = Some (Inr (LDAP_OTHER, val))"
  using assms by (auto simp: equality_by_def searched_as_is_def search_value_def normalizer_def)

text \<open>The slot is where the asserted value stands, or where it belongs.\<close>

lemma valfind_sorted:
  assumes "matching_order mf" "equality_by sc (a_desc a) mf" "attr_ok mf a"
    "has (a_flags a) SLAP_ATTR_SORTED_VALS" "searched_as_is sc (a_desc a) flags" "\<not> has flags SLAP_MR_ORDERING"
  shows "\<exists>rc i. attr_valfind sc a flags val = Some (rc, Some i) \<and> i \<le> length (nvals_of a) \<and>
    (\<forall>j<i. mf (nvals_of a ! j) val < 0) \<and>
    (if rc = LDAP_SUCCESS
     then i < length (nvals_of a) \<and> mf (nvals_of a ! i) val = 0 \<and>
          (\<forall>j. i < j \<longrightarrow> j < length (nvals_of a) \<longrightarrow> 0 < mf (nvals_of a ! j) val)
     else rc = LDAP_NO_SUCH_ATTRIBUTE \<and> (\<forall>j. i \<le> j \<longrightarrow> j < length (nvals_of a) \<longrightarrow> 0 < mf (nvals_of a ! j) val))"
proof -
  let ?vs = "nvals_of a"
  have n: "a_numvals a = length ?vs" and srt: "sorted_by mf ?vs" using assms(3,4) by (auto simp: attr_ok_def)
  note vf = attr_valfind_def Let_def search_value_as_is [OF assms(2,5)] assms(4,6) n
  note codes = LDAP_SUCCESS_def LDAP_NO_SUCH_ATTRIBUTE_def
  show ?thesis
  proof (cases "?vs = []")
    case True
    then show ?thesis by (simp add: vf codes)
  next
    case False
    obtain i where i: "bin_search (\<lambda>v. value_match sc (a_desc a) (sat_equality (type_of sc (a_desc a))) flags v (Value val)) ?vs 0 (length ?vs) (- 1)
        = Some (i, LDAP_SUCCESS, mf (?vs ! i) val)" "i < length ?vs" "\<forall>j<i. mf (?vs ! j) val < 0"
        "\<forall>j. i < j \<longrightarrow> j < length ?vs \<longrightarrow> 0 < mf (?vs ! j) val"
      using matching_order.bin_search_correct [where val = val and base = 0 and n = "length ?vs" and match = "- 1",
          OF assms(1) value_match_by [OF assms(2), of flags] srt] False
      by auto
    consider "mf (?vs ! i) val = 0" | "mf (?vs ! i) val < 0" | "0 < mf (?vs ! i) val" by linarith
    then show ?thesis
    proof cases
      case 1
      with i False show ?thesis by (simp add: vf codes)
    next
      case 2
      with i False show ?thesis by (auto simp: vf codes less_Suc_eq)
    next
      case 3
      with i False show ?thesis by (auto simp: vf codes le_less)
    qed
  qed
qed

lemma find_loop_by:
  assumes "equality_by sc ad mf"
  shows "find_loop sc ad (sat_equality (type_of sc ad)) flags val vs =
    Some (if \<exists>v\<in>set vs. mf v val = 0 then LDAP_SUCCESS else LDAP_NO_SUCH_ATTRIBUTE)"
  by (induction vs) (auto simp: value_match_by [OF assms])

text \<open>C21. The bisection of sorted values is equivalent to the linear search of value_find_ex: it returns
  the same result code, and its slot is where the asserted value stands or where it has to be inserted,
  with smaller values before it and greater ones behind it.\<close>

theorem attr_valfind_bisects:
  assumes "matching_order mf" "equality_by sc (a_desc a) mf" "attr_ok mf a"
    "has (a_flags a) SLAP_ATTR_SORTED_VALS" "has flags SLAP_MR_ASSERTED_VALUE_NORMALIZED_MATCH"
    "has flags SLAP_MR_ATTRIBUTE_VALUE_NORMALIZED_MATCH" "\<not> has flags SLAP_MR_ORDERING"
  shows "\<exists>rc i. attr_valfind sc a flags val = Some (rc, Some i) \<and>
    value_find_ex sc (a_desc a) flags (nvals_of a) val = Some rc \<and>
    (\<forall>v\<in>set (take i (nvals_of a)). mf v val < 0) \<and>
    (\<forall>v\<in>set (drop (if rc = LDAP_SUCCESS then i + 1 else i) (nvals_of a)). 0 < mf v val)"
proof -
  have as_is: "searched_as_is sc (a_desc a) flags" using assms(5) by (simp add: searched_as_is_def)
  obtain rc i where r: "attr_valfind sc a flags val = Some (rc, Some i)" "i \<le> length (nvals_of a)"
    "\<forall>j<i. mf (nvals_of a ! j) val < 0"
    "if rc = LDAP_SUCCESS
     then i < length (nvals_of a) \<and> mf (nvals_of a ! i) val = 0 \<and>
          (\<forall>j. i < j \<longrightarrow> j < length (nvals_of a) \<longrightarrow> 0 < mf (nvals_of a ! j) val)
     else rc = LDAP_NO_SUCH_ATTRIBUTE \<and> (\<forall>j. i \<le> j \<longrightarrow> j < length (nvals_of a) \<longrightarrow> 0 < mf (nvals_of a ! j) val)"
    using valfind_sorted [OF assms(1-4) as_is assms(7)] by blast
  have "value_find_ex sc (a_desc a) flags (nvals_of a) val =
      find_loop sc (a_desc a) (sat_equality (type_of sc (a_desc a))) flags val (nvals_of a)"
    using assms(2,5,6) by (auto simp: value_find_ex_def equality_by_def abort_simps split: option.split)
  moreover have "(\<exists>v\<in>set (nvals_of a). mf v val = 0) \<longleftrightarrow> rc = LDAP_SUCCESS"
  proof (cases "rc = LDAP_SUCCESS")
    case True
    with r(4) show ?thesis by auto
  next
    case False
    with r(3,4) have "mf v val \<noteq> 0" if "v \<in> set (nvals_of a)" for v
      using that by (metis in_set_conv_nth linorder_le_less_linear order_less_irrefl)
    with False show ?thesis by auto
  qed
  ultimately have "value_find_ex sc (a_desc a) flags (nvals_of a) val = Some rc"
    using r(4) by (auto simp: find_loop_by [OF assms(2)] split: if_splits)
  with r show ?thesis by (intro exI [of _ rc] exI [of _ i]) (auto simp: in_set_conv_nth split: if_splits)
qed

section \<open>Values stay sorted and aligned\<close>

definition pairs :: "attribute \<Rightarrow> (string \<times> string) multiset" where
  "pairs a = mset (zip (vals_of a) (nvals_of a))"

lemma insert_slot_simps:
  "mset (insert_slot i x xs) = add_mset x (mset xs)" "length (insert_slot i x xs) = Suc (length xs)"
  "set (insert_slot i x xs) = insert x (set xs)"
proof -
  show m: "mset (insert_slot i x xs) = add_mset x (mset xs)"
    by (simp add: insert_slot_def) (metis append_take_drop_id mset_append)
  show "length (insert_slot i x xs) = Suc (length xs)" using arg_cong [OF m, of size] by simp
  show "set (insert_slot i x xs) = insert x (set xs)" using arg_cong [OF m, of set_mset] by simp
qed

lemma zip_insert_slot:
  "length xs = length ys \<Longrightarrow> zip (insert_slot i x xs) (insert_slot i y ys) = insert_slot i (x, y) (zip xs ys)"
  by (simp add: insert_slot_def zip_append take_zip drop_zip)

definition fits :: "attribute \<Rightarrow> (string \<times> string option) list \<Rightarrow> bool" where
  "fits a ps \<longleftrightarrow> a_vals a \<noteq> None \<and> (\<forall>p\<in>set ps. snd p = None \<longleftrightarrow> a_nvals a = Shared)"

lemma insert_pair_vals:
  assumes "fits a (p # ps)"
  shows "vals_of (insert_pair i p a) = insert_slot i (fst p) (vals_of a)"
    "nvals_of (insert_pair i p a) = insert_slot i (normal p) (nvals_of a)"
    "fits (insert_pair i p a) ps" "a_desc (insert_pair i p a) = a_desc a" "a_flags (insert_pair i p a) = a_flags a"
  using assms by (auto simp: insert_pair_def vals_of_def nvals_of_def normal_def fits_def split: nvals.splits option.splits)

lemma insert_pair_ok:
  assumes "matching_order mf" "attr_ok mf a" "fits a (p # ps)" "i \<le> length (nvals_of a)"
    "\<forall>j<i. mf (nvals_of a ! j) (normal p) < 0"
    "\<forall>j. i \<le> j \<longrightarrow> j < length (nvals_of a) \<longrightarrow> 0 < mf (nvals_of a ! j) (normal p)"
  shows "attr_ok mf (insert_pair i p a)" "pairs (insert_pair i p a) = add_mset (fst p, normal p) (pairs a)"
proof -
  have "a_numvals (insert_pair i p a) = Suc (a_numvals a)" by (simp add: insert_pair_def)
  then show "attr_ok mf (insert_pair i p a)"
    using assms(2) matching_order.sorted_by_insert [OF assms(1) _ assms(4), of "normal p"] assms(5,6)
    by (auto simp: attr_ok_def insert_pair_vals [OF assms(3)] insert_slot_simps insert_slot_def [of i "normal p"])
  show "pairs (insert_pair i p a) = add_mset (fst p, normal p) (pairs a)"
    using assms(2) by (simp add: pairs_def insert_pair_vals [OF assms(3)] zip_insert_slot insert_slot_simps attr_ok_def)
qed

lemma insert_vals_ok:
  assumes "matching_order mf" "equality_by sc (a_desc a) mf" "attr_ok mf a"
    "has (a_flags a) SLAP_ATTR_SORTED_VALS" "fits a ps"
  shows "\<exists>rc a' k. insert_vals sc ps a = Some (rc, a') \<and> attr_ok mf a' \<and> a_desc a' = a_desc a \<and> k \<le> length ps \<and>
    pairs a' = pairs a + mset (map (\<lambda>p. (fst p, normal p)) (take k ps)) \<and>
    (if k = length ps then rc = 0
     else rc = LDAP_TYPE_OR_VALUE_EXISTS \<and> (\<exists>v\<in>set (nvals_of a'). mf v (normal (ps ! k)) = 0))"
  using assms(2-)
proof (induction ps arbitrary: a)
  case Nil
  then show ?case by simp
next
  case (Cons p ps)
  have fl: "searched_as_is sc (a_desc a) valadd_flags" "\<not> has valadd_flags SLAP_MR_ORDERING"
    by (simp_all add: searched_as_is_def valadd_flags_def masks)
  obtain rc i where r: "attr_valfind sc a valadd_flags (normal p) = Some (rc, Some i)" "i \<le> length (nvals_of a)"
    "\<forall>j<i. mf (nvals_of a ! j) (normal p) < 0"
    "if rc = LDAP_SUCCESS then i < length (nvals_of a) \<and> mf (nvals_of a ! i) (normal p) = 0
     else rc = LDAP_NO_SUCH_ATTRIBUTE \<and> (\<forall>j. i \<le> j \<longrightarrow> j < length (nvals_of a) \<longrightarrow> 0 < mf (nvals_of a ! j) (normal p))"
    using valfind_sorted [OF assms(1) Cons.prems(1-3) fl, of "normal p"] by (metis (no_types, lifting))
  show ?case
  proof (cases "rc = LDAP_SUCCESS")
    case True
    with r have "insert_vals sc (p # ps) a = Some (LDAP_TYPE_OR_VALUE_EXISTS, a)"
      by (simp add: result_codes)
    with True r(4) Cons.prems(2) show ?thesis by (intro exI [of _ a] exI [of _ 0] exI) auto
  next
    case False
    note step = insert_pair_ok [OF assms(1) Cons.prems(2,4) r(2,3)] insert_pair_vals [OF Cons.prems(4)]
    from r(4) False have gt: "\<forall>j. i \<le> j \<longrightarrow> j < length (nvals_of a) \<longrightarrow> 0 < mf (nvals_of a ! j) (normal p)"
      and rc: "rc = LDAP_NO_SUCH_ATTRIBUTE" by auto
    from Cons.IH [of "insert_pair i p a"] step(1,2) [OF gt] step(5-7) Cons.prems(1,3)
    obtain rc' a' k where IH: "insert_vals sc ps (insert_pair i p a) = Some (rc', a')" "attr_ok mf a'" "a_desc a' = a_desc a"
      "k \<le> length ps" "pairs a' = add_mset (fst p, normal p) (pairs a) + mset (map (\<lambda>p. (fst p, normal p)) (take k ps))"
      "if k = length ps then rc' = 0
       else rc' = LDAP_TYPE_OR_VALUE_EXISTS \<and> (\<exists>v\<in>set (nvals_of a'). mf v (normal (ps ! k)) = 0)"
      by auto
    have "insert_vals sc (p # ps) a = Some (rc', a')" using r(1) rc IH(1) by simp
    with IH(2-) show ?thesis by (intro exI [of _ rc'] exI [of _ a'] exI [of _ "Suc k"]) auto
  qed
qed

lemma take_zip_normal:
  assumes "case nvals of None \<Rightarrow> True | Some nvs \<Rightarrow> length nvs = length vals"
  defines "ps \<equiv> zip vals (case nvals of None \<Rightarrow> replicate (length vals) None | Some nvs \<Rightarrow> map Some nvs)"
  shows "map (\<lambda>p. (fst p, normal p)) ps = zip vals (case nvals of None \<Rightarrow> vals | Some nvs \<Rightarrow> nvs)"
    "length ps = length vals"
  using assms by (auto simp: normal_def zip_map2 zip_replicate2 comp_def split: option.splits intro!: nth_equalityI)

lemma nvals_of_Own [simp]: "a_nvals a = Own nvs \<Longrightarrow> nvals_of a = nvs"
  by (simp add: nvals_of_def)

lemma valadd_correct:
  assumes "matching_order mf" "equality_by sc (a_desc a) mf" "attr_ok mf a"
    "if a_vals a = None then a_nvals a = Shared else (nvals = None \<longleftrightarrow> a_nvals a = Shared)"
    "case nvals of None \<Rightarrow> True | Some nvs \<Rightarrow> length nvs = length vals"
    "has (a_flags a) SLAP_ATTR_SORTED_VALS \<and> nvals_of a = [] \<longrightarrow> sorted_by mf (case nvals of None \<Rightarrow> vals | Some nvs \<Rightarrow> nvs)"
  defines "new \<equiv> zip vals (case nvals of None \<Rightarrow> vals | Some nvs \<Rightarrow> nvs)"
  shows "\<exists>rc a' k. attr_valadd sc a vals nvals (length vals) = Some (rc, a') \<and> attr_ok mf a' \<and>
    a_desc a' = a_desc a \<and> k \<le> length new \<and> pairs a' = pairs a + mset (take k new) \<and>
    (if k = length new then rc = 0
     else rc = LDAP_TYPE_OR_VALUE_EXISTS \<and> (\<exists>v\<in>set (nvals_of a'). mf v (snd (new ! k)) = 0))"
proof -
  let ?nvs = "case nvals of None \<Rightarrow> vals | Some nvs \<Rightarrow> nvs"
  define ps where "ps = zip vals (case nvals of None \<Rightarrow> replicate (length vals) None | Some nvs \<Rightarrow> map Some nvs)"
  have new: "new = map (\<lambda>p. (fst p, normal p)) ps" and len: "length ps = length vals"
    unfolding ps_def new_def using take_zip_normal [OF assms(5)] by simp_all
  let ?b = "a\<lparr>a_vals := Some (vals_of a), a_nvals := (case nvals of None \<Rightarrow> Shared | Some _ \<Rightarrow> Own (nvals_of a))\<rparr>"
  have b: "vals_of ?b = vals_of a" "nvals_of ?b = nvals_of a" "a_numvals ?b = a_numvals a"
    using assms(4) by (auto simp: vals_of_def nvals_of_def split: option.splits nvals.splits if_splits)
  then have ok: "attr_ok mf ?b" and same: "pairs ?b = pairs a" using assms(3) by (auto simp: attr_ok_def pairs_def)
  have start: "nvals = None \<or> a_vals a = None \<or> a_nvals a \<noteq> Shared" using assms(4) by (auto split: if_splits)
  have n: "a_numvals a = length (vals_of a)" "length (nvals_of a) = length (vals_of a)"
    using assms(3) by (simp_all add: attr_ok_def)
  show ?thesis
  proof (cases "has (a_flags a) SLAP_ATTR_SORTED_VALS \<and> a_numvals a \<noteq> 0")
    case True
    have add: "attr_valadd sc a vals nvals (length vals) = insert_vals sc ps ?b"
      using True start assms(5) by (simp add: attr_valadd_def Let_def abort_simps ps_def split: option.splits)
    have "fits ?b ps" by (auto simp: fits_def ps_def in_set_zip split: option.splits)
    with insert_vals_ok [OF assms(1) _ ok, of sc ps] assms(2) True
    obtain rc a' k where "insert_vals sc ps ?b = Some (rc, a')" "attr_ok mf a'" "a_desc a' = a_desc a" "k \<le> length ps"
      "pairs a' = pairs a + mset (map (\<lambda>p. (fst p, normal p)) (take k ps))"
      "if k = length ps then rc = 0
       else rc = LDAP_TYPE_OR_VALUE_EXISTS \<and> (\<exists>v\<in>set (nvals_of a'). mf v (normal (ps ! k)) = 0)"
      by (auto simp: same)
    then show ?thesis
      unfolding add new by (intro exI [of _ rc] exI [of _ a'] exI [of _ k]) (auto simp: take_map)
  next
    case False
    let ?c = "?b\<lparr>a_vals := Some (vals_of a @ vals), a_nvals := (case nvals of None \<Rightarrow> Shared | Some nvs \<Rightarrow> Own (nvals_of a @ nvs)),
        a_numvals := a_numvals a + length vals\<rparr>"
    have add: "attr_valadd sc a vals nvals (length vals) = Some (0, ?c)"
      using False start n b assms(5) by (auto simp: attr_valadd_def Let_def abort_simps split: option.splits)
    have c: "vals_of ?c = vals_of a @ vals" "nvals_of ?c = nvals_of a @ ?nvs"
      using assms(4) b by (auto simp: vals_of_def nvals_of_def split: option.splits nvals.splits if_splits)
    have "attr_ok mf ?c"
      unfolding attr_ok_def c using False n assms(5,6) by (auto split: option.splits)
    moreover have "pairs ?c = pairs a + mset new"
      unfolding pairs_def c using n by (simp add: zip_append new_def)
    ultimately show ?thesis using add by (intro exI [of _ 0] exI [of _ ?c] exI [of _ "length new"]) simp
  qed
qed

text \<open>Adding values keeps an attribute well-formed: its count is right, values and normalised values
  stay aligned, sorted values stay sorted. All new values have been added, or those before the first one
  that the attribute has already.\<close>

lemma attr_valadd_keeps_order:
  assumes "matching_order mf" "equality_by sc (a_desc a) mf" "attr_ok mf a"
    "if a_vals a = None then a_nvals a = Shared else (nvals = None \<longleftrightarrow> a_nvals a = Shared)"
    "case nvals of None \<Rightarrow> True | Some nvs \<Rightarrow> length nvs = length vals"
    "has (a_flags a) SLAP_ATTR_SORTED_VALS \<and> nvals_of a = [] \<longrightarrow> sorted_by mf (case nvals of None \<Rightarrow> vals | Some nvs \<Rightarrow> nvs)"
  defines "new \<equiv> zip vals (case nvals of None \<Rightarrow> vals | Some nvs \<Rightarrow> nvs)"
  shows "\<exists>rc a' k. attr_valadd sc a vals nvals (length vals) = Some (rc, a') \<and> attr_ok mf a' \<and>
    k \<le> length new \<and> pairs a' = pairs a + mset (take k new) \<and>
    (if k = length new then rc = 0
     else rc = LDAP_TYPE_OR_VALUE_EXISTS \<and> (\<exists>v\<in>set (nvals_of a'). mf v (snd (new ! k)) = 0))"
  using valadd_correct [OF assms(1-6)] unfolding new_def by blast

section \<open>A small schema\<close>

text \<open>Attribute types with the octet string rules; the second is a subtype of the first, the third of the second.\<close>

definition octet_rule :: "(slap_mask \<Rightarrow> nat \<Rightarrow> string \<Rightarrow> assertion \<Rightarrow> int \<times> int option) \<Rightarrow> matching_rule" where
  "octet_rule f = \<lparr>smr_usage = SLAP_MR_EXT, smr_syntax = 0, smr_compat_syntaxes = None, smr_normalize = None, smr_match = Some f\<rparr>"

definition octet_type :: "nat \<Rightarrow> attr_type" where
  "octet_type i = \<lparr>sat_oid = None, sat_names = None, sat_sup = (if i = 1 \<or> i = 2 then Some (i - 1) else None), sat_syntax_oid = None,
     sat_deleted = False, sat_hardcode = False, sat_flags = SLAP_AT_SORTED_VAL, sat_equality = Some 0, sat_approx = None,
     sat_ordering = Some 1, sat_substr = Some 2, sat_syntax = 0, sat_cname = [],
     sat_obsolete = False, sat_single_value = False, sat_collective = False, sat_no_user_mod = False, sat_usage = 0\<rparr>"

definition octet_schema :: schema where
  "octet_schema = \<lparr>at_store = octet_type, at_count = 3, ad_store = (\<lambda>i. \<lparr>ad_type = i, ad_tags = [], ad_flags = 0\<rparr>),
     mr_store = (\<lambda>i. octet_rule (if i = 0 then octetStringMatch else if i = 1 then octetStringOrderingMatch else octetStringSubstringsMatch)),
     syn_store = (\<lambda>i. \<lparr>ssyn_flags = 0, ssyn_sups = None, ssyn_validate = None, ssyn_pretty = None\<rparr>), syn_count = 1,
     si_ad_entryDN = 10, si_ad_hasSubordinates = 11, si_ad_subschemaSubentry = 12, si_ad_objectClass = 13\<rparr>"

definition sorted_attr :: "nat \<Rightarrow> string list \<Rightarrow> attribute" where
  "sorted_attr ad vs = \<lparr>a_desc = ad, a_vals = Some vs, a_nvals = Shared, a_numvals = length vs, a_flags = SLAP_ATTR_SORTED_VALS\<rparr>"

lemma type_of_octet: "type_of octet_schema ad = octet_type ad"
  by (simp add: type_of_def octet_schema_def)

lemma mr_octet:
  "mr_store octet_schema i =
     octet_rule (if i = 0 then octetStringMatch else if i = 1 then octetStringOrderingMatch else octetStringSubstringsMatch)"
  by (simp add: octet_schema_def)

lemma sorted_attr_simps [simp]:
  "a_desc (sorted_attr ad vs) = ad" "nvals_of (sorted_attr ad vs) = vs" "vals_of (sorted_attr ad vs) = vs"
  "a_vals (sorted_attr ad vs) = Some vs" "a_nvals (sorted_attr ad vs) = Shared"
  "a_flags (sorted_attr ad vs) = SLAP_ATTR_SORTED_VALS" "a_numvals (sorted_attr ad vs) = length vs"
  by (simp_all add: sorted_attr_def nvals_of_def vals_of_def)

lemma equality_by_octet: "equality_by octet_schema ad ber_bvcmp"
  unfolding equality_by_def
  by (rule exI [of _ 0], rule exI [of _ octetStringMatch])
    (simp add: type_of_octet octet_type_def mr_octet octet_rule_def octetStringMatch_cmp)

lemma sorted_attr_ok: "sorted_by ber_bvcmp vs \<Longrightarrow> attr_ok ber_bvcmp (sorted_attr ad vs)"
  by (simp add: attr_ok_def)

lemma attr_valfind_bisects_witness:
  "\<exists>rc i. attr_valfind octet_schema (sorted_attr 0 [''b'', ''aa'']) valadd_flags ''aa'' = Some (rc, Some i) \<and>
     value_find_ex octet_schema 0 valadd_flags [''b'', ''aa''] ''aa'' = Some rc"
proof -
  have "attr_ok ber_bvcmp (sorted_attr 0 [''b'', ''aa''])"
    by (rule sorted_attr_ok) (simp add: sorted_by_def ber_bvcmp_def)
  with attr_valfind_bisects [of ber_bvcmp octet_schema "sorted_attr 0 [''b'', ''aa'']" valadd_flags "''aa''"]
  show ?thesis
    by (auto simp: octet.matching_order_axioms equality_by_octet SLAP_ATTR_SORTED_VALS_def valadd_flags_def masks)
qed

lemma attr_valadd_keeps_order_witness:
  "\<exists>rc a' k. attr_valadd octet_schema (sorted_attr 0 [''b'', ''aa'']) [''c'', ''b''] None 2 = Some (rc, a') \<and> attr_ok ber_bvcmp a' \<and>
     pairs a' = pairs (sorted_attr 0 [''b'', ''aa'']) + mset (take k [(''c'', ''c''), (''b'', ''b'')])"
proof -
  have "attr_ok ber_bvcmp (sorted_attr 0 [''b'', ''aa''])"
    by (rule sorted_attr_ok) (simp add: sorted_by_def ber_bvcmp_def)
  from attr_valadd_keeps_order [OF octet.matching_order_axioms equality_by_octet this, of None "[''c'', ''b'']"]
  show ?thesis by (simp add: numeral_2_eq_2) blast
qed

section \<open>Merging into an entry\<close>

lemma at_desc_found:
  assumes "attr_find as desc = Some a" "old a = Some (rc, a')" "a_desc a' = desc"
  shows "\<exists>as'. at_desc desc old new as = Some (rc, as') \<and> attr_find as' desc = Some a'"
  using assms by (induction as) (auto split: if_splits)

text \<open>A value that its rule cannot normalise is merged all the same: attr_merge_normalize_one reports
  success, and the attribute loses the normalised forms of the values it had, because the new value
  comes without one.\<close>

lemma merge_normalize_one_forgets:
  assumes "normalizer sc desc = Some nf" "fst (nf val) \<noteq> LDAP_SUCCESS" "attr_find (e_attrs e) desc = Some a"
    "\<not> has (a_flags a) SLAP_ATTR_SORTED_VALS" "a_numvals a = length (vals_of a)" "a_desc a = desc"
  shows "\<exists>e' a'. attr_merge_normalize_one sc e desc val = Some (LDAP_SUCCESS, e') \<and>
    attr_find (e_attrs e') desc = Some a' \<and> nvals_of a' = vals_of a @ [val]"
proof -
  let ?a = "a\<lparr>a_vals := Some (vals_of a @ [val]), a_nvals := Shared, a_numvals := a_numvals a + 1\<rparr>"
  have "attr_valadd sc a [val] None 1 = Some (0, ?a)"
    using assms(4,5) by (simp add: attr_valadd_def abort_simps Let_def)
  from at_desc_found [OF assms(3), of "\<lambda>a. attr_valadd sc a [val] None 1", OF this]
  obtain as' where "at_desc desc (\<lambda>a. attr_valadd sc a [val] None 1) (attr_valadd sc (attr_alloc sc desc) [val] None 1) (e_attrs e)
      = Some (0, as')" "attr_find as' desc = Some ?a" using assms(6) by fastforce
  moreover have "attr_merge_normalize_one sc e desc val = attr_merge_one sc e desc val None"
    using assms(1,2) by (cases "nf val") (simp add: attr_merge_normalize_one_def attr_normalize_one_def)
  ultimately show ?thesis
    by (auto simp: attr_merge_one_def set_attrs_def nvals_of_def vals_of_def LDAP_SUCCESS_def)
qed

definition strict_schema :: schema where
  "strict_schema = octet_schema\<lparr>mr_store := (\<lambda>i. (octet_rule octetStringMatch)
     \<lparr>smr_normalize := Some (\<lambda>usage syn v. if v = [] then (LDAP_INVALID_SYNTAX, []) else (LDAP_SUCCESS, map tolower v))\<rparr>)\<rparr>"

lemma merge_normalize_one_forgets_witness:
  "\<exists>e' a'. attr_merge_normalize_one strict_schema
      \<lparr>e_name = [], e_nname = [], e_ocflags = 0, e_attrs = [\<lparr>a_desc = 0, a_vals = Some [''AB''], a_nvals = Own [''ab''], a_numvals = 1, a_flags = 0\<rparr>]\<rparr> 0 []
      = Some (LDAP_SUCCESS, e') \<and> attr_find (e_attrs e') 0 = Some a' \<and> nvals_of a' = [''AB'', '''']"
  using merge_normalize_one_forgets [of strict_schema 0
      "\<lambda>v. if v = [] then (LDAP_INVALID_SYNTAX, []) else (LDAP_SUCCESS, map tolower v)" "[]"
      "\<lparr>e_name = [], e_nname = [], e_ocflags = 0, e_attrs = [\<lparr>a_desc = 0, a_vals = Some [''AB''], a_nvals = Own [''ab''], a_numvals = 1, a_flags = 0\<rparr>]\<rparr>"
      "\<lparr>a_desc = 0, a_vals = Some [''AB''], a_nvals = Own [''ab''], a_numvals = 1, a_flags = 0\<rparr>"]
  by (simp add: normalizer_def strict_schema_def octet_schema_def octet_rule_def octet_type_def type_of_def vals_of_def result_codes)

end
