(* ===== verification/Filter_Entry.thy ===== *)
theory Filter_Entry
  imports Entry_Attr
begin

text \<open>
  Testing a search filter against an entry, \<^verbatim>\<open>servers/slapd/filterentry.c\<close>. The filter is the tagged
  union of \<^verbatim>\<open>struct Filter\<close>. What the operation brings along are functions of the record
  \<open>operation\<close>: the decision of access control, the \<^verbatim>\<open>hasSubordinates\<close> callback of the backend and the
  parser of distinguished names. Component matching (\<^verbatim>\<open>LDAP_COMP_MATCH\<close>) is not compiled in by default
  and not modelled; neither are the release of memory and the debug output.
\<close>

section \<open>Definitions\<close>

record attribute_assertion =
  aa_desc :: nat
  aa_value :: string

record matching_rule_assertion =
  ma_desc :: "nat option"
  ma_value :: string
  ma_rule :: "nat option"
  ma_dnattrs :: bool

text \<open>\<open>F_undefined\<close> stands for every choice with the bit \<^verbatim>\<open>SLAPD_FILTER_UNDEFINED\<close>, \<open>F_unknown\<close> for
  every choice the switch does not know.\<close>

datatype ldap_filter =
  F_undefined
| F_computed int
| F_equality attribute_assertion
| F_substrings substrings_assertion
| F_ge attribute_assertion
| F_le attribute_assertion
| F_present nat
| F_approx attribute_assertion
| F_and "ldap_filter list"
| F_or "ldap_filter list"
| F_not ldap_filter
| F_ext matching_rule_assertion
| F_unknown

text \<open>\<open>access_allowed\<close> is asked for \<^verbatim>\<open>ACL_SEARCH\<close>; its value is \<open>None\<close> for the null pointer. The callback
  returns a result code and the verdict. The parser returns the attribute description and the value of
  each AVA, RDN by RDN.\<close>

record operation =
  access_allowed :: "entry \<Rightarrow> nat \<Rightarrow> string option \<Rightarrow> bool"
  be_has_subordinates :: "(entry \<Rightarrow> int \<times> int) option"
  dnPrettyDN :: "string \<Rightarrow> (nat \<times> string) list list option"

datatype ava_type = EQUALITY | APPROX | GE | LE

text \<open>The body of a loop goes on, breaks the loop or returns from the function.\<close>

datatype ('s, 'r) ctl = Continue 's | Break 's | Return 'r

fun loop :: "('x \<Rightarrow> 's \<Rightarrow> ('s, 'r) ctl option) \<Rightarrow> 'x list \<Rightarrow> 's \<Rightarrow> ('r + 's) option" where
  "loop body [] s = Some (Inr s)"
| "loop body (x # xs) s = do {
     c \<leftarrow> body x s;
     case c of Continue s \<Rightarrow> loop body xs s | Break s \<Rightarrow> Some (Inr s) | Return r \<Rightarrow> Some (Inl r) }"

text \<open>The loop \<^verbatim>\<open>for (a = attrs_find(..); a != NULL; a = attrs_find(a->a_next, ..))\<close>.\<close>

lemma attrs_find_shorter: "attrs_find sc as desc = Some (a # as') \<Longrightarrow> length as' < length as"
  by (induction as) (auto simp: bind_eq_Some_conv split: if_splits)

function attrs_loop ::
    "schema \<Rightarrow> nat \<Rightarrow> (attribute \<Rightarrow> 's \<Rightarrow> ('s, 'r) ctl option) \<Rightarrow> attribute list \<Rightarrow> 's \<Rightarrow> ('r + 's) option" where
  "attrs_loop sc desc body as s = do {
     found \<leftarrow> attrs_find sc as desc;
     case found of
       [] \<Rightarrow> Some (Inr s)
     | a # rest \<Rightarrow> do {
         c \<leftarrow> body a s;
         case c of Continue s \<Rightarrow> attrs_loop sc desc body rest s | Break s \<Rightarrow> Some (Inr s) | Return r \<Rightarrow> Some (Inl r) } }"
  by auto
termination
  by (relation "measure (\<lambda>(sc, desc, body, as, s). length as)") (auto dest: attrs_find_shorter)

declare attrs_loop.simps [simp del]

definition result :: "(int + int) option \<Rightarrow> int option" where
  "result r = map_option (\<lambda>r. case r of Inl rc \<Rightarrow> rc | Inr rc \<Rightarrow> rc) r"

subsection \<open>Value assertions\<close>

definition hit :: "ava_type \<Rightarrow> int \<Rightarrow> bool" where
  "hit type match = (case type of EQUALITY \<Rightarrow> match = 0 | APPROX \<Rightarrow> match = 0 | GE \<Rightarrow> 0 \<le> match | LE \<Rightarrow> match \<le> 0)"

definition ava_rule :: "attr_type \<Rightarrow> ava_type \<Rightarrow> slap_mask \<times> nat option" where
  "ava_rule sat type =
     (case type of
        APPROX \<Rightarrow> (SLAP_MR_EQUALITY_APPROX, case sat_approx sat of None \<Rightarrow> sat_equality sat | Some m \<Rightarrow> Some m)
      | EQUALITY \<Rightarrow> (SLAP_MR_EQUALITY, sat_equality sat)
      | _ \<Rightarrow> (SLAP_MR_ORDERING, sat_ordering sat))"

definition ava_value :: "schema \<Rightarrow> nat \<Rightarrow> nat option \<Rightarrow> slap_mask \<Rightarrow> ava_type \<Rightarrow> string \<Rightarrow> string \<Rightarrow> int \<Rightarrow> (int, int) ctl option" where
  "ava_value sc ad mr use type val v rc = do {
     (ret, m) \<leftarrow> ordered_value_match sc ad mr use v val;
     if ret \<noteq> LDAP_SUCCESS then Some (Break ret)
     else do { match \<leftarrow> m; Some (if hit type match then Return LDAP_COMPARE_TRUE else Continue rc) } }"

text \<open>Sorted values: one comparison with the first or the last value, or the search by bisection. An
  attribute without values would be compared with its terminator.\<close>

definition ava_sorted :: "schema \<Rightarrow> attribute \<Rightarrow> nat option \<Rightarrow> slap_mask \<Rightarrow> ava_type \<Rightarrow> string \<Rightarrow> int \<Rightarrow> (int, int) ctl option" where
  "ava_sorted sc a mr use type val rc =
     (if use = SLAP_MR_ORDERING
      then do {
        let which = (if type = LE then 0 else a_numvals a - 1);
        ensure (0 < a_numvals a \<and> which < length (nvals_of a));
        (ret, m) \<leftarrow> value_match sc (a_desc a) mr use (nvals_of a ! which) (Value val);
        if ret \<noteq> LDAP_SUCCESS then Some (Return ret)
        else do { match \<leftarrow> m; Some (if hit type match then Return LDAP_COMPARE_TRUE else Continue rc) } }
      else do {
        (ret, slot) \<leftarrow> attr_valfind sc a
          (use OR SLAP_MR_ASSERTED_VALUE_NORMALIZED_MATCH OR SLAP_MR_ATTRIBUTE_VALUE_NORMALIZED_MATCH) val;
        Some (if ret = LDAP_SUCCESS then Return LDAP_COMPARE_TRUE
              else if ret \<noteq> LDAP_NO_SUCH_ATTRIBUTE then Return ret else Continue rc) })"

definition ava_attr :: "operation \<Rightarrow> schema \<Rightarrow> entry \<Rightarrow> attribute_assertion \<Rightarrow> ava_type \<Rightarrow> attribute \<Rightarrow> int \<Rightarrow> (int, int) ctl option" where
  "ava_attr op sc e ava type a rc =
     (if aa_desc ava \<noteq> a_desc a \<and> \<not> access_allowed op e (a_desc a) (Some (aa_value ava))
      then Some (Continue LDAP_INSUFFICIENT_ACCESS)
      else let (use, mr) = ava_rule (type_of sc (a_desc a)) type in
        if mr = None then Some (Continue LDAP_INAPPROPRIATE_MATCHING)
        else if has (a_flags a) SLAP_ATTR_SORTED_VALS \<and> type \<noteq> APPROX then ava_sorted sc a mr use type (aa_value ava) rc
        else map_option (\<lambda>r. case r of Inl r \<Rightarrow> Return r | Inr rc \<Rightarrow> Continue rc)
               (loop (ava_value sc (a_desc a) mr use type (aa_value ava)) (nvals_of a) rc))"

definition match_result :: "(int \<times> int option) option \<Rightarrow> int option" where
  "match_result r = do {
     (rc, m) \<leftarrow> r;
     if rc \<noteq> LDAP_SUCCESS then Some rc
     else do { match \<leftarrow> m; Some (if match = 0 then LDAP_COMPARE_TRUE else LDAP_COMPARE_FALSE) } }"

definition test_ava_filter :: "operation \<Rightarrow> schema \<Rightarrow> entry \<Rightarrow> attribute_assertion \<Rightarrow> ava_type \<Rightarrow> int option" where
  "test_ava_filter op sc e ava type =
     (if \<not> access_allowed op e (aa_desc ava) (Some (aa_value ava)) then Some LDAP_INSUFFICIENT_ACCESS
      else if aa_desc ava = si_ad_hasSubordinates sc \<and> be_has_subordinates op \<noteq> None then
        if type \<noteq> EQUALITY \<and> type \<noteq> APPROX then Some LDAP_INAPPROPRIATE_MATCHING
        else let (rc, verdict) = the (be_has_subordinates op) e in
          if rc \<noteq> LDAP_SUCCESS then Some LDAP_OTHER
          else if verdict = LDAP_COMPARE_TRUE
          then Some (if aa_value ava = ''TRUE'' then LDAP_COMPARE_TRUE else LDAP_COMPARE_FALSE)
          else if verdict = LDAP_COMPARE_FALSE
          then Some (if aa_value ava = ''FALSE'' then LDAP_COMPARE_TRUE else LDAP_COMPARE_FALSE)
          else Some LDAP_OTHER
      else if aa_desc ava = si_ad_entryDN sc then
        if type \<noteq> EQUALITY \<and> type \<noteq> APPROX then Some LDAP_INAPPROPRIATE_MATCHING
        else match_result (value_match sc (si_ad_entryDN sc) (sat_equality (type_of sc (si_ad_entryDN sc))) SLAP_MR_EXT
               (e_nname e) (Value (aa_value ava)))
      else result (attrs_loop sc (aa_desc ava) (ava_attr op sc e ava type) (e_attrs e) LDAP_COMPARE_FALSE))"

subsection \<open>Presence and substrings\<close>

definition presence_attr :: "operation \<Rightarrow> entry \<Rightarrow> nat \<Rightarrow> attribute \<Rightarrow> int \<Rightarrow> (int, int) ctl option" where
  "presence_attr op e desc a rc =
     Some (if desc \<noteq> a_desc a \<and> \<not> access_allowed op e (a_desc a) None
           then Continue LDAP_INSUFFICIENT_ACCESS else Break LDAP_COMPARE_TRUE)"

definition test_presence_filter :: "operation \<Rightarrow> schema \<Rightarrow> entry \<Rightarrow> nat \<Rightarrow> int option" where
  "test_presence_filter op sc e desc =
     (if \<not> access_allowed op e desc None then Some LDAP_INSUFFICIENT_ACCESS
      else if desc = si_ad_hasSubordinates sc
      then Some (if be_has_subordinates op \<noteq> None then LDAP_COMPARE_TRUE else LDAP_COMPARE_FALSE)
      else if desc = si_ad_entryDN sc \<or> desc = si_ad_subschemaSubentry sc then Some LDAP_COMPARE_TRUE
      else result (attrs_loop sc desc (presence_attr op e desc) (e_attrs e) LDAP_COMPARE_FALSE))"

definition sub_value :: "schema \<Rightarrow> nat \<Rightarrow> nat option \<Rightarrow> substrings_assertion \<Rightarrow> string \<Rightarrow> int \<Rightarrow> (int, int) ctl option" where
  "sub_value sc ad mr sub v rc = do {
     (ret, m) \<leftarrow> value_match sc ad mr SLAP_MR_SUBSTR v (Substrings sub);
     if ret \<noteq> LDAP_SUCCESS then Some (Break ret)
     else do { match \<leftarrow> m; Some (if match = 0 then Return LDAP_COMPARE_TRUE else Continue rc) } }"

definition sub_attr :: "operation \<Rightarrow> schema \<Rightarrow> entry \<Rightarrow> substrings_assertion \<Rightarrow> attribute \<Rightarrow> int \<Rightarrow> (int, int) ctl option" where
  "sub_attr op sc e sub a rc =
     (if sa_desc sub \<noteq> a_desc a \<and> \<not> access_allowed op e (a_desc a) None then Some (Continue LDAP_INSUFFICIENT_ACCESS)
      else let mr = sat_substr (type_of sc (a_desc a)) in
        if mr = None then Some (Continue LDAP_INAPPROPRIATE_MATCHING)
        else map_option (\<lambda>r. case r of Inl r \<Rightarrow> Return r | Inr rc \<Rightarrow> Continue rc)
               (loop (sub_value sc (a_desc a) mr sub) (nvals_of a) rc))"

definition test_substrings_filter :: "operation \<Rightarrow> schema \<Rightarrow> entry \<Rightarrow> substrings_assertion \<Rightarrow> int option" where
  "test_substrings_filter op sc e sub =
     (if \<not> access_allowed op e (sa_desc sub) None then Some LDAP_INSUFFICIENT_ACCESS
      else result (attrs_loop sc (sa_desc sub) (sub_attr op sc e sub) (e_attrs e) LDAP_COMPARE_FALSE))"

subsection \<open>Matching rule assertions\<close>

text \<open>A value normalised by the rule of the assertion: \<open>Inl\<close> when the normaliser fails and the value
  is passed over.\<close>

definition mra_normal :: "schema \<Rightarrow> nat \<Rightarrow> string \<Rightarrow> unit + string" where
  "mra_normal sc m v =
     (case smr_normalize (mr_store sc m) of
        None \<Rightarrow> Inr v
      | Some nf \<Rightarrow>
          let (rc, nv) = nf SLAP_MR_VALUE_OF_ATTRIBUTE_SYNTAX (Some (smr_syntax (mr_store sc m))) v
          in if rc \<noteq> LDAP_SUCCESS then Inl () else Inr nv)"

text \<open>One comparison: a failure and a match end the test.\<close>

definition mra_compare :: "schema \<Rightarrow> nat \<Rightarrow> nat option \<Rightarrow> string \<Rightarrow> string \<Rightarrow> (unit, int) ctl option" where
  "mra_compare sc ad mr val nv = do {
     (rc, m) \<leftarrow> value_match sc ad mr SLAP_MR_EXT nv (Value val);
     if rc \<noteq> LDAP_SUCCESS then Some (Return rc)
     else do { match \<leftarrow> m; Some (if match = 0 then Return LDAP_COMPARE_TRUE else Continue ()) } }"

definition mra_value :: "schema \<Rightarrow> nat \<Rightarrow> nat option \<Rightarrow> string \<Rightarrow> bool \<Rightarrow> string \<Rightarrow> unit \<Rightarrow> (unit, int) ctl option" where
  "mra_value sc ad mr val normalize_attribute v u =
     (if normalize_attribute
      then (case mr of
              None \<Rightarrow> None
            | Some m \<Rightarrow>
                (case mra_normal sc m v of Inl _ \<Rightarrow> Some (Continue ()) | Inr nv \<Rightarrow> mra_compare sc ad mr val nv))
      else mra_compare sc ad mr val v)"

text \<open>The values of one attribute; the values as given are used, and normalised, unless the rule is the
  equality rule of the attribute.\<close>

definition mra_attr :: "schema \<Rightarrow> nat option \<Rightarrow> string \<Rightarrow> attribute \<Rightarrow> unit \<Rightarrow> (unit, int) ctl option" where
  "mra_attr sc mr val a u =
     (let own_rule = (mr = sat_equality (type_of sc (a_desc a)))
      in map_option (\<lambda>r. case r of Inl r \<Rightarrow> Return r | Inr u \<Rightarrow> Continue u)
           (loop (mra_value sc (a_desc a) mr val (\<not> own_rule)) (if own_rule then nvals_of a else vals_of a) ()))"

text \<open>Without a description: whether the rule suits the attribute, the asserted value normalised for
  it and access to it; \<open>None\<close> inside when the attribute is passed over.\<close>

definition mra_suits :: "operation \<Rightarrow> schema \<Rightarrow> entry \<Rightarrow> matching_rule_assertion \<Rightarrow> nat \<Rightarrow> string option option" where
  "mra_suits op sc e mra ad =
     (case ma_rule mra of
        None \<Rightarrow> None
      | Some m \<Rightarrow> do {
          usable \<leftarrow> mr_usable_with_at sc m (type_of sc ad);
          if \<not> usable then Some None
          else do {
            (rc, out) \<leftarrow> asserted_value_validate_normalize sc (Some ad) (Some m)
              (SLAP_MR_EXT OR SLAP_MR_VALUE_OF_ASSERTION_SYNTAX) (ma_value mra);
            if rc \<noteq> LDAP_SUCCESS then Some None
            else do {
              val \<leftarrow> out;
              Some (if access_allowed op e ad (Some val) then Some val else None) } } })"

definition mra_any_attr :: "operation \<Rightarrow> schema \<Rightarrow> entry \<Rightarrow> matching_rule_assertion \<Rightarrow> attribute \<Rightarrow> unit \<Rightarrow> (unit, int) ctl option" where
  "mra_any_attr op sc e mra a u = do {
     s \<leftarrow> mra_suits op sc e mra (a_desc a);
     case s of None \<Rightarrow> Some (Continue ()) | Some val \<Rightarrow> mra_attr sc (ma_rule mra) val a () }"

definition mra_ava :: "operation \<Rightarrow> schema \<Rightarrow> entry \<Rightarrow> matching_rule_assertion \<Rightarrow> nat \<times> string \<Rightarrow> unit \<Rightarrow> (unit, int) ctl option" where
  "mra_ava op sc e mra ava u = (case ava of (ad, v) \<Rightarrow> do {
     s \<leftarrow> (case ma_desc mra of
            Some desc \<Rightarrow> map_option (\<lambda>sub. if sub then Some (ma_value mra) else None) (is_ad_subtype sc ad desc)
          | None \<Rightarrow> mra_suits op sc e mra ad);
     case s of None \<Rightarrow> Some (Continue ()) | Some val \<Rightarrow> mra_value sc ad (ma_rule mra) val True v () })"

definition mra_dn :: "operation \<Rightarrow> schema \<Rightarrow> entry \<Rightarrow> matching_rule_assertion \<Rightarrow> int option" where
  "mra_dn op sc e mra =
     (if ma_dnattrs mra \<and> e_nname e \<noteq> []
      then (case dnPrettyDN op (e_name e) of
              None \<Rightarrow> Some LDAP_INVALID_SYNTAX
            | Some dn \<Rightarrow> map_option (\<lambda>r. case r of Inl rc \<Rightarrow> rc | Inr u \<Rightarrow> LDAP_COMPARE_FALSE)
                           (loop (mra_ava op sc e mra) (concat dn) ()))
      else Some LDAP_COMPARE_FALSE)"

definition test_mra_filter :: "operation \<Rightarrow> schema \<Rightarrow> entry \<Rightarrow> matching_rule_assertion \<Rightarrow> int option" where
  "test_mra_filter op sc e mra =
     (case ma_desc mra of
        Some desc \<Rightarrow>
          if \<not> access_allowed op e desc (Some (ma_value mra)) then Some LDAP_INSUFFICIENT_ACCESS
          else if desc = si_ad_entryDN sc
          then match_result (value_match sc (si_ad_entryDN sc) (ma_rule mra) SLAP_MR_EXT (e_nname e) (Value (ma_value mra)))
          else do {
            r \<leftarrow> attrs_loop sc desc (mra_attr sc (ma_rule mra) (ma_value mra)) (e_attrs e) ();
            case r of Inl rc \<Rightarrow> Some rc | Inr u \<Rightarrow> mra_dn op sc e mra }
      | None \<Rightarrow> do {
          r \<leftarrow> loop (mra_any_attr op sc e mra) (e_attrs e) ();
          case r of Inl rc \<Rightarrow> Some rc | Inr u \<Rightarrow> mra_dn op sc e mra })"

subsection \<open>Filters\<close>

definition flip :: "int \<Rightarrow> int" where
  "flip rc = (if rc = LDAP_COMPARE_TRUE then LDAP_COMPARE_FALSE
              else if rc = LDAP_COMPARE_FALSE then LDAP_COMPARE_TRUE else rc)"

text \<open>\<open>rtn\<close> is the result so far.\<close>

function test_filter :: "operation \<Rightarrow> schema \<Rightarrow> entry \<Rightarrow> ldap_filter \<Rightarrow> int option"
  and test_filter_and :: "operation \<Rightarrow> schema \<Rightarrow> entry \<Rightarrow> ldap_filter list \<Rightarrow> int \<Rightarrow> int option"
  and test_filter_or :: "operation \<Rightarrow> schema \<Rightarrow> entry \<Rightarrow> ldap_filter list \<Rightarrow> int \<Rightarrow> int option" where
  "test_filter op sc e F_undefined = Some SLAPD_COMPARE_UNDEFINED"
| "test_filter op sc e (F_computed rc) = Some rc"
| "test_filter op sc e (F_equality ava) = test_ava_filter op sc e ava EQUALITY"
| "test_filter op sc e (F_substrings sub) = test_substrings_filter op sc e sub"
| "test_filter op sc e (F_ge ava) = test_ava_filter op sc e ava GE"
| "test_filter op sc e (F_le ava) = test_ava_filter op sc e ava LE"
| "test_filter op sc e (F_present desc) = test_presence_filter op sc e desc"
| "test_filter op sc e (F_approx ava) = test_ava_filter op sc e ava APPROX"
| "test_filter op sc e (F_and fs) = test_filter_and op sc e fs LDAP_COMPARE_TRUE"
| "test_filter op sc e (F_or fs) = test_filter_or op sc e fs LDAP_COMPARE_FALSE"
| "test_filter op sc e (F_not f) = map_option flip (test_filter op sc e f)"
| "test_filter op sc e (F_ext mra) = test_mra_filter op sc e mra"
| "test_filter op sc e F_unknown = Some LDAP_PROTOCOL_ERROR"
| "test_filter_and op sc e [] rtn = Some rtn"
| "test_filter_and op sc e (f # fs) rtn = do {
     rc \<leftarrow> test_filter op sc e f;
     if rc = LDAP_COMPARE_FALSE then Some rc
     else test_filter_and op sc e fs (if rc \<noteq> LDAP_COMPARE_TRUE then rc else rtn) }"
| "test_filter_or op sc e [] rtn = Some rtn"
| "test_filter_or op sc e (f # fs) rtn = do {
     rc \<leftarrow> test_filter op sc e f;
     if rc = LDAP_COMPARE_TRUE then Some rc
     else test_filter_or op sc e fs (if rc \<noteq> LDAP_COMPARE_FALSE then rc else rtn) }"
  by pat_completeness auto
termination
  by (relation "measure (\<lambda>x. case x of
        Inl (_, _, _, f) \<Rightarrow> 2 * size f
      | Inr (Inl (_, _, _, fs, _)) \<Rightarrow> 2 * size_list size fs + 1
      | Inr (Inr (_, _, _, fs, _)) \<Rightarrow> 2 * size_list size fs + 1)") auto

section \<open>Three-valued logic\<close>

text \<open>The truth values of RFC 4511, ordered so that conjunction is the minimum; every result code but
  the two of comparison counts as undefined.\<close>

datatype tri = FalseT | UndefT | TrueT

instantiation tri :: linorder
begin

definition less_eq_tri :: "tri \<Rightarrow> tri \<Rightarrow> bool" where
  "less_eq_tri x y \<longleftrightarrow> x = FalseT \<or> y = TrueT \<or> x = y"

definition less_tri :: "tri \<Rightarrow> tri \<Rightarrow> bool" where
  "less_tri x y \<longleftrightarrow> x \<le> y \<and> x \<noteq> y"

instance
  by standard (auto simp: less_eq_tri_def less_tri_def intro: tri.exhaust)

end

definition tri_of :: "int \<Rightarrow> tri" where
  "tri_of rc = (if rc = LDAP_COMPARE_TRUE then TrueT else if rc = LDAP_COMPARE_FALSE then FalseT else UndefT)"

fun neg :: "tri \<Rightarrow> tri" where
  "neg TrueT = FalseT" | "neg FalseT = TrueT" | "neg UndefT = UndefT"

fun kleene :: "(ldap_filter \<Rightarrow> tri) \<Rightarrow> ldap_filter \<Rightarrow> tri" where
  "kleene v (F_and fs) = foldr min (map (kleene v) fs) TrueT"
| "kleene v (F_or fs) = foldr max (map (kleene v) fs) FalseT"
| "kleene v (F_not f) = neg (kleene v f)"
| "kleene v f = v f"

fun leaves :: "ldap_filter \<Rightarrow> ldap_filter set" where
  "leaves (F_and fs) = (\<Union>f\<in>set fs. leaves f)"
| "leaves (F_or fs) = (\<Union>f\<in>set fs. leaves f)"
| "leaves (F_not f) = leaves f"
| "leaves f = {f}"

lemma min_tri: "min FalseT x = FalseT" "min x FalseT = FalseT" "min TrueT x = x" "min x TrueT = x" "min x x = x"
  by (auto simp: min_def less_eq_tri_def)

lemma max_tri: "max TrueT x = TrueT" "max x TrueT = TrueT" "max FalseT x = x" "max x FalseT = x" "max x x = x"
  by (auto simp: max_def less_eq_tri_def)

lemma tri_of_codes:
  "tri_of rc = TrueT \<longleftrightarrow> rc = LDAP_COMPARE_TRUE" "tri_of rc = FalseT \<longleftrightarrow> rc = LDAP_COMPARE_FALSE"
  "tri_of LDAP_COMPARE_TRUE = TrueT" "tri_of LDAP_COMPARE_FALSE = FalseT" "tri_of (flip rc) = neg (tri_of rc)"
  by (auto simp: tri_of_def flip_def result_codes)

lemma filter_and_kleene:
  assumes "\<And>f. f \<in> set fs \<Longrightarrow> \<exists>rc. test_filter op sc e f = Some rc \<and> tri_of rc = kleene v f" "tri_of rtn \<noteq> FalseT"
  shows "\<exists>rc. test_filter_and op sc e fs rtn = Some rc \<and> tri_of rc = min (tri_of rtn) (foldr min (map (kleene v) fs) TrueT)"
  using assms
proof (induction fs arbitrary: rtn)
  case (Cons f fs)
  obtain rc where rc: "test_filter op sc e f = Some rc" "tri_of rc = kleene v f" using Cons.prems(1) by auto
  let ?r = "if rc \<noteq> LDAP_COMPARE_TRUE then rc else rtn"
  show ?case
  proof (cases "rc = LDAP_COMPARE_FALSE")
    case True
    with rc show ?thesis by (auto simp: tri_of_codes min_tri)
  next
    case False
    then have "tri_of ?r \<noteq> FalseT" using Cons.prems(2) by (simp add: tri_of_codes)
    moreover have "tri_of ?r = min (tri_of rtn) (tri_of rc)"
      using Cons.prems(2) False by (cases "tri_of rc"; cases "tri_of rtn") (auto simp: tri_of_codes min_tri)
    ultimately show ?thesis using Cons.IH [of ?r] Cons.prems(1) False rc by (simp add: min.assoc)
  qed
qed (simp add: min_tri)

lemma filter_or_kleene:
  assumes "\<And>f. f \<in> set fs \<Longrightarrow> \<exists>rc. test_filter op sc e f = Some rc \<and> tri_of rc = kleene v f" "tri_of rtn \<noteq> TrueT"
  shows "\<exists>rc. test_filter_or op sc e fs rtn = Some rc \<and> tri_of rc = max (tri_of rtn) (foldr max (map (kleene v) fs) FalseT)"
  using assms
proof (induction fs arbitrary: rtn)
  case (Cons f fs)
  obtain rc where rc: "test_filter op sc e f = Some rc" "tri_of rc = kleene v f" using Cons.prems(1) by auto
  let ?r = "if rc \<noteq> LDAP_COMPARE_FALSE then rc else rtn"
  show ?case
  proof (cases "rc = LDAP_COMPARE_TRUE")
    case True
    with rc show ?thesis by (auto simp: tri_of_codes max_tri)
  next
    case False
    then have "tri_of ?r \<noteq> TrueT" using Cons.prems(2) by (simp add: tri_of_codes)
    moreover have "tri_of ?r = max (tri_of rtn) (tri_of rc)"
      using Cons.prems(2) False by (cases "tri_of rc"; cases "tri_of rtn") (auto simp: tri_of_codes max_tri)
    ultimately show ?thesis using Cons.IH [of ?r] Cons.prems(1) False rc by (simp add: max.assoc)
  qed
qed (simp add: max_tri)

text \<open>C9. Evaluating a composed filter implements three-valued logic over its leaves: conjunction is the
  minimum, disjunction the maximum of the parts and negation swaps true and false, although the loops
  stop at the first part that decides.\<close>

theorem filter_kleene:
  assumes "\<And>g. g \<in> leaves f \<Longrightarrow> test_filter op sc e g \<noteq> None"
  shows "\<exists>rc. test_filter op sc e f = Some rc \<and>
    tri_of rc = kleene (\<lambda>g. tri_of (the (test_filter op sc e g))) f"
  using assms
proof (induction f)
  case (F_and fs)
  then have "\<exists>rc. test_filter op sc e f = Some rc \<and> tri_of rc = kleene (\<lambda>g. tri_of (the (test_filter op sc e g))) f"
    if "f \<in> set fs" for f using that by fastforce
  from filter_and_kleene [OF this, of fs LDAP_COMPARE_TRUE] show ?case by (simp add: tri_of_codes min_tri)
next
  case (F_or fs)
  then have "\<exists>rc. test_filter op sc e f = Some rc \<and> tri_of rc = kleene (\<lambda>g. tri_of (the (test_filter op sc e g))) f"
    if "f \<in> set fs" for f using that by fastforce
  from filter_or_kleene [OF this, of fs LDAP_COMPARE_FALSE] show ?case by (simp add: tri_of_codes max_tri)
next
  case (F_not f)
  then show ?case by (auto simp: tri_of_codes)
qed fastforce+

section \<open>Denied values do not matter\<close>

text \<open>Two attributes that differ at most where search access is denied for every value.\<close>

definition same_seen :: "(nat \<Rightarrow> string option \<Rightarrow> bool) \<Rightarrow> attribute \<Rightarrow> attribute \<Rightarrow> bool" where
  "same_seen acc a a' \<longleftrightarrow> a_desc a = a_desc a' \<and> ((\<exists>v. acc (a_desc a) v) \<longrightarrow> a = a')"

definition same_visible :: "operation \<Rightarrow> entry \<Rightarrow> entry \<Rightarrow> bool" where
  "same_visible op e e' \<longleftrightarrow>
     e_name e = e_name e' \<and> e_nname e = e_nname e' \<and> access_allowed op e = access_allowed op e' \<and>
     (case be_has_subordinates op of None \<Rightarrow> True | Some h \<Rightarrow> h e = h e') \<and>
     list_all2 (same_seen (access_allowed op e)) (e_attrs e) (e_attrs e')"

fun no_typed_ext :: "ldap_filter \<Rightarrow> bool" where
  "no_typed_ext (F_and fs) \<longleftrightarrow> (\<forall>f\<in>set fs. no_typed_ext f)"
| "no_typed_ext (F_or fs) \<longleftrightarrow> (\<forall>f\<in>set fs. no_typed_ext f)"
| "no_typed_ext (F_not f) \<longleftrightarrow> no_typed_ext f"
| "no_typed_ext (F_ext mra) \<longleftrightarrow> ma_desc mra = None"
| "no_typed_ext f \<longleftrightarrow> True"

lemma attrs_find_rel:
  assumes "list_all2 R as as'" "\<And>a a'. R a a' \<Longrightarrow> a_desc a = a_desc a'"
  shows "rel_option (list_all2 R) (attrs_find sc as desc) (attrs_find sc as' desc)"
  using assms(1)
proof (induction rule: list_all2_induct)
  case (Cons a as a' as')
  with assms(2) [OF Cons(1)] show ?case
    by (cases "is_ad_subtype sc (a_desc a) desc") auto
qed simp

lemma attrs_loop_rel:
  assumes "list_all2 R as as'" "\<And>a a'. R a a' \<Longrightarrow> a_desc a = a_desc a'" "\<And>a a' s. R a a' \<Longrightarrow> f a s = f' a' s"
  shows "attrs_loop sc desc f as s = attrs_loop sc desc f' as' s"
  using assms(1)
proof (induction "length as" arbitrary: as as' s rule: less_induct)
  case less
  from attrs_find_rel [OF less(2) assms(2)]
  have rel: "rel_option (list_all2 R) (attrs_find sc as desc) (attrs_find sc as' desc)" .
  show ?case
  proof (cases "attrs_find sc as desc")
    case None
    with rel have "attrs_find sc as' desc = None" by simp
    with None show ?thesis by (simp add: attrs_loop.simps)
  next
    case (Some r)
    with rel obtain r' where r': "attrs_find sc as' desc = Some r'" "list_all2 R r r'"
      by (auto simp: option_rel_Some1)
    show ?thesis
    proof (cases r)
      case Nil
      with Some r' show ?thesis by (simp add: attrs_loop.simps)
    next
      case (Cons a as1)
      with r'(2) obtain a' as1' where c: "r' = a' # as1'" "R a a'" "list_all2 R as1 as1'" by (auto simp: list_all2_Cons1)
      have "length as1 < length as" using Some Cons by (auto dest: attrs_find_shorter)
      note ih = less(1) [OF this c(3)]
      show ?thesis
        using assms(3) [OF c(2), of s] ih
        by (subst (1 2) attrs_loop.simps) (simp add: Some Cons r' c split: option.split ctl.split Option.bind_splits)
    qed
  qed
qed

lemma loop_rel:
  assumes "list_all2 R xs xs'" "\<And>x x' s. R x x' \<Longrightarrow> f x s = f' x' s"
  shows "loop f xs s = loop f' xs' s"
  using assms(1)
proof (induction arbitrary: s rule: list_all2_induct)
  case (Cons x xs x' xs')
  then show ?case using assms(2) [OF Cons(1), of s] by (auto split: ctl.split Option.bind_splits)
qed simp

lemma same_visibleD:
  assumes "same_visible op e e'"
  shows "e_name e' = e_name e" "e_nname e' = e_nname e" "access_allowed op e' = access_allowed op e"
    "\<And>h. be_has_subordinates op = Some h \<Longrightarrow> h e' = h e"
    "list_all2 (same_seen (access_allowed op e)) (e_attrs e) (e_attrs e')"
  using assms by (auto simp: same_visible_def)

lemma same_seen_desc: "same_seen acc a a' \<Longrightarrow> a_desc a = a_desc a'"
  by (simp add: same_seen_def)

lemma ava_same:
  assumes "same_visible op e e'"
  shows "test_ava_filter op sc e' ava type = test_ava_filter op sc e ava type"
proof (cases "access_allowed op e (aa_desc ava) (Some (aa_value ava))")
  case True
  note d = same_visibleD [OF assms]
  have "ava_attr op sc e ava type a s = ava_attr op sc e' ava type a' s"
    if "same_seen (access_allowed op e) a a'" for a a' s
  proof (cases "access_allowed op e (a_desc a) (Some (aa_value ava))")
    case True
    with that have "a = a'" by (auto simp: same_seen_def)
    then show ?thesis by (simp add: ava_attr_def d)
  next
    case False
    with \<open>access_allowed op e (aa_desc ava) _\<close> have "aa_desc ava \<noteq> a_desc a" by auto
    with False that show ?thesis by (simp add: ava_attr_def d same_seen_def)
  qed
  note attrs = attrs_loop_rel [OF d(5) same_seen_desc this]
  have "be_has_subordinates op \<noteq> None \<Longrightarrow> the (be_has_subordinates op) e' = the (be_has_subordinates op) e"
    using d(4) by auto
  with attrs True show ?thesis by (simp add: test_ava_filter_def d(2,3) cong: conj_cong if_cong)
qed (simp add: test_ava_filter_def same_visibleD [OF assms])

lemma presence_same:
  assumes "same_visible op e e'"
  shows "test_presence_filter op sc e' desc = test_presence_filter op sc e desc"
proof -
  note d = same_visibleD [OF assms]
  have "presence_attr op e desc a s = presence_attr op e' desc a' s"
    if "same_seen (access_allowed op e) a a'" for a a' s
    using that by (simp add: presence_attr_def d same_seen_def)
  from attrs_loop_rel [OF d(5) same_seen_desc this] show ?thesis by (simp add: test_presence_filter_def d)
qed

lemma substrings_same:
  assumes "same_visible op e e'"
  shows "test_substrings_filter op sc e' sub = test_substrings_filter op sc e sub"
proof (cases "access_allowed op e (sa_desc sub) None")
  case True
  note d = same_visibleD [OF assms]
  have "sub_attr op sc e sub a s = sub_attr op sc e' sub a' s"
    if "same_seen (access_allowed op e) a a'" for a a' s
  proof (cases "access_allowed op e (a_desc a) None")
    case True
    with that have "a = a'" by (auto simp: same_seen_def)
    then show ?thesis by (simp add: sub_attr_def d)
  next
    case False
    with \<open>access_allowed op e (sa_desc sub) None\<close> have "sa_desc sub \<noteq> a_desc a" by auto
    with False that show ?thesis by (simp add: sub_attr_def d same_seen_def)
  qed
  from attrs_loop_rel [OF d(5) same_seen_desc this] True show ?thesis by (simp add: test_substrings_filter_def d)
qed (simp add: test_substrings_filter_def same_visibleD [OF assms])

lemma mra_suits_same: "same_visible op e e' \<Longrightarrow> mra_suits op sc e' mra ad = mra_suits op sc e mra ad"
  using same_visibleD(3) [of op e e'] by (simp add: mra_suits_def cong: if_cong option.case_cong)

lemma mra_suits_access: "mra_suits op sc e mra ad = Some (Some val) \<Longrightarrow> access_allowed op e ad (Some val)"
  by (auto simp: mra_suits_def bind_eq_Some_conv split: option.splits if_splits prod.splits)

lemma mra_same:
  assumes "same_visible op e e'" "ma_desc mra = None"
  shows "test_mra_filter op sc e' mra = test_mra_filter op sc e mra"
proof -
  note d = same_visibleD [OF assms(1)] mra_suits_same [OF assms(1)]
  have "mra_any_attr op sc e mra a s = mra_any_attr op sc e' mra a' s"
    if "same_seen (access_allowed op e) a a'" for a a' s
  proof (cases "mra_suits op sc e mra (a_desc a)")
    case (Some r)
    show ?thesis
    proof (cases r)
      case None
      with Some that show ?thesis by (simp add: mra_any_attr_def d same_seen_def)
    next
      case (Some val)
      with \<open>mra_suits op sc e mra (a_desc a) = Some r\<close> have "access_allowed op e (a_desc a) (Some val)"
        by (auto intro: mra_suits_access)
      with that have "a = a'" by (auto simp: same_seen_def)
      then show ?thesis by (simp add: mra_any_attr_def d)
    qed
  qed (use that in \<open>simp add: mra_any_attr_def d same_seen_def\<close>)
  note attrs = loop_rel [where f = "mra_any_attr op sc e mra" and f' = "mra_any_attr op sc e' mra", OF d(5) this]
  have "mra_ava op sc e' mra = mra_ava op sc e mra" by (simp add: mra_ava_def d assms(2) fun_eq_iff)
  then have "mra_dn op sc e' mra = mra_dn op sc e mra" by (simp add: mra_dn_def d cong: option.case_cong)
  with attrs assms(2) show ?thesis by (simp add: test_mra_filter_def cong: sum.case_cong)
qed

lemma filter_lists_same:
  assumes "\<And>f. f \<in> set fs \<Longrightarrow> test_filter op sc e' f = test_filter op sc e f"
  shows "test_filter_and op sc e' fs rtn = test_filter_and op sc e fs rtn"
    "test_filter_or op sc e' fs rtn = test_filter_or op sc e fs rtn"
proof -
  show "test_filter_and op sc e' fs rtn = test_filter_and op sc e fs rtn"
    using assms by (induction fs arbitrary: rtn) (simp_all cong: if_cong)
  show "test_filter_or op sc e' fs rtn = test_filter_or op sc e fs rtn"
    using assms by (induction fs arbitrary: rtn) (simp_all cong: if_cong)
qed

text \<open>C10. Search access is respected: as long as a filter has no extensible match with an attribute
  type, its result does not depend on the values of attributes for which search access is denied. Two
  entries that agree in all else get the same result.\<close>

theorem filter_hides_denied:
  assumes "same_visible op e e'" "no_typed_ext f"
  shows "test_filter op sc e' f = test_filter op sc e f"
  using assms(2)
  by (induction f)
    (simp_all add: filter_lists_same [where e = e and e' = e'] ava_same [OF assms(1)] presence_same [OF assms(1)] substrings_same [OF assms(1)]
      mra_same [OF assms(1)])

text \<open>A supertype that may be searched and a subtype that may not.\<close>

definition denying_op :: operation where
  "denying_op = \<lparr>access_allowed = (\<lambda>e ad v. ad = 0), be_has_subordinates = None, dnPrettyDN = (\<lambda>s. None)\<rparr>"

definition entry_of :: "attribute list \<Rightarrow> entry" where
  "entry_of as = \<lparr>e_name = ''cn=x'', e_nname = ''cn=x'', e_ocflags = 0, e_attrs = as\<rparr>"

lemma filter_kleene_witness:
  "\<exists>rc. test_filter denying_op octet_schema (entry_of []) (F_and [F_not (F_computed 5), F_or [F_undefined, F_computed 6]]) = Some rc \<and>
     tri_of rc = TrueT"
  using filter_kleene [of "F_and [F_not (F_computed 5), F_or [F_undefined, F_computed 6]]" denying_op octet_schema "entry_of []"]
  by (auto simp: tri_of_def flip_def result_codes min_tri max_tri)

lemma filter_hides_denied_witness:
  "test_filter denying_op octet_schema (entry_of [sorted_attr 1 [''b'']]) (F_equality \<lparr>aa_desc = 0, aa_value = ''a''\<rparr>) =
   test_filter denying_op octet_schema (entry_of [sorted_attr 1 [''a'']]) (F_equality \<lparr>aa_desc = 0, aa_value = ''a''\<rparr>)"
  by (rule filter_hides_denied)
    (simp_all add: same_visible_def same_seen_def denying_op_def entry_of_def)

text \<open>An extensible match with an attribute type reads values it must not: search access is asked
  for the type of the filter only, not for the subtypes it finds in the entry, so the result tells the
  values of a subtype that may not be searched. The equality filter for the same value refuses.\<close>

lemma typed_ext_ignores_access:
  "same_visible denying_op (entry_of [sorted_attr 1 [''a'']]) (entry_of [sorted_attr 1 [''b'']]) \<and>
   test_filter denying_op octet_schema (entry_of [sorted_attr 1 [''a'']])
     (F_ext \<lparr>ma_desc = Some 0, ma_value = ''a'', ma_rule = Some 0, ma_dnattrs = False\<rparr>) = Some LDAP_COMPARE_TRUE \<and>
   test_filter denying_op octet_schema (entry_of [sorted_attr 1 [''b'']])
     (F_ext \<lparr>ma_desc = Some 0, ma_value = ''a'', ma_rule = Some 0, ma_dnattrs = False\<rparr>) = Some LDAP_COMPARE_FALSE \<and>
   test_filter denying_op octet_schema (entry_of [sorted_attr 1 [''a'']])
     (F_equality \<lparr>aa_desc = 0, aa_value = ''a''\<rparr>) = Some LDAP_INSUFFICIENT_ACCESS"
proof (intro conjI)
  show "same_visible denying_op (entry_of [sorted_attr 1 [''a'']]) (entry_of [sorted_attr 1 [''b'']])"
    by (simp add: same_visible_def same_seen_def denying_op_def entry_of_def)
qed (code_simp+)

text \<open>On sorted values the ordering filters look at the first or last value only. The values are sorted
  by the equality rule, which for octet strings compares lengths first, while the ordering rule compares
  octets first: a value below the asserted one is missed, which the same filter finds among unsorted values.\<close>

lemma sorted_ordering_misses:
  "attr_ok ber_bvcmp (sorted_attr 0 [''b'', ''aa'']) \<and>
   test_filter denying_op octet_schema (entry_of [sorted_attr 0 [''b'', ''aa'']])
     (F_le \<lparr>aa_desc = 0, aa_value = ''ab''\<rparr>) = Some LDAP_COMPARE_FALSE \<and>
   test_filter denying_op octet_schema (entry_of [(sorted_attr 0 [''b'', ''aa''])\<lparr>a_flags := 0\<rparr>])
     (F_le \<lparr>aa_desc = 0, aa_value = ''ab''\<rparr>) = Some LDAP_COMPARE_TRUE"
proof (intro conjI)
  show "attr_ok ber_bvcmp (sorted_attr 0 [''b'', ''aa''])"
    by (rule sorted_attr_ok) (simp add: sorted_by_def ber_bvcmp_def)
qed (code_simp+)

section \<open>Equality filters\<close>

lemma loop_search:
  assumes "\<And>x s. x \<in> set xs \<Longrightarrow> body x s = Some (if Q x then Return r else Continue s)"
  shows "loop body xs s = Some (if \<exists>x\<in>set xs. Q x then Inl r else Inr s)"
  using assms by (induction xs) auto

text \<open>When the subtype relation is decided, the loop visits the subtypes in the order of the entry.\<close>

lemma attrs_loop_filter:
  assumes "\<And>a. a \<in> set as \<Longrightarrow> is_ad_subtype sc (a_desc a) desc = Some (P a)"
  shows "attrs_loop sc desc body as s = loop body (filter P as) s"
  using assms
proof (induction as arbitrary: s)
  case Nil
  then show ?case by (simp add: attrs_loop.simps)
next
  case (Cons a as)
  show ?case
  proof (cases "P a")
    case True
    have "attrs_loop sc desc body as = loop body (filter P as)" using Cons by auto
    with True Cons.prems show ?thesis by (subst attrs_loop.simps) simp
  next
    case False
    with Cons.prems have "attrs_loop sc desc body (a # as) s = attrs_loop sc desc body as s"
      by (subst (1 2) attrs_loop.simps) simp
    with False Cons show ?thesis by simp
  qed
qed

lemma equality_attr:
  assumes "matching_order mf" "equality_by sc (a_desc a) mf" "attr_ok mf a"
    "\<not> has (sat_flags (type_of sc (a_desc a))) SLAP_AT_ORDERED" "access_allowed op e (a_desc a) (Some (aa_value ava))"
  shows "ava_attr op sc e ava EQUALITY a s =
    Some (if \<exists>v\<in>set (nvals_of a). mf v (aa_value ava) = 0 then Return LDAP_COMPARE_TRUE else Continue s)"
proof -
  let ?mr = "sat_equality (type_of sc (a_desc a))" let ?val = "aa_value ava"
  let ?fl = "SLAP_MR_EQUALITY OR SLAP_MR_ASSERTED_VALUE_NORMALIZED_MATCH OR SLAP_MR_ATTRIBUTE_VALUE_NORMALIZED_MATCH"
  have mr: "?mr \<noteq> None" using assms(2) by (auto simp: equality_by_def)
  have fl: "searched_as_is sc (a_desc a) ?fl" "\<not> has ?fl SLAP_MR_ORDERING"
    "SLAP_MR_EQUALITY \<noteq> SLAP_MR_ORDERING" by (simp_all add: searched_as_is_def masks)
  show ?thesis
  proof (cases "has (a_flags a) SLAP_ATTR_SORTED_VALS")
    case True
    obtain rc i where r: "attr_valfind sc a ?fl ?val = Some (rc, Some i)"
      "if rc = LDAP_SUCCESS then i < length (nvals_of a) \<and> mf (nvals_of a ! i) ?val = 0
       else rc = LDAP_NO_SUCH_ATTRIBUTE \<and> (\<forall>j<length (nvals_of a). mf (nvals_of a ! j) ?val \<noteq> 0)"
      using valfind_sorted [OF assms(1-3) True fl(1,2), of ?val]
      by (metis (no_types, lifting) linorder_le_less_linear order_less_irrefl)
    then have "rc = LDAP_SUCCESS \<longleftrightarrow> (\<exists>v\<in>set (nvals_of a). mf v ?val = 0)"
      by (auto simp: in_set_conv_nth split: if_splits intro: bexI [OF _ nth_mem])
    with r True mr fl(3) assms(5) show ?thesis
      by (auto simp: ava_attr_def ava_rule_def ava_sorted_def split: if_splits)
  next
    case False
    have "loop (ava_value sc (a_desc a) ?mr SLAP_MR_EQUALITY EQUALITY ?val) (nvals_of a) s =
        Some (if \<exists>v\<in>set (nvals_of a). mf v ?val = 0 then Inl LDAP_COMPARE_TRUE else Inr s)"
      by (rule loop_search) (simp add: ava_value_def ordered_value_match_by [OF assms(2,4)] hit_def)
    with False mr assms(5) show ?thesis by (auto simp: ava_attr_def ava_rule_def)
  qed
qed

text \<open>C11. An equality filter finds the value: with search access granted, it is true exactly when some
  attribute of the entry that is a subtype of the asserted description has a value the equality rule
  takes for equal, and false otherwise, whether the values are sorted and searched by bisection or not.\<close>

theorem equality_filter_correct:
  assumes "matching_order mf" "\<And>ad v. access_allowed op e ad v"
    "\<And>a. a \<in> set (e_attrs e) \<Longrightarrow> is_ad_subtype sc (a_desc a) (aa_desc ava) = Some (sub a)"
    "\<And>a. a \<in> set (e_attrs e) \<Longrightarrow> sub a \<Longrightarrow> equality_by sc (a_desc a) mf \<and> attr_ok mf a \<and>
       \<not> has (sat_flags (type_of sc (a_desc a))) SLAP_AT_ORDERED"
    "aa_desc ava \<noteq> si_ad_hasSubordinates sc" "aa_desc ava \<noteq> si_ad_entryDN sc"
  shows "test_filter op sc e (F_equality ava) =
    Some (if \<exists>a\<in>set (e_attrs e). sub a \<and> (\<exists>v\<in>set (nvals_of a). mf v (aa_value ava) = 0)
          then LDAP_COMPARE_TRUE else LDAP_COMPARE_FALSE)"
proof -
  have "loop (ava_attr op sc e ava EQUALITY) (filter sub (e_attrs e)) LDAP_COMPARE_FALSE =
      Some (if \<exists>a\<in>set (filter sub (e_attrs e)). \<exists>v\<in>set (nvals_of a). mf v (aa_value ava) = 0
            then Inl LDAP_COMPARE_TRUE else Inr LDAP_COMPARE_FALSE)"
    using assms(2,4) by (intro loop_search equality_attr [OF assms(1)]) auto
  then show ?thesis
    using assms(2,5,6) by (auto simp: test_ava_filter_def result_def attrs_loop_filter [OF assms(3)])
qed

lemma equality_filter_correct_witness:
  "test_filter \<lparr>access_allowed = (\<lambda>e ad v. True), be_has_subordinates = None, dnPrettyDN = (\<lambda>s. None)\<rparr> octet_schema
     (entry_of [sorted_attr 1 [''b'', ''aa'']]) (F_equality \<lparr>aa_desc = 0, aa_value = ''aa''\<rparr>) = Some LDAP_COMPARE_TRUE"
proof -
  have sub: "is_ad_subtype octet_schema 1 0 = Some True" by code_simp
  have "attr_ok ber_bvcmp (sorted_attr 1 [''b'', ''aa''])"
    by (rule sorted_attr_ok) (simp add: sorted_by_def ber_bvcmp_def)
  moreover have "si_ad_hasSubordinates octet_schema = 11" "si_ad_entryDN octet_schema = 10"
    by (simp_all add: octet_schema_def)
  ultimately show ?thesis
    using sub by (subst equality_filter_correct [OF octet.matching_order_axioms, where sub = "\<lambda>a. True"])
      (auto simp: entry_of_def equality_by_octet type_of_octet octet_type_def masks octet.mf_refl)
qed

section \<open>Extensible matches with a type\<close>

text \<open>The values of an attribute that a rule compares: the normalised ones, if it is the equality rule of the attribute,
  otherwise those that the rule can normalise.\<close>

definition compared :: "schema \<Rightarrow> nat \<Rightarrow> attribute \<Rightarrow> string set" where
  "compared sc m a = (if sat_equality (type_of sc (a_desc a)) = Some m then set (nvals_of a)
     else {nv. \<exists>v\<in>set (vals_of a). mra_normal sc m v = Inr nv})"

lemma mra_value_normal:
  assumes "\<And>v. value_match sc ad (Some m) SLAP_MR_EXT v (Value val) = Some (LDAP_SUCCESS, Some (mf v))"
  shows "mra_value sc ad (Some m) val True v u =
    Some (if \<exists>nv. mra_normal sc m v = Inr nv \<and> mf nv = 0 then Return LDAP_COMPARE_TRUE else Continue ())"
  using assms by (auto simp: mra_value_def mra_compare_def split: sum.splits)

lemma mra_attr_search:
  assumes "\<And>v. value_match sc (a_desc a) (Some m) SLAP_MR_EXT v (Value val) = Some (LDAP_SUCCESS, Some (mf v))"
  shows "mra_attr sc (Some m) val a u = Some (if \<exists>v\<in>compared sc m a. mf v = 0 then Return LDAP_COMPARE_TRUE else Continue ())"
proof (cases "sat_equality (type_of sc (a_desc a)) = Some m")
  case True
  have "loop (mra_value sc (a_desc a) (Some m) val False) (nvals_of a) () =
      Some (if \<exists>v\<in>set (nvals_of a). mf v = 0 then Inl LDAP_COMPARE_TRUE else Inr ())"
    by (rule loop_search) (simp add: mra_value_def mra_compare_def assms)
  with True show ?thesis by (auto simp: mra_attr_def compared_def)
next
  case False
  have "loop (mra_value sc (a_desc a) (Some m) val True) (vals_of a) () =
      Some (if \<exists>v\<in>set (vals_of a). \<exists>nv. mra_normal sc m v = Inr nv \<and> mf nv = 0 then Inl LDAP_COMPARE_TRUE else Inr ())"
    by (rule loop_search) (simp add: mra_value_normal [OF assms])
  with False show ?thesis by (auto simp: mra_attr_def compared_def)
qed

text \<open>C40. An extensible match with an attribute type finds the value, in the attributes and, if the filter asks for it, in the
  name: with search access to the type of the filter granted, it is true exactly when some attribute of the entry that is a subtype
  of it has a value the rule takes for equal, or an element of the name does. Access to the subtypes has no part in it (see
  typed_ext_ignores_access).\<close>

theorem typed_ext_filter_correct:
  assumes "ma_desc mra = Some desc" "ma_rule mra = Some m" "access_allowed op e desc (Some (ma_value mra))" "desc \<noteq> si_ad_entryDN sc"
    "\<And>ad. ad \<in> a_desc ` set (e_attrs e) \<union> fst ` set (concat dn) \<Longrightarrow> is_ad_subtype sc ad desc = Some (sub ad)"
    "\<And>ad v. sub ad \<Longrightarrow> value_match sc ad (Some m) SLAP_MR_EXT v (Value (ma_value mra)) = Some (LDAP_SUCCESS, Some (mf v))"
    "if ma_dnattrs mra \<and> e_nname e \<noteq> [] then dnPrettyDN op (e_name e) = Some dn else dn = []"
  shows "test_filter op sc e (F_ext mra) =
    Some (if (\<exists>a\<in>set (e_attrs e). sub (a_desc a) \<and> (\<exists>v\<in>compared sc m a. mf v = 0)) \<or>
             (\<exists>(ad, v)\<in>set (concat dn). sub ad \<and> (\<exists>nv. mra_normal sc m v = Inr nv \<and> mf nv = 0))
          then LDAP_COMPARE_TRUE else LDAP_COMPARE_FALSE)"
proof -
  let ?A = "\<exists>a\<in>set (filter (\<lambda>a. sub (a_desc a)) (e_attrs e)). \<exists>v\<in>compared sc m a. mf v = 0"
  let ?D = "\<lambda>(ad, v). sub ad \<and> (\<exists>nv. mra_normal sc m v = Inr nv \<and> mf nv = 0)"
  have subs: "is_ad_subtype sc (a_desc a) desc = Some (sub (a_desc a))" if "a \<in> set (e_attrs e)" for a using assms(5) that by simp
  have "loop (mra_attr sc (Some m) (ma_value mra)) (filter (\<lambda>a. sub (a_desc a)) (e_attrs e)) () = Some (if ?A then Inl LDAP_COMPARE_TRUE else Inr ())"
    using mra_attr_search [OF assms(6)] by (intro loop_search) auto
  then have attrs: "attrs_loop sc desc (mra_attr sc (Some m) (ma_value mra)) (e_attrs e) () = Some (if ?A then Inl LDAP_COMPARE_TRUE else Inr ())"
    by (simp add: attrs_loop_filter [of "e_attrs e", OF subs])
  have "loop (mra_ava op sc e mra) (concat dn) () = Some (if \<exists>p\<in>set (concat dn). ?D p then Inl LDAP_COMPARE_TRUE else Inr ())"
  proof (rule loop_search)
    fix p s assume p: "p \<in> set (concat dn)"
    obtain ad v where v: "p = (ad, v)" by (cases p)
    have "is_ad_subtype sc ad desc = Some (sub ad)" using assms(5) p v by force
    then show "mra_ava op sc e mra p s = Some (if ?D p then Return LDAP_COMPARE_TRUE else Continue s)"
      using mra_value_normal [OF assms(6)] assms(1,2) by (auto simp: mra_ava_def v)
  qed
  then have "mra_dn op sc e mra = Some (if \<exists>p\<in>set (concat dn). ?D p then LDAP_COMPARE_TRUE else LDAP_COMPARE_FALSE)"
    using assms(7) by (auto simp: mra_dn_def split: if_splits)
  then show ?thesis using assms(1-4) attrs by (cases ?A) (auto simp: test_mra_filter_def)
qed

lemma typed_ext_filter_correct_witness:
  "test_filter denying_op octet_schema (entry_of [sorted_attr 1 [''b'', ''aa'']])
     (F_ext \<lparr>ma_desc = Some 0, ma_value = ''aa'', ma_rule = Some 0, ma_dnattrs = False\<rparr>) = Some LDAP_COMPARE_TRUE"
proof -
  have sub: "is_ad_subtype octet_schema 1 0 = Some True" by code_simp
  have "si_ad_entryDN octet_schema = 10" by (simp add: octet_schema_def)
  moreover have "''aa'' \<in> compared octet_schema 0 (sorted_attr 1 [''b'', ''aa''])" by (simp add: compared_def type_of_octet octet_type_def nvals_of_def vals_of_def sorted_attr_def)
  moreover have "ber_bvcmp ''aa'' ''aa'' = 0" by (rule octet.mf_refl)
  moreover have "value_match octet_schema ad (Some 0) SLAP_MR_EXT v (Value w) = Some (LDAP_SUCCESS, Some (ber_bvcmp v w))" for ad v w
    by (simp add: value_match_def mr_octet octet_rule_def octetStringMatch_cmp)
  ultimately show ?thesis
    using sub by (subst typed_ext_filter_correct [where sub = "\<lambda>a. True" and dn = "[]" and mf = "\<lambda>v. ber_bvcmp v ''aa''"])
      (auto simp: entry_of_def denying_op_def)
qed

section \<open>The test always returns\<close>

text \<open>A match function that succeeds has written its verdict.\<close>

definition writes :: "schema \<Rightarrow> nat option \<Rightarrow> (string \<Rightarrow> assertion) \<Rightarrow> bool" where
  "writes sc mr asserted \<longleftrightarrow>
     (\<forall>m f flags syn v w. mr = Some m \<longrightarrow> smr_match (mr_store sc m) = Some f \<longrightarrow>
        fst (f flags syn v (asserted w)) = LDAP_SUCCESS \<longrightarrow> snd (f flags syn v (asserted w)) \<noteq> None)"

definition schema_ok :: "schema \<Rightarrow> bool" where
  "schema_ok sc \<longleftrightarrow>
     (\<forall>sub super. is_ad_subtype sc sub super \<noteq> None) \<and> (\<forall>m ad. mr_usable_with_at sc m (type_of sc ad) \<noteq> None) \<and>
     (\<forall>ad. let sat = type_of sc ad in
        writes sc (sat_equality sat) Value \<and> writes sc (sat_approx sat) Value \<and> writes sc (sat_ordering sat) Value \<and>
        (\<forall>sub. writes sc (sat_substr sat) (\<lambda>w. Substrings sub))) \<and>
     sat_equality (type_of sc (si_ad_entryDN sc)) \<noteq> None"

definition entry_ok :: "entry \<Rightarrow> bool" where
  "entry_ok e \<longleftrightarrow> (\<forall>a\<in>set (e_attrs e). has (a_flags a) SLAP_ATTR_SORTED_VALS \<longrightarrow>
     0 < a_numvals a \<and> a_numvals a = length (nvals_of a))"

fun filter_ok :: "schema \<Rightarrow> ldap_filter \<Rightarrow> bool" where
  "filter_ok sc (F_and fs) \<longleftrightarrow> (\<forall>f\<in>set fs. filter_ok sc f)"
| "filter_ok sc (F_or fs) \<longleftrightarrow> (\<forall>f\<in>set fs. filter_ok sc f)"
| "filter_ok sc (F_not f) \<longleftrightarrow> filter_ok sc f"
| "filter_ok sc (F_ext mra) \<longleftrightarrow> ma_rule mra \<noteq> None \<and> writes sc (ma_rule mra) Value"
| "filter_ok sc f \<longleftrightarrow> True"

lemma schema_okD:
  assumes "schema_ok sc"
  shows "is_ad_subtype sc sub super \<noteq> None" "mr_usable_with_at sc m (type_of sc ad) \<noteq> None"
    "writes sc (sat_equality (type_of sc ad)) Value" "writes sc (sat_approx (type_of sc ad)) Value"
    "writes sc (sat_ordering (type_of sc ad)) Value" "writes sc (sat_substr (type_of sc ad)) (\<lambda>w. Substrings sub')"
    "sat_equality (type_of sc (si_ad_entryDN sc)) \<noteq> None"
  using assms unfolding schema_ok_def Let_def by blast+

abbreviation returns :: "'a option \<Rightarrow> bool" where
  "returns m \<equiv> runs m (\<lambda>x. True)"

lemma returns_iff: "returns m \<longleftrightarrow> m \<noteq> None"
  by (simp add: runs_def)

text \<open>A comparison returns, and has written its verdict when it succeeds.\<close>

abbreviation compares :: "(int \<times> int option) option \<Rightarrow> bool" where
  "compares r \<equiv> runs r (\<lambda>x. fst x = LDAP_SUCCESS \<longrightarrow> snd x \<noteq> None)"

lemma value_match_compares:
  assumes "mr \<noteq> None" "writes sc mr asserted"
  shows "compares (value_match sc ad mr flags v (asserted w))"
  using assms by (auto simp: value_match_def writes_def wp result_codes split: option.split)

lemma ordered_value_match_compares:
  assumes "writes sc mr Value"
  shows "compares (ordered_value_match sc ad mr flags v w)"
proof (cases "mr = None")
  case True
  then show ?thesis by (auto simp: ordered_value_match_def Let_def wp split: prod.split option.split)
next
  case False
  have "compares (map_option (\<lambda>(rc, m). (rc, if m = None then x else m)) (value_match sc ad mr flags v1 (Value w1)))" for x v1 w1
    using value_match_compares [where asserted = Value, OF False assms, of ad flags v1 w1]
    by (auto simp: wp split: prod.split elim!: runs_mono)
  then show ?thesis by (auto simp: ordered_value_match_def Let_def wp split: prod.split option.split)
qed

lemma compares_returns: "compares r \<Longrightarrow> returns r"
  by (erule runs_mono) simp

text \<open>What the bodies do with a comparison.\<close>

lemma compare_returns:
  assumes "compares r"
  shows "returns (do { (ret, m) \<leftarrow> r; if ret \<noteq> LDAP_SUCCESS then Some (k ret) else do { match \<leftarrow> m; Some (g match) } })"
  using assms by (auto simp: wp elim!: runs_mono)

lemma bin_search_returns:
  assumes "\<And>v. returns (vm v)"
  shows "0 < n \<Longrightarrow> base + n \<le> length nvs \<Longrightarrow> returns (bin_search vm nvs base n match)"
proof (induction n arbitrary: base match rule: less_induct)
  case (less n)
  have "base + n div 2 < length nvs" using less.prems by auto
  moreover obtain rc m where "vm (nvs ! (base + n div 2)) = Some (rc, m)"
    using assms [of "nvs ! (base + n div 2)"] by (auto simp: runs_def)
  ultimately show ?case
    using less.prems by (subst bin_search.simps) (auto simp: Let_def wp intro!: less.IH)
qed

lemma lin_search_returns:
  assumes "\<And>v. returns (vm v)"
  shows "returns (lin_search vm vs i rc match)"
proof (induction vs arbitrary: i rc match)
  case (Cons v vs)
  obtain rc m where "vm v = Some (rc, m)" using assms [of v] by (auto simp: runs_def)
  with Cons show ?case by (auto simp: Let_def wp)
qed (simp add: wp)

lemma loop_returns: "(\<And>x s. x \<in> set xs \<Longrightarrow> returns (body x s)) \<Longrightarrow> returns (loop body xs s)"
proof (induction xs arbitrary: s)
  case (Cons x xs)
  then have "returns (body x s)" by simp
  with Cons show ?case by (auto simp: wp elim!: runs_mono split: ctl.split)
qed (simp add: wp)

lemma attrs_loop_returns:
  assumes "\<And>sub super. is_ad_subtype sc sub super \<noteq> None" "\<And>a s. a \<in> set as \<Longrightarrow> returns (body a s)"
  shows "returns (attrs_loop sc desc body as s)"
proof -
  have "attrs_loop sc desc body as s = loop body (filter (\<lambda>a. the (is_ad_subtype sc (a_desc a) desc)) as) s"
    using assms(1) by (intro attrs_loop_filter) auto
  moreover have "returns (loop body (filter (\<lambda>a. the (is_ad_subtype sc (a_desc a) desc)) as) s)"
    using assms(2) by (intro loop_returns) auto
  ultimately show ?thesis by simp
qed


lemma attr_valfind_returns:
  assumes "sat_equality (type_of sc (a_desc a)) \<noteq> None" "writes sc (sat_equality (type_of sc (a_desc a))) Value"
    "has flags SLAP_MR_ASSERTED_VALUE_NORMALIZED_MATCH" "\<not> has flags SLAP_MR_ORDERING"
    "a_numvals a = length (nvals_of a)"
  shows "returns (attr_valfind sc a flags val)"
proof -
  let ?mr = "sat_equality (type_of sc (a_desc a))"
  have vm: "returns (value_match sc (a_desc a) ?mr flags v (Value val))"
      "returns (ordered_value_match sc (a_desc a) ?mr flags v val)" for v
    by (rule compares_returns, rule value_match_compares [OF assms(1,2)] ordered_value_match_compares [OF assms(2)])+
  note search = bin_search_returns [of "\<lambda>v. value_match sc (a_desc a) ?mr flags v (Value val)", OF vm(1), of "length (nvals_of a)" 0]
    lin_search_returns [of "\<lambda>v. ordered_value_match sc (a_desc a) ?mr flags v val", OF vm(2)]
  show ?thesis
    using assms(3-5) search
    by (auto simp: attr_valfind_def search_value_def Let_def wp case_prod_beta)
qed

lemma ava_attr_returns:
  assumes "schema_ok sc" "has (a_flags a) SLAP_ATTR_SORTED_VALS \<longrightarrow> 0 < a_numvals a \<and> a_numvals a = length (nvals_of a)"
  shows "returns (ava_attr op sc e ava type a rc)"
proof -
  obtain use mr where um: "ava_rule (type_of sc (a_desc a)) type = (use, mr)" by force
  have w: "writes sc mr Value"
    using um schema_okD(3-5) [OF assms(1), of "a_desc a"] by (auto simp: ava_rule_def split: ava_type.splits option.splits)
  have unsorted: "returns (loop (ava_value sc (a_desc a) mr use type (aa_value ava)) (nvals_of a) rc)"
    unfolding ava_value_def by (intro loop_returns compare_returns ordered_value_match_compares w)
  have srt: "returns (ava_sorted sc a mr use type (aa_value ava) rc)"
    if s: "has (a_flags a) SLAP_ATTR_SORTED_VALS" and m: "mr \<noteq> None" and t: "type \<noteq> APPROX"
  proof (cases "use = SLAP_MR_ORDERING")
    case True
    have "returns (do { (ret, m) \<leftarrow> value_match sc (a_desc a) mr use v (Value (aa_value ava));
        if ret \<noteq> LDAP_SUCCESS then Some (Return ret)
        else do { match \<leftarrow> m; Some (if hit type match then Return LDAP_COMPARE_TRUE else Continue rc) } })" for v
      by (rule compare_returns) (rule value_match_compares [OF m w])
    with True s assms(2) show ?thesis by (auto simp: ava_sorted_def Let_def runs_bind [of "ensure _"] runs_ensure)
  next
    case False
    then have eq: "use = SLAP_MR_EQUALITY" "mr = sat_equality (type_of sc (a_desc a))"
      using um t by (auto simp: ava_rule_def split: ava_type.splits)
    have "returns (attr_valfind sc a (use OR SLAP_MR_ASSERTED_VALUE_NORMALIZED_MATCH OR SLAP_MR_ATTRIBUTE_VALUE_NORMALIZED_MATCH) (aa_value ava))"
      using m w s assms(2) by (intro attr_valfind_returns) (auto simp: eq masks)
    with False show ?thesis by (auto simp: ava_sorted_def wp case_prod_beta elim!: runs_mono)
  qed
  show ?thesis using um unsorted srt by (auto simp: ava_attr_def wp)
qed

lemma match_result_returns: "compares r \<Longrightarrow> returns (match_result r)"
  unfolding match_result_def by (rule compare_returns)

lemma result_returns: "returns r \<Longrightarrow> returns (result r)"
  by (simp add: result_def wp)

lemma test_ava_returns:
  assumes "schema_ok sc" "entry_ok e"
  shows "returns (test_ava_filter op sc e ava type)"
proof -
  have "returns (result (attrs_loop sc (aa_desc ava) (ava_attr op sc e ava type) (e_attrs e) LDAP_COMPARE_FALSE))"
    using assms(2) by (intro result_returns attrs_loop_returns schema_okD(1) ava_attr_returns assms(1)) (auto simp: entry_ok_def)
  moreover have "returns (match_result (value_match sc (si_ad_entryDN sc) (sat_equality (type_of sc (si_ad_entryDN sc))) SLAP_MR_EXT
      (e_nname e) (Value (aa_value ava))))"
    by (intro match_result_returns value_match_compares schema_okD assms(1))
  ultimately show ?thesis by (auto simp: test_ava_filter_def wp split: prod.split)
qed

lemma test_presence_returns:
  assumes "schema_ok sc"
  shows "returns (test_presence_filter op sc e desc)"
proof -
  have "returns (result (attrs_loop sc desc (presence_attr op e desc) (e_attrs e) LDAP_COMPARE_FALSE))"
    by (intro result_returns attrs_loop_returns schema_okD(1) assms) (simp add: presence_attr_def wp)
  then show ?thesis by (simp add: test_presence_filter_def wp)
qed

lemma test_substrings_returns:
  assumes "schema_ok sc"
  shows "returns (test_substrings_filter op sc e sub)"
proof -
  have "returns (sub_attr op sc e sub a rc)" for a rc
  proof (cases "sat_substr (type_of sc (a_desc a)) = None")
    case False
    have "returns (loop (sub_value sc (a_desc a) (sat_substr (type_of sc (a_desc a))) sub) (nvals_of a) rc)"
      unfolding sub_value_def
      by (intro loop_returns compare_returns value_match_compares [where asserted = "\<lambda>w. Substrings sub"] False schema_okD(6) assms)
    then show ?thesis by (simp add: sub_attr_def Let_def wp)
  qed (simp add: sub_attr_def wp)
  then have "returns (result (attrs_loop sc (sa_desc sub) (sub_attr op sc e sub) (e_attrs e) LDAP_COMPARE_FALSE))"
    by (intro result_returns attrs_loop_returns schema_okD(1) assms)
  then show ?thesis by (simp add: test_substrings_filter_def wp)
qed

lemma asserted_value_returns:
  "runs (asserted_value_validate_normalize sc ad mr (SLAP_MR_EXT OR SLAP_MR_VALUE_OF_ASSERTION_SYNTAX) v)
     (\<lambda>x. fst x = LDAP_SUCCESS \<longrightarrow> snd x \<noteq> None)"
proof -
  have "\<not> has (SLAP_MR_EXT OR SLAP_MR_VALUE_OF_ASSERTION_SYNTAX) SLAP_MR_VALUE_OF_ATTRIBUTE_SYNTAX" by (simp add: masks)
  then show ?thesis
    by (auto simp: asserted_value_validate_normalize_def Let_def wp result_codes split: option.split prod.split)
qed

lemma mra_suits_returns:
  assumes "schema_ok sc" "ma_rule mra = Some m"
  shows "returns (mra_suits op sc e mra ad)"
proof -
  have "returns (mr_usable_with_at sc m (type_of sc ad))" using schema_okD(2) [OF assms(1)] by (simp add: returns_iff)
  moreover note asserted_value_returns [of sc "Some ad" "Some m" "ma_value mra"]
  ultimately show ?thesis by (auto simp: mra_suits_def assms(2) wp elim!: runs_mono)
qed

lemma mra_value_returns:
  assumes "ma_rule mra \<noteq> None" "writes sc (ma_rule mra) Value"
  shows "returns (mra_value sc ad (ma_rule mra) val norm v u)"
proof -
  have "returns (mra_compare sc ad (ma_rule mra) val nv)" for nv
    unfolding mra_compare_def by (intro compare_returns value_match_compares assms)
  then show ?thesis using assms(1) by (auto simp: mra_value_def wp split: sum.split)
qed

lemma mra_attr_returns:
  assumes "ma_rule mra \<noteq> None" "writes sc (ma_rule mra) Value"
  shows "returns (mra_attr sc (ma_rule mra) val a u)"
  unfolding mra_attr_def Let_def runs_map_option by (intro loop_returns mra_value_returns assms)

lemma mra_dn_returns:
  assumes "schema_ok sc" "ma_rule mra \<noteq> None" "writes sc (ma_rule mra) Value"
  shows "returns (mra_dn op sc e mra)"
proof -
  have "returns (mra_ava op sc e mra ava u)" for ava u
  proof -
    have "returns (case ma_desc mra of
        Some desc \<Rightarrow> map_option (\<lambda>sub. if sub then Some (ma_value mra) else None) (is_ad_subtype sc (fst ava) desc)
      | None \<Rightarrow> mra_suits op sc e mra (fst ava))"
      using schema_okD(1) [OF assms(1)] mra_suits_returns [OF assms(1)] assms(2) by (auto simp: wp returns_iff split: option.split)
    then show ?thesis
      using mra_value_returns [OF assms(2,3)]
      by (auto simp: mra_ava_def wp case_prod_beta split: option.split elim!: runs_mono)
  qed
  then show ?thesis by (auto simp: mra_dn_def wp loop_returns split: option.split)
qed

lemma test_mra_returns:
  assumes "schema_ok sc" "ma_rule mra \<noteq> None" "writes sc (ma_rule mra) Value"
  shows "returns (test_mra_filter op sc e mra)"
proof (cases "ma_desc mra")
  case None
  have "returns (mra_any_attr op sc e mra a u)" for a u
    using mra_suits_returns [OF assms(1)] assms(2) mra_attr_returns [OF assms(2,3)]
    by (auto simp: mra_any_attr_def wp split: option.split elim!: runs_mono)
  then have "returns (loop (mra_any_attr op sc e mra) (e_attrs e) ())" by (rule loop_returns)
  with None mra_dn_returns [OF assms] show ?thesis
    by (auto simp: test_mra_filter_def wp split: sum.split elim!: runs_mono)
next
  case (Some desc)
  have "returns (attrs_loop sc desc (mra_attr sc (ma_rule mra) (ma_value mra)) (e_attrs e) ())"
    by (intro attrs_loop_returns schema_okD(1) mra_attr_returns assms)
  moreover have "returns (match_result (value_match sc (si_ad_entryDN sc) (ma_rule mra) SLAP_MR_EXT (e_nname e) (Value (ma_value mra))))"
    by (intro match_result_returns value_match_compares assms)
  ultimately show ?thesis
    using Some mra_dn_returns [OF assms] by (auto simp: test_mra_filter_def wp split: sum.split elim!: runs_mono)
qed

lemma filter_lists_return:
  assumes "\<And>f. f \<in> set fs \<Longrightarrow> returns (test_filter op sc e f)"
  shows "returns (test_filter_and op sc e fs rtn)" "returns (test_filter_or op sc e fs rtn)"
proof -
  show "returns (test_filter_and op sc e fs rtn)"
    using assms by (induction fs arbitrary: rtn) (auto simp: wp elim!: runs_mono)
  show "returns (test_filter_or op sc e fs rtn)"
    using assms by (induction fs arbitrary: rtn) (auto simp: wp elim!: runs_mono)
qed

text \<open>Testing a filter returns: with acyclic type and syntax hierarchies, match functions that write
  their verdict, sorted attributes that have values and a rule in every extensible match, no null
  pointer, uninitialised verdict or value outside an array is read.\<close>

lemma test_filter_returns:
  assumes "schema_ok sc" "entry_ok e" "filter_ok sc f"
  shows "\<exists>rc. test_filter op sc e f = Some rc"
proof -
  have "returns (test_filter op sc e f)"
    using assms(3)
    by (induction f)
      (simp_all add: wp filter_lists_return test_ava_returns assms(1,2) test_presence_returns test_substrings_returns test_mra_returns)
  then show ?thesis by (simp add: returns_iff)
qed

lemma any_loop_writes: "compares (Some (any_loop as inlen left m))"
proof (induction as inlen left m rule: any_loop.induct)
  case (2 a as inlen left m)
  note ih = "2.IH" [unfolded runs_Some]
  show ?case
    by (subst any_loop.simps) (use ih in \<open>auto simp: wp result_codes Let_def split: option.split\<close>)
qed (simp add: wp)

lemma substrings_writes:
  "fst (octetStringSubstringsMatch flags syn v (Substrings sub)) = LDAP_SUCCESS \<Longrightarrow>
   snd (octetStringSubstringsMatch flags syn v (Substrings sub)) \<noteq> None"
  using any_loop_writes [unfolded runs_Some]
  by (simp add: octetStringSubstringsMatch_def Let_def split: sum.splits prod.splits)

lemma octet_subtype: "is_ad_subtype octet_schema sub super \<noteq> None"
  by (simp add: is_ad_subtype_def octet_schema_def octet_type_def numeral_3_eq_3 Let_def) blast

lemma octet_usable: "mr_usable_with_at octet_schema m (type_of octet_schema ad) \<noteq> None"
  by (simp add: mr_usable_with_at_def mr_octet octet_rule_def type_of_octet octet_type_def masks Let_def)

lemma schema_ok_octet: "schema_ok octet_schema"
  unfolding schema_ok_def Let_def
proof (intro conjI allI)
  fix m ad sub super
  show "is_ad_subtype octet_schema sub super \<noteq> None" by (rule octet_subtype)
  show "mr_usable_with_at octet_schema m (type_of octet_schema ad) \<noteq> None" by (rule octet_usable)
qed (use substrings_writes in \<open>auto simp: type_of_octet octet_type_def writes_def mr_octet octet_rule_def
      octetStringMatch_cmp octetStringOrderingMatch_def Let_def\<close>)

lemma test_filter_returns_witness:
  "\<exists>rc. test_filter denying_op octet_schema (entry_of [sorted_attr 0 [''b'', ''aa'']])
     (F_or [F_le \<lparr>aa_desc = 0, aa_value = ''ab''\<rparr>, F_not (F_present 1)]) = Some rc"
  by (rule test_filter_returns [OF schema_ok_octet])
    (simp_all add: entry_ok_def entry_of_def)

end
