(* ===== verification/Ordered_Values.thy ===== *)
theory Ordered_Values
  imports Entry_Attr
begin

text \<open>
  Attributes whose values carry an order index (X-ORDERED), \<^verbatim>\<open>servers/slapd/value.c\<close>: renumbering,
  sorting, adding and the wrappers that take the index away before a syntax or a rule sees the value.
\<close>

section \<open>Definitions\<close>

definition SLAP_AT_ORDERED_VAL :: slap_mask where "SLAP_AT_ORDERED_VAL = 0x0001"

text \<open>The index as it is printed, and the value without an index; a brace that is never closed fails
  the assertion.\<close>

definition index_prefix :: "nat \<Rightarrow> string" where
  "index_prefix i = ''{'' @ digits_of 10 (int i) @ ''}''"

definition strip_index :: "string \<Rightarrow> string option" where
  "strip_index v =
     (if byte v 0 = CHR ''{'' then map_option (\<lambda>p. drop (p + 1) v) (memchr v CHR ''}'') else Some v)"

fun renumber_from :: "nat \<Rightarrow> nat \<Rightarrow> string list \<Rightarrow> string list option" where
  "renumber_from i n [] = (if i < n then None else Some [])"
| "renumber_from i n (v # vs) =
     (if n \<le> i then Some (v # vs)
      else do { w \<leftarrow> strip_index v; ws \<leftarrow> renumber_from (i + 1) n vs; Some ((index_prefix i @ w) # ws) })"

definition ordered_value_renumber :: "attribute \<Rightarrow> attribute option" where
  "ordered_value_renumber a = do {
     vs \<leftarrow> renumber_from 0 (a_numvals a) (vals_of a);
     nvs \<leftarrow> (case a_nvals a of
               Shared \<Rightarrow> Some Shared
             | Own nvs \<Rightarrow> map_option Own (renumber_from 0 (a_numvals a) nvs));
     Some (a\<lparr>a_vals := map_option (\<lambda>_. vs) (a_vals a), a_nvals := nvs\<rparr>) }"

text \<open>\<^verbatim>\<open>strtol(s, &end, 0)\<close>, which takes the base from the prefix, stored into an \<^verbatim>\<open>int\<close>.\<close>

definition strtol_base :: "string \<Rightarrow> int" where
  "strtol_base s =
     (let s1 = dropWhile isspace s;
          s2 = (if s1 \<noteq> [] \<and> hd s1 \<in> {CHR ''-'', CHR ''+''} then tl s1 else s1)
      in if length s2 > 2 \<and> s2 ! 0 = CHR ''0'' \<and> s2 ! 1 \<in> {CHR ''x'', CHR ''X''} \<and> digit_below 16 (s2 ! 2) then 16
         else if s2 \<noteq> [] \<and> hd s2 = CHR ''0'' then 8 else 10)"

definition strtol_int :: "string \<Rightarrow> int \<times> nat" where
  "strtol_int s =
     (let (v, n) = strtol (strtol_base s) s in (int32 (max (- (2 ^ 63)) (min v (2 ^ 63 - 1))), n))"

text \<open>The scan for indexes: whether the values have one, or \<open>None\<close> for a syntax error.\<close>

fun index_scan :: "bool \<Rightarrow> bool \<Rightarrow> string list \<Rightarrow> bool option" where
  "index_scan index noindex [] = Some index"
| "index_scan index noindex (v # vs) =
     (if byte v 0 = CHR ''{''
      then if memchr v CHR ''}'' = None \<or> noindex then None else index_scan True noindex vs
      else if index then None else index_scan index True vs)"

definition value_index :: "string \<Rightarrow> int option" where
  "value_index v =
     (let (k, n) = strtol_int (drop 1 v) in if byte (drop 1 v) n = CHR ''}'' then Some k else None)"

fun value_indexes :: "string list \<Rightarrow> int list option" where
  "value_indexes [] = Some []"
| "value_indexes (v # vs) = do { k \<leftarrow> value_index v; ks \<leftarrow> value_indexes vs; Some (k # ks) }"

text \<open>The insertion sort moves the index, the value and the normalised value together; the sorted
  part is kept with its last element first, as the inner loop runs through it.\<close>

fun sort_shift :: "int \<times> 'a \<Rightarrow> (int \<times> 'a) list \<Rightarrow> (int \<times> 'a) list" where
  "sort_shift x [] = [x]"
| "sort_shift x (y # ys) = (if fst y > fst x then y # sort_shift x ys else x # y # ys)"

definition index_sort :: "(int \<times> 'a) list \<Rightarrow> (int \<times> 'a) list" where
  "index_sort xs = rev (foldl (\<lambda>ys x. sort_shift x ys) [] xs)"

definition sort_arrays :: "int list \<Rightarrow> attribute \<Rightarrow> (int list \<times> attribute) option" where
  "sort_arrays ks a =
     (case a_nvals a of
        Shared \<Rightarrow>
          let xs = index_sort (zip ks (vals_of a))
          in Some (map fst xs, a\<lparr>a_vals := Some (map snd xs)\<rparr>)
      | Own nvs \<Rightarrow> do {
          ensure (length (vals_of a) \<le> length nvs);
          let xs = index_sort (zip ks (zip (vals_of a) nvs));
          Some (map fst xs, a\<lparr>a_vals := Some (map (fst \<circ> snd) xs),
                             a_nvals := Own (map (snd \<circ> snd) xs @ drop (length ks) nvs)\<rparr>) })"

definition ordered_value_sort :: "attribute \<Rightarrow> bool \<Rightarrow> (int \<times> attribute) option" where
  "ordered_value_sort a do_renumber =
     (case index_scan False False (vals_of a) of
        None \<Rightarrow> Some (LDAP_INVALID_SYNTAX, a)
      | Some False \<Rightarrow> if do_renumber then map_option (Pair 0) (ordered_value_renumber a) else Some (0, a)
      | Some True \<Rightarrow>
          (case value_indexes (vals_of a) of
             None \<Rightarrow> Some (LDAP_INVALID_SYNTAX, a)
           | Some ks \<Rightarrow> do {
               (ks, a) \<leftarrow> sort_arrays ks a;
               let renumber = (hd ks \<noteq> 0 \<or> last ks \<noteq> int (length ks) - 1);
               if do_renumber \<and> renumber then map_option (Pair 0) (ordered_value_renumber a) else Some (0, a) }))"

text \<open>The new values one by one, over the arrays as pairs; \<open>Inl\<close> is the error return.\<close>

fun add_ordered :: "(string \<times> string) list \<Rightarrow> (string \<times> string) list \<Rightarrow> (int + (string \<times> string) list)" where
  "add_ordered [] new = Inr new"
| "add_ordered ((v, nv) # vs) new =
     (if byte v 0 = CHR ''{''
      then let (k, n) = strtol_int (drop 1 v) in
        if n = 0 \<or> byte (drop 1 v) n \<noteq> CHR ''}'' then Inl (- 1)
        else add_ordered vs (if k > int (length new) \<or> k < 0 then new @ [(v, nv)] else insert_slot (nat k) (v, nv) new)
      else add_ordered vs (new @ [(v, nv)]))"

text \<open>\<open>a\<close> is the attribute found in the entry or a new one at its end; the result code of the sort is not
  looked at. The attribute is returned even with the error, the sort and the new attribute stay.\<close>

definition ordered_add_to :: "schema \<Rightarrow> attribute \<Rightarrow> string list \<Rightarrow> string list option \<Rightarrow> (int \<times> attribute) option" where
  "ordered_add_to sc a vals nvals = do {
     ensure (if nvals = None then a_nvals a = Shared else a_vals a = None \<or> a_nvals a \<noteq> Shared);
     let anum = a_numvals a;
     ensure (anum \<le> length (vals_of a) \<and> anum \<le> length (nvals_of a));
     ensure (case nvals of None \<Rightarrow> True | Some nvs \<Rightarrow> length vals \<le> length nvs);
     let own = (a_nvals a \<noteq> Shared \<or> nvals \<noteq> None);
     case add_ordered (zip vals (case nvals of None \<Rightarrow> vals | Some nvs \<Rightarrow> nvs))
            (zip (take anum (vals_of a)) (take anum (nvals_of a))) of
       Inl rc \<Rightarrow> Some (rc, a)
     | Inr new \<Rightarrow>
         map_option (Pair 0)
           (ordered_value_renumber (a\<lparr>a_vals := Some (map fst new),
              a_nvals := (if own then Own (map snd new) else Shared), a_numvals := length new\<rparr>)) }"

definition ordered_value_add :: "schema \<Rightarrow> entry \<Rightarrow> nat \<Rightarrow> string list \<Rightarrow> string list option \<Rightarrow> (int \<times> entry) option" where
  "ordered_value_add sc e ad vals nvals =
     set_attrs e (at_desc ad
       (\<lambda>a. do { (rc, a) \<leftarrow> ordered_value_sort a False; ordered_add_to sc a vals nvals })
       (ordered_add_to sc (attr_alloc sc ad) vals nvals) (e_attrs e))"

section \<open>Wrappers of syntax and rule\<close>

text \<open>The index that a wrapper takes away, with its braces, and the value behind it; \<open>None\<close> when the
  attribute is not ordered or the index is not numeric.\<close>

definition taken_index :: "schema \<Rightarrow> nat \<Rightarrow> string \<Rightarrow> (string \<times> string) option" where
  "taken_index sc ad v =
     (if has (sat_flags (type_of sc ad)) SLAP_AT_ORDERED \<and> byte v 0 = CHR ''{''
      then (case memchr v CHR ''}'' of
              None \<Rightarrow> None
            | Some p \<Rightarrow>
                if numericStringValidate (take (p - 1) (drop 1 v)) = LDAP_SUCCESS
                then Some (take (p + 1) v, drop (p + 1) v) else None)
      else None)"

definition ordered_value_validate :: "schema \<Rightarrow> nat \<Rightarrow> string \<Rightarrow> bool \<Rightarrow> int option" where
  "ordered_value_validate sc ad v deleting = do {
     validate \<leftarrow> ssyn_validate (syn_store sc (sat_syntax (type_of sc ad)));
     Some (case taken_index sc ad v of
             None \<Rightarrow> validate v
           | Some (idx, w) \<Rightarrow> if deleting \<and> w = [] then LDAP_SUCCESS else validate w) }"

definition ordered_value_pretty :: "schema \<Rightarrow> nat \<Rightarrow> string \<Rightarrow> (int \<times> string) option" where
  "ordered_value_pretty sc ad v = do {
     pretty \<leftarrow> ssyn_pretty (syn_store sc (sat_syntax (type_of sc ad)));
     Some (case taken_index sc ad v of
             None \<Rightarrow> pretty v
           | Some (idx, w) \<Rightarrow> let (rc, out) = pretty w in (rc, if rc = LDAP_SUCCESS then idx @ out else out)) }"

definition ordered_value_normalize :: "schema \<Rightarrow> slap_mask \<Rightarrow> nat \<Rightarrow> string \<Rightarrow> (int \<times> string) option" where
  "ordered_value_normalize sc usage ad v = do {
     mr \<leftarrow> sat_equality (type_of sc ad);
     nf \<leftarrow> smr_normalize (mr_store sc mr);
     Some (case taken_index sc ad v of
             None \<Rightarrow> nf usage (Some (sat_syntax (type_of sc ad))) v
           | Some (idx, w) \<Rightarrow>
               if w = [] then (LDAP_SUCCESS, idx)
               else let (rc, out) = nf usage (Some (sat_syntax (type_of sc ad))) w
                 in (rc, if rc = LDAP_SUCCESS then idx @ out else out)) }"

section \<open>Indexes\<close>

lemma digit_numeric: "digit_below 10 c \<Longrightarrow> isdigit c"
proof -
  assume d: "digit_below 10 c"
  have up: "is_upper_hex c \<Longrightarrow> 10 \<le> code c - 55" by (auto simp: is_upper_hex_def less_eq_char_code code_def)
  have lo: "is_lower_hex c \<Longrightarrow> 10 \<le> code c - 87" by (auto simp: is_lower_hex_def less_eq_char_code code_def)
  from d up lo show ?thesis by (auto simp: digit_below_def xdigit_def split: if_splits)
qed

lemma digits_numeric: "list_all isdigit (digits_of 10 (int i))" "digits_of 10 (int i) \<noteq> []"
  using digits_of_spec [of "int i" 10] digit_numeric by (auto simp: list_all_iff)

lemma digits_no_brace: "CHR ''}'' \<notin> set (digits_of 10 (int i))"
proof -
  have "\<not> isdigit CHR ''}''" by code_simp
  with digits_numeric(1) [of i] show ?thesis by (auto simp: list_all_iff)
qed

lemma memchr_prefix: "memchr (index_prefix i @ w) CHR ''}'' = Some (length (digits_of 10 (int i)) + 1)"
proof -
  have "takeWhile (\<lambda>x. x \<noteq> CHR ''}'') (digits_of 10 (int i) @ CHR ''}'' # w) = digits_of 10 (int i)"
    using digits_no_brace [of i] by (intro takeWhile_stop) (auto simp: list_all_iff)
  then show ?thesis by (simp add: memchr_def index_prefix_def Let_def)
qed

lemma numeric_digits: "numericStringValidate (digits_of 10 (int i)) = LDAP_SUCCESS"
  using digits_numeric [of i] by (auto simp: numericStringValidate_def list_all_iff)

text \<open>An index that was printed is taken away again, whatever follows it.\<close>

lemma skip_index_prefix: "skip_index (index_prefix i @ w) = (Some (digits_of 10 (int i)), w)"
  unfolding skip_index_def memchr_prefix
  by (simp add: byte_def index_prefix_def numeric_digits Let_def)

lemma renumber_from_nth:
  assumes "renumber_from i n vs = Some ws" "n = i + length vs"
  shows "length ws = length vs \<and>
    (\<forall>j<length vs. \<exists>w. strip_index (vs ! j) = Some w \<and> ws ! j = index_prefix (i + j) @ w)"
  using assms
proof (induction vs arbitrary: i ws)
  case (Cons v vs)
  from Cons.prems obtain w ws' where w: "strip_index v = Some w" "renumber_from (i + 1) n vs = Some ws'"
    "ws = (index_prefix i @ w) # ws'" by (auto simp: bind_eq_Some_conv)
  from Cons.IH [OF w(2)] Cons.prems(2) have ih: "length ws' = length vs"
    "\<forall>j<length vs. \<exists>w. strip_index (vs ! j) = Some w \<and> ws' ! j = index_prefix (i + 1 + j) @ w" by auto
  have "\<exists>w. strip_index ((v # vs) ! j) = Some w \<and> ws ! j = index_prefix (i + j) @ w" if "j < length (v # vs)" for j
    using that ih(2) w by (cases j) auto
  with ih(1) w(3) show ?case by simp
qed simp

section \<open>Sorting by index\<close>

lemma sort_shift_mset: "mset (sort_shift x ys) = add_mset x (mset ys)"
  by (induction ys) auto

lemma sort_shift_desc:
  "sorted_wrt (\<lambda>x y. fst y \<le> fst x) ys \<Longrightarrow> sorted_wrt (\<lambda>x y. fst y \<le> fst x) (sort_shift x ys)"
proof (induction ys)
  case (Cons y ys)
  have "set (sort_shift x ys) = insert x (set ys)" using arg_cong [OF sort_shift_mset, of set_mset x ys] by simp
  with Cons show ?case by fastforce
qed simp

lemma index_sort_fold:
  "mset (foldl (\<lambda>ys x. sort_shift x ys) acc xs) = mset acc + mset xs"
  "sorted_wrt (\<lambda>x y. fst y \<le> fst x) acc \<Longrightarrow> sorted_wrt (\<lambda>x y. fst y \<le> fst x) (foldl (\<lambda>ys x. sort_shift x ys) acc xs)"
  by (induction xs arbitrary: acc) (simp_all add: sort_shift_mset sort_shift_desc)

text \<open>The insertion sort is a sort: a permutation with ascending indexes.\<close>

lemma index_sort_sorts:
  "mset (index_sort xs) = mset xs" "sorted_wrt (\<lambda>x y. fst x \<le> fst y) (index_sort xs)"
  using index_sort_fold [of "[]" xs] by (simp_all add: index_sort_def sorted_wrt_rev)

section \<open>Numbered values\<close>

definition numbered :: "string list \<Rightarrow> string list" where
  "numbered ws = map2 (\<lambda>i w. index_prefix i @ w) [0..<length ws] ws"

lemma length_numbered [simp]: "length (numbered ws) = length ws"
  by (simp add: numbered_def)

lemma nth_numbered: "i < length ws \<Longrightarrow> numbered ws ! i = index_prefix i @ ws ! i"
  by (simp add: numbered_def)

lemma strip_prefix: "strip_index (index_prefix i @ w) = Some w"
  unfolding strip_index_def memchr_prefix by (simp add: byte_def index_prefix_def)

lemma first_digit: "0 < n \<Longrightarrow> hd (digits_of 10 n) \<noteq> CHR ''0''"
proof (induction "10 :: int" n rule: digits_of.induct)
  case (1 n)
  show ?case
  proof (cases "n < 10")
    case True
    with 1(2) have "n \<in> {1,2,3,4,5,6,7,8,9}" by auto
    moreover have "\<forall>n\<in>{1,2,3,4,5,6,7,8,9}. xchar n \<noteq> CHR ''0''" by code_simp
    ultimately have "xchar n \<noteq> CHR ''0''" by blast
    then show ?thesis using True by (simp add: digits_of.simps)
  next
    case False
    with 1 have "hd (digits_of 10 (n div 10)) \<noteq> CHR ''0''" by auto
    moreover have "digits_of 10 (n div 10) \<noteq> []" using digits_of_spec [of "n div 10" 10] 1(2) by simp
    ultimately show ?thesis using False by (simp add: digits_of.simps [of 10 n])
  qed
qed

text \<open>A printed index is read back.\<close>

lemma strtol_index:
  assumes "i < 2 ^ 31"
  shows "strtol_int (digits_of 10 (int i) @ CHR ''}'' # w) = (int i, length (digits_of 10 (int i)))"
proof -
  let ?d = "digits_of 10 (int i)"
  have brace: "\<not> digit_below 10 CHR ''}''" "\<not> digit_below 8 CHR ''}''" by code_simp+
  have ds: "list_all (digit_below 10) ?d" "?d \<noteq> []" "xvalue 10 ?d = int i"
    using digits_of_spec [of "int i" 10] by auto
  have small: "int32 (max (- (2 ^ 63)) (min (int i) (2 ^ 63 - 1))) = int i"
    using assms by (simp add: min_def max_def int32_def)
  show ?thesis
  proof (cases "i = 0")
    case True
    then have d: "?d = ''0''" by (simp add: digits_of.simps xchar_def) code_simp
    have "strtol_base (?d @ CHR ''}'' # w) = 8"
      using True unfolding d by (simp add: strtol_base_def isspace_def)
    moreover have "list_all (digit_below 8) ?d" "xvalue 8 ?d = 0" unfolding d by code_simp+
    ultimately show ?thesis
      using strtol_digits [of 8 ?d "CHR ''}'' # w"] brace small True ds(2) by (simp add: strtol_int_def)
  next
    case False
    obtain c cs where c: "?d = c # cs" using ds(2) by (cases ?d) auto
    have "c \<noteq> CHR ''0''" using first_digit [of "int i"] False c by simp
    moreover have "\<not> isspace c" "c \<noteq> CHR ''-''" "c \<noteq> CHR ''+''"
      using ds(1) c digit_below_plain [of 10 c] by auto
    ultimately have "strtol_base (?d @ CHR ''}'' # w) = 10" by (simp add: strtol_base_def c)
    then show ?thesis
      using strtol_digits [of 10 ?d "CHR ''}'' # w"] brace small ds by (simp add: strtol_int_def)
  qed
qed

lemma value_index_prefix: "i < 2 ^ 31 \<Longrightarrow> value_index (index_prefix i @ w) = Some (int i)"
  by (simp add: value_index_def index_prefix_def strtol_index byte_def nth_append)

lemma value_indexes_nth:
  assumes "\<And>j. j < length vs \<Longrightarrow> value_index (vs ! j) = Some (f j)"
  shows "value_indexes vs = Some (map f [0..<length vs])"
  using assms
proof (induction vs arbitrary: f)
  case (Cons v vs)
  have "value_indexes vs = Some (map (f \<circ> Suc) [0..<length vs])"
    using Cons.prems by (intro Cons.IH) fastforce
  moreover have "value_index v = Some (f 0)" using Cons.prems [of 0] by simp
  ultimately show ?case by (simp add: map_upt_Suc comp_def del: upt_Suc)
qed simp

lemma value_indexes_numbered:
  "length ws \<le> 2 ^ 31 \<Longrightarrow> value_indexes (numbered ws) = Some (map int [0..<length ws])"
  using value_indexes_nth [of "numbered ws" int] by (simp add: nth_numbered value_index_prefix)

lemma index_scan_braces:
  "(\<And>v. v \<in> set vs \<Longrightarrow> byte v 0 = CHR ''{'' \<and> memchr v CHR ''}'' \<noteq> None) \<Longrightarrow>
   index_scan b False vs = Some (b \<or> vs \<noteq> [])"
  by (induction vs arbitrary: b) simp_all

lemma index_scan_numbered: "index_scan False False (numbered ws) = Some (ws \<noteq> [])"
proof -
  have "byte v 0 = CHR ''{'' \<and> memchr v CHR ''}'' \<noteq> None" if "v \<in> set (numbered ws)" for v
    using that unfolding in_set_conv_nth
    by (auto simp: nth_numbered memchr_prefix) (simp add: byte_def index_prefix_def)
  from index_scan_braces [of "numbered ws" False, OF this] show ?thesis by (metis length_0_conv length_numbered)
qed

text \<open>Sorting what is sorted changes nothing.\<close>

lemma index_sort_id: "sorted_wrt (\<lambda>x y. fst x \<le> fst y) xs \<Longrightarrow> index_sort xs = xs"
proof -
  have shift: "\<forall>y\<in>set ys. fst y \<le> fst x \<Longrightarrow> sort_shift x ys = x # ys" for x :: "int \<times> 'a" and ys
    by (cases ys) auto
  have "foldl (\<lambda>ys x. sort_shift x ys) acc xs = rev xs @ acc"
    if "sorted_wrt (\<lambda>x y. fst x \<le> fst y) xs" "\<forall>x\<in>set xs. \<forall>y\<in>set acc. fst y \<le> fst x" for acc and xs :: "(int \<times> 'a) list"
    using that by (induction xs arbitrary: acc) (auto simp: shift)
  from this [of xs "[]"] show "sorted_wrt (\<lambda>x y. fst x \<le> fst y) xs \<Longrightarrow> ?thesis" by (simp add: index_sort_def)
qed

lemma sort_numbered:
  assumes "vals_of a = numbered ws" "a_vals a \<noteq> None" "a_nvals a = Shared" "length ws \<le> 2 ^ 31"
  shows "ordered_value_sort a False = Some (0, a)"
proof (cases "ws = []")
  case True
  then show ?thesis using assms(1) index_scan_numbered [of ws] by (simp add: ordered_value_sort_def)
next
  case False
  let ?xs = "zip (map int [0..<length ws]) (numbered ws)"
  have "sorted_wrt (\<lambda>x y. fst x \<le> fst y) ?xs" by (simp add: sorted_wrt_iff_nth_less)
  then have xs: "index_sort ?xs = ?xs" by (rule index_sort_id)
  have "sort_arrays (map int [0..<length ws]) a = Some (map int [0..<length ws], a)"
    using assms(1-3) by (auto simp: sort_arrays_def xs vals_of_def)
  then show ?thesis
    using False assms(1,4) index_scan_numbered [of ws] value_indexes_numbered [of ws]
    by (simp add: ordered_value_sort_def)
qed

lemma renumber_numbered:
  assumes "\<And>j. j < length vs \<Longrightarrow> strip_index (vs ! j) = Some (ws ! j)" "length ws = length vs"
  shows "renumber_from 0 (length vs) vs = Some (numbered ws)"
proof -
  have "renumber_from i (i + length vs) vs = Some (map2 (\<lambda>i w. index_prefix i @ w) [i..<i + length vs] ws)" for i
    using assms
  proof (induction vs arbitrary: i ws)
    case (Cons v vs)
    then obtain w ws' where ws: "ws = w # ws'" by (cases ws) auto
    have "strip_index (vs ! j) = Some (ws' ! j)" if "j < length vs" for j
      using Cons.prems(1) [of "Suc j"] that ws by simp
    from Cons.IH [OF this, of "Suc i"] Cons.prems(1) [of 0] Cons.prems(2) ws show ?case
      by (simp add: upt_conv_Cons del: upt_Suc)
  qed simp
  from this [of 0] show ?thesis by (simp add: numbered_def assms(2))
qed

text \<open>C14. An X-ORDERED attribute keeps its order: a new value with index k goes to place k, a value without
  an index or with one beyond the end goes to the end, and all values are numbered from 0 afterwards.\<close>

theorem ordered_add_inserts:
  assumes "attr_find (e_attrs e) ad = Some a" "a_desc a = ad" "a_vals a = Some (numbered ws)" "a_nvals a = Shared"
    "a_numvals a = length ws" "length ws < 2 ^ 31" "k < 2 ^ 31"
    "v = index_prefix k @ w \<or> v = w \<and> byte w 0 \<noteq> CHR ''{'' \<and> length ws \<le> k"
  shows "\<exists>e' a'. ordered_value_add sc e ad [v] None = Some (0, e') \<and> attr_find (e_attrs e') ad = Some a' \<and>
    vals_of a' = numbered (insert_slot (min k (length ws)) w ws) \<and> a_numvals a' = length ws + 1"
proof -
  let ?k = "min k (length ws)" let ?ws = "insert_slot ?k w ws"
  have vs: "vals_of a = numbered ws" "nvals_of a = numbered ws" using assms(3,4) by (simp_all add: vals_of_def nvals_of_def)
  let ?new = "insert_slot ?k (v, v) (zip (numbered ws) (numbered ws))"
  have at_end: "insert_slot (length xs) x xs = xs @ [x]" for x :: 'x and xs by (simp add: insert_slot_def)
  have add: "add_ordered [(v, v)] (zip (numbered ws) (numbered ws)) = Inr ?new"
  proof (cases "v = index_prefix k @ w")
    case True
    have "byte v 0 = CHR ''{''" "drop 1 v = digits_of 10 (int k) @ CHR ''}'' # w" unfolding True
      by (simp_all add: byte_def index_prefix_def)
    with strtol_index [OF assms(7), of w] digits_numeric(2) [of k] show ?thesis
      using at_end [of "zip (numbered ws) (numbered ws)" "(v, v)"]
      by (auto simp: byte_def nth_append min_def)
  next
    case False
    with assms(8) show ?thesis using at_end [of "zip (numbered ws) (numbered ws)" "(v, v)"] by (auto simp: min_def)
  qed
  have fst_new: "map fst ?new = insert_slot ?k v (numbered ws)"
    by (simp add: insert_slot_def take_map [symmetric] drop_map [symmetric])
  have "strip_index v = Some w" using assms(8)
  proof
    assume "v = index_prefix k @ w"
    then show ?thesis by (simp add: strip_prefix)
  qed (simp add: strip_index_def)
  then have "strip_index (insert_slot ?k v (numbered ws) ! j) = Some (?ws ! j)" if "j < length ws + 1" for j
    using that by (auto simp: insert_slot_def nth_append nth_Cons nth_numbered strip_prefix split: nat.split)
  then have "renumber_from 0 (length ws + 1) (map fst ?new) = Some (numbered ?ws)"
    using renumber_numbered [of "insert_slot ?k v (numbered ws)" ?ws] by (simp add: fst_new insert_slot_simps)
  then have "ordered_add_to sc a [v] None = Some (0, a\<lparr>a_vals := Some (numbered ?ws), a_nvals := Shared, a_numvals := length ws + 1\<rparr>)"
    using assms(3-5) vs
    by (simp add: add ordered_add_to_def abort_simps ordered_value_renumber_def vals_of_def insert_slot_simps Let_def
        del: add_ordered.simps)
  moreover have "ordered_value_sort a False = Some (0, a)"
    using sort_numbered [OF vs(1)] assms(3,4,6) by simp
  ultimately have old: "(do { (rc, a) \<leftarrow> ordered_value_sort a False; ordered_add_to sc a [v] None }) =
      Some (0, a\<lparr>a_vals := Some (numbered ?ws), a_nvals := Shared, a_numvals := length ws + 1\<rparr>)" by simp
  from at_desc_found [OF assms(1), where old = "\<lambda>a. do { (rc, a) \<leftarrow> ordered_value_sort a False; ordered_add_to sc a [v] None }", OF old]
    assms(2)
  show ?thesis by (fastforce simp: ordered_value_add_def set_attrs_def vals_of_def)
qed

lemma ordered_add_inserts_witness:
  "\<exists>e' a'. ordered_value_add octet_schema
      \<lparr>e_name = [], e_nname = [], e_ocflags = 0, e_attrs = [\<lparr>a_desc = 0, a_vals = Some [''{0}a'', ''{1}b''], a_nvals = Shared, a_numvals = 2, a_flags = 0\<rparr>]\<rparr>
      0 [''{1}c''] None = Some (0, e') \<and> attr_find (e_attrs e') 0 = Some a' \<and> vals_of a' = [''{0}a'', ''{1}c'', ''{2}b'']"
proof -
  let ?a = "\<lparr>a_desc = 0, a_vals = Some [''{0}a'', ''{1}b''], a_nvals = Shared, a_numvals = 2, a_flags = 0\<rparr>"
  have n: "numbered [''a'', ''b''] = [''{0}a'', ''{1}b'']"
    "numbered (insert_slot (min 1 (length [''a'', ''b''])) ''c'' [''a'', ''b'']) = [''{0}a'', ''{1}c'', ''{2}b'']"
    "index_prefix 1 @ ''c'' = ''{1}c''" by code_simp+
  show ?thesis
    using ordered_add_inserts [of "\<lparr>e_name = [], e_nname = [], e_ocflags = 0, e_attrs = [?a]\<rparr>" 0 ?a "[''a'', ''b'']" 1 "''{1}c''" "''c''" octet_schema] n
    by (simp del: append.simps) blast
qed

text \<open>Sorting with renumbering keeps duplicate indexes when the ends of the range fit: only the first and
  the last index are looked at.\<close>

lemma ordered_sort_keeps_duplicates:
  "ordered_value_sort \<lparr>a_desc = 0, a_vals = Some [''{2}c'', ''{0}a'', ''{0}b''], a_nvals = Shared, a_numvals = 3, a_flags = 0\<rparr> True =
   Some (0, \<lparr>a_desc = 0, a_vals = Some [''{0}a'', ''{0}b'', ''{2}c''], a_nvals = Shared, a_numvals = 3, a_flags = 0\<rparr>)"
  by code_simp

end
