(* ===== verification/Modify_Values.thy ===== *)
theory Modify_Values
  imports Ordered_Values
begin

text \<open>
  The modifications of an entry's values, \<^verbatim>\<open>servers/slapd/mods.c\<close>: adding, deleting, replacing and
  incrementing. A modification has a null pointer for its values when the whole attribute is meant and
  one for its normalised values when the equality rule does not normalise. The texts of the errors are not
  modelled, nor is the release of modifications.
\<close>

section \<open>Definitions\<close>

datatype mod_op = MOD_ADD | MOD_DELETE | MOD_REPLACE | MOD_INCREMENT

record modification =
  sm_desc :: nat
  sm_values :: "string list option"
  sm_nvalues :: "string list option"
  sm_numvals :: nat
  sm_op :: mod_op
  sm_flags :: slap_mask

definition LDAP_CONSTRAINT_VIOLATION :: int where "LDAP_CONSTRAINT_VIOLATION = 0x13"
definition SLAPD_INTEGER_SYNTAX :: string where "SLAPD_INTEGER_SYNTAX = ''1.3.6.1.4.1.1466.115.121.1.27''"

definition match_flags :: "schema \<Rightarrow> modification \<Rightarrow> slap_mask" where
  "match_flags sc md =
     SLAP_MR_EQUALITY OR
     (if sm_desc md = si_ad_objectClass sc then SLAP_MR_VALUE_OF_ATTRIBUTE_SYNTAX else SLAP_MR_VALUE_OF_ASSERTION_SYNTAX) OR
     (if sm_nvalues md = None then 0
      else SLAP_MR_ASSERTED_VALUE_NORMALIZED_MATCH OR SLAP_MR_ATTRIBUTE_VALUE_NORMALIZED_MATCH)"

text \<open>The values of a modification with their normalised forms; the arrays are walked together.\<close>

definition mod_pairs :: "modification \<Rightarrow> (string \<times> string option) list option" where
  "mod_pairs md =
     (case sm_values md of
        None \<Rightarrow> None
      | Some vs \<Rightarrow>
          (case sm_nvalues md of
             None \<Rightarrow> Some (map (\<lambda>v. (v, None)) vs)
           | Some nvs \<Rightarrow> if length vs \<le> length nvs then Some (zip vs (map Some nvs)) else None))"

definition no_equality :: "schema \<Rightarrow> nat \<Rightarrow> bool" where
  "no_equality sc ad =
     (case sat_equality (type_of sc ad) of None \<Rightarrow> True | Some m \<Rightarrow> smr_match (mr_store sc m) = None)"

text \<open>The check of the new values against the attribute: \<open>Inl\<close> an error, \<open>Inr\<close> the values it does not
  have, which are kept in permissive mode.\<close>

fun check_new :: "schema \<Rightarrow> attribute \<Rightarrow> slap_mask \<Rightarrow> bool \<Rightarrow> (string \<times> string option) list
    \<Rightarrow> (int + (string \<times> string option) list) option" where
  "check_new sc a flags permissive [] = Some (Inr [])"
| "check_new sc a flags permissive (p # ps) = do {
     (rc, slot) \<leftarrow> attr_valfind sc a flags (normal p);
     if rc = LDAP_SUCCESS \<and> \<not> permissive then Some (Inl LDAP_TYPE_OR_VALUE_EXISTS)
     else if rc \<noteq> LDAP_SUCCESS \<and> rc \<noteq> LDAP_NO_SUCH_ATTRIBUTE then Some (Inl rc)
     else do {
       r \<leftarrow> check_new sc a flags permissive ps;
       Some (case r of Inl rc \<Rightarrow> Inl rc | Inr qs \<Rightarrow> Inr (if rc = LDAP_SUCCESS then qs else p # qs)) } }"

definition add_pairs :: "bool \<Rightarrow> schema \<Rightarrow> entry \<Rightarrow> modification \<Rightarrow> (string \<times> string option) list \<Rightarrow> (int \<times> entry) option" where
  "add_pairs righteous sc e md ps = do {
     let vals = map fst ps;
     let nvals = (if sm_nvalues md = None then None else Some (map normal ps));
     (rc, e) \<leftarrow> (if has (sat_flags (type_of sc (sm_desc md))) SLAP_AT_ORDERED_VAL
                 then ordered_value_add sc e (sm_desc md) vals nvals
                 else attr_merge righteous sc e (sm_desc md) vals nvals);
     Some (if rc \<noteq> 0 then LDAP_OTHER else LDAP_SUCCESS, e) }"

definition modify_add_values :: "bool \<Rightarrow> schema \<Rightarrow> entry \<Rightarrow> modification \<Rightarrow> bool \<Rightarrow> (int \<times> entry) option" where
  "modify_add_values righteous sc e md permissive = do {
     ensure (sm_op md = MOD_ADD \<or> sm_op md = MOD_REPLACE);
     ps \<leftarrow> mod_pairs md;
     ensure (sm_numvals md = length ps);
     case attr_find (e_attrs e) (sm_desc md) of
       None \<Rightarrow> add_pairs righteous sc e md ps
     | Some a \<Rightarrow>
         if no_equality sc (sm_desc md) then Some (LDAP_INAPPROPRIATE_MATCHING, e)
         else do {
           r \<leftarrow> check_new sc a (match_flags sc md) permissive ps;
           case r of
             Inl rc \<Rightarrow> Some (rc, e)
           | Inr qs \<Rightarrow>
               if \<not> permissive then add_pairs righteous sc e md ps
               else if qs = [] then Some (LDAP_SUCCESS, e)
               else add_pairs righteous sc e md qs } }"

text \<open>The places of the values to delete, \<open>- 1\<close> for one that is not there in permissive mode, with the
  result code of the last search; \<open>Inl\<close> is an error.\<close>

fun locate :: "schema \<Rightarrow> attribute \<Rightarrow> slap_mask \<Rightarrow> bool \<Rightarrow> int \<Rightarrow> (string \<times> string option) list
    \<Rightarrow> (int + int \<times> int list) option" where
  "locate sc a flags permissive rc [] = Some (Inr (rc, []))"
| "locate sc a flags permissive rc (p # ps) = do {
     (rc, slot) \<leftarrow> attr_valfind sc a flags (normal p);
     if rc = LDAP_SUCCESS \<or> rc = LDAP_NO_SUCH_ATTRIBUTE \<and> permissive
     then do {
       i \<leftarrow> (if rc = LDAP_SUCCESS then map_option int slot else Some (- 1));
       r \<leftarrow> locate sc a flags permissive rc ps;
       Some (case r of Inl rc \<Rightarrow> Inl rc | Inr (rc, is) \<Rightarrow> Inr (rc, i # is)) }
     else Some (Inl rc) }"

text \<open>Marking the values as gone, with the count of what is left, and the compaction.\<close>

fun mark_gone :: "int list \<Rightarrow> bool list \<Rightarrow> nat \<Rightarrow> (bool list \<times> nat) option" where
  "mark_gone [] gone n = Some (gone, n)"
| "mark_gone (i # is) gone n =
     (if i < 0 then mark_gone is gone n
      else if length gone \<le> nat i then None
      else if gone ! nat i then mark_gone is gone n
      else mark_gone is (gone[nat i := True]) (n - 1))"

definition compact :: "bool list \<Rightarrow> 'a list \<Rightarrow> 'a list" where
  "compact gone xs = map snd (filter (\<lambda>(g, x). \<not> g) (zip gone xs))"

text \<open>The attribute is changed where \<^verbatim>\<open>attr_find\<close> found it.\<close>

fun put_attr :: "nat \<Rightarrow> attribute \<Rightarrow> attribute list \<Rightarrow> attribute list" where
  "put_attr desc a [] = []"
| "put_attr desc a (b # bs) = (if a_desc b = desc then a # bs else b # put_attr desc a bs)"

definition set_attr :: "entry \<Rightarrow> nat \<Rightarrow> attribute \<Rightarrow> entry" where
  "set_attr e desc a = e\<lparr>e_attrs := put_attr desc a (e_attrs e)\<rparr>"

definition delete_places :: "schema \<Rightarrow> entry \<Rightarrow> nat \<Rightarrow> attribute \<Rightarrow> int \<Rightarrow> int list \<Rightarrow> (int \<times> entry) option" where
  "delete_places sc e desc a rc is = do {
     ensure (length (vals_of a) \<le> length (nvals_of a));
     (gone, n) \<leftarrow> mark_gone is (replicate (length (vals_of a)) False) (a_numvals a);
     let a = a\<lparr>a_vals := map_option (compact gone) (a_vals a),
               a_nvals := (case a_nvals a of Shared \<Rightarrow> Shared | Own nvs \<Rightarrow> Own (compact gone nvs)), a_numvals := n\<rparr>;
     if n = 0 then
       let (drc, as) = attr_delete (e_attrs e) desc
       in Some (if drc \<noteq> 0 then LDAP_NO_SUCH_ATTRIBUTE else rc, e\<lparr>e_attrs := as\<rparr>)
     else if has (sat_flags (type_of sc (a_desc a))) SLAP_AT_ORDERED_VAL then do {
       (src, a) \<leftarrow> ordered_value_sort a True;
       Some (rc, set_attr e desc a) }
     else Some (rc, set_attr e desc a) }"

text \<open>The result code, the entry and the places for the caller.\<close>

definition modify_delete_vindex :: "schema \<Rightarrow> entry \<Rightarrow> modification \<Rightarrow> bool \<Rightarrow> (int \<times> entry \<times> int list) option" where
  "modify_delete_vindex sc e md permissive =
     (if sm_values md = None then
        let (rc, as) = attr_delete (e_attrs e) (sm_desc md)
        in Some (if permissive then LDAP_SUCCESS else if rc \<noteq> LDAP_SUCCESS then LDAP_NO_SUCH_ATTRIBUTE else rc,
                 e\<lparr>e_attrs := as\<rparr>, [])
      else do {
        ps \<leftarrow> mod_pairs md;
        ensure (sm_numvals md = length ps);
        if no_equality sc (sm_desc md) then Some (LDAP_INAPPROPRIATE_MATCHING, e, [])
        else (case attr_find (e_attrs e) (sm_desc md) of
                None \<Rightarrow> Some (if permissive then LDAP_SUCCESS else LDAP_NO_SUCH_ATTRIBUTE, e, [])
              | Some a \<Rightarrow> do {
                  r \<leftarrow> locate sc a (match_flags sc md) permissive 0 ps;
                  case r of
                    Inl rc \<Rightarrow> Some (rc, e, [])
                  | Inr (rc, is) \<Rightarrow> map_option (\<lambda>(rc, e). (rc, e, is)) (delete_places sc e (sm_desc md) a rc is) }) })"

definition modify_delete_values :: "schema \<Rightarrow> entry \<Rightarrow> modification \<Rightarrow> bool \<Rightarrow> (int \<times> entry) option" where
  "modify_delete_values sc e md permissive = map_option (\<lambda>(rc, e, is). (rc, e)) (modify_delete_vindex sc e md permissive)"

definition modify_replace_values :: "bool \<Rightarrow> schema \<Rightarrow> entry \<Rightarrow> modification \<Rightarrow> bool \<Rightarrow> (int \<times> entry) option" where
  "modify_replace_values righteous sc e md permissive =
     (let e = e\<lparr>e_attrs := snd (attr_delete (e_attrs e) (sm_desc md))\<rparr>
      in if sm_values md \<noteq> None then modify_add_values righteous sc e md permissive else Some (LDAP_SUCCESS, e))"

text \<open>\<^verbatim>\<open>lutil_atol\<close>: \<open>None\<close> is its error.\<close>

definition lutil_atol :: "string \<Rightarrow> int option" where
  "lutil_atol v =
     (let s = takeWhile (\<lambda>c. c \<noteq> NUL) v; (l, n) = strtol 10 s
      in if isspace (byte s 0) \<or> n = 0 \<or> n < length s \<or> l < - (2 ^ 63) \<or> 2 ^ 63 \<le> l then None else Some l)"

text \<open>The values are rewritten one after the other; an error leaves the ones before it changed. A sum
  outside the range of \<^verbatim>\<open>long\<close> is undefined.\<close>

fun increment :: "int \<Rightarrow> string list \<Rightarrow> (int \<times> string list) option" where
  "increment incr [] = Some (LDAP_SUCCESS, [])"
| "increment incr (v # vs) =
     (case lutil_atol v of
        None \<Rightarrow> Some (LDAP_INVALID_SYNTAX, v # vs)
      | Some x \<Rightarrow> do {
          ensure (- (2 ^ 63) \<le> x + incr \<and> x + incr < 2 ^ 63);
          (rc, ws) \<leftarrow> increment incr vs;
          Some (rc, print_int (x + incr) # ws) })"

definition set_nvals :: "attribute \<Rightarrow> string list \<Rightarrow> attribute" where
  "set_nvals a ws = (case a_nvals a of Shared \<Rightarrow> a\<lparr>a_vals := Some ws\<rparr> | Own _ \<Rightarrow> a\<lparr>a_nvals := Own ws\<rparr>)"

definition modify_increment_values :: "bool \<Rightarrow> schema \<Rightarrow> entry \<Rightarrow> modification \<Rightarrow> bool \<Rightarrow> (int \<times> entry) option" where
  "modify_increment_values righteous sc e md permissive =
     (case attr_find (e_attrs e) (sm_desc md) of
        None \<Rightarrow>
          if permissive then modify_add_values righteous sc e (md\<lparr>sm_op := MOD_REPLACE\<rparr>) permissive
          else Some (LDAP_NO_SUCH_ATTRIBUTE, e)
      | Some a \<Rightarrow> do {
          oid \<leftarrow> at_syntax (at_count sc) (at_store sc) (Some (ad_type (ad_store sc (a_desc a))));
          if oid \<noteq> SLAPD_INTEGER_SYNTAX then Some (LDAP_CONSTRAINT_VIOLATION, e)
          else do {
            vs \<leftarrow> sm_values md;
            ensure (vs \<noteq> []);
            case lutil_atol (hd vs) of
              None \<Rightarrow> Some (LDAP_INVALID_SYNTAX, e)
            | Some incr \<Rightarrow>
                if incr = 0 then Some (LDAP_SUCCESS, e)
                else do {
                  (rc, ws) \<leftarrow> increment incr (nvals_of a);
                  Some (rc, set_attr e (sm_desc md) (set_nvals a ws)) } } })"

section \<open>Finding a value, sorted or not\<close>

lemma lin_search_correct:
  assumes "\<And>v. vm v = Some (LDAP_SUCCESS, Some (mf v val))" "match \<noteq> (0 :: int)"
  shows "\<exists>i' rc' m. lin_search vm vs i rc match = Some (i', rc', m) \<and>
    (if \<exists>v\<in>set vs. mf v val = 0
     then rc' = LDAP_SUCCESS \<and> m = 0 \<and> i \<le> i' \<and> i' < i + length vs \<and> mf (vs ! (i' - i)) val = 0
     else m \<noteq> 0)"
  using assms(2)
proof (induction vs arbitrary: i rc match)
  case (Cons v vs)
  show ?case
  proof (cases "mf v val = 0")
    case True
    then show ?thesis by (simp add: assms(1) keep_match_def)
  next
    case False
    from Cons.IH [of "mf v val" "i + 1" LDAP_SUCCESS] False
    obtain i' rc' m where ih: "lin_search vm vs (i + 1) LDAP_SUCCESS (mf v val) = Some (i', rc', m)"
      "if \<exists>v\<in>set vs. mf v val = 0
       then rc' = LDAP_SUCCESS \<and> m = 0 \<and> i + 1 \<le> i' \<and> i' < i + 1 + length vs \<and> mf (vs ! (i' - (i + 1))) val = 0
       else m \<noteq> 0" by blast
    moreover have "lin_search vm (v # vs) i rc match = Some (i', rc', m)"
      using ih(1) False by (simp add: assms(1) keep_match_def)
    moreover have "(v # vs) ! (i' - i) = vs ! (i' - (i + 1))" if "i + 1 \<le> i'"
      using that by (simp add: nth_Cons' )
    ultimately show ?thesis using False by (auto split: if_splits)
  qed
qed simp

text \<open>The value is found when one of the attribute's values equals it, by bisection or one by one.\<close>

lemma valfind_slot:
  assumes "matching_order mf" "equality_by sc (a_desc a) mf" "\<not> has (sat_flags (type_of sc (a_desc a))) SLAP_AT_ORDERED"
    "attr_ok mf a" "searched_as_is sc (a_desc a) flags" "\<not> has flags SLAP_MR_ORDERING"
  shows "\<exists>i. attr_valfind sc a flags val =
      Some (if \<exists>v\<in>set (nvals_of a). mf v val = 0 then LDAP_SUCCESS else LDAP_NO_SUCH_ATTRIBUTE, Some i) \<and>
    ((\<exists>v\<in>set (nvals_of a). mf v val = 0) \<longrightarrow> i < length (nvals_of a) \<and> mf (nvals_of a ! i) val = 0)"
proof (cases "has (a_flags a) SLAP_ATTR_SORTED_VALS")
  case True
  from valfind_sorted [OF assms(1,2,4) True assms(5,6), of val]
  obtain rc i where r: "attr_valfind sc a flags val = Some (rc, Some i)" "i \<le> length (nvals_of a)"
    "\<forall>j<i. mf (nvals_of a ! j) val < 0"
    "if rc = LDAP_SUCCESS then i < length (nvals_of a) \<and> mf (nvals_of a ! i) val = 0
     else rc = LDAP_NO_SUCH_ATTRIBUTE \<and> (\<forall>j. i \<le> j \<longrightarrow> j < length (nvals_of a) \<longrightarrow> 0 < mf (nvals_of a ! j) val)"
    by (metis (no_types, lifting))
  show ?thesis
  proof (cases "rc = LDAP_SUCCESS")
    case True
    with r(4) have "\<exists>v\<in>set (nvals_of a). mf v val = 0" by auto
    with r True show ?thesis by auto
  next
    case False
    with r(3,4) have "\<not> (\<exists>v\<in>set (nvals_of a). mf v val = 0)"
      by (metis in_set_conv_nth linorder_le_less_linear order_less_irrefl)
    with r False show ?thesis by auto
  qed
next
  case False
  have n: "a_numvals a = length (nvals_of a)" using assms(4) by (simp add: attr_ok_def)
  let ?vm = "\<lambda>v. ordered_value_match sc (a_desc a) (sat_equality (type_of sc (a_desc a))) flags v val"
  obtain i rc m where r: "lin_search ?vm (nvals_of a) 0 LDAP_OTHER (- 1) = Some (i, rc, m)"
    "if \<exists>v\<in>set (nvals_of a). mf v val = 0
     then rc = LDAP_SUCCESS \<and> m = 0 \<and> 0 \<le> i \<and> i < 0 + length (nvals_of a) \<and> mf (nvals_of a ! (i - 0)) val = 0 else m \<noteq> 0"
    using lin_search_correct [where vm = ?vm and mf = mf and val = val and match = "- 1", OF ordered_value_match_by [OF assms(2,3)]]
    by (metis (no_types, lifting) zero_neq_neg_one)
  have "attr_valfind sc a flags val = Some (if m \<noteq> 0 then LDAP_NO_SUCH_ATTRIBUTE else rc, Some i)"
    using False search_value_as_is [OF assms(2,5)] assms(6) n r(1) by (simp add: attr_valfind_def Let_def)
  with r(2) show ?thesis by (auto split: if_splits)
qed

section \<open>Deleting values\<close>

definition present :: "(string \<Rightarrow> string \<Rightarrow> int) \<Rightarrow> attribute \<Rightarrow> string \<times> string option \<Rightarrow> bool" where
  "present mf a p \<longleftrightarrow> (\<exists>v\<in>set (nvals_of a). mf v (normal p) = 0)"

lemma locate_correct:
  assumes "matching_order mf" "equality_by sc (a_desc a) mf" "\<not> has (sat_flags (type_of sc (a_desc a))) SLAP_AT_ORDERED"
    "attr_ok mf a" "searched_as_is sc (a_desc a) flags" "\<not> has flags SLAP_MR_ORDERING"
  shows "if list_all (present mf a) ps
    then \<exists>is. locate sc a flags False rc ps = Some (Inr (if ps = [] then rc else LDAP_SUCCESS, is)) \<and>
           list_all2 (\<lambda>i p. 0 \<le> i \<and> nat i < length (nvals_of a) \<and> mf (nvals_of a ! nat i) (normal p) = 0) is ps
    else locate sc a flags False rc ps = Some (Inl LDAP_NO_SUCH_ATTRIBUTE)"
proof (induction ps arbitrary: rc)
  case (Cons p ps)
  have codes: "LDAP_NO_SUCH_ATTRIBUTE \<noteq> LDAP_SUCCESS" by (simp add: LDAP_NO_SUCH_ATTRIBUTE_def LDAP_SUCCESS_def)
  from valfind_slot [OF assms, of "normal p"] obtain i where
    i: "attr_valfind sc a flags (normal p) = Some (if present mf a p then LDAP_SUCCESS else LDAP_NO_SUCH_ATTRIBUTE, Some i)"
      "present mf a p \<longrightarrow> i < length (nvals_of a) \<and> mf (nvals_of a ! i) (normal p) = 0"
    unfolding present_def by blast
  show ?case
  proof (cases "present mf a p")
    case True
    then have "locate sc a flags False rc (p # ps) =
        Option.bind (locate sc a flags False LDAP_SUCCESS ps) (\<lambda>r. Some (case r of Inl rc \<Rightarrow> Inl rc | Inr (rc, is) \<Rightarrow> Inr (rc, int i # is)))"
      using i(1) by simp
    with True i Cons.IH [of LDAP_SUCCESS] show ?thesis
      by (auto split: if_splits)
  next
    case False
    with i(1) codes show ?thesis by simp
  qed
qed simp

text \<open>No two values of the attribute are equal.\<close>

definition distinct_by :: "(string \<Rightarrow> string \<Rightarrow> int) \<Rightarrow> string list \<Rightarrow> bool" where
  "distinct_by mf vs \<longleftrightarrow> distinct vs \<and> (\<forall>v\<in>set vs. \<forall>w\<in>set vs. mf v w = 0 \<longrightarrow> v = w)"

lemma mark_gone_correct:
  assumes "\<forall>i\<in>set is. 0 \<le> i \<and> nat i < length gone" "n = length (filter Not gone)"
  shows "mark_gone is gone n =
    (let g = map (\<lambda>j. gone ! j \<or> int j \<in> set is) [0..<length gone] in Some (g, length (filter Not g)))"
  using assms
proof (induction "is" arbitrary: gone n)
  case Nil
  then show ?case by (simp add: map_nth)
next
  case (Cons i "is")
  then have i: "0 \<le> i" "nat i < length gone" by auto
  show ?case
  proof (cases "gone ! nat i")
    case True
    have "map (\<lambda>j. gone ! j \<or> int j \<in> set is) [0..<length gone] = map (\<lambda>j. gone ! j \<or> int j \<in> set (i # is)) [0..<length gone]"
      using True i by (auto intro!: map_cong)
    with True i Cons.IH [of gone n] Cons.prems show ?thesis by (simp add: Let_def del: filter_map length_filter_map)
  next
    case False
    let ?g = "gone[nat i := True]"
    have split: "gone = take (nat i) gone @ False # drop (Suc (nat i)) gone" using i(2) False by (metis id_take_nth_drop)
    have "filter Not gone = filter Not (take (nat i) gone) @ False # filter Not (drop (Suc (nat i)) gone)"
      by (subst split) simp
    moreover have "filter Not ?g = filter Not (take (nat i) gone) @ filter Not (drop (Suc (nat i)) gone)"
      using i(2) by (simp add: upd_conv_take_nth_drop)
    ultimately have "n - 1 = length (filter Not ?g)" using Cons.prems(2) by simp
    then have step: "mark_gone is ?g (n - 1) =
        (let g = map (\<lambda>j. ?g ! j \<or> int j \<in> set is) [0..<length gone] in Some (g, length (filter Not g)))"
      using Cons.IH [of ?g "n - 1"] Cons.prems(1) by simp
    have eq: "map (\<lambda>j. ?g ! j \<or> int j \<in> set is) [0..<length gone] = map (\<lambda>j. gone ! j \<or> int j \<in> set (i # is)) [0..<length gone]"
      using i by (auto simp: nth_list_update intro!: map_cong)
    show ?thesis using False i step unfolding eq by simp
  qed
qed

lemma compact_filter: "compact (map P zs) (map f zs) = map f (filter (\<lambda>z. \<not> P z) zs)"
  by (induction zs) (auto simp: compact_def)

lemma count_gone: "length (filter Not (map P zs)) = length (filter (\<lambda>z. \<not> P z) zs)"
  by (induction zs) auto

text \<open>The places that were located are those of the values that equal a value to delete.\<close>

lemma places_gone:
  assumes "matching_order mf" "distinct_by mf nvs" "length vs = length nvs"
    "list_all2 (\<lambda>i p. 0 \<le> i \<and> nat i < length nvs \<and> mf (nvs ! nat i) (normal p) = 0) is ps"
  shows "map (\<lambda>j. replicate (length nvs) False ! j \<or> int j \<in> set is) [0..<length nvs] =
    map (\<lambda>z. \<exists>p\<in>set ps. mf (snd z) (normal p) = 0) (zip vs nvs)"
proof (rule nth_equalityI)
  fix j assume "j < length (map (\<lambda>j. replicate (length nvs) False ! j \<or> int j \<in> set is) [0..<length nvs])"
  then have j: "j < length nvs" by simp
  have "int j \<in> set is \<longleftrightarrow> (\<exists>p\<in>set ps. mf (nvs ! j) (normal p) = 0)"
  proof
    assume "int j \<in> set is"
    then obtain k where "k < length is" "is ! k = int j" by (auto simp: in_set_conv_nth)
    moreover from this assms(4) have "k < length ps" "mf (nvs ! nat (is ! k)) (normal (ps ! k)) = 0"
      by (auto simp: list_all2_conv_all_nth)
    ultimately show "\<exists>p\<in>set ps. mf (nvs ! j) (normal p) = 0" by (auto intro!: bexI [of _ "ps ! k"])
  next
    assume "\<exists>p\<in>set ps. mf (nvs ! j) (normal p) = 0"
    then obtain k where k: "k < length ps" "mf (nvs ! j) (normal (ps ! k)) = 0" by (auto simp: in_set_conv_nth)
    with assms(4) have i: "0 \<le> is ! k" "nat (is ! k) < length nvs" "mf (nvs ! nat (is ! k)) (normal (ps ! k)) = 0"
      by (auto simp: list_all2_conv_all_nth)
    have "mf (nvs ! j) (nvs ! nat (is ! k)) = 0"
      using assms(1) k(2) i(3) by (rule matching_order.mf_eq_trans)
    with assms(2) i(2) j have "nat (is ! k) = j" by (metis distinct_by_def nth_eq_iff_index_eq nth_mem)
    moreover have "k < length is" using assms(4) k(1) by (simp add: list_all2_lengthD)
    ultimately show "int j \<in> set is" using i(1) by (metis int_nat_eq nth_mem)
  qed
  with j assms(3) show "map (\<lambda>j. replicate (length nvs) False ! j \<or> int j \<in> set is) [0..<length nvs] ! j =
      map (\<lambda>z. \<exists>p\<in>set ps. mf (snd z) (normal p) = 0) (zip vs nvs) ! j" by simp
qed (simp add: assms(3))

lemma attr_find_delete:
  "distinct (map a_desc as) \<Longrightarrow>
   attr_find (snd (attr_delete as desc)) d = (if d = desc then None else attr_find as d)"
proof (induction as)
  case (Cons a as)
  have none: "d \<notin> a_desc ` set as \<Longrightarrow> attr_find as d = None" for d by (induction as) auto
  with Cons show ?case by (auto split: prod.split)
qed simp

lemma attr_delete_found: "attr_find as desc = Some a \<Longrightarrow> fst (attr_delete as desc) = LDAP_SUCCESS"
  by (induction as) (auto split: prod.split if_splits)

lemma attr_find_put:
  "attr_find as desc = Some b \<Longrightarrow> a_desc a = desc \<Longrightarrow>
   attr_find (put_attr desc a as) d = (if d = desc then Some a else attr_find as d)"
  by (induction as) (auto split: if_splits)

lemma attr_find_desc: "attr_find as desc = Some a \<Longrightarrow> a_desc a = desc"
  by (induction as) (auto split: if_splits)

definition kept :: "(string \<Rightarrow> string \<Rightarrow> int) \<Rightarrow> attribute \<Rightarrow> string list \<Rightarrow> (string \<times> string) list" where
  "kept mf a nvs = filter (\<lambda>(v, nv). \<forall>w\<in>set nvs. mf nv w \<noteq> 0) (zip (vals_of a) (nvals_of a))"

lemma ordered_val: "\<not> has fl SLAP_AT_ORDERED \<Longrightarrow> \<not> has fl SLAP_AT_ORDERED_VAL"
proof -
  have "fl AND SLAP_AT_ORDERED_VAL = (fl AND SLAP_AT_ORDERED) AND SLAP_AT_ORDERED_VAL"
    by (simp add: SLAP_AT_ORDERED_def SLAP_AT_ORDERED_VAL_def and.assoc)
  then show "\<not> has fl SLAP_AT_ORDERED \<Longrightarrow> ?thesis" by auto
qed

text \<open>A modification comes with normalised values, or the equality rule does not normalise.\<close>

definition mod_values_ok :: "schema \<Rightarrow> modification \<Rightarrow> string list \<Rightarrow> bool" where
  "mod_values_ok sc md vs \<longleftrightarrow>
     sm_values md = Some vs \<and> sm_numvals md = length vs \<and>
     (case sm_nvalues md of None \<Rightarrow> normalizer sc (sm_desc md) = None | Some nvs \<Rightarrow> length nvs = length vs)"

definition normals :: "modification \<Rightarrow> string list \<Rightarrow> string list" where
  "normals md vs = (case sm_nvalues md of None \<Rightarrow> vs | Some nvs \<Rightarrow> nvs)"

lemma match_flags_search:
  assumes "mod_values_ok sc md vs"
  shows "searched_as_is sc (sm_desc md) (match_flags sc md)" "\<not> has (match_flags sc md) SLAP_MR_ORDERING"
  using assms by (auto simp: mod_values_ok_def searched_as_is_def match_flags_def masks split: if_splits)

lemma mod_pairs_ok:
  assumes "mod_values_ok sc md vs"
  shows "\<exists>ps. mod_pairs md = Some ps \<and> length ps = length vs \<and> map fst ps = vs \<and> map normal ps = normals md vs"
  using assms
  by (auto simp: mod_values_ok_def mod_pairs_def normals_def normal_def comp_def split: option.splits intro!: nth_equalityI)

lemma compact_pairs:
  assumes "length vs = length nvs"
  shows "compact (map P (zip vs nvs)) vs = map fst (filter (\<lambda>z. \<not> P z) (zip vs nvs))"
    "compact (map P (zip vs nvs)) nvs = map snd (filter (\<lambda>z. \<not> P z) (zip vs nvs))"
  using compact_filter [of P "zip vs nvs" fst] compact_filter [of P "zip vs nvs" snd] assms by simp_all

text \<open>What is left of the attribute.\<close>

definition rest_attr :: "(string \<times> string) list \<Rightarrow> attribute \<Rightarrow> attribute" where
  "rest_attr ks a = a\<lparr>a_vals := map_option (\<lambda>_. map fst ks) (a_vals a),
     a_nvals := (case a_nvals a of Shared \<Rightarrow> Shared | Own nvs \<Rightarrow> Own (map snd ks)), a_numvals := length ks\<rparr>"

lemma rest_attr_ok:
  assumes "attr_ok mf a"
  shows "attr_ok mf (rest_attr (kept mf a nvs) a)"
    "zip (vals_of (rest_attr (kept mf a nvs) a)) (nvals_of (rest_attr (kept mf a nvs) a)) = kept mf a nvs"
    "a_desc (rest_attr (kept mf a nvs) a) = a_desc a"
proof -
  let ?ks = "kept mf a nvs" let ?b = "rest_attr ?ks a"
  have len: "length (vals_of a) = length (nvals_of a)" using assms by (simp add: attr_ok_def)
  have "a_nvals a = Shared \<Longrightarrow> map snd ?ks = map fst ?ks"
    by (auto simp: kept_def nvals_of_def zip_same_conv_map)
  moreover have "a_vals a = None \<Longrightarrow> ?ks = []" by (simp add: kept_def vals_of_def)
  ultimately have b: "vals_of ?b = map fst ?ks" "nvals_of ?b = map snd ?ks"
    by (auto simp: rest_attr_def vals_of_def nvals_of_def split: option.splits nvals.splits)
  have "sorted_by mf (map snd ?ks)" if "sorted_by mf (nvals_of a)"
  proof -
    have "sorted_wrt (\<lambda>x y. mf (snd x) (snd y) < 0) (zip (vals_of a) (nvals_of a))"
      using that len by (simp add: sorted_by_def sorted_wrt_iff_nth_less)
    then show ?thesis by (simp add: sorted_by_def sorted_wrt_map kept_def sorted_wrt_filter)
  qed
  with assms show "attr_ok mf ?b" by (auto simp: attr_ok_def b) (simp_all add: rest_attr_def)
  show "zip (vals_of ?b) (nvals_of ?b) = ?ks" by (simp add: b zip_map_fst_snd)
  show "a_desc ?b = a_desc a" by (simp add: rest_attr_def)
qed

lemma delete_places_correct:
  assumes "matching_order mf" "attr_ok mf a" "distinct_by mf (nvals_of a)"
    "\<not> has (sat_flags (type_of sc (a_desc a))) SLAP_AT_ORDERED" "attr_find (e_attrs e) desc = Some a"
    "list_all2 (\<lambda>i p. 0 \<le> i \<and> nat i < length (nvals_of a) \<and> mf (nvals_of a ! nat i) (normal p) = 0) is ps"
  shows "delete_places sc e desc a rc is =
    (let ks = kept mf a (map normal ps) in
     Some (rc, if ks = [] then e\<lparr>e_attrs := snd (attr_delete (e_attrs e) desc)\<rparr> else set_attr e desc (rest_attr ks a)))"
proof -
  let ?vs = "vals_of a" let ?nvs = "nvals_of a" let ?ks = "kept mf a (map normal ps)"
  let ?P = "\<lambda>z. \<exists>p\<in>set ps. mf (snd z) (normal p) = 0"
  have len: "length ?vs = length ?nvs" "a_numvals a = length ?nvs" using assms(2) by (simp_all add: attr_ok_def)
  have ks: "?ks = filter (\<lambda>z. \<not> ?P z) (zip ?vs ?nvs)" by (auto simp: kept_def intro!: filter_cong)
  have "\<forall>i\<in>set is. 0 \<le> i \<and> nat i < length (replicate (length ?nvs) False)"
    using assms(6) by (auto simp: list_all2_conv_all_nth in_set_conv_nth)
  from mark_gone_correct [OF this] places_gone [OF assms(1,3) len(1) assms(6)]
  have mark: "mark_gone is (replicate (length ?vs) False) (a_numvals a) = Some (map ?P (zip ?vs ?nvs), length ?ks)"
    by (simp add: len Let_def count_gone ks del: filter_map length_filter_map)
  have "map_option (compact (map ?P (zip ?vs ?nvs))) (a_vals a) = map_option (\<lambda>_. map fst ?ks) (a_vals a)"
    using compact_pairs(1) [OF len(1), of ?P] by (auto simp: ks vals_of_def split: option.splits)
  moreover have "(case a_nvals a of Shared \<Rightarrow> Shared | Own nvs \<Rightarrow> Own (compact (map ?P (zip ?vs ?nvs)) nvs)) =
      (case a_nvals a of Shared \<Rightarrow> Shared | Own nvs \<Rightarrow> Own (map snd ?ks))"
    using compact_pairs(2) [OF len(1), of ?P] by (auto simp: ks split: nvals.splits)
  ultimately have rest: "a\<lparr>a_vals := map_option (compact (map ?P (zip ?vs ?nvs))) (a_vals a),
      a_nvals := (case a_nvals a of Shared \<Rightarrow> Shared | Own nvs \<Rightarrow> Own (compact (map ?P (zip ?vs ?nvs)) nvs)),
      a_numvals := length ?ks\<rparr> = rest_attr ?ks a" by (simp only: rest_attr_def)
  show ?thesis
    unfolding delete_places_def mark using attr_delete_found [OF assms(5)] ordered_val [OF assms(4)] len
    by (auto simp: abort_simps Let_def rest rest_attr_ok(3) [OF assms(2)] LDAP_SUCCESS_def split: prod.split)
qed

lemma delete_values_correct:
  assumes "matching_order mf" "equality_by sc (sm_desc md) mf" "\<not> has (sat_flags (type_of sc (sm_desc md))) SLAP_AT_ORDERED"
    "mod_values_ok sc md vs" "attr_find (e_attrs e) (sm_desc md) = Some a" "attr_ok mf a" "distinct_by mf (nvals_of a)"
    "distinct (map a_desc (e_attrs e))"
  shows "if \<forall>w\<in>set (normals md vs). \<exists>v\<in>set (nvals_of a). mf v w = 0
    then \<exists>e'. modify_delete_values sc e md False = Some (LDAP_SUCCESS, e') \<and>
      (\<forall>d. d \<noteq> sm_desc md \<longrightarrow> attr_find (e_attrs e') d = attr_find (e_attrs e) d) \<and>
      (case attr_find (e_attrs e') (sm_desc md) of
         None \<Rightarrow> kept mf a (normals md vs) = []
       | Some a' \<Rightarrow> kept mf a (normals md vs) \<noteq> [] \<and> attr_ok mf a' \<and> zip (vals_of a') (nvals_of a') = kept mf a (normals md vs))
    else modify_delete_values sc e md False = Some (LDAP_NO_SUCH_ATTRIBUTE, e)"
proof -
  let ?nvs = "normals md vs" let ?fl = "match_flags sc md" let ?desc = "sm_desc md"
  note desc = attr_find_desc [OF assms(5)]
  obtain ps where ps: "mod_pairs md = Some ps" "length ps = length vs" "map normal ps = ?nvs"
    using mod_pairs_ok [OF assms(4)] by blast
  have eq: "\<not> no_equality sc ?desc" using assms(2) by (auto simp: no_equality_def equality_by_def)
  have all: "(\<forall>w\<in>set ?nvs. \<exists>v\<in>set (nvals_of a). mf v w = 0) \<longleftrightarrow> list_all (present mf a) ps"
    by (simp add: ps(3) [symmetric] list_all_iff present_def)
  have del: "modify_delete_vindex sc e md False = (do {
      r \<leftarrow> locate sc a ?fl False 0 ps;
      case r of Inl rc \<Rightarrow> Some (rc, e, [])
      | Inr (rc, is) \<Rightarrow> map_option (\<lambda>(rc, e). (rc, e, is)) (delete_places sc e ?desc a rc is) })"
    using assms(4) ps(1,2) eq assms(5) by (simp add: modify_delete_vindex_def mod_values_ok_def abort_simps)
  note loc = locate_correct [where ps = ps and rc = 0 and flags = ?fl,
      OF assms(1) assms(2,3) [folded desc] assms(6) match_flags_search [OF assms(4), folded desc]]
  show ?thesis
  proof (cases "list_all (present mf a) ps")
    case True
    with loc obtain "is" where "locate sc a ?fl False 0 ps = Some (Inr (LDAP_SUCCESS, is))"
      "list_all2 (\<lambda>i p. 0 \<le> i \<and> nat i < length (nvals_of a) \<and> mf (nvals_of a ! nat i) (normal p) = 0) is ps"
      by (auto simp: LDAP_SUCCESS_def split: if_splits)
    with delete_places_correct [OF assms(1,6,7) _ assms(5), of sc "is" ps LDAP_SUCCESS] assms(3) desc
    have r: "modify_delete_values sc e md False =
        (let ks = kept mf a ?nvs in
         Some (LDAP_SUCCESS, if ks = [] then e\<lparr>e_attrs := snd (attr_delete (e_attrs e) ?desc)\<rparr> else set_attr e ?desc (rest_attr ks a)))"
      by (simp add: modify_delete_values_def del ps(3) Let_def)
    show ?thesis
      using True unfolding all r
      by (auto simp: Let_def attr_find_delete [OF assms(8)] set_attr_def attr_find_put [OF assms(5)] rest_attr_ok [OF assms(6)] desc)
  next
    case False
    with loc have "modify_delete_values sc e md False = Some (LDAP_NO_SUCH_ATTRIBUTE, e)"
      by (simp add: modify_delete_values_def del)
    with False show ?thesis unfolding all by simp
  qed
qed

text \<open>C12. Deleting values of an attribute deletes exactly the values that equal one of those given under the
  equality rule and keeps the others in their order, with their normalised forms; an attribute without values is removed; other
  attributes stay. When a value to delete is not there, nothing is changed and the result is noSuchAttribute.\<close>

theorem modify_delete_correct:
  assumes "matching_order mf" "equality_by sc (sm_desc md) mf" "\<not> has (sat_flags (type_of sc (sm_desc md))) SLAP_AT_ORDERED"
    "mod_values_ok sc md vs" "attr_find (e_attrs e) (sm_desc md) = Some a" "attr_ok mf a" "distinct_by mf (nvals_of a)"
    "distinct (map a_desc (e_attrs e))"
  shows "if \<forall>w\<in>set (normals md vs). \<exists>v\<in>set (nvals_of a). mf v w = 0
    then \<exists>e'. modify_delete_values sc e md False = Some (LDAP_SUCCESS, e') \<and>
      (\<forall>d. d \<noteq> sm_desc md \<longrightarrow> attr_find (e_attrs e') d = attr_find (e_attrs e) d) \<and>
      (case attr_find (e_attrs e') (sm_desc md) of
         None \<Rightarrow> kept mf a (normals md vs) = []
       | Some a' \<Rightarrow> kept mf a (normals md vs) \<noteq> [] \<and> attr_ok mf a' \<and> zip (vals_of a') (nvals_of a') = kept mf a (normals md vs))
    else modify_delete_values sc e md False = Some (LDAP_NO_SUCH_ATTRIBUTE, e)"
  by (rule delete_values_correct [OF assms])

lemma modify_delete_correct_witness:
  "\<exists>e'. modify_delete_values octet_schema
      \<lparr>e_name = [], e_nname = [], e_ocflags = 0, e_attrs = [sorted_attr 0 [''b'', ''aa'', ''ccc'']]\<rparr>
      \<lparr>sm_desc = 0, sm_values = Some [''AA''], sm_nvalues = Some [''aa''], sm_numvals = 1, sm_op = MOD_DELETE, sm_flags = 0\<rparr> False
    = Some (LDAP_SUCCESS, e')"
proof -
  let ?a = "sorted_attr 0 [''b'', ''aa'', ''ccc'']"
  have "attr_ok ber_bvcmp ?a" by (rule sorted_attr_ok) (simp add: sorted_by_def ber_bvcmp_def)
  moreover have "distinct_by ber_bvcmp (nvals_of ?a)" by (auto simp: distinct_by_def ber_bvcmp_def)
  moreover have "\<not> has (sat_flags (type_of octet_schema 0)) SLAP_AT_ORDERED"
    by (simp add: type_of_octet octet_type_def masks)
  moreover have "ber_bvcmp ''aa'' ''aa'' = 0" by (simp add: ber_bvcmp_def)
  ultimately show ?thesis
    using modify_delete_correct [OF octet.matching_order_axioms equality_by_octet,
        of "\<lparr>sm_desc = 0, sm_values = Some [''AA''], sm_nvalues = Some [''aa''], sm_numvals = 1, sm_op = MOD_DELETE, sm_flags = 0\<rparr>"
          "[''AA'']" "\<lparr>e_name = [], e_nname = [], e_ocflags = 0, e_attrs = [?a]\<rparr>" ?a]
    by (auto simp: mod_values_ok_def normals_def)
qed

text \<open>In permissive mode a value that is not there is no error, but when it is the last one given, its result code is
  returned although the other values were deleted.\<close>

lemma permissive_delete_reports_error:
  "map_option fst (modify_delete_values octet_schema
      \<lparr>e_name = [], e_nname = [], e_ocflags = 0, e_attrs = [sorted_attr 0 [''b'', ''aa'', ''ccc'']]\<rparr>
      \<lparr>sm_desc = 0, sm_values = Some [''aa'', ''x''], sm_nvalues = Some [''aa'', ''x''], sm_numvals = 2, sm_op = MOD_DELETE, sm_flags = 0\<rparr> True)
   = Some LDAP_NO_SUCH_ATTRIBUTE"
  "map_option fst (modify_delete_values octet_schema
      \<lparr>e_name = [], e_nname = [], e_ocflags = 0, e_attrs = [sorted_attr 0 [''b'', ''aa'', ''ccc'']]\<rparr>
      \<lparr>sm_desc = 0, sm_values = Some [''x'', ''aa''], sm_nvalues = Some [''x'', ''aa''], sm_numvals = 2, sm_op = MOD_DELETE, sm_flags = 0\<rparr> True)
   = Some LDAP_SUCCESS"
  by code_simp+

section \<open>Adding values\<close>

lemma check_new_correct:
  assumes "matching_order mf" "equality_by sc (a_desc a) mf" "\<not> has (sat_flags (type_of sc (a_desc a))) SLAP_AT_ORDERED"
    "attr_ok mf a" "searched_as_is sc (a_desc a) flags" "\<not> has flags SLAP_MR_ORDERING"
  shows "check_new sc a flags permissive ps =
    Some (if \<not> permissive \<and> (\<exists>p\<in>set ps. present mf a p) then Inl LDAP_TYPE_OR_VALUE_EXISTS
          else Inr (filter (\<lambda>p. \<not> present mf a p) ps))"
proof (induction ps)
  case (Cons p ps)
  from valfind_slot [OF assms, of "normal p"] obtain i where
    i: "attr_valfind sc a flags (normal p) = Some (if present mf a p then LDAP_SUCCESS else LDAP_NO_SUCH_ATTRIBUTE, Some i)"
    unfolding present_def by blast
  have codes: "LDAP_NO_SUCH_ATTRIBUTE \<noteq> LDAP_SUCCESS" by (simp add: LDAP_NO_SUCH_ATTRIBUTE_def LDAP_SUCCESS_def)
  then show ?case using Cons.IH i by (cases permissive; cases "present mf a p") auto
qed simp

lemma at_desc_put:
  "attr_find as desc = Some a \<Longrightarrow> old a = Some (rc, a') \<Longrightarrow> at_desc desc old new as = Some (rc, put_attr desc a' as)"
  by (induction as) (auto split: if_splits)

lemma put_attr_descs: "a_desc a = desc \<Longrightarrow> map a_desc (put_attr desc a as) = map a_desc as"
  by (induction as) auto

lemma pairs_nvals: "attr_ok mf a \<Longrightarrow> image_mset snd (pairs a) = mset (nvals_of a)"
  by (simp add: pairs_def attr_ok_def mset_map [symmetric] del: mset_map)

lemma distinct_by_mset: "mset vs = mset ws \<Longrightarrow> distinct_by mf vs \<longleftrightarrow> distinct_by mf ws"
  using mset_eq_imp_distinct_iff [of vs ws] mset_eq_setD [of vs ws] by (simp add: distinct_by_def)

lemma distinct_by_append:
  assumes "matching_order mf" "distinct_by mf vs" "distinct_by mf ws" "\<forall>v\<in>set vs. \<forall>w\<in>set ws. mf v w \<noteq> 0"
  shows "distinct_by mf (vs @ ws)"
proof -
  have "set vs \<inter> set ws = {}" using assms(4) matching_order.mf_refl [OF assms(1)] by blast
  with assms(2-4) show ?thesis
    by (auto simp: distinct_by_def) (metis assms(1) matching_order.mf_eq_swap)
qed

text \<open>Values that are new and pairwise different are all taken.\<close>

lemma valadd_all:
  assumes "matching_order mf" "equality_by sc (a_desc a) mf" "attr_ok mf a" "nvals_of a \<noteq> []" "a_vals a \<noteq> None"
    "nvals = None \<longleftrightarrow> a_nvals a = Shared" "case nvals of None \<Rightarrow> True | Some nvs \<Rightarrow> length nvs = length vals"
    "ws = (case nvals of None \<Rightarrow> vals | Some nvs \<Rightarrow> nvs)" "distinct_by mf (nvals_of a @ ws)"
  shows "\<exists>a'. attr_valadd sc a vals nvals (length vals) = Some (0, a') \<and> attr_ok mf a' \<and> a_desc a' = a_desc a \<and>
    pairs a' = pairs a + mset (zip vals ws)"
proof -
  have len: "length ws = length vals" using assms(7,8) by (auto split: option.splits)
  from valadd_correct [OF assms(1-3) _ assms(7)] assms(4-6)
  obtain rc a' k where r: "attr_valadd sc a vals nvals (length vals) = Some (rc, a')" "attr_ok mf a'" "a_desc a' = a_desc a"
    "k \<le> length (zip vals ws)" "pairs a' = pairs a + mset (take k (zip vals ws))"
    "if k = length (zip vals ws) then rc = 0
     else rc = LDAP_TYPE_OR_VALUE_EXISTS \<and> (\<exists>v\<in>set (nvals_of a'). mf v (snd (zip vals ws ! k)) = 0)"
    unfolding assms(8) by auto
  have "k = length (zip vals ws)"
  proof (rule ccontr)
    assume "k \<noteq> length (zip vals ws)"
    with r(4) have k: "k < length vals" "k < length ws" using len by auto
    with r(6) len obtain v where v: "v \<in> set (nvals_of a')" "mf v (ws ! k) = 0" by (auto split: if_splits)
    have "mset (nvals_of a') = mset (nvals_of a @ take k ws)"
      using arg_cong [OF r(5), of "image_mset snd"] pairs_nvals [OF r(2)] pairs_nvals [OF assms(3)] len
      by (simp add: take_zip mset_map [symmetric] del: mset_map)
    from mset_eq_setD [OF this] v(1) have in_front: "v \<in> set (nvals_of a @ take k ws)" by simp
    then have "v \<in> set (nvals_of a @ ws)" by (auto dest: in_set_takeD)
    with v(2) k(2) assms(9) have "v = ws ! k" by (auto simp: distinct_by_def)
    moreover have "ws ! k \<in> set (drop k ws)" using Cons_nth_drop_Suc [OF k(2)] by (metis list.set_intros(1))
    moreover have "distinct ((nvals_of a @ take k ws) @ drop k ws)" using assms(9) by (simp add: distinct_by_def)
    ultimately show False using in_front unfolding distinct_append by blast
  qed
  with r show ?thesis by auto
qed

lemma add_values_correct:
  assumes "matching_order mf" "equality_by sc (sm_desc md) mf" "\<not> has (sat_flags (type_of sc (sm_desc md))) SLAP_AT_ORDERED"
    "mod_values_ok sc md vs" "sm_op md = MOD_ADD" "attr_find (e_attrs e) (sm_desc md) = Some a" "attr_ok mf a" "nvals_of a \<noteq> []"
    "a_vals a \<noteq> None" "sm_nvalues md = None \<longleftrightarrow> a_nvals a = Shared" "distinct_by mf (nvals_of a)" "distinct_by mf (normals md vs)"
  shows "if \<exists>w\<in>set (normals md vs). \<exists>v\<in>set (nvals_of a). mf v w = 0
    then modify_add_values righteous sc e md False = Some (LDAP_TYPE_OR_VALUE_EXISTS, e)
    else \<exists>a'. modify_add_values righteous sc e md False = Some (LDAP_SUCCESS, set_attr e (sm_desc md) a') \<and>
      attr_ok mf a' \<and> a_desc a' = sm_desc md \<and> pairs a' = pairs a + mset (zip vs (normals md vs)) \<and> distinct_by mf (nvals_of a')"
proof -
  let ?nvs = "normals md vs" let ?fl = "match_flags sc md" let ?desc = "sm_desc md"
  note desc = attr_find_desc [OF assms(6)]
  obtain ps where ps: "mod_pairs md = Some ps" "length ps = length vs" "map fst ps = vs" "map normal ps = ?nvs"
    using mod_pairs_ok [OF assms(4)] by blast
  have eq: "\<not> no_equality sc ?desc" using assms(2) by (auto simp: no_equality_def equality_by_def)
  have ex: "(\<exists>w\<in>set ?nvs. \<exists>v\<in>set (nvals_of a). mf v w = 0) \<longleftrightarrow> (\<exists>p\<in>set ps. present mf a p)"
    by (simp add: ps(4) [symmetric] present_def)
  have new: "check_new sc a ?fl False ps =
      Some (if \<exists>p\<in>set ps. present mf a p then Inl LDAP_TYPE_OR_VALUE_EXISTS else Inr (filter (\<lambda>p. \<not> present mf a p) ps))"
    using check_new_correct [where flags = ?fl and permissive = False,
        OF assms(1) assms(2,3) [folded desc] assms(7) match_flags_search [OF assms(4), folded desc]] by simp
  have start: "modify_add_values righteous sc e md False =
      (if \<exists>p\<in>set ps. present mf a p then Some (LDAP_TYPE_OR_VALUE_EXISTS, e) else add_pairs righteous sc e md ps)"
    using assms(4-6) ps(1,2) eq new by (simp add: modify_add_values_def mod_values_ok_def abort_simps)
  show ?thesis
  proof (cases "\<exists>p\<in>set ps. present mf a p")
    case True
    then show ?thesis unfolding ex start by simp
  next
    case False
    let ?nvals = "if sm_nvalues md = None then None else Some ?nvs"
    have nv: "case ?nvals of None \<Rightarrow> True | Some nvs \<Rightarrow> length nvs = length vs"
      "?nvs = (case ?nvals of None \<Rightarrow> vs | Some nvs \<Rightarrow> nvs)" "?nvals = None \<longleftrightarrow> a_nvals a = Shared"
      using assms(4,10) by (auto simp: normals_def mod_values_ok_def split: option.splits)
    have all: "distinct_by mf (nvals_of a @ ?nvs)"
      using distinct_by_append [OF assms(1,11,12)] False ex by blast
    from valadd_all [OF assms(1) assms(2) [folded desc] assms(7-9) nv(3,1,2) all]
    obtain a' where a': "attr_valadd sc a vs ?nvals (length vs) = Some (0, a')" "attr_ok mf a'" "a_desc a' = ?desc"
      "pairs a' = pairs a + mset (zip vs ?nvs)" using desc by auto
    have "merge_old righteous sc vs ?nvals a = Some (0, a')"
      using a'(1) nv(3) assms(9) by (auto simp: merge_old_def abort_simps split: option.splits if_splits)
    from at_desc_put [where old = "merge_old righteous sc vs ?nvals", OF assms(6) this]
    have "attr_merge righteous sc e ?desc vs ?nvals = Some (0, set_attr e ?desc a')"
      by (simp add: attr_merge_def set_attrs_def set_attr_def)
    then have "modify_add_values righteous sc e md False = Some (LDAP_SUCCESS, set_attr e ?desc a')"
      using start False ordered_val [OF assms(3)] by (auto simp: add_pairs_def ps(3,4) Let_def split: if_splits)
    moreover have "length ?nvs = length vs" using ps(2,4) by (metis length_map)
    then have "mset (nvals_of a') = mset (nvals_of a @ ?nvs)"
      using arg_cong [OF a'(4), of "image_mset snd"] pairs_nvals [OF a'(2)] pairs_nvals [OF assms(7)]
      by (simp add: mset_map [symmetric] del: mset_map)
    with all have "distinct_by mf (nvals_of a')" using distinct_by_mset by blast
    ultimately show ?thesis using False a'(2-4) unfolding ex by auto
  qed
qed

text \<open>C13. Adding values and deleting them again restores the attribute: new values that differ from each other and
  from those of the attribute are all added, deleting them leaves the values there were, each with its normalised
  form, and no other attribute is touched by either.\<close>

theorem modify_add_delete:
  assumes "matching_order mf" "equality_by sc (sm_desc md) mf" "\<not> has (sat_flags (type_of sc (sm_desc md))) SLAP_AT_ORDERED"
    "mod_values_ok sc md vs" "sm_op md = MOD_ADD" "attr_find (e_attrs e) (sm_desc md) = Some a" "attr_ok mf a" "nvals_of a \<noteq> []"
    "a_vals a \<noteq> None" "sm_nvalues md = None \<longleftrightarrow> a_nvals a = Shared" "distinct_by mf (nvals_of a @ normals md vs)"
    "distinct (map a_desc (e_attrs e))"
  shows "\<exists>e1 e2 a1 a2. modify_add_values righteous sc e md False = Some (LDAP_SUCCESS, e1) \<and>
    attr_find (e_attrs e1) (sm_desc md) = Some a1 \<and> attr_ok mf a1 \<and> pairs a1 = pairs a + mset (zip vs (normals md vs)) \<and>
    modify_delete_values sc e1 (md\<lparr>sm_op := MOD_DELETE\<rparr>) False = Some (LDAP_SUCCESS, e2) \<and>
    attr_find (e_attrs e2) (sm_desc md) = Some a2 \<and> attr_ok mf a2 \<and> pairs a2 = pairs a \<and>
    (\<forall>d. d \<noteq> sm_desc md \<longrightarrow> attr_find (e_attrs e2) d = attr_find (e_attrs e) d)"
proof -
  let ?nvs = "normals md vs" let ?desc = "sm_desc md" let ?md = "md\<lparr>sm_op := MOD_DELETE\<rparr>"
  have len: "length ?nvs = length vs" using assms(4) by (auto simp: mod_values_ok_def normals_def split: option.splits)
  have dist: "distinct_by mf (nvals_of a)" "distinct_by mf ?nvs" "\<forall>w\<in>set ?nvs. \<forall>v\<in>set (nvals_of a). mf v w \<noteq> 0"
    using assms(11) by (auto simp: distinct_by_def)
  from add_values_correct [OF assms(1-10) dist(1,2), of righteous] dist(3)
  obtain a1 where a1: "modify_add_values righteous sc e md False = Some (LDAP_SUCCESS, set_attr e ?desc a1)"
    "attr_ok mf a1" "a_desc a1 = ?desc" "pairs a1 = pairs a + mset (zip vs ?nvs)" "distinct_by mf (nvals_of a1)"
    by (auto split: if_splits)
  let ?e1 = "set_attr e ?desc a1"
  have e1: "attr_find (e_attrs ?e1) d = (if d = ?desc then Some a1 else attr_find (e_attrs e) d)" for d
    using attr_find_put [OF assms(6) a1(3)] by (simp add: set_attr_def)
  have "distinct (map a_desc (e_attrs ?e1))" using assms(12) by (simp add: set_attr_def put_attr_descs [OF a1(3)])
  note del = delete_values_correct [of mf sc ?md vs ?e1 a1, OF assms(1) _ _ _ _ a1(2,5) this]
  have "mset (nvals_of a1) = mset (nvals_of a) + mset ?nvs"
    using arg_cong [OF a1(4), of "image_mset snd"] pairs_nvals [OF a1(2)] pairs_nvals [OF assms(7)] len
    by (simp add: mset_map [symmetric] del: mset_map)
  then have here: "\<forall>w\<in>set ?nvs. \<exists>v\<in>set (nvals_of a1). mf v w = 0"
    using matching_order.mf_refl [OF assms(1)] by (metis UnI2 mset_append mset_eq_setD set_append)
  have "mset (kept mf a1 ?nvs) = filter_mset (\<lambda>(v, nv). \<forall>w\<in>set ?nvs. mf nv w \<noteq> 0) (pairs a1)"
    by (simp add: kept_def pairs_def mset_filter)
  also have "\<dots> = filter_mset (\<lambda>(v, nv). \<forall>w\<in>set ?nvs. mf nv w \<noteq> 0) (pairs a) +
      filter_mset (\<lambda>(v, nv). \<forall>w\<in>set ?nvs. mf nv w \<noteq> 0) (mset (zip vs ?nvs))" by (simp add: a1(4))
  also have "filter_mset (\<lambda>(v, nv). \<forall>w\<in>set ?nvs. mf nv w \<noteq> 0) (pairs a) = pairs a"
    using dist(3) by (auto simp: filter_mset_eq_conv pairs_def dest: set_zip_rightD)
  also have "filter_mset (\<lambda>(v, nv). \<forall>w\<in>set ?nvs. mf nv w \<noteq> 0) (mset (zip vs ?nvs)) = {#}"
    using matching_order.mf_refl [OF assms(1)] by (fastforce simp: filter_mset_eq_conv dest: set_zip_rightD)
  finally have kept: "mset (kept mf a1 ?nvs) = pairs a" by simp
  moreover have "pairs a \<noteq> {#}" using assms(8) pairs_nvals [OF assms(7)] by auto
  ultimately have "kept mf a1 ?nvs \<noteq> []" by auto
  moreover have md: "mod_values_ok sc ?md vs" "normals ?md vs = ?nvs" "sm_desc ?md = ?desc"
    using assms(4) by (simp_all add: mod_values_ok_def normals_def split: option.splits)
  ultimately obtain e2 a2 where "modify_delete_values sc ?e1 ?md False = Some (LDAP_SUCCESS, e2)"
    "\<forall>d. d \<noteq> ?desc \<longrightarrow> attr_find (e_attrs e2) d = attr_find (e_attrs e) d" "attr_find (e_attrs e2) ?desc = Some a2"
    "attr_ok mf a2" "zip (vals_of a2) (nvals_of a2) = kept mf a1 ?nvs"
    using del [unfolded md(2,3), OF assms(2,3) md(1)] here e1 by (fastforce split: option.splits)
  with a1 e1 kept show ?thesis by (intro exI [of _ ?e1] exI [of _ e2] exI [of _ a1] exI [of _ a2]) (auto simp: pairs_def)
qed

lemma modify_add_delete_witness:
  "\<exists>e1 e2. modify_add_values True octet_schema
      \<lparr>e_name = [], e_nname = [], e_ocflags = 0, e_attrs = [sorted_attr 0 [''b'', ''aa'']]\<rparr>
      \<lparr>sm_desc = 0, sm_values = Some [''c'', ''a''], sm_nvalues = None, sm_numvals = 2, sm_op = MOD_ADD, sm_flags = 0\<rparr> False = Some (LDAP_SUCCESS, e1) \<and>
    modify_delete_values octet_schema e1
      \<lparr>sm_desc = 0, sm_values = Some [''c'', ''a''], sm_nvalues = None, sm_numvals = 2, sm_op = MOD_DELETE, sm_flags = 0\<rparr> False = Some (LDAP_SUCCESS, e2)"
proof -
  let ?a = "sorted_attr 0 [''b'', ''aa'']"
  let ?md = "\<lparr>sm_desc = 0, sm_values = Some [''c'', ''a''], sm_nvalues = None, sm_numvals = 2, sm_op = MOD_ADD, sm_flags = 0\<rparr>"
  have "attr_ok ber_bvcmp ?a" by (rule sorted_attr_ok) (simp add: sorted_by_def ber_bvcmp_def)
  moreover have "distinct_by ber_bvcmp (nvals_of ?a @ normals ?md [''c'', ''a''])"
    by (simp add: distinct_by_def normals_def ber_bvcmp_def)
  moreover have "\<not> has (sat_flags (type_of octet_schema 0)) SLAP_AT_ORDERED"
    by (simp add: type_of_octet octet_type_def masks)
  moreover have "mod_values_ok octet_schema ?md [''c'', ''a'']"
    by (simp add: mod_values_ok_def normalizer_def type_of_octet octet_type_def mr_octet octet_rule_def)
  ultimately show ?thesis
    using modify_add_delete [OF octet.matching_order_axioms equality_by_octet, of ?md "[''c'', ''a'']"
          "\<lparr>e_name = [], e_nname = [], e_ocflags = 0, e_attrs = [?a]\<rparr>" ?a True] by auto
qed

section \<open>Incrementing values\<close>

lemma digits_plain:
  assumes "0 \<le> x"
  shows "takeWhile (\<lambda>c. c \<noteq> NUL) (digits_of 10 x) = digits_of 10 x" "\<not> isspace (byte (digits_of 10 x) 0)"
proof -
  have d: "list_all (digit_below 10) (digits_of 10 x)" "digits_of 10 x \<noteq> []" using digits_of_spec [of x 10] assms by auto
  have "\<not> digit_below 10 NUL" by code_simp
  with d(1) show "takeWhile (\<lambda>c. c \<noteq> NUL) (digits_of 10 x) = digits_of 10 x" by (auto simp: list_all_iff)
  show "\<not> isspace (byte (digits_of 10 x) 0)"
    using d digit_below_plain [of 10 "digits_of 10 x ! 0"] by (auto simp: byte_def list_all_length)
qed

text \<open>A printed integer is read back.\<close>

lemma lutil_atol_print:
  assumes "- (2 ^ 63) \<le> x" "x < 2 ^ 63"
  shows "lutil_atol (print_int x) = Some x"
proof (cases "x < 0")
  case True
  let ?d = "digits_of 10 (- x)"
  have d: "xvalue 10 ?d = - x" "list_all (digit_below 10) ?d" "?d \<noteq> []" using digits_of_spec [of "- x" 10] True by auto
  then have tw: "takeWhile (digit_below 10) ?d = ?d" by (simp add: list_all_iff)
  have s: "takeWhile (\<lambda>c. c \<noteq> NUL) (CHR ''-'' # ?d) = CHR ''-'' # ?d" "\<not> isspace (byte (CHR ''-'' # ?d) 0)"
    using digits_plain [of "- x"] True by (simp_all add: byte_def isspace_def)
  have "strtol 10 (CHR ''-'' # ?d) = (x, Suc (length ?d))"
    using True d by (simp add: strtol_def isspace_def Let_def tw)
  with True assms show ?thesis unfolding lutil_atol_def print_int_def Let_def by (simp add: s del: takeWhile.simps)
next
  case False
  with digits_of_spec [of x 10] assms show ?thesis
    unfolding lutil_atol_def print_int_def Let_def by (simp add: digits_plain strtol_digits_of)
qed

definition is_long :: "int \<Rightarrow> bool" where
  "is_long x \<longleftrightarrow> - (2 ^ 63) \<le> x \<and> x < 2 ^ 63"

lemma increment_correct:
  "\<forall>x\<in>set xs. is_long x \<and> is_long (x + incr) \<Longrightarrow>
   increment incr (map print_int xs) = Some (LDAP_SUCCESS, map (\<lambda>x. print_int (x + incr)) xs)"
  by (induction xs) (simp_all add: lutil_atol_print is_long_def abort_simps)

text \<open>The values of an integer attribute are all incremented, and no other attribute is changed.\<close>

lemma modify_increment_adds:
  assumes "attr_find (e_attrs e) (sm_desc md) = Some a" "a_vals a = Some (map print_int xs)" "a_nvals a = Shared"
    "at_syntax (at_count sc) (at_store sc) (Some (ad_type (ad_store sc (sm_desc md)))) = Some SLAPD_INTEGER_SYNTAX"
    "sm_values md = Some [print_int incr]" "is_long incr" "\<forall>x\<in>set xs. is_long x \<and> is_long (x + incr)"
  shows "\<exists>e' a'. modify_increment_values righteous sc e md permissive = Some (LDAP_SUCCESS, e') \<and>
    attr_find (e_attrs e') (sm_desc md) = Some a' \<and> vals_of a' = map (\<lambda>x. print_int (x + incr)) xs \<and>
    (\<forall>d. d \<noteq> sm_desc md \<longrightarrow> attr_find (e_attrs e') d = attr_find (e_attrs e) d)"
proof -
  let ?ws = "map (\<lambda>x. print_int (x + incr)) xs" let ?a = "a\<lparr>a_vals := Some ?ws\<rparr>"
  note desc = attr_find_desc [OF assms(1)]
  have nv: "nvals_of a = map print_int xs" using assms(2,3) by (simp add: nvals_of_def vals_of_def)
  have "modify_increment_values righteous sc e md permissive =
      Some (LDAP_SUCCESS, if incr = 0 then e else set_attr e (sm_desc md) ?a)"
    using assms(1-6) desc lutil_atol_print [of incr] increment_correct [OF assms(7)]
    by (simp add: modify_increment_values_def is_long_def abort_simps nv set_nvals_def)
  moreover have "incr = 0 \<Longrightarrow> vals_of a = ?ws" using assms(2) by (simp add: vals_of_def)
  ultimately show ?thesis
    using assms(1) attr_find_put [OF assms(1), of ?a] desc by (cases "incr = 0") (auto simp: set_attr_def vals_of_def)
qed

text \<open>The sum is not checked: at the end of the range the addition overflows.\<close>

lemma increment_overflows: "increment 1 [print_int (2 ^ 63 - 1)] = None"
  using lutil_atol_print [of "2 ^ 63 - 1"] by (simp add: ensure_def)

end
