(* ===== verification/Sort_Values.thy ===== *)
theory Sort_Values
  imports Modify_Values
begin

text \<open>
  The sort of the values of an attribute, \<^verbatim>\<open>slap_sort_vals\<close> of \<^verbatim>\<open>servers/slapd/modify.c\<close>: a quicksort over an
  array of indexes with a stack of its own and an insertion sort for small ranges, which stops at the first
  duplicate it meets. The functions take the comparison as an argument; \<open>None\<close> is an access outside an array, a failed
  assertion or no return.
\<close>

section \<open>Definitions\<close>

definition SMALL :: int where "SMALL = 8"

text \<open>\<^verbatim>\<open>COMP\<close> clears \<^verbatim>\<open>match\<close> before the comparison.\<close>

definition COMP :: "schema \<Rightarrow> nat \<Rightarrow> nat option \<Rightarrow> string \<Rightarrow> string \<Rightarrow> (int \<times> int) option" where
  "COMP sc ad mr v w = map_option (\<lambda>(rc, m). (rc, keep_match 0 m)) (ordered_value_match sc ad mr valadd_flags v w)"

definition val_at :: "string list \<Rightarrow> nat list \<Rightarrow> nat \<Rightarrow> string option" where
  "val_at cv ix x = (if x < length ix \<and> ix ! x < length cv then Some (cv ! (ix ! x)) else None)"

definition comp_at :: "(string \<Rightarrow> string \<Rightarrow> (int \<times> int) option) \<Rightarrow> string list \<Rightarrow> nat list \<Rightarrow> nat \<Rightarrow> string \<Rightarrow> (int \<times> int) option" where
  "comp_at cf cv ix x a = do { v \<leftarrow> val_at cv ix x; cf v a }"

definition exch :: "nat \<Rightarrow> nat \<Rightarrow> nat list \<Rightarrow> nat list option" where
  "exch x y ix = (if x < length ix \<and> y < length ix then Some (ix[x := ix ! y, y := ix ! x]) else None)"

text \<open>The inner loop of the insertion sort, with \<open>p\<close> for \<^verbatim>\<open>i + 1\<close>, and the outer loop for \<open>n\<close> values from \<open>j\<close>. \<open>Inl\<close> leaves with
  \<^verbatim>\<open>match\<close> 0 and the place \<^verbatim>\<open>i\<close>.\<close>

fun shift_down :: "(string \<Rightarrow> string \<Rightarrow> (int \<times> int) option) \<Rightarrow> string list \<Rightarrow> nat list \<Rightarrow> nat \<Rightarrow> string \<Rightarrow> int \<Rightarrow> int
    \<Rightarrow> (nat list \<times> nat \<times> int \<times> int) option" where
  "shift_down cf cv ix 0 a rc match = Some (ix, 0, rc, match)"
| "shift_down cf cv ix (Suc i) a rc match = do {
     (rc, match) \<leftarrow> comp_at cf cv ix i a;
     if match \<le> 0 then Some (ix, Suc i, rc, match) else shift_down cf cv (ix[Suc i := ix ! i]) i a rc match }"

fun insert_loop :: "(string \<Rightarrow> string \<Rightarrow> (int \<times> int) option) \<Rightarrow> string list \<Rightarrow> nat \<Rightarrow> nat \<Rightarrow> nat list \<Rightarrow> int \<Rightarrow> int
    \<Rightarrow> (int \<times> nat list \<times> int + nat list \<times> int) option" where
  "insert_loop cf cv 0 j ix rc match = Some (Inr (ix, rc))"
| "insert_loop cf cv (Suc n) j ix rc match = do {
     a \<leftarrow> val_at cv ix j;
     let itmp = ix ! j;
     (ix, p, rc, match) \<leftarrow> shift_down cf cv ix j a rc match;
     let ix = ix[p := itmp];
     if match = 0 then Some (Inl (int p - 1, ix, rc)) else insert_loop cf cv n (j + 1) ix rc match }"

text \<open>The median of three moves to \<open>l + 1\<close>.\<close>

definition median :: "(string \<Rightarrow> string \<Rightarrow> (int \<times> int) option) \<Rightarrow> string list \<Rightarrow> nat \<Rightarrow> nat \<Rightarrow> nat list
    \<Rightarrow> (int \<times> nat list \<times> int + nat list) option" where
  "median cf cv l ir ix = do {
     ix \<leftarrow> exch ((l + ir) div 2) (l + 1) ix;
     a \<leftarrow> val_at cv ix ir;
     (rc, match) \<leftarrow> comp_at cf cv ix l a;
     if match = 0 then Some (Inl (int ir, ix, rc))
     else do {
       ix \<leftarrow> (if match > 0 then exch l ir ix else Some ix);
       a \<leftarrow> val_at cv ix ir;
       (rc, match) \<leftarrow> comp_at cf cv ix (l + 1) a;
       if match = 0 then Some (Inl (int ir, ix, rc))
       else do {
         ix \<leftarrow> (if match > 0 then exch (l + 1) ir ix else Some ix);
         a \<leftarrow> val_at cv ix (l + 1);
         (rc, match) \<leftarrow> comp_at cf cv ix l a;
         if match = 0 then Some (Inl (int l, ix, rc))
         else do {
           ix \<leftarrow> (if match > 0 then exch l (l + 1) ix else Some ix);
           Some (Inr ix) } } } }"

text \<open>The scans of the partition: upwards as long as the values are smaller, downwards as long as they are greater.\<close>

function scan_up :: "(string \<Rightarrow> string \<Rightarrow> (int \<times> int) option) \<Rightarrow> string list \<Rightarrow> nat list \<Rightarrow> string \<Rightarrow> nat \<Rightarrow> (nat \<times> int \<times> int) option" where
  "scan_up cf cv ix a i = do {
     ensure (i + 1 < length ix);
     (rc, match) \<leftarrow> comp_at cf cv ix (i + 1) a;
     if match < 0 then scan_up cf cv ix a (i + 1) else Some (i + 1, rc, match) }"
  by auto
termination
  by (relation "measure (\<lambda>(cf, cv, ix, a, i). length ix - i)") (auto simp: ensure_def split: if_splits)

fun scan_down :: "(string \<Rightarrow> string \<Rightarrow> (int \<times> int) option) \<Rightarrow> string list \<Rightarrow> nat list \<Rightarrow> string \<Rightarrow> nat \<Rightarrow> int \<Rightarrow> int
    \<Rightarrow> (nat \<times> int \<times> int) option" where
  "scan_down cf cv ix a 0 rc match = (if match > 0 then None else Some (0, rc, match))"
| "scan_down cf cv ix a (Suc j) rc match =
     (if match > 0 then do {
        (rc, match) \<leftarrow> comp_at cf cv ix j a;
        scan_down cf cv ix a j rc match }
      else Some (Suc j, rc, match))"

declare scan_up.simps [simp del]

lemma scan_up_bounds: "scan_up cf cv ix a i = Some (i', rc, match) \<Longrightarrow> i < i' \<and> i' < length ix"
proof (induction cf cv ix a i rule: scan_up.induct)
  case (1 cf cv ix a i)
  show ?case
    using 1(2) 1(1) by (subst (asm) scan_up.simps) (fastforce simp: bind_eq_Some_conv ensure_def split: if_splits)
qed

lemma exch_length: "exch x y ix = Some ix' \<Longrightarrow> length ix' = length ix"
  by (auto simp: exch_def split: if_splits)

function part_loop :: "(string \<Rightarrow> string \<Rightarrow> (int \<times> int) option) \<Rightarrow> string list \<Rightarrow> string \<Rightarrow> nat \<Rightarrow> nat \<Rightarrow> nat \<Rightarrow> nat list
    \<Rightarrow> (int \<times> nat list \<times> int + nat \<times> nat \<times> nat list \<times> int) option" where
  "part_loop cf cv a l i j ix = do {
     (i, rc, match) \<leftarrow> scan_up cf cv ix a i;
     (j, rc, match) \<leftarrow> scan_down cf cv ix a j rc match;
     if j < i then Some (Inr (i, j, ix, rc))
     else if match = 0 then Some (Inl (int l + 1, ix, rc))
     else do { ix \<leftarrow> exch i j ix; part_loop cf cv a l i j ix } }"
  by auto
termination
  by (relation "measure (\<lambda>(cf, cv, a, l, i, j, ix). length ix - i)") (auto dest!: scan_up_bounds exch_length)

declare part_loop.simps [simp del]

definition partition_vals :: "(string \<Rightarrow> string \<Rightarrow> (int \<times> int) option) \<Rightarrow> string list \<Rightarrow> nat \<Rightarrow> nat \<Rightarrow> nat list
    \<Rightarrow> (int \<times> nat list \<times> int + nat \<times> nat \<times> nat list \<times> int) option" where
  "partition_vals cf cv l ir ix = do {
     r \<leftarrow> median cf cv l ir ix;
     case r of
       Inl d \<Rightarrow> Some (Inl d)
     | Inr ix \<Rightarrow> do {
         a \<leftarrow> val_at cv ix (l + 1);
         r \<leftarrow> part_loop cf cv a l (l + 1) ir ix;
         case r of
           Inl d \<Rightarrow> Some (Inl d)
         | Inr (i, j, ix, rc) \<Rightarrow> do { ix \<leftarrow> exch (l + 1) j ix; Some (Inr (i, j, ix, rc)) } } }"

text \<open>The main loop; \<^verbatim>\<open>istack\<close> has 64 elements, two for each range, and \<^verbatim>\<open>jstack\<close> is the index of the last one.\<close>

partial_function (option) qs_loop :: "(string \<Rightarrow> string \<Rightarrow> (int \<times> int) option) \<Rightarrow> string list \<Rightarrow> nat \<Rightarrow> nat \<Rightarrow> (nat \<times> nat) list \<Rightarrow>
    nat list \<Rightarrow> int \<Rightarrow> (int \<times> nat list \<times> int + nat list \<times> int) option" where
  "qs_loop cf cv l ir stack ix rc =
     (if int ir - int l < SMALL then do {
        r \<leftarrow> insert_loop cf cv (ir - l) (l + 1) ix rc 1;
        case r of
          Inl d \<Rightarrow> Some (Inl d)
        | Inr (ix, rc) \<Rightarrow>
            (case stack of
               [] \<Rightarrow> Some (Inr (ix, rc))
             | (l, ir) # stack \<Rightarrow> qs_loop cf cv l ir stack ix rc) }
      else do {
        r \<leftarrow> partition_vals cf cv l ir ix;
        case r of
          Inl d \<Rightarrow> Some (Inl d)
        | Inr (i, j, ix, rc) \<Rightarrow> do {
            ensure (2 * (length stack + 1) < 64);
            if int ir - int i + 1 > int j - int l then qs_loop cf cv l j ((i, ir) # stack) ix rc
            else qs_loop cf cv i ir ((l, j) # stack) ix rc } })"

declare qs_loop.simps [code]

definition reorder :: "nat list \<Rightarrow> 'a list \<Rightarrow> 'a list" where
  "reorder ix vs = map (\<lambda>i. vs ! i) ix @ drop (length ix) vs"

text \<open>The result code, \<^verbatim>\<open>*dup\<close> if it is written, and the two arrays; \<open>nvalues\<close> is \<open>None\<close> when the pointer is null or
  that of the values.\<close>

definition slap_sort_vals :: "schema \<Rightarrow> nat \<Rightarrow> nat \<Rightarrow> string list \<Rightarrow> string list option
    \<Rightarrow> (int \<times> nat option \<times> string list \<times> string list option) option" where
  "slap_sort_vals sc ad n vs nvs =
     (if n \<le> 1 then Some (LDAP_SUCCESS, None, vs, nvs)
      else do {
        let cv = (case nvs of None \<Rightarrow> vs | Some nvs \<Rightarrow> nvs);
        let mr = (if ad = si_ad_objectClass sc then None else sat_equality (type_of sc ad));
        r \<leftarrow> qs_loop (COMP sc ad mr) cv 0 (n - 1) [] [0..<n] LDAP_SUCCESS;
        case r of
          Inl (i, ix, rc) \<Rightarrow> do {
            ensure (i < int n);
            let dup = (if i \<ge> 0 then Some (ix ! nat i) else None);
            ensure (rc = LDAP_SUCCESS \<longrightarrow> i \<ge> 0);
            Some (if rc = LDAP_SUCCESS then LDAP_TYPE_OR_VALUE_EXISTS else rc, dup, vs, nvs) }
        | Inr (ix, rc) \<Rightarrow>
            if rc = LDAP_SUCCESS \<and> has (sat_flags (type_of sc ad)) SLAP_AT_SORTED_VAL then do {
              ensure (n \<le> length vs);
              Some (rc, None, reorder ix vs, map_option (reorder ix) nvs) }
            else Some (rc, None, vs, nvs) })"

section \<open>Ranges of an array of indexes\<close>

definition val_of :: "string list \<Rightarrow> nat list \<Rightarrow> nat \<Rightarrow> string" where
  "val_of cv ix x = cv ! (ix ! x)"

text \<open>The array is a permutation of the places of the values.\<close>

definition places :: "nat \<Rightarrow> string list \<Rightarrow> nat list \<Rightarrow> bool" where
  "places n cv ix \<longleftrightarrow> mset ix = mset [0..<n] \<and> n \<le> length cv"

lemma placesD:
  assumes "places n cv ix"
  shows "length ix = n" "distinct ix" "x < n \<Longrightarrow> ix ! x < length cv"
proof -
  show len: "length ix = n" using assms mset_eq_length [of ix "[0..<n]"] by (simp add: places_def)
  show "distinct ix" using assms mset_eq_imp_distinct_iff [of ix "[0..<n]"] by (simp add: places_def)
  have "set ix = {0..<n}" using assms mset_eq_setD [of ix "[0..<n]"] by (simp add: places_def)
  with len assms show "x < n \<Longrightarrow> ix ! x < length cv"
    using nth_mem [of x ix] by (auto simp: places_def simp del: nth_mem)
qed

lemma places_val_at: "places n cv ix \<Longrightarrow> x < n \<Longrightarrow> val_at cv ix x = Some (val_of cv ix x)"
  by (simp add: val_at_def val_of_def placesD)

lemma places_exch:
  assumes "places n cv ix" "x < n" "y < n"
  shows "exch x y ix = Some (ix[x := ix ! y, y := ix ! x])" "places n cv (ix[x := ix ! y, y := ix ! x])"
  using assms placesD(1) [OF assms(1)] by (simp_all add: exch_def places_def mset_swap)

text \<open>A permutation that moves the values between \<open>l\<close> and \<open>r\<close> only.\<close>

definition moves :: "nat \<Rightarrow> nat \<Rightarrow> nat list \<Rightarrow> nat list \<Rightarrow> bool" where
  "moves l r ix ix' \<longleftrightarrow> mset ix' = mset ix \<and> (\<forall>x<length ix. x < l \<or> r < x \<longrightarrow> ix' ! x = ix ! x)"

lemma moves_refl [simp]: "moves l r ix ix"
  by (simp add: moves_def)

lemma moves_trans: "moves l r ix ix1 \<Longrightarrow> moves l r ix1 ix2 \<Longrightarrow> moves l r ix ix2"
  by (auto simp: moves_def dest: mset_eq_length)

lemma moves_places: "moves l r ix ix' \<Longrightarrow> places n cv ix \<Longrightarrow> places n cv ix'"
  by (simp add: moves_def places_def)

lemma moves_swap: "l \<le> x \<Longrightarrow> x \<le> r \<Longrightarrow> l \<le> y \<Longrightarrow> y \<le> r \<Longrightarrow> r < length ix \<Longrightarrow> moves l r ix (ix[x := ix ! y, y := ix ! x])"
  by (auto simp: moves_def mset_swap nth_list_update)

lemma moves_origin:
  assumes "moves l r ix ix'" "places n cv ix" "l \<le> x" "x \<le> r" "x < n"
  shows "\<exists>y. l \<le> y \<and> y \<le> r \<and> y < n \<and> ix' ! x = ix ! y"
proof -
  have n: "length ix = n" "length ix' = n" "distinct ix'"
    using placesD [OF assms(2)] placesD [OF moves_places [OF assms(1,2)]] by auto
  have "ix' ! x \<in> set ix" using assms(1,5) n nth_mem [of x ix'] mset_eq_setD [of ix' ix] by (simp add: moves_def)
  then obtain y where y: "y < n" "ix' ! x = ix ! y" using n by (auto simp: in_set_conv_nth)
  have "l \<le> y \<and> y \<le> r"
  proof (rule ccontr)
    assume "\<not> (l \<le> y \<and> y \<le> r)"
    with assms(1) y n have "ix' ! y = ix' ! x" by (auto simp: moves_def)
    with n y(1) assms(5) have "y = x" by (simp add: nth_eq_iff_index_eq)
    with \<open>\<not> (l \<le> y \<and> y \<le> r)\<close> assms(3,4) show False by simp
  qed
  with y show ?thesis by auto
qed

text \<open>All pairs of places are in order, except those inside a range that is still to be sorted.\<close>

definition below :: "(string \<Rightarrow> string \<Rightarrow> int) \<Rightarrow> string list \<Rightarrow> nat list \<Rightarrow> nat \<Rightarrow> nat \<Rightarrow> bool" where
  "below mf cv ix x y \<longleftrightarrow> mf (val_of cv ix x) (val_of cv ix y) < 0"

definition in_order :: "(string \<Rightarrow> string \<Rightarrow> int) \<Rightarrow> string list \<Rightarrow> nat \<Rightarrow> nat list \<Rightarrow> (nat \<times> nat) list \<Rightarrow> bool" where
  "in_order mf cv n ix segs \<longleftrightarrow>
     (\<forall>x y. x < y \<longrightarrow> y < n \<longrightarrow> (\<exists>(l, r)\<in>set segs. l \<le> x \<and> y \<le> r) \<or> below mf cv ix x y)"

fun disjoint_segs :: "nat \<Rightarrow> (nat \<times> nat) list \<Rightarrow> bool" where
  "disjoint_segs n [] = True"
| "disjoint_segs n ((l, r) # segs) = (l \<le> r \<and> r < n \<and> (\<forall>(l', r')\<in>set segs. r < l' \<or> r' < l) \<and> disjoint_segs n segs)"

lemma in_order_apart:
  assumes "in_order mf cv n ix ((l, r) # segs)" "disjoint_segs n ((l, r) # segs)"
    "x < y" "y < n" "l \<le> x \<and> x \<le> r \<and> r < y \<or> l \<le> y \<and> y \<le> r \<and> x < l"
  shows "below mf cv ix x y"
proof (rule ccontr)
  assume "\<not> below mf cv ix x y"
  with assms(1,3,4) obtain l' r' where s: "(l', r') \<in> set ((l, r) # segs)" "l' \<le> x" "y \<le> r'"
    unfolding in_order_def by blast
  with assms(2,3,5) have "(l', r') \<in> set segs" by auto
  with assms(2) have "r < l' \<or> r' < l" by auto
  with s(2,3) assms(3,5) show False by auto
qed

lemma in_order_moves:
  assumes "in_order mf cv n ix ((l, r) # segs)" "disjoint_segs n ((l, r) # segs)" "places n cv ix" "moves l r ix ix'"
  shows "in_order mf cv n ix' ((l, r) # segs)"
  unfolding in_order_def
proof (intro allI impI)
  fix x y assume xy: "x < y" "y < n"
  have len: "length ix = n" using placesD(1) [OF assms(3)] .
  have out: "ix' ! z = ix ! z" if "z < n" "z < l \<or> r < z" for z using assms(4) that len by (auto simp: moves_def)
  have bel: "below mf cv ix' x y" if "below mf cv ix x' y'" "ix' ! x = ix ! x'" "ix' ! y = ix ! y'" for x' y'
    using that by (simp add: below_def val_of_def)
  consider (both) "l \<le> x" "y \<le> r" | (first) "l \<le> x" "x \<le> r" "r < y" | (second) "x < l" "l \<le> y" "y \<le> r"
    | (none) "x < l \<or> r < x" "y < l \<or> r < y" by linarith
  then show "(\<exists>(l', r')\<in>set ((l, r) # segs). l' \<le> x \<and> y \<le> r') \<or> below mf cv ix' x y"
  proof cases
    case both
    then show ?thesis by auto
  next
    case first
    with moves_origin [OF assms(4,3) first(1,2)] xy obtain x' where x': "l \<le> x'" "x' \<le> r" "x' < n" "ix' ! x = ix ! x'" by auto
    with in_order_apart [OF assms(1,2), of x' y] first xy have "below mf cv ix x' y" by auto
    from bel [OF this x'(4)] out [of y] first xy show ?thesis by auto
  next
    case second
    with moves_origin [OF assms(4,3) second(2,3) xy(2)] obtain y' where y': "l \<le> y'" "y' \<le> r" "y' < n" "ix' ! y = ix ! y'" by auto
    with in_order_apart [OF assms(1,2), of x y'] second xy have "below mf cv ix x y'" by auto
    from bel [OF this _ y'(4)] out [of x] second xy show ?thesis by auto
  next
    case none
    have "(\<exists>(l', r')\<in>set ((l, r) # segs). l' \<le> x \<and> y \<le> r') \<or> below mf cv ix x y"
      using assms(1) xy unfolding in_order_def by blast
    with bel [of x y] out [of x] out [of y] none xy show ?thesis by auto
  qed
qed

lemma in_order_done:
  assumes "in_order mf cv n ix ((l, r) # segs)" "\<And>x y. l \<le> x \<Longrightarrow> x < y \<Longrightarrow> y \<le> r \<Longrightarrow> below mf cv ix x y"
  shows "in_order mf cv n ix segs"
  unfolding in_order_def
proof (intro allI impI)
  fix x y assume xy: "x < y" "y < n"
  then have "(\<exists>(l', r')\<in>set ((l, r) # segs). l' \<le> x \<and> y \<le> r') \<or> below mf cv ix x y"
    using assms(1) unfolding in_order_def by blast
  with assms(2) [of x y] xy show "(\<exists>(l', r')\<in>set segs. l' \<le> x \<and> y \<le> r') \<or> below mf cv ix x y" by auto
qed

lemma in_order_split:
  assumes "in_order mf cv n ix ((l, r) # segs)"
    "\<And>x y. l \<le> x \<Longrightarrow> x \<le> j \<Longrightarrow> j < y \<Longrightarrow> y \<le> r \<Longrightarrow> below mf cv ix x y"
    "{(l, j), (Suc j, r)} \<union> set segs \<subseteq> set segs'"
  shows "in_order mf cv n ix segs'"
  unfolding in_order_def
proof (intro allI impI)
  fix x y assume xy: "x < y" "y < n"
  then have "(\<exists>(l', r')\<in>set ((l, r) # segs). l' \<le> x \<and> y \<le> r') \<or> below mf cv ix x y"
    using assms(1) unfolding in_order_def by blast
  moreover have "(\<exists>(l', r')\<in>set segs'. l' \<le> x \<and> y \<le> r') \<or> below mf cv ix x y" if "l \<le> x" "y \<le> r"
  proof -
    consider "y \<le> j" | "j < x" | "x \<le> j" "j < y" by linarith
    then show ?thesis using assms(2,3) that xy by cases (auto intro: bexI [of _ "(l, j)"] bexI [of _ "(Suc j, r)"])
  qed
  ultimately show "(\<exists>(l', r')\<in>set segs'. l' \<le> x \<and> y \<le> r') \<or> below mf cv ix x y" using assms(3) by auto
qed

section \<open>Insertion sort\<close>

text \<open>The value of place \<open>j\<close> goes to place \<open>p\<close>, those in between move up.\<close>

definition inserted :: "nat \<Rightarrow> nat \<Rightarrow> nat list \<Rightarrow> nat list" where
  "inserted p j ix = take p ix @ ix ! j # drop p (take j ix) @ drop (Suc j) ix"

lemma nth_inserted:
  assumes "p \<le> j" "j < length ix" "y < length ix"
  shows "inserted p j ix ! y = (if y < p then ix ! y else if y = p then ix ! j else if y \<le> j then ix ! (y - 1) else ix ! y)"
  using assms by (auto simp: inserted_def nth_append nth_Cons' min_def)

lemma length_inserted: "p \<le> j \<Longrightarrow> j < length ix \<Longrightarrow> length (inserted p j ix) = length ix"
  by (simp add: inserted_def min_def)

lemma moves_inserted:
  assumes "l \<le> p" "p \<le> j" "j \<le> r" "j < length ix"
  shows "moves l r ix (inserted p j ix)"
proof -
  have "ix = take p ix @ drop p (take j ix) @ ix ! j # drop (Suc j) ix"
    using assms by (metis append.assoc append_take_drop_id id_take_nth_drop min.absorb1 take_take)
  then have "mset ix = mset (inserted p j ix)" unfolding inserted_def
    by (metis add_mset_commute mset.simps(2) mset_append union_mset_add_mset_left union_mset_add_mset_right)
  then show ?thesis using assms by (auto simp: moves_def nth_inserted)
qed

text \<open>The loop stopped at a duplicate.\<close>

definition found_dup :: "(string \<Rightarrow> string \<Rightarrow> int) \<Rightarrow> nat \<Rightarrow> string list \<Rightarrow> int \<times> nat list \<times> int \<Rightarrow> bool" where
  "found_dup mf n cv d \<longleftrightarrow>
     (case d of (i, ix, rc) \<Rightarrow>
        rc = LDAP_SUCCESS \<and> places n cv ix \<and> 0 \<le> i \<and> nat i < n \<and>
        (\<exists>y<n. y \<noteq> nat i \<and> mf (val_of cv ix (nat i)) (val_of cv ix y) = 0))"

locale value_sort = matching_order mf
  for mf :: "string \<Rightarrow> string \<Rightarrow> int" +
  fixes cf :: "string \<Rightarrow> string \<Rightarrow> (int \<times> int) option"
  assumes cf_mf: "cf v w = Some (LDAP_SUCCESS, mf v w)"
begin

lemma comp_at_mf:
  "x < length ix \<Longrightarrow> ix ! x < length cv \<Longrightarrow> comp_at cf cv ix x a = Some (LDAP_SUCCESS, mf (val_of cv ix x) a)"
  by (simp add: comp_at_def val_at_def val_of_def cf_mf)

lemma comp_at_places:
  "places n cv ix \<Longrightarrow> x < n \<Longrightarrow> comp_at cf cv ix x a = Some (LDAP_SUCCESS, mf (val_of cv ix x) a)"
  by (simp add: comp_at_mf placesD)

lemma shift_down_ok:
  assumes "p < length ix" "\<forall>y<p. ix ! y < length cv"
  shows "\<exists>ix' p' rc' m. shift_down cf cv ix p a LDAP_SUCCESS m0 = Some (ix', p', LDAP_SUCCESS, m) \<and> p' \<le> p \<and> length ix' = length ix \<and>
    (\<forall>y<length ix. ix' ! y = (if p' < y \<and> y \<le> p then ix ! (y - 1) else ix ! y)) \<and>
    (\<forall>y. p' \<le> y \<longrightarrow> y < p \<longrightarrow> 0 < mf (val_of cv ix y) a) \<and>
    (0 < p \<longrightarrow> (if p' = 0 then 0 < m else m = mf (val_of cv ix (p' - 1)) a \<and> m \<le> 0))"
  using assms
proof (induction p arbitrary: ix m0)
  case (Suc i)
  let ?m = "mf (val_of cv ix i) a"
  have c: "comp_at cf cv ix i a = Some (LDAP_SUCCESS, ?m)" using Suc.prems by (simp add: comp_at_mf)
  show ?case
  proof (cases "?m \<le> 0")
    case True
    then show ?thesis using c by auto
  next
    case False
    let ?ix = "ix[Suc i := ix ! i]"
    have same: "?ix ! y = ix ! y" if "y \<le> i" for y using that by simp
    from Suc.IH [of ?ix ?m] Suc.prems obtain ix' p' m where
      s: "shift_down cf cv ?ix i a LDAP_SUCCESS ?m = Some (ix', p', LDAP_SUCCESS, m)" "p' \<le> i" "length ix' = length ix"
      and ix': "\<forall>y<length ix. ix' ! y = (if p' < y \<and> y \<le> i then ?ix ! (y - 1) else ?ix ! y)"
      and gt: "\<forall>y. p' \<le> y \<longrightarrow> y < i \<longrightarrow> 0 < mf (val_of cv ?ix y) a"
      and m: "0 < i \<longrightarrow> (if p' = 0 then 0 < m else m = mf (val_of cv ?ix (p' - 1)) a \<and> m \<le> 0)"
      by auto
    have "shift_down cf cv ix (Suc i) a LDAP_SUCCESS m0 = Some (ix', p', LDAP_SUCCESS, m)" using c False s(1) by simp
    moreover have "ix' ! y = (if p' < y \<and> y \<le> Suc i then ix ! (y - 1) else ix ! y)" if "y < length ix" for y
      using ix' that s(2) same [of y] same [of "y - 1"] by (cases "y = Suc i") (auto simp: nth_list_update)
    moreover have "0 < mf (val_of cv ix y) a" if "p' \<le> y" "y < Suc i" for y
      using gt that same [of y] False by (cases "y = i") (auto simp: val_of_def)
    moreover have "if p' = 0 then 0 < m else m = mf (val_of cv ix (p' - 1)) a \<and> m \<le> 0"
    proof (cases "i = 0")
      case True
      with s False show ?thesis by simp
    next
      case False
      with m s(2) same [of "p' - 1"] show ?thesis by (auto simp: val_of_def)
    qed
    ultimately show ?thesis using s(2,3) by auto
  qed
qed simp

lemma below_trans: "below mf cv ix x y \<Longrightarrow> below mf cv ix y z \<Longrightarrow> below mf cv ix x z"
  unfolding below_def using mf_less_le by (meson less_imp_le)

lemma insert_loop_ok:
  assumes "places n cv ix" "l < j" "j + m = Suc r" "r < n"
    "\<forall>x y. l \<le> x \<longrightarrow> x < y \<longrightarrow> y < j \<longrightarrow> below mf cv ix x y"
    "\<forall>x y. x < l \<longrightarrow> l \<le> y \<longrightarrow> y \<le> r \<longrightarrow> below mf cv ix x y"
  shows "\<exists>res. insert_loop cf cv m j ix LDAP_SUCCESS m0 = Some res \<and>
    (case res of
       Inl d \<Rightarrow> found_dup mf n cv d
     | Inr (ix', rc) \<Rightarrow> rc = LDAP_SUCCESS \<and> moves l r ix ix' \<and> (\<forall>x y. l \<le> x \<longrightarrow> x < y \<longrightarrow> y \<le> r \<longrightarrow> below mf cv ix' x y))"
  using assms
proof (induction m arbitrary: j ix m0)
  case 0
  then show ?case by auto
next
  case (Suc m)
  note pl = placesD [OF Suc.prems(1)]
  let ?a = "val_of cv ix j"
  have j: "j < n" "j \<le> r" using Suc.prems(3,4) by auto
  have a: "val_at cv ix j = Some ?a" using Suc.prems(1) j(1) by (simp add: places_val_at)
  obtain ix1 p mt where s: "shift_down cf cv ix j ?a LDAP_SUCCESS m0 = Some (ix1, p, LDAP_SUCCESS, mt)" "p \<le> j" "length ix1 = length ix"
    "\<forall>y<length ix. ix1 ! y = (if p < y \<and> y \<le> j then ix ! (y - 1) else ix ! y)"
    and gt: "\<forall>y. p \<le> y \<longrightarrow> y < j \<longrightarrow> 0 < mf (val_of cv ix y) ?a"
    and mt: "0 < j \<longrightarrow> (if p = 0 then 0 < mt else mt = mf (val_of cv ix (p - 1)) ?a \<and> mt \<le> 0)"
    using shift_down_ok [of j ix cv ?a m0] pl j(1) by auto
  have ix1: "ix1[p := ix ! j] = inserted p j ix"
    using s(2-4) pl(1) j(1) by (intro nth_equalityI) (auto simp: length_inserted nth_inserted nth_list_update)
  have lp: "l \<le> p"
  proof (rule ccontr)
    assume "\<not> l \<le> p"
    with gt Suc.prems(2) have "0 < mf (val_of cv ix (l - 1)) ?a" by auto
    moreover have "below mf cv ix (l - 1) j" using Suc.prems(2,6) \<open>\<not> l \<le> p\<close> j by auto
    ultimately show False by (simp add: below_def)
  qed
  have mv: "moves l r ix (inserted p j ix)" using moves_inserted lp s(2) j pl(1) by simp
  have pl': "places n cv (inserted p j ix)" using moves_places [OF mv Suc.prems(1)] .
  have val: "val_of cv (inserted p j ix) y =
      (if y < p then val_of cv ix y else if y = p then ?a else if y \<le> j then val_of cv ix (y - 1) else val_of cv ix y)" if "y < n" for y
    using that nth_inserted [OF s(2), of ix y] pl(1) j(1) by (simp add: val_of_def)
  have step: "insert_loop cf cv (Suc m) j ix LDAP_SUCCESS m0 =
      (if mt = 0 then Some (Inl (int p - 1, inserted p j ix, LDAP_SUCCESS)) else insert_loop cf cv m (j + 1) (inserted p j ix) LDAP_SUCCESS mt)"
    using a s(1) ix1 by (simp add: Let_def)
  show ?case
  proof (cases "mt = 0")
    case True
    with mt Suc.prems(2) have p: "0 < p" "mf (val_of cv ix (p - 1)) ?a = 0" by (auto split: if_splits)
    then have "found_dup mf n cv (int p - 1, inserted p j ix, LDAP_SUCCESS)"
      using pl' s(2) j(1) val [of "p - 1"] val [of p]
      by (auto simp: found_dup_def nat_diff_distrib intro!: exI [of _ p])
    with step True show ?thesis by auto
  next
    case False
    have lt: "below mf cv (inserted p j ix) x y" if xy: "l \<le> x" "x < y" "y < Suc j" for x y
    proof -
      have old: "below mf cv ix u v" if "l \<le> u" "u < v" "v < j" for u v using Suc.prems(5) that by blast
      have pre: "below mf cv ix u j" if "l \<le> u" "u < p" for u
      proof -
        have "below mf cv ix (p - 1) j" using mt Suc.prems(2) False that by (auto simp: below_def split: if_splits)
        with old [of u "p - 1"] that s(2) below_trans [of cv ix u "p - 1" j] show ?thesis by (cases "u = p - 1") auto
      qed
      have post: "mf ?a (val_of cv ix u) < 0" if "p \<le> u" "u < j" for u using gt that by (simp add: mf_swap)
      consider "y < p" | "y = p" | "x < p" "p < y" | "x = p" "p < y" | "p < x" using xy(2) by linarith
      then show ?thesis
        using xy j val [of x] val [of y] old [of x y] old [of x "y - 1"] old [of "x - 1" "y - 1"] pre [of x] post [of "y - 1"] lp s(2)
        by cases (auto simp: below_def)
    qed
    have left: "below mf cv (inserted p j ix) x y" if xy: "x < l" "l \<le> y" "y \<le> r" for x y
    proof -
      obtain z where "l \<le> z" "z \<le> r" "inserted p j ix ! y = ix ! z"
        using moves_origin [OF mv Suc.prems(1) xy(2,3)] xy Suc.prems(4) by auto
      moreover have "inserted p j ix ! x = ix ! x" using mv xy pl(1) Suc.prems(4) by (auto simp: moves_def)
      ultimately show ?thesis using Suc.prems(6) xy(1) by (auto simp: below_def val_of_def)
    qed
    from Suc.IH [OF pl', of "j + 1" mt] Suc.prems(2-4) lt left obtain res where
      res: "insert_loop cf cv m (j + 1) (inserted p j ix) LDAP_SUCCESS mt = Some res"
      "case res of Inl d \<Rightarrow> found_dup mf n cv d
       | Inr (ix', rc) \<Rightarrow> rc = LDAP_SUCCESS \<and> moves l r (inserted p j ix) ix' \<and> (\<forall>x y. l \<le> x \<longrightarrow> x < y \<longrightarrow> y \<le> r \<longrightarrow> below mf cv ix' x y)"
      by auto
    with step False moves_trans [OF mv] show ?thesis by (auto split: sum.splits)
  qed
qed

end

section \<open>Partition\<close>

lemma val_of_swap:
  "x < length ix \<Longrightarrow> y < length ix \<Longrightarrow>
   val_of cv (ix[x := ix ! y, y := ix ! x]) z = val_of cv ix (if z = x then y else if z = y then x else z)"
  by (auto simp: val_of_def nth_list_update)

context value_sort
begin

lemma found_dupI:
  "places n cv ix \<Longrightarrow> x < n \<Longrightarrow> y < n \<Longrightarrow> x \<noteq> y \<Longrightarrow> mf (val_of cv ix x) (val_of cv ix y) = 0 \<Longrightarrow> i = int x \<or> i = int y \<Longrightarrow>
   found_dup mf n cv (i, ix, LDAP_SUCCESS)"
  using mf_eq_swap by (auto simp: found_dup_def)

text \<open>Two places are compared and exchanged when they are not in order.\<close>

lemma compare_exchange:
  assumes "places n cv ix" "l \<le> x" "x \<le> r" "l \<le> y" "y \<le> r" "r < n" "mf (val_of cv ix x) (val_of cv ix y) \<noteq> 0"
  shows "\<exists>ix'. (if 0 < mf (val_of cv ix x) (val_of cv ix y) then exch x y ix else Some ix) = Some ix' \<and>
    places n cv ix' \<and> moves l r ix ix' \<and> below mf cv ix' x y \<and>
    ((\<forall>z. val_of cv ix' z = val_of cv ix z) \<or>
     below mf cv ix y x \<and> (\<forall>z. val_of cv ix' z = val_of cv ix (if z = x then y else if z = y then x else z)))"
proof (cases "0 < mf (val_of cv ix x) (val_of cv ix y)")
  case True
  let ?ix = "ix[x := ix ! y, y := ix ! x]"
  have len: "length ix = n" using placesD(1) [OF assms(1)] .
  have b: "below mf cv ix y x" using True by (simp add: below_def mf_swap)
  then have "below mf cv ?ix x y" using assms len by (auto simp: below_def val_of_swap)
  moreover have "exch x y ix = Some ?ix" "places n cv ?ix" "moves l r ix ?ix"
    using places_exch [OF assms(1)] moves_swap [of l x r y ix] assms len by auto
  moreover have "\<forall>z. val_of cv ?ix z = val_of cv ix (if z = x then y else if z = y then x else z)"
    using val_of_swap [of x ix y cv] assms len by simp
  ultimately show ?thesis using True b by auto
next
  case False
  with assms show ?thesis by (auto simp: below_def)
qed

lemma median_ok:
  assumes "places n cv ix" "l + 1 < ir" "ir < n"
  shows "\<exists>res. median cf cv l ir ix = Some res \<and>
    (case res of
       Inl d \<Rightarrow> found_dup mf n cv d
     | Inr ix' \<Rightarrow> moves l ir ix ix' \<and> below mf cv ix' l (l + 1) \<and> below mf cv ix' (l + 1) ir)"
proof -
  let ?k = "(l + ir) div 2" let ?v = "val_of cv"
  define ix0 where "ix0 = ix[?k := ix ! (l + 1), l + 1 := ix ! ?k]"
  have k: "l \<le> ?k" "?k \<le> ir" using assms(2) by auto
  have e0: "exch ?k (l + 1) ix = Some ix0" "places n cv ix0" "moves l ir ix ix0"
    using places_exch [OF assms(1), of ?k "l + 1"] moves_swap [of l ?k ir "l + 1" ix] k assms placesD(1) [OF assms(1)]
    by (auto simp: ix0_def)
  note cmp = comp_at_places places_val_at
  have lt: "l < n" "l + 1 < n" using assms by auto
  show ?thesis
  proof (cases "mf (?v ix0 l) (?v ix0 ir) = 0")
    case True
    then have "found_dup mf n cv (int ir, ix0, LDAP_SUCCESS)" using found_dupI [OF e0(2), of l ir] assms lt by simp
    with True e0 assms lt show ?thesis by (simp add: median_def cmp)
  next
    case False
    from compare_exchange [OF e0(2), of l l ir ir] assms False obtain ix1 where
      e1: "(if 0 < mf (?v ix0 l) (?v ix0 ir) then exch l ir ix0 else Some ix0) = Some ix1" "places n cv ix1" "moves l ir ix0 ix1"
        "below mf cv ix1 l ir" by auto
    note st1 = e0(1) e0(2) False e1(1)
    show ?thesis
    proof (cases "mf (?v ix1 (l + 1)) (?v ix1 ir) = 0")
      case True
      then have "found_dup mf n cv (int ir, ix1, LDAP_SUCCESS)" using found_dupI [OF e1(2), of "l + 1" ir] assms lt by simp
      with True st1 e1(2) assms lt show ?thesis by (simp add: median_def cmp)
    next
      case False
      from compare_exchange [OF e1(2), of l "l + 1" ir ir] assms False obtain ix2 where
        e2: "(if 0 < mf (?v ix1 (l + 1)) (?v ix1 ir) then exch (l + 1) ir ix1 else Some ix1) = Some ix2" "places n cv ix2"
          "moves l ir ix1 ix2" "below mf cv ix2 (l + 1) ir"
        and v2: "(\<forall>z. ?v ix2 z = ?v ix1 z) \<or>
          below mf cv ix1 ir (l + 1) \<and> (\<forall>z. ?v ix2 z = ?v ix1 (if z = l + 1 then ir else if z = ir then l + 1 else z))" by auto
      have b2: "below mf cv ix2 l ir"
        using v2 e1(4) assms(2) below_trans [OF e1(4), of "l + 1"] by (auto simp: below_def)
      note st2 = st1 False e2(1)
      show ?thesis
      proof (cases "mf (?v ix2 l) (?v ix2 (l + 1)) = 0")
        case True
        then have "found_dup mf n cv (int l, ix2, LDAP_SUCCESS)" using found_dupI [OF e2(2), of l "l + 1"] assms lt by simp
        with True st2 e1(2) e2(2) assms lt show ?thesis by (simp add: median_def cmp)
      next
        case False
        from compare_exchange [OF e2(2), of l l ir "l + 1"] assms False obtain ix3 where
          e3: "(if 0 < mf (?v ix2 l) (?v ix2 (l + 1)) then exch l (l + 1) ix2 else Some ix2) = Some ix3" "moves l ir ix2 ix3"
            "below mf cv ix3 l (l + 1)"
          and v3: "(\<forall>z. ?v ix3 z = ?v ix2 z) \<or>
            below mf cv ix2 (l + 1) l \<and> (\<forall>z. ?v ix3 z = ?v ix2 (if z = l then l + 1 else if z = l + 1 then l else z))" by auto
        have "below mf cv ix3 (l + 1) ir" using v3 b2 e2(4) assms(2) by (auto simp: below_def)
        moreover have "moves l ir ix ix3" using e0(3) e1(3) e2(3) e3(2) moves_trans by blast
        moreover have "median cf cv l ir ix = Some (Inr ix3)"
          using st2 False e3(1) e1(2) e2(2) assms lt by (simp add: median_def cmp)
        ultimately show ?thesis using e3(3) by simp
      qed
    qed
  qed
qed

lemma scan_up_ok:
  assumes "places n cv ix" "i < k" "k < n" "0 \<le> mf (val_of cv ix k) a"
  shows "\<exists>i'. scan_up cf cv ix a i = Some (i', LDAP_SUCCESS, mf (val_of cv ix i') a) \<and> i < i' \<and> i' \<le> k \<and>
    0 \<le> mf (val_of cv ix i') a \<and> (\<forall>x. i < x \<longrightarrow> x < i' \<longrightarrow> mf (val_of cv ix x) a < 0)"
  using assms(2)
proof (induction "k - i" arbitrary: i rule: less_induct)
  case less
  let ?m = "mf (val_of cv ix (i + 1)) a"
  have up: "scan_up cf cv ix a i = (if ?m < 0 then scan_up cf cv ix a (i + 1) else Some (i + 1, LDAP_SUCCESS, ?m))"
    using assms less.prems placesD(1) [OF assms(1)] by (subst scan_up.simps) (simp add: comp_at_places abort_simps)
  show ?case
  proof (cases "?m < 0")
    case True
    with assms(4) less.prems have "i + 1 < k" by (cases "i + 1 = k") auto
    moreover have "k - (i + 1) < k - i" using less.prems by simp
    ultimately obtain i' where i': "scan_up cf cv ix a (i + 1) = Some (i', LDAP_SUCCESS, mf (val_of cv ix i') a)"
      "i + 1 < i'" "i' \<le> k" "0 \<le> mf (val_of cv ix i') a" "\<forall>x. i + 1 < x \<longrightarrow> x < i' \<longrightarrow> mf (val_of cv ix x) a < 0" using less.hyps by blast
    have "mf (val_of cv ix x) a < 0" if "i < x" "x < i'" for x using i'(5) that True by (cases "x = i + 1") auto
    with i' True up show ?thesis by auto
  next
    case False
    with up less.prems show ?thesis by (auto intro!: exI [of _ "i + 1"])
  qed
qed

lemma scan_down_ok:
  assumes "places n cv ix" "k < j" "j \<le> n" "mf (val_of cv ix k) a \<le> 0" "0 < m"
  shows "\<exists>j'. scan_down cf cv ix a j rc m = Some (j', LDAP_SUCCESS, mf (val_of cv ix j') a) \<and> k \<le> j' \<and> j' < j \<and>
    mf (val_of cv ix j') a \<le> 0 \<and> (\<forall>x. j' < x \<longrightarrow> x < j \<longrightarrow> 0 < mf (val_of cv ix x) a)"
  using assms(2,3,5)
proof (induction j arbitrary: rc m)
  case (Suc j)
  let ?m = "mf (val_of cv ix j) a"
  have down: "scan_down cf cv ix a (Suc j) rc m = scan_down cf cv ix a j LDAP_SUCCESS ?m"
    using Suc.prems assms(1) by (simp add: comp_at_places)
  show ?case
  proof (cases "0 < ?m")
    case True
    with assms(4) Suc.prems have "k < j" by (cases "k = j") auto
    with Suc.IH [of ?m LDAP_SUCCESS] Suc.prems True obtain j' where
      j': "scan_down cf cv ix a j LDAP_SUCCESS ?m = Some (j', LDAP_SUCCESS, mf (val_of cv ix j') a)" "k \<le> j'" "j' < j"
      "mf (val_of cv ix j') a \<le> 0" "\<forall>x. j' < x \<longrightarrow> x < j \<longrightarrow> 0 < mf (val_of cv ix x) a" by auto
    with True down show ?thesis by (auto simp: less_Suc_eq)
  next
    case False
    then have "scan_down cf cv ix a j LDAP_SUCCESS ?m = Some (j, LDAP_SUCCESS, ?m)" by (cases j) auto
    with False down Suc.prems show ?thesis by (auto intro!: exI [of _ j])
  qed
qed simp

end

text \<open>Behind the pivot at \<open>l + 1\<close> the values up to \<open>i\<close> are smaller, those from \<open>j\<close> on are greater.\<close>

definition split_at :: "(string \<Rightarrow> string \<Rightarrow> int) \<Rightarrow> string list \<Rightarrow> nat list \<Rightarrow> string \<Rightarrow> nat \<Rightarrow> nat \<Rightarrow> nat \<Rightarrow> nat \<Rightarrow> bool" where
  "split_at mf cv ix a l ir i j \<longleftrightarrow>
     val_of cv ix (l + 1) = a \<and> (\<forall>x. l \<le> x \<longrightarrow> x \<le> i \<longrightarrow> x \<noteq> l + 1 \<longrightarrow> mf (val_of cv ix x) a < 0) \<and>
     (\<forall>x. j \<le> x \<longrightarrow> x \<le> ir \<longrightarrow> 0 < mf (val_of cv ix x) a)"

context value_sort
begin

lemma part_loop_ok:
  assumes "places n cv ix" "l + 1 \<le> i" "i < j" "j \<le> ir" "ir < n" "split_at mf cv ix a l ir i j"
  shows "\<exists>res. part_loop cf cv a l i j ix = Some res \<and>
    (case res of
       Inl d \<Rightarrow> found_dup mf n cv d
     | Inr (i', j', ix', rc) \<Rightarrow>
         rc = LDAP_SUCCESS \<and> moves l ir ix ix' \<and> i' = Suc j' \<and> l + 1 \<le> j' \<and> j' < ir \<and> split_at mf cv ix' a l ir j' i')"
  using assms
proof (induction "j - i" arbitrary: i j ix rule: less_induct)
  case less
  note pl = less.prems(1) and sp = less.prems(6) [unfolded split_at_def]
  have a0: "mf (val_of cv ix (l + 1)) a = 0" using sp mf_refl by simp
  have gj: "0 \<le> mf (val_of cv ix j) a" using sp less.prems(4) by (simp add: less_imp_le)
  obtain i' where up: "scan_up cf cv ix a i = Some (i', LDAP_SUCCESS, mf (val_of cv ix i') a)" "i < i'" "i' \<le> j"
    "0 \<le> mf (val_of cv ix i') a" "\<forall>x. i < x \<longrightarrow> x < i' \<longrightarrow> mf (val_of cv ix x) a < 0"
    using scan_up_ok [OF pl less.prems(3) _ gj] less.prems by auto
  have small: "mf (val_of cv ix x) a < 0" if "l \<le> x" "x < i'" "x \<noteq> l + 1" for x
    using sp up(5) that by (cases "x \<le> i") auto
  show ?case
  proof (cases "mf (val_of cv ix i') a = 0")
    case True
    then have "part_loop cf cv a l i j ix = Some (Inl (int l + 1, ix, LDAP_SUCCESS))"
      using up by (subst part_loop.simps) (cases j, simp_all)
    moreover have "found_dup mf n cv (int l + 1, ix, LDAP_SUCCESS)"
      using found_dupI [OF pl, of i' "l + 1" "int l + 1"] True sp up(2,3) less.prems by auto
    ultimately show ?thesis by auto
  next
    case False
    with up(4) have gi: "0 < mf (val_of cv ix i') a" by simp
    obtain j' where down: "scan_down cf cv ix a j LDAP_SUCCESS (mf (val_of cv ix i') a) = Some (j', LDAP_SUCCESS, mf (val_of cv ix j') a)"
      "l + 1 \<le> j'" "j' < j" "mf (val_of cv ix j') a \<le> 0" "\<forall>x. j' < x \<longrightarrow> x < j \<longrightarrow> 0 < mf (val_of cv ix x) a"
      using scan_down_ok [OF pl, of "l + 1" j a "mf (val_of cv ix i') a" LDAP_SUCCESS] a0 gi less.prems by auto
    have large: "0 < mf (val_of cv ix x) a" if "j' < x" "x \<le> ir" for x
      using sp down(5) that by (cases "x < j") auto
    have step: "part_loop cf cv a l i j ix =
        (if j' < i' then Some (Inr (i', j', ix, LDAP_SUCCESS))
         else if mf (val_of cv ix j') a = 0 then Some (Inl (int l + 1, ix, LDAP_SUCCESS))
         else Option.bind (exch i' j' ix) (part_loop cf cv a l i' j'))"
      using up(1) down(1) by (subst part_loop.simps) simp
    consider (apart) "j' < i'" | (dup) "i' \<le> j'" "mf (val_of cv ix j') a = 0" | (swap) "i' \<le> j'" "mf (val_of cv ix j') a < 0"
      using down(4) by linarith
    then show ?thesis
    proof cases
      case apart
      have "l \<le> i' - 1" "i' - 1 \<le> ir" "i' - 1 < i'" using up(2,3) less.prems by linarith+
      then have "\<not> j' < i' - 1" using large [of "i' - 1"] small [of "i' - 1"] a0 by (cases "i' - 1 = l + 1") auto
      then have "i' = Suc j'" using apart by simp
      moreover from this have "split_at mf cv ix a l ir j' i'"
        using sp small large by (auto simp: split_at_def)
      ultimately show ?thesis using step apart down(2,3) less.prems by auto
    next
      case dup
      have "j' \<noteq> l + 1" using dup(1) up(2) less.prems(2) by simp
      with dup sp have "found_dup mf n cv (int l + 1, ix, LDAP_SUCCESS)"
        using found_dupI [OF pl, of j' "l + 1" "int l + 1"] down(3) less.prems by auto
      with dup step show ?thesis by auto
    next
      case swap
      let ?ix = "ix[i' := ix ! j', j' := ix ! i']"
      have ij: "i' < j'" using swap gi by (cases "i' = j'") auto
      have len: "length ix = n" using placesD(1) [OF pl] .
      have e: "exch i' j' ix = Some ?ix" "places n cv ?ix" using places_exch [OF pl, of i' j'] up(3) down(3) less.prems by auto
      have mv: "moves l ir ix ?ix" using moves_swap [of l i' ir j' ix] ij up(2,3) down(3) less.prems len by auto
      have v: "val_of cv ?ix z = val_of cv ix (if z = i' then j' else if z = j' then i' else z)" for z
        using val_of_swap [of i' ix j' cv z] up(3) down(3) less.prems len by simp
      have "split_at mf cv ?ix a l ir i' j'"
        unfolding split_at_def v using sp small large swap(2) gi ij up(2) less.prems(2) by auto
      moreover have "j' - i' < j - i" using up(2) down(3) ij by linarith
      ultimately obtain res where res: "part_loop cf cv a l i' j' ?ix = Some res"
        "case res of Inl d \<Rightarrow> found_dup mf n cv d
         | Inr (i'', j'', ix', rc) \<Rightarrow> rc = LDAP_SUCCESS \<and> moves l ir ?ix ix' \<and> i'' = Suc j'' \<and> l + 1 \<le> j'' \<and> j'' < ir \<and> split_at mf cv ix' a l ir j'' i''"
        using less.hyps [of j' i' ?ix] e(2) ij up(2) down(3) less.prems by auto
      have "part_loop cf cv a l i j ix = Some res" using step swap e(1) res(1) by simp
      with res(2) moves_trans [OF mv] show ?thesis by (auto split: sum.splits)
    qed
  qed
qed

lemma partition_vals_ok:
  assumes "places n cv ix" "l + 1 < ir" "ir < n"
  shows "\<exists>res. partition_vals cf cv l ir ix = Some res \<and>
    (case res of
       Inl d \<Rightarrow> found_dup mf n cv d
     | Inr (i, j, ix', rc) \<Rightarrow>
         rc = LDAP_SUCCESS \<and> moves l ir ix ix' \<and> i = Suc j \<and> l + 1 \<le> j \<and> j < ir \<and>
         (\<forall>x y. l \<le> x \<longrightarrow> x \<le> j \<longrightarrow> j < y \<longrightarrow> y \<le> ir \<longrightarrow> below mf cv ix' x y))"
proof -
  from median_ok [OF assms] obtain r where r: "median cf cv l ir ix = Some r"
    "case r of Inl d \<Rightarrow> found_dup mf n cv d
     | Inr ix' \<Rightarrow> moves l ir ix ix' \<and> below mf cv ix' l (l + 1) \<and> below mf cv ix' (l + 1) ir" by blast
  show ?thesis
  proof (cases r)
    case (Inl d)
    with r show ?thesis by (simp add: partition_vals_def)
  next
    case (Inr ix1)
    with r have m1: "moves l ir ix ix1" "below mf cv ix1 l (l + 1)" "below mf cv ix1 (l + 1) ir" by auto
    note pl = moves_places [OF m1(1) assms(1)]
    let ?a = "val_of cv ix1 (l + 1)"
    have "split_at mf cv ix1 ?a l ir (l + 1) ir"
      using m1(2,3) by (auto simp: split_at_def below_def mf_swap le_Suc_eq)
    from part_loop_ok [OF pl _ _ _ _ this] assms obtain r' where r': "part_loop cf cv ?a l (l + 1) ir ix1 = Some r'"
      "case r' of Inl d \<Rightarrow> found_dup mf n cv d
       | Inr (i', j', ix', rc) \<Rightarrow> rc = LDAP_SUCCESS \<and> moves l ir ix1 ix' \<and> i' = Suc j' \<and> l + 1 \<le> j' \<and> j' < ir \<and> split_at mf cv ix' ?a l ir j' i'"
      by auto
    have start: "partition_vals cf cv l ir ix = (case r' of Inl d \<Rightarrow> Some (Inl d)
        | Inr (i, j, ix, rc) \<Rightarrow> do { ix \<leftarrow> exch (l + 1) j ix; Some (Inr (i, j, ix, rc)) })"
      using r(1) Inr r'(1) places_val_at [OF pl] assms by (auto simp: partition_vals_def split: sum.split)
    show ?thesis
    proof (cases r')
      case (Inl d)
      with r' start show ?thesis by simp
    next
      case (Inr t)
      then obtain j ix2 where t: "r' = Inr (Suc j, j, ix2, LDAP_SUCCESS)" "moves l ir ix1 ix2" "l + 1 \<le> j" "j < ir"
        "split_at mf cv ix2 ?a l ir j (Suc j)" using r'(2) by (cases t) auto
      let ?ix = "ix2[l + 1 := ix2 ! j, j := ix2 ! (l + 1)]"
      note pl2 = moves_places [OF t(2) pl]
      have len: "length ix2 = n" using placesD(1) [OF pl2] .
      have e: "exch (l + 1) j ix2 = Some ?ix" using places_exch [OF pl2] t(3,4) assms by auto
      have mv: "moves l ir ix ?ix"
        using moves_trans [OF m1(1) moves_trans [OF t(2)]] moves_swap [of l "l + 1" ir j ix2] t(3,4) assms len by auto
      have v: "val_of cv ?ix z = val_of cv ix2 (if z = l + 1 then j else if z = j then l + 1 else z)" for z
        using val_of_swap [of "l + 1" ix2 j cv z] t(3,4) assms len by simp
      have left: "mf (val_of cv ix2 x) ?a \<le> 0" if "l \<le> x" "x \<le> j" for x
        using t(5) that mf_refl by (cases "x = l + 1") (auto simp: split_at_def less_imp_le)
      have "below mf cv ?ix x y" if "l \<le> x" "x \<le> j" "j < y" "y \<le> ir" for x y
      proof -
        have "mf (val_of cv ?ix x) ?a \<le> 0" unfolding v using left that t(3) by auto
        moreover have "mf ?a (val_of cv ?ix y) < 0" unfolding v using t(3,5) that by (auto simp: split_at_def mf_swap)
        ultimately show ?thesis unfolding below_def by (rule mf_le_less)
      qed
      with start t(1,3,4) e mv show ?thesis by simp
    qed
  qed
qed

end

section \<open>The main loop\<close>

text \<open>A range on the stack with \<open>k\<close> ranges below it is no longer than \<open>n / 2 ^ k\<close>, so that the stack of 64 elements is enough.\<close>

fun stack_fits :: "nat \<Rightarrow> (nat \<times> nat) list \<Rightarrow> bool" where
  "stack_fits n [] = True"
| "stack_fits n ((l, r) # segs) = ((Suc r - l) * 2 ^ length segs \<le> n \<and> stack_fits n segs)"

definition work :: "(nat \<times> nat) list \<Rightarrow> nat" where
  "work segs = sum_list (map (\<lambda>(l, r). 2 * (Suc r - l) - 1) segs)"

lemma small_depth:
  assumes "9 * 2 ^ d \<le> n" "n < (2 :: nat) ^ 31"
  shows "2 * (d + 1) < 64"
proof (rule ccontr)
  assume "\<not> ?thesis"
  then have "(2 :: nat) ^ 31 \<le> 2 ^ d" by (intro power_increasing) auto
  with assms show False by linarith
qed

lemma stack_part: "a \<le> m \<Longrightarrow> m * 2 ^ d \<le> n \<Longrightarrow> a * 2 ^ d \<le> (n :: nat)"
  by (rule le_trans [OF mult_right_mono]) auto

lemma stack_half: "a * 2 \<le> m \<Longrightarrow> m * 2 ^ d \<le> n \<Longrightarrow> a * 2 ^ Suc d \<le> (n :: nat)"
  using stack_part [of "a * 2" m d n] by (simp add: mult.assoc)

context value_sort
begin

lemma qs_loop_ok:
  assumes "places n cv ix" "n < 2 ^ 31" "disjoint_segs n ((l, ir) # stack)" "stack_fits n ((l, ir) # stack)"
    "in_order mf cv n ix ((l, ir) # stack)"
  shows "\<exists>res. qs_loop cf cv l ir stack ix LDAP_SUCCESS = Some res \<and>
    (case res of
       Inl d \<Rightarrow> found_dup mf n cv d
     | Inr (ix', rc) \<Rightarrow> rc = LDAP_SUCCESS \<and> places n cv ix' \<and> in_order mf cv n ix' [])"
  using assms(1,3-)
proof (induction "work ((l, ir) # stack)" arbitrary: l ir stack ix rule: less_induct)
  case less
  note pl = less.prems(1) and dis = less.prems(2) and fits = less.prems(3) and ord = less.prems(4)
  have lr: "l \<le> ir" "ir < n" using dis by auto
  have left: "below mf cv ix x y" if "x < l" "l \<le> y" "y \<le> ir" for x y
    using in_order_apart [OF ord dis, of x y] that lr by auto
  show ?case
  proof (cases "int ir - int l < SMALL")
    case True
    obtain r where r: "insert_loop cf cv (ir - l) (l + 1) ix LDAP_SUCCESS 1 = Some r"
      "case r of Inl d \<Rightarrow> found_dup mf n cv d
       | Inr (ix', rc) \<Rightarrow> rc = LDAP_SUCCESS \<and> moves l ir ix ix' \<and> (\<forall>x y. l \<le> x \<longrightarrow> x < y \<longrightarrow> y \<le> ir \<longrightarrow> below mf cv ix' x y)"
      using insert_loop_ok [OF pl, of l "l + 1" "ir - l" ir 1] lr left by auto
    show ?thesis
    proof (cases r)
      case (Inl d)
      with True r show ?thesis by (subst qs_loop.simps) simp
    next
      case (Inr t)
      with r(2) obtain ix' where t: "r = Inr (ix', LDAP_SUCCESS)" "moves l ir ix ix'"
        "\<And>x y. l \<le> x \<Longrightarrow> x < y \<Longrightarrow> y \<le> ir \<Longrightarrow> below mf cv ix' x y" by (cases t) auto
      have o: "in_order mf cv n ix' stack"
        using in_order_done [OF in_order_moves [OF ord dis pl t(2)] t(3)] .
      note pl' = moves_places [OF t(2) pl]
      show ?thesis
      proof (cases stack)
        case Nil
        with True r(1) t(1) o pl' show ?thesis by (subst qs_loop.simps) simp
      next
        case (Cons s segs)
        obtain l' ir' where s: "s = (l', ir')" by (cases s)
        have "work ((l', ir') # segs) < work ((l, ir) # stack)" using lr by (simp add: work_def Cons s)
        from less.hyps [OF this pl'] dis fits o obtain res where
          "qs_loop cf cv l' ir' segs ix' LDAP_SUCCESS = Some res"
          "case res of Inl d \<Rightarrow> found_dup mf n cv d | Inr (ix', rc) \<Rightarrow> rc = LDAP_SUCCESS \<and> places n cv ix' \<and> in_order mf cv n ix' []"
          by (auto simp: Cons s)
        with True r(1) t(1) Cons s show ?thesis by (subst qs_loop.simps) simp
      qed
    qed
  next
    case False
    then have big: "l + 8 \<le> ir" by (simp add: SMALL_def)
    then obtain r where r: "partition_vals cf cv l ir ix = Some r"
      "case r of Inl d \<Rightarrow> found_dup mf n cv d
       | Inr (i, j, ix', rc) \<Rightarrow> rc = LDAP_SUCCESS \<and> moves l ir ix ix' \<and> i = Suc j \<and> l + 1 \<le> j \<and> j < ir \<and>
           (\<forall>x y. l \<le> x \<longrightarrow> x \<le> j \<longrightarrow> j < y \<longrightarrow> y \<le> ir \<longrightarrow> below mf cv ix' x y)"
      using partition_vals_ok [OF pl _ lr(2), of l] by auto
    show ?thesis
    proof (cases r)
      case (Inl d)
      with False r show ?thesis by (subst qs_loop.simps) simp
    next
      case (Inr t)
      with r(2) obtain j ix' where t: "r = Inr (Suc j, j, ix', LDAP_SUCCESS)" "moves l ir ix ix'" "l + 1 \<le> j" "j < ir"
        "\<And>x y. l \<le> x \<Longrightarrow> x \<le> j \<Longrightarrow> j < y \<Longrightarrow> y \<le> ir \<Longrightarrow> below mf cv ix' x y" by (cases t) auto
      note pl' = moves_places [OF t(2) pl] and ord' = in_order_moves [OF ord dis pl t(2)]
      let ?d = "length stack"
      have "9 * 2 ^ ?d \<le> (Suc ir - l) * 2 ^ ?d" using big by (intro mult_right_mono) auto
      also have "\<dots> \<le> n" using fits by simp
      finally have "9 * 2 ^ ?d \<le> n" .
      then have depth: "2 * (?d + 1) < 64" using small_depth assms(2) by blast
      show ?thesis
      proof (cases "int ir - int (Suc j) + 1 > int j - int l")
        case push: True
        have half: "(Suc j - l) * 2 \<le> Suc ir - l" using push t(3,4) by linarith
        have "work ((l, j) # (Suc j, ir) # stack) < work ((l, ir) # stack)" using t(3,4) by (simp add: work_def)
        moreover have "(Suc j - l) * 2 ^ Suc ?d \<le> n" "(Suc ir - Suc j) * 2 ^ ?d \<le> n"
          using stack_half [OF half, of ?d n] stack_part [of "Suc ir - Suc j" "Suc ir - l" ?d n] fits t(3) by simp_all
        moreover have "disjoint_segs n ((l, j) # (Suc j, ir) # stack)" using dis t(3,4) by auto
        ultimately obtain res where "qs_loop cf cv l j ((Suc j, ir) # stack) ix' LDAP_SUCCESS = Some res"
          "case res of Inl d \<Rightarrow> found_dup mf n cv d | Inr (ix', rc) \<Rightarrow> rc = LDAP_SUCCESS \<and> places n cv ix' \<and> in_order mf cv n ix' []"
          using less.hyps [of l j "(Suc j, ir) # stack" ix'] pl' fits in_order_split [where segs' = "(l, j) # (Suc j, ir) # stack", OF ord' t(5)] by auto
        with False r(1) t(1) depth push show ?thesis by (subst qs_loop.simps) (simp add: abort_simps)
      next
        case stay: False
        have half: "(Suc ir - Suc j) * 2 \<le> Suc ir - l" using stay t(3,4) by linarith
        have "work ((Suc j, ir) # (l, j) # stack) < work ((l, ir) # stack)" using t(3,4) by (simp add: work_def)
        moreover have "(Suc ir - Suc j) * 2 ^ Suc ?d \<le> n" "(Suc j - l) * 2 ^ ?d \<le> n"
          using stack_half [OF half, of ?d n] stack_part [of "Suc j - l" "Suc ir - l" ?d n] fits t(4) by simp_all
        moreover have "disjoint_segs n ((Suc j, ir) # (l, j) # stack)" using dis t(3,4) by auto
        ultimately obtain res where "qs_loop cf cv (Suc j) ir ((l, j) # stack) ix' LDAP_SUCCESS = Some res"
          "case res of Inl d \<Rightarrow> found_dup mf n cv d | Inr (ix', rc) \<Rightarrow> rc = LDAP_SUCCESS \<and> places n cv ix' \<and> in_order mf cv n ix' []"
          using less.hyps [of "Suc j" ir "(l, j) # stack" ix'] pl' fits in_order_split [where segs' = "(Suc j, ir) # (l, j) # stack", OF ord' t(5)] by auto
        with False r(1) t(1) depth stay show ?thesis by (subst qs_loop.simps) (simp add: abort_simps)
      qed
    qed
  qed
qed

end

section \<open>The sort\<close>

lemma in_order_sorted:
  assumes "places n cv ix" "in_order mf cv n ix []"
  shows "sorted_by mf (map ((!) cv) ix)"
  using assms placesD(1) [OF assms(1)] by (simp add: sorted_by_def sorted_wrt_iff_nth_less in_order_def below_def val_of_def)

lemma map_nth_places:
  assumes "mset ix = mset [0..<length xs]"
  shows "mset (map ((!) xs) ix) = mset xs"
proof -
  have "mset (map ((!) xs) ix) = mset (map ((!) xs) [0..<length xs])" by (simp only: mset_map assms)
  then show ?thesis by (simp only: map_nth)
qed

lemma reorder_places:
  assumes "mset ix = mset [0..<length xs]"
  shows "reorder ix xs = map ((!) xs) ix" "mset (reorder ix xs) = mset xs" "length (reorder ix xs) = length xs"
    "length ys = length xs \<Longrightarrow> zip (reorder ix xs) (reorder ix ys) = reorder ix (zip xs ys)"
proof -
  have len: "length ix = length xs" using mset_eq_length [OF assms] by simp
  have bound: "\<And>i. i \<in> set ix \<Longrightarrow> i < length xs" using mset_eq_setD [OF assms] by auto
  show r: "reorder ix xs = map ((!) xs) ix" using len by (simp add: reorder_def)
  show "length (reorder ix xs) = length xs" using len by (simp add: r)
  show "mset (reorder ix xs) = mset xs" unfolding r by (rule map_nth_places [OF assms])
  show "zip (reorder ix xs) (reorder ix ys) = reorder ix (zip xs ys)" if "length ys = length xs"
    using that len bound by (auto simp: reorder_def zip_map_map zip_same_conv_map)
qed

lemma sorted_by_distinct:
  assumes "matching_order mf" "sorted_by mf vs"
  shows "distinct_by mf vs"
proof -
  have lt: "mf (vs ! i) (vs ! j) < 0" if "i < j" "j < length vs" for i j
    using matching_order.sorted_by_nth [OF assms that] .
  have "i = j" if "i < length vs" "j < length vs" "mf (vs ! i) (vs ! j) = 0" for i j
    using that lt [of i j] lt [of j i] matching_order.mf_eq_swap [OF assms(1), of "vs ! i"] by (metis linorder_neqE_nat order_less_irrefl)
  then show ?thesis
    using matching_order.mf_refl [OF assms(1)] by (auto simp: distinct_by_def distinct_conv_nth in_set_conv_nth) metis+
qed

lemma found_dup_not_distinct:
  assumes "found_dup mf (length cv) cv (i, ix, rc)"
  shows "\<exists>j<length cv. j \<noteq> ix ! nat i \<and> mf (cv ! (ix ! nat i)) (cv ! j) = 0" "ix ! nat i < length cv" "\<not> distinct_by mf cv"
proof -
  from assms obtain y where y: "places (length cv) cv ix" "nat i < length cv" "y < length cv" "y \<noteq> nat i"
    "mf (cv ! (ix ! nat i)) (cv ! (ix ! y)) = 0" by (auto simp: found_dup_def val_of_def)
  note pl = placesD [OF y(1)]
  show k: "ix ! nat i < length cv" using pl(3) y(2) .
  have j: "ix ! y < length cv" "ix ! y \<noteq> ix ! nat i" using pl y by (auto simp: nth_eq_iff_index_eq)
  with y(5) show "\<exists>j<length cv. j \<noteq> ix ! nat i \<and> mf (cv ! (ix ! nat i)) (cv ! j) = 0" by blast
  show "\<not> distinct_by mf cv" using j k y(5) by (metis distinct_by_def nth_eq_iff_index_eq nth_mem)
qed

text \<open>What the sort compares with.\<close>

definition sorts_by :: "schema \<Rightarrow> nat \<Rightarrow> (string \<Rightarrow> string \<Rightarrow> int) \<Rightarrow> bool" where
  "sorts_by sc ad mf \<longleftrightarrow> (if ad = si_ad_objectClass sc then mf = ber_bvcmp else equality_by sc ad mf)"

lemma COMP_by:
  assumes "sorts_by sc ad mf" "\<not> has (sat_flags (type_of sc ad)) SLAP_AT_ORDERED"
  shows "COMP sc ad (if ad = si_ad_objectClass sc then None else sat_equality (type_of sc ad)) v w = Some (LDAP_SUCCESS, mf v w)"
proof (cases "ad = si_ad_objectClass sc")
  case True
  with assms show ?thesis by (simp add: COMP_def sorts_by_def ordered_value_match_def keep_match_def)
next
  case False
  with assms ordered_value_match_by [of sc ad mf] show ?thesis by (simp add: COMP_def sorts_by_def keep_match_def)
qed

lemma sort_vals_correct:
  assumes "matching_order mf" "sorts_by sc ad mf" "\<not> has (sat_flags (type_of sc ad)) SLAP_AT_ORDERED"
    "length vs < 2 ^ 31" "case nvs of None \<Rightarrow> cv = vs | Some w \<Rightarrow> cv = w \<and> length w = length vs"
  shows "\<exists>rc dup vs' nvs'. slap_sort_vals sc ad (length vs) vs nvs = Some (rc, dup, vs', nvs') \<and>
    (let cv' = (case nvs' of None \<Rightarrow> vs' | Some w \<Rightarrow> w) in
     length vs' = length vs \<and> length cv' = length vs \<and> (nvs' = None \<longleftrightarrow> nvs = None) \<and>
     (if distinct_by mf cv
     then rc = LDAP_SUCCESS \<and> dup = None \<and>
       (if has (sat_flags (type_of sc ad)) SLAP_AT_SORTED_VAL
        then sorted_by mf cv' \<and> mset (zip vs' cv') = mset (zip vs cv) else vs' = vs \<and> nvs' = nvs)
     else rc = LDAP_TYPE_OR_VALUE_EXISTS \<and> vs' = vs \<and> nvs' = nvs \<and>
       (\<exists>k j. dup = Some k \<and> k < length cv \<and> j < length cv \<and> j \<noteq> k \<and> mf (cv ! k) (cv ! j) = 0)))"
proof -
  let ?n = "length vs" let ?mr = "if ad = si_ad_objectClass sc then None else sat_equality (type_of sc ad)"
  have cv: "(case nvs of None \<Rightarrow> vs | Some nvs \<Rightarrow> nvs) = cv" "length cv = ?n" using assms(5) by (auto split: option.splits)
  show ?thesis
  proof (cases "?n \<le> 1")
    case True
    then have one: "sorted_by mf cv" using cv(2) by (simp add: sorted_by_def sorted_wrt_iff_nth_less)
    with sorted_by_distinct [OF assms(1) one] True show ?thesis
      by (auto simp: slap_sort_vals_def cv)
  next
    case False
    have loc: "value_sort mf (COMP sc ad ?mr)"
      using assms(1) COMP_by [OF assms(2,3)] by (simp add: value_sort_def value_sort_axioms_def)
    have pl: "places ?n cv [0..<?n]" using cv(2) by (simp add: places_def)
    have "in_order mf cv ?n [0..<?n] [(0, ?n - 1)]" by (auto simp: in_order_def)
    moreover have "?n - 1 < ?n" using False by linarith
    ultimately obtain r where
      r: "qs_loop (COMP sc ad ?mr) cv 0 (?n - 1) [] [0..<?n] LDAP_SUCCESS = Some r"
      "case r of Inl d \<Rightarrow> found_dup mf ?n cv d
       | Inr (ix', rc) \<Rightarrow> rc = LDAP_SUCCESS \<and> places ?n cv ix' \<and> in_order mf cv ?n ix' []"
      using value_sort.qs_loop_ok [OF loc pl assms(4), of 0 "?n - 1" "[]"] by auto
    show ?thesis
    proof (cases r)
      case (Inl d)
      then obtain i ix where d: "d = (i, ix, LDAP_SUCCESS)" "found_dup mf (length cv) cv (i, ix, LDAP_SUCCESS)" "0 \<le> i" "i < int ?n"
        using r(2) cv(2) by (cases d) (auto simp: found_dup_def)
      have "slap_sort_vals sc ad ?n vs nvs = Some (LDAP_TYPE_OR_VALUE_EXISTS, Some (ix ! nat i), vs, nvs)"
        using False Inl r(1) d by (simp add: slap_sort_vals_def cv(1) Let_def abort_simps)
      with found_dup_not_distinct [OF d(2)] cv show ?thesis by auto
    next
      case (Inr t)
      then obtain ix where t: "r = Inr (ix, LDAP_SUCCESS)" "places ?n cv ix" "in_order mf cv ?n ix []"
        using r(2) by (cases t) auto
      have ms: "mset ix = mset [0..<length vs]" "mset ix = mset [0..<length cv]" using t(2) cv(2) by (auto simp: places_def)
      have srt: "sorted_by mf (reorder ix cv)" using in_order_sorted [OF t(2,3)] reorder_places(1) [OF ms(2)] by simp
      then have dist: "distinct_by mf cv"
        using sorted_by_distinct [OF assms(1)] distinct_by_mset [OF reorder_places(2) [OF ms(2)]] by blast
      have z: "mset (zip (reorder ix vs) (reorder ix cv)) = mset (zip vs cv)"
        using reorder_places(4) [OF ms(1), of cv] reorder_places(2) [of ix "zip vs cv"] ms cv(2) by simp
      have res: "slap_sort_vals sc ad ?n vs nvs =
          Some (if has (sat_flags (type_of sc ad)) SLAP_AT_SORTED_VAL then (LDAP_SUCCESS, None, reorder ix vs, map_option (reorder ix) nvs)
                else (LDAP_SUCCESS, None, vs, nvs))"
        using False t(1) r(1) by (simp add: slap_sort_vals_def cv(1) Let_def abort_simps)
      show ?thesis
        using dist srt z assms(5) cv(2) reorder_places(3) [OF ms(1)] reorder_places(3) [OF ms(2)] unfolding res
        by (cases "has (sat_flags (type_of sc ad)) SLAP_AT_SORTED_VAL") (auto simp: Let_def split: option.splits)
    qed
  qed
qed

text \<open>C20. The sort returns for every array of values: when the values are pairwise different it succeeds, and
  for an attribute kept sorted it orders them by the equality rule and permutes the normalised values along; when two values are equal it
  reports valueExists with the place of a value that occurs twice and changes nothing. Its stack of 64 elements never overflows.\<close>

theorem slap_sort_vals_correct:
  assumes "matching_order mf" "sorts_by sc ad mf" "\<not> has (sat_flags (type_of sc ad)) SLAP_AT_ORDERED"
    "length vs < 2 ^ 31" "case nvs of None \<Rightarrow> cv = vs | Some w \<Rightarrow> cv = w \<and> length w = length vs"
  shows "\<exists>rc dup vs' nvs'. slap_sort_vals sc ad (length vs) vs nvs = Some (rc, dup, vs', nvs') \<and>
    (let cv' = (case nvs' of None \<Rightarrow> vs' | Some w \<Rightarrow> w) in
     if distinct_by mf cv
     then rc = LDAP_SUCCESS \<and> dup = None \<and>
       (if has (sat_flags (type_of sc ad)) SLAP_AT_SORTED_VAL
        then sorted_by mf cv' \<and> mset (zip vs' cv') = mset (zip vs cv) else vs' = vs \<and> nvs' = nvs)
     else rc = LDAP_TYPE_OR_VALUE_EXISTS \<and> vs' = vs \<and> nvs' = nvs \<and>
       (\<exists>k j. dup = Some k \<and> k < length cv \<and> j < length cv \<and> j \<noteq> k \<and> mf (cv ! k) (cv ! j) = 0))"
  using sort_vals_correct [OF assms] by (fastforce simp: Let_def)

lemma octet_sorts:
  "sorts_by octet_schema 0 ber_bvcmp" "\<not> has (sat_flags (type_of octet_schema 0)) SLAP_AT_ORDERED" "0 \<noteq> si_ad_objectClass octet_schema"
  by (simp_all add: sorts_by_def equality_by_octet type_of_octet octet_type_def masks)
    (simp_all add: octet_schema_def)

interpretation octet_sort: value_sort ber_bvcmp "COMP octet_schema 0 (sat_equality (type_of octet_schema 0))"
  using COMP_by [OF octet_sorts(1,2)] octet_sorts(3) by unfold_locales simp

lemma slap_sort_vals_correct_witness:
  "\<exists>rc dup vs' nvs'. slap_sort_vals octet_schema 0 10
      [''j'', ''c'', ''a'', ''i'', ''e'', ''b'', ''h'', ''d'', ''g'', ''f''] None = Some (rc, dup, vs', nvs') \<and> rc = LDAP_SUCCESS"
proof -
  let ?vs = "[''j'', ''c'', ''a'', ''i'', ''e'', ''b'', ''h'', ''d'', ''g'', ''f'']"
  have "distinct_by ber_bvcmp ?vs" by code_simp
  moreover have len: "length ?vs = 10" by simp
  ultimately show ?thesis
    using slap_sort_vals_correct [OF octet.matching_order_axioms octet_sorts(1,2), of ?vs ?vs None, unfolded len]
    by (auto simp: Let_def simp del: One_nat_def)
qed

end
