(* ===== verification/Mods_Check.thy ===== *)
theory Mods_Check
  imports Sort_Values
begin

text \<open>
  The checks of a list of modifications before they are applied, \<^verbatim>\<open>servers/slapd/modify.c\<close>: syntax, single
  values, normalisation and duplicates (\<^verbatim>\<open>slap_mods_check\<close>), obsolete and protected attributes, attributes given twice. The modifications
  carry their attribute description, as they do after a request was decoded; the texts of the errors are not modelled.
\<close>

section \<open>Definitions\<close>

definition LDAP_UNDEFINED_TYPE :: int where "LDAP_UNDEFINED_TYPE = 0x11"
definition SLAP_SYNTAX_BINARY :: slap_mask where "SLAP_SYNTAX_BINARY = 0x0002"
definition SLAP_DESC_BINARY :: slap_mask where "SLAP_DESC_BINARY = 0x01"
definition SLAP_AT_MANAGEABLE :: slap_mask where "SLAP_AT_MANAGEABLE = 0x0800"
definition SLAP_MOD_INTERNAL :: slap_mask where "SLAP_MOD_INTERNAL = 0x01"
definition SLAP_MOD_MANAGING :: slap_mask where "SLAP_MOD_MANAGING = 0x02"

text \<open>The loop over the values, with the pretty printer of the syntax or else its validator; the values before
  an error are already replaced.\<close>

fun pretty_vals :: "schema \<Rightarrow> nat \<Rightarrow> mod_op \<Rightarrow> string list \<Rightarrow> (int \<times> string list) option" where
  "pretty_vals sc ad mop [] = Some (0, [])"
| "pretty_vals sc ad mop (v # vs) = do {
     (rc, w) \<leftarrow> (if ssyn_pretty (syn_store sc (sat_syntax (type_of sc ad))) \<noteq> None then ordered_value_pretty sc ad v
                else map_option (\<lambda>rc. (rc, v)) (ordered_value_validate sc ad v (mop = MOD_DELETE)));
     if rc \<noteq> 0 then Some (LDAP_INVALID_SYNTAX, v # vs)
     else do { (rc, ws) \<leftarrow> pretty_vals sc ad mop vs; Some (rc, w # ws) } }"

fun normal_vals :: "schema \<Rightarrow> nat \<Rightarrow> string list \<Rightarrow> (int \<times> string list) option" where
  "normal_vals sc ad [] = Some (0, [])"
| "normal_vals sc ad (v # vs) = do {
     (rc, nv) \<leftarrow> ordered_value_normalize sc SLAP_MR_VALUE_OF_ATTRIBUTE_SYNTAX ad v;
     if rc \<noteq> 0 then Some (rc, [])
     else do { (rc, nvs) \<leftarrow> normal_vals sc ad vs; Some (rc, nv # nvs) } }"

text \<open>Duplicates are looked for in all but deletions.\<close>

definition check_dups :: "schema \<Rightarrow> modification \<Rightarrow> string list \<Rightarrow> (int \<times> modification) option" where
  "check_dups sc md vs =
     (if length vs > 1 \<and> sm_op md \<noteq> MOD_DELETE
      then map_option (\<lambda>(rc, dup, vs, nvs). (rc, md\<lparr>sm_values := Some vs, sm_nvalues := nvs\<rparr>))
             (slap_sort_vals sc (sm_desc md) (length vs) vs (sm_nvalues md))
      else Some (LDAP_SUCCESS, md))"

definition check_values :: "schema \<Rightarrow> modification \<Rightarrow> string list \<Rightarrow> (int \<times> modification) option" where
  "check_values sc md vs = (
     let ad = sm_desc md; sat = type_of sc ad; syn = syn_store sc (sat_syntax sat) in
     if ssyn_pretty syn = None \<and> ssyn_validate syn = None then Some (LDAP_INVALID_SYNTAX, md)
     else do {
       (rc, vs) \<leftarrow> pretty_vals sc ad (sm_op md) vs;
       if rc \<noteq> 0 then Some (rc, md\<lparr>sm_values := Some vs\<rparr>)
       else
         let md = md\<lparr>sm_values := Some vs, sm_numvals := length vs\<rparr> in
         if (sm_op md = MOD_ADD \<or> sm_op md = MOD_REPLACE) \<and> length vs > 1 \<and> sat_single_value sat
         then Some (LDAP_CONSTRAINT_VIOLATION, md)
         else if vs \<noteq> [] \<and> (case sat_equality sat of None \<Rightarrow> False | Some m \<Rightarrow> smr_normalize (mr_store sc m) \<noteq> None)
         then do {
           (rc, nvs) \<leftarrow> normal_vals sc ad vs;
           let md = md\<lparr>sm_nvalues := Some nvs\<rparr>;
           if rc \<noteq> 0 then Some (rc, md) else check_dups sc md vs }
         else check_dups sc md vs })"

definition check_mod :: "schema \<Rightarrow> modification \<Rightarrow> (int \<times> modification) option" where
  "check_mod sc md = (
     let ad = ad_store sc (sm_desc md); sat = type_of sc (sm_desc md);
         binary = has (ssyn_flags (syn_store sc (sat_syntax sat))) SLAP_SYNTAX_BINARY in
     if binary \<noteq> has (ad_flags ad) SLAP_DESC_BINARY then Some (LDAP_UNDEFINED_TYPE, md)
     else if has (ad_flags ad) SLAP_DESC_TAG_RANGE then Some (LDAP_UNDEFINED_TYPE, md)
     else do {
       integer \<leftarrow> (if sm_op md = MOD_INCREMENT then is_at_syntax (at_count sc) (at_store sc) (ad_type ad) SLAPD_INTEGER_SYNTAX
                   else Some True);
       if \<not> integer then Some (LDAP_CONSTRAINT_VIOLATION, md)
       else (case sm_values md of
               None \<Rightarrow> Some (LDAP_SUCCESS, md\<lparr>sm_numvals := 0\<rparr>)
             | Some vs \<Rightarrow> check_values sc md vs) })"

fun slap_mods_check :: "schema \<Rightarrow> modification list \<Rightarrow> (int \<times> modification list) option" where
  "slap_mods_check sc [] = Some (LDAP_SUCCESS, [])"
| "slap_mods_check sc (md # ml) = do {
     (rc, md) \<leftarrow> check_mod sc md;
     if rc \<noteq> LDAP_SUCCESS then Some (rc, md # ml)
     else do { (rc, ml) \<leftarrow> slap_mods_check sc ml; Some (rc, md # ml) } }"

text \<open>The other checks; \<open>relax\<close> is the relax control of the operation.\<close>

definition slap_mods_obsolete_check :: "schema \<Rightarrow> bool \<Rightarrow> modification list \<Rightarrow> int" where
  "slap_mods_obsolete_check sc relax ml =
     (if relax then LDAP_SUCCESS
      else if list_ex (\<lambda>md. sat_obsolete (type_of sc (sm_desc md)) \<and>
                 (sm_op md \<noteq> MOD_REPLACE \<and> sm_op md \<noteq> MOD_DELETE \<or> sm_values md \<noteq> None)) ml
      then LDAP_CONSTRAINT_VIOLATION else LDAP_SUCCESS)"

fun slap_mods_no_user_mod_check :: "schema \<Rightarrow> bool \<Rightarrow> modification list \<Rightarrow> int \<times> modification list" where
  "slap_mods_no_user_mod_check sc relax [] = (LDAP_SUCCESS, [])"
| "slap_mods_no_user_mod_check sc relax (md # ml) = (
     let sat = type_of sc (sm_desc md); (rc, ml') = slap_mods_no_user_mod_check sc relax ml in
     if \<not> sat_no_user_mod sat \<or> has (sm_flags md) SLAP_MOD_INTERNAL then (rc, md # ml')
     else if relax \<and> has (sat_flags sat) SLAP_AT_MANAGEABLE then (rc, md\<lparr>sm_flags := sm_flags md OR SLAP_MOD_MANAGING\<rparr> # ml')
     else (LDAP_CONSTRAINT_VIOLATION, md # ml))"

text \<open>Every modification is compared with all others, which are told apart by their place in the list.\<close>

fun repl_check :: "modification list \<Rightarrow> (nat \<times> modification) list \<Rightarrow> int option" where
  "repl_check ml [] = Some LDAP_SUCCESS"
| "repl_check ml ((i, md) # rest) = do {
     ensure (sm_op md = MOD_ADD);
     if list_ex (\<lambda>(j, mp). sm_desc md = sm_desc mp \<and> i \<noteq> j) (enumerate 0 ml) then Some LDAP_TYPE_OR_VALUE_EXISTS
     else repl_check ml rest }"

definition slap_mods_no_repl_user_mod_check :: "modification list \<Rightarrow> int option" where
  "slap_mods_no_repl_user_mod_check ml = repl_check ml (enumerate 0 ml)"

section \<open>What the check establishes\<close>

lemma pretty_vals_length: "pretty_vals sc ad mop vs = Some (rc, ws) \<Longrightarrow> length ws = length vs"
  by (induction vs arbitrary: ws) (auto simp: bind_eq_Some_conv split: if_splits)

lemma normal_vals_length: "normal_vals sc ad vs = Some (0, nvs) \<Longrightarrow> length nvs = length vs"
  by (induction vs arbitrary: nvs) (auto simp: bind_eq_Some_conv split: if_splits)

lemma distinct_by_short: "matching_order mf \<Longrightarrow> length vs \<le> 1 \<Longrightarrow> distinct_by mf vs"
  by (cases vs) (auto simp: distinct_by_def)

lemma check_dups_ok:
  assumes "matching_order mf" "sorts_by sc (sm_desc md) mf" "\<not> has (sat_flags (type_of sc (sm_desc md))) SLAP_AT_ORDERED"
    "mod_values_ok sc md vs" "length vs < 2 ^ 31" "sm_op md \<noteq> MOD_DELETE" "check_dups sc md vs = Some (LDAP_SUCCESS, md')"
  shows "\<exists>vs'. md' = md\<lparr>sm_values := Some vs', sm_nvalues := sm_nvalues md'\<rparr> \<and> mod_values_ok sc md' vs' \<and>
    (sm_nvalues md' = None \<longleftrightarrow> sm_nvalues md = None) \<and> length vs' = length vs \<and> distinct_by mf (normals md' vs')"
proof (cases "length vs > 1")
  case False
  with assms(7) have md': "md' = md" by (auto simp: check_dups_def)
  have "length (normals md vs) \<le> 1" using False assms(4) by (auto simp: mod_values_ok_def normals_def split: option.splits)
  with assms(4) distinct_by_short [OF assms(1)] show ?thesis unfolding md' by (intro exI [of _ vs]) (auto simp: mod_values_ok_def)
next
  case True
  have "case sm_nvalues md of None \<Rightarrow> normals md vs = vs | Some w \<Rightarrow> normals md vs = w \<and> length w = length vs"
    using assms(4) by (auto simp: mod_values_ok_def normals_def split: option.splits)
  from sort_vals_correct [OF assms(1-3,5) this] obtain rc dup vs' nvs' where
    r: "slap_sort_vals sc (sm_desc md) (length vs) vs (sm_nvalues md) = Some (rc, dup, vs', nvs')" "length vs' = length vs"
    "length (case nvs' of None \<Rightarrow> vs' | Some w \<Rightarrow> w) = length vs" "nvs' = None \<longleftrightarrow> sm_nvalues md = None"
    "if distinct_by mf (normals md vs)
     then (if has (sat_flags (type_of sc (sm_desc md))) SLAP_AT_SORTED_VAL
           then sorted_by mf (case nvs' of None \<Rightarrow> vs' | Some w \<Rightarrow> w) else vs' = vs \<and> nvs' = sm_nvalues md)
     else rc = LDAP_TYPE_OR_VALUE_EXISTS"
    by (auto simp: Let_def split: if_splits)
  from assms(6,7) True r(1) have md': "md' = md\<lparr>sm_values := Some vs', sm_nvalues := nvs'\<rparr>" and rc: "rc = LDAP_SUCCESS"
    by (auto simp: check_dups_def)
  have "distinct_by mf (normals md' vs')"
    using r(5) rc sorted_by_distinct [OF assms(1)]
    by (auto simp: md' normals_def LDAP_SUCCESS_def LDAP_TYPE_OR_VALUE_EXISTS_def split: if_splits option.splits)
  moreover have "mod_values_ok sc md' vs'"
    using assms(4) r(2-4) by (auto simp: mod_values_ok_def md' split: option.splits)
  ultimately show ?thesis using r(2,4) by (intro exI [of _ vs']) (simp add: md')
qed

text \<open>A modification that passes has values in order, and as many normalised ones when its rule normalises.\<close>

lemma check_mod_ok:
  assumes "matching_order mf" "sorts_by sc (sm_desc md) mf" "\<not> has (sat_flags (type_of sc (sm_desc md))) SLAP_AT_ORDERED"
    "sm_values md = Some vs" "vs \<noteq> []" "sm_nvalues md = None" "length vs < 2 ^ 31" "sm_op md = MOD_ADD"
    "check_mod sc md = Some (LDAP_SUCCESS, md')"
  shows "\<exists>vs'. sm_desc md' = sm_desc md \<and> sm_op md' = MOD_ADD \<and> mod_values_ok sc md' vs' \<and> length vs' = length vs \<and>
    (sm_nvalues md' = None \<longleftrightarrow> normalizer sc (sm_desc md) = None) \<and> distinct_by mf (normals md' vs') \<and>
    (sat_single_value (type_of sc (sm_desc md)) \<longrightarrow> length vs' = 1)"
proof -
  let ?sat = "type_of sc (sm_desc md)"
  have "check_values sc md vs = Some (LDAP_SUCCESS, md')"
    using assms(4,8,9) by (auto simp: check_mod_def Let_def LDAP_SUCCESS_def LDAP_UNDEFINED_TYPE_def split: if_splits)
  then obtain ws where ws: "pretty_vals sc (sm_desc md) MOD_ADD vs = Some (0, ws)"
    and single: "\<not> (length ws > 1 \<and> sat_single_value ?sat)"
    and norm: "(if normalizer sc (sm_desc md) \<noteq> None \<and> ws \<noteq> []
       then Option.bind (normal_vals sc (sm_desc md) ws)
              (\<lambda>(rc, nvs). let md = md\<lparr>sm_values := Some ws, sm_numvals := length ws, sm_nvalues := Some nvs\<rparr>
                 in if rc \<noteq> 0 then Some (rc, md) else check_dups sc md ws)
       else check_dups sc (md\<lparr>sm_values := Some ws, sm_numvals := length ws\<rparr>) ws) = Some (LDAP_SUCCESS, md')"
    using assms(8)
    by (auto simp: check_values_def normalizer_def Let_def bind_eq_Some_conv LDAP_SUCCESS_def LDAP_INVALID_SYNTAX_def LDAP_CONSTRAINT_VIOLATION_def
        split: if_splits option.splits)
  have len: "length ws = length vs" using pretty_vals_length [OF ws] .
  then have ne: "ws \<noteq> []" using assms(5) by auto
  obtain md1 where md1: "sm_desc md1 = sm_desc md" "sm_op md1 = MOD_ADD" "mod_values_ok sc md1 ws" "check_dups sc md1 ws = Some (LDAP_SUCCESS, md')"
    "sm_nvalues md1 = None \<longleftrightarrow> normalizer sc (sm_desc md) = None"
  proof (cases "normalizer sc (sm_desc md) = None")
    case True
    with norm assms(6,8) that [of "md\<lparr>sm_values := Some ws, sm_numvals := length ws\<rparr>"] show ?thesis by (auto simp: mod_values_ok_def)
  next
    case False
    with norm ne obtain nvs where "normal_vals sc (sm_desc md) ws = Some (0, nvs)"
      "check_dups sc (md\<lparr>sm_values := Some ws, sm_numvals := length ws, sm_nvalues := Some nvs\<rparr>) ws = Some (LDAP_SUCCESS, md')"
      by (auto simp: bind_eq_Some_conv Let_def LDAP_SUCCESS_def split: if_splits)
    with False assms(8) normal_vals_length that [of "md\<lparr>sm_values := Some ws, sm_numvals := length ws, sm_nvalues := Some nvs\<rparr>"]
    show ?thesis by (auto simp: mod_values_ok_def)
  qed
  from check_dups_ok [OF assms(1) _ _ md1(3) _ _ md1(4)] assms(2,3,7) md1(1,2) len obtain vs' where
    d: "md' = md1\<lparr>sm_values := Some vs', sm_nvalues := sm_nvalues md'\<rparr>" "mod_values_ok sc md' vs'"
    "sm_nvalues md' = None \<longleftrightarrow> sm_nvalues md1 = None" "length vs' = length ws" "distinct_by mf (normals md' vs')" by auto
  have "sm_desc md' = sm_desc md" "sm_op md' = MOD_ADD" using md1(1,2) by (subst d(1), simp)+
  moreover have "sat_single_value ?sat \<longrightarrow> length vs' = 1"
    using single ne d(4) by (cases ws) auto
  ultimately show ?thesis using d(2-5) md1(5) len by (intro exI [of _ vs']) auto
qed

lemma mods_check_nth:
  "slap_mods_check sc ml = Some (LDAP_SUCCESS, ml') \<Longrightarrow> i < length ml \<Longrightarrow>
   length ml' = length ml \<and> check_mod sc (ml ! i) = Some (LDAP_SUCCESS, ml' ! i)"
proof (induction ml arbitrary: ml' i)
  case (Cons md ml)
  then obtain md1 ml1 where c: "check_mod sc md = Some (LDAP_SUCCESS, md1)" "slap_mods_check sc ml = Some (LDAP_SUCCESS, ml1)" "ml' = md1 # ml1"
    by (auto simp: bind_eq_Some_conv split: if_splits)
  have "length ml1 = length ml" using Cons.IH [OF c(2), of 0] c(2) by (cases ml) auto
  with c Cons.IH [OF c(2)] Cons.prems(2) show ?case by (cases i) auto
qed simp

text \<open>C19. A modification that slap_mods_check accepted can be applied: modify_add_values either finds one of its values in the
  attribute and changes nothing, or adds all of them, after which the attribute is well-formed, sorted if it is kept sorted,
  and still without duplicates; the check has replaced the values by as many and left one for a single-valued attribute.\<close>

theorem checked_add_correct:
  assumes "matching_order mf" "equality_by sc (sm_desc md) mf" "sorts_by sc (sm_desc md) mf"
    "\<not> has (sat_flags (type_of sc (sm_desc md))) SLAP_AT_ORDERED"
    "slap_mods_check sc ml = Some (LDAP_SUCCESS, ml')" "i < length ml" "md = ml ! i" "md' = ml' ! i"
    "sm_values md = Some vs" "vs \<noteq> []" "length vs < 2 ^ 31" "sm_nvalues md = None" "sm_op md = MOD_ADD"
    "attr_find (e_attrs e) (sm_desc md) = Some a" "attr_ok mf a" "nvals_of a \<noteq> []" "a_vals a \<noteq> None" "distinct_by mf (nvals_of a)"
    "normalizer sc (sm_desc md) = None \<longleftrightarrow> a_nvals a = Shared"
  shows "\<exists>vs'. sm_values md' = Some vs' \<and> length vs' = length vs \<and> (sat_single_value (type_of sc (sm_desc md)) \<longrightarrow> length vs' = 1) \<and>
    (if \<exists>w\<in>set (normals md' vs'). \<exists>v\<in>set (nvals_of a). mf v w = 0
     then modify_add_values righteous sc e md' False = Some (LDAP_TYPE_OR_VALUE_EXISTS, e)
     else \<exists>a'. modify_add_values righteous sc e md' False = Some (LDAP_SUCCESS, set_attr e (sm_desc md) a') \<and>
       attr_ok mf a' \<and> pairs a' = pairs a + mset (zip vs' (normals md' vs')) \<and> distinct_by mf (nvals_of a'))"
proof -
  have "check_mod sc md = Some (LDAP_SUCCESS, md')" using mods_check_nth [OF assms(5,6)] assms(7,8) by simp
  from check_mod_ok [OF assms(1,3,4,9,10,12,11,13) this] obtain vs' where c: "sm_desc md' = sm_desc md" "sm_op md' = MOD_ADD"
    "mod_values_ok sc md' vs'" "length vs' = length vs" "sm_nvalues md' = None \<longleftrightarrow> normalizer sc (sm_desc md) = None"
    "distinct_by mf (normals md' vs')" "sat_single_value (type_of sc (sm_desc md)) \<longrightarrow> length vs' = 1" by (elim exE conjE)
  have "sm_values md' = Some vs'" using c(3) by (simp add: mod_values_ok_def)
  moreover have "if \<exists>w\<in>set (normals md' vs'). \<exists>v\<in>set (nvals_of a). mf v w = 0
     then modify_add_values righteous sc e md' False = Some (LDAP_TYPE_OR_VALUE_EXISTS, e)
     else \<exists>a'. modify_add_values righteous sc e md' False = Some (LDAP_SUCCESS, set_attr e (sm_desc md) a') \<and>
       attr_ok mf a' \<and> a_desc a' = sm_desc md \<and> pairs a' = pairs a + mset (zip vs' (normals md' vs')) \<and> distinct_by mf (nvals_of a')"
    using add_values_correct [of mf sc md' vs' e a righteous, unfolded c(1),
        OF assms(1,2,4) c(3,2) assms(14-17) _ assms(18) c(6)] c(5) assms(19) by simp
  ultimately show ?thesis using c(4,7) by (auto split: if_splits)
qed

definition checked_schema :: schema where
  "checked_schema = octet_schema\<lparr>syn_store := \<lambda>i. \<lparr>ssyn_flags = 0, ssyn_sups = None, ssyn_validate = Some (\<lambda>v. if v = [] then LDAP_INVALID_SYNTAX else 0),
     ssyn_pretty = None\<rparr>\<rparr>"

lemma checked_schema_simps:
  "type_of checked_schema ad = octet_type ad" "mr_store checked_schema = mr_store octet_schema"
  "equality_by checked_schema ad ber_bvcmp"
  using equality_by_octet [of ad] by (simp_all add: checked_schema_def type_of_def equality_by_def) (simp add: octet_schema_def)

definition sample_add :: "string list \<Rightarrow> modification" where
  "sample_add vs = \<lparr>sm_desc = 0, sm_values = Some vs, sm_nvalues = None, sm_numvals = 0, sm_op = MOD_ADD, sm_flags = 0\<rparr>"

lemma sample_add_checked:
  "slap_mods_check checked_schema [sample_add [''d'', ''c'']] = Some (LDAP_SUCCESS, [sample_add [''c'', ''d'']\<lparr>sm_numvals := 2\<rparr>])"
  by code_simp

lemma checked_add_correct_witness:
  "\<exists>a'. modify_add_values True checked_schema
      \<lparr>e_name = [], e_nname = [], e_ocflags = 0, e_attrs = [sorted_attr 0 [''b'', ''aa'']]\<rparr> (sample_add [''c'', ''d'']\<lparr>sm_numvals := 2\<rparr>) False =
    Some (LDAP_SUCCESS, set_attr \<lparr>e_name = [], e_nname = [], e_ocflags = 0, e_attrs = [sorted_attr 0 [''b'', ''aa'']]\<rparr> 0 a') \<and> attr_ok ber_bvcmp a'"
proof -
  let ?a = "sorted_attr 0 [''b'', ''aa'']"
  have "sorts_by checked_schema 0 ber_bvcmp" by (simp add: sorts_by_def checked_schema_simps)
  moreover have "attr_ok ber_bvcmp ?a" by (rule sorted_attr_ok) (simp add: sorted_by_def ber_bvcmp_def)
  moreover have "distinct_by ber_bvcmp [''b'', ''aa'']" by code_simp
  moreover have "\<not> (\<exists>w\<in>{''c'', ''d''}. \<exists>v\<in>{''b'', ''aa''}. ber_bvcmp v w = 0)" by code_simp
  ultimately show ?thesis
    using checked_add_correct [of ber_bvcmp checked_schema "sample_add [''d'', ''c'']" "[sample_add [''d'', ''c'']]" _ 0 _ "[''d'', ''c'']"
        "\<lparr>e_name = [], e_nname = [], e_ocflags = 0, e_attrs = [?a]\<rparr>" ?a True, OF octet.matching_order_axioms _ _ _ sample_add_checked]
    by (simp add: checked_schema_simps sample_add_def octet_type_def masks normalizer_def mr_octet octet_rule_def normals_def) blast
qed

text \<open>Two equal values are refused.\<close>

lemma equal_values_refused:
  "map_option fst (slap_mods_check checked_schema [sample_add [''c'', ''d'', ''c'']]) = Some LDAP_TYPE_OR_VALUE_EXISTS"
  by code_simp

end
