(* ===== verification/Object_Class.thy ===== *)
theory Object_Class
  imports Mods_Check
begin

text \<open>
  Object classes and content rules, \<^verbatim>\<open>servers/slapd/oc.c\<close>, \<^verbatim>\<open>cr.c\<close>, with \<^verbatim>\<open>oidm_find\<close> of \<^verbatim>\<open>oidm.c\<close> and the checks of names of
  \<^verbatim>\<open>schemaparse.c\<close>. Classes and attribute types are named by numbers, their records are in
  a store; null-terminated arrays are lists, \<open>None\<close> is a null pointer where the code tells it from an empty array.
  A rule is a value, since nothing changes it after its insertion. \<^verbatim>\<open>soc_check\<close> is a function pointer of the class.
  The cache of class names of the tools, memory exhaustion, undefined classes, the output of definitions and the texts of errors are not modelled.
\<close>

section \<open>Definitions\<close>

datatype oc_kind = LDAP_SCHEMA_ABSTRACT | LDAP_SCHEMA_STRUCTURAL | LDAP_SCHEMA_AUXILIARY

record ldap_objectclass =
  oc_oid :: string
  oc_names :: "string list option"
  oc_obsolete :: bool
  oc_sup_oids :: "string list option"
  oc_kind :: oc_kind
  oc_at_oids_must :: "string list option"
  oc_at_oids_may :: "string list option"

record object_class =
  soc_oid :: "string option"
  soc_names :: "string list option"
  soc_obsolete :: bool
  soc_sup_oids :: "string list option"
  soc_kind :: oc_kind
  soc_at_oids_must :: "string list option"
  soc_at_oids_may :: "string list option"
  soc_cname :: string
  soc_sups :: "nat list option"
  soc_required :: "nat list"
  soc_allowed :: "nat list"
  soc_check :: "(entry \<Rightarrow> int) option"
  soc_oidmacro :: "string option"
  soc_flags :: slap_mask

record ldap_contentrule =
  cr_oid :: string
  cr_names :: "string list option"
  cr_obsolete :: bool
  cr_oc_oids_aux :: "string list option"
  cr_at_oids_must :: "string list option"
  cr_at_oids_may :: "string list option"
  cr_at_oids_not :: "string list option"

record content_rule =
  scr_oid :: string
  scr_names :: "string list option"
  scr_obsolete :: bool
  scr_sclass :: nat
  scr_auxiliaries :: "nat list"
  scr_required :: "nat list"
  scr_allowed :: "nat list"
  scr_precluded :: "nat list"
  scr_oidmacro :: "string option"

record oindexrec =
  oir_name :: string
  oir_oc :: nat

record cindexrec =
  cir_name :: string
  cir_cr :: content_rule

record oid_macro =
  som_oid :: string
  som_names :: "string list option"

text \<open>The tables; \<open>oc_count\<close> classes have been allocated.\<close>

record class_schema =
  oc_store :: "nat \<Rightarrow> object_class"
  oc_count :: nat
  oc_index :: "oindexrec avlnode"
  oc_list :: "nat list"
  oc_sys_tail :: "nat option"
  cr_index :: "cindexrec avlnode"
  cr_list :: "content_rule list"
  om_list :: "oid_macro list"
  at_check :: "nat \<Rightarrow> (entry \<Rightarrow> attribute \<Rightarrow> int) option"   \<comment> \<open>\<^verbatim>\<open>sat_check\<close>\<close>
  si_ad_structuralObjectClass :: nat
  si_oc_top :: nat
  si_oc_extensibleObject :: nat
  si_oc_subentry :: nat
  si_oc_collectiveAttributeSubentry :: nat
  si_oc_glue :: nat

definition SLAP_OCF_SET_FLAGS :: slap_mask where "SLAP_OCF_SET_FLAGS = 0x1"
definition SLAP_OCF_CHECK_SUP :: slap_mask where "SLAP_OCF_CHECK_SUP = 0x2"
definition SLAP_OCF_MASK :: slap_mask where "SLAP_OCF_MASK = SLAP_OCF_SET_FLAGS OR SLAP_OCF_CHECK_SUP"
definition SLAP_OC_SUBENTRY :: slap_mask where "SLAP_OC_SUBENTRY = 0x0004"
definition SLAP_OC_COLLECTIVEATTRIBUTESUBENTRY :: slap_mask where "SLAP_OC_COLLECTIVEATTRIBUTESUBENTRY = 0x0010"
definition SLAP_OC_GLUE :: slap_mask where "SLAP_OC_GLUE = 0x0020"
definition SLAP_OC__MASK :: slap_mask where "SLAP_OC__MASK = 0x00FF"
definition SLAP_OC__END :: slap_mask where "SLAP_OC__END = 0x0100"
definition SLAP_OC_OPERATIONAL :: slap_mask where "SLAP_OC_OPERATIONAL = 0x4000"
definition SLAP_OC_HARDCODE :: slap_mask where "SLAP_OC_HARDCODE = 0x10000"
definition SLAP_OC_DELETED :: slap_mask where "SLAP_OC_DELETED = 0x20000"
definition SLAPD_TOP_OID :: string where "SLAPD_TOP_OID = ''2.5.6.0''"
definition SLAP_SCHERR_CLASS_NOT_FOUND :: int where "SLAP_SCHERR_CLASS_NOT_FOUND = 2"
definition SLAP_SCHERR_CLASS_BAD_USAGE :: int where "SLAP_SCHERR_CLASS_BAD_USAGE = 3"
definition SLAP_SCHERR_CLASS_BAD_SUP :: int where "SLAP_SCHERR_CLASS_BAD_SUP = 4"
definition SLAP_SCHERR_CLASS_DUP :: int where "SLAP_SCHERR_CLASS_DUP = 5"
definition SLAP_SCHERR_CLASS_INCONSISTENT :: int where "SLAP_SCHERR_CLASS_INCONSISTENT = 6"
definition SLAP_SCHERR_ATTR_NOT_FOUND :: int where "SLAP_SCHERR_ATTR_NOT_FOUND = 7"
definition SLAP_SCHERR_BAD_DESCR :: int where "SLAP_SCHERR_BAD_DESCR = 24"
definition SLAP_SCHERR_OIDM :: int where "SLAP_SCHERR_OIDM = 25"
definition SLAP_SCHERR_CR_DUP :: int where "SLAP_SCHERR_CR_DUP = 26"
definition SLAP_SCHERR_CR_BAD_STRUCT :: int where "SLAP_SCHERR_CR_BAD_STRUCT = 27"
definition SLAP_SCHERR_CR_BAD_AUX :: int where "SLAP_SCHERR_CR_BAD_AUX = 28"
definition SLAP_SCHERR_CR_BAD_AT :: int where "SLAP_SCHERR_CR_BAD_AT = 29"

definition oc_index_cmp :: "oindexrec \<Rightarrow> oindexrec \<Rightarrow> int" where
  "oc_index_cmp oir1 oir2 =
     (let i = int (length (oir_name oir1)) - int (length (oir_name oir2))
      in if i \<noteq> 0 then i else strcasecmp (oir_name oir1) (oir_name oir2))"

definition oc_index_name_cmp :: "string \<Rightarrow> oindexrec \<Rightarrow> int" where
  "oc_index_name_cmp name oir =
     (let i = int (length name) - int (length (oir_name oir))
      in if i \<noteq> 0 then i else strcasecmp name (oir_name oir))"

definition oc_bvfind :: "class_schema \<Rightarrow> string \<Rightarrow> nat option" where
  "oc_bvfind cs ocname = map_option oir_oc (avl_find (oc_index cs) (oc_index_name_cmp ocname))"

definition oc_find :: "class_schema \<Rightarrow> string \<Rightarrow> nat option" where
  "oc_find cs ocname = oc_bvfind cs ocname"

definition cr_index_cmp :: "cindexrec \<Rightarrow> cindexrec \<Rightarrow> int" where
  "cr_index_cmp cir1 cir2 =
     (let i = int (length (cir_name cir1)) - int (length (cir_name cir2))
      in if i \<noteq> 0 then i else strcasecmp (cir_name cir1) (cir_name cir2))"

definition cr_index_name_cmp :: "string \<Rightarrow> cindexrec \<Rightarrow> int" where
  "cr_index_name_cmp name cir =
     (let i = int (length name) - int (length (cir_name cir))
      in if i \<noteq> 0 then i else strcasecmp name (cir_name cir))"

definition cr_bvfind :: "class_schema \<Rightarrow> string \<Rightarrow> content_rule option" where
  "cr_bvfind cs crname = map_option cir_cr (avl_find (cr_index cs) (cr_index_name_cmp crname))"

definition cr_find :: "class_schema \<Rightarrow> string \<Rightarrow> content_rule option" where
  "cr_find cs crname = cr_bvfind cs crname"

subsection \<open>Subclasses and classes of an entry\<close>

definition sups_of :: "object_class \<Rightarrow> nat list" where
  "sups_of oc = (case soc_sups oc of None \<Rightarrow> [] | Some l \<Rightarrow> l)"

text \<open>A loop that returns at the first element that fits.\<close>

fun first_true :: "('a \<Rightarrow> bool option) \<Rightarrow> 'a list \<Rightarrow> bool option" where
  "first_true f [] = Some False"
| "first_true f (x # xs) = do { b \<leftarrow> f x; if b then Some True else first_true f xs }"

text \<open>The recursion over the superclasses has fuel; \<open>None\<close> stands for a cyclic hierarchy.\<close>

primrec subclass_of :: "nat \<Rightarrow> class_schema \<Rightarrow> nat \<Rightarrow> nat \<Rightarrow> bool option" where
  "subclass_of 0 cs super sub = None"
| "subclass_of (Suc fuel) cs super sub =
     (if super = sub then Some True else first_true (subclass_of fuel cs super) (sups_of (oc_store cs sub)))"

definition is_object_subclass :: "class_schema \<Rightarrow> nat \<Rightarrow> nat \<Rightarrow> bool option" where
  "is_object_subclass cs super sub = subclass_of (Suc (oc_count cs)) cs super sub"

text \<open>\<open>Inl\<close> leaves the loop over the classes of the entry with success, \<open>Inr\<close> is the mask of flags.\<close>

fun class_loop :: "class_schema \<Rightarrow> nat \<Rightarrow> slap_mask \<Rightarrow> slap_mask \<Rightarrow> string list \<Rightarrow> (slap_mask + slap_mask) option" where
  "class_loop cs oc flags m [] = Some (Inr m)"
| "class_loop cs oc flags m (v # vs) =
     (case oc_bvfind cs v of
        None \<Rightarrow> class_loop cs oc flags m vs
      | Some c \<Rightarrow> do {
          hit \<leftarrow> (if has flags SLAP_OCF_SET_FLAGS then Some False
                 else if c = oc then Some True
                 else if has flags SLAP_OCF_CHECK_SUP then is_object_subclass cs oc c else Some False);
          if hit then Some (Inl m) else class_loop cs oc flags (m OR soc_flags (oc_store cs c)) vs })"

definition is_entry_objectclass :: "schema \<Rightarrow> class_schema \<Rightarrow> entry \<Rightarrow> nat \<Rightarrow> slap_mask \<Rightarrow> (entry \<times> bool) option" where
  "is_entry_objectclass sc cs e oc flags = do {
     ensure (flags AND SLAP_OCF_MASK \<noteq> SLAP_OCF_MASK);
     if flags = SLAP_OCF_SET_FLAGS \<and> has (e_ocflags e) SLAP_OC__END
     then Some (e, e_ocflags e AND soc_flags (oc_store cs oc) AND SLAP_OC__MASK \<noteq> 0)
     else (case attr_find (e_attrs e) (si_ad_objectClass sc) of
             None \<Rightarrow> Some (e\<lparr>e_ocflags := e_ocflags e OR SLAP_OC__END\<rparr>, False)
           | Some a \<Rightarrow> do {
               r \<leftarrow> class_loop cs oc flags (e_ocflags e) (vals_of a);
               Some (case r of
                       Inl m \<Rightarrow> (e\<lparr>e_ocflags := m\<rparr>, True)
                     | Inr m \<Rightarrow> let m = m OR SLAP_OC__END
                               in (e\<lparr>e_ocflags := m\<rparr>, m AND soc_flags (oc_store cs oc) AND SLAP_OC__MASK \<noteq> 0)) }) }"

definition is_entry_subentry :: "schema \<Rightarrow> class_schema \<Rightarrow> entry \<Rightarrow> (entry \<times> bool) option" where
  "is_entry_subentry sc cs e =
     (if has (e_ocflags e) SLAP_OC__END then Some (e, has (e_ocflags e) SLAP_OC_SUBENTRY)
      else is_entry_objectclass sc cs e (si_oc_subentry cs) SLAP_OCF_SET_FLAGS)"

definition is_entry_collectiveAttributeSubentry :: "schema \<Rightarrow> class_schema \<Rightarrow> entry \<Rightarrow> (entry \<times> bool) option" where
  "is_entry_collectiveAttributeSubentry sc cs e =
     (if has (e_ocflags e) SLAP_OC__END then Some (e, has (e_ocflags e) SLAP_OC_COLLECTIVEATTRIBUTESUBENTRY)
      else is_entry_objectclass sc cs e (si_oc_collectiveAttributeSubentry cs) SLAP_OCF_SET_FLAGS)"

definition is_entry_glue :: "schema \<Rightarrow> class_schema \<Rightarrow> entry \<Rightarrow> (entry \<times> bool) option" where
  "is_entry_glue sc cs e =
     (if has (e_ocflags e) SLAP_OC__END then Some (e, has (e_ocflags e) SLAP_OC_GLUE)
      else is_entry_objectclass sc cs e (si_oc_glue cs) SLAP_OCF_SET_FLAGS)"

subsection \<open>Names and OIDs\<close>

definition ASCII_LOWER :: "char \<Rightarrow> bool" where
  "ASCII_LOWER c = (c \<ge> CHR ''a'' \<and> c \<le> CHR ''z'')"

definition ASCII_UPPER :: "char \<Rightarrow> bool" where
  "ASCII_UPPER c = (c \<ge> CHR ''A'' \<and> c \<le> CHR ''Z'')"

definition ASCII_ALPHA :: "char \<Rightarrow> bool" where
  "ASCII_ALPHA c = (ASCII_LOWER c \<or> ASCII_UPPER c)"

definition DESC_CHAR :: "char \<Rightarrow> bool" where
  "DESC_CHAR c \<longleftrightarrow> ASCII_ALPHA c \<or> isdigit c \<or> c = CHR ''-''"

definition slap_valid_descr :: "string \<Rightarrow> bool" where
  "slap_valid_descr descr = (case descr of [] \<Rightarrow> False | c # cs \<Rightarrow> ASCII_ALPHA c \<and> list_all DESC_CHAR cs)"

definition OID_LEADCHAR :: "string \<Rightarrow> bool" where
  "OID_LEADCHAR oid = (case oid of [] \<Rightarrow> False | c # _ \<Rightarrow> isdigit c)"

text \<open>The walk over equal characters: the rests and the number of characters.\<close>

fun ds_walk :: "string \<Rightarrow> string \<Rightarrow> nat \<Rightarrow> string \<times> string \<times> nat" where
  "ds_walk (a # s1) (b # s2) n = (if a = b then ds_walk s1 s2 (Suc n) else (a # s1, b # s2, n))"
| "ds_walk s1 s2 n = (s1, s2, n)"

definition dscompare :: "string \<Rightarrow> string \<Rightarrow> char \<Rightarrow> nat" where
  "dscompare s1 s2 delim =
     (case ds_walk s1 s2 0 of (r1, r2, n) \<Rightarrow> if r1 = [] \<and> (r2 = [] \<or> hd r2 = delim) then n else 0)"

fun macro_names :: "string \<Rightarrow> string \<Rightarrow> string list \<Rightarrow> string option" where
  "macro_names value oid [] = None"
| "macro_names value oid (n # ns) =
     (let pos = dscompare n oid CHR '':'' in
      if pos \<noteq> 0 then Some (if drop pos oid = [] then value else value @ ''.'' @ drop (pos + 1) oid)
      else macro_names value oid ns)"

fun macro_list :: "string \<Rightarrow> oid_macro list \<Rightarrow> string option" where
  "macro_list oid [] = None"
| "macro_list oid (om # oms) =
     (case som_names om of
        None \<Rightarrow> macro_list oid oms
      | Some names \<Rightarrow> (case macro_names (som_oid om) oid names of None \<Rightarrow> macro_list oid oms | Some r \<Rightarrow> Some r))"

definition oidm_find :: "class_schema \<Rightarrow> string \<Rightarrow> string option" where
  "oidm_find cs oid = (if OID_LEADCHAR oid then Some oid else macro_list oid (om_list cs))"

text \<open>The OID and the macro it came from.\<close>

definition expand_oid :: "class_schema \<Rightarrow> string \<Rightarrow> (string \<times> string option) option" where
  "expand_oid cs oid =
     (if OID_LEADCHAR oid then Some (oid, None) else map_option (\<lambda>o'. (o', Some oid)) (oidm_find cs oid))"

subsection \<open>Attributes and superclasses of a class\<close>

text \<open>A loop that stops at the first code other than 0.\<close>

fun each_ok :: "('x \<Rightarrow> 's \<Rightarrow> (int \<times> 's) option) \<Rightarrow> 'x list \<Rightarrow> 's \<Rightarrow> (int \<times> 's) option" where
  "each_ok f [] s = Some (0, s)"
| "each_ok f (x # xs) s = do {
     (rc, s) \<leftarrow> f x s;
     if rc \<noteq> 0 then Some (rc, s) else each_ok f xs s }"

text \<open>\<^verbatim>\<open>at_find\<close> outside of tools, where it changes nothing.\<close>

definition find_at :: "attr_tables \<Rightarrow> string \<Rightarrow> nat option option" where
  "find_at atab n = map_option snd (at_find False atab n)"

definition operational :: "schema \<Rightarrow> nat \<Rightarrow> nat" where
  "operational sc at = (if sat_usage (at_store sc at) \<noteq> 0 then 1 else 0)"

definition required_step :: "schema \<Rightarrow> attr_tables \<Rightarrow> string \<Rightarrow> object_class \<times> nat \<Rightarrow> (int \<times> object_class \<times> nat) option" where
  "required_step sc atab n = (\<lambda>(soc, opn). do {
     sat \<leftarrow> find_at atab n;
     case sat of
       None \<Rightarrow> Some (SLAP_SCHERR_ATTR_NOT_FOUND, soc, opn)
     | Some a \<Rightarrow> Some (0, if a \<in> set (soc_required soc) then soc else soc\<lparr>soc_required := soc_required soc @ [a]\<rparr>, opn + operational sc a) })"

text \<open>The second loop takes the required types out of the list of allowed ones; with no required type at all it would read a null
  pointer.\<close>

definition oc_create_required :: "schema \<Rightarrow> attr_tables \<Rightarrow> string list option \<Rightarrow> object_class \<times> nat \<Rightarrow> (int \<times> object_class \<times> nat) option" where
  "oc_create_required sc atab attrs s =
     (case attrs of
        None \<Rightarrow> Some (0, s)
      | Some attrs \<Rightarrow> do {
          (rc, soc, opn) \<leftarrow> each_ok (required_step sc atab) attrs s;
          if rc \<noteq> 0 then Some (rc, soc, opn)
          else do {
            ensure (soc_required soc \<noteq> []);
            Some (0, soc\<lparr>soc_allowed := fold remove1 (soc_required soc) (soc_allowed soc)\<rparr>, opn) } })"

definition allowed_step :: "schema \<Rightarrow> attr_tables \<Rightarrow> string \<Rightarrow> object_class \<times> nat \<Rightarrow> (int \<times> object_class \<times> nat) option" where
  "allowed_step sc atab n = (\<lambda>(soc, opn). do {
     sat \<leftarrow> find_at atab n;
     case sat of
       None \<Rightarrow> Some (SLAP_SCHERR_ATTR_NOT_FOUND, soc, opn)
     | Some a \<Rightarrow> Some (0, if a \<in> set (soc_required soc) \<or> a \<in> set (soc_allowed soc) then soc
                         else soc\<lparr>soc_allowed := soc_allowed soc @ [a]\<rparr>, opn + operational sc a) })"

definition oc_create_allowed :: "schema \<Rightarrow> attr_tables \<Rightarrow> string list option \<Rightarrow> object_class \<times> nat \<Rightarrow> (int \<times> object_class \<times> nat) option" where
  "oc_create_allowed sc atab attrs s = (case attrs of None \<Rightarrow> Some (0, s) | Some attrs \<Rightarrow> each_ok (allowed_step sc atab) attrs s)"

text \<open>One superclass; \<open>deeper\<close> is the recursive call for the superclasses of the superclass.\<close>

definition sup_step :: "schema \<Rightarrow> attr_tables \<Rightarrow> class_schema \<Rightarrow> (object_class \<times> nat \<Rightarrow> string list option \<Rightarrow> (int \<times> object_class \<times> nat) option)
    \<Rightarrow> bool \<Rightarrow> string \<Rightarrow> object_class \<times> nat \<Rightarrow> (int \<times> object_class \<times> nat) option" where
  "sup_step sc atab cs deeper add_sups n = (\<lambda>(soc, opn).
     case oc_find cs n of
       None \<Rightarrow> Some (SLAP_SCHERR_CLASS_NOT_FOUND, soc, opn)
     | Some c \<Rightarrow>
         let soc1 = oc_store cs c in
         if soc_kind soc \<noteq> soc_kind soc1 \<and> soc_kind soc1 \<noteq> LDAP_SCHEMA_ABSTRACT then Some (SLAP_SCHERR_CLASS_BAD_SUP, soc, opn)
         else if soc_obsolete soc1 \<and> \<not> soc_obsolete soc then Some (SLAP_SCHERR_CLASS_BAD_SUP, soc, opn)
         else do {
           let opn = (if has (soc_flags soc) SLAP_OC_OPERATIONAL then opn + 1 else opn);
           let soc = (if add_sups then soc\<lparr>soc_sups := Some (sups_of soc @ [c])\<rparr> else soc);
           (code, s) \<leftarrow> deeper (soc, opn) (soc_sup_oids soc1);
           if code \<noteq> 0 then Some (code, s)
           else do {
             (code, s) \<leftarrow> oc_create_required sc atab (soc_at_oids_must soc1) s;
             if code \<noteq> 0 then Some (code, s) else oc_create_allowed sc atab (soc_at_oids_may soc1) s } })"

text \<open>The recursion has fuel; \<open>None\<close> is an endless one. At the first level the array of superclasses is allocated.\<close>

primrec oc_add_sups :: "nat \<Rightarrow> schema \<Rightarrow> attr_tables \<Rightarrow> class_schema \<Rightarrow> object_class \<times> nat \<Rightarrow> string list option \<Rightarrow> (int \<times> object_class \<times> nat) option" where
  "oc_add_sups 0 sc atab cs s sups = None"
| "oc_add_sups (Suc fuel) sc atab cs s sups =
     (case sups of
        None \<Rightarrow> Some (0, s)
      | Some names \<Rightarrow>
          let (soc, opn) = s; add_sups = (soc_sups soc = None) in
          each_ok (sup_step sc atab cs (oc_add_sups fuel sc atab cs) add_sups) names
            (if add_sups then soc\<lparr>soc_sups := Some []\<rparr> else soc, opn))"

subsection \<open>The table of classes\<close>

text \<open>Entering records one after the other, up to the first one whose name is taken: the tree and how many were entered. A new
  name must be found afterwards. Removing records, each of which must be there.\<close>

fun enter_recs :: "('a \<Rightarrow> 'a \<Rightarrow> int) \<Rightarrow> 'a list \<Rightarrow> 'a avlnode \<Rightarrow> ('a avlnode \<times> nat) option" where
  "enter_recs fcmp [] t = Some (t, 0)"
| "enter_recs fcmp (x # xs) t = do {
     (t, rc) \<leftarrow> avl_insert t x fcmp avl_dup_error;
     if rc \<noteq> 0 then Some (t, 0)
     else do {
       ensure (avl_find t (fcmp x) \<noteq> None);
       (t, k) \<leftarrow> enter_recs fcmp xs t;
       Some (t, Suc k) } }"

fun remove_recs :: "('a \<Rightarrow> 'a \<Rightarrow> int) \<Rightarrow> 'a list \<Rightarrow> 'a avlnode \<Rightarrow> 'a avlnode option" where
  "remove_recs fcmp [] t = Some t"
| "remove_recs fcmp (x # xs) t = do {
     (t, r) \<leftarrow> avl_delete t (fcmp x);
     ensure (r \<noteq> None);
     remove_recs fcmp xs t }"

definition oir :: "nat \<Rightarrow> string \<Rightarrow> oindexrec" where
  "oir c n = \<lparr>oir_name = n, oir_oc = c\<rparr>"

definition list_of :: "'a list option \<Rightarrow> 'a list" where
  "list_of l = (case l of None \<Rightarrow> [] | Some l \<Rightarrow> l)"

definition oc_delete_names :: "class_schema \<Rightarrow> nat \<Rightarrow> class_schema option" where
  "oc_delete_names cs c =
     map_option (\<lambda>t. cs\<lparr>oc_index := t\<rparr>) (remove_recs oc_index_cmp (map (oir c) (list_of (soc_names (oc_store cs c)))) (oc_index cs))"

definition oc_delete :: "class_schema \<Rightarrow> nat \<Rightarrow> class_schema option" where
  "oc_delete cs c =
     oc_delete_names (cs\<lparr>oc_store := (oc_store cs)(c := (oc_store cs c)\<lparr>soc_flags := soc_flags (oc_store cs c) OR SLAP_OC_DELETED\<rparr>),
       oc_list := remove1 c (oc_list cs)\<rparr>) c"

definition oc_check_dup :: "object_class \<Rightarrow> object_class \<Rightarrow> int" where
  "oc_check_dup soc new_soc =
     (if (case soc_oid new_soc of
            Some oid \<Rightarrow> soc_oid soc \<noteq> Some oid
          | None \<Rightarrow> soc_oid soc \<noteq> None)
      then SLAP_SCHERR_CLASS_INCONSISTENT
      else if (case soc_names new_soc of
                 Some ns \<Rightarrow> (case soc_names soc of None \<Rightarrow> True | Some ms \<Rightarrow> names_differ ms ns)
               | None \<Rightarrow> soc_names soc \<noteq> None)
      then SLAP_SCHERR_CLASS_INCONSISTENT
      else SLAP_SCHERR_CLASS_DUP)"

text \<open>Entering the OID: the code, the tables and the class that stands for the new one. A deleted class with the same OID
  takes over the contents of the new one and keeps its place; the record of the new one is freed.\<close>

definition insert_class_oid :: "class_schema \<Rightarrow> nat \<Rightarrow> (int \<times> class_schema \<times> nat) option" where
  "insert_class_oid cs c =
     (case soc_oid (oc_store cs c) of
        None \<Rightarrow> Some (0, cs, c)
      | Some oid \<Rightarrow> do {
          (t, dup) \<leftarrow> avl_insert (oc_index cs) (oir c oid) oc_index_cmp avl_dup_error;
          if dup \<noteq> 0
          then do {
            old \<leftarrow> avl_find (oc_index cs) (oc_index_cmp (oir c oid));
            let b = oir_oc old;
            if has (soc_flags (oc_store cs b)) SLAP_OC_DELETED
            then do {
              ensure (oc_bvfind cs (oir_name old) \<noteq> None);
              Some (0, cs\<lparr>oc_store := (oc_store cs)(b := (oc_store cs c)\<lparr>soc_oid := soc_oid (oc_store cs b)\<rparr>)\<rparr>, b) }
            else Some (oc_check_dup (oc_store cs b) (oc_store cs c), cs, c) }
          else do {
            ensure (avl_find t (oc_index_name_cmp oid) \<noteq> None);
            Some (0, cs\<lparr>oc_index := t\<rparr>, c) } })"

definition oc_insert :: "class_schema \<Rightarrow> nat \<Rightarrow> nat option \<Rightarrow> (int \<times> class_schema \<times> nat) option" where
  "oc_insert cs c prev = do {
     (rc, cs, c) \<leftarrow> insert_class_oid cs c;
     if rc \<noteq> 0 then Some (rc, cs, c)
     else do {
       let names = list_of (soc_names (oc_store cs c));
       (t, k) \<leftarrow> enter_recs oc_index_cmp (map (oir c) names) (oc_index cs);
       if k < length names
       then do {
         old \<leftarrow> avl_find t (oc_index_name_cmp (names ! k));
         t \<leftarrow> remove_recs oc_index_cmp (map (oir c) (rev (take k names) @ (case soc_oid (oc_store cs c) of None \<Rightarrow> [] | Some oid \<Rightarrow> [oid]))) t;
         Some (oc_check_dup (oc_store cs (oir_oc old)) (oc_store cs c), cs\<lparr>oc_index := t\<rparr>, c) }
       else do {
         let hard = has (soc_flags (oc_store cs c)) SLAP_OC_HARDCODE;
         let prev = (if hard then oc_sys_tail cs else prev);
         Some (0, cs\<lparr>oc_index := t, oc_sys_tail := if hard then Some c else oc_sys_tail cs,
           oc_list := (case prev of None \<Rightarrow> oc_list cs @ [c] | Some p \<Rightarrow> list_after p c (oc_list cs))\<rparr>, c) } } }"

text \<open>The new record, filled with zeros but for the definition, the macro and the name.\<close>

definition raw_class :: "ldap_objectclass \<Rightarrow> string \<times> string option \<Rightarrow> object_class" where
  "raw_class oc oid = \<lparr>soc_oid = Some (fst oid), soc_names = oc_names oc, soc_obsolete = oc_obsolete oc, soc_sup_oids = oc_sup_oids oc,
     soc_kind = oc_kind oc, soc_at_oids_must = oc_at_oids_must oc, soc_at_oids_may = oc_at_oids_may oc,
     soc_cname = (case oc_names oc of None \<Rightarrow> fst oid | Some ns \<Rightarrow> hd ns), soc_sups = None, soc_required = [], soc_allowed = [],
     soc_check = None, soc_oidmacro = snd oid, soc_flags = 0\<rparr>"

text \<open>The class before it is entered in the table: the code and the record.\<close>

definition oc_build :: "schema \<Rightarrow> attr_tables \<Rightarrow> class_schema \<Rightarrow> ldap_objectclass \<Rightarrow> string \<times> string option \<Rightarrow> bool \<Rightarrow> (int \<times> object_class) option" where
  "oc_build sc atab cs oc oid user = do {
     ensure (oc_names oc \<noteq> Some []);
     let soc = raw_class oc oid;
     (code, soc, opn) \<leftarrow> oc_add_sups (Suc (Suc (oc_count cs))) sc atab cs (soc, 0)
       (if soc_sup_oids soc = None \<and> soc_kind soc = LDAP_SCHEMA_STRUCTURAL then Some [SLAPD_TOP_OID] else soc_sup_oids soc);
     if code \<noteq> 0 then Some (code, soc)
     else if user \<and> opn \<noteq> 0 then Some (SLAP_SCHERR_CLASS_BAD_SUP, soc)
     else do {
       (code, soc, opn) \<leftarrow> oc_create_required sc atab (soc_at_oids_must soc) (soc, opn);
       if code \<noteq> 0 then Some (code, soc)
       else do {
         (code, soc, opn) \<leftarrow> oc_create_allowed sc atab (soc_at_oids_may soc) (soc, opn);
         if code \<noteq> 0 then Some (code, soc)
         else if user \<and> opn \<noteq> 0 then Some (SLAP_SCHERR_CLASS_BAD_USAGE, soc)
         else Some (0, if user then soc else soc\<lparr>soc_flags := soc_flags soc OR SLAP_OC_HARDCODE\<rparr>) } } }"

text \<open>The code, the tables and \<^verbatim>\<open>*rsoc\<close>. The new class has the next free number; after an error its record is freed.\<close>

definition oc_add :: "schema \<Rightarrow> attr_tables \<Rightarrow> class_schema \<Rightarrow> ldap_objectclass \<Rightarrow> bool \<Rightarrow> nat option \<Rightarrow> (int \<times> class_schema \<times> nat option) option" where
  "oc_add sc atab cs oc user prev =
     (if \<not> list_all slap_valid_descr (list_of (oc_names oc)) then Some (SLAP_SCHERR_BAD_DESCR, cs, None)
      else case expand_oid cs (oc_oid oc) of
        None \<Rightarrow> Some (SLAP_SCHERR_OIDM, cs, None)
      | Some oid \<Rightarrow> do {
          (code, soc) \<leftarrow> oc_build sc atab cs oc oid user;
          if code \<noteq> 0 then Some (code, cs, None)
          else do {
            let c = oc_count cs;
            (code, cs', c') \<leftarrow> oc_insert (cs\<lparr>oc_store := (oc_store cs)(c := soc)\<rparr>) c prev;
            if code \<noteq> 0 then Some (code, cs'\<lparr>oc_store := (oc_store cs')(c := oc_store cs c)\<rparr>, None)
            else Some (0, if c' = c then cs'\<lparr>oc_count := Suc c\<rparr> else cs'\<lparr>oc_store := (oc_store cs')(c := oc_store cs c)\<rparr>, Some c') } })"

subsection \<open>Content rules\<close>

text \<open>Entering a rule; what was entered before a name that is taken stays there.\<close>

definition cr_insert :: "class_schema \<Rightarrow> content_rule \<Rightarrow> (int \<times> class_schema) option" where
  "cr_insert cs scr = do {
     let names = scr_oid scr # list_of (scr_names scr);
     (t, k) \<leftarrow> enter_recs cr_index_cmp (map (\<lambda>n. \<lparr>cir_name = n, cir_cr = scr\<rparr>) names) (cr_index cs);
     if k < length names then Some (SLAP_SCHERR_CR_DUP, cs\<lparr>cr_index := t\<rparr>)
     else Some (0, cs\<lparr>cr_index := t, cr_list := cr_list cs @ [scr]\<rparr>) }"

definition aux_step :: "class_schema \<Rightarrow> string \<Rightarrow> content_rule \<times> nat \<Rightarrow> (int \<times> content_rule \<times> nat) option" where
  "aux_step cs n = (\<lambda>(scr, opn).
     Some (case oc_find cs n of
       None \<Rightarrow> (SLAP_SCHERR_CLASS_NOT_FOUND, scr, opn)
     | Some c \<Rightarrow>
         let scr = scr\<lparr>scr_auxiliaries := scr_auxiliaries scr @ [c]\<rparr>;
             opn = (if has (soc_flags (oc_store cs c)) SLAP_OC_OPERATIONAL \<and> c \<noteq> si_oc_extensibleObject cs then opn + 1 else opn) in
         if soc_kind (oc_store cs c) \<noteq> LDAP_SCHEMA_AUXILIARY then (SLAP_SCHERR_CR_BAD_AUX, scr, opn) else (0, scr, opn)))"

definition cr_add_auxiliaries :: "class_schema \<Rightarrow> string list option \<Rightarrow> content_rule \<times> nat \<Rightarrow> (int \<times> content_rule \<times> nat) option" where
  "cr_add_auxiliaries cs aux s = each_ok (aux_step cs) (list_of aux) s"

text \<open>The three loops over attribute types, which differ in the list they write and in the lists the type must not be in.\<close>

definition rule_step :: "schema \<Rightarrow> attr_tables \<Rightarrow> (content_rule \<Rightarrow> nat list) \<Rightarrow> (nat \<Rightarrow> content_rule \<Rightarrow> content_rule) \<Rightarrow> string
    \<Rightarrow> content_rule \<times> nat \<Rightarrow> (int \<times> content_rule \<times> nat) option" where
  "rule_step sc atab taken put n = (\<lambda>(scr, opn). do {
     sat \<leftarrow> find_at atab n;
     Some (case sat of
       None \<Rightarrow> (SLAP_SCHERR_ATTR_NOT_FOUND, scr, opn)
     | Some a \<Rightarrow> if a \<in> set (taken scr) then (SLAP_SCHERR_CR_BAD_AT, scr, opn + operational sc a) else (0, put a scr, opn + operational sc a)) })"

definition cr_create_required :: "schema \<Rightarrow> attr_tables \<Rightarrow> string list option \<Rightarrow> content_rule \<times> nat \<Rightarrow> (int \<times> content_rule \<times> nat) option" where
  "cr_create_required sc atab attrs = each_ok (rule_step sc atab scr_required (\<lambda>a scr. scr\<lparr>scr_required := scr_required scr @ [a]\<rparr>)) (list_of attrs)"

definition cr_create_allowed :: "schema \<Rightarrow> attr_tables \<Rightarrow> string list option \<Rightarrow> content_rule \<times> nat \<Rightarrow> (int \<times> content_rule \<times> nat) option" where
  "cr_create_allowed sc atab attrs =
     each_ok (rule_step sc atab (\<lambda>scr. scr_required scr @ scr_allowed scr) (\<lambda>a scr. scr\<lparr>scr_allowed := scr_allowed scr @ [a]\<rparr>)) (list_of attrs)"

definition cr_create_precluded :: "schema \<Rightarrow> attr_tables \<Rightarrow> string list option \<Rightarrow> content_rule \<times> nat \<Rightarrow> (int \<times> content_rule \<times> nat) option" where
  "cr_create_precluded sc atab attrs =
     each_ok (rule_step sc atab (\<lambda>scr. scr_required scr @ scr_allowed scr @ scr_precluded scr)
       (\<lambda>a scr. scr\<lparr>scr_precluded := scr_precluded scr @ [a]\<rparr>)) (list_of attrs)"

text \<open>The parts of a rule, one after the other.\<close>

fun in_turn :: "('s \<Rightarrow> (int \<times> 's) option) list \<Rightarrow> 's \<Rightarrow> (int \<times> 's) option" where
  "in_turn [] s = Some (0, s)"
| "in_turn (f # fs) s = do { (rc, s) \<leftarrow> f s; if rc \<noteq> 0 then Some (rc, s) else in_turn fs s }"

definition cr_add :: "schema \<Rightarrow> attr_tables \<Rightarrow> class_schema \<Rightarrow> ldap_contentrule \<Rightarrow> bool \<Rightarrow> (int \<times> class_schema) option" where
  "cr_add sc atab cs cr user =
     (if \<not> list_all slap_valid_descr (list_of (cr_names cr)) then Some (SLAP_SCHERR_BAD_DESCR, cs)
      else case expand_oid cs (cr_oid cr) of
        None \<Rightarrow> Some (SLAP_SCHERR_OIDM, cs)
      | Some (oid, oidm) \<Rightarrow>
          (case oc_find cs oid of
             None \<Rightarrow> Some (SLAP_SCHERR_CLASS_NOT_FOUND, cs)
           | Some c \<Rightarrow>
               if soc_kind (oc_store cs c) \<noteq> LDAP_SCHEMA_STRUCTURAL then Some (SLAP_SCHERR_CR_BAD_STRUCT, cs)
               else do {
                 let scr = \<lparr>scr_oid = oid, scr_names = cr_names cr, scr_obsolete = cr_obsolete cr, scr_sclass = c, scr_auxiliaries = [],
                   scr_required = [], scr_allowed = [], scr_precluded = [], scr_oidmacro = oidm\<rparr>;
                 let opn = (if has (soc_flags (oc_store cs c)) SLAP_OC_OPERATIONAL then 1 else 0);
                 (code, scr, opn) \<leftarrow> in_turn [cr_add_auxiliaries cs (cr_oc_oids_aux cr), cr_create_required sc atab (cr_at_oids_must cr),
                   cr_create_allowed sc atab (cr_at_oids_may cr), cr_create_precluded sc atab (cr_at_oids_not cr)] (scr, opn);
                 if code \<noteq> 0 then Some (code, cs)
                 else if user \<and> opn \<noteq> 0 then Some (SLAP_SCHERR_CR_BAD_AUX, cs)
                 else cr_insert cs scr }))"

end
