(* ===== verification/Class_Table.thy ===== *)
theory Class_Table
  imports Object_Class
begin

text \<open>
  The tables of object classes: what the AVL index does for names, what a new class inherits, that \<^verbatim>\<open>oc_add\<close> keeps the hierarchy
  acyclic, and the decision of subclasses.
\<close>

section \<open>Names in the tables\<close>

definition tree_ok :: "('a \<Rightarrow> 'k::linorder) \<Rightarrow> nat \<Rightarrow> 'a avlnode \<Rightarrow> bool" where
  "tree_ok key n t \<longleftrightarrow> balanced t \<and> ordered key t \<and> length (inorder t) + n < 44945570212852"

context keyed_cmp
begin

lemma find_tree: "tree_ok key n t \<Longrightarrow> avl_find t (fcmp x) = dict key t (key x)"
  using avl_find_dict [OF fcmp_key] by (simp add: tree_ok_def)

lemma insert_fresh:
  assumes "tree_ok key (Suc n) t" "dict key t (key x) = None"
  shows "\<exists>t'. avl_insert t x fcmp fdup = Some (t', 0) \<and> tree_ok key n t' \<and> dict key t' = (dict key t)(key x \<mapsto> x)"
proof -
  obtain t' where t: "avl_insert t x fcmp fdup = Some (t', 0)" "balanced t'" "ordered key t'" "dict key t' = (dict key t)(key x \<mapsto> x)"
    using insert_absent [of t x] assms by (auto simp: tree_ok_def)
  have "length (inorder t') = Suc (length (inorder t))"
    using dict_card [OF t(3)] dict_card [of key t] assms unfolding t(4) by (simp add: tree_ok_def card_insert_disjoint domIff)
  with t assms show ?thesis by (auto simp: tree_ok_def)
qed

lemma insert_taken:
  assumes "tree_ok key n t" "dict key t (key x) = Some y"
  shows "\<exists>t'. avl_insert t x fcmp avl_dup_error = Some (t', - 1) \<and> tree_ok key n t' \<and> dict key t' = dict key t"
proof -
  obtain t' where t: "avl_insert t x fcmp avl_dup_error = Some (t', - 1)" "balanced t'" "ordered key t'" "dict key t' = (dict key t)(key x \<mapsto> y)"
    using insert_present [of t x y avl_dup_error] assms by (auto simp: tree_ok_def avl_dup_error_def)
  have d: "dict key t' = dict key t" using t(4) assms(2) by (simp add: fun_upd_idem)
  have "length (inorder t') = length (inorder t)"
    using dict_card [OF t(3)] dict_card [of key t] assms d by (simp add: tree_ok_def)
  with t d assms show ?thesis by (auto simp: tree_ok_def)
qed

lemma delete_tree:
  assumes "tree_ok key n t"
  shows "\<exists>t'. avl_delete t (fcmp x) = Some (t', dict key t (key x)) \<and> tree_ok key n t' \<and> dict key t' = (dict key t)(key x := None)"
proof -
  obtain t' where t: "avl_delete t (fcmp x) = Some (t', dict key t (key x))" "balanced t'" "ordered key t'" "dict key t' = (dict key t)(key x := None)"
    using delete_dict [of t x] assms depth_bound [of t] by (auto simp: tree_ok_def)
  have "dom (dict key t') \<subseteq> dom (dict key t)" by (auto simp: t(4) split: if_splits)
  then have "length (inorder t') \<le> length (inorder t)"
    using card_mono dict_card [OF t(3)] dict_card [of key t] assms by (metis tree_ok_def)
  with t assms show ?thesis by (auto simp: tree_ok_def)
qed

text \<open>Entering stops at the first name that is taken; the names before it lead to their records.\<close>

lemma enter_recs_ok:
  assumes "tree_ok key (length xs) t"
  shows "\<exists>t' k. enter_recs fcmp xs t = Some (t', k) \<and> k \<le> length xs \<and> tree_ok key 0 t' \<and>
    distinct (map key (take k xs)) \<and> (\<forall>x\<in>set (take k xs). dict key t (key x) = None \<and> dict key t' (key x) = Some x) \<and>
    (\<forall>q. q \<notin> key ` set (take k xs) \<longrightarrow> dict key t' q = dict key t q) \<and>
    (k < length xs \<longrightarrow> dict key t' (key (xs ! k)) \<noteq> None)"
  using assms
proof (induction xs arbitrary: t)
  case Nil
  then show ?case by (intro exI [of _ t] exI [of _ 0]) simp
next
  case (Cons x xs)
  show ?case
  proof (cases "dict key t (key x)")
    case (Some y)
    then obtain t' where t': "avl_insert t x fcmp avl_dup_error = Some (t', - 1)" "tree_ok key (length (x # xs)) t'" "dict key t' = dict key t"
      using insert_taken [OF Cons.prems] by blast
    then have "tree_ok key 0 t'" by (simp add: tree_ok_def)
    with t' Some show ?thesis by (intro exI [of _ t'] exI [of _ 0]) simp
  next
    case None
    obtain t1 where t1: "avl_insert t x fcmp avl_dup_error = Some (t1, 0)" "tree_ok key (length xs) t1" "dict key t1 = (dict key t)(key x \<mapsto> x)"
      using insert_fresh [of "length xs" t x avl_dup_error] Cons.prems None by auto
    from Cons.IH [OF t1(2)] obtain t' k where r: "enter_recs fcmp xs t1 = Some (t', k)" "k \<le> length xs" "tree_ok key 0 t'"
      "distinct (map key (take k xs))" "\<forall>x\<in>set (take k xs). dict key t1 (key x) = None \<and> dict key t' (key x) = Some x"
      "\<forall>q. q \<notin> key ` set (take k xs) \<longrightarrow> dict key t' q = dict key t1 q" "k < length xs \<longrightarrow> dict key t' (key (xs ! k)) \<noteq> None"
      by blast
    have e: "enter_recs fcmp (x # xs) t = Some (t', Suc k)"
      using t1 r(1) find_tree [OF t1(2), of x] by (simp add: ensure_True)
    have nx: "key x \<notin> key ` set (take k xs)" using r(5) t1(3) by auto
    have "\<forall>y\<in>set (take (Suc k) (x # xs)). dict key t (key y) = None \<and> dict key t' (key y) = Some y"
      using r(5,6) t1(3) nx None by (auto split: if_splits)
    moreover have "\<forall>q. q \<notin> key ` set (take (Suc k) (x # xs)) \<longrightarrow> dict key t' q = dict key t q"
      using r(6) t1(3) by simp
    moreover have "distinct (map key (take (Suc k) (x # xs)))" using r(4) nx by simp
    ultimately show ?thesis using e r(2,3,7) by (intro exI [of _ t'] exI [of _ "Suc k"]) simp
  qed
qed

lemma remove_recs_ok:
  assumes "tree_ok key n t" "distinct (map key xs)" "\<forall>x\<in>set xs. dict key t (key x) \<noteq> None"
  shows "\<exists>t'. remove_recs fcmp xs t = Some t' \<and> tree_ok key n t' \<and> dict key t' = (\<lambda>q. if q \<in> key ` set xs then None else dict key t q)"
  using assms
proof (induction xs arbitrary: t)
  case (Cons x xs)
  obtain t1 where t1: "avl_delete t (fcmp x) = Some (t1, dict key t (key x))" "tree_ok key n t1" "dict key t1 = (dict key t)(key x := None)"
    using delete_tree [OF Cons.prems(1)] by blast
  have "\<forall>y\<in>set xs. dict key t1 (key y) \<noteq> None" using Cons.prems(2,3) by (force simp: t1(3) image_iff)
  from Cons.IH [OF t1(2) _ this] Cons.prems(2) obtain t' where
    "remove_recs fcmp xs t1 = Some t'" "tree_ok key n t'" "dict key t' = (\<lambda>q. if q \<in> key ` set xs then None else dict key t1 q)" by auto
  moreover obtain y where "dict key t (key x) = Some y" using Cons.prems(3) by auto
  ultimately show ?case using t1 by (intro exI [of _ t']) (auto simp: ensure_True fun_eq_iff)
qed simp

end

abbreviation oir_key :: "oindexrec \<Rightarrow> int list" where
  "oir_key r \<equiv> attr_key (oir_name r)"

abbreviation cir_key :: "cindexrec \<Rightarrow> int list" where
  "cir_key r \<equiv> attr_key (cir_name r)"

lemma class_name_cmp: "compares (oc_index_name_cmp n) oir_key (attr_key n)"
  by (auto simp: compares_def oc_index_name_cmp_def Let_def strcasecmp_def attr_key_order cmp_def)

lemma rule_name_cmp: "compares (cr_index_name_cmp n) cir_key (attr_key n)"
  by (auto simp: compares_def cr_index_name_cmp_def Let_def strcasecmp_def attr_key_order cmp_def)

lemma index_cmps: "oc_index_cmp r = oc_index_name_cmp (oir_name r)" "cr_index_cmp q = cr_index_name_cmp (cir_name q)"
  by (simp_all add: fun_eq_iff oc_index_cmp_def oc_index_name_cmp_def cr_index_cmp_def cr_index_name_cmp_def)

interpretation class_tab: keyed_cmp oc_index_cmp oir_key
  by standard (simp add: index_cmps class_name_cmp)

interpretation rule_tab: keyed_cmp cr_index_cmp cir_key
  by standard (simp add: index_cmps rule_name_cmp)

section \<open>What a class inherits\<close>

definition at_of :: "attr_tables \<Rightarrow> string \<Rightarrow> nat option" where
  "at_of atab n = map_option air_at (names_in atab (attr_key n))"

lemma find_at_ok: "table_ok m atab \<Longrightarrow> find_at atab n = Some (at_of atab n)"
  by (simp add: find_at_def at_find_def bvfind_ok at_of_def)

definition types_in :: "attr_tables \<Rightarrow> string list \<Rightarrow> nat set" where
  "types_in atab ns = {a. \<exists>n\<in>set ns. at_of atab n = Some a}"

definition lists_ok :: "object_class \<Rightarrow> bool" where
  "lists_ok soc \<longleftrightarrow> distinct (soc_required soc) \<and> distinct (soc_allowed soc) \<and> set (soc_required soc) \<inter> set (soc_allowed soc) = {}"

text \<open>The class has gained required types \<open>M\<close> and allowed types \<open>A\<close>, and nothing else has changed.\<close>

definition gains :: "nat set \<Rightarrow> nat set \<Rightarrow> object_class \<Rightarrow> object_class \<Rightarrow> bool" where
  "gains M A soc soc' \<longleftrightarrow> (\<exists>R L. soc' = soc\<lparr>soc_required := R, soc_allowed := L\<rparr> \<and> set R = set (soc_required soc) \<union> M \<and>
     set L = (set (soc_allowed soc) \<union> A) - set R) \<and> lists_ok soc'"

lemma gains_refl: "lists_ok soc \<Longrightarrow> A \<subseteq> set (soc_required soc) \<union> set (soc_allowed soc) \<Longrightarrow> gains {} A soc soc"
  unfolding gains_def by (intro conjI exI [of _ "soc_required soc"] exI [of _ "soc_allowed soc"]) (auto simp: lists_ok_def)

lemma gains_allowed:
  "lists_ok soc \<Longrightarrow> a \<notin> set (soc_required soc) \<Longrightarrow> a \<notin> set (soc_allowed soc) \<Longrightarrow> gains {} {a} soc (soc\<lparr>soc_allowed := soc_allowed soc @ [a]\<rparr>)"
  unfolding gains_def
  by (intro conjI exI [of _ "soc_required soc"] exI [of _ "soc_allowed soc @ [a]"]) (auto simp: lists_ok_def)

lemma gains_trans: "gains M A s1 s2 \<Longrightarrow> gains M' A' s2 s3 \<Longrightarrow> gains (M \<union> M') (A \<union> A') s1 s3"
  by (fastforce simp: gains_def)

lemma gains_lists: "gains M A soc soc' \<Longrightarrow> lists_ok soc'"
  by (simp add: gains_def)

lemma gains_fields: "gains M A soc soc' \<Longrightarrow> soc_sups soc' = soc_sups soc \<and> soc_sup_oids soc' = soc_sup_oids soc \<and>
  soc_at_oids_must soc' = soc_at_oids_must soc \<and> soc_at_oids_may soc' = soc_at_oids_may soc \<and> soc_flags soc' = soc_flags soc \<and>
  soc_names soc' = soc_names soc \<and> soc_oid soc' = soc_oid soc \<and> soc_kind soc' = soc_kind soc"
  by (auto simp: gains_def)

text \<open>A loop whose steps gain types gains them all.\<close>

lemma each_ok_gains:
  assumes "\<And>x soc opn. x \<in> set xs \<Longrightarrow> lists_ok soc \<Longrightarrow> Q soc \<Longrightarrow> \<exists>rc soc' opn'. f x (soc, opn) = Some (rc, soc', opn') \<and> (rc = 0 \<longrightarrow> gains (M x) (A x) soc soc' \<and> Q soc')"
    "lists_ok soc" "Q soc"
  shows "\<exists>rc soc' opn'. each_ok f xs (soc, opn) = Some (rc, soc', opn') \<and> (rc = 0 \<longrightarrow> gains (\<Union>x\<in>set xs. M x) (\<Union>x\<in>set xs. A x) soc soc' \<and> Q soc')"
  using assms
proof (induction xs arbitrary: soc opn)
  case Nil
  then show ?case by (simp add: gains_refl)
next
  case (Cons x xs)
  obtain rc soc1 opn1 where s: "f x (soc, opn) = Some (rc, soc1, opn1)" "rc = 0 \<longrightarrow> gains (M x) (A x) soc soc1 \<and> Q soc1"
    using Cons.prems(1) [of x soc opn] Cons.prems(2,3) by auto
  show ?case
  proof (cases "rc = 0")
    case True
    with s obtain rc' soc2 opn2 where "each_ok f xs (soc1, opn1) = Some (rc', soc2, opn2)"
      "rc' = 0 \<longrightarrow> gains (\<Union>x\<in>set xs. M x) (\<Union>x\<in>set xs. A x) soc1 soc2 \<and> Q soc2"
      using Cons.IH [of soc1 opn1] Cons.prems(1) gains_lists by (metis list.set_intros(2))
    with s True show ?thesis using gains_trans by fastforce
  qed (use s in simp)
qed

text \<open>The first loop of \<^verbatim>\<open>oc_create_required\<close>, before types are taken out of the other list.\<close>

lemma required_loop:
  assumes "table_ok m atab" "distinct (soc_required soc)"
  shows "\<exists>rc soc' opn'. each_ok (required_step sc atab) ns (soc, opn) = Some (rc, soc', opn') \<and>
    (rc = 0 \<longrightarrow> (\<exists>R. soc' = soc\<lparr>soc_required := R\<rparr> \<and> distinct R \<and> set R = set (soc_required soc) \<union> types_in atab ns \<and> (ns \<noteq> [] \<longrightarrow> R \<noteq> [])))"
  using assms(2)
proof (induction ns arbitrary: soc opn)
  case Nil
  then show ?case by (auto simp: types_in_def intro!: exI [of _ "soc_required soc"])
next
  case (Cons n ns)
  show ?case
  proof (cases "at_of atab n")
    case None
    then show ?thesis by (simp add: required_step_def find_at_ok [OF assms(1)] SLAP_SCHERR_ATTR_NOT_FOUND_def)
  next
    case (Some a)
    let ?soc = "if a \<in> set (soc_required soc) then soc else soc\<lparr>soc_required := soc_required soc @ [a]\<rparr>"
    have "distinct (soc_required ?soc)" using Cons.prems by simp
    from Cons.IH [OF this, of "opn + operational sc a"] obtain rc soc' opn' where
      r: "each_ok (required_step sc atab) ns (?soc, opn + operational sc a) = Some (rc, soc', opn')"
      "rc = 0 \<longrightarrow> (\<exists>R. soc' = ?soc\<lparr>soc_required := R\<rparr> \<and> distinct R \<and> set R = set (soc_required ?soc) \<union> types_in atab ns)" by blast
    have t: "types_in atab (n # ns) = insert a (types_in atab ns)" using Some by (auto simp: types_in_def)
    have "each_ok (required_step sc atab) (n # ns) (soc, opn) = Some (rc, soc', opn')"
      using r(1) by (simp add: required_step_def find_at_ok [OF assms(1)] Some)
    moreover have "\<exists>R. soc' = soc\<lparr>soc_required := R\<rparr> \<and> distinct R \<and> set R = set (soc_required soc) \<union> types_in atab (n # ns) \<and> R \<noteq> []" if rc: "rc = 0"
    proof -
      obtain R where "soc' = ?soc\<lparr>soc_required := R\<rparr>" "distinct R" "set R = set (soc_required ?soc) \<union> types_in atab ns" using r(2) rc by blast
      then show ?thesis by (intro exI [of _ R]) (auto simp: t split: if_splits)
    qed
    ultimately show ?thesis by blast
  qed
qed

lemma fold_remove1: "distinct l \<Longrightarrow> distinct (fold remove1 r l) \<and> set (fold remove1 r l) = set l - set r"
  by (induction r arbitrary: l) auto

lemma create_required_gains:
  assumes "table_ok m atab" "lists_ok soc" "attrs \<noteq> Some []"
  shows "\<exists>rc soc' opn'. oc_create_required sc atab attrs (soc, opn) = Some (rc, soc', opn') \<and>
    (rc = 0 \<longrightarrow> gains (types_in atab (list_of attrs)) {} soc soc')"
proof (cases attrs)
  case None
  then show ?thesis using gains_refl [OF assms(2), of "{}"] by (simp add: oc_create_required_def list_of_def types_in_def)
next
  case (Some ns)
  obtain rc soc' opn' where r: "each_ok (required_step sc atab) ns (soc, opn) = Some (rc, soc', opn')"
    "rc = 0 \<longrightarrow> (\<exists>R. soc' = soc\<lparr>soc_required := R\<rparr> \<and> distinct R \<and> set R = set (soc_required soc) \<union> types_in atab ns \<and> R \<noteq> [])"
    using required_loop [OF assms(1), of soc sc ns opn] assms(2,3) Some by (auto simp: lists_ok_def)
  show ?thesis
  proof (cases "rc = 0")
    case True
    with r(2) obtain R where R: "soc' = soc\<lparr>soc_required := R\<rparr>" "distinct R" "set R = set (soc_required soc) \<union> types_in atab ns" "R \<noteq> []" by blast
    let ?L = "fold remove1 R (soc_allowed soc)"
    have f: "distinct ?L" "set ?L = set (soc_allowed soc) - set R"
      using fold_remove1 [of "soc_allowed soc" R] assms(2) by (auto simp: lists_ok_def)
    have "oc_create_required sc atab attrs (soc, opn) = Some (0, soc\<lparr>soc_required := R, soc_allowed := ?L\<rparr>, opn')"
      using Some r(1) True R(1,4) by (simp add: oc_create_required_def ensure_True)
    moreover have "gains (types_in atab ns) {} soc (soc\<lparr>soc_required := R, soc_allowed := ?L\<rparr>)"
      using R(2,3) f by (auto simp: gains_def lists_ok_def)
    ultimately show ?thesis using Some by (simp add: list_of_def)
  qed (use Some r in \<open>simp add: oc_create_required_def\<close>)
qed

lemma create_allowed_gains:
  assumes "table_ok m atab" "lists_ok soc"
  shows "\<exists>rc soc' opn'. oc_create_allowed sc atab attrs (soc, opn) = Some (rc, soc', opn') \<and>
    (rc = 0 \<longrightarrow> gains {} (types_in atab (list_of attrs)) soc soc')"
proof (cases attrs)
  case None
  then show ?thesis using gains_refl [OF assms(2), of "{}"] by (simp add: oc_create_allowed_def list_of_def types_in_def)
next
  case (Some ns)
  have "\<exists>rc soc' opn'. allowed_step sc atab n (soc, opn) = Some (rc, soc', opn') \<and> (rc = 0 \<longrightarrow> gains {} {a. at_of atab n = Some a} soc soc')"
    if "lists_ok soc" for n soc opn
    using gains_refl [OF that] gains_allowed [OF that]
    by (cases "at_of atab n") (auto simp: allowed_step_def find_at_ok [OF assms(1)] SLAP_SCHERR_ATTR_NOT_FOUND_def)
  from each_ok_gains [of ns "\<lambda>_. True" "allowed_step sc atab" "\<lambda>_. {}" "\<lambda>n. {a. at_of atab n = Some a}" soc opn] this assms(2)
  have "\<exists>rc soc' opn'. each_ok (allowed_step sc atab) ns (soc, opn) = Some (rc, soc', opn') \<and>
      (rc = 0 \<longrightarrow> gains {} (\<Union>n\<in>set ns. {a. at_of atab n = Some a}) soc soc')" by simp
  moreover have "(\<Union>n\<in>set ns. {a. at_of atab n = Some a}) = types_in atab ns" by (auto simp: types_in_def)
  ultimately show ?thesis using Some by (simp add: oc_create_allowed_def list_of_def)
qed

text \<open>The superclasses by the names in the definitions, and all classes above a list of names.\<close>

definition oid_sups :: "class_schema \<Rightarrow> (nat \<times> nat) set" where
  "oid_sups cs = {(c, d). \<exists>n\<in>set (list_of (soc_sup_oids (oc_store cs c))). oc_find cs n = Some d}"

definition classes_above :: "class_schema \<Rightarrow> string list \<Rightarrow> nat set" where
  "classes_above cs ns = {d. \<exists>n\<in>set ns. \<exists>c. oc_find cs n = Some c \<and> (c, d) \<in> (oid_sups cs)\<^sup>*}"

definition musts :: "attr_tables \<Rightarrow> class_schema \<Rightarrow> nat set \<Rightarrow> nat set" where
  "musts atab cs D = (\<Union>d\<in>D. types_in atab (list_of (soc_at_oids_must (oc_store cs d))))"

definition mays :: "attr_tables \<Rightarrow> class_schema \<Rightarrow> nat set \<Rightarrow> nat set" where
  "mays atab cs D = (\<Union>d\<in>D. types_in atab (list_of (soc_at_oids_may (oc_store cs d))))"

lemma classes_above_class: "{d. (c, d) \<in> (oid_sups cs)\<^sup>*} = insert c (classes_above cs (list_of (soc_sup_oids (oc_store cs c))))"
proof -
  have "(c, d) \<in> (oid_sups cs)\<^sup>* \<longleftrightarrow> d = c \<or> (\<exists>y. (c, y) \<in> oid_sups cs \<and> (y, d) \<in> (oid_sups cs)\<^sup>*)" for d
    by (metis converse_rtranclE converse_rtrancl_into_rtrancl rtrancl.rtrancl_refl)
  moreover have "(c, y) \<in> oid_sups cs \<longleftrightarrow> (\<exists>n\<in>set (list_of (soc_sup_oids (oc_store cs c))). oc_find cs n = Some y)" for y
    by (simp add: oid_sups_def)
  ultimately show ?thesis by (auto simp: classes_above_def)
qed

text \<open>The definitions name only classes of a smaller rank, so the recursion ends.\<close>

definition oids_ranked :: "class_schema \<Rightarrow> bool" where
  "oids_ranked cs \<longleftrightarrow> (\<forall>n c. oc_find cs n = Some c \<longrightarrow> c < oc_count cs) \<and>
     (\<forall>c<oc_count cs. soc_at_oids_must (oc_store cs c) \<noteq> Some [] \<and> (\<forall>n d. n \<in> set (list_of (soc_sup_oids (oc_store cs c))) \<longrightarrow> oc_find cs n = Some d \<longrightarrow> d < c))"

lemma sup_step_gains:
  assumes "table_ok m atab" "oids_ranked cs" "lists_ok soc" "\<not> add"
    "\<And>c s opn. oc_find cs n = Some c \<Longrightarrow> lists_ok s \<Longrightarrow> soc_sups s \<noteq> None \<Longrightarrow> \<exists>rc s' opn'. deeper (s, opn) (soc_sup_oids (oc_store cs c)) = Some (rc, s', opn') \<and>
      (rc = 0 \<longrightarrow> gains (musts atab cs (classes_above cs (list_of (soc_sup_oids (oc_store cs c))))) (mays atab cs (classes_above cs (list_of (soc_sup_oids (oc_store cs c))))) s s')"
    "soc_sups soc \<noteq> None"
  shows "\<exists>rc soc' opn'. sup_step sc atab cs deeper add n (soc, opn) = Some (rc, soc', opn') \<and>
    (rc = 0 \<longrightarrow> gains (musts atab cs (classes_above cs [n])) (mays atab cs (classes_above cs [n])) soc soc' \<and> oc_find cs n \<noteq> None)"
proof (cases "oc_find cs n")
  case None
  then show ?thesis by (simp add: sup_step_def SLAP_SCHERR_CLASS_NOT_FOUND_def)
next
  case (Some c)
  let ?c = "oc_store cs c"
  let ?o = "if has (soc_flags soc) SLAP_OC_OPERATIONAL then opn + 1 else opn"
  let ?D = "classes_above cs (list_of (soc_sup_oids ?c))"
  have D: "classes_above cs [n] = insert c ?D" using classes_above_class [of c cs] by (auto simp: classes_above_def Some)
  show ?thesis
  proof (cases "soc_kind soc \<noteq> soc_kind ?c \<and> soc_kind ?c \<noteq> LDAP_SCHEMA_ABSTRACT \<or> soc_obsolete ?c \<and> \<not> soc_obsolete soc")
    case True
    then show ?thesis using Some by (auto simp: sup_step_def Let_def SLAP_SCHERR_CLASS_BAD_SUP_def)
  next
    case False
    obtain rc s1 o1 where d: "deeper (soc, ?o) (soc_sup_oids ?c) = Some (rc, s1, o1)" "rc = 0 \<longrightarrow> gains (musts atab cs ?D) (mays atab cs ?D) soc s1"
      using assms(5) [OF Some assms(3,6)] by blast
    have st: "sup_step sc atab cs deeper add n (soc, opn) = (if rc \<noteq> 0 then Some (rc, s1, o1)
       else Option.bind (oc_create_required sc atab (soc_at_oids_must ?c) (s1, o1)) (\<lambda>(code, s). if code \<noteq> 0 then Some (code, s)
         else oc_create_allowed sc atab (soc_at_oids_may ?c) s))"
      using False Some d(1) assms(4) by (auto simp: sup_step_def Let_def)
    show ?thesis
    proof (cases "rc = 0")
      case rc: True
      then have g1: "gains (musts atab cs ?D) (mays atab cs ?D) soc s1" using d(2) by simp
      have "soc_at_oids_must ?c \<noteq> Some []" using assms(2) Some by (auto simp: oids_ranked_def)
      from create_required_gains [OF assms(1) gains_lists [OF g1] this, of sc o1] obtain rc2 s2 o2 where
        r: "oc_create_required sc atab (soc_at_oids_must ?c) (s1, o1) = Some (rc2, s2, o2)"
        "rc2 = 0 \<longrightarrow> gains (types_in atab (list_of (soc_at_oids_must ?c))) {} s1 s2" by blast
      show ?thesis
      proof (cases "rc2 = 0")
        case rc2: True
        from r(2) rc2 have g2: "gains (types_in atab (list_of (soc_at_oids_must ?c))) {} s1 s2" by simp
        from create_allowed_gains [OF assms(1) gains_lists [OF g2], of sc "soc_at_oids_may ?c" o2] obtain rc3 s3 o3 where
          a: "oc_create_allowed sc atab (soc_at_oids_may ?c) (s2, o2) = Some (rc3, s3, o3)"
          "rc3 = 0 \<longrightarrow> gains {} (types_in atab (list_of (soc_at_oids_may ?c))) s2 s3" by blast
        have "gains (musts atab cs (classes_above cs [n])) (mays atab cs (classes_above cs [n])) soc s3" if "rc3 = 0"
          using gains_trans [OF gains_trans [OF g1 g2] a(2) [rule_format, OF that]] unfolding D musts_def mays_def by (simp add: Un_ac)
        then show ?thesis using st rc rc2 r(1) a(1) Some by simp
      qed (use st rc r(1) in simp)
    qed (use st in simp)
  qed
qed

lemma add_sups_gains:
  assumes "table_ok m atab" "oids_ranked cs" "lists_ok soc" "soc_sups soc \<noteq> None"
    "\<forall>n\<in>set (list_of sups). \<forall>c. oc_find cs n = Some c \<longrightarrow> Suc c < fuel" "0 < fuel"
  shows "\<exists>rc soc' opn'. oc_add_sups fuel sc atab cs (soc, opn) sups = Some (rc, soc', opn') \<and>
    (rc = 0 \<longrightarrow> gains (musts atab cs (classes_above cs (list_of sups))) (mays atab cs (classes_above cs (list_of sups))) soc soc')"
  using assms(3-6)
proof (induction fuel arbitrary: soc opn sups)
  case (Suc fuel)
  show ?case
  proof (cases sups)
    case None
    then show ?thesis using gains_refl [OF Suc.prems(1), of "{}"] by (simp add: list_of_def musts_def mays_def classes_above_def)
  next
    case (Some ns)
    have step: "\<exists>rc s' opn'. sup_step sc atab cs (oc_add_sups fuel sc atab cs) False n (s, opn) = Some (rc, s', opn') \<and>
        (rc = 0 \<longrightarrow> gains (musts atab cs (classes_above cs [n])) (mays atab cs (classes_above cs [n])) s s' \<and> soc_sups s' \<noteq> None)"
      if n: "n \<in> set ns" and s: "lists_ok s" "soc_sups s \<noteq> None" for n s opn
    proof -
      have "\<exists>rc s' opn'. oc_add_sups fuel sc atab cs (s, opn) (soc_sup_oids (oc_store cs c)) = Some (rc, s', opn') \<and>
        (rc = 0 \<longrightarrow> gains (musts atab cs (classes_above cs (list_of (soc_sup_oids (oc_store cs c))))) (mays atab cs (classes_above cs (list_of (soc_sup_oids (oc_store cs c))))) s s')"
        if "oc_find cs n = Some c" "lists_ok s" "soc_sups s \<noteq> None" for c s opn
      proof (rule Suc.IH [OF that(2,3)])
        have "Suc c < Suc fuel" using Suc.prems(3) n that(1) Some by (auto simp: list_of_def)
        then show "\<forall>m\<in>set (list_of (soc_sup_oids (oc_store cs c))). \<forall>d. oc_find cs m = Some d \<longrightarrow> Suc d < fuel" "0 < fuel"
          using assms(2) that(1) unfolding oids_ranked_def by fastforce+
      qed
      from sup_step_gains [OF assms(1,2) s(1) _ this s(2), of False n sc opn] obtain rc s' o' where
        r: "sup_step sc atab cs (oc_add_sups fuel sc atab cs) False n (s, opn) = Some (rc, s', o')"
        "rc = 0 \<longrightarrow> gains (musts atab cs (classes_above cs [n])) (mays atab cs (classes_above cs [n])) s s'" by auto
      then show ?thesis using gains_fields s(2) by fastforce
    qed
    have u: "(\<Union>n\<in>set ns. musts atab cs (classes_above cs [n])) = musts atab cs (classes_above cs ns)" "(\<Union>n\<in>set ns. mays atab cs (classes_above cs [n])) = mays atab cs (classes_above cs ns)"
      by (auto simp: musts_def mays_def classes_above_def)
    obtain rc soc' o' where "each_ok (sup_step sc atab cs (oc_add_sups fuel sc atab cs) False) ns (soc, opn) = Some (rc, soc', o')"
      "rc = 0 \<longrightarrow> gains (musts atab cs (classes_above cs ns)) (mays atab cs (classes_above cs ns)) soc soc'"
      using each_ok_gains [of ns "\<lambda>s. soc_sups s \<noteq> None" "sup_step sc atab cs (oc_add_sups fuel sc atab cs) False"
          "\<lambda>n. musts atab cs (classes_above cs [n])" "\<lambda>n. mays atab cs (classes_above cs [n])" soc opn] step Suc.prems(1,2) unfolding u by fastforce
    then show ?thesis using Some Suc.prems(2) by (auto simp: list_of_def Let_def)
  qed
qed simp

lemma gains_sups:
  assumes "gains M A s s'"
  shows "gains M A (s\<lparr>soc_sups := Y\<rparr>) (s'\<lparr>soc_sups := Y\<rparr>)"
proof -
  obtain R L where "s' = s\<lparr>soc_required := R, soc_allowed := L\<rparr>" "set R = set (soc_required s) \<union> M" "set L = (set (soc_allowed s) \<union> A) - set R"
    "lists_ok s'" using assms by (auto simp: gains_def)
  then show ?thesis unfolding gains_def by (intro conjI exI [of _ R] exI [of _ L]) (simp_all add: lists_ok_def)
qed

lemma top_step:
  assumes "table_ok m atab" "oids_ranked cs" "lists_ok soc" "soc_sups soc = Some ds" "\<forall>c. oc_find cs n = Some c \<longrightarrow> Suc c < fuel + 1" "0 < fuel"
  shows "\<exists>rc soc' opn'. sup_step sc atab cs (oc_add_sups fuel sc atab cs) True n (soc, opn) = Some (rc, soc', opn') \<and>
    (rc = 0 \<longrightarrow> (\<exists>c. oc_find cs n = Some c \<and>
       gains (musts atab cs (classes_above cs [n])) (mays atab cs (classes_above cs [n])) (soc\<lparr>soc_sups := Some (ds @ [c])\<rparr>) soc'))"
proof (cases "oc_find cs n")
  case None
  then show ?thesis by (simp add: sup_step_def SLAP_SCHERR_CLASS_NOT_FOUND_def)
next
  case (Some c)
  let ?soc = "soc\<lparr>soc_sups := Some (ds @ [c])\<rparr>"
  have "\<exists>rc s' opn'. oc_add_sups fuel sc atab cs (s, opn) (soc_sup_oids (oc_store cs c)) = Some (rc, s', opn') \<and>
      (rc = 0 \<longrightarrow> gains (musts atab cs (classes_above cs (list_of (soc_sup_oids (oc_store cs c))))) (mays atab cs (classes_above cs (list_of (soc_sup_oids (oc_store cs c))))) s s')"
    if "oc_find cs n = Some c" "lists_ok s" "soc_sups s \<noteq> None" for c s opn
    using assms(5) that(1) assms(2) by (intro add_sups_gains [OF assms(1,2) that(2,3) _ assms(6)]) (fastforce simp: oids_ranked_def)
  moreover have "lists_ok ?soc" using assms(3) by (simp add: lists_ok_def)
  ultimately obtain rc soc' o' where r: "sup_step sc atab cs (oc_add_sups fuel sc atab cs) False n (?soc, opn) = Some (rc, soc', o')"
    "rc = 0 \<longrightarrow> gains (musts atab cs (classes_above cs [n])) (mays atab cs (classes_above cs [n])) ?soc soc'"
    using sup_step_gains [OF assms(1,2), of ?soc False n "oc_add_sups fuel sc atab cs" sc opn] by auto
  have "sup_step sc atab cs (oc_add_sups fuel sc atab cs) True n (soc, opn) =
      (if rc = 0 then Some (rc, soc', o') else sup_step sc atab cs (oc_add_sups fuel sc atab cs) True n (soc, opn))"
    using r(1) Some assms(4) by (auto simp: sup_step_def Let_def sups_of_def SLAP_SCHERR_CLASS_BAD_SUP_def split: if_splits)
  moreover have "\<exists>rc' s' o'. sup_step sc atab cs (oc_add_sups fuel sc atab cs) True n (soc, opn) = Some (rc', s', o') \<and> (rc \<noteq> 0 \<longrightarrow> rc' \<noteq> 0)"
    using r(1) Some assms(4) by (auto simp: sup_step_def Let_def sups_of_def SLAP_SCHERR_CLASS_BAD_SUP_def split: if_splits)
  ultimately show ?thesis using r(2) Some by (metis option.inject prod.inject)
qed

lemma top_loop:
  assumes "table_ok m atab" "oids_ranked cs" "lists_ok soc" "soc_sups soc = Some ds" "\<forall>n\<in>set ns. \<forall>c. oc_find cs n = Some c \<longrightarrow> Suc c < fuel + 1" "0 < fuel"
  shows "\<exists>rc soc' opn'. each_ok (sup_step sc atab cs (oc_add_sups fuel sc atab cs) True) ns (soc, opn) = Some (rc, soc', opn') \<and>
    (rc = 0 \<longrightarrow> (\<exists>es. map (oc_find cs) ns = map Some es \<and>
       gains (musts atab cs (classes_above cs ns)) (mays atab cs (classes_above cs ns)) (soc\<lparr>soc_sups := Some (ds @ es)\<rparr>) soc'))"
  using assms(3-5)
proof (induction ns arbitrary: soc ds opn)
  case Nil
  then have "soc\<lparr>soc_sups := Some ds\<rparr> = soc" by (cases soc) simp
  then show ?case using gains_refl [OF Nil(1), of "{}"] by (simp add: musts_def mays_def classes_above_def)
next
  case (Cons n ns)
  have n: "\<forall>c. oc_find cs n = Some c \<longrightarrow> Suc c < fuel + 1" using Cons.prems(3) by simp
  obtain rc s1 o1 where r: "sup_step sc atab cs (oc_add_sups fuel sc atab cs) True n (soc, opn) = Some (rc, s1, o1)"
    "rc = 0 \<longrightarrow> (\<exists>c. oc_find cs n = Some c \<and>
       gains (musts atab cs (classes_above cs [n])) (mays atab cs (classes_above cs [n])) (soc\<lparr>soc_sups := Some (ds @ [c])\<rparr>) s1)"
    using top_step [OF assms(1,2) Cons.prems(1,2) n assms(6)] by blast
  show ?case
  proof (cases "rc = 0")
    case True
    with r(2) obtain c where c: "oc_find cs n = Some c"
      "gains (musts atab cs (classes_above cs [n])) (mays atab cs (classes_above cs [n])) (soc\<lparr>soc_sups := Some (ds @ [c])\<rparr>) s1" by blast
    have s1: "lists_ok s1" "soc_sups s1 = Some (ds @ [c])" using gains_lists [OF c(2)] gains_fields [OF c(2)] by simp_all
    obtain rc' s2 o2 where e: "each_ok (sup_step sc atab cs (oc_add_sups fuel sc atab cs) True) ns (s1, o1) = Some (rc', s2, o2)"
      "rc' = 0 \<longrightarrow> (\<exists>es. map (oc_find cs) ns = map Some es \<and>
         gains (musts atab cs (classes_above cs ns)) (mays atab cs (classes_above cs ns)) (s1\<lparr>soc_sups := Some ((ds @ [c]) @ es)\<rparr>) s2)"
      using Cons.IH [OF s1] Cons.prems(3) by (metis list.set_intros(2))
    have n: "classes_above cs (n # ns) = classes_above cs [n] \<union> classes_above cs ns" by (auto simp: classes_above_def)
    have u: "musts atab cs (classes_above cs [n]) \<union> musts atab cs (classes_above cs ns) = musts atab cs (classes_above cs (n # ns))"
      "mays atab cs (classes_above cs [n]) \<union> mays atab cs (classes_above cs ns) = mays atab cs (classes_above cs (n # ns))"
      unfolding musts_def mays_def n by auto
    have "\<exists>es. map (oc_find cs) (n # ns) = map Some es \<and>
       gains (musts atab cs (classes_above cs (n # ns))) (mays atab cs (classes_above cs (n # ns))) (soc\<lparr>soc_sups := Some (ds @ es)\<rparr>) s2" if rc': "rc' = 0"
    proof -
      obtain es where es: "map (oc_find cs) ns = map Some es"
        "gains (musts atab cs (classes_above cs ns)) (mays atab cs (classes_above cs ns)) (s1\<lparr>soc_sups := Some ((ds @ [c]) @ es)\<rparr>) s2" using e(2) rc' by blast
      from gains_trans [OF gains_sups [OF c(2), of "Some ((ds @ [c]) @ es)"] es(2)] show ?thesis
        using es(1) c(1) by (intro exI [of _ "c # es"]) (simp add: u)
    qed
    then show ?thesis using r(1) True e(1) by simp
  qed (use r(1) in simp)
qed

text \<open>The classes a definition names as superclasses.\<close>

definition sup_names :: "ldap_objectclass \<Rightarrow> string list" where
  "sup_names oc = (if oc_sup_oids oc = None \<and> oc_kind oc = LDAP_SCHEMA_STRUCTURAL then [SLAPD_TOP_OID] else list_of (oc_sup_oids oc))"

text \<open>The record has the fields of the definition, the classes it names as superclasses, and lists without repetition.\<close>

definition as_defined :: "class_schema \<Rightarrow> ldap_objectclass \<Rightarrow> string \<Rightarrow> object_class \<Rightarrow> bool" where
  "as_defined cs oc oid soc \<longleftrightarrow>
     map (oc_find cs) (sup_names oc) = map Some (sups_of soc) \<and> soc_oid soc = Some oid \<and> soc_names soc = oc_names oc \<and>
     soc_sup_oids soc = oc_sup_oids oc \<and> soc_kind soc = oc_kind oc \<and> soc_at_oids_must soc = oc_at_oids_must oc \<and>
     soc_at_oids_may soc = oc_at_oids_may oc \<and> \<not> has (soc_flags soc) SLAP_OC_DELETED \<and>
     distinct (soc_required soc) \<and> distinct (soc_allowed soc) \<and> set (soc_required soc) \<inter> set (soc_allowed soc) = {}"

text \<open>What the recursion collects: it follows the names in the definitions.\<close>

definition built :: "attr_tables \<Rightarrow> class_schema \<Rightarrow> ldap_objectclass \<Rightarrow> string \<Rightarrow> object_class \<Rightarrow> bool" where
  "built atab cs oc oid soc \<longleftrightarrow> as_defined cs oc oid soc \<and>
     set (soc_required soc) = musts atab cs (classes_above cs (sup_names oc)) \<union> types_in atab (list_of (oc_at_oids_must oc)) \<and>
     set (soc_allowed soc) = mays atab cs (classes_above cs (sup_names oc)) \<union> types_in atab (list_of (oc_at_oids_may oc)) - set (soc_required soc)"

lemma raw_class_fields:
  "soc_sup_oids (raw_class oc oid) = oc_sup_oids oc" "soc_kind (raw_class oc oid) = oc_kind oc" "soc_sups (raw_class oc oid) = None"
  by (simp_all add: raw_class_def)

lemma first_level:
  assumes "table_ok m atab" "oids_ranked cs"
  shows "\<exists>rc soc' opn'. oc_add_sups (Suc (Suc (oc_count cs))) sc atab cs (raw_class oc oid, opn)
      (if oc_sup_oids oc = None \<and> oc_kind oc = LDAP_SCHEMA_STRUCTURAL then Some [SLAPD_TOP_OID] else oc_sup_oids oc) = Some (rc, soc', opn') \<and>
    (rc = 0 \<longrightarrow> (\<exists>ss. map (oc_find cs) (sup_names oc) = map Some (list_of ss) \<and>
       gains (musts atab cs (classes_above cs (sup_names oc))) (mays atab cs (classes_above cs (sup_names oc))) (raw_class oc oid\<lparr>soc_sups := ss\<rparr>) soc'))"
proof -
  let ?sups = "if oc_sup_oids oc = None \<and> oc_kind oc = LDAP_SCHEMA_STRUCTURAL then Some [SLAPD_TOP_OID] else oc_sup_oids oc"
  have names: "sup_names oc = list_of ?sups" by (simp add: sup_names_def list_of_def)
  show ?thesis
  proof (cases ?sups)
    case None
    have "gains {} {} (raw_class oc oid) (raw_class oc oid)" by (rule gains_refl) (simp_all add: lists_ok_def raw_class_def)
    moreover have "raw_class oc oid\<lparr>soc_sups := None\<rparr> = raw_class oc oid" by (simp add: raw_class_def)
    ultimately show ?thesis using None names
      by (auto simp: list_of_def musts_def mays_def classes_above_def intro!: exI [of _ None])
  next
    case (Some ns)
    let ?soc = "raw_class oc oid\<lparr>soc_sups := Some []\<rparr>"
    have "lists_ok ?soc" "soc_sups ?soc = Some []" by (simp_all add: lists_ok_def raw_class_def)
    moreover have "\<forall>n\<in>set ns. \<forall>c. oc_find cs n = Some c \<longrightarrow> Suc c < Suc (oc_count cs) + 1" using assms(2) by (auto simp: oids_ranked_def less_SucI)
    ultimately obtain rc soc' o' where "each_ok (sup_step sc atab cs (oc_add_sups (Suc (oc_count cs)) sc atab cs) True) ns (?soc, opn) = Some (rc, soc', o')"
      "rc = 0 \<longrightarrow> (\<exists>es. map (oc_find cs) ns = map Some es \<and>
       gains (musts atab cs (classes_above cs ns)) (mays atab cs (classes_above cs ns)) (?soc\<lparr>soc_sups := Some es\<rparr>) soc')"
      using top_loop [OF assms, of ?soc "[]" ns "Suc (oc_count cs)" sc opn] by auto
    moreover from this(2) have "rc = 0 \<longrightarrow> (\<exists>ss. map (oc_find cs) ns = map Some (list_of ss) \<and>
        gains (musts atab cs (classes_above cs ns)) (mays atab cs (classes_above cs ns)) (raw_class oc oid\<lparr>soc_sups := ss\<rparr>) soc')"
      by (auto simp: list_of_def intro: exI [where x = "Some es" for es])
    moreover have "sup_names oc = ns" using names Some by (simp add: list_of_def)
    ultimately show ?thesis unfolding Some by (auto simp: Let_def raw_class_fields)
  qed
qed

lemma oc_build_ok:
  assumes "table_ok m atab" "oids_ranked cs" "oc_at_oids_must oc \<noteq> Some []" "oc_names oc \<noteq> Some []"
  shows "\<exists>code soc. oc_build sc atab cs oc oid user = Some (code, soc) \<and> (code = 0 \<longrightarrow> built atab cs oc (fst oid) soc)"
proof -
  let ?M = "musts atab cs (classes_above cs (sup_names oc))" and ?A = "mays atab cs (classes_above cs (sup_names oc))"
  obtain rc1 s1 o1 where 1: "oc_add_sups (Suc (Suc (oc_count cs))) sc atab cs (raw_class oc oid, 0)
      (if oc_sup_oids oc = None \<and> oc_kind oc = LDAP_SCHEMA_STRUCTURAL then Some [SLAPD_TOP_OID] else oc_sup_oids oc) = Some (rc1, s1, o1)"
    "rc1 = 0 \<longrightarrow> (\<exists>ss. map (oc_find cs) (sup_names oc) = map Some (list_of ss) \<and> gains ?M ?A (raw_class oc oid\<lparr>soc_sups := ss\<rparr>) s1)"
    using first_level [OF assms(1,2), of sc oc oid 0] by blast
  have B: "oc_build sc atab cs oc oid user = (if rc1 \<noteq> 0 then Some (rc1, s1) else if user \<and> o1 \<noteq> 0 then Some (SLAP_SCHERR_CLASS_BAD_SUP, s1)
     else Option.bind (oc_create_required sc atab (soc_at_oids_must s1) (s1, o1)) (\<lambda>(code, soc, opn).
       if code \<noteq> 0 then Some (code, soc)
       else Option.bind (oc_create_allowed sc atab (soc_at_oids_may soc) (soc, opn)) (\<lambda>(code, soc, opn).
         if code \<noteq> 0 then Some (code, soc)
         else if user \<and> opn \<noteq> 0 then Some (SLAP_SCHERR_CLASS_BAD_USAGE, soc)
         else Some (0, if user then soc else soc\<lparr>soc_flags := soc_flags soc OR SLAP_OC_HARDCODE\<rparr>))))"
    unfolding oc_build_def Let_def raw_class_fields 1(1) using assms(4) by (simp add: ensure_True)
  show ?thesis
  proof (cases "rc1 = 0 \<and> \<not> (user \<and> o1 \<noteq> 0)")
    case True
    with 1(2) obtain ss where ss: "map (oc_find cs) (sup_names oc) = map Some (list_of ss)" "gains ?M ?A (raw_class oc oid\<lparr>soc_sups := ss\<rparr>) s1" by blast
    have f1: "soc_at_oids_must s1 = oc_at_oids_must oc" using gains_fields [OF ss(2)] by (simp add: raw_class_def)
    from create_required_gains [OF assms(1) gains_lists [OF ss(2)] assms(3), of sc o1] obtain rc2 s2 o2 where
      2: "oc_create_required sc atab (oc_at_oids_must oc) (s1, o1) = Some (rc2, s2, o2)" "rc2 = 0 \<longrightarrow> gains (types_in atab (list_of (oc_at_oids_must oc))) {} s1 s2" by blast
    show ?thesis
    proof (cases "rc2 = 0")
      case rc2: True
      then have g2: "gains (types_in atab (list_of (oc_at_oids_must oc))) {} s1 s2" using 2(2) by simp
      have f2: "soc_at_oids_may s2 = oc_at_oids_may oc" using gains_fields [OF ss(2)] gains_fields [OF g2] by (simp add: raw_class_def)
      from create_allowed_gains [OF assms(1) gains_lists [OF g2], of sc "oc_at_oids_may oc" o2] obtain rc3 s3 o3 where
        3: "oc_create_allowed sc atab (oc_at_oids_may oc) (s2, o2) = Some (rc3, s3, o3)" "rc3 = 0 \<longrightarrow> gains {} (types_in atab (list_of (oc_at_oids_may oc))) s2 s3" by blast
      have "built atab cs oc (fst oid) s3 \<and> built atab cs oc (fst oid) (s3\<lparr>soc_flags := soc_flags s3 OR SLAP_OC_HARDCODE\<rparr>)" if "rc3 = 0"
      proof -
        have g: "gains (?M \<union> types_in atab (list_of (oc_at_oids_must oc))) (?A \<union> types_in atab (list_of (oc_at_oids_may oc)))
            (raw_class oc oid\<lparr>soc_sups := ss\<rparr>) s3"
          using gains_trans [OF gains_trans [OF ss(2) g2] 3(2) [rule_format, OF that]] by simp
        show ?thesis using g ss(1)
          by (auto simp: built_def as_defined_def gains_def lists_ok_def raw_class_def sups_of_def list_of_def SLAP_OC_DELETED_def SLAP_OC_HARDCODE_def
              split: option.splits)
      qed
      then show ?thesis using B True f1 2(1) rc2 f2 3(1) by (auto simp: SLAP_SCHERR_CLASS_BAD_USAGE_def)
    qed (use B True f1 2(1) in auto)
  qed (use B in \<open>auto simp: SLAP_SCHERR_CLASS_BAD_SUP_def\<close>)
qed

section \<open>Entering a class\<close>

lemma check_dup_nonzero: "oc_check_dup a b \<noteq> 0"
  by (simp add: oc_check_dup_def SLAP_SCHERR_CLASS_INCONSISTENT_def SLAP_SCHERR_CLASS_DUP_def)

lemma bvfind_class: "tree_ok oir_key n (oc_index cs) \<Longrightarrow> oc_bvfind cs x = map_option oir_oc (dict oir_key (oc_index cs) (attr_key x))"
  using avl_find_dict [OF class_name_cmp] by (simp add: oc_bvfind_def tree_ok_def)

text \<open>All names of the class lead to it, or the index is as before.\<close>

definition entered :: "nat \<Rightarrow> string list \<Rightarrow> oindexrec avlnode \<Rightarrow> oindexrec avlnode \<Rightarrow> bool" where
  "entered c xs t t' \<longleftrightarrow> (\<forall>x\<in>set xs. dict oir_key t (attr_key x) = None \<and> dict oir_key t' (attr_key x) = Some (oir c x)) \<and>
     (\<forall>q. q \<notin> attr_key ` set xs \<longrightarrow> dict oir_key t' q = dict oir_key t q)"

lemma oir_simps [simp]: "oir_name (oir c x) = x" "oir_oc (oir c x) = c" "map oir_key (map (oir c) xs) = map attr_key xs"
  "oir_key ` set (map (oir c) xs) = attr_key ` set xs"
  by (simp_all add: oir_def image_image comp_def)

lemma insert_oid_cases:
  assumes "tree_ok oir_key (Suc n) (oc_index cs)" "\<forall>k r. dict oir_key (oc_index cs) k = Some r \<longrightarrow> \<not> has (soc_flags (oc_store cs (oir_oc r))) SLAP_OC_DELETED"
    "soc_oid (oc_store cs c) = Some oid"
  shows "(\<exists>t. insert_class_oid cs c = Some (0, cs\<lparr>oc_index := t\<rparr>, c) \<and> tree_ok oir_key n t \<and> entered c [oid] (oc_index cs) t) \<or>
    (\<exists>rc. insert_class_oid cs c = Some (rc, cs, c) \<and> rc \<noteq> 0)"
proof (cases "dict oir_key (oc_index cs) (attr_key oid)")
  case None
  then obtain t where t: "avl_insert (oc_index cs) (oir c oid) oc_index_cmp avl_dup_error = Some (t, 0)" "tree_ok oir_key n t"
    "dict oir_key t = (dict oir_key (oc_index cs))(attr_key oid \<mapsto> oir c oid)"
    using class_tab.insert_fresh [OF assms(1), of "oir c oid" avl_dup_error] by auto
  have "avl_find t (oc_index_name_cmp oid) = Some (oir c oid)" using avl_find_dict [OF class_name_cmp] t(2,3) by (simp add: tree_ok_def)
  then show ?thesis using t None assms(3) by (auto simp: insert_class_oid_def ensure_True entered_def)
next
  case (Some r)
  then obtain t where "avl_insert (oc_index cs) (oir c oid) oc_index_cmp avl_dup_error = Some (t, - 1)"
    using class_tab.insert_taken [OF assms(1), of "oir c oid"] by auto
  moreover have "avl_find (oc_index cs) (oc_index_cmp (oir c oid)) = Some r" using class_tab.find_tree [OF assms(1), of "oir c oid"] Some by simp
  ultimately show ?thesis using assms(2,3) Some check_dup_nonzero by (auto simp: insert_class_oid_def Let_def)
qed

lemma oc_insert_cases:
  assumes "tree_ok oir_key (Suc (length names)) (oc_index cs)"
    "\<forall>k r. dict oir_key (oc_index cs) k = Some r \<longrightarrow> \<not> has (soc_flags (oc_store cs (oir_oc r))) SLAP_OC_DELETED"
    "soc_oid (oc_store cs c) = Some oid" "names = list_of (soc_names (oc_store cs c))"
  shows "\<exists>rc t l s. oc_insert cs c prev = Some (rc, cs\<lparr>oc_index := t, oc_list := l, oc_sys_tail := s\<rparr>, c) \<and> tree_ok oir_key 0 t \<and>
    (if rc = 0 then entered c (oid # names) (oc_index cs) t else dict oir_key t = dict oir_key (oc_index cs) \<and> l = oc_list cs)"
proof -
  consider rc where "insert_class_oid cs c = Some (rc, cs, c)" "rc \<noteq> 0"
    | t where "insert_class_oid cs c = Some (0, cs\<lparr>oc_index := t\<rparr>, c)" "tree_ok oir_key (length names) t" "entered c [oid] (oc_index cs) t"
    using insert_oid_cases [OF assms(1,2,3)] by blast
  then show ?thesis
  proof cases
    case 1
    have "tree_ok oir_key 0 (oc_index cs)" using assms(1) by (simp add: tree_ok_def)
    then show ?thesis using 1 by (intro exI [of _ rc] exI [of _ "oc_index cs"] exI [of _ "oc_list cs"] exI [of _ "oc_sys_tail cs"]) (simp add: oc_insert_def)
  next
    case (2 t)
    have len: "tree_ok oir_key (length (map (oir c) names)) t" using 2(2) by simp
    from class_tab.enter_recs_ok [OF len, unfolded take_map length_map oir_simps(3,4)] obtain t' k where e0:
      "enter_recs oc_index_cmp (map (oir c) names) t = Some (t', k)" "k \<le> length names" "tree_ok oir_key 0 t'"
      "distinct (map attr_key (take k names))" "\<forall>x\<in>set (map (oir c) (take k names)). dict oir_key t (oir_key x) = None \<and> dict oir_key t' (oir_key x) = Some x"
      "\<forall>q. q \<notin> attr_key ` set (take k names) \<longrightarrow> dict oir_key t' q = dict oir_key t q"
      "k < length names \<longrightarrow> dict oir_key t' (oir_key (map (oir c) names ! k)) \<noteq> None" by blast
    note e = e0(1-4)
    have e5: "\<forall>x\<in>set (take k names). dict oir_key t (attr_key x) = None \<and> dict oir_key t' (attr_key x) = Some (oir c x)" using e0(5) by simp
    note e6 = e0(6)
    have e7: "k < length names \<longrightarrow> dict oir_key t' (attr_key (names ! k)) \<noteq> None" using e0(7) by simp
    have o: "dict oir_key (oc_index cs) (attr_key oid) = None" "dict oir_key t (attr_key oid) = Some (oir c oid)"
      "\<forall>q. q \<noteq> attr_key oid \<longrightarrow> dict oir_key t q = dict oir_key (oc_index cs) q" using 2(3) by (auto simp: entered_def)
    have no: "attr_key oid \<notin> attr_key ` set (take k names)" using e5 o(2) by auto
    show ?thesis
    proof (cases "k < length names")
      case False
      then have all: "take k names = names" using e(2) by simp
      have "dict oir_key (oc_index cs) (attr_key x) = None \<and> dict oir_key t' (attr_key x) = Some (oir c x)" if "x \<in> set (oid # names)" for x
      proof (cases "attr_key x = attr_key oid")
        case True
        then have "x = oid" using that no all by (metis image_eqI set_ConsD)
        then show ?thesis using o(1,2) e6 no by simp
      next
        case False
        then show ?thesis using that e5 o(3) all by auto
      qed
      moreover have "dict oir_key t' q = dict oir_key (oc_index cs) q" if "q \<notin> attr_key ` set (oid # names)" for q
        using that e6 o(3) all by simp
      ultimately have "entered c (oid # names) (oc_index cs) t'" by (simp add: entered_def)
      moreover define hard where "hard \<longleftrightarrow> has (soc_flags (oc_store cs c)) SLAP_OC_HARDCODE"
      have "oc_insert cs c prev = Some (0, cs\<lparr>oc_index := t',
          oc_list := (case if hard then oc_sys_tail cs else prev of None \<Rightarrow> oc_list cs @ [c] | Some p \<Rightarrow> list_after p c (oc_list cs)),
          oc_sys_tail := if hard then Some c else oc_sys_tail cs\<rparr>, c)"
        using 2(1) e(1) False assms(4) by (simp add: oc_insert_def Let_def hard_def cong: option.case_cong)
      ultimately show ?thesis using e(3) by - (intro exI conjI, assumption, assumption, simp)
    next
      case True
      let ?xs = "rev (take k names) @ [oid]"
      have "distinct (map oir_key (map (oir c) ?xs))" unfolding oir_simps using e(4) no by (simp flip: rev_map)
      moreover have "dict oir_key t' (attr_key oid) \<noteq> None" using e6 no o(2) by simp
      then have "\<forall>x\<in>set (map (oir c) ?xs). dict oir_key t' (oir_key x) \<noteq> None" using e5 by simp
      ultimately obtain u where u: "remove_recs oc_index_cmp (map (oir c) ?xs) t' = Some u" "tree_ok oir_key 0 u"
        "dict oir_key u = (\<lambda>q. if q \<in> attr_key ` set ?xs then None else dict oir_key t' q)"
        using class_tab.remove_recs_ok [OF e(3), of "map (oir c) ?xs"] unfolding oir_simps by blast
      have d: "dict oir_key u = dict oir_key (oc_index cs)"
      proof
        fix q
        consider "q = attr_key oid" | "q \<noteq> attr_key oid" "q \<in> attr_key ` set (take k names)" | "q \<notin> attr_key ` set ?xs" by auto
        then show "dict oir_key u q = dict oir_key (oc_index cs) q"
          by cases (use u(3) e5 e6 o in auto)
      qed
      obtain old where "avl_find t' (oc_index_name_cmp (names ! k)) = Some old"
        using avl_find_dict [OF class_name_cmp] e(3) e7 True by (auto simp: tree_ok_def)
      then show ?thesis using 2(1) e(1) True assms(3,4) u d check_dup_nonzero
        by (auto simp: oc_insert_def Let_def intro!: exI [of _ u] exI [of _ "oc_list cs"] exI [of _ "oc_sys_tail cs"])
    qed
  qed
qed

section \<open>Subclasses\<close>

definition supers :: "class_schema \<Rightarrow> (nat \<times> nat) set" where
  "supers cs = {(c, s). s \<in> set (sups_of (oc_store cs c))}"

text \<open>No class is its own superclass: every class has a rank above those of its superclasses.\<close>

definition ranked :: "class_schema \<Rightarrow> bool" where
  "ranked cs \<longleftrightarrow> (\<exists>rank. \<forall>c. rank c \<le> oc_count cs \<and> (\<forall>s\<in>set (sups_of (oc_store cs c)). rank s < rank c))"

lemma first_true_ex: "\<forall>x\<in>set xs. f x = Some (P x) \<Longrightarrow> first_true f xs = Some (\<exists>x\<in>set xs. P x)"
  by (induction xs) auto

lemma subclass_of_decides:
  assumes "\<forall>c. \<forall>s\<in>set (sups_of (oc_store cs c)). rank s < (rank c :: nat)" "rank sub < fuel"
  shows "subclass_of fuel cs super sub = Some ((sub, super) \<in> (supers cs)\<^sup>*)"
  using assms(2)
proof (induction fuel arbitrary: sub)
  case (Suc fuel)
  have "\<forall>s\<in>set (sups_of (oc_store cs sub)). subclass_of fuel cs super s = Some ((s, super) \<in> (supers cs)\<^sup>*)"
    using Suc assms(1) by force
  from first_true_ex [OF this] show ?case
    by (auto simp: supers_def intro: converse_rtrancl_into_rtrancl elim: converse_rtranclE)
qed simp

lemma is_object_subclass_decides: "ranked cs \<Longrightarrow> is_object_subclass cs super sub = Some ((sub, super) \<in> (supers cs)\<^sup>*)"
  unfolding is_object_subclass_def ranked_def by (meson le_imp_less_Suc subclass_of_decides)

lemma supers_antisym:
  assumes "ranked cs" "(a, b) \<in> (supers cs)\<^sup>*" "(b, a) \<in> (supers cs)\<^sup>*"
  shows "a = b"
proof -
  obtain rank :: "nat \<Rightarrow> nat" where r: "(c, s) \<in> supers cs \<Longrightarrow> rank s < rank c" for c s
    using assms(1) by (auto simp: ranked_def supers_def)
  have le: "(c, d) \<in> (supers cs)\<^sup>* \<Longrightarrow> c = d \<or> rank d < rank c" for c d
    by (induction rule: rtrancl_induct) (auto dest: r)
  show ?thesis using le [OF assms(2)] le [OF assms(3)] by auto
qed

section \<open>The invariant of the tables\<close>

text \<open>The names behind the superclasses of a class: those of its definition, or \<^verbatim>\<open>top\<close> for a structural class that names none.\<close>

definition implicit_top :: "object_class \<Rightarrow> bool" where
  "implicit_top soc \<longleftrightarrow> soc_sup_oids soc = None \<and> soc_kind soc = LDAP_SCHEMA_STRUCTURAL"

definition def_sups :: "object_class \<Rightarrow> string list" where
  "def_sups soc = (if implicit_top soc then [SLAPD_TOP_OID] else list_of (soc_sup_oids soc))"

text \<open>There is room for \<open>n\<close> more names, every name leads to a class that is not deleted, every class was defined after its
  superclasses, and these are the ones its definition names.\<close>

definition classes_ok :: "nat \<Rightarrow> class_schema \<Rightarrow> bool" where
  "classes_ok n cs \<longleftrightarrow> tree_ok oir_key n (oc_index cs) \<and>
     (\<forall>k r. dict oir_key (oc_index cs) k = Some r \<longrightarrow> oir_oc r < oc_count cs \<and> \<not> has (soc_flags (oc_store cs (oir_oc r))) SLAP_OC_DELETED) \<and>
     (\<forall>c. \<forall>s\<in>set (sups_of (oc_store cs c)). c < oc_count cs \<and> s < c) \<and>
     (\<forall>c<oc_count cs. soc_at_oids_must (oc_store cs c) \<noteq> Some [] \<and> map (oc_find cs) (def_sups (oc_store cs c)) = map Some (sups_of (oc_store cs c)))"

lemma classes_named:
  assumes "classes_ok n cs" "c < oc_count cs" "x \<in> set (list_of (soc_sup_oids (oc_store cs c)))"
  shows "\<exists>d\<in>set (sups_of (oc_store cs c)). d < c \<and> oc_find cs x = Some d"
proof -
  have "x \<in> set (def_sups (oc_store cs c))" using assms(3) by (auto simp: def_sups_def list_of_def implicit_top_def)
  moreover have "map (oc_find cs) (def_sups (oc_store cs c)) = map Some (sups_of (oc_store cs c))" using assms(1,2) by (simp add: classes_ok_def)
  ultimately have "oc_find cs x \<in> set (map Some (sups_of (oc_store cs c)))" by (metis image_eqI list.set_map)
  then show ?thesis using assms(1) by (auto simp: classes_ok_def)
qed

lemma classes_ranked:
  assumes "classes_ok n cs"
  shows "ranked cs"
  unfolding ranked_def
  by (rule exI [of _ "\<lambda>c. if c < oc_count cs then c else 0"]) (use assms in \<open>fastforce simp: classes_ok_def\<close>)

lemma classes_oids_ranked: "classes_ok n cs \<Longrightarrow> oids_ranked cs"
  using classes_named [of n cs] by (fastforce simp: classes_ok_def oids_ranked_def oc_find_def bvfind_class)

lemma find_entered:
  assumes "tree_ok oir_key m (oc_index cs)" "tree_ok oir_key n (oc_index cs')" "entered c xs (oc_index cs) (oc_index cs')" "oc_find cs x = Some d"
  shows "oc_find cs' x = Some d"
proof -
  have "dict oir_key (oc_index cs) (attr_key x) \<noteq> None" using assms(1,4) by (auto simp: oc_find_def bvfind_class)
  then have "attr_key x \<notin> attr_key ` set xs" using assms(3) by (auto simp: entered_def)
  then show ?thesis using assms by (simp add: oc_find_def bvfind_class entered_def)
qed

lemma classes_ok_add:
  assumes "classes_ok n cs" "built atab cs oc oid soc" "oc_at_oids_must oc \<noteq> Some []" "tree_ok oir_key 0 t" "c = oc_count cs"
    "entered c (oid # list_of (oc_names oc)) (oc_index cs) t"
  shows "classes_ok 0 (cs\<lparr>oc_store := (oc_store cs)(c := soc), oc_index := t, oc_list := l, oc_sys_tail := s, oc_count := Suc c\<rparr>)"
proof -
  let ?cs = "cs\<lparr>oc_store := (oc_store cs)(c := soc), oc_index := t, oc_list := l, oc_sys_tail := s, oc_count := Suc c\<rparr>"
  have old: "tree_ok oir_key n (oc_index cs)" using assms(1) by (simp add: classes_ok_def)
  have found: "oc_find ?cs x = Some d" if "oc_find cs x = Some d" for x d
    using find_entered [OF old, of 0 ?cs c _ x d] assms(4,6) that by simp
  have below: "d < oc_count cs" if "oc_find cs x = Some d" for x d
    using assms(1) that old by (auto simp: classes_ok_def oc_find_def bvfind_class)
  have sups: "\<forall>d\<in>set (sups_of soc). d < c"
  proof
    fix d assume "d \<in> set (sups_of soc)"
    then have "Some d \<in> set (map (oc_find cs) (sup_names oc))" using assms(2) by (simp add: built_def as_defined_def)
    then show "d < c" using below assms(5) by auto
  qed
  have kept: "map (oc_find ?cs) ns = map Some ds" if "map (oc_find cs) ns = map Some ds" for ns ds
    using that found by (induction ns arbitrary: ds) auto
  have "def_sups soc = sup_names oc" using assms(2) by (auto simp: built_def as_defined_def sup_names_def def_sups_def implicit_top_def)
  then have "map (oc_find ?cs) (def_sups soc) = map Some (sups_of soc)" using assms(2) by (simp add: built_def as_defined_def kept)
  moreover have "oir_oc r < Suc c \<and> \<not> has (soc_flags (((oc_store cs)(c := soc)) (oir_oc r))) SLAP_OC_DELETED" if "dict oir_key t k = Some r" for k r
  proof (cases "k \<in> attr_key ` set (oid # list_of (oc_names oc))")
    case True
    then have "r = oir c (oir_name r)" using assms(6) that by (auto simp: entered_def)
    then have "oir_oc r = c" by (metis oir_simps(2))
    then show ?thesis using assms(2) by (simp add: built_def as_defined_def)
  next
    case False
    then have "dict oir_key (oc_index cs) k = Some r" using assms(6) that by (simp add: entered_def)
    then have "oir_oc r < c" "\<not> has (soc_flags (oc_store cs (oir_oc r))) SLAP_OC_DELETED" using assms(1,5) by (auto simp: classes_ok_def)
    then show ?thesis by simp
  qed
  moreover have "map (oc_find ?cs) (def_sups (oc_store cs b)) = map Some (sups_of (oc_store cs b))" if "b < c" for b
    using assms(1,5) that by (intro kept) (simp add: classes_ok_def)
  ultimately show ?thesis using assms(1-5) sups
    by (auto simp: classes_ok_def built_def as_defined_def less_Suc_eq)
qed

lemma oc_add_invariant:
  assumes "table_ok m atab" "classes_ok (Suc (length (list_of (oc_names oc)))) cs" "oc_at_oids_must oc \<noteq> Some []" "oc_names oc \<noteq> Some []"
  shows "\<exists>rc cs' r. oc_add sc atab cs oc user prev = Some (rc, cs', r) \<and> classes_ok 0 cs' \<and>
    (if rc = 0 then r = Some (oc_count cs) \<and> oc_count cs' = Suc (oc_count cs) \<and> (\<forall>c<oc_count cs. oc_store cs' c = oc_store cs c) \<and>
       (\<exists>oid. map_option fst (expand_oid cs (oc_oid oc)) = Some oid \<and> built atab cs oc oid (oc_store cs' (oc_count cs)) \<and>
         entered (oc_count cs) (oid # list_of (oc_names oc)) (oc_index cs) (oc_index cs'))
     else r = None \<and> oc_store cs' = oc_store cs \<and> oc_count cs' = oc_count cs \<and> oc_list cs' = oc_list cs \<and>
       dict oir_key (oc_index cs') = dict oir_key (oc_index cs))"
proof -
  let ?c = "oc_count cs" and ?names = "list_of (oc_names oc)"
  have ok0: "classes_ok 0 cs" using assms(2) by (simp add: classes_ok_def tree_ok_def)
  show ?thesis
  proof (cases "list_all slap_valid_descr ?names \<and> expand_oid cs (oc_oid oc) \<noteq> None")
    case False
    then consider "\<not> list_all slap_valid_descr ?names" | "list_all slap_valid_descr ?names" "expand_oid cs (oc_oid oc) = None" by blast
    then show ?thesis using ok0
      by cases (simp_all add: oc_add_def SLAP_SCHERR_BAD_DESCR_def SLAP_SCHERR_OIDM_def)
  next
    case True
    then obtain oid where oid: "expand_oid cs (oc_oid oc) = Some oid" "list_all slap_valid_descr ?names" by auto
    obtain code soc where b: "oc_build sc atab cs oc oid user = Some (code, soc)" "code = 0 \<longrightarrow> built atab cs oc (fst oid) soc"
      using oc_build_ok [OF assms(1) classes_oids_ranked [OF ok0] assms(3,4)] by blast
    show ?thesis
    proof (cases "code = 0")
      case False
      then show ?thesis using oid b(1) ok0 by (simp add: oc_add_def)
    next
      case code: True
      then have bt: "built atab cs oc (fst oid) soc" using b(2) by simp
      let ?cs = "cs\<lparr>oc_store := (oc_store cs)(?c := soc)\<rparr>"
      have f: "soc_oid (oc_store ?cs ?c) = Some (fst oid)" "?names = list_of (soc_names (oc_store ?cs ?c))" using bt by (simp_all add: built_def as_defined_def)
      have d: "\<forall>k r. dict oir_key (oc_index ?cs) k = Some r \<longrightarrow> \<not> has (soc_flags (oc_store ?cs (oir_oc r))) SLAP_OC_DELETED"
      proof (intro allI impI)
        fix k r assume "dict oir_key (oc_index ?cs) k = Some r"
        then have "oir_oc r < ?c" "\<not> has (soc_flags (oc_store cs (oir_oc r))) SLAP_OC_DELETED" using assms(2) by (auto simp: classes_ok_def)
        then show "\<not> has (soc_flags (oc_store ?cs (oir_oc r))) SLAP_OC_DELETED" by simp
      qed
      have t: "tree_ok oir_key (Suc (length ?names)) (oc_index ?cs)" using assms(2) by (simp add: classes_ok_def)
      from oc_insert_cases [OF t d f, of prev] obtain rc u l s where
        i: "oc_insert ?cs ?c prev = Some (rc, ?cs\<lparr>oc_index := u, oc_list := l, oc_sys_tail := s\<rparr>, ?c)" "tree_ok oir_key 0 u"
        "if rc = 0 then entered ?c (fst oid # ?names) (oc_index cs) u else dict oir_key u = dict oir_key (oc_index cs) \<and> l = oc_list cs"
        by (elim exE conjE) (simp cong: if_cong)
      show ?thesis
      proof (cases "rc = 0")
        case True
        have "oc_add sc atab cs oc user prev = Some (0, ?cs\<lparr>oc_index := u, oc_list := l, oc_sys_tail := s, oc_count := Suc ?c\<rparr>, Some ?c)"
          using oid b(1) code i(1) True by (simp add: oc_add_def Let_def)
        moreover have "classes_ok 0 (?cs\<lparr>oc_index := u, oc_list := l, oc_sys_tail := s, oc_count := Suc ?c\<rparr>)"
          using classes_ok_add [OF assms(2) bt assms(3) i(2) refl, where l = l and s = s] i(3) True by simp
        ultimately show ?thesis using i(3) True bt oid(1) by simp
      next
        case False
        have "oc_add sc atab cs oc user prev = Some (rc, cs\<lparr>oc_index := u, oc_list := l, oc_sys_tail := s\<rparr>, None)"
          using oid b(1) code i(1) False by (simp add: oc_add_def Let_def)
        moreover have "oc_find (cs\<lparr>oc_index := u, oc_list := l, oc_sys_tail := s\<rparr>) = oc_find cs"
          using ok0 i(2,3) False by (simp add: fun_eq_iff classes_ok_def oc_find_def bvfind_class [of 0])
        then have "classes_ok 0 (cs\<lparr>oc_index := u, oc_list := l, oc_sys_tail := s\<rparr>)"
          using ok0 i(2,3) False by (simp add: classes_ok_def)
        ultimately show ?thesis using i(3) False by simp
      qed
    qed
  qed
qed

section \<open>Inheritance\<close>

text \<open>The superclasses, of any depth, by the relation that \<^verbatim>\<open>is_object_subclass\<close> follows.\<close>

definition superclasses :: "class_schema \<Rightarrow> nat list \<Rightarrow> nat set" where
  "superclasses cs ss = {d. \<exists>c\<in>set ss. (c, d) \<in> (supers cs)\<^sup>*}"

text \<open>A class has no other types than its definition or its superclasses demand and, unless one of the superclasses has
  \<^verbatim>\<open>top\<close> only implicitly, all of them: the required ones, and the allowed ones that are not required.\<close>

definition inherits :: "attr_tables \<Rightarrow> class_schema \<Rightarrow> object_class \<Rightarrow> bool" where
  "inherits atab cs soc \<longleftrightarrow> (
     let D = superclasses cs (sups_of soc); M = musts atab cs D \<union> types_in atab (list_of (soc_at_oids_must soc));
         A = mays atab cs D \<union> types_in atab (list_of (soc_at_oids_may soc)) in
     set (soc_required soc) \<subseteq> M \<and> set (soc_allowed soc) \<subseteq> A \<and>
     ((\<forall>d\<in>D. \<not> implicit_top (oc_store cs d)) \<longrightarrow> set (soc_required soc) = M \<and> set (soc_allowed soc) = A - M))"

lemma above_below_count:
  assumes "classes_ok n cs" "(c, d) \<in> (oid_sups cs)\<^sup>*" "c < oc_count cs"
  shows "(c, d) \<in> (supers cs)\<^sup>* \<and> d < oc_count cs"
  using assms(2,3)
proof (induction rule: rtrancl_induct)
  case (step y z)
  then have y: "(c, y) \<in> (supers cs)\<^sup>*" "y < oc_count cs" by auto
  from step(2) classes_named [OF assms(1) y(2)] have "z \<in> set (sups_of (oc_store cs y))" "z < y" by (fastforce simp: oid_sups_def)+
  then show ?case using y by (auto simp: supers_def intro: rtrancl_into_rtrancl)
qed simp

lemma supers_above:
  assumes "classes_ok n cs" "(c, d) \<in> (supers cs)\<^sup>*" "\<And>d. (c, d) \<in> (supers cs)\<^sup>* \<Longrightarrow> \<not> implicit_top (oc_store cs d)"
  shows "(c, d) \<in> (oid_sups cs)\<^sup>*"
  using assms(2)
proof (induction rule: rtrancl_induct)
  case (step y z)
  have y: "y < oc_count cs" "z \<in> set (sups_of (oc_store cs y))" using step(2) assms(1) by (auto simp: supers_def classes_ok_def)
  moreover have "def_sups (oc_store cs y) = list_of (soc_sup_oids (oc_store cs y))" using assms(3) [OF step(1)] by (simp add: def_sups_def)
  moreover have "map (oc_find cs) (def_sups (oc_store cs y)) = map Some (sups_of (oc_store cs y))" using assms(1) y(1) by (simp add: classes_ok_def)
  ultimately have "map (oc_find cs) (list_of (soc_sup_oids (oc_store cs y))) = map Some (sups_of (oc_store cs y))" by simp
  then have "Some z \<in> set (map (oc_find cs) (list_of (soc_sup_oids (oc_store cs y))))" using y(2) by simp
  then have "(y, z) \<in> oid_sups cs" by (force simp: oid_sups_def)
  with step.IH show ?case by (rule rtrancl_into_rtrancl)
qed simp

lemma above_superclasses:
  assumes "classes_ok n cs" "map (oc_find cs) ns = map Some ss"
  shows "classes_above cs ns \<subseteq> superclasses cs ss"
    "\<forall>d\<in>superclasses cs ss. \<not> implicit_top (oc_store cs d) \<Longrightarrow> classes_above cs ns = superclasses cs ss"
proof -
  have iff: "(\<exists>n\<in>set ns. oc_find cs n = Some c) \<longleftrightarrow> c \<in> set ss" for c
  proof -
    have "Some c \<in> set (map (oc_find cs) ns) \<longleftrightarrow> c \<in> set ss" using assms(2) by auto
    then show ?thesis by force
  qed
  then have above: "classes_above cs ns = {d. \<exists>c\<in>set ss. (c, d) \<in> (oid_sups cs)\<^sup>*}" unfolding classes_above_def by blast
  have "c < oc_count cs" if "c \<in> set ss" for c
    using iff [of c] that assms(1) by (auto simp: classes_ok_def oc_find_def bvfind_class)
  then show sub: "classes_above cs ns \<subseteq> superclasses cs ss" using above_below_count [OF assms(1)] by (auto simp: above superclasses_def)
  show "classes_above cs ns = superclasses cs ss" if "\<forall>d\<in>superclasses cs ss. \<not> implicit_top (oc_store cs d)"
  proof (rule equalityI [OF sub], rule subsetI)
    fix d assume "d \<in> superclasses cs ss"
    then obtain c where c: "c \<in> set ss" "(c, d) \<in> (supers cs)\<^sup>*" by (auto simp: superclasses_def)
    have "\<not> implicit_top (oc_store cs b)" if "(c, b) \<in> (supers cs)\<^sup>*" for b
      using \<open>\<forall>d\<in>superclasses cs ss. \<not> implicit_top (oc_store cs d)\<close> c(1) that by (auto simp: superclasses_def)
    from supers_above [OF assms(1) c(2) this] c(1) show "d \<in> classes_above cs ns" by (auto simp: above)
  qed
qed

lemma built_inherits:
  assumes "classes_ok n cs" "built atab cs oc oid soc"
  shows "as_defined cs oc oid soc \<and> inherits atab cs soc"
proof -
  have d: "as_defined cs oc oid soc" using assms(2) by (simp add: built_def)
  then have ns: "map (oc_find cs) (sup_names oc) = map Some (sups_of soc)" by (simp add: as_defined_def)
  have f: "soc_at_oids_must soc = oc_at_oids_must oc" "soc_at_oids_may soc = oc_at_oids_may oc" using d by (simp_all add: as_defined_def)
  have mono: "C \<subseteq> D \<Longrightarrow> musts atab cs C \<subseteq> musts atab cs D \<and> mays atab cs C \<subseteq> mays atab cs D" for C D by (auto simp: musts_def mays_def)
  show ?thesis
    using d assms(2) mono [OF above_superclasses(1) [OF assms(1) ns]] above_superclasses(2) [OF assms(1) ns]
    unfolding inherits_def Let_def built_def f by auto
qed

section \<open>Theorems\<close>

text \<open>C18. oc_add keeps the class tables well-formed, if no class was deleted before. It always returns; afterwards every name leads to
  a class that is not deleted, every class comes after its superclasses, so that the hierarchy is acyclic, and these are the ones its
  definition names, or \<^verbatim>\<open>top\<close> for a structural class that names none; or an error is reported and nothing has changed. A new class is
  found under its OID and all its names. It has no type that neither its definition nor a superclass of any depth has; unless a
  superclass is itself below \<^verbatim>\<open>top\<close> only implicitly, it requires exactly the types that its definition or a superclass requires and
  allows exactly the other ones that they allow.\<close>

theorem oc_add_correct:
  assumes "table_ok m atab" "classes_ok (Suc (length (list_of (oc_names oc)))) cs" "oc_at_oids_must oc \<noteq> Some []" "oc_names oc \<noteq> Some []"
  shows "\<exists>rc cs' r. oc_add sc atab cs oc user prev = Some (rc, cs', r) \<and> classes_ok 0 cs' \<and> ranked cs' \<and>
    (if rc = 0 then r = Some (oc_count cs) \<and> oc_count cs' = Suc (oc_count cs) \<and> (\<forall>c<oc_count cs. oc_store cs' c = oc_store cs c) \<and>
       (\<exists>oid. map_option fst (expand_oid cs (oc_oid oc)) = Some oid \<and> as_defined cs oc oid (oc_store cs' (oc_count cs)) \<and>
         inherits atab cs (oc_store cs' (oc_count cs)) \<and>
         entered (oc_count cs) (oid # list_of (oc_names oc)) (oc_index cs) (oc_index cs'))
     else r = None \<and> oc_store cs' = oc_store cs \<and> oc_count cs' = oc_count cs \<and> oc_list cs' = oc_list cs \<and>
       dict oir_key (oc_index cs') = dict oir_key (oc_index cs))"
proof -
  obtain rc cs' r where a: "oc_add sc atab cs oc user prev = Some (rc, cs', r)" "classes_ok 0 cs'"
    "if rc = 0 then r = Some (oc_count cs) \<and> oc_count cs' = Suc (oc_count cs) \<and> (\<forall>c<oc_count cs. oc_store cs' c = oc_store cs c) \<and>
       (\<exists>oid. map_option fst (expand_oid cs (oc_oid oc)) = Some oid \<and> built atab cs oc oid (oc_store cs' (oc_count cs)) \<and>
         entered (oc_count cs) (oid # list_of (oc_names oc)) (oc_index cs) (oc_index cs'))
     else r = None \<and> oc_store cs' = oc_store cs \<and> oc_count cs' = oc_count cs \<and> oc_list cs' = oc_list cs \<and>
       dict oir_key (oc_index cs') = dict oir_key (oc_index cs)"
    using oc_add_invariant [OF assms, of sc user prev] by blast
  with classes_ranked [OF a(2)] built_inherits [OF assms(2)] show ?thesis by (auto split: if_splits)
qed

section \<open>Small tables\<close>

definition no_class :: object_class where
  "no_class = \<lparr>soc_oid = None, soc_names = None, soc_obsolete = False, soc_sup_oids = None, soc_kind = LDAP_SCHEMA_ABSTRACT, soc_at_oids_must = None,
     soc_at_oids_may = None, soc_cname = [], soc_sups = None, soc_required = [], soc_allowed = [], soc_check = None, soc_oidmacro = None, soc_flags = 0\<rparr>"

definition no_classes :: class_schema where
  "no_classes = \<lparr>oc_store = (\<lambda>_. no_class), oc_count = 0, oc_index = Null, oc_list = [], oc_sys_tail = None, cr_index = Null, cr_list = [], om_list = [],
     at_check = (\<lambda>_. None), si_ad_structuralObjectClass = 14, si_oc_top = 0, si_oc_extensibleObject = 10, si_oc_subentry = 11,
     si_oc_collectiveAttributeSubentry = 12, si_oc_glue = 13\<rparr>"

definition class_def :: "string \<Rightarrow> string \<Rightarrow> oc_kind \<Rightarrow> string list option \<Rightarrow> string list option \<Rightarrow> ldap_objectclass" where
  "class_def oid name k sups must = \<lparr>oc_oid = oid, oc_names = Some [name], oc_obsolete = False, oc_sup_oids = sups, oc_kind = k, oc_at_oids_must = must,
     oc_at_oids_may = None\<rparr>"

definition top_def :: ldap_objectclass where
  "top_def = class_def ''2.5.6.0'' ''top'' LDAP_SCHEMA_ABSTRACT None (Some [''cn''])"

lemma no_classes_ok: "n < 44945570212852 \<Longrightarrow> classes_ok n no_classes"
  by (simp add: classes_ok_def no_classes_def tree_ok_def ordered_def dict_def sups_of_def no_class_def)

lemma one_entered_ok: "table_ok 0 one_entered"
proof -
  have "attr_key ''cn'' < attr_key ''2.5.4.3''" by code_simp
  then show ?thesis by (auto simp: table_ok_def one_entered_def ordered_def two_types_def names_in_def dict_def split: if_splits)
qed

theorem oc_add_correct_witness:
  "\<exists>cs'. oc_add octet_schema one_entered no_classes top_def True None = Some (0, cs', Some 0) \<and> classes_ok 0 cs' \<and> ranked cs' \<and>
     inherits one_entered no_classes (oc_store cs' 0) \<and> soc_required (oc_store cs' 0) = [0]"
proof -
  have "classes_ok (Suc (length (list_of (oc_names top_def)))) no_classes" by (rule no_classes_ok) (simp add: top_def_def class_def_def list_of_def)
  moreover have "oc_at_oids_must top_def \<noteq> Some []" "oc_names top_def \<noteq> Some []" by (simp_all add: top_def_def class_def_def)
  moreover have "map_option (\<lambda>(rc, cs, r). (rc, soc_required (oc_store cs 0))) (oc_add octet_schema one_entered no_classes top_def True None) = Some (0, [0])"
    by code_simp
  moreover have "oc_count no_classes = 0" by (simp add: no_classes_def)
  ultimately show ?thesis using oc_add_correct [OF one_entered_ok, of top_def no_classes octet_schema True None] by auto
qed

text \<open>Definitions added one after the other; \<open>None\<close> if one fails.\<close>

fun add_all :: "class_schema \<Rightarrow> ldap_objectclass list \<Rightarrow> class_schema option" where
  "add_all cs [] = Some cs"
| "add_all cs (oc # ocs) = do {
     (rc, cs, r) \<leftarrow> oc_add octet_schema one_entered cs oc True None;
     ensure (rc = 0);
     add_all cs ocs }"

text \<open>The implicit superclass of a structural class is not passed on: \<^verbatim>\<open>base\<close> requires what \<^verbatim>\<open>top\<close> requires, its subclass does not.\<close>

definition base_def :: ldap_objectclass where
  "base_def = class_def ''1.1'' ''base'' LDAP_SCHEMA_STRUCTURAL None None"

definition sub_def :: ldap_objectclass where
  "sub_def = class_def ''1.2'' ''sub'' LDAP_SCHEMA_STRUCTURAL (Some [''1.1'']) None"

lemma implicit_top_lost:
  "map_option (\<lambda>cs. (soc_required (oc_store cs 1), soc_required (oc_store cs 2), is_object_subclass cs 1 2)) (add_all no_classes [top_def, base_def, sub_def]) =
   Some ([0], [], Some True)"
  by code_simp

text \<open>A class that is deleted stays in the index under its OID, and its subclasses keep pointing to it. When it is defined again below one
  of them, the new definition takes the place of the old one and the two classes are superclasses of each other.\<close>

definition readded :: "class_schema option" where
  "readded = do {
     cs \<leftarrow> add_all no_classes [top_def, base_def, sub_def];
     cs \<leftarrow> oc_delete cs 1;
     add_all cs [class_def ''1.1'' ''base'' LDAP_SCHEMA_STRUCTURAL (Some [''1.2'']) None] }"

lemma readded_class_cycle: "map_option (\<lambda>cs. (soc_sups (oc_store cs 1), soc_sups (oc_store cs 2))) readded = Some (Some [2], Some [1])"
  by code_simp

text \<open>On such a cycle the recursion of \<^verbatim>\<open>is_object_subclass\<close> does not end.\<close>

lemma cycle_never_returns:
  assumes "soc_sups (oc_store cs a) = Some [b]" "soc_sups (oc_store cs b) = Some [a]" "x \<noteq> a" "x \<noteq> b"
  shows "subclass_of fuel cs x a = None \<and> subclass_of fuel cs x b = None"
  using assms by (induction fuel) (simp_all add: sups_of_def)

text \<open>A user class below an operational one is accepted, since the flags of the new class are asked instead of those of its superclass.\<close>

lemma operational_sup_accepted:
  "map_option fst (oc_add octet_schema one_entered (no_classes\<lparr>oc_store := (\<lambda>_. no_class)(0 := no_class\<lparr>soc_flags := SLAP_OC_OPERATIONAL\<rparr>), oc_count := 1,
     oc_index := Node Null 0 (oir 0 ''op'') Null\<rparr>) (class_def ''1.1'' ''base'' LDAP_SCHEMA_STRUCTURAL (Some [''op'']) None) True None) = Some 0"
  by code_simp

text \<open>A content rule whose name is taken is refused, but stays in the index under its OID.\<close>

definition rule_def :: "string \<Rightarrow> ldap_contentrule" where
  "rule_def oid = \<lparr>cr_oid = oid, cr_names = Some [''rule''], cr_obsolete = False, cr_oc_oids_aux = None, cr_at_oids_must = Some [''cn''], cr_at_oids_may = None,
     cr_at_oids_not = None\<rparr>"

lemma refused_rule_stays:
  "do { cs \<leftarrow> add_all no_classes [top_def, base_def, sub_def];
        (rc, cs) \<leftarrow> cr_add octet_schema one_entered cs (rule_def ''1.1'') True;
        (rc', cs) \<leftarrow> cr_add octet_schema one_entered cs (rule_def ''1.2'') True;
        Some (rc, rc', map_option scr_required (cr_find cs ''1.2''), map scr_oid (cr_list cs)) } =
   Some (0, SLAP_SCHERR_CR_DUP, Some [0], [''1.1''])"
  by code_simp

end
