(* ===== verification/Dn_Value.thy ===== *)
theory Dn_Value
  imports Prelude
begin

unbundle bit_operations_syntax

text \<open>
  The attribute values of distinguished names, \<^verbatim>\<open>libraries/libreldap/getdn.c\<close>: the readers of string
  values (LDAPv3, LDAPv2 plain and quoted, DCE) and of hexadecimal values, and the printers with
  their length functions. A pointer into a string is the rest of the string behind it; a byte read
  at the end is the terminating NUL. A helper returns \<open>ok x\<close> for the result 0 with its output,
  \<open>failed\<close> for a non-zero result and \<open>None\<close> where an assertion fails or memory outside the
  string is read.
\<close>

section \<open>Flags and characters\<close>

type_synonym dn_flags = "32 word"

definition LDAP_AVA_STRING :: dn_flags where "LDAP_AVA_STRING = 0x1"
definition LDAP_AVA_BINARY :: dn_flags where "LDAP_AVA_BINARY = 0x2"
definition LDAP_AVA_NONPRINTABLE :: dn_flags where "LDAP_AVA_NONPRINTABLE = 0x4"
definition LDAP_AVA_FREE_VALUE :: dn_flags where "LDAP_AVA_FREE_VALUE = 0x20"

definition LDAP_DN_FORMAT_LDAP :: dn_flags where "LDAP_DN_FORMAT_LDAP = 0x0"
definition LDAP_DN_FORMAT_LDAPV3 :: dn_flags where "LDAP_DN_FORMAT_LDAPV3 = 0x10"
definition LDAP_DN_FORMAT_LDAPV2 :: dn_flags where "LDAP_DN_FORMAT_LDAPV2 = 0x20"
definition LDAP_DN_FORMAT_DCE :: dn_flags where "LDAP_DN_FORMAT_DCE = 0x30"
definition LDAP_DN_FORMAT_UFN :: dn_flags where "LDAP_DN_FORMAT_UFN = 0x40"
definition LDAP_DN_FORMAT_AD_CANONICAL :: dn_flags where "LDAP_DN_FORMAT_AD_CANONICAL = 0x50"
definition LDAP_DN_FORMAT_LBER :: dn_flags where "LDAP_DN_FORMAT_LBER = 0xF0"
definition LDAP_DN_FORMAT_MASK :: dn_flags where "LDAP_DN_FORMAT_MASK = 0xF0"
definition LDAP_DN_PRETTY :: dn_flags where "LDAP_DN_PRETTY = 0x100"
definition LDAP_DN_SKIP :: dn_flags where "LDAP_DN_SKIP = 0x200"
definition LDAP_DN_P_NOLEADTRAILSPACES :: dn_flags where "LDAP_DN_P_NOLEADTRAILSPACES = 0x1000"
definition LDAP_DN_P_NOSPACEAFTERRDN :: dn_flags where "LDAP_DN_P_NOSPACEAFTERRDN = 0x2000"
definition LDAP_DN_PEDANTIC :: dn_flags where "LDAP_DN_PEDANTIC = 0xF000"

lemmas dn_flag_defs = LDAP_AVA_STRING_def LDAP_AVA_BINARY_def LDAP_AVA_NONPRINTABLE_def
  LDAP_AVA_FREE_VALUE_def LDAP_DN_FORMAT_LDAP_def LDAP_DN_FORMAT_LDAPV3_def
  LDAP_DN_FORMAT_LDAPV2_def LDAP_DN_FORMAT_DCE_def LDAP_DN_FORMAT_UFN_def
  LDAP_DN_FORMAT_AD_CANONICAL_def LDAP_DN_FORMAT_LBER_def LDAP_DN_FORMAT_MASK_def
  LDAP_DN_PRETTY_def LDAP_DN_SKIP_def LDAP_DN_P_NOLEADTRAILSPACES_def
  LDAP_DN_P_NOSPACEAFTERRDN_def LDAP_DN_PEDANTIC_def

abbreviation on :: "dn_flags \<Rightarrow> dn_flags \<Rightarrow> bool" where
  "on f m \<equiv> f AND m \<noteq> 0"

definition LDAP_DN_FORMAT :: "dn_flags \<Rightarrow> dn_flags" where
  "LDAP_DN_FORMAT f = f AND LDAP_DN_FORMAT_MASK"

definition LDAP_DN_LDAP :: "dn_flags \<Rightarrow> bool" where
  "LDAP_DN_LDAP f \<longleftrightarrow> LDAP_DN_FORMAT f = LDAP_DN_FORMAT_LDAP"

definition LDAP_DN_LDAPV3 :: "dn_flags \<Rightarrow> bool" where
  "LDAP_DN_LDAPV3 f \<longleftrightarrow> LDAP_DN_FORMAT f = LDAP_DN_FORMAT_LDAPV3"

definition LDAP_DN_LDAPV2 :: "dn_flags \<Rightarrow> bool" where
  "LDAP_DN_LDAPV2 f \<longleftrightarrow> LDAP_DN_FORMAT f = LDAP_DN_FORMAT_LDAPV2"

definition LDAP_DN_DCE :: "dn_flags \<Rightarrow> bool" where
  "LDAP_DN_DCE f \<longleftrightarrow> LDAP_DN_FORMAT f = LDAP_DN_FORMAT_DCE"

definition LDAP_DN_IS_PRETTY :: "dn_flags \<Rightarrow> bool" where
  "LDAP_DN_IS_PRETTY f \<longleftrightarrow> on f LDAP_DN_PRETTY"

definition LDAP_DN_ALLOW_ONE_SPACE :: "dn_flags \<Rightarrow> bool" where
  "LDAP_DN_ALLOW_ONE_SPACE f \<longleftrightarrow> LDAP_DN_LDAPV2 f \<or> \<not> on f LDAP_DN_P_NOSPACEAFTERRDN"

definition LDAP_DN_ALLOW_SPACES :: "dn_flags \<Rightarrow> bool" where
  "LDAP_DN_ALLOW_SPACES f \<longleftrightarrow> LDAP_DN_LDAPV2 f
     \<or> \<not> on f (LDAP_DN_P_NOLEADTRAILSPACES OR LDAP_DN_P_NOSPACEAFTERRDN)"

text \<open>The formats exclude each other.\<close>

lemma dn_format_excl:
  "LDAP_DN_LDAPV3 f \<Longrightarrow> \<not> LDAP_DN_LDAP f \<and> \<not> LDAP_DN_LDAPV2 f \<and> \<not> LDAP_DN_DCE f"
  "LDAP_DN_LDAP f \<Longrightarrow> \<not> LDAP_DN_LDAPV3 f \<and> \<not> LDAP_DN_LDAPV2 f \<and> \<not> LDAP_DN_DCE f"
  "LDAP_DN_LDAPV2 f \<Longrightarrow> \<not> LDAP_DN_LDAPV3 f \<and> \<not> LDAP_DN_LDAP f \<and> \<not> LDAP_DN_DCE f"
  "LDAP_DN_DCE f \<Longrightarrow> \<not> LDAP_DN_LDAPV3 f \<and> \<not> LDAP_DN_LDAPV2 f \<and> \<not> LDAP_DN_LDAP f"
  by (simp_all add: LDAP_DN_LDAPV3_def LDAP_DN_LDAPV2_def LDAP_DN_LDAP_def LDAP_DN_DCE_def dn_flag_defs)

definition LDAP_ALPHA :: "char \<Rightarrow> bool" where
  "LDAP_ALPHA c \<longleftrightarrow> (let n = code c in 97 \<le> n \<and> n \<le> 122 \<or> 65 \<le> n \<and> n \<le> 90)"

definition LDAP_LDH :: "char \<Rightarrow> bool" where
  "LDAP_LDH c \<longleftrightarrow> LDAP_ALPHA c \<or> isdigit c \<or> c = CHR ''-''"

definition LDAP_DN_ASCII_SPACE :: "char \<Rightarrow> bool" where
  "LDAP_DN_ASCII_SPACE c \<longleftrightarrow> c \<in> {CHR '' '', CHR 0x09, CHR 0x0A, CHR 0x0D}"

definition LDAP_DN_ASCII_PRINTABLE :: "char \<Rightarrow> bool" where
  "LDAP_DN_ASCII_PRINTABLE c \<longleftrightarrow> 32 \<le> code c \<and> code c \<le> 126"

definition LDAP_DN_ASCII_HEXDIGIT :: "char \<Rightarrow> bool" where
  "LDAP_DN_ASCII_HEXDIGIT c \<longleftrightarrow> isdigit c \<or> is_lower_hex c \<or> is_upper_hex c"

abbreviation BSLASH :: char where "BSLASH \<equiv> CHR 0x5C"
abbreviation QUOTE :: char where "QUOTE \<equiv> CHR 0x22"

definition LDAP_DN_RDN_SEP_V2 :: "char \<Rightarrow> bool" where
  "LDAP_DN_RDN_SEP_V2 c \<longleftrightarrow> c = CHR '','' \<or> c = CHR '';''"

definition LDAP_DN_VALUE_END :: "char \<Rightarrow> bool" where
  "LDAP_DN_VALUE_END c \<longleftrightarrow> c = CHR '','' \<or> c = CHR ''+''"

definition LDAP_DN_VALUE_END_V2 :: "char \<Rightarrow> bool" where
  "LDAP_DN_VALUE_END_V2 c \<longleftrightarrow> LDAP_DN_RDN_SEP_V2 c \<or> c = CHR ''+''"

definition LDAP_DN_VALUE_END_DCE :: "char \<Rightarrow> bool" where
  "LDAP_DN_VALUE_END_DCE c \<longleftrightarrow> c = CHR ''/'' \<or> c = CHR '',''"

definition LDAP_DN_NE :: "char \<Rightarrow> bool" where
  "LDAP_DN_NE c \<longleftrightarrow> LDAP_DN_RDN_SEP_V2 c \<or> c = CHR ''+'' \<or> c = QUOTE \<or> c = CHR ''<'' \<or> c = CHR ''>''"

definition LDAP_DN_NEEDESCAPE :: "char \<Rightarrow> bool" where
  "LDAP_DN_NEEDESCAPE c \<longleftrightarrow> c = BSLASH \<or> LDAP_DN_NE c"

definition LDAP_DN_SHOULDESCAPE :: "char \<Rightarrow> bool" where
  "LDAP_DN_SHOULDESCAPE c \<longleftrightarrow> c = CHR ''=''"

definition LDAP_DN_MAYESCAPE :: "char \<Rightarrow> bool" where
  "LDAP_DN_MAYESCAPE c \<longleftrightarrow> c = BSLASH \<or> LDAP_DN_NE c \<or> c = CHR ''='' \<or> LDAP_DN_ASCII_SPACE c
     \<or> c = CHR ''#''"

definition LDAP_DN_NEEDESCAPE_LEAD :: "char \<Rightarrow> bool" where
  "LDAP_DN_NEEDESCAPE_LEAD c \<longleftrightarrow> LDAP_DN_MAYESCAPE c"

definition LDAP_DN_NEEDESCAPE_TRAIL :: "char \<Rightarrow> bool" where
  "LDAP_DN_NEEDESCAPE_TRAIL c \<longleftrightarrow> LDAP_DN_ASCII_SPACE c \<or> LDAP_DN_NEEDESCAPE c"

definition LDAP_DN_V2_PAIR :: "char \<Rightarrow> bool" where
  "LDAP_DN_V2_PAIR c \<longleftrightarrow> LDAP_DN_RDN_SEP_V2 c \<or> c = CHR ''='' \<or> c = CHR ''+'' \<or> c = CHR ''<''
     \<or> c = CHR ''>'' \<or> c = CHR ''#'' \<or> c = BSLASH \<or> c = QUOTE"

definition LDAP_DN_NEEDESCAPE_DCE :: "char \<Rightarrow> bool" where
  "LDAP_DN_NEEDESCAPE_DCE c \<longleftrightarrow> LDAP_DN_VALUE_END_DCE c \<or> c = CHR ''=''"

definition LDAP_DN_NEEDESCAPE_AD :: "char \<Rightarrow> bool" where
  "LDAP_DN_NEEDESCAPE_AD c \<longleftrightarrow> c = CHR ''/'' \<or> c = CHR '','' \<or> c = CHR ''=''"

lemmas dn_char_defs = LDAP_DN_ASCII_SPACE_def LDAP_DN_RDN_SEP_V2_def LDAP_DN_VALUE_END_def
  LDAP_DN_VALUE_END_V2_def LDAP_DN_VALUE_END_DCE_def LDAP_DN_NE_def LDAP_DN_NEEDESCAPE_def
  LDAP_DN_SHOULDESCAPE_def LDAP_DN_MAYESCAPE_def LDAP_DN_NEEDESCAPE_LEAD_def
  LDAP_DN_NEEDESCAPE_TRAIL_def LDAP_DN_V2_PAIR_def LDAP_DN_NEEDESCAPE_DCE_def
  LDAP_DN_NEEDESCAPE_AD_def

section \<open>Hexadecimal pairs\<close>

text \<open>Both digits are read; a character that is no hexadecimal digit fails an assertion.\<close>

definition hexstr2bin :: "string \<Rightarrow> char option" where
  "hexstr2bin s = do {
     h \<leftarrow> xdigit (byte s 0);
     l \<leftarrow> xdigit (byte s 1);
     Some (char_of (16 * h + l)) }"

definition LDAP_DN_HEXPAIR :: "string \<Rightarrow> bool" where
  "LDAP_DN_HEXPAIR s \<longleftrightarrow> LDAP_DN_ASCII_HEXDIGIT (byte s 0) \<and> LDAP_DN_ASCII_HEXDIGIT (byte s 1)"

definition hexdig :: string where
  "hexdig = ''0123456789ABCDEF''"

definition byte2hexpair :: "char \<Rightarrow> string" where
  "byte2hexpair c = [hexdig ! nat (code c div 16 mod 16), hexdig ! nat (code c mod 16)]"

fun binval2hexstr :: "string \<Rightarrow> string" where
  "binval2hexstr [] = []"
| "binval2hexstr (c # cs) = byte2hexpair c @ binval2hexstr cs"

lemma hexdigit_xdigit: "LDAP_DN_ASCII_HEXDIGIT c \<longleftrightarrow> xdigit c \<noteq> None"
  by (auto simp: LDAP_DN_ASCII_HEXDIGIT_def xdigit_def)

lemma hexpair_bin: "LDAP_DN_HEXPAIR s \<longleftrightarrow> hexstr2bin s \<noteq> None"
  by (auto simp: LDAP_DN_HEXPAIR_def hexdigit_xdigit hexstr2bin_def bind_eq_None_conv)

lemma hexdig_digit:
  assumes "0 \<le> i" "i < 16"
  shows "xdigit (hexdig ! nat i) = Some i" "\<not> LDAP_DN_MAYESCAPE (hexdig ! nat i)"
    "hexdig ! nat i \<noteq> NUL" "\<not> LDAP_DN_ASCII_SPACE (hexdig ! nat i)"
    "\<not> LDAP_DN_VALUE_END_V2 (hexdig ! nat i)" "\<not> LDAP_DN_VALUE_END (hexdig ! nat i)"
proof -
  have all: "\<forall>i\<in>{0,1,2,3,4,5,6,7,8,9,10,11,12,13,14,15}. let c = hexdig ! nat i in
      xdigit c = Some i \<and> \<not> LDAP_DN_MAYESCAPE c \<and> c \<noteq> NUL \<and> \<not> LDAP_DN_ASCII_SPACE c
      \<and> \<not> LDAP_DN_VALUE_END_V2 c \<and> \<not> LDAP_DN_VALUE_END c"
    by code_simp
  show "xdigit (hexdig ! nat i) = Some i" "\<not> LDAP_DN_MAYESCAPE (hexdig ! nat i)"
    "hexdig ! nat i \<noteq> NUL" "\<not> LDAP_DN_ASCII_SPACE (hexdig ! nat i)"
    "\<not> LDAP_DN_VALUE_END_V2 (hexdig ! nat i)" "\<not> LDAP_DN_VALUE_END (hexdig ! nat i)"
    using bspec [OF all digit_range [OF assms]] unfolding Let_def by blast+
qed

lemma code_range: "0 \<le> code c \<and> code c < 256"
  by (simp add: code_def of_char_def)


lemma hexstr2bin_pair: "hexstr2bin (byte2hexpair c @ r) = Some c"
proof -
  have "0 \<le> code c div 16" "code c div 16 < 16"
    using code_range [of c] by linarith+
  then have "16 * (code c div 16 mod 16) + code c mod 16 = code c"
    by (simp add: mod_pos_pos_trivial)
  then show ?thesis
    by (simp add: hexstr2bin_def byte2hexpair_def byte_def hexdig_digit code_def)
qed

section \<open>Reading values\<close>

abbreviation ok :: "'a \<Rightarrow> 'a option option" where "ok x \<equiv> Some (Some x)"
abbreviation failed :: "'a option option" where "failed \<equiv> Some None"

text \<open>The first pass of \<^verbatim>\<open>str2strval\<close>: \<open>n\<close> bytes are left before the stop position, \<open>p\<close> bytes
  were read, \<open>esc\<close> of them belong to escapes, \<open>rf\<close> are the returned flags.\<close>

fun s2s_scan :: "dn_flags \<Rightarrow> string \<Rightarrow> nat \<Rightarrow> nat \<Rightarrow> nat \<Rightarrow> dn_flags \<Rightarrow> (nat \<times> nat \<times> dn_flags) option" where
  "s2s_scan f str 0 p esc rf = Some (p, esc, rf)"
| "s2s_scan f [] (Suc n) p esc rf = None"
| "s2s_scan f (c # cs) (Suc n) p esc rf =
     (if c = BSLASH then
        (case cs of [] \<Rightarrow> None
         | d # ds \<Rightarrow>
           if d = NUL then None
           else if LDAP_DN_MAYESCAPE d then s2s_scan f ds (n - 1) (p + 2) (esc + 1) rf
           else (case hexstr2bin (d # ds) of None \<Rightarrow> None
                 | Some b \<Rightarrow> s2s_scan f (drop 1 ds) (n - 2) (p + 3) (esc + 2)
                     (if LDAP_DN_ASCII_PRINTABLE b then rf else LDAP_AVA_NONPRINTABLE)))
      else if \<not> LDAP_DN_ASCII_PRINTABLE c then
        (if c = NUL then None else s2s_scan f cs n (p + 1) esc LDAP_AVA_NONPRINTABLE)
      else if LDAP_DN_LDAP f \<and> LDAP_DN_VALUE_END_V2 c \<or> LDAP_DN_LDAPV3 f \<and> LDAP_DN_VALUE_END c
        then Some (p, esc, rf)
      else if LDAP_DN_NEEDESCAPE c then None
      else s2s_scan f cs n (p + 1) esc rf)"

text \<open>The second pass writes \<open>n\<close> bytes; its impossible case is \<^verbatim>\<open>LDAP_BUG\<close>.\<close>

fun s2s_copy :: "string \<Rightarrow> nat \<Rightarrow> string option" where
  "s2s_copy str 0 = Some []"
| "s2s_copy [] (Suc n) = None"
| "s2s_copy (c # cs) (Suc n) =
     (if c = BSLASH then
        (case cs of [] \<Rightarrow> None
         | d # ds \<Rightarrow>
           if LDAP_DN_MAYESCAPE d then map_option ((#) d) (s2s_copy ds n)
           else do { b \<leftarrow> hexstr2bin (d # ds); v \<leftarrow> s2s_copy (drop 1 ds) n; Some (b # v) })
      else map_option ((#) c) (s2s_copy cs n))"

text \<open>\<^verbatim>\<open>for (; endPos > startPos + 1 && SPACE(endPos[-1]) && !ESCAPE(endPos[-2]); endPos--)\<close>\<close>

definition loose_space :: "string \<Rightarrow> nat \<Rightarrow> bool" where
  "loose_space str e \<longleftrightarrow> e > 1 \<and> LDAP_DN_ASCII_SPACE (byte str (e - 1)) \<and> byte str (e - 2) \<noteq> BSLASH"

fun strip_end :: "string \<Rightarrow> nat \<Rightarrow> nat" where
  "strip_end str 0 = 0"
| "strip_end str (Suc e) = (if loose_space str (Suc e) then strip_end str e else Suc e)"

definition str2strval :: "dn_flags \<Rightarrow> string \<Rightarrow> nat \<Rightarrow> dn_flags \<Rightarrow> (string \<times> nat \<times> dn_flags) option option" where
  "str2strval f str stoplen rf =
     (case s2s_scan f str stoplen 0 0 rf of
        None \<Rightarrow> failed
      | Some (p, esc, rf') \<Rightarrow>
        if loose_space str p \<and> on f LDAP_DN_PEDANTIC then failed
        else let e = (if loose_space str p then strip_end str (p - 1) else p); len = e - esc
             in if on f LDAP_DN_SKIP then ok ([], p, rf')
                else if esc = 0 then ok (take len str, p, rf')
                else map_option (\<lambda>v. Some (v, p, rf')) (s2s_copy str len))"

text \<open>The other readers drop a backslash without looking at what follows.\<close>

fun drop_escapes :: "string \<Rightarrow> nat \<Rightarrow> string" where
  "drop_escapes str 0 = []"
| "drop_escapes [] (Suc n) = NUL # drop_escapes [] n"
| "drop_escapes (c # cs) (Suc n) =
     (if c = BSLASH then byte cs 0 # drop_escapes (drop 1 cs) n else c # drop_escapes cs n)"

text \<open>What follows the first pass of a reader: \<open>e\<close> is the end of the value, \<open>p\<close> the place where
  reading goes on; \<^verbatim>\<open>assert(strlen(val->bv_val) == len)\<close>.\<close>

definition take_value :: "dn_flags \<Rightarrow> string \<Rightarrow> nat \<Rightarrow> nat \<Rightarrow> nat \<Rightarrow> (string \<times> nat) option option" where
  "take_value f str e esc p =
     (if on f LDAP_DN_SKIP then ok ([], p)
      else if esc = 0 then ok (take (e - esc) str, p)
      else let v = drop_escapes str (e - esc) in if NUL \<in> set v then None else ok (v, p))"

fun dce_scan :: "string \<Rightarrow> nat \<Rightarrow> nat \<Rightarrow> (nat \<times> nat) option" where
  "dce_scan [] p esc = Some (p, esc)"
| "dce_scan (c # cs) p esc =
     (if c = NUL then Some (p, esc)
      else if c = BSLASH then
        (case cs of [] \<Rightarrow> None
         | d # ds \<Rightarrow> if LDAP_DN_NEEDESCAPE_DCE d then dce_scan ds (p + 2) (esc + 1) else None)
      else if LDAP_DN_VALUE_END_DCE c then Some (p, esc)
      else dce_scan cs (p + 1) esc)"

definition DCE2strval :: "dn_flags \<Rightarrow> string \<Rightarrow> (string \<times> nat) option option" where
  "DCE2strval f str =
     (case dce_scan str 0 0 of
        None \<Rightarrow> failed
      | Some (p, esc) \<Rightarrow>
        if loose_space str p \<and> on f LDAP_DN_PEDANTIC then failed
        else take_value f str (if loose_space str p then strip_end str (p - 1) else p) esc p)"

fun ia5_scan :: "dn_flags \<Rightarrow> string \<Rightarrow> nat \<Rightarrow> nat \<Rightarrow> (nat \<times> nat) option" where
  "ia5_scan f [] p esc = Some (p, esc)"
| "ia5_scan f (c # cs) p esc =
     (if c = NUL then Some (p, esc)
      else if c = BSLASH then
        (case cs of [] \<Rightarrow> None
         | d # ds \<Rightarrow> if d = NUL \<or> \<not> LDAP_DN_NEEDESCAPE d \<and> on f LDAP_DN_PEDANTIC then None
                    else ia5_scan f ds (p + 2) (esc + 1))
      else if LDAP_DN_VALUE_END_V2 c then Some (p, esc)
      else ia5_scan f cs (p + 1) esc)"

definition IA52strval :: "dn_flags \<Rightarrow> string \<Rightarrow> (string \<times> nat) option option" where
  "IA52strval f str =
     (case ia5_scan f str 0 0 of
        None \<Rightarrow> failed
      | Some (p, esc) \<Rightarrow> take_value f str (strip_end str p) esc p)"

fun quoted_scan :: "dn_flags \<Rightarrow> string \<Rightarrow> nat \<Rightarrow> nat \<Rightarrow> (nat \<times> nat) option" where
  "quoted_scan f [] p esc = None"
| "quoted_scan f (c # cs) p esc =
     (if c = NUL then None
      else if c = BSLASH then
        (case cs of [] \<Rightarrow> None
         | d # ds \<Rightarrow> if d = NUL \<or> \<not> LDAP_DN_V2_PAIR d \<and> on f LDAP_DN_PEDANTIC then None
                    else quoted_scan f ds (p + 2) (esc + 1))
      else if c = QUOTE then Some (p, esc)
      else quoted_scan f cs (p + 1) esc)"

definition quotedIA52strval :: "dn_flags \<Rightarrow> string \<Rightarrow> (string \<times> nat) option option" where
  "quotedIA52strval f str =
     (case quoted_scan f str 0 0 of
        None \<Rightarrow> failed
      | Some (e, esc) \<Rightarrow>
        let p = e + 1 + length (takeWhile LDAP_DN_ASCII_SPACE (drop (e + 1) str))
        in if e < esc then None else take_value f str e esc p)"

definition hex_value_end :: "dn_flags \<Rightarrow> char \<Rightarrow> bool" where
  "hex_value_end f c =
     (if LDAP_DN_LDAPV3 f then LDAP_DN_VALUE_END c
      else if LDAP_DN_LDAP f \<or> LDAP_DN_LDAPV2 f then LDAP_DN_VALUE_END_V2 c
      else LDAP_DN_DCE f \<and> LDAP_DN_VALUE_END_DCE c)"

text \<open>The pass over the pairs: the end of the input that was read and, where a space ended the
  pairs, the place of that space.\<close>

fun hex_scan :: "dn_flags \<Rightarrow> string \<Rightarrow> nat \<Rightarrow> (nat \<times> nat option) option" where
  "hex_scan f [] p = Some (p, None)"
| "hex_scan f (c # cs) p =
     (if c = NUL \<or> hex_value_end f c then Some (p, None)
      else if LDAP_DN_ASCII_SPACE c then
        (if on f LDAP_DN_PEDANTIC then None
         else Some (p + length (takeWhile (\<lambda>c. c \<noteq> NUL \<and> \<not> hex_value_end f c) (c # cs)), Some p))
      else if LDAP_DN_HEXPAIR (c # cs) then hex_scan f (drop 1 cs) (p + 2)
      else None)"

fun hex_copy :: "string \<Rightarrow> nat \<Rightarrow> string option" where
  "hex_copy str 0 = Some []"
| "hex_copy str (Suc n) = do { c \<leftarrow> hexstr2bin str; v \<leftarrow> hex_copy (drop 2 str) n; Some (c # v) }"

definition hexstr2binval :: "dn_flags \<Rightarrow> string \<Rightarrow> (string \<times> nat) option option" where
  "hexstr2binval f str =
     (case hex_scan f str 0 of
        None \<Rightarrow> failed
      | Some (p, sp) \<Rightarrow>
        if on f LDAP_DN_SKIP then ok ([], p)
        else let e = (case sp of None \<Rightarrow> p | Some q \<Rightarrow> q); len = e div 2
             in if 2 * len \<noteq> e then None else map_option (\<lambda>v. Some (v, p)) (hex_copy str len))"

section \<open>Printing values\<close>

definition ldap_utf8_lentab :: "nat list" where
  "ldap_utf8_lentab = replicate 66 0 @ replicate 30 2 @ replicate 16 3 @ replicate 8 4
     @ [5, 5, 5, 5, 6, 6, 0, 0]"

definition ldap_utf8_mintab :: "int list" where
  "ldap_utf8_mintab = [0x20] @ replicate 15 0x80 @ [0x30] @ replicate 7 0x80
     @ [0x38, 0x80, 0x80, 0x80, 0x3c, 0x80, 0x00, 0x00]"

definition LDAP_UTF8_CHARLEN :: "char \<Rightarrow> nat" where
  "LDAP_UTF8_CHARLEN c = (if code c < 128 then 1 else ldap_utf8_lentab ! nat (code c - 128))"

definition LDAP_UTF8_CHARLEN2 :: "string \<Rightarrow> nat" where
  "LDAP_UTF8_CHARLEN2 s =
     (let l = LDAP_UTF8_CHARLEN (byte s 0)
      in if l < 3 \<or> ldap_utf8_mintab ! nat (code (byte s 0) mod 32) AND code (byte s 1) \<noteq> 0 then l else 0)"

definition utf8_cont :: "char \<Rightarrow> bool" where
  "utf8_cont c \<longleftrightarrow> code c AND 0xc0 = 0x80"

definition esc_char :: "bool \<Rightarrow> char \<Rightarrow> bool \<Rightarrow> bool" where
  "esc_char first c final \<longleftrightarrow> LDAP_DN_NEEDESCAPE c \<or> LDAP_DN_SHOULDESCAPE c
     \<or> first \<and> LDAP_DN_NEEDESCAPE_LEAD c \<or> final \<and> LDAP_DN_NEEDESCAPE_TRAIL c"

text \<open>The bytes that a character of length \<open>cl\<close> promises after its first.\<close>

definition conts_ok :: "string \<Rightarrow> nat \<Rightarrow> bool" where
  "conts_ok v cl = list_all (\<lambda>i. utf8_cont (byte v i)) [1..<cl]"

function vlen_loop :: "bool \<Rightarrow> bool \<Rightarrow> string \<Rightarrow> nat option" where
  "vlen_loop pretty first [] = Some 0"
| "vlen_loop pretty first (c # cs) =
     (if c = NUL then map_option ((+) 3) (vlen_loop pretty False cs)
      else let cl = LDAP_UTF8_CHARLEN2 (c # cs)
           in if cl = 0 then None
              else if cl > 1 then
                (if conts_ok (c # cs) cl
                 then map_option ((+) ((if pretty then 1 else 3) * cl))
                        (vlen_loop pretty False (drop cl (c # cs)))
                 else None)
              else map_option ((+) (if esc_char first c (cs = []) then 3 else 1)) (vlen_loop pretty False cs))"
  by pat_completeness auto
termination
  by (relation "measure (\<lambda>(_, _, v). length v)") auto

definition strval2strlen :: "string \<Rightarrow> dn_flags \<Rightarrow> nat option option" where
  "strval2strlen v f = Some (vlen_loop (LDAP_DN_IS_PRETTY f) True v)"

definition hexesc :: "char \<Rightarrow> string" where
  "hexesc c = BSLASH # byte2hexpair c"

text \<open>\<open>first\<close> is \<^verbatim>\<open>d == 0\<close>. A character that promises more bytes than there are is read past the
  end of the value.\<close>

function vstr_loop :: "bool \<Rightarrow> bool \<Rightarrow> string \<Rightarrow> string option" where
  "vstr_loop pretty first [] = Some []"
| "vstr_loop pretty first (c # cs) =
     (if c = NUL then map_option (append [BSLASH, CHR ''0'', CHR ''0'']) (vstr_loop pretty False cs)
      else let cl = LDAP_UTF8_CHARLEN c; v = c # cs
           in if cl > 1 \<and> \<not> pretty \<or> esc_char first c (cs = []) then
                (if cl = 0 \<or> length v < cl then None
                 else map_option (append (concat (map hexesc (take cl v)))) (vstr_loop pretty False (drop cl v)))
              else if cl > 1 then
                (if length v < cl then None
                 else map_option (append (take cl v)) (vstr_loop pretty False (drop cl v)))
              else map_option ((#) c) (vstr_loop pretty False cs))"
  by pat_completeness auto
termination
  by (relation "measure (\<lambda>(_, _, v). length v)") auto

declare vlen_loop.simps(2) [simp del] vstr_loop.simps(2) [simp del]

definition strval2str :: "string \<Rightarrow> dn_flags \<Rightarrow> string option option" where
  "strval2str v f = map_option Some (vstr_loop (LDAP_DN_IS_PRETTY f) True v)"

fun ia5_len :: "bool \<Rightarrow> string \<Rightarrow> nat" where
  "ia5_len first [] = 0"
| "ia5_len first (c # cs) =
     (if c = NUL then 0
      else (if esc_char first c (byte cs 0 = NUL) then 2 else 1) + ia5_len False cs)"

definition strval2IA5strlen :: "string \<Rightarrow> dn_flags \<Rightarrow> nat option option" where
  "strval2IA5strlen v f =
     (if v = [] then ok 0 else if on f LDAP_AVA_NONPRINTABLE then failed else ok (ia5_len True v))"

fun ia5_str :: "bool \<Rightarrow> string \<Rightarrow> string" where
  "ia5_str first [] = []"
| "ia5_str first (c # cs) = (if esc_char first c (cs = []) then [BSLASH, c] else [c]) @ ia5_str False cs"

definition strval2IA5str :: "string \<Rightarrow> dn_flags \<Rightarrow> string option option" where
  "strval2IA5str v f =
     (if v = [] then ok [] else if on f LDAP_AVA_NONPRINTABLE then failed else ok (ia5_str True v))"

fun dce_len :: "string \<Rightarrow> nat" where
  "dce_len [] = 0"
| "dce_len (c # cs) = (if c = NUL then 0 else (if LDAP_DN_NEEDESCAPE_DCE c then 2 else 1) + dce_len cs)"

definition strval2DCEstrlen :: "string \<Rightarrow> dn_flags \<Rightarrow> nat option option" where
  "strval2DCEstrlen v f =
     (if v = [] then ok 0 else if on f LDAP_AVA_NONPRINTABLE then failed else ok (dce_len v))"

fun dce_str :: "string \<Rightarrow> string" where
  "dce_str [] = []"
| "dce_str (c # cs) = (if LDAP_DN_NEEDESCAPE_DCE c then [BSLASH, c] else [c]) @ dce_str cs"

definition strval2DCEstr :: "string \<Rightarrow> dn_flags \<Rightarrow> string option option" where
  "strval2DCEstr v f =
     (if v = [] then ok [] else if on f LDAP_AVA_NONPRINTABLE then failed else ok (dce_str v))"

text \<open>The length for AD stops at a NUL and steps over the bytes a character promises; behind the
  terminator it reads outside the value.\<close>

function strval2ADstrlen :: "string \<Rightarrow> nat option option" where
  "strval2ADstrlen [] = ok 0"
| "strval2ADstrlen (c # cs) =
     (if c = NUL then ok 0
      else let cl = LDAP_UTF8_CHARLEN2 (c # cs)
           in if cl = 0 then failed
              else if length (c # cs) < cl then None
              else map_option (map_option ((+) (if cl = 1 \<and> LDAP_DN_NEEDESCAPE_AD c then 2 else cl)))
                     (strval2ADstrlen (drop cl (c # cs))))"
  by pat_completeness auto
termination
  by (relation "measure length") auto

function strval2ADstr :: "string \<Rightarrow> string option option" where
  "strval2ADstr [] = ok []"
| "strval2ADstr (c # cs) =
     (let cl = LDAP_UTF8_CHARLEN2 (c # cs); v = c # cs
      in if cl = 0 then failed
         else if length v + 1 < cl then None
         else map_option (map_option (append ((if cl = 1 \<and> LDAP_DN_NEEDESCAPE_AD c then [BSLASH] else [])
                            @ take cl (v @ [NUL]))))
                (strval2ADstr (drop cl v)))"
  by pat_completeness auto
termination
  by (relation "measure length") auto

declare strval2ADstrlen.simps(2) [simp del] strval2ADstr.simps(2) [simp del]


section \<open>The readers never hit an impossible case\<close>

text \<open>Between \<open>p\<close> and \<open>q\<close> lie \<open>esc' - esc\<close> bytes of escapes, and every copy from here that is
  not longer than the rest is good.\<close>

definition copies :: "(string \<Rightarrow> nat \<Rightarrow> bool) \<Rightarrow> string \<Rightarrow> nat \<Rightarrow> nat \<Rightarrow> nat \<Rightarrow> nat \<Rightarrow> bool" where
  "copies good str p esc q esc' \<longleftrightarrow> p \<le> q \<and> esc \<le> esc'
     \<and> (\<forall>m. m + (esc' - esc) \<le> q - p \<longrightarrow> good str m)"

lemma copies_end: "good str 0 \<Longrightarrow> copies good str p esc p esc"
  by (simp add: copies_def)

lemma copies_step:
  assumes "copies good r (p + Suc k) (esc + k) q esc'"
    and "\<And>m. good r m \<Longrightarrow> good str (Suc m)" and "good str 0"
  shows "copies good str p esc q esc'"
  unfolding copies_def
proof (intro conjI allI impI)
  show "p \<le> q" "esc \<le> esc'" using assms(1) by (simp_all add: copies_def)
  fix m assume m: "m + (esc' - esc) \<le> q - p"
  show "good str m"
  proof (cases m)
    case (Suc k')
    with m assms(1) have "k' + (esc' - (esc + k)) \<le> q - (p + Suc k)" by (simp add: copies_def)
    with assms(1) have "good r k'" unfolding copies_def by blast
    with assms(2) Suc show ?thesis by blast
  qed (simp add: assms(3))
qed

lemma copies_upto: "copies good str 0 0 q esc \<Longrightarrow> good str 0 \<Longrightarrow> e \<le> q \<Longrightarrow> good str (e - esc)"
  unfolding copies_def by (cases "e \<le> esc") auto

text \<open>Where the first pass of \<^verbatim>\<open>str2strval\<close> succeeds, the second finds every escape it was
  promised.\<close>

lemma s2s_scan_copies:
  "s2s_scan f str n p esc rf = Some (q, esc', rf') \<Longrightarrow> copies (\<lambda>r m. s2s_copy r m \<noteq> None) str p esc q esc'"
proof (induction f str n p esc rf rule: s2s_scan.induct)
  case (3 f c cs n p esc rf)
  let ?copies = "copies (\<lambda>r m. s2s_copy r m \<noteq> None)"
  show ?case
  proof (cases "c = BSLASH")
    case True
    with "3.prems" obtain d ds where cs: "cs = d # ds" and d: "d \<noteq> NUL"
      by (auto split: list.splits if_splits)
    show ?thesis
    proof (cases "LDAP_DN_MAYESCAPE d")
      case may: True
      with 3(1) "3.prems" True cs d have "?copies ds (p + Suc 1) (esc + 1) q esc'" by simp
      then show ?thesis by (rule copies_step) (use True cs may in auto)
    next
      case hex: False
      with "3.prems" True cs d obtain b where b: "hexstr2bin (d # ds) = Some b"
        by (auto split: option.splits)
      with 3(2) "3.prems" True cs d hex have "?copies (drop 1 ds) (p + Suc 2) (esc + 2) q esc'" by simp
      then show ?thesis by (rule copies_step) (use True cs hex b in auto)
    qed
  next
    case raw: False
    have "?copies cs (p + Suc 0) (esc + 0) q esc' \<Longrightarrow> ?thesis"
      by (erule copies_step) (use raw in auto)
    then show ?thesis
      using raw 3(3,4) "3.prems" copies_end by (auto split: if_splits)
  qed
qed (auto intro: copies_end)

lemma strip_end_le: "strip_end str e \<le> e"
  by (induction e) auto

lemma str2strval_returns: "str2strval f str n rf \<noteq> None"
proof (cases "s2s_scan f str n 0 0 rf")
  case (Some r)
  obtain q esc rf' where r: "r = (q, esc, rf')" by (cases r)
  note copy = copies_upto [OF s2s_scan_copies [OF Some [unfolded r]]]
  have "s2s_copy str (q - esc) \<noteq> None" by (rule copy) auto
  moreover have "s2s_copy str (strip_end str (q - 1) - esc) \<noteq> None"
    by (rule copy) (use strip_end_le [of str "q - 1"] in auto)
  ultimately have "s2s_copy str (q - esc) \<noteq> None" "s2s_copy str (strip_end str (q - 1) - esc) \<noteq> None"
    by blast+
  then show ?thesis
    using Some r by (auto simp: str2strval_def Let_def)
qed (simp add: str2strval_def)

text \<open>The same for the readers that drop backslashes: they copy no NUL.\<close>

abbreviation clean :: "string \<Rightarrow> nat \<Rightarrow> bool" where
  "clean r m \<equiv> NUL \<notin> set (drop_escapes r m)"

lemma clean_pair:
  "copies clean ds (p + 2) (esc + 1) q esc' \<Longrightarrow> d \<noteq> NUL \<Longrightarrow> copies clean (BSLASH # d # ds) p esc q esc'"
  using copies_step [of clean ds p 1 esc q esc' "BSLASH # d # ds"] by (auto simp: byte_def)

lemma clean_raw:
  "copies clean cs (p + 1) esc q esc' \<Longrightarrow> c \<noteq> NUL \<Longrightarrow> c \<noteq> BSLASH \<Longrightarrow> copies clean (c # cs) p esc q esc'"
  using copies_step [of clean cs p 0 esc q esc' "c # cs"] by auto

lemma dce_scan_copies: "dce_scan str p esc = Some (q, esc') \<Longrightarrow> copies clean str p esc q esc'"
  by (induction str p esc rule: dce_scan.induct)
    (auto intro: copies_end clean_pair clean_raw simp: dn_char_defs split: if_splits list.splits)

lemma ia5_scan_copies: "ia5_scan f str p esc = Some (q, esc') \<Longrightarrow> copies clean str p esc q esc'"
  by (induction f str p esc rule: ia5_scan.induct)
    (auto intro: copies_end clean_pair clean_raw split: if_splits list.splits)

lemma quoted_scan_copies: "quoted_scan f str p esc = Some (q, esc') \<Longrightarrow> copies clean str p esc q esc'"
  by (induction f str p esc rule: quoted_scan.induct)
    (auto intro: copies_end clean_pair clean_raw split: if_splits list.splits)

lemma quoted_scan_escapes: "quoted_scan f str p esc = Some (q, esc') \<Longrightarrow> esc' + p \<le> q + esc"
proof (induction f str p esc rule: quoted_scan.induct)
  case (2 f c cs p esc)
  show ?case
  proof (cases "c = BSLASH")
    case True
    with "2.prems" obtain d ds where "cs = d # ds" "quoted_scan f ds (p + 2) (esc + 1) = Some (q, esc')"
      "d \<noteq> NUL" "\<not> (\<not> LDAP_DN_V2_PAIR d \<and> on f LDAP_DN_PEDANTIC)"
      by (auto split: list.splits if_splits)
    with 2(1) True show ?thesis by simp
  next
    case False
    with 2(2) "2.prems" show ?thesis by (simp split: if_splits)
  qed
qed simp

lemma take_value_returns:
  "copies clean str 0 0 q esc \<Longrightarrow> e \<le> q \<Longrightarrow> take_value f str e esc p \<noteq> None"
  using copies_upto [of clean str q esc e] by (auto simp: take_value_def Let_def)

lemma DCE2strval_returns: "DCE2strval f str \<noteq> None"
  using take_value_returns [OF dce_scan_copies] strip_end_le [of str] le_diff_conv
  by (auto simp: DCE2strval_def split: option.split) (meson diff_le_self order_trans strip_end_le)+

lemma IA52strval_returns: "IA52strval f str \<noteq> None"
  using take_value_returns [OF ia5_scan_copies] strip_end_le [of str]
  by (auto simp: IA52strval_def split: option.split)

lemma quotedIA52strval_returns: "quotedIA52strval f str \<noteq> None"
  using take_value_returns [OF quoted_scan_copies] quoted_scan_escapes [of f str 0 0]
  by (fastforce simp: quotedIA52strval_def Let_def split: option.split)

text \<open>The pass over hexadecimal pairs ends at an even distance, and all pairs before are readable.\<close>

lemma hex_scan_pairs:
  "hex_scan f str p = Some (q, sp) \<Longrightarrow>
     \<exists>k. (case sp of None \<Rightarrow> q | Some x \<Rightarrow> x) = p + 2 * k \<and> hex_copy str k \<noteq> None"
proof (induction f str p rule: hex_scan.induct)
  case (2 f c cs p)
  show ?case
  proof (cases "c = NUL \<or> hex_value_end f c \<or> LDAP_DN_ASCII_SPACE c")
    case True
    with "2.prems" have "(case sp of None \<Rightarrow> q | Some x \<Rightarrow> x) = p" by (auto split: if_splits)
    then show ?thesis by (intro exI [of _ 0]) simp
  next
    case False
    with "2.prems" have pair: "LDAP_DN_HEXPAIR (c # cs)" and scan: "hex_scan f (drop 1 cs) (p + 2) = Some (q, sp)"
      by (auto split: if_splits)
    with False 2 obtain k where k: "(case sp of None \<Rightarrow> q | Some x \<Rightarrow> x) = p + 2 + 2 * k"
      and copy: "hex_copy (drop 1 cs) k \<noteq> None" by auto
    from pair obtain b where "hexstr2bin (c # cs) = Some b" by (auto simp: hexpair_bin)
    with copy have "hex_copy (c # cs) (Suc k) \<noteq> None" by auto
    with k show ?thesis by (intro exI [of _ "Suc k"]) simp
  qed
qed (auto intro: exI [of _ 0])

lemma hexstr2binval_returns: "hexstr2binval f str \<noteq> None"
  using hex_scan_pairs [of f str 0] by (fastforce simp: hexstr2binval_def Let_def split: option.split)

section \<open>Printed values read back\<close>

text \<open>\<open>s\<close> spells \<open>v\<close>: each byte stands for itself or as a hexadecimal escape.\<close>

definition self_char :: "char \<Rightarrow> bool" where
  "self_char c \<longleftrightarrow> c \<noteq> NUL \<and> \<not> LDAP_DN_NEEDESCAPE c"

inductive spells :: "string \<Rightarrow> string \<Rightarrow> bool" where
  nil: "spells [] []"
| self: "self_char c \<Longrightarrow> spells s v \<Longrightarrow> spells (c # s) (c # v)"
| hex: "spells s v \<Longrightarrow> spells (hexesc c @ s) (c # v)"

definition stops :: "string \<Rightarrow> bool" where
  "stops r \<longleftrightarrow> r = [] \<or> LDAP_DN_VALUE_END (hd r)"

lemma hexesc_shape: "\<exists>x y. hexesc c = [BSLASH, x, y] \<and> \<not> LDAP_DN_MAYESCAPE x \<and> x \<noteq> NUL
    \<and> \<not> LDAP_DN_ASCII_SPACE y \<and> hexstr2bin (x # y # r) = Some c"
proof -
  have "0 \<le> code c mod 16" "code c mod 16 < 16" "0 \<le> code c div 16 mod 16" "code c div 16 mod 16 < 16"
    by simp_all
  then show ?thesis
    using hexstr2bin_pair [of c r] by (auto simp: hexesc_def byte2hexpair_def hexdig_digit)
qed

lemma self_char_raw: "self_char c \<Longrightarrow> c \<noteq> BSLASH \<and> c \<noteq> NUL \<and> \<not> LDAP_DN_VALUE_END c
    \<and> \<not> LDAP_DN_VALUE_END_V2 c \<and> \<not> LDAP_DN_NEEDESCAPE c"
  by (auto simp: self_char_def dn_char_defs)

abbreviation np :: "dn_flags \<Rightarrow> string \<Rightarrow> dn_flags" where
  "np rf v \<equiv> (if list_all LDAP_DN_ASCII_PRINTABLE v then rf else LDAP_AVA_NONPRINTABLE)"

lemma spells_scan:
  assumes "spells s v" "stops r" "LDAP_DN_LDAPV3 f \<or> LDAP_DN_LDAP f"
  shows "s2s_scan f (s @ r) (length (s @ r)) p esc rf
    = Some (p + length s, esc + (length s - length v), np rf v) \<and> length v \<le> length s"
  using assms
proof (induction arbitrary: p esc rf)
  case nil
  have "LDAP_DN_ASCII_PRINTABLE (CHR '','')" "LDAP_DN_ASCII_PRINTABLE (CHR ''+'')" by code_simp+
  with nil show ?case by (cases r) (auto simp: stops_def dn_char_defs)
next
  case (self c s v)
  note raw = self_char_raw [OF \<open>self_char c\<close>]
  from self.IH [OF self.prems] raw show ?case by (simp add: Suc_diff_le)
next
  case (hex s v c)
  obtain x y where "hexesc c = [BSLASH, x, y]" "\<not> LDAP_DN_MAYESCAPE x" "x \<noteq> NUL"
    "hexstr2bin (x # y # s @ r) = Some c" using hexesc_shape [of c "s @ r"] by blast
  moreover have "s2s_scan f (s @ r) (length (s @ r)) p esc rf
      = Some (p + length s, esc + (length s - length v), np rf v)" for p esc rf
    using hex.IH [OF hex.prems] by blast
  moreover have "length v \<le> length s" using hex.IH [OF hex.prems] by blast
  ultimately show ?case by (simp add: Suc_diff_le)
qed

lemma spells_copy: "spells s v \<Longrightarrow> s2s_copy (s @ r) (length v) = Some v"
proof (induction rule: spells.induct)
  case (hex s v c)
  obtain x y where "hexesc c = [BSLASH, x, y]" "\<not> LDAP_DN_MAYESCAPE x"
    "hexstr2bin (x # y # s @ r) = Some c" using hexesc_shape [of c "s @ r"] by blast
  with hex show ?case by simp
qed (auto dest: self_char_raw)

lemma spells_same: "spells s v \<Longrightarrow> length s \<le> length v \<Longrightarrow> s = v"
proof -
  have len: "length v \<le> length s" if "spells s v" for s v
    using that by induction (simp_all add: hexesc_def byte2hexpair_def)
  show "spells s v \<Longrightarrow> length s \<le> length v \<Longrightarrow> s = v"
    by (induction rule: spells.induct) (auto simp: hexesc_def byte2hexpair_def dest: len)
qed

lemma str2strval_spells:
  assumes "spells s v" "s = [] \<or> \<not> LDAP_DN_ASCII_SPACE (last s)" "stops r"
    "LDAP_DN_LDAPV3 f \<or> LDAP_DN_LDAP f" "\<not> on f LDAP_DN_SKIP"
  shows "str2strval f (s @ r) (length (s @ r)) rf = ok (v, length s, np rf v)"
proof -
  have scan: "s2s_scan f (s @ r) (length (s @ r)) 0 0 rf = Some (length s, length s - length v, np rf v)"
    and le: "length v \<le> length s"
    using spells_scan [OF assms(1,3,4), of 0 0 rf] by auto
  have "\<not> loose_space (s @ r) (length s)"
    using assms(2) by (cases s rule: rev_cases) (auto simp: loose_space_def byte_def nth_append)
  moreover have "length s \<le> length v \<Longrightarrow> s = v" using spells_same [OF assms(1)] .
  ultimately show ?thesis
    using scan le assms(5) spells_copy [OF assms(1), of r] by (auto simp: str2strval_def Let_def)
qed


lemma spells_hex_app: "spells s v \<Longrightarrow> spells (concat (map hexesc bs) @ s) (bs @ v)"
  by (induction bs) (auto intro: spells.hex)

lemma spells_self_app: "list_all self_char bs \<Longrightarrow> spells s v \<Longrightarrow> spells (bs @ s) (bs @ v)"
  by (induction bs) (auto intro: spells.self)

lemma high_byte:
  "128 \<le> code c \<Longrightarrow> self_char c \<and> \<not> LDAP_DN_ASCII_SPACE c \<and> \<not> LDAP_DN_MAYESCAPE c \<and> \<not> esc_char a c b"
  by (auto simp: self_char_def esc_char_def dn_char_defs code_def)

lemma cont_high: "utf8_cont c \<Longrightarrow> 128 \<le> code c"
  using code_range [of c] AND_upper1 [of "code c" "0xc0"] by (simp add: utf8_cont_def)

lemma charlen2: "LDAP_UTF8_CHARLEN2 (c # cs) \<noteq> 0 \<Longrightarrow> LDAP_UTF8_CHARLEN2 (c # cs) = LDAP_UTF8_CHARLEN c"
  by (auto simp: LDAP_UTF8_CHARLEN2_def Let_def byte_def split: if_splits)

text \<open>A character whose continuation bytes were checked lies inside the value and has no ASCII
  byte.\<close>

lemma conts_high:
  assumes "conts_ok (c # cs) cl" "1 < cl" "LDAP_UTF8_CHARLEN c = cl"
  shows "cl \<le> length (c # cs)" "list_all (\<lambda>c. 128 \<le> code c) (take cl (c # cs))"
proof -
  have b: "128 \<le> code (byte (c # cs) i)" if "i < cl" for i
  proof (cases "i = 0")
    case True
    with assms(2,3) show ?thesis by (auto simp: byte_def LDAP_UTF8_CHARLEN_def split: if_splits)
  next
    case False
    with that assms(1) show ?thesis by (intro cont_high) (auto simp: conts_ok_def list_all_iff)
  qed
  have "cl - 1 < length (c # cs)"
  proof (rule ccontr)
    assume "\<not> ?thesis"
    with b [of "cl - 1"] assms(2) show False by (auto simp: byte_def code_def)
  qed
  then show le: "cl \<le> length (c # cs)" by simp
  show "list_all (\<lambda>c. 128 \<le> code c) (take cl (c # cs))"
    unfolding list_all_length
  proof (intro allI impI)
    fix i assume "i < length (take cl (c # cs))"
    with b [of i] show "128 \<le> code (take cl (c # cs) ! i)" by (auto simp: byte_def)
  qed
qed

lemma last_hexescs: "bs \<noteq> [] \<Longrightarrow> \<not> LDAP_DN_ASCII_SPACE (last (concat (map hexesc bs)))"
proof (cases bs rule: rev_cases)
  case (snoc ys y)
  then show ?thesis using hexesc_shape [of y "[]"] by (auto simp: last_append)
qed simp

text \<open>The specification of the printer: the length that is counted is the length that is written, the
  text spells the value, ends in no space and starts with nothing the parser treats specially.\<close>

definition prints :: "bool \<Rightarrow> string \<Rightarrow> string \<Rightarrow> bool" where
  "prints first v s \<longleftrightarrow> spells s v \<and> (s = [] \<or> \<not> LDAP_DN_ASCII_SPACE (last s))
     \<and> (first \<longrightarrow> s = [] \<or> hd s = BSLASH \<or> \<not> LDAP_DN_MAYESCAPE (hd s))"

lemma prints_hex:
  "prints False v s \<Longrightarrow> bs \<noteq> [] \<Longrightarrow> prints first (bs @ v) (concat (map hexesc bs) @ s)"
  using last_hexescs [of bs] spells_hex_app [of s v bs]
  by (cases bs) (auto simp: prints_def hexesc_def last_append split: if_splits)

lemma prints_self:
  "prints False v s \<Longrightarrow> bs \<noteq> [] \<Longrightarrow> list_all self_char bs \<Longrightarrow> s \<noteq> [] \<or> \<not> LDAP_DN_ASCII_SPACE (last bs) \<Longrightarrow>
    \<not> first \<or> \<not> LDAP_DN_MAYESCAPE (hd bs) \<Longrightarrow> prints first (bs @ v) (bs @ s)"
  using spells_self_app [of bs s v] by (cases bs) (auto simp: prints_def last_append split: if_splits)

lemma hexesc_NUL: "hexesc NUL = [BSLASH, CHR ''0'', CHR ''0'']"
  by code_simp

lemma length_hexescs: "length (concat (map hexesc bs)) = 3 * length bs"
  by (induction bs) (simp_all add: hexesc_def byte2hexpair_def)

lemma spells_Nil: "spells s v \<Longrightarrow> s = [] \<longleftrightarrow> v = []"
  by (cases rule: spells.cases) (auto simp: hexesc_def)

lemma vlen_vstr:
  "vlen_loop pretty first v = Some l \<Longrightarrow>
    \<exists>s. vstr_loop pretty first v = Some s \<and> length s = l \<and> prints first v s"
proof (induction pretty first v arbitrary: l rule: vlen_loop.induct)
  case (1 pretty first)
  then show ?case by (simp add: prints_def spells.nil)
next
  case (2 pretty first c cs)
  let ?cl = "LDAP_UTF8_CHARLEN2 (c # cs)"
  consider (nul) "c = NUL" | (wide) "c \<noteq> NUL" "?cl > 1" | (ascii) "c \<noteq> NUL" "?cl = 1"
    using "2.prems" by (cases "c = NUL"; cases ?cl) (auto simp: vlen_loop.simps(2) Let_def split: if_splits)
  then show ?case
  proof cases
    case nul
    with "2.prems" obtain k where k: "vlen_loop pretty False cs = Some k" "l = 3 + k"
      by (auto simp: vlen_loop.simps(2))
    from 2(1) [OF nul k(1)] obtain s where "vstr_loop pretty False cs = Some s" "length s = k" "prints False cs s"
      by blast
    with nul k prints_hex [of cs s "[NUL]" first] show ?thesis
      by (auto simp: vstr_loop.simps(2) hexesc_NUL)
  next
    case wide
    from "2.prems" wide have conts: "conts_ok (c # cs) ?cl"
      by (auto simp: vlen_loop.simps(2) Let_def split: if_splits)
    from wide charlen2 [of c cs] have cl: "LDAP_UTF8_CHARLEN c = ?cl" by simp
    note high = conts_high [OF conts wide(2) cl]
    from "2.prems" wide conts obtain k where k: "vlen_loop pretty False (drop ?cl (c # cs)) = Some k"
      "l = (if pretty then 1 else 3) * ?cl + k" by (auto simp: vlen_loop.simps(2) Let_def split: if_splits)
    from 2(2) [OF wide(1) refl _ wide(2) conts k(1)] wide obtain s
      where s: "vstr_loop pretty False (drop ?cl (c # cs)) = Some s" "length s = k" "prints False (drop ?cl (c # cs)) s"
      by auto
    let ?bs = "take ?cl (c # cs)"
    have bs: "?bs \<noteq> []" "length ?bs = ?cl" using wide high(1) by auto
    have c: "128 \<le> code c" using high(2) bs(1) by (cases ?cl) auto
    have selfs: "list_all self_char ?bs" using high(2) high_byte by (auto simp: list_all_iff)
    have "\<not> LDAP_DN_ASCII_SPACE (last ?bs)" "\<not> LDAP_DN_MAYESCAPE (hd ?bs)"
      using high(2) high_byte bs(1) last_in_set [OF bs(1)] hd_in_set [OF bs(1)] by (auto simp: list_all_iff simp del: take_Suc_Cons)
    then have "prints first (c # cs) (?bs @ s)" "prints first (c # cs) (concat (map hexesc ?bs) @ s)"
      using prints_self [OF s(3) bs(1) selfs] prints_hex [OF s(3) bs(1)] by (metis append_take_drop_id)+
    then show ?thesis
      using s k wide high(1) cl high_byte [OF c] bs(2)
      by (auto simp: vstr_loop.simps(2) Let_def length_hexescs)
  next
    case ascii
    then have cl: "LDAP_UTF8_CHARLEN c = 1" using charlen2 [of c cs] by simp
    from "2.prems" ascii obtain k where k: "vlen_loop pretty False cs = Some k"
      "l = (if esc_char first c (cs = []) then 3 else 1) + k" by (auto simp: vlen_loop.simps(2) Let_def)
    from 2(3) [OF ascii(1) refl _ _ k(1)] ascii obtain s
      where s: "vstr_loop pretty False cs = Some s" "length s = k" "prints False cs s" by auto
    have "prints first (c # cs) (hexesc c @ s)" using prints_hex [OF s(3), of "[c]"] by simp
    moreover have "prints first (c # cs) (c # s)" if "\<not> esc_char first c (cs = [])"
      using prints_self [OF s(3), of "[c]" first] that ascii(1) spells_Nil [of s cs] s(3)
      by (auto simp: prints_def esc_char_def self_char_def dn_char_defs)
    ultimately show ?thesis
      using s k ascii cl by (auto simp: vstr_loop.simps(2) Let_def hexesc_def byte2hexpair_def)
  qed
qed


lemma strval_prints:
  assumes "strval2strlen v g = ok l"
  shows "\<exists>s. strval2str v g = ok s \<and> length s = l \<and> prints True v s"
  using vlen_vstr [of "LDAP_DN_IS_PRETTY g" True v l] assms
  by (auto simp: strval2strlen_def strval2str_def)

text \<open>Hexadecimal values.\<close>

lemma hexpair_shape: "\<exists>x y. byte2hexpair c = [x, y] \<and> x \<noteq> NUL \<and> \<not> LDAP_DN_ASCII_SPACE x
    \<and> \<not> LDAP_DN_VALUE_END x \<and> \<not> LDAP_DN_VALUE_END_V2 x \<and> hexstr2bin (x # y # r) = Some c"
proof -
  have "0 \<le> code c mod 16" "code c mod 16 < 16" "0 \<le> code c div 16 mod 16" "code c div 16 mod 16 < 16"
    by simp_all
  then show ?thesis
    using hexstr2bin_pair [of c r] by (auto simp: byte2hexpair_def hexdig_digit)
qed

lemma length_binval2hexstr: "length (binval2hexstr v) = 2 * length v"
  by (induction v) (simp_all add: byte2hexpair_def)

lemma hex_scan_binval:
  assumes "stops r" "LDAP_DN_LDAPV3 f \<or> LDAP_DN_LDAP f"
  shows "hex_scan f (binval2hexstr v @ r) p = Some (p + 2 * length v, None)"
proof (induction v arbitrary: p)
  case Nil
  have "hex_value_end f c" if "LDAP_DN_VALUE_END c" for c
    using that assms(2) by (auto simp: hex_value_end_def dn_char_defs)
  with assms(1) show ?case by (cases r) (auto simp: stops_def)
next
  case (Cons c v)
  obtain x y where xy: "byte2hexpair c = [x, y]" "x \<noteq> NUL" "\<not> LDAP_DN_ASCII_SPACE x"
      "\<not> LDAP_DN_VALUE_END x" "\<not> LDAP_DN_VALUE_END_V2 x" "hexstr2bin (x # y # binval2hexstr v @ r) = Some c"
    using hexpair_shape by blast
  have "\<not> hex_value_end f x" using xy(4,5) assms(2) by (auto simp: hex_value_end_def)
  with Cons xy show ?case by (simp add: hexpair_bin)
qed

lemma hex_copy_binval: "hex_copy (binval2hexstr v @ r) (length v) = Some v"
proof (induction v)
  case (Cons c v)
  obtain x y where "byte2hexpair c = [x, y]" "hexstr2bin (x # y # binval2hexstr v @ r) = Some c"
    using hexpair_shape by blast
  with Cons show ?case by simp
qed simp

lemma hexstr2binval_binval:
  assumes "stops r" "LDAP_DN_LDAPV3 f \<or> LDAP_DN_LDAP f" "\<not> on f LDAP_DN_SKIP"
  shows "hexstr2binval f (binval2hexstr v @ r) = ok (v, length (binval2hexstr v))"
  using hex_scan_binval [OF assms(1,2), of v 0] assms(3)
  by (simp add: hexstr2binval_def hex_copy_binval length_binval2hexstr)

section \<open>Deviations of the readers and printers\<close>

text \<open>An unescaped trailing space is kept when the character before it is an escaped backslash,
  although the value is not allowed to end so in pedantic mode and is stripped otherwise.\<close>

lemma loose_space_stays:
  "str2strval (LDAP_DN_FORMAT_LDAPV3 OR LDAP_DN_PEDANTIC) (''a'' @ [BSLASH, BSLASH, CHR '' '']) 4 LDAP_AVA_STRING
     = ok (''a'' @ [BSLASH, CHR '' ''], 4, LDAP_AVA_STRING)"
  "str2strval LDAP_DN_FORMAT_LDAPV3 ''ab '' 3 LDAP_AVA_STRING = ok (''ab'', 3, LDAP_AVA_STRING)"
  by code_simp+

text \<open>After a space in a hexadecimal value everything up to the next separator is skipped unread.\<close>

lemma hex_value_ignores_text:
  "hexstr2binval LDAP_DN_FORMAT_LDAPV3 ''41 (not hex)'' = ok (''A'', 12)"
  by code_simp

text \<open>The length of a value for the AD format stops at a NUL, the printer does not.\<close>

lemma ad_length_misses_NUL:
  "strval2ADstrlen (''a'' @ [NUL] @ ''bcdefgh'') = ok 1"
  "strval2ADstr (''a'' @ [NUL] @ ''bcdefgh'') = ok (''a'' @ [NUL] @ ''bcdefgh'')"
  by code_simp+

end
