(* ===== verification/Dn_Text.thy ===== *)
theory Dn_Text
  imports Dn_Value
begin

text \<open>
  Distinguished names as text, \<^verbatim>\<open>libraries/libreldap/getdn.c\<close>: the parser of relative and full names
  with its state machine, the printers of the five formats and the functions composed of them. A name
  is a list of RDNs, an RDN a non-empty list of attribute value assertions; an empty list is the
  NULL pointer. The capacity of the buffers the printers allocate is part of the model: what is
  written behind it, and a result that contains bytes never written, is the outcome \<open>None\<close>.
\<close>

section \<open>Names\<close>

record ldapava =
  la_attr :: string
  la_value :: string
  la_flags :: dn_flags

type_synonym rdn = "ldapava list"
type_synonym dn = "rdn list"

definition LDAP_ENCODING_ERROR :: int where "LDAP_ENCODING_ERROR = -3"
definition LDAP_DECODING_ERROR :: int where "LDAP_DECODING_ERROR = -4"
definition LDAP_PARAM_ERROR :: int where "LDAP_PARAM_ERROR = -9"

definition ldapava_new :: "string \<Rightarrow> string \<Rightarrow> dn_flags \<Rightarrow> ldapava" where
  "ldapava_new attr val flags =
     \<lparr>la_attr = attr, la_value = val, la_flags = flags OR LDAP_AVA_FREE_VALUE\<rparr>"

section \<open>Parsing\<close>

text \<open>\<^verbatim>\<open>ldap_int_parse_numericoid\<close> with \<^verbatim>\<open>LDAP_SCHEMA_SKIP\<close>: the number of bytes of the OID.\<close>

function oid_scan :: "string \<Rightarrow> nat \<Rightarrow> nat option" where
  "oid_scan [] p = Some p"
| "oid_scan (c # cs) p =
     (if c = NUL then Some p
      else if \<not> isdigit c then None
      else let n = length (takeWhile isdigit cs)
           in if byte cs n = CHR ''.'' then oid_scan (drop (n + 1) cs) (p + n + 2) else Some (p + n + 1))"
  by pat_completeness auto
termination
  by (relation "measure (\<lambda>(s, _). length s)") auto

declare oid_scan.simps(2) [simp del]

datatype dn_state = B4AVA | B4OIDATTRTYPE | B4STRINGATTRTYPE | B4AVAEQUALS | B4STRINGVALUE
  | B4IA5VALUEQUOTED | B4IA5VALUE | B4BINARYVALUE | GOTAVA

record rdn_parser =
  state :: dn_state
  pos :: nat
  attrType :: string
  attrTypeEncoding :: dn_flags
  attrValue :: string
  attrValueEncoding :: dn_flags
  tmpRDN :: rdn

text \<open>One round of the loop either stops with a result code, the RDN and the place behind it, or goes
  on.\<close>

datatype rdn_out = Stop int rdn nat | Go rdn_parser

definition parsing_error :: "rdn_out option" where
  "parsing_error = Some (Stop LDAP_DECODING_ERROR [] 0)"

definition skip_spaces :: "string \<Rightarrow> nat \<Rightarrow> nat" where
  "skip_spaces str p = p + length (takeWhile LDAP_DN_ASCII_SPACE (drop p str))"

definition oid_prefix :: "dn_flags \<Rightarrow> string \<Rightarrow> bool" where
  "oid_prefix f s =
     (if on f LDAP_DN_PEDANTIC then s = ''OID.'' \<or> s = ''oid.'' else strcaseeq s ''oid.'')"

definition b4ava :: "dn_flags \<Rightarrow> string \<Rightarrow> rdn_parser \<Rightarrow> rdn_out option" where
  "b4ava f str s =
     (let one = LDAP_DN_ASCII_SPACE (byte str (pos s));
          p1 = (if one then pos s + 1 else pos s);
          more = LDAP_DN_ASCII_SPACE (byte str p1);
          p2 = (if more then skip_spaces str p1 else p1)
      in if one \<and> \<not> LDAP_DN_ALLOW_ONE_SPACE f then parsing_error
         else if more \<and> \<not> LDAP_DN_ALLOW_SPACES f then parsing_error
         else if more \<and> byte str p2 = NUL then parsing_error
         else if isdigit (byte str p2) then Some (Go (s\<lparr>state := B4OIDATTRTYPE, pos := p2\<rparr>))
         else if \<not> LDAP_ALPHA (byte str p2) then parsing_error
         else if LDAP_DN_LDAPV2 f \<and> oid_prefix f (take 4 (drop p2 str))
           then Some (Go (s\<lparr>state := B4OIDATTRTYPE, pos := p2 + 4\<rparr>))
         else Some (Go (s\<lparr>state := B4STRINGATTRTYPE, pos := p2\<rparr>)))"

definition b4oid :: "string \<Rightarrow> rdn_parser \<Rightarrow> rdn_out option" where
  "b4oid str s =
     (case oid_scan (drop (pos s) str) 0 of
        None \<Rightarrow> parsing_error
      | Some n \<Rightarrow> Some (Go (s\<lparr>state := B4AVAEQUALS, pos := pos s + n,
          attrType := take n (drop (pos s) str), attrTypeEncoding := LDAP_AVA_BINARY\<rparr>)))"

definition b4string :: "dn_flags \<Rightarrow> string \<Rightarrow> rdn_parser \<Rightarrow> rdn_out option" where
  "b4string f str s =
     (let q = pos s + 1 + length (takeWhile LDAP_LDH (drop (pos s + 1) str));
          lang = (byte str q = CHR '';'');
          r = (if lang then q + length (takeWhile (\<lambda>c. LDAP_LDH c \<or> c = CHR '';'') (drop q str)) else q);
          s' = s\<lparr>state := B4AVAEQUALS, pos := r, attrTypeEncoding := LDAP_AVA_STRING\<rparr>
      in if lang \<and> on f LDAP_DN_PEDANTIC then parsing_error
         else if on f LDAP_DN_SKIP then Some (Go s')
         else Some (Go (s'\<lparr>attrType := take (q - pos s) (drop (pos s) str)\<rparr>)))"

definition b4equals :: "dn_flags \<Rightarrow> string \<Rightarrow> rdn_parser \<Rightarrow> rdn_out option" where
  "b4equals f str s =
     (let sp1 = LDAP_DN_ASCII_SPACE (byte str (pos s));
          p1 = skip_spaces str (pos s);
          sp2 = LDAP_DN_ASCII_SPACE (byte str (p1 + 1));
          p = skip_spaces str (p1 + 1);
          v = s\<lparr>pos := p, attrValueEncoding := LDAP_AVA_STRING\<rparr>
      in if sp1 \<and> \<not> LDAP_DN_ALLOW_SPACES f then parsing_error
         else if byte str p1 \<noteq> CHR ''='' then parsing_error
         else if sp2 \<and> \<not> LDAP_DN_ALLOW_SPACES f then parsing_error
         else if byte str p = CHR ''#''
           then Some (Go (s\<lparr>state := B4BINARYVALUE, pos := p + 1, attrValueEncoding := LDAP_AVA_BINARY\<rparr>))
         else if on f LDAP_DN_PEDANTIC \<and> attrTypeEncoding s = LDAP_AVA_BINARY then parsing_error
         else if (LDAP_DN_LDAPV2 f \<or> LDAP_DN_LDAP f) \<and> byte str p = QUOTE
           then Some (Go (v\<lparr>state := B4IA5VALUEQUOTED, pos := p + 1\<rparr>))
         else if LDAP_DN_LDAPV2 f then Some (Go (v\<lparr>state := B4IA5VALUE\<rparr>))
         else if byte str p = NUL then Some (Go (v\<lparr>state := GOTAVA\<rparr>))
         else Some (Go (v\<lparr>state := B4STRINGVALUE\<rparr>)))"

text \<open>A value was read, up to \<open>n\<close> bytes behind the current place.\<close>

definition got_value :: "rdn_parser \<Rightarrow> (string \<times> nat) option option \<Rightarrow> rdn_out option" where
  "got_value s r =
     (case r of None \<Rightarrow> None
      | Some None \<Rightarrow> parsing_error
      | Some (Some (v, n)) \<Rightarrow> Some (Go (s\<lparr>state := GOTAVA, pos := pos s + n, attrValue := v\<rparr>)))"

definition b4value :: "dn_flags \<Rightarrow> string \<Rightarrow> nat \<Rightarrow> rdn_parser \<Rightarrow> rdn_out option" where
  "b4value f str stoplen s =
     (if LDAP_DN_LDAP f \<or> LDAP_DN_LDAPV3 f then
        (case str2strval f (drop (pos s) str) (stoplen - pos s) (attrValueEncoding s) of
           None \<Rightarrow> None
         | Some None \<Rightarrow> parsing_error
         | Some (Some (v, n, rf)) \<Rightarrow> Some (Go (s\<lparr>state := GOTAVA, pos := pos s + n,
             attrValue := v, attrValueEncoding := rf\<rparr>)))
      else if LDAP_DN_DCE f then got_value s (DCE2strval f (drop (pos s) str))
      else None)"

definition gotava :: "dn_flags \<Rightarrow> string \<Rightarrow> rdn_parser \<Rightarrow> rdn_out option" where
  "gotava f str s =
     (let t = (if on f LDAP_DN_SKIP then s
               else s\<lparr>tmpRDN := tmpRDN s @ [ldapava_new (attrType s) (attrValue s) (attrValueEncoding s)],
                      attrValue := []\<rparr>);
          sep = (if LDAP_DN_DCE f then CHR '','' else CHR ''+'')
      in if byte str (pos s) \<noteq> sep then Some (Stop LDAP_SUCCESS (tmpRDN t) (pos s))
         else Some (Go (t\<lparr>state := B4AVA, pos := pos s + 1, attrType := [], attrValue := []\<rparr>)))"

definition rdn_step :: "dn_flags \<Rightarrow> string \<Rightarrow> nat \<Rightarrow> rdn_parser \<Rightarrow> rdn_out option" where
  "rdn_step f str stoplen s =
     (case state s of
        B4AVA \<Rightarrow> b4ava f str s
      | B4OIDATTRTYPE \<Rightarrow> b4oid str s
      | B4STRINGATTRTYPE \<Rightarrow> b4string f str s
      | B4AVAEQUALS \<Rightarrow> b4equals f str s
      | B4BINARYVALUE \<Rightarrow> got_value s (hexstr2binval f (drop (pos s) str))
      | B4STRINGVALUE \<Rightarrow> b4value f str stoplen s
      | B4IA5VALUE \<Rightarrow> got_value s (IA52strval f (drop (pos s) str))
      | B4IA5VALUEQUOTED \<Rightarrow> got_value s (quotedIA52strval f (drop (pos s) str))
      | GOTAVA \<Rightarrow> gotava f str s)"

text \<open>Every round moves forward in the text or in the order of the states.\<close>

fun state_rank :: "dn_state \<Rightarrow> nat" where
  "state_rank B4AVA = 4" | "state_rank B4OIDATTRTYPE = 3" | "state_rank B4STRINGATTRTYPE = 3"
| "state_rank B4AVAEQUALS = 2" | "state_rank GOTAVA = 0" | "state_rank _ = 1"

definition parse_measure :: "string \<Rightarrow> rdn_parser \<Rightarrow> nat" where
  "parse_measure str s = 5 * (length str - pos s) + state_rank (state s)"

lemma byte_in: "byte s i \<noteq> NUL \<Longrightarrow> i < length s"
  by (auto simp: byte_def split: if_splits)

lemma rdn_step_forward:
  assumes "rdn_step f str n s = Some (Go s')"
  shows "pos s \<le> pos s' \<and> state_rank (state s') < state_rank (state s) \<or> pos s < length str \<and> pos s' = pos s + 1"
proof (cases "state s")
  case GOTAVA
  with assms have "byte str (pos s) \<noteq> NUL \<and> pos s' = pos s + 1"
    by (auto simp: rdn_step_def gotava_def Let_def split: if_splits)
  then show ?thesis using byte_in by blast
qed (use assms in \<open>auto simp: rdn_step_def b4ava_def b4oid_def b4string_def b4equals_def got_value_def b4value_def
       parsing_error_def skip_spaces_def Let_def split: if_splits option.splits\<close>)

lemma rdn_step_measure:
  "rdn_step f str n s = Some (Go s') \<Longrightarrow> parse_measure str s' < parse_measure str s"
  using rdn_step_forward [of f str n s s'] diff_le_mono2 [of "pos s" "pos s'" "length str"]
  by (cases "state s'"; auto simp: parse_measure_def)

function rdn_run :: "dn_flags \<Rightarrow> string \<Rightarrow> nat \<Rightarrow> rdn_parser \<Rightarrow> (int \<times> rdn \<times> nat) option" where
  "rdn_run f str stoplen s =
     (if byte str (pos s) \<noteq> NUL \<or> state s = GOTAVA then
        (case rdn_step f str stoplen s of
           None \<Rightarrow> None
         | Some (Stop rc r n) \<Rightarrow> Some (rc, r, n)
         | Some (Go s') \<Rightarrow> rdn_run f str stoplen s')
      else Some (LDAP_DECODING_ERROR, [], pos s))"
  by pat_completeness auto
termination
  by (relation "measure (\<lambda>(f, str, n, s). parse_measure str s)") (auto intro: rdn_step_measure)

declare rdn_run.simps [simp del]


definition parse_format :: "dn_flags \<Rightarrow> bool" where
  "parse_format f \<longleftrightarrow> LDAP_DN_LDAP f \<or> LDAP_DN_LDAPV3 f \<or> LDAP_DN_LDAPV2 f \<or> LDAP_DN_DCE f"

definition rdn_start :: rdn_parser where
  "rdn_start = \<lparr>state = B4AVA, pos = 0, attrType = [], attrTypeEncoding = LDAP_AVA_STRING,
     attrValue = [], attrValueEncoding = LDAP_AVA_STRING, tmpRDN = []\<rparr>"

text \<open>The result code, the RDN and the place behind it. A berval of length 0 fails an assertion; one
  that is longer than its text up to the first NUL contains a NUL.\<close>

definition ldap_bv2rdn_x :: "dn_flags \<Rightarrow> berval \<Rightarrow> (int \<times> rdn \<times> nat) option" where
  "ldap_bv2rdn_x f b =
     (if bv_len b = 0 then None
      else if \<not> parse_format f then Some (LDAP_PARAM_ERROR, [], 0)
      else if length (bv_val b) < bv_len b then Some (LDAP_DECODING_ERROR, [], 0)
      else rdn_run f (bv_val b) (bv_len b) rdn_start)"

definition ldap_str2rdn :: "dn_flags \<Rightarrow> string \<Rightarrow> (int \<times> rdn \<times> nat) option" where
  "ldap_str2rdn f str = ldap_bv2rdn_x f (bv str)"

definition rdn_sep_ok :: "dn_flags \<Rightarrow> char \<Rightarrow> bool" where
  "rdn_sep_ok f c =
     (if LDAP_DN_LDAPV3 f then c = CHR '',''
      else if LDAP_DN_LDAP f \<or> LDAP_DN_LDAPV2 f then LDAP_DN_RDN_SEP_V2 c
      else LDAP_DN_DCE f \<longrightarrow> c = CHR ''/'')"

text \<open>The loop over the RDNs of \<open>str\<close>; \<open>e\<close> is the place of \<^verbatim>\<open>end\<close>. A text that ends in a separator
  leaves the loop and is an error.\<close>

function dn_run :: "dn_flags \<Rightarrow> string \<Rightarrow> nat \<Rightarrow> nat \<Rightarrow> dn \<Rightarrow> (int \<times> dn) option" where
  "dn_run f str e p acc =
     (if p < e then
        (case ldap_bv2rdn_x f \<lparr>bv_len = e - p, bv_val = drop p str\<rparr> of
           None \<Rightarrow> None
         | Some (rc, r, n) \<Rightarrow>
           let q = p + n; last = (e \<le> q \<or> byte str q = NUL)
           in if rc \<noteq> LDAP_SUCCESS then Some (LDAP_DECODING_ERROR, [])
              else if \<not> last \<and> \<not> rdn_sep_ok f (byte str q) then Some (LDAP_DECODING_ERROR, [])
              else if last then Some (LDAP_SUCCESS, if LDAP_DN_DCE f then rev (acc @ [r]) else acc @ [r])
              else dn_run f str e (q + 1) (acc @ [r]))
      else Some (LDAP_DECODING_ERROR, []))"
  by pat_completeness auto
termination
  by (relation "measure (\<lambda>(f, str, e, p, acc). e - p)") auto

declare dn_run.simps [simp del]

definition ldap_bv2dn_x :: "dn_flags \<Rightarrow> berval \<Rightarrow> (int \<times> dn) option" where
  "ldap_bv2dn_x f b =
     (let str = bv_val b; len = bv_len b; bracket = (LDAP_DN_LDAPV2 f \<and> byte str 0 = CHR ''<'');
          str' = (if bracket then drop 1 str else str); len' = (if bracket then len - 2 else len)
      in if \<not> parse_format f then Some (LDAP_PARAM_ERROR, [])
         else if bracket \<and> (len < 2 \<or> byte str (len - 1) \<noteq> CHR ''>'') then Some (LDAP_DECODING_ERROR, [])
         else if len' = 0 then Some (LDAP_SUCCESS, [])
         else if length str' < len' then Some (LDAP_DECODING_ERROR, [])
         else if LDAP_DN_DCE f \<and> byte str' 0 \<noteq> CHR ''/'' then Some (LDAP_DECODING_ERROR, [])
         else dn_run f str' len' (if LDAP_DN_DCE f then 1 else 0) [])"

definition ldap_str2dn :: "dn_flags \<Rightarrow> string \<Rightarrow> (int \<times> dn) option" where
  "ldap_str2dn f str = ldap_bv2dn_x f (bv str)"

section \<open>Printing\<close>

text \<open>The length functions and the printers run over the assertions of an RDN and stop at the first
  that fails.\<close>

definition ret_bind :: "'a option option \<Rightarrow> ('a \<Rightarrow> 'b option option) \<Rightarrow> 'b option option" where
  "ret_bind m k = (case m of None \<Rightarrow> None | Some None \<Rightarrow> failed | Some (Some x) \<Rightarrow> k x)"

definition ava_len :: "(string \<Rightarrow> dn_flags \<Rightarrow> nat option option) \<Rightarrow> dn_flags \<Rightarrow> ldapava \<Rightarrow> nat option option" where
  "ava_len s2l f ava =
     (if on (la_flags ava) LDAP_AVA_BINARY then ok (1 + 2 * length (la_value ava))
      else s2l (la_value ava) (f OR la_flags ava))"

definition ava_str :: "(string \<Rightarrow> dn_flags \<Rightarrow> string option option) \<Rightarrow> dn_flags \<Rightarrow> ldapava \<Rightarrow> string option option" where
  "ava_str s2s f ava =
     (if on (la_flags ava) LDAP_AVA_BINARY then ok (CHR ''#'' # binval2hexstr (la_value ava))
      else s2s (la_value ava) (f OR la_flags ava))"

fun rdn2strlen :: "(string \<Rightarrow> dn_flags \<Rightarrow> nat option option) \<Rightarrow> dn_flags \<Rightarrow> rdn \<Rightarrow> nat option option" where
  "rdn2strlen s2l f [] = ok 0"
| "rdn2strlen s2l f (a # as) =
     ret_bind (ava_len s2l f a) (\<lambda>vl. ret_bind (rdn2strlen s2l f as) (\<lambda>l. ok (length (la_attr a) + 2 + vl + l)))"

fun rdn2str :: "(string \<Rightarrow> dn_flags \<Rightarrow> string option option) \<Rightarrow> dn_flags \<Rightarrow> rdn \<Rightarrow> string option option" where
  "rdn2str s2s f [] = ok []"
| "rdn2str s2s f (a # as) =
     ret_bind (ava_str s2s f a) (\<lambda>v. ret_bind (rdn2str s2s f as) (\<lambda>r.
       ok (la_attr a @ [CHR ''=''] @ v @ [if as = [] then CHR '','' else CHR ''+''] @ r)))"

definition rdn2DCEstrlen :: "dn_flags \<Rightarrow> rdn \<Rightarrow> nat option option" where
  "rdn2DCEstrlen f r = rdn2strlen strval2DCEstrlen f r"

text \<open>\<open>sep\<close> is what precedes the first assertion, if anything.\<close>

fun dce_avas :: "dn_flags \<Rightarrow> string \<Rightarrow> rdn \<Rightarrow> string option option" where
  "dce_avas f sep [] = ok []"
| "dce_avas f sep (a # as) =
     ret_bind (ava_str strval2DCEstr f a) (\<lambda>v. ret_bind (dce_avas f '','' as) (\<lambda>r.
       ok (sep @ la_attr a @ [CHR ''=''] @ v @ r)))"

definition rdn2DCEstr :: "dn_flags \<Rightarrow> bool \<Rightarrow> rdn \<Rightarrow> string option option" where
  "rdn2DCEstr f first r = dce_avas f (if first then [] else ''/'') r"

fun rdn2UFNstrlen :: "dn_flags \<Rightarrow> rdn \<Rightarrow> nat option option" where
  "rdn2UFNstrlen f [] = ok 0"
| "rdn2UFNstrlen f (a # as) =
     ret_bind (ava_len strval2strlen f a) (\<lambda>vl. ret_bind (rdn2UFNstrlen f as) (\<lambda>l.
       ok ((if as = [] then 2 else 3) + vl + l)))"

fun rdn2UFNstr :: "dn_flags \<Rightarrow> rdn \<Rightarrow> string option option" where
  "rdn2UFNstr f [] = ok []"
| "rdn2UFNstr f (a # as) =
     ret_bind (ava_str strval2str f a) (\<lambda>v. ret_bind (rdn2UFNstr f as) (\<lambda>r.
       ok (v @ (if as = [] then '', '' else '' + '') @ r)))"

fun rdn2ADstrlen :: "dn_flags \<Rightarrow> rdn \<Rightarrow> nat option option" where
  "rdn2ADstrlen f [] = ok 0"
| "rdn2ADstrlen f (a # as) =
     ret_bind (ava_len (\<lambda>v _. strval2ADstrlen v) f a) (\<lambda>vl. ret_bind (rdn2ADstrlen f as) (\<lambda>l. ok (1 + vl + l)))"

fun ad_avas :: "dn_flags \<Rightarrow> string \<Rightarrow> rdn \<Rightarrow> string option option" where
  "ad_avas f sep [] = ok []"
| "ad_avas f sep (a # as) =
     ret_bind (ava_str (\<lambda>v _. strval2ADstr v) f a) (\<lambda>v. ret_bind (ad_avas f '','' as) (\<lambda>r. ok (sep @ v @ r)))"

definition rdn2ADstr :: "dn_flags \<Rightarrow> bool \<Rightarrow> rdn \<Rightarrow> string option option" where
  "rdn2ADstr f first r = ad_avas f (if first then [] else ''/'') r"

text \<open>The text of one RDN: the buffer holds one byte more than the length that was counted.\<close>

definition print_rdn :: "nat option option \<Rightarrow> string option option \<Rightarrow> nat \<Rightarrow> (int \<times> string) option" where
  "print_rdn len text back =
     (case len of None \<Rightarrow> None
      | Some None \<Rightarrow> Some (LDAP_DECODING_ERROR, [])
      | Some (Some l) \<Rightarrow>
        (case text of None \<Rightarrow> None
         | Some None \<Rightarrow> Some (-1, [])
         | Some (Some t) \<Rightarrow> if l + 1 < length t \<or> l < length t - back \<or> length t < back then None
             else Some (LDAP_SUCCESS, take (length t - back) t)))"

definition ldap_rdn2bv_x :: "dn_flags \<Rightarrow> rdn \<Rightarrow> (int \<times> string) option" where
  "ldap_rdn2bv_x f r =
     (let fmt = LDAP_DN_FORMAT f
      in if r = [] then Some (LDAP_SUCCESS, [])
         else if fmt = LDAP_DN_FORMAT_LDAPV3 then
           print_rdn (rdn2strlen strval2strlen f r) (rdn2str strval2str f r) 1
         else if fmt = LDAP_DN_FORMAT_LDAPV2 then
           print_rdn (rdn2strlen strval2IA5strlen f r) (rdn2str strval2IA5str f r) 1
         else if fmt = LDAP_DN_FORMAT_UFN then print_rdn (rdn2UFNstrlen f r) (rdn2UFNstr f r) 2
         else if fmt = LDAP_DN_FORMAT_DCE then print_rdn (rdn2DCEstrlen f r) (rdn2DCEstr f True r) 0
         else if fmt = LDAP_DN_FORMAT_AD_CANONICAL then print_rdn (rdn2ADstrlen f r) (rdn2ADstr f True r) 0
         else Some (LDAP_PARAM_ERROR, []))"

definition ldap_rdn2str :: "dn_flags \<Rightarrow> rdn \<Rightarrow> (int \<times> string) option" where
  "ldap_rdn2str f r =
     (if LDAP_DN_FORMAT f = LDAP_DN_FORMAT_LBER then Some (LDAP_PARAM_ERROR, []) else ldap_rdn2bv_x f r)"

fun sum_lens :: "('a \<Rightarrow> nat option option) \<Rightarrow> 'a list \<Rightarrow> nat option option" where
  "sum_lens g [] = ok 0"
| "sum_lens g (x # xs) = ret_bind (g x) (\<lambda>l. ret_bind (sum_lens g xs) (\<lambda>k. ok (l + k)))"

fun cat_texts :: "('a \<Rightarrow> string option option) \<Rightarrow> 'a list \<Rightarrow> string option option" where
  "cat_texts g [] = ok []"
| "cat_texts g (x # xs) = ret_bind (g x) (\<lambda>t. ret_bind (cat_texts g xs) (\<lambda>u. ok (t @ u)))"

section \<open>Trailing domain components\<close>

definition dc_char :: "string \<Rightarrow> nat \<Rightarrow> string \<Rightarrow> bool" where
  "dc_char s i cs \<longleftrightarrow> byte s i \<in> set cs"

definition LDAP_DN_IS_RDN_DC :: "rdn \<Rightarrow> bool" where
  "LDAP_DN_IS_RDN_DC r =
     (case r of [a] \<Rightarrow> on (la_flags a) LDAP_AVA_STRING \<and> length (la_attr a) = 2
        \<and> dc_char (la_attr a) 0 ''dD'' \<and> dc_char (la_attr a) 1 ''cC''
      | _ \<Rightarrow> False)"

definition isgraph :: "char \<Rightarrow> bool" where
  "isgraph c \<longleftrightarrow> 33 \<le> code c \<and> code c \<le> 126"

definition ldif_is_not_printable :: "string \<Rightarrow> bool" where
  "ldif_is_not_printable v =
     (if v = [] then True
      else if isgraph (hd v) \<and> hd v \<noteq> CHR '':'' \<and> hd v \<noteq> CHR ''<'' \<and> isgraph (last v)
      then \<not> list_all LDAP_DN_ASCII_PRINTABLE (takeWhile (\<lambda>c. c \<noteq> NUL) v)
      else True)"

text \<open>\<^verbatim>\<open>dn2domain\<close> from the last RDN to the first: whether a domain was written, its text, and the RDNs
  that are left, the last one first. The text so far is moved to make room with \<^verbatim>\<open>memcpy\<close>, which
  is undefined when source and target overlap.\<close>

fun dn2domain :: "rdn list \<Rightarrow> bool \<Rightarrow> bool \<Rightarrow> string \<Rightarrow> (bool \<times> string \<times> rdn list) option" where
  "dn2domain [] domain first t = Some (domain, t, [])"
| "dn2domain (r # rs) domain first t =
     (if \<not> LDAP_DN_IS_RDN_DC r then Some (domain, t, r # rs)
      else let v = la_value (hd r)
           in if ldif_is_not_printable v then Some (False, t, r # rs)
              else if first then dn2domain rs True False v
              else if length v < length t then None
              else dn2domain rs True False (v @ [CHR ''.''] @ t))"

text \<open>The first RDN of the run of domain components at the end.\<close>

fun leftmost_dc :: "nat \<Rightarrow> nat option \<Rightarrow> dn \<Rightarrow> nat option" where
  "leftmost_dc i dc [] = dc"
| "leftmost_dc i dc (r # rs) =
     leftmost_dc (i + 1) (if LDAP_DN_IS_RDN_DC r then (if dc = None then Some i else dc) else None) rs"


section \<open>Printing whole names\<close>

text \<open>LDAPv3, LDAPv2 and DCE: \<^verbatim>\<open>assert(l == len)\<close>.\<close>

definition print_dn :: "nat option option \<Rightarrow> string option option \<Rightarrow> nat \<Rightarrow> (int \<times> string) option" where
  "print_dn len text back =
     (case len of None \<Rightarrow> None
      | Some None \<Rightarrow> Some (LDAP_ENCODING_ERROR, [])
      | Some (Some l) \<Rightarrow>
        (case text of None \<Rightarrow> None
         | Some None \<Rightarrow> Some (LDAP_ENCODING_ERROR, [])
         | Some (Some t) \<Rightarrow> if length t \<noteq> l then None else Some (LDAP_SUCCESS, take (l - back) t)))"

definition dn2ufn :: "dn_flags \<Rightarrow> dn \<Rightarrow> (int \<times> string) option" where
  "dn2ufn f dn =
     (case sum_lens (rdn2UFNstrlen f) dn of None \<Rightarrow> None
      | Some None \<Rightarrow> Some (LDAP_ENCODING_ERROR, [])
      | Some (Some l) \<Rightarrow>
        (let dc = leftmost_dc 0 None dn
         in case cat_texts (rdn2UFNstr f) (case dc of None \<Rightarrow> dn | Some k \<Rightarrow> take k dn) of None \<Rightarrow> None
            | Some None \<Rightarrow> Some (LDAP_ENCODING_ERROR, [])
            | Some (Some t) \<Rightarrow>
              if dc = None then
                (if l + 1 < length t \<or> length t < l - 2 then None else Some (LDAP_SUCCESS, take (l - 2) t))
              else
                (case dn2domain (rev dn) False True [] of None \<Rightarrow> None
                 | Some (domain, d, _) \<Rightarrow>
                   if \<not> domain then Some (LDAP_ENCODING_ERROR, [])
                   else if l < length t + length d then None
                   else Some (LDAP_SUCCESS, t @ d))))"

text \<open>The AD format allocates one byte for a slash and one for the NUL, and takes the counted length
  as the length of the result.\<close>

definition ad_finish :: "nat \<Rightarrow> bool \<Rightarrow> string \<Rightarrow> string option option \<Rightarrow> (int \<times> string) option" where
  "ad_finish len slash d text =
     (case text of None \<Rightarrow> None
      | Some None \<Rightarrow> Some (LDAP_ENCODING_ERROR, [])
      | Some (Some t) \<Rightarrow>
        if len + 2 < length (d @ t) \<or> length (d @ t) < len then None
        else Some (LDAP_SUCCESS, take len (d @ t) @ (if slash then ''/'' else [])))"

definition ad_first :: "dn_flags \<Rightarrow> rdn list \<Rightarrow> string option option" where
  "ad_first f rs =
     (case rs of [] \<Rightarrow> ok []
      | r # rs' \<Rightarrow> ret_bind (rdn2ADstr f True r) (\<lambda>t. ret_bind (cat_texts (rdn2ADstr f False) rs') (\<lambda>u. ok (t @ u))))"

definition dn2ad :: "dn_flags \<Rightarrow> dn \<Rightarrow> (int \<times> string) option" where
  "dn2ad f dn =
     (case sum_lens (rdn2ADstrlen f) dn of None \<Rightarrow> None
      | Some None \<Rightarrow> Some (LDAP_ENCODING_ERROR, [])
      | Some (Some l) \<Rightarrow>
        (case (if length dn > 1 then dn2domain (rev dn) False True [] else Some (False, [], rev dn)) of
           None \<Rightarrow> None
         | Some (domain, d, rs) \<Rightarrow>
           if domain then ad_finish (l - 1) (rs = []) d (cat_texts (rdn2ADstr f False) rs)
           else if on f LDAP_DN_PEDANTIC then Some (LDAP_ENCODING_ERROR, [])
           else ad_finish (l - 1) True [] (ad_first f rs)))"

definition ldap_dn2bv_x :: "dn_flags \<Rightarrow> dn \<Rightarrow> (int \<times> string) option" where
  "ldap_dn2bv_x f dn =
     (let fmt = LDAP_DN_FORMAT f
      in if dn = [] then Some (LDAP_SUCCESS, [])
         else if fmt = LDAP_DN_FORMAT_LDAPV3 then
           print_dn (sum_lens (rdn2strlen strval2strlen f) dn) (cat_texts (rdn2str strval2str f) dn) 1
         else if fmt = LDAP_DN_FORMAT_LDAPV2 then
           print_dn (sum_lens (rdn2strlen strval2IA5strlen f) dn) (cat_texts (rdn2str strval2IA5str f) dn) 1
         else if fmt = LDAP_DN_FORMAT_UFN then dn2ufn f dn
         else if fmt = LDAP_DN_FORMAT_DCE then
           print_dn (sum_lens (rdn2DCEstrlen f) dn) (cat_texts (rdn2DCEstr f False) (rev dn)) 0
         else if fmt = LDAP_DN_FORMAT_AD_CANONICAL then dn2ad f dn
         else Some (LDAP_PARAM_ERROR, []))"

definition ldap_dn2str :: "dn_flags \<Rightarrow> dn \<Rightarrow> (int \<times> string) option" where
  "ldap_dn2str f dn =
     (if LDAP_DN_FORMAT f = LDAP_DN_FORMAT_LBER then Some (LDAP_PARAM_ERROR, []) else ldap_dn2bv_x f dn)"

section \<open>Conversions\<close>

definition ldap_dn_normalize :: "string \<Rightarrow> dn_flags \<Rightarrow> dn_flags \<Rightarrow> (int \<times> string) option" where
  "ldap_dn_normalize dnin fin fout = do {
     (rc, dn) \<leftarrow> ldap_str2dn fin dnin;
     if rc \<noteq> LDAP_SUCCESS then Some (rc, []) else ldap_dn2str fout dn }"

definition ldap_dn2ufn :: "string \<Rightarrow> (int \<times> string) option" where
  "ldap_dn2ufn dn = ldap_dn_normalize dn LDAP_DN_FORMAT_LDAP LDAP_DN_FORMAT_UFN"

definition ldap_dn2dcedn :: "string \<Rightarrow> (int \<times> string) option" where
  "ldap_dn2dcedn dn = ldap_dn_normalize dn LDAP_DN_FORMAT_LDAP LDAP_DN_FORMAT_DCE"

definition ldap_dcedn2dn :: "string \<Rightarrow> (int \<times> string) option" where
  "ldap_dcedn2dn dce = ldap_dn_normalize dce LDAP_DN_FORMAT_DCE LDAP_DN_FORMAT_LDAPV3"

definition ldap_dn2ad_canonical :: "string \<Rightarrow> (int \<times> string) option" where
  "ldap_dn2ad_canonical dn = ldap_dn_normalize dn LDAP_DN_FORMAT_LDAP LDAP_DN_FORMAT_AD_CANONICAL"

text \<open>\<^verbatim>\<open>ldap_explode_dn\<close> ignores the result codes of the printer; a component that could not be printed is a
  NULL pointer, where the array ends for its reader. \<open>failed\<close> is the result NULL.\<close>

definition ldap_explode_dn :: "string \<Rightarrow> bool \<Rightarrow> string list option option" where
  "ldap_explode_dn dn notypes = do {
     (rc, rdns) \<leftarrow> ldap_str2dn LDAP_DN_FORMAT_LDAP dn;
     if rc \<noteq> LDAP_SUCCESS then failed
     else do {
       vs \<leftarrow> those (map (ldap_rdn2str (if notypes then LDAP_DN_FORMAT_UFN else LDAP_DN_FORMAT_LDAPV3)) rdns);
       ok (map snd (takeWhile (\<lambda>v. fst v = LDAP_SUCCESS) vs)) } }"

definition explode_ava :: "bool \<Rightarrow> ldapava \<Rightarrow> string option option" where
  "explode_ava notypes ava =
     ret_bind (ava_len strval2strlen 0 ava) (\<lambda>vl. ret_bind (ava_str strval2str 0 ava) (\<lambda>v.
       if length v \<noteq> vl then None
       else ok ((if notypes then [] else la_attr ava @ [CHR ''='']) @ v)))"

fun explode_avas :: "bool \<Rightarrow> rdn \<Rightarrow> string list option option" where
  "explode_avas notypes [] = ok []"
| "explode_avas notypes (a # as) =
     ret_bind (explode_ava notypes a) (\<lambda>v. ret_bind (explode_avas notypes as) (\<lambda>vs. ok (v # vs)))"

definition ldap_explode_rdn :: "string \<Rightarrow> bool \<Rightarrow> string list option option" where
  "ldap_explode_rdn rdn notypes = do {
     (rc, r, _) \<leftarrow> ldap_str2rdn LDAP_DN_FORMAT_LDAP rdn;
     if rc \<noteq> LDAP_SUCCESS then failed else explode_avas notypes r }"

section \<open>The parser returns\<close>

definition parsed_ava :: "ldapava \<Rightarrow> bool" where
  "parsed_ava a \<longleftrightarrow> la_attr a \<noteq> []
     \<and> la_flags a \<in> (\<lambda>e. e OR LDAP_AVA_FREE_VALUE) ` {LDAP_AVA_STRING, LDAP_AVA_NONPRINTABLE, LDAP_AVA_BINARY}"

text \<open>What holds between the rounds of the parser.\<close>

definition parser_inv :: "dn_flags \<Rightarrow> rdn_parser \<Rightarrow> bool" where
  "parser_inv f s \<longleftrightarrow> list_all parsed_ava (tmpRDN s)
     \<and> (state_rank (state s) \<le> 2 \<and> \<not> on f LDAP_DN_SKIP \<longrightarrow> attrType s \<noteq> [])
     \<and> attrValueEncoding s \<in> {LDAP_AVA_STRING, LDAP_AVA_NONPRINTABLE, LDAP_AVA_BINARY}
     \<and> (state s = B4STRINGVALUE \<longrightarrow> \<not> LDAP_DN_LDAPV2 f)"

definition parsed_rdn :: "dn_flags \<Rightarrow> int \<Rightarrow> rdn \<Rightarrow> bool" where
  "parsed_rdn f rc r \<longleftrightarrow> (rc = LDAP_SUCCESS \<and> \<not> on f LDAP_DN_SKIP \<longrightarrow> r \<noteq> [] \<and> list_all parsed_ava r)"

fun out_ok :: "dn_flags \<Rightarrow> rdn_out option \<Rightarrow> bool" where
  "out_ok f None = False"
| "out_ok f (Some (Stop rc r n)) = parsed_rdn f rc r"
| "out_ok f (Some (Go s)) = parser_inv f s"

lemma parsing_error_ok: "out_ok f parsing_error"
  by (simp add: parsing_error_def parsed_rdn_def LDAP_DECODING_ERROR_def LDAP_SUCCESS_def)

lemma s2s_scan_flags:
  "s2s_scan f str n p esc rf = Some (q, esc', rf') \<Longrightarrow> rf' = rf \<or> rf' = LDAP_AVA_NONPRINTABLE"
proof (induction f str n p esc rf rule: s2s_scan.induct)
  case (3 f c cs n p esc rf)
  show ?case
  proof (cases "c = BSLASH")
    case True
    with "3.prems" obtain d ds where cs: "cs = d # ds" "d \<noteq> NUL" by (auto split: list.splits if_splits)
    show ?thesis
    proof (cases "LDAP_DN_MAYESCAPE d")
      case False
      with True cs "3.prems" obtain b where "hexstr2bin (d # ds) = Some b" by (auto split: option.splits)
      with 3(2) [OF True cs False] True cs False "3.prems" show ?thesis by (auto split: if_splits)
    qed (use 3(1) True cs "3.prems" in auto)
  qed (use 3(3,4) "3.prems" in \<open>auto split: if_splits\<close>)
qed auto

lemma str2strval_flags:
  "str2strval f str n rf = ok (v, q, rf') \<Longrightarrow> rf' = rf \<or> rf' = LDAP_AVA_NONPRINTABLE"
  using s2s_scan_flags [of f str n 0 0 rf]
  by (auto simp: str2strval_def Let_def split: option.splits if_splits)

lemma got_value_ok:
  "r \<noteq> None \<Longrightarrow> parser_inv f s \<Longrightarrow> state_rank (state s) \<le> 2 \<Longrightarrow> out_ok f (got_value s r)"
  by (auto simp: got_value_def parsing_error_ok parser_inv_def split: option.split)

lemma b4value_ok:
  assumes "parser_inv f s" "state s = B4STRINGVALUE" "parse_format f"
  shows "out_ok f (b4value f str n s)"
proof -
  let ?r = "str2strval f (drop (pos s) str) (n - pos s) (attrValueEncoding s)"
  show ?thesis
  proof (cases "LDAP_DN_LDAP f \<or> LDAP_DN_LDAPV3 f")
    case True
    obtain r where r: "?r = Some r" using str2strval_returns by blast
    show ?thesis
    proof (cases r)
      case None
      with True r show ?thesis by (simp add: b4value_def parsing_error_ok)
    next
      case (Some x)
      obtain v q rf where x: "x = (v, q, rf)" by (cases x)
      with str2strval_flags [of f _ _ _ v q rf] r Some True assms show ?thesis
        by (auto simp: b4value_def parser_inv_def)
    qed
  next
    case False
    with assms show ?thesis
      by (auto simp: b4value_def parse_format_def parser_inv_def intro!: got_value_ok DCE2strval_returns)
  qed
qed

lemma oid_scan_pos: "oid_scan s p = Some q \<Longrightarrow> p \<le> q \<and> (byte s 0 \<noteq> NUL \<longrightarrow> p < q)"
  by (induction s p rule: oid_scan.induct)
    (fastforce simp: oid_scan.simps(2) byte_def Let_def split: if_splits)+

lemma b4oid_ok:
  assumes "parser_inv f s" "byte str (pos s) \<noteq> NUL"
  shows "out_ok f (b4oid str s)"
proof (cases "oid_scan (drop (pos s) str) 0")
  case None
  then show ?thesis by (simp add: b4oid_def parsing_error_ok)
next
  case (Some n)
  have "pos s < length str" using byte_in [OF assms(2)] .
  moreover have "0 < n"
    using oid_scan_pos [OF Some] assms(2) \<open>pos s < length str\<close> by (simp add: byte_def)
  ultimately show ?thesis using assms Some by (auto simp: b4oid_def parser_inv_def)
qed

lemma b4string_ok:
  "parser_inv f s \<Longrightarrow> byte str (pos s) \<noteq> NUL \<Longrightarrow> out_ok f (b4string f str s)"
  using byte_in [of str "pos s"] parsing_error_ok [of f]
  by (auto simp: b4string_def Let_def parser_inv_def)

lemma rdn_step_ok:
  assumes "parser_inv f s" "parse_format f" "byte str (pos s) \<noteq> NUL \<or> state s = GOTAVA"
  shows "out_ok f (rdn_step f str n s)"
proof (cases "state s")
  case B4AVA
  with assms show ?thesis
    using parsing_error_ok [of f] by (auto simp: rdn_step_def b4ava_def Let_def parser_inv_def)
next
  case B4AVAEQUALS
  with assms show ?thesis
    using parsing_error_ok [of f] by (auto simp: rdn_step_def b4equals_def Let_def parser_inv_def)
next
  case GOTAVA
  with assms show ?thesis
    by (auto simp: rdn_step_def gotava_def Let_def parser_inv_def parsed_rdn_def parsed_ava_def ldapava_new_def)
qed (use assms in \<open>auto simp: rdn_step_def intro!: b4oid_ok b4string_ok b4value_ok got_value_ok
       hexstr2binval_returns IA52strval_returns quotedIA52strval_returns\<close>)

lemma rdn_run_returns:
  "parser_inv f s \<Longrightarrow> parse_format f \<Longrightarrow> \<exists>rc r m. rdn_run f str n s = Some (rc, r, m) \<and> parsed_rdn f rc r"
proof (induction f str n s rule: rdn_run.induct)
  case (1 f str n s)
  show ?case
  proof (cases "byte str (pos s) \<noteq> NUL \<or> state s = GOTAVA")
    case True
    note step = rdn_step_ok [OF 1(2,3) True, of n]
    from step obtain x where x: "rdn_step f str n s = Some x" by (cases "rdn_step f str n s") auto
    show ?thesis
    proof (cases x)
      case (Stop rc r m)
      with x step True show ?thesis by (simp add: rdn_run.simps [of f str n s])
    next
      case (Go s')
      with x step True 1(1) [OF True x Go] 1(3) show ?thesis by (simp add: rdn_run.simps [of f str n s])
    qed
  qed (simp add: rdn_run.simps [of f str n s] parsed_rdn_def LDAP_DECODING_ERROR_def LDAP_SUCCESS_def)
qed


lemma parser_inv_start: "parser_inv f rdn_start"
  by (simp add: parser_inv_def rdn_start_def)

lemma dn_run_returns:
  assumes "parse_format f" "e \<le> length str" "NUL \<notin> set str"
  shows "list_all (parsed_rdn f LDAP_SUCCESS) acc \<Longrightarrow>
    \<exists>rc dn. dn_run f str e p acc = Some (rc, dn)
      \<and> (rc = LDAP_SUCCESS \<longrightarrow> dn \<noteq> [] \<and> list_all (parsed_rdn f LDAP_SUCCESS) dn)"
  using assms
proof (induction f str e p acc rule: dn_run.induct)
  case (1 f str e p acc)
  show ?case
  proof (cases "p < e")
    case True
    let ?b = "\<lparr>bv_len = e - p, bv_val = drop p str\<rparr>"
    have "ldap_bv2rdn_x f ?b = rdn_run f (drop p str) (e - p) rdn_start"
      using True 1(3,4) by (auto simp: ldap_bv2rdn_x_def)
    then obtain rc r n where run: "ldap_bv2rdn_x f ?b = Some (rc, r, n)" "parsed_rdn f rc r"
      using rdn_run_returns [OF parser_inv_start 1(3)] by metis
    show ?thesis
    proof (cases "rc = LDAP_SUCCESS \<and> \<not> (e \<le> p + n \<or> byte str (p + n) = NUL) \<and> rdn_sep_ok f (byte str (p + n))")
      case go: True
      have "\<exists>rc dn. dn_run f str e (p + n + 1) (acc @ [r]) = Some (rc, dn)
          \<and> (rc = LDAP_SUCCESS \<longrightarrow> dn \<noteq> [] \<and> list_all (parsed_rdn f LDAP_SUCCESS) dn)"
        using 1(1) [OF True run(1) refl refl refl refl] go run(2) 1(2-5) by auto
      with go True run show ?thesis by (simp add: dn_run.simps [of f str e p])
    next
      case False
      with True run 1(2) show ?thesis
        by (auto simp: dn_run.simps [of f str e p] Let_def LDAP_DECODING_ERROR_def LDAP_SUCCESS_def)
    qed
  qed (simp add: dn_run.simps [of f str e p] LDAP_DECODING_ERROR_def LDAP_SUCCESS_def)
qed

section \<open>Printed names read back\<close>

definition name_ok :: "string \<Rightarrow> bool" where
  "name_ok s \<longleftrightarrow> s \<noteq> [] \<and> LDAP_ALPHA (hd s) \<and> list_all LDAP_LDH s"

function oid_ok :: "string \<Rightarrow> bool" where
  "oid_ok s \<longleftrightarrow> takeWhile isdigit s \<noteq> [] \<and>
     (case dropWhile isdigit s of [] \<Rightarrow> True | c # cs \<Rightarrow> c = CHR ''.'' \<and> oid_ok cs)"
  by pat_completeness auto
termination
  by (relation "measure length") (auto dest!: arg_cong [of _ _ length], metis Suc_le_eq length_dropWhile_le)

declare oid_ok.simps [simp del]

text \<open>The assertions that the parser can produce and the printer keeps: a type that is a name or an
  OID, the flag that fits the value, a binary value that is not empty.\<close>

definition good_ava :: "dn_flags \<Rightarrow> ldapava \<Rightarrow> bool" where
  "good_ava f a \<longleftrightarrow> (name_ok (la_attr a) \<or> oid_ok (la_attr a))
     \<and> (la_value a \<noteq> [] \<and> la_flags a = LDAP_AVA_BINARY OR LDAP_AVA_FREE_VALUE
        \<or> la_flags a = np LDAP_AVA_STRING (la_value a) OR LDAP_AVA_FREE_VALUE
          \<and> (on f LDAP_DN_PEDANTIC \<longrightarrow> name_ok (la_attr a)))"

lemma rdn_run_go:
  "rdn_step f str n s = Some (Go s') \<Longrightarrow> byte str (pos s) \<noteq> NUL \<or> state s = GOTAVA \<Longrightarrow>
    rdn_run f str n s = rdn_run f str n s'"
  by (simp add: rdn_run.simps [of f str n s])

lemma byte_drop: "byte (drop p str) i = byte str (p + i)"
  by (auto simp: byte_def)

lemma byte_at: "drop p str = c # r \<Longrightarrow> byte str p = c"
  using byte_drop [of p str 0] by (simp add: byte_def)

lemma byte_behind: "drop p str = xs @ c # r \<Longrightarrow> byte str (p + length xs) = c"
  using byte_drop [of p str "length xs", symmetric] by (simp add: byte_def [of "xs @ c # r"])

lemma alpha_props:
  assumes "LDAP_ALPHA c"
  shows "c \<noteq> NUL" "\<not> LDAP_DN_ASCII_SPACE c" "\<not> isdigit c"
proof -
  have "0 \<le> code (CHR ''9'')" by code_simp
  show "c \<noteq> NUL" "\<not> LDAP_DN_ASCII_SPACE c"
    using assms by (auto simp: LDAP_ALPHA_def LDAP_DN_ASCII_SPACE_def code_def)
  show "\<not> isdigit c"
    using assms by (auto simp: LDAP_ALPHA_def isdigit_def less_eq_char_code code_def)
qed

lemma digit_props: "isdigit c \<Longrightarrow> c \<noteq> NUL \<and> \<not> LDAP_DN_ASCII_SPACE c"
  by (auto simp: isdigit_def LDAP_DN_ASCII_SPACE_def less_eq_char_code)

lemma ldh_equals: "\<not> LDAP_LDH (CHR ''='')" "\<not> isdigit (CHR ''='')"
  by code_simp+

lemma oid_scan_oid: "oid_ok s \<Longrightarrow> oid_scan (s @ CHR ''='' # r) p = Some (p + length s)"
proof (induction s arbitrary: p rule: oid_ok.induct)
  case (1 s)
  then obtain c cs where s: "s = c # cs" and c: "isdigit c"
    by (cases s) (auto simp: oid_ok.simps split: if_splits)
  let ?n = "length (takeWhile isdigit cs)"
  have tw: "takeWhile isdigit (cs @ CHR ''='' # r) = takeWhile isdigit cs"
    using ldh_equals by (simp add: takeWhile_tail)
  have split: "cs = takeWhile isdigit cs @ dropWhile isdigit cs" by simp
  show ?case
  proof (cases "dropWhile isdigit s")
    case Nil
    then have "dropWhile isdigit cs = []" using s c by simp
    then have "?n = length cs" by (metis dropWhile_eq_Nil_conv takeWhile_eq_all_conv)
    then show ?thesis
      using s c digit_props [of c] tw by (simp add: oid_scan.simps(2) byte_def)
  next
    case (Cons d ds)
    with 1(2) have d: "d = CHR ''.''" "oid_ok ds" by (subst (asm) oid_ok.simps, simp)+
    have "dropWhile isdigit cs = d # ds" using Cons s c by simp
    then have cs: "cs = takeWhile isdigit cs @ d # ds" using split by metis
    then have len: "length cs = ?n + 1 + length ds" by (metis length_append length_Cons add.assoc plus_1_eq_Suc)
    have "byte (cs @ CHR ''='' # r) ?n = d" "drop (?n + 1) (cs @ CHR ''='' # r) = ds @ CHR ''='' # r"
      by (subst cs, simp add: byte_def nth_append)+
    then show ?thesis
      using 1(1) [OF Cons, of "p + ?n + 2"] d s c digit_props [of c] tw len by (simp add: oid_scan.simps(2))
  qed
qed


text \<open>The type of an assertion, up to the equals sign.\<close>

lemma name_run:
  assumes "drop (pos s) str = attr @ CHR ''='' # r" "name_ok attr" "state s = B4AVA"
    "\<not> LDAP_DN_LDAPV2 f" "\<not> on f LDAP_DN_SKIP"
  shows "rdn_run f str n s = rdn_run f str n (s\<lparr>state := B4AVAEQUALS, pos := pos s + length attr,
    attrType := attr, attrTypeEncoding := LDAP_AVA_STRING\<rparr>)"
proof -
  obtain c cs where attr: "attr = c # cs" and c: "LDAP_ALPHA c" and cs: "list_all LDAP_LDH cs"
    using assms(2) by (cases attr) (auto simp: name_ok_def)
  have b: "byte str (pos s) = c" using byte_at [of "pos s" str] assms(1) attr by simp
  let ?s = "s\<lparr>state := B4STRINGATTRTYPE\<rparr>"
  have "rdn_step f str n s = Some (Go ?s)"
    using assms(3,4) b alpha_props [OF c] c by (simp add: rdn_step_def b4ava_def Let_def)
  then have 1: "rdn_run f str n s = rdn_run f str n ?s"
    using b alpha_props [OF c] by (intro rdn_run_go) simp_all
  have d: "drop (pos s + 1) str = cs @ CHR ''='' # r" using assms(1) attr by (metis append_Cons drop_drop plus_1_eq_Suc drop_Suc_Cons drop_0 add.commute)
  have tw: "takeWhile LDAP_LDH (cs @ CHR ''='' # r) = cs"
    using cs ldh_equals by (intro takeWhile_stop) auto
  have "byte str (pos s + 1 + length cs) = CHR ''=''"
    using byte_behind [OF d] .
  then have "rdn_step f str n ?s = Some (Go (s\<lparr>state := B4AVAEQUALS, pos := pos s + length attr,
    attrType := attr, attrTypeEncoding := LDAP_AVA_STRING\<rparr>))"
    using assms(1,5) d tw attr by (simp add: rdn_step_def b4string_def Let_def)
  then have "rdn_run f str n ?s = rdn_run f str n (s\<lparr>state := B4AVAEQUALS, pos := pos s + length attr,
    attrType := attr, attrTypeEncoding := LDAP_AVA_STRING\<rparr>)"
    using b alpha_props [OF c] by (intro rdn_run_go) simp_all
  with 1 show ?thesis by simp
qed

lemma oid_run:
  assumes "drop (pos s) str = attr @ CHR ''='' # r" "oid_ok attr" "state s = B4AVA"
  shows "rdn_run f str n s = rdn_run f str n (s\<lparr>state := B4AVAEQUALS, pos := pos s + length attr,
    attrType := attr, attrTypeEncoding := LDAP_AVA_BINARY\<rparr>)"
proof -
  obtain c cs where attr: "attr = c # cs" and c: "isdigit c"
    using assms(2) by (cases attr) (auto simp: oid_ok.simps split: if_splits)
  have b: "byte str (pos s) = c" using byte_at [of "pos s" str] assms(1) attr by simp
  let ?s = "s\<lparr>state := B4OIDATTRTYPE\<rparr>"
  have "rdn_step f str n s = Some (Go ?s)"
    using assms(3) b digit_props [OF c] c by (simp add: rdn_step_def b4ava_def Let_def)
  then have 1: "rdn_run f str n s = rdn_run f str n ?s"
    using b digit_props [OF c] by (intro rdn_run_go) simp_all
  have "rdn_step f str n ?s = Some (Go (s\<lparr>state := B4AVAEQUALS, pos := pos s + length attr,
    attrType := attr, attrTypeEncoding := LDAP_AVA_BINARY\<rparr>))"
    using assms(1) oid_scan_oid [OF assms(2), of r 0] by (simp add: rdn_step_def b4oid_def)
  then have "rdn_run f str n ?s = rdn_run f str n (s\<lparr>state := B4AVAEQUALS, pos := pos s + length attr,
    attrType := attr, attrTypeEncoding := LDAP_AVA_BINARY\<rparr>)"
    using b digit_props [OF c] by (intro rdn_run_go) simp_all
  with 1 show ?thesis by simp
qed

text \<open>What the printer writes for a value, between the equals sign and the separator.\<close>

lemma skip_none: "drop p str = c # r \<Longrightarrow> \<not> LDAP_DN_ASCII_SPACE c \<Longrightarrow> skip_spaces str p = p"
  by (simp add: skip_spaces_def)

lemma skip_end: "drop p str = [] \<Longrightarrow> skip_spaces str p = p"
  by (simp add: skip_spaces_def)

lemma equals_run:
  assumes "drop (pos s) str = CHR ''='' # t" "state s = B4AVAEQUALS"
    "t = [] \<or> \<not> LDAP_DN_ASCII_SPACE (hd t)"
  shows "rdn_run f str n s = (case b4equals f str s of Some (Go s') \<Rightarrow> rdn_run f str n s'
     | Some (Stop rc r m) \<Rightarrow> Some (rc, r, m) | None \<Rightarrow> None)"
    and "skip_spaces str (pos s) = pos s" "skip_spaces str (pos s + 1) = pos s + 1"
    "byte str (pos s) = CHR ''=''" "byte str (pos s + 1) = byte t 0" "drop (pos s + 1) str = t"
proof -
  show b: "byte str (pos s) = CHR ''=''" using byte_at [OF assms(1)] .
  show d: "drop (pos s + 1) str = t" using assms(1) by (metis drop_drop plus_1_eq_Suc drop_Suc_Cons drop_0)
  show "skip_spaces str (pos s) = pos s" using skip_none [OF assms(1)] by (simp add: LDAP_DN_ASCII_SPACE_def)
  show "skip_spaces str (pos s + 1) = pos s + 1"
    using d assms(3) skip_none [of "pos s + 1" str] skip_end [of "pos s + 1" str] by (cases t) auto
  show "byte str (pos s + 1) = byte t 0" using byte_drop [of "pos s + 1" str 0] d by simp
  show "rdn_run f str n s = (case b4equals f str s of Some (Go s') \<Rightarrow> rdn_run f str n s'
     | Some (Stop rc r m) \<Rightarrow> Some (rc, r, m) | None \<Rightarrow> None)"
    using b assms(2) by (simp add: rdn_run.simps [of f str n s] rdn_step_def split: option.split rdn_out.split)
qed

lemma space_NUL: "\<not> LDAP_DN_ASCII_SPACE NUL" "NUL \<noteq> CHR ''#''" "NUL \<noteq> QUOTE"
  by (simp_all add: LDAP_DN_ASCII_SPACE_def)

lemma binary_run:
  assumes "drop (pos s) str = CHR ''='' # CHR ''#'' # binval2hexstr v @ r" "stops r" "v \<noteq> []"
    "state s = B4AVAEQUALS" "LDAP_DN_LDAPV3 f \<or> LDAP_DN_LDAP f" "\<not> on f LDAP_DN_SKIP"
  shows "rdn_run f str n s = rdn_run f str n (s\<lparr>state := GOTAVA,
    pos := pos s + 2 + length (binval2hexstr v), attrValue := v, attrValueEncoding := LDAP_AVA_BINARY\<rparr>)"
proof -
  have h: "CHR ''#'' # binval2hexstr v @ r = [] \<or> \<not> LDAP_DN_ASCII_SPACE (hd (CHR ''#'' # binval2hexstr v @ r))"
    by (simp add: LDAP_DN_ASCII_SPACE_def)
  note run = equals_run(1) [OF assms(1,4) h, of f n] and eq = equals_run(2-) [OF assms(1,4) h]
  let ?s = "s\<lparr>state := B4BINARYVALUE, pos := pos s + 2, attrValueEncoding := LDAP_AVA_BINARY\<rparr>"
  have go: "b4equals f str s = Some (Go ?s)"
    using eq by (simp add: b4equals_def Let_def LDAP_DN_ASCII_SPACE_def byte_def [of "_ # _"])
  have d: "drop (pos s + 2) str = binval2hexstr v @ r"
    using assms(1) by (metis drop_drop add.commute drop_Suc_Cons drop_0 numeral_2_eq_2)
  obtain c cs where v: "v = c # cs" using assms(3) by (cases v) auto
  obtain x y where xy: "binval2hexstr v = x # y" "x \<noteq> NUL"
    using v hexpair_shape [of c "[]"] by auto
  have "byte str (pos s + 2) \<noteq> NUL" using byte_at [of "pos s + 2" str x] d xy by simp
  moreover have "rdn_step f str n ?s = Some (Go (s\<lparr>state := GOTAVA,
    pos := pos s + 2 + length (binval2hexstr v), attrValue := v, attrValueEncoding := LDAP_AVA_BINARY\<rparr>))"
    using hexstr2binval_binval [OF assms(2,5,6), of v] d by (simp add: rdn_step_def got_value_def)
  ultimately show ?thesis
    using run go rdn_run_go [of f str n ?s] by simp
qed


lemma string_run:
  assumes "drop (pos s) str = CHR ''='' # t @ r" "stops r" "prints True v t"
    "state s = B4AVAEQUALS" "LDAP_DN_LDAPV3 f \<or> LDAP_DN_LDAP f" "\<not> on f LDAP_DN_SKIP"
    "on f LDAP_DN_PEDANTIC \<longrightarrow> attrTypeEncoding s = LDAP_AVA_STRING" "attrValue s = []"
  shows "rdn_run f str (length str) s = rdn_run f str (length str) (s\<lparr>state := GOTAVA,
    pos := pos s + 1 + length t, attrValue := v, attrValueEncoding := np LDAP_AVA_STRING v\<rparr>)"
proof -
  have v2: "\<not> LDAP_DN_LDAPV2 f" using assms(5) dn_format_excl by blast
  have t: "spells t v" "t = [] \<or> \<not> LDAP_DN_ASCII_SPACE (last t)" "t = [] \<or> hd t = BSLASH \<or> \<not> LDAP_DN_MAYESCAPE (hd t)"
    using assms(3) by (auto simp: prints_def)
  have lead: "byte (t @ r) 0 \<noteq> CHR ''#'' \<and> byte (t @ r) 0 \<noteq> QUOTE \<and> \<not> LDAP_DN_ASCII_SPACE (byte (t @ r) 0)"
    using t(3) assms(2) space_NUL
    by (cases t; cases r) (auto simp: byte_def stops_def dn_char_defs)
  have h: "t @ r = [] \<or> \<not> LDAP_DN_ASCII_SPACE (hd (t @ r))"
    using lead by (cases "t @ r") (auto simp: byte_def)
  note run = equals_run(1) [OF assms(1,4) h, of f "length str"] and eq = equals_run(2-) [OF assms(1,4) h]
  let ?v = "s\<lparr>pos := pos s + 1, attrValueEncoding := LDAP_AVA_STRING\<rparr>"
  have ped: "\<not> (on f LDAP_DN_PEDANTIC \<and> attrTypeEncoding s = LDAP_AVA_BINARY)"
    using assms(7) by (auto simp: dn_flag_defs)
  have go: "b4equals f str s = Some (Go (?v\<lparr>state := if byte (t @ r) 0 = NUL then GOTAVA else B4STRINGVALUE\<rparr>))"
    using eq lead v2 ped by (auto simp: b4equals_def Let_def LDAP_DN_ASCII_SPACE_def)
  show ?thesis
  proof (cases "t @ r = []")
    case True
    then have "v = []" using spells_Nil [OF t(1)] by simp
    moreover have "?v\<lparr>state := GOTAVA\<rparr> = s\<lparr>state := GOTAVA, pos := pos s + 1, attrValue := [],
        attrValueEncoding := LDAP_AVA_STRING\<rparr>"
      using assms(8) by (cases s) simp
    ultimately show ?thesis using True run go by (simp add: byte_def)
  next
    case False
    have "byte (t @ r) 0 \<noteq> NUL"
    proof (cases t)
      case Nil
      with False assms(2) show ?thesis by (cases r) (auto simp: byte_def stops_def dn_char_defs)
    next
      case (Cons c cs)
      with t(1) show ?thesis by (cases rule: spells.cases) (auto simp: byte_def self_char_def hexesc_def)
    qed
    moreover from this have "byte str (pos s + 1) \<noteq> NUL" using eq(4) by simp
    moreover have "rdn_step f str (length str) (?v\<lparr>state := B4STRINGVALUE\<rparr>) = Some (Go (s\<lparr>state := GOTAVA,
        pos := pos s + 1 + length t, attrValue := v, attrValueEncoding := np LDAP_AVA_STRING v\<rparr>))"
    proof -
      have "length str - (pos s + 1) = length (t @ r)" using eq(5) by (metis length_drop)
      then show ?thesis
        using str2strval_spells [OF t(1,2) assms(2,5,6), of LDAP_AVA_STRING] eq(5) assms(5)
        by (auto simp: rdn_step_def b4value_def)
    qed
    ultimately show ?thesis
      using run go rdn_run_go [of f str "length str" "?v\<lparr>state := B4STRINGVALUE\<rparr>"] by simp
  qed
qed

text \<open>One assertion.\<close>

definition ava_prints :: "dn_flags \<Rightarrow> ldapava \<Rightarrow> string \<Rightarrow> bool" where
  "ava_prints f a t \<longleftrightarrow> good_ava f a
     \<and> (if on (la_flags a) LDAP_AVA_BINARY then t = CHR ''#'' # binval2hexstr (la_value a) else prints True (la_value a) t)"

lemma good_ava_flags:
  "good_ava f a \<Longrightarrow> on (la_flags a) LDAP_AVA_BINARY \<Longrightarrow>
     la_value a \<noteq> [] \<and> la_flags a = LDAP_AVA_BINARY OR LDAP_AVA_FREE_VALUE"
  "good_ava f a \<Longrightarrow> \<not> on (la_flags a) LDAP_AVA_BINARY \<Longrightarrow>
     la_flags a = np LDAP_AVA_STRING (la_value a) OR LDAP_AVA_FREE_VALUE \<and> (on f LDAP_DN_PEDANTIC \<longrightarrow> name_ok (la_attr a))"
  by (auto simp: good_ava_def dn_flag_defs split: if_splits)

lemma ava_run:
  assumes "ava_prints f a t" "drop (pos s) str = la_attr a @ CHR ''='' # t @ r" "stops r"
    "state s = B4AVA" "LDAP_DN_LDAPV3 f \<or> LDAP_DN_LDAP f" "\<not> on f LDAP_DN_SKIP" "attrValue s = []"
  shows "\<exists>s'. rdn_run f str (length str) s = rdn_run f str (length str) s' \<and> state s' = GOTAVA
    \<and> pos s' = pos s + length (la_attr a) + 1 + length t \<and> tmpRDN s' = tmpRDN s
    \<and> ldapava_new (attrType s') (attrValue s') (attrValueEncoding s') = a"
proof -
  have good: "good_ava f a" and attr: "name_ok (la_attr a) \<or> oid_ok (la_attr a)"
    using assms(1) by (auto simp: ava_prints_def good_ava_def)
  have v2: "\<not> LDAP_DN_LDAPV2 f" using assms(5) dn_format_excl by blast
  let ?enc = "if name_ok (la_attr a) then LDAP_AVA_STRING else LDAP_AVA_BINARY"
  define q where "q = s\<lparr>state := B4AVAEQUALS, pos := pos s + length (la_attr a), attrType := la_attr a,
    attrTypeEncoding := ?enc\<rparr>"
  have run: "rdn_run f str (length str) s = rdn_run f str (length str) q"
    using name_run [OF assms(2) _ assms(4) v2 assms(6)] oid_run [OF assms(2) _ assms(4)] attr
    by (cases "name_ok (la_attr a)") (auto simp: q_def)
  have d: "drop (pos q) str = CHR ''='' # t @ r"
    using assms(2) by (simp add: q_def) (metis append_eq_conv_conj drop_drop add.commute)
  have q: "state q = B4AVAEQUALS" "attrValue q = []" using assms(7) by (simp_all add: q_def)
  show ?thesis
  proof (cases "on (la_flags a) LDAP_AVA_BINARY")
    case True
    let ?q = "q\<lparr>state := GOTAVA, pos := pos q + 2 + length (binval2hexstr (la_value a)),
      attrValue := la_value a, attrValueEncoding := LDAP_AVA_BINARY\<rparr>"
    have t: "t = CHR ''#'' # binval2hexstr (la_value a)" using assms(1) True by (simp add: ava_prints_def)
    have "rdn_run f str (length str) q = rdn_run f str (length str) ?q"
      using d t good_ava_flags(1) [OF good True] by (intro binary_run [OF _ assms(3) _ q(1) assms(5,6)]) simp_all
    with run t good_ava_flags(1) [OF good True] show ?thesis
      by (intro exI [of _ ?q]) (simp add: q_def ldapava_new_def)
  next
    case False
    let ?q = "q\<lparr>state := GOTAVA, pos := pos q + 1 + length t, attrValue := la_value a,
      attrValueEncoding := np LDAP_AVA_STRING (la_value a)\<rparr>"
    have pr: "prints True (la_value a) t" using assms(1) False by (simp add: ava_prints_def)
    have "on f LDAP_DN_PEDANTIC \<longrightarrow> attrTypeEncoding q = LDAP_AVA_STRING"
      using good_ava_flags(2) [OF good False] by (simp add: q_def)
    from string_run [OF d assms(3) pr q(1) assms(5,6) this q(2)] run good_ava_flags(2) [OF good False]
    show ?thesis by (intro exI [of _ ?q]) (simp add: q_def ldapava_new_def)
  qed
qed

text \<open>An RDN: the printed text without its final comma.\<close>

lemma gotava_last:
  "state s = GOTAVA \<Longrightarrow> byte str (pos s) \<noteq> CHR ''+'' \<Longrightarrow> \<not> LDAP_DN_DCE f \<Longrightarrow> \<not> on f LDAP_DN_SKIP \<Longrightarrow>
    rdn_run f str n s = Some (LDAP_SUCCESS,
      tmpRDN s @ [ldapava_new (attrType s) (attrValue s) (attrValueEncoding s)], pos s)"
  by (simp add: rdn_run.simps [of f str n s] rdn_step_def gotava_def)

lemma gotava_next:
  "state s = GOTAVA \<Longrightarrow> byte str (pos s) = CHR ''+'' \<Longrightarrow> \<not> LDAP_DN_DCE f \<Longrightarrow> \<not> on f LDAP_DN_SKIP \<Longrightarrow>
    rdn_run f str n s = rdn_run f str n (s\<lparr>state := B4AVA, pos := pos s + 1, attrType := [], attrValue := [],
      tmpRDN := tmpRDN s @ [ldapava_new (attrType s) (attrValue s) (attrValueEncoding s)]\<rparr>)"
  by (intro rdn_run_go) (simp_all add: rdn_step_def gotava_def)

fun rdn_text :: "rdn \<Rightarrow> string list \<Rightarrow> string" where
  "rdn_text (a # as) (t # ts) = la_attr a @ CHR ''='' # t @ (if as = [] then [] else CHR ''+'' # rdn_text as ts)"
| "rdn_text _ _ = []"

lemma rdn_run_text:
  assumes "list_all2 (ava_prints f) r ts" "r \<noteq> []" "drop (pos s) str = rdn_text r ts @ u"
    "u = [] \<or> hd u = CHR '',''" "state s = B4AVA" "LDAP_DN_LDAPV3 f \<or> LDAP_DN_LDAP f"
    "\<not> on f LDAP_DN_SKIP" "attrValue s = []"
  shows "rdn_run f str (length str) s = Some (LDAP_SUCCESS, tmpRDN s @ r, pos s + length (rdn_text r ts))"
  using assms
proof (induction r ts arbitrary: s rule: list_all2_induct)
  case (Cons a as t ts)
  have dce: "\<not> LDAP_DN_DCE f" using Cons.prems(5) dn_format_excl by blast
  let ?r = "(if as = [] then [] else CHR ''+'' # rdn_text as ts) @ u"
  have r: "stops ?r" using Cons.prems(3) by (auto simp: stops_def LDAP_DN_VALUE_END_def)
  have d: "drop (pos s) str = la_attr a @ CHR ''='' # t @ ?r" using Cons.prems(2) by simp
  obtain q where q: "rdn_run f str (length str) s = rdn_run f str (length str) q" "state q = GOTAVA"
      "pos q = pos s + length (la_attr a) + 1 + length t" "tmpRDN q = tmpRDN s"
      "ldapava_new (attrType q) (attrValue q) (attrValueEncoding q) = a"
    using ava_run [OF Cons.hyps(1) d r Cons.prems(4-7)] by blast
  have dq: "drop (pos q) str = ?r"
  proof -
    have "drop (pos q) str = drop (length (la_attr a) + 1 + length t) (drop (pos s) str)"
      using q(3) by (simp add: ac_simps)
    then show ?thesis using d by simp
  qed
  show ?case
  proof (cases "as = []")
    case True
    then have "byte str (pos q) \<noteq> CHR ''+''"
      using byte_drop [of "pos q" str 0] dq Cons.prems(3) by (cases u) (auto simp: byte_def split: if_splits)
    with q True gotava_last [OF q(2) _ dce Cons.prems(6)] show ?thesis by simp
  next
    case False
    let ?q = "q\<lparr>state := B4AVA, pos := pos q + 1, attrType := [], attrValue := [], tmpRDN := tmpRDN q @ [a]\<rparr>"
    have "byte str (pos q) = CHR ''+''" using byte_at [of "pos q" str] dq False by simp
    with gotava_next [OF q(2) _ dce Cons.prems(6)] q(5)
    have "rdn_run f str (length str) q = rdn_run f str (length str) ?q" by simp
    moreover have "drop (pos ?q) str = rdn_text as ts @ u"
    proof -
      have "drop (pos ?q) str = drop 1 (drop (pos q) str)" by simp
      then show ?thesis using dq False by simp
    qed
    ultimately show ?thesis
      using Cons.IH [of ?q] False Cons.prems(3,5,6) q by simp
  qed
qed simp


text \<open>The printer on the assertions of an RDN: \<open>printable\<close> says that the length function accepts the
  value as UTF-8.\<close>

definition printable :: "dn_flags \<Rightarrow> ldapava \<Rightarrow> bool" where
  "printable g a \<longleftrightarrow> on (la_flags a) LDAP_AVA_BINARY \<or> strval2strlen (la_value a) (g OR la_flags a) \<noteq> failed"

lemma ava_printable:
  assumes "printable g a" "good_ava f a"
  shows "\<exists>t. ava_len strval2strlen g a = ok (length t) \<and> ava_str strval2str g a = ok t \<and> ava_prints f a t"
proof (cases "on (la_flags a) LDAP_AVA_BINARY")
  case True
  with assms show ?thesis by (simp add: ava_len_def ava_str_def ava_prints_def length_binval2hexstr)
next
  case False
  obtain l where "strval2strlen (la_value a) (g OR la_flags a) = ok l"
    using assms(1) False by (auto simp: printable_def strval2strlen_def)
  with strval_prints [OF this] False assms(2) show ?thesis
    by (auto simp: ava_len_def ava_str_def ava_prints_def)
qed

lemma ava_unprintable: "\<not> printable g a \<Longrightarrow> ava_len strval2strlen g a = failed"
  by (auto simp: printable_def ava_len_def)

lemma ava_len_returns: "ava_len strval2strlen g a \<noteq> None"
  by (simp add: ava_len_def strval2strlen_def)

lemma rdn_printable:
  assumes "r \<noteq> []" "list_all (printable g) r" "list_all (good_ava f) r"
  shows "\<exists>ts. list_all2 (ava_prints f) r ts \<and> rdn2strlen strval2strlen g r = ok (length (rdn_text r ts) + 1)
    \<and> rdn2str strval2str g r = ok (rdn_text r ts @ '','')"
  using assms
proof (induction r)
  case (Cons a as)
  obtain t where t: "ava_len strval2strlen g a = ok (length t)" "ava_str strval2str g a = ok t" "ava_prints f a t"
    using ava_printable [of g a f] Cons.prems by auto
  show ?case
  proof (cases "as = []")
    case True
    with t show ?thesis by (intro exI [of _ "[t]"]) (simp add: ret_bind_def)
  next
    case False
    then obtain ts where "list_all2 (ava_prints f) as ts" "rdn2strlen strval2strlen g as = ok (length (rdn_text as ts) + 1)"
      "rdn2str strval2str g as = ok (rdn_text as ts @ '','')" using Cons by auto
    with t False show ?thesis by (intro exI [of _ "t # ts"]) (simp add: ret_bind_def)
  qed
qed simp

lemma rdn_unprintable: "\<not> list_all (printable g) r \<Longrightarrow> rdn2strlen strval2strlen g r = failed"
proof (induction r)
  case (Cons a as)
  show ?case
  proof (cases "printable g a")
    case True
    then have "\<exists>l. ava_len strval2strlen g a = ok l"
      by (cases "on (la_flags a) LDAP_AVA_BINARY") (auto simp: printable_def ava_len_def strval2strlen_def)
    then obtain l where "ava_len strval2strlen g a = ok l" by blast
    with True Cons show ?thesis by (simp add: ret_bind_def)
  qed (simp add: ava_unprintable ret_bind_def)
qed simp

text \<open>A name: the printed text without its final comma.\<close>

fun dn_text :: "dn \<Rightarrow> string list list \<Rightarrow> string" where
  "dn_text (r # rs) (ts # tss) = rdn_text r ts @ (if rs = [] then [] else CHR '','' # dn_text rs tss)"
| "dn_text _ _ = []"

definition rdn_prints :: "dn_flags \<Rightarrow> rdn \<Rightarrow> string list \<Rightarrow> bool" where
  "rdn_prints f r ts \<longleftrightarrow> r \<noteq> [] \<and> list_all2 (ava_prints f) r ts"

lemma dn_printable:
  assumes "dn \<noteq> []" "list_all (\<lambda>r. r \<noteq> [] \<and> list_all (good_ava f) r) dn" "list_all (list_all (printable g)) dn"
  shows "\<exists>tss. list_all2 (rdn_prints f) dn tss
    \<and> sum_lens (rdn2strlen strval2strlen g) dn = ok (length (dn_text dn tss) + 1)
    \<and> cat_texts (rdn2str strval2str g) dn = ok (dn_text dn tss @ '','')"
  using assms
proof (induction dn)
  case (Cons r rs)
  obtain ts where ts: "list_all2 (ava_prints f) r ts" "rdn2strlen strval2strlen g r = ok (length (rdn_text r ts) + 1)"
      "rdn2str strval2str g r = ok (rdn_text r ts @ '','')"
    using rdn_printable [of r g f] Cons.prems by auto
  show ?case
  proof (cases "rs = []")
    case True
    with ts Cons.prems show ?thesis by (intro exI [of _ "[ts]"]) (simp add: ret_bind_def rdn_prints_def)
  next
    case False
    then obtain tss where "list_all2 (rdn_prints f) rs tss"
        "sum_lens (rdn2strlen strval2strlen g) rs = ok (length (dn_text rs tss) + 1)"
        "cat_texts (rdn2str strval2str g) rs = ok (dn_text rs tss @ '','')" using Cons by auto
    with ts False Cons.prems show ?thesis
      by (intro exI [of _ "ts # tss"]) (simp add: ret_bind_def rdn_prints_def [of f r])
  qed
qed simp

lemma rdn2strlen_returns: "rdn2strlen strval2strlen g r \<noteq> None"
  using ava_len_returns by (induction r) (auto simp: ret_bind_def split: option.splits)

lemma dn_unprintable:
  "\<not> list_all (list_all (printable g)) dn \<Longrightarrow> sum_lens (rdn2strlen strval2strlen g) dn = failed"
proof (induction dn)
  case (Cons r rs)
  show ?case
  proof (cases "list_all (printable g) r")
    case True
    with Cons rdn2strlen_returns [of g r] show ?thesis by (auto simp: ret_bind_def split: option.splits)
  qed (simp add: rdn_unprintable ret_bind_def)
qed simp

lemma rdn_text_Nil: "rdn_prints f r ts \<Longrightarrow> rdn_text r ts \<noteq> []"
  by (cases r; cases ts) (auto simp: rdn_prints_def)

lemma dn_run_text:
  assumes "list_all2 (rdn_prints f) dn tss" "dn \<noteq> []" "LDAP_DN_LDAPV3 f \<or> LDAP_DN_LDAP f" "\<not> on f LDAP_DN_SKIP"
    "drop p str = dn_text dn tss" "NUL \<notin> set str"
  shows "dn_run f str (length str) p acc = Some (LDAP_SUCCESS, acc @ dn)"
  using assms
proof (induction dn tss arbitrary: p acc rule: list_all2_induct)
  case (Cons r rs ts tss)
  let ?n = "length (rdn_text r ts)" and ?u = "if rs = [] then [] else CHR '','' # dn_text rs tss"
  have d: "drop p str = rdn_text r ts @ ?u" using Cons.prems(4) by simp
  have r: "r \<noteq> []" "list_all2 (ava_prints f) r ts" using Cons.hyps(1) by (simp_all add: rdn_prints_def)
  have ne: "rdn_text r ts \<noteq> []" using rdn_text_Nil [OF Cons.hyps(1)] .
  then have p: "p < length str" using d by (cases "p < length str") auto
  have fmt: "parse_format f" using Cons.prems(2) by (auto simp: parse_format_def)
  have dce: "\<not> LDAP_DN_DCE f" using Cons.prems(2) dn_format_excl by blast
  have "rdn_run f (drop p str) (length (drop p str)) rdn_start = Some (LDAP_SUCCESS, r, ?n)"
    using rdn_run_text [OF r(2,1), of rdn_start "drop p str" ?u] d Cons.prems(2,3) by (simp add: rdn_start_def)
  then have run: "ldap_bv2rdn_x f \<lparr>bv_len = length str - p, bv_val = drop p str\<rparr> = Some (LDAP_SUCCESS, r, ?n)"
    using p fmt by (simp add: ldap_bv2rdn_x_def)
  have len: "length str = p + ?n + length ?u" using arg_cong [OF d, of length] p by simp
  show ?case
  proof (cases "rs = []")
    case True
    then have "length str \<le> p + ?n" using len by simp
    then show ?thesis using p run dce True by (subst dn_run.simps) simp
  next
    case False
    have comma: "byte str (p + ?n) = CHR '',''" using byte_behind [of p str "rdn_text r ts"] d False by simp
    have sep: "rdn_sep_ok f (CHR '','')" using Cons.prems(2) by (auto simp: rdn_sep_ok_def LDAP_DN_RDN_SEP_V2_def)
    have "drop (p + ?n + 1) str = drop (?n + 1) (drop p str)" by (simp add: ac_simps)
    then have next_text: "drop (p + ?n + 1) str = dn_text rs tss" using d False by simp
    have less: "p + ?n < length str" using len False by simp
    have "dn_run f str (length str) p acc = dn_run f str (length str) (p + ?n + 1) (acc @ [r])"
      using p run comma sep less by (subst dn_run.simps) (simp add: Let_def)
    then show ?thesis using Cons.IH [OF False Cons.prems(2,3) next_text Cons.prems(5)] by simp
  qed
qed simp

lemma spells_no_NUL: "spells s v \<Longrightarrow> NUL \<notin> set s"
proof (induction rule: spells.induct)
  case (hex s v c)
  obtain x y where xy: "hexesc c = [BSLASH, x, y]" "x \<noteq> NUL" "hexstr2bin (x # y # []) = Some c"
    using hexesc_shape [of c "[]"] by blast
  then have "xdigit y \<noteq> None" by (auto simp: hexstr2bin_def byte_def bind_eq_Some_conv)
  moreover have "xdigit NUL = None" by code_simp
  ultimately have "y \<noteq> NUL" by auto
  with hex xy show ?case by auto
qed (auto simp: self_char_def)


lemma ava_no_NUL: "ava_prints f a t \<Longrightarrow> NUL \<notin> set (la_attr a @ CHR ''='' # t)"
proof -
  assume a: "ava_prints f a t"
  have oid: "NUL \<notin> set s" if "oid_ok s" for s
    using that
  proof (induction s rule: oid_ok.induct)
    case (1 s)
    have "NUL \<notin> set (takeWhile isdigit s)" using digit_props by (metis set_takeWhileD)
    moreover have "NUL \<notin> set (dropWhile isdigit s)"
    proof (cases "dropWhile isdigit s")
      case (Cons c cs)
      with 1 oid_ok.simps [of s] show ?thesis by auto
    next
      case Nil
      then show ?thesis by (simp only: Nil list.set empty_iff not_False_eq_True)
    qed
    ultimately show ?case by (metis Un_iff set_append takeWhile_dropWhile_id)
  qed
  have ldh: "\<not> LDAP_LDH NUL" by code_simp
  have hexstr: "NUL \<notin> set (binval2hexstr v)" for v
  proof (induction v)
    case (Cons c v)
    have "NUL \<notin> set (hexesc c @ [])" by (rule spells_no_NUL [of _ "[c]"]) (rule spells.hex [OF spells.nil])
    with Cons show ?case by (simp add: hexesc_def)
  qed simp
  have "NUL \<notin> set (la_attr a)"
    using a oid ldh by (auto simp: ava_prints_def good_ava_def name_ok_def list_all_iff)
  moreover have "NUL \<notin> set t"
    using a hexstr spells_no_NUL by (auto simp: ava_prints_def prints_def split: if_splits)
  ultimately show ?thesis by simp
qed

lemma rdn_no_NUL: "list_all2 (ava_prints f) r ts \<Longrightarrow> NUL \<notin> set (rdn_text r ts)"
  by (induction r ts rule: list_all2_induct) (use ava_no_NUL in auto)

lemma dn_no_NUL: "list_all2 (rdn_prints f) dn tss \<Longrightarrow> NUL \<notin> set (dn_text dn tss)"
  by (induction dn tss rule: list_all2_induct) (use rdn_no_NUL in \<open>auto simp: rdn_prints_def\<close>)

section \<open>The theorems\<close>

text \<open>C23. A name printed in the LDAPv3 format reads back: if its values are UTF-8, the printer fills exactly the
  buffer it has counted, and the parser, in LDAPv3 or in LDAP mode, returns the same types, values and
  flags; otherwise the printer reports an encoding error. The name must have types that are attribute
  names or OIDs, the flags the parser gives to such values, no empty binary value and, for a pedantic
  parser, no string value under an OID.\<close>

theorem dn_text_roundtrip:
  assumes "dn \<noteq> []" "list_all (\<lambda>r. r \<noteq> [] \<and> list_all (good_ava f) r) dn" "LDAP_DN_LDAPV3 g"
    "LDAP_DN_LDAPV3 f \<or> LDAP_DN_LDAP f" "\<not> on f LDAP_DN_SKIP"
  shows "if list_all (list_all (printable g)) dn
    then \<exists>s. ldap_dn2bv_x g dn = Some (LDAP_SUCCESS, s) \<and> NUL \<notin> set s \<and> ldap_bv2dn_x f (bv s) = Some (LDAP_SUCCESS, dn)
    else ldap_dn2bv_x g dn = Some (LDAP_ENCODING_ERROR, [])"
proof (cases "list_all (list_all (printable g)) dn")
  case True
  obtain tss where t: "list_all2 (rdn_prints f) dn tss" "sum_lens (rdn2strlen strval2strlen g) dn = ok (length (dn_text dn tss) + 1)"
      "cat_texts (rdn2str strval2str g) dn = ok (dn_text dn tss @ '','')"
    using dn_printable [OF assms(1,2) True] by blast
  let ?s = "dn_text dn tss"
  have "?s \<noteq> []" using t(1) assms(1) rdn_text_Nil by (cases dn; cases tss) fastforce+
  moreover have "dn_run f ?s (length ?s) 0 [] = Some (LDAP_SUCCESS, dn)"
    using dn_run_text [OF t(1) assms(1,4,5), of 0 ?s "[]"] dn_no_NUL [OF t(1)] by simp
  moreover have "parse_format f" using assms(4) by (auto simp: parse_format_def)
  moreover have "\<not> LDAP_DN_LDAPV2 f" "\<not> LDAP_DN_DCE f" using assms(4) dn_format_excl by blast+
  ultimately have "ldap_bv2dn_x f (bv ?s) = Some (LDAP_SUCCESS, dn)" by (simp add: ldap_bv2dn_x_def)
  moreover have "ldap_dn2bv_x g dn = Some (LDAP_SUCCESS, ?s)"
    using t assms(1,3) by (simp add: ldap_dn2bv_x_def LDAP_DN_LDAPV3_def print_dn_def)
  ultimately show ?thesis using True dn_no_NUL [OF t(1)] by auto
next
  case False
  with dn_unprintable assms(1,3) show ?thesis by (simp add: ldap_dn2bv_x_def LDAP_DN_LDAPV3_def print_dn_def)
qed

text \<open>C24. The parser of names returns for every text without NUL characters, every length and all flags: no assertion fails, no
  impossible case is reached and its state machine ends. A name it accepts has only RDNs with at least
  one assertion, each with a type and with one of the three kinds of values as its flag.\<close>

theorem dn_parser_returns:
  assumes "NUL \<notin> set (bv_val b)"
  shows "\<exists>rc dn. ldap_bv2dn_x f b = Some (rc, dn) \<and>
    (rc = LDAP_SUCCESS \<and> \<not> on f LDAP_DN_SKIP \<longrightarrow> list_all (\<lambda>r. r \<noteq> [] \<and> list_all parsed_ava r) dn)"
proof -
  have run: "\<exists>rc dn. dn_run f str e p [] = Some (rc, dn)
      \<and> (rc = LDAP_SUCCESS \<and> \<not> on f LDAP_DN_SKIP \<longrightarrow> list_all (\<lambda>r. r \<noteq> [] \<and> list_all parsed_ava r) dn)"
    if "parse_format f" "e \<le> length str" "NUL \<notin> set str" for str e p
    using dn_run_returns [OF that, of "[]" p] by (auto simp: parsed_rdn_def list_all_iff)
  have "NUL \<notin> set (drop 1 (bv_val b))" using assms by (metis in_set_dropD)
  with run assms show ?thesis
    by (simp add: ldap_bv2dn_x_def Let_def LDAP_DECODING_ERROR_def LDAP_PARAM_ERROR_def LDAP_SUCCESS_def not_less)
qed

section \<open>Small names\<close>

definition sample_dn :: dn where
  "sample_dn =
     [[\<lparr>la_attr = ''cn'', la_value = '' a,b'', la_flags = 0x21\<rparr>, \<lparr>la_attr = ''2.5.4.4'', la_value = [CHR 0xC3, CHR 0xA9], la_flags = 0x24\<rparr>],
      [\<lparr>la_attr = ''dc'', la_value = [NUL, CHR 0x04], la_flags = 0x22\<rparr>]]"

lemma sample_dn_good:
  "list_all (\<lambda>r. r \<noteq> [] \<and> list_all (good_ava LDAP_DN_FORMAT_LDAP) r) sample_dn" "list_all (list_all (printable LDAP_DN_FORMAT_LDAPV3)) sample_dn"
  by code_simp+

theorem dn_text_roundtrip_witness:
  "ldap_dn2bv_x LDAP_DN_FORMAT_LDAPV3 sample_dn = Some (LDAP_SUCCESS, ''cn='' @ [BSLASH] @ ''20a'' @ [BSLASH] @ ''2Cb+2.5.4.4='' @ [BSLASH] @ ''C3'' @ [BSLASH] @ ''A9,dc=#0004'') \<and>
   ldap_bv2dn_x LDAP_DN_FORMAT_LDAP (bv (''cn='' @ [BSLASH] @ ''20a'' @ [BSLASH] @ ''2Cb+2.5.4.4='' @ [BSLASH] @ ''C3'' @ [BSLASH] @ ''A9,dc=#0004'')) = Some (LDAP_SUCCESS, sample_dn)"
proof -
  have "ldap_dn2bv_x LDAP_DN_FORMAT_LDAPV3 sample_dn = Some (LDAP_SUCCESS, ''cn='' @ [BSLASH] @ ''20a'' @ [BSLASH] @ ''2Cb+2.5.4.4='' @ [BSLASH] @ ''C3'' @ [BSLASH] @ ''A9,dc=#0004'')"
    by code_simp
  moreover have "sample_dn \<noteq> []" "LDAP_DN_LDAPV3 LDAP_DN_FORMAT_LDAPV3" "LDAP_DN_LDAP LDAP_DN_FORMAT_LDAP" "\<not> on LDAP_DN_FORMAT_LDAP LDAP_DN_SKIP"
    by code_simp+
  ultimately show ?thesis
    using dn_text_roundtrip [of sample_dn LDAP_DN_FORMAT_LDAP LDAP_DN_FORMAT_LDAPV3] sample_dn_good by auto
qed

theorem dn_parser_returns_witness:
  "\<exists>rc dn. ldap_bv2dn_x (LDAP_DN_FORMAT_LDAPV2 OR LDAP_DN_PEDANTIC) (bv ''<cn=a;oid.2.5.4.3>'') = Some (rc, dn)"
  using dn_parser_returns [of "bv ''<cn=a;oid.2.5.4.3>''" "LDAP_DN_FORMAT_LDAPV2 OR LDAP_DN_PEDANTIC"] by auto

section \<open>Deviations\<close>

text \<open>A name is parsed in LDAP mode and printed in the AD format through a buffer of the counted length; a
  value with a NUL, spelled as a hexadecimal escape, is written past its end.\<close>

lemma ad_canonical_overflows:
  "ldap_dn2ad_canonical (''cn=a'' @ [BSLASH] @ ''00bcdefgh'') = None"
  "ldap_dn2ad_canonical ''cn=a,dc=example,dc=com'' = Some (LDAP_SUCCESS, ''example.com/a'')"
  by code_simp+

text \<open>The text of the domain is moved with \<^verbatim>\<open>memcpy\<close> although source and target overlap when a component is shorter
  than the text behind it.\<close>

lemma domain_move_breaks: "ldap_dn2ufn ''cn=x,dc=a,dc=example'' = None"
  by code_simp

text \<open>In the AD format a name that is no domain gets the slash that is meant for pure domains.\<close>

lemma ad_slash_stays: "ldap_dn2ad_canonical ''cn=b,ou=c'' = Some (LDAP_SUCCESS, ''c/b/'')"
  by code_simp

text \<open>The closing bracket of an LDAPv2 name becomes part of its last value.\<close>

lemma bracket_stays:
  "ldap_str2dn LDAP_DN_FORMAT_LDAPV2 ''<cn=a>'' = Some (LDAP_SUCCESS, [[\<lparr>la_attr = ''cn'', la_value = ''a>'', la_flags = 0x21\<rparr>]])"
  by code_simp

text \<open>A component that cannot be printed ends the array of components, and with it the name.\<close>

lemma explode_forgets: "ldap_explode_dn (''cn='' @ [BSLASH] @ ''C3,dc=x'') False = ok []"
  by code_simp

end
