(* ===== verification/Schema_Check.thy ===== *)
theory Schema_Check
  imports Class_Table Dn_Text
begin

text \<open>
  The check that an entry conforms to the schema, \<^verbatim>\<open>servers/slapd/schema_check.c\<close>. The functions \<^verbatim>\<open>sat_check\<close> and \<^verbatim>\<open>soc_check\<close>
  of the schema are called through pointers and do not change the entry; the lookup of an attribute description comes from the
  operation, the RDN is read by the parser of \<^verbatim>\<open>Dn_Text\<close>. The texts of the errors are not modelled.
\<close>

definition LDAP_NAMING_VIOLATION :: int where "LDAP_NAMING_VIOLATION = 0x40"
definition LDAP_OBJECT_CLASS_VIOLATION :: int where "LDAP_OBJECT_CLASS_VIOLATION = 0x41"
definition LDAP_NO_OBJECT_CLASS_MODS :: int where "LDAP_NO_OBJECT_CLASS_MODS = 0x45"
definition LDAP_INVALID_DN_SYNTAX :: int where "LDAP_INVALID_DN_SYNTAX = 0x22"
definition SLAP_DISALLOW_AUX_WO_CR :: slap_mask where "SLAP_DISALLOW_AUX_WO_CR = 0x4000"

section \<open>The structural class\<close>

text \<open>The classes behind the names, \<open>None\<close> when one is not recognised.\<close>

fun find_classes :: "class_schema \<Rightarrow> string list \<Rightarrow> nat list option" where
  "find_classes cs [] = Some []"
| "find_classes cs (v # vs) =
     (case oc_bvfind cs v of None \<Rightarrow> None | Some c \<Rightarrow> map_option (Cons c) (find_classes cs vs))"

text \<open>The search for a common subclass among the classes that follow.\<close>

definition common_subclass :: "class_schema \<Rightarrow> nat \<Rightarrow> nat \<Rightarrow> nat list \<Rightarrow> bool option" where
  "common_subclass cs sc oc rest =
     first_true (\<lambda>xc. if soc_kind (oc_store cs xc) \<noteq> LDAP_SCHEMA_STRUCTURAL then Some False
                      else do { b \<leftarrow> is_object_subclass cs sc xc; if b then is_object_subclass cs oc xc else Some False }) rest"

text \<open>The loop over the classes; \<open>Inl\<close> is the error, \<open>Inr\<close> the structural class so far.\<close>

fun structural_loop :: "class_schema \<Rightarrow> nat option \<Rightarrow> nat list \<Rightarrow> (unit + nat option) option" where
  "structural_loop cs sc [] = Some (Inr sc)"
| "structural_loop cs sc (oc # rest) =
     (if soc_kind (oc_store cs oc) \<noteq> LDAP_SCHEMA_STRUCTURAL then structural_loop cs sc rest
      else (case sc of
              None \<Rightarrow> structural_loop cs (Some oc) rest
            | Some s \<Rightarrow> do {
                down \<leftarrow> is_object_subclass cs s oc;
                if down then structural_loop cs (Some oc) rest
                else do {
                  up \<leftarrow> is_object_subclass cs oc s;
                  common \<leftarrow> (if up then Some True else common_subclass cs s oc rest);
                  if common then structural_loop cs (Some s) rest else Some (Inl ()) } }))"

text \<open>The result code with the structural class and the array of classes.\<close>

definition structural_class :: "class_schema \<Rightarrow> string list \<Rightarrow> (int \<times> (nat \<times> nat list) option) option" where
  "structural_class cs ocs =
     (case find_classes cs ocs of
        None \<Rightarrow> Some (LDAP_OBJECT_CLASS_VIOLATION, None)
      | Some socs \<Rightarrow> do {
          r \<leftarrow> structural_loop cs None socs;
          Some (case r of
                  Inr (Some sc) \<Rightarrow> (LDAP_SUCCESS, Some (sc, socs))
                | _ \<Rightarrow> (LDAP_OBJECT_CLASS_VIOLATION, None)) })"

definition mods_structural_class :: "schema \<Rightarrow> class_schema \<Rightarrow> modification list \<Rightarrow> (int \<times> string option) option" where
  "mods_structural_class sc cs mods =
     (case filter (\<lambda>md. sm_desc md = si_ad_objectClass sc) mods of
        [ocmod] \<Rightarrow>
          (case sm_values ocmod of
             Some (v # vs) \<Rightarrow> do {
               (rc, r) \<leftarrow> structural_class cs (v # vs);
               Some (rc, map_option (\<lambda>(ssc, socs). soc_cname (oc_store cs ssc)) r) }
           | _ \<Rightarrow> Some (LDAP_OBJECT_CLASS_VIOLATION, None))
      | _ \<Rightarrow> Some (LDAP_OBJECT_CLASS_VIOLATION, None))"

section \<open>The check of an entry\<close>

text \<open>What the check takes from the operation, the database and the server: the two switches that turn it off, the
  forbidden features and the lookup of an attribute description.\<close>

record check_op =
  no_schema_check_db :: bool    \<comment> \<open>\<^verbatim>\<open>SLAP_NO_SCHEMA_CHECK(op->o_bd)\<close>\<close>
  no_schema_check :: bool       \<comment> \<open>\<^verbatim>\<open>get_no_schema_check(op)\<close>\<close>
  global_disallows :: slap_mask
  bv2ad :: "string \<Rightarrow> int \<times> nat"             \<comment> \<open>\<^verbatim>\<open>slap_bv2ad\<close>\<close>

abbreviation attr_at :: "schema \<Rightarrow> attribute \<Rightarrow> nat" where
  "attr_at sc a \<equiv> ad_type (ad_store sc (a_desc a))"

text \<open>The loop over the attributes; the places of the two special ones are kept, \<open>Inl\<close> is an error.\<close>

fun misc_checks :: "schema \<Rightarrow> class_schema \<Rightarrow> entry \<Rightarrow> bool \<Rightarrow> nat \<Rightarrow> attribute list \<Rightarrow> nat option \<Rightarrow> nat option
    \<Rightarrow> (int + nat option \<times> nat option) option" where
  "misc_checks sc cs e coll i [] asc aoc = Some (Inr (asc, aoc))"
| "misc_checks sc cs e coll i (a # as) asc aoc = do {
     ensure (vals_of a \<noteq> []);
     let rc = (case at_check cs (attr_at sc a) of None \<Rightarrow> LDAP_SUCCESS | Some f \<Rightarrow> f e a);
     if rc \<noteq> LDAP_SUCCESS then Some (Inl rc)
     else
       let asc' = (if a_desc a = si_ad_structuralObjectClass cs then Some i else asc);
           aoc' = (if a_desc a \<noteq> si_ad_structuralObjectClass cs \<and> a_desc a = si_ad_objectClass sc then Some i else aoc) in
       if \<not> coll \<and> sat_collective (type_of sc (a_desc a)) then Some (Inl LDAP_OBJECT_CLASS_VIOLATION)
       else if sat_single_value (type_of sc (a_desc a)) \<and> length (vals_of a) > 1 then Some (Inl LDAP_CONSTRAINT_VIOLATION)
       else misc_checks sc cs e coll (Suc i) as asc' aoc' }"

definition oc_check_required :: "schema \<Rightarrow> class_schema \<Rightarrow> entry \<Rightarrow> nat \<Rightarrow> nat option" where
  "oc_check_required sc cs e oc =
     List.find (\<lambda>at. \<not> list_ex (\<lambda>a. attr_at sc a = at) (e_attrs e)) (soc_required (oc_store cs oc))"

fun allowed_by :: "class_schema \<Rightarrow> nat \<Rightarrow> bool \<Rightarrow> nat list \<Rightarrow> int" where
  "allowed_by cs at nosc [] = LDAP_OBJECT_CLASS_VIOLATION"
| "allowed_by cs at nosc (oc # socs) =
     (if oc = si_oc_extensibleObject cs then LDAP_SUCCESS
      else if soc_kind (oc_store cs oc) \<noteq> LDAP_SCHEMA_ABSTRACT \<and> (nosc \<or> soc_kind (oc_store cs oc) = LDAP_SCHEMA_AUXILIARY) \<and>
        (at \<in> set (soc_required (oc_store cs oc)) \<or> at \<in> set (soc_allowed (oc_store cs oc))) then LDAP_SUCCESS
      else allowed_by cs at nosc socs)"

definition oc_check_allowed :: "schema \<Rightarrow> class_schema \<Rightarrow> nat \<Rightarrow> nat list \<Rightarrow> nat option \<Rightarrow> int" where
  "oc_check_allowed sc cs at socs soc =
     (if strcasecmp (sat_cname (at_store sc at)) ''objectClass'' = 0 then LDAP_SUCCESS
      else if sat_usage (at_store sc at) \<noteq> 0 then LDAP_SUCCESS
      else if (case soc of None \<Rightarrow> False
               | Some c \<Rightarrow> at \<in> set (soc_required (oc_store cs c)) \<or> at \<in> set (soc_allowed (oc_store cs c))) then LDAP_SUCCESS
      else allowed_by cs at (soc = None) socs)"

section \<open>Naming attributes\<close>

text \<open>One element of the RDN: the result code and the entry, to which the value may have been added.\<close>

definition naming_flags :: slap_mask where
  "naming_flags = SLAP_MR_VALUE_OF_ASSERTION_SYNTAX OR SLAP_MR_ATTRIBUTE_VALUE_NORMALIZED_MATCH"

definition naming_ava :: "schema \<Rightarrow> check_op \<Rightarrow> bool \<Rightarrow> bool \<Rightarrow> entry \<Rightarrow> ldapava \<Rightarrow> (int \<times> entry) option" where
  "naming_ava sc op manage add_naming e ava =
     (if has (la_flags ava) LDAP_AVA_BINARY then Some (LDAP_NAMING_VIOLATION, e)
      else let (rc, desc) = bv2ad op (la_attr ava) in
      if rc \<noteq> LDAP_SUCCESS then Some (rc, e)
      else let sat = type_of sc desc in
      if sat_usage sat \<noteq> 0 \<or> sat_collective sat \<or> \<not> manage \<and> sat_obsolete sat then Some (LDAP_NAMING_VIOLATION, e)
      else (case sat_equality sat of
        None \<Rightarrow> Some (LDAP_NAMING_VIOLATION, e)
      | Some mr \<Rightarrow>
          if smr_match (mr_store sc mr) = None then Some (LDAP_NAMING_VIOLATION, e)
          else (case attr_find (e_attrs e) desc of
            None \<Rightarrow>
              if add_naming then map_option (\<lambda>(_, e). (LDAP_SUCCESS, e)) (attr_merge_normalize_one sc e desc (la_value ava))
              else Some (LDAP_NAMING_VIOLATION, e)
          | Some a \<Rightarrow> do {
              (rc, _) \<leftarrow> attr_valfind sc a naming_flags (la_value ava);
              if rc = 0 then Some (LDAP_SUCCESS, e)
              else if rc = LDAP_NO_SUCH_ATTRIBUTE \<and> add_naming \<and> \<not> sat_single_value sat
              then map_option (\<lambda>(_, e). (LDAP_SUCCESS, e)) (attr_merge_normalize_one sc e desc (la_value ava))
              else Some (LDAP_NAMING_VIOLATION, e) })))"

fun naming_avas :: "schema \<Rightarrow> check_op \<Rightarrow> bool \<Rightarrow> bool \<Rightarrow> entry \<Rightarrow> ldapava list \<Rightarrow> (int \<times> entry) option" where
  "naming_avas sc op manage add_naming e [] = Some (LDAP_SUCCESS, e)"
| "naming_avas sc op manage add_naming e (ava # avas) = do {
     (rc, e) \<leftarrow> naming_ava sc op manage add_naming e ava;
     if rc \<noteq> LDAP_SUCCESS then Some (rc, e) else naming_avas sc op manage add_naming e avas }"

definition entry_naming_check :: "schema \<Rightarrow> check_op \<Rightarrow> bool \<Rightarrow> bool \<Rightarrow> entry \<Rightarrow> (int \<times> entry) option" where
  "entry_naming_check sc op manage add_naming e =
     (if e_name e = [] then Some (LDAP_SUCCESS, e)
      else do {
        (rc, rdn, _) \<leftarrow> ldap_bv2rdn_x LDAP_DN_FORMAT_LDAP (bv (e_name e));
        if rc \<noteq> LDAP_SUCCESS then Some (LDAP_INVALID_DN_SYNTAX, e) else naming_avas sc op manage add_naming e rdn })"

section \<open>Classes and content rule\<close>

text \<open>The search for an auxiliary subclass of an abstract class: \<^verbatim>\<open>xc\<close> after the loop.\<close>

fun abstract_loop :: "class_schema \<Rightarrow> nat \<Rightarrow> nat \<Rightarrow> nat option \<Rightarrow> (nat \<times> nat) list \<Rightarrow> nat option option" where
  "abstract_loop cs oc i xc [] = Some xc"
| "abstract_loop cs oc i xc ((j, c) # rest) =
     (if i = j then abstract_loop cs oc i xc rest
      else do {
        below \<leftarrow> (if soc_kind (oc_store cs c) = LDAP_SCHEMA_AUXILIARY then is_object_subclass cs oc c else Some False);
        if below then Some None else abstract_loop cs oc i (Some c) rest })"

definition aux_allowed :: "class_schema \<Rightarrow> check_op \<Rightarrow> content_rule option \<Rightarrow> nat \<Rightarrow> bool" where
  "aux_allowed cs op cr oc =
     (case cr of Some cr \<Rightarrow> oc \<in> set (scr_auxiliaries cr) | None \<Rightarrow> \<not> has (global_disallows op) SLAP_DISALLOW_AUX_WO_CR)"

text \<open>One class of the entry; the result code.\<close>

definition class_check :: "schema \<Rightarrow> class_schema \<Rightarrow> check_op \<Rightarrow> bool \<Rightarrow> entry \<Rightarrow> content_rule option \<Rightarrow> nat \<Rightarrow> nat list \<Rightarrow> nat \<Rightarrow> nat \<Rightarrow> int option" where
  "class_check sc cs op manage e cr soc socs i oc = (
     let c = oc_store cs oc; rc = (case soc_check c of None \<Rightarrow> LDAP_SUCCESS | Some f \<Rightarrow> f e) in
     if \<not> manage \<and> soc_obsolete c then Some LDAP_OBJECT_CLASS_VIOLATION
     else if rc \<noteq> LDAP_SUCCESS then Some rc
     else if soc_kind c = LDAP_SCHEMA_ABSTRACT then
       if oc = si_oc_top cs then Some LDAP_SUCCESS
       else do {
         below \<leftarrow> is_object_subclass cs oc soc;
         if below then Some LDAP_SUCCESS
         else do {
           xc \<leftarrow> abstract_loop cs oc i None (enumerate 0 socs);
           Some (if xc \<noteq> None then LDAP_OBJECT_CLASS_VIOLATION else LDAP_SUCCESS) } }
     else if soc_kind c \<noteq> LDAP_SCHEMA_STRUCTURAL \<or> oc = soc then
       if soc_kind c = LDAP_SCHEMA_AUXILIARY \<and> \<not> aux_allowed cs op cr oc then Some LDAP_OBJECT_CLASS_VIOLATION
       else Some (if oc_check_required sc cs e oc \<noteq> None then LDAP_OBJECT_CLASS_VIOLATION else LDAP_SUCCESS)
     else Some LDAP_SUCCESS)"

text \<open>The loop over the classes, with the flag \<^verbatim>\<open>extensible\<close>.\<close>

fun class_checks :: "schema \<Rightarrow> class_schema \<Rightarrow> check_op \<Rightarrow> bool \<Rightarrow> entry \<Rightarrow> content_rule option \<Rightarrow> nat \<Rightarrow> nat list \<Rightarrow> bool
    \<Rightarrow> (nat \<times> nat) list \<Rightarrow> (int \<times> bool) option" where
  "class_checks sc cs op manage e cr soc socs ext [] = Some (LDAP_SUCCESS, ext)"
| "class_checks sc cs op manage e cr soc socs ext ((i, oc) # rest) = do {
     rc \<leftarrow> class_check sc cs op manage e cr soc socs i oc;
     if rc \<noteq> LDAP_SUCCESS then Some (rc, ext)
     else class_checks sc cs op manage e cr soc socs
            (ext \<or> oc = si_oc_extensibleObject cs \<and> soc_kind (oc_store cs oc) \<noteq> LDAP_SCHEMA_ABSTRACT \<and>
             (soc_kind (oc_store cs oc) \<noteq> LDAP_SCHEMA_STRUCTURAL \<or> oc = soc)) rest }"

fun attrs_allowed :: "schema \<Rightarrow> class_schema \<Rightarrow> content_rule option \<Rightarrow> nat \<Rightarrow> nat list \<Rightarrow> attribute list \<Rightarrow> int" where
  "attrs_allowed sc cs cr soc socs [] = LDAP_SUCCESS"
| "attrs_allowed sc cs cr soc socs (a # as) = (
     let rc = (if (case cr of None \<Rightarrow> False | Some cr \<Rightarrow> attr_at sc a \<in> set (scr_required cr) \<or> attr_at sc a \<in> set (scr_allowed cr))
               then LDAP_SUCCESS else oc_check_allowed sc cs (attr_at sc a) socs (Some soc)) in
     if rc \<noteq> LDAP_SUCCESS then rc else attrs_allowed sc cs cr soc socs as)"

definition rule_check :: "schema \<Rightarrow> bool \<Rightarrow> entry \<Rightarrow> content_rule option \<Rightarrow> int" where
  "rule_check sc manage e cr =
     (case cr of
        None \<Rightarrow> LDAP_SUCCESS
      | Some cr \<Rightarrow>
          if \<not> manage \<and> scr_obsolete cr then LDAP_OBJECT_CLASS_VIOLATION
          else if list_ex (\<lambda>at. \<not> list_ex (\<lambda>a. attr_at sc a = at) (e_attrs e)) (scr_required cr) then LDAP_OBJECT_CLASS_VIOLATION
          else if list_ex (\<lambda>at. list_ex (\<lambda>a. attr_at sc a = at) (e_attrs e)) (scr_precluded cr) then LDAP_OBJECT_CLASS_VIOLATION
          else LDAP_SUCCESS)"

text \<open>From the search for the content rule to the end.\<close>

definition content_check :: "schema \<Rightarrow> class_schema \<Rightarrow> check_op \<Rightarrow> bool \<Rightarrow> entry \<Rightarrow> nat \<Rightarrow> nat list \<Rightarrow> int option" where
  "content_check sc cs op manage e soc socs = do {
     oid \<leftarrow> soc_oid (oc_store cs soc);
     let cr = cr_find cs oid;
     ensure (case cr of None \<Rightarrow> True | Some cr \<Rightarrow> scr_oid cr = oid);
     let rc = rule_check sc manage e cr;
     if rc \<noteq> LDAP_SUCCESS then Some rc
     else do {
       (rc, ext) \<leftarrow> class_checks sc cs op manage e cr soc socs False (enumerate 0 socs);
       Some (if rc \<noteq> LDAP_SUCCESS then rc else if ext then LDAP_SUCCESS else attrs_allowed sc cs cr soc socs (e_attrs e)) } }"

text \<open>The comparison of the structural class with the one the entry had: \<open>Inl\<close> is an error, \<open>Inr\<close> the entry and the place
  of the attribute that was replaced.\<close>

definition change_class :: "class_schema \<Rightarrow> bool \<Rightarrow> entry \<Rightarrow> nat option \<Rightarrow> nat \<Rightarrow> nat \<Rightarrow> (int \<times> entry + entry \<times> nat option) option" where
  "change_class cs manage e asc soc oc =
     (if \<not> manage \<and> soc_obsolete (oc_store cs soc) then Some (Inl (LDAP_OBJECT_CLASS_VIOLATION, e))
      else if soc = oc then Some (Inr (e, None))
      else if \<not> manage \<and> soc \<noteq> si_oc_glue cs then Some (Inl (LDAP_NO_OBJECT_CLASS_MODS, e))
      else do {
        i \<leftarrow> asc;
        let a = e_attrs e ! i;
        ensure (length (vals_of a) = 1 \<and> a_nvals a = Shared);
        Some (Inr (e\<lparr>e_attrs := (e_attrs e)[i := a\<lparr>a_vals := Some [soc_cname (oc_store cs oc)]\<rparr>]\<rparr>, Some i)) })"

definition find_structural :: "schema \<Rightarrow> class_schema \<Rightarrow> bool \<Rightarrow> entry \<Rightarrow> nat option \<Rightarrow> nat \<Rightarrow> (int \<times> entry + entry \<times> nat option) option" where
  "find_structural sc cs manage e asc oc =
     (case asc of
        None \<Rightarrow> do {
          (_, e) \<leftarrow> attr_merge_one sc e (si_ad_structuralObjectClass cs) (soc_cname (oc_store cs oc)) None;
          change_class cs manage e None oc oc }
      | Some i \<Rightarrow> do {
          ensure (length (vals_of (e_attrs e ! i)) = 1);
          case oc_bvfind cs (vals_of (e_attrs e ! i) ! 0) of
            None \<Rightarrow> Some (Inl (LDAP_OBJECT_CLASS_VIOLATION, e))
          | Some soc \<Rightarrow>
              if soc_kind (oc_store cs soc) \<noteq> LDAP_SCHEMA_STRUCTURAL then Some (Inl (LDAP_OTHER, e))
              else change_class cs manage e asc soc oc })"

text \<open>The part for a known structural class. The result code, the entry and \<^verbatim>\<open>*socp\<close>, the place of the structural class that
  was replaced.\<close>

definition check_classes :: "schema \<Rightarrow> class_schema \<Rightarrow> check_op \<Rightarrow> bool \<Rightarrow> bool \<Rightarrow> entry \<Rightarrow> nat option \<Rightarrow> nat \<Rightarrow> nat list
    \<Rightarrow> (int \<times> entry \<times> nat option) option" where
  "check_classes sc cs op manage add e asc oc socs = do {
     r \<leftarrow> find_structural sc cs manage e asc oc;
     case r of
       Inl (rc, e) \<Rightarrow> Some (rc, e, None)
     | Inr (e, socp) \<Rightarrow> do {
         (e, glue) \<leftarrow> is_entry_glue sc cs e;
         (rc, e) \<leftarrow> (if glue then Some (LDAP_SUCCESS, e) else entry_naming_check sc op manage add e);
         if rc \<noteq> LDAP_SUCCESS then Some (rc, e, socp)
         else do {
           rc \<leftarrow> content_check sc cs op manage e oc socs;
           Some (rc, e, socp) } } }"

definition entry_schema_check :: "schema \<Rightarrow> class_schema \<Rightarrow> check_op \<Rightarrow> bool \<Rightarrow> bool \<Rightarrow> entry \<Rightarrow> (int \<times> entry \<times> nat option) option" where
  "entry_schema_check sc cs op manage add e = do {
     (e, subentry) \<leftarrow> is_entry_subentry sc cs e;
     if no_schema_check_db op \<or> no_schema_check op then Some (LDAP_SUCCESS, e, None)
     else do {
       (e, coll) \<leftarrow> (if subentry then is_entry_collectiveAttributeSubentry sc cs e else Some (e, False));
       r \<leftarrow> misc_checks sc cs e coll 0 (e_attrs e) None None;
       case r of
         Inl rc \<Rightarrow> Some (rc, e, None)
       | Inr (asc, None) \<Rightarrow> Some (LDAP_OBJECT_CLASS_VIOLATION, e, None)
       | Inr (asc, Some aoc) \<Rightarrow>
           if asc = None \<and> \<not> add then Some (LDAP_OTHER, e, None)
           else do {
             (rc, r) \<leftarrow> structural_class cs (vals_of (e_attrs e ! aoc));
             case r of
               None \<Rightarrow> Some (rc, e, None)
             | Some (oc, socs) \<Rightarrow> check_classes sc cs op manage add e asc oc socs } } }"

section \<open>The structural class\<close>

abbreviation structural :: "class_schema \<Rightarrow> nat \<Rightarrow> bool" where
  "structural cs c \<equiv> soc_kind (oc_store cs c) = LDAP_SCHEMA_STRUCTURAL"

text \<open>The structural class that is a subclass of all structural classes of the entry.\<close>

definition most_specific :: "class_schema \<Rightarrow> nat list \<Rightarrow> nat \<Rightarrow> bool" where
  "most_specific cs socs s \<longleftrightarrow> s \<in> set socs \<and> structural cs s \<and>
     (\<forall>c\<in>set socs. structural cs c \<longrightarrow> (s, c) \<in> (supers cs)\<^sup>*)"

text \<open>The classes seen are superclasses of the current one or have a structural subclass among those to come.\<close>

definition pending_ok :: "class_schema \<Rightarrow> nat list \<Rightarrow> nat option \<Rightarrow> nat list \<Rightarrow> bool" where
  "pending_ok cs seen s rest \<longleftrightarrow>
     (case s of None \<Rightarrow> \<forall>c\<in>set seen. \<not> structural cs c
      | Some s \<Rightarrow> s \<in> set seen \<and> structural cs s \<and>
         (\<forall>c\<in>set seen. structural cs c \<longrightarrow> (s, c) \<in> (supers cs)\<^sup>* \<or>
            (\<exists>x\<in>set rest. structural cs x \<and> (x, c) \<in> (supers cs)\<^sup>*)))"

lemma common_subclass_decides:
  "ranked cs \<Longrightarrow> common_subclass cs s oc rest =
     Some (\<exists>x\<in>set rest. structural cs x \<and> (x, s) \<in> (supers cs)\<^sup>* \<and> (x, oc) \<in> (supers cs)\<^sup>*)"
  unfolding common_subclass_def
  by (subst first_true_ex [where P = "\<lambda>x. structural cs x \<and> (x, s) \<in> (supers cs)\<^sup>* \<and> (x, oc) \<in> (supers cs)\<^sup>*"])
    (auto simp: is_object_subclass_decides)

lemma pending_skip: "pending_ok cs seen s (oc # rest) \<Longrightarrow> \<not> structural cs oc \<Longrightarrow> pending_ok cs (seen @ [oc]) s rest"
  by (auto simp: pending_ok_def split: option.splits)

lemma pending_first: "pending_ok cs seen None (oc # rest) \<Longrightarrow> structural cs oc \<Longrightarrow> pending_ok cs (seen @ [oc]) (Some oc) rest"
  by (auto simp: pending_ok_def)

lemma pending_down:
  "pending_ok cs seen (Some s) (oc # rest) \<Longrightarrow> structural cs oc \<Longrightarrow> (oc, s) \<in> (supers cs)\<^sup>* \<Longrightarrow> pending_ok cs (seen @ [oc]) (Some oc) rest"
  unfolding pending_ok_def by (auto dest: rtrancl_trans)

lemma pending_keep:
  "pending_ok cs seen (Some s) (oc # rest) \<Longrightarrow> structural cs oc \<Longrightarrow>
   (s, oc) \<in> (supers cs)\<^sup>* \<or> (\<exists>x\<in>set rest. structural cs x \<and> (x, oc) \<in> (supers cs)\<^sup>*) \<Longrightarrow> pending_ok cs (seen @ [oc]) (Some s) rest"
  unfolding pending_ok_def by (auto; meson rtrancl_trans)

lemma pending_stuck:
  assumes "ranked cs" "pending_ok cs seen (Some s) (oc # rest)" "structural cs oc" "(oc, s) \<notin> (supers cs)\<^sup>*" "(s, oc) \<notin> (supers cs)\<^sup>*"
    "\<not> (\<exists>x\<in>set rest. structural cs x \<and> (x, s) \<in> (supers cs)\<^sup>* \<and> (x, oc) \<in> (supers cs)\<^sup>*)"
  shows "\<not> most_specific cs (seen @ oc # rest) m"
proof
  assume m: "most_specific cs (seen @ oc # rest) m"
  then have mo: "(m, oc) \<in> (supers cs)\<^sup>*" using assms(3) by (simp add: most_specific_def)
  have ms: "(m, s) \<in> (supers cs)\<^sup>*" using m assms(2) by (auto simp: most_specific_def pending_ok_def)
  have ne: "m \<noteq> oc" "m \<noteq> s" using mo ms assms(4,5) by auto
  have nr: "m \<notin> set rest" using m mo ms assms(6) by (auto simp: most_specific_def)
  then have "m \<in> set seen" "structural cs m" using m ne by (auto simp: most_specific_def)
  then consider "(s, m) \<in> (supers cs)\<^sup>*" | x where "x \<in> set (oc # rest)" "structural cs x" "(x, m) \<in> (supers cs)\<^sup>*"
    using assms(2) by (auto simp: pending_ok_def)
  then show False
  proof cases
    case 1 then show ?thesis using supers_antisym [OF assms(1) ms] ne by simp
  next
    case (2 x)
    moreover have "(m, x) \<in> (supers cs)\<^sup>*" using m 2 by (auto simp: most_specific_def)
    ultimately have "m = x" using supers_antisym [OF assms(1)] by blast
    then show ?thesis using 2 ne nr by auto
  qed
qed

definition specific_result :: "class_schema \<Rightarrow> nat list \<Rightarrow> (unit + nat option) option \<Rightarrow> bool" where
  "specific_result cs socs r =
     (case r of None \<Rightarrow> False | Some (Inr (Some s)) \<Rightarrow> most_specific cs socs s | Some _ \<Rightarrow> \<forall>m. \<not> most_specific cs socs m)"

lemma structural_loop_ok:
  assumes "ranked cs" "pending_ok cs seen s rest"
  shows "specific_result cs (seen @ rest) (structural_loop cs s rest)"
  using assms(2)
proof (induction rest arbitrary: seen s)
  case Nil
  then show ?case by (auto simp: specific_result_def pending_ok_def most_specific_def split: option.splits)
next
  case (Cons oc rest)
  show ?case
  proof (cases "structural cs oc")
    case False
    then show ?thesis using Cons.IH [OF pending_skip [OF Cons.prems]] by simp
  next
    case st: True
    show ?thesis
    proof (cases s)
      case None
      then show ?thesis using st Cons.IH [OF pending_first] Cons.prems by simp
    next
      case (Some t)
      note P = Cons.prems [unfolded Some]
      consider "(oc, t) \<in> (supers cs)\<^sup>*"
        | "(oc, t) \<notin> (supers cs)\<^sup>*" "(t, oc) \<in> (supers cs)\<^sup>* \<or> (\<exists>x\<in>set rest. structural cs x \<and> (x, t) \<in> (supers cs)\<^sup>* \<and> (x, oc) \<in> (supers cs)\<^sup>*)"
        | "(oc, t) \<notin> (supers cs)\<^sup>*" "(t, oc) \<notin> (supers cs)\<^sup>*" "\<not> (\<exists>x\<in>set rest. structural cs x \<and> (x, t) \<in> (supers cs)\<^sup>* \<and> (x, oc) \<in> (supers cs)\<^sup>*)"
        by blast
      then show ?thesis
      proof cases
        case 1
        then show ?thesis using st Some Cons.IH [OF pending_down [OF P st]] by (simp add: is_object_subclass_decides [OF assms(1)])
      next
        case 2
        then have "structural_loop cs (Some t) (oc # rest) = structural_loop cs (Some t) rest"
          using st by (auto simp: is_object_subclass_decides [OF assms(1)] common_subclass_decides [OF assms(1)])
        moreover have "pending_ok cs (seen @ [oc]) (Some t) rest" using 2(2) by (intro pending_keep [OF P st]) blast
        ultimately show ?thesis using Some Cons.IH [of "seen @ [oc]" "Some t"] by simp
      next
        case 3
        then show ?thesis using st Some pending_stuck [OF assms(1) P st 3]
          by (auto simp: specific_result_def is_object_subclass_decides [OF assms(1)] common_subclass_decides [OF assms(1)])
      qed
    qed
  qed
qed

lemma find_classes_map: "find_classes cs names = Some socs \<longleftrightarrow> map (oc_bvfind cs) names = map Some socs"
  by (induction names arbitrary: socs) (auto split: option.splits)

lemma most_specific_unique: "ranked cs \<Longrightarrow> most_specific cs socs a \<Longrightarrow> most_specific cs socs b \<Longrightarrow> a = b"
  unfolding most_specific_def by (meson supers_antisym)

lemma structural_class_iff:
  assumes "ranked cs"
  shows "\<exists>rc r. structural_class cs names = Some (rc, r) \<and>
    (case r of
       Some (s, socs) \<Rightarrow> rc = LDAP_SUCCESS \<and> map (oc_bvfind cs) names = map Some socs \<and> most_specific cs socs s
     | None \<Rightarrow> rc = LDAP_OBJECT_CLASS_VIOLATION \<and>
        (\<nexists>s socs. map (oc_bvfind cs) names = map Some socs \<and> most_specific cs socs s))"
proof (cases "find_classes cs names")
  case None
  then have "\<nexists>socs. map (oc_bvfind cs) names = map Some socs" by (metis find_classes_map option.distinct(1))
  with None show ?thesis by (auto simp: structural_class_def)
next
  case (Some socs)
  have u: "map (oc_bvfind cs) names = map Some socs' \<longleftrightarrow> socs' = socs" for socs'
    using Some by (metis find_classes_map option.inject)
  have "pending_ok cs [] None socs" by (simp add: pending_ok_def)
  from structural_loop_ok [OF assms this] Some show ?thesis
    by (auto simp: specific_result_def structural_class_def u split: option.splits sum.splits)
qed

section \<open>What a conforming entry is\<close>

definition types_of :: "schema \<Rightarrow> entry \<Rightarrow> nat set" where
  "types_of sc e = attr_at sc ` set (e_attrs e)"

definition auxiliary :: "class_schema \<Rightarrow> nat \<Rightarrow> bool" where
  "auxiliary cs c \<longleftrightarrow> soc_kind (oc_store cs c) = LDAP_SCHEMA_AUXILIARY"

definition mentions :: "class_schema \<Rightarrow> nat \<Rightarrow> nat \<Rightarrow> bool" where
  "mentions cs c at \<longleftrightarrow> at \<in> set (soc_required (oc_store cs c)) \<or> at \<in> set (soc_allowed (oc_store cs c))"

text \<open>A class of the entry: not obsolete, accepted by its own check; an abstract class stands above a structural or
  auxiliary class of the entry; an auxiliary class is allowed; the required attributes are there.\<close>

definition class_ok :: "schema \<Rightarrow> class_schema \<Rightarrow> check_op \<Rightarrow> bool \<Rightarrow> entry \<Rightarrow> content_rule option \<Rightarrow> nat \<Rightarrow> nat list \<Rightarrow> nat \<Rightarrow> bool" where
  "class_ok sc cs op manage e cr soc socs c \<longleftrightarrow>
     (manage \<or> \<not> soc_obsolete (oc_store cs c)) \<and>
     (case soc_check (oc_store cs c) of None \<Rightarrow> True | Some f \<Rightarrow> f e = LDAP_SUCCESS) \<and>
     (case soc_kind (oc_store cs c) of
        LDAP_SCHEMA_ABSTRACT \<Rightarrow> c = si_oc_top cs \<or> (\<exists>x\<in>set socs. (x = soc \<or> auxiliary cs x) \<and> (x, c) \<in> (supers cs)\<^sup>*)
      | LDAP_SCHEMA_STRUCTURAL \<Rightarrow> c = soc \<longrightarrow> set (soc_required (oc_store cs c)) \<subseteq> types_of sc e
      | LDAP_SCHEMA_AUXILIARY \<Rightarrow> aux_allowed cs op cr c \<and> set (soc_required (oc_store cs c)) \<subseteq> types_of sc e)"

text \<open>An attribute: named by the content rule, \<^verbatim>\<open>objectClass\<close>, operational, named by the structural or an auxiliary class,
  or anything when the entry is an extensible object.\<close>

definition type_allowed :: "schema \<Rightarrow> class_schema \<Rightarrow> content_rule option \<Rightarrow> nat \<Rightarrow> nat list \<Rightarrow> nat \<Rightarrow> bool" where
  "type_allowed sc cs cr soc socs at \<longleftrightarrow>
     (\<exists>r. cr = Some r \<and> at \<in> set (scr_required r) \<union> set (scr_allowed r)) \<or>
     strcasecmp (sat_cname (at_store sc at)) ''objectClass'' = 0 \<or> sat_usage (at_store sc at) \<noteq> 0 \<or>
     mentions cs soc at \<or> si_oc_extensibleObject cs \<in> set socs \<or> (\<exists>c\<in>set socs. auxiliary cs c \<and> mentions cs c at)"

definition rule_ok :: "schema \<Rightarrow> bool \<Rightarrow> entry \<Rightarrow> content_rule option \<Rightarrow> bool" where
  "rule_ok sc manage e cr \<longleftrightarrow>
     (\<forall>r. cr = Some r \<longrightarrow> (manage \<or> \<not> scr_obsolete r) \<and> set (scr_required r) \<subseteq> types_of sc e \<and> set (scr_precluded r) \<inter> types_of sc e = {})"

definition rule_for :: "class_schema \<Rightarrow> nat \<Rightarrow> content_rule option" where
  "rule_for cs soc = Option.bind (soc_oid (oc_store cs soc)) (cr_find cs)"

definition conforms :: "schema \<Rightarrow> class_schema \<Rightarrow> check_op \<Rightarrow> bool \<Rightarrow> entry \<Rightarrow> nat \<Rightarrow> nat list \<Rightarrow> bool" where
  "conforms sc cs op manage e soc socs \<longleftrightarrow> (
     let cr = rule_for cs soc in
     rule_ok sc manage e cr \<and> (\<forall>c\<in>set socs. class_ok sc cs op manage e cr soc socs c) \<and>
     (\<forall>at\<in>types_of sc e. type_allowed sc cs cr soc socs at))"

lemmas code_differs = LDAP_SUCCESS_def LDAP_OBJECT_CLASS_VIOLATION_def

lemma list_ex_type: "list_ex (\<lambda>a. attr_at sc a = at) (e_attrs e) \<longleftrightarrow> at \<in> types_of sc e"
  by (auto simp: list_ex_iff types_of_def)

lemma rule_check_ok: "rule_check sc manage e cr = LDAP_SUCCESS \<longleftrightarrow> rule_ok sc manage e cr"
  unfolding rule_check_def rule_ok_def list_ex_type by (auto simp: list_ex_iff code_differs split: option.splits)

lemma check_required_none: "oc_check_required sc cs e c = None \<longleftrightarrow> set (soc_required (oc_store cs c)) \<subseteq> types_of sc e"
  by (auto simp: oc_check_required_def find_None_iff list_ex_type)

lemma allowed_by_ok:
  "allowed_by cs at False socs = LDAP_SUCCESS \<longleftrightarrow>
     si_oc_extensibleObject cs \<in> set socs \<or> (\<exists>c\<in>set socs. auxiliary cs c \<and> mentions cs c at)"
  by (induction socs) (auto simp: code_differs auxiliary_def mentions_def)

lemma attrs_allowed_ok:
  "attrs_allowed sc cs cr soc socs as = LDAP_SUCCESS \<longleftrightarrow> (\<forall>a\<in>set as. type_allowed sc cs cr soc socs (attr_at sc a))"
proof (induction as)
  case (Cons a as)
  have "(if (case cr of None \<Rightarrow> False | Some cr \<Rightarrow> attr_at sc a \<in> set (scr_required cr) \<or> attr_at sc a \<in> set (scr_allowed cr))
     then LDAP_SUCCESS else oc_check_allowed sc cs (attr_at sc a) socs (Some soc)) = LDAP_SUCCESS \<longleftrightarrow> type_allowed sc cs cr soc socs (attr_at sc a)"
    using allowed_by_ok [of cs "attr_at sc a" socs]
    by (auto simp: oc_check_allowed_def type_allowed_def mentions_def split: option.splits)
  then show ?case using Cons by (simp add: Let_def)
qed simp

lemma abstract_loop_ok:
  assumes "ranked cs"
  shows "\<exists>r. abstract_loop cs oc i xc l = Some r \<and>
    (r = None \<longleftrightarrow> (\<exists>(j, c)\<in>set l. j \<noteq> i \<and> auxiliary cs c \<and> (c, oc) \<in> (supers cs)\<^sup>*) \<or> xc = None \<and> (\<forall>(j, c)\<in>set l. j = i))"
proof (induction l arbitrary: xc)
  case (Cons p l)
  obtain j c where p: "p = (j, c)" by (cases p)
  show ?case using Cons [of xc] Cons [of "Some c"]
    by (auto simp: p is_object_subclass_decides [OF assms] auxiliary_def)
qed simp

lemma class_check_ok:
  assumes "ranked cs" "structural cs soc" "soc \<in> set socs" "i < length socs" "c = socs ! i"
  shows "\<exists>rc. class_check sc cs op manage e cr soc socs i c = Some rc \<and> (rc = LDAP_SUCCESS \<longleftrightarrow> class_ok sc cs op manage e cr soc socs c)"
proof (cases "soc_kind (oc_store cs c)")
  case LDAP_SCHEMA_ABSTRACT
  obtain r where r: "abstract_loop cs c i None (enumerate 0 socs) = Some r"
    "r = None \<longleftrightarrow> (\<exists>(j, x)\<in>set (enumerate 0 socs). j \<noteq> i \<and> auxiliary cs x \<and> (x, c) \<in> (supers cs)\<^sup>*) \<or> (\<forall>(j, x)\<in>set (enumerate 0 socs). j = i)"
    using abstract_loop_ok [OF assms(1), of c i None "enumerate 0 socs"] by auto
  obtain k where k: "k < length socs" "socs ! k = soc" using assms(3) by (auto simp: in_set_conv_nth)
  then have "k \<noteq> i" using assms(2,5) LDAP_SCHEMA_ABSTRACT by auto
  moreover have "(k, soc) \<in> set (enumerate 0 socs)" using k by (simp add: in_set_enumerate_eq)
  ultimately have "\<not> (\<forall>(j, x)\<in>set (enumerate 0 socs). j = i)" by blast
  moreover have "(\<exists>(j, x)\<in>set (enumerate 0 socs). j \<noteq> i \<and> auxiliary cs x \<and> (x, c) \<in> (supers cs)\<^sup>*) \<longleftrightarrow>
      (\<exists>x\<in>set socs. auxiliary cs x \<and> (x, c) \<in> (supers cs)\<^sup>*)"
  proof
    assume "\<exists>x\<in>set socs. auxiliary cs x \<and> (x, c) \<in> (supers cs)\<^sup>*"
    then obtain j where j: "j < length socs" "auxiliary cs (socs ! j)" "(socs ! j, c) \<in> (supers cs)\<^sup>*" by (auto simp: in_set_conv_nth)
    then have "j \<noteq> i" "(j, socs ! j) \<in> set (enumerate 0 socs)"
      using assms(5) LDAP_SCHEMA_ABSTRACT by (auto simp: in_set_enumerate_eq auxiliary_def)
    with j show "\<exists>(j, x)\<in>set (enumerate 0 socs). j \<noteq> i \<and> auxiliary cs x \<and> (x, c) \<in> (supers cs)\<^sup>*" by blast
  qed (auto simp: in_set_enumerate_eq)
  ultimately have "r = None \<longleftrightarrow> (\<exists>x\<in>set socs. auxiliary cs x \<and> (x, c) \<in> (supers cs)\<^sup>*)" using r(2) by blast
  then show ?thesis using LDAP_SCHEMA_ABSTRACT r(1) assms(3)
    by (auto simp: class_check_def class_ok_def Let_def is_object_subclass_decides [OF assms(1)] code_differs split: option.splits)
qed (use assms in \<open>auto simp: class_check_def class_ok_def Let_def check_required_none code_differs split: option.splits\<close>)

lemma class_checks_ok:
  assumes "ranked cs" "structural cs soc" "soc \<in> set socs" "\<forall>(i, c)\<in>set l. i < length socs \<and> c = socs ! i"
  shows "\<exists>rc ext'. class_checks sc cs op manage e cr soc socs ext l = Some (rc, ext') \<and>
    (rc = LDAP_SUCCESS \<longleftrightarrow> (\<forall>c\<in>snd ` set l. class_ok sc cs op manage e cr soc socs c)) \<and>
    (ext' \<longrightarrow> ext \<or> si_oc_extensibleObject cs \<in> snd ` set l)"
  using assms(4)
proof (induction l arbitrary: ext)
  case (Cons p l)
  obtain i c where p: "p = (i, c)" by (cases p)
  have ic: "i < length socs" "c = socs ! i" using Cons.prems p by auto
  obtain rc where "class_check sc cs op manage e cr soc socs i c = Some rc" "rc = LDAP_SUCCESS \<longleftrightarrow> class_ok sc cs op manage e cr soc socs c"
    using class_check_ok [OF assms(1-3) ic] by blast
  moreover have "\<forall>(i, c)\<in>set l. i < length socs \<and> c = socs ! i" using Cons.prems by simp
  ultimately show ?case using Cons.IH [of "ext \<or> c = si_oc_extensibleObject cs \<and> soc_kind (oc_store cs c) \<noteq> LDAP_SCHEMA_ABSTRACT \<and>
      (soc_kind (oc_store cs c) \<noteq> LDAP_SCHEMA_STRUCTURAL \<or> c = soc)"] by (auto simp: p)
qed simp

text \<open>The check of classes, content rule and attributes decides conformance.\<close>

definition rules_named :: "class_schema \<Rightarrow> nat \<Rightarrow> bool" where
  "rules_named cs soc \<longleftrightarrow> (\<exists>oid. soc_oid (oc_store cs soc) = Some oid \<and> (\<forall>cr. cr_find cs oid = Some cr \<longrightarrow> scr_oid cr = oid))"

lemma content_check_iff:
  assumes "ranked cs" "structural cs soc" "soc \<in> set socs" "rules_named cs soc"
  shows "\<exists>rc. content_check sc cs op manage e soc socs = Some rc \<and> (rc = LDAP_SUCCESS \<longleftrightarrow> conforms sc cs op manage e soc socs)"
proof -
  obtain oid where oid: "soc_oid (oc_store cs soc) = Some oid" "\<forall>cr. cr_find cs oid = Some cr \<longrightarrow> scr_oid cr = oid"
    using assms(4) by (auto simp: rules_named_def)
  let ?cr = "cr_find cs oid"
  have cr: "rule_for cs soc = ?cr" by (simp add: rule_for_def oid)
  have snd: "snd ` set (enumerate 0 socs) = set socs" by (simp flip: set_map)
  have "\<forall>(i, c)\<in>set (enumerate 0 socs). i < length socs \<and> c = socs ! i" by (auto simp: in_set_enumerate_eq)
  from class_checks_ok [OF assms(1-3) this, of sc op manage e ?cr False, unfolded snd] obtain rc ext where c: "class_checks sc cs op manage e ?cr soc socs False (enumerate 0 socs) = Some (rc, ext)"
    "rc = LDAP_SUCCESS \<longleftrightarrow> (\<forall>c\<in>set socs. class_ok sc cs op manage e ?cr soc socs c)" "ext \<longrightarrow> si_oc_extensibleObject cs \<in> set socs"
    by blast
  have t: "attrs_allowed sc cs ?cr soc socs (e_attrs e) = LDAP_SUCCESS \<longleftrightarrow> (\<forall>at\<in>types_of sc e. type_allowed sc cs ?cr soc socs at)"
    by (simp add: attrs_allowed_ok types_of_def)
  have x: "ext \<Longrightarrow> type_allowed sc cs ?cr soc socs at" for at using c(3) by (simp add: type_allowed_def)
  have "ensure (case ?cr of None \<Rightarrow> True | Some cr \<Rightarrow> scr_oid cr = oid) = Some ()"
    using oid(2) by (auto simp: ensure_def split: option.splits)
  then show ?thesis using c t x
    by (auto simp: content_check_def conforms_def Let_def rule_check_ok oid(1) cr)
qed

section \<open>The whole check\<close>

lemma insert_vals_desc: "insert_vals sc ps a = Some (rc, a') \<Longrightarrow> a_desc a' = a_desc a"
  by (induction sc ps a arbitrary: rc a' rule: insert_vals.induct)
    (fastforce simp: bind_eq_Some_conv insert_pair_def split: if_splits)+

lemma attr_valadd_desc: "attr_valadd sc a vals nvals nn = Some (rc, a') \<Longrightarrow> a_desc a' = a_desc a"
  by (auto simp: attr_valadd_def bind_eq_Some_conv Let_def dest!: insert_vals_desc split: if_splits option.splits)

lemma attr_valadd_new:
  "attr_valadd sc (attr_alloc sc d) [v] nvals 1 = Some (rc, a') \<Longrightarrow> a_desc a' = d \<and> length (vals_of a') = 1"
  by (auto simp: attr_valadd_def attr_alloc_def vals_of_def Let_def ensure_def split: if_splits option.splits)

lemma attr_find_set: "attr_find as d \<noteq> None \<longleftrightarrow> d \<in> a_desc ` set as"
  by (induction as) auto

text \<open>Merging a value keeps the attributes, adds its own, and gives a new attribute one value.\<close>

definition singles_ok :: "schema \<Rightarrow> entry \<Rightarrow> bool" where
  "singles_ok sc e \<longleftrightarrow> (\<forall>a\<in>set (e_attrs e). sat_single_value (type_of sc (a_desc a)) \<longrightarrow> length (vals_of a) \<le> 1)"

definition grows :: "schema \<Rightarrow> entry \<Rightarrow> entry \<Rightarrow> bool" where
  "grows sc e e' \<longleftrightarrow> e_name e' = e_name e \<and> e_ocflags e' = e_ocflags e \<and> (singles_ok sc e \<longrightarrow> singles_ok sc e') \<and>
     a_desc ` set (e_attrs e) \<subseteq> a_desc ` set (e_attrs e')"

lemma grows_refl [simp]: "grows sc e e"
  by (simp add: grows_def)

lemma grows_trans: "grows sc e e' \<Longrightarrow> grows sc e' e'' \<Longrightarrow> grows sc e e''"
  by (auto simp: grows_def)

lemma at_desc_grows:
  assumes "at_desc desc old new as = Some (rc, as')" "\<And>a rc a'. old a = Some (rc, a') \<Longrightarrow> a_desc a' = a_desc a"
    "\<And>rc a'. new = Some (rc, a') \<Longrightarrow> a_desc a' = desc \<and> length (vals_of a') = 1"
    "attr_find as desc \<noteq> None \<Longrightarrow> \<not> sat_single_value (type_of sc desc)"
    "\<forall>a\<in>set as. sat_single_value (type_of sc (a_desc a)) \<longrightarrow> length (vals_of a) \<le> 1"
  shows "(\<forall>a\<in>set as'. sat_single_value (type_of sc (a_desc a)) \<longrightarrow> length (vals_of a) \<le> 1)"
  using assms by (induction as arbitrary: as') (fastforce split: if_splits)+

lemma at_desc_keeps:
  assumes "at_desc desc old new as = Some (rc, as')" "\<And>a rc a'. old a = Some (rc, a') \<Longrightarrow> a_desc a' = a_desc a"
    "\<And>rc a'. new = Some (rc, a') \<Longrightarrow> a_desc a' = desc"
  shows "a_desc ` set as' = insert desc (a_desc ` set as)"
  using assms by (induction as arbitrary: as') (fastforce split: if_splits)+

lemma merge_one_grows:
  assumes "attr_merge_one sc e desc v nv = Some (rc, e')" "attr_find (e_attrs e) desc \<noteq> None \<Longrightarrow> \<not> sat_single_value (type_of sc desc)"
  shows "grows sc e e' \<and> desc \<in> a_desc ` set (e_attrs e')"
proof -
  let ?nvs = "map_option (\<lambda>nv. [nv]) nv"
  obtain as' where a: "at_desc desc (\<lambda>a. attr_valadd sc a [v] ?nvs 1) (attr_valadd sc (attr_alloc sc desc) [v] ?nvs 1) (e_attrs e) = Some (rc, as')"
    "e' = e\<lparr>e_attrs := as'\<rparr>"
    using assms(1) by (auto simp: attr_merge_one_def set_attrs_def Let_def)
  show ?thesis
    using at_desc_grows [OF a(1) _ _ assms(2)] at_desc_keeps [OF a(1)] a(2) attr_valadd_desc attr_valadd_new
    by (auto simp: grows_def singles_ok_def)
qed

lemma merge_normalize_one_grows:
  "attr_merge_normalize_one sc e desc v = Some (rc, e') \<Longrightarrow> (attr_find (e_attrs e) desc \<noteq> None \<Longrightarrow> \<not> sat_single_value (type_of sc desc)) \<Longrightarrow>
   grows sc e e' \<and> desc \<in> a_desc ` set (e_attrs e')"
  unfolding attr_merge_normalize_one_def Let_def by (auto split: prod.splits dest!: merge_one_grows)

subsection \<open>Naming values\<close>

text \<open>A value in the form in which it is searched: normalised, if the equality rule has a normaliser and the value is valid.\<close>

definition asserted_form :: "schema \<Rightarrow> nat \<Rightarrow> string \<Rightarrow> string \<Rightarrow> bool" where
  "asserted_form sc desc v w \<longleftrightarrow>
     (case Option.bind (sat_equality (type_of sc desc)) (\<lambda>m. smr_normalize (mr_store sc m)) of
        None \<Rightarrow> w = v
      | Some nf \<Rightarrow> \<exists>usage. let (rc, nv) = nf usage (Some (sat_syntax (type_of sc desc))) v in w = (if rc = LDAP_SUCCESS then nv else v))"

text \<open>The equality rule of the type finds the two values equal.\<close>

definition equal_value :: "schema \<Rightarrow> nat \<Rightarrow> slap_mask \<Rightarrow> string \<Rightarrow> string \<Rightarrow> bool" where
  "equal_value sc desc flags nv w \<longleftrightarrow> (\<exists>rc.
     value_match sc desc (sat_equality (type_of sc desc)) flags nv (Value w) = Some (rc, Some 0) \<or>
     ordered_value_match sc desc (sat_equality (type_of sc desc)) flags nv w = Some (rc, Some 0))"

definition has_equal :: "schema \<Rightarrow> attribute \<Rightarrow> slap_mask \<Rightarrow> string \<Rightarrow> bool" where
  "has_equal sc a flags w \<longleftrightarrow> (\<exists>nv\<in>set (nvals_of a). equal_value sc (a_desc a) flags nv w)"

text \<open>The attribute has the value itself or one that is equal to it.\<close>

definition holds_value :: "schema \<Rightarrow> attribute \<Rightarrow> string \<Rightarrow> bool" where
  "holds_value sc a v \<longleftrightarrow> v \<in> set (vals_of a) \<or>
     (\<exists>w. asserted_form sc (a_desc a) v w \<and> (has_equal sc a naming_flags w \<or> has_equal sc a valadd_flags w))"

lemma keep_match_0: "keep_match m r = 0 \<Longrightarrow> m \<noteq> 0 \<Longrightarrow> r = Some 0"
  by (auto simp: keep_match_def split: option.splits)

lemma lin_search_hit:
  "lin_search vm vs i rc m = Some (j, rc', 0) \<Longrightarrow> m \<noteq> 0 \<Longrightarrow> \<exists>v\<in>set vs. \<exists>r. vm v = Some (r, Some 0)"
proof (induction vs arbitrary: i rc m)
  case (Cons v vs)
  then obtain r k where vm: "vm v = Some (r, k)" by (auto simp: bind_eq_Some_conv)
  show ?case
  proof (cases "keep_match m k = 0")
    case True
    with vm keep_match_0 Cons.prems(2) show ?thesis by auto
  next
    case False
    with Cons vm show ?thesis by (fastforce simp: Let_def)
  qed
qed simp

lemma bin_search_hit:
  "bin_search vm vs b n m = Some (j, rc', 0) \<Longrightarrow> m \<noteq> 0 \<Longrightarrow> \<exists>v\<in>set vs. \<exists>r. vm v = Some (r, Some 0)"
proof (induction n arbitrary: b m rule: less_induct)
  case (less n)
  let ?i = "b + n div 2"
  obtain r k where i: "?i < length vs" and vm: "vm (vs ! ?i) = Some (r, k)"
    using less.prems(1) by (subst (asm) bin_search.simps) (auto simp: bind_eq_Some_conv Let_def ensure_def split: if_splits)
  show ?case
  proof (cases "keep_match m k = 0")
    case True
    with vm keep_match_0 less.prems(2) i show ?thesis by (auto intro!: bexI [of _ "vs ! ?i"])
  next
    case False
    then have "bin_search vm vs (?i + 1) (n - (n div 2 + 1)) (keep_match m k) = Some (j, rc', 0) \<and> n - (n div 2 + 1) < n \<or>
        bin_search vm vs b (n div 2) (keep_match m k) = Some (j, rc', 0) \<and> n div 2 < n"
      using less.prems(1) [unfolded bin_search.simps [of vm vs b n m]] i vm by (auto simp: Let_def ensure_def split: if_splits)
    then show ?thesis using less.IH False by blast
  qed
qed

text \<open>If the search does not report a missing value, it has found an equal one or refused to search.\<close>

lemma valfind_hit:
  assumes "attr_valfind sc a flags v = Some (rc, slot)" "rc \<noteq> LDAP_NO_SUCH_ATTRIBUTE" "\<not> has flags SLAP_MR_ORDERING"
  shows "(\<exists>rc' w. search_value sc (type_of sc (a_desc a)) flags (sat_equality (type_of sc (a_desc a))) v = Some (Inr (rc', w)) \<and> has_equal sc a flags w) \<or>
    search_value sc (type_of sc (a_desc a)) flags (sat_equality (type_of sc (a_desc a))) v = Some (Inl rc)"
proof -
  let ?s = "search_value sc (type_of sc (a_desc a)) flags (sat_equality (type_of sc (a_desc a))) v"
  obtain start where s: "?s = Some start" using assms(1,3) by (auto simp: attr_valfind_def Let_def bind_eq_Some_conv)
  show ?thesis
  proof (cases start)
    case (Inl r)
    with assms s show ?thesis by (simp add: attr_valfind_def Let_def)
  next
    case (Inr p)
    obtain rc' w where p: "p = (rc', w)" by (cases p)
    have "(\<exists>j r. bin_search (\<lambda>x. value_match sc (a_desc a) (sat_equality (type_of sc (a_desc a))) flags x (Value w)) (nvals_of a) 0 (a_numvals a) (- 1) = Some (j, r, 0)) \<or>
       (\<exists>j r. lin_search (\<lambda>x. ordered_value_match sc (a_desc a) (sat_equality (type_of sc (a_desc a))) flags x w) (take (a_numvals a) (nvals_of a)) 0 rc' (- 1) = Some (j, r, 0))"
      using assms s Inr p by (auto simp: attr_valfind_def Let_def bind_eq_Some_conv split: if_splits)
    then have "has_equal sc a flags w"
      unfolding has_equal_def equal_value_def by (auto dest!: bin_search_hit lin_search_hit dest: in_set_takeD)
    then show ?thesis using s Inr p by blast
  qed
qed

lemma insert_one_holds:
  assumes "insert_vals sc [p] a = Some (rc, a')" "a_vals a \<noteq> None"
  shows "fst p \<in> set (vals_of a') \<or> has_equal sc a' valadd_flags (normal p)"
proof -
  obtain r slot where f: "attr_valfind sc a valadd_flags (normal p) = Some (r, slot)" using assms(1) by (auto simp: bind_eq_Some_conv)
  show ?thesis
  proof (cases "r = LDAP_NO_SUCH_ATTRIBUTE")
    case True
    with assms f obtain i where "a' = insert_pair i p a" by (auto simp: bind_eq_Some_conv)
    with assms(2) show ?thesis by (auto simp: insert_pair_def vals_of_def insert_slot_def)
  next
    case False
    have fl: "\<not> has valadd_flags SLAP_MR_ORDERING" "has valadd_flags SLAP_MR_ASSERTED_VALUE_NORMALIZED_MATCH" by code_simp+
    have "a' = a" using assms(1) f False by auto
    with valfind_hit [OF f False fl(1)] fl(2) show ?thesis by (auto simp: search_value_def)
  qed
qed

lemma valadd_holds:
  assumes "attr_valadd sc a [v] (map_option (\<lambda>n. [n]) nv) 1 = Some (rc, a')"
  shows "v \<in> set (vals_of a') \<or> has_equal sc a' valadd_flags (case nv of None \<Rightarrow> v | Some n \<Rightarrow> n)"
proof (cases "has (a_flags a) SLAP_ATTR_SORTED_VALS \<and> a_numvals a \<noteq> 0")
  case True
  let ?a = "a\<lparr>a_vals := Some (vals_of a), a_nvals := (case nv of None \<Rightarrow> Shared | Some _ \<Rightarrow> Own (nvals_of a))\<rparr>"
  have "insert_vals sc [(v, nv)] ?a = Some (rc, a')"
    using assms True by (cases nv) (auto simp: attr_valadd_def Let_def ensure_def split: if_splits)
  from insert_one_holds [OF this] show ?thesis by (cases nv) (simp_all add: normal_def)
next
  case False
  have "vals_of a' = take (a_numvals a) (vals_of a) @ [v]"
  proof (cases nv)
    case None
    with assms False show ?thesis by (auto simp: attr_valadd_def Let_def ensure_def vals_of_def split: if_splits)
  next
    case (Some n)
    with assms False show ?thesis by (auto simp: attr_valadd_def Let_def ensure_def vals_of_def split: if_splits)
  qed
  then show ?thesis by simp
qed

lemma at_desc_target:
  assumes "at_desc desc old new as = Some (rc, as')" "\<And>a rc a'. old a = Some (rc, a') \<Longrightarrow> a_desc a' = a_desc a \<and> P a'"
    "\<And>rc a'. new = Some (rc, a') \<Longrightarrow> a_desc a' = desc \<and> P a'"
  shows "\<exists>a\<in>set as'. a_desc a = desc \<and> P a"
  using assms by (induction as arbitrary: as') (fastforce split: if_splits)+

lemma at_desc_frame: "at_desc desc old new as = Some (rc, as') \<Longrightarrow> a \<in> set as \<Longrightarrow> a_desc a \<noteq> desc \<Longrightarrow> a \<in> set as'"
  by (induction as arbitrary: as') (auto split: if_splits)

lemma merge_one_frame: "attr_merge_one sc e desc v nv = Some (rc, e') \<Longrightarrow> a \<in> set (e_attrs e) \<Longrightarrow> a_desc a \<noteq> desc \<Longrightarrow> a \<in> set (e_attrs e')"
  by (auto simp: attr_merge_one_def set_attrs_def Let_def dest: at_desc_frame)

lemma merge_one_holds:
  assumes "attr_merge_one sc e desc v nv = Some (rc, e')"
  shows "\<exists>a\<in>set (e_attrs e'). a_desc a = desc \<and> (v \<in> set (vals_of a) \<or> has_equal sc a valadd_flags (case nv of None \<Rightarrow> v | Some n \<Rightarrow> n))"
proof -
  obtain as' where a: "at_desc desc (\<lambda>a. attr_valadd sc a [v] (map_option (\<lambda>n. [n]) nv) 1) (attr_valadd sc (attr_alloc sc desc) [v] (map_option (\<lambda>n. [n]) nv) 1) (e_attrs e) = Some (rc, as')"
    "e_attrs e' = as'"
    using assms by (auto simp: attr_merge_one_def set_attrs_def Let_def)
  have "a_desc (attr_alloc sc desc) = desc" by (simp add: attr_alloc_def)
  with at_desc_target [OF a(1), of "\<lambda>a. v \<in> set (vals_of a) \<or> has_equal sc a valadd_flags (case nv of None \<Rightarrow> v | Some n \<Rightarrow> n)"]
    attr_valadd_desc valadd_holds a(2) show ?thesis by metis
qed

lemma merge_normalize_holds:
  assumes "attr_merge_normalize_one sc e desc v = Some (rc, e')"
  shows "\<exists>a\<in>set (e_attrs e'). a_desc a = desc \<and> holds_value sc a v"
proof -
  obtain rc' nval where n: "attr_normalize_one sc desc v = (rc', nval)" by (cases "attr_normalize_one sc desc v")
  let ?nv = "if rc' = LDAP_SUCCESS then nval else None"
  have m: "attr_merge_one sc e desc v ?nv = Some (rc, e')" using assms by (simp add: attr_merge_normalize_one_def n)
  have "asserted_form sc desc v (case ?nv of None \<Rightarrow> v | Some n \<Rightarrow> n)"
  proof (cases "Option.bind (sat_equality (type_of sc desc)) (\<lambda>m. smr_normalize (mr_store sc m))")
    case None
    then have "normalizer sc desc = None" by (auto simp: normalizer_def split: option.splits)
    with None n show ?thesis by (auto simp: asserted_form_def attr_normalize_one_def)
  next
    case (Some nf)
    then have "normalizer sc desc = Some (nf SLAP_MR_VALUE_OF_ATTRIBUTE_SYNTAX (Some (sat_syntax (type_of sc desc))))"
      by (auto simp: normalizer_def bind_eq_Some_conv)
    with n obtain nv where "nf SLAP_MR_VALUE_OF_ATTRIBUTE_SYNTAX (Some (sat_syntax (type_of sc desc))) v = (rc', nv)" "nval = Some nv"
      by (auto simp: attr_normalize_one_def split: prod.splits)
    with Some show ?thesis by (auto simp: asserted_form_def intro!: exI [of _ SLAP_MR_VALUE_OF_ATTRIBUTE_SYNTAX])
  qed
  with merge_one_holds [OF m] show ?thesis by (auto simp: holds_value_def)
qed

text \<open>An attribute and value of the RDN is there: a user attribute of the entry with this value.\<close>

definition named_by :: "schema \<Rightarrow> check_op \<Rightarrow> entry \<Rightarrow> ldapava \<Rightarrow> bool" where
  "named_by sc op e ava \<longleftrightarrow> (\<exists>desc. bv2ad op (la_attr ava) = (LDAP_SUCCESS, desc) \<and>
     sat_usage (type_of sc desc) = 0 \<and> \<not> sat_collective (type_of sc desc) \<and>
     (\<exists>a\<in>set (e_attrs e). a_desc a = desc \<and> holds_value sc a (la_value ava)))"

definition ava_desc :: "check_op \<Rightarrow> ldapava \<Rightarrow> nat" where
  "ava_desc op ava = snd (bv2ad op (la_attr ava))"

text \<open>The entry has grown, and attributes outside the set have not changed.\<close>

definition grows_in :: "schema \<Rightarrow> nat set \<Rightarrow> entry \<Rightarrow> entry \<Rightarrow> bool" where
  "grows_in sc D e e' \<longleftrightarrow> grows sc e e' \<and> (\<forall>a\<in>set (e_attrs e). a_desc a \<notin> D \<longrightarrow> a \<in> set (e_attrs e'))"

lemma grows_in_refl [simp]: "grows_in sc D e e"
  by (simp add: grows_in_def)

lemma grows_in_trans: "grows_in sc D e e' \<Longrightarrow> grows_in sc D' e' e'' \<Longrightarrow> grows_in sc (D \<union> D') e e''"
  using grows_trans by (fastforce simp: grows_in_def)

lemma named_by_grows: "named_by sc op e ava \<Longrightarrow> grows_in sc D e e' \<Longrightarrow> ava_desc op ava \<notin> D \<Longrightarrow> named_by sc op e' ava"
  by (fastforce simp: named_by_def grows_in_def ava_desc_def)

lemma merge_normalize_frame:
  "attr_merge_normalize_one sc e desc v = Some (rc, e') \<Longrightarrow> (attr_find (e_attrs e) desc \<noteq> None \<Longrightarrow> \<not> sat_single_value (type_of sc desc)) \<Longrightarrow>
   grows_in sc {desc} e e'"
  unfolding grows_in_def
  by (frule merge_normalize_one_grows) (auto simp: attr_merge_normalize_one_def split: prod.splits dest: merge_one_frame)

lemma attr_find_mem: "attr_find as d = Some a \<Longrightarrow> a \<in> set as \<and> a_desc a = d"
  by (induction as) (auto split: if_splits)

lemma naming_found:
  assumes "attr_valfind sc a naming_flags v = Some (LDAP_SUCCESS, slot)"
  shows "holds_value sc a v"
proof -
  have fl: "\<not> has naming_flags SLAP_MR_ORDERING" "\<not> has naming_flags SLAP_MR_ASSERTED_VALUE_NORMALIZED_MATCH" "LDAP_SUCCESS \<noteq> LDAP_NO_SUCH_ATTRIBUTE"
    "LDAP_INVALID_SYNTAX \<noteq> LDAP_SUCCESS" by code_simp+
  obtain rc' w where s: "search_value sc (type_of sc (a_desc a)) naming_flags (sat_equality (type_of sc (a_desc a))) v = Some (Inr (rc', w))"
    "has_equal sc a naming_flags w"
    using valfind_hit [OF assms fl(3,1)] fl by (auto simp: search_value_def Let_def split: option.splits prod.splits if_splits)
  have "asserted_form sc (a_desc a) v w"
  proof (cases "Option.bind (sat_equality (type_of sc (a_desc a))) (\<lambda>m. smr_normalize (mr_store sc m))")
    case None
    with s(1) fl(2) show ?thesis by (auto simp: search_value_def asserted_form_def split: option.splits)
  next
    case (Some nf)
    with s(1) fl(2) obtain rc nv where "nf (naming_flags AND usage_mask) (Some (sat_syntax (type_of sc (a_desc a)))) v = (rc, nv)" "rc = LDAP_SUCCESS" "w = nv"
      by (auto simp: search_value_def Let_def split: option.splits prod.splits if_splits)
    with Some show ?thesis by (auto simp: asserted_form_def intro!: exI [of _ "naming_flags AND usage_mask"])
  qed
  with s(2) show ?thesis by (auto simp: holds_value_def)
qed

lemma naming_ava_ok:
  assumes "naming_ava sc op manage add e ava = Some (LDAP_SUCCESS, e')"
  shows "grows_in sc {ava_desc op ava} e e' \<and> named_by sc op e' ava \<and> (\<not> add \<longrightarrow> e' = e)"
proof -
  obtain rc desc where b: "bv2ad op (la_attr ava) = (rc, desc)" by (cases "bv2ad op (la_attr ava)")
  have rc: "rc = LDAP_SUCCESS" and u: "sat_usage (type_of sc desc) = 0" "\<not> sat_collective (type_of sc desc)"
    using assms by (auto simp: naming_ava_def b Let_def LDAP_SUCCESS_def LDAP_NAMING_VIOLATION_def split: if_splits)
  consider a slot where "e' = e" "attr_find (e_attrs e) desc = Some a" "attr_valfind sc a naming_flags (la_value ava) = Some (LDAP_SUCCESS, slot)"
    | rc where "add" "attr_merge_normalize_one sc e desc (la_value ava) = Some (rc, e')" "attr_find (e_attrs e) desc \<noteq> None \<longrightarrow> \<not> sat_single_value (type_of sc desc)"
    using assms by (auto simp: naming_ava_def b rc Let_def bind_eq_Some_conv LDAP_NAMING_VIOLATION_def LDAP_SUCCESS_def
        split: if_splits option.splits)
  then show ?thesis
  proof cases
    case 1
    with attr_find_mem naming_found b rc u show ?thesis by (fastforce simp: named_by_def)
  next
    case 2
    with merge_normalize_holds [OF 2(2)] merge_normalize_frame [OF 2(2)] b rc u show ?thesis
      by (auto simp: named_by_def ava_desc_def)
  qed
qed

lemma naming_avas_ok:
  assumes "naming_avas sc op manage add e avas = Some (LDAP_SUCCESS, e')" "add \<longrightarrow> distinct (map (ava_desc op) avas)"
  shows "grows_in sc (ava_desc op ` set avas) e e' \<and> (\<forall>ava\<in>set avas. named_by sc op e' ava) \<and> (\<not> add \<longrightarrow> e' = e)"
  using assms
proof (induction avas arbitrary: e)
  case (Cons ava avas)
  then obtain e1 where e1: "naming_ava sc op manage add e ava = Some (LDAP_SUCCESS, e1)" "naming_avas sc op manage add e1 avas = Some (LDAP_SUCCESS, e')"
    by (auto simp: bind_eq_Some_conv split: if_splits)
  note a = naming_ava_ok [OF e1(1)]
  have as: "grows_in sc (ava_desc op ` set avas) e1 e'" "\<forall>ava\<in>set avas. named_by sc op e' ava" "\<not> add \<longrightarrow> e' = e1"
    using Cons.IH [OF e1(2)] Cons.prems(2) by auto
  have "named_by sc op e' ava"
  proof (cases add)
    case True
    then show ?thesis using a as(1) Cons.prems(2) by (auto intro: named_by_grows)
  qed (use a as(3) in auto)
  moreover have "grows_in sc (ava_desc op ` set (ava # avas)) e e'" using grows_in_trans [OF conjunct1 [OF a] as(1)] by simp
  ultimately show ?case using a as by auto
qed simp

definition well_named :: "schema \<Rightarrow> check_op \<Rightarrow> entry \<Rightarrow> bool" where
  "well_named sc op e \<longleftrightarrow> e_name e = [] \<or>
     (\<exists>rdn n. ldap_bv2rdn_x LDAP_DN_FORMAT_LDAP (bv (e_name e)) = Some (LDAP_SUCCESS, rdn, n) \<and> (\<forall>ava\<in>set rdn. named_by sc op e ava))"

text \<open>The descriptions of the attributes in the RDN.\<close>

definition naming_descs :: "check_op \<Rightarrow> entry \<Rightarrow> nat list" where
  "naming_descs op e = (case ldap_bv2rdn_x LDAP_DN_FORMAT_LDAP (bv (e_name e)) of None \<Rightarrow> [] | Some (rc, rdn, n) \<Rightarrow> map (ava_desc op) rdn)"

lemma entry_naming_check_ok:
  assumes "entry_naming_check sc op manage add e = Some (LDAP_SUCCESS, e')" "add \<longrightarrow> distinct (naming_descs op e)"
  shows "grows_in sc (if add then set (naming_descs op e) else {}) e e' \<and> well_named sc op e'"
proof (cases "e_name e = []")
  case False
  then obtain rdn n where r: "ldap_bv2rdn_x LDAP_DN_FORMAT_LDAP (bv (e_name e)) = Some (LDAP_SUCCESS, rdn, n)" "naming_avas sc op manage add e rdn = Some (LDAP_SUCCESS, e')"
    using assms(1) by (auto simp: entry_naming_check_def bind_eq_Some_conv LDAP_SUCCESS_def LDAP_INVALID_DN_SYNTAX_def split: if_splits)
  have d: "naming_descs op e = map (ava_desc op) rdn" by (simp add: naming_descs_def r(1))
  note n = naming_avas_ok [OF r(2) assms(2) [unfolded d]]
  then have "e_name e' = e_name e" by (simp add: grows_in_def grows_def)
  then show ?thesis using n r(1) by (auto simp: d well_named_def)
qed (use assms in \<open>auto simp: entry_naming_check_def well_named_def\<close>)

lemma class_loop_flags: "class_loop cs oc SLAP_OCF_SET_FLAGS m vs = Some r \<Longrightarrow> \<exists>m'. r = Inr m'"
  by (induction vs arbitrary: m) (auto simp: SLAP_OCF_SET_FLAGS_def split: option.splits)

lemma oc_end_nonzero: "SLAP_OC__END \<noteq> 0"
  by (simp add: SLAP_OC__END_def)

lemma entry_objectclass_end:
  "is_entry_objectclass sc cs e oc SLAP_OCF_SET_FLAGS = Some (e', b) \<Longrightarrow>
   has (e_ocflags e') SLAP_OC__END \<and> e_attrs e' = e_attrs e \<and> e_name e' = e_name e"
  by (auto simp: is_entry_objectclass_def bind_eq_Some_conv oc_end_nonzero Let_def dest!: class_loop_flags split: if_splits option.splits)

lemma subentry_end:
  "is_entry_subentry sc cs e = Some (e', b) \<Longrightarrow> has (e_ocflags e') SLAP_OC__END \<and> e_attrs e' = e_attrs e \<and> e_name e' = e_name e"
  by (auto simp: is_entry_subentry_def dest: entry_objectclass_end split: if_splits)

lemma misc_checks_ok:
  assumes "misc_checks sc cs e coll i as asc aoc = Some (Inr (asc', aoc'))"
  shows "(\<forall>a\<in>set as. sat_single_value (type_of sc (a_desc a)) \<longrightarrow> length (vals_of a) \<le> 1) \<and>
    (aoc' = aoc \<or> (\<exists>k<length as. aoc' = Some (i + k) \<and> a_desc (as ! k) = si_ad_objectClass sc \<and> a_desc (as ! k) \<noteq> si_ad_structuralObjectClass cs)) \<and>
    (asc' = asc \<or> (\<exists>k<length as. asc' = Some (i + k) \<and> a_desc (as ! k) = si_ad_structuralObjectClass cs)) \<and>
    (asc' = None \<longrightarrow> asc = None \<and> si_ad_structuralObjectClass cs \<notin> a_desc ` set as)"
  using assms
proof (induction as arbitrary: i asc aoc)
  case (Cons a as)
  let ?oc = "\<lambda>a. a_desc a = si_ad_objectClass sc \<and> a_desc a \<noteq> si_ad_structuralObjectClass cs"
  let ?st = "\<lambda>a. a_desc a = si_ad_structuralObjectClass cs"
  have shift: "x' = x \<or> (\<exists>k<length (a # as). x' = Some (i + k) \<and> P ((a # as) ! k))"
    if "x' = x1 \<or> (\<exists>k<length as. x' = Some (Suc i + k) \<and> P (as ! k))" "x1 = x \<or> x1 = Some i \<and> P a" for x' x1 x :: "nat option" and P
    using that by (metis add_0_right add_Suc add_Suc_right length_Cons not_less_eq nth_Cons_0 nth_Cons_Suc zero_less_Suc)
  from Cons.prems obtain asc1 aoc1 where m: "misc_checks sc cs e coll (Suc i) as asc1 aoc1 = Some (Inr (asc', aoc'))"
    "aoc1 = aoc \<or> aoc1 = Some i \<and> ?oc a" "asc1 = asc \<or> asc1 = Some i \<and> ?st a"
    "asc1 = None \<longrightarrow> asc = None \<and> a_desc a \<noteq> si_ad_structuralObjectClass cs"
    "sat_single_value (type_of sc (a_desc a)) \<longrightarrow> length (vals_of a) \<le> 1"
    by (fastforce simp: bind_eq_Some_conv Let_def split: if_splits)
  note IH = Cons.IH [OF m(1)]
  show ?case using shift [of aoc' aoc1 ?oc aoc] shift [of asc' asc1 ?st asc] IH m(2-5) by auto
qed simp

lemma change_class_grows:
  assumes "change_class cs manage e asc soc oc = Some (Inr (e', socp))" "\<forall>i. asc = Some i \<longrightarrow> i < length (e_attrs e) \<and> a_desc (e_attrs e ! i) = d"
  shows "grows_in sc {d} e e'"
proof (cases "e' = e")
  case False
  with assms obtain i where i: "e' = e\<lparr>e_attrs := (e_attrs e)[i := (e_attrs e ! i)\<lparr>a_vals := Some [soc_cname (oc_store cs oc)]\<rparr>]\<rparr>"
    "i < length (e_attrs e)" "a_desc (e_attrs e ! i) = d"
    by (auto simp: change_class_def bind_eq_Some_conv Let_def split: if_splits)
  have "map a_desc (e_attrs e') = map a_desc (e_attrs e)"
    by (auto simp: i intro!: nth_equalityI simp: nth_list_update)
  then have "a_desc ` set (e_attrs e') = a_desc ` set (e_attrs e)" by (metis set_map)
  moreover have "singles_ok sc e \<longrightarrow> singles_ok sc e'"
    using set_update_subset_insert [of "e_attrs e" i] by (fastforce simp: i(1) singles_ok_def vals_of_def)
  moreover have "a \<in> set (e_attrs e')" if "a \<in> set (e_attrs e)" "a_desc a \<noteq> d" for a
    using that i by (auto simp: in_set_conv_nth nth_list_update)
  ultimately show ?thesis by (simp add: grows_in_def grows_def i(1))
qed simp

lemma find_structural_grows:
  assumes "find_structural sc cs manage e asc oc = Some (Inr (e', socp))"
    "asc = None \<longrightarrow> si_ad_structuralObjectClass cs \<notin> a_desc ` set (e_attrs e)"
    "\<forall>i. asc = Some i \<longrightarrow> i < length (e_attrs e) \<and> a_desc (e_attrs e ! i) = si_ad_structuralObjectClass cs"
  shows "grows_in sc {si_ad_structuralObjectClass cs} e e'"
proof (cases asc)
  case None
  with assms obtain rc e1 where e1: "attr_merge_one sc e (si_ad_structuralObjectClass cs) (soc_cname (oc_store cs oc)) None = Some (rc, e1)"
    "change_class cs manage e1 None oc oc = Some (Inr (e', socp))" by (auto simp: find_structural_def bind_eq_Some_conv)
  have "attr_find (e_attrs e) (si_ad_structuralObjectClass cs) = None" using assms(2) None attr_find_set by metis
  then have "grows_in sc {si_ad_structuralObjectClass cs} e e1"
    using merge_one_grows [OF e1(1)] merge_one_frame [OF e1(1)] by (auto simp: grows_in_def)
  moreover have "grows_in sc {si_ad_structuralObjectClass cs} e1 e'" by (rule change_class_grows [OF e1(2)]) simp
  ultimately show ?thesis using grows_in_trans by fastforce
next
  case (Some i)
  with assms(1) have "\<exists>soc. change_class cs manage e asc soc oc = Some (Inr (e', socp))"
    by (auto simp: find_structural_def bind_eq_Some_conv split: option.splits if_splits)
  then show ?thesis using change_class_grows assms(3) by blast
qed

lemma misc_checked:
  assumes "misc_checks sc cs e coll 0 (e_attrs e) None None = Some (Inr (asc, Some k))"
  shows "singles_ok sc e" "e_attrs e ! k \<in> set (e_attrs e)" "a_desc (e_attrs e ! k) = si_ad_objectClass sc"
    "a_desc (e_attrs e ! k) \<noteq> si_ad_structuralObjectClass cs"
    "asc = None \<longrightarrow> si_ad_structuralObjectClass cs \<notin> a_desc ` set (e_attrs e)"
    "\<forall>i. asc = Some i \<longrightarrow> i < length (e_attrs e) \<and> a_desc (e_attrs e ! i) = si_ad_structuralObjectClass cs"
  using misc_checks_ok [OF assms] by (auto simp: singles_ok_def)

lemma misc_checks_error: "misc_checks sc cs e coll i as asc aoc = Some (Inl rc) \<Longrightarrow> rc \<noteq> LDAP_SUCCESS"
  by (induction as arbitrary: i asc aoc) (auto simp: bind_eq_Some_conv Let_def code_differs LDAP_CONSTRAINT_VIOLATION_def split: if_splits)

lemma find_structural_error: "find_structural sc cs manage e asc oc = Some (Inl (rc, e')) \<Longrightarrow> rc \<noteq> LDAP_SUCCESS"
  by (auto simp: find_structural_def change_class_def bind_eq_Some_conv code_differs LDAP_OTHER_def LDAP_NO_OBJECT_CLASS_MODS_def Let_def
      split: option.splits if_splits)

lemma check_classes_ok:
  assumes "ranked cs" "rules_named cs oc" "most_specific cs socs oc" "has (e_ocflags e) SLAP_OC__END"
    "asc = None \<longrightarrow> si_ad_structuralObjectClass cs \<notin> a_desc ` set (e_attrs e)"
    "\<forall>i. asc = Some i \<longrightarrow> i < length (e_attrs e) \<and> a_desc (e_attrs e ! i) = si_ad_structuralObjectClass cs"
    "add \<longrightarrow> distinct (naming_descs op e)"
    "check_classes sc cs op manage add e asc oc socs = Some (LDAP_SUCCESS, e', socp)"
  shows "grows_in sc (insert (si_ad_structuralObjectClass cs) (if add then set (naming_descs op e) else {})) e e' \<and>
    conforms sc cs op manage e' oc socs \<and> (has (e_ocflags e') SLAP_OC_GLUE \<or> well_named sc op e')"
proof -
  obtain r where r: "find_structural sc cs manage e asc oc = Some r"
    using assms(8) by (cases "find_structural sc cs manage e asc oc") (auto simp: check_classes_def)
  then obtain e1 where f: "find_structural sc cs manage e asc oc = Some (Inr (e1, socp))"
    using assms(8) find_structural_error [of sc cs manage e asc oc]
    by (cases r) (auto simp: check_classes_def bind_eq_Some_conv split: if_splits)
  note g = find_structural_grows [OF f assms(5,6)]
  have glue: "is_entry_glue sc cs e1 = Some (e1, has (e_ocflags e1) SLAP_OC_GLUE)"
    using g assms(4) by (simp add: is_entry_glue_def grows_in_def grows_def)
  from assms(8) have n: "(if has (e_ocflags e1) SLAP_OC_GLUE then Some (LDAP_SUCCESS, e1) else entry_naming_check sc op manage add e1) = Some (LDAP_SUCCESS, e')"
    and c: "content_check sc cs op manage e' oc socs = Some LDAP_SUCCESS"
    by (auto simp: check_classes_def f glue bind_eq_Some_conv split: if_splits)
  have "conforms sc cs op manage e' oc socs"
    using content_check_iff [OF assms(1) _ _ assms(2)] assms(3) c by (fastforce simp: most_specific_def)
  moreover have d: "naming_descs op e1 = naming_descs op e" using g by (simp add: naming_descs_def grows_in_def grows_def)
  have "grows_in sc (if add then set (naming_descs op e) else {}) e1 e' \<and> (has (e_ocflags e') SLAP_OC_GLUE \<or> well_named sc op e')"
    using n entry_naming_check_ok [of sc op manage add e1 e'] assms(7) unfolding d by (auto split: if_splits)
  ultimately show ?thesis using grows_in_trans [OF g] by fastforce
qed

lemma schema_check_ok:
  assumes "ranked cs" "\<And>n c. oc_bvfind cs n = Some c \<Longrightarrow> rules_named cs c" "\<not> no_schema_check_db op" "\<not> no_schema_check op"
    "add \<longrightarrow> distinct (naming_descs op e) \<and> si_ad_objectClass sc \<notin> set (naming_descs op e)"
    "entry_schema_check sc cs op manage add e = Some (LDAP_SUCCESS, e', socp)"
  shows "\<exists>aoc soc socs. aoc \<in> set (e_attrs e') \<and> a_desc aoc = si_ad_objectClass sc \<and>
    map (oc_bvfind cs) (vals_of aoc) = map Some socs \<and> most_specific cs socs soc \<and>
    conforms sc cs op manage e' soc socs \<and> (has (e_ocflags e') SLAP_OC_GLUE \<or> well_named sc op e') \<and> singles_ok sc e'"
proof -
  obtain e1 sub where e1: "is_entry_subentry sc cs e = Some (e1, sub)" using assms(6) by (auto simp: entry_schema_check_def bind_eq_Some_conv)
  note end1 = subentry_end [OF e1]
  let ?coll = "sub \<and> has (e_ocflags e1) SLAP_OC_COLLECTIVEATTRIBUTESUBENTRY"
  have coll: "(if sub then is_entry_collectiveAttributeSubentry sc cs e1 else Some (e1, False)) = Some (e1, ?coll)"
    using end1 by (simp add: is_entry_collectiveAttributeSubentry_def)
  let ?go = "\<lambda>r. case r of Inl rc \<Rightarrow> Some (rc, e1, None)
     | Inr (asc, None) \<Rightarrow> Some (LDAP_OBJECT_CLASS_VIOLATION, e1, None)
     | Inr (asc, Some k) \<Rightarrow> if asc = None \<and> \<not> add then Some (LDAP_OTHER, e1, None)
        else Option.bind (structural_class cs (vals_of (e_attrs e1 ! k))) (\<lambda>(rc, r).
          case r of None \<Rightarrow> Some (rc, e1, None) | Some (oc, socs) \<Rightarrow> check_classes sc cs op manage add e1 asc oc socs)"
  obtain r where r: "misc_checks sc cs e1 ?coll 0 (e_attrs e1) None None = Some r" "?go r = Some (LDAP_SUCCESS, e', socp)"
    using assms(3,4,6) by (auto simp: entry_schema_check_def e1 coll bind_eq_Some_conv)
  have "case r of Inl rc \<Rightarrow> rc \<noteq> LDAP_SUCCESS | Inr p \<Rightarrow> True" using r(1) by (auto dest: misc_checks_error split: sum.splits)
  with r(2) obtain asc k where k: "r = Inr (asc, Some k)" by (cases r) (auto simp: code_differs split: option.splits)
  note m = r(1) [unfolded k] and s = r(2) [unfolded k, simplified]
  note misc = misc_checked [OF m]
  obtain rc r where sc: "structural_class cs (vals_of (e_attrs e1 ! k)) = Some (rc, r)"
    "case r of Some (s, socs) \<Rightarrow> rc = LDAP_SUCCESS \<and> map (oc_bvfind cs) (vals_of (e_attrs e1 ! k)) = map Some socs \<and> most_specific cs socs s
     | None \<Rightarrow> rc = LDAP_OBJECT_CLASS_VIOLATION \<and> (\<nexists>s socs. map (oc_bvfind cs) (vals_of (e_attrs e1 ! k)) = map Some socs \<and> most_specific cs socs s)"
    using structural_class_iff [OF assms(1)] by blast
  from s sc obtain soc socs where c: "check_classes sc cs op manage add e1 asc soc socs = Some (LDAP_SUCCESS, e', socp)"
    "map (oc_bvfind cs) (vals_of (e_attrs e1 ! k)) = map Some socs" "most_specific cs socs soc"
    by (auto simp: code_differs LDAP_OTHER_def split: if_splits option.splits)
  have "Some soc \<in> set (map (oc_bvfind cs) (vals_of (e_attrs e1 ! k)))" using c(2,3) by (simp add: most_specific_def)
  then have named: "rules_named cs soc" using assms(2) by auto
  have d: "naming_descs op e1 = naming_descs op e" using end1 by (simp add: naming_descs_def)
  have "add \<longrightarrow> distinct (naming_descs op e1)" using assms(5) d by simp
  from check_classes_ok [OF assms(1) named c(3) _ misc(5,6) this c(1), unfolded d] end1
  have g: "grows_in sc (insert (si_ad_structuralObjectClass cs) (if add then set (naming_descs op e) else {})) e1 e'"
    and ok: "conforms sc cs op manage e' soc socs" "has (e_ocflags e') SLAP_OC_GLUE \<or> well_named sc op e'" by simp_all
  have "e_attrs e1 ! k \<in> set (e_attrs e')" using g misc(2-4) assms(5) by (auto simp: grows_in_def split: if_splits)
  moreover have "singles_ok sc e'" using g misc(1) by (simp add: grows_in_def grows_def)
  ultimately show ?thesis using ok misc(3) c(2,3) by blast
qed

section \<open>The theorems\<close>

text \<open>C17. structural_class always returns. It succeeds exactly if all names are classes and one of the structural classes
  is a subclass of all of them; this class is the result, whatever the order of the names. The class hierarchy must be
  acyclic.\<close>

theorem structural_class_correct:
  assumes "ranked cs"
  shows "\<exists>rc r. structural_class cs names = Some (rc, r) \<and>
    (case r of
       Some (s, socs) \<Rightarrow> rc = LDAP_SUCCESS \<and> map (oc_bvfind cs) names = map Some socs \<and> most_specific cs socs s
     | None \<Rightarrow> rc = LDAP_OBJECT_CLASS_VIOLATION \<and>
        (\<nexists>s socs. map (oc_bvfind cs) names = map Some socs \<and> most_specific cs socs s))"
  using structural_class_iff [OF assms] .

text \<open>C16. The last part of entry_schema_check, with its loops and early exits, decides whether the entry conforms to its
  classes and to the content rule of its structural class: required attributes are there, precluded ones are not, each
  attribute is allowed by some class or rule, and the classes themselves may be used.\<close>

theorem content_check_decides:
  assumes "ranked cs" "most_specific cs socs soc" "rules_named cs soc"
  shows "\<exists>rc. content_check sc cs op manage e soc socs = Some rc \<and> (rc = LDAP_SUCCESS \<longleftrightarrow> conforms sc cs op manage e soc socs)"
  using content_check_iff [OF assms(1) _ _ assms(3)] assms(2) by (simp add: most_specific_def)

text \<open>C15. An entry that entry_schema_check accepted, with what the check itself has added, conforms to the classes it now has: it has
  an objectClass attribute with one most specific structural class and conforms to this class, to its other classes and to the
  content rule; unless it is glue, each attribute of its RDN is a user attribute of the entry that has the value of the RDN; no
  single-valued attribute has two values. When naming attributes may be added, the RDN must not name a type twice and not be an
  object class (see naming_adds_unchecked_class).\<close>

theorem entry_schema_check_sound:
  assumes "ranked cs" "\<And>n c. oc_bvfind cs n = Some c \<Longrightarrow> rules_named cs c" "\<not> no_schema_check_db op" "\<not> no_schema_check op"
    "add \<longrightarrow> distinct (naming_descs op e) \<and> si_ad_objectClass sc \<notin> set (naming_descs op e)"
    "entry_schema_check sc cs op manage add e = Some (LDAP_SUCCESS, e', socp)"
  shows "\<exists>aoc soc socs. aoc \<in> set (e_attrs e') \<and> a_desc aoc = si_ad_objectClass sc \<and>
    map (oc_bvfind cs) (vals_of aoc) = map Some socs \<and> most_specific cs socs soc \<and>
    conforms sc cs op manage e' soc socs \<and> (has (e_ocflags e') SLAP_OC_GLUE \<or> well_named sc op e') \<and> singles_ok sc e'"
  using schema_check_ok [OF assms] .

section \<open>A small class hierarchy\<close>

text \<open>An abstract class, a structural one that requires the type 3, and an auxiliary one that requires the type 5.\<close>

definition sample_class :: "nat \<Rightarrow> object_class" where
  "sample_class i = no_class
     \<lparr>soc_oid := Some [], soc_cname := (if i = 0 then ''top'' else if i = 1 then ''person'' else ''extra''),
      soc_kind := (if i = 0 then LDAP_SCHEMA_ABSTRACT else if i = 1 then LDAP_SCHEMA_STRUCTURAL else LDAP_SCHEMA_AUXILIARY),
      soc_sups := (if i = 1 \<or> i = 2 then Some [0] else None), soc_required := (if i = 1 then [3] else if i = 2 then [5] else [])\<rparr>"

definition sample_classes :: class_schema where
  "sample_classes = no_classes
     \<lparr>oc_store := sample_class, oc_count := 3, oc_index := Node (Node Null 0 (oir 0 ''top'') Null) 0 (oir 2 ''extra'') (Node Null 0 (oir 1 ''person'') Null)\<rparr>"

definition class_types :: schema where
  "class_types = checked_schema\<lparr>at_store := \<lambda>i. (octet_type i)\<lparr>sat_flags := 0, sat_cname := (if i = 13 then ''objectClass'' else []),
     sat_usage := (if i = 14 then 1 else 0), sat_single_value := (i = 14)\<rparr>\<rparr>"

definition sample_op :: check_op where
  "sample_op = \<lparr>no_schema_check_db = False, no_schema_check = False, global_disallows = 0,
     bv2ad = (\<lambda>n. (LDAP_SUCCESS, if n = ''cn'' then 3 else 13))\<rparr>"

definition plain_attr :: "nat \<Rightarrow> string list \<Rightarrow> attribute" where
  "plain_attr ad vs = \<lparr>a_desc = ad, a_vals = Some vs, a_nvals = Shared, a_numvals = length vs, a_flags = 0\<rparr>"

definition sample_entry :: "string \<Rightarrow> attribute list \<Rightarrow> entry" where
  "sample_entry dn as = \<lparr>e_name = dn, e_nname = dn, e_ocflags = 0, e_attrs = as\<rparr>"

lemma sample_ranked: "ranked sample_classes"
  unfolding ranked_def by (rule exI [of _ "\<lambda>c. if c = 0 then 0 else 1"]) (auto simp: sample_classes_def sample_class_def sups_of_def no_class_def)

lemma sample_rules: "rules_named sample_classes c"
  by (simp add: rules_named_def cr_find_def cr_bvfind_def sample_classes_def sample_class_def no_classes_def avl_find_def)

text \<open>The naming attribute and the structural class are added.\<close>

lemma sample_checked:
  "entry_schema_check class_types sample_classes sample_op False True (sample_entry ''cn=x'' [plain_attr 13 [''person'', ''top'']]) =
   Some (LDAP_SUCCESS, (sample_entry ''cn=x'' [plain_attr 13 [''person'', ''top''], plain_attr 14 [''person''], plain_attr 3 [''x'']])
      \<lparr>e_ocflags := SLAP_OC__END\<rparr>, None)"
  by code_simp

lemma sample_specific: "most_specific sample_classes [1, 0] 1"
  by (simp add: most_specific_def sample_classes_def sample_class_def)

theorem structural_class_correct_witness:
  "structural_class sample_classes [''person'', ''top''] = Some (LDAP_SUCCESS, Some (1, [1, 0])) \<and> most_specific sample_classes [1, 0] 1"
proof -
  have "structural_class sample_classes [''person'', ''top''] = Some (LDAP_SUCCESS, Some (1, [1, 0]))" by code_simp
  then show ?thesis using structural_class_correct [OF sample_ranked, of "[''person'', ''top'']"] by simp
qed

theorem content_check_decides_witness:
  "\<exists>rc. content_check class_types sample_classes sample_op False (sample_entry ''cn=x'' [plain_attr 13 [''person'', ''top''], plain_attr 3 [''x'']]) 1 [1, 0] = Some rc \<and>
     (rc = LDAP_SUCCESS \<longleftrightarrow> conforms class_types sample_classes sample_op False
        (sample_entry ''cn=x'' [plain_attr 13 [''person'', ''top''], plain_attr 3 [''x'']]) 1 [1, 0])"
  using content_check_decides [OF sample_ranked sample_specific sample_rules] .

theorem entry_schema_check_sound_witness:
  "well_named class_types sample_op ((sample_entry ''cn=x'' [plain_attr 13 [''person'', ''top''], plain_attr 14 [''person''], plain_attr 3 [''x'']])\<lparr>e_ocflags := SLAP_OC__END\<rparr>) \<and>
   (\<exists>soc socs. most_specific sample_classes socs soc \<and> conforms class_types sample_classes sample_op False
     ((sample_entry ''cn=x'' [plain_attr 13 [''person'', ''top''], plain_attr 14 [''person''], plain_attr 3 [''x'']])\<lparr>e_ocflags := SLAP_OC__END\<rparr>) soc socs)"
proof -
  have "naming_descs sample_op (sample_entry ''cn=x'' [plain_attr 13 [''person'', ''top'']]) = [3]" "si_ad_objectClass class_types = 13"
    "\<not> has SLAP_OC__END SLAP_OC_GLUE" by code_simp+
  then show ?thesis using entry_schema_check_sound [OF sample_ranked sample_rules _ _ _ sample_checked] by (auto simp: sample_op_def)
qed

text \<open>A missing attribute of the structural class is found.\<close>

lemma missing_refused:
  "map_option fst (entry_schema_check class_types sample_classes sample_op False True
     (sample_entry [] [plain_attr 13 [''person'', ''top'']])) = Some LDAP_OBJECT_CLASS_VIOLATION"
  by code_simp

text \<open>The naming check runs after the classes were collected: when an entry is named by its object class, it adds a class that
  nobody checks. Here the class requires the type 5, which the entry does not have.\<close>

lemma naming_adds_unchecked_class:
  "entry_schema_check class_types sample_classes sample_op False True (sample_entry ''objectClass=extra'' [plain_attr 13 [''person''], plain_attr 3 [''x'']]) =
   Some (LDAP_SUCCESS, (sample_entry ''objectClass=extra'' [plain_attr 13 [''person'', ''extra''], plain_attr 3 [''x''], plain_attr 14 [''person'']])
      \<lparr>e_ocflags := SLAP_OC__END\<rparr>, None)"
  by code_simp

end
