(* ===== verification/Spec2Isabelle.thy ===== *)
theory Spec2Isabelle
  imports Quorum_Config Cookie_Text Idl Pending_Csn Attr_Index Rurw_Lock Ber_Decode Filter_Entry Schema_Check
begin

text \<open>
  ReOpenLDAP, verified parts of the slapd server.

  \<^bold>\<open>The program.\<close> slapd answers LDAP operations from databases and replicates them. A write
  operation takes a change sequence number (CSN) from the clock, waits in the queue of pending CSNs
  of its database, and when it commits the newest CSN that may be announced becomes the context
  CSN. Replicas exchange cookies, one CSN per server, and merge them. The quorum decides from the
  status of the replication links whether a database may serve. The mdb backend answers searches
  from lists of entry IDs. Schema tables and caches are AVL trees.

  \<^bold>\<open>Theories and sources.\<close> Names of definitions are those of the sources.
  \<^item> \<^verbatim>\<open>Prelude\<close>: the abort monad, the run-time modes, bytes, C strings and numbers, sorting.
  \<^item> \<^verbatim>\<open>Csn\<close>, \<^verbatim>\<open>Csn_Set\<close>: CSNs and arrays of CSNs, the second half of \<^verbatim>\<open>servers/slapd/ldapsync.c\<close> and
    array functions of \<^verbatim>\<open>value.c\<close>; \<^verbatim>\<open>Csn_Schema\<close>: the CSN syntaxes of \<^verbatim>\<open>schema_init.c\<close>.
  \<^item> \<^verbatim>\<open>Version_Vector\<close>: the abstract specification of replication state, a map from server IDs to
    CSNs with its join, and the locale \<open>replica_vector\<close> of anything that implements it.
  \<^item> \<^verbatim>\<open>Sync_Cookie\<close>, \<^verbatim>\<open>Cookie_Text\<close>: cookies and their textual form, the first half of \<^verbatim>\<open>ldapsync.c\<close>.
  \<^item> \<^verbatim>\<open>Quorum\<close>, \<^verbatim>\<open>Quorum_Config\<close>: \<^verbatim>\<open>quorum.c\<close>, the record, the notifications, the verdict and its cache,
    the gate, the configuration keyword.
  \<^item> \<^verbatim>\<open>Pending_Csn\<close>: \<^verbatim>\<open>ctxcsn.c\<close>, the queue of pending CSNs.
  \<^item> \<^verbatim>\<open>Idl\<close>: \<^verbatim>\<open>back-mdb/idl.c\<close> and \<^verbatim>\<open>idl.h\<close>, lists and ranges of entry IDs.
  \<^item> \<^verbatim>\<open>Avl\<close>: \<^verbatim>\<open>libraries/liblutil/avl.c\<close>; \<^verbatim>\<open>Attr_Index\<close>: the attribute type table of \<^verbatim>\<open>at.c\<close>, its client.
  \<^item> \<^verbatim>\<open>Rurw_Lock\<close>: \<^verbatim>\<open>rurwl.c\<close>, the recursive read-write lock, with the calls and wake-ups of all threads as
    the step relation \<open>rurw_step\<close>.
  \<^item> \<^verbatim>\<open>Ber_Encode\<close>, \<^verbatim>\<open>Ber_Decode\<close>: the BER codec of \<^verbatim>\<open>libraries/libreldap\<close> (\<^verbatim>\<open>encode.c\<close>, \<^verbatim>\<open>decode.c\<close>, buffer functions
    of \<^verbatim>\<open>io.c\<close>), with \<^verbatim>\<open>ber_printf\<close> and \<^verbatim>\<open>ber_scanf\<close> as interpreters of their formats.
  \<^item> \<^verbatim>\<open>Value_Match\<close>: attribute descriptions, matching rules and the comparison of values (\<^verbatim>\<open>ad.c\<close>, \<^verbatim>\<open>mr.c\<close>,
    \<^verbatim>\<open>value.c\<close>, the octet string rules of \<^verbatim>\<open>schema_init.c\<close>); the functions of a rule are fields of its record.
  \<^item> \<^verbatim>\<open>Entry_Attr\<close>: \<^verbatim>\<open>attr.c\<close>, the attributes of an entry with their sorted and normalised values.
  \<^item> \<^verbatim>\<open>Filter_Entry\<close>: \<^verbatim>\<open>filterentry.c\<close>, the test of a search filter against an entry; access control, the
    \<^verbatim>\<open>hasSubordinates\<close> callback and the DN parser are functions of the operation.
  \<^item> \<^verbatim>\<open>Ordered_Values\<close>: the X-ORDERED values of \<^verbatim>\<open>value.c\<close>, numbered, sorted and inserted by their index.
  \<^item> \<^verbatim>\<open>Modify_Values\<close>: \<^verbatim>\<open>mods.c\<close>, adding, deleting, replacing and incrementing the values of an entry.
  \<^item> \<^verbatim>\<open>Sort_Values\<close>: \<^verbatim>\<open>slap_sort_vals\<close> of \<^verbatim>\<open>modify.c\<close>, the quicksort of values through an index array, with its stack.
  \<^item> \<^verbatim>\<open>Mods_Check\<close>: the checks of \<^verbatim>\<open>modify.c\<close> on modifications before they are applied.
  \<^item> \<^verbatim>\<open>Object_Class\<close>, \<^verbatim>\<open>Class_Table\<close>: \<^verbatim>\<open>oc.c\<close>, \<^verbatim>\<open>cr.c\<close> and the OID macros of \<^verbatim>\<open>oidm.c\<close>, the tables of object classes and content
    rules with their inheritance; the fuel of \<open>oc_add_sups\<close> and of \<open>is_object_subclass\<close> is the number of classes, enough for an acyclic hierarchy.
  \<^item> \<^verbatim>\<open>Dn_Value\<close>, \<^verbatim>\<open>Dn_Text\<close>: \<^verbatim>\<open>libraries/libreldap/getdn.c\<close>, distinguished names as text: the readers and printers of values, the
    state machine of the parser, the output formats and the conversions between them.
  \<^item> \<^verbatim>\<open>Schema_Check\<close>: \<^verbatim>\<open>schema_check.c\<close>, the check of an entry against its classes, content rule and name, which it parses
    with \<^verbatim>\<open>Dn_Text\<close>.

  \<^bold>\<open>Conventions.\<close> A function that may fail an assertion, read outside a buffer, dereference a null
  pointer or never return is a value of an option type, \<open>None\<close> being that outcome; a result
  \<open>Some r\<close> therefore says that the code returns. Pointers are numbers or positions; a mutex makes
  a function one atomic step (of the read-write lock also the calls that wait without it), and interleavings are step relations (\<open>quorum_step\<close>, \<open>pcl_step\<close>).
  Integers are unbounded where the sources stay far below their width and words or explicit
  reductions where they do not (hashes, ID cursors, digit parsing).

  \<^bold>\<open>What is shown.\<close>
  \<^item> Merging cookies computes the join of version vectors, so replicas converge whatever the order
    and multiplicity of merges; composing and parsing a cookie is a round trip; arrays of CSNs are
    validated, sorted, compared and pulled as their version vectors demand.
  \<^item> Every reachable quorum record satisfies its invariant, no operation of the module
    aborts (the refresh gate under a condition on its counter), the gate keeps its limit, the emitted configuration reads back.
  \<^item> Under every interleaving the queue of pending CSNs stays ordered, and a CSN is announced only
    when no older change of the same server is pending.
  \<^item> Search, insertion, intersection and union of ID lists are correct up to the two deviations below.
  \<^item> AVL insertion and deletion implement dictionary update and removal, keep the trees balanced and
    ordered, and the parent stack suffices for every tree that fits an address space; entering an
    attribute type is atomic.
  \<^item> For threads with distinct indices the read-write lock excludes writers from everybody else under every
    interleaving and its calls return exactly when they should; an upgrade waits for itself for ever.
  \<^item> \<^verbatim>\<open>ber_printf\<close> refines a stack of open elements and writes the encoding of a value; \<^verbatim>\<open>ber_scanf\<close> reads it
    back; flattening in place returns what was written, unless the allocation is full; on arbitrary input the reader stays inside its buffer; strings parsed in place stay intact.
  \<^item> Filters implement three-valued logic, equality and substring items have their declarative meaning, sorted
    values stay sorted and are found by bisection, and the values of attributes that may not be searched do
    not influence a filter, except through extensible matches with a type, whose result is characterised.
  \<^item> Deleting values removes exactly the equal ones or nothing, adding and deleting is a round trip, and ordered
    values go to the place their index names.
  \<^item> \<^verbatim>\<open>slap_sort_vals\<close> ends within its fixed stack, finds every duplicate and sorts; a modification that
    \<^verbatim>\<open>slap_mods_check\<close> accepted is added as a whole or not at all and leaves the attribute well-formed.
  \<^item> As long as no class is deleted, adding object classes keeps the hierarchy acyclic, and a class inherits the attributes of
    all its superclasses, except where \<^verbatim>\<open>top\<close> is an implicit one; the structural class is the most specific one; an entry that passes
    the schema check conforms to the classes it then has and holds the values of its RDN.
  \<^item> The parser of distinguished names always returns, and a name printed in the LDAPv3 format reads back.
  \<^item> Deviations of the code from its documentation or purpose are proved as lemmas, most of them on concrete
    inputs (names with \<open>phantom\<close>, \<open>stale\<close>, \<open>misses\<close>, \<open>breaks\<close>, \<open>asserts\<close>, \<open>forward\<close>, \<open>never_returns\<close>, \<open>lost\<close>, \<open>never_demands\<close>, \<open>ignores\<close>, \<open>forgets\<close>, \<open>stays\<close>, \<open>overflows\<close>, \<open>unchecked\<close>, \<open>accepted\<close>, \<open>cycle\<close>).

  \<^bold>\<open>Bounds and fuel.\<close> Loops are recursive functions with measures. The element-wise intersection of ID
  lists is a partial function and is proved to return. The walk along superior attribute types has
  fuel; a rank of the type is enough, as is the number of types or syntaxes for an acyclic hierarchy. The parent stack of AVL deletion has 64 places; a tree needs
  44945570212852 nodes to be deeper.

  \<^bold>\<open>Interfaces.\<close> \<open>replica_vector\<close> is interpreted for cookies, \<open>keyed_cmp\<close>, the contract of an AVL
  comparison function, for the tables of attribute types, object classes and content rules. \<open>matching_order\<close>, what sorted values need of their
  equality rule, is interpreted for the octet string rules; \<open>value_sort\<close>, the comparison the quicksort calls,
  is interpreted on the same rules.

  \<^bold>\<open>Not modelled.\<close> Sockets, threads and TLS, the normalisation of distinguished names by the schema, access control, the
  replication sessions, backends other than the ID lists, overlays, tools. Of the modelled files:
  memory management, the debug output, the reading of index records through libmdbx (a vendored
  library), and the construction of the context CSN entry.
\<close>

end
